(* ===== verification/Prelude.thy ===== *)
theory Prelude
  imports Main "HOL-Library.Word" "HOL-Library.Char_ord" "HOL-Library.List_Lexorder"
    "HOL-Library.Multiset" "HOL-Library.Monad_Syntax"
begin

text \<open>
  Shared vocabulary of the development: Go byte strings, the parts of Go's standard library
  the modelled packages call (\<open>strings\<close>, \<open>encoding/hex\<close>, \<open>encoding/base64\<close>,
  \<open>bufio.Scanner\<close>), the collections of automation rules, and generic lemmas on lists and maps.

  A Go string or \<open>[]byte\<close> is an Isabelle \<open>string\<close>: a list of 8-bit characters, so that
  \<open>length\<close> counts bytes as Go's \<open>len\<close> does.  The order on strings is Go's bytewise order
  (\<open>List_Lexorder\<close> over \<open>Char_ord\<close>).
\<close>

named_theorems codec \<open>round trips of encoders and decoders\<close>

named_theorems frame \<open>what an operation leaves unchanged\<close>

type_synonym bytes = string

type_synonym u64 = "64 word"

abbreviation LF :: char where "LF \<equiv> CHR 0x0A"

abbreviation CR :: char where "CR \<equiv> CHR 0x0D"


section \<open>Errors as values\<close>

text \<open>Sequencing of fallible steps: a Go function returns early with the first error.\<close>

definition bind_err :: "'e + 'a \<Rightarrow> ('a \<Rightarrow> 'e + 'b) \<Rightarrow> 'e + 'b" where
  "bind_err r k = (case r of Inl e \<Rightarrow> Inl e | Inr x \<Rightarrow> k x)"

lemma bind_err_simps [simp]:
  "bind_err (Inl e) k = Inl e"
  "bind_err (Inr x) k = k x"
  by (simp_all add: bind_err_def)

lemma bind_err_Inr: "bind_err r k = Inr y \<longleftrightarrow> (\<exists>x. r = Inr x \<and> k x = Inr y)"
  by (cases r) auto

lemma bind_err_Inl: "bind_err r k = Inl e \<longleftrightarrow> r = Inl e \<or> (\<exists>x. r = Inr x \<and> k x = Inl e)"
  by (cases r) auto

definition is_ok :: "'e + 'a \<Rightarrow> bool" where
  "is_ok r \<longleftrightarrow> (case r of Inl _ \<Rightarrow> False | Inr _ \<Rightarrow> True)"

lemma is_ok_simps [simp]:
  "is_ok (Inl e) = False"
  "is_ok (Inr x) = True"
  by (simp_all add: is_ok_def)

lemma is_ok_iff: "is_ok r \<longleftrightarrow> (\<exists>x. r = Inr x)"
  by (cases r) auto


section \<open>Strings\<close>

definition has_prefix :: "string \<Rightarrow> string \<Rightarrow> bool" where
  "has_prefix s p \<longleftrightarrow> take (length p) s = p"

definition has_suffix :: "string \<Rightarrow> string \<Rightarrow> bool" where
  "has_suffix s p \<longleftrightarrow> length p \<le> length s \<and> drop (length s - length p) s = p"

definition trim_prefix :: "string \<Rightarrow> string \<Rightarrow> string" where
  "trim_prefix s p = (if has_prefix s p then drop (length p) s else s)"

definition trim_suffix :: "string \<Rightarrow> string \<Rightarrow> string" where
  "trim_suffix s p = (if has_suffix s p then take (length s - length p) s else s)"

lemma has_prefix_append [simp]: "has_prefix (p @ s) p"
  by (simp add: has_prefix_def)

lemma has_suffix_append [simp]: "has_suffix (s @ p) p"
  by (simp add: has_suffix_def)

lemma trim_prefix_append [simp]: "trim_prefix (p @ s) p = s"
  by (simp add: trim_prefix_def)

lemma has_suffix_trim: "has_suffix n p \<Longrightarrow> trim_suffix n p @ p = n"
  by (auto simp: has_suffix_def trim_suffix_def) (metis append_take_drop_id)

lemma trim_suffix_append [simp]: "trim_suffix (s @ p) p = s"
  by (simp add: trim_suffix_def)

text \<open>
  The encodings of the code points for which \<open>unicode.IsSpace\<close> holds, in UTF-8, and
  \<open>strings.TrimSpace\<close>, which removes them from both ends.
\<close>

definition space_encodings :: "string list" where
  "space_encodings =
     [[CHR 0x09], [CHR 0x0A], [CHR 0x0B], [CHR 0x0C], [CHR 0x0D], [CHR 0x20],
      [CHR 0xC2, CHR 0x85], [CHR 0xC2, CHR 0xA0], [CHR 0xE1, CHR 0x9A, CHR 0x80],
      [CHR 0xE2, CHR 0x80, CHR 0x80], [CHR 0xE2, CHR 0x80, CHR 0x81],
      [CHR 0xE2, CHR 0x80, CHR 0x82], [CHR 0xE2, CHR 0x80, CHR 0x83],
      [CHR 0xE2, CHR 0x80, CHR 0x84], [CHR 0xE2, CHR 0x80, CHR 0x85],
      [CHR 0xE2, CHR 0x80, CHR 0x86], [CHR 0xE2, CHR 0x80, CHR 0x87],
      [CHR 0xE2, CHR 0x80, CHR 0x88], [CHR 0xE2, CHR 0x80, CHR 0x89],
      [CHR 0xE2, CHR 0x80, CHR 0x8A], [CHR 0xE2, CHR 0x80, CHR 0xA8],
      [CHR 0xE2, CHR 0x80, CHR 0xA9], [CHR 0xE2, CHR 0x80, CHR 0xAF],
      [CHR 0xE2, CHR 0x81, CHR 0x9F], [CHR 0xE3, CHR 0x80, CHR 0x80]]"

text \<open>Length of the space character a string starts with, 0 when it starts with none.\<close>

definition space_at :: "string \<Rightarrow> nat" where
  "space_at s = (case find (has_prefix s) space_encodings of None \<Rightarrow> 0 | Some e \<Rightarrow> length e)"

function trim_left :: "string \<Rightarrow> string" where
  "trim_left s =
     (if s = [] \<or> space_at s = 0 then s else trim_left (drop (space_at s) s))"
  by pat_completeness auto
termination
  by (relation "measure length") auto

declare trim_left.simps [simp del]

definition space_end :: "string \<Rightarrow> nat" where
  "space_end s = (case find (has_suffix s) space_encodings of None \<Rightarrow> 0 | Some e \<Rightarrow> length e)"

function trim_right :: "string \<Rightarrow> string" where
  "trim_right s =
     (if s = [] \<or> space_end s = 0 then s
      else trim_right (take (length s - space_end s) s))"
  by pat_completeness auto
termination
  by (relation "measure length") auto

declare trim_right.simps [simp del]

definition trim_space :: "string \<Rightarrow> string" where
  "trim_space s = trim_right (trim_left s)"

definition is_blank :: "string \<Rightarrow> bool" where
  "is_blank s \<longleftrightarrow> trim_left s = []"

lemma is_blank_Nil [simp]: "is_blank []"
  by (simp add: is_blank_def trim_left.simps)

text \<open>A string that starts with a printable ASCII character is not blank.\<close>

lemma space_at_printable:
  assumes "of_char c > (0x20::nat)" and "of_char c < (0x80::nat)"
  shows "space_at (c # s) = 0"
proof -
  have ne: "c \<noteq> d" if "of_char d \<le> (0x20::nat) \<or> of_char d \<ge> (0x80::nat)" for d
    using assms that by auto
  have "\<not> has_prefix (c # s) e" if "e \<in> set space_encodings" for e
    using that ne by (auto simp: space_encodings_def has_prefix_def)
  then have "find (has_prefix (c # s)) space_encodings = None"
    by (simp add: find_None_iff)
  then show ?thesis by (simp add: space_at_def)
qed

lemma not_blank_printable:
  assumes "of_char c > (0x20::nat)" and "of_char c < (0x80::nat)"
  shows "\<not> is_blank (c # s)"
  using space_at_printable[OF assms]
  by (simp add: is_blank_def trim_left.simps[of "c # s"])

text \<open>ASCII case folding: \<open>strings.ToLower\<close> and \<open>strings.EqualFold\<close> on ASCII text.\<close>

definition lower_char :: "char \<Rightarrow> char" where
  "lower_char c = (if CHR ''A'' \<le> c \<and> c \<le> CHR ''Z'' then char_of (of_char c + (32::nat)) else c)"

definition to_lower :: "string \<Rightarrow> string" where
  "to_lower = map lower_char"

definition equal_fold :: "string \<Rightarrow> string \<Rightarrow> bool" where
  "equal_fold a b \<longleftrightarrow> to_lower a = to_lower b"

lemma equal_fold_refl [simp]: "equal_fold a a"
  by (simp add: equal_fold_def)

lemma equal_fold_sym: "equal_fold a b \<longleftrightarrow> equal_fold b a"
  by (auto simp: equal_fold_def)

lemma equal_fold_trans: "equal_fold a b \<Longrightarrow> equal_fold b c \<Longrightarrow> equal_fold a c"
  by (simp add: equal_fold_def)


section \<open>Sorting\<close>

text \<open>\<open>sort.Slice\<close> by an integer key, and what it promises: the order of equal keys is not fixed.\<close>

type_synonym 'a sorter = "('a \<Rightarrow> int) \<Rightarrow> 'a list \<Rightarrow> 'a list"

definition sort_ok :: "'a sorter \<Rightarrow> bool" where
  "sort_ok S \<longleftrightarrow> (\<forall>k xs. mset (S k xs) = mset xs \<and> sorted (map k (S k xs)))"

lemma sort_ok_set: "sort_ok S \<Longrightarrow> set (S k xs) = set xs"
  by (metis sort_ok_def set_mset_mset)

lemma sort_ok_length: "sort_ok S \<Longrightarrow> length (S k xs) = length xs"
  by (simp add: sort_ok_def flip: size_mset)

lemma sort_ok_sorted: "sort_ok S \<Longrightarrow> sorted (map k (S k xs))"
  by (simp add: sort_ok_def)

end
