(* ===== verification/Go_Codec.thy ===== *)
theory Go_Codec
  imports Prelude
begin

text \<open>
  The byte-level codecs of Go's standard library the program uses: \<open>encoding/hex\<close>,
  \<open>encoding/base64\<close> (\<open>StdEncoding\<close>) and the line splitting of \<open>bufio.Scanner\<close>, with
  their round trips.  The scanner keeps its default buffer limit of 64 KiB: a longer line
  ends the scan with an error.
\<close>


section \<open>Hexadecimal\<close>

definition hex_char :: "nat \<Rightarrow> char" where
  "hex_char n = (if n < 10 then char_of (n + 48) else char_of (n + 87))"

definition hex_encode :: "bytes \<Rightarrow> string" where
  "hex_encode s = concat (map (\<lambda>c. [hex_char (of_char c div 16), hex_char (of_char c mod 16)]) s)"

definition hex_val :: "char \<Rightarrow> nat option" where
  "hex_val c =
     (let n = of_char c in
      if 48 \<le> n \<and> n \<le> 57 then Some (n - 48)
      else if 97 \<le> n \<and> n \<le> 102 then Some (n - 87)
      else if 65 \<le> n \<and> n \<le> 70 then Some (n - 55)
      else None)"

fun hex_decode :: "string \<Rightarrow> bytes option" where
  "hex_decode [] = Some []"
| "hex_decode [a] = None"
| "hex_decode (a # b # s) =
     (case (hex_val a, hex_val b) of
        (Some x, Some y) \<Rightarrow> map_option (\<lambda>t. char_of (16 * x + y) # t) (hex_decode s)
      | _ \<Rightarrow> None)"

lemma of_char_char_of [simp]: "of_char (char_of n :: char) = (n mod 256 :: nat)"
  by (simp add: of_char_of)

lemma of_char_less_256 [simp]: "of_char c < (256::nat)"
proof -
  have "of_char c = (of_char (char_of (of_char c :: nat) :: char) :: nat)" by simp
  also have "\<dots> = of_char c mod 256" by (rule of_char_char_of)
  finally show ?thesis by (metis mod_less_divisor zero_less_numeral)
qed

lemma hex_val_char: "n < 16 \<Longrightarrow> hex_val (hex_char n) = Some n"
  by (auto simp: hex_val_def hex_char_def Let_def)

lemma hex_decode_encode [simp, codec]: "hex_decode (hex_encode s) = Some s"
proof (induction s)
  case Nil
  show ?case by (simp add: hex_encode_def)
next
  case (Cons c s)
  have "of_char c div 16 < (16::nat)"
    using of_char_less_256[of c] by (simp add: less_mult_imp_div_less)
  moreover have "of_char c mod 16 < (16::nat)" by simp
  moreover have "16 * (of_char c div 16) + of_char c mod 16 = (of_char c :: nat)" by simp
  ultimately show ?case
    using Cons by (simp add: hex_encode_def hex_val_char)
qed

lemma length_hex_encode [simp]: "length (hex_encode s) = 2 * length s"
  by (induction s) (auto simp: hex_encode_def)

lemma hex_encode_inject [simp]: "hex_encode a = hex_encode b \<longleftrightarrow> a = b"
  using hex_decode_encode by (metis option.inject)

text \<open>The characters of a hexadecimal string are ASCII digits and lower-case letters.\<close>

definition is_alnum_char :: "char \<Rightarrow> bool" where
  "is_alnum_char c \<longleftrightarrow>
     (let n = of_char c :: nat in 48 \<le> n \<and> n \<le> 57 \<or> 97 \<le> n \<and> n \<le> 122 \<or> 65 \<le> n \<and> n \<le> 90)"

lemma hex_char_alnum: "n < 16 \<Longrightarrow> is_alnum_char (hex_char n)"
  by (auto simp: is_alnum_char_def hex_char_def Let_def)

lemma hex_encode_chars: "c \<in> set (hex_encode s) \<Longrightarrow> is_alnum_char c"
  using of_char_less_256
  by (auto simp: hex_encode_def less_mult_imp_div_less intro!: hex_char_alnum)


section \<open>Base64\<close>

definition b64_char :: "nat \<Rightarrow> char" where
  "b64_char n =
     (if n < 26 then char_of (n + 65)
      else if n < 52 then char_of (n + 71)
      else if n < 62 then char_of (n - 4)
      else if n = 62 then CHR ''+'' else CHR ''/'')"

definition b64_val :: "char \<Rightarrow> nat option" where
  "b64_val c =
     (let n = of_char c in
      if 65 \<le> n \<and> n \<le> 90 then Some (n - 65)
      else if 97 \<le> n \<and> n \<le> 122 then Some (n - 71)
      else if 48 \<le> n \<and> n \<le> 57 then Some (n + 4)
      else if n = 43 then Some 62
      else if n = 47 then Some 63
      else None)"

fun b64_encode :: "bytes \<Rightarrow> string" where
  "b64_encode [] = []"
| "b64_encode [a] =
     (let x = of_char a in
      [b64_char (x div 4), b64_char (x mod 4 * 16), CHR ''='', CHR ''=''])"
| "b64_encode [a, b] =
     (let x = of_char a; y = of_char b in
      [b64_char (x div 4), b64_char (x mod 4 * 16 + y div 16),
       b64_char (y mod 16 * 4), CHR ''=''])"
| "b64_encode (a # b # c # s) =
     (let x = of_char a; y = of_char b; z = of_char c in
      [b64_char (x div 4), b64_char (x mod 4 * 16 + y div 16),
       b64_char (y mod 16 * 4 + z div 64), b64_char (z mod 64)] @ b64_encode s)"

text \<open>
  The decoder skips carriage returns and newlines, wants groups of four with the padding at
  the very end, and does not check the unused trailing bits (\<open>StdEncoding\<close> is not strict).
\<close>

fun b64_groups :: "string \<Rightarrow> bytes option" where
  "b64_groups [] = Some []"
| "b64_groups (a # b # c # d # s) =
     (case (b64_val a, b64_val b) of
        (Some w, Some x) \<Rightarrow>
          (if c = CHR ''='' then
             (if d = CHR ''='' \<and> s = [] then Some [char_of (w * 4 + x div 16)] else None)
           else case b64_val c of
             None \<Rightarrow> None
           | Some y \<Rightarrow>
               (if d = CHR ''='' then
                  (if s = [] then
                     Some [char_of (w * 4 + x div 16), char_of (x mod 16 * 16 + y div 4)]
                   else None)
                else case b64_val d of
                  None \<Rightarrow> None
                | Some z \<Rightarrow>
                    map_option (\<lambda>t. char_of (w * 4 + x div 16)
                        # char_of (x mod 16 * 16 + y div 4) # char_of (y mod 4 * 64 + z) # t)
                      (b64_groups s)))
      | _ \<Rightarrow> None)"
| "b64_groups _ = None"

definition b64_decode :: "string \<Rightarrow> bytes option" where
  "b64_decode s = b64_groups (filter (\<lambda>c. c \<noteq> CR \<and> c \<noteq> LF) s)"

lemma b64_val_char: "n < 64 \<Longrightarrow> b64_val (b64_char n) = Some n"
  by (auto simp: b64_val_def b64_char_def Let_def)

definition is_b64_char :: "char \<Rightarrow> bool" where
  "is_b64_char c \<longleftrightarrow> is_alnum_char c \<or> c = CHR ''+'' \<or> c = CHR ''/'' \<or> c = CHR ''=''"

lemma b64_char_is: "n < 64 \<Longrightarrow> is_b64_char (b64_char n)"
  by (auto simp: is_b64_char_def is_alnum_char_def b64_char_def Let_def)

lemma b64_char_ne: "n < 64 \<Longrightarrow> b64_char n \<noteq> CHR ''=''"
proof
  assume "n < 64" and "b64_char n = CHR ''=''"
  then have "b64_val (CHR ''='') = Some n" using b64_val_char by metis
  then show False by (simp add: b64_val_def)
qed

lemma pack_div: "(r::nat) < m \<Longrightarrow> (q * m + r) div m = q"
  by simp

lemma pack_mod: "(r::nat) < m \<Longrightarrow> (q * m + r) mod m = r"
  by simp

lemma pack_less: "(q::nat) < k \<Longrightarrow> r < m \<Longrightarrow> q * m + r < k * m"
  by (metis add_less_cancel_left div_less_iff_less_mult less_nat_zero_code not_less_eq pack_div zero_less_iff_neq_zero)

lemma split_two: fixes x y :: nat
  assumes "x < 256" and "y < 256"
  shows "x div 4 < 64" and "x mod 4 * 16 < 64" and "x mod 4 * 16 + y div 16 < 64"
    and "y mod 16 * 4 < 64"
    and "x div 4 * 4 + (x mod 4 * 16 + y div 16) div 16 = x"
    and "x div 4 * 4 + (x mod 4 * 16) div 16 = x"
    and "(x mod 4 * 16 + y div 16) mod 16 * 16 + (y mod 16 * 4) div 4 = y"
proof -
  have y: "y div 16 < 16" using assms by (simp add: less_mult_imp_div_less)
  have x: "x mod 4 < 4" by simp
  show "x div 4 < 64" using assms by (simp add: less_mult_imp_div_less)
  show "x mod 4 * 16 < 64" using x by linarith
  show "x mod 4 * 16 + y div 16 < 64" using pack_less[OF x y] by simp
  have "y mod 16 < 16" by simp
  then show "y mod 16 * 4 < 64" by linarith
  show "x div 4 * 4 + (x mod 4 * 16 + y div 16) div 16 = x"
    using pack_div[OF y] by simp
  show "x div 4 * 4 + (x mod 4 * 16) div 16 = x" by simp
  show "(x mod 4 * 16 + y div 16) mod 16 * 16 + (y mod 16 * 4) div 4 = y"
    using pack_mod[OF y] by simp
qed

lemma split_three: fixes x y z :: nat
  assumes "x < 256" and "y < 256" and "z < 256"
  shows "y mod 16 * 4 + z div 64 < 64" and "z mod 64 < 64"
    and "(x mod 4 * 16 + y div 16) mod 16 * 16 + (y mod 16 * 4 + z div 64) div 4 = y"
    and "(y mod 16 * 4 + z div 64) mod 4 * 64 + z mod 64 = z"
proof -
  have z: "z div 64 < 4" and y: "y div 16 < 16"
    using assms by (simp_all add: less_mult_imp_div_less)
  have ym: "y mod 16 < 16" by simp
  show "y mod 16 * 4 + z div 64 < 64" using pack_less[OF ym z] by simp
  show "z mod 64 < 64" by simp
  show "(x mod 4 * 16 + y div 16) mod 16 * 16 + (y mod 16 * 4 + z div 64) div 4 = y"
    using pack_mod[OF y, of "x mod 4"] pack_div[OF z, of "y mod 16"] by simp
  show "(y mod 16 * 4 + z div 64) mod 4 * 64 + z mod 64 = z"
    using pack_mod[OF z, of "y mod 16"] by simp
qed

lemma char_of_eqI: "(n::nat) = of_char c \<Longrightarrow> char_of n = c"
  by simp

lemma b64_encode_chars: "d \<in> set (b64_encode s) \<Longrightarrow> is_b64_char d"
proof (induction s rule: b64_encode.induct)
  case (2 a)
  show ?case
    using 2 split_two[of "of_char a" 0]
    by (auto simp: Let_def is_b64_char_def[of "CHR ''=''"] intro: b64_char_is)
next
  case (3 a b)
  show ?case
    using 3 split_two[of "of_char a" "of_char b"]
    by (auto simp: Let_def is_b64_char_def[of "CHR ''=''"] intro: b64_char_is)
next
  case (4 a b c s)
  show ?case
    using 4 split_two[of "of_char a" "of_char b"] split_three[of "of_char a" "of_char b" "of_char c"]
    by (auto simp: Let_def intro: b64_char_is)
qed simp

lemma is_b64_char_no_break: "is_b64_char c \<Longrightarrow> c \<noteq> CR \<and> c \<noteq> LF"
  by (auto simp: is_b64_char_def is_alnum_char_def)

lemma b64_groups_encode: "b64_groups (b64_encode s) = Some s"
proof (induction s rule: b64_encode.induct)
  case (2 a)
  show ?case
    using split_two[of "of_char a" 0] by (simp add: Let_def b64_val_char)
next
  case (3 a b)
  note two = split_two[OF of_char_less_256[of a] of_char_less_256[of b]]
  show ?case
    using two(1,3,4) two(5,7)[THEN char_of_eqI]
    by (simp only: b64_encode.simps b64_groups.simps Let_def b64_val_char b64_char_ne option.case
        prod.case if_False if_True simp_thms list.simps)
next
  case (4 a b c s)
  note two = split_two[OF of_char_less_256[of a] of_char_less_256[of b]]
  note three = split_three[OF of_char_less_256[of a] of_char_less_256[of b] of_char_less_256[of c]]
  note IH = 4[OF refl refl refl]
  show ?case
    using two(1,3) three(1,2) two(5)[THEN char_of_eqI] three(3,4)[THEN char_of_eqI]
    by (simp only: b64_encode.simps b64_groups.simps Let_def b64_val_char b64_char_ne option.case
        prod.case if_False append.simps IH option.map)
qed simp

lemma b64_decode_encode [simp, codec]: "b64_decode (b64_encode s) = Some s"
proof -
  have "filter (\<lambda>c. c \<noteq> CR \<and> c \<noteq> LF) (b64_encode s) = b64_encode s"
    using b64_encode_chars is_b64_char_no_break by (simp add: filter_id_conv)
  then show ?thesis by (simp add: b64_decode_def b64_groups_encode)
qed


section \<open>Line scanning\<close>

text \<open>
  \<open>bufio.Scanner\<close> with \<open>ScanLines\<close>: the text between newlines, a final unterminated line
  included, each without one trailing carriage return.  The buffer holds at most 65536
  bytes, so a line of more than 65535 bytes makes \<open>Scan\<close> stop and \<open>Err\<close> report it.
\<close>

definition max_line :: nat where
  "max_line = 65535"

function raw_lines :: "string \<Rightarrow> string list" where
  "raw_lines s =
     (if s = [] then []
      else takeWhile (\<lambda>c. c \<noteq> LF) s # raw_lines (tl (dropWhile (\<lambda>c. c \<noteq> LF) s)))"
  by pat_completeness auto
termination
proof (relation "measure length")
  fix s :: string
  assume "s \<noteq> []"
  then have "0 < length s" by simp
  then have "length (tl (dropWhile (\<lambda>c. c \<noteq> LF) s)) < length s"
    using length_dropWhile_le[of "\<lambda>c. c \<noteq> LF" s] by (simp only: length_tl)
  then show "(tl (dropWhile (\<lambda>c. c \<noteq> LF) s), s) \<in> measure length" by simp
qed simp

declare raw_lines.simps [simp del]

definition drop_cr :: "string \<Rightarrow> string" where
  "drop_cr l = (if l \<noteq> [] \<and> last l = CR then butlast l else l)"

definition scan_lines :: "string \<Rightarrow> string list \<times> bool" where
  "scan_lines s =
     (let rs = raw_lines s; ok = takeWhile (\<lambda>l. length l \<le> max_line) rs
      in (map drop_cr ok, length ok = length rs))"

text \<open>The lines a reader of a journal segment keeps: those that are not blank.\<close>

definition text_lines :: "string \<Rightarrow> string list" where
  "text_lines s = filter (\<lambda>l. \<not> is_blank l) (fst (scan_lines s))"

definition scan_ok :: "string \<Rightarrow> bool" where
  "scan_ok s \<longleftrightarrow> snd (scan_lines s)"

lemma raw_lines_Nil [simp]: "raw_lines [] = []"
  by (simp add: raw_lines.simps)

lemma raw_lines_line:
  assumes "LF \<notin> set l"
  shows "raw_lines (l @ LF # s) = l # raw_lines s"
proof -
  have "takeWhile (\<lambda>c. c \<noteq> LF) (l @ LF # s) = l" and "dropWhile (\<lambda>c. c \<noteq> LF) (l @ LF # s) = LF # s"
    using assms by (auto simp: takeWhile_append dropWhile_append)
  then show ?thesis by (simp add: raw_lines.simps[of "l @ LF # s"])
qed

text \<open>Text made of complete lines: empty, or ending in a newline.\<close>

definition complete :: "string \<Rightarrow> bool" where
  "complete s \<longleftrightarrow> s = [] \<or> last s = LF"

lemma complete_Nil [simp]: "complete []"
  by (simp add: complete_def)

lemma complete_snoc [simp]: "complete (s @ [LF])"
  by (simp add: complete_def)

lemma raw_lines_append: "complete s \<Longrightarrow> raw_lines (s @ t) = raw_lines s @ raw_lines t"
proof (induction s rule: raw_lines.induct)
  case (1 s)
  show ?case
  proof (cases "s = []")
    case False
    then have "LF \<in> set s" using 1(2) by (metis complete_def last_in_set)
    then obtain l r where s: "s = l @ LF # r" and l: "LF \<notin> set l"
      by (meson split_list_first)
    have tl: "tl (dropWhile (\<lambda>c. c \<noteq> LF) s) = r"
      using l s by (auto simp: dropWhile_append)
    have "complete r" using 1(2) s by (cases r) (auto simp: complete_def)
    then have "raw_lines (r @ t) = raw_lines r @ raw_lines t"
      using 1(1)[OF False] tl by simp
    then show ?thesis using l by (simp add: s raw_lines_line)
  qed simp
qed

lemma raw_lines_snoc:
  "complete s \<Longrightarrow> LF \<notin> set l \<Longrightarrow> raw_lines (s @ l @ [LF]) = raw_lines s @ [l]"
  by (simp add: raw_lines_append raw_lines_line)

lemma scan_ok_iff: "scan_ok s \<longleftrightarrow> (\<forall>l \<in> set (raw_lines s). length l \<le> max_line)"
proof -
  let ?P = "\<lambda>l::string. length l \<le> max_line"
  have "length (takeWhile ?P rs) = length rs \<longleftrightarrow> (\<forall>l \<in> set rs. ?P l)" for rs
    by (metis takeWhile_eq_all_conv takeWhile_eq_take take_all_iff nat_le_linear order_refl)
  then show ?thesis by (simp add: scan_ok_def scan_lines_def Let_def)
qed

lemma fst_scan_ok: "scan_ok s \<Longrightarrow> fst (scan_lines s) = map drop_cr (raw_lines s)"
  unfolding scan_ok_iff by (simp add: scan_lines_def Let_def takeWhile_eq_all_conv[THEN iffD2])

lemma scan_ok_Nil [simp]: "scan_ok []"
  by (simp add: scan_ok_iff)

lemma text_lines_Nil [simp]: "text_lines [] = []"
  by (simp add: text_lines_def scan_lines_def)

text \<open>A line as an encoder writes it: one line of visible text that fits the scanner's buffer.\<close>

definition plain_line :: "string \<Rightarrow> bool" where
  "plain_line l \<longleftrightarrow> LF \<notin> set l \<and> (l = [] \<or> last l \<noteq> CR) \<and> \<not> is_blank l \<and> length l \<le> max_line"

lemma scan_ok_snoc:
  "complete s \<Longrightarrow> scan_ok s \<Longrightarrow> plain_line l \<Longrightarrow> scan_ok (s @ l @ [LF])"
  by (auto simp: scan_ok_iff raw_lines_snoc plain_line_def)

lemma text_lines_snoc:
  assumes "complete s" and "scan_ok s" and "plain_line l"
  shows "text_lines (s @ l @ [LF]) = text_lines s @ [l]"
  using assms scan_ok_snoc[OF assms]
  by (auto simp: text_lines_def fst_scan_ok raw_lines_snoc plain_line_def drop_cr_def)

text \<open>A line too long for the scanner ends the text for its readers: it and all after it are not seen.\<close>

lemma long_line_unseen:
  assumes "complete s" and "scan_ok s" and "LF \<notin> set l" and "max_line < length l"
  shows "text_lines (s @ l @ LF # t) = text_lines s" and "\<not> scan_ok (s @ l @ LF # t)"
proof -
  have raw: "raw_lines (s @ l @ LF # t) = raw_lines s @ l # raw_lines t"
    using assms(1,3) by (simp add: raw_lines_append raw_lines_line)
  have "takeWhile (\<lambda>x. length x \<le> max_line) (raw_lines s @ l # raw_lines t) = raw_lines s"
    using assms(2,4) by (simp add: scan_ok_iff takeWhile_append takeWhile_eq_all_conv[THEN iffD2])
  then show "text_lines (s @ l @ LF # t) = text_lines s"
    unfolding text_lines_def fst_scan_ok[OF assms(2)] by (simp only: scan_lines_def Let_def raw fst_conv)
  show "\<not> scan_ok (s @ l @ LF # t)"
    using assms(4) by (auto simp: scan_ok_iff raw)
qed

end
