(* ===== verification/Go_Json.thy ===== *)
theory Go_Json
  imports Go_Codec
begin

text \<open>
  The part of \<open>encoding/json\<close> the program relies on: \<open>Marshal\<close> with its string escaping
  (HTML characters and line separators included), the compaction \<open>Marshal\<close> applies to a
  \<open>RawMessage\<close>, \<open>Unmarshal\<close> with its string unescaping, and the decoding of an object's
  members into the fields of a struct (case-insensitive names, later members win, \<open>null\<close>
  leaves a field alone, a value of another type is an error).  The parser takes fuel; a string
  needs no more than its length plus one (\<open>pval_fuel\<close>).  Go's nesting limit of 10000 levels is
  not modelled.
\<close>

abbreviation DQ :: char where "DQ \<equiv> CHR 0x22"

abbreviation BS :: char where "BS \<equiv> CHR 0x5C"

datatype json =
    JNull
  | JBool bool
  | JNum string
  | JStr string
  | JArr "json list"
  | JObj "(string \<times> json) list"


section \<open>UTF-8\<close>

definition in_bytes :: "nat \<Rightarrow> nat \<Rightarrow> char \<Rightarrow> bool" where
  "in_bytes lo hi c \<longleftrightarrow> lo \<le> of_char c \<and> of_char c \<le> hi"

text \<open>The length a first byte announces (0: no character starts with it), and the second
  byte it allows.\<close>

definition utf8_need :: "nat \<Rightarrow> nat" where
  "utf8_need b =
     (if b < 0x80 then 1
      else if 0xC2 \<le> b \<and> b \<le> 0xDF then 2
      else if 0xE0 \<le> b \<and> b \<le> 0xEF then 3
      else if 0xF0 \<le> b \<and> b \<le> 0xF4 then 4
      else 0)"

definition second_ok :: "nat \<Rightarrow> char \<Rightarrow> bool" where
  "second_ok b =
     in_bytes (if b = 0xE0 then 0xA0 else if b = 0xF0 then 0x90 else 0x80)
              (if b = 0xED then 0x9F else if b = 0xF4 then 0x8F else 0xBF)"

text \<open>Bytes of the character at the start of a string, 0 when its encoding is invalid.\<close>

definition utf8_len :: "string \<Rightarrow> nat" where
  "utf8_len s =
     (if s = [] then 0
      else
        (let b = of_char (hd s); n = utf8_need b in
         if n \<le> length s
            \<and> list_all (second_ok b) (drop 1 (take (min n 2) s))
            \<and> list_all (in_bytes 0x80 0xBF) (drop 2 (take n s))
         then n else 0))"

lemma utf8_len_ascii: "of_char c < (0x80::nat) \<Longrightarrow> utf8_len (c # s) = 1"
  by (simp add: utf8_len_def Let_def utf8_need_def)

lemma utf8_len_Nil [simp]: "utf8_len [] = 0"
  by (simp add: utf8_len_def)

lemma utf8_len_le: "utf8_len s \<le> length s"
  by (simp add: utf8_len_def Let_def)

lemma utf8_len_take:
  assumes "0 < utf8_len s"
  shows "utf8_len (take (utf8_len s) s @ t) = utf8_len s"
proof -
  define n u where "n = utf8_len s" and "u = take n s @ t"
  have le: "n \<le> length s" and s: "s \<noteq> []" and pos: "0 < n"
    using assms utf8_len_le[of s] by (auto simp: n_def)
  have need: "utf8_need (of_char (hd s)) = n"
    and ok: "list_all (second_ok (of_char (hd s))) (drop 1 (take (min n 2) s))"
      "list_all (in_bytes 0x80 0xBF) (drop 2 (take n s))"
    using assms s by (auto simp: n_def utf8_len_def Let_def split: if_splits)
  have u: "hd u = hd s" "u \<noteq> []" "n \<le> length u"
    using pos s le by (cases s; cases n; simp add: u_def)+
  have tk: "take (min n 2) u = take (min n 2) s" "take n u = take n s"
    using le by (simp_all add: u_def min_def)
  have "utf8_len u = n"
    using ok need u tk by (simp add: utf8_len_def[of u] Let_def)
  then show ?thesis by (simp add: u_def n_def)
qed

function valid_utf8 :: "string \<Rightarrow> bool" where
  "valid_utf8 s =
     (if s = [] then True
      else if utf8_len s = 0 then False
      else valid_utf8 (drop (utf8_len s) s))"
  by pat_completeness auto
termination
  by (relation "measure length") auto

declare valid_utf8.simps [simp del]

lemma valid_utf8_Nil [simp]: "valid_utf8 []"
  by (simp add: valid_utf8.simps)

lemma valid_utf8_ascii:
  "(\<And>c. c \<in> set s \<Longrightarrow> of_char c < (0x80::nat)) \<Longrightarrow> valid_utf8 s"
proof (induction s)
  case (Cons c s)
  then have "utf8_len (c # s) = 1" by (intro utf8_len_ascii) simp
  with Cons show ?case by (simp add: valid_utf8.simps[of "c # s"])
qed simp

definition utf8_encode :: "nat \<Rightarrow> bytes" where
  "utf8_encode n =
     (if n < 0x80 then [char_of n]
      else if n < 0x800 then [char_of (0xC0 + n div 64), char_of (0x80 + n mod 64)]
      else if n < 0x10000 then
        [char_of (0xE0 + n div 4096), char_of (0x80 + n div 64 mod 64), char_of (0x80 + n mod 64)]
      else
        [char_of (0xF0 + n div 262144), char_of (0x80 + n div 4096 mod 64),
         char_of (0x80 + n div 64 mod 64), char_of (0x80 + n mod 64)])"

text \<open>U+FFFD, what Go puts in place of anything that is not valid.\<close>

definition replacement :: bytes where
  "replacement = [CHR 0xEF, CHR 0xBF, CHR 0xBD]"


section \<open>Writing strings\<close>

definition esc_ascii :: "char \<Rightarrow> string" where
  "esc_ascii c =
     (if c = DQ then [BS, DQ]
      else if c = BS then [BS, BS]
      else if c = CHR 0x08 then [BS, CHR ''b'']
      else if c = CHR 0x0C then [BS, CHR ''f'']
      else if c = CHR 0x0A then [BS, CHR ''n'']
      else if c = CHR 0x0D then [BS, CHR ''r'']
      else if c = CHR 0x09 then [BS, CHR ''t'']
      else if of_char c < (0x20::nat) \<or> c = CHR ''<'' \<or> c = CHR ''>'' \<or> c = CHR ''&''
        then BS # ''u00'' @ hex_encode [c]
      else [c])"

definition is_line_sep :: "string \<Rightarrow> bool" where
  "is_line_sep s \<longleftrightarrow>
     take 3 s = [CHR 0xE2, CHR 0x80, CHR 0xA8] \<or> take 3 s = [CHR 0xE2, CHR 0x80, CHR 0xA9]"

definition esc_sep :: "string \<Rightarrow> string" where
  "esc_sep s = BS # (if s ! 2 = CHR 0xA8 then ''u2028'' else ''u2029'')"

function esc :: "string \<Rightarrow> string" where
  "esc s =
     (if s = [] then []
      else if of_char (hd s) < (0x80::nat) then esc_ascii (hd s) @ esc (tl s)
      else if utf8_len s = 0 then BS # ''ufffd'' @ esc (tl s)
      else if is_line_sep s then esc_sep s @ esc (drop (utf8_len s) s)
      else take (utf8_len s) s @ esc (drop (utf8_len s) s))"
  by pat_completeness auto
termination
  by (relation "measure length") auto

declare esc.simps [simp del]

definition quote :: "string \<Rightarrow> string" where
  "quote s = DQ # esc s @ [DQ]"


section \<open>Reading strings\<close>

definition hex4 :: "string \<Rightarrow> nat option" where
  "hex4 s =
     (case s of
        a # b # c # d # _ \<Rightarrow>
          (case (hex_val a, hex_val b, hex_val c, hex_val d) of
             (Some w, Some x, Some y, Some z) \<Rightarrow> Some (((w * 16 + x) * 16 + y) * 16 + z)
           | _ \<Rightarrow> None)
      | _ \<Rightarrow> None)"

text \<open>
  An escape after its backslash: the bytes it stands for and how many characters it takes.
  A surrogate pair is one character; a lone surrogate is U+FFFD.
\<close>

definition unesc_u :: "string \<Rightarrow> (bytes \<times> nat) option" where
  "unesc_u r =
     (case hex4 r of
        None \<Rightarrow> None
      | Some v \<Rightarrow>
          if 0xD800 \<le> v \<and> v < 0xE000 then
            (case (take 2 (drop 4 r) = [BS, CHR ''u''], hex4 (drop 6 r)) of
               (True, Some w) \<Rightarrow>
                 if v < 0xDC00 \<and> 0xDC00 \<le> w \<and> w < 0xE000
                 then Some (utf8_encode ((v - 0xD800) * 0x400 + (w - 0xDC00) + 0x10000), 11)
                 else Some (replacement, 5)
             | _ \<Rightarrow> Some (replacement, 5))
          else Some (utf8_encode v, 5))"

definition unesc :: "string \<Rightarrow> (bytes \<times> nat) option" where
  "unesc s =
     (case s of
        [] \<Rightarrow> None
      | c # r \<Rightarrow>
          if c = DQ \<or> c = BS \<or> c = CHR ''/'' then Some ([c], 1)
          else if c = CHR ''b'' then Some ([CHR 0x08], 1)
          else if c = CHR ''f'' then Some ([CHR 0x0C], 1)
          else if c = CHR ''n'' then Some ([CHR 0x0A], 1)
          else if c = CHR ''r'' then Some ([CHR 0x0D], 1)
          else if c = CHR ''t'' then Some ([CHR 0x09], 1)
          else if c = CHR ''u'' then unesc_u r
          else None)"

definition prepend :: "bytes \<Rightarrow> (bytes \<times> string) option \<Rightarrow> (bytes \<times> string) option" where
  "prepend out r = map_option (\<lambda>(x, t). (out @ x, t)) r"

lemma prepend_simps [simp]:
  "prepend out None = None"
  "prepend out (Some (x, t)) = Some (out @ x, t)"
  by (simp_all add: prepend_def)

lemma prepend_SomeD: "prepend out r = Some (x, t) \<Longrightarrow> \<exists>y. r = Some (y, t)"
  by (auto simp: prepend_def)

text \<open>The contents of a string, from after its opening quote; and what follows it.\<close>

function pstr :: "string \<Rightarrow> (bytes \<times> string) option" where
  "pstr s =
     (if s = [] then None
      else if hd s = DQ then Some ([], tl s)
      else if hd s = BS then
        (case unesc (tl s) of
           None \<Rightarrow> None
         | Some (out, k) \<Rightarrow> prepend out (pstr (drop k (tl s))))
      else if of_char (hd s) < (0x20::nat) then None
      else if utf8_len s = 0 then prepend replacement (pstr (tl s))
      else prepend (take (utf8_len s) s) (pstr (drop (utf8_len s) s)))"
  by pat_completeness auto
termination
  by (relation "measure length") auto

declare pstr.simps [simp del]

lemma pstr_shorter: "pstr s = Some (x, r) \<Longrightarrow> length r < length s"
proof (induction s arbitrary: x r rule: pstr.induct)
  case (1 s)
  note IH = 1(1-3) and eq = 1(4)
  have s: "s \<noteq> []" using eq by (auto simp: pstr.simps[of s])
  then have tl: "length (tl s) < length s" by simp
  consider (q) "hd s = DQ" | (b) "hd s \<noteq> DQ" "hd s = BS"
    | (p) "hd s \<noteq> DQ" "hd s \<noteq> BS" "\<not> of_char (hd s) < (0x20::nat)"
    | (x) "hd s \<noteq> DQ" "hd s \<noteq> BS" "of_char (hd s) < (0x20::nat)" by blast
  then show ?case
  proof cases
    case q
    with eq s tl show ?thesis by (simp add: pstr.simps[of s])
  next
    case b
    with eq s obtain out k where u: "unesc (tl s) = Some (out, k)"
      by (auto simp: pstr.simps[of s] split: option.splits)
    with eq s b obtain y where "pstr (drop k (tl s)) = Some (y, r)"
      by (auto simp: pstr.simps[of s] dest: prepend_SomeD)
    then have "length r < length (drop k (tl s))"
      using IH(1)[OF s b u refl] by simp
    with tl show ?thesis by simp
  next
    case p
    show ?thesis
    proof (cases "utf8_len s = 0")
      case True
      with eq s p obtain y where "pstr (tl s) = Some (y, r)"
        by (auto simp: pstr.simps[of s] dest: prepend_SomeD)
      then have "length r < length (tl s)" using IH(2)[OF s p(1,2,3) True] by simp
      with tl show ?thesis by simp
    next
      case False
      with eq s p obtain y where "pstr (drop (utf8_len s) s) = Some (y, r)"
        by (auto simp: pstr.simps[of s] dest: prepend_SomeD)
      then have "length r < length (drop (utf8_len s) s)"
        using IH(3)[OF s p(1,2,3) False] by simp
      then show ?thesis by simp
    qed
  next
    case x
    with eq s show ?thesis by (simp add: pstr.simps[of s])
  qed
qed


section \<open>Reading values\<close>

definition is_ws :: "char \<Rightarrow> bool" where
  "is_ws c \<longleftrightarrow> c = CHR 0x20 \<or> c = CHR 0x09 \<or> c = CHR 0x0A \<or> c = CHR 0x0D"

definition skip_ws :: "string \<Rightarrow> string" where
  "skip_ws = dropWhile is_ws"

definition is_digit :: "char \<Rightarrow> bool" where
  "is_digit c \<longleftrightarrow> 48 \<le> (of_char c :: nat) \<and> of_char c \<le> (57::nat)"

definition pexp :: "string \<Rightarrow> string \<Rightarrow> (string \<times> string) option" where
  "pexp acc s =
     (case s of
        [] \<Rightarrow> Some (acc, [])
      | c # t \<Rightarrow>
          if c = CHR ''e'' \<or> c = CHR ''E'' then
            (let sg = takeWhile (\<lambda>d. d = CHR ''+'' \<or> d = CHR ''-'') (take 1 t);
                 u = drop (length sg) t; ds = takeWhile is_digit u
             in if ds = [] then None else Some (acc @ c # sg @ ds, dropWhile is_digit u))
          else Some (acc, s))"

definition pfrac :: "string \<Rightarrow> string \<Rightarrow> (string \<times> string) option" where
  "pfrac acc s =
     (case s of
        [] \<Rightarrow> Some (acc, [])
      | c # t \<Rightarrow>
          if c = CHR ''.'' then
            (let ds = takeWhile is_digit t
             in if ds = [] then None else pexp (acc @ c # ds) (dropWhile is_digit t))
          else pexp acc s)"

definition pint :: "string \<Rightarrow> string \<Rightarrow> (string \<times> string) option" where
  "pint acc s =
     (case s of
        [] \<Rightarrow> None
      | c # t \<Rightarrow>
          if c = CHR ''0'' then pfrac (acc @ [c]) t
          else if is_digit c then pfrac (acc @ takeWhile is_digit s) (dropWhile is_digit s)
          else None)"

definition pnum :: "string \<Rightarrow> (string \<times> string) option" where
  "pnum s =
     (case s of
        [] \<Rightarrow> None
      | c # t \<Rightarrow> if c = CHR ''-'' then pint [c] t else pint [] s)"

fun pval :: "nat \<Rightarrow> string \<Rightarrow> (json \<times> string) option"
  and pelems :: "nat \<Rightarrow> string \<Rightarrow> (json list \<times> string) option"
  and pmembers :: "nat \<Rightarrow> string \<Rightarrow> ((string \<times> json) list \<times> string) option" where
  "pval 0 s = None"
| "pval (Suc n) s =
     (case skip_ws s of
        [] \<Rightarrow> None
      | c # t \<Rightarrow>
          if c = DQ then map_option (\<lambda>(x, r). (JStr x, r)) (pstr t)
          else if c = CHR ''{'' then
            (if take 1 (skip_ws t) = ''}'' then Some (JObj [], tl (skip_ws t))
             else map_option (\<lambda>(ms, r). (JObj ms, r)) (pmembers n t))
          else if c = CHR ''['' then
            (if take 1 (skip_ws t) = '']'' then Some (JArr [], tl (skip_ws t))
             else map_option (\<lambda>(vs, r). (JArr vs, r)) (pelems n t))
          else if take 4 (c # t) = ''null'' then Some (JNull, drop 3 t)
          else if take 4 (c # t) = ''true'' then Some (JBool True, drop 3 t)
          else if take 5 (c # t) = ''false'' then Some (JBool False, drop 4 t)
          else map_option (\<lambda>(x, r). (JNum x, r)) (pnum (c # t)))"
| "pelems 0 s = None"
| "pelems (Suc n) s =
     (case pval n s of
        None \<Rightarrow> None
      | Some (v, r) \<Rightarrow>
          (case skip_ws r of
             [] \<Rightarrow> None
           | c # t \<Rightarrow>
               if c = CHR '','' then map_option (\<lambda>(vs, q). (v # vs, q)) (pelems n t)
               else if c = CHR '']'' then Some ([v], t)
               else None))"
| "pmembers 0 s = None"
| "pmembers (Suc n) s =
     (case skip_ws s of
        [] \<Rightarrow> None
      | d # k \<Rightarrow>
          if d \<noteq> DQ then None
          else (case pstr k of
            None \<Rightarrow> None
          | Some (key, r1) \<Rightarrow>
              (case skip_ws r1 of
                 [] \<Rightarrow> None
               | e # r2 \<Rightarrow>
                   if e \<noteq> CHR '':'' then None
                   else (case pval n r2 of
                     None \<Rightarrow> None
                   | Some (v, r) \<Rightarrow>
                       (case skip_ws r of
                          [] \<Rightarrow> None
                        | c # t \<Rightarrow>
                            if c = CHR '','' then
                              map_option (\<lambda>(ms, q). ((key, v) # ms, q)) (pmembers n t)
                            else if c = CHR ''}'' then Some ([(key, v)], t)
                            else None)))))"

definition parse_json :: "string \<Rightarrow> json option" where
  "parse_json s =
     (case pval (Suc (length s)) s of
        Some (v, r) \<Rightarrow> if skip_ws r = [] then Some v else None
      | None \<Rightarrow> None)"

section \<open>Round trip of strings\<close>

lemma hex4_low: "hex4 (''00'' @ hex_encode [c] @ t) = Some (of_char c)"
proof -
  have "of_char c div 16 < (16::nat)"
    using of_char_less_256[of c] by (simp add: less_mult_imp_div_less)
  then have "hex_val (hex_char (of_char c div 16)) = Some (of_char c div 16)"
    and "hex_val (hex_char (of_char c mod 16)) = Some (of_char c mod 16)"
    by (simp_all add: hex_val_char)
  then show ?thesis by (simp add: hex4_def hex_encode_def hex_val_def)
qed

lemma unesc_low:
  assumes "of_char c < (0x80::nat)"
  shows "unesc (''u00'' @ hex_encode [c] @ t) = Some ([c], 5)"
  using assms hex4_low[of c t]
  by (simp add: unesc_def unesc_u_def utf8_encode_def)

lemma drop_low: "drop 5 (''u00'' @ hex_encode [c] @ t) = t"
  by (simp add: hex_encode_def)

lemma pstr_esc_ascii:
  assumes "of_char c < (0x80::nat)"
  shows "pstr (esc_ascii c @ t) = prepend [c] (pstr t)"
proof (cases "c \<in> {DQ, BS, CHR 0x08, CHR 0x0C, CHR 0x0A, CHR 0x0D, CHR 0x09}")
  case True
  then show ?thesis
    by (auto simp: esc_ascii_def pstr.simps[of "BS # u" for u] unesc_def)
next
  case False
  show ?thesis
  proof (cases "of_char c < (0x20::nat) \<or> c = CHR ''<'' \<or> c = CHR ''>'' \<or> c = CHR ''&''")
    case True
    with False have "esc_ascii c = BS # ''u00'' @ hex_encode [c]"
      by (simp add: esc_ascii_def)
    then have "pstr (esc_ascii c @ t) = pstr (BS # ''u00'' @ hex_encode [c] @ t)" by simp
    also have "\<dots> = prepend [c] (pstr t)"
      using unesc_low[OF assms, of t] drop_low[of c t]
      by (subst pstr.simps) simp
    finally show ?thesis .
  next
    case no: False
    with False have "esc_ascii c = [c]" by (simp add: esc_ascii_def)
    moreover have "utf8_len (c # t) = 1" using assms by (rule utf8_len_ascii)
    ultimately show ?thesis
      using False no by (simp add: pstr.simps[of "c # t"])
  qed
qed

lemma is_line_sep_len: "is_line_sep s \<Longrightarrow> utf8_len s = 3"
proof -
  assume "is_line_sep s"
  then obtain c t where s: "s = CHR 0xE2 # CHR 0x80 # c # t" and "c = CHR 0xA8 \<or> c = CHR 0xA9"
    by (cases s; cases "tl s"; cases "tl (tl s)") (auto simp: is_line_sep_def)
  then show ?thesis
    by (auto simp: utf8_len_def Let_def utf8_need_def second_ok_def in_bytes_def)
qed

lemma sep_chars:
  "char_of (226::nat) = CHR 0xE2" "char_of (128::nat) = CHR 0x80"
  "char_of (168::nat) = CHR 0xA8" "char_of (169::nat) = CHR 0xA9"
  by (rule char_of_eqI, simp)+

lemma pstr_esc_sep:
  assumes "is_line_sep s"
  shows "pstr (esc_sep s @ t) = prepend (take 3 s) (pstr t)"
  using assms
  by (cases s; cases "tl s"; cases "tl (tl s)")
    (auto simp: is_line_sep_def esc_sep_def pstr.simps[of "BS # u" for u] unesc_def unesc_u_def
      hex4_def hex_val_def utf8_encode_def sep_chars)

lemma pstr_copy:
  assumes "utf8_len s \<noteq> 0" and "\<not> of_char (hd s) < (0x80::nat)"
  shows "pstr (take (utf8_len s) s @ t) = prepend (take (utf8_len s) s) (pstr t)"
proof -
  define n u where "n = utf8_len s" and "u = take n s @ t"
  have le: "n \<le> length s" and pos: "0 < n" using utf8_len_le[of s] assms by (auto simp: n_def)
  have len: "utf8_len u = n" using utf8_len_take[of s t] assms by (simp add: u_def n_def)
  have hd: "hd u = hd s" "u \<noteq> []" using pos le by (cases s; cases n; simp add: u_def)+
  have "hd u \<noteq> DQ" "hd u \<noteq> BS" "\<not> of_char (hd u) < (0x20::nat)" using hd assms(2) by auto
  moreover have "take n u = take n s" "drop n u = t" using le by (simp_all add: u_def)
  ultimately have "pstr u = prepend (take n s) (pstr t)"
    using hd len pos by (simp add: pstr.simps[of u])
  then show ?thesis by (simp add: u_def n_def)
qed

lemma pstr_esc: "valid_utf8 s \<Longrightarrow> pstr (esc s @ DQ # r) = Some (s, r)"
proof (induction s rule: valid_utf8.induct)
  case (1 s)
  show ?case
  proof (cases "s = []")
    case True
    then show ?thesis by (simp add: esc.simps pstr.simps)
  next
    case False
    with 1(2) have len: "utf8_len s \<noteq> 0" and "valid_utf8 (drop (utf8_len s) s)"
      by (simp_all add: valid_utf8.simps[of s] split: if_splits)
    then have IH: "pstr (esc (drop (utf8_len s) s) @ DQ # r) = Some (drop (utf8_len s) s, r)"
      using 1(1) False by simp
    consider (a) "of_char (hd s) < (0x80::nat)" | (l) "\<not> of_char (hd s) < (0x80::nat)" "is_line_sep s"
      | (c) "\<not> of_char (hd s) < (0x80::nat)" "\<not> is_line_sep s" by blast
    then show ?thesis
    proof cases
      case a
      then have "utf8_len s = 1" using False utf8_len_ascii[of "hd s" "tl s"] by simp
      with IH have "pstr (esc (tl s) @ DQ # r) = Some (tl s, r)" by (simp add: drop_Suc)
      then show ?thesis using a False by (simp add: esc.simps[of s] pstr_esc_ascii)
    next
      case l
      have "take 3 s @ drop 3 s = s" by simp
      with l IH len False show ?thesis
        by (simp add: esc.simps[of s] pstr_esc_sep is_line_sep_len)
    next
      case c
      with IH len False show ?thesis by (simp add: esc.simps[of s] pstr_copy)
    qed
  qed
qed

section \<open>Writing values\<close>

fun jprint :: "json \<Rightarrow> string"
  and jprint_elems :: "json list \<Rightarrow> string"
  and jprint_members :: "(string \<times> json) list \<Rightarrow> string" where
  "jprint JNull = ''null''"
| "jprint (JBool b) = (if b then ''true'' else ''false'')"
| "jprint (JNum n) = n"
| "jprint (JStr s) = quote s"
| "jprint (JArr vs) = CHR ''['' # jprint_elems vs"
| "jprint (JObj ms) = CHR ''{'' # jprint_members ms"
| "jprint_elems [] = '']''"
| "jprint_elems (v # vs) = jprint v @ (if vs = [] then '']'' else CHR '','' # jprint_elems vs)"
| "jprint_members [] = ''}''"
| "jprint_members ((k, v) # ms) =
     quote k @ CHR '':'' # jprint v @ (if ms = [] then ''}'' else CHR '','' # jprint_members ms)"

text \<open>Decimal numbers, as \<open>strconv\<close> writes and reads them.\<close>

fun dec_of_nat :: "nat \<Rightarrow> string" where
  "dec_of_nat n =
     (if n < 10 then [char_of (48 + n)] else dec_of_nat (n div 10) @ [char_of (48 + n mod 10)])"

declare dec_of_nat.simps [simp del]

definition nat_of_dec :: "string \<Rightarrow> nat" where
  "nat_of_dec s = foldl (\<lambda>a c. 10 * a + (of_char c - 48)) 0 s"

definition dec_of_int :: "int \<Rightarrow> string" where
  "dec_of_int i = (if i < 0 then CHR ''-'' # dec_of_nat (nat (- i)) else dec_of_nat (nat i))"

definition nat_lit :: "string \<Rightarrow> bool" where
  "nat_lit n \<longleftrightarrow> n \<noteq> [] \<and> (\<forall>c \<in> set n. is_digit c) \<and> (hd n = CHR ''0'' \<longrightarrow> n = ''0'')"

lemma nat_of_dec_of_nat [simp, codec]: "nat_of_dec (dec_of_nat n) = n"
proof (induction n rule: dec_of_nat.induct)
  case (1 n)
  show ?case
  proof (cases "n < 10")
    case True
    then show ?thesis by (simp add: dec_of_nat.simps nat_of_dec_def)
  next
    case False
    with 1 have "nat_of_dec (dec_of_nat (n div 10)) = n div 10" by simp
    moreover have "nat_of_dec (a @ [char_of (48 + k)]) = 10 * nat_of_dec a + k" if "k < 10" for a k
      using that by (simp add: nat_of_dec_def)
    ultimately show ?thesis using False by (simp add: dec_of_nat.simps[of n])
  qed
qed

lemma nat_lit_dec: "nat_lit (dec_of_nat n)"
proof (induction n rule: dec_of_nat.induct)
  case (1 n)
  show ?case
  proof (cases "n < 10")
    case True
    have "char_of (48 + n) = CHR ''0'' \<longrightarrow> n = 0"
    proof
      assume "char_of (48 + n) = CHR ''0''"
      then have "of_char (char_of (48 + n) :: char) = (48 :: nat)" by simp
      then show "n = 0" using True by (simp del: of_char_of)
    qed
    with True show ?thesis by (auto simp: dec_of_nat.simps[of n] nat_lit_def is_digit_def)
  next
    case False
    with 1 have IH: "nat_lit (dec_of_nat (n div 10))" by simp
    have "dec_of_nat (n div 10) \<noteq> ''0''"
    proof
      assume "dec_of_nat (n div 10) = ''0''"
      then have "nat_of_dec (dec_of_nat (n div 10)) = 0" by (simp add: nat_of_dec_def)
      with False show False by simp
    qed
    with IH False show ?thesis
      by (auto simp: dec_of_nat.simps[of n] nat_lit_def is_digit_def)
  qed
qed

fun wf_json :: "json \<Rightarrow> bool" where
  "wf_json (JNum n) \<longleftrightarrow> nat_lit n"
| "wf_json (JStr s) \<longleftrightarrow> valid_utf8 s"
| "wf_json (JArr vs) \<longleftrightarrow> list_all wf_json vs"
| "wf_json (JObj ms) \<longleftrightarrow> list_all (\<lambda>(k, v). valid_utf8 k \<and> wf_json v) ms"
| "wf_json _ \<longleftrightarrow> True"

text \<open>What may follow a value inside an array or object.\<close>

definition follows :: "string \<Rightarrow> bool" where
  "follows r \<longleftrightarrow> r = [] \<or> hd r \<in> set '',]}''"

lemma follows_Cons [simp]: "follows (c # r) \<longleftrightarrow> c \<in> set '',]}''"
  by (simp add: follows_def)

lemma follows_Nil [simp]: "follows []"
  by (simp add: follows_def)

lemma digit_not_special:
  assumes "is_digit c"
  shows "c \<noteq> DQ" "c \<noteq> CHR ''{''" "c \<noteq> CHR ''[''" "c \<noteq> CHR ''n''" "c \<noteq> CHR ''t''"
    "c \<noteq> CHR ''f''" "c \<noteq> CHR ''-''" "\<not> is_ws c" "c \<noteq> CHR '']''"
  using assms by (auto simp: is_digit_def is_ws_def)

lemma follows_stop: "follows r \<Longrightarrow> takeWhile is_digit r = [] \<and> dropWhile is_digit r = r"
  by (cases r) (auto simp: is_digit_def)

lemma pexp_stop: "follows r \<Longrightarrow> pexp acc r = Some (acc, r)"
  by (cases r) (auto simp: pexp_def)

lemma pfrac_stop: "follows r \<Longrightarrow> pfrac acc r = Some (acc, r)"
  by (cases r) (auto simp: pfrac_def pexp_stop)

lemma pnum_nat_lit:
  assumes "nat_lit n" and "follows r"
  shows "pnum (n @ r) = Some (n, r)"
proof -
  obtain c t where n: "n = c # t" using assms(1) by (cases n) (auto simp: nat_lit_def)
  then have d: "is_digit c" and all: "\<forall>x \<in> set n. is_digit x"
    and z: "c = CHR ''0'' \<longrightarrow> t = []"
    using assms(1) by (auto simp: nat_lit_def)
  have "takeWhile is_digit (n @ r) = n" "dropWhile is_digit (n @ r) = r"
    using all follows_stop[OF assms(2)] by (auto simp: takeWhile_append dropWhile_append)
  with n d z assms(2) digit_not_special(7)[OF d] show ?thesis
    by (auto simp: pnum_def pint_def pfrac_stop)
qed

lemma jprint_head:
  assumes "wf_json v"
  shows "\<exists>c t. jprint v = c # t \<and> \<not> is_ws c \<and> c \<noteq> CHR '']''"
proof (cases v)
  case (JNum n)
  with assms obtain c t where "n = c # t" "is_digit c"
    by (cases n) (auto simp: nat_lit_def)
  with JNum digit_not_special[of c] show ?thesis by auto
qed (auto simp: is_ws_def quote_def)

lemma skip_ws_jprint: "wf_json v \<Longrightarrow> skip_ws (jprint v @ r) = jprint v @ r"
  using jprint_head[of v] by (auto simp: skip_ws_def)

lemma skip_ws_stop: "\<not> is_ws c \<Longrightarrow> skip_ws (c # t) = c # t"
  by (simp add: skip_ws_def)

lemma not_ws [simp]:
  "\<not> is_ws (CHR '','')" "\<not> is_ws (CHR '']'')" "\<not> is_ws (CHR ''}'')" "\<not> is_ws (CHR '':'')"
  "\<not> is_ws (CHR ''{'')" "\<not> is_ws (CHR ''['')" "\<not> is_ws DQ"
  by (simp_all add: is_ws_def)

lemma pval_jprint:
  "wf_json v \<Longrightarrow> follows r \<Longrightarrow> length (jprint v) \<le> n \<Longrightarrow> pval n (jprint v @ r) = Some (v, r)"
  "list_all wf_json vs \<Longrightarrow> vs \<noteq> [] \<Longrightarrow> length (jprint_elems vs) \<le> n \<Longrightarrow>
     pelems n (jprint_elems vs @ r) = Some (vs, r)"
  "list_all (\<lambda>(k, v). valid_utf8 k \<and> wf_json v) ms \<Longrightarrow> ms \<noteq> [] \<Longrightarrow> length (jprint_members ms) \<le> n \<Longrightarrow>
     pmembers n (jprint_members ms @ r) = Some (ms, r)"
proof (induction v and vs and ms arbitrary: r n and r n and r n
    rule: jprint_jprint_elems_jprint_members.induct)
  case (1 r n)
  then show ?case by (cases n) (auto simp: skip_ws_stop is_ws_def)
next
  case (2 b r n)
  then show ?case by (cases n; cases b) (auto simp: skip_ws_stop is_ws_def)
next
  case (3 x r n)
  then obtain c t where x: "x = c # t" "is_digit c" by (cases x) (auto simp: nat_lit_def)
  from 3 have "pnum (x @ r) = Some (x, r)" by (simp add: pnum_nat_lit)
  with 3 x digit_not_special[OF x(2)] show ?case
    by (cases n) (auto simp: skip_ws_stop)
next
  case (4 s r n)
  then show ?case
    by (cases n) (auto simp: quote_def skip_ws_stop pstr_esc)
next
  case (5 vs r n)
  then obtain m where n: "n = Suc m" by (cases n) auto
  show ?case
  proof (cases vs)
    case Nil
    then show ?thesis by (simp add: n skip_ws_stop)
  next
    case (Cons w ws)
    then have "wf_json w" using 5 by simp
    then obtain c t where "jprint w = c # t" "\<not> is_ws c" "c \<noteq> CHR '']''" using jprint_head by blast
    then have "take 1 (skip_ws (jprint_elems vs @ r)) \<noteq> '']''" by (simp add: Cons skip_ws_stop)
    then show ?thesis using 5 Cons by (simp add: n skip_ws_stop)
  qed
next
  case (6 ms r n)
  then obtain m where n: "n = Suc m" by (cases n) auto
  show ?case
  proof (cases ms)
    case Nil
    then show ?thesis by (simp add: n skip_ws_stop)
  next
    case (Cons km ms')
    obtain k w where km: "km = (k, w)" by (cases km)
    have "take 1 (skip_ws (jprint_members ms @ r)) \<noteq> ''}''"
      by (simp add: Cons km quote_def skip_ws_stop)
    then show ?thesis using 6 Cons by (simp add: n skip_ws_stop)
  qed
next
  case 7
  then show ?case by simp
next
  case (8 v vs r n)
  then obtain m where n: "n = Suc m" by (cases n) (auto split: if_splits)
  have w: "wf_json v" and len: "length (jprint v) \<le> m" using 8 by (auto simp: n split: if_splits)
  show ?case
  proof (cases "vs = []")
    case True
    with 8(1)[OF w _ len, of "CHR '']'' # r"] show ?thesis by (simp add: n skip_ws_stop)
  next
    case False
    with 8 have "pelems m (jprint_elems vs @ r) = Some (vs, r)" by (simp add: n)
    with False 8(1)[OF w _ len, of "CHR '','' # jprint_elems vs @ r"] show ?thesis
      by (simp add: n skip_ws_stop)
  qed
next
  case 9
  then show ?case by simp
next
  case (10 k v ms r n)
  then obtain m where n: "n = Suc m" by (cases n) auto
  have w: "wf_json v" and k: "valid_utf8 k" and len: "length (jprint v) \<le> m"
    using 10 by (auto simp: n quote_def)
  show ?case
  proof (cases "ms = []")
    case True
    with 10(1)[OF w _ len, of "CHR ''}'' # r"] k show ?thesis
      by (simp add: n skip_ws_stop quote_def pstr_esc)
  next
    case False
    with 10 have "pmembers m (jprint_members ms @ r) = Some (ms, r)" by (simp add: n)
    with False 10(1)[OF w _ len, of "CHR '','' # jprint_members ms @ r"] k show ?thesis
      by (simp add: n skip_ws_stop quote_def pstr_esc)
  qed
qed

theorem parse_jprint [codec]: "wf_json v \<Longrightarrow> parse_json (jprint v) = Some v"
  using pval_jprint(1)[of v "[]" "Suc (length (jprint v))"]
  by (simp add: parse_json_def skip_ws_def)

section \<open>Enough fuel\<close>

text \<open>
  Whatever the parser finds with some amount of fuel, it finds with as much fuel as the
  characters it consumes; so the length of the input is always enough.
\<close>

lemma skip_ws_le: "length (skip_ws s) \<le> length s"
  by (simp add: skip_ws_def length_dropWhile_le)

lemma skip_ws_Cons_less: "skip_ws s = c # t \<Longrightarrow> length t < length s"
  using skip_ws_le[of s] by simp

lemma pexp_le: "pexp a s = Some (x, r) \<Longrightarrow> length r \<le> length s"
proof -
  assume p: "pexp a s = Some (x, r)"
  show ?thesis
  proof (cases s)
    case (Cons c t)
    let ?u = "drop (length (takeWhile (\<lambda>d. d = CHR ''+'' \<or> d = CHR ''-'') (take 1 t))) t"
    have "length (dropWhile is_digit ?u) \<le> length ?u" by (rule length_dropWhile_le)
    also have "\<dots> \<le> length t" by simp
    finally show ?thesis using p Cons by (auto simp: pexp_def Let_def split: if_splits)
  qed (use p in \<open>auto simp: pexp_def\<close>)
qed

lemma pfrac_le: "pfrac a s = Some (x, r) \<Longrightarrow> length r \<le> length s"
proof -
  assume p: "pfrac a s = Some (x, r)"
  show ?thesis
  proof (cases s)
    case (Cons c t)
    have "length (dropWhile is_digit t) \<le> length t" by (rule length_dropWhile_le)
    then show ?thesis using p Cons
      by (auto simp: pfrac_def Let_def split: if_splits dest!: pexp_le)
  qed (use p in \<open>auto simp: pfrac_def\<close>)
qed

lemma pint_less: "pint a s = Some (x, r) \<Longrightarrow> length r < length s"
proof -
  assume p: "pint a s = Some (x, r)"
  show ?thesis
  proof (cases s)
    case (Cons c t)
    have "length (dropWhile is_digit t) \<le> length t" by (rule length_dropWhile_le)
    then show ?thesis using p Cons
      by (auto simp: pint_def split: if_splits dest!: pfrac_le)
  qed (use p in \<open>auto simp: pint_def\<close>)
qed

lemma pnum_less: "pnum s = Some (x, r) \<Longrightarrow> length r < length s"
  by (cases s) (auto simp: pnum_def split: if_splits dest: pint_less)

lemma pval_fuel:
  "pval n s = Some (v, r) \<Longrightarrow>
     length r < length s \<and> (\<forall>m \<ge> length s - length r. pval m s = Some (v, r))"
  "pelems n s = Some (vs, r) \<Longrightarrow>
     length r < length s \<and> (\<forall>m \<ge> length s - length r. pelems m s = Some (vs, r))"
  "pmembers n s = Some (ms, r) \<Longrightarrow>
     length r < length s \<and> (\<forall>m \<ge> length s - length r. pmembers m s = Some (ms, r))"
proof (induction n s and n s and n s arbitrary: v r and vs r and ms r
    rule: pval_pelems_pmembers.induct)
  case (2 n s v r)
  from 2(3) obtain c t where ws: "skip_ws s = c # t" by (auto split: list.splits)
  have less: "length t < length s" using ws by (rule skip_ws_Cons_less)
  have wt: "length (skip_ws t) \<le> length t" by (rule skip_ws_le)
  have step: "pval (Suc k) s = Some (v, r) \<Longrightarrow> m = Suc k \<Longrightarrow> pval m s = Some (v, r)" for k m by simp
  have main: "length r < length s \<and> (\<forall>k. length s - length r \<le> Suc k \<longrightarrow> pval (Suc k) s = Some (v, r))"
  proof (cases "c = DQ")
    case True
    with 2(3) ws less show ?thesis
      by (auto dest!: pstr_shorter split: option.splits)
  next
    case dq: False
    show ?thesis
    proof (cases "c = CHR ''{'' \<or> c = CHR ''[''")
      case True
      then show ?thesis
      proof
        assume c: "c = CHR ''{''"
        show ?thesis
        proof (cases "take 1 (skip_ws t) = ''}''")
          case True
          with 2(3) ws less wt c show ?thesis by auto
        next
          case no: False
          with 2(3) ws c obtain ms where ms: "pmembers n t = Some (ms, r)" and v: "v = JObj ms"
            by (auto simp: dq)
          with 2(1)[OF ws dq c no, of ms r] no ws less c show ?thesis by auto
        qed
      next
        assume c: "c = CHR ''[''"
        then have nb: "c \<noteq> CHR ''{''" by simp
        show ?thesis
        proof (cases "take 1 (skip_ws t) = '']''")
          case True
          with 2(3) ws less wt c show ?thesis by auto
        next
          case no: False
          with 2(3) ws c obtain vs where vs: "pelems n t = Some (vs, r)" and v: "v = JArr vs"
            by auto
          with 2(2)[OF ws dq nb c no, of vs r] no ws less c show ?thesis by auto
        qed
      qed
    next
      case nb: False
      show ?thesis
      proof (cases "take 4 (c # t) = ''null'' \<or> take 4 (c # t) = ''true'' \<or> take 5 (c # t) = ''false''")
        case True
        with 2(3) ws less dq nb show ?thesis by (auto split: if_splits)
      next
        case False
        with 2(3) ws dq nb obtain x where "pnum (c # t) = Some (x, r)" and "v = JNum x"
          by auto
        with ws less dq nb False pnum_less[of "c # t" x r] show ?thesis by auto
      qed
    qed
  qed
  show ?case
  proof (intro conjI allI impI)
    show "length r < length s" using main by blast
    fix m assume "length s - length r \<le> m"
    then obtain k where "m = Suc k" using main by (cases m) auto
    with main \<open>length s - length r \<le> m\<close> show "pval m s = Some (v, r)" by blast
  qed
next
  case (4 n s vs r)
  from 4(3) obtain v r1 where v: "pval n s = Some (v, r1)" by (auto split: option.splits)
  with 4(3) obtain c t where ws: "skip_ws r1 = c # t" by (auto split: list.splits)
  have t: "length t < length r1" using ws by (rule skip_ws_Cons_less)
  have IH: "length r1 < length s" "\<And>m. length s - length r1 \<le> m \<Longrightarrow> pval m s = Some (v, r1)"
    using 4(1)[OF v] by auto
  show ?case
  proof (cases "c = CHR '',''")
    case True
    with 4(3) v ws obtain us where us: "pelems n t = Some (us, r)" and vs: "vs = v # us" by auto
    have E: "length r < length t" "\<And>m. length t - length r \<le> m \<Longrightarrow> pelems m t = Some (us, r)"
      using 4(2)[OF v refl ws True us] by auto
    have "pelems m s = Some (vs, r)" if m: "length s - length r \<le> m" for m
    proof -
      obtain k where k: "m = Suc k" using m E(1) t IH(1) by (cases m) auto
      have "length s - length r1 \<le> k" "length t - length r \<le> k" using m k E(1) t IH(1) by linarith+
      then show ?thesis using IH(2) E(2) ws True k vs by simp
    qed
    with E(1) t IH(1) show ?thesis by auto
  next
    case False
    with 4(3) v ws have c: "c = CHR '']''" and vs: "vs = [v]" and r: "r = t"
      by (auto split: if_splits)
    have "pelems m s = Some (vs, r)" if m: "length s - length r \<le> m" for m
    proof -
      obtain k where k: "m = Suc k" using m r t IH(1) by (cases m) auto
      have "length s - length r1 \<le> k" using m k t IH(1) unfolding r by linarith
      then show ?thesis using IH(2) ws c k vs r by simp
    qed
    with t IH(1) r show ?thesis by auto
  qed
next
  case (6 n s ms r)
  from 6(3) obtain d q where ws0: "skip_ws s = d # q" and d: "d = DQ"
    by (auto split: list.splits if_splits)
  from 6(3) ws0 d obtain key r1 where key: "pstr q = Some (key, r1)" by (auto split: option.splits)
  from 6(3) ws0 d key obtain e r2 where ws1: "skip_ws r1 = e # r2" and e: "e = CHR '':''"
    by (auto split: list.splits if_splits)
  from 6(3) ws0 d key ws1 e obtain v r3 where v: "pval n r2 = Some (v, r3)"
    by (auto split: option.splits)
  from 6(3) ws0 d key ws1 e v obtain c t where ws: "skip_ws r3 = c # t"
    by (auto split: list.splits)
  have l0: "length q < length s" "length r1 < length q" "length r2 < length r1" "length t < length r3"
    using skip_ws_Cons_less[OF ws0] pstr_shorter[OF key] skip_ws_Cons_less[OF ws1] skip_ws_Cons_less[OF ws]
    by auto
  have IH: "length r3 < length r2" "\<And>m. length r2 - length r3 \<le> m \<Longrightarrow> pval m r2 = Some (v, r3)"
    using 6(1)[OF ws0 _ key refl ws1 _ v] d e by auto
  show ?case
  proof (cases "c = CHR '',''")
    case True
    with 6(3) ws0 d key ws1 e v ws obtain us where us: "pmembers n t = Some (us, r)"
      and ms: "ms = (key, v) # us" by auto
    have E: "length r < length t" "\<And>m. length t - length r \<le> m \<Longrightarrow> pmembers m t = Some (us, r)"
      using 6(2)[OF ws0 _ key refl ws1 _ v refl ws True us] d e by auto
    have "pmembers m s = Some (ms, r)" if m: "length s - length r \<le> m" for m
    proof -
      obtain k where k: "m = Suc k" using m E(1) l0 IH(1) by (cases m) auto
      have "length r2 - length r3 \<le> k" "length t - length r \<le> k"
        using m k E(1) l0 IH(1) by linarith+
      then show ?thesis using IH(2) E(2) ws0 d key ws1 e ws True k ms by simp
    qed
    with E(1) l0 IH(1) show ?thesis by auto
  next
    case False
    with 6(3) ws0 d key ws1 e v ws have c: "c = CHR ''}''" and ms: "ms = [(key, v)]" and r: "r = t"
      by (auto split: if_splits)
    have "pmembers m s = Some (ms, r)" if m: "length s - length r \<le> m" for m
    proof -
      obtain k where k: "m = Suc k" using m r l0 IH(1) by (cases m) auto
      have "length r2 - length r3 \<le> k" using m k l0 IH(1) unfolding r by linarith
      then show ?thesis using IH(2) ws0 d key ws1 e ws c k ms r by simp
    qed
    with l0 IH(1) r show ?thesis by auto
  qed
qed auto

theorem pval_enough: "pval n s = Some (v, r) \<Longrightarrow> pval (Suc (length s)) s = Some (v, r)"
  using pval_fuel(1)[of n s v r] by (simp del: pval.simps)

section \<open>What printed values look like\<close>

text \<open>Printed values hold no control character, so they never break a line.\<close>

definition printable :: "string \<Rightarrow> bool" where
  "printable s \<longleftrightarrow> (\<forall>c \<in> set s. (0x20::nat) \<le> of_char c)"

lemma printable_simps [simp]:
  "printable []"
  "printable (c # s) \<longleftrightarrow> (0x20::nat) \<le> of_char c \<and> printable s"
  "printable (s @ t) \<longleftrightarrow> printable s \<and> printable t"
  by (auto simp: printable_def)

lemma alnum_printable: "is_alnum_char c \<Longrightarrow> (0x20::nat) \<le> of_char c"
  by (auto simp: is_alnum_char_def Let_def)

lemma printable_hex: "printable (hex_encode s)"
  using hex_encode_chars alnum_printable by (auto simp: printable_def)

lemma printable_b64: "printable (b64_encode s)"
  using b64_encode_chars alnum_printable by (fastforce simp: printable_def is_b64_char_def)

lemma printable_esc_ascii: "printable (esc_ascii c)"
  using printable_hex[of "[c]"] by (auto simp: esc_ascii_def)

text \<open>The bytes after the first one of a multi-byte character are continuation bytes.\<close>

lemma utf8_bytes_high:
  assumes "utf8_len s \<noteq> 0" and "\<not> of_char (hd s) < (0x80::nat)"
  shows "\<forall>c \<in> set (take (utf8_len s) s). (0x80::nat) \<le> of_char c"
    and "\<forall>c \<in> set (tl (take (utf8_len s) s)). (0x80::nat) \<le> of_char c \<and> of_char c \<le> (0xBF::nat)"
proof -
  define n where "n = utf8_len s"
  have s: "s \<noteq> []" using assms by auto
  have ok: "list_all (second_ok (of_char (hd s))) (drop 1 (take (min n 2) s))"
      "list_all (in_bytes 0x80 0xBF) (drop 2 (take n s))"
    using assms s by (auto simp: n_def utf8_len_def Let_def split: if_splits)
  have split: "tl (take n s) = drop 1 (take (min n 2) s) @ drop 2 (take n s)"
    by (cases n; cases "n - 1"; cases s; cases "tl s") (auto simp: min_def)
  have c: "\<forall>c \<in> set (tl (take n s)). (0x80::nat) \<le> of_char c \<and> of_char c \<le> (0xBF::nat)"
    using ok unfolding split
    by (auto simp: list_all_iff second_ok_def in_bytes_def split: if_splits)
  then show "\<forall>c \<in> set (tl (take (utf8_len s) s)). (0x80::nat) \<le> of_char c \<and> of_char c \<le> (0xBF::nat)"
    by (simp add: n_def)
  have "take n s = hd s # tl (take n s)" using s assms(1) by (cases s; cases n) (auto simp: n_def)
  with c assms(2) show "\<forall>c \<in> set (take (utf8_len s) s). (0x80::nat) \<le> of_char c"
    by (metis n_def not_less set_ConsD)
qed

lemma printable_esc: "printable (esc s)"
proof (induction s rule: esc.induct)
  case (1 s)
  show ?case
  proof (cases "s = [] \<or> of_char (hd s) < (0x80::nat) \<or> utf8_len s = 0 \<or> is_line_sep s")
    case True
    with 1 show ?thesis
      by (auto simp: esc.simps[of s] printable_esc_ascii esc_sep_def)
  next
    case False
    then have "printable (take (utf8_len s) s)"
      using utf8_bytes_high(1)[of s] by (auto simp: printable_def intro: order_trans[rotated])
    with 1 False show ?thesis by (auto simp: esc.simps[of s])
  qed
qed

lemma printable_quote: "printable (quote s)"
  by (simp add: quote_def printable_esc)

lemma printable_nat_lit: "nat_lit n \<Longrightarrow> printable n"
  by (auto simp: nat_lit_def printable_def is_digit_def)

lemma printable_jprint:
  "wf_json v \<Longrightarrow> printable (jprint v)"
  "list_all wf_json vs \<Longrightarrow> printable (jprint_elems vs)"
  "list_all (\<lambda>(k, v). valid_utf8 k \<and> wf_json v) ms \<Longrightarrow> printable (jprint_members ms)"
  by (induction v and vs and ms rule: jprint_jprint_elems_jprint_members.induct)
    (auto simp: printable_quote printable_nat_lit)

lemma printable_no_break: "printable s \<Longrightarrow> LF \<notin> set s \<and> CR \<notin> set s"
  by (auto simp: printable_def)


section \<open>Compaction\<close>

text \<open>
  \<open>Marshal\<close> writes a \<open>RawMessage\<close> without the white space between tokens and with HTML
  characters and line separators escaped; text that is not valid JSON is an error.
\<close>

definition is_html :: "char \<Rightarrow> bool" where
  "is_html c \<longleftrightarrow> c = CHR ''<'' \<or> c = CHR ''>'' \<or> c = CHR ''&''"

datatype cstate = Outside | Inside | Escaped

function compact_go :: "cstate \<Rightarrow> string \<Rightarrow> string" where
  "compact_go st s =
     (if s = [] then []
      else if is_html (hd s) then
        BS # ''u00'' @ hex_encode [hd s] @ compact_go (if st = Escaped then Inside else st) (tl s)
      else if st = Outside then
        (if is_ws (hd s) then compact_go Outside (tl s)
         else hd s # compact_go (if hd s = DQ then Inside else Outside) (tl s))
      else if st = Escaped then hd s # compact_go Inside (tl s)
      else if hd s = DQ then hd s # compact_go Outside (tl s)
      else if hd s = BS then hd s # compact_go Escaped (tl s)
      else if is_line_sep s then esc_sep s @ compact_go Inside (drop 3 s)
      else hd s # compact_go Inside (tl s))"
  by pat_completeness auto
termination
  by (relation "measure (length \<circ> snd)") auto

declare compact_go.simps [simp del]

definition compact :: "string \<Rightarrow> string option" where
  "compact s = (if parse_json s = None then None else Some (compact_go Outside s))"

lemma compact_copy:
  assumes "\<forall>c \<in> set a. (0x80::nat) \<le> of_char c \<and> of_char c \<le> (0xBF::nat)"
  shows "compact_go Inside (a @ t) = a @ compact_go Inside t"
  using assms
proof (induction a)
  case (Cons c a)
  then have c: "(0x80::nat) \<le> of_char c" "of_char c \<le> (0xBF::nat)" by auto
  then have "c \<noteq> CHR 0xE2" by auto
  then have "\<not> is_line_sep (c # a @ t)" by (simp add: is_line_sep_def)
  moreover have "\<not> is_html c" "c \<noteq> DQ" "c \<noteq> BS" using c by (auto simp: is_html_def)
  ultimately show ?case using Cons by (simp add: compact_go.simps[of Inside "c # u" for u])
qed simp

lemma compact_plain:
  assumes "\<forall>c \<in> set a. of_char c < (0x80::nat) \<and> \<not> is_html c \<and> c \<noteq> DQ \<and> c \<noteq> BS"
  shows "compact_go Inside (a @ t) = a @ compact_go Inside t"
  using assms
proof (induction a)
  case (Cons c a)
  then have c: "of_char c < (0x80::nat)" "\<not> is_html c" "c \<noteq> DQ" "c \<noteq> BS"
    and IH: "compact_go Inside (a @ t) = a @ compact_go Inside t" by auto
  from c(1) have "c \<noteq> CHR 0xE2" by auto
  then have "\<not> is_line_sep (c # a @ t)" by (simp add: is_line_sep_def)
  with c IH show ?case by (simp add: compact_go.simps[of Inside "c # u" for u])
qed simp

lemma alnum_plain: "is_alnum_char c \<Longrightarrow> of_char c < (0x80::nat) \<and> \<not> is_html c \<and> c \<noteq> DQ \<and> c \<noteq> BS"
  by (auto simp: is_alnum_char_def is_html_def Let_def)

lemma compact_escape:
  assumes "\<forall>c \<in> set a. is_alnum_char c" and "of_char b < (0x80::nat)" and "\<not> is_html b"
  shows "compact_go Inside (BS # b # a @ t) = BS # b # a @ compact_go Inside t"
proof -
  have "compact_go Inside (BS # b # a @ t) = BS # compact_go Escaped (b # a @ t)"
    by (simp add: compact_go.simps[of Inside "BS # u" for u] is_html_def)
  also have "compact_go Escaped (b # a @ t) = b # compact_go Inside (a @ t)"
    using assms by (simp add: compact_go.simps[of Escaped])
  also have "compact_go Inside (a @ t) = a @ compact_go Inside t"
    using assms(1) alnum_plain by (intro compact_plain) auto
  finally show ?thesis .
qed

lemma esc_ascii_shape:
  assumes "of_char c < (0x80::nat)"
  obtains (plain) "esc_ascii c = [c]" "\<not> is_html c" "c \<noteq> DQ" "c \<noteq> BS"
  | (escaped) b a where "esc_ascii c = BS # b # a" "\<forall>x \<in> set a. is_alnum_char x"
      "of_char b < (0x80::nat)" "\<not> is_html b"
proof (cases "c \<in> {DQ, BS, CHR 0x08, CHR 0x0C, CHR 0x0A, CHR 0x0D, CHR 0x09}")
  case True
  then obtain b where "esc_ascii c = [BS, b]" "of_char b < (0x80::nat)" "\<not> is_html b"
    unfolding insert_iff empty_iff by (elim disjE) (simp_all add: esc_ascii_def is_html_def)
  then show ?thesis using escaped[of b "[]"] by simp
next
  case no: False
  show ?thesis
  proof (cases "of_char c < (0x20::nat) \<or> c = CHR ''<'' \<or> c = CHR ''>'' \<or> c = CHR ''&''")
    case True
    with no have "esc_ascii c = BS # CHR ''u'' # ''00'' @ hex_encode [c]" by (simp add: esc_ascii_def)
    moreover have "\<forall>x \<in> set (''00'' @ hex_encode [c]). is_alnum_char x"
      using hex_encode_chars[of _ "[c]"] by (auto simp: is_alnum_char_def[of "CHR ''0''"])
    ultimately show ?thesis using escaped[of "CHR ''u''" "''00'' @ hex_encode [c]"]
      by (simp add: is_html_def)
  next
    case False
    with no have "esc_ascii c = [c]" by (simp add: esc_ascii_def)
    then show ?thesis using no False plain by (simp add: is_html_def)
  qed
qed

lemma compact_esc_ascii:
  assumes "of_char c < (0x80::nat)"
  shows "compact_go Inside (esc_ascii c @ t) = esc_ascii c @ compact_go Inside t"
  using assms
proof (cases rule: esc_ascii_shape)
  case plain
  then show ?thesis using compact_plain[of "[c]" t] assms by simp
next
  case (escaped b a)
  then show ?thesis using compact_escape[of a b t] by simp
qed

lemma compact_esc: "compact_go Inside (esc s @ DQ # r) = esc s @ DQ # compact_go Outside r"
proof (induction s rule: esc.induct)
  case (1 s)
  let ?n = "utf8_len s"
  consider (n) "s = []" | (a) "s \<noteq> []" "of_char (hd s) < (0x80::nat)"
    | (i) "s \<noteq> []" "\<not> of_char (hd s) < (0x80::nat)" "?n = 0"
    | (l) "s \<noteq> []" "\<not> of_char (hd s) < (0x80::nat)" "?n \<noteq> 0" "is_line_sep s"
    | (c) "s \<noteq> []" "\<not> of_char (hd s) < (0x80::nat)" "?n \<noteq> 0" "\<not> is_line_sep s" by blast
  then show ?case
  proof cases
    case n
    then show ?thesis by (simp add: esc.simps compact_go.simps[of Inside] is_html_def)
  next
    case a
    then show ?thesis using 1(1) by (simp add: esc.simps[of s] compact_esc_ascii)
  next
    case i
    then show ?thesis
      using 1(2) compact_escape[of "''fffd''" "CHR ''u''" "esc (tl s) @ DQ # r"]
      by (simp add: esc.simps[of s] is_alnum_char_def is_html_def)
  next
    case l
    then show ?thesis
      using 1(3) compact_escape[of "''2028''" "CHR ''u''" "esc (drop ?n s) @ DQ # r"]
        compact_escape[of "''2029''" "CHR ''u''" "esc (drop ?n s) @ DQ # r"]
      by (simp add: esc.simps[of s] esc_sep_def is_alnum_char_def is_html_def)
  next
    case c
    let ?t = "esc (drop ?n s) @ DQ # r"
    have tk: "take ?n s = hd s # tl (take ?n s)" using c by (cases s; cases ?n) auto
    have "is_line_sep (take ?n s @ ?t) = is_line_sep s"
    proof (cases "hd s = CHR 0xE2")
      case True
      then have "?n = 3" using c(1,3)
        by (auto simp: utf8_len_def Let_def utf8_need_def split: if_splits)
      moreover have "length (take 3 s) = 3" using utf8_len_le[of s] \<open>?n = 3\<close> by simp
      ultimately show ?thesis by (simp add: is_line_sep_def)
    next
      case False
      then show ?thesis using c(1) by (subst tk, cases s) (auto simp: is_line_sep_def)
    qed
    then have ns: "\<not> is_line_sep (hd s # tl (take ?n s) @ ?t)" using c(4) tk by (metis append_Cons)
    have "\<not> is_html (hd s)" "hd s \<noteq> DQ" "hd s \<noteq> BS" using c(2) by (auto simp: is_html_def)
    then have "compact_go Inside (hd s # tl (take ?n s) @ ?t) = hd s # compact_go Inside (tl (take ?n s) @ ?t)"
      using ns by (simp add: compact_go.simps[of Inside "hd s # u" for u])
    also have "compact_go Inside (tl (take ?n s) @ ?t) = tl (take ?n s) @ compact_go Inside ?t"
      by (rule compact_copy) (use utf8_bytes_high(2)[of s] c in simp)
    finally have "compact_go Inside (take ?n s @ ?t) = take ?n s @ compact_go Inside ?t"
      using tk by (metis append_Cons)
    then show ?thesis using 1(4) c by (simp add: esc.simps[of s])
  qed
qed

lemma compact_quote: "compact_go Outside (quote s @ r) = quote s @ compact_go Outside r"
proof -
  have "compact_go Outside (quote s @ r) = DQ # compact_go Inside (esc s @ DQ # r)"
    by (simp add: quote_def compact_go.simps[of Outside "DQ # u" for u] is_html_def)
  then show ?thesis by (simp add: compact_esc) (simp add: quote_def)
qed

lemma compact_token:
  "\<forall>c \<in> set a. \<not> is_html c \<and> \<not> is_ws c \<and> c \<noteq> DQ \<Longrightarrow> compact_go Outside (a @ r) = a @ compact_go Outside r"
  by (induction a) (auto simp: compact_go.simps[of Outside "c # u" for c u])

lemma compact_jprint:
  "wf_json v \<Longrightarrow> compact_go Outside (jprint v @ r) = jprint v @ compact_go Outside r"
  "list_all wf_json vs \<Longrightarrow> compact_go Outside (jprint_elems vs @ r) = jprint_elems vs @ compact_go Outside r"
  "list_all (\<lambda>(k, v). valid_utf8 k \<and> wf_json v) ms \<Longrightarrow>
     compact_go Outside (jprint_members ms @ r) = jprint_members ms @ compact_go Outside r"
proof (induction v and vs and ms arbitrary: r and r and r
    rule: jprint_jprint_elems_jprint_members.induct)
  case (3 n r)
  then have "\<forall>c \<in> set n. \<not> is_html c \<and> \<not> is_ws c \<and> c \<noteq> DQ"
    by (auto simp: nat_lit_def is_digit_def is_html_def is_ws_def)
  then show ?case by (simp add: compact_token)
qed (auto simp: compact_quote compact_go.simps[of Outside "c # u" for c u] is_html_def is_ws_def)

lemma compact_jprint_id: "wf_json v \<Longrightarrow> compact (jprint v) = Some (jprint v)"
  using compact_jprint(1)[of v "[]"]
  by (simp add: compact_def parse_jprint compact_go.simps[of Outside "[]"])

section \<open>Objects\<close>

text \<open>
  An object whose members' values are given as text, which is how a \<open>map[string]any\<close>
  holding a \<open>RawMessage\<close> is written, and the members of an object with their values' text.
\<close>

fun members_text :: "(string \<times> string) list \<Rightarrow> string" where
  "members_text [] = ''}''"
| "members_text ((k, t) # ms) =
     quote k @ CHR '':'' # t @ (if ms = [] then ''}'' else CHR '','' # members_text ms)"

definition object_text :: "(string \<times> string) list \<Rightarrow> string" where
  "object_text ms = CHR ''{'' # members_text ms"

lemma members_text_jprint: "members_text (map (\<lambda>(k, v). (k, jprint v)) ms) = jprint_members ms"
  by (induction ms) auto

lemma object_text_jprint: "object_text (map (\<lambda>(k, v). (k, jprint v)) ms) = jprint (JObj ms)"
  by (simp add: object_text_def members_text_jprint)

fun raw_members :: "nat \<Rightarrow> string \<Rightarrow> ((string \<times> string) list \<times> string) option" where
  "raw_members 0 s = None"
| "raw_members (Suc n) s =
     (case skip_ws s of
        [] \<Rightarrow> None
      | d # k \<Rightarrow>
          if d \<noteq> DQ then None
          else (case pstr k of
            None \<Rightarrow> None
          | Some (key, r1) \<Rightarrow>
              (case skip_ws r1 of
                 [] \<Rightarrow> None
               | e # r2 \<Rightarrow>
                   if e \<noteq> CHR '':'' then None
                   else (let u = skip_ws r2 in case pval n u of
                     None \<Rightarrow> None
                   | Some (v, r) \<Rightarrow>
                       (let t = take (length u - length r) u in
                        case skip_ws r of
                          [] \<Rightarrow> None
                        | c # q \<Rightarrow>
                            if c = CHR '','' then
                              map_option (\<lambda>(ms, q'). ((key, t) # ms, q')) (raw_members n q)
                            else if c = CHR ''}'' then Some ([(key, t)], q)
                            else None)))))"

definition raw_object :: "string \<Rightarrow> (string \<times> string) list option" where
  "raw_object s =
     (case skip_ws s of
        [] \<Rightarrow> None
      | c # t \<Rightarrow>
          if c \<noteq> CHR ''{'' then (if parse_json s = Some JNull then Some [] else None)
          else if take 1 (skip_ws t) = ''}'' then
            (if skip_ws (tl (skip_ws t)) = [] then Some [] else None)
          else (case raw_members (length s) t of
            Some (ms, r) \<Rightarrow> if skip_ws r = [] then Some ms else None
          | None \<Rightarrow> None))"

lemma raw_members_jprint:
  "list_all (\<lambda>(k, v). valid_utf8 k \<and> wf_json v) ms \<Longrightarrow> ms \<noteq> [] \<Longrightarrow> length (jprint_members ms) \<le> n \<Longrightarrow>
     raw_members n (jprint_members ms @ r) = Some (map (\<lambda>(k, v). (k, jprint v)) ms, r)"
proof (induction ms arbitrary: n)
  case (Cons kv ms)
  obtain k v where kv: "kv = (k, v)" by (cases kv)
  obtain m where n: "n = Suc m" using Cons.prems by (cases n) (auto simp: kv quote_def)
  have w: "wf_json v" and k: "valid_utf8 k" and len: "length (jprint v) \<le> m"
    using Cons.prems by (auto simp: n kv quote_def)
  have skip: "skip_ws (jprint v @ t) = jprint v @ t" for t using w by (rule skip_ws_jprint)
  show ?case
  proof (cases "ms = []")
    case True
    with pval_jprint(1)[OF w _ len, of "CHR ''}'' # r"] k skip show ?thesis
      by (simp add: n kv skip_ws_stop quote_def pstr_esc)
  next
    case False
    with Cons have "raw_members m (jprint_members ms @ r) = Some (map (\<lambda>(k, v). (k, jprint v)) ms, r)"
      by (simp add: n kv)
    with False pval_jprint(1)[OF w _ len, of "CHR '','' # jprint_members ms @ r"] k skip show ?thesis
      by (simp add: n kv skip_ws_stop quote_def pstr_esc)
  qed
qed simp

theorem raw_object_jprint [codec]:
  assumes "list_all (\<lambda>(k, v). valid_utf8 k \<and> wf_json v) ms" and "ms \<noteq> []"
  shows "raw_object (object_text (map (\<lambda>(k, v). (k, jprint v)) ms)) =
           Some (map (\<lambda>(k, v). (k, jprint v)) ms)"
proof -
  obtain k v ms' where ms: "ms = (k, v) # ms'" using assms(2) by (cases ms) auto
  have "take 1 (skip_ws (jprint_members ms)) \<noteq> ''}''"
    by (simp add: ms quote_def skip_ws_stop)
  then show ?thesis
    using raw_members_jprint[OF assms, of "Suc (length (jprint_members ms))" "[]"]
    by (simp add: raw_object_def object_text_def members_text_jprint skip_ws_stop skip_ws_def)
qed


section \<open>Decoding into fields\<close>

text \<open>
  \<open>encoding/json\<close> matches a member to a field by case-folded name; the long s and the Kelvin
  sign fold to ASCII letters.
\<close>

fun fold_key :: "string \<Rightarrow> string" where
  "fold_key [] = []"
| "fold_key [c] = [lower_char c]"
| "fold_key (a # b # s) =
     (if a = CHR 0xC5 \<and> b = CHR 0xBF then CHR ''s'' # fold_key s
      else if a = CHR 0xE2 \<and> take 2 (b # s) = [CHR 0x84, CHR 0xAA] then CHR ''k'' # fold_key (drop 1 s)
      else lower_char a # fold_key (b # s))"

text \<open>
  A field starts at its zero value; each member of its name, in order, replaces it, a \<open>null\<close>
  leaves it, and a value of the wrong type makes the whole \<open>Unmarshal\<close> fail.
\<close>

definition field :: "('a \<Rightarrow> 'v \<Rightarrow> 'a option) \<Rightarrow> 'a \<Rightarrow> string \<Rightarrow> (string \<times> 'v) list \<Rightarrow> 'a option" where
  "field get zero name ms =
     foldl (\<lambda>acc (k, v). if fold_key k = name then Option.bind acc (\<lambda>x. get x v) else acc) (Some zero) ms"

definition get_str :: "string \<Rightarrow> json \<Rightarrow> string option" where
  "get_str old v = (case v of JNull \<Rightarrow> Some old | JStr s \<Rightarrow> Some s | _ \<Rightarrow> None)"

definition get_u64 :: "u64 \<Rightarrow> json \<Rightarrow> u64 option" where
  "get_u64 old v =
     (case v of
        JNull \<Rightarrow> Some old
      | JNum n \<Rightarrow>
          if list_all is_digit n \<and> nat_of_dec n < 2 ^ 64 then Some (of_nat (nat_of_dec n)) else None
      | _ \<Rightarrow> None)"

definition get_int :: "int \<Rightarrow> json \<Rightarrow> int option" where
  "get_int old v =
     (case v of
        JNull \<Rightarrow> Some old
      | JNum n \<Rightarrow>
          (let ds = trim_prefix n ''-'';
               i = (if has_prefix n ''-'' then - int (nat_of_dec ds) else int (nat_of_dec ds))
           in if list_all is_digit ds \<and> - (2 ^ 63) \<le> i \<and> i < 2 ^ 63 then Some i else None)
      | _ \<Rightarrow> None)"

definition get_strs :: "string list \<Rightarrow> json \<Rightarrow> string list option" where
  "get_strs old v =
     (case v of
        JNull \<Rightarrow> Some []
      | JArr vs \<Rightarrow> those (map (get_str []) vs)
      | _ \<Rightarrow> None)"

text \<open>The members of a body's object: none for \<open>null\<close>, an error for anything else.\<close>

definition body_members :: "string \<Rightarrow> (string \<times> json) list option" where
  "body_members b =
     (case parse_json b of
        Some (JObj ms) \<Rightarrow> Some ms
      | Some JNull \<Rightarrow> Some []
      | _ \<Rightarrow> None)"

definition body_str :: "string \<Rightarrow> string \<Rightarrow> string option" where
  "body_str name b = Option.bind (body_members b) (field get_str [] name)"

definition body_strs :: "string \<Rightarrow> string \<Rightarrow> string list option" where
  "body_strs name b = Option.bind (body_members b) (field get_strs [] name)"

text \<open>
  \<open>json.Marshal\<close> of a \<open>map[string]string\<close>: members in the order of their keys.  A struct is
  written in the order of its fields with \<open>marshal_fields\<close>.
\<close>

definition marshal_fields :: "(string \<times> json) list \<Rightarrow> string" where
  "marshal_fields ms = jprint (JObj ms)"

definition str_members :: "(string \<times> string) list \<Rightarrow> (string \<times> json) list" where
  "str_members = map (\<lambda>(k, s). (k, JStr s))"

definition marshal_strings :: "(string \<times> string) list \<Rightarrow> string" where
  "marshal_strings ms = marshal_fields (str_members (sort_key fst ms))"

lemma field_Nil [simp]: "field get z name [] = Some z"
  by (simp add: field_def)

lemma field_Cons:
  "field get z name ((k, v) # ms) =
     (if fold_key k = name
      then (case get z v of None \<Rightarrow> None | Some x \<Rightarrow> field get x name ms)
      else field get z name ms)"
proof -
  have "foldl (\<lambda>acc (k, v). if fold_key k = name then Option.bind acc (\<lambda>x. get x v) else acc) None ms = None"
    by (induction ms) auto
  then show ?thesis by (auto simp: field_def split: option.splits)
qed

lemma get_simps [simp]:
  "get_str old (JStr s) = Some s"
  "get_str old JNull = Some old"
  "get_u64 oldw (JNum (dec_of_nat (unat w))) = Some w"
  by (use nat_lit_dec[of "unat w"] unsigned_less[of w] in
      \<open>auto simp: get_str_def get_u64_def nat_lit_def list_all_iff\<close>)

lemma get_int_dec:
  assumes "0 \<le> i" and "i < 2 ^ 63"
  shows "get_int old (JNum (dec_of_nat (nat i))) = Some i"
proof -
  have "nat_lit (dec_of_nat (nat i))" by (rule nat_lit_dec)
  then obtain c t where n: "dec_of_nat (nat i) = c # t" "is_digit c" "list_all is_digit (c # t)"
    by (cases "dec_of_nat (nat i)") (auto simp: nat_lit_def list_all_iff)
  then have "\<not> has_prefix (dec_of_nat (nat i)) ''-''"
    using digit_not_special(7)[OF n(2)] by (simp add: has_prefix_def)
  moreover have "nat_of_dec (c # t) = nat i" by (simp flip: n(1))
  ultimately show ?thesis using assms n by (simp add: get_int_def Let_def trim_prefix_def)
qed

lemma body_members_marshal [codec]:
  assumes "list_all (\<lambda>(k, v). valid_utf8 k \<and> wf_json v) ms"
  shows "body_members (marshal_fields ms) = Some ms"
  using parse_jprint[of "JObj ms"] assms by (simp add: body_members_def marshal_fields_def)

text \<open>A key written in plain ASCII lower case is its own folding.\<close>

definition plain_key :: "string \<Rightarrow> bool" where
  "plain_key k \<longleftrightarrow> (\<forall>c \<in> set k. is_alnum_char c \<and> lower_char c = c \<or> c = CHR ''_'')"

lemma plain_key_fold: "plain_key k \<Longrightarrow> fold_key k = k"
proof (induction k rule: fold_key.induct)
  case (3 a b s)
  then have "a \<noteq> CHR 0xC5" "a \<noteq> CHR 0xE2" "lower_char a = a"
    by (auto simp: plain_key_def is_alnum_char_def lower_char_def)
  moreover have "plain_key (b # s)" using 3(4) by (simp add: plain_key_def)
  ultimately show ?case using 3 by simp
qed (auto simp: plain_key_def lower_char_def)

lemma plain_key_utf8: "plain_key k \<Longrightarrow> valid_utf8 k"
  by (rule valid_utf8_ascii) (auto simp: plain_key_def is_alnum_char_def Let_def)

end
