(* ===== verification/Replay.thy ===== *)
theory Replay
  imports Prelude
begin

text \<open>
  The interface shared by everything the code rebuilds from a log: a state, a step that an entry
  of the log takes it through, and an invariant every step keeps.  The membership state, the
  runs of a room and the verifier's report are such replays.
\<close>

locale replay =
  fixes step :: "'s \<Rightarrow> 'e \<Rightarrow> 's"
    and init :: "'s"
    and inv :: "'s \<Rightarrow> bool"
  assumes inv_init: "inv init"
    and inv_step: "inv s \<Longrightarrow> inv (step s e)"
begin

definition state :: "'e list \<Rightarrow> 's" where
  "state es = foldl step init es"

lemma state_Nil [simp]: "state [] = init"
  by (simp add: state_def)

lemma state_snoc [simp]: "state (es @ [e]) = step (state es) e"
  by (simp add: state_def)

lemma state_append: "state (es @ fs) = foldl step (state es) fs"
  by (simp add: state_def)

lemma inv_foldl: "inv s \<Longrightarrow> inv (foldl step s es)"
  by (induction es arbitrary: s) (auto intro: inv_step)

lemma inv_state [simp]: "inv (state es)"
  by (simp add: state_def inv_foldl inv_init)

text \<open>What holds at the end and not at the start was made true by some entry, for good.\<close>

lemma turning_point:
  assumes "P (state es)" and "\<not> P init"
  shows "\<exists>pre e post. es = pre @ e # post \<and> \<not> P (state pre) \<and>
           (\<forall>k \<le> length post. P (state (pre @ e # take k post)))"
  using assms(1)
proof (induction es rule: rev_induct)
  case Nil
  with assms(2) show ?case by simp
next
  case (snoc e es)
  show ?case
  proof (cases "P (state es)")
    case True
    with snoc.IH obtain pre f post where *: "es = pre @ f # post" "\<not> P (state pre)"
      "\<And>k. k \<le> length post \<Longrightarrow> P (state (pre @ f # take k post))" by blast
    have "P (state (pre @ f # take k (post @ [e])))" if "k \<le> length (post @ [e])" for k
      using that *(1,3) snoc.prems by (cases "k \<le> length post") auto
    with * show ?thesis by (intro exI[of _ pre] exI[of _ f] exI[of _ "post @ [e]"]) simp
  next
    case False
    with snoc.prems show ?thesis by (intro exI[of _ es] exI[of _ e] exI[of _ "[]"]) simp
  qed
qed

text \<open>An observation no entry of the log changes is the initial one.\<close>

lemma unchanged:
  assumes "\<And>s e. inv s \<Longrightarrow> e \<in> set es \<Longrightarrow> f (step s e) = f s"
  shows "f (state es) = f init"
  using assms by (induction es rule: rev_induct) auto

end

end
