(* ===== verification/Event_Codec.thy ===== *)
theory Event_Codec
  imports Go_Json
begin

text \<open>
  \<open>internal/room/event/event.go\<close>, with the key handling of \<open>internal/room/identity/identity.go\<close>
  it calls: the signed event, its canonical bytes, its signature, and the line of the journal
  that stores it.  SHA-256 and Ed25519 are the fields of a \<open>crypto\<close> record that every definition
  using them takes as an argument; what is relied on is stated by \<open>sha_ok\<close> and \<open>keypair\<close>.
\<close>

section \<open>Cryptographic primitives and identities\<close>

record crypto =
  sha256 :: "bytes \<Rightarrow> bytes"
  ed_sign :: "bytes \<Rightarrow> bytes \<Rightarrow> bytes"
  ed_verify :: "bytes \<Rightarrow> bytes \<Rightarrow> bytes \<Rightarrow> bool"

text \<open>A SHA-256 digest has 32 bytes; a key pair's signatures verify.\<close>

definition sha_ok :: "crypto \<Rightarrow> bool" where
  "sha_ok C \<longleftrightarrow> (\<forall>m. length (sha256 C m) = 32)"

definition keypair :: "crypto \<Rightarrow> bytes \<Rightarrow> bytes \<Rightarrow> bool" where
  "keypair C priv pub \<longleftrightarrow> length pub = 32 \<and> (\<forall>m. ed_verify C pub m (ed_sign C priv m))"

record identity =
  id_name :: string
  member_id :: string
  public_key :: bytes
  private_key :: bytes

definition compute_member_id :: "crypto \<Rightarrow> bytes \<Rightarrow> string" where
  "compute_member_id C pub = ''mem_'' @ hex_encode (take 8 (sha256 C pub))"

definition wf_identity :: "crypto \<Rightarrow> identity \<Rightarrow> bool" where
  "wf_identity C i \<longleftrightarrow>
     keypair C (private_key i) (public_key i) \<and> member_id i = compute_member_id C (public_key i)"

lemma compute_member_id_printable: "printable (compute_member_id C pub)"
  by (simp add: compute_member_id_def printable_hex printable_simps)

lemma compute_member_id_utf8: "valid_utf8 (compute_member_id C pub)"
  by (rule valid_utf8_ascii)
    (auto simp: compute_member_id_def is_alnum_char_def Let_def dest!: hex_encode_chars)


section \<open>Event kinds\<close>

datatype event_kind =
    RoomCreated | RoomRenamed | PolicyChanged | MemberAdded | MemberRemoved | MemberRoleChanged
  | NotePosted | DecisionRecorded | ArtifactLinked | ArtifactUnlinked | ArtifactChanged
  | RunRequested | RunApproved | RunDenied | RunStarted | RunFinished | RunFailed | RunCancelled
  | CheckpointReq | CheckpointResolved | OtherKind

definition kind_names :: "(string \<times> event_kind) list" where
  "kind_names =
     [(''room.created'', RoomCreated), (''room.renamed'', RoomRenamed),
      (''policy.changed'', PolicyChanged), (''member.added'', MemberAdded),
      (''member.removed'', MemberRemoved), (''member.role_changed'', MemberRoleChanged),
      (''note.posted'', NotePosted), (''decision.recorded'', DecisionRecorded),
      (''artifact.linked'', ArtifactLinked), (''artifact.unlinked'', ArtifactUnlinked),
      (''artifact.changed'', ArtifactChanged), (''run.requested'', RunRequested),
      (''run.approved'', RunApproved), (''run.denied'', RunDenied), (''run.started'', RunStarted),
      (''run.finished'', RunFinished), (''run.failed'', RunFailed), (''run.cancelled'', RunCancelled),
      (''checkpoint.requested'', CheckpointReq), (''checkpoint.resolved'', CheckpointResolved)]"

definition kind_of :: "string \<Rightarrow> event_kind" where
  "kind_of s = (case map_of kind_names s of None \<Rightarrow> OtherKind | Some k \<Rightarrow> k)"

lemma kind_of_literal [simp]:
  "kind_of ''room.created'' = RoomCreated" "kind_of ''member.added'' = MemberAdded"
  "kind_of ''member.removed'' = MemberRemoved" "kind_of ''member.role_changed'' = MemberRoleChanged"
  "kind_of ''note.posted'' = NotePosted" "kind_of ''decision.recorded'' = DecisionRecorded"
  "kind_of ''artifact.linked'' = ArtifactLinked" "kind_of ''artifact.unlinked'' = ArtifactUnlinked"
  "kind_of ''artifact.changed'' = ArtifactChanged" "kind_of ''run.requested'' = RunRequested"
  "kind_of ''run.approved'' = RunApproved" "kind_of ''run.denied'' = RunDenied"
  "kind_of ''run.started'' = RunStarted" "kind_of ''run.finished'' = RunFinished"
  "kind_of ''run.failed'' = RunFailed" "kind_of ''run.cancelled'' = RunCancelled"
  "kind_of ''checkpoint.requested'' = CheckpointReq" "kind_of ''checkpoint.resolved'' = CheckpointResolved"
  by code_simp+


section \<open>Events\<close>

text \<open>The body is the text of a JSON value (\<open>json.RawMessage\<close>); \<open>[]\<close> is the nil message.\<close>

record event =
  ev_v :: int
  ev_id :: string
  ev_room :: string
  ev_author :: string
  ev_seq :: u64
  ev_prev :: string
  ev_lamport :: u64
  ev_ts :: string
  ev_kind :: string
  ev_body :: string
  ev_sig :: string

abbreviation kindof :: "event \<Rightarrow> event_kind" where
  "kindof e \<equiv> kind_of (ev_kind e)"

definition current_version :: int where
  "current_version = 1"

definition sig_prefix :: string where
  "sig_prefix = ''ed25519:''"

text \<open>\<open>json.Marshal\<close> writes a nil \<open>RawMessage\<close> as \<open>null\<close> and any other one compacted.\<close>

definition raw_text :: "string \<Rightarrow> string option" where
  "raw_text b = (if b = [] then Some ''null'' else compact b)"

definition num64 :: "u64 \<Rightarrow> string" where
  "num64 w = dec_of_nat (unat w)"

definition canonical_bytes :: "event \<Rightarrow> bytes option" where
  "canonical_bytes e =
     map_option (\<lambda>b. object_text
       [(''author'', quote (ev_author e)), (''body'', b), (''id'', quote (ev_id e)),
        (''kind'', quote (ev_kind e)), (''lamport'', num64 (ev_lamport e)),
        (''prev'', quote (ev_prev e)), (''room'', quote (ev_room e)), (''seq'', num64 (ev_seq e)),
        (''ts'', quote (ev_ts e)), (''v'', dec_of_int (ev_v e))])
     (raw_text (ev_body e))"

definition sign_event :: "crypto \<Rightarrow> identity \<Rightarrow> event \<Rightarrow> event option" where
  "sign_event C i e =
     (let e1 = (if ev_v e = 0 then e\<lparr>ev_v := current_version\<rparr> else e)
      in map_option (\<lambda>c. e1\<lparr>ev_sig := sig_prefix @ b64_encode (ed_sign C (private_key i) c)\<rparr>)
           (canonical_bytes e1))"

datatype sig_error = MissingPrefix | BadBase64 | BadCanonical | InvalidSignature

definition verify_signature :: "crypto \<Rightarrow> bytes \<Rightarrow> event \<Rightarrow> sig_error + unit" where
  "verify_signature C pub e =
     (if \<not> has_prefix (ev_sig e) sig_prefix then Inl MissingPrefix
      else (case b64_decode (trim_prefix (ev_sig e) sig_prefix) of
        None \<Rightarrow> Inl BadBase64
      | Some s \<Rightarrow>
          (case canonical_bytes e of
             None \<Rightarrow> Inl BadCanonical
           | Some c \<Rightarrow> if ed_verify C pub c s then Inr () else Inl InvalidSignature)))"

definition marshal_json_line :: "event \<Rightarrow> bytes option" where
  "marshal_json_line e =
     map_option (\<lambda>b. object_text
       [(''author'', quote (ev_author e)), (''body'', b), (''id'', quote (ev_id e)),
        (''kind'', quote (ev_kind e)), (''lamport'', num64 (ev_lamport e)),
        (''prev'', quote (ev_prev e)), (''room'', quote (ev_room e)), (''seq'', num64 (ev_seq e)),
        (''sig'', quote (ev_sig e)), (''ts'', quote (ev_ts e)), (''v'', dec_of_int (ev_v e))] @ [LF])
     (raw_text (ev_body e))"

definition typed :: "('a \<Rightarrow> json \<Rightarrow> 'a option) \<Rightarrow> 'a \<Rightarrow> string \<Rightarrow> 'a option" where
  "typed get old t = Option.bind (parse_json t) (get old)"

definition get_raw :: "string \<Rightarrow> string \<Rightarrow> string option" where
  "get_raw old t = Some t"

definition unmarshal_json_line :: "bytes \<Rightarrow> event option" where
  "unmarshal_json_line data = do {
     ms \<leftarrow> raw_object data;
     v \<leftarrow> field (typed get_int) 0 ''v'' ms;
     i \<leftarrow> field (typed get_str) [] ''id'' ms;
     room \<leftarrow> field (typed get_str) [] ''room'' ms;
     author \<leftarrow> field (typed get_str) [] ''author'' ms;
     seq \<leftarrow> field (typed get_u64) 0 ''seq'' ms;
     prev \<leftarrow> field (typed get_str) [] ''prev'' ms;
     lamport \<leftarrow> field (typed get_u64) 0 ''lamport'' ms;
     ts \<leftarrow> field (typed get_str) [] ''ts'' ms;
     kind \<leftarrow> field (typed get_str) [] ''kind'' ms;
     body \<leftarrow> field get_raw [] ''body'' ms;
     sig \<leftarrow> field (typed get_str) [] ''sig'' ms;
     Some \<lparr>ev_v = v, ev_id = i, ev_room = room, ev_author = author, ev_seq = seq, ev_prev = prev,
           ev_lamport = lamport, ev_ts = ts, ev_kind = kind, ev_body = body, ev_sig = sig\<rparr>
   }"


section \<open>Well-formed events and the round trip through a line\<close>

text \<open>
  What the operations that build events guarantee: text fields in UTF-8, a body that
  \<open>json.Marshal\<close> wrote, and a version a Go \<open>int\<close> can hold.
\<close>

definition wf_event :: "event \<Rightarrow> bool" where
  "wf_event e \<longleftrightarrow>
     0 \<le> ev_v e \<and> ev_v e < 2 ^ 63 \<and>
     list_all valid_utf8 [ev_id e, ev_room e, ev_author e, ev_prev e, ev_ts e, ev_kind e, ev_sig e] \<and>
     (\<exists>b. wf_json b \<and> ev_body e = jprint b)"

lemma jprint_not_Nil: "wf_json v \<Longrightarrow> jprint v \<noteq> []"
  using jprint_head[of v] by auto

lemma wf_event_body: "wf_event e \<Longrightarrow> raw_text (ev_body e) = Some (ev_body e)"
  using jprint_not_Nil by (fastforce simp: wf_event_def raw_text_def compact_jprint_id)

lemma wf_event_frame [simp]:
  "wf_event (e\<lparr>ev_seq := w\<rparr>) = wf_event e" "wf_event (e\<lparr>ev_lamport := w\<rparr>) = wf_event e"
  "valid_utf8 p \<Longrightarrow> wf_event e \<Longrightarrow> wf_event (e\<lparr>ev_prev := p\<rparr>)"
  "valid_utf8 p \<Longrightarrow> wf_event e \<Longrightarrow> wf_event (e\<lparr>ev_sig := p\<rparr>)"
  by (auto simp: wf_event_def)

definition line_members :: "event \<Rightarrow> json \<Rightarrow> (string \<times> json) list" where
  "line_members e b =
     [(''author'', JStr (ev_author e)), (''body'', b), (''id'', JStr (ev_id e)),
      (''kind'', JStr (ev_kind e)), (''lamport'', JNum (num64 (ev_lamport e))),
      (''prev'', JStr (ev_prev e)), (''room'', JStr (ev_room e)), (''seq'', JNum (num64 (ev_seq e))),
      (''sig'', JStr (ev_sig e)), (''ts'', JStr (ev_ts e)), (''v'', JNum (dec_of_nat (nat (ev_v e))))]"

lemma utf8_literal [simp]:
  "valid_utf8 ''author''" "valid_utf8 ''body''" "valid_utf8 ''id''" "valid_utf8 ''kind''"
  "valid_utf8 ''lamport''" "valid_utf8 ''prev''" "valid_utf8 ''room''" "valid_utf8 ''seq''"
  "valid_utf8 ''sig''" "valid_utf8 ''ts''" "valid_utf8 ''v''"
  by (rule plain_key_utf8, code_simp)+

lemma line_members_wf:
  "wf_event e \<Longrightarrow> wf_json b \<Longrightarrow> list_all (\<lambda>(k, v). valid_utf8 k \<and> wf_json v) (line_members e b)"
  by (simp add: line_members_def wf_event_def num64_def nat_lit_dec)

lemma marshal_wf:
  assumes "wf_event e" and "wf_json b" and "ev_body e = jprint b"
  shows "marshal_json_line e = Some (object_text (map (\<lambda>(k, v). (k, jprint v)) (line_members e b)) @ [LF])"
  using assms wf_event_body[OF assms(1)]
  by (simp add: marshal_json_line_def line_members_def dec_of_int_def wf_event_def)

lemma fold_key_literal [simp]:
  "fold_key ''author'' = ''author''" "fold_key ''body'' = ''body''" "fold_key ''id'' = ''id''"
  "fold_key ''kind'' = ''kind''" "fold_key ''lamport'' = ''lamport''" "fold_key ''prev'' = ''prev''"
  "fold_key ''room'' = ''room''" "fold_key ''seq'' = ''seq''" "fold_key ''sig'' = ''sig''"
  "fold_key ''ts'' = ''ts''" "fold_key ''v'' = ''v''"
  by (rule plain_key_fold, code_simp)+

lemma typed_jprint [simp]: "wf_json v \<Longrightarrow> typed get old (jprint v) = get old v"
  by (simp add: typed_def parse_jprint)

lemma typed_quote: "valid_utf8 s \<Longrightarrow> typed get old (quote s) = get old (JStr s)"
  using typed_jprint[of "JStr s"] by simp

lemma typed_num: "typed get old (dec_of_nat n) = get old (JNum (dec_of_nat n))"
  using typed_jprint[of "JNum (dec_of_nat n)"] by (simp add: nat_lit_dec)

lemma field_map_of:
  assumes "list_all (\<lambda>(k, _). plain_key k) ms" and "distinct (map fst ms)"
  shows "field get z name ms = (case map_of ms name of None \<Rightarrow> Some z | Some v \<Rightarrow> get z v)"
  using assms
proof (induction ms arbitrary: z)
  case (Cons m ms)
  obtain k v where m: "m = (k, v)" by (cases m)
  have k: "fold_key k = k" using Cons.prems by (auto simp: m intro: plain_key_fold)
  have "map_of ms k = None" using Cons.prems(2) by (simp add: m map_of_eq_None_iff)
  then show ?case using Cons k by (auto simp: m field_Cons split: option.splits)
qed simp

lemma line_members_keys:
  "map fst (line_members e b) =
     [''author'', ''body'', ''id'', ''kind'', ''lamport'', ''prev'', ''room'', ''seq'', ''sig'', ''ts'', ''v'']"
  by (simp add: line_members_def)

lemma line_keys_plain:
  "list_all plain_key
     [''author'', ''body'', ''id'', ''kind'', ''lamport'', ''prev'', ''room'', ''seq'', ''sig'', ''ts'', ''v'']"
  by code_simp

abbreviation line_texts :: "event \<Rightarrow> json \<Rightarrow> (string \<times> string) list" where
  "line_texts e b \<equiv> map (\<lambda>(k, v). (k, jprint v)) (line_members e b)"

lemma list_all_map_fst: "list_all (\<lambda>(k, _). P k) ms = list_all P (map fst ms)"
  by (simp add: list_all_iff case_prod_unfold)

lemma field_line:
  "field get z name (line_texts e b) =
     (case map_of (line_members e b) name of None \<Rightarrow> Some z | Some v \<Rightarrow> get z (jprint v))"
proof -
  have fst: "map fst (line_texts e b) = map fst (line_members e b)" by (simp add: case_prod_unfold)
  have "distinct (map fst (line_members e b))" by (simp add: line_members_keys)
  moreover have "list_all plain_key (map fst (line_members e b))"
    unfolding line_members_keys by (rule line_keys_plain)
  ultimately have "field get z name (line_texts e b) =
      (case map_of (line_texts e b) name of None \<Rightarrow> Some z | Some v \<Rightarrow> get z v)"
    by (intro field_map_of) (simp_all only: fst list_all_map_fst)
  also have "map_of (line_texts e b) = map_option jprint \<circ> map_of (line_members e b)"
    by (rule ext) (simp add: map_of_map)
  finally show ?thesis by (cases "map_of (line_members e b) name") simp_all
qed

lemma line_lookup:
  "map_of (line_members e b) ''author'' = Some (JStr (ev_author e))"
  "map_of (line_members e b) ''body'' = Some b"
  "map_of (line_members e b) ''id'' = Some (JStr (ev_id e))"
  "map_of (line_members e b) ''kind'' = Some (JStr (ev_kind e))"
  "map_of (line_members e b) ''lamport'' = Some (JNum (num64 (ev_lamport e)))"
  "map_of (line_members e b) ''prev'' = Some (JStr (ev_prev e))"
  "map_of (line_members e b) ''room'' = Some (JStr (ev_room e))"
  "map_of (line_members e b) ''seq'' = Some (JNum (num64 (ev_seq e)))"
  "map_of (line_members e b) ''sig'' = Some (JStr (ev_sig e))"
  "map_of (line_members e b) ''ts'' = Some (JStr (ev_ts e))"
  "map_of (line_members e b) ''v'' = Some (JNum (dec_of_nat (nat (ev_v e))))"
  by (simp_all add: line_members_def)

lemma unmarshal_marshal_text:
  assumes "wf_event e" and "wf_json b" and "ev_body e = jprint b"
  shows "unmarshal_json_line (object_text (line_texts e b)) = Some e"
proof -
  have "raw_object (object_text (line_texts e b)) = Some (line_texts e b)"
    by (rule raw_object_jprint) (use line_members_wf[OF assms(1,2)] in \<open>simp_all add: line_members_def\<close>)
  moreover have "get_int 0 (JNum (dec_of_nat (nat (ev_v e)))) = Some (ev_v e)"
    using assms(1) by (intro get_int_dec) (auto simp: wf_event_def)
  ultimately show ?thesis
    using assms unfolding unmarshal_json_line_def
    by (simp add: field_line line_lookup num64_def typed_quote typed_num get_raw_def wf_event_def)
qed

lemma event_line_roundtrip [codec]:
  assumes "wf_event e" and "marshal_json_line e = Some l"
  shows "unmarshal_json_line (trim_suffix l [LF]) = Some e"
proof -
  obtain b where b: "wf_json b" "ev_body e = jprint b" using assms(1) by (auto simp: wf_event_def)
  then show ?thesis
    using marshal_wf[OF assms(1) b] unmarshal_marshal_text[OF assms(1) b] assms(2) by simp
qed

text \<open>The line of a well-formed event: one printable line of text ending in the only line feed.\<close>

definition line_text :: "event \<Rightarrow> string" where
  "line_text e = (case marshal_json_line e of None \<Rightarrow> [] | Some l \<Rightarrow> trim_suffix l [LF])"

lemma marshal_line_text: "wf_event e \<Longrightarrow> marshal_json_line e = Some (line_text e @ [LF])"
  using marshal_wf by (fastforce simp: wf_event_def line_text_def)

lemma unmarshal_line_text: "wf_event e \<Longrightarrow> unmarshal_json_line (line_text e) = Some e"
  using event_line_roundtrip[OF _ marshal_line_text] by simp

lemma line_text_inj: "wf_event e \<Longrightarrow> wf_event e' \<Longrightarrow> line_text e = line_text e' \<longleftrightarrow> e = e'"
  using unmarshal_line_text by (metis option.inject)

lemma line_text_jprint:
  assumes "wf_event e"
  obtains b where "wf_json (JObj (line_members e b))" and "line_text e = jprint (JObj (line_members e b))"
proof -
  obtain b where b: "wf_json b" "ev_body e = jprint b" using assms by (auto simp: wf_event_def)
  then show ?thesis
    using that marshal_wf[OF assms b] marshal_line_text[OF assms] line_members_wf[OF assms b(1)]
    by (simp add: object_text_jprint)
qed

lemma line_text_plain:
  assumes "wf_event e"
  shows "printable (line_text e) \<and> \<not> is_blank (line_text e) \<and> line_text e \<noteq> []"
proof -
  obtain b where b: "wf_json (JObj (line_members e b))" "line_text e = jprint (JObj (line_members e b))"
    using line_text_jprint[OF assms] .
  moreover have "line_text e = CHR ''{'' # jprint_members (line_members e b)" using b(2) by simp
  ultimately show ?thesis
    using printable_jprint not_blank_printable[of "CHR ''{''" "jprint_members (line_members e b)"] by simp
qed


section \<open>Signatures\<close>

lemma sig_prefix_utf8: "valid_utf8 (sig_prefix @ b64_encode s)"
  by (rule valid_utf8_ascii)
    (auto simp: sig_prefix_def is_b64_char_def is_alnum_char_def Let_def dest!: b64_encode_chars)

lemma canonical_sig [simp]: "canonical_bytes (e\<lparr>ev_sig := s\<rparr>) = canonical_bytes e"
  by (simp add: canonical_bytes_def)

lemma sign_event_fields:
  assumes "sign_event C i e = Some e'"
  shows "\<exists>s. e' = e\<lparr>ev_v := (if ev_v e = 0 then current_version else ev_v e), ev_sig := s\<rparr>"
  using assms by (auto simp: sign_event_def Let_def split: if_splits)

lemma sign_wf:
  assumes "wf_event e"
  shows "\<exists>e'. sign_event C i e = Some e' \<and> wf_event e'"
proof -
  let ?e = "if ev_v e = 0 then e\<lparr>ev_v := current_version\<rparr> else e"
  have "wf_event ?e" using assms by (auto simp: wf_event_def current_version_def)
  then show ?thesis
    using wf_event_body[of ?e] sig_prefix_utf8
    by (auto simp: sign_event_def canonical_bytes_def Let_def)
qed

lemma verify_sign:
  assumes "keypair C (private_key i) pub" and "sign_event C i e = Some e'"
  shows "verify_signature C pub e' = Inr ()"
  using assms
  by (auto simp: sign_event_def verify_signature_def keypair_def Let_def split: if_splits)

text \<open>What a valid signature says: the key's owner signed the canonical bytes of this event.\<close>

lemma verify_signature_Inr:
  "verify_signature C pub e = Inr () \<longleftrightarrow>
     (\<exists>s c. b64_decode (trim_prefix (ev_sig e) sig_prefix) = Some s \<and> has_prefix (ev_sig e) sig_prefix \<and>
        canonical_bytes e = Some c \<and> ed_verify C pub c s)"
  by (auto simp: verify_signature_def split: option.splits)

text \<open>The canonical bytes determine every field of the event but its signature.\<close>

definition canon_members :: "event \<Rightarrow> json \<Rightarrow> (string \<times> json) list" where
  "canon_members e b = filter (\<lambda>(k, _). k \<noteq> ''sig'') (line_members e b)"

lemma canonical_jprint:
  assumes "wf_event e" and "wf_json b" and "ev_body e = jprint b"
  shows "canonical_bytes e = Some (jprint (JObj (canon_members e b))) \<and> wf_json (JObj (canon_members e b))"
  using assms wf_event_body[OF assms(1)] line_members_wf[OF assms(1,2)] object_text_jprint[of "canon_members e b"]
  by (simp add: canonical_bytes_def canon_members_def line_members_def dec_of_int_def wf_event_def)

lemma jprint_inj:
  assumes "wf_json a" and "wf_json b" and "jprint a = jprint b"
  shows "a = b"
  using assms parse_jprint by (metis option.inject)

lemma num64_inj: "num64 a = num64 b \<longleftrightarrow> a = b"
  unfolding num64_def by (metis nat_of_dec_of_nat unsigned_word_eqI word_unat_eq_iff)

lemma canonical_binds:
  assumes "wf_event e" and "wf_event e'" and "canonical_bytes e = canonical_bytes e'"
  shows "e\<lparr>ev_sig := s\<rparr> = e'\<lparr>ev_sig := s\<rparr>"
proof -
  obtain b where b: "wf_json b" "ev_body e = jprint b" using assms(1) by (auto simp: wf_event_def)
  obtain b' where b': "wf_json b'" "ev_body e' = jprint b'" using assms(2) by (auto simp: wf_event_def)
  note c = canonical_jprint[OF assms(1) b] and c' = canonical_jprint[OF assms(2) b']
  have "canon_members e b = canon_members e' b'"
    using jprint_inj[of "JObj (canon_members e b)" "JObj (canon_members e' b')"] c c' assms(3) by simp
  then have "ev_author e = ev_author e'" "b = b'" "ev_id e = ev_id e'" "ev_kind e = ev_kind e'"
    "ev_lamport e = ev_lamport e'" "ev_prev e = ev_prev e'" "ev_room e = ev_room e'"
    "ev_seq e = ev_seq e'" "ev_ts e = ev_ts e'" "dec_of_nat (nat (ev_v e)) = dec_of_nat (nat (ev_v e'))"
    by (simp_all add: canon_members_def line_members_def num64_inj)
  moreover have "ev_v e = ev_v e'"
  proof -
    have "nat (ev_v e) = nat (ev_v e')"
      using calculation(10) nat_of_dec_of_nat[of "nat (ev_v e)"] by (metis nat_of_dec_of_nat)
    then show ?thesis using assms(1,2) unfolding wf_event_def by linarith
  qed
  ultimately show ?thesis using b b' by (intro event.equality) simp_all
qed


section \<open>Concrete primitives\<close>

text \<open>
  Primitives that compute, for instances of the theorems: the digest and the signature are
  padded prefixes of the message, and of the key followed by the message.
\<close>

definition toy_crypto :: crypto where
  "toy_crypto = \<lparr>sha256 = \<lambda>m. take 32 (m @ replicate 32 CHR ''0''),
     ed_sign = \<lambda>priv m. take 64 (priv @ m @ replicate 64 CHR ''0''),
     ed_verify = \<lambda>pub m s. s = take 64 (pub @ m @ replicate 64 CHR ''0'')\<rparr>"

lemma toy_sha_ok: "sha_ok toy_crypto"
  by (simp add: sha_ok_def toy_crypto_def min_def)

end
