(* ===== verification/Members.thy ===== *)
theory Members
  imports Event_Codec Replay
begin

text \<open>
  \<open>internal/room/members/members.go\<close>: roles and what they may do, the membership state of a
  room, and its replay from events: \<open>ApplyEvent\<close>, the authenticated \<open>ApplySignedEvent\<close> and the
  production \<open>ApplySignedEventWithRoot\<close>.  Go's maps of pointers are maps of values here: no
  \<open>*Member\<close> is shared between two entries or kept across events.
\<close>

section \<open>Roles\<close>

text \<open>A role or member kind is a string in the code; what is not a constant is kept as it is.\<close>

datatype role = RoleOwner | RoleMember | RoleAgent | RoleObserver | RoleOther string

definition role_of :: "string \<Rightarrow> role" where
  "role_of s =
     (if s = ''owner'' then RoleOwner else if s = ''member'' then RoleMember
      else if s = ''agent'' then RoleAgent else if s = ''observer'' then RoleObserver
      else RoleOther s)"

fun role_name :: "role \<Rightarrow> string" where
  "role_name RoleOwner = ''owner''"
| "role_name RoleMember = ''member''"
| "role_name RoleAgent = ''agent''"
| "role_name RoleObserver = ''observer''"
| "role_name (RoleOther s) = s"

lemma role_name_of [simp, codec]: "role_name (role_of s) = s"
  by (simp add: role_of_def)

datatype member_kind = KindHuman | KindAgent | KindOther string

definition member_kind_of :: "string \<Rightarrow> member_kind" where
  "member_kind_of s =
     (if s = ''human'' then KindHuman else if s = ''agent'' then KindAgent else KindOther s)"

fun member_kind_name :: "member_kind \<Rightarrow> string" where
  "member_kind_name KindHuman = ''human''"
| "member_kind_name KindAgent = ''agent''"
| "member_kind_name (KindOther s) = s"

lemma member_kind_name_of [simp, codec]: "member_kind_name (member_kind_of s) = s"
  by (simp add: member_kind_of_def)

datatype action = ManageMembers | Approve | PostLink | RequestRun

record member =
  m_id :: string
  m_name :: string
  m_key :: bytes
  m_role :: role
  m_kind :: member_kind

fun role_allows :: "role \<Rightarrow> action \<Rightarrow> bool" where
  "role_allows RoleOwner act = True"
| "role_allows RoleMember act = (act = Approve \<or> act = PostLink \<or> act = RequestRun)"
| "role_allows RoleAgent act = (act = PostLink \<or> act = RequestRun)"
| "role_allows RoleObserver act = False"
| "role_allows (RoleOther s) act = False"

definition can_perform :: "member \<Rightarrow> action \<Rightarrow> bool" where
  "can_perform m act = role_allows (m_role m) act"


section \<open>The membership state\<close>

record mstate =
  mems :: "string \<rightharpoonup> member"
  created :: bool

definition new_state :: mstate where
  "new_state = \<lparr>mems = Map.empty, created = False\<rparr>"

datatype member_error =
    RoomCreatedTwice | BadBody | InvalidPubkey | UnauthorizedOwnerAction | MemberNotFound
  | AgentApprovalForbidden | ObserverForbidden | AuthorKeyMismatch | RootEventMismatch
  | BadConfiguredKey | RootKeyMismatch | BadSignature sig_error

text \<open>\<open>json.Unmarshal\<close> of the body into a struct of the given string fields, zero when absent.\<close>

definition body_fields :: "string list \<Rightarrow> string \<Rightarrow> string list option" where
  "body_fields names b = do {
     ms \<leftarrow> body_members b;
     those (map (\<lambda>n. field get_str [] n ms) names)
   }"

definition pubkey_of :: "string \<Rightarrow> bytes option" where
  "pubkey_of h =
     (case hex_decode h of
        Some k \<Rightarrow> if length k = 32 then Some k else None
      | None \<Rightarrow> None)"

definition is_owner :: "mstate \<Rightarrow> string \<Rightarrow> bool" where
  "is_owner s a = (case mems s a of None \<Rightarrow> False | Some m \<Rightarrow> m_role m = RoleOwner)"

definition apply_room_created :: "mstate \<Rightarrow> event \<Rightarrow> member_error + mstate" where
  "apply_room_created s e =
     (if created s then Inl RoomCreatedTwice
      else (case body_fields [''name'', ''public_key''] (ev_body e) of
        Some [name, key] \<Rightarrow>
          (case pubkey_of key of
             None \<Rightarrow> Inl InvalidPubkey
           | Some pk \<Rightarrow>
               Inr \<lparr>mems = (mems s)(ev_author e \<mapsto>
                      \<lparr>m_id = ev_author e, m_name = name, m_key = pk,
                       m_role = RoleOwner, m_kind = KindHuman\<rparr>),
                    created = True\<rparr>)
      | _ \<Rightarrow> Inl BadBody))"

definition apply_member_added :: "mstate \<Rightarrow> event \<Rightarrow> member_error + mstate" where
  "apply_member_added s e =
     (if \<not> is_owner s (ev_author e) then Inl UnauthorizedOwnerAction
      else (case body_fields [''id'', ''name'', ''public_key'', ''role'', ''kind''] (ev_body e) of
        Some [i, name, key, r, k] \<Rightarrow>
          (case pubkey_of key of
             None \<Rightarrow> Inl InvalidPubkey
           | Some pk \<Rightarrow>
               Inr (s\<lparr>mems := (mems s)(i \<mapsto>
                     \<lparr>m_id = i, m_name = name, m_key = pk,
                      m_role = role_of r, m_kind = member_kind_of k\<rparr>)\<rparr>))
      | _ \<Rightarrow> Inl BadBody))"

definition apply_member_removed :: "mstate \<Rightarrow> event \<Rightarrow> member_error + mstate" where
  "apply_member_removed s e =
     (if \<not> is_owner s (ev_author e) then Inl UnauthorizedOwnerAction
      else (case body_fields [''id''] (ev_body e) of
        Some [i] \<Rightarrow> Inr (s\<lparr>mems := (mems s)(i := None)\<rparr>)
      | _ \<Rightarrow> Inl BadBody))"

definition apply_role_changed :: "mstate \<Rightarrow> event \<Rightarrow> member_error + mstate" where
  "apply_role_changed s e =
     (if \<not> is_owner s (ev_author e) then Inl UnauthorizedOwnerAction
      else (case body_fields [''id'', ''role''] (ev_body e) of
        Some [i, r] \<Rightarrow>
          Inr (case mems s i of
                 None \<Rightarrow> s
               | Some m \<Rightarrow> s\<lparr>mems := (mems s)(i \<mapsto> m\<lparr>m_role := role_of r\<rparr>)\<rparr>)
      | _ \<Rightarrow> Inl BadBody))"

definition check_approver :: "mstate \<Rightarrow> event \<Rightarrow> member_error + mstate" where
  "check_approver s e =
     (case mems s (ev_author e) of
        None \<Rightarrow> Inl MemberNotFound
      | Some m \<Rightarrow>
          if m_role m = RoleAgent then Inl AgentApprovalForbidden
          else if m_role m = RoleObserver then Inl ObserverForbidden
          else Inr s)"

definition apply_event :: "mstate \<Rightarrow> event \<Rightarrow> member_error + mstate" where
  "apply_event s e =
     (case kindof e of
        RoomCreated \<Rightarrow> apply_room_created s e
      | MemberAdded \<Rightarrow> apply_member_added s e
      | MemberRemoved \<Rightarrow> apply_member_removed s e
      | MemberRoleChanged \<Rightarrow> apply_role_changed s e
      | RunApproved \<Rightarrow> check_approver s e
      | CheckpointResolved \<Rightarrow> check_approver s e
      | _ \<Rightarrow> Inr s)"

text \<open>The key a signed event is checked with: the room's own for \<open>room.created\<close>, else the author's.\<close>

definition signing_key :: "crypto \<Rightarrow> mstate \<Rightarrow> event \<Rightarrow> member_error + bytes" where
  "signing_key C s e =
     (if kindof e = RoomCreated then
        (if created s then Inl RoomCreatedTwice
         else (case body_fields [''public_key''] (ev_body e) of
           Some [key] \<Rightarrow>
             (case pubkey_of key of
                None \<Rightarrow> Inl InvalidPubkey
              | Some pk \<Rightarrow>
                  if compute_member_id C pk \<noteq> ev_author e then Inl AuthorKeyMismatch else Inr pk)
         | _ \<Rightarrow> Inl BadBody))
      else (case mems s (ev_author e) of
        None \<Rightarrow> Inl MemberNotFound
      | Some m \<Rightarrow> Inr (m_key m)))"

definition apply_signed_event :: "crypto \<Rightarrow> mstate \<Rightarrow> event \<Rightarrow> member_error + mstate" where
  "apply_signed_event C s e =
     bind_err (signing_key C s e) (\<lambda>pk.
       case verify_signature C pk e of
         Inl err \<Rightarrow> Inl (BadSignature err)
       | Inr _ \<Rightarrow> apply_event s e)"

definition check_root :: "string \<Rightarrow> string \<Rightarrow> event \<Rightarrow> member_error + unit" where
  "check_root root_event root_pubkey e =
     (if kindof e \<noteq> RoomCreated then Inr ()
      else if ev_id e \<noteq> root_event then Inl RootEventMismatch
      else (case body_fields [''public_key''] (ev_body e) of
        Some [key] \<Rightarrow>
          (case pubkey_of (trim_prefix root_pubkey ''ed25519:'') of
             None \<Rightarrow> Inl BadConfiguredKey
           | Some configured \<Rightarrow>
               if hex_decode key = Some configured then Inr () else Inl RootKeyMismatch)
      | _ \<Rightarrow> Inl BadBody))"

definition apply_signed_event_with_root ::
    "crypto \<Rightarrow> string \<Rightarrow> string \<Rightarrow> mstate \<Rightarrow> event \<Rightarrow> member_error + mstate" where
  "apply_signed_event_with_root C root_event root_pubkey s e =
     bind_err (check_root root_event root_pubkey e) (\<lambda>_. apply_signed_event C s e)"

lemmas apply_defs = apply_room_created_def apply_member_added_def apply_member_removed_def
  apply_role_changed_def check_approver_def

lemma apply_event_kinds:
  "kindof e = RoomCreated \<Longrightarrow> apply_event s e = apply_room_created s e"
  "kindof e = MemberAdded \<Longrightarrow> apply_event s e = apply_member_added s e"
  "kindof e = MemberRemoved \<Longrightarrow> apply_event s e = apply_member_removed s e"
  "kindof e = MemberRoleChanged \<Longrightarrow> apply_event s e = apply_role_changed s e"
  "kindof e \<in> {RunApproved, CheckpointResolved} \<Longrightarrow> apply_event s e = check_approver s e"
  "kindof e \<notin> {RoomCreated, MemberAdded, MemberRemoved, MemberRoleChanged, RunApproved,
      CheckpointResolved} \<Longrightarrow> apply_event s e = Inr s"
  by (auto simp: apply_event_def split: event_kind.splits)

section \<open>Invariants of the membership state\<close>

text \<open>
  Every member is filed under its own id with a key of 32 bytes, the only length
  \<open>ed25519.Verify\<close> accepts without panicking; nobody is a member before the room exists.
\<close>

definition wf_mstate :: "mstate \<Rightarrow> bool" where
  "wf_mstate s \<longleftrightarrow> (\<forall>i m. mems s i = Some m \<longrightarrow> m_id m = i \<and> length (m_key m) = 32)"

definition founded :: "mstate \<Rightarrow> bool" where
  "founded s \<longleftrightarrow> wf_mstate s \<and> (\<not> created s \<longrightarrow> mems s = Map.empty)"

lemma pubkey_of_len: "pubkey_of h = Some k \<Longrightarrow> length k = 32 \<and> hex_decode h = Some k"
  by (auto simp: pubkey_of_def split: option.splits if_splits)

lemma wf_new_state [simp]: "wf_mstate new_state" "founded new_state"
  by (simp_all add: wf_mstate_def new_state_def founded_def)

lemma wf_apply_event: "wf_mstate s \<Longrightarrow> apply_event s e = Inr s' \<Longrightarrow> wf_mstate s'"
  by (cases "kindof e")
    (auto simp: apply_event_kinds apply_defs wf_mstate_def dest!: pubkey_of_len
      split: option.splits list.splits if_splits)

lemma created_apply_event:
  "apply_event s e = Inr s' \<Longrightarrow> created s' \<longleftrightarrow> created s \<or> kindof e = RoomCreated"
  by (cases "kindof e")
    (auto simp: apply_event_kinds apply_defs split: option.splits list.splits if_splits)

text \<open>How an event that is accepted changes the members.\<close>

lemma apply_event_changes:
  assumes "apply_event s e = Inr s'" and "s' \<noteq> s"
  shows "kindof e = RoomCreated \<and> \<not> created s \<or>
    kindof e \<in> {MemberAdded, MemberRemoved, MemberRoleChanged} \<and> is_owner s (ev_author e)"
  using assms
  by (cases "kindof e")
    (auto simp: apply_event_kinds apply_defs split: option.splits list.splits if_splits)

lemma apply_signed_Inr:
  "apply_signed_event C s e = Inr s' \<longleftrightarrow>
     (\<exists>pk. signing_key C s e = Inr pk \<and> verify_signature C pk e = Inr () \<and> apply_event s e = Inr s')"
proof -
  have "(case v of Inl err \<Rightarrow> Inl (BadSignature err) | Inr _ \<Rightarrow> r) = Inr s' \<longleftrightarrow> v = Inr () \<and> r = Inr s'"
    for v :: "sig_error + unit" and r by (cases v) auto
  then show ?thesis by (auto simp: apply_signed_event_def bind_err_Inr)
qed

lemma apply_rooted_Inr:
  "apply_signed_event_with_root C re rk s e = Inr s' \<longleftrightarrow>
     check_root re rk e = Inr () \<and> apply_signed_event C s e = Inr s'"
  by (auto simp: apply_signed_event_with_root_def bind_err_Inr)

lemma founded_apply_signed:
  assumes "founded s" and "apply_signed_event C s e = Inr s'"
  shows "founded s'"
proof -
  from assms(2) obtain pk where pk: "signing_key C s e = Inr pk" "apply_event s e = Inr s'"
    by (auto simp: apply_signed_Inr)
  have "created s'"
    using created_apply_event[OF pk(2)] pk(1) assms(1)
    by (auto simp: signing_key_def founded_def split: if_splits option.splits)
  then show ?thesis using wf_apply_event[OF _ pk(2)] assms(1) by (simp add: founded_def)
qed


section \<open>Replay\<close>

text \<open>
  The production replay: \<open>projectRuns\<close> and \<open>Approve\<close> apply each membership event with
  \<open>ApplySignedEventWithRoot\<close> and go on when it is refused.
\<close>

definition member_step :: "crypto \<Rightarrow> string \<Rightarrow> string \<Rightarrow> mstate \<Rightarrow> event \<Rightarrow> mstate" where
  "member_step C root_event root_pubkey s e =
     (case apply_signed_event_with_root C root_event root_pubkey s e of Inl _ \<Rightarrow> s | Inr s' \<Rightarrow> s')"

definition replay_members :: "crypto \<Rightarrow> string \<Rightarrow> string \<Rightarrow> event list \<Rightarrow> mstate" where
  "replay_members C root_event root_pubkey = foldl (member_step C root_event root_pubkey) new_state"

lemma founded_member_step: "founded s \<Longrightarrow> founded (member_step C re rk s e)"
  using founded_apply_signed by (auto simp: member_step_def apply_rooted_Inr split: sum.splits)

interpretation members: replay "member_step C re rk" new_state founded
  for C re rk
  by unfold_locales (auto intro: founded_member_step)

lemma replay_members_state: "replay_members C re rk = members.state C re rk"
  by (rule ext) (simp add: replay_members_def members.state_def)

text \<open>The event that creates the room in a rooted replay: the configured one, signed by its key.\<close>

definition root_creation :: "crypto \<Rightarrow> string \<Rightarrow> string \<Rightarrow> event \<Rightarrow> bytes \<Rightarrow> bool" where
  "root_creation C root_event root_pubkey e pk \<longleftrightarrow>
     kindof e = RoomCreated \<and> ev_id e = root_event \<and>
     pubkey_of (trim_prefix root_pubkey ''ed25519:'') = Some pk \<and>
     ev_author e = compute_member_id C pk \<and> verify_signature C pk e = Inr ()"

lemma rooted_created:
  assumes "apply_signed_event_with_root C re rk s e = Inr s'" and "kindof e = RoomCreated"
  shows "\<exists>pk. root_creation C re rk e pk \<and> \<not> created s"
proof -
  from assms obtain pk where pk: "signing_key C s e = Inr pk" "verify_signature C pk e = Inr ()"
    and root: "check_root re rk e = Inr ()"
    by (auto simp: apply_rooted_Inr apply_signed_Inr)
  from pk(1) assms(2) obtain key where key: "body_fields [''public_key''] (ev_body e) = Some [key]"
    "pubkey_of key = Some pk" "compute_member_id C pk = ev_author e" "\<not> created s"
    by (auto simp: signing_key_def split: if_splits option.splits list.splits)
  with root assms(2) have "ev_id e = re" "pubkey_of (trim_prefix rk ''ed25519:'') = Some pk"
    by (auto simp: check_root_def dest!: pubkey_of_len split: if_splits option.splits)
  with key pk(2) assms(2) show ?thesis by (auto simp: root_creation_def)
qed

lemma member_step_changes:
  assumes "member_step C re rk s e \<noteq> s"
  shows "(\<exists>pk. root_creation C re rk e pk \<and> \<not> created s) \<or>
    (\<exists>m. mems s (ev_author e) = Some m \<and> m_role m = RoleOwner \<and>
       verify_signature C (m_key m) e = Inr () \<and>
       kindof e \<in> {MemberAdded, MemberRemoved, MemberRoleChanged})"
proof -
  from assms obtain s' where s': "apply_signed_event_with_root C re rk s e = Inr s'" "s' \<noteq> s"
    by (auto simp: member_step_def split: sum.splits)
  then obtain pk where pk: "signing_key C s e = Inr pk" "verify_signature C pk e = Inr ()"
    and a: "apply_event s e = Inr s'"
    by (auto simp: apply_rooted_Inr apply_signed_Inr)
  from apply_event_changes[OF a s'(2)] show ?thesis
  proof
    assume "kindof e = RoomCreated \<and> \<not> created s"
    with rooted_created[OF s'(1)] show ?thesis by simp
  next
    assume k: "kindof e \<in> {MemberAdded, MemberRemoved, MemberRoleChanged} \<and> is_owner s (ev_author e)"
    then obtain m where m: "mems s (ev_author e) = Some m" "m_role m = RoleOwner"
      by (auto simp: is_owner_def split: option.splits)
    moreover have "pk = m_key m"
      using pk(1) k m by (auto simp: signing_key_def split: if_splits option.splits)
    ultimately show ?thesis using pk(2) k by auto
  qed
qed

section \<open>Bodies the code writes\<close>

text \<open>Reading back the body of a \<open>json.Marshal\<close> of a map of strings.\<close>

lemma fst_sorted_marshal:
  "distinct (map fst ms) \<Longrightarrow> distinct (map fst (sort_key fst ms))"
  by (metis distinct_map mset_eq_imp_distinct_iff mset_map mset_sort)

lemma map_of_sort_key: "distinct (map fst ms) \<Longrightarrow> map_of (sort_key fst ms) = map_of ms"
  by (rule map_of_inject_set[THEN iffD2]) (simp_all add: fst_sorted_marshal)

lemma plain_printable: "plain_key k \<Longrightarrow> valid_utf8 k"
  by (rule plain_key_utf8)

definition str_body :: "(string \<times> string) list \<Rightarrow> bool" where
  "str_body ms \<longleftrightarrow> distinct (map fst ms) \<and> list_all (\<lambda>(k, s). plain_key k \<and> valid_utf8 s) ms"

lemma str_body_sort: "str_body ms \<Longrightarrow> str_body (sort_key fst ms)"
  by (auto simp: str_body_def fst_sorted_marshal list_all_iff)

lemma str_body_wf: "str_body ms \<Longrightarrow> wf_json (JObj (str_members (sort_key fst ms)))"
  by (auto simp: str_body_def str_members_def list_all_iff plain_key_utf8)

lemma marshal_strings_jprint: "marshal_strings ms = jprint (JObj (str_members (sort_key fst ms)))"
  by (simp add: marshal_strings_def marshal_fields_def)

lemma field_strings:
  assumes "str_body ms"
  shows "field get_str [] n (str_members (sort_key fst ms)) =
     Some (case map_of ms n of None \<Rightarrow> [] | Some s \<Rightarrow> s)"
proof -
  let ?ms = "sort_key fst ms"
  have "map fst (str_members ?ms) = map fst ?ms"
    by (simp add: str_members_def case_prod_unfold)
  moreover have "list_all plain_key (map fst ?ms)"
    using assms by (auto simp: str_body_def list_all_iff)
  ultimately have "field get_str [] n (str_members ?ms) =
      (case map_of (str_members ?ms) n of None \<Rightarrow> Some [] | Some v \<Rightarrow> get_str [] v)"
    using assms by (intro field_map_of) (simp_all add: list_all_map_fst str_body_def fst_sorted_marshal)
  also have "map_of (str_members ?ms) = map_option JStr \<circ> map_of ms"
    using assms by (auto simp: str_members_def map_of_map str_body_def map_of_sort_key)
  finally show ?thesis by (cases "map_of ms n") simp_all
qed

lemma those_map_Some: "those (map (\<lambda>n. Some (f n)) ns) = Some (map f ns)"
  by (induction ns) auto

lemma body_fields_marshal [codec]:
  assumes "str_body ms"
  shows "body_fields names (marshal_strings ms) =
     Some (map (\<lambda>n. case map_of ms n of None \<Rightarrow> [] | Some s \<Rightarrow> s) names)"
proof -
  have "body_members (marshal_strings ms) = Some (str_members (sort_key fst ms))"
    unfolding marshal_strings_def using str_body_wf[OF assms] by (intro body_members_marshal) simp
  then show ?thesis by (simp add: body_fields_def field_strings[OF assms] those_map_Some)
qed

lemma hex_utf8 [simp]: "valid_utf8 (hex_encode s)"
  by (rule valid_utf8_ascii) (auto simp: is_alnum_char_def Let_def dest!: hex_encode_chars)

lemma pubkey_of_hex [simp]: "length k = 32 \<Longrightarrow> pubkey_of (hex_encode k) = Some k"
  by (simp add: pubkey_of_def)

lemma member_keys_plain [simp]:
  "plain_key ''name''" "plain_key ''public_key''" "plain_key ''id''" "plain_key ''role''" "plain_key ''kind''"
  by code_simp+

text \<open>The creation event of a room: accepted by the rooted replay when its owner signed it.\<close>

definition created_body :: "string \<Rightarrow> bytes \<Rightarrow> string" where
  "created_body name pk = marshal_strings [(''name'', name), (''public_key'', hex_encode pk)]"

lemma created_body_fields:
  assumes "valid_utf8 name"
  shows "body_fields [''name'', ''public_key''] (created_body name pk) = Some [name, hex_encode pk]"
    and "body_fields [''public_key''] (created_body name pk) = Some [hex_encode pk]"
  using assms by (simp_all add: created_body_def body_fields_marshal str_body_def)

lemma creation_accepted:
  assumes "valid_utf8 name" and "wf_identity C i" and "kindof e = RoomCreated"
    and "ev_body e = created_body name (public_key i)" and "ev_author e = member_id i"
    and "verify_signature C (public_key i) e = Inr ()"
  shows "apply_signed_event_with_root C (ev_id e) (''ed25519:'' @ hex_encode (public_key i)) new_state e =
    Inr \<lparr>mems = [member_id i \<mapsto> \<lparr>m_id = member_id i, m_name = name, m_key = public_key i,
                   m_role = RoleOwner, m_kind = KindHuman\<rparr>], created = True\<rparr>"
proof -
  have len: "length (public_key i) = 32" "member_id i = compute_member_id C (public_key i)"
    using assms(2) by (auto simp: wf_identity_def keypair_def)
  have "check_root (ev_id e) (''ed25519:'' @ hex_encode (public_key i)) e = Inr ()"
    using assms len by (simp add: check_root_def created_body_fields trim_prefix_append[of "''ed25519:''"] del: append.simps)
  moreover have "signing_key C new_state e = Inr (public_key i)"
    using assms len by (simp add: signing_key_def created_body_fields new_state_def)
  moreover have "apply_event new_state e = Inr \<lparr>mems = [member_id i \<mapsto>
      \<lparr>m_id = member_id i, m_name = name, m_key = public_key i, m_role = RoleOwner, m_kind = KindHuman\<rparr>],
      created = True\<rparr>"
    using assms len by (simp add: apply_event_kinds apply_room_created_def created_body_fields new_state_def)
  ultimately show ?thesis using assms(6) by (simp add: apply_rooted_Inr apply_signed_Inr)
qed

section \<open>Authority over the membership\<close>

lemma replay_members_snoc:
  "replay_members C re rk (es @ [e]) = member_step C re rk (replay_members C re rk es) e"
  by (simp add: replay_members_def)

text \<open>
  Every state a rooted replay reaches is well formed: a member is filed under its own id
  with a 32-byte key (what \<open>ed25519.Verify\<close> needs not to panic), and nobody is a member before
  an accepted \<open>room.created\<close>.
\<close>
theorem replay_founded: "founded (replay_members C re rk es)"
  by (simp add: replay_members_state)

lemma not_created_new:
  assumes "\<not> created (replay_members C re rk es)"
  shows "replay_members C re rk es = new_state"
  using assms members.inv_state[of C re rk es]
  by (simp add: replay_members_state founded_def new_state_def)

text \<open>
  C8: an event changes the membership only if it is the configured root event, signed by the
  configured root key, on a room nobody created yet; or a membership event whose author is at
  that point an owner and whose signature verifies under the key the state holds for the author.
\<close>
theorem membership_authority:
  assumes "replay_members C re rk (es @ [e]) \<noteq> replay_members C re rk es"
  shows "(\<exists>pk. root_creation C re rk e pk \<and> replay_members C re rk es = new_state) \<or>
    (\<exists>m. mems (replay_members C re rk es) (ev_author e) = Some m \<and> m_role m = RoleOwner \<and>
       verify_signature C (m_key m) e = Inr () \<and>
       kindof e \<in> {MemberAdded, MemberRemoved, MemberRoleChanged})"
  using member_step_changes[of C re rk "replay_members C re rk es" e] assms not_created_new
  by (auto simp: replay_members_snoc)

lemma created_mono: "created s \<Longrightarrow> created (member_step C re rk s e)"
  by (auto simp: member_step_def apply_rooted_Inr apply_signed_Inr created_apply_event split: sum.splits)

lemma created_refuses: "created s \<Longrightarrow> kindof e = RoomCreated \<Longrightarrow> member_step C re rk s e = s"
  using rooted_created by (fastforce simp: member_step_def split: sum.splits)

text \<open>
  When a replay has a room, the log splits at the one event that created it: before it there
  was no member, it is the configured root event signed by the configured root key, and every
  later \<open>room.created\<close> in the log changes nothing, wherever it was placed.
\<close>
theorem room_created_once:
  assumes "created (replay_members C re rk es)"
  shows "\<exists>pre e post pk. es = pre @ e # post \<and> replay_members C re rk pre = new_state \<and>
    root_creation C re rk e pk \<and>
    (\<forall>k < length post. kindof (post ! k) = RoomCreated \<longrightarrow>
       replay_members C re rk (pre @ e # take (Suc k) post) = replay_members C re rk (pre @ e # take k post))"
proof -
  have "\<not> created new_state" by (simp add: new_state_def)
  with members.turning_point[of created C re rk es] assms obtain pre e post where
    es: "es = pre @ e # post" and pre: "\<not> created (replay_members C re rk pre)"
    and post: "\<And>k. k \<le> length post \<Longrightarrow> created (replay_members C re rk (pre @ e # take k post))"
    by (auto simp: replay_members_state)
  let ?s = "replay_members C re rk pre"
  have new: "?s = new_state" by (rule not_created_new[OF pre])
  have "created (member_step C re rk ?s e)" using post[of 0] by (simp add: replay_members_snoc[symmetric])
  with pre have "member_step C re rk ?s e \<noteq> ?s" by auto
  with member_step_changes[of C re rk ?s e] obtain pk where pk: "root_creation C re rk e pk"
    by (auto simp: new new_state_def)
  have "replay_members C re rk (pre @ e # take (Suc k) post) = replay_members C re rk (pre @ e # take k post)"
    if k: "k < length post" "kindof (post ! k) = RoomCreated" for k
    using replay_members_snoc[of C re rk "pre @ e # take k post" "post ! k"]
      created_refuses[OF post[of k] k(2)] k(1)
    by (simp add: take_Suc_conv_app_nth)
  with es new pk show ?thesis by blast
qed


section \<open>A concrete room\<close>

definition alice :: identity where
  "alice = \<lparr>id_name = ''alice'', member_id = compute_member_id toy_crypto (replicate 32 CHR ''a''),
     public_key = replicate 32 CHR ''a'', private_key = replicate 32 CHR ''a''\<rparr>"

definition signed :: "crypto \<Rightarrow> identity \<Rightarrow> event \<Rightarrow> event" where
  "signed C i e = (case sign_event C i e of Some e' \<Rightarrow> e' | None \<Rightarrow> e)"

definition sample_created :: event where
  "sample_created = signed toy_crypto alice
     \<lparr>ev_v = 1, ev_id = ''ev1'', ev_room = ''rm1'', ev_author = member_id alice, ev_seq = 1, ev_prev = [],
      ev_lamport = 1, ev_ts = [], ev_kind = ''room.created'',
      ev_body = created_body ''lab'' (public_key alice), ev_sig = []\<rparr>"

definition alice_root :: string where
  "alice_root = ''ed25519:'' @ hex_encode (public_key alice)"

lemma alice_wf: "wf_identity toy_crypto alice"
  by (simp add: wf_identity_def alice_def keypair_def toy_crypto_def)

lemma str_body_wf_event_body: "str_body ms \<Longrightarrow> \<exists>b. wf_json b \<and> marshal_strings ms = jprint b"
  using str_body_wf marshal_strings_jprint by blast

lemma signed_event:
  assumes "wf_event e" and "wf_identity C i" and "ev_v e \<noteq> 0"
  shows "wf_event (signed C i e) \<and> verify_signature C (public_key i) (signed C i e) = Inr () \<and>
    (\<exists>s. signed C i e = e\<lparr>ev_sig := s\<rparr>)"
proof -
  obtain e' where e': "sign_event C i e = Some e'" "wf_event e'" using sign_wf[OF assms(1)] by blast
  moreover have "verify_signature C (public_key i) e' = Inr ()"
    using assms(2) e'(1) by (auto simp: wf_identity_def intro: verify_sign)
  ultimately show ?thesis
    using sign_event_fields[OF e'(1)] assms(3) by (auto simp: signed_def)
qed

lemma sample_created_signed:
  "verify_signature toy_crypto (public_key alice) sample_created = Inr () \<and>
   (\<exists>s. sample_created =
     \<lparr>ev_v = 1, ev_id = ''ev1'', ev_room = ''rm1'', ev_author = member_id alice, ev_seq = 1, ev_prev = [],
      ev_lamport = 1, ev_ts = [], ev_kind = ''room.created'',
      ev_body = created_body ''lab'' (public_key alice), ev_sig = s\<rparr>)"
proof -
  have "str_body [(''name'', ''lab''), (''public_key'', hex_encode (public_key alice))]"
    by (simp add: str_body_def plain_key_utf8[of "''lab''"] plain_key_def is_alnum_char_def lower_char_def)
  from str_body_wf_event_body[OF this] have
    "\<exists>b. wf_json b \<and> created_body ''lab'' (public_key alice) = jprint b" by (simp add: created_body_def)
  moreover have "list_all valid_utf8 [''ev1'', ''rm1'', member_id alice, [], [], ''room.created'', []]"
    by (simp add: alice_def compute_member_id_utf8) code_simp
  ultimately show ?thesis
    unfolding sample_created_def
    using signed_event[OF _ alice_wf, of "\<lparr>ev_v = 1, ev_id = ''ev1'', ev_room = ''rm1'',
      ev_author = member_id alice, ev_seq = 1, ev_prev = [], ev_lamport = 1, ev_ts = [],
      ev_kind = ''room.created'', ev_body = created_body ''lab'' (public_key alice), ev_sig = []\<rparr>"]
    by (auto simp: wf_event_def)
qed

definition alice_state :: mstate where
  "alice_state = \<lparr>mems = [member_id alice \<mapsto> \<lparr>m_id = member_id alice, m_name = ''lab'',
     m_key = public_key alice, m_role = RoleOwner, m_kind = KindHuman\<rparr>], created = True\<rparr>"

lemma sample_replay: "replay_members toy_crypto ''ev1'' alice_root [sample_created] = alice_state"
proof -
  obtain s where s: "sample_created =
     \<lparr>ev_v = 1, ev_id = ''ev1'', ev_room = ''rm1'', ev_author = member_id alice, ev_seq = 1, ev_prev = [],
      ev_lamport = 1, ev_ts = [], ev_kind = ''room.created'',
      ev_body = created_body ''lab'' (public_key alice), ev_sig = s\<rparr>"
    using sample_created_signed by blast
  have "valid_utf8 ''lab''" by code_simp
  from creation_accepted[OF this alice_wf, of sample_created] sample_created_signed show ?thesis
    by (simp add: s replay_members_def member_step_def alice_root_def alice_state_def)
qed

theorem membership_authority_witness:
  "(\<exists>pk. root_creation toy_crypto ''ev1'' alice_root sample_created pk \<and>
      replay_members toy_crypto ''ev1'' alice_root [] = new_state) \<or>
   (\<exists>m. mems (replay_members toy_crypto ''ev1'' alice_root []) (ev_author sample_created) = Some m \<and>
      m_role m = RoleOwner \<and> verify_signature toy_crypto (m_key m) sample_created = Inr () \<and>
      kindof sample_created \<in> {MemberAdded, MemberRemoved, MemberRoleChanged})"
  by (rule membership_authority)
    (simp add: sample_replay, simp add: replay_members_def alice_state_def new_state_def)

theorem room_created_once_witness:
  "\<exists>pre e post pk. [sample_created] = pre @ e # post \<and>
    replay_members toy_crypto ''ev1'' alice_root pre = new_state \<and>
    root_creation toy_crypto ''ev1'' alice_root e pk \<and>
    (\<forall>k < length post. kindof (post ! k) = RoomCreated \<longrightarrow>
       replay_members toy_crypto ''ev1'' alice_root (pre @ e # take (Suc k) post) =
       replay_members toy_crypto ''ev1'' alice_root (pre @ e # take k post))"
  by (rule room_created_once) (simp add: sample_replay alice_state_def)

end
