(* ===== verification/Journal.thy ===== *)
theory Journal
  imports Members "HOL-Library.Product_Lexorder"
begin

text \<open>
  \<open>internal/room/journal/journal.go\<close> and \<open>merge.go\<close>: the append-only segments of a room, one
  file of event lines per author, each line chained to the hash of the one before; the cached
  tails and Lamport maximum of an open journal; and the merge of all segments into one total
  order.  The directory is an association list of file names and contents in the order
  \<open>os.ReadDir\<close> lists it; the only file error modelled is absence.  Authors are taken to be plain
  file names, as member ids are (\<open>filepath.Join\<close> would resolve a slash or dots in one).
\<close>

section \<open>The journal directory\<close>

type_synonym dir = "(string \<times> string) list"

fun put_file :: "string \<Rightarrow> string \<Rightarrow> dir \<Rightarrow> dir" where
  "put_file n c [] = [(n, c)]"
| "put_file n c ((m, x) # d) =
     (if n = m then (n, c) # d
      else if n < m then (n, c) # (m, x) # d
      else (m, x) # put_file n c d)"

definition segment_path :: "string \<Rightarrow> string" where
  "segment_path author = author @ ''.jsonl''"

definition segment :: "dir \<Rightarrow> string \<Rightarrow> string option" where
  "segment d author = map_of d (segment_path author)"

lemma map_of_put_file [simp]: "map_of (put_file n c d) = (map_of d)(n \<mapsto> c)"
  by (induction n c d rule: put_file.induct) (auto simp: fun_eq_iff)

lemma segment_path_inj [simp]: "segment_path a = segment_path b \<longleftrightarrow> a = b"
  by (simp add: segment_path_def)

lemma segment_put [simp]:
  "segment (put_file (segment_path a) c d) b = (if a = b then Some c else segment d b)"
  by (simp add: segment_def)

text \<open>\<open>os.ReadDir\<close> lists names in increasing order, once each.\<close>

definition wf_dir :: "dir \<Rightarrow> bool" where
  "wf_dir d \<longleftrightarrow> sorted_wrt (<) (map fst d)"

lemma set_put_file: "fst ` set (put_file n c d) = insert n (fst ` set d)"
  by (induction n c d rule: put_file.induct) auto

lemma wf_put_file: "wf_dir d \<Longrightarrow> wf_dir (put_file n c d)"
  unfolding wf_dir_def
proof (induction n c d rule: put_file.induct)
  case (2 n c m x d)
  then show ?case using set_put_file[of n c d] by (auto dest: order.strict_trans)
qed simp

lemma wf_dir_distinct: "wf_dir d \<Longrightarrow> distinct (map fst d)"
  by (simp add: wf_dir_def strict_sorted_iff)


section \<open>Reading segments\<close>

datatype journal_error =
    BadLine | ScanFailed | BadEvent
  | SeqMismatch u64 u64
  | ChainBroken u64 string string

definition zero_hash :: string where
  "zero_hash = ''sha256:0000000000000000000000000000000000000000000000000000000000000000''"

definition compute_line_hash :: "crypto \<Rightarrow> bytes \<Rightarrow> string" where
  "compute_line_hash C line = ''sha256:'' @ hex_encode (sha256 C line)"

definition read_last_segment_stats :: "crypto \<Rightarrow> string option \<Rightarrow> u64 \<times> string" where
  "read_last_segment_stats C file =
     (case file of
        None \<Rightarrow> (0, zero_hash)
      | Some s \<Rightarrow>
          (let ls = text_lines s in
           if ls = [] then (0, zero_hash)
           else (of_nat (length ls), compute_line_hash C (last ls))))"

definition read_segment :: "dir \<Rightarrow> string \<Rightarrow> journal_error + event list" where
  "read_segment d author =
     (case segment d author of
        None \<Rightarrow> Inr []
      | Some s \<Rightarrow>
          (case those (map unmarshal_json_line (text_lines s)) of
             None \<Rightarrow> Inl BadLine
           | Some es \<Rightarrow> Inr es))"

text \<open>The loop of \<open>VerifyChain\<close>: each line with its event, the expected hash and number.\<close>

fun check_chain :: "crypto \<Rightarrow> string \<Rightarrow> u64 \<Rightarrow> (bytes \<times> event) list \<Rightarrow> journal_error + unit" where
  "check_chain C prev n [] = Inr ()"
| "check_chain C prev n ((line, ev) # rest) =
     (if ev_seq ev \<noteq> n then Inl (SeqMismatch n (ev_seq ev))
      else if ev_prev ev \<noteq> prev then Inl (ChainBroken (ev_seq ev) prev (ev_prev ev))
      else check_chain C (compute_line_hash C line) (n + 1) rest)"

definition verify_chain :: "crypto \<Rightarrow> dir \<Rightarrow> string \<Rightarrow> journal_error + unit" where
  "verify_chain C d author =
     bind_err (read_segment d author) (\<lambda>events.
       case segment d author of
         None \<Rightarrow> Inr ()
       | Some s \<Rightarrow>
           if \<not> scan_ok s then Inl ScanFailed
           else check_chain C zero_hash 1 (zip (text_lines s) events))"

text \<open>The authors with a segment, in directory order, and their events.\<close>

definition segment_authors :: "dir \<Rightarrow> string list" where
  "segment_authors d =
     map (\<lambda>n. trim_suffix n ''.jsonl'') (filter (\<lambda>n. has_suffix n ''.jsonl'') (map fst d))"

fun read_segments :: "dir \<Rightarrow> string list \<Rightarrow> journal_error + (string \<times> event list) list" where
  "read_segments d [] = Inr []"
| "read_segments d (a # as) =
     bind_err (read_segment d a) (\<lambda>es.
       bind_err (read_segments d as) (\<lambda>rest. Inr ((a, es) # rest)))"

definition read_all_segments :: "dir \<Rightarrow> journal_error + (string \<times> event list) list" where
  "read_all_segments d = read_segments d (segment_authors d)"


section \<open>Merging\<close>

text \<open>The sort key of \<open>SortEventsTotalOrder\<close>: Lamport, TS, Author, Seq, ID, in that order.\<close>

datatype event_key = EventKey (ek: "u64 \<times> string \<times> string \<times> u64 \<times> string")

instantiation event_key :: linorder
begin

definition less_eq_event_key :: "event_key \<Rightarrow> event_key \<Rightarrow> bool" where
  "less_eq_event_key a b \<longleftrightarrow> ek a \<le> ek b"

definition less_event_key :: "event_key \<Rightarrow> event_key \<Rightarrow> bool" where
  "less_event_key a b \<longleftrightarrow> ek a < ek b"

instance
  by intro_classes (auto simp: less_eq_event_key_def less_event_key_def event_key.expand)

end

definition event_key_of :: "event \<Rightarrow> event_key" where
  "event_key_of e = EventKey (ev_lamport e, ev_ts e, ev_author e, ev_seq e, ev_id e)"

definition sort_events :: "event list \<Rightarrow> event list" where
  "sort_events = sort_key event_key_of"

definition merge :: "(string \<times> event list) list \<Rightarrow> event list" where
  "merge segments = sort_events (concat (map snd segments))"

definition merge_all :: "dir \<Rightarrow> journal_error + event list" where
  "merge_all d = bind_err (read_all_segments d) (\<lambda>segs. Inr (merge segs))"


section \<open>An open journal\<close>

record tail_stat =
  t_seq :: u64
  t_hash :: string
  t_size :: nat

record journal =
  tails :: "string \<rightharpoonup> tail_stat"
  lamport_max :: u64
  lamport_known :: bool

definition zero_tail :: tail_stat where
  "zero_tail = \<lparr>t_seq = 0, t_hash = [], t_size = 0\<rparr>"

definition new_journal :: journal where
  "new_journal = \<lparr>tails = Map.empty, lamport_max = 0, lamport_known = False\<rparr>"

definition max_lamport_of :: "event list \<Rightarrow> u64" where
  "max_lamport_of es = foldl (\<lambda>m e. if ev_lamport e > m then ev_lamport e else m) 0 es"

definition max_lamport :: "dir \<Rightarrow> journal \<Rightarrow> (journal_error + u64) \<times> journal" where
  "max_lamport d j =
     (if lamport_known j then (Inr (lamport_max j), j)
      else (case read_all_segments d of
        Inl e \<Rightarrow> (Inl e, j)
      | Inr segs \<Rightarrow>
          (let m = max_lamport_of (merge segs)
           in (Inr m, j\<lparr>lamport_max := m, lamport_known := True\<rparr>))))"

definition load_tail :: "crypto \<Rightarrow> dir \<Rightarrow> journal \<Rightarrow> string \<Rightarrow> tail_stat \<times> journal" where
  "load_tail C d j author =
     (let (n, h) = read_last_segment_stats C (segment d author);
          size = (case segment d author of None \<Rightarrow> 0 | Some s \<Rightarrow> length s);
          st = \<lparr>t_seq = n, t_hash = h, t_size = size\<rparr>
      in (st, j\<lparr>tails := (tails j)(author \<mapsto> st), lamport_known := False\<rparr>))"

definition tail_stat_for :: "crypto \<Rightarrow> dir \<Rightarrow> journal \<Rightarrow> string \<Rightarrow> tail_stat \<times> journal" where
  "tail_stat_for C d j author =
     (case tails j author of
        None \<Rightarrow> load_tail C d j author
      | Some st \<Rightarrow>
          (case segment d author of
             Some s \<Rightarrow> if length s = t_size st then (st, j) else load_tail C d j author
           | None \<Rightarrow>
               if t_size st = 0 then (st, j)
               else (zero_tail, j\<lparr>tails := (tails j)(author \<mapsto> zero_tail)\<rparr>)))"

text \<open>The maximum the callers use: \<open>maxL, _ := j.maxLamportUnlocked()\<close> drops the error.\<close>

definition lamport_or_zero :: "(journal_error + u64) \<Rightarrow> u64" where
  "lamport_or_zero r = (case r of Inl _ \<Rightarrow> 0 | Inr m \<Rightarrow> m)"

definition prepare_event :: "crypto \<Rightarrow> dir \<Rightarrow> journal \<Rightarrow> event \<Rightarrow> event \<times> journal" where
  "prepare_event C d j ev =
     (let (st, j1) = tail_stat_for C d j (ev_author ev);
          (r, j2) = max_lamport d j1;
          m = lamport_or_zero r;
          l = (if ev_lamport ev \<le> m then m + 1 else ev_lamport ev)
      in (ev\<lparr>ev_lamport := l, ev_seq := t_seq st + 1, ev_prev := t_hash st\<rparr>, j2))"

definition number_event :: "crypto \<Rightarrow> dir \<Rightarrow> journal \<Rightarrow> event \<Rightarrow> event \<times> journal" where
  "number_event C d j ev =
     (if ev_seq ev = 0
      then (let (st, j1) = tail_stat_for C d j (ev_author ev)
            in (ev\<lparr>ev_seq := t_seq st + 1, ev_prev := t_hash st\<rparr>, j1))
      else (ev, j))"

definition stamp_event :: "dir \<Rightarrow> journal \<Rightarrow> event \<Rightarrow> event \<times> journal" where
  "stamp_event d j ev =
     (if ev_lamport ev = 0
      then (let (r, j1) = max_lamport d j in (ev\<lparr>ev_lamport := lamport_or_zero r + 1\<rparr>, j1))
      else (ev, j))"

definition write_line :: "dir \<Rightarrow> string \<Rightarrow> bytes \<Rightarrow> dir" where
  "write_line d author line =
     put_file (segment_path author)
       ((case segment d author of None \<Rightarrow> [] | Some s \<Rightarrow> s) @ line) d"

definition note_append :: "crypto \<Rightarrow> journal \<Rightarrow> event \<Rightarrow> bytes \<Rightarrow> journal" where
  "note_append C j ev line =
     (let st = (case tails j (ev_author ev) of None \<Rightarrow> zero_tail | Some t \<Rightarrow> t);
          st' = \<lparr>t_seq = ev_seq ev, t_hash = compute_line_hash C (trim_suffix line [LF]),
                 t_size = t_size st + length line\<rparr>
      in j\<lparr>tails := (tails j)(ev_author ev \<mapsto> st'),
           lamport_max := (if lamport_known j \<and> ev_lamport ev > lamport_max j
                           then ev_lamport ev else lamport_max j)\<rparr>)"

definition append_event ::
    "crypto \<Rightarrow> dir \<Rightarrow> journal \<Rightarrow> event \<Rightarrow> (journal_error + event \<times> dir) \<times> journal" where
  "append_event C d j ev =
     (let (ev1, j1) = number_event C d j ev;
          (ev2, j2) = stamp_event d j1 ev1
      in case marshal_json_line ev2 of
           None \<Rightarrow> (Inl BadEvent, j2)
         | Some line \<Rightarrow> (Inr (ev2, write_line d (ev_author ev2) line), note_append C j2 ev2 line))"

text \<open>
  What every operation of the room does with the event it built: \<open>PrepareEvent\<close>, \<open>Sign\<close>,
  \<open>Append\<close>, on a journal opened for the call.
\<close>

definition publish :: "crypto \<Rightarrow> identity \<Rightarrow> dir \<Rightarrow> event \<Rightarrow> journal_error + event \<times> dir" where
  "publish C i d ev =
     (let (ev1, j1) = prepare_event C d new_journal ev
      in case sign_event C i ev1 of
           None \<Rightarrow> Inl BadEvent
         | Some ev2 \<Rightarrow> fst (append_event C d j1 ev2))"

section \<open>Segments and their chains\<close>

lemma those_append:
  "those (xs @ ys) = (case those xs of None \<Rightarrow> None | Some as \<Rightarrow> map_option ((@) as) (those ys))"
proof (induction xs)
  case Nil
  show ?case by (cases "those ys") simp_all
next
  case (Cons x xs)
  then show ?case by (cases x; cases "those xs"; cases "those ys") simp_all
qed

lemma those_length: "those xs = Some ys \<Longrightarrow> length ys = length xs"
  by (induction xs arbitrary: ys) (auto split: option.splits)

lemma check_chain_snoc:
  "check_chain C p n (xs @ [(l, e)]) = Inr () \<longleftrightarrow>
     check_chain C p n xs = Inr () \<and> ev_seq e = n + of_nat (length xs) \<and>
     ev_prev e = (if xs = [] then p else compute_line_hash C (fst (last xs)))"
  by (induction C p n xs rule: check_chain.induct) (auto simp: algebra_simps)

text \<open>
  An intact segment: made of complete lines the scanner can hold, which decode, are numbered
  from 1 and chained by their hashes; \<open>verify_chain\<close> checks all of it but completeness.
\<close>

definition intact :: "crypto \<Rightarrow> dir \<Rightarrow> string \<Rightarrow> bool" where
  "intact C d a \<longleftrightarrow>
     verify_chain C d a = Inr () \<and> (case segment d a of None \<Rightarrow> True | Some s \<Rightarrow> complete s)"

definition lines_of :: "dir \<Rightarrow> string \<Rightarrow> string list" where
  "lines_of d a = (case segment d a of None \<Rightarrow> [] | Some s \<Rightarrow> text_lines s)"

definition events_of :: "dir \<Rightarrow> string \<Rightarrow> event list" where
  "events_of d a = (case read_segment d a of Inl _ \<Rightarrow> [] | Inr es \<Rightarrow> es)"

lemma intact_Some:
  assumes "segment d a = Some s"
  shows "intact C d a \<longleftrightarrow> complete s \<and> scan_ok s \<and>
    (\<exists>es. those (map unmarshal_json_line (text_lines s)) = Some es \<and>
       check_chain C zero_hash 1 (zip (text_lines s) es) = Inr ())"
  using assms
  by (auto simp: intact_def verify_chain_def read_segment_def bind_err_Inr split: option.splits if_splits)

lemma intact_None: "segment d a = None \<Longrightarrow> intact C d a"
  by (simp add: intact_def verify_chain_def read_segment_def)

lemma intact_events:
  assumes "intact C d a"
  shows "read_segment d a = Inr (events_of d a) \<and>
    those (map unmarshal_json_line (lines_of d a)) = Some (events_of d a) \<and>
    check_chain C zero_hash 1 (zip (lines_of d a) (events_of d a)) = Inr ()"
  using assms
  by (cases "segment d a") (auto simp: intact_Some events_of_def read_segment_def lines_of_def)

lemma read_last_lines:
  "read_last_segment_stats C (segment d a) =
     (of_nat (length (lines_of d a)),
      if lines_of d a = [] then zero_hash else compute_line_hash C (last (lines_of d a)))"
  by (auto simp: read_last_segment_stats_def lines_of_def Let_def split: option.splits)


section \<open>What is published\<close>

definition next_lamport :: "dir \<Rightarrow> u64 \<Rightarrow> u64" where
  "next_lamport d l =
     (let m = lamport_or_zero (fst (max_lamport d new_journal)) in if l \<le> m then m + 1 else l)"

lemma tail_stat_new:
  "tail_stat_for C d new_journal a = load_tail C d new_journal a"
  by (simp add: tail_stat_for_def new_journal_def)

lemma tail_stat_again:
  "tail_stat_for C d j a = (st, j1) \<Longrightarrow> tails j2 = tails j1 \<Longrightarrow> tail_stat_for C d j2 a = (st, j2)"
  by (auto simp: tail_stat_for_def load_tail_def zero_tail_def Let_def case_prod_unfold
      split: option.splits if_splits)

lemma max_lamport_tails [simp]: "tails (snd (max_lamport d j)) = tails j"
  by (auto simp: max_lamport_def Let_def split: sum.splits)

lemma max_lamport_again:
  "max_lamport d j = (r, j1) \<Longrightarrow> max_lamport d j1 = (r, j1)"
  by (auto simp: max_lamport_def Let_def split: sum.splits if_splits)

lemma max_lamport_unknown:
  "\<not> lamport_known j \<Longrightarrow> fst (max_lamport d j) = fst (max_lamport d new_journal)"
  by (auto simp: max_lamport_def new_journal_def Let_def split: sum.splits)

definition prepared :: "crypto \<Rightarrow> dir \<Rightarrow> event \<Rightarrow> event" where
  "prepared C d ev =
     (let (n, h) = read_last_segment_stats C (segment d (ev_author ev))
      in ev\<lparr>ev_lamport := next_lamport d (ev_lamport ev), ev_seq := n + 1, ev_prev := h\<rparr>)"

lemma prepare_new: "fst (prepare_event C d new_journal ev) = prepared C d ev"
  using max_lamport_unknown[of "snd (load_tail C d new_journal (ev_author ev))" d]
  by (auto simp: prepare_event_def prepared_def next_lamport_def tail_stat_new load_tail_def
      Let_def case_prod_unfold)

text \<open>
  Appending an event straight after preparing it keeps the numbers it was signed with, even
  where they wrapped to 0 and \<open>Append\<close> assigns them again.
\<close>

lemma append_prepared:
  assumes "prepare_event C d j ev = (ev1, j1)"
    and "ev_author ev2 = ev_author ev" and "ev_seq ev2 = ev_seq ev1" and "ev_prev ev2 = ev_prev ev1"
    and "ev_lamport ev2 = ev_lamport ev1"
  shows "fst (append_event C d j1 ev2) =
    (case marshal_json_line ev2 of None \<Rightarrow> Inl BadEvent
     | Some line \<Rightarrow> Inr (ev2, write_line d (ev_author ev2) line))"
proof -
  obtain st jt where t: "tail_stat_for C d j (ev_author ev) = (st, jt)" by fastforce
  obtain r jm where m: "max_lamport d jt = (r, jm)" by fastforce
  have p: "ev1 = ev\<lparr>ev_lamport := (if ev_lamport ev \<le> lamport_or_zero r then lamport_or_zero r + 1
      else ev_lamport ev), ev_seq := t_seq st + 1, ev_prev := t_hash st\<rparr>" "j1 = jm"
    using assms(1) by (simp_all add: prepare_event_def t m Let_def)
  have tails: "tails jm = tails jt" using max_lamport_tails[of d jt] m by simp
  have "number_event C d j1 ev2 = (ev2, j1)"
    using tail_stat_again[OF t, of jm] tails assms(2-4)
    by (auto simp: number_event_def p Let_def)
  moreover have "stamp_event d j1 ev2 = (ev2, j1)"
    using max_lamport_again[OF m] assms(5) by (auto simp: stamp_event_def p Let_def split: if_splits)
  ultimately show ?thesis by (simp add: append_event_def split: option.splits)
qed

lemma zero_hash_utf8 [simp]: "valid_utf8 zero_hash"
  unfolding zero_hash_def by code_simp

lemma line_hash_utf8 [simp]: "valid_utf8 (compute_line_hash C l)"
  by (rule valid_utf8_ascii)
    (auto simp: compute_line_hash_def is_alnum_char_def Let_def dest!: hex_encode_chars)

lemma prepared_wf: "wf_event ev \<Longrightarrow> wf_event (prepared C d ev)"
  by (auto simp: prepared_def read_last_segment_stats_def Let_def split: option.splits)

lemma prepared_frame [simp, frame]:
  "ev_v (prepared C d ev) = ev_v ev" "ev_author (prepared C d ev) = ev_author ev"
  "ev_kind (prepared C d ev) = ev_kind ev" "ev_body (prepared C d ev) = ev_body ev"
  "ev_room (prepared C d ev) = ev_room ev" "ev_id (prepared C d ev) = ev_id ev"
  "ev_ts (prepared C d ev) = ev_ts ev"
  by (simp_all add: prepared_def case_prod_unfold Let_def)

lemma publish_eq:
  assumes "wf_event ev"
  shows "\<exists>e s. publish C i d ev = Inr (e, write_line d (ev_author ev) (line_text e @ [LF])) \<and> wf_event e \<and>
    sign_event C i (prepared C d ev) = Some e \<and>
    e = (prepared C d ev)\<lparr>ev_v := (if ev_v ev = 0 then current_version else ev_v ev), ev_sig := s\<rparr>"
proof -
  obtain j1 where p: "prepare_event C d new_journal ev = (prepared C d ev, j1)"
    using prepare_new by (metis prod.collapse)
  obtain e where e: "sign_event C i (prepared C d ev) = Some e" "wf_event e"
    using sign_wf[OF prepared_wf[OF assms]] by blast
  obtain s where s: "e = (prepared C d ev)\<lparr>ev_v := (if ev_v ev = 0 then current_version else ev_v ev), ev_sig := s\<rparr>"
    using sign_event_fields[OF e(1)] unfolding prepared_frame by blast
  have a: "ev_author e = ev_author ev" by (simp add: s)
  have "fst (append_event C d j1 e) =
      (case marshal_json_line e of None \<Rightarrow> Inl BadEvent
       | Some line \<Rightarrow> Inr (e, write_line d (ev_author e) line))"
    by (rule append_prepared[OF p]) (simp_all add: s)
  then have "publish C i d ev = Inr (e, write_line d (ev_author ev) (line_text e @ [LF]))"
    using e by (simp add: publish_def p marshal_line_text a)
  with e s show ?thesis by blast
qed

lemma publish_Inr:
  assumes "wf_event ev" and "publish C i d ev = Inr (e, d')"
  shows "wf_event e \<and> d' = write_line d (ev_author ev) (line_text e @ [LF]) \<and>
    sign_event C i (prepared C d ev) = Some e \<and>
    (\<exists>s. e = (prepared C d ev)\<lparr>ev_v := (if ev_v ev = 0 then current_version else ev_v ev), ev_sig := s\<rparr>)"
  using publish_eq[OF assms(1), of C i d] assms(2) by auto

lemma publish_fields:
  assumes "wf_event ev" and "publish C i d ev = Inr (e, d')"
  shows "ev_author e = ev_author ev" "ev_id e = ev_id ev" "ev_kind e = ev_kind ev"
    "ev_body e = ev_body ev" "ev_room e = ev_room ev" "ev_ts e = ev_ts ev"
    "ev_lamport e = next_lamport d (ev_lamport ev)"
    "ev_seq e = of_nat (length (lines_of d (ev_author ev))) + 1"
    "ev_prev e = (if lines_of d (ev_author ev) = [] then zero_hash
                  else compute_line_hash C (last (lines_of d (ev_author ev))))"
  using publish_Inr[OF assms] by (auto simp: prepared_def read_last_lines)

lemma lines_of_other [frame]: "a \<noteq> b \<Longrightarrow> lines_of (write_line d b l) a = lines_of d a"
  by (simp add: lines_of_def write_line_def)

lemma write_line_segment:
  "segment (write_line d a l) b =
     (if a = b then Some ((case segment d a of None \<Rightarrow> [] | Some s \<Rightarrow> s) @ l) else segment d b)"
  by (simp add: write_line_def)

text \<open>A line the scanner can read back: not longer than its buffer.\<close>

definition fits :: "event \<Rightarrow> bool" where
  "fits e \<longleftrightarrow> length (line_text e) \<le> max_line"

lemma line_text_plain_line: "wf_event e \<Longrightarrow> fits e \<Longrightarrow> plain_line (line_text e)"
  using line_text_plain[of e] printable_no_break[of "line_text e"]
  by (auto simp: plain_line_def fits_def dest: last_in_set)

lemma segment_append:
  assumes "intact C d a" and "wf_event e" and "fits e"
  shows "lines_of (write_line d a (line_text e @ [LF])) a = lines_of d a @ [line_text e]"
    and "complete (the (segment (write_line d a (line_text e @ [LF])) a))"
    and "scan_ok (the (segment (write_line d a (line_text e @ [LF])) a))"
proof -
  let ?s = "case segment d a of None \<Rightarrow> [] | Some s \<Rightarrow> s"
  have s: "complete ?s \<and> scan_ok ?s" using assms(1) by (cases "segment d a") (auto simp: intact_Some)
  have pl: "plain_line (line_text e)" by (rule line_text_plain_line) fact+
  show "lines_of (write_line d a (line_text e @ [LF])) a = lines_of d a @ [line_text e]"
    using text_lines_snoc[OF conjunct1[OF s] conjunct2[OF s] pl]
    by (cases "segment d a") (simp_all add: lines_of_def write_line_segment)
  show "complete (the (segment (write_line d a (line_text e @ [LF])) a))"
    using complete_snoc[of "?s @ line_text e"] by (simp add: write_line_segment)
  show "scan_ok (the (segment (write_line d a (line_text e @ [LF])) a))"
    using scan_ok_snoc[OF conjunct1[OF s] conjunct2[OF s] pl] by (simp add: write_line_segment)
qed

lemma intact_append:
  assumes "intact C d a" and "wf_event e" and "fits e"
    and "ev_seq e = of_nat (length (lines_of d a)) + 1"
    and "ev_prev e = (if lines_of d a = [] then zero_hash else compute_line_hash C (last (lines_of d a)))"
  shows "intact C (write_line d a (line_text e @ [LF])) a \<and>
    events_of (write_line d a (line_text e @ [LF])) a = events_of d a @ [e]"
proof -
  let ?d = "write_line d a (line_text e @ [LF])"
  note app = segment_append[OF assms(1-3)] and old = intact_events[OF assms(1)]
  obtain s where s: "segment ?d a = Some s" by (simp add: write_line_segment)
  have ls: "text_lines s = lines_of d a @ [line_text e]" using app(1) s by (simp add: lines_of_def)
  have len: "length (events_of d a) = length (lines_of d a)" using old those_length by fastforce
  have dec: "those (map unmarshal_json_line (text_lines s)) = Some (events_of d a @ [e])"
    using old by (simp add: ls those_append unmarshal_line_text[OF assms(2)])
  moreover have "check_chain C zero_hash 1 (zip (text_lines s) (events_of d a @ [e])) = Inr ()"
    using old assms(4,5) len
    by (cases "lines_of d a = []") (auto simp: ls check_chain_snoc last_zip fst_def split: prod.splits)
  ultimately show ?thesis
    using app(2,3) s by (simp add: intact_Some events_of_def read_segment_def)
qed

lemma publish_intact:
  assumes "wf_event ev" and "intact C d (ev_author ev)" and "publish C i d ev = Inr (e, d')" and "fits e"
  shows "intact C d' (ev_author ev) \<and> events_of d' (ev_author ev) = events_of d (ev_author ev) @ [e] \<and>
    lines_of d' (ev_author ev) = lines_of d (ev_author ev) @ [line_text e] \<and>
    d' = write_line d (ev_author ev) (line_text e @ [LF])"
  using intact_append[OF assms(2) _ assms(4)] segment_append(1)[OF assms(2) _ assms(4)]
    publish_Inr[OF assms(1,3)] publish_fields(8,9)[OF assms(1,3)] by auto

text \<open>
  A line the scanner cannot hold is written all the same, and hides itself from the readers: the
  segment is read without it, and its chain is refused.
\<close>

lemma publish_hidden:
  assumes "wf_event ev" and "intact C d (ev_author ev)" and "publish C i d ev = Inr (e, d')" and "\<not> fits e"
  shows "verify_chain C d' (ev_author ev) = Inl ScanFailed \<and>
    read_segment d' (ev_author ev) = Inr (events_of d (ev_author ev)) \<and>
    lines_of d' (ev_author ev) = lines_of d (ev_author ev)"
proof -
  let ?a = "ev_author ev"
  let ?s = "case segment d ?a of None \<Rightarrow> [] | Some s \<Rightarrow> s"
  have e: "wf_event e" "d' = write_line d ?a (line_text e @ [LF])" using publish_Inr[OF assms(1,3)] by auto
  have seg: "segment d' ?a = Some (?s @ line_text e @ [LF])" by (simp add: e(2) write_line_segment)
  have s: "complete ?s" "scan_ok ?s" using assms(2) by (cases "segment d ?a"; simp add: intact_Some)+
  have l: "LF \<notin> set (line_text e)" "max_line < length (line_text e)"
    using printable_no_break[OF conjunct1[OF line_text_plain[OF e(1)]]] assms(4) by (auto simp: fits_def)
  note unseen = long_line_unseen[OF s l, of "[]"]
  have ls: "text_lines (?s @ line_text e @ [LF]) = lines_of d ?a"
    using unseen(1) by (cases "segment d ?a") (simp_all add: lines_of_def)
  then have "read_segment d' ?a = Inr (events_of d ?a)" and "lines_of d' ?a = lines_of d ?a"
    using seg intact_events[OF assms(2)] by (simp_all add: read_segment_def lines_of_def)
  moreover have "verify_chain C d' ?a = Inl ScanFailed"
    using unseen(2) seg calculation(1) by (simp add: verify_chain_def bind_err_def)
  ultimately show ?thesis by simp
qed

text \<open>
  C1: publishing on an intact segment appends exactly the line of the event that was built,
  numbered, stamped and signed, and touches no other author's segment. A line of at most 65535
  bytes leaves the segment intact, verifiable and readable with the new event at its end. A longer
  line is written and reported as published too, but is lost: the segment is read back as it was
  before, without the event, and its chain is refused.
\<close>
theorem publish_extends:
  assumes "wf_event ev" and "intact C d (ev_author ev)" and "publish C i d ev = Inr (e, d')"
  shows "segment d' (ev_author ev) =
      Some ((case segment d (ev_author ev) of None \<Rightarrow> [] | Some s \<Rightarrow> s) @ line_text e @ [LF]) \<and>
    (\<forall>b. b \<noteq> ev_author ev \<longrightarrow> segment d' b = segment d b) \<and>
    (if length (line_text e) \<le> max_line
     then intact C d' (ev_author ev) \<and> verify_chain C d' (ev_author ev) = Inr () \<and>
       read_segment d' (ev_author ev) = Inr (events_of d (ev_author ev) @ [e])
     else verify_chain C d' (ev_author ev) = Inl ScanFailed \<and>
       read_segment d' (ev_author ev) = Inr (events_of d (ev_author ev)))"
  using publish_intact[OF assms] publish_hidden[OF assms] intact_events[of C d' "ev_author ev"]
    publish_Inr[OF assms(1,3)]
  by (auto simp: intact_def write_line_segment fits_def)


section \<open>The merged order\<close>

lemma mset_sort_events [simp]: "mset (sort_events es) = mset es"
  by (simp add: sort_events_def)

lemma set_sort_events [simp]: "set (sort_events es) = set es"
  by (simp add: sort_events_def)

lemma sorted_sort_events [simp]: "sorted (map event_key_of (sort_events es))"
  by (simp add: sort_events_def)

text \<open>An event with the greatest key goes last, wherever its segment is read.\<close>

lemma sort_events_last:
  assumes "\<And>x. x \<in> set (xs @ ys) \<Longrightarrow> event_key_of x < event_key_of e"
  shows "sort_events (xs @ e # ys) = sort_events (xs @ ys) @ [e]"
  unfolding sort_events_def
proof (rule properties_for_sort_key)
  show "mset (sort_key event_key_of (xs @ ys) @ [e]) = mset (xs @ e # ys)" by simp
  show "sorted (map event_key_of (sort_key event_key_of (xs @ ys) @ [e]))"
    using assms by (auto simp: sorted_append less_imp_le)
next
  fix k
  assume k: "k \<in> set (sort_key event_key_of (xs @ ys) @ [e])"
  have stable: "filter (\<lambda>x. event_key_of k = event_key_of x) (sort_key event_key_of (xs @ ys)) =
      filter (\<lambda>x. event_key_of k = event_key_of x) (xs @ ys)"
    using sort_key_stable[of event_key_of "event_key_of k" "xs @ ys"] by (simp only: eq_commute[of "event_key_of k"])
  show "filter (\<lambda>x. event_key_of k = event_key_of x) (sort_key event_key_of (xs @ ys) @ [e]) =
      filter (\<lambda>x. event_key_of k = event_key_of x) (xs @ e # ys)"
  proof (cases "event_key_of k = event_key_of e")
    case True
    then have "filter (\<lambda>x. event_key_of k = event_key_of x) (xs @ ys) = []"
      using assms order.strict_implies_not_eq by (fastforce simp: filter_empty_conv)
    with stable True show ?thesis by simp
  next
    case False
    with stable show ?thesis by simp
  qed
qed

lemma foldl_lamport:
  "m \<le> foldl (\<lambda>m e. if ev_lamport e > m then ev_lamport e else m) m es \<and>
   (\<forall>e \<in> set es. ev_lamport e \<le> foldl (\<lambda>m e. if ev_lamport e > m then ev_lamport e else m) m es)"
proof (induction es arbitrary: m)
  case (Cons e es)
  let ?f = "foldl (\<lambda>m e. if ev_lamport e > m then ev_lamport e else m)"
  have "m \<le> (if ev_lamport e > m then ev_lamport e else m)"
    "ev_lamport e \<le> (if ev_lamport e > m then ev_lamport e else m)" by auto
  then show ?case using Cons[of "if ev_lamport e > m then ev_lamport e else m"] by (auto intro: order_trans)
qed simp

lemma max_lamport_ge: "e \<in> set es \<Longrightarrow> ev_lamport e \<le> max_lamport_of es"
  using foldl_lamport[of 0 es] by (simp add: max_lamport_of_def)

lemma max_lamport_mset: "mset es = mset fs \<Longrightarrow> max_lamport_of es = max_lamport_of fs"
proof -
  have step: "foldl (\<lambda>m e. if ev_lamport e > m then ev_lamport e else m) m es = fold max (map ev_lamport es) m" for m es
    by (induction es arbitrary: m) (auto simp: max_def not_less)
  assume "mset es = mset fs"
  then have "mset (map ev_lamport es) = mset (map ev_lamport fs)" by simp
  then have "fold max (map ev_lamport es) 0 = fold max (map ev_lamport fs) 0"
    by (intro fold_permuted_eq[where P = "\<lambda>_. True"]) (auto simp: max.left_commute)
  then show ?thesis by (simp add: max_lamport_of_def step)
qed

lemma next_lamport_merge: "merge_all d = Inr es \<Longrightarrow> next_lamport d l =
    (if l \<le> max_lamport_of es then max_lamport_of es + 1 else l)"
  by (auto simp: merge_all_def next_lamport_def max_lamport_def new_journal_def lamport_or_zero_def
      bind_err_Inr Let_def)

lemma word_less_plus_one: "(m::u64) \<noteq> - 1 \<Longrightarrow> m < m + 1"
  by (metis inc_less_eq_self_iff_eq not_le)

lemma next_lamport_above:
  assumes "merge_all d = Inr es" and "max_lamport_of es \<noteq> - 1" and "e \<in> set es"
  shows "ev_lamport e < next_lamport d l"
  using max_lamport_ge[OF assms(3)] word_less_plus_one[OF assms(2)]
  by (auto simp: next_lamport_merge[OF assms(1)] intro: order.strict_trans1)


section \<open>Reading all segments after an append\<close>

lemma segment_path_author: "has_suffix n ''.jsonl'' \<Longrightarrow> segment_path (trim_suffix n ''.jsonl'') = n"
  by (simp add: segment_path_def has_suffix_trim)

lemma author_segment_path [simp]:
  "trim_suffix (segment_path a) ''.jsonl'' = a" "has_suffix (segment_path a) ''.jsonl''"
  by (simp_all add: segment_path_def)

lemma put_file_names:
  assumes "wf_dir d"
  shows "(n \<in> fst ` set d \<and> map fst (put_file n c d) = map fst d) \<or>
    (n \<notin> fst ` set d \<and> (\<exists>xs ys. map fst d = xs @ ys \<and> map fst (put_file n c d) = xs @ n # ys))"
  using assms
proof (induction n c d rule: put_file.induct)
  case (2 n c m x d)
  have wf: "wf_dir d" "\<forall>k \<in> fst ` set d. m < k" using 2(2) by (auto simp: wf_dir_def)
  consider "n = m" | "n < m" | "n > m" by fastforce
  then show ?case
  proof cases
    case 2
    with wf have "n \<notin> fst ` set d" by (auto dest: order.strict_trans)
    with 2 show ?thesis by (intro disjI2 conjI exI[of _ "[]"] exI[of _ "m # map fst d"]) auto
  next
    case 3
    with 2(1)[OF _ _ wf(1)] have IH: "(n \<in> fst ` set d \<and> map fst (put_file n c d) = map fst d) \<or>
        (n \<notin> fst ` set d \<and> (\<exists>xs ys. map fst d = xs @ ys \<and> map fst (put_file n c d) = xs @ n # ys))"
      by auto
    then show ?thesis
    proof (elim disjE conjE exE)
      fix xs ys
      assume "n \<notin> fst ` set d" "map fst d = xs @ ys" "map fst (put_file n c d) = xs @ n # ys"
      with 3 show ?thesis by (intro disjI2 conjI exI[of _ "m # xs"] exI[of _ ys]) auto
    qed (use 3 in auto)
  qed simp
qed simp

lemma read_segments_append:
  "read_segments d (as @ bs) = bind_err (read_segments d as) (\<lambda>xs.
     bind_err (read_segments d bs) (\<lambda>ys. Inr (xs @ ys)))"
proof (induction as)
  case Nil
  show ?case by (cases "read_segments d bs") simp_all
next
  case (Cons a as)
  then show ?case
    by (cases "read_segment d a"; cases "read_segments d as"; cases "read_segments d bs") simp_all
qed

lemma read_segments_cong:
  "(\<And>a. a \<in> set as \<Longrightarrow> segment d a = segment d' a) \<Longrightarrow> read_segments d as = read_segments d' as"
  by (induction as) (simp_all add: read_segment_def)

lemma read_segments_Inr:
  "read_segments d as = Inr segs \<Longrightarrow>
     segs = map (\<lambda>a. (a, events_of d a)) as \<and> (\<forall>a \<in> set as. read_segment d a = Inr (events_of d a))"
  by (induction as arbitrary: segs) (auto simp: bind_err_Inr events_of_def)

lemma segment_authors_iff:
  "a \<in> set (segment_authors d) \<longleftrightarrow> segment d a \<noteq> None"
proof -
  have "a \<in> set (segment_authors d) \<longleftrightarrow> segment_path a \<in> fst ` set d"
    using segment_path_author by (force simp: segment_authors_def)
  then show ?thesis by (simp add: segment_def map_of_eq_None_iff image_iff)
qed

text \<open>Where a written segment appears in the listing.\<close>

lemma write_line_authors:
  assumes "wf_dir d" and "a \<in> set (segment_authors d)"
  shows "segment_authors (write_line d a l) = segment_authors d"
proof -
  have "segment_path a \<in> fst ` set d"
    using assms(2) by (auto simp: segment_authors_iff segment_def map_of_eq_None_iff)
  then show ?thesis
    using put_file_names[OF assms(1), of "segment_path a"] by (auto simp: segment_authors_def write_line_def)
qed

lemma write_line_new_author:
  assumes "wf_dir d" and "a \<notin> set (segment_authors d)"
  shows "\<exists>as bs. segment_authors d = as @ bs \<and> segment_authors (write_line d a l) = as @ a # bs"
proof -
  have "segment_path a \<notin> fst ` set d"
    using assms(2) by (auto simp: segment_authors_iff segment_def map_of_eq_None_iff)
  then obtain xs ys where "map fst d = xs @ ys"
    "map fst (write_line d a l) = xs @ segment_path a # ys"
    using put_file_names[OF assms(1), of "segment_path a"
      "(case segment d a of None \<Rightarrow> [] | Some s \<Rightarrow> s) @ l"] unfolding write_line_def by blast
  then show ?thesis
    by (intro exI[of _ "map (\<lambda>n. trim_suffix n ''.jsonl'') (filter (\<lambda>n. has_suffix n ''.jsonl'') xs)"]
        exI[of _ "map (\<lambda>n. trim_suffix n ''.jsonl'') (filter (\<lambda>n. has_suffix n ''.jsonl'') ys)"])
      (simp add: segment_authors_def)
qed

lemma segment_authors_distinct:
  assumes "wf_dir d"
  shows "distinct (segment_authors d)"
proof -
  have "inj_on (\<lambda>n. trim_suffix n ''.jsonl'') {n. has_suffix n ''.jsonl''}"
    by (rule inj_onI) (metis mem_Collect_eq segment_path_author)
  then show ?thesis
    using wf_dir_distinct[OF assms] unfolding segment_authors_def
    by (auto simp: distinct_map intro: inj_on_subset)
qed

lemma merge_all_Inr:
  "merge_all d = Inr es \<longleftrightarrow> (\<exists>segs. read_all_segments d = Inr segs \<and> es = merge segs)"
  by (auto simp: merge_all_def bind_err_Inr)

lemma read_all_after_write:
  assumes "wf_dir d" and "read_all_segments d = Inr segs"
    and "read_segment (write_line d a l) a = Inr (events_of d a @ zs)"
  shows "\<exists>xs ys segs'. concat (map snd segs) = xs @ ys \<and>
    read_all_segments (write_line d a l) = Inr segs' \<and> concat (map snd segs') = xs @ zs @ ys"
proof -
  let ?d = "write_line d a l"
  have same: "read_segments ?d bs = read_segments d bs" if "a \<notin> set bs" for bs
    using that by (intro read_segments_cong) (auto simp: write_line_segment)
  obtain as bs where split: "(a \<in> set (segment_authors d) \<and> segment_authors d = as @ a # bs) \<or>
      (a \<notin> set (segment_authors d) \<and> segment_authors d = as @ bs)"
    "segment_authors ?d = as @ a # bs" "a \<notin> set (as @ bs)"
  proof (cases "a \<in> set (segment_authors d)")
    case True
    then obtain as bs where "segment_authors d = as @ a # bs" by (meson split_list)
    then show ?thesis
      using that True segment_authors_distinct[OF assms(1)] write_line_authors[OF assms(1) True, of l] by auto
  next
    case False
    then show ?thesis using that write_line_new_author[OF assms(1) False, of l] by auto
  qed
  have a: "concat (map snd segs) = concat (map (events_of d) as) @ events_of d a @ concat (map (events_of d) bs)
      \<and> read_segments d as = Inr (map (\<lambda>b. (b, events_of d b)) as)
      \<and> read_segments d bs = Inr (map (\<lambda>b. (b, events_of d b)) bs)"
  proof (cases "a \<in> set (segment_authors d)")
    case True
    with split assms(2) obtain xs ys where "read_segments d as = Inr xs" "read_segments d bs = Inr ys"
      "segs = xs @ (a, events_of d a) # ys"
      by (auto simp: read_all_segments_def read_segments_append bind_err_Inr events_of_def)
    then show ?thesis using read_segments_Inr[of d as xs] read_segments_Inr[of d bs ys] by (simp add: comp_def)
  next
    case False
    then have "events_of d a = []" by (simp add: segment_authors_iff events_of_def read_segment_def)
    moreover obtain xs ys where "read_segments d as = Inr xs" "read_segments d bs = Inr ys" "segs = xs @ ys"
      using split assms(2) False by (auto simp: read_all_segments_def read_segments_append bind_err_Inr)
    ultimately show ?thesis using read_segments_Inr[of d as xs] read_segments_Inr[of d bs ys] by (simp add: comp_def)
  qed
  have "read_segments ?d (as @ a # bs) = Inr (map (\<lambda>b. (b, events_of d b)) as @
      (a, events_of d a @ zs) # map (\<lambda>b. (b, events_of d b)) bs)"
    using a split(3) assms(3) same[of as] same[of bs] by (simp add: read_segments_append)
  then show ?thesis using a split(2)
    by (intro exI[of _ "concat (map (events_of d) as) @ events_of d a"] exI[of _ "concat (map (events_of d) bs)"])
      (simp add: read_all_segments_def comp_def)
qed

lemma read_all_after_append:
  assumes "wf_dir d" and "read_all_segments d = Inr segs"
    and "read_segment (write_line d a l) a = Inr (events_of d a @ [e])"
  shows "\<exists>xs ys segs'. concat (map snd segs) = xs @ ys \<and>
    read_all_segments (write_line d a l) = Inr segs' \<and> concat (map snd segs') = xs @ e # ys"
  using read_all_after_write[OF assms] by simp

text \<open>A line too long to be read back leaves the merged order as it was.\<close>

lemma publish_hidden_merge:
  assumes "wf_dir d" and "wf_event ev" and "intact C d (ev_author ev)" and "merge_all d = Inr es"
    and "publish C i d ev = Inr (e, d')" and "\<not> fits e"
  shows "merge_all d' = Inr es"
proof -
  obtain segs where segs: "read_all_segments d = Inr segs" "es = merge segs"
    using assms(4) by (auto simp: merge_all_Inr)
  have d': "d' = write_line d (ev_author ev) (line_text e @ [LF])" using publish_Inr[OF assms(2,5)] by simp
  have "read_segment d' (ev_author ev) = Inr (events_of d (ev_author ev) @ [])"
    using publish_hidden[OF assms(2,3,5,6)] by simp
  then obtain xs ys segs' where "concat (map snd segs) = xs @ ys" "read_all_segments d' = Inr segs'"
      "concat (map snd segs') = xs @ [] @ ys"
    using read_all_after_write[OF assms(1) segs(1)] unfolding d' by blast
  then show ?thesis using segs(2) by (simp add: merge_all_Inr merge_def)
qed

text \<open>What a line in its place in the chain, above all Lamport numbers, does to the merged order.\<close>

lemma append_merged_last:
  assumes "wf_dir d" and "wf_event e" and "intact C d (ev_author e)" and "fits e"
    and "ev_seq e = of_nat (length (lines_of d (ev_author e))) + 1"
    and "ev_prev e = (if lines_of d (ev_author e) = [] then zero_hash
                      else compute_line_hash C (last (lines_of d (ev_author e))))"
    and "merge_all d = Inr es" and "\<And>x. x \<in> set es \<Longrightarrow> ev_lamport x < ev_lamport e"
    and "d' = write_line d (ev_author e) (line_text e @ [LF])"
  shows "merge_all d' = Inr (es @ [e]) \<and> wf_dir d'"
proof -
  have key: "event_key_of x < event_key_of e" if "x \<in> set es" for x
    using assms(8)[OF that] by (simp add: less_event_key_def event_key_of_def)
  obtain segs where segs: "read_all_segments d = Inr segs" "es = merge segs"
    using assms(7) by (auto simp: merge_all_Inr)
  have "read_segment d' (ev_author e) = Inr (events_of d (ev_author e) @ [e])"
    using intact_append[OF assms(3,2,4-6)] intact_events[of C d' "ev_author e"] by (auto simp: assms(9))
  then obtain xs ys segs' where new: "concat (map snd segs) = xs @ ys"
    "read_all_segments d' = Inr segs'" "concat (map snd segs') = xs @ e # ys"
    using read_all_after_append[OF assms(1) segs(1)] unfolding assms(9) by blast
  have "sort_events (xs @ e # ys) = sort_events (xs @ ys) @ [e]"
    using key by (intro sort_events_last) (simp add: segs(2) merge_def new(1))
  then have "merge_all d' = Inr (es @ [e])"
    using new segs(2) by (simp add: merge_all_Inr merge_def)
  then show ?thesis using wf_put_file[OF assms(1)] by (simp add: assms(9) write_line_def)
qed

lemma publish_merged:
  assumes "wf_dir d" and "wf_event ev" and "intact C d (ev_author ev)"
    and "merge_all d = Inr es" and "max_lamport_of es \<noteq> - 1"
    and "publish C i d ev = Inr (e, d')" and "fits e"
  shows "merge_all d' = Inr (es @ [e]) \<and> wf_dir d' \<and> (\<forall>x \<in> set es. ev_lamport x < ev_lamport e)"
proof -
  note f = publish_fields[OF assms(2,6)] and p = publish_Inr[OF assms(2,6)]
  have low: "ev_lamport x < ev_lamport e" if "x \<in> set es" for x
    using next_lamport_above[OF assms(4,5) that] f by simp
  then show ?thesis
    using append_merged_last[OF assms(1) conjunct1[OF p] _ assms(7) _ _ assms(4), of C d'] assms(3) f p by simp
qed

text \<open>
  An event published on an intact segment of a readable journal gets a Lamport number above
  every event of every segment, so it is the last event of the merged order and leaves the
  order of the others as it was.
\<close>
theorem publish_merged_last:
  assumes "wf_dir d" and "wf_event ev" and "intact C d (ev_author ev)"
    and "merge_all d = Inr es" and "max_lamport_of es \<noteq> - 1"
    and "publish C i d ev = Inr (e, d')" and "fits e"
  shows "merge_all d' = Inr (es @ [e]) \<and> wf_dir d' \<and> (\<forall>x \<in> set es. ev_lamport x < ev_lamport e)"
  by (rule publish_merged[OF assms])

text \<open>
  The merge is a permutation of all events of all segments, in the total order of the sort
  key, and does not depend on the order Go's map iteration visits the segments in, as long as
  no two different events share their whole key.
\<close>
theorem merge_order_independent:
  assumes "mset segs = mset segs'" and "inj_on event_key_of (set (concat (map snd segs)))"
  shows "merge segs = merge segs' \<and> mset (merge segs) = mset (concat (map snd segs)) \<and>
    sorted (map event_key_of (merge segs))"
proof -
  have concat: "mset (concat (map snd segs)) = mset (concat (map snd segs'))"
  proof -
    have "mset (concat (map snd xs)) = sum_mset (image_mset (mset \<circ> snd) (mset xs))"
      for xs :: "(string \<times> event list) list" by (induction xs) auto
    then show ?thesis using assms(1) by simp
  qed
  have "merge segs = merge segs'"
    unfolding merge_def
    by (subst sort_events_def, rule sort_key_inj_key_eq) (use assms(2) concat in simp_all)
  then show ?thesis using concat by (simp add: merge_def)
qed


section \<open>Tamper evidence\<close>

definition chain :: "crypto \<Rightarrow> string list \<Rightarrow> event list \<Rightarrow> bool" where
  "chain C ls es \<longleftrightarrow>
     those (map unmarshal_json_line ls) = Some es \<and> check_chain C zero_hash 1 (zip ls es) = Inr ()"

lemma chain_snoc:
  "chain C (ls @ [l]) fs \<longleftrightarrow> (\<exists>es e. fs = es @ [e] \<and> chain C ls es \<and> unmarshal_json_line l = Some e \<and>
     ev_seq e = 1 + of_nat (length ls) \<and>
     ev_prev e = (if ls = [] then zero_hash else compute_line_hash C (last ls)))"
proof -
  have last: "zip ls es \<noteq> [] \<Longrightarrow> fst (last (zip ls es)) = last ls" if "length es = length ls" for es :: "event list"
    using that by (simp add: last_zip)
  show ?thesis
    by (auto simp: chain_def those_append check_chain_snoc last dest!: those_length split: option.splits if_splits)
qed

lemma intact_chain: "intact C d a \<Longrightarrow> chain C (lines_of d a) (events_of d a)"
  using intact_events by (simp add: chain_def)

definition sha_collision :: "crypto \<Rightarrow> bool" where
  "sha_collision C \<longleftrightarrow> (\<exists>x y. x \<noteq> y \<and> sha256 C x = sha256 C y)"

lemma compute_line_hash_eq: "compute_line_hash C x = compute_line_hash C y \<Longrightarrow> x = y \<or> sha_collision C"
  by (auto simp: compute_line_hash_def sha_collision_def)

lemma of_nat_inj64: "m < 2 ^ 64 \<Longrightarrow> n < 2 ^ 64 \<Longrightarrow> (of_nat m :: u64) = of_nat n \<longleftrightarrow> m = n"
  by (simp add: word_of_nat_eq_iff take_bit_nat_eq_self)

lemma chain_unique:
  assumes "chain C ls es" and "chain C ls' es'" and "ls \<noteq> []" and "ls' \<noteq> []"
    and "compute_line_hash C (last ls) = compute_line_hash C (last ls')"
    and "length ls < 2 ^ 64" and "length ls' < 2 ^ 64"
  shows "ls = ls' \<or> sha_collision C"
  using assms
proof (induction ls arbitrary: es ls' es' rule: rev_induct)
  case (snoc l ls)
  obtain l' ms where ls': "ls' = ms @ [l']" using snoc.prems(4) by (metis rev_exhaust)
  show ?case
  proof (cases "sha_collision C")
    case False
    then have l: "l' = l" using snoc.prems(5) compute_line_hash_eq by (auto simp: ls')
    obtain fs e where e: "chain C ls fs" "unmarshal_json_line l = Some e" "ev_seq e = 1 + of_nat (length ls)"
      "ev_prev e = (if ls = [] then zero_hash else compute_line_hash C (last ls))"
      using snoc.prems(1) by (auto simp: chain_snoc)
    obtain gs where g: "chain C ms gs" "ev_seq e = 1 + of_nat (length ms)"
      "ev_prev e = (if ms = [] then zero_hash else compute_line_hash C (last ms))"
      using snoc.prems(2) e(2) by (auto simp: ls' l chain_snoc)
    have len: "length ls = length ms"
      using e(3) g(2) snoc.prems(6,7) of_nat_inj64[of "length ls" "length ms"] by (simp add: ls')
    show ?thesis
    proof (cases "ls = []")
      case False
      then have "ms \<noteq> []" using len by auto
      with False snoc.IH[OF e(1) g(1)] e(4) g(3) snoc.prems(6,7) show ?thesis by (simp add: ls' l)
    qed (use len in \<open>simp add: ls' l\<close>)
  qed simp
qed simp

text \<open>
  two intact, non-empty versions of an author's segment whose tail hashes agree are the same
  segment, line by line, unless they exhibit a SHA-256 collision: nothing before a known tail
  can be changed, dropped or inserted without the chain check noticing.
\<close>
theorem tail_hash_binds_history:
  assumes "intact C d a" and "intact C d' a" and "lines_of d a \<noteq> []" and "lines_of d' a \<noteq> []"
    and "snd (read_last_segment_stats C (segment d a)) = snd (read_last_segment_stats C (segment d' a))"
    and "length (lines_of d a) < 2 ^ 64" and "length (lines_of d' a) < 2 ^ 64"
  shows "(lines_of d a = lines_of d' a \<and> read_segment d a = read_segment d' a) \<or> sha_collision C"
proof -
  have "lines_of d a = lines_of d' a \<or> sha_collision C"
    using chain_unique[OF intact_chain[OF assms(1)] intact_chain[OF assms(2)] assms(3,4) _ assms(6,7)]
      assms(3-5) by (simp add: read_last_lines)
  then show ?thesis using intact_events[OF assms(1)] intact_events[OF assms(2)] by auto
qed


section \<open>The cache\<close>

text \<open>\<open>PrepareEvent\<close>, \<open>Sign\<close> and \<open>Append\<close> on a journal that stays open between calls.\<close>

definition publish_on ::
    "crypto \<Rightarrow> identity \<Rightarrow> dir \<Rightarrow> journal \<Rightarrow> event \<Rightarrow> (journal_error + event \<times> dir) \<times> journal" where
  "publish_on C i d j ev =
     (let (ev1, j1) = prepare_event C d j ev
      in case sign_event C i ev1 of
           None \<Rightarrow> (Inl BadEvent, j1)
         | Some ev2 \<Rightarrow> append_event C d j1 ev2)"

lemma publish_on_new: "publish C i d ev = fst (publish_on C i d new_journal ev)"
  by (simp add: publish_def publish_on_def split: prod.splits option.splits)

text \<open>
  The cached tails and maximum agree with the files: a tail whose size matches holds what
  reading the file would give, and a known maximum is the maximum of all segments.
\<close>

definition tail_ok :: "crypto \<Rightarrow> string option \<Rightarrow> tail_stat \<Rightarrow> bool" where
  "tail_ok C file st \<longleftrightarrow>
     (case file of
        None \<Rightarrow> t_size st = 0 \<and> t_seq st = 0 \<and> t_hash st = zero_hash
      | Some s \<Rightarrow> t_size st = length s \<longrightarrow> (t_seq st, t_hash st) = read_last_segment_stats C file)"

definition coherent :: "crypto \<Rightarrow> dir \<Rightarrow> journal \<Rightarrow> bool" where
  "coherent C d j \<longleftrightarrow>
     (\<forall>a st. tails j a = Some st \<longrightarrow> tail_ok C (segment d a) st) \<and>
     (lamport_known j \<longrightarrow>
        (\<exists>segs. read_all_segments d = Inr segs \<and> lamport_max j = max_lamport_of (merge segs)))"

lemma coherent_new [simp]: "coherent C d new_journal"
  by (simp add: coherent_def new_journal_def)

lemma coherent_load:
  assumes "coherent C d j" and "load_tail C d j a = (st, j1)"
  shows "(t_seq st, t_hash st) = read_last_segment_stats C (segment d a) \<and> coherent C d j1 \<and>
    tails j1 a = Some st \<and> t_size st = (case segment d a of None \<Rightarrow> 0 | Some s \<Rightarrow> length s)"
proof -
  have st: "(t_seq st, t_hash st) = read_last_segment_stats C (segment d a)"
    "t_size st = (case segment d a of None \<Rightarrow> 0 | Some s \<Rightarrow> length s)"
    "j1 = j\<lparr>tails := (tails j)(a \<mapsto> st), lamport_known := False\<rparr>"
    using assms(2) by (auto simp: load_tail_def Let_def case_prod_unfold)
  moreover have "tail_ok C (segment d a) st"
    using st(1,2) by (auto simp: tail_ok_def read_last_segment_stats_def split: option.splits)
  ultimately show ?thesis using assms(1) by (simp add: coherent_def)
qed

lemma coherent_tail:
  assumes "coherent C d j" and "tail_stat_for C d j a = (st, j1)"
  shows "(t_seq st, t_hash st) = read_last_segment_stats C (segment d a) \<and> coherent C d j1 \<and>
    tails j1 a = Some st \<and> t_size st = (case segment d a of None \<Rightarrow> 0 | Some s \<Rightarrow> length s)"
proof (cases "tails j a")
  case None
  with assms(2) coherent_load[OF assms(1)] show ?thesis by (simp add: tail_stat_for_def)
next
  case (Some t)
  then have t: "tail_ok C (segment d a) t" using assms(1) by (simp add: coherent_def)
  show ?thesis
  proof (cases "segment d a")
    case None
    with t Some assms show ?thesis
      by (auto simp: tail_stat_for_def read_last_segment_stats_def tail_ok_def)
  next
    case seg: (Some s)
    show ?thesis
    proof (cases "length s = t_size t")
      case True
      with t Some seg assms show ?thesis by (auto simp: tail_stat_for_def tail_ok_def)
    next
      case False
      with Some seg assms(2) coherent_load[OF assms(1)] show ?thesis by (simp add: tail_stat_for_def)
    qed
  qed
qed

lemma coherent_max:
  assumes "coherent C d j" and "max_lamport d j = (r, j1)"
  shows "r = fst (max_lamport d new_journal) \<and> coherent C d j1 \<and>
    (lamport_known j1 \<longleftrightarrow> is_ok (read_all_segments d)) \<and> (lamport_known j1 \<longrightarrow> r = Inr (lamport_max j1))"
  using assms
  by (auto simp: max_lamport_def coherent_def new_journal_def Let_def split: sum.splits if_splits)

lemma coherent_prepare:
  assumes "coherent C d j" and "prepare_event C d j ev = (ev1, j1)"
  shows "ev1 = prepared C d ev \<and> coherent C d j1 \<and>
    (\<exists>st. tails j1 (ev_author ev) = Some st \<and>
       t_size st = (case segment d (ev_author ev) of None \<Rightarrow> 0 | Some s \<Rightarrow> length s))"
proof -
  obtain st jt where t: "tail_stat_for C d j (ev_author ev) = (st, jt)" by fastforce
  obtain r jm where m: "max_lamport d jt = (r, jm)" by fastforce
  note ct = coherent_tail[OF assms(1) t]
  note cm = coherent_max[OF conjunct1[OF conjunct2[OF ct]] m]
  have "tails jm = tails jt" using max_lamport_tails[of d jt] m by simp
  moreover have "j1 = jm" "ev1 = prepared C d ev"
    using assms(2) ct cm
    by (auto simp: prepare_event_def prepared_def next_lamport_def t m Let_def split: prod.splits)
  ultimately show ?thesis using ct cm by auto
qed

lemma note_append_tail:
  "tails j (ev_author e) = Some st \<Longrightarrow> tails (note_append C j e (l @ [LF])) =
     (tails j)(ev_author e \<mapsto> \<lparr>t_seq = ev_seq e, t_hash = compute_line_hash C l,
                               t_size = t_size st + length l + 1\<rparr>)"
  by (simp add: note_append_def Let_def)

lemma coherent_append:
  assumes "coherent C d j" and "wf_dir d" and "wf_event e" and "intact C d (ev_author e)" and "fits e"
    and "tails j (ev_author e) = Some st"
    and "t_size st = (case segment d (ev_author e) of None \<Rightarrow> 0 | Some s \<Rightarrow> length s)"
    and "ev_seq e = of_nat (length (lines_of d (ev_author e))) + 1"
    and "ev_prev e = (if lines_of d (ev_author e) = [] then zero_hash
                      else compute_line_hash C (last (lines_of d (ev_author e))))"
  shows "coherent C (write_line d (ev_author e) (line_text e @ [LF])) (note_append C j e (line_text e @ [LF]))"
proof -
  let ?a = "ev_author e" let ?l = "line_text e" let ?d = "write_line d ?a (?l @ [LF])"
  let ?j = "note_append C j e (?l @ [LF])"
  have intact: "intact C ?d ?a" "events_of ?d ?a = events_of d ?a @ [e]"
    using intact_append[OF assms(4,3,5,8,9)] by auto
  have stats: "read_last_segment_stats C (segment ?d ?a) = (ev_seq e, compute_line_hash C ?l)"
    using segment_append(1)[OF assms(4,3,5)] assms(8) by (simp add: read_last_lines)
  have "tail_ok C (segment ?d b) t" if "tails ?j b = Some t" for b t
  proof (cases "b = ?a")
    case True
    then have t: "(t_seq t, t_hash t) = (ev_seq e, compute_line_hash C ?l)"
      using that note_append_tail[OF assms(6), of C ?l] by auto
    moreover obtain s where "segment ?d ?a = Some s" by (simp add: write_line_segment)
    ultimately show ?thesis using stats True by (simp add: tail_ok_def)
  next
    case False
    then have "tails j b = Some t" using that note_append_tail[OF assms(6), of C ?l] by simp
    then show ?thesis using assms(1) False by (simp add: coherent_def write_line_segment)
  qed
  moreover have "\<exists>segs. read_all_segments ?d = Inr segs \<and> lamport_max ?j = max_lamport_of (merge segs)"
    if "lamport_known ?j"
  proof -
    have "lamport_known j" using that by (simp add: note_append_def Let_def)
    with assms(1) obtain segs where segs: "read_all_segments d = Inr segs"
      "lamport_max j = max_lamport_of (merge segs)" by (auto simp: coherent_def)
    have "read_segment ?d ?a = Inr (events_of d ?a @ [e])"
      using intact intact_events[OF intact(1)] by simp
    then obtain xs ys segs' where new: "concat (map snd segs) = xs @ ys"
      "read_all_segments ?d = Inr segs'" "concat (map snd segs') = xs @ e # ys"
      using read_all_after_append[OF assms(2) segs(1)] by blast
    have "max_lamport_of (merge segs') = max_lamport_of (merge segs @ [e])"
      by (rule max_lamport_mset) (simp add: merge_def new)
    then have "max_lamport_of (merge segs') =
        (if ev_lamport e > max_lamport_of (merge segs) then ev_lamport e else max_lamport_of (merge segs))"
      by (simp add: max_lamport_of_def)
    with new(2) segs(2) \<open>lamport_known j\<close> show ?thesis by (simp add: note_append_def Let_def)
  qed
  ultimately show ?thesis by (simp add: coherent_def)
qed

lemma publish_on_coherent:
  assumes "coherent C d j" and "wf_event ev"
  shows "fst (publish_on C i d j ev) = publish C i d ev"
    and "\<exists>e j1 st. publish C i d ev = Inr (e, write_line d (ev_author ev) (line_text e @ [LF])) \<and>
      snd (publish_on C i d j ev) = note_append C j1 e (line_text e @ [LF]) \<and> coherent C d j1 \<and>
      tails j1 (ev_author ev) = Some st \<and>
      t_size st = (case segment d (ev_author ev) of None \<Rightarrow> 0 | Some s \<Rightarrow> length s)"
proof -
  obtain e s where pub: "publish C i d ev = Inr (e, write_line d (ev_author ev) (line_text e @ [LF]))"
    "wf_event e" "sign_event C i (prepared C d ev) = Some e"
    "e = (prepared C d ev)\<lparr>ev_v := (if ev_v ev = 0 then current_version else ev_v ev), ev_sig := s\<rparr>"
    using publish_eq[OF assms(2)] by blast
  have a: "ev_author e = ev_author ev" by (simp add: pub(4))
  obtain j1 where p: "prepare_event C d j ev = (prepared C d ev, j1)"
    using coherent_prepare[OF assms(1)] by (metis prod.collapse)
  note cp = coherent_prepare[OF assms(1) p]
  obtain st where st: "tails j1 (ev_author ev) = Some st"
    "t_size st = (case segment d (ev_author ev) of None \<Rightarrow> 0 | Some s \<Rightarrow> length s)" "coherent C d j1"
    using cp by blast
  have num: "number_event C d j1 e = (e, j1)"
  proof -
    obtain st' jt where t: "tail_stat_for C d j1 (ev_author ev) = (st', jt)" by fastforce
    have "jt = j1" using t st(1,2) by (auto simp: tail_stat_for_def split: option.splits)
    moreover have "ev_seq e = t_seq st' + 1 \<and> ev_prev e = t_hash st'"
      using coherent_tail[OF st(3) t] by (auto simp: pub(4) prepared_def split: prod.splits)
    ultimately show ?thesis using t by (simp add: number_event_def a)
  qed
  have stamp: "stamp_event d j1 e = (e, j1)"
  proof -
    obtain r jt where r: "max_lamport d j = (r, jt)" by fastforce
    obtain st0 j0 where t0: "tail_stat_for C d j (ev_author ev) = (st0, j0)" by fastforce
    obtain r1 j2 where r1: "max_lamport d j0 = (r1, j2)" by fastforce
    have "prepared C d ev = ev\<lparr>ev_lamport := (if ev_lamport ev \<le> lamport_or_zero r1
        then lamport_or_zero r1 + 1 else ev_lamport ev), ev_seq := t_seq st0 + 1, ev_prev := t_hash st0\<rparr>" "j1 = j2"
      using p by (simp_all add: prepare_event_def t0 r1 Let_def)
    moreover from this have "ev_lamport e =
        (if ev_lamport ev \<le> lamport_or_zero r1 then lamport_or_zero r1 + 1 else ev_lamport ev)"
      by (simp add: pub(4))
    ultimately show ?thesis using max_lamport_again[OF r1] by (auto simp: stamp_event_def Let_def split: if_splits)
  qed
  have "publish_on C i d j ev =
      (Inr (e, write_line d (ev_author ev) (line_text e @ [LF])), note_append C j1 e (line_text e @ [LF]))"
    by (simp add: publish_on_def p pub(3) append_event_def num stamp marshal_line_text[OF pub(2)] a)
  then show "fst (publish_on C i d j ev) = publish C i d ev"
    and "\<exists>e j1 st. publish C i d ev = Inr (e, write_line d (ev_author ev) (line_text e @ [LF])) \<and>
      snd (publish_on C i d j ev) = note_append C j1 e (line_text e @ [LF]) \<and> coherent C d j1 \<and>
      tails j1 (ev_author ev) = Some st \<and>
      t_size st = (case segment d (ev_author ev) of None \<Rightarrow> 0 | Some s \<Rightarrow> length s)"
    using pub(1) st by auto
qed

lemma coherent_step:
  assumes "coherent C d j" and "wf_dir d" and "wf_event ev" and "intact C d (ev_author ev)"
    and "publish C i d ev = Inr (e, d')" and "fits e"
  shows "\<exists>j'. publish_on C i d j ev = (Inr (e, d'), j') \<and> coherent C d' j'"
proof -
  obtain j1 st where *: "d' = write_line d (ev_author ev) (line_text e @ [LF])"
    "snd (publish_on C i d j ev) = note_append C j1 e (line_text e @ [LF])" "coherent C d j1"
    "tails j1 (ev_author ev) = Some st"
    "t_size st = (case segment d (ev_author ev) of None \<Rightarrow> 0 | Some s \<Rightarrow> length s)"
    using publish_on_coherent(2)[OF assms(1,3), of i] assms(5) by auto
  note f = publish_fields[OF assms(3,5)]
  have "coherent C d' (snd (publish_on C i d j ev))"
    using coherent_append[OF *(3) assms(2) _ _ assms(6), of st] publish_Inr[OF assms(3,5)] *(1,2,4,5) f assms(4)
    by simp
  moreover have "fst (publish_on C i d j ev) = Inr (e, d')"
    using publish_on_coherent(1)[OF assms(1,3), of i] assms(5) by simp
  ultimately show ?thesis by (metis prod.collapse)
qed

text \<open>
  A run of events, each published by its signer: on one journal that stays open, and each on a
  journal opened for it.
\<close>

fun publish_open ::
    "crypto \<Rightarrow> dir \<Rightarrow> journal \<Rightarrow> (identity \<times> event) list \<Rightarrow> (journal_error + event list \<times> dir) \<times> journal" where
  "publish_open C d j [] = (Inr ([], d), j)"
| "publish_open C d j ((i, ev) # evs) =
     (case publish_on C i d j ev of
        (Inl x, j') \<Rightarrow> (Inl x, j')
      | (Inr (e, d'), j') \<Rightarrow>
          (case publish_open C d' j' evs of
             (Inl x, j'') \<Rightarrow> (Inl x, j'')
           | (Inr (es, d''), j'') \<Rightarrow> (Inr (e # es, d''), j'')))"

fun publish_each :: "crypto \<Rightarrow> dir \<Rightarrow> (identity \<times> event) list \<Rightarrow> journal_error + event list \<times> dir" where
  "publish_each C d [] = Inr ([], d)"
| "publish_each C d ((i, ev) # evs) =
     bind_err (publish C i d ev) (\<lambda>(e, d').
       bind_err (publish_each C d' evs) (\<lambda>(es, d''). Inr (e # es, d'')))"

lemma intact_same_segment: "segment d' a = segment d a \<Longrightarrow> intact C d' a = intact C d a"
  by (simp add: intact_def verify_chain_def read_segment_def)

lemma publish_open_coherent:
  assumes "coherent C d j" and "wf_dir d" and "publish_each C d evs = Inr (es, d')"
    and "list_all (\<lambda>(i, ev). wf_event ev \<and> intact C d (ev_author ev)) evs" and "list_all fits es"
  shows "\<exists>j'. publish_open C d j evs = (Inr (es, d'), j') \<and> coherent C d' j'"
  using assms
proof (induction evs arbitrary: d j es)
  case (Cons x evs)
  obtain i ev where x: "x = (i, ev)" by (cases x)
  obtain e d1 fs where p: "publish C i d ev = Inr (e, d1)" "publish_each C d1 evs = Inr (fs, d')" "es = e # fs"
    using Cons.prems(3) by (auto simp: x bind_err_Inr)
  have ev: "wf_event ev" "intact C d (ev_author ev)" and e: "fits e" using Cons.prems(4,5) by (simp_all add: x p(3))
  obtain j1 where j1: "publish_on C i d j ev = (Inr (e, d1), j1)" "coherent C d1 j1"
    using coherent_step[OF Cons.prems(1,2) ev p(1) e] by blast
  have d1: "d1 = write_line d (ev_author ev) (line_text e @ [LF])" using publish_Inr[OF ev(1) p(1)] by simp
  have keep: "intact C d1 b" if "intact C d b" for b
    using publish_intact[OF ev p(1) e] intact_same_segment[of d1 b d C] that
    by (cases "b = ev_author ev") (simp_all add: d1 write_line_segment)
  have "list_all (\<lambda>(i, ev). wf_event ev \<and> intact C d1 (ev_author ev)) evs"
    using Cons.prems(4) keep by (auto simp: list_all_iff)
  moreover have "wf_dir d1" using wf_put_file[OF Cons.prems(2)] by (simp add: d1 write_line_def)
  moreover have "list_all fits fs" using Cons.prems(5) by (simp add: p(3))
  ultimately obtain j2 where "publish_open C d1 j1 evs = (Inr (fs, d'), j2)" "coherent C d' j2"
    using Cons.IH[OF j1(2) _ p(2)] by blast
  then show ?case by (simp add: x j1(1) p(3))
qed simp

text \<open>
  C28: the caches of an open journal are invisible to a process that has the directory to itself.
  However many events it publishes through one journal, by whatever signers into intact segments,
  it writes exactly the events and the files it would write by opening the journal anew for each,
  as long as every line can be read back (65535 bytes).
\<close>
theorem cache_transparent:
  assumes "wf_dir d" and "list_all (\<lambda>(i, ev). wf_event ev \<and> intact C d (ev_author ev)) evs"
    and "publish_each C d evs = Inr (es, d')" and "list_all (\<lambda>e. length (line_text e) \<le> max_line) es"
  shows "fst (publish_open C d new_journal evs) = Inr (es, d')"
  using publish_open_coherent[OF coherent_new assms(1,3,2)] assms(4) by (auto simp: fits_def[abs_def])

section \<open>Lines that fit\<close>

lemma length_esc_ascii: "length (esc_ascii c) \<le> 6"
  by (simp add: esc_ascii_def)

lemma length_esc: "length (esc s) \<le> 6 * length s"
proof (induction s rule: esc.induct)
  case (1 s)
  consider "s = []" | "s \<noteq> []" "of_char (hd s) < (0x80::nat)"
    | "s \<noteq> []" "\<not> of_char (hd s) < (0x80::nat)" "utf8_len s = 0"
    | "s \<noteq> []" "\<not> of_char (hd s) < (0x80::nat)" "utf8_len s \<noteq> 0" by blast
  then show ?case
  proof cases
    case 2
    then obtain a t where s: "s = a # t" by (cases s) auto
    with 1(1) 2 length_esc_ascii[of a] show ?thesis by (simp add: esc.simps[of "a # t"])
  next
    case 3
    then obtain a t where s: "s = a # t" by (cases s) auto
    with 1(2) 3 show ?thesis by (simp add: esc.simps[of "a # t"])
  next
    case 4
    have pos: "1 \<le> utf8_len s" "utf8_len s \<le> length s" using 4(3) utf8_len_le[of s] by auto
    have len: "length (drop (utf8_len s) s) = length s - utf8_len s" by simp
    have head: "length (esc_sep s) = 6" by (simp add: esc_sep_def)
    show ?thesis
    proof (cases "is_line_sep s")
      case True
      have "length (esc (drop (utf8_len s) s)) \<le> 6 * length (drop (utf8_len s) s)"
        using 1(3)[OF 4(1,2,3) True] .
      then show ?thesis using 4 True pos head by (simp add: esc.simps[of s])
    next
      case False
      have "length (esc (drop (utf8_len s) s)) \<le> 6 * length (drop (utf8_len s) s)"
        using 1(4)[OF 4(1,2,3) False] .
      then show ?thesis using 4 False pos by (simp add: esc.simps[of s])
    qed
  qed (simp add: esc.simps[of "[]"])
qed

lemma length_quote: "length (quote s) \<le> 6 * length s + 2"
  using length_esc[of s] by (simp add: quote_def)

lemma length_dec: "n < 10 ^ k \<Longrightarrow> 0 < k \<Longrightarrow> length (dec_of_nat n) \<le> k"
proof (induction n arbitrary: k rule: dec_of_nat.induct)
  case (1 n)
  show ?case
  proof (cases "n < 10")
    case False
    then obtain m where k: "k = Suc m" "0 < m" using 1(2,3) by (cases k; cases "k - 1") auto
    then have "n div 10 < 10 ^ m" using 1(2) by (simp add: less_mult_imp_div_less)
    with 1(1)[OF False _ k(2)] False k show ?thesis by (simp add: dec_of_nat.simps[of n])
  qed (use 1 in \<open>simp add: dec_of_nat.simps[of n]\<close>)
qed

lemma length_num64: "length (num64 w) \<le> 20"
proof -
  have "unat w < 2 ^ 64" using unsigned_less[of w] by simp
  then have "unat w < 10 ^ 20" by simp
  then show ?thesis unfolding num64_def by (rule length_dec) simp
qed

definition text_size :: "event \<Rightarrow> nat" where
  "text_size e = length (ev_author e) + length (ev_id e) + length (ev_kind e) + length (ev_prev e) +
     length (ev_room e) + length (ev_sig e) + length (ev_ts e)"

lemma length_literal_quote:
  "length (quote ''author'') \<le> 38" "length (quote ''body'') \<le> 26" "length (quote ''id'') \<le> 14"
  "length (quote ''kind'') \<le> 26" "length (quote ''lamport'') \<le> 44" "length (quote ''prev'') \<le> 26"
  "length (quote ''room'') \<le> 26" "length (quote ''seq'') \<le> 20" "length (quote ''sig'') \<le> 20"
  "length (quote ''ts'') \<le> 14" "length (quote ''v'') \<le> 8"
  by (rule order_trans[OF length_quote], simp)+

lemma line_length:
  assumes "wf_event e"
  shows "length (line_text e) \<le> 6 * text_size e + length (ev_body e) + 400"
proof -
  have v: "length (dec_of_int (ev_v e)) \<le> 19"
  proof -
    have "nat (ev_v e) < 2 ^ 63" using assms by (simp add: wf_event_def nat_less_iff)
    then have "nat (ev_v e) < 10 ^ 19" by simp
    then have "length (dec_of_nat (nat (ev_v e))) \<le> 19" by (rule length_dec) simp
    then show ?thesis using assms by (simp add: dec_of_int_def wf_event_def)
  qed
  have "line_text e = object_text
       [(''author'', quote (ev_author e)), (''body'', ev_body e), (''id'', quote (ev_id e)),
        (''kind'', quote (ev_kind e)), (''lamport'', num64 (ev_lamport e)),
        (''prev'', quote (ev_prev e)), (''room'', quote (ev_room e)), (''seq'', num64 (ev_seq e)),
        (''sig'', quote (ev_sig e)), (''ts'', quote (ev_ts e)), (''v'', dec_of_int (ev_v e))]"
    by (simp add: line_text_def marshal_json_line_def wf_event_body[OF assms])
  then show ?thesis
    using length_literal_quote length_quote[of "ev_author e"] length_quote[of "ev_id e"]
      length_quote[of "ev_kind e"] length_quote[of "ev_prev e"] length_quote[of "ev_room e"]
      length_quote[of "ev_sig e"] length_quote[of "ev_ts e"] length_num64[of "ev_lamport e"]
      length_num64[of "ev_seq e"] v
    unfolding text_size_def object_text_def by (simp only: members_text.simps list.simps length_append length_Cons if_False if_True)
      simp
qed

lemma length_b64: "length (b64_encode s) = 4 * ((length s + 2) div 3)"
  by (induction s rule: b64_encode.induct) (simp_all add: Let_def, presburger)

lemma sign_event_sig:
  "sign_event C i e = Some e' \<Longrightarrow> \<exists>c. ev_sig e' = sig_prefix @ b64_encode (ed_sign C (private_key i) c)"
  by (auto simp: sign_event_def Let_def)

text \<open>
  A line fits when the author, room, id, kind and body are short: Ed25519 signatures have 64
  bytes, so the signature text has 96, and the hash text 71.
\<close>

definition short_sigs :: "crypto \<Rightarrow> identity \<Rightarrow> bool" where
  "short_sigs C i \<longleftrightarrow> (\<forall>m. length (ed_sign C (private_key i) m) = 64)"

lemma signed_fits:
  assumes "wf_event e" and "length (ev_prev e) \<le> 71" and "short_sigs C i"
    and "ev_sig e = sig_prefix @ b64_encode (ed_sign C (private_key i) c)"
    and "6 * (length (ev_author e) + length (ev_id e) + length (ev_kind e) + length (ev_room e) +
        length (ev_ts e)) + length (ev_body e) \<le> 64000"
  shows "fits e"
proof -
  have "length (ev_sig e) = 96"
    using assms(3) by (simp add: assms(4) short_sigs_def length_b64 sig_prefix_def)
  then show ?thesis
    using line_length[OF assms(1)] assms(2,5) by (simp add: fits_def text_size_def max_line_def)
qed

lemma publish_fits:
  assumes "wf_event ev" and "publish C i d ev = Inr (e, d')" and "sha_ok C" and "short_sigs C i"
    and "6 * (length (ev_author ev) + length (ev_id ev) + length (ev_kind ev) + length (ev_room ev) +
        length (ev_ts ev)) + length (ev_body ev) \<le> 64000"
  shows "fits e"
proof -
  note f = publish_fields[OF assms(1,2)] and p = publish_Inr[OF assms(1,2)]
  have "length (ev_prev e) \<le> 71"
    using assms(3) by (simp add: f(9) zero_hash_def compute_line_hash_def sha_ok_def)
  moreover obtain c where "ev_sig e = sig_prefix @ b64_encode (ed_sign C (private_key i) c)"
    using p sign_event_sig by blast
  ultimately show ?thesis using signed_fits[OF _ _ assms(4)] p assms(5) by (simp add: f(1-6))
qed


section \<open>Losing a segment\<close>

lemma deleted_publish:
  assumes "tails j (ev_author ev) = Some st" and "t_size st \<noteq> 0" and "segment d (ev_author ev) = None"
    and "wf_event ev"
  shows "\<exists>e d' j'. publish_on C i d j ev = (Inr (e, d'), j') \<and>
    wf_event e \<and> ev_seq e = 1 \<and> ev_prev e = [] \<and> ev_author e = ev_author ev \<and> ev_id e = ev_id ev \<and>
    ev_kind e = ev_kind ev \<and> ev_room e = ev_room ev \<and> ev_ts e = ev_ts ev \<and> ev_body e = ev_body ev \<and>
    (\<exists>c. ev_sig e = sig_prefix @ b64_encode (ed_sign C (private_key i) c)) \<and>
    d' = write_line d (ev_author ev) (line_text e @ [LF])"
proof -
  let ?j0 = "j\<lparr>tails := (tails j)(ev_author ev \<mapsto> zero_tail)\<rparr>"
  have t: "tail_stat_for C d j (ev_author ev) = (zero_tail, ?j0)"
    using assms(1-3) by (simp add: tail_stat_for_def)
  obtain ev1 j1 where p: "prepare_event C d j ev = (ev1, j1)" by fastforce
  then have ev1: "wf_event ev1" "ev1 = ev\<lparr>ev_lamport := ev_lamport ev1, ev_seq := 1, ev_prev := []\<rparr>"
    using assms(4) by (auto simp: prepare_event_def t Let_def zero_tail_def split: prod.splits)
  obtain ev2 s where ev2: "sign_event C i ev1 = Some ev2" "wf_event ev2"
    "ev2 = ev1\<lparr>ev_v := (if ev_v ev1 = 0 then current_version else ev_v ev1), ev_sig := s\<rparr>"
    using sign_wf[OF ev1(1)] sign_event_fields by blast
  obtain e3 j3 where st: "stamp_event d j1 ev2 = (e3, j3)" by fastforce
  then have e3: "wf_event e3" "e3 = ev2\<lparr>ev_lamport := ev_lamport e3\<rparr>"
    using ev2(2) by (auto simp: stamp_event_def Let_def split: if_splits prod.splits)
  have ne: "ev_seq ev2 \<noteq> 0" by (subst ev2(3), subst ev1(2)) simp
  then have "number_event C d j1 ev2 = (ev2, j1)" by (simp add: number_event_def)
  moreover have au: "ev_author e3 = ev_author ev"
    by (subst e3(2), subst ev2(3), subst ev1(2)) simp
  ultimately have pub: "publish_on C i d j ev = (Inr (e3, write_line d (ev_author ev) (line_text e3 @ [LF])),
      note_append C j3 e3 (line_text e3 @ [LF]))"
    using st e3(1) by (simp add: publish_on_def p ev2(1) append_event_def marshal_line_text)
  have "e3 = ev\<lparr>ev_lamport := ev_lamport e3, ev_seq := 1, ev_prev := [],
      ev_v := (if ev_v ev = 0 then current_version else ev_v ev), ev_sig := s\<rparr>"
  proof -
    have "ev_v ev1 = ev_v ev" by (subst ev1(2)) simp
    then show ?thesis using e3(2) ev2(3) ev1(2) by (cases ev; cases ev1; cases ev2; cases e3) simp
  qed
  moreover obtain c where "ev_sig ev2 = sig_prefix @ b64_encode (ed_sign C (private_key i) c)"
    using sign_event_sig[OF ev2(1)] by blast
  moreover have "ev_sig e3 = ev_sig ev2" by (subst e3(2)) simp
  ultimately show ?thesis using pub e3(1) by (cases e3; cases ev) auto
qed

lemma deleted_event:
  assumes "tails j (ev_author ev) = Some st" and "t_size st \<noteq> 0" and "segment d (ev_author ev) = None"
    and "wf_event ev" and "publish_on C i d j ev = (Inr (e, d'), j')"
  shows "wf_event e \<and> ev_seq e = 1 \<and> ev_prev e = [] \<and> ev_author e = ev_author ev \<and> ev_id e = ev_id ev \<and>
    ev_kind e = ev_kind ev \<and> ev_room e = ev_room ev \<and> ev_ts e = ev_ts ev \<and> ev_body e = ev_body ev \<and>
    (\<exists>c. ev_sig e = sig_prefix @ b64_encode (ed_sign C (private_key i) c)) \<and>
    d' = write_line d (ev_author ev) (line_text e @ [LF])"
  using deleted_publish[OF assms(1-4), of C i] assms(5) by auto

text \<open>
  When a segment an open journal has written to is deleted from the directory, the next
  event published on that journal starts the new segment with an empty previous hash where the
  chain check wants the zero hash: the journal it leaves does not verify.
\<close>
theorem deleted_segment_breaks_chain:
  assumes "tails j (ev_author ev) = Some st" and "t_size st \<noteq> 0" and "segment d (ev_author ev) = None"
    and "wf_event ev" and "publish_on C i d j ev = (Inr (e, d'), j')" and "fits e"
  shows "ev_prev e = [] \<and> verify_chain C d' (ev_author ev) = Inl (ChainBroken 1 zero_hash [])"
proof -
  note e = deleted_event[OF assms(1-5)]
  have none: "lines_of d (ev_author ev) = []" using assms(3) by (simp add: lines_of_def)
  note app = segment_append[OF intact_None[OF assms(3)] conjunct1[OF e] assms(6)]
  obtain s where s: "segment d' (ev_author ev) = Some s" using e by (simp add: write_line_segment)
  then have ls: "text_lines s = [line_text e]" using app(1) none e by (simp add: lines_of_def)
  moreover have "unmarshal_json_line (line_text e) = Some e" using unmarshal_line_text e by simp
  moreover have "scan_ok s" using app(3) s e by simp
  moreover have "zero_hash \<noteq> []" by (simp add: zero_hash_def)
  ultimately show ?thesis using s e by (simp add: verify_chain_def read_segment_def)
qed


section \<open>A journal in use\<close>

definition sample_note :: event where
  "sample_note =
     \<lparr>ev_v = 1, ev_id = ''ev2'', ev_room = ''rm1'', ev_author = member_id alice, ev_seq = 0, ev_prev = [],
      ev_lamport = 0, ev_ts = [], ev_kind = ''note.posted'', ev_body = marshal_strings [(''text'', ''hi'')],
      ev_sig = []\<rparr>"

lemma alice_id_length: "length (member_id alice) = 20"
  by (simp add: alice_def compute_member_id_def toy_crypto_def)

lemma alice_short_sigs: "short_sigs toy_crypto alice"
  by (simp add: short_sigs_def toy_crypto_def alice_def min_def)

lemma sample_body: "str_body [(''text'', ''hi'')]"
  by (simp add: str_body_def) code_simp

lemma sample_note_wf: "wf_event sample_note"
proof -
  have "list_all valid_utf8 [''ev2'', ''rm1'', member_id alice, [], [], ''note.posted'', []]"
    by (simp add: alice_def compute_member_id_utf8) code_simp
  then show ?thesis
    using str_body_wf_event_body[OF sample_body] by (auto simp: sample_note_def wf_event_def)
qed

lemma sample_note_small: "length (ev_body sample_note) \<le> 100"
  by (simp add: sample_note_def) code_simp

lemma sample_note_fits:
  assumes "publish toy_crypto alice d sample_note = Inr (e, d')"
  shows "fits e"
proof (rule publish_fits[OF sample_note_wf assms toy_sha_ok alice_short_sigs])
  show "6 * (length (ev_author sample_note) + length (ev_id sample_note) + length (ev_kind sample_note) +
      length (ev_room sample_note) + length (ev_ts sample_note)) + length (ev_body sample_note) \<le> 64000"
    using sample_note_small alice_id_length by (simp add: sample_note_def)
qed

lemma lines_of_empty [simp]: "lines_of [] a = []"
  by (simp add: lines_of_def segment_def)

lemma empty_dir [simp]: "wf_dir []" "intact C [] a" "merge_all [] = Inr []" "events_of [] a = []"
  by (simp_all add: wf_dir_def intact_None segment_def merge_all_def read_all_segments_def
      segment_authors_def merge_def sort_events_def events_of_def read_segment_def)

lemma sample_author [simp]: "ev_author sample_note = member_id alice"
  by (simp add: sample_note_def)

theorem publish_extends_witness:
  "\<exists>e d'. publish toy_crypto alice [] sample_note = Inr (e, d') \<and>
     verify_chain toy_crypto d' (member_id alice) = Inr () \<and> read_segment d' (member_id alice) = Inr [e]"
proof -
  obtain e d' where p: "publish toy_crypto alice [] sample_note = Inr (e, d')"
    using publish_eq[OF sample_note_wf] by blast
  moreover have "length (line_text e) \<le> max_line" using sample_note_fits[OF p] by (simp add: fits_def)
  ultimately show ?thesis using publish_extends[OF sample_note_wf empty_dir(2) p] by auto
qed

theorem publish_merged_last_witness:
  "\<exists>e d'. publish toy_crypto alice [] sample_note = Inr (e, d') \<and> merge_all d' = Inr [e]"
proof -
  obtain e d' where p: "publish toy_crypto alice [] sample_note = Inr (e, d')"
    using publish_eq[OF sample_note_wf] by blast
  have "max_lamport_of [] \<noteq> - 1" by (simp add: max_lamport_of_def)
  with publish_merged_last[OF empty_dir(1) sample_note_wf empty_dir(2,3) _ p sample_note_fits[OF p]] p
  show ?thesis by auto
qed

theorem merge_order_independent_witness:
  "merge [(''a'', [sample_note]), (''b'', [sample_created])] =
     merge [(''b'', [sample_created]), (''a'', [sample_note])]"
proof -
  have "event_key_of sample_note \<noteq> event_key_of sample_created"
  proof -
    obtain s where s: "sample_created =
       \<lparr>ev_v = 1, ev_id = ''ev1'', ev_room = ''rm1'', ev_author = member_id alice, ev_seq = 1, ev_prev = [],
        ev_lamport = 1, ev_ts = [], ev_kind = ''room.created'',
        ev_body = created_body ''lab'' (public_key alice), ev_sig = s\<rparr>"
      using sample_created_signed by blast
    show ?thesis by (simp add: s event_key_of_def sample_note_def)
  qed
  then show ?thesis
    by (intro conjunct1[OF merge_order_independent]) auto
qed

text \<open>The same segment in a directory with another file.\<close>

theorem tail_hash_binds_history_witness:
  "\<exists>e d'. publish toy_crypto alice [] sample_note = Inr (e, d') \<and>
     (lines_of d' (member_id alice) = lines_of (put_file ''notes.txt'' ''draft'' d') (member_id alice) \<or>
      sha_collision toy_crypto)"
proof -
  obtain e d' where p: "publish toy_crypto alice [] sample_note = Inr (e, d')"
    using publish_eq[OF sample_note_wf] by blast
  note x = publish_intact[OF sample_note_wf empty_dir(2) p sample_note_fits[OF p]]
  let ?d = "put_file ''notes.txt'' ''draft'' d'"
  have "segment_path (member_id alice) \<noteq> ''notes.txt''"
    by (simp add: segment_path_def alice_def compute_member_id_def)
  then have same: "segment ?d (member_id alice) = segment d' (member_id alice)" by (simp add: segment_def)
  have "lines_of d' (member_id alice) = [line_text e]"
    using x by auto
  moreover have "lines_of ?d (member_id alice) = lines_of d' (member_id alice)"
    "intact toy_crypto ?d (member_id alice) = intact toy_crypto d' (member_id alice)"
    by (simp_all add: lines_of_def same intact_def verify_chain_def read_segment_def)
  ultimately show ?thesis
    using p tail_hash_binds_history[of toy_crypto d' "member_id alice" ?d] x same by auto
qed

text \<open>Two notes of one author: the second is numbered from the cache.\<close>

theorem cache_transparent_witness:
  "\<exists>e1 e2 d'. publish_each toy_crypto [] [(alice, sample_note), (alice, sample_note)] = Inr ([e1, e2], d') \<and>
     fst (publish_open toy_crypto [] new_journal [(alice, sample_note), (alice, sample_note)]) = Inr ([e1, e2], d')"
proof -
  obtain e1 d1 where p: "publish toy_crypto alice [] sample_note = Inr (e1, d1)"
    using publish_eq[OF sample_note_wf] by blast
  obtain e2 d2 where q: "publish toy_crypto alice d1 sample_note = Inr (e2, d2)"
    using publish_eq[OF sample_note_wf] by blast
  have each: "publish_each toy_crypto [] [(alice, sample_note), (alice, sample_note)] = Inr ([e1, e2], d2)"
    by (simp add: p q)
  moreover have "list_all (\<lambda>e. length (line_text e) \<le> max_line) [e1, e2]"
    using sample_note_fits[OF p] sample_note_fits[OF q] by (simp add: fits_def)
  moreover have "list_all (\<lambda>(i, ev). wf_event ev \<and> intact toy_crypto [] (ev_author ev))
      [(alice, sample_note), (alice, sample_note)]"
    using sample_note_wf by simp
  ultimately show ?thesis using cache_transparent[OF empty_dir(1)] by blast
qed

theorem deleted_segment_breaks_chain_witness:
  "\<exists>j e d' j'. publish_on toy_crypto alice [] j sample_note = (Inr (e, d'), j') \<and>
     verify_chain toy_crypto d' (member_id alice) = Inl (ChainBroken 1 zero_hash [])"
proof -
  obtain e1 j0 st where j0: "tails j0 (member_id alice) = Some st" and
    j1: "snd (publish_on toy_crypto alice [] new_journal sample_note) = note_append toy_crypto j0 e1 (line_text e1 @ [LF])"
    and p1: "publish toy_crypto alice [] sample_note = Inr (e1, write_line [] (member_id alice) (line_text e1 @ [LF]))"
    using publish_on_coherent(2)[OF coherent_new sample_note_wf, of toy_crypto alice "[]"] by auto
  let ?j = "snd (publish_on toy_crypto alice [] new_journal sample_note)"
  have a1: "ev_author e1 = member_id alice" using publish_fields(1)[OF sample_note_wf p1] by simp
  obtain st1 where st1: "tails ?j (ev_author sample_note) = Some st1" "t_size st1 \<noteq> 0"
    using note_append_tail[of j0 e1 st toy_crypto "line_text e1"] j0 by (simp add: j1 a1)
  have seg: "segment [] (ev_author sample_note) = None" by (simp add: segment_def)
  obtain e d' j' where r': "publish_on toy_crypto alice [] ?j sample_note = (Inr (e, d'), j')"
    using deleted_publish[OF st1 seg sample_note_wf, of toy_crypto alice] by blast
  note de = deleted_event[OF st1 seg sample_note_wf r']
  then obtain c where c: "ev_sig e = sig_prefix @ b64_encode (ed_sign toy_crypto (private_key alice) c)" by blast
  have "fits e"
    by (rule signed_fits[OF _ _ alice_short_sigs c])
      (use de sample_note_small alice_id_length in \<open>simp_all add: sample_note_def\<close>)
  with deleted_segment_breaks_chain[OF st1 seg sample_note_wf r'] r' show ?thesis by auto
qed

text \<open>
  C32: an event survives its line: marshalling gives one line without a line break inside, which
  unmarshals to the event and is the line of no other event; and the bytes that are signed
  determine the event up to its signature.
\<close>
theorem event_codec_roundtrip:
  assumes "wf_event e" and "wf_event e'"
  shows "(\<exists>l. marshal_json_line e = Some (l @ [LF]) \<and> LF \<notin> set l \<and> unmarshal_json_line l = Some e \<and>
      (marshal_json_line e' = Some (l @ [LF]) \<longrightarrow> e' = e)) \<and>
    (canonical_bytes e = canonical_bytes e' \<longrightarrow> e\<lparr>ev_sig := s\<rparr> = e'\<lparr>ev_sig := s\<rparr>)"
proof (intro conjI impI exI[of _ "line_text e"])
  show "marshal_json_line e = Some (line_text e @ [LF])" by (rule marshal_line_text[OF assms(1)])
  show "unmarshal_json_line (line_text e) = Some e" by (rule unmarshal_line_text[OF assms(1)])
  show "e' = e" if "marshal_json_line e' = Some (line_text e @ [LF])"
    using that marshal_line_text[OF assms(2)] line_text_inj[OF assms] by simp
  show "e\<lparr>ev_sig := s\<rparr> = e'\<lparr>ev_sig := s\<rparr>" if "canonical_bytes e = canonical_bytes e'"
    by (rule canonical_binds[OF assms that])
  show "LF \<notin> set (line_text e)" using line_text_plain[of e] printable_no_break[of "line_text e"] assms(1) by auto
qed

lemma event_codec_roundtrip_witness:
  "\<exists>l. marshal_json_line sample_note = Some (l @ [LF]) \<and> unmarshal_json_line l = Some sample_note"
  using event_codec_roundtrip[OF sample_note_wf sample_note_wf] by blast

end
