(* ===== verification/Verifier.thy ===== *)
theory Verifier
  imports Journal "HOL-Library.Sublist"
begin

text \<open>
  \<open>internal/room/journal/verifier.go\<close> and \<open>log.go\<close>: the check of a whole journal (chains and
  forks per segment, then signatures and membership rules over the merged stream), its report,
  and the log query that leaves out what the report names as invalid.  The message text of a
  finding is not kept.
\<close>

section \<open>Findings\<close>

datatype finding_code =
    SignatureInvalid | ChainBrokenCode | SeqMismatchCode | ForkDetected | AgentApprovalCode
  | UnknownAuthor | UnauthorizedOwnerCode

record finding =
  f_code :: finding_code
  f_author :: string
  f_event :: string
  f_events :: "string list"

record report =
  valid :: bool
  findings :: "finding list"

definition empty_report :: report where
  "empty_report = \<lparr>valid = True, findings = []\<rparr>"

definition add_finding :: "finding \<Rightarrow> report \<Rightarrow> report" where
  "add_finding f r = \<lparr>valid = False, findings = findings r @ [f]\<rparr>"

definition finding_of :: "finding_code \<Rightarrow> string \<Rightarrow> string \<Rightarrow> finding" where
  "finding_of c author i = \<lparr>f_code = c, f_author = author, f_event = i, f_events = []\<rparr>"

text \<open>\<open>report_if b f r\<close>: report \<open>f\<close> when the check \<open>b\<close> fails.\<close>

definition report_if :: "bool \<Rightarrow> finding \<Rightarrow> report \<Rightarrow> report" where
  "report_if bad f r = (if bad then add_finding f r else r)"


section \<open>Segments\<close>

text \<open>
  One line of a segment; the loop carries the expected hash and number and the first event id
  seen for each number.
\<close>

record scan_state =
  sc_prev :: string
  sc_next :: u64
  sc_seen :: "u64 \<rightharpoonup> string"

definition scan_start :: scan_state where
  "scan_start = \<lparr>sc_prev = zero_hash, sc_next = 1, sc_seen = Map.empty\<rparr>"

definition verify_line :: "crypto \<Rightarrow> string \<Rightarrow> bytes \<times> event \<Rightarrow> scan_state \<times> report \<Rightarrow> scan_state \<times> report" where
  "verify_line C author le sr =
     (let line = fst le; ev = snd le; sc = fst sr;
          r1 = report_if (ev_seq ev \<noteq> sc_next sc) (finding_of SeqMismatchCode author (ev_id ev)) (snd sr);
          r2 = report_if (ev_prev ev \<noteq> sc_prev sc) (finding_of ChainBrokenCode author (ev_id ev)) r1;
          r3 = (case sc_seen sc (ev_seq ev) of
                  None \<Rightarrow> r2
                | Some i \<Rightarrow> report_if (i \<noteq> ev_id ev)
                    \<lparr>f_code = ForkDetected, f_author = author, f_event = [], f_events = [i, ev_id ev]\<rparr> r2);
          seen = (case sc_seen sc (ev_seq ev) of
                  None \<Rightarrow> (sc_seen sc)(ev_seq ev \<mapsto> ev_id ev)
                | Some _ \<Rightarrow> sc_seen sc)
      in (\<lparr>sc_prev = compute_line_hash C line, sc_next = sc_next sc + 1, sc_seen = seen\<rparr>, r3))"

definition verify_segment :: "crypto \<Rightarrow> dir \<Rightarrow> string \<times> event list \<Rightarrow> report \<Rightarrow> report" where
  "verify_segment C d ae r =
     (case segment d (fst ae) of
        None \<Rightarrow> r
      | Some s \<Rightarrow>
          if \<not> scan_ok s then add_finding (finding_of ChainBrokenCode (fst ae) []) r
          else snd (fold (verify_line C (fst ae)) (zip (text_lines s) (snd ae)) (scan_start, r)))"


section \<open>The merged stream\<close>

definition sig_bad :: "crypto \<Rightarrow> member \<Rightarrow> event \<Rightarrow> bool" where
  "sig_bad C m e = (\<not> is_ok (verify_signature C (m_key m) e))"

definition verify_created :: "crypto \<Rightarrow> event \<Rightarrow> mstate \<times> report \<Rightarrow> mstate \<times> report" where
  "verify_created C e sr =
     (let (s, r) = (case apply_event (fst sr) e of
            Inl _ \<Rightarrow> (fst sr, add_finding (finding_of SignatureInvalid [] (ev_id e)) (snd sr))
          | Inr s' \<Rightarrow> (s', snd sr))
      in case mems s (ev_author e) of
           None \<Rightarrow> (s, r)
         | Some m \<Rightarrow> (s, report_if (sig_bad C m e) (finding_of SignatureInvalid [] (ev_id e)) r))"

definition verify_other :: "crypto \<Rightarrow> event \<Rightarrow> mstate \<times> report \<Rightarrow> mstate \<times> report" where
  "verify_other C e sr =
     (case mems (fst sr) (ev_author e) of
        None \<Rightarrow> (fst sr, add_finding (finding_of UnknownAuthor (ev_author e) (ev_id e)) (snd sr))
      | Some m \<Rightarrow>
          (let r = report_if (sig_bad C m e) (finding_of SignatureInvalid (ev_author e) (ev_id e)) (snd sr)
           in case apply_event (fst sr) e of
                Inr s' \<Rightarrow> (s', r)
              | Inl err \<Rightarrow>
                  (fst sr, add_finding (finding_of
                     (if err = AgentApprovalForbidden then AgentApprovalCode else UnauthorizedOwnerCode)
                     (ev_author e) (ev_id e)) r)))"

definition verify_event :: "crypto \<Rightarrow> event \<Rightarrow> mstate \<times> report \<Rightarrow> mstate \<times> report" where
  "verify_event C e sr = (if kindof e = RoomCreated then verify_created C e sr else verify_other C e sr)"

definition verify :: "crypto \<Rightarrow> dir \<Rightarrow> journal_error + report" where
  "verify C d =
     bind_err (read_all_segments d) (\<lambda>segs.
       Inr (snd (fold (verify_event C) (merge segs)
         (new_state, fold (verify_segment C d) segs empty_report))))"


section \<open>The log\<close>

record log_filter =
  lf_since :: string
  lf_until :: string
  lf_kind :: string
  lf_author :: string
  lf_run :: string
  lf_limit :: int

record log_result =
  lr_events :: "event list"
  lr_invalid :: nat

definition invalid_ids :: "report \<Rightarrow> string list" where
  "invalid_ids r = remdups (filter (\<lambda>i. i \<noteq> [])
     (map f_event (filter (\<lambda>f. f_code f = SignatureInvalid \<or> f_code f = ChainBrokenCode) (findings r))))"

text \<open>\<open>bodyMap[name].(string)\<close>: the last member of that exact name, if it is a string.\<close>

definition any_string :: "(string \<times> json) list \<Rightarrow> string \<Rightarrow> string option" where
  "any_string ms name = (case map_of (rev ms) name of Some (JStr s) \<Rightarrow> Some s | _ \<Rightarrow> None)"

definition run_matches :: "string \<Rightarrow> event \<Rightarrow> bool" where
  "run_matches run e =
     (case body_members (ev_body e) of
        None \<Rightarrow> False
      | Some ms \<Rightarrow>
          (let i = (case any_string ms ''run_id'' of None \<Rightarrow> [] | Some s \<Rightarrow> s);
               j = (if i = [] then (case any_string ms ''run'' of None \<Rightarrow> [] | Some s \<Rightarrow> s) else i)
           in j = run))"

definition keep_event :: "string list \<Rightarrow> log_filter \<Rightarrow> event \<Rightarrow> bool" where
  "keep_event bad f e \<longleftrightarrow>
     ev_id e \<notin> set bad \<and>
     \<not> (lf_since f \<noteq> [] \<and> ev_ts e < lf_since f) \<and>
     \<not> (lf_until f \<noteq> [] \<and> ev_ts e > lf_until f) \<and>
     \<not> (lf_kind f \<noteq> [] \<and> ev_kind e \<noteq> lf_kind f) \<and>
     \<not> (lf_author f \<noteq> [] \<and> ev_author e \<noteq> lf_author f \<and> \<not> equal_fold (ev_author e) (lf_author f)) \<and>
     (lf_run f = [] \<or> run_matches (lf_run f) e)"

definition query_log :: "crypto \<Rightarrow> dir \<Rightarrow> log_filter \<Rightarrow> journal_error + log_result" where
  "query_log C d f =
     bind_err (verify C d) (\<lambda>report.
       bind_err (merge_all d) (\<lambda>merged.
         let bad = invalid_ids report;
             es = filter (keep_event bad f) merged;
             es' = (if 0 < lf_limit f \<and> lf_limit f < int (length es) then take (nat (lf_limit f)) es else es)
         in Inr \<lparr>lr_events = es', lr_invalid = length bad\<rparr>))"

definition format_event_human :: "event \<Rightarrow> string" where
  "format_event_human e =
     (let summary = (case body_members (ev_body e) of
            None \<Rightarrow> ev_body e
          | Some ms \<Rightarrow>
              (case any_string ms ''text'' of
                 Some t \<Rightarrow> t
               | None \<Rightarrow> (case any_string ms ''name'' of Some n \<Rightarrow> n | None \<Rightarrow> ev_body e)))
      in ''['' @ ev_ts e @ ''] '' @ ev_author e @ '' ('' @ ev_kind e @ ''): '' @ summary)"


section \<open>What a valid report means\<close>

text \<open>The stream a verifier accepts: each event by a known author, signed, and allowed.\<close>

inductive accepts :: "crypto \<Rightarrow> mstate \<Rightarrow> event list \<Rightarrow> mstate \<Rightarrow> bool" for C where
  accepts_none: "accepts C s [] s"
| accepts_created: "kindof e = RoomCreated \<Longrightarrow> apply_event s e = Inr s' \<Longrightarrow> mems s' (ev_author e) = Some m \<Longrightarrow>
    verify_signature C (m_key m) e = Inr () \<Longrightarrow> accepts C s' es t \<Longrightarrow> accepts C s (e # es) t"
| accepts_other: "kindof e \<noteq> RoomCreated \<Longrightarrow> mems s (ev_author e) = Some m \<Longrightarrow>
    verify_signature C (m_key m) e = Inr () \<Longrightarrow> apply_event s e = Inr s' \<Longrightarrow> accepts C s' es t \<Longrightarrow>
    accepts C s (e # es) t"

inductive_simps accepts_Nil [simp]: "accepts C s [] t"
inductive_simps accepts_Cons: "accepts C s (e # es) t"

code_pred (modes: i \<Rightarrow> i \<Rightarrow> i \<Rightarrow> o \<Rightarrow> bool) accepts .

lemma add_finding_valid [simp]: "valid (add_finding f r) = False"
  by (simp add: add_finding_def)

lemma report_if_valid [simp]: "valid (report_if b f r) \<longleftrightarrow> valid r \<and> \<not> b"
  by (simp add: report_if_def)

lemma verify_line_valid:
  "valid (snd (verify_line C a (l, e) (sc, r))) \<longleftrightarrow>
     valid r \<and> ev_seq e = sc_next sc \<and> ev_prev e = sc_prev sc \<and>
     (\<forall>i. sc_seen sc (ev_seq e) = Some i \<longrightarrow> i = ev_id e)"
  by (auto simp: verify_line_def Let_def split: option.splits)

lemma verify_line_next:
  "fst (verify_line C a (l, e) (sc, r)) =
     \<lparr>sc_prev = compute_line_hash C l, sc_next = sc_next sc + 1,
      sc_seen = (case sc_seen sc (ev_seq e) of None \<Rightarrow> (sc_seen sc)(ev_seq e \<mapsto> ev_id e) | Some _ \<Rightarrow> sc_seen sc)\<rparr>"
  by (simp add: verify_line_def Let_def)

lemma fold_verify_line_invalid: "\<not> valid (snd sr) \<Longrightarrow> \<not> valid (snd (fold (verify_line C a) xs sr))"
proof (induction xs arbitrary: sr)
  case (Cons x xs)
  obtain l e where x: "x = (l, e)" by (cases x)
  obtain sc r where sr: "sr = (sc, r)" by (cases sr)
  have "\<not> valid (snd (verify_line C a x sr))"
    using Cons.prems by (simp add: x sr verify_line_valid)
  then show ?case using Cons.IH by simp
qed simp

text \<open>The numbers below \<open>n\<close> that a scan has passed, as the code counts them.\<close>

definition seen_below :: "nat \<Rightarrow> (u64 \<rightharpoonup> string) \<Rightarrow> bool" where
  "seen_below n seen \<longleftrightarrow> (\<forall>w \<in> dom seen. \<exists>k < n. w = of_nat k)"

lemma fold_verify_line:
  assumes "sc_next sc = of_nat n" and "seen_below n (sc_seen sc)" and "n + length xs \<le> 2 ^ 64"
  shows "valid (snd (fold (verify_line C a) xs (sc, r))) \<longleftrightarrow>
    valid r \<and> check_chain C (sc_prev sc) (sc_next sc) xs = Inr ()"
  using assms
proof (induction xs arbitrary: sc r n)
  case (Cons x xs)
  obtain l e where x: "x = (l, e)" by (cases x)
  obtain sc' r' where step: "verify_line C a (l, e) (sc, r) = (sc', r')" by fastforce
  have sc': "sc' = \<lparr>sc_prev = compute_line_hash C l, sc_next = sc_next sc + 1,
      sc_seen = (case sc_seen sc (ev_seq e) of None \<Rightarrow> (sc_seen sc)(ev_seq e \<mapsto> ev_id e) | Some _ \<Rightarrow> sc_seen sc)\<rparr>"
    using step verify_line_next[of C a l e sc r] by simp
  have v: "valid r' \<longleftrightarrow> valid r \<and> ev_seq e = sc_next sc \<and> ev_prev e = sc_prev sc \<and>
     (\<forall>i. sc_seen sc (ev_seq e) = Some i \<longrightarrow> i = ev_id e)"
    using step verify_line_valid[of C a l e sc r] by simp
  have fresh: "sc_seen sc (of_nat n) = None"
  proof (rule ccontr)
    assume "sc_seen sc (of_nat n) \<noteq> None"
    then obtain k where k: "k < n" "(of_nat n :: u64) = of_nat k"
      using Cons.prems(2) by (fastforce simp: seen_below_def dom_def)
    have "n < 2 ^ 64" using Cons.prems(3) by simp
    with k show False using of_nat_inj64[of n k] by simp
  qed
  show ?case
  proof (cases "ev_seq e = sc_next sc \<and> ev_prev e = sc_prev sc")
    case True
    then have eq: "sc_prev sc' = compute_line_hash C l" "sc_next sc' = of_nat (Suc n)"
        "sc_seen sc' = (sc_seen sc)(of_nat n \<mapsto> ev_id e)"
      using fresh Cons.prems(1) by (simp_all add: sc')
    have "seen_below (Suc n) (sc_seen sc')"
      unfolding eq using Cons.prems(2) by (fastforce simp: seen_below_def less_Suc_eq)
    then have "valid (snd (fold (verify_line C a) xs (sc', r'))) \<longleftrightarrow>
        valid r' \<and> check_chain C (sc_prev sc') (sc_next sc') xs = Inr ()"
      using Cons.prems(3) eq(2) by (intro Cons.IH[of sc' "Suc n"]) simp_all
    then show ?thesis using True v fresh Cons.prems(1) by (simp add: x step sc')
  next
    case False
    then have "\<not> valid (snd (sc', r'))" using v by auto
    with False show ?thesis
      using fold_verify_line_invalid[of "(sc', r')" C a xs] by (auto simp: step x)
  qed
qed simp

lemma verify_segment_valid:
  assumes "read_segment d a = Inr es" and "length (lines_of d a) < 2 ^ 64"
  shows "valid (verify_segment C d (a, es) r) \<longleftrightarrow> valid r \<and> verify_chain C d a = Inr ()"
proof (cases "segment d a")
  case None
  then show ?thesis using assms(1) by (simp add: verify_segment_def verify_chain_def)
next
  case (Some s)
  have "length (zip (text_lines s) es) \<le> length (lines_of d a)" using Some by (simp add: lines_of_def)
  then have "valid (snd (fold (verify_line C a) (zip (text_lines s) es) (scan_start, r))) \<longleftrightarrow>
      valid r \<and> check_chain C zero_hash 1 (zip (text_lines s) es) = Inr ()"
    using fold_verify_line[of scan_start 1 "zip (text_lines s) es" C a r] assms(2)
    by (simp add: scan_start_def seen_below_def)
  then show ?thesis using Some assms(1) by (simp add: verify_segment_def verify_chain_def)
qed

lemma fold_verify_segment:
  assumes "\<And>a es. (a, es) \<in> set segs \<Longrightarrow> read_segment d a = Inr es \<and> length (lines_of d a) < 2 ^ 64"
  shows "valid (fold (verify_segment C d) segs r) \<longleftrightarrow>
    valid r \<and> (\<forall>a \<in> fst ` set segs. verify_chain C d a = Inr ())"
  using assms
proof (induction segs arbitrary: r)
  case (Cons x segs)
  obtain a es where x: "x = (a, es)" by (cases x)
  have "valid (verify_segment C d x r) \<longleftrightarrow> valid r \<and> verify_chain C d a = Inr ()"
    using Cons.prems[of a es] by (simp add: x verify_segment_valid)
  then show ?case using Cons.IH[of "verify_segment C d x r"] Cons.prems by (auto simp: x)
qed simp

lemma is_ok_unit: "is_ok (v :: 'e + unit) \<longleftrightarrow> v = Inr ()"
  by (cases v) auto

lemma room_created_author:
  "kindof e = RoomCreated \<Longrightarrow> apply_event s e = Inr s' \<Longrightarrow> mems s' (ev_author e) \<noteq> None"
  by (auto simp: apply_event_kinds apply_room_created_def split: if_splits option.splits list.splits)

lemma verify_event_valid:
  "valid (snd (verify_event C e (s, r))) \<longleftrightarrow> valid r \<and> (\<exists>t. accepts C s [e] t)"
  "accepts C s [e] t \<Longrightarrow> fst (verify_event C e (s, r)) = t"
  by (auto simp: verify_event_def verify_created_def verify_other_def accepts_Cons sig_bad_def is_ok_unit
      Let_def dest: room_created_author split: option.splits sum.splits)

lemma fold_verify_event:
  "valid (snd (fold (verify_event C) es (s, r))) \<longleftrightarrow> valid r \<and> (\<exists>t. accepts C s es t)"
proof (induction es arbitrary: s r)
  case (Cons e es)
  obtain s' r' where step: "verify_event C e (s, r) = (s', r')" by fastforce
  have v: "valid r' \<longleftrightarrow> valid r \<and> (\<exists>t. accepts C s [e] t)" and
    s': "\<And>t. accepts C s [e] t \<Longrightarrow> s' = t"
    using verify_event_valid(1)[of C e s r] verify_event_valid(2)[of C s e _ r] step by auto
  have "accepts C s (e # es) t \<longleftrightarrow> (\<exists>u. accepts C s [e] u \<and> accepts C u es t)" for t
    by (auto simp: accepts_Cons)
  then have "(\<exists>t. accepts C s (e # es) t) \<longleftrightarrow> (\<exists>t. accepts C s [e] t) \<and> (\<exists>t. accepts C s' es t)"
    using s' by blast
  then show ?case using Cons.IH[of s' r'] v by (simp add: step)
next
  case Nil
  show ?case using accepts_none by fastforce
qed

lemma verify_valid:
  assumes "verify C d = Inr r" and "\<And>a. length (lines_of d a) < 2 ^ 64"
  shows "valid r \<longleftrightarrow>
    (\<forall>a. verify_chain C d a = Inr ()) \<and> (\<exists>es t. merge_all d = Inr es \<and> accepts C new_state es t)"
proof -
  obtain segs where segs: "read_all_segments d = Inr segs"
    and r: "r = snd (fold (verify_event C) (merge segs) (new_state, fold (verify_segment C d) segs empty_report))"
    using assms(1) by (auto simp: verify_def bind_err_Inr)
  have ev: "segs = map (\<lambda>a. (a, events_of d a)) (segment_authors d)"
    "\<forall>a \<in> set (segment_authors d). read_segment d a = Inr (events_of d a)"
    using read_segments_Inr[of d "segment_authors d" segs] segs by (simp_all add: read_all_segments_def)
  have chain: "valid (fold (verify_segment C d) segs empty_report) \<longleftrightarrow>
      (\<forall>a \<in> fst ` set segs. verify_chain C d a = Inr ())"
    by (subst fold_verify_segment) (use ev assms(2) in \<open>auto simp: empty_report_def\<close>)
  have "verify_chain C d a = Inr ()" if "a \<notin> set (segment_authors d)" for a
    using that by (simp add: segment_authors_iff verify_chain_def read_segment_def)
  then have "(\<forall>a \<in> fst ` set segs. verify_chain C d a = Inr ()) \<longleftrightarrow> (\<forall>a. verify_chain C d a = Inr ())"
    by (auto simp: ev(1) image_iff)
  then show ?thesis using chain segs by (simp add: r fold_verify_event merge_all_Inr)
qed

text \<open>
  C4: the verifier finds nothing exactly when every author's segment passes its chain check and
  the merged stream is accepted: each event's author is a member at that point, its signature
  verifies under the key held for the author, and the membership rules allow it.
\<close>
theorem verify_valid_iff:
  assumes "verify C d = Inr r" and "\<And>a. length (lines_of d a) < 2 ^ 64"
  shows "valid r \<longleftrightarrow>
    (\<forall>a. verify_chain C d a = Inr ()) \<and> (\<exists>es t. merge_all d = Inr es \<and> accepts C new_state es t)"
  by (rule verify_valid[OF assms])

lemma accepts_append:
  "accepts C s (xs @ ys) t \<longleftrightarrow> (\<exists>u. accepts C s xs u \<and> accepts C u ys t)"
  by (induction xs arbitrary: s) (auto simp: accepts_Cons)

lemma accepts_fun: "accepts C s es t \<Longrightarrow> accepts C s es u \<Longrightarrow> t = u"
proof (induction arbitrary: u rule: accepts.induct)
  case (accepts_none s)
  then show ?case by simp
next
  case (accepts_created e s s' m es t)
  then show ?case by (auto simp: accepts_Cons)
next
  case (accepts_other e s m s' es t)
  then show ?case by (auto simp: accepts_Cons)
qed

lemma apply_event_cong:
  assumes "ev_kind e = ev_kind f" and "ev_author e = ev_author f" and "ev_body e = ev_body f"
  shows "apply_event s e = apply_event s f"
  by (simp only: apply_event_def apply_defs assms)

lemma accepts_event_key:
  "accepts C s [e] t \<Longrightarrow> \<exists>m. mems (if kindof e = RoomCreated then t else s) (ev_author e) = Some m \<and>
     verify_signature C (m_key m) e = Inr () \<and> apply_event s e = Inr t"
  by (auto simp: accepts_Cons)

text \<open>
  in a journal the verifier finds valid, every run approval and checkpoint resolution was
  signed by someone who at that point was a member and neither an agent nor an observer.
\<close>
theorem valid_approvals_by_humans:
  assumes "verify C d = Inr r" and "valid r" and "\<And>a. length (lines_of d a) < 2 ^ 64"
    and "merge_all d = Inr (pre @ e # post)" and "kindof e \<in> {RunApproved, CheckpointResolved}"
  shows "\<exists>s m. accepts C new_state pre s \<and> mems s (ev_author e) = Some m \<and>
    m_role m \<noteq> RoleAgent \<and> m_role m \<noteq> RoleObserver \<and> verify_signature C (m_key m) e = Inr ()"
proof -
  obtain t where "accepts C new_state (pre @ [e] @ post) t"
    using verify_valid[OF assms(1,3)] assms(2,4) by auto
  then obtain s u where s: "accepts C new_state pre s" "accepts C s [e] u"
    unfolding accepts_append by blast
  from accepts_event_key[OF s(2)] obtain m where m: "mems s (ev_author e) = Some m"
    "verify_signature C (m_key m) e = Inr ()" "apply_event s e = Inr u"
    using assms(5) by (auto split: if_splits)
  then have "m_role m \<noteq> RoleAgent \<and> m_role m \<noteq> RoleObserver"
    using assms(5) by (auto simp: apply_event_kinds check_approver_def split: if_splits)
  with s(1) m show ?thesis by blast
qed

lemma verify_total: "merge_all d = Inr es \<Longrightarrow> \<exists>r. verify C d = Inr r"
  by (auto simp: merge_all_Inr verify_def)

lemma append_keeps_valid:
  assumes "wf_dir d" and "verify C d = Inr r" and "valid r"
    and "\<And>a. length (lines_of d a) < 2 ^ 64 - 1"
    and "intact C d (ev_author e)" and "merge_all d = Inr es" and "accepts C new_state es s"
    and "accepts C s [e] s'" and "wf_event e" and "fits e"
    and "ev_seq e = of_nat (length (lines_of d (ev_author e))) + 1"
    and "ev_prev e = (if lines_of d (ev_author e) = [] then zero_hash
                      else compute_line_hash C (last (lines_of d (ev_author e))))"
    and "\<And>x. x \<in> set es \<Longrightarrow> ev_lamport x < ev_lamport e"
    and "d' = write_line d (ev_author e) (line_text e @ [LF])"
  shows "\<exists>r'. verify C d' = Inr r' \<and> valid r' \<and> merge_all d' = Inr (es @ [e]) \<and>
    accepts C new_state (es @ [e]) s' \<and> wf_dir d' \<and> intact C d' (ev_author e)"
proof -
  have merged: "merge_all d' = Inr (es @ [e])" and wf: "wf_dir d'"
    using append_merged_last[OF assms(1,9,5,10,11,12,6,13,14)] by simp_all
  have acc: "accepts C new_state (es @ [e]) s'" using assms(7,8) by (auto simp: accepts_append)
  have i: "intact C d' (ev_author e)"
    using intact_append[OF assms(5,9,10,11,12)] by (simp add: assms(14))
  have small: "length (lines_of d a) < 2 ^ 64" for a using assms(4)[of a] by simp
  have lines: "length (lines_of d' a) < 2 ^ 64" for a
    using segment_append(1)[OF assms(5,9,10)] assms(4)[of a]
    by (cases "a = ev_author e") (simp_all add: assms(14) lines_of_def write_line_segment)
  have "verify_chain C d' a = Inr ()" for a
  proof (cases "a = ev_author e")
    case True
    then show ?thesis using i by (simp add: intact_def)
  next
    case False
    then have "segment d' a = segment d a" by (simp add: assms(14) write_line_segment)
    moreover have "verify_chain C d a = Inr ()" using verify_valid[OF assms(2) small] assms(3) by simp
    ultimately show ?thesis by (simp add: verify_chain_def read_segment_def)
  qed
  moreover obtain r' where r': "verify C d' = Inr r'" using verify_total[OF merged] by blast
  ultimately have "valid r'" using verify_valid[OF r' lines] merged acc by blast
  with r' merged acc wf i show ?thesis by blast
qed

lemma publish_valid:
  assumes "wf_dir d" and "verify C d = Inr r" and "valid r"
    and "\<And>a. length (lines_of d a) < 2 ^ 64 - 1"
    and "intact C d (ev_author ev)" and "merge_all d = Inr es" and "max_lamport_of es \<noteq> - 1"
    and "accepts C new_state es s" and "mems s (ev_author ev) = Some m"
    and "keypair C (private_key i) (m_key m)" and "wf_event ev" and "kindof ev \<noteq> RoomCreated"
    and "apply_event s ev = Inr s'" and "publish C i d ev = Inr (e, d')" and "fits e"
  shows "\<exists>r'. verify C d' = Inr r' \<and> valid r' \<and> merge_all d' = Inr (es @ [e]) \<and>
    accepts C new_state (es @ [e]) s' \<and> wf_dir d' \<and> intact C d' (ev_author e)"
proof -
  note f = publish_fields[OF assms(11,14)] and p = publish_Inr[OF assms(11,14)]
  have sig: "verify_signature C (m_key m) e = Inr ()"
    using verify_sign[OF assms(10)] p by blast
  have "apply_event s e = Inr s'" using assms(13) apply_event_cong[of e ev s] f by simp
  then have acc: "accepts C s [e] s'" using assms(9,12) sig f by (auto simp: accepts_Cons)
  have i: "intact C d (ev_author e)" using assms(5) f by simp
  have low: "ev_lamport x < ev_lamport e" if "x \<in> set es" for x
    using next_lamport_above[OF assms(6,7) that] f by simp
  have wf: "wf_event e" using p by blast
  have d': "d' = write_line d (ev_author e) (line_text e @ [LF])" using p f(1) by simp
  from f(8,9) have seq: "ev_seq e = of_nat (length (lines_of d (ev_author e))) + 1"
    "ev_prev e = (if lines_of d (ev_author e) = [] then zero_hash
                  else compute_line_hash C (last (lines_of d (ev_author e))))" by (simp_all add: f(1))
  show ?thesis
    using append_keeps_valid[OF assms(1-4) i assms(6,8) acc wf assms(15) seq low d'] by blast
qed

lemma publish_too_long:
  assumes "wf_dir d" and "\<And>a. length (lines_of d a) < 2 ^ 64 - 1" and "intact C d (ev_author ev)"
    and "merge_all d = Inr es" and "wf_event ev" and "publish C i d ev = Inr (e, d')" and "\<not> fits e"
  shows "\<exists>r'. verify C d' = Inr r' \<and> \<not> valid r' \<and> merge_all d' = Inr es"
proof -
  note h = publish_hidden[OF assms(5,3,6,7)]
  have merged: "merge_all d' = Inr es" by (rule publish_hidden_merge[OF assms(1,5,3,4,6,7)])
  then obtain r' where r': "verify C d' = Inr r'" using verify_total by blast
  have "length (lines_of d' a) < 2 ^ 64" for a
  proof (cases "a = ev_author ev")
    case True
    then show ?thesis using h assms(2)[of a] by simp
  next
    case False
    then have "lines_of d' a = lines_of d a" using publish_Inr[OF assms(5,6)] lines_of_other by blast
    then show ?thesis using assms(2)[of a] by simp
  qed
  from verify_valid[OF r' this] h have "\<not> valid r'" by auto
  with r' merged show ?thesis by blast
qed

text \<open>
  C27: publishing keeps a valid journal valid. Let the author be a member whose key is the
  signer's, and let the membership rules allow the event, which is not a second room.created. In a
  valid journal whose author's segment ends in a newline and whose greatest Lamport number is below
  2^64 - 1, the event becomes the last of the merged stream, the verifier still finds nothing, and
  the stream leads to the state the event leads to. This is so if its line has at most 65535 bytes;
  a longer one is written, missing from the stream, and leaves a journal the verifier rejects.
\<close>
theorem publish_keeps_valid:
  assumes "wf_dir d" and "verify C d = Inr r" and "valid r"
    and "\<And>a. length (lines_of d a) < 2 ^ 64 - 1"
    and "intact C d (ev_author ev)" and "merge_all d = Inr es" and "max_lamport_of es \<noteq> - 1"
    and "accepts C new_state es s" and "mems s (ev_author ev) = Some m"
    and "keypair C (private_key i) (m_key m)" and "wf_event ev" and "kindof ev \<noteq> RoomCreated"
    and "apply_event s ev = Inr s'" and "publish C i d ev = Inr (e, d')"
  shows "if length (line_text e) \<le> max_line
    then \<exists>r'. verify C d' = Inr r' \<and> valid r' \<and> merge_all d' = Inr (es @ [e]) \<and>
      accepts C new_state (es @ [e]) s'
    else \<exists>r'. verify C d' = Inr r' \<and> \<not> valid r' \<and> merge_all d' = Inr es"
proof (cases "fits e")
  case True
  then show ?thesis using publish_valid[OF assms True] by (auto simp: fits_def)
next
  case False
  then show ?thesis using publish_too_long[OF assms(1,4,5,6,11,14) False] by (simp add: fits_def)
qed

lemma query_log_Inr:
  assumes "query_log C d f = Inr res"
  obtains r es n where "verify C d = Inr r" and "merge_all d = Inr es"
    and "lr_events res = take n (filter (keep_event (invalid_ids r) f) es)"
    and "0 < lf_limit f \<longrightarrow> int (length (lr_events res)) \<le> lf_limit f"
    and "lf_limit f \<le> 0 \<longrightarrow> lr_events res = filter (keep_event (invalid_ids r) f) es"
proof -
  obtain r es where res: "verify C d = Inr r" "merge_all d = Inr es"
    "lr_events res = (let fs = filter (keep_event (invalid_ids r) f) es in
       if 0 < lf_limit f \<and> lf_limit f < int (length fs) then take (nat (lf_limit f)) fs else fs)"
    using assms by (auto simp: query_log_def bind_err_Inr Let_def)
  let ?fs = "filter (keep_event (invalid_ids r) f) es"
  have "lr_events res = take (if 0 < lf_limit f \<and> lf_limit f < int (length ?fs)
      then nat (lf_limit f) else length ?fs) ?fs"
    by (simp add: res(3) Let_def)
  then show ?thesis using that[OF res(1,2)] res(3) by (auto simp: Let_def)
qed

lemma mem_invalid_ids:
  "i \<in> set (invalid_ids r) \<longleftrightarrow> i \<noteq> [] \<and>
     (\<exists>f \<in> set (findings r). f_event f = i \<and> f_code f \<in> {SignatureInvalid, ChainBrokenCode})"
  by (auto simp: invalid_ids_def)

text \<open>
  A log query returns a part of the merged stream in its order, at most as many events as
  the limit allows, and none with an id the verifier reported for a bad signature or a broken
  chain.
\<close>
theorem query_log_sound:
  assumes "query_log C d f = Inr res"
  shows "\<exists>r es. verify C d = Inr r \<and> merge_all d = Inr es \<and> subseq (lr_events res) es \<and>
    (0 < lf_limit f \<longrightarrow> int (length (lr_events res)) \<le> lf_limit f) \<and>
    (\<forall>e \<in> set (lr_events res). \<forall>g \<in> set (findings r).
       f_code g \<in> {SignatureInvalid, ChainBrokenCode} \<longrightarrow> ev_id e \<noteq> [] \<longrightarrow> f_event g \<noteq> ev_id e)"
proof -
  obtain r es n where q: "verify C d = Inr r" "merge_all d = Inr es"
    "lr_events res = take n (filter (keep_event (invalid_ids r) f) es)"
    "0 < lf_limit f \<longrightarrow> int (length (lr_events res)) \<le> lf_limit f"
    using query_log_Inr[OF assms] by metis
  have "subseq (lr_events res) es"
    unfolding q(3)
    by (rule subseq_order.trans[OF prefix_imp_subseq[OF take_is_prefix] subseq_filter_left])
  moreover have "ev_id e \<notin> set (invalid_ids r)" if "e \<in> set (lr_events res)" for e
    using that unfolding q(3) by (auto simp: keep_event_def dest: in_set_takeD)
  ultimately show ?thesis using q(1,2,4) by (auto simp: mem_invalid_ids)
qed


section \<open>A room in use\<close>

definition sample_creation :: event where
  "sample_creation =
     \<lparr>ev_v = 1, ev_id = ''ev1'', ev_room = ''rm1'', ev_author = member_id alice, ev_seq = 0, ev_prev = [],
      ev_lamport = 0, ev_ts = [], ev_kind = ''room.created'',
      ev_body = created_body ''lab'' (public_key alice), ev_sig = []\<rparr>"

definition sample_approval :: event where
  "sample_approval = sample_note\<lparr>ev_kind := ''run.approved''\<rparr>"

lemma sample_creation_wf: "wf_event sample_creation"
proof -
  have "str_body [(''name'', ''lab''), (''public_key'', hex_encode (public_key alice))]"
    by (simp add: str_body_def plain_key_utf8[of "''lab''"] plain_key_def is_alnum_char_def lower_char_def)
  moreover have "list_all valid_utf8 [''ev1'', ''rm1'', member_id alice, [], [], ''room.created'', []]"
    by (simp add: alice_def compute_member_id_utf8) code_simp
  ultimately show ?thesis
    using str_body_wf_event_body by (auto simp: sample_creation_def wf_event_def created_body_def)
qed

lemma sample_approval_wf: "wf_event sample_approval"
proof -
  have "valid_utf8 ''run.approved''" by code_simp
  then show ?thesis using sample_note_wf by (auto simp: sample_approval_def wf_event_def)
qed

lemma sample_creation_small: "length (ev_body sample_creation) \<le> 1000"
  by (simp add: sample_creation_def alice_def) code_simp

lemma alice_keypair: "keypair toy_crypto (private_key alice) (public_key alice)"
  using alice_wf by (simp add: wf_identity_def)

lemma sample_creation_applied:
  assumes "ev_kind e = ev_kind sample_creation" and "ev_author e = ev_author sample_creation"
    and "ev_body e = ev_body sample_creation"
  shows "apply_event new_state e = Inr alice_state"
proof -
  have "valid_utf8 ''lab''" by code_simp
  moreover have "length (public_key alice) = 32" by (simp add: alice_def)
  ultimately show ?thesis
    using assms by (simp add: apply_event_kinds apply_room_created_def created_body_fields new_state_def
        sample_creation_def alice_state_def)
qed

lemma verify_empty: "verify C [] = Inr empty_report" "valid empty_report"
  using empty_dir(3) by (auto simp: verify_def merge_all_Inr empty_report_def read_all_segments_def
      segment_authors_def merge_def sort_events_def)

text \<open>The journal with the creation of the room, and with a further event of its owner.\<close>

definition small_dir :: "dir \<Rightarrow> nat \<Rightarrow> bool" where
  "small_dir d n \<longleftrightarrow> (\<forall>a. length (lines_of d a) \<le> n)"

lemma small_dir_less: "small_dir d n \<Longrightarrow> n < 1000 \<Longrightarrow> length (lines_of d a) < 2 ^ 64 - 1"
  unfolding small_dir_def by (rule le_less_trans[of _ n]) auto

lemma small_dir_append:
  assumes "small_dir d n" and "lines_of (write_line d a l) a = lines_of d a @ [t]"
  shows "small_dir (write_line d a l) (Suc n)"
  unfolding small_dir_def
proof
  fix b
  show "length (lines_of (write_line d a l) b) \<le> Suc n"
    using assms by (cases "b = a") (auto simp: small_dir_def lines_of_other intro: le_SucI)
qed

lemma sample_room:
  "\<exists>e d r. publish toy_crypto alice [] sample_creation = Inr (e, d) \<and> wf_dir d \<and> merge_all d = Inr [e] \<and>
     intact toy_crypto d (member_id alice) \<and> verify toy_crypto d = Inr r \<and> valid r \<and>
     accepts toy_crypto new_state [e] alice_state \<and> ev_lamport e = 1 \<and> small_dir d 1"
proof -
  obtain e d where p: "publish toy_crypto alice [] sample_creation = Inr (e, d)"
    using publish_eq[OF sample_creation_wf] by blast
  have fits: "fits e"
    by (rule publish_fits[OF sample_creation_wf p toy_sha_ok alice_short_sigs])
      (use sample_creation_small alice_id_length in \<open>simp add: sample_creation_def\<close>)
  have a: "ev_author sample_creation = member_id alice" by (simp add: sample_creation_def)
  have i: "intact toy_crypto [] (ev_author e)" by simp
  note x = publish_intact[OF sample_creation_wf empty_dir(2) p fits]
    and f = publish_fields[OF sample_creation_wf p]
  have wf: "wf_event e" using publish_Inr[OF sample_creation_wf p] by simp
  have d: "d = write_line [] (ev_author e) (line_text e @ [LF])" using x by (simp add: f(1))
  have seq: "ev_seq e = of_nat (length (lines_of [] (ev_author e))) + 1"
    "ev_prev e = (if lines_of [] (ev_author e) = [] then zero_hash
                  else compute_line_hash toy_crypto (last (lines_of [] (ev_author e))))"
    using f(8,9) by (simp_all add: f(1))
  have small: "small_dir [] 0" by (simp add: small_dir_def lines_of_def segment_def)
  have "verify_signature toy_crypto (public_key alice) e = Inr ()"
    using verify_sign[OF alice_keypair] publish_Inr[OF sample_creation_wf p] by blast
  moreover have "apply_event new_state e = Inr alice_state" by (rule sample_creation_applied) (simp_all add: f)
  ultimately have acc: "accepts toy_crypto new_state [e] alice_state"
    using f(1,3) by (auto simp: accepts_Cons alice_state_def sample_creation_def)
  have "next_lamport [] 0 = 1" by (simp add: next_lamport_merge[OF empty_dir(3)] max_lamport_of_def)
  then have l: "ev_lamport e = 1" using f(7) by (simp add: sample_creation_def)
  have "small_dir d 1"
    using small_dir_append[OF small, of "member_id alice" "line_text e @ [LF]" "line_text e"] x by (auto simp: a)
  moreover obtain r where "verify toy_crypto d = Inr r" "valid r" "merge_all d = Inr [e]" "wf_dir d"
    "intact toy_crypto d (ev_author e)"
    using append_keeps_valid[OF empty_dir(1) verify_empty small_dir_less[OF small] i empty_dir(3) accepts_none
        acc wf fits seq _ d] by auto
  ultimately show ?thesis using p acc l by (auto simp: f(1) a)
qed

lemma sample_extended:
  assumes "wf_event ev" and "ev_author ev = member_id alice" and "kindof ev \<noteq> RoomCreated"
    and "apply_event alice_state ev = Inr alice_state" and "length (ev_body ev) \<le> 1000"
    and "length (ev_id ev) + length (ev_kind ev) + length (ev_room ev) + length (ev_ts ev) \<le> 1000"
  shows "\<exists>e d f d' r. publish toy_crypto alice [] sample_creation = Inr (e, d) \<and> merge_all d = Inr [e] \<and>
     publish toy_crypto alice d ev = Inr (f, d') \<and> verify toy_crypto d' = Inr r \<and> valid r \<and>
     merge_all d' = Inr [e, f] \<and> kindof f = kindof ev \<and> small_dir d' 2"
proof -
  obtain e d r where d: "publish toy_crypto alice [] sample_creation = Inr (e, d)" "wf_dir d"
    "merge_all d = Inr [e]" "intact toy_crypto d (member_id alice)" "verify toy_crypto d = Inr r" "valid r"
    "accepts toy_crypto new_state [e] alice_state" "ev_lamport e = 1" "small_dir d 1"
    using sample_room by blast
  obtain f d' where p: "publish toy_crypto alice d ev = Inr (f, d')"
    using publish_eq[OF assms(1)] by blast
  have fits: "fits f"
    by (rule publish_fits[OF assms(1) p toy_sha_ok alice_short_sigs])
      (use assms(5,6) alice_id_length in \<open>simp add: assms(2)\<close>)
  have ia: "intact toy_crypto d (ev_author ev)" using d(4) by (simp add: assms(2))
  have max: "max_lamport_of [e] \<noteq> - 1" by (simp add: max_lamport_of_def d(8))
  let ?m = "\<lparr>m_id = member_id alice, m_name = ''lab'', m_key = public_key alice, m_role = RoleOwner,
     m_kind = KindHuman\<rparr>"
  have mem: "mems alice_state (ev_author ev) = Some ?m" by (simp add: assms(2) alice_state_def)
  have key: "keypair toy_crypto (private_key alice) (m_key ?m)" using alice_keypair by simp
  have "small_dir d' 2"
    using small_dir_append[OF d(9), of "ev_author ev" "line_text f @ [LF]" "line_text f"]
      publish_intact[OF assms(1) ia p fits] by (auto simp: numeral_2_eq_2)
  then show ?thesis
    using publish_valid[OF d(2,5,6) small_dir_less[OF d(9)] ia d(3) max d(7) mem key assms(1,3,4) p fits]
      d(1,3) p publish_fields(3)[OF assms(1) p] by auto
qed

lemma sample_approved:
  "\<exists>e d f d' r. publish toy_crypto alice [] sample_creation = Inr (e, d) \<and>
     publish toy_crypto alice d sample_approval = Inr (f, d') \<and> verify toy_crypto d' = Inr r \<and> valid r \<and>
     merge_all d' = Inr [e, f] \<and> kindof f = RunApproved \<and> small_dir d' 2"
proof -
  have k: "kindof sample_approval = RunApproved" by (simp add: sample_approval_def)
  have a: "ev_author sample_approval = member_id alice" by (simp add: sample_approval_def)
  have "apply_event alice_state sample_approval = Inr alice_state"
    by (simp add: apply_event_kinds check_approver_def alice_state_def k a)
  moreover have "length (ev_body sample_approval) \<le> 1000" using sample_note_small by (simp add: sample_approval_def)
  ultimately show ?thesis
    using sample_extended[OF sample_approval_wf a] k by (auto simp: sample_approval_def sample_note_def)
qed

theorem verify_valid_iff_witness:
  "\<exists>d r. verify toy_crypto d = Inr r \<and> valid r \<and> (\<forall>a. verify_chain toy_crypto d a = Inr ())"
proof -
  obtain d r where d: "verify toy_crypto d = Inr r" "valid r" "small_dir d 2"
    using sample_approved by blast
  have "length (lines_of d a) < 2 ^ 64" for a using small_dir_less[OF d(3), of a] by simp
  with verify_valid_iff[OF d(1)] d show ?thesis by blast
qed

theorem valid_approvals_by_humans_witness:
  "\<exists>d pre e s m. merge_all d = Inr (pre @ [e]) \<and> kindof e = RunApproved \<and>
     accepts toy_crypto new_state pre s \<and> mems s (ev_author e) = Some m \<and> m_role m \<noteq> RoleAgent"
proof -
  obtain e f d r where d: "verify toy_crypto d = Inr r" "valid r" "merge_all d = Inr [e, f]"
    "kindof f = RunApproved" "small_dir d 2"
    using sample_approved by blast
  have m: "merge_all d = Inr ([e] @ f # [])" using d(3) by simp
  have l: "length (lines_of d a) < 2 ^ 64" for a using small_dir_less[OF d(5), of a] by simp
  from valid_approvals_by_humans[OF d(1,2) l m] d(4) obtain s n where
    "accepts toy_crypto new_state [e] s" "mems s (ev_author f) = Some n" "m_role n \<noteq> RoleAgent" by auto
  with d(3,4) show ?thesis by (intro exI[of _ d] exI[of _ "[e]"] exI[of _ f] exI[of _ s] exI[of _ n]) simp
qed

theorem publish_keeps_valid_witness:
  "\<exists>e d f d' r. publish toy_crypto alice d sample_note = Inr (f, d') \<and> merge_all d = Inr [e] \<and>
     verify toy_crypto d' = Inr r \<and> valid r \<and> merge_all d' = Inr [e, f]"
proof -
  obtain e d r where d: "wf_dir d" "merge_all d = Inr [e]" "intact toy_crypto d (member_id alice)"
    "verify toy_crypto d = Inr r" "valid r" "accepts toy_crypto new_state [e] alice_state"
    "ev_lamport e = 1" "small_dir d 1"
    using sample_room by blast
  obtain f d' where p: "publish toy_crypto alice d sample_note = Inr (f, d')"
    using publish_eq[OF sample_note_wf] by blast
  have app: "apply_event alice_state sample_note = Inr alice_state" and nk: "kindof sample_note \<noteq> RoomCreated"
    by (simp_all add: apply_event_kinds sample_note_def)
  have ia: "intact toy_crypto d (ev_author sample_note)" using d(3) by simp
  have max: "max_lamport_of [e] \<noteq> - 1" by (simp add: max_lamport_of_def d(7))
  let ?m = "\<lparr>m_id = member_id alice, m_name = ''lab'', m_key = public_key alice, m_role = RoleOwner,
     m_kind = KindHuman\<rparr>"
  have mem: "mems alice_state (ev_author sample_note) = Some ?m" by (simp add: alice_state_def)
  have key: "keypair toy_crypto (private_key alice) (m_key ?m)" using alice_keypair by simp
  from publish_keeps_valid[OF d(1,4,5) small_dir_less[OF d(8)] ia d(2) max d(6) mem key sample_note_wf nk app p]
    sample_note_fits[OF p]
  obtain r' where "verify toy_crypto d' = Inr r'" "valid r'" "merge_all d' = Inr [e, f]" by (auto simp: fits_def)
  with p d(2) show ?thesis by blast
qed

definition everything :: log_filter where
  "everything = \<lparr>lf_since = [], lf_until = [], lf_kind = [], lf_author = [], lf_run = [], lf_limit = 1\<rparr>"

theorem query_log_sound_witness:
  "\<exists>d res es. query_log toy_crypto d everything = Inr res \<and> merge_all d = Inr es \<and> length es = 2 \<and>
     subseq (lr_events res) es \<and> length (lr_events res) \<le> 1"
proof -
  obtain e f d' r where d: "verify toy_crypto d' = Inr r" "merge_all d' = Inr [e, f]"
    using sample_approved by blast
  obtain res where res: "query_log toy_crypto d' everything = Inr res"
    using d by (simp add: query_log_def Let_def)
  from query_log_sound[OF this] d(2) have "subseq (lr_events res) [e, f]" "length (lr_events res) \<le> 1"
    by (auto simp: everything_def)
  with res d(2) show ?thesis by (intro exI[of _ d'] exI[of _ res] exI[of _ "[e, f]"]) simp
qed

end
