(* ===== verification/Rooms.thy ===== *)
theory Rooms
  imports Verifier
begin

text \<open>
  \<open>internal/room/room\<close> (\<open>room.go\<close>, \<open>journal_append.go\<close>, \<open>members.go\<close>): creating a room, its
  configuration file, the statistics read from the journal before an event is built, notes and
  decisions, and the owner-only membership operations.  Clock readings, random bytes and the
  TOML encoder are arguments.
\<close>

section \<open>The room directory\<close>

record room_dir =
  rd_journal :: dir
  rd_toml :: "string option"
  rd_local :: "string option"
  rd_gitignore :: "string option"
  rd_other :: bool

definition empty_room :: room_dir where
  "empty_room = \<lparr>rd_journal = [], rd_toml = None, rd_local = None, rd_gitignore = None, rd_other = False\<rparr>"

definition has_entries :: "room_dir \<Rightarrow> bool" where
  "has_entries rd \<longleftrightarrow> rd_journal rd \<noteq> [] \<or> rd_toml rd \<noteq> None \<or> rd_local rd \<noteq> None \<or>
     rd_gitignore rd \<noteq> None \<or> rd_other rd"

record room_config =
  rc_schema :: int
  rc_id :: string
  rc_created :: string
  rc_root_pubkey :: string
  rc_root_event :: string

definition zero_config :: room_config where
  "zero_config = \<lparr>rc_schema = 0, rc_id = [], rc_created = [], rc_root_pubkey = [], rc_root_event = []\<rparr>"

record local_config =
  lc_identity :: string
  lc_artifact_root :: string

text \<open>The two uses of the TOML encoder, as functions of what they encode.\<close>

record toml =
  toml_room :: "room_config \<Rightarrow> string"
  toml_local :: "local_config \<Rightarrow> string"

datatype room_error =
    NotEmpty | NoConfig | BadKeyHex | BadKeyLength | InvalidRole | InvalidKind
  | MemberError member_error | JournalError journal_error | NotSigned

definition generate_room_id :: "bytes \<Rightarrow> string" where
  "generate_room_id rand = ''rm_'' @ hex_encode rand"

definition generate_event_id :: "bytes \<Rightarrow> string" where
  "generate_event_id rand = ''ev_'' @ hex_encode rand"


section \<open>Reading the configuration\<close>

text \<open>\<open>strings.Split\<close> on a byte, \<open>strings.SplitN(line, "=", 2)\<close> and \<open>strings.Trim(s, "\"")\<close>.\<close>

fun split_on :: "char \<Rightarrow> string \<Rightarrow> string list" where
  "split_on c [] = [[]]"
| "split_on c (x # s) =
     (if x = c then [] # split_on c s
      else (case split_on c s of [] \<Rightarrow> [[x]] | p # ps \<Rightarrow> (x # p) # ps))"

definition split_eq :: "string \<Rightarrow> (string \<times> string) option" where
  "split_eq line =
     (if CHR ''='' \<in> set line
      then Some (takeWhile (\<lambda>c. c \<noteq> CHR ''='') line, tl (dropWhile (\<lambda>c. c \<noteq> CHR ''='') line))
      else None)"

definition trim_quotes :: "string \<Rightarrow> string" where
  "trim_quotes s = rev (dropWhile ((=) DQ) (rev (dropWhile ((=) DQ) s)))"

definition config_line :: "string \<Rightarrow> room_config \<Rightarrow> room_config" where
  "config_line line cfg =
     (case split_eq line of
        None \<Rightarrow> cfg
      | Some (a, b) \<Rightarrow>
          (let k = trim_space a; v = trim_quotes (trim_space b) in
           if k = ''id'' then cfg\<lparr>rc_id := v\<rparr>
           else if k = ''created'' then cfg\<lparr>rc_created := v\<rparr>
           else if k = ''root_pubkey'' then cfg\<lparr>rc_root_pubkey := v\<rparr>
           else if k = ''root_event'' then cfg\<lparr>rc_root_event := v\<rparr>
           else cfg))"

definition parse_room_config :: "string \<Rightarrow> room_config" where
  "parse_room_config text = fold config_line (split_on LF text) zero_config"

definition read_room_config :: "room_dir \<Rightarrow> room_error + room_config" where
  "read_room_config rd =
     (case rd_toml rd of None \<Rightarrow> Inl NoConfig | Some text \<Rightarrow> Inr (parse_room_config text))"


section \<open>Statistics of the journal\<close>

record journal_stats =
  js_max_lamport :: u64
  js_members :: mstate

definition stats_line :: "string \<Rightarrow> journal_stats \<Rightarrow> journal_stats" where
  "stats_line line st =
     (case unmarshal_json_line line of
        None \<Rightarrow> st
      | Some e \<Rightarrow>
          \<lparr>js_max_lamport = (if ev_lamport e > js_max_lamport st then ev_lamport e else js_max_lamport st),
           js_members = (case apply_event (js_members st) e of
              Inl _ \<Rightarrow> js_members st
            | Inr s \<Rightarrow> s)\<rparr>)"

definition stats_file :: "string \<times> string \<Rightarrow> journal_stats \<Rightarrow> journal_stats" where
  "stats_file f st = (if has_suffix (fst f) ''.jsonl'' then fold stats_line (text_lines (snd f)) st else st)"

definition read_journal_stats :: "room_dir \<Rightarrow> journal_stats" where
  "read_journal_stats rd =
     fold stats_file (rd_journal rd) \<lparr>js_max_lamport = 0, js_members = new_state\<rparr>"

definition get_author_stats :: "crypto \<Rightarrow> room_dir \<Rightarrow> string \<Rightarrow> u64 \<times> string" where
  "get_author_stats C rd author =
     (case map_of (rd_journal rd) (author @ ''.jsonl'') of
        None \<Rightarrow> (0, ''sha256:0000000000000000000000000000000000000000000000000000000000000000'')
      | Some s \<Rightarrow>
          (let ls = text_lines s in
           if ls = [] then (0, ''sha256:0000000000000000000000000000000000000000000000000000000000000000'')
           else (of_nat (length ls), ''sha256:'' @ hex_encode (sha256 C (last ls)))))"

definition append_room_event :: "room_dir \<Rightarrow> event \<Rightarrow> room_error + room_dir" where
  "append_room_event rd e =
     (case marshal_json_line e of
        None \<Rightarrow> Inl (JournalError BadEvent)
      | Some line \<Rightarrow> Inr (rd\<lparr>rd_journal := write_line (rd_journal rd) (ev_author e) line\<rparr>))"


section \<open>Creating a room\<close>

definition created_event :: "string \<Rightarrow> string \<Rightarrow> string \<Rightarrow> string \<Rightarrow> identity \<Rightarrow> event" where
  "created_event event_id room_id now name i =
     \<lparr>ev_v = current_version, ev_id = event_id, ev_room = room_id, ev_author = member_id i, ev_seq = 1,
      ev_prev = ''sha256:0000000000000000000000000000000000000000000000000000000000000000'',
      ev_lamport = 1, ev_ts = now, ev_kind = ''room.created'',
      ev_body = marshal_strings [(''name'', name), (''public_key'', hex_encode (public_key i))], ev_sig = []\<rparr>"

definition init_room ::
    "crypto \<Rightarrow> toml \<Rightarrow> bytes \<Rightarrow> bytes \<Rightarrow> string \<Rightarrow> string \<Rightarrow> identity \<Rightarrow> room_dir \<Rightarrow>
     room_error + room_config \<times> room_dir" where
  "init_room C T room_rand event_rand now name i rd =
     (if has_entries rd then Inl NotEmpty
      else (let room_id = generate_room_id room_rand; event_id = generate_event_id event_rand in
        case sign_event C i (created_event event_id room_id now name i) of
          None \<Rightarrow> Inl NotSigned
        | Some e \<Rightarrow>
            (case marshal_json_line e of
               None \<Rightarrow> Inl (JournalError BadEvent)
             | Some line \<Rightarrow>
                 (let cfg = \<lparr>rc_schema = 1, rc_id = room_id, rc_created = now,
                             rc_root_pubkey = ''ed25519:'' @ hex_encode (public_key i),
                             rc_root_event = event_id\<rparr>;
                      loc = \<lparr>lc_identity = id_name i, lc_artifact_root = []\<rparr>
                  in Inr (cfg,
                       rd\<lparr>rd_journal := put_file (member_id i @ ''.jsonl'') line (rd_journal rd),
                          rd_toml := Some (toml_room T cfg),
                          rd_local := Some (toml_local T loc),
                          rd_gitignore := (case rd_gitignore rd of
                             None \<Rightarrow> Some (''.symroom/'' @ [LF]) | Some g \<Rightarrow> Some g)\<rparr>)))))"


section \<open>Notes and decisions\<close>

definition room_event ::
    "crypto \<Rightarrow> room_dir \<Rightarrow> room_config \<Rightarrow> journal_stats \<Rightarrow> bytes \<Rightarrow> string \<Rightarrow> string \<Rightarrow> string \<Rightarrow> identity \<Rightarrow> event" where
  "room_event C rd cfg stats rand now kind body i =
     (let (last_seq, prev_hash) = get_author_stats C rd (member_id i)
      in \<lparr>ev_v = current_version, ev_id = generate_event_id rand, ev_room = rc_id cfg,
          ev_author = member_id i, ev_seq = last_seq + 1, ev_prev = prev_hash,
          ev_lamport = js_max_lamport stats + 1, ev_ts = now, ev_kind = kind, ev_body = body, ev_sig = []\<rparr>)"

definition sign_and_append :: "crypto \<Rightarrow> identity \<Rightarrow> room_dir \<Rightarrow> event \<Rightarrow> room_error + event \<times> room_dir" where
  "sign_and_append C i rd ev =
     (case sign_event C i ev of
        None \<Rightarrow> Inl NotSigned
      | Some e \<Rightarrow> bind_err (append_room_event rd e) (\<lambda>rd'. Inr (e, rd')))"

definition is_observer :: "mstate \<Rightarrow> string \<Rightarrow> bool" where
  "is_observer s a = (case mems s a of None \<Rightarrow> False | Some m \<Rightarrow> m_role m = RoleObserver)"

definition post_note ::
    "crypto \<Rightarrow> bytes \<Rightarrow> string \<Rightarrow> string \<Rightarrow> identity \<Rightarrow> room_dir \<Rightarrow> room_error + event \<times> room_dir" where
  "post_note C rand now text i rd =
     bind_err (read_room_config rd) (\<lambda>cfg.
       let stats = read_journal_stats rd in
       if is_observer (js_members stats) (member_id i) then Inl (MemberError ObserverForbidden)
       else sign_and_append C i rd
         (room_event C rd cfg stats rand now ''note.posted'' (marshal_strings [(''text'', text)]) i))"

definition record_decision ::
    "crypto \<Rightarrow> bytes \<Rightarrow> string \<Rightarrow> string \<Rightarrow> string list \<Rightarrow> identity \<Rightarrow> room_dir \<Rightarrow> room_error + event \<times> room_dir" where
  "record_decision C rand now text refs i rd =
     bind_err (read_room_config rd) (\<lambda>cfg.
       let stats = read_journal_stats rd in
       if is_observer (js_members stats) (member_id i) then Inl (MemberError ObserverForbidden)
       else sign_and_append C i rd
         (room_event C rd cfg stats rand now ''decision.recorded''
           (marshal_fields [(''refs'', JArr (map JStr refs)), (''text'', JStr text)]) i))"


section \<open>Membership operations\<close>

definition valid_role :: "role \<Rightarrow> bool" where
  "valid_role r = (case r of RoleOther _ \<Rightarrow> False | _ \<Rightarrow> True)"

definition valid_kind :: "member_kind \<Rightarrow> bool" where
  "valid_kind k = (case k of KindOther _ \<Rightarrow> False | _ \<Rightarrow> True)"

definition list_members :: "room_dir \<Rightarrow> mstate" where
  "list_members rd = js_members (read_journal_stats rd)"

definition require_owner :: "room_dir \<Rightarrow> identity \<Rightarrow> room_error + journal_stats" where
  "require_owner rd i =
     (let stats = read_journal_stats rd in
      if is_owner (js_members stats) (member_id i) then Inr stats
      else Inl (MemberError UnauthorizedOwnerAction))"

definition append_signed_member_event ::
    "crypto \<Rightarrow> bytes \<Rightarrow> string \<Rightarrow> string \<Rightarrow> string \<Rightarrow> journal_stats \<Rightarrow> identity \<Rightarrow> room_dir \<Rightarrow>
     room_error + event \<times> room_dir" where
  "append_signed_member_event C rand now kind body stats i rd =
     bind_err (read_room_config rd) (\<lambda>cfg.
       sign_and_append C i rd (room_event C rd cfg stats rand now kind body i))"

text \<open>
  \<open>withOwnerTransaction\<close>: a first check on the room as it is before the lock (\<open>rd0\<close>), and the
  one that counts, with the operation, on the room as the holder of the lock reads it (\<open>rd\<close>).
\<close>

definition with_owner_transaction ::
    "room_dir \<Rightarrow> identity \<Rightarrow> room_dir \<Rightarrow> (journal_stats \<Rightarrow> room_error + event \<times> room_dir) \<Rightarrow>
     room_error + event \<times> room_dir" where
  "with_owner_transaction rd0 i rd operation =
     bind_err (require_owner rd0 i) (\<lambda>_. bind_err (require_owner rd i) operation)"

definition add_member ::
    "crypto \<Rightarrow> bytes \<Rightarrow> string \<Rightarrow> string \<Rightarrow> string \<Rightarrow> role \<Rightarrow> member_kind \<Rightarrow> identity \<Rightarrow> room_dir \<Rightarrow> room_dir \<Rightarrow>
     room_error + event \<times> room_dir" where
  "add_member C rand now name key_hex r k i rd0 rd =
     (case hex_decode key_hex of
        None \<Rightarrow> Inl BadKeyHex
      | Some pub \<Rightarrow>
          if length pub \<noteq> 32 then Inl BadKeyLength
          else if \<not> valid_role r then Inl InvalidRole
          else if \<not> valid_kind k then Inl InvalidKind
          else with_owner_transaction rd0 i rd (\<lambda>stats.
            append_signed_member_event C rand now ''member.added''
              (marshal_strings [(''id'', compute_member_id C pub), (''name'', name),
                 (''public_key'', key_hex), (''role'', role_name r), (''kind'', member_kind_name k)])
              stats i rd))"

definition remove_member ::
    "crypto \<Rightarrow> bytes \<Rightarrow> string \<Rightarrow> string \<Rightarrow> identity \<Rightarrow> room_dir \<Rightarrow> room_dir \<Rightarrow>
     room_error + event \<times> room_dir" where
  "remove_member C rand now target i rd0 rd =
     with_owner_transaction rd0 i rd (\<lambda>stats.
       if mems (js_members stats) target = None then Inl (MemberError MemberNotFound)
       else append_signed_member_event C rand now ''member.removed''
         (marshal_strings [(''id'', target)]) stats i rd)"

definition set_member_role ::
    "crypto \<Rightarrow> bytes \<Rightarrow> string \<Rightarrow> string \<Rightarrow> role \<Rightarrow> identity \<Rightarrow> room_dir \<Rightarrow> room_dir \<Rightarrow>
     room_error + event \<times> room_dir" where
  "set_member_role C rand now target r i rd0 rd =
     (if \<not> valid_role r then Inl InvalidRole
      else with_owner_transaction rd0 i rd (\<lambda>stats.
        if mems (js_members stats) target = None then Inl (MemberError MemberNotFound)
        else append_signed_member_event C rand now ''member.role_changed''
          (marshal_strings [(''id'', target), (''role'', role_name r)]) stats i rd))"

section \<open>Statistics and the merged stream\<close>

text \<open>What \<open>ReadJournalStats\<close> does with an event: errors are dropped.\<close>

definition apply_quiet :: "mstate \<Rightarrow> event \<Rightarrow> mstate" where
  "apply_quiet s e = (case apply_event s e of Inl _ \<Rightarrow> s | Inr s' \<Rightarrow> s')"

definition stats_of :: "event list \<Rightarrow> journal_stats \<Rightarrow> journal_stats" where
  "stats_of es st =
     \<lparr>js_max_lamport = foldl (\<lambda>m e. if ev_lamport e > m then ev_lamport e else m) (js_max_lamport st) es,
      js_members = foldl apply_quiet (js_members st) es\<rparr>"

lemma stats_of_append: "stats_of (es @ fs) st = stats_of fs (stats_of es st)"
  by (simp add: stats_of_def)

lemma stats_lines:
  "those (map unmarshal_json_line ls) = Some es \<Longrightarrow> fold stats_line ls st = stats_of es st"
proof (induction ls arbitrary: es st)
  case (Cons l ls)
  then show ?case
    by (auto simp: stats_line_def stats_of_def apply_quiet_def split: option.splits)
qed (simp add: stats_of_def)

definition file_authors :: "dir \<Rightarrow> string list" where
  "file_authors d = map (\<lambda>f. trim_suffix (fst f) ''.jsonl'') (filter (\<lambda>f. has_suffix (fst f) ''.jsonl'') d)"

lemma segment_file_authors: "segment_authors d = file_authors d"
  by (simp add: segment_authors_def file_authors_def filter_map comp_def)

lemma stats_files:
  assumes "\<And>n c. (n, c) \<in> set fs \<Longrightarrow> map_of d n = Some c" and "read_segments d (file_authors fs) = Inr segs"
  shows "fold stats_file fs st = stats_of (concat (map snd segs)) st"
  using assms
proof (induction fs arbitrary: segs st)
  case (Cons f fs)
  obtain n c where f: "f = (n, c)" by (cases f)
  show ?case
  proof (cases "has_suffix n ''.jsonl''")
    case False
    then have "fold stats_file fs st = stats_of (concat (map snd segs)) st"
      using Cons.prems by (intro Cons.IH) (auto simp: f file_authors_def)
    moreover have "stats_file f st = st" using False by (simp add: f stats_file_def)
    ultimately show ?thesis by simp
  next
    case True
    then obtain es segs' where segs: "segs = (trim_suffix n ''.jsonl'', es) # segs'"
      "read_segment d (trim_suffix n ''.jsonl'') = Inr es" "read_segments d (file_authors fs) = Inr segs'"
      using Cons.prems(2) by (auto simp: f file_authors_def bind_err_Inr)
    have "segment d (trim_suffix n ''.jsonl'') = Some c"
      using Cons.prems(1)[of n c] True by (simp add: segment_def segment_path_author f)
    then have "those (map unmarshal_json_line (text_lines c)) = Some es"
      using segs(2) by (auto simp: read_segment_def split: option.splits)
    then have "stats_file f st = stats_of es st" using True by (simp add: f stats_file_def stats_lines)
    moreover have "fold stats_file fs (stats_of es st) = stats_of (concat (map snd segs')) (stats_of es st)"
      using Cons.prems(1) segs(3) by (intro Cons.IH) auto
    ultimately show ?thesis by (simp add: segs(1) stats_of_append)
  qed
qed (simp add: file_authors_def stats_of_def)

lemma read_journal_stats_eq:
  assumes "wf_dir (rd_journal rd)" and "read_all_segments (rd_journal rd) = Inr segs"
  shows "read_journal_stats rd = stats_of (concat (map snd segs)) \<lparr>js_max_lamport = 0, js_members = new_state\<rparr>"
  unfolding read_journal_stats_def
proof (rule stats_files)
  show "map_of (rd_journal rd) n = Some c" if "(n, c) \<in> set (rd_journal rd)" for n c
    using that wf_dir_distinct[OF assms(1)] by simp
  show "read_segments (rd_journal rd) (file_authors (rd_journal rd)) = Inr segs"
    using assms(2) by (simp add: read_all_segments_def segment_file_authors)
qed

lemma stats_max_lamport:
  assumes "wf_dir (rd_journal rd)" and "merge_all (rd_journal rd) = Inr es"
  shows "js_max_lamport (read_journal_stats rd) = max_lamport_of es"
proof -
  obtain segs where segs: "read_all_segments (rd_journal rd) = Inr segs" "es = merge segs"
    using assms(2) by (auto simp: merge_all_Inr)
  have "max_lamport_of (concat (map snd segs)) = max_lamport_of es"
    by (rule max_lamport_mset) (simp add: segs(2) merge_def)
  then show ?thesis
    using read_journal_stats_eq[OF assms(1) segs(1)] by (simp add: stats_of_def max_lamport_of_def)
qed

lemma author_stats_lines:
  "get_author_stats C rd a =
     (of_nat (length (lines_of (rd_journal rd) a)),
      if lines_of (rd_journal rd) a = [] then zero_hash
      else compute_line_hash C (last (lines_of (rd_journal rd) a)))"
  by (auto simp: get_author_stats_def lines_of_def segment_def segment_path_def zero_hash_def
      compute_line_hash_def Let_def split: option.splits)


section \<open>Signed events of the room\<close>

lemma room_event_fields:
  "ev_author (room_event C rd cfg stats rand now kind body i) = member_id i"
  "ev_kind (room_event C rd cfg stats rand now kind body i) = kind"
  "ev_body (room_event C rd cfg stats rand now kind body i) = body"
  "ev_room (room_event C rd cfg stats rand now kind body i) = rc_id cfg"
  "ev_id (room_event C rd cfg stats rand now kind body i) = generate_event_id rand"
  "ev_ts (room_event C rd cfg stats rand now kind body i) = now"
  "ev_v (room_event C rd cfg stats rand now kind body i) = 1"
  "ev_sig (room_event C rd cfg stats rand now kind body i) = []"
  "ev_lamport (room_event C rd cfg stats rand now kind body i) = js_max_lamport stats + 1"
  "ev_seq (room_event C rd cfg stats rand now kind body i) =
     of_nat (length (lines_of (rd_journal rd) (member_id i))) + 1"
  "ev_prev (room_event C rd cfg stats rand now kind body i) =
     (if lines_of (rd_journal rd) (member_id i) = [] then zero_hash
      else compute_line_hash C (last (lines_of (rd_journal rd) (member_id i))))"
  by (simp_all add: room_event_def author_stats_lines current_version_def split: prod.splits)

lemma generate_event_id_utf8 [simp]: "valid_utf8 (generate_event_id r)"
  by (rule valid_utf8_ascii)
    (auto simp: generate_event_id_def is_alnum_char_def Let_def dest!: hex_encode_chars)

definition body_ok :: "string \<Rightarrow> bool" where
  "body_ok b \<longleftrightarrow> (\<exists>v. wf_json v \<and> b = jprint v)"

lemma str_body_ok: "str_body ms \<Longrightarrow> body_ok (marshal_strings ms)"
  using str_body_wf_event_body by (auto simp: body_ok_def)

lemma room_event_wf:
  assumes "list_all valid_utf8 [rc_id cfg, now, member_id i, kind]" and "body_ok body"
  shows "wf_event (room_event C rd cfg stats rand now kind body i)"
  using assms by (auto simp: wf_event_def room_event_fields body_ok_def)

lemma sign_and_append_Inr:
  assumes "wf_event ev" and "sign_and_append C i rd ev = Inr (e, rd')"
  shows "wf_event e \<and> sign_event C i ev = Some e \<and> (\<exists>s. e = ev\<lparr>ev_v := (if ev_v ev = 0 then current_version else ev_v ev), ev_sig := s\<rparr>) \<and>
    rd' = rd\<lparr>rd_journal := write_line (rd_journal rd) (ev_author ev) (line_text e @ [LF])\<rparr>"
proof -
  obtain e0 where e0: "sign_event C i ev = Some e0" "wf_event e0" using sign_wf[OF assms(1)] by blast
  have "append_room_event rd e0 = Inr (rd\<lparr>rd_journal := write_line (rd_journal rd) (ev_author e0) (line_text e0 @ [LF])\<rparr>)"
    by (simp add: append_room_event_def marshal_line_text[OF e0(2)])
  moreover have "ev_author e0 = ev_author ev" using sign_event_fields[OF e0(1)] by auto
  ultimately show ?thesis using assms(2) e0 sign_event_fields[OF e0(1)] by (auto simp: sign_and_append_def)
qed

lemma sign_and_append_total:
  "wf_event ev \<Longrightarrow> \<exists>e rd'. sign_and_append C i rd ev = Inr (e, rd')"
  using sign_wf[of ev C i] marshal_line_text by (fastforce simp: sign_and_append_def append_room_event_def)

text \<open>
  Appending a room event to a valid journal: the verifier accepts the result, and the event is
  the last of the merged stream.  \<open>stats\<close> is what the operation read before building it.
\<close>

lemma room_append_valid:
  assumes "wf_dir (rd_journal rd)" and "verify C (rd_journal rd) = Inr r" and "valid r"
    and "\<And>a. length (lines_of (rd_journal rd) a) < 2 ^ 64 - 1"
    and "intact C (rd_journal rd) (member_id i)" and "merge_all (rd_journal rd) = Inr es"
    and "max_lamport_of es \<noteq> - 1" and "accepts C new_state es s"
    and "mems s (member_id i) = Some m" and "keypair C (private_key i) (m_key m)"
    and "wf_event (room_event C rd cfg (read_journal_stats rd) rand now kind body i)"
    and "kind_of kind \<noteq> RoomCreated"
    and "apply_event s (room_event C rd cfg (read_journal_stats rd) rand now kind body i) = Inr s'"
    and "sign_and_append C i rd (room_event C rd cfg (read_journal_stats rd) rand now kind body i) = Inr (e, rd')"
    and "fits e"
  shows "\<exists>r'. verify C (rd_journal rd') = Inr r' \<and> valid r' \<and> merge_all (rd_journal rd') = Inr (es @ [e]) \<and>
    accepts C new_state (es @ [e]) s' \<and> wf_dir (rd_journal rd') \<and> intact C (rd_journal rd') (member_id i)"
proof -
  let ?ev = "room_event C rd cfg (read_journal_stats rd) rand now kind body i"
  note sa = sign_and_append_Inr[OF assms(11,14)]
  then obtain sg where e: "e = ?ev\<lparr>ev_v := (if ev_v ?ev = 0 then current_version else ev_v ?ev), ev_sig := sg\<rparr>"
    by blast
  have f: "ev_author e = member_id i" "ev_kind e = kind" "ev_body e = body"
    "ev_lamport e = js_max_lamport (read_journal_stats rd) + 1"
    by (simp_all add: e room_event_fields)
  have seq: "ev_seq e = of_nat (length (lines_of (rd_journal rd) (ev_author e))) + 1"
    "ev_prev e = (if lines_of (rd_journal rd) (ev_author e) = [] then zero_hash
                  else compute_line_hash C (last (lines_of (rd_journal rd) (ev_author e))))"
    unfolding f(1) by (simp_all add: e room_event_fields)
  have "verify_signature C (m_key m) e = Inr ()" using verify_sign[OF assms(10)] sa by blast
  moreover have "apply_event s e = Inr s'"
    using assms(13) apply_event_cong[of e ?ev s] f by (simp add: room_event_fields)
  ultimately have acc: "accepts C s [e] s'" using assms(9,12) f by (auto simp: accepts_Cons)
  have low: "ev_lamport x < ev_lamport e" if "x \<in> set es" for x
    using max_lamport_ge[OF that] word_less_plus_one[OF assms(7)]
    by (simp add: f(4) stats_max_lamport[OF assms(1,6)] order.strict_trans1)
  have d': "rd_journal rd' = write_line (rd_journal rd) (ev_author e) (line_text e @ [LF])"
    using sa f(1) by (simp add: room_event_fields)
  have i: "intact C (rd_journal rd) (ev_author e)" using assms(5) f by simp
  show ?thesis
    using append_keeps_valid[OF assms(1-4) i assms(6,8) acc _ assms(15) seq low d'] sa f(1) by simp
qed

section \<open>Who may change the membership\<close>

lemma require_owner_Inr:
  "require_owner rd i = Inr st \<longleftrightarrow> st = read_journal_stats rd \<and> is_owner (list_members rd) (member_id i)"
  by (auto simp: require_owner_def list_members_def Let_def)

lemma owner_transaction_Inr:
  "with_owner_transaction rd0 i rd op = Inr x \<longleftrightarrow>
     is_owner (list_members rd0) (member_id i) \<and> is_owner (list_members rd) (member_id i) \<and>
     op (read_journal_stats rd) = Inr x"
  by (auto simp: with_owner_transaction_def bind_err_Inr require_owner_Inr)

lemma sign_and_append_frame:
  assumes "sign_and_append C i rd ev = Inr (e, rd')"
  shows "ev_author e = ev_author ev \<and> ev_kind e = ev_kind ev \<and> ev_body e = ev_body ev \<and>
    (\<exists>l. rd' = rd\<lparr>rd_journal := write_line (rd_journal rd) (ev_author ev) l\<rparr>)"
  using assms sign_event_fields[of C i ev]
  by (auto simp: sign_and_append_def append_room_event_def bind_err_Inr split: option.splits)

lemma member_event_Inr:
  assumes "append_signed_member_event C rand now kind body stats i rd = Inr (e, rd')"
  shows "ev_author e = member_id i \<and> ev_kind e = kind \<and> ev_body e = body \<and>
    (\<exists>l. rd' = rd\<lparr>rd_journal := write_line (rd_journal rd) (member_id i) l\<rparr>)"
  using assms sign_and_append_frame
  by (auto simp: append_signed_member_event_def bind_err_Inr room_event_fields) (metis room_event_fields(1-3))+

text \<open>
  A membership operation that succeeds was called by an identity the journal, as read under
  the lock, holds as an owner; the event it wrote is a membership event of that author, and
  nothing but the author's own segment differs afterwards.
\<close>
theorem membership_ops_owner_only:
  assumes "add_member C rand now name key r k i rd0 rd = Inr (e, rd') \<or>
    remove_member C rand now target i rd0 rd = Inr (e, rd') \<or>
    set_member_role C rand now target r i rd0 rd = Inr (e, rd')"
  shows "is_owner (list_members rd) (member_id i) \<and> ev_author e = member_id i \<and>
    kindof e \<in> {MemberAdded, MemberRemoved, MemberRoleChanged} \<and>
    (\<forall>b. b \<noteq> member_id i \<longrightarrow> segment (rd_journal rd') b = segment (rd_journal rd) b) \<and>
    rd' = rd\<lparr>rd_journal := rd_journal rd'\<rparr>"
  using assms
proof (elim disjE)
  assume "add_member C rand now name key r k i rd0 rd = Inr (e, rd')"
  then show ?thesis
    by (auto simp: add_member_def owner_transaction_Inr write_line_segment
        dest!: member_event_Inr split: option.splits if_splits)
next
  assume "remove_member C rand now target i rd0 rd = Inr (e, rd')"
  then show ?thesis
    by (auto simp: remove_member_def owner_transaction_Inr write_line_segment
        dest!: member_event_Inr split: if_splits)
next
  assume "set_member_role C rand now target r i rd0 rd = Inr (e, rd')"
  then show ?thesis
    by (auto simp: set_member_role_def owner_transaction_Inr write_line_segment
        dest!: member_event_Inr split: if_splits)
qed


section \<open>What the operations achieve\<close>

lemma role_of_name [simp]: "valid_role r \<Longrightarrow> role_of (role_name r) = r"
  by (cases r) (simp_all add: valid_role_def role_of_def)

lemma kind_of_member_name [simp]: "valid_kind k \<Longrightarrow> member_kind_of (member_kind_name k) = k"
  by (cases k) (simp_all add: valid_kind_def member_kind_of_def)

lemma role_name_utf8: "valid_role r \<Longrightarrow> valid_utf8 (role_name r)"
  by (cases r) (simp_all add: valid_role_def, code_simp+)

lemma kind_name_utf8: "valid_kind k \<Longrightarrow> valid_utf8 (member_kind_name k)"
  by (cases k) (simp_all add: valid_kind_def, code_simp+)

lemma hex_decode_utf8: "hex_decode h = Some b \<Longrightarrow> valid_utf8 h"
proof (rule valid_utf8_ascii)
  have val: "hex_val c = Some n \<Longrightarrow> of_char c < (0x80::nat)" for c n
    by (auto simp: hex_val_def Let_def split: if_splits)
  show "of_char c < (0x80::nat)" if "hex_decode h = Some b" "c \<in> set h" for c
    using that by (induction h arbitrary: b rule: hex_decode.induct) (auto dest: val split: option.splits)
qed

text \<open>A room in order: its journal verifies, its configuration is text, the signer is a member.\<close>

definition room_ready :: "crypto \<Rightarrow> room_dir \<Rightarrow> event list \<Rightarrow> mstate \<Rightarrow> identity \<Rightarrow> bool" where
  "room_ready C rd es s i \<longleftrightarrow>
     wf_dir (rd_journal rd) \<and> is_ok (verify C (rd_journal rd)) \<and>
     (\<forall>r. verify C (rd_journal rd) = Inr r \<longrightarrow> valid r) \<and>
     (\<forall>a. length (lines_of (rd_journal rd) a) < 2 ^ 64 - 1) \<and>
     intact C (rd_journal rd) (member_id i) \<and> merge_all (rd_journal rd) = Inr es \<and>
     max_lamport_of es \<noteq> - 1 \<and> accepts C new_state es s \<and>
     (\<exists>m. mems s (member_id i) = Some m \<and> keypair C (private_key i) (m_key m)) \<and>
     valid_utf8 (member_id i) \<and> (\<forall>cfg. read_room_config rd = Inr cfg \<longrightarrow> valid_utf8 (rc_id cfg))"

text \<open>What is true of the room after an event the membership rules take from \<open>s\<close> to \<open>s'\<close>.\<close>

definition room_extended :: "crypto \<Rightarrow> room_dir \<Rightarrow> event list \<Rightarrow> event \<Rightarrow> mstate \<Rightarrow> bool" where
  "room_extended C rd es e s' \<longleftrightarrow>
     (\<exists>r. verify C (rd_journal rd) = Inr r \<and> valid r) \<and> merge_all (rd_journal rd) = Inr (es @ [e]) \<and>
     accepts C new_state (es @ [e]) s'"

lemma room_op_extends:
  assumes "room_ready C rd es s i" and "read_room_config rd = Inr cfg"
    and "valid_utf8 now" and "valid_utf8 kind" and "body_ok body" and "kind_of kind \<noteq> RoomCreated"
    and "\<And>ev. ev_kind ev = kind \<Longrightarrow> ev_author ev = member_id i \<Longrightarrow> ev_body ev = body \<Longrightarrow>
      apply_event s ev = Inr s'"
    and "sign_and_append C i rd (room_event C rd cfg (read_journal_stats rd) rand now kind body i) = Inr (e, rd')"
    and "fits e"
  shows "room_extended C rd' es e s'"
proof -
  obtain r m where r: "verify C (rd_journal rd) = Inr r" "valid r" and
    m: "mems s (member_id i) = Some m" "keypair C (private_key i) (m_key m)"
    using assms(1) by (auto simp: room_ready_def is_ok_iff)
  have wf: "wf_event (room_event C rd cfg (read_journal_stats rd) rand now kind body i)"
    using assms(1-5) by (intro room_event_wf) (auto simp: room_ready_def)
  have app: "apply_event s (room_event C rd cfg (read_journal_stats rd) rand now kind body i) = Inr s'"
    by (rule assms(7)) (simp_all add: room_event_fields)
  have "wf_dir (rd_journal rd)" "\<And>a. length (lines_of (rd_journal rd) a) < 2 ^ 64 - 1"
    "intact C (rd_journal rd) (member_id i)" "merge_all (rd_journal rd) = Inr es"
    "max_lamport_of es \<noteq> - 1" "accepts C new_state es s"
    using assms(1) by (auto simp: room_ready_def)
  from room_append_valid[OF this(1) r this(2-6) m wf assms(6) app assms(8,9)] show ?thesis
    by (auto simp: room_extended_def)
qed

lemma owner_member_of: "is_owner s a \<longleftrightarrow> (\<exists>m. mems s a = Some m \<and> m_role m = RoleOwner)"
  by (auto simp: is_owner_def split: option.splits)

text \<open>
  adding a member to a room whose merged history has the caller as owner leaves a journal
  that verifies, whose last event is the addition, and whose membership has the new member,
  filed under the id of its key, with the given name, key, role and kind, and is otherwise
  unchanged.
\<close>
theorem add_member_effect:
  assumes "room_ready C rd es s i" and "is_owner s (member_id i)" and "valid_utf8 now" and "valid_utf8 name"
    and "hex_decode key = Some pub"
    and "add_member C rand now name key r k i rd0 rd = Inr (e, rd')" and "fits e"
  shows "room_extended C rd' es e (s\<lparr>mems := (mems s)(compute_member_id C pub \<mapsto>
    \<lparr>m_id = compute_member_id C pub, m_name = name, m_key = pub, m_role = r, m_kind = k\<rparr>)\<rparr>)"
proof -
  let ?ms = "[(''id'', compute_member_id C pub), (''name'', name), (''public_key'', key),
    (''role'', role_name r), (''kind'', member_kind_name k)]"
  have ok: "length pub = 32" "valid_role r" "valid_kind k" and
    app: "append_signed_member_event C rand now ''member.added'' (marshal_strings ?ms) (read_journal_stats rd) i rd = Inr (e, rd')"
    using assms(5,6) by (auto simp: add_member_def owner_transaction_Inr split: if_splits)
  obtain cfg where cfg: "read_room_config rd = Inr cfg"
    "sign_and_append C i rd (room_event C rd cfg (read_journal_stats rd) rand now ''member.added'' (marshal_strings ?ms) i) = Inr (e, rd')"
    using app by (auto simp: append_signed_member_event_def bind_err_Inr)
  have body: "str_body ?ms"
    using assms(4) ok hex_decode_utf8[OF assms(5)]
    by (simp add: str_body_def compute_member_id_utf8 role_name_utf8 kind_name_utf8)
  have k: "valid_utf8 ''member.added''" by code_simp
  have pk: "pubkey_of key = Some pub" using assms(5) ok by (simp add: pubkey_of_def)
  show ?thesis
    by (rule room_op_extends[OF assms(1) cfg(1) assms(3) k str_body_ok[OF body] _ _ cfg(2) assms(7)])
      (simp_all add: apply_event_kinds apply_member_added_def assms(2) body_fields_marshal[OF body] pk ok)
qed

text \<open>
  Removing a member, on the same conditions, leaves a journal that verifies and a
  membership without that member and otherwise unchanged.
\<close>
theorem remove_member_effect:
  assumes "room_ready C rd es s i" and "is_owner s (member_id i)" and "valid_utf8 now" and "valid_utf8 target"
    and "remove_member C rand now target i rd0 rd = Inr (e, rd')" and "fits e"
  shows "room_extended C rd' es e (s\<lparr>mems := (mems s)(target := None)\<rparr>)"
proof -
  have app: "append_signed_member_event C rand now ''member.removed'' (marshal_strings [(''id'', target)])
      (read_journal_stats rd) i rd = Inr (e, rd')"
    using assms(5) by (auto simp: remove_member_def owner_transaction_Inr split: if_splits)
  obtain cfg where cfg: "read_room_config rd = Inr cfg"
    "sign_and_append C i rd (room_event C rd cfg (read_journal_stats rd) rand now ''member.removed''
       (marshal_strings [(''id'', target)]) i) = Inr (e, rd')"
    using app by (auto simp: append_signed_member_event_def bind_err_Inr)
  have body: "str_body [(''id'', target)]" using assms(4) by (simp add: str_body_def)
  have k: "valid_utf8 ''member.removed''" by code_simp
  show ?thesis
    by (rule room_op_extends[OF assms(1) cfg(1) assms(3) k str_body_ok[OF body] _ _ cfg(2) assms(6)])
      (simp_all add: apply_event_kinds apply_member_removed_def assms(2) body_fields_marshal[OF body])
qed

lemma set_member_role_effect:
  assumes "room_ready C rd es s i" and "is_owner s (member_id i)" and "valid_utf8 now" and "valid_utf8 target"
    and "mems s target = Some m"
    and "set_member_role C rand now target r i rd0 rd = Inr (e, rd')" and "fits e"
  shows "room_extended C rd' es e (s\<lparr>mems := (mems s)(target \<mapsto> m\<lparr>m_role := r\<rparr>)\<rparr>)"
proof -
  have ok: "valid_role r" and
    app: "append_signed_member_event C rand now ''member.role_changed''
      (marshal_strings [(''id'', target), (''role'', role_name r)]) (read_journal_stats rd) i rd = Inr (e, rd')"
    using assms(6) by (auto simp: set_member_role_def owner_transaction_Inr split: if_splits)
  obtain cfg where cfg: "read_room_config rd = Inr cfg"
    "sign_and_append C i rd (room_event C rd cfg (read_journal_stats rd) rand now ''member.role_changed''
       (marshal_strings [(''id'', target), (''role'', role_name r)]) i) = Inr (e, rd')"
    using app by (auto simp: append_signed_member_event_def bind_err_Inr)
  have body: "str_body [(''id'', target), (''role'', role_name r)]"
    using assms(4) ok by (simp add: str_body_def role_name_utf8)
  have k: "valid_utf8 ''member.role_changed''" by code_simp
  show ?thesis
    by (rule room_op_extends[OF assms(1) cfg(1) assms(3) k str_body_ok[OF body] _ _ cfg(2) assms(7)])
      (simp_all add: apply_event_kinds apply_role_changed_def assms(2,5) ok body_fields_marshal[OF body])
qed

text \<open>
  A note or a decision posted by a member of a room in order leaves a journal that verifies
  and the membership as it was; an identity the journal lists as an observer is refused.
\<close>
theorem post_effect:
  assumes "room_ready C rd es s i" and "valid_utf8 now" and "valid_utf8 text" and "list_all valid_utf8 refs"
    and "post_note C rand now text i rd = Inr (e, rd') \<or> record_decision C rand now text refs i rd = Inr (e, rd')"
    and "fits e"
  shows "room_extended C rd' es e s \<and> \<not> is_observer (list_members rd) (member_id i)"
  using assms(5)
proof
  assume p: "post_note C rand now text i rd = Inr (e, rd')"
  obtain cfg where cfg: "read_room_config rd = Inr cfg"
    "sign_and_append C i rd (room_event C rd cfg (read_journal_stats rd) rand now ''note.posted''
       (marshal_strings [(''text'', text)]) i) = Inr (e, rd')"
    "\<not> is_observer (list_members rd) (member_id i)"
    using p by (auto simp: post_note_def bind_err_Inr Let_def list_members_def split: if_splits)
  have "plain_key ''text''" by code_simp
  then have body: "str_body [(''text'', text)]" using assms(3) by (simp add: str_body_def)
  have k: "valid_utf8 ''note.posted''" by code_simp
  have "room_extended C rd' es e s"
    by (rule room_op_extends[OF assms(1) cfg(1) assms(2) k str_body_ok[OF body] _ _ cfg(2) assms(6)])
      (simp_all add: apply_event_kinds)
  with cfg(3) show ?thesis by simp
next
  assume p: "record_decision C rand now text refs i rd = Inr (e, rd')"
  obtain cfg where cfg: "read_room_config rd = Inr cfg"
    "sign_and_append C i rd (room_event C rd cfg (read_journal_stats rd) rand now ''decision.recorded''
       (marshal_fields [(''refs'', JArr (map JStr refs)), (''text'', JStr text)]) i) = Inr (e, rd')"
    "\<not> is_observer (list_members rd) (member_id i)"
    using p by (auto simp: record_decision_def bind_err_Inr Let_def list_members_def split: if_splits)
  have "valid_utf8 ''refs''" "valid_utf8 ''text''" by code_simp+
  then have body: "body_ok (marshal_fields [(''refs'', JArr (map JStr refs)), (''text'', JStr text)])"
    using assms(3,4) unfolding body_ok_def marshal_fields_def
    by (intro exI[of _ "JObj [(''refs'', JArr (map JStr refs)), (''text'', JStr text)]"])
      (simp add: list_all_iff)
  have k: "valid_utf8 ''decision.recorded''" by code_simp
  have "room_extended C rd' es e s"
    by (rule room_op_extends[OF assms(1) cfg(1) assms(2) k body _ _ cfg(2) assms(6)])
      (simp_all add: apply_event_kinds)
  with cfg(3) show ?thesis by simp
qed


section \<open>The order the statistics are read in\<close>

lemma apply_quiet_new:
  assumes "kindof e \<noteq> RoomCreated"
  shows "apply_quiet new_state e = new_state"
  using assms
  by (cases "kindof e") (auto simp: apply_quiet_def apply_event_kinds apply_defs new_state_def is_owner_def
      split: option.splits list.splits)

definition creates_room :: "string \<Rightarrow> bool" where
  "creates_room line = (case unmarshal_json_line line of None \<Rightarrow> False | Some e \<Rightarrow> kindof e = RoomCreated)"

text \<open>The membership part of the statistics, as a replay of its own.\<close>

definition member_line :: "string \<Rightarrow> mstate \<Rightarrow> mstate" where
  "member_line l s = (case unmarshal_json_line l of None \<Rightarrow> s | Some e \<Rightarrow> apply_quiet s e)"

definition member_file :: "string \<times> string \<Rightarrow> mstate \<Rightarrow> mstate" where
  "member_file f s = (if has_suffix (fst f) ''.jsonl'' then fold member_line (text_lines (snd f)) s else s)"

lemma members_stats_line: "js_members (stats_line l st) = member_line l (js_members st)"
  by (cases "unmarshal_json_line l") (simp_all add: stats_line_def member_line_def apply_quiet_def)

lemma members_stats_lines: "js_members (fold stats_line ls st) = fold member_line ls (js_members st)"
  by (induction ls arbitrary: st) (simp_all add: members_stats_line)

lemma members_stats_file: "js_members (stats_file f st) = member_file f (js_members st)"
  by (simp add: stats_file_def member_file_def members_stats_lines)

lemma members_stats_files: "js_members (fold stats_file fs st) = fold member_file fs (js_members st)"
  by (induction fs arbitrary: st) (simp_all add: members_stats_file)

lemma list_members_fold: "list_members rd = fold member_file (rd_journal rd) new_state"
  by (simp add: list_members_def read_journal_stats_def members_stats_files)

lemma member_line_new: "\<not> creates_room l \<Longrightarrow> member_line l new_state = new_state"
  by (simp add: member_line_def creates_room_def apply_quiet_new split: option.splits)

lemma member_lines_new: "(\<And>l. l \<in> set ls \<Longrightarrow> \<not> creates_room l) \<Longrightarrow> fold member_line ls new_state = new_state"
  by (induction ls) (simp_all add: member_line_new)

text \<open>
  The operations that read the membership with \<open>ReadJournalStats\<close> replay the segments in
  directory order, not in the merged order: whatever the segments listed before the one that
  creates the room say about members is lost, owners' additions included.
\<close>
theorem early_segments_ignored:
  assumes "rd_journal rd = pre @ post" and "\<And>n c l. (n, c) \<in> set pre \<Longrightarrow> l \<in> set (text_lines c) \<Longrightarrow> \<not> creates_room l"
  shows "list_members rd = list_members (rd\<lparr>rd_journal := post\<rparr>)"
proof -
  have "fold member_file pre new_state = new_state"
    using assms(2)
  proof (induction pre)
    case (Cons f pre)
    obtain n c where f: "f = (n, c)" by (cases f)
    have "member_file f new_state = new_state"
      using Cons.prems[of n c] member_lines_new[of "text_lines c"] by (simp add: member_file_def f)
    moreover have "fold member_file pre new_state = new_state"
      using Cons.prems by (intro Cons.IH) auto
    ultimately show ?case by simp
  qed simp
  then show ?thesis by (simp add: list_members_fold assms(1))
qed


section \<open>A new room\<close>

text \<open>
  What is relied on of the TOML encoder: a struct of plain values is written as one
  \<open>key = value\<close> line per field, in the order of the fields, the strings in quotes.
\<close>

definition plain_value :: "string \<Rightarrow> bool" where
  "plain_value v \<longleftrightarrow> (\<forall>c \<in> set v. (0x20::nat) \<le> of_char c \<and> of_char c < (0x7F::nat) \<and> c \<noteq> DQ \<and> c \<noteq> BS)"

definition toml_line :: "string \<Rightarrow> string \<Rightarrow> string" where
  "toml_line k v = k @ '' = '' @ DQ # v @ [DQ]"

definition config_text :: "room_config \<Rightarrow> string" where
  "config_text c = ''schema_version = '' @ dec_of_int (rc_schema c) @ LF # toml_line ''id'' (rc_id c) @
     LF # toml_line ''created'' (rc_created c) @ LF # toml_line ''root_pubkey'' (rc_root_pubkey c) @
     LF # toml_line ''root_event'' (rc_root_event c) @ [LF]"

definition toml_ok :: "toml \<Rightarrow> bool" where
  "toml_ok T \<longleftrightarrow> (\<forall>cfg. list_all plain_value [rc_id cfg, rc_created cfg, rc_root_pubkey cfg, rc_root_event cfg] \<longrightarrow>
     toml_room T cfg = config_text cfg)"

text \<open>The room's own line parser reads such a text, except for the schema version, which it skips.\<close>

lemma split_on_Cons: "c \<notin> set l \<Longrightarrow> split_on c (l @ c # s) = l # split_on c s"
  by (induction l) auto

lemma split_on_single: "c \<notin> set l \<Longrightarrow> split_on c l = [l]"
  by (induction l) auto

lemma space_end_printable:
  assumes "of_char c > (0x20::nat)" and "of_char c < (0x80::nat)"
  shows "space_end (s @ [c]) = 0"
proof -
  have ne: "c \<noteq> d" if "of_char d \<le> (0x20::nat) \<or> of_char d \<ge> (0x80::nat)" for d
    using assms that by auto
  have suffix: "\<not> has_suffix (s @ [c]) e" if "e \<noteq> []" "last e \<noteq> c" for e
  proof
    assume h: "has_suffix (s @ [c]) e"
    then have "drop (length (s @ [c]) - length e) (s @ [c]) = e" by (simp add: has_suffix_def)
    then have "last e = last (s @ [c])" using that(1) by (metis append_take_drop_id last_appendR)
    with that show False by simp
  qed
  have ends: "e \<noteq> [] \<and> (of_char (last e) \<le> (0x20::nat) \<or> of_char (last e) \<ge> (0x80::nat))"
    if "e \<in> set space_encodings" for e
    using that by (auto simp: space_encodings_def)
  have "\<not> has_suffix (s @ [c]) e" if "e \<in> set space_encodings" for e
    using ends[OF that] ne[of "last e"] by (intro suffix) auto
  then have "find (has_suffix (s @ [c])) space_encodings = None"
    by (simp add: find_None_iff)
  then show ?thesis by (simp add: space_end_def)
qed

lemma trim_space_quoted: "trim_space (CHR '' '' # DQ # v @ [DQ]) = DQ # v @ [DQ]"
proof -
  have "space_at (CHR '' '' # DQ # v @ [DQ]) = 1"
    by (simp add: space_at_def space_encodings_def has_prefix_def)
  moreover have "space_at (DQ # v @ [DQ]) = 0" by (rule space_at_printable) simp_all
  ultimately have "trim_left (CHR '' '' # DQ # v @ [DQ]) = DQ # v @ [DQ]"
    by (simp add: trim_left.simps[of "CHR '' '' # DQ # v @ [DQ]"] trim_left.simps[of "DQ # v @ [DQ]"])
  moreover have "space_end (DQ # v @ [DQ]) = 0" using space_end_printable[of DQ "DQ # v"] by simp
  ultimately show ?thesis by (simp add: trim_space_def trim_right.simps[of "DQ # v @ [DQ]"])
qed

lemma trim_quotes_quoted:
  assumes "DQ \<notin> set v"
  shows "trim_quotes (DQ # v @ [DQ]) = v"
proof (cases "v = []")
  case False
  then have "hd v \<noteq> DQ" "last v \<noteq> DQ" using assms by (metis hd_in_set last_in_set)+
  then obtain a t b u where v: "v = a # t" "a \<noteq> DQ" "v = u @ [b]" "b \<noteq> DQ"
    using False by (metis append_butlast_last_id list.collapse)
  have "dropWhile ((=) DQ) (DQ # v @ [DQ]) = v @ [DQ]" using v(1,2) by simp
  moreover have "dropWhile ((=) DQ) (rev (v @ [DQ])) = rev v" using v(3,4) by simp
  ultimately show ?thesis by (simp add: trim_quotes_def)
qed (simp add: trim_quotes_def)

lemma trim_keys:
  "trim_space ''id '' = ''id''" "trim_space ''created '' = ''created''"
  "trim_space ''root_pubkey '' = ''root_pubkey''" "trim_space ''root_event '' = ''root_event''"
  "trim_space ''schema_version '' = ''schema_version''"
  by code_simp+

lemma split_eq_line: "CHR ''='' \<notin> set k \<Longrightarrow> split_eq (toml_line k v) = Some (k @ '' '', CHR '' '' # DQ # v @ [DQ])"
  by (simp add: split_eq_def toml_line_def takeWhile_append dropWhile_append)

lemma config_toml_line:
  assumes "CHR ''='' \<notin> set k" and "trim_space (k @ '' '') = k" and "plain_value v"
  shows "config_line (toml_line k v) c =
    (if k = ''id'' then c\<lparr>rc_id := v\<rparr> else if k = ''created'' then c\<lparr>rc_created := v\<rparr>
     else if k = ''root_pubkey'' then c\<lparr>rc_root_pubkey := v\<rparr>
     else if k = ''root_event'' then c\<lparr>rc_root_event := v\<rparr> else c)"
proof -
  have "DQ \<notin> set v" using assms(3) unfolding plain_value_def by blast
  then show ?thesis
    unfolding config_line_def split_eq_line[OF assms(1)]
    by (simp add: assms(2) trim_space_quoted trim_quotes_quoted Let_def)
qed

lemma plain_no_LF: "plain_value v \<Longrightarrow> LF \<notin> set v"
proof
  assume "plain_value v" "LF \<in> set v"
  then have "(0x20::nat) \<le> of_char LF" unfolding plain_value_def by blast
  then show False by simp
qed

lemma dec_no_LF: "LF \<notin> set (dec_of_int n)"
proof -
  have "printable (dec_of_nat m)" for m by (rule printable_nat_lit[OF nat_lit_dec])
  from printable_no_break[OF this] show ?thesis by (simp add: dec_of_int_def)
qed

lemma split_on_five:
  assumes "x \<notin> set a" and "x \<notin> set b" and "x \<notin> set c" and "x \<notin> set d" and "x \<notin> set e"
  shows "split_on x (a @ x # b @ x # c @ x # d @ x # e @ [x]) = [a, b, c, d, e, []]"
  using assms by (simp add: split_on_Cons)

lemma config_text_reads:
  assumes a: "list_all plain_value [rc_id c, rc_created c, rc_root_pubkey c, rc_root_event c]"
  shows "parse_room_config (config_text c) = c\<lparr>rc_schema := 0\<rparr>"
proof -
  from a have lf: "LF \<notin> set (toml_line k (rc_id c))" "LF \<notin> set (toml_line k (rc_created c))"
    "LF \<notin> set (toml_line k (rc_root_pubkey c))" "LF \<notin> set (toml_line k (rc_root_event c))"
    if "LF \<notin> set k" for k
    using that plain_no_LF by (simp_all add: toml_line_def)
  let ?first = "''schema_version = '' @ dec_of_int (rc_schema c)"
  have first: "LF \<notin> set ?first" using dec_no_LF by simp
  have schema: "config_line ?first z = z" for z
  proof -
    have "split_eq ?first = Some (''schema_version '', CHR '' '' # dec_of_int (rc_schema c))"
      by (simp add: split_eq_def)
    then show ?thesis by (simp add: config_line_def trim_keys Let_def)
  qed
  have split: "split_on LF (config_text c) = [?first, toml_line ''id'' (rc_id c),
      toml_line ''created'' (rc_created c), toml_line ''root_pubkey'' (rc_root_pubkey c),
      toml_line ''root_event'' (rc_root_event c), []]"
    unfolding config_text_def append_assoc append_Cons append_Nil
    by (rule split_on_five[of LF "?first", unfolded append_assoc append_Cons append_Nil]) (use first lf in simp_all)
  have empty: "config_line [] z = z" for z by (simp add: config_line_def split_eq_def)
  show "parse_room_config (config_text c) = c\<lparr>rc_schema := 0\<rparr>"
    using a unfolding parse_room_config_def split
    by (simp add: schema[simplified] empty config_toml_line trim_keys[simplified] zero_config_def)
qed

lemma plain_hex: "plain_value (hex_encode b)"
  unfolding plain_value_def
proof
  fix c assume "c \<in> set (hex_encode b)"
  then have "is_alnum_char c" by (rule hex_encode_chars)
  then show "(0x20::nat) \<le> of_char c \<and> of_char c < (0x7F::nat) \<and> c \<noteq> DQ \<and> c \<noteq> BS"
    by (auto simp: is_alnum_char_def Let_def)
qed

lemma plain_utf8: "plain_value v \<Longrightarrow> valid_utf8 v"
proof (rule valid_utf8_ascii)
  show "of_char c < (0x80::nat)" if "plain_value v" "c \<in> set v" for c
  proof -
    have "of_char c < (0x7F::nat)" using that unfolding plain_value_def by blast
    then show ?thesis by simp
  qed
qed

lemma length_marshal_strings:
  "length (jprint_members (str_members ms)) \<le> sum_list (map (\<lambda>(k, v). 6 * (length k + length v) + 6) ms) + 1"
proof (induction ms)
  case (Cons kv ms)
  obtain k v where kv: "kv = (k, v)" by (cases kv)
  show ?case
    using Cons length_quote[of k] length_quote[of v] by (simp add: kv str_members_def)
qed (simp add: str_members_def)

lemma length_marshal:
  "length (marshal_strings ms) \<le> sum_list (map (\<lambda>(k, v). 6 * (length k + length v) + 6) ms) + 2"
proof -
  have "sum_list (map (\<lambda>(k, v). 6 * (length k + length v) + 6) (sort_key fst ms)) =
      sum_list (map (\<lambda>(k, v). 6 * (length k + length v) + 6) ms)"
    by (simp flip: sum_mset_sum_list)
  then show ?thesis
    using length_marshal_strings[of "sort_key fst ms"] by (simp add: marshal_strings_def marshal_fields_def)
qed

lemma created_event_wf:
  assumes "wf_identity C i" and "valid_utf8 name" and "plain_value now"
  shows "wf_event (created_event event_id room_id now name i) \<longleftrightarrow> valid_utf8 event_id \<and> valid_utf8 room_id"
proof -
  have "str_body [(''name'', name), (''public_key'', hex_encode (public_key i))]"
    using assms(2) by (simp add: str_body_def)
  then have "body_ok (marshal_strings [(''name'', name), (''public_key'', hex_encode (public_key i))])"
    by (rule str_body_ok)
  moreover have "valid_utf8 (member_id i)" using assms(1) by (simp add: wf_identity_def compute_member_id_utf8)
  moreover have "valid_utf8 ''room.created''" by code_simp
  moreover have "valid_utf8 zero_hash" by simp
  ultimately show ?thesis
    using plain_utf8[OF assms(3)] by (auto simp: wf_event_def created_event_def current_version_def body_ok_def zero_hash_def)
qed

lemma generate_room_id_utf8 [simp]: "valid_utf8 (generate_room_id r)"
  by (rule valid_utf8_ascii)
    (auto simp: generate_room_id_def is_alnum_char_def Let_def dest!: hex_encode_chars)

definition founder :: "identity \<Rightarrow> string \<Rightarrow> mstate" where
  "founder i name = \<lparr>mems = [member_id i \<mapsto> \<lparr>m_id = member_id i, m_name = name, m_key = public_key i,
     m_role = RoleOwner, m_kind = KindHuman\<rparr>], created = True\<rparr>"

lemma generated_length:
  "length (generate_room_id r) = 3 + 2 * length r" "length (generate_event_id r) = 3 + 2 * length r"
  by (simp_all add: generate_room_id_def generate_event_id_def)

text \<open>The line \<open>Init\<close> writes for a name of at most 8000 bytes fits the scanner.\<close>

lemma created_event_fits:
  assumes "wf_identity C i" and "valid_utf8 name" and "plain_value now" and "sha_ok C" and "short_sigs C i"
    and "length name \<le> 8000" and "length now \<le> 100" and "length r1 \<le> 16" and "length r2 \<le> 16"
    and "sign_event C i (created_event (generate_event_id r2) (generate_room_id r1) now name i) = Some e"
  shows "wf_event e \<and> fits e"
proof -
  let ?ev = "created_event (generate_event_id r2) (generate_room_id r1) now name i"
  have wf: "wf_event e"
    using created_event_wf[OF assms(1-3)] sign_wf[of ?ev C i] assms(10) by auto
  obtain s where e: "e = ?ev\<lparr>ev_v := (if ev_v ?ev = 0 then current_version else ev_v ?ev), ev_sig := s\<rparr>"
    using sign_event_fields[OF assms(10)] by blast
  obtain c where c: "ev_sig e = sig_prefix @ b64_encode (ed_sign C (private_key i) c)"
    using sign_event_sig[OF assms(10)] by blast
  have id: "length (member_id i) = 20"
    using assms(1,4) by (simp add: wf_identity_def compute_member_id_def sha_ok_def)
  have key: "length (public_key i) = 32" using assms(1) by (simp add: wf_identity_def keypair_def)
  have "length (marshal_strings [(''name'', name), (''public_key'', hex_encode (public_key i))])
      \<le> sum_list (map (\<lambda>(k, v). 6 * (length k + length v) + 6)
           [(''name'', name), (''public_key'', hex_encode (public_key i))]) + 2"
    by (rule length_marshal)
  then have body: "length (ev_body e) \<le> 50000"
    using assms(6) key by (simp add: e created_event_def)
  have "fits e"
    by (rule signed_fits[OF wf _ assms(5) c])
      (use body id assms(7-9) in \<open>simp_all add: e created_event_def generated_length\<close>)
  with wf show ?thesis by simp
qed

lemma init_room_facts:
  assumes "wf_identity C i" and "valid_utf8 name" and "plain_value now" and "sha_ok C" and "short_sigs C i"
    and "toml_ok T" and "length name \<le> 8000" and "length now \<le> 100" and "length r1 \<le> 16" and "length r2 \<le> 16"
    and "init_room C T r1 r2 now name i rd = Inr (cfg, rd')"
  shows "\<exists>e. kindof e = RoomCreated \<and> room_ready C rd' [e] (founder i name) i \<and>
    read_room_config rd' = Inr (cfg\<lparr>rc_schema := 0\<rparr>) \<and> list_members rd' = founder i name \<and>
    replay_members C (rc_root_event cfg) (rc_root_pubkey cfg) [e] = founder i name \<and>
    ev_room e = rc_id cfg \<and> ev_lamport e = 1"
proof -
  let ?ev = "created_event (generate_event_id r2) (generate_room_id r1) now name i"
  have wfi: "length (public_key i) = 32" "member_id i = compute_member_id C (public_key i)"
    "keypair C (private_key i) (public_key i)"
    using assms(1) by (auto simp: wf_identity_def keypair_def)
  have wfev: "wf_event ?ev" by (simp add: created_event_wf[OF assms(1-3)])
  obtain e where e: "sign_event C i ?ev = Some e" "wf_event e" using sign_wf[OF wfev] by blast
  have fits: "fits e"
    using created_event_fits[OF assms(1-5,7-10) e(1)] by simp
  obtain sg where es: "e = ?ev\<lparr>ev_v := (if ev_v ?ev = 0 then current_version else ev_v ?ev), ev_sig := sg\<rparr>"
    using sign_event_fields[OF e(1)] by blast
  have empty: "rd_journal rd = []" "\<not> has_entries rd"
    using assms(11) by (auto simp: init_room_def has_entries_def split: if_splits)
  have cfg: "cfg = \<lparr>rc_schema = 1, rc_id = generate_room_id r1, rc_created = now,
      rc_root_pubkey = ''ed25519:'' @ hex_encode (public_key i), rc_root_event = generate_event_id r2\<rparr>" and
    d': "rd_journal rd' = write_line [] (ev_author e) (line_text e @ [LF])" and toml: "rd_toml rd' = Some (toml_room T cfg)"
    using assms(11) empty e
    by (auto simp: init_room_def Let_def marshal_line_text write_line_def segment_def segment_path_def es created_event_def)
  have f: "ev_author e = member_id i" "kindof e = RoomCreated" "ev_id e = generate_event_id r2"
    "ev_body e = created_body name (public_key i)" "ev_lamport e = 1"
    by (simp_all add: es created_event_def created_body_def)
  have sig: "verify_signature C (public_key i) e = Inr ()" by (rule verify_sign[OF wfi(3) e(1)])
  have app: "apply_event new_state e = Inr (founder i name)"
    using f wfi(1) assms(2)
    by (simp add: apply_event_kinds apply_room_created_def created_body_fields new_state_def founder_def)
  then have acc: "accepts C new_state [e] (founder i name)" using f sig by (auto simp: accepts_Cons founder_def)
  have seq: "ev_seq e = of_nat (length (lines_of [] (ev_author e))) + 1"
    "ev_prev e = (if lines_of [] (ev_author e) = [] then zero_hash
                  else compute_line_hash C (last (lines_of [] (ev_author e))))"
    by (simp_all add: lines_of_empty es created_event_def zero_hash_def)
  have small: "length (lines_of [] a) < 2 ^ 64 - 1" for a by (simp add: lines_of_empty)
  obtain r where r: "verify C (rd_journal rd') = Inr r" "valid r" "merge_all (rd_journal rd') = Inr [e]"
    "wf_dir (rd_journal rd')" "intact C (rd_journal rd') (member_id i)"
    using append_keeps_valid[OF empty_dir(1) verify_empty small empty_dir(2,3) accepts_none acc e(2) fits seq _ d']
    by (auto simp: f(1))
  have lines: "length (lines_of (rd_journal rd') a) < 2 ^ 64 - 1" for a
    using segment_append(1)[OF empty_dir(2) e(2) fits, of "ev_author e"]
    by (cases "a = ev_author e") (simp_all add: d' lines_of_other lines_of_empty)
  have plain: "list_all plain_value [rc_id cfg, rc_created cfg, rc_root_pubkey cfg, rc_root_event cfg]"
  proof -
    have app: "plain_value (a @ b) \<longleftrightarrow> plain_value a \<and> plain_value b" for a b
      by (auto simp: plain_value_def)
    have "plain_value ''rm_''" "plain_value ''ev_''" "plain_value ''ed25519:''" by (simp_all add: plain_value_def)
    then show ?thesis
      using assms(3) by (simp add: cfg generate_room_id_def generate_event_id_def app plain_hex del: append_Cons)
  qed
  then have read: "read_room_config rd' = Inr (cfg\<lparr>rc_schema := 0\<rparr>)"
    using assms(6) config_text_reads[OF plain] plain by (simp add: read_room_config_def toml toml_ok_def)
  have "room_ready C rd' [e] (founder i name) i"
    using r acc lines read plain wfi f(5)
    by (auto simp: room_ready_def founder_def plain_utf8 compute_member_id_utf8 max_lamport_of_def)
  moreover have "list_members rd' = founder i name"
  proof -
    obtain segs where segs: "read_all_segments (rd_journal rd') = Inr segs" "merge segs = [e]"
      using r(3) by (auto simp: merge_all_Inr)
    have "mset (concat (map snd segs)) = mset [e]"
      using segs(2) mset_sort_events[of "concat (map snd segs)"] by (simp add: merge_def)
    then have "concat (map snd segs) = [e]" by simp
    then show ?thesis
      using read_journal_stats_eq[OF r(4) segs(1)] app
      by (simp add: list_members_def stats_of_def apply_quiet_def)
  qed
  moreover have "replay_members C (rc_root_event cfg) (rc_root_pubkey cfg) [e] = founder i name"
    using creation_accepted[OF assms(2,1) f(2,4,1) sig] f(3)
    by (simp add: replay_members_def member_step_def cfg founder_def)
  moreover have "ev_room e = rc_id cfg" by (simp add: es created_event_def cfg)
  ultimately show ?thesis using read f(2,5) by blast
qed

text \<open>
  C33: \<open>Init\<close> on an empty directory, with a name of at most 8000 bytes, gives a room in order: a
  journal that verifies and holds the creation alone, a configuration whose identifier, creation time,
  root key and root event read back (the schema version does not: the reader skips it and reports 0),
  and the caller as its only member and owner, both for the plain replay and for the replay bound to
  the configured root event and key. Of the TOML encoder it relies on one quoted line per field.
\<close>
theorem init_room_ready:
  assumes "wf_identity C i" and "valid_utf8 name" and "plain_value now" and "sha_ok C" and "short_sigs C i"
    and "toml_ok T" and "length name \<le> 8000" and "length now \<le> 100" and "length r1 \<le> 16" and "length r2 \<le> 16"
    and "init_room C T r1 r2 now name i rd = Inr (cfg, rd')"
  shows "\<exists>e. kindof e = RoomCreated \<and> room_ready C rd' [e] (founder i name) i \<and>
    read_room_config rd' = Inr (cfg\<lparr>rc_schema := 0\<rparr>) \<and> list_members rd' = founder i name \<and>
    replay_members C (rc_root_event cfg) (rc_root_pubkey cfg) [e] = founder i name"
  using init_room_facts[OF assms] by blast


section \<open>Rooms that compute\<close>

text \<open>An encoder that writes these flat tables.\<close>

definition plain_toml :: toml where
  "plain_toml =
     \<lparr>toml_room = config_text,
      toml_local = \<lambda>c. toml_line ''identity'' (lc_identity c) @ LF # toml_line ''artifact_root'' (lc_artifact_root c) @ [LF]\<rparr>"

lemma plain_toml_ok: "toml_ok plain_toml"
  by (simp add: toml_ok_def plain_toml_def)

lemma room_event_fits:
  assumes "wf_event (room_event C rd cfg stats rand now kind body i)" and "sha_ok C" and "short_sigs C i"
    and "sign_and_append C i rd (room_event C rd cfg stats rand now kind body i) = Inr (e, rd')"
    and "6 * (length (member_id i) + 2 * length rand + 3 + length kind + length (rc_id cfg) + length now) +
      length body \<le> 64000"
  shows "fits e"
proof -
  let ?ev = "room_event C rd cfg stats rand now kind body i"
  note sa = sign_and_append_Inr[OF assms(1,4)]
  obtain c where c: "ev_sig e = sig_prefix @ b64_encode (ed_sign C (private_key i) c)"
    using sa sign_event_sig by blast
  obtain sg where e: "e = ?ev\<lparr>ev_v := (if ev_v ?ev = 0 then current_version else ev_v ?ev), ev_sig := sg\<rparr>"
    using sa by blast
  have "length (ev_prev e) \<le> 71"
    using assms(2) by (simp add: e room_event_fields zero_hash_def compute_line_hash_def sha_ok_def)
  moreover have "6 * (length (ev_author e) + length (ev_id e) + length (ev_kind e) + length (ev_room e) +
      length (ev_ts e)) + length (ev_body e) \<le> 64000"
    using assms(5) by (simp add: e room_event_fields generated_length add.commute add.left_commute)
  ultimately show ?thesis using signed_fits[OF conjunct1[OF sa] _ assms(3) c] by blast
qed

definition zeros :: "nat \<Rightarrow> bytes" where
  "zeros n = replicate n (CHR 0x00)"

lemma sample_init:
  "\<exists>cfg rd. init_room toy_crypto plain_toml (zeros 8) (zeros 10) ''2026-01-01'' ''lab'' alice empty_room = Inr (cfg, rd)"
proof -
  have "valid_utf8 ''lab''" by code_simp
  moreover have "plain_value ''2026-01-01''" by (simp add: plain_value_def)
  ultimately have "wf_event (created_event (generate_event_id (zeros 10)) (generate_room_id (zeros 8)) ''2026-01-01'' ''lab'' alice)"
    by (simp add: created_event_wf[OF alice_wf])
  from sign_wf[OF this] obtain e where
    "sign_event toy_crypto alice (created_event (generate_event_id (zeros 10)) (generate_room_id (zeros 8)) ''2026-01-01'' ''lab'' alice) = Some e"
    "wf_event e" by blast
  then show ?thesis by (simp add: init_room_def has_entries_def empty_room_def marshal_line_text Let_def)
qed

theorem init_room_ready_witness:
  "\<exists>cfg rd e. init_room toy_crypto plain_toml (zeros 8) (zeros 10) ''2026-01-01'' ''lab'' alice empty_room = Inr (cfg, rd) \<and>
     room_ready toy_crypto rd [e] (founder alice ''lab'') alice \<and> list_members rd = founder alice ''lab'' \<and>
     read_room_config rd = Inr (cfg\<lparr>rc_schema := 0\<rparr>)"
proof -
  obtain cfg rd where i: "init_room toy_crypto plain_toml (zeros 8) (zeros 10) ''2026-01-01'' ''lab'' alice empty_room = Inr (cfg, rd)"
    using sample_init by blast
  have u: "valid_utf8 ''lab''" by code_simp
  have p: "plain_value ''2026-01-01''" by (simp add: plain_value_def)
  from init_room_ready[OF alice_wf u p toy_sha_ok alice_short_sigs plain_toml_ok _ _ _ _ i] i show ?thesis
    by (auto simp: zeros_def)
qed

lemma sample_ready:
  "\<exists>cfg rd e. room_ready toy_crypto rd [e] (founder alice ''lab'') alice \<and> list_members rd = founder alice ''lab'' \<and>
     read_room_config rd = Inr cfg \<and> length (rc_id cfg) = 19 \<and> valid_utf8 (rc_id cfg)"
proof -
  obtain cfg rd where i: "init_room toy_crypto plain_toml (zeros 8) (zeros 10) ''2026-01-01'' ''lab'' alice empty_room = Inr (cfg, rd)"
    using sample_init by blast
  have u: "valid_utf8 ''lab''" by code_simp
  have p: "plain_value ''2026-01-01''" by (simp add: plain_value_def)
  have "rc_id cfg = generate_room_id (zeros 8)"
    using i by (auto simp: init_room_def Let_def split: option.splits if_splits)
  then have "length (rc_id cfg) = 19" "valid_utf8 (rc_id cfg)" by (simp_all add: generated_length zeros_def)
  moreover obtain e where "room_ready toy_crypto rd [e] (founder alice ''lab'') alice"
    "list_members rd = founder alice ''lab''" "read_room_config rd = Inr (cfg\<lparr>rc_schema := 0\<rparr>)"
    using init_room_facts[OF alice_wf u p toy_sha_ok alice_short_sigs plain_toml_ok _ _ _ _ i] by (auto simp: zeros_def)
  ultimately show ?thesis by (intro exI[of _ "cfg\<lparr>rc_schema := 0\<rparr>"] exI[of _ rd] exI[of _ e]) simp
qed

text \<open>A small event of the room's owner is written and fits the scanner.\<close>

lemma sample_append:
  assumes "room_ready toy_crypto rd es s alice" and "valid_utf8 (rc_id cfg)" and "length (rc_id cfg) = 19"
    and "valid_utf8 kind" and "body_ok body" and "length kind + length body \<le> 9000"
  shows "\<exists>e rd'. sign_and_append toy_crypto alice rd
      (room_event toy_crypto rd cfg stats (zeros 10) ''2026-01-02'' kind body alice) = Inr (e, rd') \<and> fits e"
proof -
  have "valid_utf8 ''2026-01-02''" by code_simp
  then have wf: "wf_event (room_event toy_crypto rd cfg stats (zeros 10) ''2026-01-02'' kind body alice)"
    using assms by (intro room_event_wf) (auto simp: room_ready_def)
  obtain e rd' where sa: "sign_and_append toy_crypto alice rd
      (room_event toy_crypto rd cfg stats (zeros 10) ''2026-01-02'' kind body alice) = Inr (e, rd')"
    using sign_and_append_total[OF wf] by blast
  have "fits e"
    by (rule room_event_fits[OF wf toy_sha_ok alice_short_sigs sa])
      (use assms(3,6) alice_id_length in \<open>simp add: zeros_def\<close>)
  with sa show ?thesis by blast
qed

definition bob_key :: bytes where
  "bob_key = replicate 32 (CHR ''b'')"

definition bob :: string where
  "bob = compute_member_id toy_crypto bob_key"

lemma founder_owner [simp]: "is_owner (founder i n) (member_id i)"
  by (simp add: is_owner_def founder_def)

lemma sample_add:
  assumes "room_ready toy_crypto rd es s alice" and "list_members rd = founder alice ''lab''"
    and "read_room_config rd = Inr cfg" and "length (rc_id cfg) = 19" and "valid_utf8 (rc_id cfg)"
  shows "\<exists>e rd'. add_member toy_crypto (zeros 10) ''2026-01-02'' ''bob'' (hex_encode bob_key) RoleMember KindHuman
    alice rd rd = Inr (e, rd') \<and> fits e"
proof -
  let ?ms = "[(''id'', bob), (''name'', ''bob''), (''public_key'', hex_encode bob_key),
    (''role'', ''member''), (''kind'', ''human'')]"
  have "valid_utf8 ''bob''" "valid_utf8 ''member''" "valid_utf8 ''human''" "valid_utf8 ''member.added''" by code_simp+
  then have body: "str_body ?ms" by (simp add: str_body_def bob_def compute_member_id_utf8)
  have "length bob = 20" by (simp add: bob_def compute_member_id_def toy_crypto_def)
  then have "length (marshal_strings ?ms) \<le> 2000"
    using length_marshal[of ?ms] by (simp add: bob_key_def)
  then obtain e rd' where "sign_and_append toy_crypto alice rd (room_event toy_crypto rd cfg (read_journal_stats rd)
      (zeros 10) ''2026-01-02'' ''member.added'' (marshal_strings ?ms) alice) = Inr (e, rd')" "fits e"
    using sample_append[OF assms(1,5,4), of "''member.added''" "marshal_strings ?ms" "read_journal_stats rd"] str_body_ok[OF body]
      \<open>valid_utf8 ''member.added''\<close> by auto
  then show ?thesis
    using assms(2,3)
    by (simp add: add_member_def owner_transaction_Inr append_signed_member_event_def valid_role_def valid_kind_def
        with_owner_transaction_def require_owner_def list_members_def Let_def bob_def bob_key_def)
qed

theorem membership_ops_owner_only_witness:
  "\<exists>rd e rd'. add_member toy_crypto (zeros 10) ''2026-01-02'' ''bob'' (hex_encode bob_key) RoleMember KindHuman
      alice rd rd = Inr (e, rd') \<and> is_owner (list_members rd) (member_id alice) \<and> ev_author e = member_id alice"
proof -
  obtain cfg rd e0 where r: "room_ready toy_crypto rd [e0] (founder alice ''lab'') alice"
    "list_members rd = founder alice ''lab''" "read_room_config rd = Inr cfg" "length (rc_id cfg) = 19"
    "valid_utf8 (rc_id cfg)" using sample_ready by blast
  obtain e rd' where a: "add_member toy_crypto (zeros 10) ''2026-01-02'' ''bob'' (hex_encode bob_key) RoleMember
      KindHuman alice rd rd = Inr (e, rd')"
    using sample_add[OF r] by blast
  from membership_ops_owner_only[OF disjI1[OF a]] a show ?thesis by blast
qed

theorem add_member_effect_witness:
  "\<exists>rd es e rd' s'. add_member toy_crypto (zeros 10) ''2026-01-02'' ''bob'' (hex_encode bob_key) RoleMember KindHuman
      alice rd rd = Inr (e, rd') \<and> room_extended toy_crypto rd' es e s' \<and>
      mems s' bob = Some \<lparr>m_id = bob, m_name = ''bob'', m_key = bob_key, m_role = RoleMember, m_kind = KindHuman\<rparr>"
proof -
  obtain cfg rd e0 where r: "room_ready toy_crypto rd [e0] (founder alice ''lab'') alice"
    "list_members rd = founder alice ''lab''" "read_room_config rd = Inr cfg" "length (rc_id cfg) = 19"
    "valid_utf8 (rc_id cfg)" using sample_ready by blast
  obtain e rd' where a: "add_member toy_crypto (zeros 10) ''2026-01-02'' ''bob'' (hex_encode bob_key) RoleMember
      KindHuman alice rd rd = Inr (e, rd')" "fits e"
    using sample_add[OF r] by blast
  have u: "valid_utf8 ''2026-01-02''" "valid_utf8 ''bob''" by code_simp+
  from add_member_effect[OF r(1) founder_owner u hex_decode_encode a] a(1) show ?thesis
    by (intro exI[of _ rd] exI[of _ "[e0]"] exI[of _ e] exI[of _ rd']) (auto simp: bob_def)
qed

theorem remove_member_effect_witness:
  "\<exists>rd es e rd' s'. remove_member toy_crypto (zeros 10) ''2026-01-02'' (member_id alice) alice rd rd = Inr (e, rd') \<and>
     room_extended toy_crypto rd' es e s' \<and> mems s' (member_id alice) = None"
proof -
  obtain cfg rd e0 where r: "room_ready toy_crypto rd [e0] (founder alice ''lab'') alice"
    "list_members rd = founder alice ''lab''" "read_room_config rd = Inr cfg" "length (rc_id cfg) = 19"
    "valid_utf8 (rc_id cfg)" using sample_ready by blast
  have u: "valid_utf8 ''2026-01-02''" "valid_utf8 ''member.removed''" by code_simp+
  have ua: "valid_utf8 (member_id alice)" by (simp add: alice_def compute_member_id_utf8)
  have body: "str_body [(''id'', member_id alice)]" using ua by (simp add: str_body_def)
  have "length (marshal_strings [(''id'', member_id alice)]) \<le> 2000"
    using length_marshal[of "[(''id'', member_id alice)]"] alice_id_length by simp
  then obtain e rd' where sa: "sign_and_append toy_crypto alice rd (room_event toy_crypto rd cfg (read_journal_stats rd)
      (zeros 10) ''2026-01-02'' ''member.removed'' (marshal_strings [(''id'', member_id alice)]) alice) = Inr (e, rd')" "fits e"
    using sample_append[OF r(1,5,4) u(2) str_body_ok[OF body], of "read_journal_stats rd"] by auto
  have "remove_member toy_crypto (zeros 10) ''2026-01-02'' (member_id alice) alice rd rd = Inr (e, rd')"
    using r(2,3) sa(1) by (simp add: remove_member_def owner_transaction_Inr append_signed_member_event_def
        with_owner_transaction_def require_owner_def list_members_def Let_def founder_def is_owner_def)
  from remove_member_effect[OF r(1) founder_owner u(1) ua this sa(2)] this show ?thesis
    by (intro exI[of _ rd] exI[of _ "[e0]"] exI[of _ e] exI[of _ rd']) auto
qed

theorem post_effect_witness:
  "\<exists>rd es e rd'. post_note toy_crypto (zeros 10) ''2026-01-02'' ''hello'' alice rd = Inr (e, rd') \<and>
     room_extended toy_crypto rd' es e (founder alice ''lab'')"
proof -
  obtain cfg rd e0 where r: "room_ready toy_crypto rd [e0] (founder alice ''lab'') alice"
    "list_members rd = founder alice ''lab''" "read_room_config rd = Inr cfg" "length (rc_id cfg) = 19"
    "valid_utf8 (rc_id cfg)" using sample_ready by blast
  have u: "valid_utf8 ''2026-01-02''" "valid_utf8 ''note.posted''" "valid_utf8 ''hello''" "plain_key ''text''" by code_simp+
  have body: "str_body [(''text'', ''hello'')]" using u by (simp add: str_body_def)
  have "length (marshal_strings [(''text'', ''hello'')]) \<le> 2000"
    using length_marshal[of "[(''text'', ''hello'')]"] by simp
  then obtain e rd' where sa: "sign_and_append toy_crypto alice rd (room_event toy_crypto rd cfg (read_journal_stats rd)
      (zeros 10) ''2026-01-02'' ''note.posted'' (marshal_strings [(''text'', ''hello'')]) alice) = Inr (e, rd')" "fits e"
    using sample_append[OF r(1,5,4) u(2) str_body_ok[OF body], of "read_journal_stats rd"] by auto
  have p: "post_note toy_crypto (zeros 10) ''2026-01-02'' ''hello'' alice rd = Inr (e, rd')"
    using r(2,3) sa(1) by (simp add: post_note_def Let_def is_observer_def founder_def flip: list_members_def)
  have "list_all valid_utf8 []" by simp
  from post_effect[OF r(1) u(1,3) this disjI1[OF p] sa(2)] p show ?thesis by blast
qed

theorem early_segments_ignored_witness:
  "\<exists>e. kindof e = NotePosted \<and>
     list_members (empty_room\<lparr>rd_journal := [(''a.jsonl'', line_text e @ [LF])]\<rparr>) = list_members empty_room"
proof -
  obtain e d' where p: "publish toy_crypto alice [] sample_note = Inr (e, d')"
    using publish_eq[OF sample_note_wf] by blast
  have e: "wf_event e" "kindof e = NotePosted"
    using publish_fields[OF sample_note_wf p] publish_Inr[OF sample_note_wf p] by (simp_all add: sample_note_def)
  have "text_lines ([] @ line_text e @ [LF]) = text_lines [] @ [line_text e]"
    by (rule text_lines_snoc) (simp_all add: line_text_plain_line[OF e(1) sample_note_fits[OF p]])
  then have "\<not> creates_room l" if "l \<in> set (text_lines (line_text e @ [LF]))" for l
    using that e unmarshal_line_text[OF e(1)] by (simp add: creates_room_def)
  then show ?thesis
    using early_segments_ignored[of "empty_room\<lparr>rd_journal := [(''a.jsonl'', line_text e @ [LF])]\<rparr>"
        "[(''a.jsonl'', line_text e @ [LF])]" "[]"] e(2)
    by (intro exI[of _ e]) (simp add: empty_room_def)
qed

lemma sample_rooted:
  "\<exists>cfg rd e. room_ready toy_crypto rd [e] (founder alice ''lab'') alice \<and> read_room_config rd = Inr cfg \<and>
     rc_id cfg = generate_room_id (zeros 8) \<and> (\<forall>a. a \<noteq> member_id alice \<longrightarrow> segment (rd_journal rd) a = None) \<and> ev_room e = rc_id cfg \<and> ev_lamport e = 1 \<and> kindof e = RoomCreated \<and>
     replay_members toy_crypto (rc_root_event cfg) (rc_root_pubkey cfg) [e] = founder alice ''lab''"
proof -
  obtain cfg rd where i: "init_room toy_crypto plain_toml (zeros 8) (zeros 10) ''2026-01-01'' ''lab'' alice empty_room = Inr (cfg, rd)"
    using sample_init by blast
  have u: "valid_utf8 ''lab''" by code_simp
  have p: "plain_value ''2026-01-01''" by (simp add: plain_value_def)
  have id: "rc_id cfg = generate_room_id (zeros 8)"
    using i by (auto simp: init_room_def Let_def split: option.splits if_splits)
  have other: "\<forall>a. a \<noteq> member_id alice \<longrightarrow> segment (rd_journal rd) a = None"
    using i by (auto simp: init_room_def has_entries_def empty_room_def segment_def segment_path_def Let_def
        split: option.splits if_splits)
  obtain e where "room_ready toy_crypto rd [e] (founder alice ''lab'') alice"
    "read_room_config rd = Inr (cfg\<lparr>rc_schema := 0\<rparr>)" "ev_room e = rc_id cfg" "ev_lamport e = 1" "kindof e = RoomCreated"
    "replay_members toy_crypto (rc_root_event cfg) (rc_root_pubkey cfg) [e] = founder alice ''lab''"
    using init_room_facts[OF alice_wf u p toy_sha_ok alice_short_sigs plain_toml_ok _ _ _ _ i] by (auto simp: zeros_def)
  then show ?thesis using id other by (intro exI[of _ "cfg\<lparr>rc_schema := 0\<rparr>"] exI[of _ rd] exI[of _ e]) simp
qed

end
