(* ===== verification/Runs.thy ===== *)
theory Runs
  imports Rooms "HOL-Library.AList"
begin

text \<open>
  Agent runs: \<open>internal/room/run\<close> (\<open>run.go\<close>, \<open>checkpoint.go\<close>, \<open>wait.go\<close>, \<open>adapter.go\<close>).  A run is
  nothing but a projection of the merged journal; every operation checks the projected run and
  publishes one event.  Go's map of runs is a list of pairs without duplicate ids, in the order
  of first request; the code iterates over it only in \<open>List\<close> and to attach checkpoints, in an
  order Go leaves open.  \<open>clock\<close> holds what the code asks of the \<open>time\<close> package: the current
  instant and the RFC 3339 text of instants.
\<close>

section \<open>Runs and checkpoints\<close>

datatype run_state =
  StateRequested | StateApproved | StateDenied | StateStarted | StateFinished | StateFailed | StateCancelled

record checkpoint =
  c_id :: string
  c_run :: string
  c_question :: string
  c_answer :: string
  c_resolved :: bool
  c_author :: string
  c_created :: string
  c_updated :: string

record run =
  r_id :: string
  r_title :: string
  r_plan_file :: string
  r_adapter :: string
  r_state :: run_state
  r_author :: string
  r_created :: string
  r_updated :: string
  r_approval :: string
  r_scope :: string
  r_expires :: string
  r_summary :: string
  r_error :: string
  r_artifacts :: "string list"
  r_checkpoints :: "checkpoint list"

datatype run_error =
    RunNotFound | InvalidTransition run_state | ApprovalExpired string
  | RoomError room_error | MergeError journal_error
  | AgentResolveForbidden | CheckpointNotFound | CheckpointAlreadyResolved | ReplayError member_error
  | WaitTimeout | WaitCancelled | RunDenied string | RunCancelledError
  | AdapterNotApproved | AdapterNotFound string | AdapterFailed string

record clock =
  now :: int
  rfc3339 :: "int \<Rightarrow> string"
  parse_rfc3339 :: "string \<Rightarrow> int option"


section \<open>Projection\<close>

text \<open>The runs and the membership \<open>projectRuns\<close> carries along the events.\<close>

record projection =
  pj_members :: mstate
  pj_runs :: "(string \<times> run) list"

definition membership_kind :: "event_kind \<Rightarrow> bool" where
  "membership_kind k \<longleftrightarrow> k \<in> {RoomCreated, MemberAdded, MemberRemoved, MemberRoleChanged}"

definition approval_authorized :: "crypto \<Rightarrow> mstate \<Rightarrow> event \<Rightarrow> bool" where
  "approval_authorized C s e =
     (case mems s (ev_author e) of
        None \<Rightarrow> False
      | Some m \<Rightarrow> can_perform m Approve \<and> verify_signature C (m_key m) e = Inr () \<and> is_ok (apply_event s e))"

text \<open>
  \<open>projectRuns\<close> replays membership against the configured root event and key when it is given
  one, and against the first self-signed creation otherwise.
\<close>

definition project_member :: "crypto \<Rightarrow> (string \<times> string) option \<Rightarrow> mstate \<Rightarrow> event \<Rightarrow> mstate" where
  "project_member C root s e =
     (case root of
        Some (root_event, root_pubkey) \<Rightarrow> member_step C root_event root_pubkey s e
      | None \<Rightarrow> (case apply_signed_event C s e of Inl _ \<Rightarrow> s | Inr s' \<Rightarrow> s'))"

definition change_run :: "string \<Rightarrow> (run \<Rightarrow> run) \<Rightarrow> (string \<times> run) list \<Rightarrow> (string \<times> run) list" where
  "change_run i f rs = (case map_of rs i of None \<Rightarrow> rs | Some r \<Rightarrow> AList.update i (f r) rs)"

definition new_run :: "event \<Rightarrow> string \<Rightarrow> string \<Rightarrow> string \<Rightarrow> string \<Rightarrow> run" where
  "new_run e i title plan adapter =
     \<lparr>r_id = i, r_title = title, r_plan_file = plan, r_adapter = adapter, r_state = StateRequested,
      r_author = ev_author e, r_created = ev_ts e, r_updated = ev_ts e, r_approval = [], r_scope = [],
      r_expires = [], r_summary = [], r_error = [], r_artifacts = [], r_checkpoints = []\<rparr>"

definition project_requested :: "event \<Rightarrow> (string \<times> run) list \<Rightarrow> (string \<times> run) list" where
  "project_requested e rs =
     (case body_fields [''run_id'', ''title'', ''plan_file'', ''adapter''] (ev_body e) of
        Some [i, title, plan, adapter] \<Rightarrow>
          if i = [] then rs else AList.update i (new_run e i title plan adapter) rs
      | _ \<Rightarrow> rs)"

definition project_approved :: "event \<Rightarrow> (string \<times> run) list \<Rightarrow> (string \<times> run) list" where
  "project_approved e rs =
     (case body_fields [''run_id'', ''approval_id'', ''scope'', ''expires_at''] (ev_body e) of
        Some [i, app, scope, expires] \<Rightarrow>
          change_run i (\<lambda>r. r\<lparr>r_state := StateApproved, r_approval := app, r_scope := scope,
            r_expires := expires, r_updated := ev_ts e\<rparr>) rs
      | _ \<Rightarrow> rs)"

text \<open>\<open>run.denied\<close>, \<open>run.failed\<close> and \<open>run.cancelled\<close> set a state and the error from one field.\<close>

definition project_error ::
    "run_state \<Rightarrow> string \<Rightarrow> event \<Rightarrow> (string \<times> run) list \<Rightarrow> (string \<times> run) list" where
  "project_error st name e rs =
     (case body_fields [''run_id'', name] (ev_body e) of
        Some [i, msg] \<Rightarrow> change_run i (\<lambda>r. r\<lparr>r_state := st, r_error := msg, r_updated := ev_ts e\<rparr>) rs
      | _ \<Rightarrow> rs)"

definition project_started :: "event \<Rightarrow> (string \<times> run) list \<Rightarrow> (string \<times> run) list" where
  "project_started e rs =
     (case body_fields [''run_id''] (ev_body e) of
        Some [i] \<Rightarrow> change_run i (\<lambda>r. r\<lparr>r_state := StateStarted, r_updated := ev_ts e\<rparr>) rs
      | _ \<Rightarrow> rs)"

definition project_finished :: "event \<Rightarrow> (string \<times> run) list \<Rightarrow> (string \<times> run) list" where
  "project_finished e rs =
     (case (body_fields [''run_id'', ''summary''] (ev_body e), body_strs ''artifacts'' (ev_body e)) of
        (Some [i, summary], Some artifacts) \<Rightarrow>
          change_run i (\<lambda>r. r\<lparr>r_state := StateFinished, r_summary := summary, r_artifacts := artifacts,
            r_updated := ev_ts e\<rparr>) rs
      | _ \<Rightarrow> rs)"

definition project_run :: "crypto \<Rightarrow> mstate \<Rightarrow> event \<Rightarrow> (string \<times> run) list \<Rightarrow> (string \<times> run) list" where
  "project_run C s e rs =
     (case kindof e of
        RunRequested \<Rightarrow> project_requested e rs
      | RunApproved \<Rightarrow> if approval_authorized C s e then project_approved e rs else rs
      | event_kind.RunDenied \<Rightarrow> project_error StateDenied ''reason'' e rs
      | RunStarted \<Rightarrow> project_started e rs
      | RunFinished \<Rightarrow> project_finished e rs
      | RunFailed \<Rightarrow> project_error StateFailed ''error'' e rs
      | RunCancelled \<Rightarrow> project_error StateCancelled ''reason'' e rs
      | _ \<Rightarrow> rs)"

definition project_step :: "crypto \<Rightarrow> (string \<times> string) option \<Rightarrow> projection \<Rightarrow> event \<Rightarrow> projection" where
  "project_step C root p e =
     (if membership_kind (kindof e) then p\<lparr>pj_members := project_member C root (pj_members p) e\<rparr>
      else p\<lparr>pj_runs := project_run C (pj_members p) e (pj_runs p)\<rparr>)"

definition new_projection :: projection where
  "new_projection = \<lparr>pj_members = new_state, pj_runs = []\<rparr>"


section \<open>Checkpoints\<close>

definition project_checkpoint :: "(string \<times> checkpoint) list \<Rightarrow> event \<Rightarrow> (string \<times> checkpoint) list" where
  "project_checkpoint cs e =
     (case kindof e of
        CheckpointReq \<Rightarrow>
          (case body_fields [''checkpoint_id'', ''run_id'', ''question''] (ev_body e) of
             Some [i, rid, q] \<Rightarrow>
               if i = [] then cs
               else AList.update i \<lparr>c_id = i, c_run = rid, c_question = q, c_answer = [], c_resolved = False,
                 c_author = ev_author e, c_created = ev_ts e, c_updated = ev_ts e\<rparr> cs
           | _ \<Rightarrow> cs)
      | CheckpointResolved \<Rightarrow>
          (case body_fields [''checkpoint_id'', ''answer''] (ev_body e) of
             Some [i, a] \<Rightarrow>
               (case map_of cs i of
                  None \<Rightarrow> cs
                | Some c \<Rightarrow> AList.update i (c\<lparr>c_resolved := True, c_answer := a, c_updated := ev_ts e\<rparr>) cs)
           | _ \<Rightarrow> cs)
      | _ \<Rightarrow> cs)"

definition project_checkpoints :: "event list \<Rightarrow> (string \<times> checkpoint) list" where
  "project_checkpoints = foldl project_checkpoint []"

definition attach_checkpoints :: "(string \<times> checkpoint) list \<Rightarrow> (string \<times> run) list \<Rightarrow> (string \<times> run) list" where
  "attach_checkpoints cs rs =
     fold (\<lambda>(_, c). change_run (c_run c) (\<lambda>r. r\<lparr>r_checkpoints := r_checkpoints r @ [c]\<rparr>)) cs rs"

definition project_runs :: "crypto \<Rightarrow> (string \<times> string) option \<Rightarrow> event list \<Rightarrow> (string \<times> run) list" where
  "project_runs C root es =
     attach_checkpoints (project_checkpoints es) (pj_runs (foldl (project_step C root) new_projection es))"

definition project_runs_in_room :: "crypto \<Rightarrow> event list \<Rightarrow> string \<Rightarrow> (string \<times> run) list" where
  "project_runs_in_room C es room = project_runs C None (filter (\<lambda>e. ev_room e = room) es)"

definition project_runs_configured :: "crypto \<Rightarrow> event list \<Rightarrow> room_config \<Rightarrow> (string \<times> run) list" where
  "project_runs_configured C es cfg =
     project_runs C (Some (rc_root_event cfg, rc_root_pubkey cfg)) (filter (\<lambda>e. ev_room e = rc_id cfg) es)"

text \<open>\<open>List\<close> and \<open>Get\<close> read the journal, then the configuration.\<close>

definition room_runs :: "crypto \<Rightarrow> room_dir \<Rightarrow> run_error + (string \<times> run) list" where
  "room_runs C rd =
     (case merge_all (rd_journal rd) of
        Inl e \<Rightarrow> Inl (MergeError e)
      | Inr merged \<Rightarrow>
          (case read_room_config rd of
             Inl e \<Rightarrow> Inl (RoomError e)
           | Inr cfg \<Rightarrow> Inr (project_runs_configured C merged cfg)))"

definition list_runs :: "crypto \<Rightarrow> room_dir \<Rightarrow> bool \<Rightarrow> run_error + run list" where
  "list_runs C rd pending_only =
     bind_err (room_runs C rd) (\<lambda>rs.
       Inr (sort_key r_created (filter
         (\<lambda>r. \<not> (pending_only \<and> r_state r \<noteq> StateRequested \<and> r_state r \<noteq> StateApproved)) (map snd rs))))"

definition get_run :: "crypto \<Rightarrow> room_dir \<Rightarrow> string \<Rightarrow> run_error + run" where
  "get_run C rd i =
     bind_err (room_runs C rd) (\<lambda>rs. case map_of rs i of None \<Rightarrow> Inl RunNotFound | Some r \<Rightarrow> Inr r)"


section \<open>Operations\<close>

definition read_room_id :: "room_dir \<Rightarrow> run_error + string" where
  "read_room_id rd = (case read_room_config rd of Inl e \<Rightarrow> Inl (RoomError e) | Inr cfg \<Rightarrow> Inr (rc_id cfg))"

text \<open>\<open>journal.ComputeLineHash(b)[7:23]\<close>: the first 16 hex digits of the hash.\<close>

definition hash_id :: "crypto \<Rightarrow> bytes \<Rightarrow> string" where
  "hash_id C b = take 16 (drop 7 (compute_line_hash C b))"

definition run_event :: "string \<Rightarrow> string \<Rightarrow> string \<Rightarrow> string \<Rightarrow> identity \<Rightarrow> event" where
  "run_event room i kind body who =
     \<lparr>ev_v = current_version, ev_id = ''ev_'' @ i, ev_room = room, ev_author = member_id who, ev_seq = 0,
      ev_prev = [], ev_lamport = 0, ev_ts = [], ev_kind = kind, ev_body = body, ev_sig = []\<rparr>"

definition publish_in :: "crypto \<Rightarrow> identity \<Rightarrow> room_dir \<Rightarrow> event \<Rightarrow> run_error + event \<times> room_dir" where
  "publish_in C i rd ev =
     (case publish C i (rd_journal rd) ev of
        Inl e \<Rightarrow> Inl (MergeError e)
      | Inr (e, d') \<Rightarrow> Inr (e, rd\<lparr>rd_journal := d'\<rparr>))"

definition request_run ::
    "crypto \<Rightarrow> string \<Rightarrow> string \<Rightarrow> string \<Rightarrow> identity \<Rightarrow> room_dir \<Rightarrow> run_error + event \<times> room_dir" where
  "request_run C title plan_file adapter i rd =
     bind_err (read_room_id rd) (\<lambda>room.
       let seq = (case read_segment (rd_journal rd) (member_id i) of Inl _ \<Rightarrow> 1 | Inr seg \<Rightarrow> length seg + 1);
           h = hash_id C (member_id i @ '':'' @ title @ '':'' @ dec_of_nat seq);
           run_id = ''run_'' @ h
       in publish_in C i rd (run_event room h ''run.requested''
            (marshal_strings [(''run_id'', run_id), (''title'', title), (''plan_file'', plan_file),
               (''adapter'', adapter)]) i))"

definition expired :: "clock \<Rightarrow> string \<Rightarrow> bool" where
  "expired T at \<longleftrightarrow> at \<noteq> [] \<and> (case parse_rfc3339 T at of None \<Rightarrow> False | Some t \<Rightarrow> t < now T)"

definition start_run ::
    "crypto \<Rightarrow> clock \<Rightarrow> string \<Rightarrow> identity \<Rightarrow> room_dir \<Rightarrow> run_error + event \<times> room_dir" where
  "start_run C T run_id i rd =
     bind_err (get_run C rd run_id) (\<lambda>r.
       if r_state r \<noteq> StateApproved then Inl (InvalidTransition (r_state r))
       else if expired T (r_expires r) then Inl (ApprovalExpired (r_expires r))
       else bind_err (read_room_id rd) (\<lambda>room.
         publish_in C i rd (run_event room (hash_id C (run_id @ ''start'')) ''run.started''
           (marshal_strings [(''run_id'', run_id)]) i)))"

definition cancel_run ::
    "crypto \<Rightarrow> string \<Rightarrow> string \<Rightarrow> identity \<Rightarrow> room_dir \<Rightarrow> run_error + event \<times> room_dir" where
  "cancel_run C run_id reason i rd =
     bind_err (get_run C rd run_id) (\<lambda>r.
       if r_state r \<in> {StateFinished, StateFailed, StateCancelled} then Inl (InvalidTransition (r_state r))
       else bind_err (read_room_id rd) (\<lambda>room.
         publish_in C i rd (run_event room (hash_id C (run_id @ ''cancel'')) ''run.cancelled''
           (marshal_strings [(''run_id'', run_id), (''reason'', reason)]) i)))"

definition finish_body :: "string \<Rightarrow> string \<Rightarrow> string list \<Rightarrow> string" where
  "finish_body run_id summary artifacts =
     marshal_fields ([(''run_id'', JStr run_id), (''summary'', JStr summary)] @
       (if artifacts = [] then [] else [(''artifacts'', JArr (map JStr artifacts))]))"

definition finish_run ::
    "crypto \<Rightarrow> string \<Rightarrow> string \<Rightarrow> string list \<Rightarrow> identity \<Rightarrow> room_dir \<Rightarrow> run_error + event \<times> room_dir" where
  "finish_run C run_id summary artifacts i rd =
     bind_err (get_run C rd run_id) (\<lambda>r.
       if r_state r \<noteq> StateStarted then Inl (InvalidTransition (r_state r))
       else bind_err (read_room_id rd) (\<lambda>room.
         publish_in C i rd (run_event room (hash_id C (run_id @ ''finish'')) ''run.finished''
           (finish_body run_id summary artifacts) i)))"

definition fail_run ::
    "crypto \<Rightarrow> string \<Rightarrow> string \<Rightarrow> identity \<Rightarrow> room_dir \<Rightarrow> run_error + event \<times> room_dir" where
  "fail_run C run_id msg i rd =
     bind_err (get_run C rd run_id) (\<lambda>r.
       if r_state r \<noteq> StateStarted then Inl (InvalidTransition (r_state r))
       else bind_err (read_room_id rd) (\<lambda>room.
         publish_in C i rd (run_event room (hash_id C (run_id @ ''fail'')) ''run.failed''
           (marshal_strings [(''run_id'', run_id), (''error'', msg)]) i)))"

definition request_checkpoint ::
    "crypto \<Rightarrow> string \<Rightarrow> string \<Rightarrow> string \<Rightarrow> identity \<Rightarrow> room_dir \<Rightarrow> run_error + event \<times> room_dir" where
  "request_checkpoint C now_text run_id question i rd =
     bind_err (read_room_id rd) (\<lambda>room.
       let h = hash_id C (run_id @ question @ now_text)
       in publish_in C i rd (run_event room h ''checkpoint.requested''
            (marshal_strings [(''checkpoint_id'', ''chk_'' @ h), (''run_id'', run_id), (''question'', question)]) i))"

text \<open>\<open>ResolveCheckpoint\<close> replays the membership with unsigned \<open>ApplyEvent\<close> and stops at the first error.\<close>

fun replay_strict :: "mstate \<Rightarrow> event list \<Rightarrow> member_error + mstate" where
  "replay_strict s [] = Inr s"
| "replay_strict s (e # es) = bind_err (apply_event s e) (\<lambda>s'. replay_strict s' es)"

definition is_agent :: "mstate \<Rightarrow> string \<Rightarrow> bool" where
  "is_agent s a = (case mems s a of None \<Rightarrow> False | Some m \<Rightarrow> m_role m = RoleAgent)"

definition resolve_checkpoint ::
    "crypto \<Rightarrow> string \<Rightarrow> string \<Rightarrow> identity \<Rightarrow> room_dir \<Rightarrow> run_error + event \<times> room_dir" where
  "resolve_checkpoint C chk_id answer i rd =
     bind_err (read_room_id rd) (\<lambda>room.
       case merge_all (rd_journal rd) of
         Inl e \<Rightarrow> Inl (MergeError e)
       | Inr merged \<Rightarrow>
           (case replay_strict new_state merged of
              Inl e \<Rightarrow> Inl (ReplayError e)
            | Inr s \<Rightarrow>
                if is_agent s (member_id i) then Inl AgentResolveForbidden
                else (case map_of (project_checkpoints merged) chk_id of
                    None \<Rightarrow> Inl CheckpointNotFound
                  | Some c \<Rightarrow>
                      if c_resolved c then Inl CheckpointAlreadyResolved
                      else publish_in C i rd (run_event room (hash_id C (chk_id @ answer)) ''checkpoint.resolved''
                        (marshal_strings [(''checkpoint_id'', chk_id), (''answer'', answer)]) i))))"


section \<open>Waiting\<close>

text \<open>
  The polling loops, as functions of the room each round finds and of how the context ends when
  the last round is over: \<open>True\<close> for a deadline, \<open>False\<close> for a cancellation.
\<close>

fun wait_run :: "crypto \<Rightarrow> string \<Rightarrow> bool \<Rightarrow> room_dir \<Rightarrow> room_dir list \<Rightarrow> run_error + run" where
  "wait_run C i deadline rd rds =
     (let next = (case rds of
                    [] \<Rightarrow> Inl (if deadline then WaitTimeout else WaitCancelled)
                  | rd' # rds' \<Rightarrow> wait_run C i deadline rd' rds')
      in case get_run C rd i of
           Inl _ \<Rightarrow> next
         | Inr r \<Rightarrow>
             (case r_state r of
                StateApproved \<Rightarrow> Inr r
              | StateDenied \<Rightarrow> Inl (RunDenied (r_error r))
              | StateCancelled \<Rightarrow> Inl RunCancelledError
              | _ \<Rightarrow> next))"

fun wait_checkpoint :: "string \<Rightarrow> bool \<Rightarrow> room_dir \<Rightarrow> room_dir list \<Rightarrow> run_error + checkpoint" where
  "wait_checkpoint i deadline rd rds =
     (let next = (case rds of
                    [] \<Rightarrow> Inl (if deadline then WaitTimeout else WaitCancelled)
                  | rd' # rds' \<Rightarrow> wait_checkpoint i deadline rd' rds')
      in case merge_all (rd_journal rd) of
           Inl _ \<Rightarrow> next
         | Inr merged \<Rightarrow>
             (case map_of (project_checkpoints merged) i of
                None \<Rightarrow> next
              | Some c \<Rightarrow> if c_resolved c then Inr c else next))"

section \<open>What the projection is made of\<close>

lemma map_of_change_run:
  "map_of (change_run i f rs) = (\<lambda>j. if j = i then map_option f (map_of rs i) else map_of rs j)"
  by (auto simp: change_run_def fun_eq_iff update_conv' split: option.splits)

lemma map_of_update_run: "map_of (AList.update i r rs) = (map_of rs)(i \<mapsto> r)"
  by (simp add: update_conv')

text \<open>
  The invariant of a projection: the membership is well formed and every run is filed once,
  under its own id, which is not empty.
\<close>

definition filed :: "(string \<times> run) list \<Rightarrow> bool" where
  "filed rs \<longleftrightarrow> distinct (map fst rs) \<and> (\<forall>(i, r) \<in> set rs. r_id r = i \<and> i \<noteq> [])"

definition wf_projection :: "projection \<Rightarrow> bool" where
  "wf_projection p \<longleftrightarrow> founded (pj_members p) \<and> filed (pj_runs p)"

lemma set_update_subset: "set (AList.update i r rs) \<subseteq> insert (i, r) (set rs)"
  by (induction rs) auto

lemma filed_update: "filed rs \<Longrightarrow> r_id r = i \<Longrightarrow> i \<noteq> [] \<Longrightarrow> filed (AList.update i r rs)"
  using set_update_subset[of i r rs] by (fastforce simp: filed_def distinct_update)

lemma filed_change_run:
  assumes "filed rs" and "\<And>r. r_id (f r) = r_id r"
  shows "filed (change_run i f rs)"
proof (cases "map_of rs i")
  case (Some r)
  then have "r_id (f r) = i \<and> i \<noteq> []" using assms by (auto simp: filed_def dest!: map_of_SomeD)
  then show ?thesis using filed_update[OF assms(1), of "f r" i] Some by (simp add: change_run_def)
qed (simp add: change_run_def assms(1))

lemmas project_defs = project_requested_def project_approved_def project_error_def
  project_started_def project_finished_def

text \<open>Every run event either files a new run or changes runs without touching their ids.\<close>

lemma project_run_cases:
  obtains (none) "project_run C s e rs = rs"
  | (requested) i r where "kindof e = RunRequested" and "project_run C s e rs = AList.update i r rs"
      and "r_id r = i" and "i \<noteq> []" and "r_state r = StateRequested"
  | (approved) i app scope ex where "kindof e = RunApproved" and "approval_authorized C s e"
      and "body_fields [''run_id'', ''approval_id'', ''scope'', ''expires_at''] (ev_body e) = Some [i, app, scope, ex]"
      and "project_run C s e rs = change_run i (\<lambda>r. r\<lparr>r_state := StateApproved, r_approval := app,
        r_scope := scope, r_expires := ex, r_updated := ev_ts e\<rparr>) rs"
  | (changed) i f st where "kindof e \<in> {event_kind.RunDenied, RunStarted, RunFinished, RunFailed, RunCancelled}"
      and "project_run C s e rs = change_run i f rs" and "\<And>r. r_id (f r) = r_id r"
      and "\<And>r. r_state (f r) = st" and "st \<notin> {StateRequested, StateApproved}"
proof -
  have err: "project_error st n e rs = rs \<or> (\<exists>i m. project_error st n e rs =
      change_run i (\<lambda>r. r\<lparr>r_state := st, r_error := m, r_updated := ev_ts e\<rparr>) rs)" for st n
    by (auto simp: project_error_def split: option.splits list.splits)
  show ?thesis
  proof (cases "kindof e")
    case RunRequested
    have "project_requested e rs = rs \<or>
        (\<exists>i t p a. i \<noteq> [] \<and> project_requested e rs = AList.update i (new_run e i t p a) rs)"
      by (auto simp: project_requested_def split: option.splits list.splits)
    with RunRequested that(1) show ?thesis
      by (elim disjE exE conjE) (simp_all add: project_run_def, rule that(2), auto simp: project_run_def new_run_def)
  next
    case RunApproved
    have "project_approved e rs = rs \<or> (\<exists>i app scope ex.
        body_fields [''run_id'', ''approval_id'', ''scope'', ''expires_at''] (ev_body e) = Some [i, app, scope, ex] \<and>
        project_approved e rs = change_run i (\<lambda>r. r\<lparr>r_state := StateApproved, r_approval := app,
          r_scope := scope, r_expires := ex, r_updated := ev_ts e\<rparr>) rs)"
      by (auto simp: project_approved_def split: option.splits list.splits)
    with RunApproved that(1,3) show ?thesis
      by (cases "approval_authorized C s e") (simp_all add: project_run_def, blast)
  next
    case RunDenied
    then show ?thesis using that(1) that(4)[of _ _ StateDenied] err[of StateDenied "''reason''"]
      by (auto simp: project_run_def)
  next
    case RunFailed
    then show ?thesis using that(1) that(4)[of _ _ StateFailed] err[of StateFailed "''error''"]
      by (auto simp: project_run_def)
  next
    case RunCancelled
    then show ?thesis using that(1) that(4)[of _ _ StateCancelled] err[of StateCancelled "''reason''"]
      by (auto simp: project_run_def)
  next
    case RunStarted
    have "project_started e rs = rs \<or> (\<exists>i. project_started e rs =
        change_run i (\<lambda>r. r\<lparr>r_state := StateStarted, r_updated := ev_ts e\<rparr>) rs)"
      by (auto simp: project_started_def split: option.splits list.splits)
    then show ?thesis using RunStarted that(1) that(4)[of _ _ StateStarted] by (auto simp: project_run_def)
  next
    case RunFinished
    have "project_finished e rs = rs \<or> (\<exists>i sm as. project_finished e rs = change_run i
        (\<lambda>r. r\<lparr>r_state := StateFinished, r_summary := sm, r_artifacts := as, r_updated := ev_ts e\<rparr>) rs)"
      by (auto simp: project_finished_def split: option.splits list.splits)
    then show ?thesis using RunFinished that(1) that(4)[of _ _ StateFinished] by (auto simp: project_run_def)
  qed (use that(1) in \<open>auto simp: project_run_def\<close>)
qed

lemma founded_project_member: "founded s \<Longrightarrow> founded (project_member C root s e)"
  using founded_apply_signed
  by (auto simp: project_member_def intro: founded_member_step split: option.splits sum.splits)

lemma filed_project_run: "filed rs \<Longrightarrow> filed (project_run C s e rs)"
  by (cases C s e rs rule: project_run_cases) (simp_all add: filed_update filed_change_run)

lemma wf_project_step: "wf_projection p \<Longrightarrow> wf_projection (project_step C root p e)"
  by (simp add: project_step_def wf_projection_def founded_project_member filed_project_run)

lemma wf_new_projection: "wf_projection new_projection"
  by (simp add: wf_projection_def new_projection_def filed_def)

interpretation projection: replay "project_step C root" new_projection wf_projection
  for C root
  by unfold_locales (auto intro: wf_project_step wf_new_projection)

lemma project_runs_state:
  "project_runs C root es = attach_checkpoints (project_checkpoints es) (pj_runs (projection.state C root es))"
  by (simp add: project_runs_def projection.state_def)

text \<open>The membership a rooted projection goes by is the rooted replay of all events.\<close>

lemma member_step_other: "\<not> membership_kind (kindof e) \<Longrightarrow> member_step C re rk s e = s"
  by (cases "kindof e")
    (auto simp: membership_kind_def member_step_def apply_rooted_Inr apply_signed_Inr apply_event_kinds
      check_approver_def split: sum.splits option.splits if_splits)

lemma project_step_members:
  "pj_members (project_step C (Some (re, rk)) p e) = member_step C re rk (pj_members p) e"
  by (simp add: project_step_def project_member_def member_step_other)

lemma projected_members:
  "pj_members (projection.state C (Some (re, rk)) es) = replay_members C re rk es"
  by (induction es rule: rev_induct)
    (simp_all add: project_step_members replay_members_snoc, simp add: new_projection_def replay_members_def)

lemma map_of_attach:
  "map_of (attach_checkpoints cs rs) i =
     map_option (\<lambda>r. r\<lparr>r_checkpoints := r_checkpoints r @ map snd (filter (\<lambda>(_, c). c_run c = i) cs)\<rparr>) (map_of rs i)"
proof (induction cs arbitrary: rs)
  case Nil
  show ?case by (cases "map_of rs i") (simp_all add: attach_checkpoints_def)
next
  case (Cons kc cs)
  obtain k c where kc: "kc = (k, c)" by (cases kc)
  have "attach_checkpoints (kc # cs) rs =
      attach_checkpoints cs (change_run (c_run c) (\<lambda>r. r\<lparr>r_checkpoints := r_checkpoints r @ [c]\<rparr>) rs)"
    by (simp add: attach_checkpoints_def kc)
  then show ?case
    by (cases "map_of rs i") (auto simp: Cons.IH map_of_change_run kc)
qed

lemma project_runs_of:
  "map_of (project_runs C root es) i =
     map_option (\<lambda>r. r\<lparr>r_checkpoints := r_checkpoints r @ map snd (filter (\<lambda>(_, c). c_run c = i) (project_checkpoints es))\<rparr>)
       (map_of (pj_runs (projection.state C root es)) i)"
  by (simp add: project_runs_state map_of_attach)

lemma approved_run_facts:
  assumes "map_of (project_runs C (Some (re, rk)) es) i = Some r" and "r_state r = StateApproved"
  shows "\<exists>pre e post m app. es = pre @ e # post \<and> kindof e = RunApproved \<and>
    body_fields [''run_id'', ''approval_id'', ''scope'', ''expires_at''] (ev_body e) =
      Some [i, app, r_scope r, r_expires r] \<and>
    mems (replay_members C re rk pre) (ev_author e) = Some m \<and> m_role m \<in> {RoleOwner, RoleMember} \<and>
    verify_signature C (m_key m) e = Inr () \<and>
    (\<forall>k \<le> length post. \<exists>q. map_of (project_runs C (Some (re, rk)) (pre @ e # take k post)) i = Some q \<and>
       r_state q = StateApproved \<and> r_scope q = r_scope r \<and> r_expires q = r_expires r)"
proof -
  define P where "P p \<longleftrightarrow> (\<exists>q. map_of (pj_runs p) i = Some q \<and> r_state q = StateApproved \<and>
    r_scope q = r_scope r \<and> r_expires q = r_expires r)" for p :: projection
  let ?st = "projection.state C (Some (re, rk))"
  have "P (?st es)" using assms by (auto simp: P_def project_runs_of)
  moreover have "\<not> P new_projection" by (simp add: P_def new_projection_def)
  ultimately obtain pre e post where es: "es = pre @ e # post" "\<not> P (?st pre)"
    "\<And>k. k \<le> length post \<Longrightarrow> P (?st (pre @ e # take k post))"
    using projection.turning_point[of P C "Some (re, rk)" es] by blast
  have "P (project_step C (Some (re, rk)) (?st pre) e)"
    using es(3)[of 0] projection.state_snoc[of C "Some (re, rk)" pre e] by simp
  with es(2) have "\<not> membership_kind (kindof e)" and
    P: "P ((?st pre)\<lparr>pj_runs := project_run C (replay_members C re rk pre) e (pj_runs (?st pre))\<rparr>)"
    by (auto simp: project_step_def P_def projected_members split: if_splits)
  have "\<exists>app m. kindof e = RunApproved \<and>
    body_fields [''run_id'', ''approval_id'', ''scope'', ''expires_at''] (ev_body e) =
      Some [i, app, r_scope r, r_expires r] \<and>
    mems (replay_members C re rk pre) (ev_author e) = Some m \<and> can_perform m Approve \<and>
    verify_signature C (m_key m) e = Inr ()"
    using es(2) P
    by (cases C "replay_members C re rk pre" e "pj_runs (?st pre)" rule: project_run_cases)
      (auto simp: P_def map_of_change_run map_of_update_run approval_authorized_def
        split: if_splits option.splits)
  moreover have "can_perform m Approve \<Longrightarrow> m_role m \<in> {RoleOwner, RoleMember}" for m
    by (cases "m_role m") (auto simp: can_perform_def)
  moreover have "\<exists>q. map_of (project_runs C (Some (re, rk)) (pre @ e # take k post)) i = Some q \<and>
       r_state q = StateApproved \<and> r_scope q = r_scope r \<and> r_expires q = r_expires r"
    if "k \<le> length post" for k
    using es(3)[OF that] by (auto simp: P_def project_runs_of)
  ultimately show ?thesis using es(1) by blast
qed

text \<open>
  C16: a run projected as approved, with its scope and expiry, was approved by an event of the
  log that names it with just that scope and expiry, whose author the membership replayed up to
  there lists with a role that may approve, and whose signature verifies under the key held for
  the author; and no event after that one changed the state, the scope or the expiry.
\<close>
theorem approved_run_was_authorized:
  assumes "map_of (project_runs C (Some (re, rk)) es) i = Some r" and "r_state r = StateApproved"
  shows "\<exists>pre e post m app. es = pre @ e # post \<and> kindof e = RunApproved \<and>
    body_fields [''run_id'', ''approval_id'', ''scope'', ''expires_at''] (ev_body e) =
      Some [i, app, r_scope r, r_expires r] \<and>
    mems (replay_members C re rk pre) (ev_author e) = Some m \<and> m_role m \<in> {RoleOwner, RoleMember} \<and>
    verify_signature C (m_key m) e = Inr () \<and>
    (\<forall>k \<le> length post. \<exists>q. map_of (project_runs C (Some (re, rk)) (pre @ e # take k post)) i = Some q \<and>
       r_state q = StateApproved \<and> r_scope q = r_scope r \<and> r_expires q = r_expires r)"
  by (rule approved_run_facts[OF assms])

section \<open>What the operations do\<close>

text \<open>A room a run operation can work in: readable, with an intact segment of the caller's.\<close>

definition run_ready :: "crypto \<Rightarrow> room_dir \<Rightarrow> room_config \<Rightarrow> event list \<Rightarrow> identity \<Rightarrow> bool" where
  "run_ready C rd cfg es i \<longleftrightarrow>
     wf_dir (rd_journal rd) \<and> intact C (rd_journal rd) (member_id i) \<and> merge_all (rd_journal rd) = Inr es \<and>
     max_lamport_of es \<noteq> - 1 \<and> read_room_config rd = Inr cfg \<and> valid_utf8 (member_id i) \<and> valid_utf8 (rc_id cfg)"

lemma read_room_config_journal [simp]: "read_room_config (rd\<lparr>rd_journal := d\<rparr>) = read_room_config rd"
  by (simp add: read_room_config_def)

lemma hash_id_utf8 [simp]: "valid_utf8 (''ev_'' @ hash_id C b)"
proof (rule valid_utf8_ascii)
  fix c assume "c \<in> set (''ev_'' @ hash_id C b)"
  then have "c \<in> set ''ev_'' \<or> c \<in> set (compute_line_hash C b)"
    by (auto simp: hash_id_def dest!: in_set_takeD in_set_dropD)
  then show "of_char c < (0x80::nat)"
    by (auto simp: compute_line_hash_def is_alnum_char_def Let_def dest!: hex_encode_chars)
qed

lemma room_runs_ready:
  "run_ready C rd cfg es i \<Longrightarrow> room_runs C rd = Inr (project_runs_configured C es cfg)"
  by (simp add: run_ready_def room_runs_def)

lemma get_run_ready:
  "run_ready C rd cfg es i \<Longrightarrow> get_run C rd j =
     (case map_of (project_runs_configured C es cfg) j of None \<Rightarrow> Inl RunNotFound | Some r \<Rightarrow> Inr r)"
  by (simp add: get_run_def room_runs_ready)

lemma publish_in_effect:
  assumes "run_ready C rd cfg es i" and "body_ok body" and "valid_utf8 kind"
    and "publish_in C i rd (run_event (rc_id cfg) (hash_id C b) kind body i) = Inr (e, rd')" and "fits e"
  shows "merge_all (rd_journal rd') = Inr (es @ [e]) \<and> read_room_config rd' = Inr cfg \<and>
    ev_kind e = kind \<and> ev_body e = body \<and> ev_author e = member_id i \<and> ev_room e = rc_id cfg \<and> ev_ts e = [] \<and>
    (\<forall>pk. keypair C (private_key i) pk \<longrightarrow> verify_signature C pk e = Inr ())"
proof -
  let ?ev = "run_event (rc_id cfg) (hash_id C b) kind body i"
  have wf: "wf_event ?ev"
    using assms(1-3) hash_id_utf8[of C b]
    by (auto simp: wf_event_def run_event_def run_ready_def body_ok_def current_version_def)
  obtain d' where p: "publish C i (rd_journal rd) ?ev = Inr (e, d')" "rd' = rd\<lparr>rd_journal := d'\<rparr>"
    using assms(4) by (auto simp: publish_in_def split: sum.splits)
  have a: "ev_author ?ev = member_id i" by (simp add: run_event_def)
  have "merge_all d' = Inr (es @ [e])"
    using publish_merged[OF _ wf _ _ _ p(1) assms(5)] assms(1) by (simp add: run_ready_def a)
  moreover have "keypair C (private_key i) pk \<Longrightarrow> verify_signature C pk e = Inr ()" for pk
    using publish_Inr[OF wf p(1)] verify_sign by blast
  ultimately show ?thesis
    using publish_fields[OF wf p(1)] assms(1) p(2) by (simp add: run_event_def run_ready_def)
qed

text \<open>An event too long to be read back changes nothing that a reader of the room sees.\<close>

lemma publish_in_hidden:
  assumes "run_ready C rd cfg es i" and "body_ok body" and "valid_utf8 kind"
    and "publish_in C i rd (run_event (rc_id cfg) (hash_id C b) kind body i) = Inr (e, rd')" and "\<not> fits e"
  shows "merge_all (rd_journal rd') = Inr es \<and> get_run C rd' k = get_run C rd k \<and> ev_kind e = kind"
proof -
  let ?ev = "run_event (rc_id cfg) (hash_id C b) kind body i"
  have wf: "wf_event ?ev"
    using assms(1-3) hash_id_utf8[of C b]
    by (auto simp: wf_event_def run_event_def run_ready_def body_ok_def current_version_def)
  obtain d' where p: "publish C i (rd_journal rd) ?ev = Inr (e, d')" "rd' = rd\<lparr>rd_journal := d'\<rparr>"
    using assms(4) by (auto simp: publish_in_def split: sum.splits)
  have a: "ev_author ?ev = member_id i" by (simp add: run_event_def)
  have "merge_all d' = Inr es"
    using publish_hidden_merge[OF _ wf _ _ p(1) assms(5)] assms(1) by (simp add: run_ready_def a)
  then show ?thesis
    using publish_fields[OF wf p(1)] assms(1) p(2)
    by (simp add: run_event_def run_ready_def get_run_def room_runs_def)
qed

text \<open>The last event of the configured room, on the runs before it.\<close>

lemma project_snoc:
  assumes "ev_room e = rc_id cfg" and "kindof e \<notin> {CheckpointReq, CheckpointResolved}"
    and "\<not> membership_kind (kindof e)"
  shows "map_of (project_runs_configured C (es @ [e]) cfg) j =
    map_option (\<lambda>r. r\<lparr>r_checkpoints := r_checkpoints r @ map snd (filter (\<lambda>(_, c). c_run c = j)
        (project_checkpoints (filter (\<lambda>x. ev_room x = rc_id cfg) es)))\<rparr>)
      (map_of (project_run C (replay_members C (rc_root_event cfg) (rc_root_pubkey cfg)
         (filter (\<lambda>x. ev_room x = rc_id cfg) es)) e
         (pj_runs (projection.state C (Some (rc_root_event cfg, rc_root_pubkey cfg))
           (filter (\<lambda>x. ev_room x = rc_id cfg) es)))) j)"
proof -
  have "project_checkpoints (fs @ [e]) = project_checkpoints fs" for fs
    using assms(2) by (simp add: project_checkpoints_def project_checkpoint_def split: event_kind.splits)
  then show ?thesis
    using assms(1,3)
    by (simp add: project_runs_configured_def project_runs_of project_step_def projected_members)
qed

lemma project_change:
  assumes "ev_room e = rc_id cfg" and "kindof e \<notin> {CheckpointReq, CheckpointResolved}"
    and "\<not> membership_kind (kindof e)"
    and "\<And>rs. project_run C (replay_members C (rc_root_event cfg) (rc_root_pubkey cfg)
      (filter (\<lambda>x. ev_room x = rc_id cfg) es)) e rs = change_run i f rs"
    and "\<And>r cs. f (r\<lparr>r_checkpoints := cs\<rparr>) = (f r)\<lparr>r_checkpoints := cs\<rparr>"
    and "\<And>r. r_checkpoints (f r) = r_checkpoints r"
  shows "map_of (project_runs_configured C (es @ [e]) cfg) j =
    (if j = i then map_option f (map_of (project_runs_configured C es cfg) i)
     else map_of (project_runs_configured C es cfg) j)"
  unfolding project_snoc[OF assms(1-3)] assms(4) map_of_change_run
  by (simp add: project_runs_configured_def project_runs_of option.map_comp comp_def assms(5,6))

text \<open>The operations on a run that has been requested, and what each asks of the run and does to it.\<close>

datatype run_op = Start | Cancel string | Finish string "string list" | Fail string

fun apply_run_op ::
    "crypto \<Rightarrow> clock \<Rightarrow> run_op \<Rightarrow> string \<Rightarrow> identity \<Rightarrow> room_dir \<Rightarrow> run_error + event \<times> room_dir" where
  "apply_run_op C T Start run_id i rd = start_run C T run_id i rd"
| "apply_run_op C T (Cancel reason) run_id i rd = cancel_run C run_id reason i rd"
| "apply_run_op C T (Finish summary artifacts) run_id i rd = finish_run C run_id summary artifacts i rd"
| "apply_run_op C T (Fail msg) run_id i rd = fail_run C run_id msg i rd"

text \<open>The life of a run, as the operations let it go.\<close>

inductive run_step :: "run_state \<Rightarrow> event_kind \<Rightarrow> run_state \<Rightarrow> bool" where
  step_approve: "run_step StateRequested RunApproved StateApproved"
| step_deny: "run_step StateRequested event_kind.RunDenied StateDenied"
| step_start: "run_step StateApproved RunStarted StateStarted"
| step_finish: "run_step StateStarted RunFinished StateFinished"
| step_fail: "run_step StateStarted RunFailed StateFailed"
| step_cancel: "s \<notin> {StateFinished, StateFailed, StateCancelled} \<Longrightarrow> run_step s RunCancelled StateCancelled"

code_pred run_step .

inductive_cases run_step_fromE: "run_step s k t"
inductive_simps run_step_approved: "run_step s k StateApproved"

lemma terminal_run_step: "s \<in> {StateFinished, StateFailed, StateCancelled} \<Longrightarrow> \<not> run_step s k t"
  by (auto elim: run_step.cases)

fun op_change :: "run_op \<Rightarrow> run \<Rightarrow> run" where
  "op_change Start r = r\<lparr>r_state := StateStarted, r_updated := []\<rparr>"
| "op_change (Cancel reason) r = r\<lparr>r_state := StateCancelled, r_error := reason, r_updated := []\<rparr>"
| "op_change (Finish summary artifacts) r =
     r\<lparr>r_state := StateFinished, r_summary := summary, r_artifacts := artifacts, r_updated := []\<rparr>"
| "op_change (Fail msg) r = r\<lparr>r_state := StateFailed, r_error := msg, r_updated := []\<rparr>"

fun op_utf8 :: "run_op \<Rightarrow> bool" where
  "op_utf8 Start = True"
| "op_utf8 (Cancel reason) = valid_utf8 reason"
| "op_utf8 (Finish summary artifacts) = (valid_utf8 summary \<and> list_all valid_utf8 artifacts)"
| "op_utf8 (Fail msg) = valid_utf8 msg"

fun op_kind :: "run_op \<Rightarrow> string" where
  "op_kind Start = ''run.started''"
| "op_kind (Cancel reason) = ''run.cancelled''"
| "op_kind (Finish summary artifacts) = ''run.finished''"
| "op_kind (Fail msg) = ''run.failed''"

fun op_body :: "run_op \<Rightarrow> string \<Rightarrow> string" where
  "op_body Start i = marshal_strings [(''run_id'', i)]"
| "op_body (Cancel reason) i = marshal_strings [(''run_id'', i), (''reason'', reason)]"
| "op_body (Finish summary artifacts) i = finish_body i summary artifacts"
| "op_body (Fail msg) i = marshal_strings [(''run_id'', i), (''error'', msg)]"

lemma run_keys [simp]:
  "plain_key ''run_id''" "plain_key ''title''" "plain_key ''plan_file''" "plain_key ''adapter''"
  "plain_key ''reason''" "plain_key ''error''" "plain_key ''summary''" "plain_key ''artifacts''"
  "plain_key ''approval_id''" "plain_key ''scope''" "plain_key ''expires_at''"
  "plain_key ''checkpoint_id''" "plain_key ''question''" "plain_key ''answer''"
  by code_simp+

lemma op_kind_utf8 [simp]: "valid_utf8 (op_kind op)"
  by (cases op) (simp_all, code_simp+)

text \<open>An operation that succeeds saw a run in the state it wants and published its one event.\<close>

lemma run_op_Inr:
  assumes "apply_run_op C T op j i rd = Inr (e, rd')"
  shows "\<exists>r cfg b. get_run C rd j = Inr r \<and> read_room_config rd = Inr cfg \<and>
    run_step (r_state r) (kind_of (op_kind op)) (r_state (op_change op r)) \<and>
    (op = Start \<longrightarrow> \<not> expired T (r_expires r)) \<and>
    publish_in C i rd (run_event (rc_id cfg) (hash_id C b) (op_kind op) (op_body op j) i) = Inr (e, rd')"
  using assms
  by (cases op)
    (auto simp: start_run_def cancel_run_def finish_run_def fail_run_def bind_err_Inr read_room_id_def
      intro: run_step.intros split: if_splits sum.splits)

lemma finish_body_reads:
  assumes "valid_utf8 j" and "valid_utf8 s" and "list_all valid_utf8 as"
  shows "body_fields [''run_id'', ''summary''] (finish_body j s as) = Some [j, s]"
    and "body_strs ''artifacts'' (finish_body j s as) = Some as"
    and "body_ok (finish_body j s as)"
proof -
  let ?ms = "[(''run_id'', JStr j), (''summary'', JStr s)] @
       (if as = [] then [] else [(''artifacts'', JArr (map JStr as))])"
  have keys: "fold_key ''run_id'' = ''run_id''" "fold_key ''summary'' = ''summary''"
    "fold_key ''artifacts'' = ''artifacts''" by (rule plain_key_fold, rule run_keys)+
  have ok: "list_all (\<lambda>(k, v). valid_utf8 k \<and> wf_json v) ?ms"
    using assms by (auto simp: list_all_iff plain_key_utf8)
  have ms: "body_members (finish_body j s as) = Some ?ms"
    unfolding finish_body_def by (rule body_members_marshal[OF ok])
  show "body_fields [''run_id'', ''summary''] (finish_body j s as) = Some [j, s]"
    by (simp add: body_fields_def ms field_Cons keys get_str_def del: fold_key.simps)
  have "those (map (get_str []) (map JStr as)) = Some as"
    by (induction as) (simp_all add: get_str_def)
  then show "body_strs ''artifacts'' (finish_body j s as) = Some as"
    by (simp add: body_strs_def ms field_Cons keys get_strs_def del: fold_key.simps)
  show "body_ok (finish_body j s as)"
    unfolding body_ok_def finish_body_def marshal_fields_def
    using ok by (intro exI[of _ "JObj ?ms"]) (simp add: list_all_iff)
qed

lemma op_body_ok: "valid_utf8 j \<Longrightarrow> op_utf8 op \<Longrightarrow> body_ok (op_body op j)"
  by (cases op) (auto simp: str_body_def finish_body_reads intro!: str_body_ok)

lemma op_change_fun:
  "op_change Start = (\<lambda>r. r\<lparr>r_state := StateStarted, r_updated := []\<rparr>)"
  "op_change (Cancel reason) = (\<lambda>r. r\<lparr>r_state := StateCancelled, r_error := reason, r_updated := []\<rparr>)"
  "op_change (Finish sm as) =
     (\<lambda>r. r\<lparr>r_state := StateFinished, r_summary := sm, r_artifacts := as, r_updated := []\<rparr>)"
  "op_change (Fail msg) = (\<lambda>r. r\<lparr>r_state := StateFailed, r_error := msg, r_updated := []\<rparr>)"
  by (rule ext, simp)+

lemma project_op:
  assumes "kindof e = kind_of (op_kind op)" and "ev_body e = op_body op j" and "ev_ts e = []"
    and "valid_utf8 j" and "op_utf8 op"
  shows "project_run C s e rs = change_run j (op_change op) rs"
proof (cases op)
  case Start
  then show ?thesis using assms
    by (simp add: project_run_def project_started_def body_fields_marshal str_body_def op_change_fun)
next
  case (Cancel reason)
  then show ?thesis using assms
    by (simp add: project_run_def project_error_def body_fields_marshal str_body_def op_change_fun)
next
  case (Finish summary artifacts)
  then show ?thesis using assms
    by (simp add: project_run_def project_finished_def finish_body_reads op_change_fun)
next
  case (Fail msg)
  then show ?thesis using assms
    by (simp add: project_run_def project_error_def body_fields_marshal str_body_def op_change_fun)
qed

lemma op_kind_other: "kind_of (op_kind op) \<notin> {CheckpointReq, CheckpointResolved} \<and> \<not> membership_kind (kind_of (op_kind op))"
  by (cases op) (simp_all add: membership_kind_def)

lemma run_op_facts:
  assumes "run_ready C rd cfg es i" and "valid_utf8 j" and "op_utf8 op"
    and "apply_run_op C T op j i rd = Inr (e, rd')" and "fits e"
  shows "\<exists>r. get_run C rd j = Inr r \<and> run_step (r_state r) (kindof e) (r_state (op_change op r)) \<and>
    (op = Start \<longrightarrow> \<not> expired T (r_expires r)) \<and>
    merge_all (rd_journal rd') = Inr (es @ [e]) \<and> get_run C rd' j = Inr (op_change op r) \<and>
    (\<forall>k. k \<noteq> j \<longrightarrow> get_run C rd' k = get_run C rd k)"
proof -
  obtain r b where r: "get_run C rd j = Inr r"
    "run_step (r_state r) (kind_of (op_kind op)) (r_state (op_change op r))"
    "op = Start \<longrightarrow> \<not> expired T (r_expires r)"
    "publish_in C i rd (run_event (rc_id cfg) (hash_id C b) (op_kind op) (op_body op j) i) = Inr (e, rd')"
    using run_op_Inr[OF assms(4)] assms(1) by (auto simp: run_ready_def)
  note p = publish_in_effect[OF assms(1) op_body_ok[OF assms(2,3)] op_kind_utf8 r(4) assms(5)]
  have pe: "ev_kind e = op_kind op" "ev_body e = op_body op j" "ev_ts e = []" using p by simp_all
  have new: "map_of (project_runs_configured C (es @ [e]) cfg) k =
      (if k = j then map_option (op_change op) (map_of (project_runs_configured C es cfg) j)
       else map_of (project_runs_configured C es cfg) k)" for k
  proof (rule project_change)
    show "project_run C s e rs = change_run j (op_change op) rs" for s rs
      by (rule project_op[OF _ pe(2,3) assms(2,3)]) (simp add: pe(1))
    show "op_change op (r\<lparr>r_checkpoints := cs\<rparr>) = (op_change op r)\<lparr>r_checkpoints := cs\<rparr>" for r cs
      by (cases op) simp_all
    show "r_checkpoints (op_change op r) = r_checkpoints r" for r by (cases op) simp_all
  qed (use p op_kind_other in auto)
  have get: "get_run C rd' k = (case map_of (project_runs_configured C (es @ [e]) cfg) k of
      None \<Rightarrow> Inl RunNotFound | Some r \<Rightarrow> Inr r)" for k
    using p by (simp add: get_run_def room_runs_def)
  show ?thesis
    using r p new get get_run_ready[OF assms(1)]
    by (intro exI[of _ r]) (auto split: option.splits)
qed

lemma run_op_hidden:
  assumes "run_ready C rd cfg es i" and "valid_utf8 j" and "op_utf8 op"
    and "apply_run_op C T op j i rd = Inr (e, rd')" and "\<not> fits e"
  shows "\<exists>r. get_run C rd j = Inr r \<and> run_step (r_state r) (kindof e) (r_state (op_change op r)) \<and>
    (op = Start \<longrightarrow> \<not> expired T (r_expires r)) \<and>
    merge_all (rd_journal rd') = Inr es \<and> (\<forall>k. get_run C rd' k = get_run C rd k)"
proof -
  obtain r b where r: "get_run C rd j = Inr r"
    "run_step (r_state r) (kind_of (op_kind op)) (r_state (op_change op r))"
    "op = Start \<longrightarrow> \<not> expired T (r_expires r)"
    "publish_in C i rd (run_event (rc_id cfg) (hash_id C b) (op_kind op) (op_body op j) i) = Inr (e, rd')"
    using run_op_Inr[OF assms(4)] assms(1) by (auto simp: run_ready_def)
  then show ?thesis
    using publish_in_hidden[OF assms(1) op_body_ok[OF assms(2,3)] op_kind_utf8 r(4) assms(5)] by auto
qed

text \<open>
  C31: what starting, cancelling, finishing or failing a run does, in a readable room whose Lamport
  numbers are not used up, for a caller whose segment is intact. It succeeds only where the run's
  life allows it (starting also wants an approval that has not expired). If the event's line has at
  most 65535 bytes it is then the last of the merged journal, that run is as the operation says and
  every other run is as it was. If the line is longer, from a long reason, summary or message, the
  operation succeeds all the same, but its event is not read back and every run is as it was.
\<close>
theorem run_op_effect:
  assumes "run_ready C rd cfg es i" and "valid_utf8 j" and "op_utf8 op"
    and "apply_run_op C T op j i rd = Inr (e, rd')"
  shows "\<exists>r. get_run C rd j = Inr r \<and> run_step (r_state r) (kindof e) (r_state (op_change op r)) \<and>
    (op = Start \<longrightarrow> \<not> expired T (r_expires r)) \<and>
    (if length (line_text e) \<le> max_line
     then merge_all (rd_journal rd') = Inr (es @ [e]) \<and> get_run C rd' j = Inr (op_change op r) \<and>
       (\<forall>k. k \<noteq> j \<longrightarrow> get_run C rd' k = get_run C rd k)
     else merge_all (rd_journal rd') = Inr es \<and> (\<forall>k. get_run C rd' k = get_run C rd k))"
  using run_op_facts[OF assms] run_op_hidden[OF assms] by (cases "fits e") (auto simp: fits_def)

section \<open>Requests and checkpoints\<close>

lemma project_request:
  assumes "ev_room e = rc_id cfg" and "kindof e = RunRequested" and "j \<noteq> []"
    and "body_fields [''run_id'', ''title'', ''plan_file'', ''adapter''] (ev_body e) = Some [j, title, plan, adapter]"
  shows "map_of (project_runs_configured C (es @ [e]) cfg) k =
    (if k = j then Some ((new_run e j title plan adapter)\<lparr>r_checkpoints := map snd (filter (\<lambda>(_, c). c_run c = j)
        (project_checkpoints (filter (\<lambda>x. ev_room x = rc_id cfg) es)))\<rparr>)
     else map_of (project_runs_configured C es cfg) k)"
proof -
  have run: "project_run C s e rs = AList.update j (new_run e j title plan adapter) rs" for s rs
    using assms(2-4) by (simp add: project_run_def project_requested_def)
  have "\<not> membership_kind (kindof e)" "kindof e \<notin> {CheckpointReq, CheckpointResolved}"
    using assms(2) by (simp_all add: membership_kind_def)
  then show ?thesis
    using project_snoc[OF assms(1)] run
    by (simp add: map_of_update_run new_run_def) (simp add: project_runs_configured_def project_runs_of)
qed

definition request_id :: "crypto \<Rightarrow> string \<Rightarrow> identity \<Rightarrow> room_dir \<Rightarrow> string" where
  "request_id C title i rd = ''run_'' @ hash_id C (member_id i @ '':'' @ title @ '':'' @
     dec_of_nat (length (events_of (rd_journal rd) (member_id i)) + 1))"

lemma hash_id_ascii: "c \<in> set (hash_id C b) \<Longrightarrow> of_char c < (0x80::nat)"
  by (auto simp: hash_id_def compute_line_hash_def is_alnum_char_def Let_def
      dest!: in_set_takeD in_set_dropD hex_encode_chars)

lemma prefixed_id_utf8 [simp]:
  "valid_utf8 (''run_'' @ hash_id C b)" "valid_utf8 (''chk_'' @ hash_id C b)" "valid_utf8 (''app_'' @ hash_id C b)"
  by (rule valid_utf8_ascii, auto dest: hash_id_ascii)+

lemma request_run_facts:
  assumes "run_ready C rd cfg es i" and "list_all valid_utf8 [title, plan, adapter]"
    and "request_run C title plan adapter i rd = Inr (e, rd')" and "fits e"
  shows "merge_all (rd_journal rd') = Inr (es @ [e]) \<and>
    (\<exists>r. get_run C rd' (request_id C title i rd) = Inr r \<and> r_state r = StateRequested \<and>
       r_author r = member_id i \<and> r_title r = title \<and> r_plan_file r = plan \<and> r_adapter r = adapter \<and>
       r_scope r = []) \<and>
    (\<forall>k. k \<noteq> request_id C title i rd \<longrightarrow> get_run C rd' k = get_run C rd k)"
proof -
  let ?j = "request_id C title i rd"
  let ?ms = "[(''run_id'', ?j), (''title'', title), (''plan_file'', plan), (''adapter'', adapter)]"
  let ?h = "member_id i @ '':'' @ title @ '':'' @ dec_of_nat (length (events_of (rd_journal rd) (member_id i)) + 1)"
  have cfg: "read_room_config rd = Inr cfg" and intact: "intact C (rd_journal rd) (member_id i)"
    using assms(1) by (simp_all add: run_ready_def)
  have p: "publish_in C i rd (run_event (rc_id cfg) (hash_id C ?h) ''run.requested'' (marshal_strings ?ms) i) = Inr (e, rd')"
    using assms(3) cfg intact_events[OF intact]
    by (simp add: request_run_def read_room_id_def Let_def request_id_def)
  have u: "valid_utf8 ''run.requested''" by code_simp
  have body: "str_body ?ms"
    using assms(2) prefixed_id_utf8(1) by (simp add: str_body_def request_id_def del: append.simps)
  have ne: "?j \<noteq> []" by (simp add: request_id_def)
  note e = publish_in_effect[OF assms(1) str_body_ok[OF body] u p assms(4)]
  have new: "map_of (project_runs_configured C (es @ [e]) cfg) k =
      (if k = ?j then Some ((new_run e ?j title plan adapter)\<lparr>r_checkpoints := map snd (filter (\<lambda>(_, c). c_run c = ?j)
          (project_checkpoints (filter (\<lambda>x. ev_room x = rc_id cfg) es)))\<rparr>)
       else map_of (project_runs_configured C es cfg) k)" for k
    by (rule project_request) (use e ne in \<open>simp_all add: body_fields_marshal[OF body]\<close>)
  have get: "get_run C rd' k = (case map_of (project_runs_configured C (es @ [e]) cfg) k of
      None \<Rightarrow> Inl RunNotFound | Some r \<Rightarrow> Inr r)" for k
    using e by (simp add: get_run_def room_runs_def)
  show ?thesis
    using e by (simp add: get new get_run_ready[OF assms(1)] new_run_def)
qed

text \<open>
  Requesting a run publishes one event as the last of the merged journal and files a run
  under a fresh id computed from the caller, the title and the caller's place in the journal:
  requested, by the caller, with the title, plan and adapter given; every run with another id
  is as it was.
\<close>
theorem request_run_effect:
  assumes "run_ready C rd cfg es i" and "list_all valid_utf8 [title, plan, adapter]"
    and "request_run C title plan adapter i rd = Inr (e, rd')" and "fits e"
  shows "merge_all (rd_journal rd') = Inr (es @ [e]) \<and>
    (\<exists>r. get_run C rd' (request_id C title i rd) = Inr r \<and> r_state r = StateRequested \<and>
       r_author r = member_id i \<and> r_title r = title \<and> r_plan_file r = plan \<and> r_adapter r = adapter \<and>
       r_scope r = []) \<and>
    (\<forall>k. k \<noteq> request_id C title i rd \<longrightarrow> get_run C rd' k = get_run C rd k)"
  by (rule request_run_facts[OF assms])

text \<open>Resolving a checkpoint.\<close>

lemma resolve_Inr:
  assumes "run_ready C rd cfg es i" and "resolve_checkpoint C k answer i rd = Inr (e, rd')"
  shows "\<exists>s c. replay_strict new_state es = Inr s \<and> \<not> is_agent s (member_id i) \<and>
    map_of (project_checkpoints es) k = Some c \<and> \<not> c_resolved c \<and>
    publish_in C i rd (run_event (rc_id cfg) (hash_id C (k @ answer)) ''checkpoint.resolved''
      (marshal_strings [(''checkpoint_id'', k), (''answer'', answer)]) i) = Inr (e, rd')"
  using assms
  by (auto simp: resolve_checkpoint_def bind_err_Inr read_room_id_def run_ready_def
      split: sum.splits if_splits option.splits)

lemma resolve_published:
  assumes "run_ready C rd cfg es i" and "valid_utf8 k" and "valid_utf8 answer"
    and "resolve_checkpoint C k answer i rd = Inr (e, rd')" and "fits e"
  shows "\<exists>s c. replay_strict new_state es = Inr s \<and> \<not> is_agent s (member_id i) \<and>
    map_of (project_checkpoints es) k = Some c \<and> \<not> c_resolved c \<and>
    merge_all (rd_journal rd') = Inr (es @ [e]) \<and> read_room_config rd' = Inr cfg \<and>
    kindof e = CheckpointResolved \<and> ev_author e = member_id i \<and> ev_ts e = [] \<and>
    body_fields [''checkpoint_id'', ''answer''] (ev_body e) = Some [k, answer]"
proof -
  obtain s c where r: "replay_strict new_state es = Inr s" "\<not> is_agent s (member_id i)"
    "map_of (project_checkpoints es) k = Some c" "\<not> c_resolved c"
    "publish_in C i rd (run_event (rc_id cfg) (hash_id C (k @ answer)) ''checkpoint.resolved''
      (marshal_strings [(''checkpoint_id'', k), (''answer'', answer)]) i) = Inr (e, rd')"
    using resolve_Inr[OF assms(1,4)] by blast
  have body: "str_body [(''checkpoint_id'', k), (''answer'', answer)]"
    using assms(2,3) by (simp add: str_body_def)
  have u: "valid_utf8 ''checkpoint.resolved''" by code_simp
  show ?thesis
    using r publish_in_effect[OF assms(1) str_body_ok[OF body] u r(5) assms(5)]
    by (auto simp: body_fields_marshal[OF body])
qed

text \<open>
  Resolving a checkpoint succeeds only for an open checkpoint and a caller who is not an
  agent of the replayed membership; it publishes one event, after which that checkpoint is
  resolved with the answer and every other is as it was.
\<close>
theorem resolve_checkpoint_effect:
  assumes "run_ready C rd cfg es i" and "valid_utf8 k" and "valid_utf8 answer"
    and "resolve_checkpoint C k answer i rd = Inr (e, rd')" and "fits e"
  shows "\<exists>s c. replay_strict new_state es = Inr s \<and> \<not> is_agent s (member_id i) \<and>
    map_of (project_checkpoints es) k = Some c \<and> \<not> c_resolved c \<and>
    merge_all (rd_journal rd') = Inr (es @ [e]) \<and>
    map_of (project_checkpoints (es @ [e])) =
      (map_of (project_checkpoints es))(k \<mapsto> c\<lparr>c_resolved := True, c_answer := answer, c_updated := []\<rparr>)"
proof -
  obtain s c where r: "replay_strict new_state es = Inr s" "\<not> is_agent s (member_id i)"
    "map_of (project_checkpoints es) k = Some c" "\<not> c_resolved c" "merge_all (rd_journal rd') = Inr (es @ [e])"
    "kindof e = CheckpointResolved" "ev_ts e = []"
    "body_fields [''checkpoint_id'', ''answer''] (ev_body e) = Some [k, answer]"
    using resolve_published[OF assms] by blast
  then have "map_of (project_checkpoints (es @ [e])) =
      (map_of (project_checkpoints es))(k \<mapsto> c\<lparr>c_resolved := True, c_answer := answer, c_updated := []\<rparr>)"
    by (simp add: project_checkpoints_def project_checkpoint_def update_conv')
  with r show ?thesis by blast
qed

lemma replay_strict_snoc:
  "replay_strict s (es @ [e]) = bind_err (replay_strict s es) (\<lambda>s'. apply_event s' e)"
  by (induction es arbitrary: s) (auto simp: bind_err_def split: sum.splits)

text \<open>
  \<open>ResolveCheckpoint\<close> refuses agents but lets an identity that is no member resolve a
  checkpoint.  The event it writes is one the membership rules reject, and since the operation
  itself replays them strictly, from then on nobody can resolve a checkpoint of the room.
\<close>
theorem outsider_blocks_checkpoints:
  assumes "run_ready C rd cfg es i" and "valid_utf8 k" and "valid_utf8 answer"
    and "replay_strict new_state es = Inr s" and "mems s (member_id i) = None"
    and "resolve_checkpoint C k answer i rd = Inr (e, rd')" and "fits e"
  shows "resolve_checkpoint C k' answer' i' rd' = Inl (ReplayError MemberNotFound)"
proof -
  obtain c where r: "merge_all (rd_journal rd') = Inr (es @ [e])" "read_room_config rd' = Inr cfg"
    "kindof e = CheckpointResolved" "ev_author e = member_id i"
    using resolve_published[OF assms(1-3,6,7)] by blast
  then have "replay_strict new_state (es @ [e]) = Inl MemberNotFound"
    using assms(4,5) by (simp add: replay_strict_snoc apply_event_kinds check_approver_def)
  then show ?thesis using r by (simp add: resolve_checkpoint_def read_room_id_def)
qed

section \<open>Rooms in use\<close>

lemma max_lamport_snoc: "max_lamport_of es < ev_lamport e \<Longrightarrow> max_lamport_of (es @ [e]) = ev_lamport e"
  by (simp add: max_lamport_of_def)

lemma intact_segment: "segment d' a = segment d a \<Longrightarrow> intact C d' a \<longleftrightarrow> intact C d a"
  by (simp add: intact_def verify_chain_def read_segment_def)

text \<open>Publishing leaves the room ready for the next operation of anyone it was ready for.\<close>

lemma publish_in_ready:
  assumes "run_ready C rd cfg es i" and "body_ok body" and "valid_utf8 kind"
    and "publish_in C i rd (run_event (rc_id cfg) (hash_id C b) kind body i) = Inr (e, rd')" and "fits e"
    and "run_ready C rd cfg es k" and "max_lamport_of es + 1 \<noteq> - 1"
  shows "run_ready C rd' cfg (es @ [e]) k \<and> max_lamport_of (es @ [e]) = max_lamport_of es + 1"
proof -
  let ?ev = "run_event (rc_id cfg) (hash_id C b) kind body i"
  have wf: "wf_event ?ev"
    using assms(1-3) hash_id_utf8[of C b]
    by (auto simp: wf_event_def run_event_def run_ready_def body_ok_def current_version_def)
  obtain d' where p: "publish C i (rd_journal rd) ?ev = Inr (e, d')" "rd' = rd\<lparr>rd_journal := d'\<rparr>"
    using assms(4) by (auto simp: publish_in_def split: sum.splits)
  have a: "ev_author ?ev = member_id i" "ev_lamport ?ev = 0" by (simp_all add: run_event_def)
  have r: "wf_dir (rd_journal rd)" "intact C (rd_journal rd) (ev_author ?ev)"
    "merge_all (rd_journal rd) = Inr es" "max_lamport_of es \<noteq> - 1"
    using assms(1) by (simp_all add: run_ready_def a)
  have m: "merge_all d' = Inr (es @ [e])" "wf_dir d'"
    using publish_merged[OF r(1) wf r(2-4) p(1) assms(5)] by simp_all
  have l: "ev_lamport e = max_lamport_of es + 1"
    using publish_fields(7)[OF wf p(1)] by (simp add: next_lamport_merge[OF r(3)] a)
  then have max: "max_lamport_of (es @ [e]) = max_lamport_of es + 1"
    using max_lamport_snoc[of es e] word_less_plus_one[OF r(4)] by simp
  note i = publish_intact[OF wf r(2) p(1) assms(5)]
  have "intact C d' (member_id k)"
  proof (cases "member_id k = member_id i")
    case False
    then have "segment d' (member_id k) = segment (rd_journal rd) (member_id k)"
      using i by (simp add: write_line_segment a)
    from intact_segment[OF this] show ?thesis using assms(6) by (simp add: run_ready_def)
  next
    case True
    then show ?thesis using conjunct1[OF i] by (simp add: a)
  qed
  moreover have "max_lamport_of (es @ [e]) \<noteq> - 1" unfolding max by (rule assms(7))
  ultimately show ?thesis
    using m max assms(6) unfolding run_ready_def p(2) by simp
qed

lemma publish_in_total:
  assumes "run_ready C rd cfg es i" and "body_ok body" and "valid_utf8 kind" and "sha_ok C" and "short_sigs C i"
    and "6 * (length (member_id i) + length kind + length (rc_id cfg)) + length body \<le> 60000"
  shows "\<exists>e rd'. publish_in C i rd (run_event (rc_id cfg) (hash_id C b) kind body i) = Inr (e, rd') \<and> fits e"
proof -
  let ?ev = "run_event (rc_id cfg) (hash_id C b) kind body i"
  have wf: "wf_event ?ev"
    using assms(1-3) hash_id_utf8[of C b]
    by (auto simp: wf_event_def run_event_def run_ready_def body_ok_def current_version_def)
  obtain e d' where p: "publish C i (rd_journal rd) ?ev = Inr (e, d')" using publish_eq[OF wf] by blast
  have "length (ev_id ?ev) \<le> 19" by (simp add: run_event_def hash_id_def)
  then have "fits e"
    using publish_fits[OF wf p assms(4,5)] assms(6) by (simp add: run_event_def)
  then show ?thesis using p by (simp add: publish_in_def)
qed

lemma room_run_ready:
  "room_ready C rd es s i \<Longrightarrow> read_room_config rd = Inr cfg \<Longrightarrow> run_ready C rd cfg es i"
  by (simp add: room_ready_def run_ready_def)

text \<open>A room of Alice's with a requested run, and then a checkpoint.\<close>

lemma sample_start:
  "\<exists>cfg rd e. run_ready toy_crypto rd cfg [e] alice \<and> length (rc_id cfg) = 19 \<and> max_lamport_of [e] = 1 \<and>
     ev_room e = rc_id cfg \<and> kindof e = RoomCreated \<and> apply_event new_state e = Inr (founder alice ''lab'') \<and>
     (\<forall>a. a \<noteq> member_id alice \<longrightarrow> segment (rd_journal rd) a = None) \<and>
     replay_members toy_crypto (rc_root_event cfg) (rc_root_pubkey cfg) [e] = founder alice ''lab''"
proof -
  obtain cfg rd e where r: "room_ready toy_crypto rd [e] (founder alice ''lab'') alice" "read_room_config rd = Inr cfg"
    "rc_id cfg = generate_room_id (zeros 8)" "\<forall>a. a \<noteq> member_id alice \<longrightarrow> segment (rd_journal rd) a = None" "ev_room e = rc_id cfg" "ev_lamport e = 1" "kindof e = RoomCreated"
    "replay_members toy_crypto (rc_root_event cfg) (rc_root_pubkey cfg) [e] = founder alice ''lab''"
    using sample_rooted by blast
  have "accepts toy_crypto new_state [e] (founder alice ''lab'')" using r(1) by (simp add: room_ready_def)
  then have "apply_event new_state e = Inr (founder alice ''lab'')" using accepts_event_key by blast
  then show ?thesis
    using r room_run_ready[OF r(1,2)]
    by (intro exI[of _ cfg] exI[of _ rd] exI[of _ e])
      (simp add: max_lamport_of_def generate_room_id_def zeros_def)
qed

definition lab_run :: "room_dir \<Rightarrow> string" where
  "lab_run rd = request_id toy_crypto ''build'' alice rd"

lemma sample_requested:
  "\<exists>cfg rd e0 e rd'. run_ready toy_crypto rd cfg [e0] alice \<and> length (rc_id cfg) = 19 \<and>
     request_run toy_crypto ''build'' ''plan.md'' [] alice rd = Inr (e, rd') \<and> fits e \<and>
     run_ready toy_crypto rd' cfg [e0, e] alice \<and> max_lamport_of [e0, e] = 2 \<and> kindof e = RunRequested \<and>
     ev_room e0 = rc_id cfg \<and> ev_room e = rc_id cfg \<and> kindof e0 = RoomCreated \<and>
     replay_members toy_crypto (rc_root_event cfg) (rc_root_pubkey cfg) [e0] = founder alice ''lab''"
proof -
  obtain cfg rd e0 where r: "run_ready toy_crypto rd cfg [e0] alice" "length (rc_id cfg) = 19" "max_lamport_of [e0] = 1"
    "ev_room e0 = rc_id cfg" "kindof e0 = RoomCreated"
    "replay_members toy_crypto (rc_root_event cfg) (rc_root_pubkey cfg) [e0] = founder alice ''lab''"
    using sample_start by blast
  let ?h = "member_id alice @ '':'' @ ''build'' @ '':'' @ dec_of_nat (length (events_of (rd_journal rd) (member_id alice)) + 1)"
  let ?ms = "[(''run_id'', lab_run rd), (''title'', ''build''), (''plan_file'', ''plan.md''), (''adapter'', [])]"
  have u: "valid_utf8 ''build''" "valid_utf8 ''plan.md''" "valid_utf8 ''run.requested''" "valid_utf8 []" by code_simp+
  have id: "lab_run rd = ''run_'' @ hash_id toy_crypto ?h" by (simp add: lab_run_def request_id_def)
  then have body: "str_body ?ms" using u prefixed_id_utf8(1)[of toy_crypto ?h] by (simp add: str_body_def)
  have "length (lab_run rd) \<le> 20" by (simp add: id hash_id_def)
  then have len: "length (marshal_strings ?ms) \<le> 3000" using length_marshal[of ?ms] by simp
  obtain e rd' where p: "publish_in toy_crypto alice rd (run_event (rc_id cfg) (hash_id toy_crypto ?h) ''run.requested''
      (marshal_strings ?ms) alice) = Inr (e, rd')" "fits e"
    using publish_in_total[OF r(1) str_body_ok[OF body] u(3) toy_sha_ok alice_short_sigs, of ?h] len r(2) alice_id_length
    by auto
  have q: "request_run toy_crypto ''build'' ''plan.md'' [] alice rd = Inr (e, rd')"
    using p(1) r(1) intact_events[of toy_crypto "rd_journal rd" "member_id alice"]
    by (simp add: request_run_def read_room_id_def run_ready_def Let_def id)
  have "run_ready toy_crypto rd' cfg ([e0] @ [e]) alice \<and> max_lamport_of ([e0] @ [e]) = max_lamport_of [e0] + 1"
    by (rule publish_in_ready[OF r(1) str_body_ok[OF body] u(3) p r(1)]) (simp add: r(3))
  then have s: "run_ready toy_crypto rd' cfg [e0, e] alice" "max_lamport_of [e0, e] = 2" by (simp_all add: r(3))
  have k: "kindof e = RunRequested" "ev_room e = rc_id cfg"
    using publish_in_effect[OF r(1) str_body_ok[OF body] u(3) p] by simp_all
  show ?thesis
    by (intro exI[of _ cfg] exI[of _ rd] exI[of _ e0] exI[of _ e] exI[of _ rd'])
      (simp add: r(1,2,4-6) q p(2) s k)
qed

theorem request_run_effect_witness:
  "\<exists>rd e rd' r. request_run toy_crypto ''build'' ''plan.md'' [] alice rd = Inr (e, rd') \<and>
     get_run toy_crypto rd' (lab_run rd) = Inr r \<and> r_state r = StateRequested \<and> r_title r = ''build''"
proof -
  obtain cfg rd e0 e rd' where r: "run_ready toy_crypto rd cfg [e0] alice"
    "request_run toy_crypto ''build'' ''plan.md'' [] alice rd = Inr (e, rd')" "fits e"
    using sample_requested by blast
  have "valid_utf8 ''build''" "valid_utf8 ''plan.md''" "valid_utf8 []" by code_simp+
  then have "list_all valid_utf8 [''build'', ''plan.md'', []]" by simp
  from request_run_effect[OF r(1) this r(2,3)] r(2) show ?thesis by (auto simp: lab_run_def)
qed

lemma sample_run:
  "\<exists>cfg rd es j r. run_ready toy_crypto rd cfg es alice \<and> length (rc_id cfg) = 19 \<and> max_lamport_of es = 2 \<and>
     get_run toy_crypto rd j = Inr r \<and> r_state r = StateRequested \<and> valid_utf8 j \<and> length j \<le> 21 \<and>
     replay_members toy_crypto (rc_root_event cfg) (rc_root_pubkey cfg) (filter (\<lambda>e. ev_room e = rc_id cfg) es) =
       founder alice ''lab''"
proof -
  obtain cfg rd e0 e rd' where r: "run_ready toy_crypto rd cfg [e0] alice" "length (rc_id cfg) = 19"
    "request_run toy_crypto ''build'' ''plan.md'' [] alice rd = Inr (e, rd')" "fits e"
    "run_ready toy_crypto rd' cfg [e0, e] alice" "max_lamport_of [e0, e] = 2" "kindof e = RunRequested"
    "ev_room e0 = rc_id cfg" "ev_room e = rc_id cfg"
    "replay_members toy_crypto (rc_root_event cfg) (rc_root_pubkey cfg) [e0] = founder alice ''lab''"
    using sample_requested by blast
  have "valid_utf8 ''build''" "valid_utf8 ''plan.md''" "valid_utf8 []" by code_simp+
  then have u: "list_all valid_utf8 [''build'', ''plan.md'', []]" by simp
  obtain q where q: "get_run toy_crypto rd' (lab_run rd) = Inr q" "r_state q = StateRequested"
    using request_run_facts[OF r(1) u r(3,4)] by (auto simp: lab_run_def)
  have "replay_members toy_crypto (rc_root_event cfg) (rc_root_pubkey cfg) (filter (\<lambda>x. ev_room x = rc_id cfg) ([e0] @ [e])) =
      founder alice ''lab''"
    using r(7-10) replay_members_snoc[of toy_crypto "rc_root_event cfg" "rc_root_pubkey cfg" "[e0]" e]
      member_step_other[of e] by (simp add: membership_kind_def)
  moreover have "valid_utf8 (lab_run rd)" "length (lab_run rd) \<le> 21"
    using prefixed_id_utf8(1) by (simp_all add: lab_run_def request_id_def hash_id_def)
  ultimately show ?thesis using r(2,5,6) q
    by (intro exI[of _ cfg] exI[of _ rd'] exI[of _ "[e0, e]"] exI[of _ "lab_run rd"] exI[of _ q]) simp
qed

theorem run_op_effect_witness:
  "\<exists>T rd j e rd' r. apply_run_op toy_crypto T (Cancel ''late'') j alice rd = Inr (e, rd') \<and>
     get_run toy_crypto rd j = Inr r \<and> r_state r = StateRequested \<and>
     get_run toy_crypto rd' j = Inr (op_change (Cancel ''late'') r)"
proof -
  obtain cfg rd es j r where r: "run_ready toy_crypto rd cfg es alice" "length (rc_id cfg) = 19"
    "get_run toy_crypto rd j = Inr r" "r_state r = StateRequested" "valid_utf8 j" "length j \<le> 21"
    using sample_run by blast
  let ?ms = "[(''run_id'', j), (''reason'', ''late'')]"
  have u: "valid_utf8 ''late''" "valid_utf8 ''run.cancelled''" by code_simp+
  then have body: "str_body ?ms" using r(5) by (simp add: str_body_def)
  have len: "length (marshal_strings ?ms) \<le> 2000" using length_marshal[of ?ms] r(6) by simp
  obtain e rd' where p: "publish_in toy_crypto alice rd (run_event (rc_id cfg) (hash_id toy_crypto (j @ ''cancel''))
      ''run.cancelled'' (marshal_strings ?ms) alice) = Inr (e, rd')" "fits e"
    using publish_in_total[OF r(1) str_body_ok[OF body] u(2) toy_sha_ok alice_short_sigs, of "j @ ''cancel''"]
      len r(2) alice_id_length by auto
  let ?T = "\<lparr>now = 0, rfc3339 = \<lambda>_. [], parse_rfc3339 = \<lambda>_. None\<rparr>"
  have a: "apply_run_op toy_crypto ?T (Cancel ''late'') j alice rd = Inr (e, rd')"
    using r(1,3,4) p(1) by (simp add: cancel_run_def read_room_id_def run_ready_def)
  have "op_utf8 (Cancel ''late'')" using u by simp
  from run_op_effect[OF r(1,5) this a] p(2) a r(3,4) show ?thesis
    unfolding fits_def by (intro exI[of _ ?T] exI[of _ rd] exI[of _ j] exI[of _ e] exI[of _ rd'] exI[of _ r]) auto
qed

text \<open>Somebody else with a key of their own, and a checkpoint they resolve.\<close>

definition mallory :: identity where
  "mallory = \<lparr>id_name = ''mallory'', member_id = ''mallory'', public_key = replicate 32 CHR ''m'',
     private_key = replicate 32 CHR ''m''\<rparr>"

lemma mallory_short_sigs: "short_sigs toy_crypto mallory"
  by (simp add: short_sigs_def toy_crypto_def mallory_def min_def)

lemma alice_not_mallory: "member_id mallory \<noteq> member_id alice"
  by (simp add: mallory_def alice_def compute_member_id_def)

lemma sample_checkpoint:
  "\<exists>cfg rd es k c. run_ready toy_crypto rd cfg es alice \<and> run_ready toy_crypto rd cfg es mallory \<and>
     length (rc_id cfg) = 19 \<and> map_of (project_checkpoints es) k = Some c \<and> \<not> c_resolved c \<and> valid_utf8 k \<and>
     length k \<le> 21 \<and> replay_strict new_state es = Inr (founder alice ''lab'')"
proof -
  obtain cfg rd e0 where r: "run_ready toy_crypto rd cfg [e0] alice" "length (rc_id cfg) = 19" "max_lamport_of [e0] = 1"
    "\<forall>a. a \<noteq> member_id alice \<longrightarrow> segment (rd_journal rd) a = None" "kindof e0 = RoomCreated"
    "apply_event new_state e0 = Inr (founder alice ''lab'')"
    using sample_start by blast
  have "segment (rd_journal rd) (member_id mallory) = None" using r(4) alice_not_mallory by blast
  then have "intact toy_crypto (rd_journal rd) (member_id mallory)" by (rule intact_None)
  moreover have "valid_utf8 (member_id mallory)" by (simp add: mallory_def) code_simp
  ultimately have m: "run_ready toy_crypto rd cfg [e0] mallory" using r(1) by (simp add: run_ready_def)
  define b where "b = ''run_1'' @ ''go?'' @ ''noon''"
  define k where "k = ''chk_'' @ hash_id toy_crypto b"
  let ?ms = "[(''checkpoint_id'', k), (''run_id'', ''run_1''), (''question'', ''go?'')]"
  have u: "valid_utf8 ''run_1''" "valid_utf8 ''go?''" "valid_utf8 ''checkpoint.requested''" by code_simp+
  have k: "valid_utf8 k" "length k \<le> 21" "k \<noteq> []"
    using prefixed_id_utf8(2)[of toy_crypto b] by (simp_all add: k_def hash_id_def)
  have body: "str_body ?ms" using u k by (simp add: str_body_def)
  have len: "length (marshal_strings ?ms) \<le> 2000" using length_marshal[of ?ms] k by simp
  obtain e rd' where p: "publish_in toy_crypto alice rd (run_event (rc_id cfg) (hash_id toy_crypto b)
      ''checkpoint.requested'' (marshal_strings ?ms) alice) = Inr (e, rd')" "fits e"
    using publish_in_total[OF r(1) str_body_ok[OF body] u(3) toy_sha_ok alice_short_sigs, of b] len r(2) alice_id_length
    by auto
  have ready: "run_ready toy_crypto rd' cfg ([e0] @ [e]) i" if "run_ready toy_crypto rd cfg [e0] i" for i
    using publish_in_ready[OF r(1) str_body_ok[OF body] u(3) p that] by (simp add: r(3))
  have e: "kindof e = CheckpointReq" "ev_body e = marshal_strings ?ms"
    using publish_in_effect[OF r(1) str_body_ok[OF body] u(3) p] by simp_all
  have "replay_strict new_state [e0, e] = Inr (founder alice ''lab'')"
    using r(6) e(1) by (simp add: apply_event_kinds)
  moreover have "\<exists>c. map_of (project_checkpoints [e0, e]) k = Some c \<and> \<not> c_resolved c"
    using r(5) e k(3) by (simp add: project_checkpoints_def project_checkpoint_def body_fields_marshal[OF body] update_conv')
  moreover have "run_ready toy_crypto rd' cfg [e0, e] alice" "run_ready toy_crypto rd' cfg [e0, e] mallory"
    using ready[OF r(1)] ready[OF m] by simp_all
  ultimately show ?thesis using r(2) k(1,2) by blast
qed

lemma sample_resolve:
  assumes "run_ready toy_crypto rd cfg es i" and "length (rc_id cfg) = 19" and "map_of (project_checkpoints es) k = Some c"
    and "\<not> c_resolved c" and "valid_utf8 k" and "length k \<le> 21" and "replay_strict new_state es = Inr (founder alice ''lab'')"
    and "short_sigs toy_crypto i" and "length (member_id i) \<le> 20"
  shows "\<exists>e rd'. resolve_checkpoint toy_crypto k ''yes'' i rd = Inr (e, rd') \<and> fits e"
proof -
  let ?ms = "[(''checkpoint_id'', k), (''answer'', ''yes'')]"
  have u: "valid_utf8 ''yes''" "valid_utf8 ''checkpoint.resolved''" by code_simp+
  then have body: "str_body ?ms" using assms(5) by (simp add: str_body_def)
  have len: "length (marshal_strings ?ms) \<le> 2000" using length_marshal[of ?ms] assms(6) by simp
  obtain e rd' where p: "publish_in toy_crypto i rd (run_event (rc_id cfg) (hash_id toy_crypto (k @ ''yes''))
      ''checkpoint.resolved'' (marshal_strings ?ms) i) = Inr (e, rd')" "fits e"
    using publish_in_total[OF assms(1) str_body_ok[OF body] u(2) toy_sha_ok assms(8), of "k @ ''yes''"] len assms(2,9)
    by auto
  have "\<not> is_agent (founder alice ''lab'') (member_id i)" by (simp add: is_agent_def founder_def)
  then show ?thesis
    using assms(1,3,4,7) p by (simp add: resolve_checkpoint_def read_room_id_def run_ready_def)
qed

theorem resolve_checkpoint_effect_witness:
  "\<exists>rd es k c e rd'. resolve_checkpoint toy_crypto k ''yes'' alice rd = Inr (e, rd') \<and>
     map_of (project_checkpoints es) k = Some c \<and> merge_all (rd_journal rd') = Inr (es @ [e]) \<and>
     map_of (project_checkpoints (es @ [e])) k = Some (c\<lparr>c_resolved := True, c_answer := ''yes'', c_updated := []\<rparr>)"
proof -
  obtain cfg rd es k c where r: "run_ready toy_crypto rd cfg es alice" "length (rc_id cfg) = 19"
    "map_of (project_checkpoints es) k = Some c" "\<not> c_resolved c" "valid_utf8 k" "length k \<le> 21"
    "replay_strict new_state es = Inr (founder alice ''lab'')" using sample_checkpoint by blast
  obtain e rd' where a: "resolve_checkpoint toy_crypto k ''yes'' alice rd = Inr (e, rd')" "fits e"
    using sample_resolve[OF r alice_short_sigs] alice_id_length by auto
  have "valid_utf8 ''yes''" by code_simp
  from resolve_checkpoint_effect[OF r(1,5) this a] r(3) have "merge_all (rd_journal rd') = Inr (es @ [e]) \<and>
      map_of (project_checkpoints (es @ [e])) k = Some (c\<lparr>c_resolved := True, c_answer := ''yes'', c_updated := []\<rparr>)"
    by auto
  with a(1) r(3) show ?thesis by blast
qed

theorem outsider_blocks_checkpoints_witness:
  "\<exists>rd k e rd'. resolve_checkpoint toy_crypto k ''yes'' mallory rd = Inr (e, rd') \<and>
     resolve_checkpoint toy_crypto k ''yes'' alice rd' = Inl (ReplayError MemberNotFound)"
proof -
  obtain cfg rd es k c where r: "run_ready toy_crypto rd cfg es mallory" "length (rc_id cfg) = 19"
    "map_of (project_checkpoints es) k = Some c" "\<not> c_resolved c" "valid_utf8 k" "length k \<le> 21"
    "replay_strict new_state es = Inr (founder alice ''lab'')" using sample_checkpoint by blast
  obtain e rd' where a: "resolve_checkpoint toy_crypto k ''yes'' mallory rd = Inr (e, rd')" "fits e"
    using sample_resolve[OF r mallory_short_sigs] by (auto simp: mallory_def)
  have "valid_utf8 ''yes''" by code_simp
  moreover have "mems (founder alice ''lab'') (member_id mallory) = None"
    using alice_not_mallory by (simp add: founder_def)
  ultimately have "resolve_checkpoint toy_crypto k ''yes'' alice rd' = Inl (ReplayError MemberNotFound)"
    using outsider_blocks_checkpoints[OF r(1,5) _ r(7) _ a] by blast
  with a(1) show ?thesis by blast
qed

end
