(* ===== verification/Approvals.thy ===== *)
theory Approvals
  imports Runs
begin

text \<open>
  Approving and denying runs: \<open>internal/room/approval/approval.go\<close>.  \<open>Approve\<close> reads the
  configuration once before it takes the room's authorization lock (on the room \<open>rd0\<close>) and does
  everything that counts on the room the holder of the lock sees (\<open>rd\<close>).
\<close>

section \<open>Operations\<close>

datatype approval_error =
    ApprovalRoom room_error | ApprovalRun run_error | ApprovalMember member_error
  | AgentMayNotApprove | RoleMayNotApprove

text \<open>A value or the \<open>run\<close> package's error.\<close>

definition lift_run :: "run_error + 'a \<Rightarrow> approval_error + 'a" where
  "lift_run r = (case r of Inl e \<Rightarrow> Inl (ApprovalRun e) | Inr x \<Rightarrow> Inr x)"

definition read_config :: "room_dir \<Rightarrow> approval_error + room_config" where
  "read_config rd = (case read_room_config rd of Inl e \<Rightarrow> Inl (ApprovalRoom e) | Inr cfg \<Rightarrow> Inr cfg)"

definition room_members :: "crypto \<Rightarrow> room_config \<Rightarrow> event list \<Rightarrow> mstate" where
  "room_members C cfg =
     foldl (\<lambda>s e. if membership_kind (kindof e) \<and> ev_room e = rc_id cfg
                  then member_step C (rc_root_event cfg) (rc_root_pubkey cfg) s e else s) new_state"

definition check_approval :: "mstate \<Rightarrow> string \<Rightarrow> approval_error + unit" where
  "check_approval s a =
     (case mems s a of
        None \<Rightarrow> Inl (ApprovalMember MemberNotFound)
      | Some m \<Rightarrow>
          if m_role m = RoleAgent then Inl AgentMayNotApprove
          else if \<not> can_perform m Approve then
            (if m_role m = RoleObserver then Inl (ApprovalMember ObserverForbidden) else Inl RoleMayNotApprove)
          else Inr ())"

text \<open>The lifetime of an approval: the one asked for, else the configured default, else 30 minutes.\<close>

definition approval_ttl :: "int option \<Rightarrow> int \<Rightarrow> int" where
  "approval_ttl default_ttl ttl =
     (if ttl = 0 then (case default_ttl of Some t \<Rightarrow> t | None \<Rightarrow> 30 * 60 * 1000000000) else ttl)"

definition approval_event ::
    "crypto \<Rightarrow> string \<Rightarrow> string \<Rightarrow> string \<Rightarrow> string \<Rightarrow> identity \<Rightarrow> event" where
  "approval_event C room run_id scope expires i =
     (let h = hash_id C (run_id @ scope @ expires)
      in run_event room h ''run.approved''
           (marshal_fields (str_members [(''run_id'', run_id), (''approval_id'', ''app_'' @ h),
              (''scope'', scope), (''expires_at'', expires)])) i)"

definition approve_locked ::
    "crypto \<Rightarrow> clock \<Rightarrow> int option \<Rightarrow> string \<Rightarrow> string \<Rightarrow> int \<Rightarrow> identity \<Rightarrow> room_dir \<Rightarrow>
     approval_error + event \<times> room_dir" where
  "approve_locked C T default_ttl run_id scope ttl i rd =
     bind_err (read_config rd) (\<lambda>cfg.
       case merge_all (rd_journal rd) of
         Inl e \<Rightarrow> Inl (ApprovalRun (MergeError e))
       | Inr merged \<Rightarrow>
           bind_err (check_approval (room_members C cfg merged) (member_id i)) (\<lambda>_.
           bind_err (lift_run (get_run C rd run_id)) (\<lambda>r.
             if r_state r \<noteq> StateRequested then Inl (ApprovalRun (InvalidTransition (r_state r)))
             else (let scope' = (if scope = [] then ''all'' else scope);
                       expires = rfc3339 T (now T + approval_ttl default_ttl ttl)
                   in lift_run (publish_in C i rd (approval_event C (rc_id cfg) run_id scope' expires i))))))"

definition approve_run ::
    "crypto \<Rightarrow> clock \<Rightarrow> int option \<Rightarrow> string \<Rightarrow> string \<Rightarrow> int \<Rightarrow> identity \<Rightarrow> room_dir \<Rightarrow> room_dir \<Rightarrow>
     approval_error + event \<times> room_dir" where
  "approve_run C T default_ttl run_id scope ttl i rd0 rd =
     bind_err (read_config rd0) (\<lambda>_. approve_locked C T default_ttl run_id scope ttl i rd)"

definition deny_run ::
    "crypto \<Rightarrow> string \<Rightarrow> string \<Rightarrow> identity \<Rightarrow> room_dir \<Rightarrow> approval_error + event \<times> room_dir" where
  "deny_run C run_id reason i rd =
     bind_err (read_config rd) (\<lambda>cfg.
     bind_err (lift_run (get_run C rd run_id)) (\<lambda>r.
       if r_state r \<noteq> StateRequested then Inl (ApprovalRun (InvalidTransition (r_state r)))
       else (let h = hash_id C (run_id @ reason)
             in lift_run (publish_in C i rd (run_event (rc_id cfg) h ''run.denied''
                  (marshal_fields (str_members [(''run_id'', run_id), (''approval_id'', ''app_'' @ h),
                     (''reason'', reason)])) i)))))"


section \<open>Who may approve\<close>

lemma lift_run_Inr [simp]: "lift_run r = Inr x \<longleftrightarrow> r = Inr x"
  by (simp add: lift_run_def split: sum.splits)

lemma read_config_Inr [simp]: "read_config rd = Inr cfg \<longleftrightarrow> read_room_config rd = Inr cfg"
  by (simp add: read_config_def split: sum.splits)

text \<open>The membership \<open>Approve\<close> decides on is the one the projection of runs goes by.\<close>

lemma room_members_replay:
  "room_members C cfg es =
     replay_members C (rc_root_event cfg) (rc_root_pubkey cfg) (filter (\<lambda>e. ev_room e = rc_id cfg) es)"
proof (induction es rule: rev_induct)
  case (snoc e es)
  have "room_members C cfg (es @ [e]) = (if membership_kind (kindof e) \<and> ev_room e = rc_id cfg
      then member_step C (rc_root_event cfg) (rc_root_pubkey cfg) (room_members C cfg es) e
      else room_members C cfg es)"
    by (simp add: room_members_def)
  then show ?case using snoc by (simp add: replay_members_snoc member_step_other)
qed (simp add: room_members_def replay_members_def)

lemma check_approval_Inr:
  "check_approval s a = Inr () \<longleftrightarrow> (\<exists>m. mems s a = Some m \<and> m_role m \<in> {RoleOwner, RoleMember})"
proof -
  have "can_perform m Approve \<longleftrightarrow> m_role m \<in> {RoleOwner, RoleMember}" for m
    by (cases "m_role m") (auto simp: can_perform_def)
  then show ?thesis by (auto simp: check_approval_def split: option.splits)
qed

lemma struct_fields:
  assumes "str_body ms"
  shows "body_fields names (marshal_fields (str_members ms)) =
      Some (map (\<lambda>n. case map_of ms n of None \<Rightarrow> [] | Some s \<Rightarrow> s) names)"
    and "body_ok (marshal_fields (str_members ms))"
proof -
  have wf: "wf_json (JObj (str_members ms))"
    using assms by (auto simp: str_body_def str_members_def list_all_iff plain_key_utf8)
  have ms: "body_members (marshal_fields (str_members ms)) = Some (str_members ms)"
    using wf by (intro body_members_marshal) (auto simp: list_all_iff)
  have fld: "field get_str [] n (str_members ms) = Some (case map_of ms n of None \<Rightarrow> [] | Some s \<Rightarrow> s)" for n
  proof -
    have fst: "map fst (str_members ms) = map fst ms" by (simp add: str_members_def case_prod_unfold)
    have plain: "list_all plain_key (map fst ms)" using assms by (auto simp: str_body_def list_all_iff)
    have "field get_str [] n (str_members ms) =
        (case map_of (str_members ms) n of None \<Rightarrow> Some [] | Some v \<Rightarrow> get_str [] v)"
      using assms plain fst by (intro field_map_of) (simp_all add: list_all_map_fst str_body_def)
    also have "map_of (str_members ms) = map_option JStr \<circ> map_of ms"
      by (simp add: str_members_def map_of_map)
    finally show ?thesis by (cases "map_of ms n") simp_all
  qed
  show "body_fields names (marshal_fields (str_members ms)) =
      Some (map (\<lambda>n. case map_of ms n of None \<Rightarrow> [] | Some s \<Rightarrow> s) names)"
    by (simp add: body_fields_def ms fld those_map_Some)
  show "body_ok (marshal_fields (str_members ms))"
    using wf unfolding body_ok_def marshal_fields_def by blast
qed

text \<open>What is relied on of \<open>time\<close>: instants are written to the second, in ASCII, and read back.\<close>

definition clock_ok :: "clock \<Rightarrow> bool" where
  "clock_ok T \<longleftrightarrow> (\<forall>t. rfc3339 T t \<noteq> [] \<and> valid_utf8 (rfc3339 T t) \<and>
     parse_rfc3339 T (rfc3339 T t) = Some (t - t mod 1000000000))"

lemma approve_Inr:
  assumes "run_ready C rd cfg es i" and "approve_run C T dflt j scope ttl i rd0 rd = Inr (e, rd')"
  shows "\<exists>m r. mems (room_members C cfg es) (member_id i) = Some m \<and> m_role m \<in> {RoleOwner, RoleMember} \<and>
    get_run C rd j = Inr r \<and> r_state r = StateRequested \<and>
    publish_in C i rd (approval_event C (rc_id cfg) j (if scope = [] then ''all'' else scope)
      (rfc3339 T (now T + approval_ttl dflt ttl)) i) = Inr (e, rd')"
  using assms
  by (auto simp: approve_run_def approve_locked_def bind_err_Inr run_ready_def check_approval_Inr Let_def
      split: sum.splits if_splits)

lemma approve_facts:
  assumes "run_ready C rd cfg es i" and "valid_utf8 j" and "valid_utf8 scope" and "clock_ok T"
    and "approve_run C T dflt j scope ttl i rd0 rd = Inr (e, rd')" and "fits e"
    and "\<And>m. mems (room_members C cfg es) (member_id i) = Some m \<Longrightarrow> keypair C (private_key i) (m_key m)"
  shows "\<exists>m r app. mems (room_members C cfg es) (member_id i) = Some m \<and> m_role m \<in> {RoleOwner, RoleMember} \<and>
    get_run C rd j = Inr r \<and> run_step (r_state r) (kindof e) StateApproved \<and>
    merge_all (rd_journal rd') = Inr (es @ [e]) \<and>
    get_run C rd' j = Inr (r\<lparr>r_state := StateApproved, r_approval := app,
      r_scope := (if scope = [] then ''all'' else scope),
      r_expires := rfc3339 T (now T + approval_ttl dflt ttl), r_updated := []\<rparr>) \<and>
    (\<forall>k. k \<noteq> j \<longrightarrow> get_run C rd' k = get_run C rd k)"
proof -
  define sc where "sc = (if scope = [] then ''all'' else scope)"
  define ex where "ex = rfc3339 T (now T + approval_ttl dflt ttl)"
  obtain m r where a: "mems (room_members C cfg es) (member_id i) = Some m" "m_role m \<in> {RoleOwner, RoleMember}"
    "get_run C rd j = Inr r" "r_state r = StateRequested"
    "publish_in C i rd (approval_event C (rc_id cfg) j sc ex i) = Inr (e, rd')"
    using approve_Inr[OF assms(1,5)] unfolding sc_def ex_def by blast
  define b where "b = j @ sc @ ex"
  define app where "app = ''app_'' @ hash_id C b"
  let ?ms = "[(''run_id'', j), (''approval_id'', app), (''scope'', sc), (''expires_at'', ex)]"
  have u: "valid_utf8 ''all''" "valid_utf8 ''run.approved''" by code_simp+
  then have body: "str_body ?ms"
    using assms(2-4) prefixed_id_utf8(3)[of C b] by (simp add: str_body_def clock_ok_def sc_def ex_def app_def del: append.simps)
  have pub: "publish_in C i rd (run_event (rc_id cfg) (hash_id C b) ''run.approved''
      (marshal_fields (str_members ?ms)) i) = Inr (e, rd')"
    using a(5) by (simp add: approval_event_def b_def app_def Let_def)
  note p = publish_in_effect[OF assms(1) struct_fields(2)[OF body] u(2) pub assms(6)]
  have e: "ev_kind e = ''run.approved''" "ev_room e = rc_id cfg" "ev_author e = member_id i" "ev_ts e = []"
    "ev_body e = marshal_fields (str_members ?ms)" using p by simp_all
  have auth: "approval_authorized C (room_members C cfg es) e"
  proof -
    have "verify_signature C (m_key m) e = Inr ()" using p assms(7)[OF a(1)] by blast
    moreover have "apply_event (room_members C cfg es) e = Inr (room_members C cfg es)"
      using a(1,2) e by (auto simp: apply_event_kinds check_approver_def)
    moreover have "can_perform m Approve" using a(2) by (auto simp: can_perform_def)
    ultimately show ?thesis using a(1) e by (simp add: approval_authorized_def)
  qed
  let ?f = "\<lambda>r. r\<lparr>r_state := StateApproved, r_approval := app, r_scope := sc,
    r_expires := ex, r_updated := []\<rparr>"
  have new: "map_of (project_runs_configured C (es @ [e]) cfg) k =
      (if k = j then map_option ?f (map_of (project_runs_configured C es cfg) j)
       else map_of (project_runs_configured C es cfg) k)" for k
  proof (rule project_change)
    show "project_run C (replay_members C (rc_root_event cfg) (rc_root_pubkey cfg)
        (filter (\<lambda>x. ev_room x = rc_id cfg) es)) e rs = change_run j ?f rs" for rs
      using auth e by (simp add: room_members_replay project_run_def project_approved_def struct_fields(1)[OF body])
  qed (use e in \<open>simp_all add: membership_kind_def\<close>)
  have get: "get_run C rd' k = (case map_of (project_runs_configured C (es @ [e]) cfg) k of
      None \<Rightarrow> Inl RunNotFound | Some r \<Rightarrow> Inr r)" for k
    using p by (simp add: get_run_def room_runs_def)
  have "run_step (r_state r) (kindof e) StateApproved" using a(4) e by (simp add: run_step_approved)
  then show ?thesis
    using a(1-3) p new get get_run_ready[OF assms(1)]
    by (intro exI[of _ m] exI[of _ r] exI[of _ app]) (auto simp: sc_def ex_def split: option.splits)
qed

text \<open>
  approving a run succeeds only for a caller the signed, rooted membership lists as an owner
  or a member at that moment, and for a run that is requested; it publishes one event, after
  which the run is projected as approved, with the scope asked for (all when empty) and the
  expiry, and every other run is as it was.
\<close>
theorem approve_effect:
  assumes "run_ready C rd cfg es i" and "valid_utf8 j" and "valid_utf8 scope" and "clock_ok T"
    and "approve_run C T dflt j scope ttl i rd0 rd = Inr (e, rd')" and "fits e"
    and "\<And>m. mems (room_members C cfg es) (member_id i) = Some m \<Longrightarrow> keypair C (private_key i) (m_key m)"
  shows "\<exists>m r app. mems (room_members C cfg es) (member_id i) = Some m \<and> m_role m \<in> {RoleOwner, RoleMember} \<and>
    get_run C rd j = Inr r \<and> run_step (r_state r) (kindof e) StateApproved \<and>
    merge_all (rd_journal rd') = Inr (es @ [e]) \<and>
    get_run C rd' j = Inr (r\<lparr>r_state := StateApproved, r_approval := app,
      r_scope := (if scope = [] then ''all'' else scope),
      r_expires := rfc3339 T (now T + approval_ttl dflt ttl), r_updated := []\<rparr>) \<and>
    (\<forall>k. k \<noteq> j \<longrightarrow> get_run C rd' k = get_run C rd k)"
  by (rule approve_facts[OF assms])

text \<open>
  an approval opens a window that ends at its expiry, cut to the second: at any time \<open>t\<close> later
  than that \<open>Start\<close> refuses the run as expired, and until then expiry does not stop it; with a
  lifetime below one second the window may be over before it opens.
\<close>
theorem approval_window:
  assumes "run_ready C rd cfg es i" and "valid_utf8 j" and "valid_utf8 scope" and "clock_ok T"
    and "approve_run C T dflt j scope ttl i rd0 rd = Inr (e, rd')" and "fits e"
    and "\<And>m. mems (room_members C cfg es) (member_id i) = Some m \<Longrightarrow> keypair C (private_key i) (m_key m)"
  shows "(\<exists>at. start_run C (T\<lparr>now := t\<rparr>) j k rd' = Inl (ApprovalExpired at)) \<longleftrightarrow>
    now T + approval_ttl dflt ttl - (now T + approval_ttl dflt ttl) mod 1000000000 < t"
proof -
  let ?until = "now T + approval_ttl dflt ttl"
  obtain r where r: "get_run C rd' j = Inr r" "r_state r = StateApproved" "r_expires r = rfc3339 T ?until"
    using approve_facts[OF assms] by auto
  have ex: "expired (T\<lparr>now := t\<rparr>) (r_expires r) \<longleftrightarrow> ?until - ?until mod 1000000000 < t"
    using assms(4) by (simp add: expired_def r(3) clock_ok_def)
  have cfg: "read_room_config rd' = Inr cfg"
    using assms(1,5) approve_Inr[OF assms(1,5)] by (auto simp: publish_in_def run_ready_def split: sum.splits)
  have no: "publish_in C k rd' ev \<noteq> Inl (ApprovalExpired at)" for ev at
    by (simp add: publish_in_def split: sum.splits)
  show ?thesis
    unfolding ex[symmetric]
    using r cfg no by (cases "expired (T\<lparr>now := t\<rparr>) (r_expires r)") (simp_all add: start_run_def read_room_id_def)
qed

text \<open>
  Denying asks for no role at all: whoever can write a segment of the journal, member or not,
  turns any requested run into a denied one, and the projection takes it.
\<close>
theorem denial_needs_no_role:
  assumes "run_ready C rd cfg es i" and "valid_utf8 j" and "valid_utf8 reason"
    and "get_run C rd j = Inr r" and "r_state r = StateRequested"
  shows "\<exists>e rd'. deny_run C j reason i rd = Inr (e, rd') \<and>
    (fits e \<longrightarrow> get_run C rd' j = Inr (r\<lparr>r_state := StateDenied, r_error := reason, r_updated := []\<rparr>))"
proof -
  define b where "b = j @ reason"
  define app where "app = ''app_'' @ hash_id C b"
  let ?ms = "[(''run_id'', j), (''approval_id'', app), (''reason'', reason)]"
  have u: "valid_utf8 ''run.denied''" by code_simp
  have body: "str_body ?ms"
    using assms(2,3) prefixed_id_utf8(3)[of C b] by (simp add: str_body_def app_def del: append.simps)
  let ?ev = "run_event (rc_id cfg) (hash_id C b) ''run.denied'' (marshal_fields (str_members ?ms)) i"
  have wf: "wf_event ?ev"
    using assms(1) struct_fields(2)[OF body] u hash_id_utf8[of C b]
    by (auto simp: wf_event_def run_event_def run_ready_def body_ok_def current_version_def)
  obtain e d' where "publish C i (rd_journal rd) ?ev = Inr (e, d')"
    using publish_eq[OF wf, of C i "rd_journal rd"] by blast
  then obtain rd' where p: "publish_in C i rd ?ev = Inr (e, rd')" by (simp add: publish_in_def)
  have cfg: "read_room_config rd = Inr cfg" using assms(1) by (simp add: run_ready_def)
  have deny: "deny_run C j reason i rd = Inr (e, rd')"
    using p cfg assms(4,5) by (simp add: deny_run_def read_config_def bind_err_def lift_run_def Let_def b_def app_def)
  let ?f = "\<lambda>r. r\<lparr>r_state := StateDenied, r_error := reason, r_updated := []\<rparr>"
  have "get_run C rd' j = Inr (?f r)" if "fits e"
  proof -
    note q = publish_in_effect[OF assms(1) struct_fields(2)[OF body] u p that]
    have e: "ev_kind e = ''run.denied''" "ev_room e = rc_id cfg" "ev_ts e = []"
      "ev_body e = marshal_fields (str_members ?ms)" using q by simp_all
    have "map_of (project_runs_configured C (es @ [e]) cfg) j =
        (if j = j then map_option ?f (map_of (project_runs_configured C es cfg) j)
         else map_of (project_runs_configured C es cfg) j)"
    proof (rule project_change)
      show "project_run C s e rs = change_run j ?f rs" for s rs
        using e by (simp add: project_run_def project_error_def struct_fields(1)[OF body])
    qed (use e in \<open>simp_all add: membership_kind_def\<close>)
    then show ?thesis
      using q assms(4) get_run_ready[OF assms(1), of j]
      by (auto simp: get_run_def room_runs_def split: option.splits)
  qed
  with deny show ?thesis by blast
qed


section \<open>An approval in use\<close>

text \<open>A clock that writes seconds in unary.\<close>

definition unary :: "int \<Rightarrow> string" where
  "unary k = (if 0 \<le> k then CHR ''+'' # replicate (nat k) CHR ''1'' else CHR ''-'' # replicate (nat (- k)) CHR ''1'')"

definition of_unary :: "string \<Rightarrow> int option" where
  "of_unary s =
     (case s of [] \<Rightarrow> None | c # u \<Rightarrow> Some (if c = CHR ''+'' then int (length u) else - int (length u)))"

definition toy_clock :: clock where
  "toy_clock = \<lparr>now = 0, rfc3339 = \<lambda>t. unary (t div 1000000000),
     parse_rfc3339 = \<lambda>s. map_option (\<lambda>k. k * 1000000000) (of_unary s)\<rparr>"

lemma toy_clock_ok: "clock_ok toy_clock"
proof -
  have "of_unary (unary k) = Some k" for k by (simp add: of_unary_def unary_def)
  moreover have "valid_utf8 (unary k)" for k
    by (rule valid_utf8_ascii) (auto simp: unary_def split: if_splits)
  moreover have "unary k \<noteq> []" for k by (simp add: unary_def)
  ultimately show ?thesis by (simp add: clock_ok_def toy_clock_def minus_mod_eq_div_mult)
qed

lemma sample_approve:
  "\<exists>cfg rd es j e rd' r. run_ready toy_crypto rd cfg es alice \<and> valid_utf8 j \<and>
     get_run toy_crypto rd j = Inr r \<and> r_state r = StateRequested \<and>
     approve_run toy_crypto toy_clock None j [] 0 alice rd rd = Inr (e, rd') \<and> fits e \<and>
     room_members toy_crypto cfg es = founder alice ''lab''"
proof -
  obtain cfg rd es j r where r: "run_ready toy_crypto rd cfg es alice" "length (rc_id cfg) = 19"
    "get_run toy_crypto rd j = Inr r" "r_state r = StateRequested" "valid_utf8 j" "length j \<le> 21"
    "room_members toy_crypto cfg es = founder alice ''lab''"
    using sample_run unfolding room_members_replay by blast
  define ex where "ex = unary 1800"
  define b where "b = j @ ''all'' @ ex"
  define app where "app = ''app_'' @ hash_id toy_crypto b"
  let ?ms = "[(''run_id'', j), (''approval_id'', app), (''scope'', ''all''), (''expires_at'', ex)]"
  have ex: "rfc3339 toy_clock (now toy_clock + approval_ttl None 0) = ex" "length ex = 1801" "valid_utf8 ex"
    using toy_clock_ok
    by (auto simp: toy_clock_def approval_ttl_def ex_def clock_ok_def) (auto simp: unary_def intro!: valid_utf8_ascii)
  have u: "valid_utf8 ''all''" "valid_utf8 ''run.approved''" by code_simp+
  have body: "str_body ?ms"
    using r(5) u ex(3) prefixed_id_utf8(3)[of toy_crypto b] by (simp add: str_body_def app_def del: append.simps)
  have "length app \<le> 20" by (simp add: app_def hash_id_def)
  then have len: "length (marshal_fields (str_members ?ms)) \<le> 20000"
    using length_marshal_strings[of ?ms] r(6) ex(2) by (simp add: marshal_fields_def)
  obtain e rd' where p: "publish_in toy_crypto alice rd (run_event (rc_id cfg) (hash_id toy_crypto b) ''run.approved''
      (marshal_fields (str_members ?ms)) alice) = Inr (e, rd')" "fits e"
    using publish_in_total[OF r(1) struct_fields(2)[OF body] u(2) toy_sha_ok alice_short_sigs, of b] len r(2)
      alice_id_length by auto
  have ev: "approval_event toy_crypto (rc_id cfg) j ''all'' ex alice =
      run_event (rc_id cfg) (hash_id toy_crypto b) ''run.approved'' (marshal_fields (str_members ?ms)) alice"
    by (simp add: approval_event_def b_def app_def Let_def)
  have "check_approval (room_members toy_crypto cfg es) (member_id alice) = Inr ()"
    by (simp add: check_approval_Inr r(7) founder_def)
  then have "approve_run toy_crypto toy_clock None j [] 0 alice rd rd = Inr (e, rd')"
    using r(1,3,4) p(1) ex(1)
    by (simp add: approve_run_def approve_locked_def read_config_def lift_run_def run_ready_def ev)
  with r p(2) show ?thesis by blast
qed

theorem approve_effect_witness:
  "\<exists>rd j e rd' r. approve_run toy_crypto toy_clock None j [] 0 alice rd rd = Inr (e, rd') \<and>
     get_run toy_crypto rd' j = Inr r \<and> r_state r = StateApproved \<and> r_scope r = ''all''"
proof -
  obtain cfg rd es j e rd' where a: "run_ready toy_crypto rd cfg es alice" "valid_utf8 j"
    "approve_run toy_crypto toy_clock None j [] 0 alice rd rd = Inr (e, rd')" "fits e"
    "room_members toy_crypto cfg es = founder alice ''lab''" using sample_approve by blast
  have k: "keypair toy_crypto (private_key alice) (m_key m)"
    if "mems (room_members toy_crypto cfg es) (member_id alice) = Some m" for m
    using that alice_keypair by (auto simp: a(5) founder_def)
  have "valid_utf8 []" by code_simp
  from approve_effect[OF a(1,2) this toy_clock_ok a(3,4) k]
  obtain r where "get_run toy_crypto rd' j = Inr r" "r_state r = StateApproved" "r_scope r = ''all''" by auto
  with a(3) show ?thesis by blast
qed

theorem approval_window_witness:
  "\<exists>rd j e rd' at. approve_run toy_crypto toy_clock None j [] 0 alice rd rd = Inr (e, rd') \<and>
     start_run toy_crypto (toy_clock\<lparr>now := 1800000000001\<rparr>) j alice rd' = Inl (ApprovalExpired at)"
proof -
  obtain cfg rd es j e rd' where a: "run_ready toy_crypto rd cfg es alice" "valid_utf8 j"
    "approve_run toy_crypto toy_clock None j [] 0 alice rd rd = Inr (e, rd')" "fits e"
    "room_members toy_crypto cfg es = founder alice ''lab''" using sample_approve by blast
  have k: "keypair toy_crypto (private_key alice) (m_key m)"
    if "mems (room_members toy_crypto cfg es) (member_id alice) = Some m" for m
    using that alice_keypair by (auto simp: a(5) founder_def)
  have "valid_utf8 []" by code_simp
  moreover have "now toy_clock + approval_ttl None 0 - (now toy_clock + approval_ttl None 0) mod 1000000000 < 1800000000001"
    by (simp add: toy_clock_def approval_ttl_def)
  ultimately obtain at where "start_run toy_crypto (toy_clock\<lparr>now := 1800000000001\<rparr>) j alice rd' = Inl (ApprovalExpired at)"
    using approval_window[OF a(1,2) _ toy_clock_ok a(3,4) k, of 1800000000001 alice] by blast
  with a(3) show ?thesis by blast
qed

theorem denial_needs_no_role_witness:
  "\<exists>rd j r e rd'. get_run toy_crypto rd j = Inr r \<and> r_state r = StateRequested \<and>
     deny_run toy_crypto j ''no'' alice rd = Inr (e, rd')"
proof -
  obtain cfg rd es j r where r: "run_ready toy_crypto rd cfg es alice" "length (rc_id cfg) = 19"
    "get_run toy_crypto rd j = Inr r" "r_state r = StateRequested" "valid_utf8 j" "length j \<le> 21"
    using sample_run by blast
  have "valid_utf8 ''no''" by code_simp
  from denial_needs_no_role[OF r(1,5) this r(3,4)] r(3,4) show ?thesis by blast
qed

theorem approved_run_was_authorized_witness:
  "\<exists>es re rk i r. map_of (project_runs toy_crypto (Some (re, rk)) es) i = Some r \<and> r_state r = StateApproved \<and>
     (\<exists>e \<in> set es. kindof e = RunApproved)"
proof -
  obtain cfg rd es j e rd' where a: "run_ready toy_crypto rd cfg es alice" "valid_utf8 j"
    "approve_run toy_crypto toy_clock None j [] 0 alice rd rd = Inr (e, rd')" "fits e"
    "room_members toy_crypto cfg es = founder alice ''lab''" using sample_approve by blast
  have k: "keypair toy_crypto (private_key alice) (m_key m)"
    if "mems (room_members toy_crypto cfg es) (member_id alice) = Some m" for m
    using that alice_keypair by (auto simp: a(5) founder_def)
  have u: "valid_utf8 []" by code_simp
  obtain r cfg' fs where r: "merge_all (rd_journal rd') = Inr fs" "read_room_config rd' = Inr cfg'"
    "map_of (project_runs_configured toy_crypto fs cfg') j = Some r" "r_state r = StateApproved"
    using approve_facts[OF a(1,2) u toy_clock_ok a(3,4) k]
    by (auto simp: get_run_def room_runs_def split: sum.splits option.splits)
  let ?fs = "filter (\<lambda>e. ev_room e = rc_id cfg') fs"
  have "map_of (project_runs toy_crypto (Some (rc_root_event cfg', rc_root_pubkey cfg')) ?fs) j = Some r"
    using r(3) by (simp add: project_runs_configured_def)
  moreover from approved_run_was_authorized[OF this r(4)] have "\<exists>e \<in> set ?fs. kindof e = RunApproved"
    by (metis in_set_conv_decomp)
  ultimately show ?thesis using r(4) by blast
qed

end
