(* ===== verification/Go_Text.thy ===== *)
theory Go_Text
  imports Go_Codec
begin

text \<open>
  More of Go's text functions, shared by the packages outside the rooms: \<open>strings.ToLower\<close> and
  \<open>strings.EqualFold\<close> as far as they are compared with ASCII words, \<open>strings.Cut\<close> and
  \<open>strings.Split\<close>, \<open>filepath.Clean\<close> and \<open>filepath.Ext\<close> on Unix.
\<close>

section \<open>Letter case\<close>

text \<open>
  \<open>strings.ToLower\<close> and the folding of \<open>strings.EqualFold\<close>, as far as their results are
  compared with ASCII words: beside the ASCII letters, the capital I with a dot and the Kelvin
  sign have an ASCII lower case, and the long s folds to an s.
\<close>

fun go_lower :: "string \<Rightarrow> string" where
  "go_lower (a # b # c # s) =
     (if a = CHR 0xC4 \<and> b = CHR 0xB0 then CHR ''i'' # go_lower (c # s)
      else if a = CHR 0xE2 \<and> b = CHR 0x84 \<and> c = CHR 0xAA then CHR ''k'' # go_lower s
      else lower_char a # go_lower (b # c # s))"
| "go_lower [a, b] =
     (if a = CHR 0xC4 \<and> b = CHR 0xB0 then [CHR ''i''] else [lower_char a, lower_char b])"
| "go_lower [a] = [lower_char a]"
| "go_lower [] = []"

fun go_fold :: "string \<Rightarrow> string" where
  "go_fold (a # b # c # s) =
     (if a = CHR 0xC5 \<and> b = CHR 0xBF then CHR ''s'' # go_fold (c # s)
      else if a = CHR 0xE2 \<and> b = CHR 0x84 \<and> c = CHR 0xAA then CHR ''k'' # go_fold s
      else lower_char a # go_fold (b # c # s))"
| "go_fold [a, b] =
     (if a = CHR 0xC5 \<and> b = CHR 0xBF then [CHR ''s''] else [lower_char a, lower_char b])"
| "go_fold [a] = [lower_char a]"
| "go_fold [] = []"

section \<open>Cutting and splitting\<close>

text \<open>\<open>strings.Cut\<close> at a byte, and \<open>strings.Split\<close> at a non-empty separator.\<close>

definition cut_at :: "char \<Rightarrow> string \<Rightarrow> (string \<times> string) option" where
  "cut_at c s = (if c \<in> set s
                 then Some (takeWhile (\<lambda>d. d \<noteq> c) s, tl (dropWhile (\<lambda>d. d \<noteq> c) s)) else None)"

function split_loop :: "string \<Rightarrow> string \<Rightarrow> string \<Rightarrow> string list" where
  "split_loop sep acc s =
     (if s = [] \<or> sep = [] then [acc @ s]
      else if has_prefix s sep then acc # split_loop sep [] (drop (length sep) s)
      else split_loop sep (acc @ [hd s]) (tl s))"
  by pat_completeness auto
termination
  by (relation "measure (\<lambda>(sep, acc, s). length s)") auto

declare split_loop.simps [simp del]

definition split_string :: "string \<Rightarrow> string \<Rightarrow> string list" where
  "split_string sep s = split_loop sep [] s"


lemma cut_at_append: "c \<notin> set a \<Longrightarrow> cut_at c (a @ c # b) = Some (a, b)"
  by (simp add: cut_at_def takeWhile_append dropWhile_append)

lemma cut_at_parts:
  assumes "cut_at c s = Some (a, b)"
  shows "s = a @ c # b"
proof -
  have "c \<in> set s" using assms by (simp add: cut_at_def split: if_splits)
  then obtain x y where xy: "s = x @ c # y" "c \<notin> set x"
    by (meson split_list_first)
  then show ?thesis using assms cut_at_append[OF xy(2), of y] by simp
qed

lemma split_loop_none:
  "sep \<noteq> [] \<Longrightarrow> hd sep \<notin> set s \<Longrightarrow> split_loop sep acc s = [acc @ s]"
proof (induction s arbitrary: acc)
  case Nil
  then show ?case by (subst split_loop.simps) simp
next
  case (Cons c s)
  have "\<not> has_prefix (c # s) sep"
    using Cons.prems by (cases sep) (auto simp: has_prefix_def)
  then show ?case using Cons by (subst split_loop.simps) simp
qed

section \<open>Paths\<close>

text \<open>
  \<open>filepath.Clean\<close> of a relative path: the elements kept so far in reverse, then those left.
\<close>

fun clean_elems :: "string list \<Rightarrow> string list \<Rightarrow> string list" where
  "clean_elems out [] = rev out"
| "clean_elems out (e # es) =
     (if e = [] \<or> e = ''.'' then clean_elems out es
      else if e = ''..'' then
        (case out of
           [] \<Rightarrow> clean_elems [''..''] es
         | o1 # out' \<Rightarrow> if o1 = ''..'' then clean_elems (''..'' # out) es else clean_elems out' es)
      else clean_elems (e # out) es)"

fun join_with :: "string \<Rightarrow> string list \<Rightarrow> string" where
  "join_with sep [] = []"
| "join_with sep [x] = x"
| "join_with sep (x # y # xs) = x @ sep @ join_with sep (y # xs)"

definition clean_rel :: "string \<Rightarrow> string" where
  "clean_rel p = (let es = clean_elems [] (split_string ''/'' p)
                  in if es = [] then ''.'' else join_with ''/'' es)"

text \<open>\<open>filepath.Ext\<close>: from the last dot after the last slash.\<close>

definition path_ext :: "string \<Rightarrow> string" where
  "path_ext p =
     (let e = rev (takeWhile (\<lambda>c. c \<noteq> CHR ''/'') (rev p))
      in if CHR ''.'' \<in> set e then CHR ''.'' # rev (takeWhile (\<lambda>c. c \<noteq> CHR ''.'') (rev e)) else [])"


section \<open>What the functions keep\<close>

lemma set_trim_left: "set (trim_left s) \<subseteq> set s"
proof (induction s rule: trim_left.induct)
  case (1 s)
  then show ?case
    using set_drop_subset[of "space_at s" s] by (subst trim_left.simps) auto
qed

lemma set_trim_right: "set (trim_right s) \<subseteq> set s"
proof (induction s rule: trim_right.induct)
  case (1 s)
  then show ?case
    using set_take_subset[of "length s - space_end s" s] by (subst trim_right.simps) auto
qed

lemma set_trim_space: "set (trim_space s) \<subseteq> set s"
  unfolding trim_space_def using set_trim_left set_trim_right by blast

text \<open>Two facts on the 256 bytes, by looking at each of them.\<close>

lemma all_chars: "list_all P Enum.enum \<Longrightarrow> P (c::char)"
  by (simp add: list_all_iff enum_UNIV)

lemma lower_char_blank [simp]: "lower_char c = CHR '' '' \<longleftrightarrow> c = CHR '' ''"
  by (rule all_chars[where P = "\<lambda>c. lower_char c = CHR '' '' \<longleftrightarrow> c = CHR '' ''"]) code_simp

lemma set_go_lower: "CHR '' '' \<in> set (go_lower s) \<Longrightarrow> CHR '' '' \<in> set s"
proof (induction s rule: go_lower.induct)
  case (1 a b c s)
  then show ?case
    using lower_char_blank[of a] by (simp split: if_splits del: lower_char_blank) metis+
next
  case (2 a b)
  then show ?case
    using lower_char_blank[of a] lower_char_blank[of b]
    by (simp split: if_splits del: lower_char_blank) metis+
next
  case (3 a)
  then show ?case
    using lower_char_blank[of a] by (simp del: lower_char_blank)
qed simp

lemma set_go_fold:
  "c \<in> set s \<Longrightarrow> c \<in> {CHR 0xC5, CHR 0xBF, CHR 0xE2, CHR 0x84, CHR 0xAA} \<or> lower_char c \<in> set (go_fold s)"
proof (induction s rule: go_fold.induct)
  case (1 a b d s)
  show ?case
  proof (cases "a = CHR 0xC5 \<and> b = CHR 0xBF")
    case True
    then show ?thesis using 1 by auto
  next
    case out: False
    show ?thesis
    proof (cases "a = CHR 0xE2 \<and> b = CHR 0x84 \<and> d = CHR 0xAA")
      case True
      then show ?thesis using 1(2,4) out by auto
    next
      case False
      then show ?thesis using 1(3,4) out by auto
    qed
  qed
qed (auto split: if_splits)


end
