(* ===== verification/Adapter.thy ===== *)
theory Adapter
  imports Approvals Go_Text
begin

text \<open>
  Running a run's agent: \<open>ExecuteAdapter\<close> of \<open>internal/room/run/adapter.go\<close>.  The user's
  configuration of adapters, the plan files of the room and the command itself are arguments:
  \<open>exec args dir rd\<close> gives the command's error text, if it failed, and the room it leaves.  Files
  for the logs are not modelled.  The result says, next to the error, which command was run.
\<close>

section \<open>Strings\<close>

text \<open>\<open>strings.Contains\<close> and \<open>strings.ReplaceAll\<close> (of a text that is not empty).\<close>

fun contains :: "string \<Rightarrow> string \<Rightarrow> bool" where
  "contains [] sub = (sub = [])"
| "contains (c # s) sub = (has_prefix (c # s) sub \<or> contains s sub)"

function replace_all :: "string \<Rightarrow> string \<Rightarrow> string \<Rightarrow> string" where
  "replace_all old new [] = []"
| "replace_all old new (c # s) =
     (if old \<noteq> [] \<and> has_prefix (c # s) old then new @ replace_all old new (drop (length old) (c # s))
      else c # replace_all old new s)"
  by pat_completeness auto
termination
  by (relation "measure (\<lambda>(_, _, s). length s)") (auto simp: neq_Nil_conv)

lemma contains_iff: "contains s sub \<longleftrightarrow> (\<exists>a b. s = a @ sub @ b)"
proof (induction s)
  case (Cons c s)
  have "has_prefix (c # s) sub \<longleftrightarrow> (\<exists>b. c # s = sub @ b)"
    by (auto simp: has_prefix_def) (metis append_take_drop_id)
  moreover have "(\<exists>a b. c # s = a @ sub @ b) \<longleftrightarrow> (\<exists>b. c # s = sub @ b) \<or> (\<exists>a b. s = a @ sub @ b)"
    (is "?l \<longleftrightarrow> ?r")
  proof
    assume ?l
    then obtain a b where "c # s = a @ sub @ b" by blast
    then show ?r by (cases a) auto
  next
    assume ?r
    then show ?l by (metis append_Cons append_Nil)
  qed
  ultimately show ?case using Cons by simp
qed auto

lemma replace_all_absent: "old \<noteq> [] \<Longrightarrow> \<not> contains s old \<Longrightarrow> replace_all old new s = s"
  by (induction s) auto


section \<open>Running the adapter\<close>

record adapter_config =
  ad_command :: "string list"
  ad_workdir :: string

definition scope_covers :: "run \<Rightarrow> bool" where
  "scope_covers r \<longleftrightarrow>
     \<not> (r_scope r \<noteq> [] \<and> r_scope r \<noteq> ''all'' \<and> r_adapter r \<noteq> [] \<and> \<not> contains (r_scope r) (r_adapter r))"

definition adapter_name :: "run \<Rightarrow> string" where
  "adapter_name r = (if r_adapter r = [] then ''default'' else r_adapter r)"

definition prompt_of :: "(string \<Rightarrow> string option) \<Rightarrow> run \<Rightarrow> string" where
  "prompt_of plans r =
     (if r_plan_file r \<noteq> [] then (case plans (r_plan_file r) of Some c \<Rightarrow> c | None \<Rightarrow> r_title r) else r_title r)"

definition command_args :: "string \<Rightarrow> string \<Rightarrow> string list \<Rightarrow> string list" where
  "command_args room prompt =
     map (\<lambda>arg. replace_all ''{room_artifact_root}'' room (replace_all ''{prompt}'' prompt arg))"

definition command_dir :: "string \<Rightarrow> adapter_config \<Rightarrow> string" where
  "command_dir room a =
     (if ad_workdir a \<noteq> [] then replace_all ''{room_artifact_root}'' room (ad_workdir a) else room)"

text \<open>A failed command is recorded with \<open>Fail\<close>, any other one with \<open>Finish\<close>; \<open>took\<close> is the duration's text.\<close>

definition record_outcome ::
    "crypto \<Rightarrow> string \<Rightarrow> string \<Rightarrow> string \<Rightarrow> identity \<Rightarrow> string option \<Rightarrow> room_dir \<Rightarrow> (run_error + unit) \<times> room_dir" where
  "record_outcome C name took run_id i failure rd =
     (case failure of
        Some err \<Rightarrow>
          (Inl (AdapterFailed err),
           case fail_run C run_id (''exit error: '' @ err @ '' (duration: '' @ took @ '')'') i rd of
             Inl _ \<Rightarrow> rd
           | Inr (_, rd') \<Rightarrow> rd')
      | None \<Rightarrow>
          (case finish_run C run_id (''Adapter '' @ name @ '' completed in '' @ took) [] i rd of
             Inl e \<Rightarrow> (Inl e, rd)
           | Inr (_, rd') \<Rightarrow> (Inr (), rd')))"

definition execute_adapter ::
    "crypto \<Rightarrow> clock \<Rightarrow> (string \<rightharpoonup> adapter_config) \<Rightarrow> (string \<Rightarrow> string option) \<Rightarrow> string \<Rightarrow> string \<Rightarrow>
     (string list \<Rightarrow> string \<Rightarrow> room_dir \<Rightarrow> string option \<times> room_dir) \<Rightarrow> string \<Rightarrow> identity \<Rightarrow> room_dir \<Rightarrow>
     (run_error + unit) \<times> (string list \<times> string) option \<times> room_dir" where
  "execute_adapter C T adapters plans room took exec run_id i rd =
     (case get_run C rd run_id of
        Inl e \<Rightarrow> (Inl e, None, rd)
      | Inr r \<Rightarrow>
          if \<not> scope_covers r then (Inl AdapterNotApproved, None, rd)
          else (case adapters (adapter_name r) of
              None \<Rightarrow> (Inl (AdapterNotFound (adapter_name r)), None, rd)
            | Some a \<Rightarrow>
                if ad_command a = [] then (Inl (AdapterNotFound (adapter_name r)), None, rd)
                else
                  (let args = command_args room (prompt_of plans r) (ad_command a);
                       dir = command_dir room a;
                       started = (if r_state r = StateApproved
                                  then map_sum id snd (start_run C T run_id i rd) else Inr rd)
                   in case started of
                        Inl e \<Rightarrow> (Inl e, None, rd)
                      | Inr rd1 \<Rightarrow>
                          (let (failure, rd2) = exec args dir rd1;
                               (res, rd3) = record_outcome C (adapter_name r) took run_id i failure rd2
                           in (res, Some (args, dir), rd3)))))"

section \<open>What is executed\<close>

text \<open>
  What replacing means: the text is cut at the occurrences of the old word, and no piece between
  two of them has another.
\<close>

definition replaces :: "string \<Rightarrow> string \<Rightarrow> string \<Rightarrow> string \<Rightarrow> bool" where
  "replaces old new s t \<longleftrightarrow>
     (\<exists>ps. ps \<noteq> [] \<and> s = join_with old ps \<and> t = join_with new ps \<and> (\<forall>p \<in> set ps. \<nexists>a b. p = a @ old @ b))"

lemma join_with_cons: "ps \<noteq> [] \<Longrightarrow> join_with sep (p # ps) = p @ sep @ join_with sep ps"
  by (cases ps) simp_all

lemma replace_all_replaces: "old \<noteq> [] \<Longrightarrow> replaces old new s (replace_all old new s)"
  unfolding replaces_def contains_iff[symmetric]
proof (induction old new s rule: replace_all.induct)
  case (1 old new)
  then show ?case by (intro exI[of _ "[[]]"]) simp
next
  case (2 old new c s)
  show ?case
  proof (cases "has_prefix (c # s) old")
    case True
    then obtain ps where ps: "ps \<noteq> []" "drop (length old) (c # s) = join_with old ps"
      "replace_all old new (drop (length old) (c # s)) = join_with new ps" "\<forall>p \<in> set ps. \<not> contains p old"
      using 2 by blast
    have "c # s = old @ drop (length old) (c # s)" using True unfolding has_prefix_def by (metis append_take_drop_id)
    then have "c # s = join_with old ([] # ps)" using ps(1,2) by (simp add: join_with_cons)
    moreover have "replace_all old new (c # s) = join_with new ([] # ps)"
      using True 2(3) ps(1,3) by (simp add: join_with_cons)
    ultimately show ?thesis using ps(4) 2(3) by (intro exI[of _ "[] # ps"]) simp
  next
    case False
    then obtain ps where ps: "ps \<noteq> []" "s = join_with old ps" "replace_all old new s = join_with new ps"
      "\<forall>p \<in> set ps. \<not> contains p old"
      using 2 by blast
    then obtain p qs where qs: "ps = p # qs" by (cases ps) auto
    have cons: "c # join_with sep ps = join_with sep ((c # p) # qs)" for sep by (cases qs) (simp_all add: qs)
    obtain t where t: "s = p @ t" using ps(2) by (cases qs) (simp_all add: qs)
    have "\<not> has_prefix (c # p) old"
    proof
      assume "has_prefix (c # p) old"
      then obtain w where w: "c # p = old @ w" unfolding has_prefix_def by (metis append_take_drop_id)
      have "c # s = (c # p) @ t" by (simp add: t)
      then have "c # s = old @ w @ t" by (simp only: w append_assoc)
      then have "has_prefix (c # s) old" by (simp add: has_prefix_def)
      with False show False by simp
    qed
    then have "\<forall>p \<in> set ((c # p) # qs). \<not> contains p old" using ps(4) by (simp add: qs)
    moreover have "c # s = join_with old ((c # p) # qs)" by (simp only: cons[symmetric] ps(2)[symmetric])
    moreover have "replace_all old new (c # s) = join_with new ((c # p) # qs)"
      by (simp add: False cons[symmetric] ps(3))
    ultimately show ?thesis by (intro exI[of _ "(c # p) # qs"]) simp
  qed
qed

text \<open>The arguments and the directory of the command, for an adapter, a room and a prompt.\<close>

lemma command_args_replaced:
  "list_all2 (\<lambda>arg out. \<exists>mid. replaces ''{prompt}'' prompt arg mid \<and> replaces ''{room_artifact_root}'' room mid out)
     args (command_args room prompt args)"
proof -
  have "replaces ''{prompt}'' prompt arg (replace_all ''{prompt}'' prompt arg) \<and>
      replaces ''{room_artifact_root}'' room mid (replace_all ''{room_artifact_root}'' room mid)" for arg mid
    by (simp add: replace_all_replaces)
  then show ?thesis unfolding command_args_def by (auto simp: list_all2_conv_all_nth)
qed

lemma execute_started:
  assumes "get_run C rd j = Inr r" and "scope_covers r" and "adapters (adapter_name r) = Some a" and "ad_command a \<noteq> []"
  shows "fst (snd (execute_adapter C T adapters plans room took exec j i rd)) =
    (if r_state r = StateApproved \<and> \<not> is_ok (start_run C T j i rd) then None
     else Some (command_args room (prompt_of plans r) (ad_command a), command_dir room a))"
  using assms
  by (cases "start_run C T j i rd") (auto simp: execute_adapter_def Let_def is_ok_iff split: prod.splits)

lemma execute_not:
  assumes "execute_adapter C T adapters plans room took exec j i rd = (res, None, rd')"
  shows "rd' = rd \<and> (\<exists>x. res = Inl x)"
  using assms by (auto simp: execute_adapter_def Let_def split: sum.splits if_splits option.splits prod.splits)

lemma execute_Some:
  assumes "execute_adapter C T adapters plans room took exec j i rd = (res, Some (args, dir), rd')"
  shows "\<exists>r a. get_run C rd j = Inr r \<and> scope_covers r \<and> adapters (adapter_name r) = Some a \<and> ad_command a \<noteq> [] \<and>
    args = command_args room (prompt_of plans r) (ad_command a) \<and> dir = command_dir room a \<and>
    (r_state r = StateApproved \<longrightarrow> is_ok (start_run C T j i rd))"
  using assms
  by (cases "start_run C T j i rd")
    (auto simp: execute_adapter_def Let_def is_ok_iff split: sum.splits if_splits option.splits prod.splits)

text \<open>
  An approval in force: it has not expired, and the room's log has a signed event that gave it, by
  someone who was an owner or member at that point, for just this run, scope and expiry.
\<close>

definition approval_in_force :: "crypto \<Rightarrow> clock \<Rightarrow> room_dir \<Rightarrow> string \<Rightarrow> run \<Rightarrow> bool" where
  "approval_in_force C T rd j r \<longleftrightarrow>
     (r_expires r = [] \<or> (case parse_rfc3339 T (r_expires r) of None \<Rightarrow> True | Some t \<Rightarrow> now T \<le> t)) \<and>
     (\<exists>cfg merged pre e post m app.
        read_room_config rd = Inr cfg \<and> merge_all (rd_journal rd) = Inr merged \<and>
        filter (\<lambda>x. ev_room x = rc_id cfg) merged = pre @ e # post \<and> kindof e = RunApproved \<and>
        body_fields [''run_id'', ''approval_id'', ''scope'', ''expires_at''] (ev_body e) =
          Some [j, app, r_scope r, r_expires r] \<and>
        mems (replay_members C (rc_root_event cfg) (rc_root_pubkey cfg) pre) (ev_author e) = Some m \<and>
        m_role m \<in> {RoleOwner, RoleMember} \<and> verify_signature C (m_key m) e = Inr ())"

lemma start_approved:
  assumes "get_run C rd j = Inr r" and "r_state r = StateApproved" and "is_ok (start_run C T j i rd)"
  shows "approval_in_force C T rd j r"
proof -
  obtain cfg merged where c: "read_room_config rd = Inr cfg" "merge_all (rd_journal rd) = Inr merged"
    "map_of (project_runs_configured C merged cfg) j = Some r"
    using assms(1) by (auto simp: get_run_def bind_err_Inr room_runs_def split: sum.splits option.splits)
  have "\<not> expired T (r_expires r)"
    using assms by (auto simp: start_run_def is_ok_iff split: if_splits)
  then have "r_expires r = [] \<or> (case parse_rfc3339 T (r_expires r) of None \<Rightarrow> True | Some t \<Rightarrow> now T \<le> t)"
    by (auto simp: expired_def split: option.splits)
  then show ?thesis
    unfolding approval_in_force_def
    using approved_run_facts[OF c(3)[unfolded project_runs_configured_def] assms(2)] c(1,2) by blast
qed

text \<open>
  C34: what the adapter may execute. If it executes nothing it fails and leaves the room alone (its
  log files, which are not modelled, aside), and
  that only happens when one of the conditions below is missing or an approved run cannot be started. If it
  executes a command, the run exists, its scope is empty or all, or names its adapter somewhere in
  its text, or it has no adapter; the command is that of the run's adapter (of the adapter called
  default when it has none), in which exactly the two placeholders are replaced, the prompt by the
  run's plan file or, without a readable one, its title; it runs in the adapter's directory or else
  in the room's. And if the run is approved, the approval has not expired and was given by a signed
  event of an owner or member at that point of the log, for just this run, scope and expiry. (For a
  run that is not approved nothing more is asked, see C35.)
\<close>
theorem adapter_gate:
  assumes "execute_adapter C T adapters plans room took exec j i rd = (res, executed, rd')"
  shows "case executed of None \<Rightarrow> rd' = rd \<and> (\<exists>x. res = Inl x) \<and>
        (\<forall>r a. get_run C rd j = Inr r \<and>
          (r_scope r = [] \<or> r_scope r = ''all'' \<or> r_adapter r = [] \<or> (\<exists>x y. r_scope r = x @ r_adapter r @ y)) \<and>
          adapters (if r_adapter r = [] then ''default'' else r_adapter r) = Some a \<and> ad_command a \<noteq> [] \<longrightarrow>
          r_state r = StateApproved \<and> (\<exists>x. start_run C T j i rd = Inl x))
    | Some (args, dir) \<Rightarrow> \<exists>r a prompt. get_run C rd j = Inr r \<and>
        (r_scope r = [] \<or> r_scope r = ''all'' \<or> r_adapter r = [] \<or> (\<exists>x y. r_scope r = x @ r_adapter r @ y)) \<and>
        adapters (if r_adapter r = [] then ''default'' else r_adapter r) = Some a \<and> ad_command a \<noteq> [] \<and>
        (case (if r_plan_file r = [] then None else plans (r_plan_file r)) of None \<Rightarrow> prompt = r_title r | Some c \<Rightarrow> prompt = c) \<and>
        list_all2 (\<lambda>arg out. \<exists>mid. replaces ''{prompt}'' prompt arg mid \<and> replaces ''{room_artifact_root}'' room mid out)
          (ad_command a) args \<and>
        (if ad_workdir a = [] then dir = room else replaces ''{room_artifact_root}'' room (ad_workdir a) dir) \<and>
        (r_state r = StateApproved \<longrightarrow> approval_in_force C T rd j r)"
proof (cases executed)
  case None
  have "r_state r = StateApproved \<and> (\<exists>x. start_run C T j i rd = Inl x)"
    if "get_run C rd j = Inr r" "adapters (adapter_name r) = Some a" "ad_command a \<noteq> []" "scope_covers r" for r a
    using execute_started[of C rd j r adapters a T plans room took exec i] that assms None
    by (cases "start_run C T j i rd") (auto simp: is_ok_iff split: if_splits)
  then show ?thesis
    unfolding None option.case using execute_not[OF assms[unfolded None]]
    by (simp add: adapter_name_def scope_covers_def contains_iff)
next
  case (Some x)
  obtain args dir where x: "x = (args, dir)" by (cases x)
  obtain r a where r: "get_run C rd j = Inr r" "scope_covers r" "adapters (adapter_name r) = Some a" "ad_command a \<noteq> []"
    "args = command_args room (prompt_of plans r) (ad_command a)" "dir = command_dir room a"
    "r_state r = StateApproved \<Longrightarrow> is_ok (start_run C T j i rd)"
    using execute_Some[of C T adapters plans room took exec j i rd res args dir rd'] assms Some x by auto
  have "r_scope r = [] \<or> r_scope r = ''all'' \<or> r_adapter r = [] \<or> (\<exists>x y. r_scope r = x @ r_adapter r @ y)"
    using r(2) by (auto simp: scope_covers_def contains_iff)
  moreover have "case (if r_plan_file r = [] then None else plans (r_plan_file r)) of
      None \<Rightarrow> prompt_of plans r = r_title r | Some c \<Rightarrow> prompt_of plans r = c"
    by (simp add: prompt_of_def split: option.split)
  moreover have "if ad_workdir a = [] then dir = room else replaces ''{room_artifact_root}'' room (ad_workdir a) dir"
    by (simp add: r(6) command_dir_def replace_all_replaces)
  ultimately show ?thesis
    unfolding Some x option.case prod.case
    using r(1,3,4) command_args_replaced[of "prompt_of plans r" room "ad_command a"] start_approved[OF r(1) _ r(7)]
    unfolding r(5)[symmetric] adapter_name_def
    by (intro exI[of _ r] exI[of _ a] exI[of _ "prompt_of plans r"] conjI impI) (auto split: option.splits)
qed

text \<open>
  C35: so a run nobody has approved is executed: a requested run has no scope yet, which covers
  every adapter.  Only afterwards \<open>Finish\<close> refuses to record it.
\<close>
theorem unapproved_run_executes:
  assumes "get_run C rd j = Inr r" and "r_state r = StateRequested" and "r_scope r = []"
    and "adapters (adapter_name r) = Some a" and "ad_command a \<noteq> []"
    and "\<And>args dir. exec args dir rd = (None, rd)"
  shows "execute_adapter C T adapters plans room took exec j i rd =
    (Inl (InvalidTransition StateRequested),
     Some (command_args room (prompt_of plans r) (ad_command a), command_dir room a), rd)"
proof -
  have "scope_covers r" using assms(3) by (simp add: scope_covers_def)
  moreover have "finish_run C j s as i rd = Inl (InvalidTransition StateRequested)" for s as
    using assms(1,2) by (simp add: finish_run_def)
  ultimately show ?thesis
    using assms by (simp add: execute_adapter_def record_outcome_def Let_def)
qed

theorem unapproved_run_executes_witness:
  "\<exists>rd j r. get_run toy_crypto rd j = Inr r \<and> r_state r = StateRequested \<and>
     fst (snd (execute_adapter toy_crypto toy_clock [''default'' \<mapsto> \<lparr>ad_command = [''sh''], ad_workdir = []\<rparr>]
       (\<lambda>_. None) ''/room'' ''1s'' (\<lambda>_ _ rd. (None, rd)) j alice rd)) = Some ([''sh''], ''/room'')"
proof -
  obtain cfg rd0 e0 e rd where r: "run_ready toy_crypto rd0 cfg [e0] alice"
    "request_run toy_crypto ''build'' ''plan.md'' [] alice rd0 = Inr (e, rd)" "fits e"
    using sample_requested by blast
  have "valid_utf8 ''build''" "valid_utf8 ''plan.md''" "valid_utf8 []" by code_simp+
  then have u: "list_all valid_utf8 [''build'', ''plan.md'', []]" by simp
  obtain q where q: "get_run toy_crypto rd (lab_run rd0) = Inr q" "r_state q = StateRequested" "r_adapter q = []"
    "r_scope q = []"
    using request_run_facts[OF r(1) u r(2,3)] by (auto simp: lab_run_def)
  let ?a = "\<lparr>ad_command = [''sh''], ad_workdir = []\<rparr>"
  have args: "command_args ''/room'' p [''sh''] = [''sh'']" for p
    by (simp add: command_args_def has_prefix_def)
  have "[''default'' \<mapsto> ?a] (adapter_name q) = Some ?a" using q(3) by (simp add: adapter_name_def)
  from unapproved_run_executes[where exec = "\<lambda>_ _ rd. (None, rd)" and adapters = "[''default'' \<mapsto> ?a]" and a = ?a and
      T = toy_clock and plans = "\<lambda>_. None" and room = "''/room''" and took = "''1s''" and i = alice, OF q(1,2,4) this]
  have "fst (snd (execute_adapter toy_crypto toy_clock [''default'' \<mapsto> ?a] (\<lambda>_. None) ''/room'' ''1s''
      (\<lambda>_ _ rd. (None, rd)) (lab_run rd0) alice rd)) = Some ([''sh''], ''/room'')"
    by (simp add: args command_dir_def)
  then show ?thesis using q(1,2) by blast
qed

lemma publish_in_ok:
  assumes "wf_event ev"
  shows "is_ok (publish_in C i rd ev)"
proof -
  obtain e where "publish C i (rd_journal rd) ev = Inr (e, write_line (rd_journal rd) (ev_author ev) (line_text e @ [LF]))"
    using publish_eq[OF assms] by blast
  then show ?thesis by (simp add: publish_in_def is_ok_iff)
qed

text \<open>An approved run whose adapter is executed before the approval expires.\<close>

theorem adapter_gate_witness:
  "\<exists>rd j r res rd'. get_run toy_crypto rd j = Inr r \<and> r_state r = StateApproved \<and>
     execute_adapter toy_crypto toy_clock (\<lambda>_. Some \<lparr>ad_command = [''sh''], ad_workdir = []\<rparr>)
       (\<lambda>_. None) ''/room'' ''1s'' (\<lambda>_ _ rd. (None, rd)) j alice rd = (res, Some ([''sh''], ''/room''), rd') \<and>
     approval_in_force toy_crypto toy_clock rd j r"
proof -
  obtain cfg rd0 es j e rd where a: "run_ready toy_crypto rd0 cfg es alice" "valid_utf8 j"
    "approve_run toy_crypto toy_clock None j [] 0 alice rd0 rd0 = Inr (e, rd)" "fits e"
    "room_members toy_crypto cfg es = founder alice ''lab''" using sample_approve by blast
  have k: "keypair toy_crypto (private_key alice) (m_key m)"
    if "mems (room_members toy_crypto cfg es) (member_id alice) = Some m" for m
    using that alice_keypair by (auto simp: a(5) founder_def)
  have u: "valid_utf8 []" "valid_utf8 ''run.started''" by code_simp+
  obtain r where r: "get_run toy_crypto rd j = Inr r" "r_state r = StateApproved" "r_scope r = ''all''"
    "r_expires r = unary 1800"
    using approve_facts[OF a(1,2) u(1) toy_clock_ok a(3,4) k] by (auto simp: toy_clock_def approval_ttl_def)
  have cfg: "read_room_config rd = Inr cfg" and utf: "valid_utf8 (member_id alice)" "valid_utf8 (rc_id cfg)"
    using a(1) approve_Inr[OF a(1,3)] by (auto simp: publish_in_def run_ready_def split: sum.splits)
  have "body_ok (marshal_strings [(''run_id'', j)])" using a(2) by (intro str_body_ok) (simp add: str_body_def)
  then have "wf_event (run_event (rc_id cfg) (hash_id toy_crypto b) ''run.started'' (marshal_strings [(''run_id'', j)]) alice)" for b
    using utf u(2) hash_id_utf8[of toy_crypto b] by (auto simp: wf_event_def run_event_def body_ok_def current_version_def)
  then have "is_ok (publish_in toy_crypto alice rd
      (run_event (rc_id cfg) (hash_id toy_crypto b) ''run.started'' (marshal_strings [(''run_id'', j)]) alice))" for b
    by (rule publish_in_ok)
  moreover have "\<not> expired toy_clock (r_expires r)"
    by (simp add: r(4) expired_def toy_clock_def of_unary_def unary_def)
  ultimately have ok: "is_ok (start_run toy_crypto toy_clock j alice rd)"
    using r(1,2) cfg by (simp add: start_run_def read_room_id_def)
  let ?a = "\<lparr>ad_command = [''sh''], ad_workdir = []\<rparr>"
  let ?x = "execute_adapter toy_crypto toy_clock (\<lambda>_. Some ?a) (\<lambda>_. None) ''/room'' ''1s'' (\<lambda>_ _ rd. (None, rd)) j alice rd"
  have "command_args ''/room'' p [''sh''] = [''sh'']" for p by (simp add: command_args_def has_prefix_def)
  then have "fst (snd ?x) = Some ([''sh''], ''/room'')"
    using execute_started[OF r(1), of "\<lambda>_. Some ?a" ?a] r(2,3) ok by (simp add: scope_covers_def command_dir_def)
  then have x: "?x = (fst ?x, Some ([''sh''], ''/room''), snd (snd ?x))" by (metis prod.collapse)
  from adapter_gate[OF x] have "approval_in_force toy_crypto toy_clock rd j r" by (auto simp: r(1,2))
  with r(1,2) x show ?thesis by blast
qed

end
