(* ===== verification/Keyed_Store.thy ===== *)
theory Keyed_Store
  imports Prelude
begin

text \<open>
  Lists of records under a key of the record, as the permission manager, the share store and the
  retention log keep them, and the interface their clients rely on: a store in which an entry is
  looked up by its key, added, changed and removed.
\<close>

section \<open>The interface\<close>

locale keyed_store =
  fixes key :: "'v \<Rightarrow> 'k"
    and inv :: "'s \<Rightarrow> bool"
    and entries :: "'s \<Rightarrow> 'v set"
    and lookup :: "'k \<Rightarrow> 's \<Rightarrow> 'v option"
    and add :: "'v \<Rightarrow> 's \<Rightarrow> 's"
    and modify :: "'k \<Rightarrow> ('v \<Rightarrow> 'v) \<Rightarrow> 's \<Rightarrow> 's"
    and remove :: "'k \<Rightarrow> 's \<Rightarrow> 's"
  assumes lookup_entry: "inv s \<Longrightarrow> lookup k s = Some v \<longleftrightarrow> v \<in> entries s \<and> key v = k"
    and lookup_add: "inv s \<Longrightarrow> lookup (key v) s = None \<Longrightarrow>
      lookup k (add v s) = (if k = key v then Some v else lookup k s)"
    and lookup_modify: "inv s \<Longrightarrow> (\<And>v. key v = j \<Longrightarrow> key (f v) = j) \<Longrightarrow>
      lookup k (modify j f s) = (if k = j then map_option f (lookup j s) else lookup k s)"
    and lookup_remove: "inv s \<Longrightarrow> lookup k (remove j s) = (if k = j then None else lookup k s)"
    and inv_add: "inv s \<Longrightarrow> lookup (key v) s = None \<Longrightarrow> inv (add v s)"
    and inv_modify: "inv s \<Longrightarrow> (\<And>v. key v = j \<Longrightarrow> key (f v) = j) \<Longrightarrow> inv (modify j f s)"
    and inv_remove: "inv s \<Longrightarrow> inv (remove j s)"
begin

lemma lookup_key: "inv s \<Longrightarrow> lookup k s = Some v \<Longrightarrow> key v = k"
  by (simp add: lookup_entry)

lemma lookup_None: "inv s \<Longrightarrow> lookup k s = None \<longleftrightarrow> (\<forall>v \<in> entries s. key v \<noteq> k)"
  using lookup_entry[of s k] by (metis not_Some_eq)

lemma unique: "inv s \<Longrightarrow> u \<in> entries s \<Longrightarrow> v \<in> entries s \<Longrightarrow> key u = key v \<Longrightarrow> u = v"
  using lookup_entry[of s "key v"] by (metis option.inject)

lemma entries_add: "inv s \<Longrightarrow> lookup (key v) s = None \<Longrightarrow> entries (add v s) = insert v (entries s)"
  using lookup_entry[OF inv_add] lookup_entry[of s] lookup_add[of s v]
  by (auto split: if_splits) (metis option.distinct(1) option.inject)+

lemma entries_remove: "inv s \<Longrightarrow> entries (remove k s) = {v \<in> entries s. key v \<noteq> k}"
  using lookup_entry[OF inv_remove[of s k]] lookup_entry[of s] lookup_remove[of s _ k]
  by (auto split: if_splits) (metis option.distinct(1))+

lemma entries_modify:
  assumes "inv s" and "\<And>v. key v = k \<Longrightarrow> key (f v) = k"
  shows "entries (modify k f s) = (\<lambda>v. if key v = k then f v else v) ` entries s"
proof (intro equalityI subsetI)
  fix v assume v: "v \<in> entries (modify k f s)"
  then have "lookup (key v) (modify k f s) = Some v"
    using lookup_entry[OF inv_modify[OF assms]] by simp
  then have "(if key v = k then map_option f (lookup k s) else lookup (key v) s) = Some v"
    using lookup_modify[OF assms] by simp
  then show "v \<in> (\<lambda>v. if key v = k then f v else v) ` entries s"
    using lookup_entry[OF assms(1)] by (auto simp: image_iff split: if_splits)
next
  fix v assume "v \<in> (\<lambda>v. if key v = k then f v else v) ` entries s"
  then obtain u where u: "u \<in> entries s" "v = (if key u = k then f u else u)" by blast
  then have "lookup (key u) s = Some u" using lookup_entry[OF assms(1)] by simp
  then have "lookup (key u) (modify k f s) = Some v"
    using u(2) lookup_modify[OF assms] by (auto split: if_splits)
  moreover have "key v = key u" using u(2) assms(2)[of u] by auto
  ultimately show "v \<in> entries (modify k f s)" using lookup_entry[OF inv_modify[OF assms]] by simp
qed

end


section \<open>Lists with a key\<close>

definition lookup_by :: "('v \<Rightarrow> 'k) \<Rightarrow> 'k \<Rightarrow> 'v list \<Rightarrow> 'v option" where
  "lookup_by key k xs = find (\<lambda>x. key x = k) xs"

fun modify_by :: "('v \<Rightarrow> 'k) \<Rightarrow> 'k \<Rightarrow> ('v \<Rightarrow> 'v) \<Rightarrow> 'v list \<Rightarrow> 'v list" where
  "modify_by key k f [] = []"
| "modify_by key k f (x # xs) = (if key x = k then f x # xs else x # modify_by key k f xs)"

definition remove_by :: "('v \<Rightarrow> 'k) \<Rightarrow> 'k \<Rightarrow> 'v list \<Rightarrow> 'v list" where
  "remove_by key k xs = filter (\<lambda>x. key x \<noteq> k) xs"

definition keyed :: "('v \<Rightarrow> 'k) \<Rightarrow> 'v list \<Rightarrow> bool" where
  "keyed key xs \<longleftrightarrow> distinct (map key xs)"

lemma lookup_by_Nil [simp]: "lookup_by key k [] = None"
  by (simp add: lookup_by_def)

lemma lookup_by_Cons [simp]: "lookup_by key k (x # xs) = (if key x = k then Some x else lookup_by key k xs)"
  by (simp add: lookup_by_def)

lemma lookup_by_append: "lookup_by key k (xs @ ys) = (case lookup_by key k xs of None \<Rightarrow> lookup_by key k ys | Some x \<Rightarrow> Some x)"
  by (induction xs) auto

lemma lookup_by_None: "lookup_by key k xs = None \<longleftrightarrow> k \<notin> key ` set xs"
  by (induction xs) auto

lemma lookup_by_Some: "lookup_by key k xs = Some x \<Longrightarrow> x \<in> set xs \<and> key x = k"
  by (induction xs) (auto split: if_splits)

lemma lookup_by_entry: "keyed key xs \<Longrightarrow> lookup_by key k xs = Some x \<longleftrightarrow> x \<in> set xs \<and> key x = k"
  by (induction xs) (auto simp: keyed_def)

lemma keys_modify [simp]: "(\<And>v. key v = k \<Longrightarrow> key (f v) = k) \<Longrightarrow> map key (modify_by key k f xs) = map key xs"
  by (induction xs) auto

lemma lookup_modify_by:
  "(\<And>v. key v = j \<Longrightarrow> key (f v) = j) \<Longrightarrow>
     lookup_by key k (modify_by key j f xs) = (if k = j then map_option f (lookup_by key j xs) else lookup_by key k xs)"
  by (induction xs) auto

lemma lookup_remove_by: "lookup_by key k (remove_by key j xs) = (if k = j then None else lookup_by key k xs)"
  by (induction xs) (auto simp: remove_by_def)

lemma keyed_remove: "keyed key xs \<Longrightarrow> keyed key (remove_by key j xs)"
  by (simp add: keyed_def remove_by_def distinct_map_filter)

lemma modify_by_absent: "k \<notin> key ` set xs \<Longrightarrow> modify_by key k f xs = xs"
  by (induction xs) auto

text \<open>A list with distinct keys is such a store, whatever the key.\<close>

lemma lookup_add_by:
  "lookup_by key (key v) xs = None \<Longrightarrow> lookup_by key k (xs @ [v]) = (if k = key v then Some v else lookup_by key k xs)"
  by (simp add: lookup_by_append split: option.split)

lemma keyed_add: "keyed key xs \<Longrightarrow> lookup_by key (key v) xs = None \<Longrightarrow> keyed key (xs @ [v])"
  by (simp add: keyed_def lookup_by_None)

lemma keyed_modify: "keyed key xs \<Longrightarrow> (\<And>v. key v = k \<Longrightarrow> key (f v) = k) \<Longrightarrow> keyed key (modify_by key k f xs)"
  by (simp add: keyed_def)

interpretation keyed_list: keyed_store key "keyed key" set "lookup_by key" "\<lambda>v xs. xs @ [v]" "modify_by key" "remove_by key"
  for key
  by unfold_locales
    (simp_all add: lookup_by_entry lookup_add_by lookup_modify_by lookup_remove_by keyed_add keyed_modify keyed_remove)

end
