(* ===== verification/Permissions.thy ===== *)
theory Permissions
  imports Event_Codec Keyed_Store
begin

text \<open>
  Accounts, groups and document rules of the self-hosted server: \<open>internal/permissions\<close>
  (\<open>manager.go\<close>, \<open>types.go\<close>, \<open>token.go\<close>).  The state holds the three JSON files with their
  modification times and the two caches of the manager.  A Go slice is \<open>None\<close> when nil; the
  digest is a parameter, random bytes and the time of a write are arguments.
\<close>

section \<open>State\<close>

record user =
  u_name :: string
  u_hash :: string
  u_roles :: "string list"

record group =
  g_name :: string
  g_members :: "string list"

record doc_rule =
  d_path :: string
  d_owner :: string
  d_read_users :: "string list"
  d_read_groups :: "string list"
  d_write_users :: "string list"
  d_write_groups :: "string list"

type_synonym 'a slice = "'a list option"

definition elems :: "'a slice \<Rightarrow> 'a list" where
  "elems s = (case s of None \<Rightarrow> [] | Some xs \<Rightarrow> xs)"

definition append_slice :: "'a slice \<Rightarrow> 'a \<Rightarrow> 'a slice" where
  "append_slice s x = Some (elems s @ [x])"

lemma elems_simps [simp]:
  "elems None = []" "elems (Some xs) = xs" "elems (append_slice s x) = elems s @ [x]"
  "elems (map_option f s) = (case s of None \<Rightarrow> [] | Some xs \<Rightarrow> f xs)"
  by (simp_all add: elems_def append_slice_def split: option.split)

text \<open>A file: missing, or its content, which is JSON for a slice or is not, and its mtime.\<close>

datatype 'a content = Corrupt | Json "'a slice"

datatype 'a stored = Missing | Stored "'a content" int

record 'a cache =
  ca_items :: "'a slice"
  ca_stamp :: "int option"

record perm_state =
  ps_users :: "user stored"
  ps_groups :: "group stored"
  ps_rules :: "doc_rule stored"
  ps_rule_cache :: "doc_rule cache"
  ps_group_cache :: "group cache"

datatype perm_error =
  AuthRequired | InvalidToken | BadStore | NameRequired | NameNotFound | PathRequired

definition new_manager :: "user stored \<Rightarrow> group stored \<Rightarrow> doc_rule stored \<Rightarrow> perm_state" where
  "new_manager us gs rs =
     \<lparr>ps_users = us, ps_groups = gs, ps_rules = rs, ps_rule_cache = \<lparr>ca_items = None, ca_stamp = None\<rparr>,
      ps_group_cache = \<lparr>ca_items = None, ca_stamp = None\<rparr>\<rparr>"

definition has_role :: "user \<Rightarrow> string \<Rightarrow> bool" where
  "has_role u r \<longleftrightarrow> r \<in> set (u_roles u)"


section \<open>Files and caches\<close>

definition read_json_file :: "'a stored \<Rightarrow> perm_error + 'a slice" where
  "read_json_file f =
     (case f of
        Missing \<Rightarrow> Inr None
      | Stored Corrupt _ \<Rightarrow> Inl BadStore
      | Stored (Json s) _ \<Rightarrow> Inr s)"

definition write_json_file :: "int \<Rightarrow> 'a slice \<Rightarrow> 'a stored" where
  "write_json_file t s = Stored (Json s) t"

definition load_users :: "perm_state \<Rightarrow> perm_error + user slice" where
  "load_users p = read_json_file (ps_users p)"

definition save_users :: "int \<Rightarrow> user slice \<Rightarrow> perm_state \<Rightarrow> perm_state" where
  "save_users t us p = p\<lparr>ps_users := write_json_file t us\<rparr>"

definition load_groups :: "perm_state \<Rightarrow> perm_error + group slice" where
  "load_groups p = read_json_file (ps_groups p)"

definition save_groups :: "int \<Rightarrow> group slice \<Rightarrow> perm_state \<Rightarrow> perm_state" where
  "save_groups t gs p =
     p\<lparr>ps_groups := write_json_file t gs, ps_group_cache := \<lparr>ca_items = gs, ca_stamp = Some t\<rparr>\<rparr>"

definition load_permissions :: "perm_state \<Rightarrow> perm_error + doc_rule slice" where
  "load_permissions p = read_json_file (ps_rules p)"

definition save_permissions :: "int \<Rightarrow> doc_rule slice \<Rightarrow> perm_state \<Rightarrow> perm_state" where
  "save_permissions t rs p =
     p\<lparr>ps_rules := write_json_file t rs, ps_rule_cache := \<lparr>ca_items = rs, ca_stamp = Some t\<rparr>\<rparr>"

text \<open>
  A cache holds when it has items and the file's mtime is the one it was taken at.  Refreshing
  it reads the file (\<open>f\<close>) and asks for the mtime afterwards (of \<open>f'\<close>, the file by then).
\<close>

definition cache_valid :: "'a stored \<Rightarrow> 'a cache \<Rightarrow> bool" where
  "cache_valid f c \<longleftrightarrow>
     ca_items c \<noteq> None \<and> (case f of Missing \<Rightarrow> False | Stored _ t \<Rightarrow> ca_stamp c = Some t)"

definition refresh_cache :: "'a stored \<Rightarrow> 'a stored \<Rightarrow> 'a cache \<Rightarrow> (perm_error + 'a slice) \<times> 'a cache" where
  "refresh_cache f f' c =
     (if cache_valid f c then (Inr (ca_items c), c)
      else (case read_json_file f of
        Inl e \<Rightarrow> (Inl e, c)
      | Inr s \<Rightarrow> (Inr s, \<lparr>ca_items = s, ca_stamp = (case f' of Missing \<Rightarrow> None | Stored _ t \<Rightarrow> Some t)\<rparr>)))"

definition load_groups_cached :: "perm_state \<Rightarrow> (perm_error + group slice) \<times> perm_state" where
  "load_groups_cached p =
     (let (r, c) = refresh_cache (ps_groups p) (ps_groups p) (ps_group_cache p) in (r, p\<lparr>ps_group_cache := c\<rparr>))"

definition load_permissions_cached :: "perm_state \<Rightarrow> (perm_error + doc_rule slice) \<times> perm_state" where
  "load_permissions_cached p =
     (let (r, c) = refresh_cache (ps_rules p) (ps_rules p) (ps_rule_cache p) in (r, p\<lparr>ps_rule_cache := c\<rparr>))"

text \<open>\<open>xs, _ := load()\<close>: nil when loading fails.\<close>

definition or_nil :: "perm_error + 'a slice \<Rightarrow> 'a list" where
  "or_nil r = (case r of Inl _ \<Rightarrow> [] | Inr s \<Rightarrow> elems s)"


section \<open>Authentication and access\<close>

definition hash_token :: "crypto \<Rightarrow> string \<Rightarrow> string" where
  "hash_token C token = hex_encode (sha256 C token)"

definition generate_token :: "bytes \<Rightarrow> string" where
  "generate_token rand = hex_encode rand"

definition constant_time_equal :: "string \<Rightarrow> string \<Rightarrow> bool" where
  "constant_time_equal a b \<longleftrightarrow> length a = length b \<and> list_all (\<lambda>(x, y). x = y) (zip a b)"

definition authenticate :: "crypto \<Rightarrow> perm_state \<Rightarrow> string \<Rightarrow> perm_error + user" where
  "authenticate C p token =
     (if token = [] then Inl AuthRequired
      else (case load_users p of
        Inl e \<Rightarrow> Inl e
      | Inr us \<Rightarrow>
          (case find (\<lambda>u. constant_time_equal (u_hash u) (hash_token C token)) (elems us) of
             None \<Rightarrow> Inl InvalidToken
           | Some u \<Rightarrow> Inr u)))"

definition find_rule :: "doc_rule list \<Rightarrow> string \<Rightarrow> doc_rule option" where
  "find_rule rules path =
     (case lookup_by d_path path rules of
        Some r \<Rightarrow> Some r
      | None \<Rightarrow> lookup_by d_path ''*'' rules)"

definition group_contains :: "group list \<Rightarrow> string \<Rightarrow> string \<Rightarrow> bool" where
  "group_contains groups g name =
     (case lookup_by g_name g groups of None \<Rightarrow> False | Some gr \<Rightarrow> name \<in> set (g_members gr))"

definition can_read :: "perm_state \<Rightarrow> user option \<Rightarrow> string \<Rightarrow> bool \<times> perm_state" where
  "can_read p user path =
     (case user of
        None \<Rightarrow> (False, p)
      | Some u \<Rightarrow>
          if has_role u ''admin'' then (True, p)
          else
            (let (rr, p1) = load_permissions_cached p
             in case find_rule (or_nil rr) path of
                  None \<Rightarrow> (True, p1)
                | Some r \<Rightarrow>
                    if d_owner r = u_name u then (True, p1)
                    else if u_name u \<in> set (d_read_users r) then (True, p1)
                    else (let (gr, p2) = load_groups_cached p1
                          in (list_ex (\<lambda>g. group_contains (or_nil gr) g (u_name u)) (d_read_groups r), p2))))"

definition can_write :: "perm_state \<Rightarrow> user option \<Rightarrow> string \<Rightarrow> bool \<times> perm_state" where
  "can_write p user path =
     (case user of
        None \<Rightarrow> (False, p)
      | Some u \<Rightarrow>
          if has_role u ''admin'' then (True, p)
          else
            (let (rr, p1) = load_permissions_cached p
             in case find_rule (or_nil rr) path of
                  None \<Rightarrow> (True, p1)
                | Some r \<Rightarrow>
                    if d_owner r = u_name u then (True, p1)
                    else if u_name u \<in> set (d_write_users r) then (True, p1)
                    else (let (gr, p2) = load_groups_cached p1
                          in (list_ex (\<lambda>g. group_contains (or_nil gr) g (u_name u)) (d_write_groups r), p2))))"

definition readable_by :: "doc_rule list \<Rightarrow> group list \<Rightarrow> string \<Rightarrow> string \<Rightarrow> bool" where
  "readable_by rules groups name path =
     (case find_rule rules path of
        None \<Rightarrow> True
      | Some r \<Rightarrow> d_owner r = name \<or> name \<in> set (d_read_users r) \<or>
          list_ex (\<lambda>g. group_contains groups g name) (d_read_groups r))"

definition can_read_many :: "perm_state \<Rightarrow> user option \<Rightarrow> string list \<Rightarrow> string list \<times> perm_state" where
  "can_read_many p user paths =
     (case user of
        None \<Rightarrow> ([], p)
      | Some u \<Rightarrow>
          if has_role u ''admin'' then (paths, p)
          else
            (case load_permissions_cached p of
               (Inl _, p1) \<Rightarrow> ([], p1)
             | (Inr rules, p1) \<Rightarrow>
                 (let (gr, p2) = load_groups_cached p1
                  in (filter (readable_by (elems rules) (or_nil gr) (u_name u)) paths, p2))))"


section \<open>Users\<close>

definition user_add ::
    "crypto \<Rightarrow> bytes \<Rightarrow> int \<Rightarrow> string \<Rightarrow> string list \<Rightarrow> perm_state \<Rightarrow> (perm_error + string) \<times> perm_state" where
  "user_add C rand t name roles p =
     (if name = [] then (Inl NameRequired, p)
      else (case load_users p of
        Inl e \<Rightarrow> (Inl e, p)
      | Inr us \<Rightarrow>
          if list_ex (\<lambda>u. u_name u = name) (elems us) then (Inr [], p)
          else (let token = generate_token rand;
                    u = \<lparr>u_name = name, u_hash = hash_token C token,
                         u_roles = (if roles = [] then [''user''] else roles)\<rparr>
                in (Inr token, save_users t (append_slice us u) p))))"

definition user_list :: "perm_state \<Rightarrow> perm_error + user slice" where
  "user_list p = load_users p"

definition drop_member :: "string \<Rightarrow> group \<Rightarrow> group" where
  "drop_member name g = g\<lparr>g_members := filter (\<lambda>m. m \<noteq> name) (g_members g)\<rparr>"

definition user_remove :: "int \<Rightarrow> string \<Rightarrow> perm_state \<Rightarrow> (perm_error + unit) \<times> perm_state" where
  "user_remove t name p =
     (case load_users p of
        Inl e \<Rightarrow> (Inl e, p)
      | Inr us \<Rightarrow>
          if \<not> list_ex (\<lambda>u. u_name u = name) (elems us) then (Inr (), p)
          else
            (let p1 = save_users t (Some (remove_by u_name name (elems us))) p
             in case load_groups p1 of
                  Inl e \<Rightarrow> (Inl e, p1)
                | Inr gs \<Rightarrow>
                    if list_ex (\<lambda>g. length (g_members (drop_member name g)) \<noteq> length (g_members g)) (elems gs)
                    then (Inr (), save_groups t (map_option (map (drop_member name)) gs) p1)
                    else (Inr (), p1)))"

definition user_generate_token ::
    "crypto \<Rightarrow> bytes \<Rightarrow> int \<Rightarrow> string \<Rightarrow> perm_state \<Rightarrow> (perm_error + string) \<times> perm_state" where
  "user_generate_token C rand t name p =
     (case load_users p of
        Inl e \<Rightarrow> (Inl e, p)
      | Inr us \<Rightarrow>
          if lookup_by u_name name (elems us) = None then (Inl NameNotFound, p)
          else (let token = generate_token rand
                in (Inr token, save_users t
                     (map_option (modify_by u_name name (\<lambda>u. u\<lparr>u_hash := hash_token C token\<rparr>)) us) p)))"

definition set_token_hash :: "int \<Rightarrow> string \<Rightarrow> string \<Rightarrow> perm_state \<Rightarrow> (perm_error + unit) \<times> perm_state" where
  "set_token_hash t name hash p =
     (case load_users p of
        Inl e \<Rightarrow> (Inl e, p)
      | Inr us \<Rightarrow>
          if lookup_by u_name name (elems us) = None then (Inl NameNotFound, p)
          else (Inr (), save_users t (map_option (modify_by u_name name (\<lambda>u. u\<lparr>u_hash := hash\<rparr>)) us) p))"


section \<open>Groups\<close>

definition group_add :: "int \<Rightarrow> string \<Rightarrow> perm_state \<Rightarrow> (perm_error + unit) \<times> perm_state" where
  "group_add t name p =
     (if name = [] then (Inl NameRequired, p)
      else (case load_groups p of
        Inl e \<Rightarrow> (Inl e, p)
      | Inr gs \<Rightarrow>
          if list_ex (\<lambda>g. g_name g = name) (elems gs) then (Inr (), p)
          else (Inr (), save_groups t (append_slice gs \<lparr>g_name = name, g_members = []\<rparr>) p)))"

definition group_list :: "perm_state \<Rightarrow> perm_error + group slice" where
  "group_list p = load_groups p"

definition group_remove :: "int \<Rightarrow> string \<Rightarrow> perm_state \<Rightarrow> (perm_error + unit) \<times> perm_state" where
  "group_remove t name p =
     (case load_groups p of
        Inl e \<Rightarrow> (Inl e, p)
      | Inr gs \<Rightarrow> (Inr (), save_groups t (map_option (remove_by g_name name) gs) p))"

definition group_add_member :: "int \<Rightarrow> string \<Rightarrow> string \<Rightarrow> perm_state \<Rightarrow> (perm_error + unit) \<times> perm_state" where
  "group_add_member t g name p =
     (case load_groups p of
        Inl e \<Rightarrow> (Inl e, p)
      | Inr gs \<Rightarrow>
          (case lookup_by g_name g (elems gs) of
             None \<Rightarrow> (Inl NameNotFound, p)
           | Some gr \<Rightarrow>
               if name \<in> set (g_members gr) then (Inr (), p)
               else (Inr (), save_groups t
                 (map_option (modify_by g_name g (\<lambda>gr. gr\<lparr>g_members := g_members gr @ [name]\<rparr>)) gs) p)))"

definition group_remove_member :: "int \<Rightarrow> string \<Rightarrow> string \<Rightarrow> perm_state \<Rightarrow> (perm_error + unit) \<times> perm_state" where
  "group_remove_member t g name p =
     (case load_groups p of
        Inl e \<Rightarrow> (Inl e, p)
      | Inr gs \<Rightarrow>
          if lookup_by g_name g (elems gs) = None then (Inl NameNotFound, p)
          else (Inr (), save_groups t (map_option (modify_by g_name g (drop_member name)) gs) p))"


section \<open>Document rules\<close>

fun remove_first :: "('v \<Rightarrow> 'k) \<Rightarrow> 'k \<Rightarrow> 'v list \<Rightarrow> 'v list" where
  "remove_first key k [] = []"
| "remove_first key k (x # xs) = (if key x = k then xs else x # remove_first key k xs)"

definition empty_rule :: "doc_rule \<Rightarrow> bool" where
  "empty_rule r \<longleftrightarrow> d_owner r = [] \<and> d_read_users r = [] \<and> d_read_groups r = [] \<and>
     d_write_users r = [] \<and> d_write_groups r = []"

definition set_document_rule :: "int \<Rightarrow> doc_rule \<Rightarrow> perm_state \<Rightarrow> (perm_error + unit) \<times> perm_state" where
  "set_document_rule t r p =
     (if d_path r = [] then (Inl PathRequired, p)
      else (case load_permissions p of
        Inl e \<Rightarrow> (Inl e, p)
      | Inr rs \<Rightarrow>
          (let rs' =
             (if lookup_by d_path (d_path r) (elems rs) \<noteq> None
              then (if empty_rule r then map_option (remove_first d_path (d_path r)) rs
                    else map_option (modify_by d_path (d_path r) (\<lambda>_. r)) rs)
              else if d_owner r \<noteq> [] then append_slice rs r else rs)
           in (Inr (), save_permissions t rs' p))))"

definition get_document_rule :: "perm_state \<Rightarrow> string \<Rightarrow> (perm_error + doc_rule option) \<times> perm_state" where
  "get_document_rule p path =
     (case load_permissions_cached p of
        (Inl e, p1) \<Rightarrow> (Inl e, p1)
      | (Inr rs, p1) \<Rightarrow> (Inr (find_rule (elems rs) path), p1))"

section \<open>The access policy\<close>

text \<open>
  What the rules mean, without files or caches: administrators may do everything; anybody else
  what no rule restricts, what they own, and what a rule grants them by name or by group.
\<close>

datatype access = Read | Write

definition granted_users :: "access \<Rightarrow> doc_rule \<Rightarrow> string list" where
  "granted_users a r = (case a of Read \<Rightarrow> d_read_users r | Write \<Rightarrow> d_write_users r)"

definition granted_groups :: "access \<Rightarrow> doc_rule \<Rightarrow> string list" where
  "granted_groups a r = (case a of Read \<Rightarrow> d_read_groups r | Write \<Rightarrow> d_write_groups r)"

definition policy_allows :: "access \<Rightarrow> doc_rule list \<Rightarrow> group list \<Rightarrow> user \<Rightarrow> string \<Rightarrow> bool" where
  "policy_allows a rules groups u path \<longleftrightarrow>
     has_role u ''admin'' \<or>
     (\<forall>r. find_rule rules path = Some r \<longrightarrow>
        u_name u = d_owner r \<or> u_name u \<in> set (granted_users a r) \<or>
        (\<exists>g \<in> set (granted_groups a r). group_contains groups g (u_name u)))"

definition rules_of :: "perm_state \<Rightarrow> doc_rule list" where
  "rules_of p = or_nil (load_permissions p)"

definition groups_of :: "perm_state \<Rightarrow> group list" where
  "groups_of p = or_nil (load_groups p)"

text \<open>
  The caches are coherent when a file that still has the mtime its cache was taken at has the
  content the cache holds.
\<close>

definition cache_ok :: "'a stored \<Rightarrow> 'a cache \<Rightarrow> bool" where
  "cache_ok f c \<longleftrightarrow> (cache_valid f c \<longrightarrow> read_json_file f = Inr (ca_items c))"

definition perms_coherent :: "perm_state \<Rightarrow> bool" where
  "perms_coherent p \<longleftrightarrow> cache_ok (ps_rules p) (ps_rule_cache p) \<and> cache_ok (ps_groups p) (ps_group_cache p)"

lemma refresh_coherent:
  "cache_ok f c \<Longrightarrow> fst (refresh_cache f f c) = read_json_file f \<and> cache_ok f (snd (refresh_cache f f c))"
  by (auto simp: refresh_cache_def cache_ok_def cache_valid_def split: sum.split stored.splits)

lemma load_cached_coherent:
  assumes "perms_coherent p"
  shows "fst (load_permissions_cached p) = load_permissions p" "fst (load_groups_cached p) = load_groups p"
    "perms_coherent (snd (load_permissions_cached p))" "perms_coherent (snd (load_groups_cached p))"
  using assms refresh_coherent[of "ps_rules p" "ps_rule_cache p"] refresh_coherent[of "ps_groups p" "ps_group_cache p"]
  by (auto simp: load_permissions_cached_def load_groups_cached_def load_permissions_def load_groups_def
      perms_coherent_def case_prod_unfold Let_def)

lemma load_cached_frame [simp, frame]:
  "load_groups (snd (load_permissions_cached p)) = load_groups p"
  "load_permissions (snd (load_permissions_cached p)) = load_permissions p"
  "load_permissions (snd (load_groups_cached p)) = load_permissions p"
  "load_groups (snd (load_groups_cached p)) = load_groups p"
  by (simp_all add: load_permissions_cached_def load_groups_cached_def load_permissions_def load_groups_def
      case_prod_unfold Let_def)

lemma access_facts:
  assumes "perms_coherent p"
  shows "fst (can_read p (Some u) path) \<longleftrightarrow> policy_allows Read (rules_of p) (groups_of p) u path"
    and "fst (can_write p (Some u) path) \<longleftrightarrow> policy_allows Write (rules_of p) (groups_of p) u path"
    and "perms_coherent (snd (can_read p user path))" and "perms_coherent (snd (can_write p user path))"
proof -
  note c1 = load_cached_coherent[OF assms]
  note c2 = load_cached_coherent[OF c1(3)]
  obtain rr p1 where l: "load_permissions_cached p = (rr, p1)" by fastforce
  obtain gr p2 where g: "load_groups_cached p1 = (gr, p2)" by fastforce
  have rr: "or_nil rr = rules_of p" using c1(1) l by (simp add: rules_of_def)
  have "fst (load_groups_cached p1) = load_groups p1" "load_groups p1 = load_groups p"
    using c2(2) load_cached_frame(1)[of p] l by simp_all
  then have gr: "or_nil gr = groups_of p" using g by (simp add: groups_of_def)
  have co: "perms_coherent p1" "perms_coherent p2" using c1(3) c2(4) l g by simp_all
  show "fst (can_read p (Some u) path) \<longleftrightarrow> policy_allows Read (rules_of p) (groups_of p) u path"
    by (auto simp: can_read_def policy_allows_def l g rr gr granted_users_def granted_groups_def list_ex_iff
        split: option.splits)
  show "fst (can_write p (Some u) path) \<longleftrightarrow> policy_allows Write (rules_of p) (groups_of p) u path"
    by (auto simp: can_write_def policy_allows_def l g rr gr granted_users_def granted_groups_def list_ex_iff
        split: option.splits)
  show "perms_coherent (snd (can_read p user path))"
    using assms co by (auto simp: can_read_def l g split: option.splits)
  show "perms_coherent (snd (can_write p user path))"
    using assms co by (auto simp: can_write_def l g split: option.splits)
qed

lemma read_many_filter:
  assumes "perms_coherent p" and "load_permissions p = Inr rules"
  shows "fst (can_read_many p user paths) = filter (\<lambda>x. fst (can_read p user x)) paths"
proof (cases user)
  case (Some u)
  note c1 = load_cached_coherent[OF assms(1)]
  obtain p1 where l: "load_permissions_cached p = (Inr rules, p1)"
    using c1(1) assms(2) by (metis prod.collapse)
  obtain gr p2 where g: "load_groups_cached p1 = (gr, p2)" by fastforce
  have "fst (load_groups_cached p1) = load_groups p1" "load_groups p1 = load_groups p"
    using load_cached_coherent(2)[OF c1(3)] load_cached_frame(1)[of p] l by simp_all
  then have gr: "or_nil gr = groups_of p" using g by (simp add: groups_of_def)
  have rr: "elems rules = rules_of p" using assms(2) by (simp add: rules_of_def or_nil_def)
  have "fst (can_read p (Some u) x) \<longleftrightarrow> has_role u ''admin'' \<or> readable_by (rules_of p) (groups_of p) (u_name u) x" for x
    unfolding access_facts(1)[OF assms(1)]
    by (auto simp: policy_allows_def readable_by_def granted_users_def granted_groups_def list_ex_iff split: option.splits)
  then show ?thesis by (simp add: Some can_read_many_def l g rr gr)
qed (simp add: can_read_many_def can_read_def)

text \<open>
  The batch check is the single one: while the rules can be read, \<open>CanReadMany\<close> keeps exactly
  the paths \<open>CanRead\<close> allows, in their order.
\<close>
theorem can_read_many_filters:
  assumes "perms_coherent p" and "load_permissions p = Inr rules"
  shows "fst (can_read_many p user paths) = filter (\<lambda>x. fst (can_read p user x)) paths"
  by (rule read_many_filter[OF assms])

text \<open>
  C36: where the rules cannot be read the two disagree: \<open>CanRead\<close> and \<open>CanWrite\<close> drop the error and
  find no rule, so every authenticated user may read and write every document, whereas
  \<open>CanReadMany\<close> shows users nothing.
\<close>
theorem corrupt_rules_fail_open:
  assumes "perms_coherent p" and "ps_rules p = Stored Corrupt t"
  shows "fst (can_read p (Some u) path) \<and> fst (can_write p (Some u) path) \<and>
    (\<not> has_role u ''admin'' \<longrightarrow> fst (can_read_many p (Some u) paths) = [])"
proof -
  have none: "rules_of p = []" "load_permissions p = Inl BadStore"
    using assms(2) by (simp_all add: rules_of_def or_nil_def load_permissions_def read_json_file_def)
  have "fst (load_permissions_cached p) = Inl BadStore" using load_cached_coherent(1)[OF assms(1)] none(2) by simp
  then obtain p1 where "load_permissions_cached p = (Inl BadStore, p1)" by (metis prod.collapse)
  then show ?thesis
    using access_facts(1,2)[OF assms(1)] none(1) by (simp add: policy_allows_def find_rule_def can_read_many_def)
qed


section \<open>Accounts\<close>

lemma constant_time_equal_iff [simp]: "constant_time_equal a b \<longleftrightarrow> a = b"
proof (induction a arbitrary: b)
  case (Cons x a)
  then show ?case by (cases b) (auto simp: constant_time_equal_def)
qed (auto simp: constant_time_equal_def)

definition users_of :: "perm_state \<Rightarrow> user list" where
  "users_of p = or_nil (load_users p)"

lemma authenticate_Inr:
  "authenticate C p tok = Inr u \<Longrightarrow> u \<in> set (users_of p) \<and> u_hash u = hash_token C tok"
  by (auto simp: authenticate_def users_of_def or_nil_def find_Some_iff split: if_splits sum.splits option.splits)

lemma saved_users [simp]: "users_of (save_users t us p) = elems us"
  by (simp add: users_of_def save_users_def load_users_def write_json_file_def read_json_file_def or_nil_def)

lemma saved_frame [simp, frame]:
  "users_of (save_groups t gs p) = users_of p" "groups_of (save_groups t gs p) = elems gs"
  "groups_of (save_users t us p) = groups_of p" "load_groups (save_users t us p) = load_groups p"
  "rules_of (save_permissions t rs p) = elems rs" "load_permissions (save_permissions t rs p) = Inr rs"
  by (simp_all add: users_of_def groups_of_def rules_of_def save_users_def save_groups_def save_permissions_def load_users_def
      load_groups_def load_permissions_def write_json_file_def read_json_file_def or_nil_def)

text \<open>
  Generating a token for a user replaces the old one at once: afterwards no token but those
  with the new token's hash authenticates as that user, the new token does, unless another user's
  stored hash happens to be its hash, and the user keeps their roles.
\<close>
theorem token_rotation:
  assumes "keyed u_name (users_of p)" and "user_generate_token C rand t name p = (Inr tok, p')"
  shows "(\<forall>old u. authenticate C p' old = Inr u \<longrightarrow> u_name u = name \<longrightarrow> hash_token C old = hash_token C tok) \<and>
    ((\<forall>v \<in> set (users_of p). u_name v \<noteq> name \<longrightarrow> u_hash v \<noteq> hash_token C tok) \<longrightarrow> rand \<noteq> [] \<longrightarrow>
      (\<exists>u v. authenticate C p' tok = Inr v \<and> lookup_by u_name name (users_of p) = Some u \<and>
        v = u\<lparr>u_hash := hash_token C tok\<rparr>))"
proof -
  obtain us u where us: "load_users p = Inr us" "lookup_by u_name name (elems us) = Some u" "tok = generate_token rand"
    "p' = save_users t (map_option (modify_by u_name name (\<lambda>u. u\<lparr>u_hash := hash_token C tok\<rparr>)) us) p"
    using assms(2) by (auto simp: user_generate_token_def Let_def split: sum.splits if_splits)
  let ?f = "\<lambda>u. u\<lparr>u_hash := hash_token C tok\<rparr>"
  have old: "users_of p = elems us" using us(1) by (simp add: users_of_def or_nil_def)
  have new: "users_of p' = modify_by u_name name ?f (elems us)"
    by (simp add: us(4) split: option.split)
  have ents: "set (users_of p') = (\<lambda>v. if u_name v = name then ?f v else v) ` set (users_of p)"
    unfolding new old by (rule keyed_list.entries_modify) (use assms(1) old in simp_all)
  have only_new: "hash_token C o' = hash_token C tok" if a: "authenticate C p' o' = Inr v" "u_name v = name" for o' v
  proof -
    obtain w where "v = (if u_name w = name then ?f w else w)"
      using conjunct1[OF authenticate_Inr[OF a(1)]] unfolding ents by blast
    then have "u_hash v = hash_token C tok" using a(2) by (cases "u_name w = name") simp_all
    then show ?thesis using authenticate_Inr[OF a(1)] by simp
  qed
  have new_works: "authenticate C p' tok = Inr (?f u)"
    if other: "\<forall>v \<in> set (users_of p). u_name v \<noteq> name \<longrightarrow> u_hash v \<noteq> hash_token C tok" and "rand \<noteq> []"
  proof -
    have u: "u \<in> set (users_of p)" "u_name u = name" using lookup_by_Some[OF us(2)] old by simp_all
    have only: "v = ?f u" if v: "v \<in> set (users_of p')" "u_hash v = hash_token C tok" for v
    proof -
      obtain w where w: "w \<in> set (users_of p)" "v = (if u_name w = name then ?f w else w)" using v(1) ents by auto
      with v(2) other have "u_name w = name" by (auto split: if_splits)
      then have "w = u" using keyed_list.unique[of u_name, OF assms(1) w(1) u(1)] u(2) by simp
      then show ?thesis using w(2) u(2) by simp
    qed
    have "?f u = (if u_name u = name then ?f u else u)" using u(2) by simp
    then have "?f u \<in> set (users_of p')" unfolding ents using u(1) by (rule image_eqI)
    moreover have "u_hash (?f u) = hash_token C tok" by simp
    ultimately have "find (\<lambda>u. u_hash u = hash_token C tok) (users_of p') \<noteq> None"
      unfolding find_None_iff by blast
    then obtain v where v: "find (\<lambda>u. u_hash u = hash_token C tok) (users_of p') = Some v" by blast
    then have "v = ?f u" using only by (auto simp: find_Some_iff)
    moreover have "length tok \<noteq> 0" using \<open>rand \<noteq> []\<close> us(3) by (simp add: generate_token_def)
    moreover obtain us' where "load_users p' = Inr us'"
      by (simp add: us(4) save_users_def load_users_def write_json_file_def read_json_file_def)
    ultimately show ?thesis using v by (auto simp: authenticate_def users_of_def or_nil_def)
  qed
  have "lookup_by u_name name (users_of p) = Some u" using us(2) old by simp
  then show ?thesis using only_new new_works by (intro conjI impI allI) blast+
qed

text \<open>
  Removing a user takes the account and every group membership: afterwards no token
  authenticates under the name and no group contains it.
\<close>
theorem user_removal:
  assumes "user_remove t name p = (Inr (), p')" and "name \<in> u_name ` set (users_of p)"
  shows "(\<forall>tok u. authenticate C p' tok = Inr u \<longrightarrow> u_name u \<noteq> name) \<and>
    (\<forall>g. \<not> group_contains (groups_of p') g name)"
proof -
  obtain us gs where us: "load_users p = Inr us" "load_groups p = Inr gs"
    and p': "p' = (let p1 = save_users t (Some (remove_by u_name name (elems us))) p in
      if list_ex (\<lambda>g. length (g_members (drop_member name g)) \<noteq> length (g_members g)) (elems gs)
      then save_groups t (map_option (map (drop_member name)) gs) p1 else p1)"
    using assms by (auto simp: user_remove_def users_of_def or_nil_def list_ex_iff Let_def split: sum.splits if_splits)
  have gs: "groups_of p = elems gs" using us(2) by (simp add: groups_of_def or_nil_def)
  have users: "users_of p' = remove_by u_name name (elems us)" by (simp add: p' Let_def)
  have clean: "name \<notin> set (g_members g)" if "g \<in> set (groups_of p')" for g
  proof (cases "list_ex (\<lambda>g. length (g_members (drop_member name g)) \<noteq> length (g_members g)) (elems gs)")
    case True
    then have "groups_of p' = map (drop_member name) (elems gs)" by (simp add: p' Let_def split: option.split)
    then show ?thesis using that by (auto simp: drop_member_def)
  next
    case False
    then have "groups_of p' = elems gs" by (simp add: p' Let_def gs)
    with that False have "length (filter (\<lambda>m. m \<noteq> name) (g_members g)) = length (g_members g)"
      by (auto simp: list_ex_iff drop_member_def)
    then show ?thesis using length_filter_less[of name "g_members g" "\<lambda>m. m \<noteq> name"] by auto
  qed
  have "u_name u \<noteq> name" if "authenticate C p' tok = Inr u" for tok u
    using authenticate_Inr[OF that] users by (auto simp: remove_by_def)
  moreover have "\<not> group_contains (groups_of p') g name" for g
    using clean lookup_by_Some by (fastforce simp: group_contains_def split: option.splits)
  ultimately show ?thesis by blast
qed


section \<open>Rules\<close>

lemma lookup_remove_first: "keyed key xs \<Longrightarrow> lookup_by key k (remove_first key j xs) = (if k = j then None else lookup_by key k xs)"
  by (induction xs) (auto simp: keyed_def lookup_by_None)

lemma keyed_remove_first: "keyed key xs \<Longrightarrow> keyed key (remove_first key j xs)"
proof (induction xs)
  case (Cons x xs)
  have "set (remove_first key j ys) \<subseteq> set ys" for ys by (induction ys) auto
  then show ?case using Cons by (auto simp: keyed_def)
qed simp

lemma set_rule_Inr:
  assumes "set_document_rule t r p = (Inr (), p')"
  shows "\<exists>rs'. p' = save_permissions t rs' p \<and> elems rs' =
    (if lookup_by d_path (d_path r) (rules_of p) \<noteq> None
     then (if empty_rule r then remove_first d_path (d_path r) (rules_of p)
           else modify_by d_path (d_path r) (\<lambda>_. r) (rules_of p))
     else if d_owner r \<noteq> [] then rules_of p @ [r] else rules_of p)"
proof -
  obtain rs where rs: "load_permissions p = Inr rs" using assms by (auto simp: set_document_rule_def split: if_splits sum.splits)
  then have el: "rules_of p = elems rs" by (simp add: rules_of_def or_nil_def)
  let ?rs' = "if lookup_by d_path (d_path r) (elems rs) \<noteq> None
     then (if empty_rule r then map_option (remove_first d_path (d_path r)) rs
           else map_option (modify_by d_path (d_path r) (\<lambda>_. r)) rs)
     else if d_owner r \<noteq> [] then append_slice rs r else rs"
  have p': "p' = save_permissions t ?rs' p"
    using assms rs by (simp add: set_document_rule_def Let_def split: if_splits)
  have "elems ?rs' = (if lookup_by d_path (d_path r) (rules_of p) \<noteq> None
     then (if empty_rule r then remove_first d_path (d_path r) (rules_of p)
           else modify_by d_path (d_path r) (\<lambda>_. r) (rules_of p))
     else if d_owner r \<noteq> [] then rules_of p @ [r] else rules_of p)"
    by (auto simp: el split: option.splits)
  with p' show ?thesis by blast
qed

text \<open>
  Setting the rule of a path makes it the rule in force there, replacing the one that was,
  or takes the rule away when every field is empty; a rule without an owner is not added where
  there is none.  Every other path keeps its rule.
\<close>
theorem set_rule_effect:
  assumes "keyed d_path (rules_of p)" and "set_document_rule t r p = (Inr (), p')"
  shows "lookup_by d_path k (rules_of p') =
    (if k \<noteq> d_path r then lookup_by d_path k (rules_of p)
     else if lookup_by d_path k (rules_of p) \<noteq> None then (if empty_rule r then None else Some r)
     else if d_owner r \<noteq> [] then Some r else None) \<and> keyed d_path (rules_of p')"
proof -
  obtain rs' where rs: "p' = save_permissions t rs' p" "elems rs' =
    (if lookup_by d_path (d_path r) (rules_of p) \<noteq> None
     then (if empty_rule r then remove_first d_path (d_path r) (rules_of p)
           else modify_by d_path (d_path r) (\<lambda>_. r) (rules_of p))
     else if d_owner r \<noteq> [] then rules_of p @ [r] else rules_of p)"
    using set_rule_Inr[OF assms(2)] by blast
  have m: "lookup_by d_path k (modify_by d_path (d_path r) (\<lambda>_. r) (rules_of p)) =
      (if k = d_path r then map_option (\<lambda>_. r) (lookup_by d_path (d_path r) (rules_of p)) else lookup_by d_path k (rules_of p))"
    by (rule lookup_modify_by) simp
  show ?thesis
    using assms(1) m
    by (auto simp: rs lookup_remove_first keyed_remove_first keyed_modify lookup_add_by keyed_add)
qed

text \<open>
  Restricting a document that has no rule yet, by readers or writers but without an owner,
  reports success and stores nothing, so everybody may still read and write it.
\<close>
theorem ownerless_rule_is_lost:
  assumes "d_owner r = []" and "find_rule (rules_of p) (d_path r) = None"
    and "set_document_rule t r p = (Inr (), p')"
  shows "rules_of p' = rules_of p \<and>
    fst (can_read p' (Some u) (d_path r)) \<and> fst (can_write p' (Some u) (d_path r))"
proof -
  have none: "lookup_by d_path (d_path r) (rules_of p) = None"
    using assms(2) by (simp add: find_rule_def split: option.splits)
  obtain rs' where rs: "p' = save_permissions t rs' p" "elems rs' = rules_of p"
    using set_rule_Inr[OF assms(3)] none assms(1) by auto
  then have same: "rules_of p' = rules_of p" by simp
  have "fst (load_permissions_cached p') = Inr rs'"
    by (simp add: rs(1) load_permissions_cached_def save_permissions_def write_json_file_def refresh_cache_def
        cache_valid_def read_json_file_def case_prod_unfold Let_def)
  then obtain p1 where "load_permissions_cached p' = (Inr rs', p1)" by (metis prod.collapse)
  then show ?thesis
    using same assms(2) rs(2) by (simp add: can_read_def can_write_def or_nil_def)
qed


section \<open>Everything the manager can go through\<close>

datatype perm_op =
    AddUser bytes string "string list" | RemoveUser string | RotateToken bytes string | SetHash string string
  | AddGroup string | RemoveGroup string | AddMember string string | RemoveMember string string
  | SetRule doc_rule | CheckRead "user option" string | CheckWrite "user option" string
  | CheckMany "user option" "string list"

fun perm_run :: "crypto \<Rightarrow> int \<Rightarrow> perm_op \<Rightarrow> perm_state \<Rightarrow> perm_state" where
  "perm_run C t (AddUser rand name roles) p = snd (user_add C rand t name roles p)"
| "perm_run C t (RemoveUser name) p = snd (user_remove t name p)"
| "perm_run C t (RotateToken rand name) p = snd (user_generate_token C rand t name p)"
| "perm_run C t (SetHash name h) p = snd (set_token_hash t name h p)"
| "perm_run C t (AddGroup name) p = snd (group_add t name p)"
| "perm_run C t (RemoveGroup name) p = snd (group_remove t name p)"
| "perm_run C t (AddMember g name) p = snd (group_add_member t g name p)"
| "perm_run C t (RemoveMember g name) p = snd (group_remove_member t g name p)"
| "perm_run C t (SetRule r) p = snd (set_document_rule t r p)"
| "perm_run C t (CheckRead u x) p = snd (can_read p u x)"
| "perm_run C t (CheckWrite u x) p = snd (can_write p u x)"
| "perm_run C t (CheckMany u xs) p = snd (can_read_many p u xs)"

text \<open>
  Steps: an operation of this manager, or another process (the command line) replacing a file,
  at a time that is not the mtime a cache was taken at.
\<close>

inductive perm_step :: "crypto \<Rightarrow> perm_state \<Rightarrow> perm_state \<Rightarrow> bool" for C where
  step_op: "perm_step C p (perm_run C t op p)"
| step_rules: "Some t \<noteq> ca_stamp (ps_rule_cache p) \<Longrightarrow> keyed d_path (elems rs) \<Longrightarrow>
    perm_step C p (p\<lparr>ps_rules := write_json_file t rs\<rparr>)"
| step_groups: "Some t \<noteq> ca_stamp (ps_group_cache p) \<Longrightarrow> keyed g_name (elems gs) \<Longrightarrow>
    perm_step C p (p\<lparr>ps_groups := write_json_file t gs\<rparr>)"
| step_users: "keyed u_name (elems us) \<Longrightarrow> perm_step C p (p\<lparr>ps_users := write_json_file t us\<rparr>)"

inductive perm_reach :: "crypto \<Rightarrow> perm_state \<Rightarrow> bool" for C where
  reach_new: "keyed u_name (users_of (new_manager us gs rs)) \<Longrightarrow> keyed g_name (groups_of (new_manager us gs rs)) \<Longrightarrow>
    keyed d_path (rules_of (new_manager us gs rs)) \<Longrightarrow> perm_reach C (new_manager us gs rs)"
| reach_step: "perm_reach C p \<Longrightarrow> perm_step C p p' \<Longrightarrow> perm_reach C p'"

inductive_cases perm_stepE: "perm_step C p p'"

definition perm_inv :: "perm_state \<Rightarrow> bool" where
  "perm_inv p \<longleftrightarrow> perms_coherent p \<and> keyed u_name (users_of p) \<and> keyed g_name (groups_of p) \<and> keyed d_path (rules_of p)"

lemma save_groups_inv: "perm_inv p \<Longrightarrow> keyed g_name (elems gs) \<Longrightarrow> perm_inv (save_groups t gs p)"
  by (auto simp: perm_inv_def perms_coherent_def cache_ok_def save_groups_def write_json_file_def read_json_file_def
      groups_of_def users_of_def rules_of_def load_groups_def load_users_def load_permissions_def or_nil_def)

lemma save_users_inv: "perm_inv p \<Longrightarrow> keyed u_name (elems us) \<Longrightarrow> perm_inv (save_users t us p)"
  by (auto simp: perm_inv_def perms_coherent_def cache_ok_def save_users_def write_json_file_def read_json_file_def
      groups_of_def users_of_def rules_of_def load_groups_def load_users_def load_permissions_def or_nil_def)

lemma save_permissions_inv: "perm_inv p \<Longrightarrow> keyed d_path (elems rs) \<Longrightarrow> perm_inv (save_permissions t rs p)"
  by (auto simp: perm_inv_def perms_coherent_def cache_ok_def save_permissions_def write_json_file_def read_json_file_def
      groups_of_def users_of_def rules_of_def load_groups_def load_users_def load_permissions_def or_nil_def)

lemma cached_frame:
  "users_of (snd (load_permissions_cached p)) = users_of p" "groups_of (snd (load_permissions_cached p)) = groups_of p"
  "rules_of (snd (load_permissions_cached p)) = rules_of p" "users_of (snd (load_groups_cached p)) = users_of p"
  "groups_of (snd (load_groups_cached p)) = groups_of p" "rules_of (snd (load_groups_cached p)) = rules_of p"
  by (simp_all add: load_permissions_cached_def load_groups_cached_def users_of_def groups_of_def rules_of_def
      load_users_def load_groups_def load_permissions_def case_prod_unfold Let_def)

lemma cached_inv:
  assumes "perm_inv p"
  shows "perm_inv (snd (load_permissions_cached p))" "perm_inv (snd (load_groups_cached p))"
  using assms load_cached_coherent(3,4)[of p] by (simp_all add: perm_inv_def cached_frame)

lemma check_inv:
  assumes "perm_inv p"
  shows "perm_inv (snd (can_read p u x))" "perm_inv (snd (can_write p u x))" "perm_inv (snd (can_read_many p u xs))"
proof -
  obtain rr p1 where l: "load_permissions_cached p = (rr, p1)" by fastforce
  obtain gr p2 where g: "load_groups_cached p1 = (gr, p2)" by fastforce
  have i: "perm_inv p1" using cached_inv(1)[OF assms] l by simp
  have "perm_inv p2" using cached_inv(2)[OF i] g by simp
  then show "perm_inv (snd (can_read p u x))" "perm_inv (snd (can_write p u x))" "perm_inv (snd (can_read_many p u xs))"
    using assms i by (auto simp: can_read_def can_write_def can_read_many_def l g split: option.splits sum.splits)
qed

lemma load_elems:
  "load_users p = Inr us \<Longrightarrow> users_of p = elems us" "load_groups p = Inr gs \<Longrightarrow> groups_of p = elems gs"
  by (simp_all add: users_of_def groups_of_def or_nil_def)

lemma keyed_append: "keyed key xs \<Longrightarrow> \<not> list_ex (\<lambda>x. key x = key v) xs \<Longrightarrow> keyed key (xs @ [v])"
  by (auto simp: keyed_def list_ex_iff)

lemma keyed_map: "(\<And>x. key (f x) = key x) \<Longrightarrow> keyed key (map f xs) = keyed key xs"
  by (simp add: keyed_def comp_def)

lemma keyed_slice [simp]: "keyed key (case us of None \<Rightarrow> [] | Some xs \<Rightarrow> f xs) \<longleftrightarrow> (us \<noteq> None \<longrightarrow> keyed key (f (elems us)))"
  by (auto simp: keyed_def split: option.split)


lemma perm_run_inv:
  assumes "perm_inv p"
  shows "perm_inv (perm_run C t op p)"
proof -
  note k = assms[unfolded perm_inv_def] and def = perm_inv_def
  have u: "keyed u_name (elems us)" if "load_users p = Inr us" for us using k load_elems(1)[OF that] by simp
  have g: "keyed g_name (elems gs)" if "load_groups p = Inr gs" for gs using k load_elems(2)[OF that] by simp
  show ?thesis
  proof (cases op)
    case (AddUser rand name roles)
    show ?thesis unfolding AddUser perm_run.simps
      by (auto simp: user_add_def Let_def assms split: sum.split intro!: save_users_inv keyed_append dest: u)
  next
    case (RemoveUser name)
    show ?thesis unfolding RemoveUser perm_run.simps
      by (auto simp: user_remove_def Let_def assms drop_member_def keyed_map split: sum.split
          intro!: save_users_inv save_groups_inv keyed_remove dest: u g)
  next
    case (RotateToken rand name)
    show ?thesis unfolding RotateToken perm_run.simps
      by (auto simp: user_generate_token_def Let_def assms split: sum.split intro!: save_users_inv keyed_modify dest: u)
  next
    case (SetHash name h)
    show ?thesis unfolding SetHash perm_run.simps
      by (auto simp: set_token_hash_def assms split: sum.split intro!: save_users_inv keyed_modify dest: u)
  next
    case (AddGroup name)
    show ?thesis unfolding AddGroup perm_run.simps
      by (auto simp: group_add_def assms split: sum.split intro!: save_groups_inv keyed_append dest: g)
  next
    case (RemoveGroup name)
    show ?thesis unfolding RemoveGroup perm_run.simps
      by (auto simp: group_remove_def assms split: sum.split intro!: save_groups_inv keyed_remove dest: g)
  next
    case (AddMember gr name)
    show ?thesis unfolding AddMember perm_run.simps
      by (auto simp: group_add_member_def assms split: sum.split option.split intro!: save_groups_inv keyed_modify dest: g)
  next
    case (RemoveMember gr name)
    show ?thesis unfolding RemoveMember perm_run.simps
      by (auto simp: group_remove_member_def drop_member_def assms split: sum.split intro!: save_groups_inv keyed_modify dest: g)
  next
    case (SetRule r)
    show ?thesis unfolding SetRule perm_run.simps
    proof (cases "fst (set_document_rule t r p)")
      case (Inl e)
      then show "perm_inv (snd (set_document_rule t r p))"
        by (auto simp: set_document_rule_def Let_def assms split: sum.split if_splits)
    next
      case (Inr x)
      then obtain p' where p': "set_document_rule t r p = (Inr (), p')" by (metis (full_types) old.unit.exhaust prod.collapse)
      obtain rs' where "p' = save_permissions t rs' p" and "elems rs' =
        (if lookup_by d_path (d_path r) (rules_of p) \<noteq> None
         then (if empty_rule r then remove_first d_path (d_path r) (rules_of p)
               else modify_by d_path (d_path r) (\<lambda>_. r) (rules_of p))
         else if d_owner r \<noteq> [] then rules_of p @ [r] else rules_of p)"
        using set_rule_Inr[OF p'] by blast
      moreover have "keyed d_path (rules_of p)" using k by simp
      ultimately show "perm_inv (snd (set_document_rule t r p))" unfolding p'
        by (auto simp: keyed_remove_first keyed_modify keyed_add intro!: save_permissions_inv[OF assms])
    qed
  qed (use check_inv[OF assms] in simp_all)
qed


lemma perm_step_inv: "perm_step C p p' \<Longrightarrow> perm_inv p \<Longrightarrow> perm_inv p'"
proof (induction rule: perm_step.induct)
  case (step_op p t op)
  then show ?case by (rule perm_run_inv)
qed (auto simp: perm_inv_def perms_coherent_def cache_ok_def cache_valid_def write_json_file_def read_json_file_def
    users_of_def groups_of_def rules_of_def load_users_def load_groups_def load_permissions_def or_nil_def)

lemma perm_reach_inv: "perm_reach C p \<Longrightarrow> perm_inv p"
proof (induction rule: perm_reach.induct)
  case (reach_new us gs rs)
  then show ?case
    by (auto simp: perm_inv_def perms_coherent_def cache_ok_def cache_valid_def new_manager_def)
next
  case (reach_step p p')
  then show ?case using perm_step_inv by blast
qed

text \<open>
  C21: after any operations of the manager, each on files nobody else changes while it runs, and any
  changes other processes make to its files between two operations, as long as what they leave is a whole
  file without two users, groups or rules of one key, and a file of rules or groups gets another mtime
  than the one the manager has cached: no two users, groups or rules share a key and the caches stay
  coherent, so every access is decided by the policy on the files as they are.  (When a file is replaced
  while the manager reads it, old rules can survive, as the next theorem shows.)
\<close>
theorem reachable_access_is_policy:
  assumes "perm_reach C p"
  shows "keyed u_name (users_of p) \<and> keyed g_name (groups_of p) \<and> keyed d_path (rules_of p) \<and>
    (fst (can_read p (Some u) path) \<longleftrightarrow> policy_allows Read (rules_of p) (groups_of p) u path) \<and>
    (fst (can_write p (Some u) path) \<longleftrightarrow> policy_allows Write (rules_of p) (groups_of p) u path) \<and>
    \<not> fst (can_read p None path) \<and> \<not> fst (can_write p None path)"
proof -
  have "perm_inv p" by (rule perm_reach_inv[OF assms])
  then show ?thesis using access_facts(1,2) by (simp add: perm_inv_def can_read_def can_write_def)
qed

text \<open>
  Reading the file and asking for its mtime are two steps.  When another process replaces the
  rules between them, the old rules are cached as those of the new file, and every later check is
  decided by the old rules until the file changes again.
\<close>
theorem stale_rules_survive:
  assumes "refresh_cache (Stored (Json (Some old)) t0) (Stored (Json new) t1) c = (r, ps_rule_cache p)"
    and "\<not> cache_valid (Stored (Json (Some old)) t0) c"
    and "ps_rules p = Stored (Json new) t1" and "cache_ok (ps_groups p) (ps_group_cache p)"
  shows "fst (can_read p (Some u) path) \<longleftrightarrow> policy_allows Read old (groups_of p) u path"
proof -
  have c: "ps_rule_cache p = \<lparr>ca_items = Some old, ca_stamp = Some t1\<rparr>"
    using assms(1,2) by (simp add: refresh_cache_def read_json_file_def)
  then have l: "load_permissions_cached p = (Inr (Some old), p)"
    using assms(3) by (simp add: load_permissions_cached_def refresh_cache_def cache_valid_def)
  have "fst (load_groups_cached p) = load_groups p"
    using refresh_coherent[OF assms(4)]
    by (simp add: load_groups_cached_def load_groups_def case_prod_unfold Let_def)
  then obtain p2 where g: "load_groups_cached p = (load_groups p, p2)" by (metis prod.collapse)
  show ?thesis
    by (auto simp: can_read_def policy_allows_def l g groups_of_def or_nil_def granted_users_def granted_groups_def list_ex_iff
        split: option.splits)
qed


section \<open>Concrete stores\<close>

definition ann :: user where
  "ann = \<lparr>u_name = ''ann'', u_hash = ''aa'', u_roles = [''user'']\<rparr>"

definition plan_rule :: doc_rule where
  "plan_rule = \<lparr>d_path = ''plan.md'', d_owner = ''bob'', d_read_users = [], d_read_groups = [''team''],
     d_write_users = [], d_write_groups = []\<rparr>"

definition toy_perms :: perm_state where
  "toy_perms = new_manager (Stored (Json (Some [ann])) 1)
     (Stored (Json (Some [\<lparr>g_name = ''team'', g_members = [''ann'']\<rparr>])) 1) (Stored (Json (Some [plan_rule])) 1)"

lemmas toy_perms_defs = toy_perms_def new_manager_def ann_def plan_rule_def users_of_def groups_of_def rules_of_def
  load_users_def load_groups_def load_permissions_def read_json_file_def or_nil_def

lemma toy_reach: "perm_reach C toy_perms"
  unfolding toy_perms_def by (rule reach_new) (simp_all add: toy_perms_defs keyed_def)

lemma toy_coherent: "perms_coherent toy_perms"
  using perm_reach_inv[OF toy_reach] by (simp add: perm_inv_def)

lemma toy_rules [simp]: "rules_of toy_perms = [plan_rule]" "load_permissions toy_perms = Inr (Some [plan_rule])"
  by (simp_all add: toy_perms_defs)

lemma toy_policy: "policy_allows Read [plan_rule] (groups_of toy_perms) ann ''plan.md''"
  by (simp add: policy_allows_def find_rule_def granted_groups_def group_contains_def toy_perms_defs)

lemma can_read_many_filters_witness:
  "fst (can_read_many toy_perms (Some ann) [''plan.md'', ''x'']) = filter (\<lambda>x. fst (can_read toy_perms (Some ann) x)) [''plan.md'', ''x'']"
  by (rule can_read_many_filters[OF toy_coherent toy_rules(2)])

lemma reachable_access_is_policy_witness:
  "fst (can_read toy_perms (Some ann) ''plan.md'')"
  using reachable_access_is_policy[OF toy_reach[of toy_crypto], of ann "''plan.md''"] toy_policy by simp

lemma stale_rules_survive_witness:
  "fst (can_read (toy_perms\<lparr>ps_rules := Stored (Json (Some [plan_rule\<lparr>d_read_groups := []\<rparr>])) 2,
     ps_rule_cache := \<lparr>ca_items = Some [plan_rule], ca_stamp = Some 2\<rparr>\<rparr>) (Some ann) ''plan.md'')"
proof -
  let ?p = "toy_perms\<lparr>ps_rules := Stored (Json (Some [plan_rule\<lparr>d_read_groups := []\<rparr>])) 2,
     ps_rule_cache := \<lparr>ca_items = Some [plan_rule], ca_stamp = Some 2\<rparr>\<rparr>"
  have "groups_of ?p = groups_of toy_perms" by (simp add: groups_of_def load_groups_def)
  moreover have "fst (can_read ?p (Some ann) ''plan.md'') \<longleftrightarrow> policy_allows Read [plan_rule] (groups_of ?p) ann ''plan.md''"
    by (rule stale_rules_survive[where ?t0.0 = 1 and ?t1.0 = 2 and r = "Inr (Some [plan_rule])"
          and c = "\<lparr>ca_items = None, ca_stamp = None\<rparr>" and new = "Some [plan_rule\<lparr>d_read_groups := []\<rparr>]"])
      (simp_all add: refresh_cache_def cache_valid_def cache_ok_def read_json_file_def toy_perms_def new_manager_def)
  ultimately show ?thesis using toy_policy by simp
qed

lemma corrupt_rules_fail_open_witness:
  "fst (can_write (new_manager Missing Missing (Stored Corrupt 1)) (Some ann) ''plan.md'')"
  using corrupt_rules_fail_open[of "new_manager Missing Missing (Stored Corrupt 1)" 1 ann "''plan.md''" "[]"]
  by (simp add: new_manager_def perms_coherent_def cache_ok_def cache_valid_def)

lemma toy_users: "users_of toy_perms = [ann]" "load_users toy_perms = Inr (Some [ann])"
  by (simp_all add: toy_perms_defs)

lemma token_rotation_witness:
  "\<exists>v. authenticate toy_crypto (snd (user_generate_token toy_crypto ''r'' 2 ''ann'' toy_perms)) (generate_token ''r'') = Inr v \<and>
     u_name v = ''ann''"
proof -
  have keyed: "keyed u_name (users_of toy_perms)" by (simp add: toy_users keyed_def)
  have run: "user_generate_token toy_crypto ''r'' 2 ''ann'' toy_perms =
      (Inr (generate_token ''r''), snd (user_generate_token toy_crypto ''r'' 2 ''ann'' toy_perms))"
    by (simp add: user_generate_token_def toy_users ann_def Let_def)
  have only: "\<forall>v \<in> set (users_of toy_perms). u_name v \<noteq> ''ann'' \<longrightarrow>
      u_hash v \<noteq> hash_token toy_crypto (generate_token ''r'')"
    by (simp add: toy_users ann_def)
  have look: "lookup_by u_name ''ann'' (users_of toy_perms) = Some ann" by (simp add: toy_users ann_def)
  obtain u v where "authenticate toy_crypto (snd (user_generate_token toy_crypto ''r'' 2 ''ann'' toy_perms)) (generate_token ''r'') = Inr v"
    "lookup_by u_name ''ann'' (users_of toy_perms) = Some u" "v = u\<lparr>u_hash := hash_token toy_crypto (generate_token ''r'')\<rparr>"
    using conjunct2[OF token_rotation[OF keyed run], rule_format, OF only[rule_format]] by blast
  then show ?thesis using look by (auto simp: ann_def)
qed

lemma user_removal_witness:
  "\<not> group_contains (groups_of (snd (user_remove 2 ''ann'' toy_perms))) ''team'' ''ann''"
proof -
  have "user_remove 2 ''ann'' toy_perms = (Inr (), snd (user_remove 2 ''ann'' toy_perms))"
    by (simp add: user_remove_def toy_users load_groups_def save_users_def read_json_file_def toy_perms_def new_manager_def
        ann_def load_users_def Let_def)
  moreover have "''ann'' \<in> u_name ` set (users_of toy_perms)" by (simp add: toy_users ann_def)
  ultimately show ?thesis using user_removal by blast
qed

lemma set_rule_effect_witness:
  "lookup_by d_path ''plan.md'' (rules_of (snd (set_document_rule 2 (plan_rule\<lparr>d_owner := ''ann''\<rparr>) toy_perms))) =
     Some (plan_rule\<lparr>d_owner := ''ann''\<rparr>)"
proof -
  let ?r = "plan_rule\<lparr>d_owner := ''ann''\<rparr>"
  have run: "set_document_rule 2 ?r toy_perms = (Inr (), snd (set_document_rule 2 ?r toy_perms))"
    by (simp add: set_document_rule_def Let_def plan_rule_def)
  have "keyed d_path (rules_of toy_perms)" by (simp add: keyed_def)
  from set_rule_effect[OF this run, of "''plan.md''"] show ?thesis
    by (simp add: plan_rule_def empty_rule_def)
qed

lemma ownerless_rule_is_lost_witness:
  "rules_of (snd (set_document_rule 2 (plan_rule\<lparr>d_path := ''x'', d_owner := []\<rparr>) toy_perms)) = rules_of toy_perms"
proof -
  let ?r = "plan_rule\<lparr>d_path := ''x'', d_owner := []\<rparr>"
  have run: "set_document_rule 2 ?r toy_perms = (Inr (), snd (set_document_rule 2 ?r toy_perms))"
    by (simp add: set_document_rule_def Let_def)
  show ?thesis
    using ownerless_rule_is_lost[OF _ _ run, of ann] by (simp add: find_rule_def plan_rule_def)
qed

end
