(* ===== verification/Job_Queue.thy ===== *)
theory Job_Queue
  imports Go_Codec
begin

text \<open>
  The job queue of the self-hosted server, \<open>internal/selfhost/jobs.go\<close>: one JSON file per job,
  leased to workers for a limited time.  The directory is the list of its \<open>.json\<close> files by name
  without the extension, in the order of \<open>os.ReadDir\<close>; the times are arguments.  Two calls of
  the standard library are parameters: \<open>sort.Slice\<close>, which need not be stable (\<open>S\<close>), and the
  length of the JSON text of a job (\<open>sz\<close>), as files over 1 MiB are refused.
\<close>

section \<open>State\<close>

record job =
  j_id :: string
  j_schema :: int
  j_status :: string
  j_source :: string
  j_name :: string
  j_type :: string
  j_capability :: string
  j_worker :: string
  j_engine :: string
  j_model :: string
  j_note :: string
  j_error :: string
  j_created :: int
  j_updated :: int
  j_lease :: "int option"

datatype job_file = BadFile | JobFile job

type_synonym job_dir = "(string \<times> job_file) list"

type_synonym job_sorter = "job sorter"

datatype job_error = NoPendingJob | InvalidJobId | JobNotFound | BadJobFile | NotLeased string | NotFailed


section \<open>Files\<close>

definition job_schema_version :: int where
  "job_schema_version = 1"

definition max_job_bytes :: nat where
  "max_job_bytes = 1048576"

definition valid_job_id :: "string \<Rightarrow> bool" where
  "valid_job_id i \<longleftrightarrow> length i = 32 \<and> hex_decode i \<noteq> None"

definition new_job_id :: "bytes \<Rightarrow> string" where
  "new_job_id rand = hex_encode rand"

fun put_job_file :: "string \<Rightarrow> job_file \<Rightarrow> job_dir \<Rightarrow> job_dir" where
  "put_job_file n c [] = [(n, c)]"
| "put_job_file n c ((m, d) # fs) =
     (if n = m then (n, c) # fs
      else if n < m then (n, c) # (m, d) # fs
      else (m, d) # put_job_file n c fs)"

definition read_job :: "(job \<Rightarrow> nat) \<Rightarrow> string \<Rightarrow> job_dir \<Rightarrow> job_error + job" where
  "read_job sz i dir =
     (if \<not> valid_job_id i then Inl InvalidJobId
      else (case map_of dir i of
        None \<Rightarrow> Inl JobNotFound
      | Some BadFile \<Rightarrow> Inl BadJobFile
      | Some (JobFile j) \<Rightarrow> if sz j > max_job_bytes then Inl BadJobFile else Inr j))"

definition write_job :: "job \<Rightarrow> job_dir \<Rightarrow> (job_error + unit) \<times> job_dir" where
  "write_job j dir =
     (if \<not> valid_job_id (j_id j) then (Inl InvalidJobId, dir)
      else (Inr (), put_job_file (j_id j) (JobFile j) dir))"

fun read_entries :: "(job \<Rightarrow> nat) \<Rightarrow> job_dir \<Rightarrow> job_dir \<Rightarrow> job_error + job list" where
  "read_entries sz dir [] = Inr []"
| "read_entries sz dir ((n, c) # es) =
     bind_err (read_job sz n dir) (\<lambda>j. bind_err (read_entries sz dir es) (\<lambda>js. Inr (j # js)))"

definition read_all :: "(job \<Rightarrow> nat) \<Rightarrow> job_dir \<Rightarrow> job_error + job list" where
  "read_all sz dir = read_entries sz dir dir"

text \<open>The end of an operation that changes one job: write it and return it.\<close>

definition store_job :: "job \<Rightarrow> job_dir \<Rightarrow> (job_error + job) \<times> job_dir" where
  "store_job j dir =
     (case write_job j dir of
        (Inl e, dir') \<Rightarrow> (Inl e, dir')
      | (Inr _, dir') \<Rightarrow> (Inr j, dir'))"


section \<open>Operations\<close>

definition new_job :: "string \<Rightarrow> int \<Rightarrow> string \<Rightarrow> string \<Rightarrow> string \<Rightarrow> job" where
  "new_job i now source name ctype =
     \<lparr>j_id = i, j_schema = job_schema_version, j_status = ''pending'', j_source = source, j_name = name,
      j_type = ctype, j_capability = ''ocr'', j_worker = [], j_engine = [], j_model = [], j_note = [],
      j_error = [], j_created = now, j_updated = now, j_lease = None\<rparr>"

definition create_job :: "bytes \<Rightarrow> int \<Rightarrow> string \<Rightarrow> string \<Rightarrow> string \<Rightarrow> job_dir \<Rightarrow> (job_error + job) \<times> job_dir" where
  "create_job rand now source name ctype dir = store_job (new_job (new_job_id rand) now source name ctype) dir"

text \<open>A page of jobs, or a slice expression whose bounds are out of range: Go panics.\<close>

datatype page = Page "job list" nat | SlicePanic

definition list_page :: "(job \<Rightarrow> nat) \<Rightarrow> job_sorter \<Rightarrow> 64 word \<Rightarrow> 64 word \<Rightarrow> job_dir \<Rightarrow> job_error + page" where
  "list_page sz S limit offset dir =
     bind_err (read_all sz dir) (\<lambda>jobs.
       (let jobs = S (\<lambda>j. - j_created j) jobs;
            total = length jobs;
            offset = (if sint offset < 0 then 0 else offset)
        in if sint offset \<ge> int total then Inr (Page [] total)
           else (let end = (if sint limit > 0 \<and> sint (offset + limit) < int total then sint (offset + limit)
                            else int total)
                 in if end < sint offset then Inr SlicePanic
                    else Inr (Page (take (nat (end - sint offset)) (drop (nat (sint offset)) jobs)) total))))"

definition list_jobs :: "(job \<Rightarrow> nat) \<Rightarrow> job_sorter \<Rightarrow> job_dir \<Rightarrow> job_error + page" where
  "list_jobs sz S dir = list_page sz S 0 0 dir"

definition get_job :: "(job \<Rightarrow> nat) \<Rightarrow> string \<Rightarrow> job_dir \<Rightarrow> job_error + job" where
  "get_job sz i dir = read_job sz i dir"

definition reclaim :: "int \<Rightarrow> job \<Rightarrow> job" where
  "reclaim now j =
     (if j_status j = ''processing'' \<and> (case j_lease j of None \<Rightarrow> False | Some u \<Rightarrow> u < now)
      then j\<lparr>j_status := ''pending'', j_worker := [], j_lease := None, j_error := []\<rparr>
      else j)"

fun lease_first :: "int \<Rightarrow> int \<Rightarrow> string \<Rightarrow> job list \<Rightarrow> job option" where
  "lease_first now duration worker [] = None"
| "lease_first now duration worker (j # js) =
     (let j = reclaim now j
      in if j_status j \<noteq> ''pending'' \<or> j_capability j \<noteq> ''ocr'' then lease_first now duration worker js
         else Some (j\<lparr>j_status := ''processing'', j_worker := worker, j_lease := Some (now + duration),
                      j_updated := now\<rparr>))"

definition lease_job ::
    "(job \<Rightarrow> nat) \<Rightarrow> job_sorter \<Rightarrow> int \<Rightarrow> string \<Rightarrow> string list \<Rightarrow> int \<Rightarrow> job_dir \<Rightarrow> (job_error + job) \<times> job_dir" where
  "lease_job sz S now worker capabilities duration dir =
     (if \<not> list_ex (\<lambda>c. c = ''ocr'') capabilities then (Inl NoPendingJob, dir)
      else (case read_all sz dir of
        Inl e \<Rightarrow> (Inl e, dir)
      | Inr jobs \<Rightarrow>
          (case lease_first now duration worker (S j_created jobs) of
             None \<Rightarrow> (Inl NoPendingJob, dir)
           | Some j \<Rightarrow> store_job j dir)))"

definition complete_job ::
    "(job \<Rightarrow> nat) \<Rightarrow> int \<Rightarrow> string \<Rightarrow> string \<Rightarrow> string \<Rightarrow> string \<Rightarrow> string \<Rightarrow> job_dir \<Rightarrow> (job_error + job) \<times> job_dir" where
  "complete_job sz now i worker engine model note dir =
     (case read_job sz i dir of
        Inl e \<Rightarrow> (Inl e, dir)
      | Inr j \<Rightarrow>
          if j_status j \<noteq> ''processing'' \<or> j_worker j \<noteq> worker then (Inl (NotLeased worker), dir)
          else store_job (j\<lparr>j_status := ''completed'', j_engine := engine, j_model := model, j_note := note,
                            j_lease := None, j_error := [], j_updated := now\<rparr>) dir)"

definition fail_job ::
    "(job \<Rightarrow> nat) \<Rightarrow> int \<Rightarrow> string \<Rightarrow> string \<Rightarrow> string \<Rightarrow> bool \<Rightarrow> job_dir \<Rightarrow> (job_error + job) \<times> job_dir" where
  "fail_job sz now i worker message retry dir =
     (case read_job sz i dir of
        Inl e \<Rightarrow> (Inl e, dir)
      | Inr j \<Rightarrow>
          if j_status j \<noteq> ''processing'' \<or> j_worker j \<noteq> worker then (Inl (NotLeased worker), dir)
          else (let j1 = j\<lparr>j_status := (if retry then ''pending'' else ''failed''), j_error := trim_space message,
                           j_lease := None, j_updated := now\<rparr>
                in store_job (if retry then j1\<lparr>j_worker := []\<rparr> else j1) dir))"

definition retry_job :: "(job \<Rightarrow> nat) \<Rightarrow> int \<Rightarrow> string \<Rightarrow> job_dir \<Rightarrow> (job_error + job) \<times> job_dir" where
  "retry_job sz now i dir =
     (case read_job sz i dir of
        Inl e \<Rightarrow> (Inl e, dir)
      | Inr j \<Rightarrow>
          if j_status j \<noteq> ''failed'' then (Inl NotFailed, dir)
          else store_job (j\<lparr>j_status := ''pending'', j_worker := [], j_lease := None, j_error := [],
                            j_updated := now\<rparr>) dir)"

section \<open>The directory\<close>

lemma map_of_put_job [simp]: "map_of (put_job_file n c dir) = (map_of dir)(n \<mapsto> c)"
  by (induction dir) (auto simp: fun_eq_iff)

lemma set_put_job: "fst ` set (put_job_file n c dir) = insert n (fst ` set dir)"
  by (induction n c dir rule: put_job_file.induct) (simp_all add: insert_commute)

definition wf_jobs :: "job_dir \<Rightarrow> bool" where
  "wf_jobs dir \<longleftrightarrow> sorted_wrt (<) (map fst dir) \<and> (\<forall>n j. map_of dir n = Some (JobFile j) \<longrightarrow> j_id j = n)"

lemma sorted_put_job: "sorted_wrt (<) (map fst dir) \<Longrightarrow> sorted_wrt (<) (map fst (put_job_file n c dir))"
proof (induction dir)
  case (Cons e dir)
  have "set (map fst (put_job_file n c dir)) = insert n (set (map fst dir))" using set_put_job[of n c dir] by simp
  then show ?case using Cons by (cases e) (auto dest: order.strict_trans)
qed simp

lemma wf_jobs_distinct: "wf_jobs dir \<Longrightarrow> distinct (map fst dir)"
  using strict_sorted_iff by (auto simp: wf_jobs_def)

lemma wf_put: "wf_jobs dir \<Longrightarrow> wf_jobs (put_job_file (j_id j) (JobFile j) dir)"
  by (simp add: wf_jobs_def sorted_put_job)

lemma wf_id: "wf_jobs dir \<Longrightarrow> map_of dir n = Some (JobFile j) \<Longrightarrow> j_id j = n"
  by (simp add: wf_jobs_def)

lemma read_job_Inr:
  "read_job sz i dir = Inr j \<longleftrightarrow> valid_job_id i \<and> map_of dir i = Some (JobFile j) \<and> sz j \<le> max_job_bytes"
  by (auto simp: read_job_def split: option.splits job_file.splits)

lemma store_job_simp [simp]:
  "valid_job_id (j_id j) \<Longrightarrow> store_job j dir = (Inr j, put_job_file (j_id j) (JobFile j) dir)"
  "\<not> valid_job_id (j_id j) \<Longrightarrow> store_job j dir = (Inl InvalidJobId, dir)"
  by (simp_all add: store_job_def write_job_def)

lemma store_job_cases:
  "snd (store_job j dir) = dir \<or> snd (store_job j dir) = put_job_file (j_id j) (JobFile j) dir"
  by (cases "valid_job_id (j_id j)") simp_all

lemma store_job_Inr: "store_job j dir = (Inr j', dir') \<longleftrightarrow>
    valid_job_id (j_id j) \<and> j' = j \<and> dir' = put_job_file (j_id j) (JobFile j) dir"
  by (cases "valid_job_id (j_id j)") auto

lemma read_entries_Inr:
  "read_entries sz dir es = Inr js \<Longrightarrow> list_all2 (\<lambda>e j. read_job sz (fst e) dir = Inr j) es js"
  by (induction es arbitrary: js) (auto simp: bind_err_Inr)

lemma read_entries_ok:
  "(\<forall>e \<in> set es. \<exists>j. read_job sz (fst e) dir = Inr j) \<Longrightarrow> \<exists>js. read_entries sz dir es = Inr js"
proof (induction es)
  case (Cons e es)
  then obtain j js where "read_job sz (fst e) dir = Inr j" "read_entries sz dir es = Inr js" by auto
  then show ?case by (cases e) simp
qed simp

text \<open>The jobs of a readable directory are those of its files.\<close>

lemma read_all_set:
  assumes "read_all sz dir = Inr js"
  shows "j \<in> set js \<longleftrightarrow> (\<exists>i. read_job sz i dir = Inr j)"
proof -
  have l: "list_all2 (\<lambda>e j. read_job sz (fst e) dir = Inr j) dir js"
    using read_entries_Inr assms by (simp add: read_all_def)
  show ?thesis
  proof
    assume "j \<in> set js"
    then obtain n where "n < length js" "js ! n = j" by (metis in_set_conv_nth)
    then have "read_job sz (fst (dir ! n)) dir = Inr j"
      using list_all2_nthD2[OF l] by simp
    then show "\<exists>i. read_job sz i dir = Inr j" ..
  next
    assume "\<exists>i. read_job sz i dir = Inr j"
    then obtain i where r: "read_job sz i dir = Inr j" by blast
    then have "(i, JobFile j) \<in> set dir" by (auto simp: read_job_Inr dest: map_of_SomeD)
    then obtain n where n: "n < length dir" "dir ! n = (i, JobFile j)" by (metis in_set_conv_nth)
    then have "read_job sz i dir = Inr (js ! n)" "n < length js"
      using list_all2_nthD[OF l n(1)] list_all2_lengthD[OF l] by simp_all
    with r show "j \<in> set js" by auto
  qed
qed

lemma read_all_blocked:
  assumes "map_of dir i = Some c" and "\<forall>j. read_job sz i dir \<noteq> Inr j"
  shows "\<exists>e. read_all sz dir = Inl e"
proof (cases "read_all sz dir")
  case (Inr js)
  then have l: "list_all2 (\<lambda>e j. read_job sz (fst e) dir = Inr j) dir js"
    using read_entries_Inr by (simp add: read_all_def)
  have "(i, c) \<in> set dir" using assms(1) by (rule map_of_SomeD)
  then obtain n where n: "n < length dir" "dir ! n = (i, c)" by (metis in_set_conv_nth)
  with list_all2_nthD[OF l n(1)] have "read_job sz i dir = Inr (js ! n)" by simp
  with assms(2) show ?thesis by blast
qed simp


section \<open>Leasing\<close>

definition eligible :: "int \<Rightarrow> job \<Rightarrow> bool" where
  "eligible now j \<longleftrightarrow> j_status (reclaim now j) = ''pending'' \<and> j_capability j = ''ocr''"

lemma reclaim_fields [simp]:
  "j_id (reclaim now j) = j_id j" "j_capability (reclaim now j) = j_capability j"
  "j_created (reclaim now j) = j_created j"
  by (simp_all add: reclaim_def)

definition leased :: "int \<Rightarrow> int \<Rightarrow> string \<Rightarrow> job \<Rightarrow> job" where
  "leased now duration worker j = (reclaim now j)\<lparr>j_status := ''processing'', j_worker := worker,
     j_lease := Some (now + duration), j_updated := now\<rparr>"

lemma leased_fields [simp]:
  "j_id (leased now d w j) = j_id j" "j_status (leased now d w j) = ''processing''"
  "j_worker (leased now d w j) = w" "j_lease (leased now d w j) = Some (now + d)"
  by (simp_all add: leased_def)

lemma lease_first_find: "lease_first now d w js = map_option (leased now d w) (find (eligible now) js)"
  by (induction js) (auto simp: eligible_def leased_def Let_def)

lemma lease_first_Some:
  assumes "lease_first now d w js = Some j" and "sorted (map j_created js)"
  shows "\<exists>j0 \<in> set js. eligible now j0 \<and> j = leased now d w j0 \<and>
    (\<forall>k \<in> set js. eligible now k \<longrightarrow> j_created j0 \<le> j_created k)"
proof -
  obtain j0 where f: "find (eligible now) js = Some j0" "j = leased now d w j0"
    using assms(1) by (auto simp: lease_first_find)
  then obtain i where i: "i < length js" "eligible now (js ! i)" "j0 = js ! i" "\<forall>k < i. \<not> eligible now (js ! k)"
    by (auto simp: find_Some_iff)
  have "j_created j0 \<le> j_created k" if "k \<in> set js" "eligible now k" for k
  proof -
    obtain m where m: "m < length js" "js ! m = k" using \<open>k \<in> set js\<close> by (metis in_set_conv_nth)
    with i(4) \<open>eligible now k\<close> have "i \<le> m" by (meson not_le_imp_less)
    then show ?thesis using sorted_nth_mono[OF assms(2), of i m] m i by simp
  qed
  then show ?thesis using f i by auto
qed

lemma lease_job_facts:
  assumes "sort_ok S" and "wf_jobs dir" and "lease_job sz S now w caps d dir = (Inr j, dir')"
  shows "\<exists>j0. read_job sz (j_id j) dir = Inr j0 \<and> eligible now j0 \<and> j = leased now d w j0 \<and>
      dir' = put_job_file (j_id j) (JobFile j) dir \<and>
      (\<forall>i k. read_job sz i dir = Inr k \<longrightarrow> eligible now k \<longrightarrow> j_created j0 \<le> j_created k)"
proof -
  obtain js j1 where js: "read_all sz dir = Inr js" "lease_first now d w (S j_created js) = Some j1"
    "store_job j1 dir = (Inr j, dir')"
    using assms(3) by (auto simp: lease_job_def split: if_splits sum.splits option.splits)
  then have j1: "j1 = j" "dir' = put_job_file (j_id j) (JobFile j) dir" by (simp_all add: store_job_Inr)
  have s: "sorted (map j_created (S j_created js))" "mset (S j_created js) = mset js" using assms(1) by (simp_all add: sort_ok_def)
  then have mem: "set (S j_created js) = set js" by (metis set_mset_mset)
  obtain j0 where j0: "j0 \<in> set js" "eligible now j0" "j = leased now d w j0"
    "\<forall>k \<in> set js. eligible now k \<longrightarrow> j_created j0 \<le> j_created k"
    using lease_first_Some[OF js(2) s(1)] mem j1 by auto
  then obtain i where i: "read_job sz i dir = Inr j0" using read_all_set[OF js(1)] by blast
  then have "j_id j0 = i" using wf_id[OF assms(2)] by (simp add: read_job_Inr)
  then show ?thesis using j0 i j1 read_all_set[OF js(1)] by auto
qed

lemma lease_job_none:
  assumes "sort_ok S" and "read_all sz dir = Inr js"
  shows "fst (lease_job sz S now w caps d dir) = Inl NoPendingJob \<longleftrightarrow>
    ''ocr'' \<notin> set caps \<or> (\<forall>j \<in> set js. \<not> eligible now j)"
proof -
  have "set (S j_created js) = set js" using assms(1) by (metis sort_ok_def set_mset_mset)
  then have none: "lease_first now d w (S j_created js) = None \<longleftrightarrow> (\<forall>j \<in> set js. \<not> eligible now j)"
    by (auto simp: lease_first_find find_None_iff)
  have "fst (store_job j dir) \<noteq> Inl NoPendingJob" for j by (cases "valid_job_id (j_id j)") simp_all
  with none show ?thesis
    using assms(2) by (auto simp: lease_job_def list_ex_iff split: option.splits)
qed

text \<open>
  A lease hands out the oldest job that is waiting or whose lease has run out, marks it as the
  worker's until the given time and changes no other file; a worker who can do OCR gets none only
  when there is no such job.
\<close>
theorem lease_effect:
  assumes "sort_ok S" and "wf_jobs dir" and "read_all sz dir = Inr js"
  shows "(\<forall>j dir'. lease_job sz S now w caps d dir = (Inr j, dir') \<longrightarrow>
      (\<exists>j0 \<in> set js. eligible now j0 \<and> j = leased now d w j0 \<and> dir' = put_job_file (j_id j0) (JobFile j) dir \<and>
        (\<forall>k \<in> set js. eligible now k \<longrightarrow> j_created j0 \<le> j_created k))) \<and>
    (fst (lease_job sz S now w caps d dir) = Inl NoPendingJob \<longleftrightarrow>
      ''ocr'' \<notin> set caps \<or> (\<forall>j \<in> set js. \<not> eligible now j))"
proof (intro conjI allI impI)
  fix j dir' assume "lease_job sz S now w caps d dir = (Inr j, dir')"
  from lease_job_facts[OF assms(1,2) this] show "\<exists>j0 \<in> set js. eligible now j0 \<and> j = leased now d w j0 \<and>
      dir' = put_job_file (j_id j0) (JobFile j) dir \<and> (\<forall>k \<in> set js. eligible now k \<longrightarrow> j_created j0 \<le> j_created k)"
    using read_all_set[OF assms(3)] by (metis leased_fields(1))
qed (rule lease_job_none[OF assms(1,3)])

section \<open>The life of a job\<close>

datatype job_op =
    OpCreate bytes int string string string
  | OpLease int string "string list" int
  | OpComplete int string string string string string
  | OpFail int string string string bool
  | OpRetry int string

fun run_job_op :: "(job \<Rightarrow> nat) \<Rightarrow> job_sorter \<Rightarrow> job_op \<Rightarrow> job_dir \<Rightarrow> (job_error + job) \<times> job_dir" where
  "run_job_op sz S (OpCreate rand now source name ctype) dir = create_job rand now source name ctype dir"
| "run_job_op sz S (OpLease now w caps d) dir = lease_job sz S now w caps d dir"
| "run_job_op sz S (OpComplete now i w engine model note) dir = complete_job sz now i w engine model note dir"
| "run_job_op sz S (OpFail now i w message retry) dir = fail_job sz now i w message retry dir"
| "run_job_op sz S (OpRetry now i) dir = retry_job sz now i dir"

definition run_job_ops :: "(job \<Rightarrow> nat) \<Rightarrow> job_sorter \<Rightarrow> job_op list \<Rightarrow> job_dir \<Rightarrow> job_dir" where
  "run_job_ops sz S ops dir = fold (\<lambda>op dir. snd (run_job_op sz S op dir)) ops dir"

text \<open>What a queue is: jobs that wait, are held by a worker until a time, are done or have failed.\<close>

datatype job_view = Waiting | Held string "int option" | Done | Broken | Unknown

definition view_of :: "job \<Rightarrow> job_view" where
  "view_of j =
     (if j_status j = ''pending'' then Waiting
      else if j_status j = ''processing'' then Held (j_worker j) (j_lease j)
      else if j_status j = ''completed'' then Done
      else if j_status j = ''failed'' then Broken
      else Unknown)"

inductive view_step :: "job_op \<Rightarrow> job_view \<Rightarrow> job_view \<Rightarrow> bool" where
  grant: "view_step (OpLease now w caps d) Waiting (Held w (Some (now + d)))"
| regrant: "u < now \<Longrightarrow> view_step (OpLease now w caps d) (Held v (Some u)) (Held w (Some (now + d)))"
| finish: "view_step (OpComplete now i w engine model note) (Held w l) Done"
| give_up: "view_step (OpFail now i w message False) (Held w l) Broken"
| hand_back: "view_step (OpFail now i w message True) (Held w l) Waiting"
| again: "view_step (OpRetry now i) Broken Waiting"

inductive_cases view_step_HeldE: "view_step op (Held w l) v"
inductive_simps view_step_Done: "view_step op Done v"

text \<open>A new job does not take the id of another: ids are 16 random bytes.\<close>

definition fresh_id :: "job_op \<Rightarrow> string \<Rightarrow> bool" where
  "fresh_id op i \<longleftrightarrow> (case op of OpCreate rand _ _ _ _ \<Rightarrow> new_job_id rand \<noteq> i | _ \<Rightarrow> True)"

definition op_target :: "job_op \<Rightarrow> string option" where
  "op_target op = (case op of OpComplete _ i _ _ _ _ \<Rightarrow> Some i | OpFail _ i _ _ _ \<Rightarrow> Some i | OpRetry _ i \<Rightarrow> Some i | _ \<Rightarrow> None)"

lemma store_same: "map_of (snd (store_job k dir)) i = map_of dir i \<or> j_id k = i \<and> map_of (snd (store_job k dir)) i = Some (JobFile k)"
  using store_job_cases[of k dir] by (auto split: if_splits)

lemma eligible_view: "eligible now j \<Longrightarrow> view_of j = Waiting \<or> (\<exists>v u. view_of j = Held v (Some u) \<and> u < now)"
  by (auto simp: eligible_def reclaim_def view_of_def split: option.splits if_splits)

lemma view_of_leased: "view_of (leased now d w j) = Held w (Some (now + d))"
  by (simp add: view_of_def)

text \<open>Storing a job that has moved on is a move of that job and none of the others.\<close>

lemma store_move:
  assumes "map_of dir i = Some (JobFile j)" and "map_of dir n = Some (JobFile k)" and "j_id k' = n"
    and "view_step op (view_of k) (view_of k')" and "op_target op = None \<or> op_target op = Some n"
  shows "\<exists>j'. map_of (snd (store_job k' dir)) i = Some (JobFile j') \<and>
    (j' = j \<or> view_step op (view_of j) (view_of j') \<and> op_target op \<in> {None, Some i})"
proof (cases "i = n")
  case True
  then have "j = k" using assms(1,2) by simp
  then show ?thesis using store_same[of k' dir i] assms True by auto
next
  case False
  then show ?thesis using store_same[of k' dir i] assms(1,3) by auto
qed

lemma view_of_held: "j_status k = ''processing'' \<Longrightarrow> view_of k = Held (j_worker k) (j_lease k)"
  by (simp add: view_of_def)

lemma op_moves:
  assumes "sort_ok S" and "wf_jobs dir" and "map_of dir i = Some (JobFile j)" and "fresh_id op i"
  shows "\<exists>j'. map_of (snd (run_job_op sz S op dir)) i = Some (JobFile j') \<and>
    (j' = j \<or> view_step op (view_of j) (view_of j') \<and> op_target op \<in> {None, Some i})"
proof (cases op)
  case (OpCreate rand now source name ctype)
  let ?k = "new_job (new_job_id rand) now source name ctype"
  have "j_id ?k \<noteq> i" using assms(4) by (simp add: OpCreate fresh_id_def new_job_def)
  then show ?thesis using store_same[of ?k dir i] assms(3) by (simp add: OpCreate create_job_def)
next
  case (OpLease now w caps d)
  show ?thesis
  proof (cases "fst (lease_job sz S now w caps d dir)")
    case (Inl e)
    then have "snd (lease_job sz S now w caps d dir) = dir"
      by (auto simp: lease_job_def store_job_def write_job_def split: if_splits sum.splits option.splits)
    then show ?thesis using assms(3) by (simp add: OpLease)
  next
    case (Inr j1)
    then obtain dir' where l: "lease_job sz S now w caps d dir = (Inr j1, dir')" by (metis prod.collapse)
    obtain j0 where j0: "read_job sz (j_id j1) dir = Inr j0" "eligible now j0" "j1 = leased now d w j0"
      "dir' = put_job_file (j_id j1) (JobFile j1) dir"
      using lease_job_facts[OF assms(1,2) l] by blast
    show ?thesis
    proof (cases "j_id j1 = i")
      case True
      then have "j0 = j" using j0(1) assms(3) by (simp add: read_job_Inr)
      then have "view_step op (view_of j) (view_of j1)"
        using eligible_view[OF j0(2)] by (auto simp: j0(3) OpLease view_of_leased intro: view_step.intros)
      then show ?thesis using True l j0(4) by (simp add: OpLease op_target_def)
    next
      case False
      then show ?thesis using l j0(4) assms(3) by (simp add: OpLease)
    qed
  qed
next
  case (OpComplete now n w engine model path)
  show ?thesis
  proof (cases "(\<exists>k. read_job sz n dir = Inr k \<and> j_status k = ''processing'' \<and> j_worker k = w)")
    case True
    then obtain k where k: "read_job sz n dir = Inr k" "j_status k = ''processing''" "j_worker k = w" by blast
    let ?k = "k\<lparr>j_status := ''completed'', j_engine := engine, j_model := model, j_note := path,
      j_lease := None, j_error := [], j_updated := now\<rparr>"
    have f: "map_of dir n = Some (JobFile k)" using k(1) by (simp add: read_job_Inr)
    have "view_step op (view_of k) (view_of ?k)"
      unfolding OpComplete view_of_held[OF k(2)] k(3) by (simp add: view_of_def finish)
    from store_move[OF assms(3) f _ this] show ?thesis
      using wf_id[OF assms(2) f] k by (simp add: OpComplete complete_job_def op_target_def)
  next
    case False
    then have "snd (run_job_op sz S op dir) = dir"
      by (auto simp: OpComplete complete_job_def split: sum.split)
    then show ?thesis using assms(3) by simp
  qed
next
  case (OpFail now n w message retry)
  show ?thesis
  proof (cases "(\<exists>k. read_job sz n dir = Inr k \<and> j_status k = ''processing'' \<and> j_worker k = w)")
    case True
    then obtain k where k: "read_job sz n dir = Inr k" "j_status k = ''processing''" "j_worker k = w" by blast
    let ?k = "k\<lparr>j_status := (if retry then ''pending'' else ''failed''), j_error := trim_space message,
      j_lease := None, j_updated := now\<rparr>"
    let ?k' = "if retry then ?k\<lparr>j_worker := []\<rparr> else ?k"
    have f: "map_of dir n = Some (JobFile k)" using k(1) by (simp add: read_job_Inr)
    have "view_step op (view_of k) (view_of ?k')"
      unfolding OpFail view_of_held[OF k(2)] k(3) by (cases retry) (simp_all add: view_of_def give_up hand_back)
    moreover have "run_job_op sz S op dir = store_job ?k' dir"
      using k by (simp add: OpFail fail_job_def Let_def)
    ultimately show ?thesis
      using store_move[OF assms(3) f, of ?k' op] wf_id[OF assms(2) f] by (simp add: OpFail op_target_def)
  next
    case False
    then have "snd (run_job_op sz S op dir) = dir"
      by (auto simp: OpFail fail_job_def split: sum.split)
    then show ?thesis using assms(3) by simp
  qed
next
  case (OpRetry now n)
  show ?thesis
  proof (cases "(\<exists>k. read_job sz n dir = Inr k \<and> j_status k = ''failed'')")
    case True
    then obtain k where k: "read_job sz n dir = Inr k" "j_status k = ''failed''" by blast
    let ?k = "k\<lparr>j_status := ''pending'', j_worker := [], j_lease := None, j_error := [], j_updated := now\<rparr>"
    have f: "map_of dir n = Some (JobFile k)" using k(1) by (simp add: read_job_Inr)
    have "view_of k = Broken" "view_of ?k = Waiting" by (simp_all add: view_of_def k(2))
    then have "view_step op (view_of k) (view_of ?k)" by (simp add: OpRetry again)
    from store_move[OF assms(3) f _ this] show ?thesis
      using wf_id[OF assms(2) f] k by (simp add: OpRetry retry_job_def op_target_def)
  next
    case False
    then have "snd (run_job_op sz S op dir) = dir"
      by (auto simp: OpRetry retry_job_def split: sum.split)
    then show ?thesis using assms(3) by simp
  qed
qed

text \<open>
  The outcome an operation may have: a failure changes nothing; a success changes one file, that of
  the job it returns, and has moved that job one step along its life.
\<close>

definition one_move :: "job_op \<Rightarrow> job_dir \<Rightarrow> (job_error + job) \<times> job_dir \<Rightarrow> bool" where
  "one_move op dir out \<longleftrightarrow>
     (case out of
        (Inl e, dir') \<Rightarrow> dir' = dir
      | (Inr k, dir') \<Rightarrow>
          map_of dir' = (map_of dir)(j_id k \<mapsto> JobFile k) \<and>
          (case op of
             OpCreate rand _ _ _ _ \<Rightarrow> j_id k = new_job_id rand \<and> view_of k = Waiting
           | _ \<Rightarrow> \<exists>j. map_of dir (j_id k) = Some (JobFile j) \<and> view_step op (view_of j) (view_of k) \<and>
               op_target op \<in> {None, Some (j_id k)}))"

lemma store_job_out: "store_job k dir = (Inl e, dir') \<Longrightarrow> dir' = dir"
  by (cases "valid_job_id (j_id k)") simp_all

lemma one_move_store:
  assumes "wf_jobs dir" and "read_job sz n dir = Inr j" and "j_id k = j_id j" and "op_target op = Some n"
    and "view_step op (view_of j) (view_of k)"
  shows "one_move op dir (store_job k dir)"
proof -
  have f: "map_of dir n = Some (JobFile j)" using assms(2) by (simp add: read_job_Inr)
  have n: "j_id k = n" using wf_id[OF assms(1) f] assms(3) by simp
  show ?thesis
  proof (cases "store_job k dir")
    case (Pair r dir')
    show ?thesis
    proof (cases r)
      case (Inl e)
      then show ?thesis using Pair store_job_out[of k dir e dir'] by (simp add: one_move_def)
    next
      case (Inr k')
      then have "k' = k" "dir' = put_job_file n (JobFile k) dir" using Pair n by (simp_all add: store_job_Inr)
      moreover have "\<exists>j. map_of dir n = Some (JobFile j) \<and> view_step op (view_of j) (view_of k) \<and> op_target op \<in> {None, Some n}"
        using f assms(4,5) by auto
      moreover have "\<forall>rand t a b c. op \<noteq> OpCreate rand t a b c" using assms(4) by (auto simp: op_target_def)
      ultimately show ?thesis using Pair Inr n by (cases op) (simp_all add: one_move_def)
    qed
  qed
qed

lemma one_move_same [simp]: "one_move op dir (Inl e, dir)"
  by (simp add: one_move_def)

lemma op_one_move:
  assumes "sort_ok S" and "wf_jobs dir"
  shows "one_move op dir (run_job_op sz S op dir)"
proof (cases op)
  case (OpCreate rand now source name ctype)
  let ?k = "new_job (new_job_id rand) now source name ctype"
  have k: "j_id ?k = new_job_id rand" "view_of ?k = Waiting" by (simp_all add: new_job_def view_of_def)
  show ?thesis
    using k by (cases "valid_job_id (j_id ?k)") (simp_all add: OpCreate create_job_def one_move_def)
next
  case (OpLease now w caps d)
  show ?thesis
  proof (cases "lease_job sz S now w caps d dir")
    case (Pair r dir')
    show ?thesis
    proof (cases r)
      case (Inl e)
      then have "dir' = dir"
        using Pair by (auto simp: lease_job_def dest: store_job_out split: if_splits sum.splits option.splits)
      then show ?thesis using Pair Inl by (simp add: OpLease)
    next
      case (Inr k)
      obtain j0 where j0: "read_job sz (j_id k) dir = Inr j0" "eligible now j0" "k = leased now d w j0"
          "dir' = put_job_file (j_id k) (JobFile k) dir"
        using lease_job_facts[OF assms] Pair Inr by blast
      have "view_step op (view_of j0) (view_of k)"
        using eligible_view[OF j0(2)] by (auto simp: j0(3) OpLease view_of_leased intro: view_step.intros)
      moreover have "map_of dir (j_id k) = Some (JobFile j0)" using j0(1) by (simp add: read_job_Inr)
      ultimately show ?thesis using Pair Inr j0(4) by (auto simp: OpLease one_move_def op_target_def)
    qed
  qed
next
  case (OpComplete now n w engine model path)
  show ?thesis
  proof (cases "\<exists>k. read_job sz n dir = Inr k \<and> j_status k = ''processing'' \<and> j_worker k = w")
    case True
    then obtain k where k: "read_job sz n dir = Inr k" "j_status k = ''processing''" "j_worker k = w" by blast
    let ?k = "k\<lparr>j_status := ''completed'', j_engine := engine, j_model := model, j_note := path,
      j_lease := None, j_error := [], j_updated := now\<rparr>"
    have "view_step op (view_of k) (view_of ?k)"
      unfolding OpComplete view_of_held[OF k(2)] k(3) by (simp add: view_of_def finish)
    then have "one_move op dir (store_job ?k dir)"
      by (intro one_move_store[OF assms(2) k(1)]) (simp_all add: OpComplete op_target_def)
    then show ?thesis using k by (simp add: OpComplete complete_job_def)
  next
    case False
    then show ?thesis by (auto simp: OpComplete complete_job_def split: sum.split)
  qed
next
  case (OpFail now n w message retry)
  show ?thesis
  proof (cases "\<exists>k. read_job sz n dir = Inr k \<and> j_status k = ''processing'' \<and> j_worker k = w")
    case True
    then obtain k where k: "read_job sz n dir = Inr k" "j_status k = ''processing''" "j_worker k = w" by blast
    let ?k = "k\<lparr>j_status := (if retry then ''pending'' else ''failed''), j_error := trim_space message,
      j_lease := None, j_updated := now\<rparr>"
    let ?k' = "if retry then ?k\<lparr>j_worker := []\<rparr> else ?k"
    have "view_step op (view_of k) (view_of ?k')"
      unfolding OpFail view_of_held[OF k(2)] k(3) by (cases retry) (simp_all add: view_of_def give_up hand_back)
    then have "one_move op dir (store_job ?k' dir)"
      by (intro one_move_store[OF assms(2) k(1)]) (simp_all add: OpFail op_target_def)
    moreover have "run_job_op sz S op dir = store_job ?k' dir"
      using k by (simp add: OpFail fail_job_def Let_def)
    ultimately show ?thesis by simp
  next
    case False
    then show ?thesis by (auto simp: OpFail fail_job_def split: sum.split)
  qed
next
  case (OpRetry now n)
  show ?thesis
  proof (cases "\<exists>k. read_job sz n dir = Inr k \<and> j_status k = ''failed''")
    case True
    then obtain k where k: "read_job sz n dir = Inr k" "j_status k = ''failed''" by blast
    let ?k = "k\<lparr>j_status := ''pending'', j_worker := [], j_lease := None, j_error := [], j_updated := now\<rparr>"
    have "view_of k = Broken" "view_of ?k = Waiting" by (simp_all add: view_of_def k(2))
    then have "view_step op (view_of k) (view_of ?k)" by (simp add: OpRetry again)
    then have "one_move op dir (store_job ?k dir)"
      by (intro one_move_store[OF assms(2) k(1)]) (simp_all add: OpRetry op_target_def)
    then show ?thesis using k by (simp add: OpRetry retry_job_def)
  next
    case False
    then show ?thesis by (auto simp: OpRetry retry_job_def split: sum.split)
  qed
qed

text \<open>
  C29: every operation on the queue moves at most one job, and only along the life the queue promises.
  An operation that fails changes no file. One that succeeds changes exactly the file of the job it
  returns: a new job waits; a lease takes a job that waits or whose lease has run out and gives it to
  the caller until the given time; completing and failing need the worker that holds the job; retrying
  needs a failed job; the last three act on the job they name.
\<close>
theorem queue_refines:
  assumes "sort_ok S" and "wf_jobs dir"
  shows "case run_job_op sz S op dir of
      (Inl e, dir') \<Rightarrow> dir' = dir
    | (Inr k, dir') \<Rightarrow>
        map_of dir' = (map_of dir)(j_id k \<mapsto> JobFile k) \<and>
        (case op of
           OpCreate rand _ _ _ _ \<Rightarrow> j_id k = new_job_id rand \<and> view_of k = Waiting
         | _ \<Rightarrow> \<exists>j. map_of dir (j_id k) = Some (JobFile j) \<and> view_step op (view_of j) (view_of k) \<and>
             op_target op \<in> {None, Some (j_id k)})"
  using op_one_move[OF assms] unfolding one_move_def .

lemma op_wf:
  assumes "wf_jobs dir"
  shows "wf_jobs (snd (run_job_op sz S op dir))"
proof -
  have "wf_jobs (snd (store_job k dir))" for k
    using store_job_cases[of k dir] wf_put[OF assms, of k] assms by auto
  then show ?thesis
    using assms by (cases op) (auto simp: create_job_def lease_job_def complete_job_def fail_job_def retry_job_def Let_def
        split: sum.split option.split)
qed

lemma run_job_ops_simps [simp]:
  "run_job_ops sz S [] dir = dir"
  "run_job_ops sz S (op # ops) dir = run_job_ops sz S ops (snd (run_job_op sz S op dir))"
  by (simp_all add: run_job_ops_def)

lemma ops_wf: "wf_jobs dir \<Longrightarrow> wf_jobs (run_job_ops sz S ops dir)"
  by (induction ops arbitrary: dir) (simp_all add: op_wf)

text \<open>An operation that neither ends the worker's lease nor comes after it.\<close>

definition respects_lease :: "string \<Rightarrow> string \<Rightarrow> int \<Rightarrow> job_op \<Rightarrow> bool" where
  "respects_lease i w u op \<longleftrightarrow> fresh_id op i \<and>
     (case op of
        OpLease now _ _ _ \<Rightarrow> now \<le> u
      | OpComplete _ k v _ _ _ \<Rightarrow> k \<noteq> i \<or> v \<noteq> w
      | OpFail _ k v _ _ \<Rightarrow> k \<noteq> i \<or> v \<noteq> w
      | _ \<Rightarrow> True)"

lemma held_stays:
  assumes "sort_ok S" and "wf_jobs dir" and "map_of dir i = Some (JobFile j)" and "view_of j = Held w (Some u)"
    and "respects_lease i w u op"
  shows "map_of (snd (run_job_op sz S op dir)) i = Some (JobFile j)"
proof -
  have "fresh_id op i" using assms(5) by (simp add: respects_lease_def)
  from op_moves[OF assms(1,2,3) this, of sz] obtain j' where j': "map_of (snd (run_job_op sz S op dir)) i = Some (JobFile j')"
    "j' = j \<or> view_step op (Held w (Some u)) (view_of j') \<and> op_target op \<in> {None, Some i}"
    unfolding assms(4) by blast
  have "\<not> (view_step op (Held w (Some u)) (view_of j') \<and> op_target op \<in> {None, Some i})"
    using assms(5) by (auto simp: respects_lease_def op_target_def elim!: view_step_HeldE)
  with j' show ?thesis by auto
qed

lemma held_stays_ops:
  assumes "sort_ok S" and "wf_jobs dir" and "map_of dir i = Some (JobFile j)" and "view_of j = Held w (Some u)"
    and "\<forall>op \<in> set ops. respects_lease i w u op"
  shows "map_of (run_job_ops sz S ops dir) i = Some (JobFile j)"
  using assms(2,3,5)
proof (induction ops arbitrary: dir)
  case (Cons op ops)
  then have "map_of (snd (run_job_op sz S op dir)) i = Some (JobFile j)"
    using held_stays[OF assms(1) _ _ assms(4)] by simp
  then show ?case using Cons.IH[OF op_wf[OF Cons.prems(1)]] Cons.prems(3) by simp
qed simp

text \<open>
  C26: a lease is exclusive: from the moment a worker gets a job until the lease runs out, whatever
  is created, leased, completed, failed or retried meanwhile, unless that worker itself ends it,
  the job stays the worker's and no lease hands it to anybody.
\<close>
theorem lease_is_exclusive:
  assumes "sort_ok S" and "wf_jobs dir" and "lease_job sz S t w caps d dir = (Inr j, dir1)"
    and "\<forall>op \<in> set ops. respects_lease (j_id j) w (t + d) op"
  shows "map_of (run_job_ops sz S ops dir1) (j_id j) = Some (JobFile j) \<and>
    (\<forall>now v caps' d' k dir'. now \<le> t + d \<longrightarrow>
      lease_job sz S now v caps' d' (run_job_ops sz S ops dir1) = (Inr k, dir') \<longrightarrow> j_id k \<noteq> j_id j)"
proof -
  obtain j0 where j0: "j = leased t d w j0" "dir1 = put_job_file (j_id j) (JobFile j) dir"
    using lease_job_facts[OF assms(1-3)] by blast
  then have wf: "wf_jobs dir1" "map_of dir1 (j_id j) = Some (JobFile j)" and v: "view_of j = Held w (Some (t + d))"
    using wf_put[OF assms(2), of j] by (simp_all add: view_of_leased)
  let ?dir = "run_job_ops sz S ops dir1"
  have same: "map_of ?dir (j_id j) = Some (JobFile j)"
    by (rule held_stays_ops[OF assms(1) wf v assms(4)])
  have "j_id k \<noteq> j_id j" if "now \<le> t + d" and l: "lease_job sz S now v caps' d' ?dir = (Inr k, dir')" for now v caps' d' k dir'
  proof
    assume eq: "j_id k = j_id j"
    obtain k0 where "read_job sz (j_id k) ?dir = Inr k0" "eligible now k0"
      using lease_job_facts[OF assms(1) ops_wf[OF wf(1)] l] by blast
    then have "eligible now j" using same eq by (simp add: read_job_Inr)
    from eligible_view[OF this] show False using v \<open>now \<le> t + d\<close> by auto
  qed
  with same show ?thesis by blast
qed

text \<open>
  A completed job is final: no sequence of operations changes its file again.
\<close>
theorem completed_is_final:
  assumes "sort_ok S" and "wf_jobs dir" and "complete_job sz t i w engine model path dir = (Inr j, dir1)"
    and "\<forall>op \<in> set ops. fresh_id op i"
  shows "map_of (run_job_ops sz S ops dir1) i = Some (JobFile j) \<and> j_status j = ''completed'' \<and> j_note j = path"
proof -
  obtain k where k: "read_job sz i dir = Inr k" "j_status k = ''processing''" "j_worker k = w"
    "store_job (k\<lparr>j_status := ''completed'', j_engine := engine, j_model := model, j_note := path,
      j_lease := None, j_error := [], j_updated := t\<rparr>) dir = (Inr j, dir1)"
    using assms(3) by (auto simp: complete_job_def split: sum.splits if_splits)
  then have j: "j_id j = i" "j_status j = ''completed''" "j_note j = path" "dir1 = put_job_file i (JobFile j) dir"
    using wf_id[OF assms(2), of i k] by (auto simp: store_job_Inr read_job_Inr)
  then have wf: "wf_jobs dir1" "map_of dir1 i = Some (JobFile j)" using wf_put[OF assms(2), of j] by auto
  have fin: "view_of j = Done" using j(2) by (simp add: view_of_def)
  have "map_of (run_job_ops sz S ops dir1) i = Some (JobFile j)"
    using wf assms(4)
  proof (induction ops arbitrary: dir1)
    case (Cons op ops)
    have "map_of (snd (run_job_op sz S op dir1)) i = Some (JobFile j)"
      using op_moves[OF assms(1) Cons.prems(1,2), of op sz] Cons.prems(3) fin by (auto simp: view_step_Done)
    then show ?case using Cons.IH[OF op_wf[OF Cons.prems(1)]] Cons.prems(3) by simp
  qed simp
  with j show ?thesis by blast
qed


section \<open>Pages and unreadable files\<close>

lemma sint_add_cases:
  fixes a b :: "64 word"
  assumes "sint a > 0" and "sint b \<ge> 0"
  shows "sint (a + b) = (if sint a + sint b < 2 ^ 63 then sint a + sint b else sint a + sint b - 2 ^ 64)"
proof -
  define x where "x = sint a + sint b"
  have "sint a < 2 ^ 63" "sint b < 2 ^ 63" using sint_lt[of a] sint_lt[of b] by simp_all
  then have x: "0 \<le> x" "x < 2 ^ 64" using assms by (simp_all add: x_def)
  have "sint (a + b) = signed_take_bit 63 x" using sint_word_ariths(1)[of a b] by (simp add: x_def)
  then have "sint (a + b) = (x + 2 ^ 63) mod 2 ^ 64 - 2 ^ 63"
    by (simp add: signed_take_bit_eq_take_bit_shift take_bit_eq_mod)
  moreover have "(x + 2 ^ 63) mod 2 ^ 64 = (if x < 2 ^ 63 then x + 2 ^ 63 else x + 2 ^ 63 - 2 ^ 64)"
    using x mod_pos_geq[of "2 ^ 64" "x + 2 ^ 63"] by simp
  ultimately show ?thesis by (simp add: x_def)
qed

text \<open>
  For a limit and an offset that are not negative a page is the \<open>limit\<close> jobs from \<open>offset\<close> on
  in the order newest first (all of them for the limit 0), with the number of jobs, unless their
  sum leaves the 64-bit integers: then, when the offset is a job's, the slice expression panics.
\<close>
theorem list_page_cases:
  assumes "read_all sz dir = Inr js" and "sort_ok S" and "sint limit \<ge> 0" and "sint offset \<ge> 0"
    and "int (length js) < 2 ^ 63"
  shows "list_page sz S limit offset dir = Inr (let xs = S (\<lambda>j. - j_created j) js in
      if sint offset \<ge> int (length js) then Page [] (length js)
      else if sint limit + sint offset \<ge> 2 ^ 63 then SlicePanic
      else Page ((if sint limit = 0 then id else take (nat (sint limit))) (drop (nat (sint offset)) xs)) (length js))"
proof -
  define xs where "xs = S (\<lambda>j. - j_created j) js"
  define l where "l = sint limit"
  define off where "off = sint offset"
  have len: "length xs = length js" using assms(2) by (metis xs_def sort_ok_def size_mset)
  have l: "0 \<le> l" "0 \<le> off" using assms(3,4) by (simp_all add: l_def off_def)
  have page: "list_page sz S limit offset dir =
      (if off \<ge> int (length js) then Inr (Page [] (length js))
       else (let end = (if l > 0 \<and> sint (offset + limit) < int (length js) then sint (offset + limit) else int (length js))
             in if end < off then Inr SlicePanic else Inr (Page (take (nat (end - off)) (drop (nat off) xs)) (length js))))"
    using assms(1) l by (simp add: list_page_def xs_def[symmetric] len l_def off_def Let_def)
  show ?thesis
  proof (cases "off \<ge> int (length js) \<or> l = 0")
    case True
    have "take (nat (int (length js) - off)) (drop (nat off) xs) = drop (nat off) xs"
      by (rule take_all) (use l len in simp)
    moreover have "l + off < 2 ^ 63" if "l = 0" using that sint_lt[of offset] by (simp add: off_def)
    ultimately show ?thesis using True by (auto simp: page Let_def simp flip: xs_def l_def off_def)
  next
    case False
    then have pos: "sint limit > 0" "\<not> off \<ge> int (length js)" using l by (simp_all add: l_def)
    have add: "sint (offset + limit) = (if l + off < 2 ^ 63 then l + off else l + off - 2 ^ 64)"
      using sint_add_cases[OF pos(1) assms(4)] by (simp add: l_def off_def add.commute)
    show ?thesis
    proof (cases "l + off < 2 ^ 63")
      case True
      have "take (nat (int (length js) - off)) (drop (nat off) xs) = take (nat l) (drop (nat off) xs)"
        if "\<not> l + off < int (length js)"
        using that l len by simp
      then show ?thesis using True pos l False
        by (auto simp: page add Let_def simp flip: xs_def l_def off_def)
    next
      case False
      have "l + off - 2 ^ 64 < off" using sint_lt[of limit] by (simp add: l_def)
      moreover have "l + off - 2 ^ 64 < int (length js)" using calculation pos(2) by simp
      ultimately show ?thesis using False pos l
        by (simp add: page add Let_def flip: xs_def l_def off_def)
    qed
  qed
qed

text \<open>
  One job whose JSON exceeds 1 MiB stops the queue: when completing a job stores such a result,
  as nothing bounds what the worker reports, every later lease and listing fails, and the job
  cannot be read back.
\<close>
theorem oversized_result_blocks_queue:
  assumes "wf_jobs dir" and "complete_job sz t i w engine model path dir = (Inr j, dir1)" and "sz j > max_job_bytes"
  shows "get_job sz i dir1 = Inl BadJobFile \<and> (\<exists>e. list_jobs sz S dir1 = Inl e) \<and>
    (''ocr'' \<in> set caps \<longrightarrow> (\<exists>e. lease_job sz S' now v caps d dir1 = (Inl e, dir1) \<and> list_jobs sz S dir1 = Inl e))"
proof -
  obtain k where k: "read_job sz i dir = Inr k"
    "store_job (k\<lparr>j_status := ''completed'', j_engine := engine, j_model := model, j_note := path,
      j_lease := None, j_error := [], j_updated := t\<rparr>) dir = (Inr j, dir1)"
    using assms(2) by (auto simp: complete_job_def split: sum.splits if_splits)
  then have v: "valid_job_id i" "map_of dir1 i = Some (JobFile j)"
    using wf_id[OF assms(1), of i k] by (auto simp: store_job_Inr read_job_Inr)
  then have bad: "read_job sz i dir1 = Inl BadJobFile" using assms(3) by (simp add: read_job_def)
  then obtain e where "read_all sz dir1 = Inl e" using read_all_blocked[OF v(2), of sz] by auto
  then show ?thesis using bad
    by (auto simp: get_job_def list_jobs_def list_page_def lease_job_def list_ex_iff)
qed


section \<open>Concrete queues\<close>

definition toy_id :: string where
  "toy_id = replicate 32 CHR ''0''"

definition toy_job :: job where
  "toy_job = new_job toy_id 5 ''archive/a.pdf'' ''a.pdf'' []"

definition toy_dir :: job_dir where
  "toy_dir = [(toy_id, JobFile toy_job)]"

definition held_dir :: job_dir where
  "held_dir = [(toy_id, JobFile (leased 7 900 ''w1'' toy_job))]"

lemma sort_key_ok: "sort_ok sort_key"
  by (simp add: sort_ok_def)

lemma toy_id_valid: "valid_job_id toy_id"
  unfolding toy_id_def valid_job_id_def by code_simp

lemma toy_wf: "wf_jobs toy_dir" "wf_jobs held_dir"
  by (simp_all add: wf_jobs_def toy_dir_def held_dir_def toy_job_def new_job_def)

lemma toy_read: "read_all (\<lambda>_. 0) toy_dir = Inr [toy_job]"
  by (simp add: read_all_def toy_dir_def read_job_def toy_id_valid)

lemma toy_lease: "lease_job (\<lambda>_. 0) sort_key 7 ''w1'' [''ocr''] 900 toy_dir = (Inr (leased 7 900 ''w1'' toy_job), held_dir)"
proof -
  have "eligible 7 toy_job" "j_id toy_job = toy_id"
    by (simp_all add: toy_job_def new_job_def reclaim_def eligible_def)
  then have "lease_job (\<lambda>_. 0) sort_key 7 ''w1'' [''ocr''] 900 toy_dir = store_job (leased 7 900 ''w1'' toy_job) toy_dir"
    by (simp add: lease_job_def toy_read lease_first_find del: lease_first.simps)
  then show ?thesis using \<open>j_id toy_job = toy_id\<close> by (simp add: toy_id_valid) (simp add: toy_dir_def held_dir_def)
qed

lemma toy_complete:
  "complete_job sz 9 toy_id ''w1'' engine [] ''inbox/a.md'' held_dir =
     (if sz (leased 7 900 ''w1'' toy_job) > max_job_bytes then (Inl BadJobFile, held_dir)
      else (Inr ((leased 7 900 ''w1'' toy_job)\<lparr>j_status := ''completed'', j_engine := engine, j_note := ''inbox/a.md'',
        j_lease := None, j_error := [], j_updated := 9\<rparr>),
      [(toy_id, JobFile ((leased 7 900 ''w1'' toy_job)\<lparr>j_status := ''completed'', j_engine := engine, j_note := ''inbox/a.md'',
        j_lease := None, j_error := [], j_updated := 9\<rparr>))]))"
  by (simp add: complete_job_def read_job_def toy_id_valid held_dir_def toy_job_def new_job_def leased_def reclaim_def)

lemma queue_refines_witness:
  "\<exists>k dir' j. run_job_op (\<lambda>_. 0) sort_key (OpLease 7 ''w1'' [''ocr''] 900) toy_dir = (Inr k, dir') \<and>
    map_of dir' = (map_of toy_dir)(j_id k \<mapsto> JobFile k) \<and> map_of toy_dir (j_id k) = Some (JobFile j) \<and>
    view_step (OpLease 7 ''w1'' [''ocr''] 900) (view_of j) (view_of k)"
  using queue_refines[OF sort_key_ok toy_wf(1), where sz = "\<lambda>_. 0" and op = "OpLease 7 ''w1'' [''ocr''] 900"]
  by (auto simp: toy_lease)

lemma lease_effect_witness:
  "fst (lease_job (\<lambda>_. 0) sort_key 7 ''w1'' [''ocr''] 900 toy_dir) \<noteq> Inl NoPendingJob"
  using lease_effect[OF sort_key_ok toy_wf(1) toy_read, of 7 "''w1''" "[''ocr'']" 900]
  by (simp add: eligible_def reclaim_def toy_job_def new_job_def)

lemma lease_is_exclusive_witness:
  "map_of (run_job_ops (\<lambda>_. 0) sort_key [OpLease 8 ''w2'' [''ocr''] 900, OpComplete 8 toy_id ''w2'' [] [] []] held_dir) toy_id =
     Some (JobFile (leased 7 900 ''w1'' toy_job))"
proof -
  have "j_id (leased 7 900 ''w1'' toy_job) = toy_id" by (simp add: toy_job_def new_job_def)
  then show ?thesis
    using conjunct1[OF lease_is_exclusive[OF sort_key_ok toy_wf(1) toy_lease,
        of "[OpLease 8 ''w2'' [''ocr''] 900, OpComplete 8 toy_id ''w2'' [] [] []]"]]
    by (simp add: respects_lease_def fresh_id_def)
qed

lemma completed_is_final_witness:
  "\<exists>j. map_of (run_job_ops (\<lambda>_. 0) sort_key [OpRetry 10 toy_id, OpLease 9999 ''w2'' [''ocr''] 900]
      (snd (complete_job (\<lambda>_. 0) 9 toy_id ''w1'' [] [] ''inbox/a.md'' held_dir))) toy_id = Some (JobFile j) \<and>
    j_status j = ''completed''"
  using completed_is_final[OF sort_key_ok toy_wf(2) toy_complete[of "\<lambda>_. 0" "[]", simplified],
      of "[OpRetry 10 toy_id, OpLease 9999 ''w2'' [''ocr''] 900]"]
  by (auto simp: fresh_id_def toy_complete)

lemma list_page_cases_witness:
  "list_page (\<lambda>_. 0) sort_key 100 0 toy_dir = Inr (Page [toy_job] 1)"
  using list_page_cases[OF toy_read sort_key_ok, of 100 0] by simp

lemma oversized_result_blocks_queue_witness:
  "\<exists>e. list_jobs (\<lambda>j. length (j_engine j)) sort_key
     (snd (complete_job (\<lambda>j. length (j_engine j)) 9 toy_id ''w1'' (replicate 1048577 CHR ''x'') [] ''inbox/a.md'' held_dir)) = Inl e"
proof -
  let ?sz = "\<lambda>j. length (j_engine j)"
  have "?sz (leased 7 900 ''w1'' toy_job) \<le> max_job_bytes"
    by (simp add: leased_def toy_job_def new_job_def reclaim_def)
  then have run: "complete_job ?sz 9 toy_id ''w1'' (replicate 1048577 CHR ''x'') [] ''inbox/a.md'' held_dir =
      (Inr ((leased 7 900 ''w1'' toy_job)\<lparr>j_status := ''completed'', j_engine := replicate 1048577 CHR ''x'',
        j_note := ''inbox/a.md'', j_lease := None, j_error := [], j_updated := 9\<rparr>),
       snd (complete_job ?sz 9 toy_id ''w1'' (replicate 1048577 CHR ''x'') [] ''inbox/a.md'' held_dir))"
    by (simp only: toy_complete if_False not_le[symmetric] not_True_eq_False snd_conv)
  show ?thesis
    using oversized_result_blocks_queue[OF toy_wf(2) run, of sort_key] by (simp add: max_job_bytes_def)
qed

end
