(* ===== verification/Throttle.thy ===== *)
theory Throttle
  imports Go_Json
begin

text \<open>
  Rate limiting by source address: \<open>internal/selfhost/throttle.go\<close>.  Go's map of addresses is an
  association list in the order of insertion (the source does not fix the order of iteration),
  times and durations are nanoseconds, the zero time is \<open>None\<close>, and the clock readings of one
  call are one argument.
\<close>

section \<open>State\<close>

record bucket =
  b_count :: nat
  b_start :: "int option"
  b_blocked :: "int option"

record ip_state =
  s_auth :: bucket
  s_share :: bucket
  s_ai :: bucket
  s_seen :: int

datatype bucket_kind = AuthBucket | ShareBucket | AiBucket

record throttle =
  t_ips :: "(string \<times> ip_state) list"
  t_auth_window :: int
  t_auth_max :: nat
  t_auth_block :: int
  t_share_window :: int
  t_share_max :: nat
  t_share_block :: int
  t_ai_window :: int
  t_ai_max :: nat
  t_ai_block :: int
  t_max_entries :: nat
  t_last_cleanup :: "int option"
  t_cleanup_interval :: int
  t_stale_timeout :: int

definition seconds :: "int \<Rightarrow> int" where
  "seconds n = n * 1000000000"

definition new_throttle :: throttle where
  "new_throttle =
     \<lparr>t_ips = [],
      t_auth_window = seconds 10, t_auth_max = 5, t_auth_block = seconds 30,
      t_share_window = seconds 30, t_share_max = 3, t_share_block = seconds 60,
      t_ai_window = seconds 30, t_ai_max = 12, t_ai_block = seconds 60,
      t_max_entries = 5000, t_last_cleanup = None,
      t_cleanup_interval = seconds (5 * 60), t_stale_timeout = seconds (10 * 60)\<rparr>"

definition empty_bucket :: bucket where
  "empty_bucket = \<lparr>b_count = 0, b_start = None, b_blocked = None\<rparr>"

definition empty_ip_state :: ip_state where
  "empty_ip_state = \<lparr>s_auth = empty_bucket, s_share = empty_bucket, s_ai = empty_bucket, s_seen = 0\<rparr>"

fun bucket_of :: "bucket_kind \<Rightarrow> ip_state \<Rightarrow> bucket" where
  "bucket_of AuthBucket st = s_auth st"
| "bucket_of ShareBucket st = s_share st"
| "bucket_of AiBucket st = s_ai st"

fun set_bucket :: "bucket_kind \<Rightarrow> bucket \<Rightarrow> ip_state \<Rightarrow> ip_state" where
  "set_bucket AuthBucket b st = st\<lparr>s_auth := b\<rparr>"
| "set_bucket ShareBucket b st = st\<lparr>s_share := b\<rparr>"
| "set_bucket AiBucket b st = st\<lparr>s_ai := b\<rparr>"


section \<open>Operations\<close>

definition cleanup :: "int \<Rightarrow> throttle \<Rightarrow> throttle" where
  "cleanup now t =
     (if (case t_last_cleanup t of None \<Rightarrow> False | Some l \<Rightarrow> now - l < t_cleanup_interval t) then t
      else t\<lparr>t_last_cleanup := Some now,
             t_ips := filter (\<lambda>(_, st). \<not> now - s_seen st > t_stale_timeout t) (t_ips t)\<rparr>)"

text \<open>The loop looking for the entry seen longest ago; the empty name stands for none yet.\<close>

definition oldest :: "(string \<times> ip_state) list \<Rightarrow> string" where
  "oldest ips =
     fst (fold (\<lambda>(k, v) (o_ip, o_time). if o_ip = [] \<or> s_seen v < o_time then (k, s_seen v) else (o_ip, o_time)) ips ([], 0))"

definition make_room :: "throttle \<Rightarrow> throttle" where
  "make_room t =
     (if length (t_ips t) \<ge> t_max_entries t
      then t\<lparr>t_ips := filter (\<lambda>(k, _). k \<noteq> oldest (t_ips t)) (t_ips t)\<rparr>
      else t)"

fun put_ip :: "string \<Rightarrow> ip_state \<Rightarrow> (string \<times> ip_state) list \<Rightarrow> (string \<times> ip_state) list" where
  "put_ip ip st [] = [(ip, st)]"
| "put_ip ip st ((k, v) # ips) = (if k = ip then (ip, st) # ips else (k, v) # put_ip ip st ips)"

text \<open>One event on a bucket: whether it is let through, the time to wait, and the bucket after.\<close>

definition blocked_at :: "int \<Rightarrow> bucket \<Rightarrow> bool" where
  "blocked_at now b \<longleftrightarrow> (case b_blocked b of None \<Rightarrow> False | Some u \<Rightarrow> u > now)"

definition open_window :: "int \<Rightarrow> int \<Rightarrow> bucket \<Rightarrow> bucket" where
  "open_window window now b =
     (if (case b_start b of None \<Rightarrow> True | Some s \<Rightarrow> now - s > window)
      then b\<lparr>b_count := 0, b_start := Some now\<rparr> else b)"

definition hit :: "int \<Rightarrow> nat \<Rightarrow> int \<Rightarrow> int \<Rightarrow> bucket \<Rightarrow> bool \<times> int \<times> bucket" where
  "hit window limit block now b =
     (if blocked_at now b then (False, the (b_blocked b) - now, b)
      else
        (let b1 = open_window window now b;
             b2 = b1\<lparr>b_count := b_count b1 + 1\<rparr>
         in if b_count b2 \<ge> limit then (False, block, b2\<lparr>b_blocked := Some (now + block)\<rparr>)
            else (True, 0, b2)))"

definition record_event ::
    "string \<Rightarrow> int \<Rightarrow> nat \<Rightarrow> int \<Rightarrow> bucket_kind \<Rightarrow> int \<Rightarrow> throttle \<Rightarrow> (bool \<times> int) \<times> throttle" where
  "record_event ip window limit block kind now t =
     (let t1 = cleanup now t;
          (st, t2) = (case map_of (t_ips t1) ip of
                        Some st \<Rightarrow> (st, t1)
                      | None \<Rightarrow> (empty_ip_state, make_room t1));
          (allowed, retry, b) = hit window limit block now (bucket_of kind st)
      in ((allowed, retry), t2\<lparr>t_ips := put_ip ip (set_bucket kind b (st\<lparr>s_seen := now\<rparr>)) (t_ips t2)\<rparr>))"

definition record_auth_failure :: "string \<Rightarrow> int \<Rightarrow> throttle \<Rightarrow> (bool \<times> int) \<times> throttle" where
  "record_auth_failure ip now t = record_event ip (t_auth_window t) (t_auth_max t) (t_auth_block t) AuthBucket now t"

definition record_share_failure :: "string \<Rightarrow> int \<Rightarrow> throttle \<Rightarrow> (bool \<times> int) \<times> throttle" where
  "record_share_failure ip now t = record_event ip (t_share_window t) (t_share_max t) (t_share_block t) ShareBucket now t"

definition record_ai_request :: "string \<Rightarrow> int \<Rightarrow> throttle \<Rightarrow> (bool \<times> int) \<times> throttle" where
  "record_ai_request ip now t = record_event ip (t_ai_window t) (t_ai_max t) (t_ai_block t) AiBucket now t"

text \<open>
  The value of a \<open>Retry-After\<close> header.  \<open>d.Seconds()\<close> is a float; the durations are positive and at
  most a minute, for which truncating it is exact.
\<close>

definition retry_after_seconds :: "int \<Rightarrow> string" where
  "retry_after_seconds d =
     (let secs = d div seconds 1 in dec_of_int (if d > secs * seconds 1 then secs + 1 else secs))"


section \<open>Any sequence of events\<close>

type_synonym event_call = "string \<times> bucket_kind \<times> int"

fun record_call :: "event_call \<Rightarrow> throttle \<Rightarrow> (bool \<times> int) \<times> throttle" where
  "record_call (ip, AuthBucket, now) t = record_auth_failure ip now t"
| "record_call (ip, ShareBucket, now) t = record_share_failure ip now t"
| "record_call (ip, AiBucket, now) t = record_ai_request ip now t"

fun run_calls :: "event_call list \<Rightarrow> throttle \<Rightarrow> bool list \<times> throttle" where
  "run_calls [] t = ([], t)"
| "run_calls (c # cs) t =
     (let ((ok, _), t1) = record_call c t; (oks, t2) = run_calls cs t1 in (ok # oks, t2))"

section \<open>Entries\<close>

fun window_of :: "throttle \<Rightarrow> bucket_kind \<Rightarrow> int" where
  "window_of t AuthBucket = t_auth_window t" | "window_of t ShareBucket = t_share_window t" | "window_of t AiBucket = t_ai_window t"

fun limit_of :: "throttle \<Rightarrow> bucket_kind \<Rightarrow> nat" where
  "limit_of t AuthBucket = t_auth_max t" | "limit_of t ShareBucket = t_share_max t" | "limit_of t AiBucket = t_ai_max t"

fun block_of :: "throttle \<Rightarrow> bucket_kind \<Rightarrow> int" where
  "block_of t AuthBucket = t_auth_block t" | "block_of t ShareBucket = t_share_block t" | "block_of t AiBucket = t_ai_block t"

lemma record_call_event:
  "record_call (ip, k, now) t = record_event ip (window_of t k) (limit_of t k) (block_of t k) k now t"
  by (cases k) (simp_all add: record_auth_failure_def record_share_failure_def record_ai_request_def)

lemma bucket_set [simp]: "bucket_of k (set_bucket k' b st) = (if k = k' then b else bucket_of k st)"
  by (cases k; cases k') simp_all

lemma seen_set [simp]: "s_seen (set_bucket k b st) = s_seen st"
  by (cases k) simp_all

lemma bucket_seen [simp]: "bucket_of k (st\<lparr>s_seen := now\<rparr>) = bucket_of k st"
  by (cases k) simp_all

lemma map_of_put_ip [simp]: "map_of (put_ip ip st ips) = (map_of ips)(ip \<mapsto> st)"
  by (induction ips) (auto simp: fun_eq_iff)

lemma keys_put_ip: "map fst (put_ip ip st ips) = (if ip \<in> fst ` set ips then map fst ips else map fst ips @ [ip])"
  by (induction ip st ips rule: put_ip.induct) simp_all

lemma length_put_ip: "length (put_ip ip st ips) = (if ip \<in> fst ` set ips then length ips else length ips + 1)"
  using arg_cong[OF keys_put_ip[of ip st ips], of length] by (simp split: if_splits)

text \<open>The settings, which no event changes.\<close>

definition settings :: "throttle \<Rightarrow> (bucket_kind \<Rightarrow> int \<times> nat \<times> int) \<times> nat \<times> int \<times> int" where
  "settings t = ((\<lambda>k. (window_of t k, limit_of t k, block_of t k)), t_max_entries t, t_cleanup_interval t, t_stale_timeout t)"

lemma settingsD:
  assumes "settings t' = settings t"
  shows "window_of t' k = window_of t k" "limit_of t' k = limit_of t k" "block_of t' k = block_of t k"
    "t_max_entries t' = t_max_entries t" "t_stale_timeout t' = t_stale_timeout t"
  using assms by (auto simp: settings_def dest: fun_cong[of _ _ k])

lemma settings_update [simp]:
  "settings (t\<lparr>t_ips := ips\<rparr>) = settings t" "settings (t\<lparr>t_last_cleanup := l\<rparr>) = settings t"
proof -
  have "window_of (t\<lparr>t_ips := ips\<rparr>) k = window_of t k \<and> limit_of (t\<lparr>t_ips := ips\<rparr>) k = limit_of t k \<and>
      block_of (t\<lparr>t_ips := ips\<rparr>) k = block_of t k \<and> window_of (t\<lparr>t_last_cleanup := l\<rparr>) k = window_of t k \<and>
      limit_of (t\<lparr>t_last_cleanup := l\<rparr>) k = limit_of t k \<and> block_of (t\<lparr>t_last_cleanup := l\<rparr>) k = block_of t k" for k
    by (cases k) simp_all
  then show "settings (t\<lparr>t_ips := ips\<rparr>) = settings t" "settings (t\<lparr>t_last_cleanup := l\<rparr>) = settings t"
    by (simp_all add: settings_def)
qed

lemma settings_cleanup [simp]: "settings (cleanup now t) = settings t"
  by (simp add: cleanup_def)

lemma settings_make_room [simp]: "settings (make_room t) = settings t"
  by (simp add: make_room_def)

lemma settings_call [simp]: "settings (snd (record_call c t)) = settings t"
  by (cases c) (simp add: record_call_event record_event_def Let_def split: prod.split option.split)

definition distinct_ips :: "throttle \<Rightarrow> bool" where
  "distinct_ips t \<longleftrightarrow> distinct (map fst (t_ips t))"

lemma distinct_filter: "distinct_ips t \<Longrightarrow> distinct_ips (t\<lparr>t_ips := filter P (t_ips t)\<rparr>)"
  by (simp add: distinct_ips_def distinct_map_filter)

lemma distinct_cleanup: "distinct_ips t \<Longrightarrow> distinct_ips (cleanup now t)"
  using distinct_filter by (auto simp: cleanup_def distinct_ips_def distinct_map_filter)

lemma oldest_in: "ips \<noteq> [] \<Longrightarrow> oldest ips \<in> fst ` set ips"
proof -
  assume "ips \<noteq> []"
  define step where "step = (\<lambda>(k::string, v::ip_state) (o_ip, o_time). if o_ip = [] \<or> s_seen v < o_time then (k, s_seen v) else (o_ip, o_time))"
  have "fst (fold step ips acc) \<in> insert (fst acc) (fst ` set ips)" for ips acc
  proof (induction ips arbitrary: acc)
    case (Cons e ips)
    have "fst (step e acc) \<in> {fst e, fst acc}" by (auto simp: step_def split: prod.splits)
    then show ?case using Cons.IH[of "step e acc"] by auto
  qed simp
  moreover obtain e es where "ips = e # es" using \<open>ips \<noteq> []\<close> by (cases ips) auto
  moreover have "fst (step e ([], 0)) = fst e" for e by (simp add: step_def split: prod.split)
  ultimately have "fst (fold step ips ([], 0)) \<in> fst ` set ips" by simp (metis insert_iff)
  then show ?thesis by (simp add: oldest_def step_def)
qed


lemma length_make_room:
  assumes "distinct_ips t" and "0 < t_max_entries t" and "length (t_ips t) \<le> t_max_entries t"
  shows "length (t_ips (make_room t)) < t_max_entries t"
proof (cases "length (t_ips t) \<ge> t_max_entries t")
  case True
  then have "oldest (t_ips t) \<in> fst ` set (t_ips t)" using assms(2) by (intro oldest_in) auto
  then obtain v where "(oldest (t_ips t), v) \<in> set (t_ips t)" by auto
  then have "length (filter (\<lambda>(k, _). k \<noteq> oldest (t_ips t)) (t_ips t)) < length (t_ips t)"
    by (rule length_filter_less) simp
  then show ?thesis using True assms(3) by (simp add: make_room_def)
qed (simp add: make_room_def)

lemma distinct_make_room: "distinct_ips t \<Longrightarrow> distinct_ips (make_room t)"
  by (simp add: make_room_def distinct_filter)

lemma length_cleanup: "length (t_ips (cleanup now t)) \<le> length (t_ips t)"
  by (simp add: cleanup_def)

lemma distinct_put: "distinct (map fst ips) \<Longrightarrow> distinct (map fst (put_ip ip st ips))"
  by (simp add: keys_put_ip)

text \<open>One event, in terms of the state of its address after the cleanup.\<close>

definition state_at :: "throttle \<Rightarrow> string \<Rightarrow> ip_state" where
  "state_at t ip = (case map_of (t_ips t) ip of None \<Rightarrow> empty_ip_state | Some st \<Rightarrow> st)"

lemma record_call_cases:
  obtains t2 ok r b where "hit (window_of t k) (limit_of t k) (block_of t k) now (bucket_of k (state_at (cleanup now t) ip)) = (ok, r, b)"
    and "record_call (ip, k, now) t = ((ok, r), t2\<lparr>t_ips := put_ip ip (set_bucket k b ((state_at (cleanup now t) ip)\<lparr>s_seen := now\<rparr>)) (t_ips t2)\<rparr>)"
    and "t2 = (if map_of (t_ips (cleanup now t)) ip = None then make_room (cleanup now t) else cleanup now t)"
proof -
  obtain ok r b where h: "hit (window_of t k) (limit_of t k) (block_of t k) now (bucket_of k (state_at (cleanup now t) ip)) = (ok, r, b)"
    by (metis prod_cases3)
  let ?t2 = "if map_of (t_ips (cleanup now t)) ip = None then make_room (cleanup now t) else cleanup now t"
  have "record_call (ip, k, now) t =
      ((ok, r), ?t2\<lparr>t_ips := put_ip ip (set_bucket k b ((state_at (cleanup now t) ip)\<lparr>s_seen := now\<rparr>)) (t_ips ?t2)\<rparr>)"
    using h by (cases "map_of (t_ips (cleanup now t)) ip") (simp_all add: record_call_event record_event_def state_at_def Let_def)
  then show ?thesis using that[OF h _ refl] by simp
qed

definition bounded_ips :: "throttle \<Rightarrow> bool" where
  "bounded_ips t \<longleftrightarrow> distinct_ips t \<and> length (t_ips t) \<le> t_max_entries t \<and> 0 < t_max_entries t"

lemma call_bounded:
  assumes "bounded_ips t"
  shows "bounded_ips (snd (record_call c t))" "length (t_ips (snd (record_call c t))) \<le> length (t_ips t) + 1"
proof -
  obtain ip k now where c: "c = (ip, k, now)" by (metis prod_cases3)
  let ?t1 = "cleanup now t"
  have t1: "distinct_ips ?t1" "length (t_ips ?t1) \<le> t_max_entries t" "0 < t_max_entries t" "length (t_ips ?t1) \<le> length (t_ips t)"
    using assms distinct_cleanup[of t now] length_cleanup[of now t] by (simp_all add: bounded_ips_def)
  have max: "t_max_entries (cleanup now t) = t_max_entries t" "t_max_entries (make_room (cleanup now t)) = t_max_entries t"
    using settingsD(4)[of "cleanup now t" t] settingsD(4)[of "make_room (cleanup now t)" t] by simp_all
  obtain t2 ok r b where "hit (window_of t k) (limit_of t k) (block_of t k) now (bucket_of k (state_at ?t1 ip)) = (ok, r, b)"
    and r: "record_call c t = ((ok, r), t2\<lparr>t_ips := put_ip ip (set_bucket k b ((state_at ?t1 ip)\<lparr>s_seen := now\<rparr>)) (t_ips t2)\<rparr>)"
    and t2: "t2 = (if map_of (t_ips ?t1) ip = None then make_room ?t1 else ?t1)"
    unfolding c by (rule record_call_cases[of t k now ip])
  have len2: "length (t_ips t2) \<le> length (t_ips t)" using t1(4) by (simp add: t2 make_room_def) (meson le_trans length_filter_le)
  have "distinct_ips t2" using t1(1) by (simp add: t2 distinct_make_room)
  moreover have "length (put_ip ip x (t_ips t2)) \<le> t_max_entries t2" for x
    using length_make_room[of ?t1] t1 max by (auto simp: t2 length_put_ip map_of_eq_None_iff)
  moreover have "t_max_entries t2 = t_max_entries t" using max by (simp add: t2)
  ultimately show "bounded_ips (snd (record_call c t))" "length (t_ips (snd (record_call c t))) \<le> length (t_ips t) + 1"
    using t1(3) len2 by (simp_all add: r bounded_ips_def distinct_ips_def distinct_put length_put_ip)
qed

lemma run_calls_Cons:
  "fst (run_calls (c # cs) t) = fst (fst (record_call c t)) # fst (run_calls cs (snd (record_call c t)))"
  "snd (run_calls (c # cs) t) = snd (run_calls cs (snd (record_call c t)))"
  by (auto split: prod.split)

lemma run_calls_bounded:
  "bounded_ips t \<Longrightarrow> bounded_ips (snd (run_calls cs t)) \<and> settings (snd (run_calls cs t)) = settings t"
proof (induction cs arbitrary: t)
  case (Cons c cs)
  then show ?case using call_bounded(1)[OF Cons.prems, of c] by (simp add: run_calls_Cons del: run_calls.simps)
qed simp

lemma bounded_new: "bounded_ips new_throttle" "t_max_entries new_throttle = 5000" "t_stale_timeout new_throttle = seconds 600"
  by (simp_all add: bounded_ips_def distinct_ips_def new_throttle_def)

text \<open>
  The table never holds more than 5000 addresses, each once, whatever arrives.
\<close>
theorem throttle_bounded:
  "length (t_ips (snd (run_calls cs new_throttle))) \<le> 5000 \<and> distinct (map fst (t_ips (snd (run_calls cs new_throttle))))"
  using run_calls_bounded[OF bounded_new(1), of cs] settingsD(4)[of "snd (run_calls cs new_throttle)" new_throttle] bounded_new(2)
  by (simp add: bounded_ips_def distinct_ips_def)


section \<open>The rate\<close>

text \<open>
  How many more events a bucket can let through by the time \<open>e\<close>, when the window of no event
  counted since \<open>a\<close> has passed by then: none while it is blocked beyond \<open>e\<close>, else what is left of
  its window, and a full one if its window was opened before \<open>a\<close>.
\<close>

definition pot_bucket :: "nat \<Rightarrow> int \<Rightarrow> int \<Rightarrow> bucket \<Rightarrow> nat" where
  "pot_bucket limit a e b =
     (if (case b_blocked b of None \<Rightarrow> False | Some u \<Rightarrow> u > e) then 0
      else (limit - 1 - b_count b) + (if (case b_start b of None \<Rightarrow> False | Some s \<Rightarrow> s \<ge> a) then 0 else limit - 1))"

lemma pot_bucket_le: "pot_bucket limit a e b \<le> 2 * (limit - 1)"
proof -
  have "limit - 1 - b_count b \<le> limit - 1" by simp
  then show ?thesis unfolding pot_bucket_def by (auto simp del: diff_diff_left)
qed

lemma hit_pot:
  assumes "hit window limit block now b = (ok, r, b')" and "a \<le> now" and "now \<le> a + window" and "window < block" and "0 < limit"
  shows "pot_bucket limit a (a + window) b' + (if ok then 1 else 0) \<le> pot_bucket limit a (a + window) b"
proof (cases "blocked_at now b")
  case True
  then show ?thesis using assms(1) by (simp add: hit_def)
next
  case False
  then have not_beyond: "\<not> (case b_blocked b of None \<Rightarrow> False | Some u \<Rightarrow> u > a + window)"
    using assms(3) by (auto simp: blocked_at_def split: option.splits)
  define b1 where "b1 = open_window window now b"
  have b1: "b_blocked b1 = b_blocked b" by (simp add: b1_def open_window_def)
  have pot1: "pot_bucket limit a (a + window) b1 \<le> pot_bucket limit a (a + window) b"
    using not_beyond assms(2,3) by (auto simp: b1_def open_window_def pot_bucket_def split: option.splits)
  have h: "(ok, r, b') = (if b_count b1 + 1 \<ge> limit then (False, block, b1\<lparr>b_count := b_count b1 + 1, b_blocked := Some (now + block)\<rparr>)
      else (True, 0, b1\<lparr>b_count := b_count b1 + 1\<rparr>))"
    using assms(1) False by (auto simp: hit_def b1_def Let_def split: if_splits)
  show ?thesis
  proof (cases "b_count b1 + 1 \<ge> limit")
    case True
    then have "pot_bucket limit a (a + window) b' = 0" "\<not> ok"
      using h assms(2,4) by (simp_all add: pot_bucket_def)
    then show ?thesis by simp
  next
    case False
    then have "ok" "b' = b1\<lparr>b_count := b_count b1 + 1\<rparr>" using h by simp_all
    then have "pot_bucket limit a (a + window) b' + 1 = pot_bucket limit a (a + window) b1"
      using False not_beyond b1 by (simp add: pot_bucket_def)
    then show ?thesis using pot1 \<open>ok\<close> by simp
  qed
qed

text \<open>The same for an address: an entry last seen before \<open>a\<close>, or none, may have anything left.\<close>

definition pot_at :: "throttle \<Rightarrow> string \<Rightarrow> bucket_kind \<Rightarrow> int \<Rightarrow> nat" where
  "pot_at t ip k a =
     (case map_of (t_ips t) ip of
        None \<Rightarrow> 2 * (limit_of t k - 1)
      | Some st \<Rightarrow> if s_seen st < a then 2 * (limit_of t k - 1)
                    else pot_bucket (limit_of t k) a (a + window_of t k) (bucket_of k st))"

lemma map_of_filter_val:
  "distinct (map fst xs) \<Longrightarrow> map_of (filter (\<lambda>(_, v). P v) xs) k = (case map_of xs k of None \<Rightarrow> None | Some v \<Rightarrow> if P v then Some v else None)"
proof (induction xs)
  case (Cons x xs)
  have "map_of (filter (\<lambda>(_, v). P v) xs) (fst x) = None" using Cons.prems by (auto simp: map_of_eq_None_iff image_iff)
  then show ?case using Cons by (cases x) (auto split: option.splits)
qed simp

lemma cleanup_lookup:
  assumes "distinct_ips t"
  shows "map_of (t_ips (cleanup now t)) ip = map_of (t_ips t) ip \<or>
    map_of (t_ips (cleanup now t)) ip = None \<and> (\<exists>st. map_of (t_ips t) ip = Some st \<and> now - s_seen st > t_stale_timeout t)"
  using assms map_of_filter_val[of "t_ips t" "\<lambda>st. \<not> now - s_seen st > t_stale_timeout t" ip]
  by (auto simp: cleanup_def distinct_ips_def split: option.splits)

lemma cleanup_pot:
  assumes "distinct_ips t" and "now \<le> a + window_of t k" and "window_of t k \<le> t_stale_timeout t"
  shows "pot_at (cleanup now t) ip k a = pot_at t ip k a"
  using cleanup_lookup[OF assms(1), of now ip] settingsD(1,2)[OF settings_cleanup[of now t], of k] assms(2,3)
  by (auto simp: pot_at_def split: option.split)

lemma pot_state: "pot_bucket (limit_of t k) a (a + window_of t k) (bucket_of k (state_at t ip)) \<le> pot_at t ip k a"
proof -
  have "bucket_of k empty_ip_state = empty_bucket" by (cases k) (simp_all add: empty_ip_state_def)
  then show ?thesis
    using pot_bucket_le[of "limit_of t k" a "a + window_of t k"]
    by (auto simp: pot_at_def state_at_def split: option.split)
qed

lemma call_pot:
  assumes "bounded_ips t" and "length (t_ips t) < t_max_entries t"
    and "a \<le> now" and "now \<le> a + window_of t k0" and "window_of t k0 < block_of t k0"
    and "window_of t k0 \<le> t_stale_timeout t" and "0 < limit_of t k0"
  shows "pot_at (snd (record_call (ip, k, now) t)) ip0 k0 a + (if ip = ip0 \<and> k = k0 \<and> fst (fst (record_call (ip, k, now) t)) then 1 else 0)
    \<le> pot_at t ip0 k0 a"
proof -
  let ?t1 = "cleanup now t"
  note set1 = settingsD[OF settings_cleanup[of now t]]
  note setc = settingsD[OF settings_call[of "(ip, k, now)" t]]
  have d: "distinct_ips t" using assms(1) by (simp add: bounded_ips_def)
  have p1: "pot_at ?t1 ip0 k0 a = pot_at t ip0 k0 a" by (rule cleanup_pot[OF d assms(4,6)])
  have "length (t_ips ?t1) < t_max_entries ?t1" using length_cleanup[of now t] assms(2) set1(4) by simp
  then have room: "make_room ?t1 = ?t1" by (simp add: make_room_def)
  obtain t2 ok r b where h: "hit (window_of t k) (limit_of t k) (block_of t k) now (bucket_of k (state_at ?t1 ip)) = (ok, r, b)"
    and rc: "record_call (ip, k, now) t = ((ok, r), t2\<lparr>t_ips := put_ip ip (set_bucket k b ((state_at ?t1 ip)\<lparr>s_seen := now\<rparr>)) (t_ips t2)\<rparr>)"
    and t2: "t2 = (if map_of (t_ips ?t1) ip = None then make_room ?t1 else ?t1)"
    by (rule record_call_cases[of t k now ip])
  have t2: "t2 = ?t1" using t2 room by simp
  let ?t' = "snd (record_call (ip, k, now) t)"
  have look: "map_of (t_ips ?t') ip0 = (if ip0 = ip then Some (set_bucket k b ((state_at ?t1 ip)\<lparr>s_seen := now\<rparr>)) else map_of (t_ips ?t1) ip0)"
    by (simp add: rc t2)
  show ?thesis
  proof (cases "ip0 = ip")
    case False
    then have "pot_at ?t' ip0 k0 a = pot_at ?t1 ip0 k0 a" by (simp add: pot_at_def look setc set1 split: option.split)
    then show ?thesis using p1 False by simp
  next
    case True
    have new: "pot_at ?t' ip0 k0 a = pot_bucket (limit_of t k0) a (a + window_of t k0) (if k = k0 then b else bucket_of k0 (state_at ?t1 ip))"
      unfolding pot_at_def look setc using True assms(3) by simp
    have old: "pot_bucket (limit_of t k0) a (a + window_of t k0) (bucket_of k0 (state_at ?t1 ip)) \<le> pot_at t ip0 k0 a"
      using pot_state[of ?t1 k0 a ip] p1 True set1 by simp
    show ?thesis
    proof (cases "k = k0")
      case k: True
      from hit_pot[OF h assms(3)] assms(4,5,7) k
      have "pot_bucket (limit_of t k0) a (a + window_of t k0) b + (if ok then 1 else 0)
          \<le> pot_bucket (limit_of t k0) a (a + window_of t k0) (bucket_of k0 (state_at ?t1 ip))" by simp
      moreover have "fst (fst (record_call (ip, k, now) t)) = ok" by (simp add: rc)
      ultimately show ?thesis using new old k True by (cases ok) simp_all
    next
      case False
      then show ?thesis using new old by simp
    qed
  qed
qed

definition let_through :: "string \<Rightarrow> bucket_kind \<Rightarrow> event_call list \<Rightarrow> throttle \<Rightarrow> nat" where
  "let_through ip k cs t = length (filter (\<lambda>((i, kd, _), ok). i = ip \<and> kd = k \<and> ok) (zip cs (fst (run_calls cs t))))"

lemma let_through_simps [simp]:
  "let_through ip k [] t = 0"
  "let_through ip k ((i, kd, now) # cs) t =
     (if i = ip \<and> kd = k \<and> fst (fst (record_call (i, kd, now) t)) then 1 else 0) + let_through ip k cs (snd (record_call (i, kd, now) t))"
  by (auto simp: let_through_def run_calls_Cons simp del: run_calls.simps)

lemma calls_pot:
  assumes "bounded_ips t" and "length (t_ips t) + length cs \<le> t_max_entries t"
    and "\<forall>(_, _, now) \<in> set cs. a \<le> now \<and> now \<le> a + window_of t k0" and "window_of t k0 < block_of t k0"
    and "window_of t k0 \<le> t_stale_timeout t" and "0 < limit_of t k0"
  shows "let_through ip0 k0 cs t \<le> pot_at t ip0 k0 a"
  using assms
proof (induction cs arbitrary: t)
  case (Cons c cs)
  obtain ip k now where c: "c = (ip, k, now)" by (metis prod_cases3)
  note set = settingsD[OF settings_call[of c t]]
  have "let_through ip0 k0 cs (snd (record_call c t)) \<le> pot_at (snd (record_call c t)) ip0 k0 a"
  proof (rule Cons.IH)
    show "length (t_ips (snd (record_call c t))) + length cs \<le> t_max_entries (snd (record_call c t))"
      using call_bounded(2)[OF Cons.prems(1), of c] Cons.prems(2) set(4) by simp
  qed (use Cons.prems call_bounded(1)[OF Cons.prems(1)] set in auto)
  moreover have "pot_at (snd (record_call c t)) ip0 k0 a + (if ip = ip0 \<and> k = k0 \<and> fst (fst (record_call c t)) then 1 else 0)
      \<le> pot_at t ip0 k0 a"
    unfolding c by (rule call_pot) (use Cons.prems in \<open>auto simp: c\<close>)
  ultimately show ?case unfolding c let_through_simps by linarith
qed simp

lemma rate_limit_facts:
  assumes "bounded_ips t" and "settings t = settings new_throttle" and "length (t_ips t) + length cs \<le> 5000"
    and "\<forall>(_, _, now) \<in> set cs. a \<le> now \<and> now \<le> a + window_of new_throttle k"
  shows "let_through ip k cs t \<le> 2 * (limit_of new_throttle k - 1)"
proof -
  note s = settingsD[OF assms(2)]
  have new: "window_of new_throttle k < block_of new_throttle k" "window_of new_throttle k \<le> t_stale_timeout new_throttle"
    "0 < limit_of new_throttle k" "t_max_entries new_throttle = 5000"
    by (cases k; simp add: new_throttle_def seconds_def)+
  have "let_through ip k cs t \<le> pot_at t ip k a"
    by (rule calls_pot) (use assms s new in auto)
  also have "\<dots> \<le> 2 * (limit_of t k - 1)"
    using pot_bucket_le[of "limit_of t k" a "a + window_of t k"] by (auto simp: pot_at_def split: option.split)
  finally show ?thesis by (simp add: s)
qed

text \<open>
  C30: within any span as long as its window the limiter lets at most twice the limit less two
  events of an address through - 8 failed logins in 10 seconds, 4 failed share tokens in 30
  seconds - whatever other addresses do, as long as the addresses in the table and the calls of the span
  are at most 5000 together, so that no entry is evicted to make room (an evicted address starts afresh).
\<close>
theorem rate_limit:
  assumes "bounded_ips t" and "settings t = settings new_throttle" and "length (t_ips t) + length cs \<le> 5000"
    and "\<forall>(_, _, now) \<in> set cs. a \<le> now \<and> now \<le> a + window_of new_throttle k"
  shows "let_through ip k cs t \<le> 2 * (limit_of new_throttle k - 1)"
  by (rule rate_limit_facts[OF assms])

lemma rate_limit_witness:
  "let_through ''a'' AuthBucket (replicate 100 (''a'', AuthBucket, 7)) new_throttle \<le> 8"
  using rate_limit[of new_throttle "replicate 100 (''a'', AuthBucket, 7)" 7 AuthBucket "''a''"]
  by (simp add: bounded_ips_def distinct_ips_def new_throttle_def seconds_def)

text \<open>An address blocked until \<open>u\<close>, whose entry the cleanup keeps until then.\<close>

definition held_until :: "throttle \<Rightarrow> string \<Rightarrow> bucket_kind \<Rightarrow> int \<Rightarrow> bool" where
  "held_until t ip k u \<longleftrightarrow> (\<exists>st. map_of (t_ips t) ip = Some st \<and> b_blocked (bucket_of k st) = Some u \<and> u \<le> s_seen st + t_stale_timeout t)"

lemma hit_blocked: "b_blocked b = Some u \<Longrightarrow> now < u \<Longrightarrow> hit w l bl now b = (False, u - now, b)"
  by (simp add: hit_def blocked_at_def)

lemma hit_refused: "hit w l bl now b = (False, r, b') \<Longrightarrow> b_blocked b' = Some (now + r)"
  by (auto simp: hit_def Let_def blocked_at_def split: if_splits option.splits)

lemma call_held:
  assumes "bounded_ips t" and "length (t_ips t) < t_max_entries t" and "held_until t ip0 k0 u"
    and "now < u" and "u \<le> now + t_stale_timeout t"
  shows "held_until (snd (record_call (ip, k, now) t)) ip0 k0 u"
    and "ip = ip0 \<Longrightarrow> k = k0 \<Longrightarrow> \<not> fst (fst (record_call (ip, k, now) t))"
proof -
  let ?t1 = "cleanup now t"
  note set1 = settingsD[OF settings_cleanup[of now t]]
  note setc = settingsD[OF settings_call[of "(ip, k, now)" t]]
  obtain st where st: "map_of (t_ips t) ip0 = Some st" "b_blocked (bucket_of k0 st) = Some u" "u \<le> s_seen st + t_stale_timeout t"
    using assms(3) by (auto simp: held_until_def)
  have d: "distinct_ips t" using assms(1) by (simp add: bounded_ips_def)
  have kept: "map_of (t_ips ?t1) ip0 = Some st" using cleanup_lookup[OF d, of now ip0] st assms(4) by auto
  have "length (t_ips ?t1) < t_max_entries ?t1" using length_cleanup[of now t] assms(2) set1(4) by simp
  then have room: "make_room ?t1 = ?t1" by (simp add: make_room_def)
  obtain t2 ok r b where h: "hit (window_of t k) (limit_of t k) (block_of t k) now (bucket_of k (state_at ?t1 ip)) = (ok, r, b)"
    and rc: "record_call (ip, k, now) t = ((ok, r), t2\<lparr>t_ips := put_ip ip (set_bucket k b ((state_at ?t1 ip)\<lparr>s_seen := now\<rparr>)) (t_ips t2)\<rparr>)"
    and t2: "t2 = (if map_of (t_ips ?t1) ip = None then make_room ?t1 else ?t1)"
    by (rule record_call_cases[of t k now ip])
  have t2: "t2 = ?t1" using t2 room by simp
  have look: "map_of (t_ips (snd (record_call (ip, k, now) t))) ip0 =
      (if ip0 = ip then Some (set_bucket k b ((state_at ?t1 ip)\<lparr>s_seen := now\<rparr>)) else map_of (t_ips ?t1) ip0)"
    by (simp add: rc t2)
  have same: "\<not> ok \<and> b = bucket_of k0 st" if "ip = ip0" "k = k0"
    using h hit_blocked[OF st(2) assms(4)] kept that by (simp add: state_at_def)
  show "held_until (snd (record_call (ip, k, now) t)) ip0 k0 u"
    using look kept st assms(5) same setc(5) by (auto simp: held_until_def state_at_def)
  show "\<not> fst (fst (record_call (ip, k, now) t))" if "ip = ip0" "k = k0" using same[OF that] by (simp add: rc)
qed

lemma calls_held:
  assumes "bounded_ips t" and "length (t_ips t) + length cs \<le> t_max_entries t" and "held_until t ip k u"
    and "\<forall>(_, _, now) \<in> set cs. now < u \<and> u \<le> now + t_stale_timeout t"
  shows "let_through ip k cs t = 0"
  using assms
proof (induction cs arbitrary: t)
  case (Cons c cs)
  obtain i kd now where c: "c = (i, kd, now)" by (metis prod_cases3)
  note set = settingsD[OF settings_call[of c t]]
  have now: "now < u" "u \<le> now + t_stale_timeout t" "length (t_ips t) < t_max_entries t" using Cons.prems by (auto simp: c)
  note held = call_held[OF Cons.prems(1) now(3) Cons.prems(3) now(1,2), of i kd]
  have "let_through ip k cs (snd (record_call c t)) = 0"
  proof (rule Cons.IH)
    show "length (t_ips (snd (record_call c t))) + length cs \<le> t_max_entries (snd (record_call c t))"
      using call_bounded(2)[OF Cons.prems(1), of c] Cons.prems(2) set(4) by simp
  qed (use Cons.prems call_bounded(1)[OF Cons.prems(1)] set held(1) in \<open>auto simp: c\<close>)
  then show ?case using held(2) by (auto simp: c)
qed simp

text \<open>
  A refused address stays refused: until the announced time has passed every further event of
  that kind from it is refused too, whatever arrives from elsewhere, as long as the table has room.
\<close>
theorem block_holds:
  assumes "bounded_ips t" and "record_call (ip, k, now) t = ((False, r), t1)"
    and "r \<le> t_stale_timeout t" and "length (t_ips t1) + length cs \<le> t_max_entries t"
    and "\<forall>(_, _, now') \<in> set cs. now \<le> now' \<and> now' < now + r"
  shows "let_through ip k cs t1 = 0"
proof -
  have t1: "t1 = snd (record_call (ip, k, now) t)" using assms(2) by simp
  note set = settingsD[OF settings_call[of "(ip, k, now)" t], folded t1]
  obtain t2 ok r' b where h: "hit (window_of t k) (limit_of t k) (block_of t k) now (bucket_of k (state_at (cleanup now t) ip)) = (ok, r', b)"
    and rc: "record_call (ip, k, now) t = ((ok, r'), t2\<lparr>t_ips := put_ip ip (set_bucket k b ((state_at (cleanup now t) ip)\<lparr>s_seen := now\<rparr>)) (t_ips t2)\<rparr>)"
    and "t2 = (if map_of (t_ips (cleanup now t)) ip = None then make_room (cleanup now t) else cleanup now t)"
    by (rule record_call_cases[of t k now ip])
  have "\<not> ok" "r' = r" using rc assms(2) by simp_all
  then have "b_blocked b = Some (now + r)" using h hit_refused by simp
  then have "held_until t1 ip k (now + r)"
    using assms(3) set(5) by (simp add: held_until_def t1 rc)
  moreover have "bounded_ips t1" unfolding t1 by (rule call_bounded(1)[OF assms(1)])
  moreover have "\<forall>(_, _, now') \<in> set cs. now' < now + r \<and> now + r \<le> now' + t_stale_timeout t1"
    using assms(3,5) set(5) by fastforce
  ultimately show ?thesis using calls_held assms(4) set(4) by simp
qed

lemma block_holds_witness:
  "let_through ''a'' ShareBucket (replicate 50 (''a'', ShareBucket, 8)) (snd (run_calls (replicate 3 (''a'', ShareBucket, 7)) new_throttle)) = 0"
proof -
  let ?c = "(''a'', ShareBucket, 7::int)"
  let ?t = "snd (run_calls [?c, ?c] new_throttle)"
  have run: "record_call ?c ?t = ((False, seconds 60), snd (record_call ?c ?t))" by code_simp
  note b = run_calls_bounded[OF bounded_new(1), of "[?c, ?c]"]
  note t = conjunct1[OF b] settingsD(4,5)[OF conjunct2[OF b], unfolded bounded_new(2,3)]
  have "length (t_ips (snd (record_call ?c ?t))) = 1" by code_simp
  then show ?thesis
    using block_holds[OF t(1) run, of "replicate 50 (''a'', ShareBucket, 8)"] t(2,3)
    by (simp add: seconds_def numeral_3_eq_3 run_calls_Cons del: run_calls.simps(2))
qed

text \<open>
  The \<open>Retry-After\<close> header announces the waiting time in whole seconds, rounded up.
\<close>
theorem retry_after_covers:
  "\<exists>s. retry_after_seconds d = dec_of_int s \<and> d \<le> s * seconds 1 \<and> s * seconds 1 < d + seconds 1"
proof -
  define q where "q = d div seconds 1"
  have "q * seconds 1 \<le> d" "d < (q + 1) * seconds 1"
    by (simp_all add: q_def seconds_def)
  moreover have "retry_after_seconds d = dec_of_int (if d > q * seconds 1 then q + 1 else q)"
    by (simp add: retry_after_seconds_def q_def Let_def)
  ultimately show ?thesis
    by (intro exI[of _ "if d > q * seconds 1 then q + 1 else q"]) (auto simp: algebra_simps seconds_def)
qed

end
