(* ===== verification/Share_Links.thy ===== *)
theory Share_Links
  imports Permissions
begin

text \<open>
  Time-limited links to single documents: the store of \<open>internal/selfhost/share.go\<close>, one JSON
  file holding the list of all links.  Random bytes and the time are arguments.
\<close>

section \<open>State and operations\<close>

record share_link =
  l_id :: string
  l_path :: string
  l_by :: string
  l_created :: int
  l_expires :: int
  l_hash :: string
  l_expired :: bool
  l_revoked :: "int option"
  l_token :: string

datatype share_file = NoShares | BadShares | Shares "share_link list"

datatype share_error = StoreUnreadable | TokenRequired | LinkExpired | LinkNotFound | AlreadyRevoked

definition is_active :: "int \<Rightarrow> share_link \<Rightarrow> bool" where
  "is_active now l \<longleftrightarrow> \<not> l_expired l \<and> now < l_expires l"

definition load_shares :: "share_file \<Rightarrow> share_error + share_link list" where
  "load_shares f = (case f of NoShares \<Rightarrow> Inr [] | BadShares \<Rightarrow> Inl StoreUnreadable | Shares ls \<Rightarrow> Inr ls)"

definition save_shares :: "share_link list \<Rightarrow> share_file" where
  "save_shares ls = Shares ls"

definition new_share_store :: "share_file \<Rightarrow> share_error + share_file" where
  "new_share_store f =
     bind_err (load_shares f) (\<lambda>ls.
       if list_ex (\<lambda>l. l_token l \<noteq> []) ls then Inr (save_shares (map (\<lambda>l. l\<lparr>l_token := []\<rparr>) ls))
       else Inr f)"

definition new_random_hex :: "bytes \<Rightarrow> string" where
  "new_random_hex buf = hex_encode buf"

definition create_share ::
    "crypto \<Rightarrow> bytes \<Rightarrow> bytes \<Rightarrow> int \<Rightarrow> string \<Rightarrow> string \<Rightarrow> int \<Rightarrow> share_file \<Rightarrow> (share_error + share_link \<times> string) \<times> share_file" where
  "create_share C id_rand token_rand now path created_by duration f =
     (case load_shares f of
        Inl e \<Rightarrow> (Inl e, f)
      | Inr links \<Rightarrow>
          (let token = new_random_hex token_rand;
               link = \<lparr>l_id = new_random_hex id_rand, l_path = path, l_by = created_by, l_created = now,
                       l_expires = now + duration, l_hash = hash_token C token, l_expired = False,
                       l_revoked = None, l_token = []\<rparr>
           in (Inr (link\<lparr>l_token := token\<rparr>, token), save_shares (links @ [link]))))"

definition lookup_share :: "crypto \<Rightarrow> int \<Rightarrow> string \<Rightarrow> share_file \<Rightarrow> share_error + share_link" where
  "lookup_share C now token f =
     (if token = [] then Inl TokenRequired
      else bind_err (load_shares f) (\<lambda>links.
        (case find (\<lambda>l. constant_time_equal (l_hash l) (hash_token C token)) links of
           None \<Rightarrow> Inl LinkNotFound
         | Some l \<Rightarrow> if \<not> is_active now l then Inl LinkExpired else Inr l)))"

definition list_shares :: "share_file \<Rightarrow> share_error + share_link list" where
  "list_shares f = bind_err (load_shares f) (\<lambda>links. Inr (rev (map (\<lambda>l. l\<lparr>l_hash := [], l_token := []\<rparr>) links)))"

definition revoke_share :: "int \<Rightarrow> string \<Rightarrow> share_file \<Rightarrow> (share_error + unit) \<times> share_file" where
  "revoke_share now i f =
     (case load_shares f of
        Inl e \<Rightarrow> (Inl e, f)
      | Inr links \<Rightarrow>
          (case lookup_by l_id i links of
             None \<Rightarrow> (Inl LinkNotFound, f)
           | Some l \<Rightarrow>
               if l_expired l then (Inl AlreadyRevoked, f)
               else (Inr (), save_shares (modify_by l_id i (\<lambda>l. l\<lparr>l_expired := True, l_revoked := Some now\<rparr>) links))))"


section \<open>The life of a link\<close>

definition links_of :: "share_file \<Rightarrow> share_link list" where
  "links_of f = (case load_shares f of Inl _ \<Rightarrow> [] | Inr ls \<Rightarrow> ls)"

datatype share_op = OpShare bytes bytes int string string int | OpRevoke int string

fun run_share_op :: "crypto \<Rightarrow> share_op \<Rightarrow> share_file \<Rightarrow> share_file" where
  "run_share_op C (OpShare r1 r2 now path by_user d) f = snd (create_share C r1 r2 now path by_user d f)"
| "run_share_op C (OpRevoke now i) f = snd (revoke_share now i f)"

definition run_share_ops :: "crypto \<Rightarrow> share_op list \<Rightarrow> share_file \<Rightarrow> share_file" where
  "run_share_ops C ops f = fold (run_share_op C) ops f"

text \<open>The identifiers and tokens are random: another link gets another of each.\<close>

definition fresh_share :: "crypto \<Rightarrow> string \<Rightarrow> string \<Rightarrow> share_op \<Rightarrow> bool" where
  "fresh_share C i h op \<longleftrightarrow>
     (case op of
        OpShare r1 r2 _ _ _ _ \<Rightarrow> new_random_hex r1 \<noteq> i \<and> hash_token C (new_random_hex r2) \<noteq> h
      | _ \<Rightarrow> True)"

definition revokes :: "string \<Rightarrow> share_op \<Rightarrow> bool" where
  "revokes i op \<longleftrightarrow> (case op of OpRevoke _ j \<Rightarrow> j = i | _ \<Rightarrow> False)"

text \<open>The link filed_link under an id and a token hash at once.\<close>

definition filed_link :: "share_file \<Rightarrow> share_link \<Rightarrow> bool" where
  "filed_link f l \<longleftrightarrow> (\<exists>ls. f = Shares ls \<and> lookup_by l_id (l_id l) ls = Some l \<and> lookup_by l_hash (l_hash l) ls = Some l)"

lemma filed_lookup:
  assumes "filed_link f l" and "l_hash l = hash_token C token" and "token \<noteq> []"
  shows "lookup_share C now token f = (if is_active now l then Inr l else Inl LinkExpired)"
  using assms by (auto simp: filed_link_def lookup_share_def load_shares_def lookup_by_def)

lemma modify_other: "lookup_by key k (modify_by l_id i f ls) = lookup_by key k ls"
  if "\<And>l. l \<in> set ls \<Longrightarrow> l_id l = i \<Longrightarrow> key (f l) = key l" "\<And>l. lookup_by key k ls = Some l \<Longrightarrow> l_id l \<noteq> i"
  using that
proof (induction ls)
  case (Cons l ls)
  then show ?case by (cases "key l = k") auto
qed simp

lemma filed_op:
  assumes "filed_link f l" and "fresh_share C (l_id l) (l_hash l) op"
  shows "\<exists>l'. filed_link (run_share_op C op f) l' \<and> l_id l' = l_id l \<and> l_hash l' = l_hash l \<and>
    (l' = l \<and> \<not> (revokes (l_id l) op \<and> \<not> l_expired l) \<or> (revokes (l_id l) op \<and> l_expired l'))"
proof (cases op)
  case (OpShare r1 r2 now path by_user d)
  then have "filed_link (run_share_op C op f) l"
    using assms by (auto simp: filed_link_def create_share_def load_shares_def save_shares_def Let_def lookup_by_append)
  then show ?thesis by (auto simp: OpShare revokes_def)
next
  case (OpRevoke now i)
  obtain ls where f: "f = Shares ls" and l: "lookup_by l_id (l_id l) ls = Some l" "lookup_by l_hash (l_hash l) ls = Some l"
    using assms(1) by (auto simp: filed_link_def)
  let ?r = "\<lambda>l. l\<lparr>l_expired := True, l_revoked := Some now\<rparr>"
  show ?thesis
  proof (cases "i = l_id l")
    case True
    show ?thesis
    proof (cases "l_expired l")
      case exp: True
      then have "run_share_op C op f = f" using l True by (simp add: OpRevoke revoke_share_def load_shares_def f)
      then show ?thesis using assms(1) exp by (auto simp: OpRevoke revokes_def)
    next
      case False
      have "run_share_op C op f = Shares (modify_by l_id i ?r ls)"
        using l True False by (simp add: OpRevoke revoke_share_def load_shares_def save_shares_def f)
      moreover have "lookup_by l_id i (modify_by l_id i ?r ls) = Some (?r l)"
        using l True by (simp add: lookup_modify_by)
      moreover have "lookup_by l_hash (l_hash l) (modify_by l_id i ?r ls) = Some (?r l)"
        using l unfolding True
      proof (induction ls)
        case (Cons x ls)
        then show ?case by (auto split: if_splits)
      qed simp
      ultimately have "filed_link (run_share_op C op f) (?r l)" using True by (simp add: filed_link_def)
      then show ?thesis using True by (intro exI[of _ "?r l"]) (simp add: OpRevoke revokes_def)
    qed
  next
    case False
    have "filed_link (Shares (modify_by l_id i ?r ls)) l"
      using l False modify_other[where ls = ls and i = i and f = ?r and key = l_hash and k = "l_hash l"]
      by (simp add: filed_link_def lookup_modify_by)
    then have "filed_link (run_share_op C op f) l"
      using assms(1) by (simp add: OpRevoke revoke_share_def load_shares_def save_shares_def f split: option.split)
    then show ?thesis using False by (auto simp: OpRevoke revokes_def)
  qed
qed

lemma run_share_ops_simps [simp]:
  "run_share_ops C [] f = f" "run_share_ops C (op # ops) f = run_share_ops C ops (run_share_op C op f)"
  by (simp_all add: run_share_ops_def)

lemma filed_ops:
  assumes "filed_link f l" and "\<forall>op \<in> set ops. fresh_share C (l_id l) (l_hash l) op"
  shows "\<exists>l'. filed_link (run_share_ops C ops f) l' \<and> l_id l' = l_id l \<and> l_hash l' = l_hash l \<and>
    (if l_expired l \<or> (\<exists>op \<in> set ops. revokes (l_id l) op) then l_expired l' else l' = l)"
  using assms
proof (induction ops arbitrary: f l)
  case (Cons op ops)
  obtain l1 where l1: "filed_link (run_share_op C op f) l1" "l_id l1 = l_id l" "l_hash l1 = l_hash l"
    "l1 = l \<and> \<not> (revokes (l_id l) op \<and> \<not> l_expired l) \<or> (revokes (l_id l) op \<and> l_expired l1)"
    using filed_op[OF Cons.prems(1), of C op] Cons.prems(2) by auto
  obtain l' where l': "filed_link (run_share_ops C ops (run_share_op C op f)) l'" "l_id l' = l_id l1" "l_hash l' = l_hash l1"
    "if l_expired l1 \<or> (\<exists>op \<in> set ops. revokes (l_id l1) op) then l_expired l' else l' = l1"
    using Cons.IH[OF l1(1)] Cons.prems(2) l1(2,3) by auto
  show ?case
  proof (intro exI[of _ l'] conjI)
    show "if l_expired l \<or> (\<exists>op \<in> set (op # ops). revokes (l_id l) op) then l_expired l' else l' = l"
    proof (cases "l_expired l1 \<or> (\<exists>op \<in> set ops. revokes (l_id l) op)")
      case True
      then have "l_expired l'" using l'(4) l1(2) by simp
      then show ?thesis using True l1(4) by auto
    next
      case False
      then have "l' = l1" "l1 = l" using l'(4) l1 by auto
      then show ?thesis using False l1(4) by auto
    qed
  qed (use l' l1 in simp_all)
qed auto

lemma share_token_nonempty:
  "create_share C r1 r2 t path by_user d f = (Inr (link, token), f') \<Longrightarrow> r2 \<noteq> [] \<Longrightarrow> token \<noteq> []"
proof -
  assume "create_share C r1 r2 t path by_user d f = (Inr (link, token), f')" "r2 \<noteq> []"
  then have "token = hex_encode r2" by (auto simp: create_share_def new_random_hex_def Let_def split: sum.splits)
  then have "length token = 2 * length r2" by simp
  with \<open>r2 \<noteq> []\<close> show ?thesis by auto
qed

lemma share_life_facts:
  assumes "create_share C r1 r2 t path by_user d f = (Inr (link, token), f')" and "r2 \<noteq> []"
    and "l_id link \<notin> l_id ` set (links_of f)" and "hash_token C token \<notin> l_hash ` set (links_of f)"
    and "\<forall>op \<in> set ops. fresh_share C (l_id link) (hash_token C token) op"
  shows "lookup_share C now token (run_share_ops C ops f') =
    (if now < t + d \<and> \<not> (\<exists>op \<in> set ops. revokes (l_id link) op) then Inr (link\<lparr>l_token := []\<rparr>) else Inl LinkExpired) \<and>
    l_path link = path \<and> l_by link = by_user"
proof -
  obtain ls where ls: "load_shares f = Inr ls" using assms(1) by (auto simp: create_share_def split: sum.splits)
  then have links: "links_of f = ls" by (simp add: links_of_def)
  let ?l = "link\<lparr>l_token := []\<rparr>"
  have new: "token = new_random_hex r2" "f' = Shares (ls @ [?l])" "l_hash link = hash_token C token" "\<not> l_expired link"
    "l_expires link = t + d" "l_path link = path" "l_by link = by_user"
    using assms(1) ls by (auto simp: create_share_def Let_def save_shares_def)
  have "lookup_by l_id (l_id link) ls = None" "lookup_by l_hash (l_hash link) ls = None"
    using assms(3,4) links new(3) by (auto simp: lookup_by_None)
  then have "filed_link f' ?l" by (simp add: filed_link_def new(2) lookup_by_append)
  from filed_ops[OF this, of ops C] assms(5) new(3) obtain l' where l': "filed_link (run_share_ops C ops f') l'" "l_hash l' = hash_token C token"
    "if \<exists>op \<in> set ops. revokes (l_id link) op then l_expired l' else l' = ?l"
    using new(4) by auto
  have "token \<noteq> []" by (rule share_token_nonempty[OF assms(1,2)])
  from filed_lookup[OF l'(1,2) this, of now] l'(3) new show ?thesis
    by (auto simp: is_active_def split: if_splits)
qed

text \<open>
  A link opens its document from its creation to its expiry or its revocation, whichever comes
  first, and never again afterwards, whatever other links are created or revoked meanwhile.
\<close>
theorem share_life:
  assumes "create_share C r1 r2 t path by_user d f = (Inr (link, token), f')" and "r2 \<noteq> []"
    and "l_id link \<notin> l_id ` set (links_of f)" and "hash_token C token \<notin> l_hash ` set (links_of f)"
    and "\<forall>op \<in> set ops. fresh_share C (l_id link) (hash_token C token) op"
  shows "lookup_share C now token (run_share_ops C ops f') =
    (if now < t + d \<and> \<not> (\<exists>op \<in> set ops. revokes (l_id link) op) then Inr (link\<lparr>l_token := []\<rparr>) else Inl LinkExpired) \<and>
    l_path link = path \<and> l_by link = by_user"
  by (rule share_life_facts[OF assms])

lemma share_life_witness:
  "lookup_share toy_crypto 8 (new_random_hex ''t'') (run_share_ops toy_crypto [OpRevoke 5 ''x'', OpRevoke 6 (new_random_hex ''i'')]
     (snd (create_share toy_crypto ''i'' ''t'' 1 ''a.md'' ''ann'' 100 NoShares))) = Inl LinkExpired"
proof -
  obtain link token f where c: "create_share toy_crypto ''i'' ''t'' 1 ''a.md'' ''ann'' 100 NoShares = (Inr (link, token), f)"
    by (simp add: create_share_def load_shares_def Let_def)
  then have l: "l_id link = new_random_hex ''i''" "token = new_random_hex ''t''"
    by (auto simp: create_share_def load_shares_def Let_def)
  have none: "links_of NoShares = []" by (simp add: links_of_def load_shares_def)
  let ?ops = "[OpRevoke 5 ''x'', OpRevoke 6 (new_random_hex ''i'')]"
  have "\<forall>op \<in> set ?ops. fresh_share toy_crypto (l_id link) (hash_token toy_crypto token) op" by (simp add: fresh_share_def)
  from share_life[OF c _ _ _ this, of 8] show ?thesis
    by (simp add: none c l revokes_def)
qed

end
