(* ===== verification/Vault_Files.thy ===== *)
theory Vault_Files
  imports Go_Text "HOL-Library.AList"
begin

text \<open>
  The files of a vault as \<open>os.Root\<close> shows them, shared by the server and the history: reading,
  the atomic replacement of a file with the directories above it, and removal.  Paths are cleaned
  and relative; links are not followed (\<open>Special\<close> is whatever is neither a file nor a directory).
\<close>

section \<open>Files by path\<close>

datatype vault_file = Regular bytes | Directory | Special

fun split_slash :: "string \<Rightarrow> string list" where
  "split_slash [] = [[]]"
| "split_slash (c # s) =
     (if c = CHR ''/'' then [] # split_slash s
      else (case split_slash s of [] \<Rightarrow> [[c]] | e # es \<Rightarrow> (c # e) # es))"

text \<open>The directories above a path, as \<open>MkdirAll\<close> makes them, and an atomic write.\<close>

definition join_slash :: "string list \<Rightarrow> string" where
  "join_slash es = concat (map (\<lambda>e. e @ ''/'') (butlast es)) @ last es"

definition parent_dirs :: "string \<Rightarrow> string list" where
  "parent_dirs p = (let es = split_slash p in map (\<lambda>n. join_slash (take n es)) [1..<length es])"

definition write_vault :: "string \<Rightarrow> bytes \<Rightarrow> (string \<rightharpoonup> vault_file) \<Rightarrow> (string \<rightharpoonup> vault_file) option" where
  "write_vault rel content v =
     (if list_ex (\<lambda>d. v d \<noteq> None \<and> v d \<noteq> Some Directory) (parent_dirs rel) \<or> v rel = Some Directory then None
      else Some ((fold (\<lambda>d v. v(d \<mapsto> Directory)) (parent_dirs rel) v)(rel \<mapsto> Regular content)))"

lemma write_vault_at: "write_vault rel c v = Some v' \<Longrightarrow> v' rel = Some (Regular c)"
  by (auto simp: write_vault_def split: if_splits)


section \<open>A vault as a list of files\<close>

type_synonym vault_files = "(string \<times> vault_file) list"

datatype file_error = NotExist | OtherError

text \<open>Something in the way of a path: a parent that is no directory.\<close>

definition blocked_path :: "string \<Rightarrow> vault_files \<Rightarrow> bool" where
  "blocked_path rel v \<longleftrightarrow> list_ex (\<lambda>d. map_of v d \<noteq> None \<and> map_of v d \<noteq> Some Directory) (parent_dirs rel)"

definition read_file :: "string \<Rightarrow> vault_files \<Rightarrow> file_error + bytes" where
  "read_file rel v =
     (case map_of v rel of
        Some (Regular c) \<Rightarrow> Inr c
      | Some _ \<Rightarrow> Inl OtherError
      | None \<Rightarrow> Inl (if blocked_path rel v then OtherError else NotExist))"

definition make_dirs :: "string list \<Rightarrow> vault_files \<Rightarrow> vault_files" where
  "make_dirs ds v = fold (\<lambda>d. AList.update d Directory) ds v"

definition write_file :: "string \<Rightarrow> bytes \<Rightarrow> vault_files \<Rightarrow> vault_files option" where
  "write_file rel c v =
     (if blocked_path rel v \<or> map_of v rel = Some Directory then None
      else Some (AList.update rel (Regular c) (make_dirs (parent_dirs rel) v)))"

definition remove_path :: "string \<Rightarrow> vault_files \<Rightarrow> file_error + vault_files" where
  "remove_path rel v =
     (case map_of v rel of
        None \<Rightarrow> Inl (if blocked_path rel v then OtherError else NotExist)
      | Some Directory \<Rightarrow>
          if list_ex (\<lambda>(p, _). has_prefix p (rel @ ''/'')) v then Inl OtherError
          else Inr (AList.delete rel v)
      | Some _ \<Rightarrow> Inr (AList.delete rel v))"

lemma map_of_make_dirs: "map_of (make_dirs ds v) = fold (\<lambda>d m. m(d \<mapsto> Directory)) ds (map_of v)"
  unfolding make_dirs_def by (induction ds arbitrary: v) (simp_all add: update_conv')

text \<open>The two views of a vault agree on writing.\<close>

lemma write_file_map: "map_option map_of (write_file rel c v) = write_vault rel c (map_of v)"
  by (simp add: write_file_def write_vault_def blocked_path_def update_conv' map_of_make_dirs)

lemma make_dirs_in: "d \<in> set ds \<Longrightarrow> map_of (make_dirs ds v) d = Some Directory"
  unfolding make_dirs_def
proof (induction ds arbitrary: v rule: rev_induct)
  case (snoc x ds)
  then show ?case by (auto simp: update_conv')
qed simp

lemma make_dirs_out: "d \<notin> set ds \<Longrightarrow> map_of (make_dirs ds v) d = map_of v d"
  unfolding make_dirs_def by (induction ds arbitrary: v) (simp_all add: update_conv')

lemma write_file_at: "write_file rel c v = Some v' \<Longrightarrow> map_of v' rel = Some (Regular c)"
  by (auto simp: write_file_def update_conv' split: if_splits)

lemma write_file_elsewhere:
  "write_file rel c v = Some v' \<Longrightarrow> p \<noteq> rel \<Longrightarrow> p \<notin> set (parent_dirs rel) \<Longrightarrow> map_of v' p = map_of v p"
  by (auto simp: write_file_def update_conv' make_dirs_out split: if_splits)

lemma write_file_parent:
  "write_file rel c v = Some v' \<Longrightarrow> p \<noteq> rel \<Longrightarrow> p \<in> set (parent_dirs rel) \<Longrightarrow> map_of v' p = Some Directory"
  by (auto simp: write_file_def update_conv' make_dirs_in split: if_splits)

lemma write_file_regular:
  assumes "write_file rel c v = Some v'" and "map_of v p = Some (Regular d)" and "p \<noteq> rel"
  shows "map_of v' p = Some (Regular d)"
proof -
  have "p \<notin> set (parent_dirs rel)"
    using assms(1,2) by (auto simp: write_file_def blocked_path_def list_ex_iff split: if_splits)
  then show ?thesis using write_file_elsewhere[OF assms(1,3)] assms(2) by simp
qed

lemma read_file_Inr: "read_file rel v = Inr c \<longleftrightarrow> map_of v rel = Some (Regular c)"
  by (auto simp: read_file_def split: option.splits vault_file.splits)

lemma remove_path_Inr: "remove_path rel v = Inr v' \<Longrightarrow> map_of v' = (map_of v)(rel := None)"
  by (auto simp: remove_path_def delete_conv' split: option.splits vault_file.splits if_splits)


section \<open>Clean relative paths\<close>

text \<open>\<open>cleanRel\<close> of the history: the clean form of a path that stays inside the vault.\<close>

definition clean_path :: "string \<Rightarrow> string option" where
  "clean_path p =
     (if has_prefix p ''/'' then None
      else let rel = clean_rel p in
        if rel = ''.'' \<or> rel = [] \<or> has_prefix rel ''../'' \<or> has_prefix rel ''/'' \<or> rel = ''..'' then None
        else Some rel)"

definition plain_elem :: "string \<Rightarrow> bool" where
  "plain_elem e \<longleftrightarrow> e \<noteq> [] \<and> e \<noteq> ''.'' \<and> e \<noteq> ''..'' \<and> CHR ''/'' \<notin> set e"

lemma split_loop_slash: "CHR ''/'' \<notin> set acc \<Longrightarrow> e \<in> set (split_loop ''/'' acc s) \<Longrightarrow> CHR ''/'' \<notin> set e"
proof (induction "''/''" acc s rule: split_loop.induct)
  case (1 acc s)
  show ?case
  proof (cases "s = []")
    case True
    then show ?thesis using 1(3,4) by (simp add: split_loop.simps)
  next
    case False
    then obtain c s' where s: "s = c # s'" by (cases s) auto
    show ?thesis
    proof (cases "c = CHR ''/''")
      case True
      then have "split_loop ''/'' acc s = acc # split_loop ''/'' [] s'"
        by (subst split_loop.simps) (simp add: s has_prefix_def)
      then show ?thesis using 1(1)[of] 1(3,4) s True by (auto simp: has_prefix_def)
    next
      case False
      then have "split_loop ''/'' acc s = split_loop ''/'' (acc @ [c]) s'"
        by (subst split_loop.simps) (simp add: s has_prefix_def)
      then show ?thesis using 1(2) 1(3,4) s False by (auto simp: has_prefix_def)
    qed
  qed
qed

lemma split_loop_app:
  "CHR ''/'' \<notin> set x \<Longrightarrow> split_loop ''/'' acc (x @ s) = split_loop ''/'' (acc @ x) s"
proof (induction x arbitrary: acc)
  case (Cons c x)
  then have "split_loop ''/'' acc ((c # x) @ s) = split_loop ''/'' (acc @ [c]) (x @ s)"
    by (subst split_loop.simps) (auto simp: has_prefix_def)
  then show ?case using Cons by simp
qed simp

lemma split_join:
  "es \<noteq> [] \<Longrightarrow> list_all (\<lambda>e. CHR ''/'' \<notin> set e) es \<Longrightarrow> split_string ''/'' (join_with ''/'' es) = es"
proof (induction "''/''" es rule: join_with.induct)
  case (2 x)
  then show ?case using split_loop_app[of x "[]" "[]"] by (simp add: split_string_def split_loop.simps)
next
  case (3 x y xs)
  have "split_loop ''/'' x (''/'' @ join_with ''/'' (y # xs)) = x # split_loop ''/'' [] (join_with ''/'' (y # xs))"
    by (subst split_loop.simps) (simp add: has_prefix_def)
  then show ?case using 3 split_loop_app[of x "[]"] by (simp add: split_string_def)
qed simp

lemma clean_elems_form:
  assumes "rev out = replicate k ''..'' @ ps" and "list_all plain_elem ps" and "list_all (\<lambda>e. CHR ''/'' \<notin> set e) es"
  shows "\<exists>k' ps'. clean_elems out es = replicate k' ''..'' @ ps' \<and> list_all plain_elem ps'"
  using assms
proof (induction es arbitrary: out k ps)
  case Nil
  then show ?case by auto
next
  case (Cons e es)
  have rest: "list_all (\<lambda>e. CHR ''/'' \<notin> set e) es" using Cons.prems(3) by simp
  consider (skip) "e = [] \<or> e = ''.''" | (up) "e = ''..''" | (plain) "plain_elem e"
    using Cons.prems(3) by (auto simp: plain_elem_def)
  then show ?case
  proof cases
    case skip
    then show ?thesis using Cons by simp
  next
    case plain
    then show ?thesis
      using Cons.IH[of "e # out" k "ps @ [e]", OF _ _ rest] Cons.prems(1,2) by (simp add: plain_elem_def)
  next
    case up
    show ?thesis
    proof (cases ps rule: rev_cases)
      case Nil
      then have out: "out = replicate k ''..''" using Cons.prems(1) by (metis append_Nil2 rev_replicate rev_rev_ident)
      show ?thesis
      proof (cases k)
        case 0
        then show ?thesis using Cons.IH[of "[''..'']" 1 "[]", OF _ _ rest] up out by simp
      next
        case (Suc j)
        then show ?thesis
          using Cons.IH[of "''..'' # out" "Suc k" "[]", OF _ _ rest] up out by (simp add: replicate_append_same)
      qed
    next
      case (snoc qs q)
      then obtain out' where out: "out = q # out'" "rev out' = replicate k ''..'' @ qs"
        using Cons.prems(1) by (cases out) auto
      moreover have "q \<noteq> ''..''" "list_all plain_elem qs"
        using Cons.prems(2) snoc by (simp_all add: plain_elem_def[of q])
      ultimately show ?thesis using Cons.IH[of out' k qs, OF _ _ rest] up by simp
    qed
  qed
qed

lemma clean_plain: "list_all plain_elem ps \<Longrightarrow> clean_elems out ps = rev out @ ps"
  by (induction ps arbitrary: out) (auto simp: plain_elem_def)

text \<open>A clean path is its elements joined; cleaning it again changes nothing.\<close>

lemma clean_path_elems:
  assumes "clean_path p = Some r"
  obtains ps where "ps \<noteq> []" "list_all plain_elem ps" "r = join_with ''/'' ps"
proof -
  let ?es = "clean_elems [] (split_string ''/'' p)"
  have r: "r = clean_rel p" "r \<noteq> ''.''" "\<not> has_prefix r ''../''" "r \<noteq> ''..''"
    using assms by (simp_all add: clean_path_def Let_def split: if_splits)
  have "list_all (\<lambda>e. CHR ''/'' \<notin> set e) (split_string ''/'' p)"
    using split_loop_slash[of "[]"] by (simp add: split_string_def list_all_iff)
  then obtain k ps where es: "?es = replicate k ''..'' @ ps" "list_all plain_elem ps"
    using clean_elems_form[of "[]" 0 "[]" "split_string ''/'' p"] by auto
  have ne: "?es \<noteq> []" "r = join_with ''/'' ?es" using r(1,2) by (auto simp: clean_rel_def Let_def split: if_splits)
  have "k = 0"
  proof (rule ccontr)
    assume "k \<noteq> 0"
    then obtain ds where "?es = ''..'' # ds" using es(1) by (cases k) auto
    then have "r = ''..'' \<or> has_prefix r ''../''" using ne(2) by (cases ds) (simp_all add: has_prefix_def)
    then show False using r by blast
  qed
  then show thesis using that[of ps] es ne by simp
qed

lemma plain_no_slash: "list_all plain_elem ps \<Longrightarrow> list_all (\<lambda>e. CHR ''/'' \<notin> set e) ps"
  by (auto simp: list_all_iff plain_elem_def)

lemma join_plain_prefix:
  assumes "ps \<noteq> []" and "list_all plain_elem ps"
  shows "\<not> has_prefix (join_with ''/'' ps) ''/''" "join_with ''/'' ps \<noteq> []"
    "join_with ''/'' ps \<noteq> ''.''" "join_with ''/'' ps \<noteq> ''..''" "\<not> has_prefix (join_with ''/'' ps) ''../''"
proof -
  obtain e es where ps: "ps = e # es" using assms(1) by (cases ps) auto
  have e: "plain_elem e" using assms(2) ps by simp
  obtain c x where c: "e = c # x" "c \<noteq> CHR ''/''" "CHR ''/'' \<notin> set x" using e by (cases e) (auto simp: plain_elem_def)
  show "\<not> has_prefix (join_with ''/'' ps) ''/''" "join_with ''/'' ps \<noteq> []"
    using c by (cases es; simp add: ps has_prefix_def)+
  show "join_with ''/'' ps \<noteq> ''.''" "join_with ''/'' ps \<noteq> ''..''"
    using e c by (cases es; auto simp: ps plain_elem_def append_eq_Cons_conv)+
  show "\<not> has_prefix (join_with ''/'' ps) ''../''"
  proof
    assume "has_prefix (join_with ''/'' ps) ''../''"
    then obtain y where y: "join_with ''/'' ps = ''../'' @ y" by (metis append_take_drop_id has_prefix_def)
    have "split_string ''/'' (join_with ''/'' ps) = ps" by (rule split_join[OF assms(1) plain_no_slash[OF assms(2)]])
    moreover have "split_string ''/'' (''../'' @ y) = ''..'' # split_loop ''/'' [] y"
      by (simp add: split_string_def split_loop.simps[of _ "[]" "CHR ''.'' # _"] split_loop.simps[of _ "[CHR ''.'']"] split_loop.simps[of _ "''..''"] has_prefix_def)
    ultimately show False using y e ps by (simp add: plain_elem_def)
  qed
qed

lemma clean_path_idem:
  assumes "clean_path p = Some r"
  shows "clean_path r = Some r"
proof -
  obtain ps where ps: "ps \<noteq> []" "list_all plain_elem ps" "r = join_with ''/'' ps" using clean_path_elems[OF assms] .
  have "split_string ''/'' r = ps" unfolding ps(3) by (rule split_join[OF ps(1) plain_no_slash[OF ps(2)]])
  then have "clean_rel r = r" using clean_plain[OF ps(2), of "[]"] ps by (simp add: clean_rel_def)
  then show ?thesis using join_plain_prefix[OF ps(1,2)] ps(3) by (simp add: clean_path_def Let_def)
qed

end
