(* ===== verification/Server.thy ===== *)
theory Server
  imports Job_Queue Throttle Share_Links Vault_Files
begin

text \<open>
  The HTTP server of the self-hosted mode: \<open>internal/selfhost/server.go\<close>, the document routes of
  \<open>upload.go\<close> and the share routes of \<open>share.go\<close>, over the permission manager, the job queue,
  the share store and the throttle.  A request is its credentials and a decoded route; a reply is
  what the handler writes.  The vault maps relative paths to what \<open>os.Root\<close> opens there.  The
  clock, the JSON length of a job, the sort, the YAML encoder and the search index are parameters
  (\<open>server_env\<close>); the Markdown parser and the index of the vault are one test that may fail.
\<close>

section \<open>State\<close>

record server =
  sv_token :: string
  sv_worker_token :: string
  sv_state :: "string \<rightharpoonup> bytes"
  sv_perm :: perm_state
  sv_throttle :: throttle
  sv_jobs :: job_dir
  sv_shares :: share_file
  sv_vault :: "string \<rightharpoonup> vault_file"

record server_env =
  se_crypto :: crypto
  se_now :: int
  se_random :: bytes
  se_random2 :: bytes
  se_size :: "job \<Rightarrow> nat"
  se_sort :: job_sorter
  se_stamp :: "int \<Rightarrow> string"
  se_yaml :: "(string \<times> string) list \<Rightarrow> string option"
  se_index :: "string \<Rightarrow> bytes \<Rightarrow> bool"

record request =
  rq_authorization :: string
  rq_remote :: string

record completion =
  co_job :: string
  co_worker :: string
  co_text :: string
  co_engine :: string
  co_model :: string

record failure =
  fa_job :: string
  fa_worker :: string
  fa_error :: string
  fa_retry :: bool

text \<open>Bodies are \<open>None\<close> when they do not decode; query parameters are \<open>None\<close> when absent.\<close>

datatype route =
    GetStatus
  | GetFile string
  | PutFile string bytes
  | GetJobs "string option" "string option"
  | RetryJob string
  | LeaseJob "(string \<times> string list) option"
  | WorkerInput string
  | CompleteJob "completion option"
  | FailJob "failure option"
  | CreateShare "(string \<times> int) option"
  | ListShares
  | RevokeShare string

datatype message = Msg string | JobMsg job_error

datatype reply =
    Error nat message
  | TooMany string string
  | File string string string bytes
  | NoContent
  | StatusBody
  | JobBody job
  | JobList "job list"
  | JobPage "job list" nat int int
  | ShareCreated share_link string string
  | ShareList "share_link list"
  | Done string
  | Aborted

definition max_note_bytes :: nat where
  "max_note_bytes = 8388608"


section \<open>Paths\<close>

text \<open>\<open>fs.ValidPath\<close>.\<close>

definition valid_path :: "string \<Rightarrow> bool" where
  "valid_path p \<longleftrightarrow> valid_utf8 p \<and>
     (p = ''.'' \<or> list_all (\<lambda>e. e \<noteq> [] \<and> e \<noteq> ''.'' \<and> e \<noteq> ''..'') (split_slash p))"

text \<open>On Unix \<open>filepath.Localize\<close> is the identity on valid paths without NUL, all of them local.\<close>

definition path_required :: string where
  "path_required = ''a vault-relative path is required''"

definition resolve_request_path :: "string \<Rightarrow> string + string" where
  "resolve_request_path rel =
     (if rel = [] \<or> list_ex (\<lambda>c. c = CHR 0x5C \<or> c = CHR 0x00) rel \<or> \<not> valid_path rel
      then Inl path_required
      else if rel = ''.symdesk'' \<or> has_prefix rel ''.symdesk/''
      then Inl ''internal server files are not available through the document API''
      else Inr rel)"

definition is_dataset_backed_path :: "string \<Rightarrow> bool" where
  "is_dataset_backed_path rel \<longleftrightarrow>
     (let normalized = trim_space rel in normalized = ''datasets'' \<or> has_prefix normalized ''datasets/'')"

text \<open>\<open>filepath.Base\<close> and \<open>filepath.Ext\<close>.\<close>

definition base_name :: "string \<Rightarrow> string" where
  "base_name p =
     (if p = [] then ''.''
      else (let q = rev (dropWhile (\<lambda>c. c = CHR ''/'') (rev p))
            in if q = [] then ''/'' else last (split_slash q)))"

definition file_ext :: "string \<Rightarrow> string" where
  "file_ext p =
     (let e = last (split_slash p)
      in if CHR ''.'' \<in> set e then CHR ''.'' # rev (takeWhile (\<lambda>c. c \<noteq> CHR ''.'') (rev e)) else [])"

definition safe_filename :: "string \<Rightarrow> string" where
  "safe_filename name =
     (let n = trim_space (base_name (map (\<lambda>c. if c = CHR 0x5C then CHR ''/'' else c) name))
      in if n = ''.'' \<or> n = [] then ''document.bin'' else n)"

section \<open>Credentials\<close>

definition legacy_token_role :: "server \<Rightarrow> string \<Rightarrow> string" where
  "legacy_token_role sv provided =
     (if constant_time_equal provided (sv_token sv) then ''admin''
      else if sv_worker_token sv \<noteq> [] \<and> constant_time_equal provided (sv_worker_token sv) then ''worker''
      else [])"

text \<open>\<open>net.SplitHostPort\<close>: the host, when the address has one and a port.\<close>

definition split_host_port :: "string \<Rightarrow> string option" where
  "split_host_port hp =
     (if CHR '':'' \<notin> set hp then None
      else (let i = length hp - 1 - length (takeWhile (\<lambda>c. c \<noteq> CHR '':'') (rev hp));
                close = length (takeWhile (\<lambda>c. c \<noteq> CHR '']'') hp)
            in if hp ! 0 = CHR ''[''
               then (if close = length hp \<or> close + 1 \<noteq> i then None
                     else if CHR ''['' \<in> set (drop 1 hp) \<or> CHR '']'' \<in> set (drop (close + 1) hp) then None
                     else Some (drop 1 (take close hp)))
               else (if CHR '':'' \<in> set (take i hp) \<or> CHR ''['' \<in> set hp \<or> CHR '']'' \<in> set hp then None
                     else Some (take i hp))))"

definition client_ip :: "request \<Rightarrow> string" where
  "client_ip rq = (case split_host_port (rq_remote rq) of None \<Rightarrow> rq_remote rq | Some host \<Rightarrow> host)"

definition auth :: "server_env \<Rightarrow> request \<Rightarrow> server \<Rightarrow> (reply + user) \<times> server" where
  "auth E rq sv =
     (let provided = trim_space (trim_prefix (rq_authorization rq) ''Bearer '')
      in case authenticate (se_crypto E) (sv_perm sv) provided of
           Inr u \<Rightarrow> (Inr u, sv)
         | Inl _ \<Rightarrow>
             (let role = legacy_token_role sv provided
              in if role = []
                 then (let ((allowed, retry), th) = record_auth_failure (client_ip rq) (se_now E) (sv_throttle sv);
                           sv' = sv\<lparr>sv_throttle := th\<rparr>
                       in if \<not> allowed then (Inl (TooMany (retry_after_seconds retry) ''too many authentication attempts''), sv')
                          else (Inl (Error 401 (Msg ''authentication required'')), sv'))
                 else if role = ''admin''
                 then (Inr \<lparr>u_name = ''admin'', u_hash = [], u_roles = [''admin'', ''user'']\<rparr>, sv)
                 else (Inr \<lparr>u_name = ''worker'', u_hash = [], u_roles = [''worker'']\<rparr>, sv)))"

text \<open>\<open>requireAdmin\<close>: the answer when the caller is not one.\<close>

definition require_admin :: "user option \<Rightarrow> reply option" where
  "require_admin user =
     (case user of
        None \<Rightarrow> Some (Error 403 (Msg ''admin role required''))
      | Some u \<Rightarrow> if \<not> has_role u ''admin'' then Some (Error 403 (Msg ''admin role required'')) else None)"


section \<open>Documents\<close>

definition serve_vault_file :: "string \<Rightarrow> string \<Rightarrow> string \<Rightarrow> server \<Rightarrow> reply" where
  "serve_vault_file rel disposition filename sv =
     (case sv_vault sv rel of
        Some (Regular content) \<Rightarrow> File rel disposition (safe_filename filename) content
      | _ \<Rightarrow> Error 404 (Msg ''file not found''))"

definition handle_get_file :: "string \<Rightarrow> user option \<Rightarrow> server \<Rightarrow> reply \<times> server" where
  "handle_get_file path user sv =
     (case resolve_request_path path of
        Inl msg \<Rightarrow> (Error 400 (Msg msg), sv)
      | Inr rel \<Rightarrow>
          (let (ok, p) = can_read (sv_perm sv) user rel; sv' = sv\<lparr>sv_perm := p\<rparr>
           in if \<not> ok then (Error 403 (Msg ''access denied''), sv')
              else (serve_vault_file rel ''inline'' (base_name rel) sv', sv')))"

definition handle_put_file :: "server_env \<Rightarrow> string \<Rightarrow> bytes \<Rightarrow> user option \<Rightarrow> server \<Rightarrow> reply \<times> server" where
  "handle_put_file E path body user sv =
     (case resolve_request_path path of
        Inl _ \<Rightarrow> (Error 400 (Msg ''only vault-relative Markdown files can be updated''), sv)
      | Inr rel \<Rightarrow>
          if to_lower (file_ext rel) \<noteq> ''.md''
          then (Error 400 (Msg ''only vault-relative Markdown files can be updated''), sv)
          else
            (let (ok, p) = can_write (sv_perm sv) user rel; sv' = sv\<lparr>sv_perm := p\<rparr>
             in if \<not> ok then (Error 403 (Msg ''access denied''), sv')
                else if length body > max_note_bytes then (Error 413 (Msg ''request body exceeds limit''), sv')
                else (case write_vault rel body (sv_vault sv') of
                  None \<Rightarrow> (Error 500 (Msg ''write failed''), sv')
                | Some v \<Rightarrow>
                    (let sv'' = sv'\<lparr>sv_vault := v\<rparr>
                     in if \<not> se_index E rel body then (Error 500 (Msg ''index failed''), sv'')
                        else (Done ''updated'', sv'')))))"


section \<open>Jobs\<close>

text \<open>\<open>strconv.Atoi\<close>: an optional sign and decimal digits, in the range of a 64-bit integer.\<close>

definition atoi :: "string \<Rightarrow> 64 word option" where
  "atoi s =
     (let neg = (s \<noteq> [] \<and> hd s = CHR ''-'');
          ds = (if s \<noteq> [] \<and> (hd s = CHR ''-'' \<or> hd s = CHR ''+'') then tl s else s);
          n = (if neg then - int (nat_of_dec ds) else int (nat_of_dec ds))
      in if ds = [] \<or> \<not> list_all is_digit ds \<or> n < - (2 ^ 63) \<or> n \<ge> 2 ^ 63 then None else Some (word_of_int n))"

definition parse_job_page :: "string option \<Rightarrow> string option \<Rightarrow> string + 64 word \<times> 64 word" where
  "parse_job_page limit offset =
     bind_err (case limit of
         None \<Rightarrow> Inr 100
       | Some raw \<Rightarrow> if raw = [] then Inr 100
           else (case atoi raw of
                   None \<Rightarrow> Inl ''limit must be a positive integer''
                 | Some n \<Rightarrow> if sint n \<le> 0 then Inl ''limit must be a positive integer'' else Inr n)) (\<lambda>l.
     bind_err (case offset of
         None \<Rightarrow> Inr 0
       | Some raw \<Rightarrow> if raw = [] then Inr 0
           else (case atoi raw of
                   None \<Rightarrow> Inl ''offset must be a non-negative integer''
                 | Some n \<Rightarrow> if sint n < 0 then Inl ''offset must be a non-negative integer'' else Inr n)) (\<lambda>off.
     Inr (l, off)))"

definition handle_jobs :: "server_env \<Rightarrow> string option \<Rightarrow> string option \<Rightarrow> user option \<Rightarrow> server \<Rightarrow> reply \<times> server" where
  "handle_jobs E limit offset user sv =
     (case require_admin user of
        Some r \<Rightarrow> (r, sv)
      | None \<Rightarrow>
          (case parse_job_page limit offset of
             Inl msg \<Rightarrow> (Error 400 (Msg msg), sv)
           | Inr (l, off) \<Rightarrow>
               (case list_page (se_size E) (se_sort E) l off (sv_jobs sv) of
                  Inl e \<Rightarrow> (Error 500 (JobMsg e), sv)
                | Inr SlicePanic \<Rightarrow> (Aborted, sv)
                | Inr (Page jobs n) \<Rightarrow>
                    if limit = None \<and> offset = None then (JobList jobs, sv)
                    else (JobPage jobs n (sint l) (sint off), sv))))"

definition handle_retry_job :: "server_env \<Rightarrow> string \<Rightarrow> user option \<Rightarrow> server \<Rightarrow> reply \<times> server" where
  "handle_retry_job E i user sv =
     (case require_admin user of
        Some r \<Rightarrow> (r, sv)
      | None \<Rightarrow>
          (case retry_job (se_size E) (se_now E) i (sv_jobs sv) of
             (Inl e, dir) \<Rightarrow> (Error 409 (JobMsg e), sv\<lparr>sv_jobs := dir\<rparr>)
           | (Inr j, dir) \<Rightarrow> (JobBody j, sv\<lparr>sv_jobs := dir\<rparr>)))"

definition lease_minutes :: int where
  "lease_minutes = seconds (15 * 60)"

definition handle_lease :: "server_env \<Rightarrow> (string \<times> string list) option \<Rightarrow> server \<Rightarrow> reply \<times> server" where
  "handle_lease E body sv =
     (case body of
        None \<Rightarrow> (Error 400 (Msg ''worker_id and capabilities are required''), sv)
      | Some (worker, capabilities) \<Rightarrow>
          if trim_space worker = [] then (Error 400 (Msg ''worker_id and capabilities are required''), sv)
          else (case lease_job (se_size E) (se_sort E) (se_now E) worker capabilities lease_minutes (sv_jobs sv) of
            (Inl NoPendingJob, dir) \<Rightarrow> (NoContent, sv\<lparr>sv_jobs := dir\<rparr>)
          | (Inl e, dir) \<Rightarrow> (Error 500 (JobMsg e), sv\<lparr>sv_jobs := dir\<rparr>)
          | (Inr j, dir) \<Rightarrow> (JobBody j, sv\<lparr>sv_jobs := dir\<rparr>)))"

definition handle_worker_input :: "server_env \<Rightarrow> string \<Rightarrow> server \<Rightarrow> reply \<times> server" where
  "handle_worker_input E i sv =
     (case get_job (se_size E) i (sv_jobs sv) of
        Inl _ \<Rightarrow> (Error 404 (Msg ''job not found''), sv)
      | Inr j \<Rightarrow>
          (case resolve_request_path (j_source j) of
             Inl msg \<Rightarrow> (Error 400 (Msg msg), sv)
           | Inr rel \<Rightarrow> (serve_vault_file rel ''attachment'' (j_name j) sv, sv)))"

text \<open>
  The name of a completed note.  The original name has come out of a JSON file and is valid UTF-8,
  so that replacing the separators and control characters byte by byte is \<open>strings.Map\<close>.
\<close>

definition note_base :: "string \<Rightarrow> string" where
  "note_base name =
     (let base = take (length name - length (file_ext name)) name;
          clean = map (\<lambda>c. if c = CHR ''/'' \<or> c = CHR 0x5C \<or> of_char c < (32::nat) then CHR ''-'' else c) base;
          edge = (\<lambda>c. c = CHR '' '' \<or> c = CHR ''.'');
          trimmed = rev (dropWhile edge (rev (dropWhile edge clean)))
      in if trimmed = [] then ''Document'' else trimmed)"

definition note_path :: "job \<Rightarrow> string" where
  "note_path j = ''inbox/'' @ note_base (j_name j) @ ''-'' @ take 8 (j_id j) @ ''.md''"

definition note_meta :: "server_env \<Rightarrow> job \<Rightarrow> completion \<Rightarrow> (string \<times> string) list" where
  "note_meta E j result =
     [(''title'', note_base (j_name j)), (''created'', se_stamp E (se_now E)), (''status'', ''needs_review''),
      (''confidence'', ''0''), (''archive_path'', j_source j), (''ocr_engine'', co_engine result),
      (''ocr_model'', co_model result)]"

definition note_body :: "string \<Rightarrow> job \<Rightarrow> completion \<Rightarrow> bytes" where
  "note_body frontmatter j result =
     ''---'' @ [LF] @ frontmatter @ ''---'' @ [LF, LF] @ ''![['' @ j_source j @ '']]'' @ [LF, LF] @ ''## OCR text'' @ [LF, LF] @
     trim_space (co_text result) @ [LF]"

definition write_completed_note :: "server_env \<Rightarrow> job \<Rightarrow> completion \<Rightarrow> server \<Rightarrow> (string + string) \<times> server" where
  "write_completed_note E j result sv =
     (case resolve_request_path (note_path j) of
        Inl msg \<Rightarrow> (Inl msg, sv)
      | Inr rel \<Rightarrow>
          (case se_yaml E (note_meta E j result) of
             None \<Rightarrow> (Inl ''yaml failed'', sv)
           | Some frontmatter \<Rightarrow>
               (let content = note_body frontmatter j result
                in case write_vault rel content (sv_vault sv) of
                     None \<Rightarrow> (Inl ''write failed'', sv)
                   | Some v \<Rightarrow>
                       (let sv' = sv\<lparr>sv_vault := v\<rparr>
                        in if \<not> se_index E rel content then (Inl ''index failed'', sv') else (Inr rel, sv')))))"

definition handle_complete :: "server_env \<Rightarrow> completion option \<Rightarrow> server \<Rightarrow> reply \<times> server" where
  "handle_complete E body sv =
     (case body of
        None \<Rightarrow> (Error 400 (Msg ''invalid JSON''), sv)
      | Some request \<Rightarrow>
          (case get_job (se_size E) (co_job request) (sv_jobs sv) of
             Inl _ \<Rightarrow> (Error 404 (Msg ''job not found''), sv)
           | Inr j \<Rightarrow>
               if j_status j \<noteq> ''processing'' \<or> j_worker j \<noteq> co_worker request
               then (Error 409 (Msg ''job is not leased by this worker''), sv)
               else (case write_completed_note E j request sv of
                 (Inl msg, sv') \<Rightarrow> (Error 500 (Msg msg), sv')
               | (Inr path, sv') \<Rightarrow>
                   (case complete_job (se_size E) (se_now E) (j_id j) (co_worker request) (co_engine request)
                           (co_model request) path (sv_jobs sv') of
                      (Inl e, dir) \<Rightarrow> (Error 409 (JobMsg e), sv'\<lparr>sv_jobs := dir\<rparr>)
                    | (Inr j', dir) \<Rightarrow> (JobBody j', sv'\<lparr>sv_jobs := dir\<rparr>)))))"

definition handle_fail :: "server_env \<Rightarrow> failure option \<Rightarrow> server \<Rightarrow> reply \<times> server" where
  "handle_fail E body sv =
     (case body of
        None \<Rightarrow> (Error 400 (Msg ''invalid JSON''), sv)
      | Some request \<Rightarrow>
          (case fail_job (se_size E) (se_now E) (fa_job request) (fa_worker request) (fa_error request) (fa_retry request) (sv_jobs sv) of
             (Inl e, dir) \<Rightarrow> (Error 409 (JobMsg e), sv\<lparr>sv_jobs := dir\<rparr>)
           | (Inr j, dir) \<Rightarrow> (JobBody j, sv\<lparr>sv_jobs := dir\<rparr>)))"


section \<open>Share links\<close>

definition handle_create_share :: "server_env \<Rightarrow> (string \<times> int) option \<Rightarrow> user option \<Rightarrow> server \<Rightarrow> reply \<times> server" where
  "handle_create_share E body user sv =
     (case user of
        None \<Rightarrow> (Error 403 (Msg ''access denied''), sv)
      | Some u \<Rightarrow>
          if \<not> has_role u ''user'' \<and> \<not> has_role u ''admin'' then (Error 403 (Msg ''access denied''), sv)
          else (case body of
            None \<Rightarrow> (Error 400 (Msg ''invalid request body''), sv)
          | Some (path, expiry) \<Rightarrow>
              if path = [] then (Error 400 (Msg ''path is required''), sv)
              else (case resolve_request_path path of
                Inl msg \<Rightarrow> (Error 400 (Msg msg), sv)
              | Inr rel \<Rightarrow>
                  if is_dataset_backed_path rel then (Error 403 (Msg ''dataset-backed content cannot be shared''), sv)
                  else if expiry \<le> 0 \<or> expiry > 168 then (Error 400 (Msg ''expiry must be between 1 and 168 hours''), sv)
                  else
                    (let (ok, p) = can_read (sv_perm sv) user rel; sv' = sv\<lparr>sv_perm := p\<rparr>
                     in if \<not> ok then (Error 403 (Msg ''access denied''), sv')
                        else (case sv_vault sv' rel of
                          Some (Regular _) \<Rightarrow>
                            (case create_share (se_crypto E) (se_random E) (se_random2 E) (se_now E) rel (u_name u)
                                    (expiry * seconds 3600) (sv_shares sv') of
                               (Inl _, f) \<Rightarrow> (Error 500 (Msg ''failed to create share link''), sv'\<lparr>sv_shares := f\<rparr>)
                             | (Inr (link, token), f) \<Rightarrow> (ShareCreated link token (''/s/'' @ token), sv'\<lparr>sv_shares := f\<rparr>))
                        | _ \<Rightarrow> (Error 404 (Msg ''document not found''), sv'))))))"

definition handle_list_shares :: "user option \<Rightarrow> server \<Rightarrow> reply \<times> server" where
  "handle_list_shares user sv =
     (case list_shares (sv_shares sv) of
        Inl _ \<Rightarrow> (Error 500 (Msg ''failed to list shares''), sv)
      | Inr links \<Rightarrow>
          (case user of
             None \<Rightarrow> (Error 403 (Msg ''access denied''), sv)
           | Some u \<Rightarrow>
               (ShareList (if has_role u ''admin'' then links else filter (\<lambda>l. l_by l = u_name u) links), sv)))"

definition handle_revoke_share :: "server_env \<Rightarrow> string \<Rightarrow> user option \<Rightarrow> server \<Rightarrow> reply \<times> server" where
  "handle_revoke_share E i user sv =
     (if i = [] then (Error 400 (Msg ''id is required''), sv)
      else (case user of
        None \<Rightarrow> (Error 403 (Msg ''access denied''), sv)
      | Some u \<Rightarrow>
          (let refused =
             (if has_role u ''admin'' then None
              else (case list_shares (sv_shares sv) of
                Inl _ \<Rightarrow> Some (Error 500 (Msg ''failed to revoke share''))
              | Inr links \<Rightarrow>
                  (case lookup_by l_id i links of
                     None \<Rightarrow> Some (Error 404 (Msg ''share link not found or already revoked''))
                   | Some l \<Rightarrow>
                       if l_by l = u_name u then None
                       else Some (Error 404 (Msg ''share link not found or already revoked'')))))
           in case refused of
                Some r \<Rightarrow> (r, sv)
              | None \<Rightarrow>
                  (case revoke_share (se_now E) i (sv_shares sv) of
                     (Inl _, f) \<Rightarrow> (Error 404 (Msg ''share link not found or already revoked''), sv\<lparr>sv_shares := f\<rparr>)
                   | (Inr _, f) \<Rightarrow> (Done ''revoked'', sv\<lparr>sv_shares := f\<rparr>)))))"

definition handle_access_share :: "server_env \<Rightarrow> request \<Rightarrow> string \<Rightarrow> server \<Rightarrow> reply \<times> server" where
  "handle_access_share E rq token sv =
     (if token = [] then (Error 404 (Msg ''not found''), sv)
      else (case lookup_share (se_crypto E) (se_now E) token (sv_shares sv) of
        Inl _ \<Rightarrow>
          (let ((allowed, retry), th) = record_share_failure (client_ip rq) (se_now E) (sv_throttle sv);
               sv' = sv\<lparr>sv_throttle := th\<rparr>
           in if \<not> allowed then (TooMany (retry_after_seconds retry) ''too many share access attempts'', sv')
              else (Error 404 (Msg ''not found''), sv'))
      | Inr link \<Rightarrow>
          if is_dataset_backed_path (l_path link) then (Error 404 (Msg ''not found''), sv)
          else (serve_vault_file (l_path link) ''inline'' (base_name (l_path link)) sv, sv)))"


section \<open>The routes\<close>

definition dispatch :: "server_env \<Rightarrow> user option \<Rightarrow> route \<Rightarrow> server \<Rightarrow> reply \<times> server" where
  "dispatch E user rt sv =
     (case rt of
        GetStatus \<Rightarrow> (StatusBody, sv)
      | GetFile path \<Rightarrow> handle_get_file path user sv
      | PutFile path body \<Rightarrow> handle_put_file E path body user sv
      | GetJobs limit offset \<Rightarrow> handle_jobs E limit offset user sv
      | RetryJob i \<Rightarrow> handle_retry_job E i user sv
      | LeaseJob body \<Rightarrow> handle_lease E body sv
      | WorkerInput i \<Rightarrow> handle_worker_input E i sv
      | CompleteJob body \<Rightarrow> handle_complete E body sv
      | FailJob body \<Rightarrow> handle_fail E body sv
      | CreateShare body \<Rightarrow> handle_create_share E body user sv
      | ListShares \<Rightarrow> handle_list_shares user sv
      | RevokeShare i \<Rightarrow> handle_revoke_share E i user sv)"

definition serve_route :: "server_env \<Rightarrow> request \<Rightarrow> route \<Rightarrow> server \<Rightarrow> reply \<times> server" where
  "serve_route E rq rt sv =
     (case auth E rq sv of
        (Inl r, sv') \<Rightarrow> (r, sv')
      | (Inr u, sv') \<Rightarrow> dispatch E (Some u) rt sv')"


section \<open>Starting the server\<close>

definition state_key_prefix :: string where
  "state_key_prefix = ''state:''"

definition state_set :: "string \<Rightarrow> bytes \<Rightarrow> (string \<rightharpoonup> bytes) \<Rightarrow> (string \<rightharpoonup> bytes)" where
  "state_set key value st = st(state_key_prefix @ key \<mapsto> value)"

definition state_has :: "string \<Rightarrow> (string \<rightharpoonup> bytes) \<Rightarrow> bool" where
  "state_has key st \<longleftrightarrow> st (state_key_prefix @ key) \<noteq> None"

definition state_set_if_absent :: "string \<Rightarrow> bytes \<Rightarrow> (string \<rightharpoonup> bytes) \<Rightarrow> bool \<times> (string \<rightharpoonup> bytes)" where
  "state_set_if_absent key value st = (if state_has key st then (False, st) else (True, state_set key value st))"

definition legacy_admin_migrated :: string where
  "legacy_admin_migrated = state_key_prefix @ ''legacy_admin_migrated''"

text \<open>The one-time migration of a single-token deployment to an administrator account.\<close>

definition migrate_legacy_admin :: "server_env \<Rightarrow> server \<Rightarrow> server option" where
  "migrate_legacy_admin E sv =
     (case user_list (sv_perm sv) of
        Inl _ \<Rightarrow> None
      | Inr users \<Rightarrow>
          if elems users \<noteq> [] then Some sv
          else (let (migrated, st) = state_set_if_absent legacy_admin_migrated (se_stamp E (se_now E)) (sv_state sv)
                in if \<not> migrated then Some sv
                   else (case user_add (se_crypto E) (se_random E) (se_now E) ''admin'' [''admin'', ''user''] (sv_perm sv) of
                     (Inl _, _) \<Rightarrow> None
                   | (Inr _, p) \<Rightarrow>
                       (case set_token_hash (se_now E) ''admin'' (hash_token (se_crypto E) (sv_token sv)) p of
                          (Inl _, _) \<Rightarrow> None
                        | (Inr _, p') \<Rightarrow> Some (sv\<lparr>sv_state := st, sv_perm := p'\<rparr>)))))"

definition new_server :: "server_env \<Rightarrow> server \<Rightarrow> server option" where
  "new_server E sv =
     (if length (sv_token sv) < 32 then None
      else if sv_worker_token sv \<noteq> [] \<and> (length (sv_worker_token sv) < 32 \<or> constant_time_equal (sv_worker_token sv) (sv_token sv))
      then None
      else (case migrate_legacy_admin E (sv\<lparr>sv_throttle := new_throttle,
              sv_perm := new_manager (ps_users (sv_perm sv)) (ps_groups (sv_perm sv)) (ps_rules (sv_perm sv))\<rparr>) of
        None \<Rightarrow> None
      | Some sv1 \<Rightarrow>
          (case new_share_store (sv_shares sv1) of
             Inl _ \<Rightarrow> None
           | Inr f \<Rightarrow> Some (sv1\<lparr>sv_shares := f\<rparr>))))"

end
