(* ===== verification/Server_Security.thy ===== *)
theory Server_Security
  imports Server
begin

text \<open>
  What the server of \<open>Server\<close> guarantees over any requests: who gets in, how often tokens can be
  guessed, which documents are read and written by whom, and how long a shared document is open.
  The permission, queue, throttle and share theories are used through their lemmas.
\<close>

section \<open>Who gets in\<close>

definition token_of :: "request \<Rightarrow> string" where
  "token_of rq = trim_space (trim_prefix (rq_authorization rq) ''Bearer '')"

text \<open>A request whose token is neither a user's nor one of the configured tokens.\<close>

definition stranger :: "crypto \<Rightarrow> server \<Rightarrow> request \<Rightarrow> bool" where
  "stranger C sv rq \<longleftrightarrow>
     (\<forall>u \<in> set (users_of (sv_perm sv)). u_hash u \<noteq> hash_token C (token_of rq)) \<and>
     token_of rq \<noteq> sv_token sv \<and> (sv_worker_token sv = [] \<or> token_of rq \<noteq> sv_worker_token sv)"

lemma authenticate_none:
  assumes "\<forall>u \<in> set (users_of p). u_hash u \<noteq> hash_token C tok"
  shows "\<exists>e. authenticate C p tok = Inl e"
proof (cases "authenticate C p tok")
  case (Inr u)
  then show ?thesis using authenticate_Inr assms by blast
qed simp

lemma stranger_role: "stranger C sv rq \<Longrightarrow> legacy_token_role sv (token_of rq) = []"
  by (auto simp: stranger_def legacy_token_role_def)

lemma stranger_auth:
  assumes "stranger (se_crypto E) sv rq"
  shows "auth E rq sv =
    (let ((ok, r), th) = record_auth_failure (client_ip rq) (se_now E) (sv_throttle sv)
     in (Inl (if ok then Error 401 (Msg ''authentication required'')
              else TooMany (retry_after_seconds r) ''too many authentication attempts''), sv\<lparr>sv_throttle := th\<rparr>))"
proof -
  obtain e where "authenticate (se_crypto E) (sv_perm sv) (token_of rq) = Inl e"
    using authenticate_none assms unfolding stranger_def by blast
  then show ?thesis using stranger_role[OF assms]
    by (simp add: auth_def token_of_def Let_def split: prod.split)
qed

text \<open>A run of protected requests: the environment and the request of each.\<close>

type_synonym call = "server_env \<times> request \<times> route"

fun serve_calls :: "call list \<Rightarrow> server \<Rightarrow> reply list \<times> server" where
  "serve_calls [] sv = ([], sv)"
| "serve_calls ((E, rq, rt) # cs) sv =
     (let (r, sv1) = serve_route E rq rt sv; (rs, sv2) = serve_calls cs sv1 in (r # rs, sv2))"


definition auth_event :: "call \<Rightarrow> event_call" where
  "auth_event c = (case c of (E, rq, _) \<Rightarrow> (client_ip rq, AuthBucket, se_now E))"

definition is_401 :: "reply \<Rightarrow> bool" where
  "is_401 r \<longleftrightarrow> (case r of Error n _ \<Rightarrow> n = 401 | _ \<Rightarrow> False)"

lemma stranger_call:
  assumes "stranger (se_crypto E) sv rq"
  shows "\<exists>r. serve_route E rq rt sv = (r, sv\<lparr>sv_throttle := snd (record_call (auth_event (E, rq, rt)) (sv_throttle sv))\<rparr>) \<and>
    is_401 r = fst (fst (record_call (auth_event (E, rq, rt)) (sv_throttle sv))) \<and>
    (is_401 r \<or> (\<exists>h m. r = TooMany h m))"
proof -
  obtain ok r th where h: "record_auth_failure (client_ip rq) (se_now E) (sv_throttle sv) = ((ok, r), th)" by (metis prod.collapse)
  then show ?thesis
    by (cases ok) (simp_all add: serve_route_def stranger_auth[OF assms] auth_event_def is_401_def Let_def)
qed

lemma stranger_calls:
  assumes "\<forall>(E, rq, _) \<in> set cs. stranger (se_crypto E) sv rq \<and> client_ip rq = ip"
  shows "length (filter is_401 (fst (serve_calls cs sv))) = let_through ip AuthBucket (map auth_event cs) (sv_throttle sv) \<and>
    snd (serve_calls cs sv) = sv\<lparr>sv_throttle := snd (run_calls (map auth_event cs) (sv_throttle sv))\<rparr> \<and>
    (\<forall>r \<in> set (fst (serve_calls cs sv)). is_401 r \<or> (\<exists>h m. r = TooMany h m))"
  using assms
proof (induction cs arbitrary: sv)
  case (Cons c cs)
  obtain E rq rt where c: "c = (E, rq, rt)" by (metis prod_cases3)
  have st: "stranger (se_crypto E) sv rq" "client_ip rq = ip" using Cons.prems by (auto simp: c)
  obtain r where r: "serve_route E rq rt sv = (r, sv\<lparr>sv_throttle := snd (record_call (auth_event c) (sv_throttle sv))\<rparr>)"
    "is_401 r = fst (fst (record_call (auth_event c) (sv_throttle sv)))" "is_401 r \<or> (\<exists>h m. r = TooMany h m)"
    using stranger_call[OF st(1), of rt] unfolding c by blast
  let ?sv1 = "sv\<lparr>sv_throttle := snd (record_call (auth_event c) (sv_throttle sv))\<rparr>"
  have "\<forall>(E, rq, _) \<in> set cs. stranger (se_crypto E) ?sv1 rq \<and> client_ip rq = ip"
    using Cons.prems by (auto simp: stranger_def)
  note ih = Cons.IH[OF this]
  obtain rs sv2 where rest: "serve_calls cs ?sv1 = (rs, sv2)" by fastforce
  have "fst (serve_calls (c # cs) sv) = r # rs" "snd (serve_calls (c # cs) sv) = sv2"
    using r(1) rest by (simp_all add: c)
  moreover have "auth_event c = (ip, AuthBucket, se_now E)" using st(2) by (simp add: c auth_event_def)
  ultimately show ?case using ih r(2,3) rest
    by (auto simp: run_calls_Cons simp del: run_calls.simps(2))
qed simp

text \<open>
  guessing tokens: requests from one address whose token belongs to nobody change nothing but
  the throttle, and within 10 seconds at most 8 of them are answered as failed logins; the others
  are told to come back later.
\<close>
theorem guessing_is_limited:
  assumes "\<forall>(E, rq, _) \<in> set cs. stranger (se_crypto E) sv rq \<and> client_ip rq = ip"
    and "\<forall>(E, _, _) \<in> set cs. a \<le> se_now E \<and> se_now E \<le> a + seconds 10"
    and "bounded_ips (sv_throttle sv)" and "settings (sv_throttle sv) = settings new_throttle"
    and "length (t_ips (sv_throttle sv)) + length cs \<le> 5000"
  shows "length (filter is_401 (fst (serve_calls cs sv))) \<le> 8 \<and>
    (\<forall>r \<in> set (fst (serve_calls cs sv)). is_401 r \<or> (\<exists>h m. r = TooMany h m)) \<and>
    (\<exists>th. snd (serve_calls cs sv) = sv\<lparr>sv_throttle := th\<rparr>)"
proof -
  have "let_through ip AuthBucket (map auth_event cs) (sv_throttle sv) \<le> 2 * (limit_of new_throttle AuthBucket - 1)"
    by (rule rate_limit_facts[OF assms(3,4), where a = a])
      (use assms(2,5) in \<open>auto simp: auth_event_def new_throttle_def\<close>)
  then show ?thesis using stranger_calls[OF assms(1)] by (auto simp: new_throttle_def)
qed


section \<open>Configured tokens\<close>

text \<open>
  The configured token opens the server as an administrator for good: when no account carries
  its hash - the administrator's token was replaced, the account was removed, or the accounts
  cannot be read - a request with it is still served as one of \<open>admin\<close>.
\<close>
theorem legacy_token_always_admin:
  assumes "\<forall>u \<in> set (users_of (sv_perm sv)). u_hash u \<noteq> hash_token (se_crypto E) (sv_token sv)"
    and "token_of rq = sv_token sv"
  shows "\<exists>u. auth E rq sv = (Inr u, sv) \<and> u_name u = ''admin'' \<and> has_role u ''admin''"
proof -
  obtain e where "authenticate (se_crypto E) (sv_perm sv) (sv_token sv) = Inl e"
    using authenticate_none[OF assms(1)] by blast
  then show ?thesis using assms(2)
    by (simp add: auth_def token_of_def legacy_token_role_def has_role_def Let_def)
qed

text \<open>
  The worker token is a credential for every route: where no rule restricts a document, a
  request with it reads and overwrites it.
\<close>
theorem worker_token_reads_and_writes:
  assumes "\<forall>u \<in> set (users_of (sv_perm sv)). u_hash u \<noteq> hash_token (se_crypto E) (sv_worker_token sv)"
    and "token_of rq = sv_worker_token sv" and "sv_worker_token sv \<notin> {[], sv_token sv}"
    and "perms_coherent (sv_perm sv)" and "resolve_request_path rel = Inr rel"
    and "find_rule (rules_of (sv_perm sv)) rel = None" and "sv_vault sv rel = Some (Regular content)"
  shows "(\<exists>name sv'. serve_route E rq (GetFile rel) sv = (File rel ''inline'' name content, sv')) \<and>
    (\<forall>body v. to_lower (file_ext rel) = ''.md'' \<longrightarrow> length body \<le> max_note_bytes \<longrightarrow>
      write_vault rel body (sv_vault sv) = Some v \<longrightarrow> sv_vault (snd (serve_route E rq (PutFile rel body) sv)) = v)"
proof (intro conjI allI impI)
  obtain e where "authenticate (se_crypto E) (sv_perm sv) (token_of rq) = Inl e"
    using authenticate_none assms(1,2) by metis
  moreover have "legacy_token_role sv (token_of rq) = ''worker''" using assms(2,3) by (auto simp: legacy_token_role_def)
  ultimately have a: "auth E rq sv = (Inr \<lparr>u_name = ''worker'', u_hash = [], u_roles = [''worker'']\<rparr>, sv)"
    by (simp add: auth_def token_of_def Let_def)
  let ?w = "\<lparr>u_name = ''worker'', u_hash = [], u_roles = [''worker'']\<rparr>"
  have ok: "fst (can_read (sv_perm sv) (Some ?w) rel)" "fst (can_write (sv_perm sv) (Some ?w) rel)"
    using access_facts(1,2)[OF assms(4), of ?w rel] assms(6) by (simp_all add: policy_allows_def)
  then show "\<exists>name sv'. serve_route E rq (GetFile rel) sv = (File rel ''inline'' name content, sv')"
    using assms(5,7) by (auto simp: serve_route_def a dispatch_def handle_get_file_def serve_vault_file_def Let_def split: prod.splits)
  show "sv_vault (snd (serve_route E rq (PutFile rel body) sv)) = v"
    if "to_lower (file_ext rel) = ''.md''" "length body \<le> max_note_bytes" "write_vault rel body (sv_vault sv) = Some v" for body v
    using ok assms(5) that
    by (auto simp: serve_route_def a dispatch_def handle_put_file_def Let_def split: prod.splits)
qed


section \<open>Documents\<close>

text \<open>The caller a request is served as.\<close>

definition caller :: "server_env \<Rightarrow> request \<Rightarrow> server \<Rightarrow> user option" where
  "caller E rq sv = (case fst (auth E rq sv) of Inl _ \<Rightarrow> None | Inr u \<Rightarrow> Some u)"

lemma auth_frame:
  "\<exists>th. snd (auth E rq sv) = sv\<lparr>sv_throttle := th\<rparr>"
  "fst (auth E rq sv) = Inr u \<Longrightarrow> auth E rq sv = (Inr u, sv)"
proof -
  show "\<exists>th. snd (auth E rq sv) = sv\<lparr>sv_throttle := th\<rparr>"
    by (rule exI[of _ "sv_throttle (snd (auth E rq sv))"]) (simp add: auth_def Let_def split: sum.split prod.split)
  show "auth E rq sv = (Inr u, sv)" if "fst (auth E rq sv) = Inr u"
    using that by (auto simp: auth_def Let_def split: sum.splits prod.splits if_splits)
qed

lemma auth_refuses: "fst (auth E rq sv) = Inl r \<Longrightarrow> \<exists>m h. r = Error 401 m \<or> (\<exists>t. r = TooMany h t)"
  by (auto simp: auth_def Let_def split: sum.splits prod.splits if_splits)

text \<open>The requests that never touch the vault.\<close>

lemma dispatch_vault:
  assumes "\<And>p b. rt \<noteq> PutFile p b" and "\<And>b. rt \<noteq> CompleteJob b"
  shows "sv_vault (snd (dispatch E user rt sv)) = sv_vault sv"
proof (cases rt)
  case (CreateShare b)
  then show ?thesis
    by (auto simp: dispatch_def handle_create_share_def Let_def split: option.split sum.split prod.split vault_file.split)
next
  case (LeaseJob b)
  then show ?thesis
    by (auto simp: dispatch_def handle_lease_def split: option.split sum.split prod.split job_error.split)
next
  case (GetJobs a b)
  then show ?thesis
    by (auto simp: dispatch_def handle_jobs_def split: option.split sum.split prod.split page.split)
next
  case (RevokeShare i)
  then show ?thesis
    by (auto simp: dispatch_def handle_revoke_share_def Let_def split: option.split sum.split prod.split)
qed (use assms in \<open>auto simp: dispatch_def handle_get_file_def handle_retry_job_def handle_worker_input_def handle_fail_def
      handle_list_shares_def Let_def split: option.split sum.split prod.split\<close>)

lemma get_file_File:
  assumes "handle_get_file path user sv = (File rel disp name content, sv')"
  shows "rel = path" and "resolve_request_path path = Inr rel" and "fst (can_read (sv_perm sv) user rel)"
    and "sv_vault sv rel = Some (Regular content)"
proof -
  obtain r where r: "resolve_request_path path = Inr r"
    using assms by (auto simp: handle_get_file_def split: sum.splits)
  then have "path = r" by (auto simp: resolve_request_path_def split: if_splits)
  then show "rel = path" "resolve_request_path path = Inr rel" "fst (can_read (sv_perm sv) user rel)"
    "sv_vault sv rel = Some (Regular content)"
    using assms r by (auto simp: handle_get_file_def serve_vault_file_def Let_def
        split: prod.splits if_splits option.splits vault_file.splits)
qed

lemma resolved:
  assumes "resolve_request_path path = Inr rel"
  shows "rel = path" "valid_path rel" "rel \<noteq> ''.symdesk''" "\<not> has_prefix rel ''.symdesk/''"
  using assms by (auto simp: resolve_request_path_def split: if_splits)

text \<open>
  C2: with coherent permission caches, the route \<open>GET /api/v1/files\<close> serves a document only to a caller the access policy lets read it,
  with the content it has, never from the server's own directory; and an administrator, or a user
  the policy allows, gets it.  (The routes of the workers and of share links have rules of their own.)
\<close>
theorem document_needs_permission:
  assumes "perms_coherent (sv_perm sv)" and "caller E rq sv = Some u"
  shows "(\<forall>rel disp name content sv'. serve_route E rq (GetFile path) sv = (File rel disp name content, sv') \<longrightarrow>
      rel = path \<and> policy_allows Read (rules_of (sv_perm sv)) (groups_of (sv_perm sv)) u path \<and>
      sv_vault sv path = Some (Regular content) \<and> \<not> has_prefix path ''.symdesk/'') \<and>
    (\<forall>content. policy_allows Read (rules_of (sv_perm sv)) (groups_of (sv_perm sv)) u path \<longrightarrow>
      resolve_request_path path = Inr path \<longrightarrow> sv_vault sv path = Some (Regular content) \<longrightarrow>
      (\<exists>name sv'. serve_route E rq (GetFile path) sv = (File path ''inline'' name content, sv')))"
proof -
  have a: "auth E rq sv = (Inr u, sv)"
    using assms(2) auth_frame(2) by (auto simp: caller_def split: sum.splits)
  then have s: "serve_route E rq (GetFile path) sv = handle_get_file path (Some u) sv"
    by (simp add: serve_route_def dispatch_def)
  show ?thesis
  proof (intro conjI allI impI; (elim conjE)?)
    fix rel disp name content sv'
    assume "serve_route E rq (GetFile path) sv = (File rel disp name content, sv')"
    note f = get_file_File[OF this[unfolded s]]
    show "rel = path" by (rule f(1))
    show "policy_allows Read (rules_of (sv_perm sv)) (groups_of (sv_perm sv)) u path"
      using f(1,3) access_facts(1)[OF assms(1)] by simp
    show "sv_vault sv path = Some (Regular content)" "\<not> has_prefix path ''.symdesk/''"
      using f(1,4) resolved(4)[OF f(2)] by simp_all
  next
    fix content assume p: "policy_allows Read (rules_of (sv_perm sv)) (groups_of (sv_perm sv)) u path"
      and r: "resolve_request_path path = Inr path" "sv_vault sv path = Some (Regular content)"
    have "fst (can_read (sv_perm sv) (Some u) path)" using p access_facts(1)[OF assms(1)] by simp
    then show "\<exists>name sv'. serve_route E rq (GetFile path) sv = (File path ''inline'' name content, sv')"
      using r by (auto simp: s handle_get_file_def serve_vault_file_def Let_def split: prod.splits)
  qed
qed


lemma write_note_vault:
  assumes "sv_vault (snd (write_completed_note E j result sv)) \<noteq> sv_vault sv"
  shows "\<exists>content. write_vault (note_path j) content (sv_vault sv) = Some (sv_vault (snd (write_completed_note E j result sv)))"
proof (cases "resolve_request_path (note_path j)")
  case (Inr rel)
  then have "rel = note_path j" using resolved(1) by simp
  then show ?thesis using assms Inr
    by (auto simp: write_completed_note_def Let_def split: option.splits if_splits)
qed (use assms in \<open>simp add: write_completed_note_def\<close>)

lemma write_note_jobs: "sv_jobs (snd (write_completed_note E j result sv)) = sv_jobs sv"
  by (simp add: write_completed_note_def Let_def split: sum.split option.split)

lemma complete_vault:
  assumes "sv_vault (snd (handle_complete E (Some b) sv)) \<noteq> sv_vault sv"
  shows "\<exists>j content. get_job (se_size E) (co_job b) (sv_jobs sv) = Inr j \<and> j_status j = ''processing'' \<and> j_worker j = co_worker b \<and>
    write_vault (note_path j) content (sv_vault sv) = Some (sv_vault (snd (handle_complete E (Some b) sv)))"
proof -
  obtain j where j: "get_job (se_size E) (co_job b) (sv_jobs sv) = Inr j" "j_status j = ''processing''" "j_worker j = co_worker b"
    using assms by (auto simp: handle_complete_def split: sum.splits if_splits)
  have "sv_vault (snd (handle_complete E (Some b) sv)) = sv_vault (snd (write_completed_note E j b sv))"
    using j by (auto simp: handle_complete_def split: sum.split prod.split)
  then show ?thesis using write_note_vault[of E j b sv] assms j by auto
qed

text \<open>
  C20: with coherent permission caches, of the protected routes for the status, files, jobs, workers and share links (uploads and
  commands, which write to the vault as well, are not modelled) only two change the vault, and only in
  these ways: a user whom the policy lets write a Markdown document replaces exactly that document, or
  somebody who names the worker holding a job files that job's note under \<open>inbox/\<close>.
\<close>
theorem vault_changes_are_authorized:
  assumes "perms_coherent (sv_perm sv)" and "serve_route E rq rt sv = (r, sv')" and "sv_vault sv' \<noteq> sv_vault sv"
  shows "\<exists>u. caller E rq sv = Some u \<and>
    ((\<exists>path body. rt = PutFile path body \<and> policy_allows Write (rules_of (sv_perm sv)) (groups_of (sv_perm sv)) u path \<and>
        to_lower (file_ext path) = ''.md'' \<and> \<not> has_prefix path ''.symdesk/'' \<and>
        write_vault path body (sv_vault sv) = Some (sv_vault sv')) \<or>
     (\<exists>b j content. rt = CompleteJob (Some b) \<and> get_job (se_size E) (co_job b) (sv_jobs sv) = Inr j \<and>
        j_status j = ''processing'' \<and> j_worker j = co_worker b \<and> has_prefix (note_path j) ''inbox/'' \<and>
        write_vault (note_path j) content (sv_vault sv) = Some (sv_vault sv')))"
proof (cases "fst (auth E rq sv)")
  case (Inl x)
  obtain th where "snd (auth E rq sv) = sv\<lparr>sv_throttle := th\<rparr>" using auth_frame(1) by blast
  then have "sv' = sv\<lparr>sv_throttle := th\<rparr>" using assms(2) Inl by (cases "auth E rq sv") (auto simp: serve_route_def)
  then show ?thesis using assms(3) by simp
next
  case (Inr u)
  have c: "caller E rq sv = Some u" using Inr by (simp add: caller_def)
  have d: "dispatch E (Some u) rt sv = (r, sv')" using assms(2) auth_frame(2)[OF Inr] by (simp add: serve_route_def)
  show ?thesis
  proof (cases "(\<exists>p b. rt = PutFile p b) \<or> (\<exists>b. rt = CompleteJob b)")
    case False
    then show ?thesis using dispatch_vault[of rt E "Some u" sv] d assms(3) by auto
  next
    case True
    then show ?thesis
    proof (elim disjE exE)
      fix p b assume rt: "rt = PutFile p b"
      have h: "handle_put_file E p b (Some u) sv = (r, sv')" using d by (simp add: rt dispatch_def)
      obtain rel where rel: "resolve_request_path p = Inr rel" "to_lower (file_ext rel) = ''.md''"
        using h assms(3) by (auto simp: handle_put_file_def split: sum.splits if_splits)
      have p: "rel = p" "\<not> has_prefix p ''.symdesk/''" using resolved[OF rel(1)] by simp_all
      have "fst (can_write (sv_perm sv) (Some u) p) \<and> write_vault p b (sv_vault sv) = Some (sv_vault sv')"
        using h assms(3) rel p(1) by (auto simp: handle_put_file_def Let_def split: prod.splits if_splits option.splits)
      then show ?thesis using c rt p rel access_facts(2)[OF assms(1)] by auto
    next
      fix b assume rt: "rt = CompleteJob b"
      then have h: "handle_complete E b sv = (r, sv')" using d by (simp add: dispatch_def)
      then obtain b' where b: "b = Some b'" using assms(3) by (cases b) (auto simp: handle_complete_def)
      have "has_prefix (note_path j) ''inbox/''" for j by (simp add: note_path_def del: append.simps)
      then show ?thesis using complete_vault[of E b' sv] h assms(3) c rt b by auto
    qed
  qed
qed

text \<open>
  C37: the worker routes ask for no role and no permission: any caller gets the source document of
  any job as an attachment, also one whom \<open>GET /api/v1/files\<close> refuses that document.
\<close>
theorem worker_input_ignores_rules:
  assumes "perms_coherent (sv_perm sv)" and "caller E rq sv = Some u" and "get_job (se_size E) i (sv_jobs sv) = Inr j"
    and "resolve_request_path (j_source j) = Inr rel" and "sv_vault sv rel = Some (Regular content)"
  shows "serve_route E rq (WorkerInput i) sv = (File rel ''attachment'' (safe_filename (j_name j)) content, sv) \<and>
    (\<not> policy_allows Read (rules_of (sv_perm sv)) (groups_of (sv_perm sv)) u rel \<longrightarrow>
      fst (serve_route E rq (GetFile rel) sv) = Error 403 (Msg ''access denied''))"
proof -
  have a: "auth E rq sv = (Inr u, sv)"
    using assms(2) auth_frame(2) by (auto simp: caller_def split: sum.splits)
  have "resolve_request_path rel = Inr rel" using assms(4) resolved(1)[OF assms(4)] by simp
  then show ?thesis
    using assms(3-5) access_facts(1)[OF assms(1), of u rel]
    by (auto simp: serve_route_def a dispatch_def handle_worker_input_def serve_vault_file_def handle_get_file_def Let_def
        split: prod.split)
qed



section \<open>Shared documents\<close>

lemma run_share_ops_append: "run_share_ops C (xs @ ys) f = run_share_ops C ys (run_share_ops C xs f)"
  by (simp add: run_share_ops_def)

text \<open>What a request does to the share store, as operations of the store.\<close>

definition ops_of_call :: "server_env \<Rightarrow> route \<Rightarrow> share_op list \<Rightarrow> bool" where
  "ops_of_call E rt ops \<longleftrightarrow>
     (\<forall>op \<in> set ops. (\<exists>path by_user d. op = OpShare (se_random E) (se_random2 E) (se_now E) path by_user d) \<or>
        (\<exists>i. rt = RevokeShare i \<and> op = OpRevoke (se_now E) i))"

lemma ops_of_call_Nil: "ops_of_call E rt []"
  by (simp add: ops_of_call_def)

lemma create_shares:
  "\<exists>ops. ops_of_call E rt ops \<and> sv_shares (snd (handle_create_share E b user sv)) = run_share_ops (se_crypto E) ops (sv_shares sv)"
proof (cases "sv_shares (snd (handle_create_share E b user sv)) = sv_shares sv")
  case False
  obtain u path h where u: "user = Some u" "b = Some (path, h)" using False
    by (auto simp: handle_create_share_def split: option.splits if_splits)
  obtain rel where rel: "resolve_request_path path = Inr rel"
    using False u by (auto simp: handle_create_share_def split: if_splits sum.splits)
  let ?op = "OpShare (se_random E) (se_random2 E) (se_now E) rel (u_name u) (h * seconds 3600)"
  have "sv_shares (snd (handle_create_share E b user sv)) = run_share_op (se_crypto E) ?op (sv_shares sv)"
    using False u rel
    by (auto simp: handle_create_share_def Let_def split: if_splits prod.splits option.splits vault_file.splits sum.splits)
  then show ?thesis by (intro exI[of _ "[?op]"]) (simp add: ops_of_call_def)
qed (use ops_of_call_Nil in \<open>auto intro!: exI[of _ "[]"]\<close>)

lemma revoke_shares:
  "\<exists>ops. ops_of_call E (RevokeShare i) ops \<and>
     sv_shares (snd (handle_revoke_share E i user sv)) = run_share_ops (se_crypto E) ops (sv_shares sv) \<and>
     ((\<exists>m. fst (handle_revoke_share E i user sv) = Done m) \<longrightarrow> ops = [OpRevoke (se_now E) i])"
proof (cases "\<exists>r. handle_revoke_share E i user sv = (r, sv) \<and> (\<forall>m. r \<noteq> Done m)")
  case True
  then show ?thesis using ops_of_call_Nil by (intro exI[of _ "[]"]) auto
next
  case False
  then have "sv_shares (snd (handle_revoke_share E i user sv)) = snd (revoke_share (se_now E) i (sv_shares sv))"
    by (auto simp: handle_revoke_share_def Let_def split: option.splits prod.splits sum.splits if_splits)
  then show ?thesis by (intro exI[of _ "[OpRevoke (se_now E) i]"]) (simp add: ops_of_call_def)
qed

lemma dispatch_shares_same:
  assumes "\<And>b. rt \<noteq> CreateShare b" and "\<And>i. rt \<noteq> RevokeShare i"
  shows "sv_shares (snd (dispatch E user rt sv)) = sv_shares sv"
proof (cases rt)
  case (LeaseJob b)
  then show ?thesis
    by (auto simp: dispatch_def handle_lease_def split: option.split sum.split prod.split job_error.split)
next
  case (GetJobs a b)
  then show ?thesis
    by (auto simp: dispatch_def handle_jobs_def split: option.split sum.split prod.split page.split)
next
  case (CompleteJob b)
  have "sv_shares (snd (write_completed_note E j c sv)) = sv_shares sv" for j c
    by (simp add: write_completed_note_def Let_def split: sum.split option.split)
  then have "sv_shares sv' = sv_shares sv" if "write_completed_note E j c sv = (x, sv')" for j c x sv'
    using that by (metis snd_conv)
  then show ?thesis
    by (auto simp: CompleteJob dispatch_def handle_complete_def split: option.split sum.split prod.split)
qed (use assms in \<open>auto simp: dispatch_def handle_get_file_def handle_put_file_def handle_retry_job_def handle_worker_input_def handle_fail_def
      handle_list_shares_def Let_def split: option.split sum.split prod.split\<close>)

lemma route_shares:
  "\<exists>ops. ops_of_call E rt ops \<and> sv_shares (snd (serve_route E rq rt sv)) = run_share_ops (se_crypto E) ops (sv_shares sv) \<and>
     (\<forall>i m. rt = RevokeShare i \<longrightarrow> fst (serve_route E rq rt sv) = Done m \<longrightarrow> (\<exists>op \<in> set ops. revokes i op))"
proof (cases "fst (auth E rq sv)")
  case (Inl x)
  obtain th where "snd (auth E rq sv) = sv\<lparr>sv_throttle := th\<rparr>" using auth_frame(1) by blast
  moreover have "x \<noteq> Done m" for m using auth_refuses[OF Inl] by auto
  ultimately show ?thesis using Inl ops_of_call_Nil
    by (intro exI[of _ "[]"]) (cases "auth E rq sv"; auto simp: serve_route_def)
next
  case (Inr u)
  have d: "serve_route E rq rt sv = dispatch E (Some u) rt sv" using auth_frame(2)[OF Inr] by (simp add: serve_route_def)
  show ?thesis
  proof (cases "(\<exists>b. rt = CreateShare b) \<or> (\<exists>i. rt = RevokeShare i)")
    case False
    then have "sv_shares (snd (dispatch E (Some u) rt sv)) = sv_shares sv" by (intro dispatch_shares_same) auto
    then show ?thesis using False ops_of_call_Nil d by (intro exI[of _ "[]"]) auto
  next
    case True
    then show ?thesis
    proof (elim disjE exE)
      fix b assume rt: "rt = CreateShare b"
      then show ?thesis using create_shares[of E rt b "Some u" sv] d by (simp add: dispatch_def)
    next
      fix i assume rt: "rt = RevokeShare i"
      obtain ops where ops: "ops_of_call E rt ops"
        "sv_shares (snd (handle_revoke_share E i (Some u) sv)) = run_share_ops (se_crypto E) ops (sv_shares sv)"
        "(\<exists>m. fst (handle_revoke_share E i (Some u) sv) = Done m) \<longrightarrow> ops = [OpRevoke (se_now E) i]"
        using revoke_shares[of E i "Some u" sv] rt by blast
      show ?thesis
        by (rule exI[of _ ops]) (use ops rt d in \<open>auto simp: dispatch_def revokes_def\<close>)
    qed
  qed
qed

text \<open>The same for a run of requests, none of which draws the randomness of the link.\<close>

definition fresh_calls :: "crypto \<Rightarrow> string \<Rightarrow> string \<Rightarrow> call list \<Rightarrow> bool" where
  "fresh_calls C i h cs \<longleftrightarrow>
     (\<forall>(E, _, _) \<in> set cs. se_crypto E = C \<and> new_random_hex (se_random E) \<noteq> i \<and>
        hash_token C (new_random_hex (se_random2 E)) \<noteq> h)"

definition revoked_in :: "string \<Rightarrow> call list \<Rightarrow> server \<Rightarrow> bool" where
  "revoked_in i cs sv \<longleftrightarrow>
     (\<exists>cs1 E rq cs2 m. cs = cs1 @ (E, rq, RevokeShare i) # cs2 \<and>
        fst (serve_route E rq (RevokeShare i) (snd (serve_calls cs1 sv))) = Done m)"

lemma serve_calls_Cons: "snd (serve_calls ((E, rq, rt) # cs) sv) = snd (serve_calls cs (snd (serve_route E rq rt sv)))"
  by (auto split: prod.split)

lemma revoked_in_Cons:
  "revoked_in i ((E, rq, rt) # cs) sv \<longleftrightarrow>
     rt = RevokeShare i \<and> (\<exists>m. fst (serve_route E rq rt sv) = Done m) \<or> revoked_in i cs (snd (serve_route E rq rt sv))"
proof
  assume "revoked_in i ((E, rq, rt) # cs) sv"
  then obtain cs1 E1 rq1 cs2 m where c: "(E, rq, rt) # cs = cs1 @ (E1, rq1, RevokeShare i) # cs2"
    "fst (serve_route E1 rq1 (RevokeShare i) (snd (serve_calls cs1 sv))) = Done m"
    unfolding revoked_in_def by blast
  then show "rt = RevokeShare i \<and> (\<exists>m. fst (serve_route E rq rt sv) = Done m) \<or> revoked_in i cs (snd (serve_route E rq rt sv))"
  proof (cases cs1)
    case (Cons x xs)
    then have "cs = xs @ (E1, rq1, RevokeShare i) # cs2" "x = (E, rq, rt)" using c(1) by simp_all
    moreover have "fst (serve_route E1 rq1 (RevokeShare i) (snd (serve_calls xs (snd (serve_route E rq rt sv))))) = Done m"
      using c(2) calculation by (simp add: Cons serve_calls_Cons del: serve_calls.simps(2))
    ultimately have "revoked_in i cs (snd (serve_route E rq rt sv))" unfolding revoked_in_def by blast
    then show ?thesis ..
  qed auto
next
  assume "rt = RevokeShare i \<and> (\<exists>m. fst (serve_route E rq rt sv) = Done m) \<or> revoked_in i cs (snd (serve_route E rq rt sv))"
  then show "revoked_in i ((E, rq, rt) # cs) sv"
  proof
    assume "rt = RevokeShare i \<and> (\<exists>m. fst (serve_route E rq rt sv) = Done m)"
    then show ?thesis unfolding revoked_in_def by (intro exI[of _ "[]"]) auto
  next
    assume "revoked_in i cs (snd (serve_route E rq rt sv))"
    then obtain cs1 E1 rq1 cs2 m where "cs = cs1 @ (E1, rq1, RevokeShare i) # cs2"
      "fst (serve_route E1 rq1 (RevokeShare i) (snd (serve_calls cs1 (snd (serve_route E rq rt sv))))) = Done m"
      unfolding revoked_in_def by blast
    then show ?thesis unfolding revoked_in_def
      by (intro exI[of _ "(E, rq, rt) # cs1"]) (auto simp: serve_calls_Cons simp del: serve_calls.simps(2))
  qed
qed

lemma calls_shares:
  assumes "fresh_calls C i h cs"
  shows "\<exists>ops. sv_shares (snd (serve_calls cs sv)) = run_share_ops C ops (sv_shares sv) \<and>
    (\<forall>op \<in> set ops. fresh_share C i h op) \<and>
    ((\<exists>op \<in> set ops. revokes i op) \<longrightarrow> (\<exists>(_, _, rt) \<in> set cs. rt = RevokeShare i)) \<and>
    (revoked_in i cs sv \<longrightarrow> (\<exists>op \<in> set ops. revokes i op))"
  using assms
proof (induction cs arbitrary: sv)
  case Nil
  show ?case by (rule exI[of _ "[]"]) (simp add: revoked_in_def)
next
  case (Cons c cs)
  obtain E rq rt where c: "c = (E, rq, rt)" by (metis prod_cases3)
  have E: "se_crypto E = C" "new_random_hex (se_random E) \<noteq> i" "hash_token C (new_random_hex (se_random2 E)) \<noteq> h"
    and rest: "fresh_calls C i h cs" using Cons.prems by (auto simp: fresh_calls_def c)
  let ?sv1 = "snd (serve_route E rq rt sv)"
  obtain ops1 where o1: "ops_of_call E rt ops1" "sv_shares ?sv1 = run_share_ops C ops1 (sv_shares sv)"
    "\<forall>i m. rt = RevokeShare i \<longrightarrow> fst (serve_route E rq rt sv) = Done m \<longrightarrow> (\<exists>op \<in> set ops1. revokes i op)"
    using route_shares[of E rt rq sv] E(1) by blast
  obtain ops2 where o2: "sv_shares (snd (serve_calls cs ?sv1)) = run_share_ops C ops2 (sv_shares ?sv1)"
    "\<forall>op \<in> set ops2. fresh_share C i h op"
    "(\<exists>op \<in> set ops2. revokes i op) \<longrightarrow> (\<exists>(_, _, rt) \<in> set cs. rt = RevokeShare i)"
    "revoked_in i cs ?sv1 \<longrightarrow> (\<exists>op \<in> set ops2. revokes i op)"
    using Cons.IH[OF rest] by blast
  have f1: "\<forall>op \<in> set ops1. fresh_share C i h op" using o1(1) E by (auto simp: ops_of_call_def fresh_share_def)
  have r1: "rt = RevokeShare i" if "\<exists>op \<in> set ops1. revokes i op"
    using that o1(1) by (auto simp: ops_of_call_def revokes_def)
  show ?case
  proof (intro exI[of _ "ops1 @ ops2"] conjI impI)
    show "sv_shares (snd (serve_calls (c # cs) sv)) = run_share_ops C (ops1 @ ops2) (sv_shares sv)"
      using o1(2) o2(1) by (simp add: c serve_calls_Cons run_share_ops_append del: serve_calls.simps(2))
    show "\<forall>op \<in> set (ops1 @ ops2). fresh_share C i h op" using f1 o2(2) by auto
    show "\<exists>(_, _, rt) \<in> set (c # cs). rt = RevokeShare i" if "\<exists>op \<in> set (ops1 @ ops2). revokes i op"
      using that r1 o2(3) by (auto simp: c)
    show "\<exists>op \<in> set (ops1 @ ops2). revokes i op" if "revoked_in i (c # cs) sv"
      using that o1(3) o2(4) unfolding c revoked_in_Cons by auto
  qed
qed

lemma create_share_reply:
  assumes "serve_route E rq (CreateShare b) sv = (ShareCreated link token url, sv1)"
  shows "\<exists>u path h. caller E rq sv = Some u \<and> b = Some (path, h) \<and> fst (can_read (sv_perm sv) (Some u) path) \<and>
    \<not> is_dataset_backed_path path \<and> \<not> has_prefix path ''.symdesk/'' \<and> 0 < h \<and> h \<le> 168 \<and> (\<exists>c. sv_vault sv path = Some (Regular c)) \<and>
    create_share (se_crypto E) (se_random E) (se_random2 E) (se_now E) path (u_name u) (h * seconds 3600) (sv_shares sv) =
      (Inr (link, token), sv_shares sv1)"
proof -
  obtain u where u: "fst (auth E rq sv) = Inr u"
    using assms auth_refuses[of E rq sv] by (cases "fst (auth E rq sv)"; cases "auth E rq sv") (auto simp: serve_route_def)
  then have h: "handle_create_share E b (Some u) sv = (ShareCreated link token url, sv1)"
    using assms auth_frame(2)[OF u] by (simp add: serve_route_def dispatch_def)
  then obtain path h where b: "b = Some (path, h)" by (auto simp: handle_create_share_def split: if_splits option.splits)
  obtain rel where rel: "resolve_request_path path = Inr rel"
    using h b by (auto simp: handle_create_share_def split: if_splits sum.splits)
  have "rel = path" "\<not> has_prefix path ''.symdesk/''" using resolved[OF rel] by simp_all
  then show ?thesis
    using h b rel u
    by (auto simp: handle_create_share_def caller_def Let_def split: if_splits prod.splits option.splits vault_file.splits sum.splits)
qed


text \<open>
  C7: the life of a shared document, over the requests of everybody: a link is made only by a caller
  who may read the document; with it anybody gets the document's current content until it expires,
  as long as nobody revokes it; after it has expired, or after a revocation was confirmed, nobody
  gets a document with it.
\<close>
theorem shared_document_life:
  assumes "perms_coherent (sv_perm sv)"
    and "serve_route E rq (CreateShare (Some (path, h))) sv = (ShareCreated link token url, sv1)" and "se_random2 E \<noteq> []"
    and "l_id link \<notin> l_id ` set (links_of (sv_shares sv))" and "hash_token (se_crypto E) token \<notin> l_hash ` set (links_of (sv_shares sv))"
    and "fresh_calls (se_crypto E) (l_id link) (hash_token (se_crypto E) token) cs"
    and "se_crypto E' = se_crypto E" and "sv2 = snd (serve_calls cs sv1)"
  shows "(\<exists>u. caller E rq sv = Some u \<and> policy_allows Read (rules_of (sv_perm sv)) (groups_of (sv_perm sv)) u path) \<and>
    (\<forall>content. se_now E' < se_now E + h * seconds 3600 \<longrightarrow> (\<forall>(_, _, rt) \<in> set cs. rt \<noteq> RevokeShare (l_id link)) \<longrightarrow>
       sv_vault sv2 path = Some (Regular content) \<longrightarrow>
       (\<exists>name. handle_access_share E' rq' token sv2 = (File path ''inline'' name content, sv2))) \<and>
    (se_now E' \<ge> se_now E + h * seconds 3600 \<or> revoked_in (l_id link) cs sv1 \<longrightarrow>
       (\<forall>rel disp name content. fst (handle_access_share E' rq' token sv2) \<noteq> File rel disp name content))"
proof -
  let ?C = "se_crypto E"
  obtain u where u: "caller E rq sv = Some u" "fst (can_read (sv_perm sv) (Some u) path)" "\<not> is_dataset_backed_path path"
    "create_share ?C (se_random E) (se_random2 E) (se_now E) path (u_name u) (h * seconds 3600) (sv_shares sv) = (Inr (link, token), sv_shares sv1)"
    using create_share_reply[OF assms(2)] by auto
  have pol: "policy_allows Read (rules_of (sv_perm sv)) (groups_of (sv_perm sv)) u path"
    using u(2) access_facts(1)[OF assms(1)] by simp
  obtain ops where ops: "sv_shares sv2 = run_share_ops ?C ops (sv_shares sv1)"
    "\<forall>op \<in> set ops. fresh_share ?C (l_id link) (hash_token ?C token) op"
    "(\<exists>op \<in> set ops. revokes (l_id link) op) \<longrightarrow> (\<exists>(_, _, rt) \<in> set cs. rt = RevokeShare (l_id link))"
    "revoked_in (l_id link) cs sv1 \<longrightarrow> (\<exists>op \<in> set ops. revokes (l_id link) op)"
    using calls_shares[OF assms(6), of sv1] assms(8) by blast
  note life = share_life_facts[OF u(4) assms(3,4,5) ops(2), of "se_now E'", folded ops(1)]
  have tok: "token \<noteq> []" using share_token_nonempty[OF u(4) assms(3)] .
  have open_: "\<exists>name. handle_access_share E' rq' token sv2 = (File path ''inline'' name content, sv2)"
    if "se_now E' < se_now E + h * seconds 3600" "\<forall>(_, _, rt) \<in> set cs. rt \<noteq> RevokeShare (l_id link)"
      "sv_vault sv2 path = Some (Regular content)" for content
  proof -
    have "lookup_share ?C (se_now E') token (sv_shares sv2) = Inr (link\<lparr>l_token := []\<rparr>)" "l_path link = path"
      using life that(1,2) ops(3) by auto
    then show ?thesis using that(3) tok u(3) by (simp add: handle_access_share_def assms(7) serve_vault_file_def)
  qed
  have closed: "fst (handle_access_share E' rq' token sv2) \<noteq> File rel disp name content"
    if "se_now E' \<ge> se_now E + h * seconds 3600 \<or> revoked_in (l_id link) cs sv1" for rel disp name content
  proof -
    have "lookup_share ?C (se_now E') token (sv_shares sv2) = Inl LinkExpired" using life that ops(4) by auto
    then show ?thesis by (simp add: handle_access_share_def assms(7) Let_def split: prod.split)
  qed
  show ?thesis using u(1) pol open_ closed by blast
qed



section \<open>A concrete server\<close>

definition toy_env :: "int \<Rightarrow> server_env" where
  "toy_env now = \<lparr>se_crypto = toy_crypto, se_now = now, se_random = ''i'', se_random2 = ''t'', se_size = \<lambda>_. 0,
     se_sort = sort_key, se_stamp = \<lambda>_. [], se_yaml = \<lambda>_. Some [], se_index = \<lambda>_ _. True\<rparr>"

definition server_tok :: string where
  "server_tok = replicate 32 CHR ''t''"

definition worker_tok :: string where
  "worker_tok = replicate 32 CHR ''w''"

definition toy_server :: server where
  "toy_server = \<lparr>sv_token = server_tok, sv_worker_token = worker_tok, sv_state = Map.empty,
     sv_perm = toy_perms, sv_throttle = new_throttle, sv_jobs = [(toy_id, JobFile (toy_job\<lparr>j_source := ''plan.md''\<rparr>))],
     sv_shares = NoShares, sv_vault = [''plan.md'' \<mapsto> Regular ''the plan'', ''todo.md'' \<mapsto> Regular ''milk'']\<rparr>"

definition rq_with :: "string \<Rightarrow> request" where
  "rq_with tok = \<lparr>rq_authorization = ''Bearer '' @ tok, rq_remote = ''10.0.0.1:4711''\<rparr>"

lemma toy_tokens:
  "token_of (rq_with ''guess'') = ''guess''" "token_of (rq_with server_tok) = server_tok"
  "token_of (rq_with worker_tok) = worker_tok"
  by code_simp+

lemma tok_differ [simp]: "server_tok \<noteq> worker_tok" "worker_tok \<noteq> server_tok" "server_tok \<noteq> []" "worker_tok \<noteq> []"
  "''guess'' \<noteq> server_tok" "''guess'' \<noteq> worker_tok"
  by (simp_all add: server_tok_def worker_tok_def numeral_eq_Suc)

lemma toy_groups: "groups_of toy_perms = [\<lparr>g_name = ''team'', g_members = [''ann'']\<rparr>]"
  by (simp add: toy_perms_defs)

lemma toy_paths: "resolve_request_path ''plan.md'' = Inr ''plan.md''" "resolve_request_path ''todo.md'' = Inr ''todo.md''"
  "is_dataset_backed_path ''plan.md'' = False"
  by code_simp+

lemma toy_sv [simp]: "sv_perm toy_server = toy_perms" "sv_token toy_server = server_tok"
  "sv_worker_token toy_server = worker_tok" "sv_throttle toy_server = new_throttle" "sv_shares toy_server = NoShares"
  "sv_vault toy_server = [''plan.md'' \<mapsto> Regular ''the plan'', ''todo.md'' \<mapsto> Regular ''milk'']"
  "se_crypto (toy_env t) = toy_crypto" "se_now (toy_env t) = t"
  by (simp_all add: toy_server_def toy_env_def)

lemma toy_hash: "u \<in> set (users_of toy_perms) \<Longrightarrow> u_hash u \<noteq> hash_token toy_crypto tok"
proof -
  assume "u \<in> set (users_of toy_perms)"
  then have "length (u_hash u) = 2" by (simp add: toy_users ann_def)
  moreover have "length (hash_token toy_crypto tok) = 64" by (simp add: hash_token_def toy_crypto_def)
  ultimately show ?thesis by auto
qed

lemma guessing_is_limited_witness:
  "length (filter is_401 (fst (serve_calls (replicate 50 (toy_env 7, rq_with ''guess'', GetStatus)) toy_server))) \<le> 8"
proof -
  have "stranger toy_crypto toy_server (rq_with ''guess'')"
    using toy_hash by (simp add: stranger_def toy_tokens)
  then show ?thesis
    using guessing_is_limited[where cs = "replicate 50 (toy_env 7, rq_with ''guess'', GetStatus)" and sv = toy_server
        and ip = "client_ip (rq_with ''guess'')" and a = 7]
    by (simp add: bounded_new(1) seconds_def) (simp add: new_throttle_def)
qed

lemma legacy_token_always_admin_witness:
  "\<exists>u. auth (toy_env 7) (rq_with server_tok) toy_server = (Inr u, toy_server) \<and> u_name u = ''admin'' \<and> has_role u ''admin''"
  by (rule legacy_token_always_admin) (simp_all add: toy_hash toy_tokens)

lemma toy_admin: "\<exists>u. caller (toy_env 7) (rq_with server_tok) toy_server = Some u \<and> has_role u ''admin''"
proof -
  obtain e where "authenticate toy_crypto toy_perms (token_of (rq_with server_tok)) = Inl e"
    using authenticate_none toy_hash by blast
  then show ?thesis
    by (simp add: caller_def auth_def token_of_def[symmetric] legacy_token_role_def has_role_def toy_tokens Let_def)
qed

lemma toy_worker: "caller (toy_env 7) (rq_with worker_tok) toy_server = Some \<lparr>u_name = ''worker'', u_hash = [], u_roles = [''worker'']\<rparr>"
proof -
  obtain e where "authenticate toy_crypto toy_perms (token_of (rq_with worker_tok)) = Inl e"
    using authenticate_none toy_hash by blast
  then show ?thesis
    by (simp add: caller_def auth_def token_of_def[symmetric] legacy_token_role_def toy_tokens Let_def)
qed

lemma worker_token_reads_and_writes_witness:
  "\<exists>name sv'. serve_route (toy_env 7) (rq_with worker_tok) (GetFile ''todo.md'') toy_server = (File ''todo.md'' ''inline'' name ''milk'', sv')"
  by (rule conjunct1[OF worker_token_reads_and_writes])
    (simp_all add: toy_hash toy_tokens toy_coherent toy_paths find_rule_def plan_rule_def)

lemma document_needs_permission_witness:
  "\<exists>name sv'. serve_route (toy_env 7) (rq_with server_tok) (GetFile ''plan.md'') toy_server = (File ''plan.md'' ''inline'' name ''the plan'', sv')"
proof -
  obtain u where u: "caller (toy_env 7) (rq_with server_tok) toy_server = Some u" "has_role u ''admin''" using toy_admin by blast
  have "perms_coherent (sv_perm toy_server)" by (simp add: toy_coherent)
  from conjunct2[OF document_needs_permission[OF this u(1)], of "''plan.md''"] show ?thesis
    using u(2) by (simp add: policy_allows_def toy_paths)
qed

lemma vault_changes_are_authorized_witness:
  "\<exists>r sv'. serve_route (toy_env 7) (rq_with worker_tok) (PutFile ''todo.md'' ''gone'') toy_server = (r, sv') \<and>
     sv_vault sv' \<noteq> sv_vault toy_server \<and> policy_allows Write (rules_of toy_perms) (groups_of toy_perms) \<lparr>u_name = ''worker'', u_hash = [], u_roles = [''worker'']\<rparr> ''todo.md''"
proof -
  let ?rq = "rq_with worker_tok" and ?w = "\<lparr>u_name = ''worker'', u_hash = [], u_roles = [''worker'']\<rparr>"
  have a: "auth (toy_env 7) ?rq toy_server = (Inr ?w, toy_server)"
    using toy_worker auth_frame(2) by (auto simp: caller_def split: sum.splits)
  have "find_rule (rules_of toy_perms) ''todo.md'' = None" by (simp add: find_rule_def plan_rule_def)
  then have ok: "fst (can_write toy_perms (Some ?w) ''todo.md'')" using access_facts(2)[OF toy_coherent] by (simp add: policy_allows_def)
  have ext: "to_lower (file_ext ''todo.md'') = ''.md''" by code_simp
  have "parent_dirs ''todo.md'' = []" by code_simp
  then have w: "write_vault ''todo.md'' ''gone'' (sv_vault toy_server) = Some ((sv_vault toy_server)(''todo.md'' \<mapsto> Regular ''gone''))"
    by (simp add: write_vault_def)
  obtain p where p: "can_write toy_perms (Some ?w) ''todo.md'' = (True, p)" using ok by (metis (full_types) prod.collapse)
  have run: "serve_route (toy_env 7) ?rq (PutFile ''todo.md'' ''gone'') toy_server =
      (Done ''updated'', toy_server\<lparr>sv_perm := p, sv_vault := (sv_vault toy_server)(''todo.md'' \<mapsto> Regular ''gone'')\<rparr>)"
    using w by (simp add: serve_route_def a dispatch_def handle_put_file_def toy_paths ext p max_note_bytes_def Let_def)
      (simp add: toy_env_def)
  have changed: "(sv_vault toy_server)(''todo.md'' \<mapsto> Regular ''gone'') \<noteq> sv_vault toy_server"
    by (auto dest: fun_cong[of _ _ "''todo.md''"])
  have coh: "perms_coherent (sv_perm toy_server)" by (simp add: toy_coherent)
  have "sv_vault (toy_server\<lparr>sv_perm := p, sv_vault := (sv_vault toy_server)(''todo.md'' \<mapsto> Regular ''gone'')\<rparr>) \<noteq> sv_vault toy_server"
    using changed by simp
  from vault_changes_are_authorized[OF coh run this]
  have "policy_allows Write (rules_of toy_perms) (groups_of toy_perms) ?w ''todo.md''" using toy_worker by auto
  then show ?thesis using run changed by auto
qed

lemma worker_input_ignores_rules_witness:
  "\<exists>name. serve_route (toy_env 7) (rq_with worker_tok) (WorkerInput toy_id) toy_server =
     (File ''plan.md'' ''attachment'' name ''the plan'', toy_server) \<and>
   fst (serve_route (toy_env 7) (rq_with worker_tok) (GetFile ''plan.md'') toy_server) = Error 403 (Msg ''access denied'')"
proof -
  have coh: "perms_coherent (sv_perm toy_server)" by (simp add: toy_coherent)
  have job: "get_job (se_size (toy_env 7)) toy_id (sv_jobs toy_server) = Inr (toy_job\<lparr>j_source := ''plan.md''\<rparr>)"
    by (simp add: get_job_def read_job_def toy_id_valid toy_server_def toy_env_def)
  have pol: "\<not> policy_allows Read (rules_of toy_perms) (groups_of toy_perms) \<lparr>u_name = ''worker'', u_hash = [], u_roles = [''worker'']\<rparr> ''plan.md''"
    by (simp add: policy_allows_def find_rule_def plan_rule_def has_role_def granted_users_def granted_groups_def group_contains_def
        toy_groups)
  show ?thesis
    using worker_input_ignores_rules[OF coh toy_worker job, of "''plan.md''" "''the plan''"] pol by (simp add: toy_paths)
qed

lemma shared_document_life_witness:
  "\<exists>link token url sv1 name. serve_route (toy_env 7) (rq_with server_tok) (CreateShare (Some (''plan.md'', 1))) toy_server = (ShareCreated link token url, sv1) \<and>
     handle_access_share (toy_env 8) (rq_with []) token sv1 = (File ''plan.md'' ''inline'' name ''the plan'', sv1)"
proof -
  let ?rq = "rq_with server_tok"
  obtain u where u: "caller (toy_env 7) ?rq toy_server = Some u" "has_role u ''admin''" using toy_admin by blast
  have a: "auth (toy_env 7) ?rq toy_server = (Inr u, toy_server)"
    using u(1) auth_frame(2) by (auto simp: caller_def split: sum.splits)
  obtain link token f where c: "create_share toy_crypto ''i'' ''t'' 7 ''plan.md'' (u_name u) (seconds 3600) NoShares = (Inr (link, token), f)"
    by (simp add: create_share_def load_shares_def Let_def)
  have run: "serve_route (toy_env 7) ?rq (CreateShare (Some (''plan.md'', 1))) toy_server =
      (ShareCreated link token (''/s/'' @ token), toy_server\<lparr>sv_shares := f\<rparr>)"
    using c u(2) by (simp add: serve_route_def a dispatch_def handle_create_share_def toy_paths can_read_def Let_def)
      (simp add: toy_env_def)
  have coh: "perms_coherent (sv_perm toy_server)" by (simp add: toy_coherent)
  have none: "links_of NoShares = []" by (simp add: links_of_def load_shares_def)
  have rand: "se_random2 (toy_env 7) \<noteq> []" by (simp add: toy_env_def)
  have "\<exists>name. handle_access_share (toy_env 8) (rq_with []) token (toy_server\<lparr>sv_shares := f\<rparr>) =
      (File ''plan.md'' ''inline'' name ''the plan'', toy_server\<lparr>sv_shares := f\<rparr>)"
    using shared_document_life[OF coh run rand, of "[]" "toy_env 8" "toy_server\<lparr>sv_shares := f\<rparr>" "rq_with []"]
    by (simp add: none fresh_calls_def seconds_def)
  with run show ?thesis by blast
qed

end
