(* ===== verification/Snapshots.thy ===== *)
theory Snapshots
  imports Server "HOL-Library.Countable"
begin

text \<open>
  The snapshot route of the self-hosted server (\<open>internal/selfhost/snapshot.go\<close>): the global
  snapshot of all notes with its entity tag, the copies filtered for each user, and the bounded
  least-recently-used cache that holds them.

  The walk over the vault is an argument, \<open>None\<close> when it fails; JSON, gzip and SHA-256 are
  parameters.  The list and the map of the cache, which the code keeps in step, are one list
  with the most recently used entry first.  A zero time is \<open>None\<close>.
\<close>

section \<open>Notes and payloads\<close>

record snapshot_note =
  sn_path :: string
  sn_content :: bytes
  sn_modified :: int

text \<open>A walked file; an external symlink is skipped before it is read.\<close>

record snapshot_file =
  sf_external :: bool
  sf_relative :: string
  sf_content :: bytes
  sf_modified :: int

record snapshot_lib =
  sl_marshal :: "snapshot_note list \<Rightarrow> int \<Rightarrow> bytes"
  sl_unmarshal :: "bytes \<Rightarrow> (snapshot_note list \<times> int) option"
  sl_gzip :: "bytes \<Rightarrow> bytes"
  sl_gunzip :: "bytes \<Rightarrow> bytes option"
  sl_sha :: "bytes \<Rightarrow> bytes"

record user_snapshot =
  us_compressed :: bytes
  us_etag :: string
  us_admin_etag :: string
  us_perms_mtime :: "int option"
  us_groups_mtime :: "int option"

record snapshot_state =
  ss_watching :: bool
  ss_dirty :: bool
  ss_json :: "bytes option"
  ss_gzip :: bytes
  ss_etag :: string
  ss_cache :: "(string \<times> user_snapshot) list"
  ss_bytes :: int
  ss_budget :: int

definition default_budget :: int where
  "default_budget = 67108864"

text \<open>As \<open>New\<close> leaves it: nothing cached, dirty, the default budget.\<close>

definition new_snapshots :: "bool \<Rightarrow> snapshot_state" where
  "new_snapshots watching = \<lparr>ss_watching = watching, ss_dirty = True, ss_json = None, ss_gzip = [],
     ss_etag = [], ss_cache = [], ss_bytes = 0, ss_budget = default_budget\<rparr>"

definition kept_files :: "snapshot_file list \<Rightarrow> snapshot_file list" where
  "kept_files fs = filter (\<lambda>f. \<not> sf_external f \<and> length (sf_content f) \<le> max_note_bytes) fs"

definition etag_line :: "snapshot_file \<Rightarrow> bytes" where
  "etag_line f = sf_relative f @ [CHR 0x00] @ dec_of_nat (length (sf_content f)) @ [CHR 0x00]
     @ dec_of_int (sf_modified f) @ [LF]"

definition vault_etag :: "snapshot_lib \<Rightarrow> snapshot_file list \<Rightarrow> string" where
  "vault_etag L fs = hex_encode (sl_sha L (concat (map etag_line (kept_files fs))))"

definition notes_of :: "snapshot_file list \<Rightarrow> snapshot_note list" where
  "notes_of fs = map (\<lambda>f. \<lparr>sn_path = sf_relative f, sn_content = sf_content f,
     sn_modified = sf_modified f\<rparr>) (kept_files fs)"

datatype snapshot_error = WalkFailed | DecodeFailed | GunzipFailed

text \<open>The payload, its compressed form and the entity tag.\<close>

definition snapshot_payload ::
    "snapshot_lib \<Rightarrow> snapshot_file list option \<Rightarrow> int \<Rightarrow> snapshot_state
     \<Rightarrow> (snapshot_error + bytes \<times> bytes \<times> string) \<times> snapshot_state" where
  "snapshot_payload L walk now st =
     (if ss_watching st \<and> \<not> ss_dirty st \<and> ss_json st \<noteq> None
      then (Inr (the (ss_json st), ss_gzip st, ss_etag st), st)
      else
        let st = (if ss_watching st then st\<lparr>ss_dirty := False\<rparr> else st) in
        case walk of
          None \<Rightarrow> (Inl WalkFailed, st)
        | Some fs \<Rightarrow>
            let etag = vault_etag L fs in
            if etag = ss_etag st \<and> ss_json st \<noteq> None
            then (Inr (the (ss_json st), ss_gzip st, etag), st)
            else
              let plain = sl_marshal L (notes_of fs) now @ [LF];
                  zipped = sl_gzip L plain
              in (Inr (plain, zipped, etag),
                  st\<lparr>ss_etag := etag, ss_json := Some plain, ss_gzip := zipped\<rparr>))"


section \<open>The cache of filtered snapshots\<close>

definition snap_size :: "string \<times> user_snapshot \<Rightarrow> int" where
  "snap_size e = int (length (us_compressed (snd e)))"

function evict :: "int \<Rightarrow> int \<Rightarrow> (string \<times> user_snapshot) list \<Rightarrow> int \<Rightarrow> (string \<times> user_snapshot) list \<times> int" where
  "evict budget need lru tot =
     (if tot + need > budget \<and> lru \<noteq> []
      then evict budget need (butlast lru) (tot - snap_size (last lru))
      else (lru, tot))"
  by pat_completeness auto
termination
  by (relation "measure (\<lambda>(b, s, lru, t). length lru)") auto

declare evict.simps [simp del]

definition effective_budget :: "snapshot_state \<Rightarrow> int" where
  "effective_budget st = (if ss_budget st \<le> 0 then default_budget else ss_budget st)"

definition store_user_snapshot :: "string \<Rightarrow> user_snapshot \<Rightarrow> snapshot_state \<Rightarrow> snapshot_state" where
  "store_user_snapshot user snap st =
     (let (cache, tot) =
            (case map_of (ss_cache st) user of
               Some old \<Rightarrow> (filter (\<lambda>e. fst e \<noteq> user) (ss_cache st),
                           ss_bytes st - int (length (us_compressed old)))
             | None \<Rightarrow> (ss_cache st, ss_bytes st));
          need = int (length (us_compressed snap));
          (cache, tot) = evict (effective_budget st) need cache tot
      in st\<lparr>ss_cache := (user, snap) # cache, ss_bytes := tot + need\<rparr>)"

definition move_to_front :: "string \<Rightarrow> user_snapshot \<Rightarrow> snapshot_state \<Rightarrow> snapshot_state" where
  "move_to_front user snap st =
     st\<lparr>ss_cache := (user, snap) # filter (\<lambda>e. fst e \<noteq> user) (ss_cache st)\<rparr>"

definition file_mtime :: "'a stored \<Rightarrow> int option" where
  "file_mtime f = (case f of Missing \<Rightarrow> None | Stored _ t \<Rightarrow> Some t)"

definition snapshot_payload_filtered ::
    "snapshot_lib \<Rightarrow> snapshot_file list option \<Rightarrow> int \<Rightarrow> user \<Rightarrow> perm_state \<Rightarrow> snapshot_state
     \<Rightarrow> (snapshot_error + bytes \<times> string) \<times> perm_state \<times> snapshot_state" where
  "snapshot_payload_filtered L walk now user p st =
     (case snapshot_payload L walk now st of
        (Inl e, st) \<Rightarrow> (Inl e, p, st)
      | (Inr (plain, _, etag), st) \<Rightarrow>
          let perms = file_mtime (ps_rules p); groups = file_mtime (ps_groups p) in
          case (case map_of (ss_cache st) (u_name user) of
                  Some s \<Rightarrow> if us_admin_etag s = etag \<and> us_perms_mtime s = perms
                               \<and> us_groups_mtime s = groups then Some s else None
                | None \<Rightarrow> None) of
            Some s \<Rightarrow> (Inr (us_compressed s, us_etag s), p, move_to_front (u_name user) s st)
          | None \<Rightarrow>
              (case sl_unmarshal L plain of
                 None \<Rightarrow> (Inl DecodeFailed, p, st)
               | Some (notes, gen) \<Rightarrow>
                   let (allowed, p) = can_read_many p (Some user) (map sn_path notes);
                       kept = filter (\<lambda>n. sn_path n \<in> set allowed) notes;
                       zipped = sl_gzip L (sl_marshal L kept gen @ [LF]);
                       new_etag = etag @ '':'' @ u_name user
                   in (Inr (zipped, new_etag), p,
                       store_user_snapshot (u_name user)
                         \<lparr>us_compressed = zipped, us_etag = new_etag, us_admin_etag = etag,
                          us_perms_mtime = perms, us_groups_mtime = groups\<rparr> st)))"


section \<open>The route\<close>

datatype snapshot_reply = SnapError snapshot_error | NotModified string
  | Gzipped string bytes | Plain string bytes

definition handle_snapshot ::
    "snapshot_lib \<Rightarrow> snapshot_file list option \<Rightarrow> int \<Rightarrow> user option \<Rightarrow> string \<Rightarrow> bool
     \<Rightarrow> perm_state \<Rightarrow> snapshot_state \<Rightarrow> snapshot_reply \<times> perm_state \<times> snapshot_state" where
  "handle_snapshot L walk now user none_match gzip_ok p st =
     (let (r, p, st) =
        (if (case user of None \<Rightarrow> True | Some u \<Rightarrow> has_role u ''admin'') then
           (case snapshot_payload L walk now st of
              (Inl e, st) \<Rightarrow> (Inl e, p, st)
            | (Inr (plain, zipped, etag), st) \<Rightarrow> (Inr (Some plain, zipped, etag), p, st))
         else
           (case snapshot_payload_filtered L walk now (the user) p st of
              (Inl e, p, st) \<Rightarrow> (Inl e, p, st)
            | (Inr (zipped, etag), p, st) \<Rightarrow> (Inr (None, zipped, etag), p, st)))
      in case r of
           Inl e \<Rightarrow> (SnapError e, p, st)
         | Inr (plain, zipped, etag) \<Rightarrow>
             let quoted = [CHR 0x22] @ etag @ [CHR 0x22] in
             if none_match = quoted then (NotModified quoted, p, st)
             else if gzip_ok then (Gzipped quoted zipped, p, st)
             else (case plain of
                     Some body \<Rightarrow> (Plain quoted body, p, st)
                   | None \<Rightarrow> (case sl_gunzip L zipped of
                       None \<Rightarrow> (SnapError GunzipFailed, p, st)
                     | Some body \<Rightarrow> (Plain quoted body, p, st))))"


section \<open>The cache stays within its budget\<close>

definition lru_ok :: "snapshot_state \<Rightarrow> bool" where
  "lru_ok st \<longleftrightarrow>
     distinct (map fst (ss_cache st)) \<and> ss_bytes st = sum_list (map snap_size (ss_cache st))
     \<and> (ss_bytes st \<le> effective_budget st \<or> length (ss_cache st) = 1)"

lemma lru_ok_cong:
  "ss_cache st' = ss_cache st \<Longrightarrow> ss_bytes st' = ss_bytes st \<Longrightarrow> ss_budget st' = ss_budget st \<Longrightarrow>
   lru_ok st' = lru_ok st"
  by (simp only: lru_ok_def effective_budget_def)

lemma sum_snap_nonneg: "0 \<le> sum_list (map snap_size xs)"
  by (induction xs) (simp_all add: snap_size_def)

text \<open>What eviction keeps: the longest front part of the list that leaves room.\<close>

lemma evict_take:
  assumes "tot = sum_list (map snap_size lru)"
  shows "\<exists>k \<le> length lru. evict budget need lru tot = (take k lru, sum_list (map snap_size (take k lru)))
     \<and> (k = 0 \<or> sum_list (map snap_size (take k lru)) + need \<le> budget)
     \<and> (\<forall>j. k < j \<and> j \<le> length lru \<longrightarrow> budget < sum_list (map snap_size (take j lru)) + need)"
  using assms
proof (induction lru arbitrary: tot rule: rev_induct)
  case Nil
  then show ?case by (simp add: evict.simps)
next
  case (snoc x xs)
  show ?case
  proof (cases "tot + need > budget")
    case True
    have tot1: "tot - snap_size x = sum_list (map snap_size xs)" using snoc.prems by simp
    obtain k where k: "k \<le> length xs"
      "evict budget need xs (tot - snap_size x) = (take k xs, sum_list (map snap_size (take k xs)))"
      "k = 0 \<or> sum_list (map snap_size (take k xs)) + need \<le> budget"
      "\<forall>j. k < j \<and> j \<le> length xs \<longrightarrow> budget < sum_list (map snap_size (take j xs)) + need"
      using snoc.IH[OF tot1] by blast
    have ev: "evict budget need (xs @ [x]) tot = (take k (xs @ [x]), sum_list (map snap_size (take k (xs @ [x]))))"
      using True k(1,2) by (subst evict.simps) simp
    moreover have "budget < sum_list (map snap_size (take j (xs @ [x]))) + need"
      if "k < j" "j \<le> length (xs @ [x])" for j
    proof (cases "j \<le> length xs")
      case True
      then show ?thesis using k(4) that(1) by simp
    next
      case False
      then show ?thesis using that(2) \<open>tot + need > budget\<close> snoc.prems by simp
    qed
    ultimately show ?thesis using k(1,3) by (intro exI[of _ k]) auto
  next
    case False
    then show ?thesis
      using snoc.prems by (intro exI[of _ "length (xs @ [x])"]) (subst evict.simps, simp)
  qed
qed

lemma sum_remove_key:
  "distinct (map fst xs) \<Longrightarrow> map_of xs u = Some s \<Longrightarrow>
   sum_list (map snap_size (filter (\<lambda>e. fst e \<noteq> u) xs))
     = sum_list (map snap_size xs) - int (length (us_compressed s))"
proof (induction xs)
  case (Cons x xs)
  show ?case
  proof (cases "fst x = u")
    case True
    have "filter (\<lambda>e. fst e \<noteq> u) xs = xs"
      using Cons.prems(1) True by (auto simp: filter_id_conv intro: rev_image_eqI)
    then show ?thesis using Cons.prems True by (auto simp: snap_size_def)
  next
    case False
    then show ?thesis using Cons by (cases x) auto
  qed
qed simp

lemma filter_absent: "map_of xs u = None \<Longrightarrow> filter (\<lambda>e. fst e \<noteq> u) xs = xs"
  by (auto simp: filter_id_conv map_of_eq_None_iff)

text \<open>Storing a snapshot, in one equation.\<close>

lemma store_user_snapshot_eq:
  assumes "lru_ok st"
  obtains k where "ss_cache (store_user_snapshot user snap st)
      = (user, snap) # take k (filter (\<lambda>e. fst e \<noteq> user) (ss_cache st))"
    "ss_bytes (store_user_snapshot user snap st)
      = sum_list (map snap_size (ss_cache (store_user_snapshot user snap st)))"
    "k = 0 \<or> ss_bytes (store_user_snapshot user snap st) \<le> effective_budget st"
    "\<And>j. k < j \<Longrightarrow> j \<le> length (filter (\<lambda>e. fst e \<noteq> user) (ss_cache st)) \<Longrightarrow>
      effective_budget st < sum_list (map snap_size (take j (filter (\<lambda>e. fst e \<noteq> user) (ss_cache st))))
        + int (length (us_compressed snap))"
proof -
  define rest where "rest = filter (\<lambda>e. fst e \<noteq> user) (ss_cache st)"
  define tot where "tot = sum_list (map snap_size rest)"
  let ?need = "int (length (us_compressed snap))"
  have first: "(case map_of (ss_cache st) user of
         Some old \<Rightarrow> (filter (\<lambda>e. fst e \<noteq> user) (ss_cache st),
                     ss_bytes st - int (length (us_compressed old)))
       | None \<Rightarrow> (ss_cache st, ss_bytes st)) = (rest, tot)"
    using assms sum_remove_key[of "ss_cache st" user] filter_absent[of "ss_cache st" user]
    by (auto simp: lru_ok_def rest_def tot_def split: option.split)
  obtain k where k: "k \<le> length rest"
    "evict (effective_budget st) ?need rest tot = (take k rest, sum_list (map snap_size (take k rest)))"
    "k = 0 \<or> sum_list (map snap_size (take k rest)) + ?need \<le> effective_budget st"
    "\<forall>j. k < j \<and> j \<le> length rest \<longrightarrow> effective_budget st < sum_list (map snap_size (take j rest)) + ?need"
    using evict_take[OF tot_def] by blast
  have "store_user_snapshot user snap st = st\<lparr>ss_cache := (user, snap) # take k rest,
      ss_bytes := sum_list (map snap_size (take k rest)) + ?need\<rparr>"
    unfolding store_user_snapshot_def Let_def first by (simp add: k(2))
  then show thesis using that[of k] k(3,4) by (simp add: snap_size_def rest_def)
qed

lemma store_lru_ok:
  assumes "lru_ok st"
  shows "lru_ok (store_user_snapshot user snap st)"
proof -
  have eb: "effective_budget (store_user_snapshot user snap st) = effective_budget st"
    by (simp add: store_user_snapshot_def effective_budget_def Let_def split: prod.splits)
  obtain k where c: "ss_cache (store_user_snapshot user snap st)
      = (user, snap) # take k (filter (\<lambda>e. fst e \<noteq> user) (ss_cache st))"
    "ss_bytes (store_user_snapshot user snap st)
      = sum_list (map snap_size (ss_cache (store_user_snapshot user snap st)))"
    "k = 0 \<or> ss_bytes (store_user_snapshot user snap st) \<le> effective_budget st"
    by (rule store_user_snapshot_eq[OF assms])
  have "distinct (map fst (filter (\<lambda>e. fst e \<noteq> user) (ss_cache st)))"
    using assms by (auto simp: lru_ok_def distinct_map_filter)
  then have "distinct (map fst (take k (filter (\<lambda>e. fst e \<noteq> user) (ss_cache st))))"
    by (metis distinct_take take_map)
  moreover have "user \<notin> set (map fst (take k (filter (\<lambda>e. fst e \<noteq> user) (ss_cache st))))"
    by (auto dest: in_set_takeD)
  ultimately show ?thesis using c eb by (auto simp: lru_ok_def)
qed


section \<open>What the cache holds\<close>

text \<open>The notes a user who is not an administrator may see under two permission files.\<close>

definition visible_notes ::
    "doc_rule stored \<Rightarrow> group stored \<Rightarrow> string \<Rightarrow> snapshot_note list \<Rightarrow> snapshot_note list" where
  "visible_notes rules groups name notes =
     (case read_json_file rules of
        Inl _ \<Rightarrow> []
      | Inr rs \<Rightarrow> filter (\<lambda>n. readable_by (elems rs) (or_nil (read_json_file groups)) name (sn_path n)) notes)"

definition valid_note :: "snapshot_note \<Rightarrow> bool" where
  "valid_note n \<longleftrightarrow> valid_utf8 (sn_path n) \<and> valid_utf8 (sn_content n)"

text \<open>
  The documented behaviour of JSON and gzip: a payload of valid UTF-8 decodes to what was
  encoded, and what was compressed expands again.
\<close>

definition snapshot_lib_ok :: "snapshot_lib \<Rightarrow> bool" where
  "snapshot_lib_ok L \<longleftrightarrow>
     (\<forall>ns t. list_all valid_note ns \<longrightarrow> sl_unmarshal L (sl_marshal L ns t @ [LF]) = Some (ns, t))
     \<and> (\<forall>x. sl_gunzip L (sl_gzip L x) = Some x)"

text \<open>
  A cached entry is honest when it is the filtered snapshot of the vault its entity tag names,
  under the permission files its times name: \<open>R\<close>, \<open>G\<close> and \<open>N\<close> give the content behind a
  modification time and behind a tag.
\<close>

definition honest_entry ::
    "snapshot_lib \<Rightarrow> (int option \<Rightarrow> doc_rule stored) \<Rightarrow> (int option \<Rightarrow> group stored)
     \<Rightarrow> (string \<Rightarrow> snapshot_note list) \<Rightarrow> string \<times> user_snapshot \<Rightarrow> bool" where
  "honest_entry L R G N e \<longleftrightarrow>
     (\<exists>t. us_compressed (snd e) = sl_gzip L (sl_marshal L
        (visible_notes (R (us_perms_mtime (snd e))) (G (us_groups_mtime (snd e))) (fst e)
          (N (us_admin_etag (snd e)))) t @ [LF]))"

definition honest_json :: "snapshot_lib \<Rightarrow> (string \<Rightarrow> snapshot_note list) \<Rightarrow> snapshot_state \<Rightarrow> bool" where
  "honest_json L N st \<longleftrightarrow>
     (case ss_json st of
        None \<Rightarrow> True
      | Some plain \<Rightarrow> ss_gzip st = sl_gzip L plain \<and> (\<exists>t. plain = sl_marshal L (N (ss_etag st)) t @ [LF]))"

definition honest ::
    "snapshot_lib \<Rightarrow> (int option \<Rightarrow> doc_rule stored) \<Rightarrow> (int option \<Rightarrow> group stored)
     \<Rightarrow> (string \<Rightarrow> snapshot_note list) \<Rightarrow> snapshot_state \<Rightarrow> bool" where
  "honest L R G N st \<longleftrightarrow>
     list_all (honest_entry L R G N) (ss_cache st) \<and> honest_json L N st"

lemma honest_json_cong:
  "ss_json st' = ss_json st \<Longrightarrow> ss_gzip st' = ss_gzip st \<Longrightarrow> ss_etag st' = ss_etag st \<Longrightarrow>
   honest_json L N st' = honest_json L N st"
  by (simp only: honest_json_def)

text \<open>
  A request for a snapshot, with the vault and the permissions it meets, and whether the watcher
  reported a change of the vault since the request before (\<open>watchVault\<close> marks the snapshot dirty).
\<close>

record snapshot_request =
  sq_files :: "snapshot_file list"
  sq_now :: int
  sq_user :: "user option"
  sq_gzip :: bool
  sq_perm :: perm_state
  sq_noticed :: bool

definition request_ok ::
    "snapshot_lib \<Rightarrow> (int option \<Rightarrow> doc_rule stored) \<Rightarrow> (int option \<Rightarrow> group stored)
     \<Rightarrow> (string \<Rightarrow> snapshot_note list) \<Rightarrow> snapshot_request \<Rightarrow> bool" where
  "request_ok L R G N q \<longleftrightarrow>
     perms_coherent (sq_perm q) \<and> R (file_mtime (ps_rules (sq_perm q))) = ps_rules (sq_perm q)
     \<and> G (file_mtime (ps_groups (sq_perm q))) = ps_groups (sq_perm q)
     \<and> N (vault_etag L (sq_files q)) = notes_of (sq_files q)
     \<and> list_all valid_note (notes_of (sq_files q))
     \<and> is_ok (load_permissions (sq_perm q))"

definition expected_notes :: "snapshot_request \<Rightarrow> snapshot_note list" where
  "expected_notes q =
     (if (case sq_user q of None \<Rightarrow> True | Some u \<Rightarrow> has_role u ''admin'') then notes_of (sq_files q)
      else filter (\<lambda>n. fst (can_read (sq_perm q) (sq_user q) (sn_path n))) (notes_of (sq_files q)))"

definition shows_notes :: "snapshot_lib \<Rightarrow> bool \<Rightarrow> snapshot_note list \<Rightarrow> snapshot_reply \<Rightarrow> bool" where
  "shows_notes L gz ns r \<longleftrightarrow>
     (\<exists>tag t. r = (if gz then Gzipped tag (sl_gzip L (sl_marshal L ns t @ [LF]))
                   else Plain tag (sl_marshal L ns t @ [LF])))"

definition mark_dirty :: "bool \<Rightarrow> snapshot_state \<Rightarrow> snapshot_state" where
  "mark_dirty change st = (if change then st\<lparr>ss_dirty := True\<rparr> else st)"

definition serve_request :: "snapshot_lib \<Rightarrow> snapshot_request \<Rightarrow> snapshot_state \<Rightarrow> snapshot_reply \<times> snapshot_state" where
  "serve_request L q st =
     (let (r, _, st) = handle_snapshot L (Some (sq_files q)) (sq_now q) (sq_user q) [] (sq_gzip q) (sq_perm q)
            (mark_dirty (sq_noticed q) st)
      in (r, st))"

fun serve_requests :: "snapshot_lib \<Rightarrow> snapshot_request list \<Rightarrow> snapshot_state \<Rightarrow> snapshot_reply list \<times> snapshot_state" where
  "serve_requests L [] st = ([], st)"
| "serve_requests L (q # qs) st =
     (let (r, st) = serve_request L q st; (rs, st) = serve_requests L qs st in (r # rs, st))"

text \<open>
  What a watching server holds is current: unless it is marked dirty, it has computed a snapshot,
  of these files.
\<close>

definition current_for :: "snapshot_lib \<Rightarrow> snapshot_file list \<Rightarrow> snapshot_state \<Rightarrow> bool" where
  "current_for L fs st \<longleftrightarrow>
     (ss_watching st \<longrightarrow> ss_dirty st \<or> ss_json st \<noteq> None \<and> ss_etag st = vault_etag L fs)"

text \<open>Every change between two requests of what a snapshot holds was reported by the watcher.\<close>

definition changes_noticed :: "snapshot_request list \<Rightarrow> bool" where
  "changes_noticed qs \<longleftrightarrow>
     successively (\<lambda>a b. sq_noticed b \<or> kept_files (sq_files b) = kept_files (sq_files a)) qs"

lemma current_noticed:
  assumes "current_for L fs st" and "ss_watching st \<longrightarrow> seen \<or> kept_files fs' = kept_files fs"
  shows "current_for L fs' (mark_dirty seen st)"
  using assms by (auto simp: current_for_def mark_dirty_def vault_etag_def)

lemma mark_dirty_fields [simp]:
  "ss_watching (mark_dirty c st) = ss_watching st" "ss_json (mark_dirty c st) = ss_json st"
  "ss_gzip (mark_dirty c st) = ss_gzip st" "ss_etag (mark_dirty c st) = ss_etag st"
  "ss_cache (mark_dirty c st) = ss_cache st" "ss_bytes (mark_dirty c st) = ss_bytes st"
  "ss_budget (mark_dirty c st) = ss_budget st"
  by (simp_all add: mark_dirty_def)

lemma mark_dirty_honest [simp]: "honest L R G N (mark_dirty c st) = honest L R G N st"
  using honest_json_cong[of "mark_dirty c st" st L N] by (simp add: honest_def)

lemma mark_dirty_lru [simp]: "lru_ok (mark_dirty c st) = lru_ok st"
  by (rule lru_ok_cong) simp_all

lemma can_read_many_visible:
  assumes "perms_coherent p" and "\<not> has_role u ''admin''"
  shows "filter (\<lambda>n. sn_path n \<in> set (fst (can_read_many p (Some u) (map sn_path notes)))) notes
    = visible_notes (ps_rules p) (ps_groups p) (u_name u) notes"
proof -
  note c1 = load_cached_coherent[OF assms(1)]
  obtain rr p1 where l: "load_permissions_cached p = (rr, p1)" by fastforce
  obtain gr p2 where g: "load_groups_cached p1 = (gr, p2)" by fastforce
  have rr: "rr = read_json_file (ps_rules p)" using c1(1) l by (simp add: load_permissions_def)
  have "fst (load_groups_cached p1) = load_groups p1" "load_groups p1 = load_groups p"
    using load_cached_coherent(2)[OF c1(3)] load_cached_frame(1)[of p] l by simp_all
  then have gr: "gr = read_json_file (ps_groups p)" using g by (simp add: load_groups_def)
  show ?thesis
    using assms(2) l g
    by (auto simp: can_read_many_def visible_notes_def rr gr filter_empty_conv split: sum.splits
        intro!: filter_cong)
qed

lemma visible_can_read:
  assumes "perms_coherent p" and "\<not> has_role u ''admin''" and "is_ok (load_permissions p)"
  shows "visible_notes (ps_rules p) (ps_groups p) (u_name u) notes
    = filter (\<lambda>n. fst (can_read p (Some u) (sn_path n))) notes"
proof -
  obtain rules where rules: "load_permissions p = Inr rules" using assms(3) by (auto simp: is_ok_iff)
  show ?thesis
    unfolding can_read_many_visible[OF assms(1,2), symmetric] read_many_filter[OF assms(1) rules]
    by (auto intro!: filter_cong)
qed

text \<open>The global snapshot: of the files as they are, whether computed now or kept.\<close>

lemma snapshot_payload_fresh:
  assumes "current_for L fs st" and "honest L R G N st" and "N (vault_etag L fs) = notes_of fs"
  obtains t st' where "snapshot_payload L (Some fs) now st
      = (Inr (sl_marshal L (notes_of fs) t @ [LF], sl_gzip L (sl_marshal L (notes_of fs) t @ [LF]), vault_etag L fs), st')"
    "honest L R G N st'" "current_for L fs st'" "ss_cache st' = ss_cache st" "ss_bytes st' = ss_bytes st"
    "ss_budget st' = ss_budget st" "ss_watching st' = ss_watching st"
proof (cases "vault_etag L fs = ss_etag st \<and> ss_json st \<noteq> None")
  case True
  then obtain plain where j: "ss_json st = Some plain" by auto
  have n: "N (ss_etag st) = notes_of fs" using True assms(3) by simp
  have "honest_json L N st" using assms(2) by (simp add: honest_def)
  then obtain t where t: "plain = sl_marshal L (notes_of fs) t @ [LF]" "ss_gzip st = sl_gzip L plain"
    unfolding honest_json_def j option.case n by blast
  let ?st = "if ss_watching st then st\<lparr>ss_dirty := False\<rparr> else st"
  have "snapshot_payload L (Some fs) now st = (Inr (plain, ss_gzip st, vault_etag L fs), ?st)"
    using True j by (auto simp: snapshot_payload_def)
  then have "snapshot_payload L (Some fs) now st
      = (Inr (sl_marshal L (notes_of fs) t @ [LF], sl_gzip L (sl_marshal L (notes_of fs) t @ [LF]), vault_etag L fs), ?st)"
    unfolding t(2) unfolding t(1) .
  moreover have "honest L R G N ?st"
    using assms(2) honest_json_cong[of ?st st L N] by (simp add: honest_def)
  moreover have "current_for L fs ?st" using True by (simp add: current_for_def)
  ultimately show thesis by (rule that[of t ?st]) simp_all
next
  case False
  let ?plain = "sl_marshal L (notes_of fs) now @ [LF]"
  let ?st0 = "if ss_watching st then st\<lparr>ss_dirty := False\<rparr> else st"
  let ?st = "?st0\<lparr>ss_etag := vault_etag L fs, ss_json := Some ?plain, ss_gzip := sl_gzip L ?plain\<rparr>"
  have "\<not> (ss_watching st \<and> \<not> ss_dirty st \<and> ss_json st \<noteq> None)" using False assms(1) by (auto simp: current_for_def)
  then have pl: "snapshot_payload L (Some fs) now st = (Inr (?plain, sl_gzip L ?plain, vault_etag L fs), ?st)"
    using False by (auto simp: snapshot_payload_def Let_def)
  have "honest L R G N ?st" using assms(2,3) by (auto simp: honest_def honest_json_def)
  moreover have "current_for L fs ?st" by (simp add: current_for_def)
  ultimately show thesis by (intro that[OF pl]) simp_all
qed

lemma honest_store:
  assumes "lru_ok st" and "honest L R G N st" and "honest_entry L R G N (user, snap)"
  shows "honest L R G N (store_user_snapshot user snap st)"
proof -
  obtain k where "ss_cache (store_user_snapshot user snap st)
      = (user, snap) # take k (filter (\<lambda>e. fst e \<noteq> user) (ss_cache st))"
    by (rule store_user_snapshot_eq[OF assms(1)])
  moreover have "ss_json (store_user_snapshot user snap st) = ss_json st"
    "ss_gzip (store_user_snapshot user snap st) = ss_gzip st"
    "ss_etag (store_user_snapshot user snap st) = ss_etag st"
    by (simp_all add: store_user_snapshot_def Let_def split: prod.splits)
  moreover from this have "honest_json L N (store_user_snapshot user snap st) = honest_json L N st"
    by (intro honest_json_cong)
  ultimately show ?thesis
    using assms(2,3) by (auto simp: honest_def list_all_iff dest: in_set_takeD)
qed

lemma move_to_front_ok:
  assumes "map_of (ss_cache st) user = Some snap"
  shows "lru_ok st \<Longrightarrow> lru_ok (move_to_front user snap st)"
    and "honest L R G N st \<Longrightarrow> honest L R G N (move_to_front user snap st)"
proof -
  assume ok: "lru_ok st"
  have sum: "sum_list (map snap_size (filter (\<lambda>e. fst e \<noteq> user) (ss_cache st)))
      = sum_list (map snap_size (ss_cache st)) - int (length (us_compressed snap))"
    using ok assms by (intro sum_remove_key) (auto simp: lru_ok_def)
  have one: "length (ss_cache st) = 1 \<Longrightarrow> filter (\<lambda>e. fst e \<noteq> user) (ss_cache st) = []"
    using assms by (cases "ss_cache st") (auto split: if_splits)
  show "lru_ok (move_to_front user snap st)"
    using ok sum one
    by (auto simp: lru_ok_def move_to_front_def effective_budget_def snap_size_def distinct_map_filter)
next
  assume h: "honest L R G N st"
  have "(user, snap) \<in> set (ss_cache st)" using assms by (rule map_of_SomeD)
  moreover have "honest_json L N (move_to_front user snap st) = honest_json L N st"
    by (rule honest_json_cong) (simp_all add: move_to_front_def)
  ultimately show "honest L R G N (move_to_front user snap st)"
    using h by (auto simp: honest_def move_to_front_def list_all_iff)
qed


text \<open>The filtered snapshot: a hit serves an honest entry, a miss stores one.\<close>

lemma snapshot_filtered_step:
  assumes L: "snapshot_lib_ok L" and st: "current_for L (sq_files q) st" "honest L R G N st" "lru_ok st"
    and q: "request_ok L R G N q" and u: "sq_user q = Some u" "\<not> has_role u ''admin''"
  obtains t tag p' st' where "snapshot_payload_filtered L (Some (sq_files q)) now u (sq_perm q) st
      = (Inr (sl_gzip L (sl_marshal L (expected_notes q) t @ [LF]), tag), p', st')"
    "current_for L (sq_files q) st'" "honest L R G N st'" "lru_ok st'" "ss_watching st' = ss_watching st"
proof -
  define p where "p = sq_perm q"
  define ns where "ns = notes_of (sq_files q)"
  define etag where "etag = vault_etag L (sq_files q)"
  have q': "perms_coherent p" "R (file_mtime (ps_rules p)) = ps_rules p"
    "G (file_mtime (ps_groups p)) = ps_groups p" "N etag = ns" "list_all valid_note ns"
    "is_ok (load_permissions p)"
    using q by (simp_all add: request_ok_def p_def ns_def etag_def)
  have expect: "expected_notes q = visible_notes (ps_rules p) (ps_groups p) (u_name u) ns"
    using visible_can_read[OF q'(1) u(2) q'(6)] u by (simp add: expected_notes_def p_def ns_def)
  obtain t0 st1 where one: "snapshot_payload L (Some (sq_files q)) now st
      = (Inr (sl_marshal L ns t0 @ [LF], sl_gzip L (sl_marshal L ns t0 @ [LF]), etag), st1)"
    and st1: "honest L R G N st1" "current_for L (sq_files q) st1" "ss_cache st1 = ss_cache st"
      "ss_bytes st1 = ss_bytes st" "ss_budget st1 = ss_budget st" "ss_watching st1 = ss_watching st"
    using snapshot_payload_fresh[OF st(1,2), of now] q'(4)
    unfolding etag_def ns_def by metis
  have lru1: "lru_ok st1" using st(3) lru_ok_cong[OF st1(3-5)] by simp
  have dec: "sl_unmarshal L (sl_marshal L ns t0 @ [LF]) = Some (ns, t0)"
    using L q'(5) by (simp add: snapshot_lib_ok_def)
  let ?hit = "\<lambda>s. us_admin_etag s = etag \<and> us_perms_mtime s = file_mtime (ps_rules p)
      \<and> us_groups_mtime s = file_mtime (ps_groups p)"
  show thesis
  proof (cases "\<exists>s. map_of (ss_cache st1) (u_name u) = Some s \<and> ?hit s")
    case True
    then obtain s where s: "map_of (ss_cache st1) (u_name u) = Some s" "?hit s" by blast
    have "honest_entry L R G N (u_name u, s)"
      using st1(1) map_of_SomeD[OF s(1)] by (auto simp: honest_def list_all_iff)
    then obtain t where t: "us_compressed s = sl_gzip L (sl_marshal L (expected_notes q) t @ [LF])"
      using s(2) q'(2-4) by (auto simp: honest_entry_def expect)
    have "snapshot_payload_filtered L (Some (sq_files q)) now u p st
        = (Inr (us_compressed s, us_etag s), p, move_to_front (u_name u) s st1)"
      using one s by (simp add: snapshot_payload_filtered_def Let_def)
    moreover have "current_for L (sq_files q) (move_to_front (u_name u) s st1)"
      using st1(2) by (simp add: current_for_def move_to_front_def)
    ultimately show thesis
      using that move_to_front_ok[OF s(1)] lru1 st1(1,6) t p_def
      by (simp add: move_to_front_def)
  next
    case False
    then have miss: "(case map_of (ss_cache st1) (u_name u) of
        Some s \<Rightarrow> if ?hit s then Some s else None | None \<Rightarrow> None) = None"
      by (auto split: option.split)
    obtain allowed p' where c: "can_read_many p (Some u) (map sn_path ns) = (allowed, p')" by fastforce
    have kept: "filter (\<lambda>n. sn_path n \<in> set allowed) ns = expected_notes q"
      using can_read_many_visible[OF q'(1) u(2), of ns] c by (simp add: expect)
    let ?zip = "sl_gzip L (sl_marshal L (expected_notes q) t0 @ [LF])"
    let ?snap = "\<lparr>us_compressed = ?zip, us_etag = etag @ '':'' @ u_name u, us_admin_etag = etag,
        us_perms_mtime = file_mtime (ps_rules p), us_groups_mtime = file_mtime (ps_groups p)\<rparr>"
    have "snapshot_payload_filtered L (Some (sq_files q)) now u p st
        = (Inr (?zip, etag @ '':'' @ u_name u), p', store_user_snapshot (u_name u) ?snap st1)"
      unfolding snapshot_payload_filtered_def one prod.case sum.case Let_def miss option.case dec c kept ..
    moreover have "honest_entry L R G N (u_name u, ?snap)"
      using q'(2-4) by (auto simp: honest_entry_def expect)
    moreover have "current_for L (sq_files q) (store_user_snapshot (u_name u) ?snap st1)"
      "ss_watching (store_user_snapshot (u_name u) ?snap st1) = ss_watching st"
      using st1(2,6) by (simp_all add: current_for_def store_user_snapshot_def Let_def split: prod.splits)
    ultimately show thesis
      using that honest_store[OF lru1 st1(1)] store_lru_ok[OF lru1] p_def by blast
  qed
qed

lemma handle_snapshot_step:
  assumes L: "snapshot_lib_ok L" and st: "current_for L (sq_files q) st" "honest L R G N st" "lru_ok st"
    and q: "request_ok L R G N q"
  obtains r p st' where "handle_snapshot L (Some (sq_files q)) (sq_now q) (sq_user q) [] (sq_gzip q) (sq_perm q) st = (r, p, st')"
    "shows_notes L (sq_gzip q) (expected_notes q) r" "current_for L (sq_files q) st'" "honest L R G N st'" "lru_ok st'"
    "ss_watching st' = ss_watching st"
proof (cases "case sq_user q of None \<Rightarrow> True | Some u \<Rightarrow> has_role u ''admin''")
  case True
  have n: "N (vault_etag L (sq_files q)) = notes_of (sq_files q)" using q by (simp add: request_ok_def)
  obtain t st1 where one: "snapshot_payload L (Some (sq_files q)) (sq_now q) st
      = (Inr (sl_marshal L (notes_of (sq_files q)) t @ [LF],
          sl_gzip L (sl_marshal L (notes_of (sq_files q)) t @ [LF]), vault_etag L (sq_files q)), st1)"
    and st1: "honest L R G N st1" "current_for L (sq_files q) st1" "ss_cache st1 = ss_cache st"
      "ss_bytes st1 = ss_bytes st" "ss_budget st1 = ss_budget st" "ss_watching st1 = ss_watching st"
    using snapshot_payload_fresh[OF st(1,2) n, of "sq_now q"] by metis
  have "\<exists>r. handle_snapshot L (Some (sq_files q)) (sq_now q) (sq_user q) [] (sq_gzip q) (sq_perm q) st = (r, sq_perm q, st1)
      \<and> shows_notes L (sq_gzip q) (expected_notes q) r"
    using True one by (auto simp: handle_snapshot_def Let_def shows_notes_def expected_notes_def)
  then show thesis using that st1(1,2,6) st(3) lru_ok_cong[OF st1(3-5)] by blast
next
  case False
  then obtain u where u: "sq_user q = Some u" "\<not> has_role u ''admin''" by (auto split: option.splits)
  obtain t tag p1 st1 where one: "snapshot_payload_filtered L (Some (sq_files q)) (sq_now q) u (sq_perm q) st
      = (Inr (sl_gzip L (sl_marshal L (expected_notes q) t @ [LF]), tag), p1, st1)"
    and st1: "current_for L (sq_files q) st1" "honest L R G N st1" "lru_ok st1" "ss_watching st1 = ss_watching st"
    using snapshot_filtered_step[OF L st q u] by metis
  have gun: "sl_gunzip L (sl_gzip L x) = Some x" for x using L by (simp add: snapshot_lib_ok_def)
  have "\<exists>r. handle_snapshot L (Some (sq_files q)) (sq_now q) (sq_user q) [] (sq_gzip q) (sq_perm q) st = (r, p1, st1)
      \<and> shows_notes L (sq_gzip q) (expected_notes q) r"
    using u one gun by (auto simp: handle_snapshot_def Let_def shows_notes_def)
  then show thesis using that st1 by blast
qed

lemma serve_request_step:
  assumes L: "snapshot_lib_ok L" and st: "current_for L (sq_files q) (mark_dirty (sq_noticed q) st)" "honest L R G N st" "lru_ok st"
    and q: "request_ok L R G N q" and s: "serve_request L q st = (r, st')"
  shows "shows_notes L (sq_gzip q) (expected_notes q) r \<and> current_for L (sq_files q) st' \<and> honest L R G N st' \<and> lru_ok st'
    \<and> ss_watching st' = ss_watching st"
proof -
  have st': "honest L R G N (mark_dirty (sq_noticed q) st)" "lru_ok (mark_dirty (sq_noticed q) st)" using st(2,3) by simp_all
  show ?thesis
    by (rule handle_snapshot_step[OF L st(1) st' q]) (use s in \<open>auto simp: serve_request_def\<close>)
qed

lemma serve_requests_exact:
  assumes "snapshot_lib_ok L" and "honest L R G N st" "lru_ok st" and "list_all (request_ok L R G N) qs"
    and "qs \<noteq> [] \<longrightarrow> current_for L (sq_files (hd qs)) (mark_dirty (sq_noticed (hd qs)) st)"
    and "ss_watching st \<longrightarrow> changes_noticed qs"
  shows "list_all2 (\<lambda>q r. shows_notes L (sq_gzip q) (expected_notes q) r) qs (fst (serve_requests L qs st))
    \<and> lru_ok (snd (serve_requests L qs st))"
  using assms(2-)
proof (induction qs arbitrary: st)
  case (Cons q qs)
  obtain r st1 where one: "serve_request L q st = (r, st1)" by fastforce
  have q: "request_ok L R G N q" "current_for L (sq_files q) (mark_dirty (sq_noticed q) st)"
    using Cons.prems(3,4) by simp_all
  then have s: "shows_notes L (sq_gzip q) (expected_notes q) r" "current_for L (sq_files q) st1"
      "honest L R G N st1" "lru_ok st1" "ss_watching st1 = ss_watching st"
    using serve_request_step[OF assms(1) q(2) Cons.prems(1,2) _ one] by blast+
  have "current_for L (sq_files (hd qs)) (mark_dirty (sq_noticed (hd qs)) st1)" if "qs \<noteq> []"
    using s(2)
  proof (rule current_noticed)
    show "ss_watching st1 \<longrightarrow> sq_noticed (hd qs) \<or> kept_files (sq_files (hd qs)) = kept_files (sq_files q)"
      using Cons.prems(5) that s(5) by (cases qs) (auto simp: changes_noticed_def)
  qed
  moreover have "ss_watching st1 \<longrightarrow> changes_noticed qs"
    using Cons.prems(5) s(5) by (cases qs) (auto simp: changes_noticed_def)
  ultimately show ?case using Cons.IH[OF s(3,4)] Cons.prems(3) one s(1) by (auto simp: Let_def split: prod.splits)
qed simp

lemma new_snapshots_ok:
  "honest L R G N (new_snapshots w)" "lru_ok (new_snapshots w)"
  by (simp_all add: honest_def honest_json_def new_snapshots_def lru_ok_def effective_budget_def default_budget_def)


section \<open>A sample\<close>

text \<open>
  A library that writes a payload as its number in unary, so that every payload is read back,
  and compresses nothing; and a vault with one note.
\<close>

definition note_tuple :: "snapshot_note \<Rightarrow> string \<times> bytes \<times> int" where
  "note_tuple n = (sn_path n, sn_content n, sn_modified n)"

definition tuple_note :: "string \<times> bytes \<times> int \<Rightarrow> snapshot_note" where
  "tuple_note x = \<lparr>sn_path = fst x, sn_content = fst (snd x), sn_modified = snd (snd x)\<rparr>"

definition toy_slib :: snapshot_lib where
  "toy_slib = \<lparr>
     sl_marshal = (\<lambda>ns t. replicate (to_nat (map note_tuple ns, t)) CHR ''x''),
     sl_unmarshal = (\<lambda>b. let (ns, t) = from_nat (length b - 1) in Some (map tuple_note ns, t)),
     sl_gzip = id, sl_gunzip = Some, sl_sha = id\<rparr>"

lemma tuple_note_tuple [simp]: "tuple_note (note_tuple n) = n"
  by (simp add: tuple_note_def note_tuple_def)

lemma toy_slib_ok: "snapshot_lib_ok toy_slib"
  by (simp add: snapshot_lib_ok_def toy_slib_def comp_def)

definition toy_file :: snapshot_file where
  "toy_file = \<lparr>sf_external = False, sf_relative = ''plan.md'', sf_content = ''plan'', sf_modified = 5\<rparr>"

definition toy_plan_note :: snapshot_note where
  "toy_plan_note = \<lparr>sn_path = ''plan.md'', sn_content = ''plan'', sn_modified = 5\<rparr>"

lemma toy_notes: "notes_of [toy_file] = [toy_plan_note]"
  by (simp add: notes_of_def kept_files_def toy_file_def toy_plan_note_def max_note_bytes_def)

lemma toy_valid: "list_all valid_note [toy_plan_note]"
proof -
  have "valid_utf8 ''plan.md''" "valid_utf8 ''plan''" by code_simp+
  then show ?thesis by (simp add: valid_note_def toy_plan_note_def)
qed

definition toy_request :: snapshot_request where
  "toy_request = \<lparr>sq_files = [toy_file], sq_now = 9, sq_user = Some ann, sq_gzip = True, sq_perm = toy_perms,
     sq_noticed = False\<rparr>"

lemma toy_request_ok:
  "request_ok toy_slib (\<lambda>_. ps_rules toy_perms) (\<lambda>_. ps_groups toy_perms) (\<lambda>_. [toy_plan_note]) toy_request"
  using toy_coherent toy_rules(2) toy_valid
  by (simp add: request_ok_def toy_request_def toy_notes)

lemma ann_no_admin: "\<not> has_role ann ''admin''"
  by (simp add: has_role_def ann_def)


section \<open>Properties\<close>

text \<open>
  C10: A snapshot holds exactly what its reader may read.  From a new server, with a watcher or
  without, over any sequence of snapshot requests by any users, between which notes, document rules
  and groups change, every reply carries all notes of the vault for an administrator, and for anyone
  else exactly the notes for which the permission manager would answer yes at that moment, whether
  the reply was computed or came out of the cache; and the cache keeps one entry per user, its byte
  count is right, and it is within its budget unless a single entry alone is larger.  The notes of
  the vault are the files of at most the size limit that are not external links.  This is for
  requests without an entity tag of the client, whose walk over the vault succeeds, in a vault of
  valid UTF-8 and while the document rules parse, and if nobody hides a change: a modification time
  of a permission file stands for one content of it (\<open>R\<close>, \<open>G\<close>), an entity tag for one list of
  notes (\<open>N\<close>), and a watcher, if there is one, has reported a change before the next request.  JSON
  and gzip read back what they wrote.
\<close>

theorem snapshots_exact:
  assumes "snapshot_lib_ok L" and "list_all (request_ok L R G N) qs" and "watching \<longrightarrow> changes_noticed qs"
  shows "list_all2 (\<lambda>q r. shows_notes L (sq_gzip q) (expected_notes q) r) qs
      (fst (serve_requests L qs (new_snapshots watching)))
    \<and> lru_ok (snd (serve_requests L qs (new_snapshots watching)))"
  by (rule serve_requests_exact[OF assms(1) new_snapshots_ok assms(2)])
    (use assms(3) in \<open>auto simp: new_snapshots_def current_for_def mark_dirty_def\<close>)

text \<open>Two requests to a watching server between which the note was edited.\<close>

definition toy_request2 :: snapshot_request where
  "toy_request2 = toy_request\<lparr>sq_files := [toy_file\<lparr>sf_content := ''new'', sf_modified := 7\<rparr>], sq_noticed := True\<rparr>"

definition toy_contents :: "string \<Rightarrow> snapshot_note list" where
  "toy_contents tag = (if tag = vault_etag toy_slib [toy_file] then [toy_plan_note]
     else [toy_plan_note\<lparr>sn_content := ''new'', sn_modified := 7\<rparr>])"

lemma toy_request2_ok:
  "list_all (request_ok toy_slib (\<lambda>_. ps_rules toy_perms) (\<lambda>_. ps_groups toy_perms) toy_contents) [toy_request, toy_request2]"
proof -
  let ?fs = "[toy_file\<lparr>sf_content := ''new'', sf_modified := 7\<rparr>]"
  have n: "notes_of ?fs = [toy_plan_note\<lparr>sn_content := ''new'', sn_modified := 7\<rparr>]"
    by (simp add: notes_of_def kept_files_def toy_file_def toy_plan_note_def max_note_bytes_def)
  have "hex_encode (concat (map etag_line ?fs)) \<noteq> hex_encode (concat (map etag_line [toy_file]))" by code_simp
  then have t: "vault_etag toy_slib ?fs \<noteq> vault_etag toy_slib [toy_file]"
    by (simp add: vault_etag_def kept_files_def toy_slib_def toy_file_def max_note_bytes_def)
  have "valid_utf8 ''plan.md''" "valid_utf8 ''new''" by code_simp+
  then have v: "list_all valid_note (notes_of ?fs)" by (simp add: n valid_note_def toy_plan_note_def)
  show ?thesis
    using toy_request_ok v t n by (auto simp: request_ok_def toy_request2_def toy_request_def toy_contents_def toy_notes)
qed

theorem snapshots_exact_witness:
  "\<exists>r1 r2. fst (serve_requests toy_slib [toy_request, toy_request2] (new_snapshots True)) = [r1, r2]
     \<and> shows_notes toy_slib True (expected_notes toy_request) r1
     \<and> shows_notes toy_slib True (expected_notes toy_request2) r2"
proof -
  have "changes_noticed [toy_request, toy_request2]" by (simp add: changes_noticed_def toy_request2_def)
  then show ?thesis
    using snapshots_exact[OF toy_slib_ok toy_request2_ok, of True]
    by (auto simp: list_all2_Cons1 toy_request_def toy_request2_def)
qed

text \<open>
  The cache evicts the least recently used snapshots, and no more than it must.  Storing a
  snapshot of a user puts it first and keeps, in their order, the most recently used entries of
  the other users, as many as fit beside it: one entry more would exceed the budget.
\<close>

theorem eviction_is_least_recent:
  assumes "lru_ok st"
  shows "\<exists>k. ss_cache (store_user_snapshot user snap st)
        = (user, snap) # take k (filter (\<lambda>e. fst e \<noteq> user) (ss_cache st))
    \<and> (k = 0 \<or> ss_bytes (store_user_snapshot user snap st) \<le> effective_budget st)
    \<and> (k < length (filter (\<lambda>e. fst e \<noteq> user) (ss_cache st)) \<longrightarrow>
         effective_budget st < sum_list (map snap_size
           ((user, snap) # take (Suc k) (filter (\<lambda>e. fst e \<noteq> user) (ss_cache st)))))"
proof -
  define rest where "rest = filter (\<lambda>e. fst e \<noteq> user) (ss_cache st)"
  obtain k where k: "ss_cache (store_user_snapshot user snap st) = (user, snap) # take k rest"
    "k = 0 \<or> ss_bytes (store_user_snapshot user snap st) \<le> effective_budget st"
    "\<And>j. k < j \<Longrightarrow> j \<le> length rest \<Longrightarrow>
      effective_budget st < sum_list (map snap_size (take j rest)) + int (length (us_compressed snap))"
    unfolding rest_def by (rule store_user_snapshot_eq[OF assms]) blast
  have "k < length rest \<longrightarrow> effective_budget st < sum_list (map snap_size ((user, snap) # take (Suc k) rest))"
    using k(3)[of "Suc k"] by (auto simp: snap_size_def)
  then show ?thesis using k(1,2) unfolding rest_def[symmetric] by blast
qed

definition toy_entry :: "string \<Rightarrow> user_snapshot" where
  "toy_entry b = \<lparr>us_compressed = b, us_etag = [], us_admin_etag = [], us_perms_mtime = None, us_groups_mtime = None\<rparr>"

definition toy_cache :: snapshot_state where
  "toy_cache = (new_snapshots False)\<lparr>ss_cache := [(''ann'', toy_entry ''abc''), (''bob'', toy_entry ''defg'')],
     ss_bytes := 7, ss_budget := 8\<rparr>"

theorem eviction_is_least_recent_witness:
  "\<exists>k. ss_cache (store_user_snapshot ''cy'' (toy_entry ''hi'') toy_cache)
     = (''cy'', toy_entry ''hi'') # take k [(''ann'', toy_entry ''abc''), (''bob'', toy_entry ''defg'')]"
proof -
  have "lru_ok toy_cache"
    by (simp add: toy_cache_def new_snapshots_def lru_ok_def effective_budget_def snap_size_def toy_entry_def)
  moreover have "filter (\<lambda>e. fst e \<noteq> ''cy'') (ss_cache toy_cache) = [(''ann'', toy_entry ''abc''), (''bob'', toy_entry ''defg'')]"
    by (simp add: toy_cache_def)
  ultimately show ?thesis
    using eviction_is_least_recent[of toy_cache "''cy''" "toy_entry ''hi''"] by metis
qed

text \<open>
  C38: The entity tag of a user's snapshot does not depend on the permissions.  A user who was
  served a snapshot with a tag by a new server and asks again with that tag, the vault unchanged and
  nobody served between, is told that nothing was modified, whatever became of the document rules
  and groups meanwhile: documents newly shared with the user do not arrive, and documents withdrawn
  from the user stay with a client that revalidates.
\<close>

theorem tag_ignores_permissions:
  assumes "\<not> has_role u ''admin''"
    and "handle_snapshot L (Some fs) now (Some u) [] True p (new_snapshots w) = (Gzipped tag body, p1, st1)"
  shows "fst (handle_snapshot L (Some fs) now' (Some u) tag gz p2 st1) = NotModified tag"
proof -
  let ?plain = "sl_marshal L (notes_of fs) now @ [LF]"
  let ?new = "(new_snapshots w)\<lparr>ss_dirty := \<not> w, ss_etag := vault_etag L fs, ss_json := Some ?plain, ss_gzip := sl_gzip L ?plain\<rparr>"
  have first: "snapshot_payload L (Some fs) now (new_snapshots w)
      = (Inr (?plain, sl_gzip L ?plain, vault_etag L fs), ?new)"
    by (simp add: snapshot_payload_def new_snapshots_def Let_def)
  obtain ns gen where dec: "sl_unmarshal L ?plain = Some (ns, gen)"
    using assms(1,2) first
    by (cases "sl_unmarshal L ?plain")
      (auto simp: handle_snapshot_def snapshot_payload_filtered_def Let_def new_snapshots_def)
  let ?tag = "vault_etag L fs @ '':'' @ u_name u"
  obtain allowed p' where c: "can_read_many p (Some u) (map sn_path ns) = (allowed, p')" by fastforce
  define snap where "snap = \<lparr>us_compressed = sl_gzip L (sl_marshal L (filter (\<lambda>n. sn_path n \<in> set allowed) ns) gen @ [LF]),
      us_etag = ?tag, us_admin_etag = vault_etag L fs, us_perms_mtime = file_mtime (ps_rules p),
      us_groups_mtime = file_mtime (ps_groups p)\<rparr>"
  have snap: "us_etag snap = ?tag" by (simp add: snap_def)
  have tag: "tag = [CHR 0x22] @ ?tag @ [CHR 0x22]" and st1: "st1 = store_user_snapshot (u_name u) snap ?new"
    using assms(1,2) first dec c
    by (auto simp: handle_snapshot_def snapshot_payload_filtered_def Let_def new_snapshots_def snap_def)
  have keep: "ss_json st1 = Some ?plain" "ss_etag st1 = vault_etag L fs" "ss_cache st1 = [(u_name u, snap)]"
    unfolding st1 by (simp_all add: store_user_snapshot_def new_snapshots_def evict.simps Let_def)
  have again: "\<exists>g st'. snapshot_payload L (Some fs) now' st1 = (Inr (?plain, g, vault_etag L fs), st') \<and> ss_cache st' = ss_cache st1"
    using keep by (simp add: snapshot_payload_def)
  then have "\<exists>z p' st'. snapshot_payload_filtered L (Some fs) now' u p2 st1 = (Inr (z, ?tag), p', st')"
    using keep snap dec
    by (auto simp: snapshot_payload_filtered_def Let_def split: prod.splits)
  then show ?thesis using assms(1) tag by (auto simp: handle_snapshot_def)
qed

theorem tag_ignores_permissions_witness:
  "\<exists>tag body p1 st1. handle_snapshot toy_slib (Some [toy_file]) 9 (Some ann) [] True toy_perms (new_snapshots False)
       = (Gzipped tag body, p1, st1)
     \<and> fst (handle_snapshot toy_slib (Some [toy_file]) 10 (Some ann) tag True
         (new_manager Missing Missing (Stored (Json (Some [])) 2)) st1) = NotModified tag"
proof -
  have nw: "current_for toy_slib (sq_files toy_request) (new_snapshots False)" by (simp add: new_snapshots_def current_for_def)
  have u: "sq_user toy_request = Some ann" by (simp add: toy_request_def)
  obtain t tag p' st' where
    "snapshot_payload_filtered toy_slib (Some (sq_files toy_request)) 9 ann (sq_perm toy_request) (new_snapshots False)
      = (Inr (sl_gzip toy_slib (sl_marshal toy_slib (expected_notes toy_request) t @ [LF]), tag), p', st')"
    by (rule snapshot_filtered_step[OF toy_slib_ok nw new_snapshots_ok toy_request_ok u ann_no_admin])
  then have f: "snapshot_payload_filtered toy_slib (Some [toy_file]) 9 ann toy_perms (new_snapshots False)
      = (Inr (sl_gzip toy_slib (sl_marshal toy_slib (expected_notes toy_request) t @ [LF]), tag), p', st')"
    by (simp add: toy_request_def)
  then obtain body where "handle_snapshot toy_slib (Some [toy_file]) 9 (Some ann) [] True toy_perms (new_snapshots False)
       = (Gzipped ([CHR 0x22] @ tag @ [CHR 0x22]) body, p', st')"
    using ann_no_admin f by (simp add: handle_snapshot_def)
  then show ?thesis using tag_ignores_permissions[OF ann_no_admin] by blast
qed

text \<open>
  A failed walk leaves the watched snapshot stale.  With a watcher running, a request that
  finds the vault changed but fails to read it clears the mark all the same; the next request is
  answered with the snapshot of before the change, whatever the vault holds, until another
  file event arrives.
\<close>

theorem failed_walk_serves_stale:
  assumes "ss_watching st" and "ss_json st = Some plain" and "ss_dirty st"
    and "handle_snapshot L None now user m gz p st = (r1, p1, st1)"
    and "case user of None \<Rightarrow> True | Some u \<Rightarrow> has_role u ''admin''"
    and "m' \<noteq> [CHR 0x22] @ ss_etag st @ [CHR 0x22]"
  shows "r1 = SnapError WalkFailed
    \<and> fst (handle_snapshot L (Some fs) now' user m' False p1 st1) = Plain ([CHR 0x22] @ ss_etag st @ [CHR 0x22]) plain"
proof -
  have one: "snapshot_payload L None now st = (Inl WalkFailed, st\<lparr>ss_dirty := False\<rparr>)"
    using assms(1,3) by (simp add: snapshot_payload_def)
  then have r: "r1 = SnapError WalkFailed" "st1 = st\<lparr>ss_dirty := False\<rparr>"
    using assms(4,5) by (auto simp: handle_snapshot_def)
  have "snapshot_payload L (Some fs) now' st1 = (Inr (plain, ss_gzip st, ss_etag st), st1)"
    using assms(1,2) r(2) by (simp add: snapshot_payload_def)
  then show ?thesis using r(1) assms(5,6) by (auto simp: handle_snapshot_def)
qed

theorem failed_walk_serves_stale_witness:
  "fst (handle_snapshot toy_slib (Some [toy_file]) 10 None [] False toy_perms
     (snd (snd (handle_snapshot toy_slib None 9 None [] False toy_perms
       ((new_snapshots True)\<lparr>ss_json := Some ''old'', ss_etag := ''e''\<rparr>))))) = Plain ([CHR 0x22] @ ''e'' @ [CHR 0x22]) ''old''"
proof -
  let ?st = "(new_snapshots True)\<lparr>ss_json := Some ''old'', ss_etag := ''e''\<rparr>"
  obtain r1 p1 st1 where one: "handle_snapshot toy_slib None 9 None [] False toy_perms ?st = (r1, p1, st1)"
    by (metis prod_cases3)
  have "p1 = toy_perms" using one by (auto simp: handle_snapshot_def split: prod.splits sum.splits if_splits option.splits)
  then show ?thesis
    using failed_walk_serves_stale[OF _ _ _ one, of "''old''" "[]" "[toy_file]" 10] one
    by (simp add: new_snapshots_def)
qed

end
