(* ===== verification/Worker.thy ===== *)
theory Worker
  imports Server_Security Go_Text
begin

text \<open>
  The OCR worker (\<open>internal/selfhost/worker.go\<close>) against the server it polls, and the
  plausibility guard on what the engine returns (\<open>internal/ingest/guard.go\<close>).

  A call of the worker is a route of the server model; it is delivered, or lost on its way, or
  its reply is.  Each call meets the server with an environment (clock, random bytes) of its
  own, and carries a body within the server's limits.  The OCR engines, Unicode letter tests and
  case, and the table of MIME types are parameters.  The ratio of distinct words is compared with
  one tenth in exact arithmetic, which for at most 10000 words is what the floating-point
  comparison gives.
\<close>

section \<open>The plausibility guard\<close>

record ocr_lib =
  ol_trim :: "string \<Rightarrow> string"
  ol_lower :: "string \<Rightarrow> string"
  ol_mime :: "string \<Rightarrow> string list"
  ol_ingest :: "nat \<Rightarrow> string \<Rightarrow> bytes \<Rightarrow> string + string \<times> string \<times> string"

text \<open>\<open>strings.Fields\<close>.\<close>

definition emit :: "string \<Rightarrow> string list" where
  "emit acc = (if acc = [] then [] else [acc])"

function fields_loop :: "string \<Rightarrow> string \<Rightarrow> string list" where
  "fields_loop acc s =
     (if s = [] then emit acc
      else if space_at s > 0 then emit acc @ fields_loop [] (drop (space_at s) s)
      else fields_loop (acc @ [hd s]) (tl s))"
  by pat_completeness auto
termination
  by (relation "measure (\<lambda>(acc, s). length s)") auto

declare fields_loop.simps [simp del]

definition text_fields :: "string \<Rightarrow> string list" where
  "text_fields s = fields_loop [] s"

definition normalized_words :: "ocr_lib \<Rightarrow> string \<Rightarrow> string list" where
  "normalized_words OL text =
     map (ol_lower OL) (filter (\<lambda>w. w \<noteq> []) (map (ol_trim OL) (text_fields text)))"

record verdict =
  vd_ok :: bool
  vd_reason :: string
  vd_words :: nat
  vd_unique :: nat

definition max_plausible_words :: nat where "max_plausible_words = 10000"

definition min_ratio_words :: nat where "min_ratio_words = 100"

definition guard_fallback_words :: nat where "guard_fallback_words = 100"

definition unique_count :: "string list \<Rightarrow> nat" where
  "unique_count ws = length (remdups ws)"

definition inspect_text :: "ocr_lib \<Rightarrow> string \<Rightarrow> verdict" where
  "inspect_text OL text =
     (let ws = normalized_words OL text; v = \<lparr>vd_ok = True, vd_reason = [], vd_words = length ws, vd_unique = 0\<rparr> in
      if ws = [] then v\<lparr>vd_reason := ''empty text is not rejected''\<rparr>
      else if length ws > max_plausible_words
      then v\<lparr>vd_ok := False, vd_reason := ''word count exceeds plausibility limit''\<rparr>
      else let v = v\<lparr>vd_unique := unique_count ws\<rparr> in
      if length ws \<ge> min_ratio_words \<and> 10 * vd_unique v < length ws
      then v\<lparr>vd_ok := False, vd_reason := ''unique-word ratio is below plausibility limit''\<rparr>
      else v)"

definition truncate_text :: "string \<Rightarrow> nat \<Rightarrow> string" where
  "truncate_text text n =
     (if n = 0 then []
      else if length (text_fields text) \<le> n then text
      else join_with '' '' (take n (text_fields text)))"

definition process_job :: "ocr_lib \<Rightarrow> string \<Rightarrow> bytes \<Rightarrow> string + string \<times> string \<times> string" where
  "process_job OL ext input =
     bind_err (ol_ingest OL 1 ext input) (\<lambda>(text, engine, model).
       let v = inspect_text OL text in
       if vd_ok v then Inr (text, engine, model)
       else (case ol_ingest OL 2 ext input of
           Inl e \<Rightarrow> Inl (''OCR plausibility retry failed after '' @ vd_reason v @ '': '' @ e)
         | Inr (text2, engine2, model2) \<Rightarrow>
             let v2 = inspect_text OL text2 in
             if vd_ok v2 then Inr (text2, engine2, model2)
             else Inr (truncate_text text2 guard_fallback_words,
                       engine2 @ ''; guard=truncated('' @ vd_reason v2 @ '')'', model2)))"


section \<open>Calls\<close>

datatype delivery = Delivered | Lost | ReplyLost

definition call_server :: "server_env \<Rightarrow> delivery \<Rightarrow> request \<Rightarrow> route \<Rightarrow> server \<Rightarrow> reply option \<times> server" where
  "call_server E d rq rt sv =
     (case d of
        Lost \<Rightarrow> (None, sv)
      | ReplyLost \<Rightarrow> (None, snd (serve_route E rq rt sv))
      | Delivered \<Rightarrow> (let (r, sv) = serve_route E rq rt sv in (Some r, sv)))"

record worker =
  wk_server :: string
  wk_token :: string
  wk_id :: string
  wk_engine :: string
  wk_ollama :: string
  wk_language :: string
  wk_poll :: int

text \<open>What \<open>url.Parse\<close> gives; \<open>ur_text\<close> is its \<open>String\<close>.\<close>

record url =
  ur_scheme :: string
  ur_host :: string
  ur_path :: string
  ur_query :: string
  ur_fragment :: string
  ur_has_user :: bool
  ur_text :: string

definition is_bare_http_url :: "url option \<Rightarrow> bool" where
  "is_bare_http_url v \<longleftrightarrow>
     (case v of
        None \<Rightarrow> False
      | Some u \<Rightarrow> (ur_scheme u = ''http'' \<or> ur_scheme u = ''https'') \<and> ur_host u \<noteq> []
          \<and> (ur_path u = [] \<or> ur_path u = ''/'') \<and> ur_query u = [] \<and> ur_fragment u = [] \<and> \<not> ur_has_user u)"

definition trim_slashes :: "string \<Rightarrow> string" where
  "trim_slashes s = rev (dropWhile (\<lambda>c. c = CHR ''/'') (rev s))"

datatype config_error = BadServer | ShortToken | BadOllama

text \<open>The host name with the platform, which names a worker without an id, is an argument.\<close>

definition new_worker :: "(string \<Rightarrow> url option) \<Rightarrow> string \<Rightarrow> worker \<Rightarrow> config_error + worker" where
  "new_worker parse_url host cfg =
     (let base = parse_url (trim_slashes (wk_server cfg)) in
      if \<not> is_bare_http_url base then Inl BadServer
      else let cfg = cfg\<lparr>wk_server := trim_slashes (ur_text (the base))\<rparr> in
      if length (wk_token cfg) < 32 then Inl ShortToken
      else let cfg = (if wk_id cfg = [] then cfg\<lparr>wk_id := host\<rparr> else cfg);
               cfg = (if wk_engine cfg = [] then cfg\<lparr>wk_engine := ''auto''\<rparr> else cfg);
               cfg = (if wk_language cfg = [] then cfg\<lparr>wk_language := ''deu+eng''\<rparr> else cfg);
               cfg = (if wk_poll cfg \<le> 0 then cfg\<lparr>wk_poll := seconds 5\<rparr> else cfg);
               cfg = (if wk_ollama cfg = [] then cfg\<lparr>wk_ollama := ''http://127.0.0.1:11434''\<rparr> else cfg);
               ollama = parse_url (trim_slashes (wk_ollama cfg)) in
      if \<not> is_bare_http_url ollama then Inl BadOllama
      else Inr (cfg\<lparr>wk_ollama := trim_slashes (ur_text (the ollama))\<rparr>))"

definition worker_request :: "string \<Rightarrow> worker \<Rightarrow> request" where
  "worker_request remote w = \<lparr>rq_authorization = ''Bearer '' @ wk_token w, rq_remote = remote\<rparr>"

datatype worker_error = Network | Refused reply | InputTooLarge | OcrFailed string

definition max_upload_bytes :: nat where
  "max_upload_bytes = 104857600"

text \<open>No job, a job, or an error.\<close>

definition leased_job :: "reply option \<Rightarrow> worker_error + job option" where
  "leased_job r =
     (case r of
        None \<Rightarrow> Inl Network
      | Some NoContent \<Rightarrow> Inr None
      | Some (JobBody j) \<Rightarrow> Inr (Some j)
      | Some other \<Rightarrow> Inl (Refused other))"

definition input_ext :: "ocr_lib \<Rightarrow> job \<Rightarrow> string" where
  "input_ext OL j =
     (let ext = file_ext (base_name (j_name j)) in
      if ext = [] then (case ol_mime OL (j_type j) of [] \<Rightarrow> [] | e # _ \<Rightarrow> e) else ext)"

definition downloaded :: "reply option \<Rightarrow> worker_error + bytes" where
  "downloaded r =
     (case r of
        None \<Rightarrow> Inl Network
      | Some (File _ _ _ content) \<Rightarrow> if length content > max_upload_bytes then Inl InputTooLarge else Inr content
      | Some other \<Rightarrow> Inl (Refused other))"

definition completed_call :: "reply option \<Rightarrow> worker_error option" where
  "completed_call r =
     (case r of
        None \<Rightarrow> Some Network
      | Some (JobBody _) \<Rightarrow> None
      | Some other \<Rightarrow> Some (Refused other))"

text \<open>
  One round of the worker: whether it processed a job, the error it reports, and the server
  after it.  Call \<open>k\<close> meets the server in environment \<open>E k\<close> and is delivered as \<open>net k\<close>.
\<close>

definition run_once ::
    "ocr_lib \<Rightarrow> (worker_error \<Rightarrow> string) \<Rightarrow> (nat \<Rightarrow> server_env) \<Rightarrow> (nat \<Rightarrow> delivery) \<Rightarrow> request \<Rightarrow> worker \<Rightarrow> server
     \<Rightarrow> (bool \<times> worker_error option) \<times> server" where
  "run_once OL msg E net rq w sv =
     (let (r, sv) = call_server (E 0) (net 0) rq (LeaseJob (Some (wk_id w, [''ocr'']))) sv in
      case leased_job r of
        Inl e \<Rightarrow> ((False, Some e), sv)
      | Inr None \<Rightarrow> ((False, None), sv)
      | Inr (Some j) \<Rightarrow>
          let fail = (\<lambda>e retry. FailJob (Some \<lparr>fa_job = j_id j, fa_worker = wk_id w, fa_error = msg e, fa_retry = retry\<rparr>));
              (r, sv) = call_server (E 1) (net 1) rq (WorkerInput (j_id j)) sv in
          (case downloaded r of
             Inl e \<Rightarrow> (let (_, sv) = call_server (E 2) (net 2) rq (fail e True) sv in ((True, Some e), sv))
           | Inr input \<Rightarrow>
               (case process_job OL (input_ext OL j) input of
                  Inl m \<Rightarrow>
                    (let (_, sv) = call_server (E 2) (net 2) rq (fail (OcrFailed m) False) sv
                     in ((True, Some (OcrFailed m)), sv))
                | Inr (text, engine, model) \<Rightarrow>
                    (let (r, sv) = call_server (E 2) (net 2) rq (CompleteJob (Some \<lparr>co_job = j_id j, co_worker = wk_id w,
                           co_text = text, co_engine = engine, co_model = model\<rparr>)) sv
                     in ((True, completed_call r), sv)))))"


section \<open>Words\<close>

text \<open>No space starts inside a word that a blank follows, if none starts inside the word itself.\<close>

lemma space_encodings_blank:
  "e \<in> set space_encodings \<Longrightarrow> CHR '' '' \<in> set e \<Longrightarrow> e = '' ''"
  by (auto simp: space_encodings_def)

lemma space_at_zero: "space_at s = 0 \<longleftrightarrow> (\<forall>e \<in> set space_encodings. \<not> has_prefix s e)"
proof (cases "find (has_prefix s) space_encodings")
  case None
  then have "\<forall>e \<in> set space_encodings. \<not> has_prefix s e" by (auto simp: find_None_iff)
  moreover have "space_at s = 0" using None by (simp add: space_at_def)
  ultimately show ?thesis by simp
next
  case (Some e)
  then have e: "e \<in> set space_encodings" "has_prefix s e" by (auto simp: find_Some_iff)
  then have "length e \<noteq> 0" by (auto simp: space_encodings_def)
  then show ?thesis using Some e by (auto simp: space_at_def)
qed

lemma space_at_before_blank:
  assumes "w \<noteq> []" and "space_at (w @ x) = 0"
  shows "space_at (w @ '' '' @ y) = 0"
  unfolding space_at_zero
proof
  fix e assume e: "e \<in> set space_encodings"
  show "\<not> has_prefix (w @ '' '' @ y) e"
  proof
    assume pre: "has_prefix (w @ '' '' @ y) e"
    show False
    proof (cases "length e \<le> length w")
      case True
      then have "has_prefix (w @ x) e" using pre by (simp add: has_prefix_def)
      then show False using assms(2) e by (simp add: space_at_zero)
    next
      case False
      then have "e = w @ take (length e - length w) ('' '' @ y)" using pre by (simp add: has_prefix_def)
      moreover have "CHR '' '' \<in> set (take (length e - length w) ('' '' @ y))" using False by (cases "length e - length w") auto
      ultimately have "CHR '' '' \<in> set e" by (metis Un_iff set_append)
      then have "e = '' ''" using space_encodings_blank[OF e] by blast
      then show False using False assms(1) by (cases w) auto
    qed
  qed
qed

text \<open>A word: no space starts in it.\<close>

definition spacefree :: "string \<Rightarrow> bool" where
  "spacefree w \<longleftrightarrow> w \<noteq> [] \<and> (\<exists>x. \<forall>i < length w. space_at (drop i w @ x) = 0)"

lemma fields_loop_spacefree:
  assumes "\<forall>i < length acc. space_at (drop i acc @ s) = 0"
  shows "list_all spacefree (fields_loop acc s)"
  using assms
proof (induction acc s rule: fields_loop.induct)
  case (1 acc s)
  have word: "list_all spacefree (emit acc)"
    using 1(3) by (auto simp: emit_def spacefree_def)
  consider (nil) "s = []" | (space) "s \<noteq> []" "space_at s > 0" | (more) "s \<noteq> []" "space_at s = 0" by blast
  then show ?case
  proof cases
    case nil
    then show ?thesis using word by (simp add: fields_loop.simps)
  next
    case space
    then show ?thesis using word 1(1) by (subst fields_loop.simps) simp
  next
    case more
    have "\<forall>i < length (acc @ [hd s]). space_at (drop i (acc @ [hd s]) @ tl s) = 0"
      using 1(3) more by (auto simp: less_Suc_eq)
    then show ?thesis using 1(2) more by (subst fields_loop.simps) simp
  qed
qed

lemma fields_spacefree: "list_all spacefree (text_fields s)"
  unfolding text_fields_def by (rule fields_loop_spacefree) simp

lemma space_at_blank: "space_at ('' '' @ y) = 1"
  by (simp add: space_at_def space_encodings_def has_prefix_def)

lemma fields_loop_word:
  assumes "\<forall>i < length w. space_at (drop i w @ y) = 0"
  shows "fields_loop acc (w @ y) = fields_loop (acc @ w) y"
  using assms
proof (induction w arbitrary: acc)
  case (Cons c w)
  have "space_at ((c # w) @ y) = 0" using Cons.prems by (metis drop0 length_greater_0_conv list.discI)
  moreover have "\<forall>i < length w. space_at (drop i w @ y) = 0"
    using Cons.prems by (metis Suc_less_eq drop_Suc_Cons length_Cons)
  ultimately show ?case using Cons.IH[of "acc @ [c]"] by (subst fields_loop.simps) simp
qed simp

lemma spacefree_before_blank:
  assumes "spacefree w" and "i < length w"
  shows "space_at (drop i w @ '' '' @ y) = 0"
  using assms space_at_before_blank[of "drop i w"] by (auto simp: spacefree_def)

lemma spacefree_alone:
  assumes "spacefree w" and "i < length w"
  shows "space_at (drop i w @ []) = 0"
proof -
  have "space_at (drop i w @ '' '' @ []) = 0" by (rule spacefree_before_blank[OF assms])
  then have no: "\<not> has_prefix (drop i w @ '' '') e" if "e \<in> set space_encodings" for e
    using that by (simp add: space_at_zero)
  show ?thesis
    unfolding space_at_zero
  proof
    fix e assume e: "e \<in> set space_encodings"
    show "\<not> has_prefix (drop i w @ []) e"
    proof
      assume p: "has_prefix (drop i w @ []) e"
      then have "length e \<le> length (drop i w)" by (metis append_Nil2 has_prefix_def length_take min.cobounded1)
      then have "has_prefix (drop i w @ '' '') e" using p by (simp add: has_prefix_def)
      then show False using no e by blast
    qed
  qed
qed

lemma fields_join: "list_all spacefree ws \<Longrightarrow> text_fields (join_with '' '' ws) = ws"
proof (induction "'' ''" ws rule: join_with.induct)
  case 1
  then show ?case by (simp add: text_fields_def fields_loop.simps emit_def)
next
  case (2 x)
  have "fields_loop [] (x @ []) = fields_loop x []"
    using 2 spacefree_alone by (subst fields_loop_word) auto
  then show ?case using 2 by (simp add: text_fields_def fields_loop.simps[of x "[]"] emit_def spacefree_def)
next
  case (3 x y xs)
  have "fields_loop [] (x @ '' '' @ join_with '' '' (y # xs)) = fields_loop x ('' '' @ join_with '' '' (y # xs))"
    using 3(2) spacefree_before_blank by (subst fields_loop_word) auto
  also have "\<dots> = [x] @ fields_loop [] (join_with '' '' (y # xs))"
    using 3(2) space_at_blank by (subst fields_loop.simps) (auto simp: emit_def spacefree_def)
  finally show ?case using 3 by (simp add: text_fields_def)
qed

lemma truncate_words: "length (text_fields (truncate_text text n)) \<le> n"
proof -
  have "list_all spacefree (take n (text_fields text))"
    using fields_spacefree[of "text"] by (auto simp: list_all_iff dest: in_set_takeD)
  moreover have "text_fields [] = []" by (simp add: text_fields_def fields_loop.simps emit_def)
  ultimately show ?thesis by (auto simp: truncate_text_def fields_join)
qed

lemma normalized_le: "length (normalized_words OL text) \<le> length (text_fields text)"
  using length_filter_le[of "\<lambda>w. w \<noteq> []" "map (ol_trim OL) (text_fields text)"] by (simp add: normalized_words_def)

lemma inspect_ok:
  assumes "vd_ok (inspect_text OL text)"
  shows "length (normalized_words OL text) \<le> max_plausible_words
    \<and> (length (normalized_words OL text) < min_ratio_words
       \<or> length (normalized_words OL text) \<le> 10 * unique_count (normalized_words OL text))"
  using assms by (auto simp: inspect_text_def Let_def min_ratio_words_def split: if_splits)


section \<open>A round of the worker\<close>

lemma process_job_bounded:
  assumes "process_job OL ext input = Inr (tx, engine, model)"
  shows "length (normalized_words OL tx) \<le> max_plausible_words
    \<and> (length (normalized_words OL tx) < min_ratio_words
       \<or> length (normalized_words OL tx) \<le> 10 * unique_count (normalized_words OL tx)
       \<or> length (text_fields tx) \<le> guard_fallback_words)"
proof -
  obtain t1 e1 m1 where one: "ol_ingest OL 1 ext input = Inr (t1, e1, m1)"
    using assms by (auto simp: process_job_def bind_err_Inr)
  show ?thesis
  proof (cases "vd_ok (inspect_text OL t1)")
    case True
    then have "tx = t1" using assms one by (simp add: process_job_def Let_def)
    then show ?thesis using inspect_ok True by blast
  next
    case False
    then obtain t2 e2 m2 where two: "ol_ingest OL 2 ext input = Inr (t2, e2, m2)"
      using assms one by (auto simp: process_job_def Let_def split: sum.splits)
    show ?thesis
    proof (cases "vd_ok (inspect_text OL t2)")
      case True
      then have "tx = t2" using assms one two False by (simp add: process_job_def Let_def)
      then show ?thesis using inspect_ok True by blast
    next
      case bad: False
      then have t: "tx = truncate_text t2 guard_fallback_words"
        using assms one two False by (simp add: process_job_def Let_def)
      have "length (text_fields tx) \<le> guard_fallback_words" unfolding t by (rule truncate_words)
      then show ?thesis
        using normalized_le[of OL tx] by (simp add: guard_fallback_words_def max_plausible_words_def)
    qed
  qed
qed

text \<open>The answer to a caller depends on the accounts and the tokens alone.\<close>

lemma auth_cong:
  assumes "fst (auth E rq sv) = Inr u" and "sv_perm sv' = sv_perm sv" and "sv_token sv' = sv_token sv"
    and "sv_worker_token sv' = sv_worker_token sv"
  shows "auth E rq sv' = (Inr u, sv')"
proof -
  have "legacy_token_role sv' = legacy_token_role sv"
    using assms(3,4) by (simp add: legacy_token_role_def fun_eq_iff)
  then have "fst (auth E rq sv') = Inr u"
    using assms(1,2) by (auto simp: auth_def Let_def split: sum.splits prod.splits if_splits)
  then show ?thesis by (rule auth_frame(2))
qed

text \<open>
  A waiting job can be worked off: it fits its file, its source is a file of the vault that is
  not too large, the engines give a text for it, and the note of that text can be written.
\<close>

definition workable ::
    "ocr_lib \<Rightarrow> (nat \<Rightarrow> server_env) \<Rightarrow> worker \<Rightarrow> server \<Rightarrow> job \<Rightarrow> string \<times> string \<times> string \<Rightarrow> bool" where
  "workable OL E w sv j out \<longleftrightarrow>
     (let l = leased (se_now (E 0)) lease_minutes (wk_id w) j;
          result = (case out of (tx, engine, model) \<Rightarrow>
            \<lparr>co_job = j_id j, co_worker = wk_id w, co_text = tx, co_engine = engine, co_model = model\<rparr>) in
      (\<forall>k. se_size (E k) l \<le> max_job_bytes) \<and>
      resolve_request_path (j_source l) = Inr (j_source l) \<and>
      (case sv_vault sv (j_source l) of
         Some (Regular content) \<Rightarrow> length content \<le> max_upload_bytes \<and> process_job OL (input_ext OL l) content = Inr out
       | _ \<Rightarrow> False) \<and>
      resolve_request_path (note_path l) = Inr (note_path l) \<and>
      (case se_yaml (E 2) (note_meta (E 2) l result) of
         None \<Rightarrow> False
       | Some fm \<Rightarrow> write_vault (note_path l) (note_body fm l result) (sv_vault sv) \<noteq> None
           \<and> se_index (E 2) (note_path l) (note_body fm l result)))"

lemma leased_kept [simp]:
  "j_source (leased t d v j) = j_source j" "j_name (leased t d v j) = j_name j" "j_type (leased t d v j) = j_type j"
  by (simp_all add: leased_def reclaim_def)

lemma lease_job_some:
  assumes "sort_ok S" and "wf_jobs dir" and "read_all sz dir = Inr js" and "j1 \<in> set js" "eligible now j1"
  shows "\<exists>j dir'. lease_job sz S now v [''ocr''] d dir = (Inr j, dir')"
proof -
  have m: "set (S j_created js) = set js" "sorted (map j_created (S j_created js))"
    using assms(1) by (metis sort_ok_def set_mset_mset, simp add: sort_ok_def)
  obtain l where l: "lease_first now d v (S j_created js) = Some l"
    using assms(4,5) m(1) by (fastforce simp: lease_first_find find_None_iff)
  obtain j0 where j0: "j0 \<in> set js" "l = leased now d v j0"
    using lease_first_Some[OF l m(2)] m(1) by blast
  obtain i where "read_job sz i dir = Inr j0" using j0(1) read_all_set[OF assms(3)] by blast
  then have "valid_job_id (j_id l)" using wf_id[OF assms(2)] j0(2) by (auto simp: read_job_Inr)
  then show ?thesis using assms(3) l by (simp add: lease_job_def)
qed

lemma call_delivered:
  "auth E rq sv = (Inr u, sv) \<Longrightarrow> call_server E Delivered rq rt sv = (Some (fst (dispatch E (Some u) rt sv)), snd (dispatch E (Some u) rt sv))"
  by (simp add: call_server_def serve_route_def split: prod.split)

lemma run_once_completes_facts:
  assumes auths: "\<And>k. fst (auth (E k) rq sv) = Inr u"
    and net: "\<And>k. net k = Delivered"
    and jobs: "sort_ok (se_sort (E 0))" "wf_jobs (sv_jobs sv)" "read_all (se_size (E 0)) (sv_jobs sv) = Inr js"
    and some: "j1 \<in> set js" "eligible (se_now (E 0)) j1"
    and work: "\<And>j. j \<in> set js \<Longrightarrow> eligible (se_now (E 0)) j \<Longrightarrow>
      (\<And>k. k \<in> set js \<Longrightarrow> eligible (se_now (E 0)) k \<Longrightarrow> j_created j \<le> j_created k) \<Longrightarrow> \<exists>out. workable OL E w sv j out"
    and w: "trim_space (wk_id w) \<noteq> []"
  shows "\<exists>j sv' fin content. j \<in> set js \<and> eligible (se_now (E 0)) j
    \<and> (\<forall>k \<in> set js. eligible (se_now (E 0)) k \<longrightarrow> j_created j \<le> j_created k)
    \<and> run_once OL msg E net rq w sv = ((True, None), sv')
    \<and> map_of (sv_jobs sv') (j_id j) = Some (JobFile fin) \<and> j_status fin = ''completed''
    \<and> sv_vault sv' (j_note fin) = Some (Regular content)"
proof -
  let ?now = "se_now (E 0)"
  obtain l dir where lj: "lease_job (se_size (E 0)) (se_sort (E 0)) ?now (wk_id w) [''ocr''] lease_minutes (sv_jobs sv) = (Inr l, dir)"
    using lease_job_some[OF jobs some] by blast
  obtain j where j: "read_job (se_size (E 0)) (j_id l) (sv_jobs sv) = Inr j" "eligible ?now j"
    "l = leased ?now lease_minutes (wk_id w) j" "dir = put_job_file (j_id l) (JobFile l) (sv_jobs sv)"
    and oldest: "\<forall>i k. read_job (se_size (E 0)) i (sv_jobs sv) = Inr k \<longrightarrow> eligible ?now k \<longrightarrow> j_created j \<le> j_created k"
    using lease_job_facts[OF jobs(1,2) lj] by blast
  have js: "j \<in> set js" using j(1) read_all_set[OF jobs(3)] by blast
  obtain tx engine model where work1: "workable OL E w sv j (tx, engine, model)"
    using work[OF js j(2)] oldest read_all_set[OF jobs(3)] by (metis prod_cases3)
  define result where "result = \<lparr>co_job = j_id l, co_worker = wk_id w, co_text = tx, co_engine = engine, co_model = model\<rparr>"
  note wk = work1[unfolded workable_def Let_def prod.case j(3)[symmetric]]
  have id: "j_id l = j_id j" "valid_job_id (j_id l)" using j(1,3) by (simp_all add: read_job_Inr)
  obtain content where src: "sv_vault sv (j_source l) = Some (Regular content)" "length content \<le> max_upload_bytes"
    "process_job OL (input_ext OL l) content = Inr (tx, engine, model)"
    using wk j(3) by (auto split: option.splits vault_file.splits)
  obtain fm v where nt: "resolve_request_path (note_path l) = Inr (note_path l)"
    "se_yaml (E 2) (note_meta (E 2) l result) = Some fm"
    "write_vault (note_path l) (note_body fm l result) (sv_vault sv) = Some v"
    "se_index (E 2) (note_path l) (note_body fm l result)"
    using wk id(1) unfolding result_def by (auto split: option.splits)
  let ?sv1 = "sv\<lparr>sv_jobs := dir\<rparr>"
  have read1: "read_job (se_size (E k)) (j_id l) dir = Inr l" for k
    using wk id(2) by (simp add: read_job_Inr j(4))
  have a0: "auth (E 0) rq sv = (Inr u, sv)" using auths auth_frame(2) by blast
  have a1: "auth (E k) rq ?sv1 = (Inr u, ?sv1)" for k by (rule auth_cong[OF auths]) simp_all
  have c0: "call_server (E 0) Delivered rq (LeaseJob (Some (wk_id w, [''ocr'']))) sv = (Some (JobBody l), ?sv1)"
    using lj w by (simp add: call_delivered[OF a0] dispatch_def handle_lease_def)
  obtain fname where c1: "call_server (E 1) Delivered rq (WorkerInput (j_id l)) ?sv1
      = (Some (File (j_source l) ''attachment'' fname content), ?sv1)"
    using read1[of 1] src(1) wk j(3)
    by (simp add: call_delivered[OF a1] dispatch_def handle_worker_input_def get_job_def serve_vault_file_def)
  let ?fin = "l\<lparr>j_status := ''completed'', j_engine := engine, j_model := model, j_note := note_path l,
      j_lease := None, j_error := [], j_updated := se_now (E 2)\<rparr>"
  let ?sv2 = "?sv1\<lparr>sv_vault := v, sv_jobs := put_job_file (j_id l) (JobFile ?fin) dir\<rparr>"
  have st: "j_status l = ''processing''" "j_worker l = wk_id w" using j(3) by simp_all
  have "write_completed_note (E 2) l result ?sv1 = (Inr (note_path l), ?sv1\<lparr>sv_vault := v\<rparr>)"
    using nt by (simp add: write_completed_note_def Let_def)
  moreover have "complete_job (se_size (E 2)) (se_now (E 2)) (j_id l) (wk_id w) engine model (note_path l) dir
      = (Inr ?fin, put_job_file (j_id l) (JobFile ?fin) dir)"
    using read1[of 2] st id(2) by (simp add: complete_job_def)
  ultimately have c2: "call_server (E 2) Delivered rq (CompleteJob (Some result)) ?sv1 = (Some (JobBody ?fin), ?sv2)"
    using read1[of 2] st by (simp add: call_delivered[OF a1] dispatch_def handle_complete_def get_job_def result_def)
  have "run_once OL msg E net rq w sv = ((True, None), ?sv2)"
    using c0 c1 c2 src(2,3)
    by (simp add: run_once_def net leased_job_def downloaded_def completed_call_def result_def Let_def)
  moreover have "map_of (sv_jobs ?sv2) (j_id j) = Some (JobFile ?fin)" by (simp add: id(1))
  moreover have "sv_vault ?sv2 (j_note ?fin) = Some (Regular (note_body fm l result))"
    using write_vault_at[OF nt(3)] by simp
  ultimately show ?thesis
    using js j(2) oldest read_all_set[OF jobs(3)]
    by (intro exI[of _ j] exI[of _ ?sv2] exI[of _ ?fin] exI[of _ "note_body fm l result"]) auto
qed


section \<open>A worker of the concrete server\<close>

definition toy_ocr :: ocr_lib where
  "toy_ocr = \<lparr>ol_trim = id, ol_lower = id, ol_mime = \<lambda>_. [], ol_ingest = \<lambda>n ext input. Inr (''read '' @ input, ''tesseract'', [])\<rparr>"

definition toy_poller :: worker where
  "toy_poller = \<lparr>wk_server = ''http://desk'', wk_token = worker_tok, wk_id = ''w1'', wk_engine = ''auto'',
     wk_ollama = ''http://127.0.0.1:11434'', wk_language = ''deu+eng'', wk_poll = seconds 5\<rparr>"

definition plan_job :: job where
  "plan_job = toy_job\<lparr>j_source := ''plan.md''\<rparr>"

lemma plan_job_facts:
  "j_id plan_job = toy_id" "j_source plan_job = ''plan.md''" "j_name plan_job = ''a.pdf''" "eligible 7 plan_job"
  by (simp_all add: plan_job_def toy_job_def new_job_def eligible_def reclaim_def)

lemma plan_jobs: "sv_jobs toy_server = [(toy_id, JobFile plan_job)]" "wf_jobs [(toy_id, JobFile plan_job)]"
  by (simp_all add: toy_server_def plan_job_def toy_job_def new_job_def wf_jobs_def)

lemma plan_read: "read_all (\<lambda>_. 0) [(toy_id, JobFile plan_job)] = Inr [plan_job]"
  by (simp add: read_all_def read_job_def toy_id_valid)

lemma plan_worked: "process_job toy_ocr ext ''the plan'' = Inr (''read the plan'', ''tesseract'', [])"
proof -
  have "vd_ok (inspect_text toy_ocr ''read the plan'')" by code_simp
  then show ?thesis by (simp add: process_job_def toy_ocr_def Let_def)
qed

lemma plan_note: "note_path (leased 7 d v plan_job) = ''inbox/a-00000000.md''"
proof -
  have "note_base ''a.pdf'' = ''a''" by code_simp
  moreover have "take 8 toy_id = ''00000000''" by code_simp
  ultimately show ?thesis by (simp add: note_path_def plan_job_facts)
qed

lemma plan_workable: "workable toy_ocr (\<lambda>_. toy_env 7) toy_poller toy_server plan_job (''read the plan'', ''tesseract'', [])"
proof -
  have "resolve_request_path ''inbox/a-00000000.md'' = Inr ''inbox/a-00000000.md''" by code_simp
  moreover have "parent_dirs ''inbox/a-00000000.md'' = [''inbox'']" by code_simp
  ultimately show ?thesis
    by (simp add: workable_def toy_poller_def toy_env_def plan_note plan_job_facts plan_worked toy_paths
        write_vault_def max_upload_bytes_def Let_def)
qed

lemma plan_auth: "fst (auth (toy_env 7) (rq_with worker_tok) toy_server) = Inr \<lparr>u_name = ''worker'', u_hash = [], u_roles = [''worker'']\<rparr>"
  using toy_worker by (auto simp: caller_def split: sum.splits)


section \<open>Properties\<close>

text \<open>
  C18: as long as the server knows the worker's token, every request arrives, every file of the queue can be read and
  the oldest waiting job is one whose work can be done (its source is a file of the vault within the size limits, the
  engines give a text for it and its note can be written; younger jobs may be hopeless), one round of the worker
  returns without an error after finishing a job: the oldest waiting one, whose file then says completed and names a
  note that the vault holds.
\<close>

theorem run_once_completes:
  assumes "\<And>k. fst (auth (E k) rq sv) = Inr u"
    and "\<And>k. net k = Delivered"
    and "sort_ok (se_sort (E 0))" "wf_jobs (sv_jobs sv)" "read_all (se_size (E 0)) (sv_jobs sv) = Inr js"
    and "j1 \<in> set js" "eligible (se_now (E 0)) j1"
    and "\<And>j. j \<in> set js \<Longrightarrow> eligible (se_now (E 0)) j \<Longrightarrow>
      (\<And>k. k \<in> set js \<Longrightarrow> eligible (se_now (E 0)) k \<Longrightarrow> j_created j \<le> j_created k) \<Longrightarrow> \<exists>out. workable OL E w sv j out"
    and "trim_space (wk_id w) \<noteq> []"
  shows "\<exists>j sv' fin content. j \<in> set js \<and> eligible (se_now (E 0)) j
    \<and> (\<forall>k \<in> set js. eligible (se_now (E 0)) k \<longrightarrow> j_created j \<le> j_created k)
    \<and> run_once OL msg E net rq w sv = ((True, None), sv')
    \<and> map_of (sv_jobs sv') (j_id j) = Some (JobFile fin) \<and> j_status fin = ''completed''
    \<and> sv_vault sv' (j_note fin) = Some (Regular content)"
  using assms by (rule run_once_completes_facts)

lemma run_once_completes_witness:
  "\<exists>sv' fin content. run_once toy_ocr (\<lambda>_. []) (\<lambda>_. toy_env 7) (\<lambda>_. Delivered) (rq_with worker_tok) toy_poller toy_server = ((True, None), sv')
    \<and> map_of (sv_jobs sv') toy_id = Some (JobFile fin) \<and> j_status fin = ''completed''
    \<and> sv_vault sv' (j_note fin) = Some (Regular content)"
proof -
  have sort: "sort_ok (se_sort (toy_env 7))" by (simp add: toy_env_def sort_key_ok)
  have wf: "wf_jobs (sv_jobs toy_server)" using plan_jobs by simp
  have rd: "read_all (se_size (toy_env 7)) (sv_jobs toy_server) = Inr [plan_job]" using plan_jobs plan_read by (simp add: toy_env_def)
  have el: "plan_job \<in> set [plan_job]" "eligible (se_now (toy_env 7)) plan_job" by (simp_all add: plan_job_facts)
  have wk: "\<exists>out. workable toy_ocr (\<lambda>_. toy_env 7) toy_poller toy_server j out" if "j \<in> set [plan_job]" for j
    using that plan_workable by auto
  have id: "trim_space (wk_id toy_poller) \<noteq> []" by code_simp
  have "\<exists>j sv' fin content. j \<in> set [plan_job] \<and> eligible (se_now (toy_env 7)) j
    \<and> (\<forall>k \<in> set [plan_job]. eligible (se_now (toy_env 7)) k \<longrightarrow> j_created j \<le> j_created k)
    \<and> run_once toy_ocr (\<lambda>_. []) (\<lambda>_. toy_env 7) (\<lambda>_. Delivered) (rq_with worker_tok) toy_poller toy_server = ((True, None), sv')
    \<and> map_of (sv_jobs sv') (j_id j) = Some (JobFile fin) \<and> j_status fin = ''completed''
    \<and> sv_vault sv' (j_note fin) = Some (Regular content)"
    by (rule run_once_completes[where E = "\<lambda>_. toy_env 7", OF plan_auth refl sort wf rd el wk id])
  then show ?thesis by (simp add: plan_job_facts)
qed

text \<open>
  whatever the engines return, the text the worker sends has at most 10000 words, and unless it was cut to 100
  words, a text of 100 words or more has at least one distinct word in ten.
\<close>

theorem worker_text_bounded:
  assumes "process_job OL ext input = Inr (tx, engine, model)"
  shows "length (normalized_words OL tx) \<le> max_plausible_words
    \<and> (length (normalized_words OL tx) < min_ratio_words
       \<or> length (normalized_words OL tx) \<le> 10 * unique_count (normalized_words OL tx)
       \<or> length (text_fields tx) \<le> guard_fallback_words)"
  using assms by (rule process_job_bounded)

lemma worker_text_bounded_witness:
  "length (normalized_words toy_ocr ''read the plan'') \<le> max_plausible_words"
  using worker_text_bounded[OF plan_worked] by blast

end
