(* ===== verification/Search_Query.thy ===== *)
theory Search_Query
  imports Go_Text
begin

text \<open>
  The search language of the desktop (\<open>internal/searchquery/query.go\<close>): words, quoted
  phrases, \<open>field:value\<close> filters, regular expressions, negation, and the date expressions of
  the \<open>created:\<close> and \<open>modified:\<close> filters.

  The code walks an index over the input; here the rest of the input stands for the index, so
  that the offset an error reports is the length of the input less the length of the rest.
  The loop of \<open>Parse\<close> has no condition of its own: it is a partial function, and that it
  returns on every input is a theorem.  \<open>regexp.Compile\<close> and the two layouts of
  \<open>time.Parse\<close> are parameters; instants are nanoseconds since the Unix epoch.
\<close>

section \<open>Plans\<close>

datatype search_field = FieldPath | FieldTag | FieldType | FieldStatus | FieldFilename
  | FieldFileType | FieldCreated | FieldModified | FieldIndexState

record sfilter =
  f_field :: search_field
  f_value :: string
  f_negated :: bool

record qterm =
  t_value :: string
  t_phrase :: bool
  t_negated :: bool

record qregex =
  r_pattern :: string
  r_negated :: bool

record plan =
  p_filters :: "sfilter list"
  p_terms :: "qterm list"
  p_regexes :: "qregex list"

definition empty_plan :: plan where
  "empty_plan = \<lparr>p_filters = [], p_terms = [], p_regexes = []\<rparr>"

text \<open>
  The library functions the parser calls: a compiled expression is the predicate
  \<open>MatchString\<close> of it, and the two layouts of \<open>time.Parse\<close> give an instant.
\<close>

record query_lib =
  compile :: "string \<Rightarrow> (string \<Rightarrow> bool) option"
  parse_day :: "string \<Rightarrow> int option"
  parse_stamp :: "string \<Rightarrow> int option"

definition matches :: "query_lib \<Rightarrow> qregex \<Rightarrow> string \<Rightarrow> bool" where
  "matches L r txt \<longleftrightarrow> (case compile L (r_pattern r) of Some re \<Rightarrow> re txt | None \<Rightarrow> False)"

definition requires_sidecar :: "plan \<Rightarrow> bool" where
  "requires_sidecar p \<longleftrightarrow>
     (if length (p_filters p) > 0 \<or> length (p_regexes p) > 0 then True
      else list_ex (\<lambda>t. t_phrase t \<or> t_negated t) (p_terms p))"

datatype query_error = NegationAlone | BadRegex string | ExpectedTerm
  | EmptyPhrase nat | UnterminatedPhrase nat | EmptyRegex nat | UnterminatedRegex nat
  | OperatorNeedsValue string | UnknownOperator string
  | DateNeedsValue | BadRelativeDate string | BadDateRange string | BadDate string
  | DateRangeReversed string | UnexpectedCharacter char


section \<open>Characters\<close>

text \<open>\<open>unicode.IsSpace(rune(b))\<close> of a byte \<open>b\<close>, read as a Latin-1 code point.\<close>

definition space_byte :: "char \<Rightarrow> bool" where
  "space_byte c \<longleftrightarrow> c \<in> {CHR 0x09, CHR 0x0A, CHR 0x0B, CHR 0x0C, CHR 0x0D, CHR 0x20,
                           CHR 0x85, CHR 0xA0}"

definition is_alpha :: "char \<Rightarrow> bool" where
  "is_alpha c \<longleftrightarrow> (CHR ''a'' \<le> c \<and> c \<le> CHR ''z'') \<or> (CHR ''A'' \<le> c \<and> c \<le> CHR ''Z'')"

definition digit_byte :: "char \<Rightarrow> bool" where
  "digit_byte c \<longleftrightarrow> CHR ''0'' \<le> c \<and> c \<le> CHR ''9''"

text \<open>The expression \<open>^[[:alpha:]][[:alnum:]_-]*$\<close>.\<close>

definition operator_name :: "string \<Rightarrow> bool" where
  "operator_name s \<longleftrightarrow>
     (case s of [] \<Rightarrow> False
      | c # cs \<Rightarrow> is_alpha c \<and>
          list_all (\<lambda>d. is_alpha d \<or> digit_byte d \<or> d = CHR ''_'' \<or> d = CHR ''-'') cs)"

section \<open>Dates\<close>

definition is_date_field :: "search_field \<Rightarrow> bool" where
  "is_date_field f \<longleftrightarrow> f = FieldCreated \<or> f = FieldModified"

definition is_date_unit :: "string \<Rightarrow> bool" where
  "is_date_unit v \<longleftrightarrow> go_lower v \<in> {''day'', ''week'', ''month'', ''year''}"

record date_range =
  d_from :: int
  d_to :: int

definition hour_ns :: int where
  "hour_ns = 3600000000000"

definition relative_window :: "string \<Rightarrow> int" where
  "relative_window s =
     (if s = ''last day'' then 24 * hour_ns
      else if s = ''last week'' then 7 * 24 * hour_ns
      else if s = ''last month'' then 30 * 24 * hour_ns
      else if s = ''last year'' then 365 * 24 * hour_ns
      else 0)"

text \<open>An end of a range, and whether it is a whole day.\<close>

definition parse_date_endpoint :: "query_lib \<Rightarrow> string \<Rightarrow> query_error + int \<times> bool" where
  "parse_date_endpoint L v =
     (case parse_day L v of
        Some t \<Rightarrow> Inr (t, True)
      | None \<Rightarrow> (case parse_stamp L v of
          Some t \<Rightarrow> Inr (t, False)
        | None \<Rightarrow> Inl (BadDate v)))"

definition start_of_utc_date :: "int \<Rightarrow> int" where
  "start_of_utc_date t = t - t mod (24 * hour_ns)"

definition parse_date_value :: "query_lib \<Rightarrow> string \<Rightarrow> int \<Rightarrow> query_error + date_range" where
  "parse_date_value L value0 reference =
     (let value = trim_space value0 in
      if value = [] then Inl DateNeedsValue
      else let lower = go_lower value in
      if has_prefix lower ''last '' then
        (if relative_window lower = 0 then Inl (BadRelativeDate value)
         else Inr \<lparr>d_from = reference - relative_window lower, d_to = reference\<rparr>)
      else let parts = split_string ''..'' value in
      if length parts > 2 \<or> (length parts = 2 \<and>
           (trim_space (parts ! 0) = [] \<or> trim_space (parts ! 1) = []))
      then Inl (BadDateRange value)
      else bind_err (parse_date_endpoint L (trim_space (parts ! 0))) (\<lambda>(from0, from_date).
           bind_err (if length parts = 2 then parse_date_endpoint L (trim_space (parts ! 1))
                     else Inr (from0, from_date)) (\<lambda>(to0, to_date).
           let from1 = (if from_date then start_of_utc_date from0 else from0);
               to1 = (if to_date then start_of_utc_date to0 + (24 * hour_ns - 1) else to0)
           in if from1 > to1 then Inl (DateRangeReversed value)
              else Inr \<lparr>d_from = from1, d_to = to1\<rparr>)))"

fun validate_dates :: "query_lib \<Rightarrow> string \<Rightarrow> string list \<Rightarrow> query_error + unit" where
  "validate_dates L value [] = Inr ()"
| "validate_dates L value (e # es) =
     (if trim_space e = [] then Inl (BadDate value)
      else bind_err (parse_date_value L e 0) (\<lambda>_. validate_dates L value es))"

definition validate_date_value :: "query_lib \<Rightarrow> string \<Rightarrow> query_error + unit" where
  "validate_date_value L value = validate_dates L value (split_string '','' value)"


section \<open>Tokens\<close>

definition skip_space :: "string \<Rightarrow> string" where
  "skip_space s = dropWhile space_byte s"

definition bare :: "string \<Rightarrow> string \<times> string" where
  "bare s = (takeWhile (\<lambda>c. \<not> space_byte c) s, dropWhile (\<lambda>c. \<not> space_byte c) s)"

text \<open>The bodies of \<open>quoted\<close> and \<open>regex\<close> after the opening byte at offset \<open>start\<close>.\<close>

fun quoted_loop :: "nat \<Rightarrow> bool \<Rightarrow> string \<Rightarrow> string \<Rightarrow> query_error + string \<times> string" where
  "quoted_loop start escaped value [] = Inl (UnterminatedPhrase start)"
| "quoted_loop start escaped value (ch # s) =
     (if escaped then quoted_loop start False (value @ [ch]) s
      else if ch = CHR 0x5C then quoted_loop start True value s
      else if ch = CHR 0x22 then
        (if value = [] then Inl (EmptyPhrase start) else Inr (value, s))
      else quoted_loop start False (value @ [ch]) s)"

definition quoted :: "nat \<Rightarrow> string \<Rightarrow> query_error + string \<times> string" where
  "quoted start s = quoted_loop start False [] (tl s)"

fun regex_loop :: "nat \<Rightarrow> bool \<Rightarrow> string \<Rightarrow> string \<Rightarrow> query_error + string \<times> string" where
  "regex_loop start escaped pat [] = Inl (UnterminatedRegex start)"
| "regex_loop start escaped pat (ch # s) =
     (if escaped then regex_loop start False (pat @ [CHR 0x5C, ch]) s
      else if ch = CHR 0x5C then regex_loop start True pat s
      else if ch = CHR ''/'' then
        (if pat = [] then Inl (EmptyRegex start) else Inr (pat, s))
      else regex_loop start False (pat @ [ch]) s)"

definition regex :: "nat \<Rightarrow> string \<Rightarrow> query_error + string \<times> string" where
  "regex start s = regex_loop start False [] (tl s)"

definition field_of :: "string \<Rightarrow> search_field option" where
  "field_of nm =
     (if nm = ''path'' then Some FieldPath
      else if nm = ''tag'' then Some FieldTag
      else if nm = ''type'' then Some FieldType
      else if nm = ''status'' then Some FieldStatus
      else if nm = ''index'' \<or> nm = ''index_status'' then Some FieldIndexState
      else if nm = ''filename'' then Some FieldFilename
      else if nm = ''filetype'' then Some FieldFileType
      else if nm = ''created'' then Some FieldCreated
      else if nm = ''modified'' then Some FieldModified
      else None)"

definition filter_token :: "string \<Rightarrow> query_error + (search_field \<times> string) option" where
  "filter_token token =
     (case cut_at (CHR '':'') token of
        None \<Rightarrow> Inr None
      | Some (nm, value) \<Rightarrow>
          if value = [] then Inl (OperatorNeedsValue (nm @ '':''))
          else (case field_of (go_lower nm) of
            Some f \<Rightarrow> Inr (Some (f, value))
          | None \<Rightarrow> if operator_name nm then Inl (UnknownOperator (nm @ '':'')) else Inr None))"


section \<open>The parser\<close>

definition add_filter :: "search_field \<Rightarrow> string \<Rightarrow> bool \<Rightarrow> plan \<Rightarrow> plan" where
  "add_filter f v neg p =
     p\<lparr>p_filters := p_filters p @ [\<lparr>f_field = f, f_value = v, f_negated = neg\<rparr>]\<rparr>"

definition add_term :: "string \<Rightarrow> bool \<Rightarrow> bool \<Rightarrow> plan \<Rightarrow> plan" where
  "add_term v phrase neg p =
     p\<lparr>p_terms := p_terms p @ [\<lparr>t_value = v, t_phrase = phrase, t_negated = neg\<rparr>]\<rparr>"

definition add_regex :: "string \<Rightarrow> bool \<Rightarrow> plan \<Rightarrow> plan" where
  "add_regex v neg p =
     p\<lparr>p_regexes := p_regexes p @ [\<lparr>r_pattern = v, r_negated = neg\<rparr>]\<rparr>"

text \<open>The value of a date filter and the rest after it: \<open>last\<close> takes a unit with it.\<close>

definition date_window :: "search_field \<Rightarrow> string \<Rightarrow> string \<Rightarrow> string \<times> string" where
  "date_window f value next =
     (if is_date_field f \<and> go_fold value = ''last'' then
        let (unit, unit_end) = bare (skip_space next)
        in if is_date_unit unit then (value @ '' '' @ go_lower unit, unit_end) else (value, next)
      else (value, next))"

definition parse_word :: "query_lib \<Rightarrow> bool \<Rightarrow> string \<Rightarrow> plan \<Rightarrow> query_error + plan \<times> string" where
  "parse_word L negated s p =
     (let (value, next) = bare s in
      if value = [] then Inl ExpectedTerm
      else bind_err (filter_token value) (\<lambda>r.
        case r of
          Some (f, value0) \<Rightarrow>
            let (fvalue, next) = date_window f value0 next in
            bind_err (if is_date_field f then validate_date_value L fvalue else Inr ())
              (\<lambda>_. Inr (add_filter f fvalue negated p, next))
        | None \<Rightarrow> Inr (add_term value False negated p, next)))"

text \<open>The switch of the loop, at an input that is not empty.\<close>

definition parse_item :: "query_lib \<Rightarrow> nat \<Rightarrow> bool \<Rightarrow> string \<Rightarrow> plan \<Rightarrow> query_error + plan \<times> string" where
  "parse_item L n negated s p =
     (if hd s = CHR 0x22 then
        bind_err (quoted (n - length s) s) (\<lambda>(v, next). Inr (add_term v True negated p, next))
      else if hd s = CHR ''/'' then
        bind_err (regex (n - length s) s) (\<lambda>(pat, next).
          if compile L pat = None then Inl (BadRegex pat)
          else Inr (add_regex pat negated p, next))
      else parse_word L negated s p)"

text \<open>One round of the loop, at an input that is not empty and does not start with a space.\<close>

definition parse_step :: "query_lib \<Rightarrow> nat \<Rightarrow> string \<Rightarrow> plan \<Rightarrow> query_error + plan \<times> string" where
  "parse_step L n s p =
     (let negated = (hd s = CHR ''-''); s = (if negated then tl s else s) in
      if negated \<and> (s = [] \<or> space_byte (hd s)) then Inl NegationAlone
      else bind_err (parse_item L n negated s p) (\<lambda>(p, next).
        if next \<noteq> [] \<and> \<not> space_byte (hd next) then Inl (UnexpectedCharacter (hd next))
        else Inr (p, next)))"

partial_function (option) parse_loop ::
    "query_lib \<Rightarrow> nat \<Rightarrow> string \<Rightarrow> plan \<Rightarrow> (query_error + plan) option" where
  "parse_loop L n s p =
     (let s = skip_space s in
      if s = [] then Some (Inr p)
      else case parse_step L n s p of
        Inl e \<Rightarrow> Some (Inl e)
      | Inr (p, next) \<Rightarrow> parse_loop L n next p)"

definition parse :: "query_lib \<Rightarrow> string \<Rightarrow> (query_error + plan) option" where
  "parse L input = parse_loop L (length input) input empty_plan"

declare parse_loop.simps [code]


section \<open>The loop returns\<close>

text \<open>Every token consumes input, so every round of the loop does.\<close>

lemma bare_splits: "fst (bare s) @ snd (bare s) = s"
  by (simp add: bare_def)

lemma length_bare: "length (fst (bare s)) + length (snd (bare s)) = length s"
  by (metis bare_splits length_append)

lemma length_skip_space: "length (skip_space s) \<le> length s"
  by (simp add: skip_space_def length_dropWhile_le)

lemma quoted_loop_rest: "quoted_loop k e v s = Inr (w, r) \<Longrightarrow> length r < length s"
  by (induction k e v s rule: quoted_loop.induct) (fastforce split: if_splits)+

lemma regex_loop_rest: "regex_loop k e v s = Inr (w, r) \<Longrightarrow> length r < length s"
  by (induction k e v s rule: regex_loop.induct) (fastforce split: if_splits)+

lemma date_window_rest: "length (snd (date_window f v s)) \<le> length s"
  using length_bare[of "skip_space s"] length_skip_space[of s]
  by (auto simp: date_window_def Let_def split: prod.splits)

text \<open>The three ways a word can be parsed.\<close>

lemma parse_word_cases:
  assumes "parse_word L neg s p = Inr (p', r)"
  obtains (word) "fst (bare s) \<noteq> []" "filter_token (fst (bare s)) = Inr None"
      "p' = add_term (fst (bare s)) False neg p" "r = snd (bare s)"
  | (filter) f v where "fst (bare s) \<noteq> []" "filter_token (fst (bare s)) = Inr (Some (f, v))"
      "is_date_field f \<Longrightarrow>
         validate_date_value L (fst (date_window f v (snd (bare s)))) = Inr ()"
      "p' = add_filter f (fst (date_window f v (snd (bare s)))) neg p"
      "r = snd (date_window f v (snd (bare s)))"
proof -
  obtain w nx where b: "bare s = (w, nx)" by (cases "bare s")
  have ne: "w \<noteq> []" using assms b by (auto simp: parse_word_def)
  then obtain o1 where o1: "filter_token w = Inr o1"
    using assms b by (auto simp: parse_word_def bind_err_Inr)
  show thesis
  proof (cases o1)
    case None
    then show thesis using assms b ne o1 by (intro word) (auto simp: parse_word_def)
  next
    case (Some fv)
    obtain f v where fv: "fv = (f, v)" by (cases fv)
    obtain x y where xy: "date_window f v nx = (x, y)" by (cases "date_window f v nx")
    show thesis
      using assms b ne o1 Some fv xy
      by (intro filter[of f v]) (auto simp: parse_word_def bind_err_Inr split: if_splits)
  qed
qed

lemma parse_word_rest:
  assumes "parse_word L neg s p = Inr (p', r)"
  shows "length r < length s"
proof -
  have lt: "length (snd (bare s)) < length s" if "fst (bare s) \<noteq> []"
    using length_bare[of s] that by (cases "fst (bare s)") auto
  show ?thesis
    using assms lt date_window_rest by (cases rule: parse_word_cases) (auto intro: le_less_trans)
qed

lemma parse_item_rest:
  assumes "parse_item L n neg s p = Inr (p', r)" and "s \<noteq> []"
  shows "length r < length s"
proof -
  have tl: "length (tl s) < length s" using assms(2) by simp
  show ?thesis
    using assms(1) tl
    by (auto simp: parse_item_def bind_err_Inr quoted_def regex_def
        dest!: quoted_loop_rest regex_loop_rest dest: parse_word_rest split: if_splits)
qed

lemma parse_step_rest:
  assumes "parse_step L n s p = Inr (p', r)" and "s \<noteq> []"
  shows "length r < length s"
proof -
  define neg where "neg = (hd s = CHR ''-'')"
  define s' where "s' = (if neg then tl s else s)"
  have ne: "s' \<noteq> []" and item: "parse_item L n neg s' p = Inr (p', r)"
    using assms unfolding parse_step_def Let_def neg_def[symmetric] s'_def[symmetric]
    by (auto simp: bind_err_Inr s'_def split: if_splits)
  have "length s' \<le> length s" by (simp add: s'_def)
  then show ?thesis using parse_item_rest[OF item ne] by linarith
qed

lemma parse_loop_returns: "\<exists>r. parse_loop L n s p = Some r"
proof (induction s arbitrary: p rule: measure_induct_rule[of length])
  case (less s)
  show ?case
  proof (cases "skip_space s = []")
    case True
    then show ?thesis by (subst parse_loop.simps) simp
  next
    case False
    show ?thesis
    proof (cases "parse_step L n (skip_space s) p")
      case (Inl e)
      then show ?thesis using False by (subst parse_loop.simps) simp
    next
      case (Inr q)
      obtain p' r where q: "q = (p', r)" by (cases q)
      have "length r < length s"
        using parse_step_rest[OF Inr[unfolded q] False] length_skip_space[of s] by linarith
      then obtain x where x: "parse_loop L n r p' = Some x"
        using less.IH by blast
      show ?thesis
        using False Inr x by (subst parse_loop.simps) (simp add: q)
    qed
  qed
qed


section \<open>Printing a plan\<close>

fun field_name :: "search_field \<Rightarrow> string" where
  "field_name FieldPath = ''path''"
| "field_name FieldTag = ''tag''"
| "field_name FieldType = ''type''"
| "field_name FieldStatus = ''status''"
| "field_name FieldFilename = ''filename''"
| "field_name FieldFileType = ''filetype''"
| "field_name FieldCreated = ''created''"
| "field_name FieldModified = ''modified''"
| "field_name FieldIndexState = ''index''"

definition escape_phrase :: "string \<Rightarrow> string" where
  "escape_phrase v =
     concat (map (\<lambda>c. if c = CHR 0x5C \<or> c = CHR 0x22 then [CHR 0x5C, c] else [c]) v)"

definition dash :: "bool \<Rightarrow> string" where
  "dash neg = (if neg then ''-'' else [])"

definition print_filter :: "sfilter \<Rightarrow> string" where
  "print_filter f = dash (f_negated f) @ field_name (f_field f) @ '':'' @ f_value f"

definition print_term :: "qterm \<Rightarrow> string" where
  "print_term t = dash (t_negated t) @
     (if t_phrase t then [CHR 0x22] @ escape_phrase (t_value t) @ [CHR 0x22] else t_value t)"

definition print_regex :: "qregex \<Rightarrow> string" where
  "print_regex r = dash (r_negated r) @ ''/'' @ r_pattern r @ ''/''"

definition print_plan :: "plan \<Rightarrow> string" where
  "print_plan p = concat (map (\<lambda>x. x @ '' '')
     (map print_filter (p_filters p) @ map print_term (p_terms p)
      @ map print_regex (p_regexes p)))"

text \<open>What a plan has to satisfy to be printed: every plan the parser builds does.\<close>

definition spaceless :: "string \<Rightarrow> bool" where
  "spaceless s \<longleftrightarrow> list_all (\<lambda>c. \<not> space_byte c) s"

definition date_units :: "string list" where
  "date_units = [''day'', ''week'', ''month'', ''year'']"

definition filter_ok :: "query_lib \<Rightarrow> sfilter \<Rightarrow> bool" where
  "filter_ok L f \<longleftrightarrow>
     f_value f \<noteq> [] \<and>
     (if is_date_field (f_field f) then
        validate_date_value L (f_value f) = Inr () \<and>
        ((spaceless (f_value f) \<and> go_fold (f_value f) \<noteq> ''last'')
         \<or> (\<exists>w. \<exists>u \<in> set date_units. f_value f = w @ '' '' @ u \<and> spaceless w \<and> go_fold w = ''last''))
      else spaceless (f_value f))"

definition word_ok :: "qterm \<Rightarrow> bool" where
  "word_ok t \<longleftrightarrow>
     spaceless (t_value t) \<and> filter_token (t_value t) = Inr None \<and>
     hd (t_value t) \<noteq> CHR 0x22 \<and> hd (t_value t) \<noteq> CHR ''/'' \<and>
     (t_negated t \<or> hd (t_value t) \<noteq> CHR ''-'')"

definition term_ok :: "qterm \<Rightarrow> bool" where
  "term_ok t \<longleftrightarrow> t_value t \<noteq> [] \<and> (t_phrase t \<or> word_ok t)"

fun closed_pattern :: "string \<Rightarrow> bool" where
  "closed_pattern [] = True"
| "closed_pattern (c # s) =
     (if c = CHR 0x5C then (case s of [] \<Rightarrow> False | d # s' \<Rightarrow> closed_pattern s')
      else c \<noteq> CHR ''/'' \<and> closed_pattern s)"

definition regex_ok :: "query_lib \<Rightarrow> qregex \<Rightarrow> bool" where
  "regex_ok L r \<longleftrightarrow> r_pattern r \<noteq> [] \<and> closed_pattern (r_pattern r) \<and> compile L (r_pattern r) \<noteq> None"

definition plan_ok :: "query_lib \<Rightarrow> plan \<Rightarrow> bool" where
  "plan_ok L p \<longleftrightarrow> list_all (filter_ok L) (p_filters p) \<and> list_all term_ok (p_terms p)
     \<and> list_all (regex_ok L) (p_regexes p)"


section \<open>Reading back what was printed\<close>

lemma spaceless_Cons [simp]: "spaceless (c # s) \<longleftrightarrow> \<not> space_byte c \<and> spaceless s"
  by (simp add: spaceless_def)

lemma spaceless_append [simp]: "spaceless (a @ b) \<longleftrightarrow> spaceless a \<and> spaceless b"
  by (simp add: spaceless_def)

lemma spaceless_Nil [simp]: "spaceless []"
  by (simp add: spaceless_def)

lemma space_byte_blank [simp]: "space_byte (CHR '' '')"
  by (simp add: space_byte_def)

lemma bare_word: "spaceless w \<Longrightarrow> bare (w @ '' '' @ s) = (w, '' '' @ s)"
  by (induction w) (simp_all add: bare_def)

lemma skip_space_word: "spaceless w \<Longrightarrow> w \<noteq> [] \<Longrightarrow> skip_space ('' '' @ w @ s) = w @ s"
  by (cases w) (simp_all add: skip_space_def)

lemma skip_space_nonspace [simp]: "\<not> space_byte c \<Longrightarrow> skip_space (c # s) = c # s"
  by (simp add: skip_space_def)

lemma skip_space_blank [simp]: "skip_space (CHR '' '' # s) = skip_space s"
  by (simp add: skip_space_def)

lemma quoted_escape:
  "quoted_loop k False v (escape_phrase w @ CHR 0x22 # s)
     = (if v @ w = [] then Inl (EmptyPhrase k) else Inr (v @ w, s))"
  by (induction w arbitrary: v) (simp_all add: escape_phrase_def)

lemma regex_closed:
  "closed_pattern w \<Longrightarrow>
   regex_loop k False v (w @ CHR ''/'' # s)
     = (if v @ w = [] then Inl (EmptyRegex k) else Inr (v @ w, s))"
  by (induction w arbitrary: v rule: closed_pattern.induct) (auto split: list.splits if_splits)

lemma spaceless_field: "spaceless (field_name f)"
  by (cases f) (simp_all add: space_byte_def)

lemma field_of_name: "field_of (go_lower (field_name f)) = Some f"
  by (cases f) (simp_all add: field_of_def lower_char_def)

lemma field_name_colon: "CHR '':'' \<notin> set (field_name f)"
  by (cases f) simp_all

lemma filter_token_field:
  "v \<noteq> [] \<Longrightarrow> filter_token (field_name f @ '':'' @ v) = Inr (Some (f, v))"
  by (simp add: filter_token_def cut_at_append[OF field_name_colon] field_of_name)

lemma field_name_head: "hd (field_name f @ s) \<notin> {CHR ''-'', CHR 0x22, CHR ''/''}"
  by (cases f) simp_all

lemma field_name_ne [simp]: "field_name f \<noteq> []"
  by (cases f) simp_all

text \<open>A round of the loop on a printed item that a space follows.\<close>

lemma parse_step_minus:
  assumes "parse_item L n neg w p = Inr (p', '' '' @ s)"
    and "w \<noteq> []" and "\<not> space_byte (hd w)" and "neg \<or> hd w \<noteq> CHR ''-''"
  shows "parse_step L n (dash neg @ w) p = Inr (p', '' '' @ s)"
  using assms by (cases neg) (simp_all add: parse_step_def dash_def Let_def)

lemma parse_item_word:
  assumes "spaceless w" and "w \<noteq> []" and "hd w \<noteq> CHR 0x22" and "hd w \<noteq> CHR ''/''"
    and "filter_token w = Inr None"
  shows "parse_item L n neg (w @ '' '' @ s) p = Inr (add_term w False neg p, '' '' @ s)"
  using assms bare_word[OF assms(1), of s]
  by (simp add: parse_item_def parse_word_def)

lemma parse_item_phrase:
  assumes "w \<noteq> []"
  shows "parse_item L n neg ([CHR 0x22] @ escape_phrase w @ [CHR 0x22] @ '' '' @ s) p
           = Inr (add_term w True neg p, '' '' @ s)"
  using assms quoted_escape[of _ "[]" w "'' '' @ s"]
  by (simp add: parse_item_def quoted_def)

lemma parse_item_regex:
  assumes "regex_ok L \<lparr>r_pattern = w, r_negated = neg\<rparr>"
  shows "parse_item L n neg (''/'' @ w @ ''/'' @ '' '' @ s) p = Inr (add_regex w neg p, '' '' @ s)"
  using assms regex_closed[of w _ "[]" "'' '' @ s"]
  by (auto simp: parse_item_def regex_def regex_ok_def)

lemma date_unit_facts:
  assumes "u \<in> set date_units"
  shows "is_date_unit u" "go_lower u = u" "spaceless u" "u \<noteq> []"
  using assms by (auto simp: date_units_def is_date_unit_def lower_char_def space_byte_def)

lemma date_window_plain:
  "\<not> is_date_field f \<or> go_fold v \<noteq> ''last'' \<Longrightarrow> date_window f v s = (v, s)"
  by (auto simp: date_window_def)

lemma date_window_unit:
  assumes "is_date_field f" and "go_fold w = ''last''" and "u \<in> set date_units"
  shows "date_window f w ('' '' @ u @ '' '' @ s) = (w @ '' '' @ u, '' '' @ s)"
  using assms date_unit_facts[OF assms(3)] skip_space_word[of u "'' '' @ s"] bare_word[of u s]
  by (simp add: date_window_def)

lemma parse_item_filter_token:
  assumes "spaceless v" and "v \<noteq> []" and "date_window f v ('' '' @ s) = (w, r)"
    and "is_date_field f \<Longrightarrow> validate_date_value L w = Inr ()"
  shows "parse_item L n neg (field_name f @ '':'' @ v @ '' '' @ s) p = Inr (add_filter f w neg p, r)"
proof -
  have "bare ((field_name f @ '':'' @ v) @ '' '' @ s) = (field_name f @ '':'' @ v, '' '' @ s)"
    using assms(1) spaceless_field by (intro bare_word) (simp add: space_byte_def)
  then show ?thesis
    using assms field_name_head[of f "'':'' @ v @ '' '' @ s"] filter_token_field[OF assms(2), of f]
    by (simp add: parse_item_def parse_word_def)
qed

lemma parse_item_filter:
  assumes "filter_ok L \<lparr>f_field = f, f_value = v, f_negated = neg\<rparr>"
  shows "parse_item L n neg (field_name f @ '':'' @ v @ '' '' @ s) p
           = Inr (add_filter f v neg p, '' '' @ s)"
proof (cases "spaceless v \<and> (is_date_field f \<longrightarrow> go_fold v \<noteq> ''last'')")
  case True
  then show ?thesis
    using assms by (intro parse_item_filter_token) (auto simp: filter_ok_def date_window_plain)
next
  case False
  then obtain w u where wu: "is_date_field f" "validate_date_value L v = Inr ()"
      "u \<in> set date_units" "v = w @ '' '' @ u" "spaceless w" "go_fold w = ''last''"
    using assms by (auto simp: filter_ok_def split: if_splits)
  have "w \<noteq> []" using wu(6) by auto
  then show ?thesis
    using parse_item_filter_token[OF wu(5) _ date_window_unit[OF wu(1,6,3)], of L n neg s p] wu
    by simp
qed

lemma print_filter_step:
  assumes "filter_ok L f"
  shows "parse_step L n (print_filter f @ '' '' @ s) p
           = Inr (p\<lparr>p_filters := p_filters p @ [f]\<rparr>, '' '' @ s)"
proof -
  have "parse_item L n (f_negated f) (field_name (f_field f) @ '':'' @ f_value f @ '' '' @ s) p
          = Inr (add_filter (f_field f) (f_value f) (f_negated f) p, '' '' @ s)"
    using assms by (intro parse_item_filter) (cases f, simp)
  moreover have "\<not> space_byte (hd (field_name (f_field f)))"
    using spaceless_field[of "f_field f"] by (cases "field_name (f_field f)") auto
  ultimately show ?thesis
    using parse_step_minus[of L n "f_negated f"
        "field_name (f_field f) @ '':'' @ f_value f @ '' '' @ s" p _ s]
      field_name_head[of "f_field f" "[]"]
    by (simp add: print_filter_def add_filter_def)
qed

lemma print_term_step:
  assumes "term_ok t"
  shows "parse_step L n (print_term t @ '' '' @ s) p
           = Inr (p\<lparr>p_terms := p_terms p @ [t]\<rparr>, '' '' @ s)"
proof (cases "t_phrase t")
  case True
  have "t = \<lparr>t_value = t_value t, t_phrase = True, t_negated = t_negated t\<rparr>" using True by simp
  then show ?thesis
    using assms True parse_item_phrase[of "t_value t" L n "t_negated t" s p]
      parse_step_minus[of L n "t_negated t"
        "[CHR 0x22] @ escape_phrase (t_value t) @ [CHR 0x22] @ '' '' @ s" p _ s]
    by (simp add: print_term_def add_term_def term_ok_def space_byte_def)
next
  case False
  have t: "t = \<lparr>t_value = t_value t, t_phrase = False, t_negated = t_negated t\<rparr>"
    using False by simp
  have w: "t_value t \<noteq> []" "word_ok t" using assms False by (auto simp: term_ok_def)
  then have "\<not> space_byte (hd (t_value t))"
    by (cases "t_value t") (auto simp: word_ok_def)
  then show ?thesis
    using w t False parse_item_word[of "t_value t" L n "t_negated t" s p]
      parse_step_minus[of L n "t_negated t" "t_value t @ '' '' @ s" p _ s]
    by (simp add: print_term_def add_term_def word_ok_def)
qed

lemma print_regex_step:
  assumes "regex_ok L r"
  shows "parse_step L n (print_regex r @ '' '' @ s) p
           = Inr (p\<lparr>p_regexes := p_regexes p @ [r]\<rparr>, '' '' @ s)"
  using assms parse_item_regex[of L "r_pattern r" "r_negated r" n s p]
    parse_step_minus[of L n "r_negated r" "''/'' @ r_pattern r @ ''/'' @ '' '' @ s" p _ s]
  by (cases r) (simp add: print_regex_def add_regex_def space_byte_def)


lemma parse_loop_Nil: "parse_loop L n [] p = Some (Inr p)"
  by (subst parse_loop.simps) (simp add: skip_space_def)

lemma parse_loop_item:
  assumes "parse_step L n (x @ '' '' @ s) p = Inr (p', '' '' @ s)"
    and "x \<noteq> []" and "\<not> space_byte (hd x)"
  shows "parse_loop L n (x @ '' '' @ s) p = parse_loop L n ('' '' @ s) p'"
proof -
  have "skip_space (x @ '' '' @ s) = x @ '' '' @ s"
    using assms(2,3) by (cases x) simp_all
  then show ?thesis using assms(1,2) by (subst parse_loop.simps) simp
qed

lemma parse_loop_blank: "parse_loop L n ('' '' @ s) p = parse_loop L n s p"
  by (subst (1 2) parse_loop.simps) simp

lemma parse_step_consumed_head:
  "parse_step L n (x @ '' '' @ s) p = Inr (p', '' '' @ s) \<Longrightarrow> x \<noteq> []"
  using parse_step_rest[of L n "x @ '' '' @ s" p p' "'' '' @ s"] by auto

lemma print_head:
  "filter_ok L f \<Longrightarrow> \<not> space_byte (hd (print_filter f))"
  "term_ok t \<Longrightarrow> \<not> space_byte (hd (print_term t))"
  "\<not> space_byte (hd (print_regex r))"
proof -
  show "\<not> space_byte (hd (print_filter f))"
    using spaceless_field[of "f_field f"]
    by (cases "field_name (f_field f)") (auto simp: print_filter_def dash_def space_byte_def)
  show "\<not> space_byte (hd (print_term t))" if "term_ok t"
    using that by (cases "t_value t")
      (auto simp: print_term_def dash_def term_ok_def word_ok_def space_byte_def)
  show "\<not> space_byte (hd (print_regex r))"
    by (simp add: print_regex_def dash_def space_byte_def)
qed

text \<open>Reading a list of printed items adds them one after the other.\<close>

lemma parse_loop_items:
  assumes "\<And>x p s. x \<in> set xs \<Longrightarrow>
      parse_step L n (pr x @ '' '' @ s) p = Inr (add x p, '' '' @ s) \<and> \<not> space_byte (hd (pr x))"
  shows "parse_loop L n (concat (map (\<lambda>x. pr x @ '' '') xs) @ s) p
           = parse_loop L n s (fold add xs p)"
  using assms
proof (induction xs arbitrary: p)
  case (Cons x xs)
  let ?r = "concat (map (\<lambda>x. pr x @ '' '') xs) @ s"
  have st: "parse_step L n (pr x @ '' '' @ ?r) p = Inr (add x p, '' '' @ ?r)"
    and hd: "\<not> space_byte (hd (pr x))"
    using Cons.prems[of x] by simp_all
  have "parse_loop L n (pr x @ '' '' @ ?r) p = parse_loop L n ?r (add x p)"
    using parse_loop_item[OF st parse_step_consumed_head[OF st] hd] parse_loop_blank by simp
  then show ?case using Cons by simp
qed simp

lemma fold_plan_fields:
  "fold (\<lambda>f p. p\<lparr>p_filters := p_filters p @ [f]\<rparr>) fs p = p\<lparr>p_filters := p_filters p @ fs\<rparr>"
  "fold (\<lambda>t p. p\<lparr>p_terms := p_terms p @ [t]\<rparr>) ts p = p\<lparr>p_terms := p_terms p @ ts\<rparr>"
  "fold (\<lambda>r p. p\<lparr>p_regexes := p_regexes p @ [r]\<rparr>) rs p = p\<lparr>p_regexes := p_regexes p @ rs\<rparr>"
proof -
  show "fold (\<lambda>f p. p\<lparr>p_filters := p_filters p @ [f]\<rparr>) fs p = p\<lparr>p_filters := p_filters p @ fs\<rparr>"
    by (induction fs arbitrary: p) simp_all
  show "fold (\<lambda>t p. p\<lparr>p_terms := p_terms p @ [t]\<rparr>) ts p = p\<lparr>p_terms := p_terms p @ ts\<rparr>"
    by (induction ts arbitrary: p) simp_all
  show "fold (\<lambda>r p. p\<lparr>p_regexes := p_regexes p @ [r]\<rparr>) rs p = p\<lparr>p_regexes := p_regexes p @ rs\<rparr>"
    by (induction rs arbitrary: p) simp_all
qed

lemma parse_print:
  assumes "plan_ok L p"
  shows "parse L (print_plan p) = Some (Inr p)"
proof -
  let ?n = "length (print_plan p)"
  have split: "print_plan p = concat (map (\<lambda>f. print_filter f @ '' '') (p_filters p))
      @ concat (map (\<lambda>t. print_term t @ '' '') (p_terms p))
      @ concat (map (\<lambda>r. print_regex r @ '' '') (p_regexes p)) @ []"
    by (simp add: print_plan_def comp_def)
  have ok: "\<And>f. f \<in> set (p_filters p) \<Longrightarrow> filter_ok L f"
    "\<And>t. t \<in> set (p_terms p) \<Longrightarrow> term_ok t" "\<And>r. r \<in> set (p_regexes p) \<Longrightarrow> regex_ok L r"
    using assms by (auto simp: plan_ok_def list_all_iff)
  have "parse_loop L ?n (print_plan p) empty_plan
     = parse_loop L ?n (concat (map (\<lambda>t. print_term t @ '' '') (p_terms p))
      @ concat (map (\<lambda>r. print_regex r @ '' '') (p_regexes p)) @ [])
       (fold (\<lambda>f p. p\<lparr>p_filters := p_filters p @ [f]\<rparr>) (p_filters p) empty_plan)"
    unfolding split by (rule parse_loop_items) (use ok print_filter_step print_head in blast)
  also have "\<dots> = parse_loop L ?n (concat (map (\<lambda>r. print_regex r @ '' '') (p_regexes p)) @ [])
       (fold (\<lambda>t p. p\<lparr>p_terms := p_terms p @ [t]\<rparr>) (p_terms p)
         (fold (\<lambda>f p. p\<lparr>p_filters := p_filters p @ [f]\<rparr>) (p_filters p) empty_plan))"
    by (rule parse_loop_items) (use ok print_term_step print_head in blast)
  also have "\<dots> = parse_loop L ?n [] (fold (\<lambda>r p. p\<lparr>p_regexes := p_regexes p @ [r]\<rparr>) (p_regexes p)
       (fold (\<lambda>t p. p\<lparr>p_terms := p_terms p @ [t]\<rparr>) (p_terms p)
         (fold (\<lambda>f p. p\<lparr>p_filters := p_filters p @ [f]\<rparr>) (p_filters p) empty_plan)))"
    by (rule parse_loop_items) (use ok print_regex_step print_head in blast)
  finally show ?thesis
    by (simp add: parse_def fold_plan_fields parse_loop_Nil empty_plan_def)
qed


section \<open>Every parsed plan can be printed\<close>

text \<open>
  The documented behaviour of the two layouts of \<open>time.Parse\<close> the parser relies on: a date
  and a time stamp hold digits.
\<close>

definition lib_ok :: "query_lib \<Rightarrow> bool" where
  "lib_ok L \<longleftrightarrow> (\<forall>s. parse_day L s \<noteq> None \<or> parse_stamp L s \<noteq> None \<longrightarrow> list_ex digit_byte s)"

lemma closed_append:
  "closed_pattern v \<Longrightarrow> c \<noteq> CHR 0x5C \<Longrightarrow> c \<noteq> CHR ''/'' \<Longrightarrow> closed_pattern (v @ [c])"
  "closed_pattern v \<Longrightarrow> closed_pattern (v @ [CHR 0x5C, d])"
  by (induction v rule: closed_pattern.induct) (auto split: list.splits if_splits)

lemma regex_loop_closed:
  "regex_loop k e v s = Inr (w, r) \<Longrightarrow> closed_pattern v \<Longrightarrow> closed_pattern w \<and> w \<noteq> []"
  by (induction k e v s rule: regex_loop.induct) (auto simp: closed_append split: if_splits)

lemma quoted_loop_ne: "quoted_loop k e v s = Inr (w, r) \<Longrightarrow> w \<noteq> []"
  by (induction k e v s rule: quoted_loop.induct) (auto split: if_splits)

lemma spaceless_bare: "spaceless (fst (bare s))"
  by (auto simp: bare_def spaceless_def list_all_iff dest: set_takeWhileD)

lemma hd_bare: "fst (bare s) \<noteq> [] \<Longrightarrow> hd (fst (bare s)) = hd s"
  by (cases s) (auto simp: bare_def split: if_splits)

definition word_byte :: "char \<Rightarrow> bool" where
  "word_byte c \<longleftrightarrow> \<not> digit_byte c \<and> c \<noteq> CHR '','' \<and> c \<noteq> CHR ''.''"

lemma lower_char_last:
  "lower_char c \<in> set ''last'' \<longrightarrow> word_byte c"
  by (rule all_chars[where P = "\<lambda>c. lower_char c \<in> set ''last'' \<longrightarrow> word_byte c"]) code_simp

lemma fold_last_word:
  assumes "go_fold v = ''last''" and "c \<in> set v"
  shows "word_byte c"
  using set_go_fold[OF assms(2)] lower_char_last[of c] assms(1)
  by (auto simp: word_byte_def digit_byte_def)

text \<open>The word \<open>last\<close> without a unit is not a date.\<close>

lemma last_rejected:
  assumes "lib_ok L" and "go_fold v = ''last''" and "spaceless v"
  shows "validate_date_value L v \<noteq> Inr ()"
proof
  assume valid: "validate_date_value L v = Inr ()"
  have word: "word_byte c" if "c \<in> set v" for c
    using fold_last_word[OF assms(2) that] .
  have "CHR '','' \<notin> set v" using word unfolding word_byte_def by blast
  then have whole: "split_string '','' v = [v]"
    by (simp add: split_string_def split_loop_none)
  then obtain d where d: "parse_date_value L v 0 = Inr d" and ne: "trim_space v \<noteq> []"
    using valid by (auto simp: validate_date_value_def bind_err_Inr split: if_splits)
  define w where "w = trim_space v"
  have word_w: "word_byte c" if "c \<in> set w" for c
    using that word set_trim_space unfolding w_def by blast
  have blank: "CHR '' '' \<notin> set w"
    using assms(3) set_trim_space[of v] space_byte_blank
    unfolding w_def spaceless_def list_all_iff by blast
  have "\<not> has_prefix (go_lower w) ''last ''"
  proof
    assume "has_prefix (go_lower w) ''last ''"
    then have "take (length ''last '') (go_lower w) = ''last ''" by (simp only: has_prefix_def)
    then have "CHR '' '' \<in> set (take (length ''last '') (go_lower w))" by (simp only:) simp
    then have "CHR '' '' \<in> set (go_lower w)" using in_set_takeD by fast
    then show False using set_go_lower blank by blast
  qed
  moreover have "CHR ''.'' \<notin> set w" using word_w unfolding word_byte_def by blast
  then have "split_string ''..'' w = [w]"
    by (simp add: split_string_def split_loop_none)
  ultimately obtain x where "parse_date_endpoint L (trim_space w) = Inr x"
    using d ne unfolding parse_date_value_def w_def[symmetric] Let_def
    by (auto simp: bind_err_Inr split: if_splits)
  then have "list_ex digit_byte (trim_space w)"
    using assms(1) unfolding parse_date_endpoint_def lib_ok_def by (auto split: option.splits)
  then show False
    using word_w set_trim_space[of w] by (auto simp: list_ex_iff word_byte_def)
qed

lemma filter_token_value:
  assumes "filter_token s = Inr (Some (f, v))" and "spaceless s"
  shows "v \<noteq> [] \<and> spaceless v"
proof -
  obtain nm where c: "cut_at (CHR '':'') s = Some (nm, v)" and ne: "v \<noteq> []"
    using assms(1) by (auto simp: filter_token_def split: option.splits if_splits)
  show ?thesis using cut_at_parts[OF c] assms(2) ne by simp
qed

lemma parse_word_ok:
  assumes L: "lib_ok L" and w: "parse_word L neg s p = Inr (p', r)" and p: "plan_ok L p"
    and hd: "hd s \<noteq> CHR 0x22" "hd s \<noteq> CHR ''/''" "neg \<or> hd s \<noteq> CHR ''-''"
  shows "plan_ok L p'"
  using w
proof (cases rule: parse_word_cases)
  case word
  then show ?thesis
    using p hd spaceless_bare[of s] hd_bare[of s]
    by (simp add: plan_ok_def add_term_def term_ok_def word_ok_def)
next
  case (filter f v)
  have v: "v \<noteq> []" "spaceless v"
    using filter_token_value[OF filter(2) spaceless_bare] by simp_all
  let ?x = "fst (date_window f v (snd (bare s)))"
  have "filter_ok L \<lparr>f_field = f, f_value = ?x, f_negated = neg\<rparr>"
  proof (cases "is_date_field f \<and> go_fold v = ''last''")
    case False
    then show ?thesis using v filter(3) by (auto simp: filter_ok_def date_window_plain)
  next
    case True
    obtain u e where u: "bare (skip_space (snd (bare s))) = (u, e)"
      by (cases "bare (skip_space (snd (bare s)))")
    have "?x \<noteq> v" using last_rejected[OF L _ v(2)] filter(3) True by auto
    then have x: "?x = v @ '' '' @ go_lower u" and un: "is_date_unit u"
      using True u by (auto simp: date_window_def split: if_splits)
    have "go_lower u \<in> set date_units" using un by (auto simp: is_date_unit_def date_units_def)
    then show ?thesis using True v filter(3) x by (auto simp: filter_ok_def)
  qed
  then show ?thesis using p filter(4) by (simp add: plan_ok_def add_filter_def)
qed

lemma parse_item_ok:
  assumes "lib_ok L" and "parse_item L n neg s p = Inr (p', r)" and "plan_ok L p"
    and "neg \<or> hd s \<noteq> CHR ''-''"
  shows "plan_ok L p'"
  using assms quoted_loop_ne regex_loop_closed[where v = "[]"] parse_word_ok
  by (fastforce simp: parse_item_def bind_err_Inr quoted_def regex_def plan_ok_def add_term_def
      add_regex_def term_ok_def regex_ok_def split: if_splits)

lemma parse_step_ok:
  assumes "lib_ok L" and "parse_step L n s p = Inr (p', r)" and "plan_ok L p"
  shows "plan_ok L p'"
  using assms parse_item_ok[of L n _ _ p p' r]
  by (auto simp: parse_step_def Let_def bind_err_Inr split: if_splits)

lemma parse_loop_ok:
  assumes "lib_ok L"
  shows "parse_loop L n s p = Some (Inr q) \<Longrightarrow> plan_ok L p \<Longrightarrow> plan_ok L q"
proof (induction s arbitrary: p rule: measure_induct_rule[of length])
  case (less s)
  show ?case
  proof (cases "skip_space s = []")
    case True
    then show ?thesis using less.prems by (subst (asm) parse_loop.simps) simp
  next
    case False
    then obtain p' r where st: "parse_step L n (skip_space s) p = Inr (p', r)"
      and rec: "parse_loop L n r p' = Some (Inr q)"
      using less.prems by (subst (asm) parse_loop.simps) (auto simp: Let_def split: sum.splits)
    have "length r < length s"
      using parse_step_rest[OF st False] length_skip_space[of s] by linarith
    then show ?thesis
      using less.IH rec parse_step_ok[OF assms st less.prems(2)] by blast
  qed
qed

lemma parse_ok:
  assumes "lib_ok L" and "parse L s = Some (Inr p)"
  shows "plan_ok L p"
  using parse_loop_ok[OF assms(1)] assms(2)
  by (simp add: parse_def plan_ok_def empty_plan_def)


section \<open>Dates resolve\<close>

lemma start_of_utc_date_le: "start_of_utc_date t \<le> t"
  by (simp add: start_of_utc_date_def hour_ns_def)

lemma date_range_ordered: "parse_date_value L v r = Inr d \<Longrightarrow> d_from d \<le> d_to d"
  by (auto simp: parse_date_value_def Let_def bind_err_Inr relative_window_def hour_ns_def
      split: if_splits prod.splits)

lemma date_reference_free:
  "parse_date_value L v r = Inr d \<Longrightarrow> \<exists>d'. parse_date_value L v r' = Inr d'"
  unfolding parse_date_value_def Let_def by (auto split: if_splits)

lemma validate_dates_all:
  "validate_dates L v es = Inr () \<Longrightarrow> e \<in> set es \<Longrightarrow> \<exists>d. parse_date_value L e 0 = Inr d"
  by (induction es) (auto simp: bind_err_Inr split: if_splits)

lemma parsed_dates_resolve_facts:
  assumes "lib_ok L" and "parse L s = Some (Inr p)" and "f \<in> set (p_filters p)"
    and "is_date_field (f_field f)" and "e \<in> set (split_string '','' (f_value f))"
  shows "\<exists>d. parse_date_value L e now = Inr d \<and> d_from d \<le> d_to d"
proof -
  have "validate_date_value L (f_value f) = Inr ()"
    using parse_ok[OF assms(1,2)] assms(3,4) by (auto simp: plan_ok_def filter_ok_def list_all_iff)
  then obtain d0 where "parse_date_value L e 0 = Inr d0"
    using validate_dates_all assms(5) unfolding validate_date_value_def by blast
  then obtain d where "parse_date_value L e now = Inr d"
    using date_reference_free by blast
  then show ?thesis using date_range_ordered by blast
qed

text \<open>A small library for the samples: expressions match themselves, and one day is known.\<close>

definition toy_lib :: query_lib where
  "toy_lib = \<lparr>
     compile = (\<lambda>pat. if pat = ''['' then None else Some (\<lambda>txt. txt = pat)),
     parse_day = (\<lambda>s. if s = ''2024-01-02'' then Some 1704153600000000000 else None),
     parse_stamp = (\<lambda>s. None)\<rparr>"

lemma toy_lib_ok: "lib_ok toy_lib"
  by (simp add: lib_ok_def toy_lib_def digit_byte_def)

definition toy_query :: string where
  "toy_query = ''created:Last WEEK  -Tag:tax/2023 tax'' @ CHR 0x09 # ''-'' @ [CHR 0x22] @ ''old one''
     @ [CHR 0x22] @ '' modified:2024-01-02 /a'' @ [CHR 0x5C] @ ''b/''"

definition toy_plan :: plan where
  "toy_plan = \<lparr>
     p_filters = [\<lparr>f_field = FieldCreated, f_value = ''Last week'', f_negated = False\<rparr>,
       \<lparr>f_field = FieldTag, f_value = ''tax/2023'', f_negated = True\<rparr>,
       \<lparr>f_field = FieldModified, f_value = ''2024-01-02'', f_negated = False\<rparr>],
     p_terms = [\<lparr>t_value = ''tax'', t_phrase = False, t_negated = False\<rparr>,
       \<lparr>t_value = ''old one'', t_phrase = True, t_negated = True\<rparr>],
     p_regexes = [\<lparr>r_pattern = ''a'' @ [CHR 0x5C] @ ''b'', r_negated = False\<rparr>]\<rparr>"

lemma toy_parse: "parse toy_lib toy_query = Some (Inr toy_plan)"
  by code_simp


section \<open>Properties\<close>

text \<open>
  C19: \<open>Parse\<close> returns on every input: the loop has no condition of its own, but every round
  of it consumes at least one byte or ends it, so it gives a plan or an error and never runs on.
\<close>

theorem parse_returns: "\<exists>r. parse L s = Some r"
  unfolding parse_def by (rule parse_loop_returns)

text \<open>
  C17: A plan is what its text says: when \<open>Parse\<close> accepts an input, writing the plan out again
  (its filters, then its words and phrases with their quotes and escapes, then its expressions,
  each with its negation) and parsing that text gives the same plan.  So no value the parser
  accepts is one it would read differently: escapes, negation, relative date windows with their
  unit, and values that hold colons or slashes survive.
\<close>

theorem parse_canonical:
  assumes "lib_ok L" and "parse L s = Some (Inr p)"
  shows "parse L (print_plan p) = Some (Inr p)"
  by (rule parse_print[OF parse_ok[OF assms]])

theorem parse_canonical_witness:
  "parse toy_lib toy_query = Some (Inr toy_plan)
   \<and> parse toy_lib (print_plan toy_plan) = Some (Inr toy_plan)"
  using parse_canonical[OF toy_lib_ok toy_parse] toy_parse by blast

text \<open>
  Dates are settled when a query is parsed: every expression of a \<open>created:\<close> or
  \<open>modified:\<close> filter of an accepted query, which the parser checked against a fixed epoch,
  resolves at every later reference time, to a range that does not end before it starts.
\<close>

theorem parsed_dates_resolve:
  assumes "lib_ok L" and "parse L s = Some (Inr p)" and "f \<in> set (p_filters p)"
    and "is_date_field (f_field f)" and "e \<in> set (split_string '','' (f_value f))"
  shows "\<exists>d. parse_date_value L e now = Inr d \<and> d_from d \<le> d_to d"
  by (rule parsed_dates_resolve_facts[OF assms])

theorem parsed_dates_resolve_witness:
  "\<exists>d. parse_date_value toy_lib ''Last week'' 99 = Inr d \<and> d_from d \<le> d_to d"
proof (rule parsed_dates_resolve[OF toy_lib_ok toy_parse])
  show "\<lparr>f_field = FieldCreated, f_value = ''Last week'', f_negated = False\<rparr> \<in> set (p_filters toy_plan)"
    by (simp add: toy_plan_def)
  show "''Last week'' \<in> set (split_string '',''
      (f_value \<lparr>f_field = FieldCreated, f_value = ''Last week'', f_negated = False\<rparr>))"
    by code_simp
qed (simp add: is_date_field_def)

text \<open>
  Words are cut inside characters.  The parser tests single bytes for white space, and the
  second byte of the capital A with a ring (and of every letter whose encoding holds the byte
  85 or A0, like the a with a grave accent) counts as a space: the name of the town written
  with it becomes two words, the first of which is half a character.
\<close>

theorem parse_cuts_characters:
  "parse L ([CHR 0xC3, CHR 0x85] @ ''rhus'') =
     Some (Inr (add_term ''rhus'' False False (add_term [CHR 0xC3] False False empty_plan)))"
  by code_simp

end
