(* ===== verification/Retention.thy ===== *)
theory Retention
  imports Go_Text Go_Json
begin

text \<open>
  Retention (\<open>internal/retention/retention.go\<close>, \<open>internal/retention/fingerprint.go\<close>): rules that
  select documents by their metadata, the evaluation of a rule, the staged proposals and the
  history on disk, and the fingerprint that binds an acceptance to the state that was
  evaluated.

  Instants are nanoseconds since the Unix epoch; a \<open>time.Duration\<close> is a 64-bit word, as its
  arithmetic wraps.  The layouts of \<open>time.Parse\<close> and \<open>Time.Format\<close>, Unicode case folding, YAML
  and SHA-256 are parameters.  The state directory maps a file name to what the file decodes
  to; a JSON value is never decoded as one of the other kind.
\<close>

section \<open>Rules and documents\<close>

record selector =
  s_doctype :: string
  s_status :: string
  s_category :: string
  s_person :: string
  s_correspondent :: string
  s_tags :: "string list"

record rule =
  ru_name :: string
  ru_description :: string
  ru_selector :: selector
  ru_period :: "64 word"
  ru_period_days :: "64 word"
  ru_reference :: string
  ru_action :: string

definition action_trash :: string where "action_trash = ''trash''"

definition action_flag_review :: string where "action_flag_review = ''flag_review''"

record doc_meta =
  dm_path :: string
  dm_title :: string
  dm_document_date :: string
  dm_created :: string
  dm_due_date :: string
  dm_status :: string
  dm_correspondent :: string
  dm_doctype :: string
  dm_person :: string
  dm_tags :: "string list"

record retention_lib =
  rl_fold :: "string \<Rightarrow> string \<Rightarrow> bool"
  rl_lower :: "string \<Rightarrow> string"
  rl_day :: "string \<Rightarrow> int option"
  rl_stamp :: "string \<Rightarrow> int option"
  rl_format :: "int \<Rightarrow> string"
  rl_yaml :: "string \<Rightarrow> string + rule"
  rl_sha :: "bytes \<Rightarrow> bytes"

datatype rule_error = NameRequired | PeriodNotPositive | BadReferenceField string | BadAction string

definition valid_actions :: "string \<Rightarrow> bool" where
  "valid_actions a \<longleftrightarrow> a = action_trash \<or> a = action_flag_review"

definition valid_reference_field :: "string \<Rightarrow> bool" where
  "valid_reference_field f \<longleftrightarrow> f = ''document_date'' \<or> f = ''created'' \<or> f = ''due_date''"

text \<open>The rule is passed by value: the default it sets stays in the function.\<close>

definition validate_rule :: "rule \<Rightarrow> rule_error + unit" where
  "validate_rule r0 =
     (if trim_space (ru_name r0) = [] then Inl NameRequired
      else if sint (ru_period_days r0) \<le> 0 then Inl PeriodNotPositive
      else let r = (if ru_reference r0 = [] then r0\<lparr>ru_reference := ''document_date''\<rparr> else r0) in
      if \<not> valid_reference_field (ru_reference r) then Inl (BadReferenceField (ru_reference r))
      else if \<not> valid_actions (ru_action r) then Inl (BadAction (ru_action r))
      else Inr ())"

definition hour :: "64 word" where
  "hour = 3600000000000"

datatype load_error = RulesMissing | YamlError string | InvalidRule string rule_error

fun load_rule_docs :: "retention_lib \<Rightarrow> string list \<Rightarrow> load_error + rule list" where
  "load_rule_docs L [] = Inr []"
| "load_rule_docs L (doc0 # ds) =
     (let doc = trim_space doc0 in
      if doc = [] \<or> has_prefix doc ''#'' then load_rule_docs L ds
      else case rl_yaml L doc of
        Inl e \<Rightarrow> Inl (YamlError e)
      | Inr r \<Rightarrow> (case validate_rule r of
          Inl e \<Rightarrow> Inl (InvalidRule (ru_name r) e)
        | Inr _ \<Rightarrow> bind_err (load_rule_docs L ds) (\<lambda>rs.
            Inr (r\<lparr>ru_period := ru_period_days r * 24 * hour\<rparr> # rs))))"

definition load_rules :: "retention_lib \<Rightarrow> string option \<Rightarrow> load_error + rule list" where
  "load_rules L data =
     (case data of
        None \<Rightarrow> Inl RulesMissing
      | Some d \<Rightarrow> load_rule_docs L (split_string ([LF] @ ''---'' @ [LF]) d))"

definition selector_matches :: "retention_lib \<Rightarrow> selector \<Rightarrow> doc_meta \<Rightarrow> bool" where
  "selector_matches L s d \<longleftrightarrow>
     (if s_doctype s \<noteq> [] \<and> \<not> rl_fold L (s_doctype s) (dm_doctype d) then False
      else if s_status s \<noteq> [] \<and> \<not> rl_fold L (s_status s) (dm_status d) then False
      else if s_person s \<noteq> [] \<and> \<not> rl_fold L (s_person s) (dm_person d) then False
      else if s_correspondent s \<noteq> [] \<and> \<not> rl_fold L (s_correspondent s) (dm_correspondent d) then False
      else list_all (\<lambda>t. rl_lower L t \<in> set (map (rl_lower L) (dm_tags d))) (s_tags s))"

definition reference_date :: "retention_lib \<Rightarrow> doc_meta \<Rightarrow> string \<Rightarrow> int option" where
  "reference_date L d fld =
     (let raw = (if fld = ''document_date'' then dm_document_date d
                 else if fld = ''created'' then dm_created d
                 else if fld = ''due_date'' then dm_due_date d
                 else []) in
      if raw = [] then None
      else case rl_day L raw of Some t \<Rightarrow> Some t | None \<Rightarrow> rl_stamp L raw)"

record proposal_item =
  pi_path :: string
  pi_title :: string
  pi_reference :: string
  pi_expires :: string
  pi_action :: string
  pi_rule :: string
  pi_fingerprint :: string
  pi_status :: string
  pi_failure :: string

fun evaluate :: "retention_lib \<Rightarrow> rule \<Rightarrow> doc_meta list \<Rightarrow> int \<Rightarrow> proposal_item list" where
  "evaluate L r [] now = []"
| "evaluate L r (d # ds) now =
     (let fld = (if ru_reference r = [] then ''document_date'' else ru_reference r) in
      if \<not> selector_matches L (ru_selector r) d then evaluate L r ds now
      else case reference_date L d fld of
        None \<Rightarrow> evaluate L r ds now
      | Some ref \<Rightarrow>
          let expires = ref + sint (ru_period r) in
          if now < expires then evaluate L r ds now
          else \<lparr>pi_path = dm_path d, pi_title = dm_title d, pi_reference = rl_format L ref,
                pi_expires = rl_format L expires, pi_action = ru_action r, pi_rule = [],
                pi_fingerprint = [], pi_status = [], pi_failure = []\<rparr> # evaluate L r ds now)"


section \<open>Fingerprints\<close>

record raw_source =
  rs_path :: string
  rs_data :: bytes

definition write_part :: "bytes \<Rightarrow> bytes" where
  "write_part v = dec_of_nat (length v) @ '':'' @ v @ [LF]"

definition fingerprint_input :: "bytes \<Rightarrow> raw_source list \<Rightarrow> bytes" where
  "fingerprint_input handle sources =
     ''symdesk-retention-fingerprint-v1'' @ [CHR 0x00] @ write_part handle
       @ concat (map (\<lambda>s. write_part (rs_path s) @ write_part (rs_data s)) sources)"

definition fingerprint :: "(bytes \<Rightarrow> bytes) \<Rightarrow> bytes \<Rightarrow> raw_source list \<Rightarrow> string" where
  "fingerprint sha handle sources = hex_encode (sha (fingerprint_input handle sources))"


section \<open>Run identifiers\<close>

datatype id_error = IdEmpty | IdNotComponent | IdControl | IdNotPlatformSafe | IdReserved

text \<open>
  The control characters of Unicode, in UTF-8: the two ASCII ranges, and the code points 80 to
  9F.
\<close>

fun has_control :: "string \<Rightarrow> bool" where
  "has_control [] = False"
| "has_control [c] \<longleftrightarrow> c < CHR 0x20 \<or> c = CHR 0x7F"
| "has_control (c # d # s) \<longleftrightarrow> c < CHR 0x20 \<or> c = CHR 0x7F
     \<or> (c = CHR 0xC2 \<and> CHR 0x80 \<le> d \<and> d \<le> CHR 0x9F) \<or> has_control (d # s)"

text \<open>\<open>strings.ToUpper\<close>, as far as its result is compared with the reserved names.\<close>

definition upper_char :: "char \<Rightarrow> char" where
  "upper_char c = (if CHR ''a'' \<le> c \<and> c \<le> CHR ''z'' then char_of (of_char c - (32::nat)) else c)"

definition is_windows_reserved :: "string \<Rightarrow> bool" where
  "is_windows_reserved name0 \<longleftrightarrow>
     (let name = takeWhile (\<lambda>c. c \<noteq> CHR ''.'') name0 in
      if name \<in> {''CON'', ''PRN'', ''AUX'', ''NUL''} then True
      else if length name = 4 \<and> (has_prefix name ''COM'' \<or> has_prefix name ''LPT'')
      then CHR ''1'' \<le> name ! 3 \<and> name ! 3 \<le> CHR ''9''
      else False)"

definition contains_any :: "string \<Rightarrow> string \<Rightarrow> bool" where
  "contains_any s cs \<longleftrightarrow> list_ex (\<lambda>c. c \<in> set cs) s"

definition validate_run_id :: "string \<Rightarrow> id_error + unit" where
  "validate_run_id rid =
     (if rid = [] \<or> trim_space rid = [] then Inl IdEmpty
      else if rid = ''.'' \<or> rid = ''..'' \<or> contains_any rid [CHR ''/'', CHR 0x5C] then Inl IdNotComponent
      else if has_control rid then Inl IdControl
      else if contains_any rid [CHR ''<'', CHR ''>'', CHR '':'', CHR 0x22, CHR ''|'', CHR ''?'', CHR ''*'']
          \<or> has_suffix rid ''.'' \<or> has_suffix rid '' '' then Inl IdNotPlatformSafe
      else if is_windows_reserved (map upper_char rid) then Inl IdReserved
      else Inr ())"


section \<open>Proposals and history on disk\<close>

record proposal =
  pr_run :: string
  pr_rule :: string
  pr_created :: int
  pr_items :: "proposal_item list"
  pr_status :: string

record history_entry =
  he_action_id :: string
  he_timestamp :: int
  he_rule :: string
  he_action :: string
  he_path :: string
  he_title :: string

datatype state_file = ProposalFile proposal | HistoryFile "history_entry list" | NullFile | BadFile

type_synonym state_dir = "string \<rightharpoonup> state_file"

definition proposal_name :: "string \<Rightarrow> string" where
  "proposal_name rid = rid @ ''.json''"

definition history_name :: string where
  "history_name = ''history.json''"

datatype store_error = BadRunId id_error | NoSuchFile | DecodeError | RunIdMismatch | NotAnArray

definition write_proposal :: "proposal \<Rightarrow> state_dir \<Rightarrow> store_error + state_dir" where
  "write_proposal p dir =
     (case validate_run_id (pr_run p) of
        Inl e \<Rightarrow> Inl (BadRunId e)
      | Inr _ \<Rightarrow> Inr (dir(proposal_name (pr_run p) \<mapsto> ProposalFile p)))"

definition no_proposal :: proposal where
  "no_proposal = \<lparr>pr_run = [], pr_rule = [], pr_created = 0, pr_items = [], pr_status = []\<rparr>"

definition load_proposal :: "string \<Rightarrow> state_dir \<Rightarrow> store_error + proposal" where
  "load_proposal rid dir =
     (case validate_run_id rid of
        Inl e \<Rightarrow> Inl (BadRunId e)
      | Inr _ \<Rightarrow>
          bind_err (case dir (proposal_name rid) of
              None \<Rightarrow> Inl NoSuchFile
            | Some (ProposalFile p) \<Rightarrow> Inr p
            | Some NullFile \<Rightarrow> Inr no_proposal
            | Some _ \<Rightarrow> Inl DecodeError)
            (\<lambda>p. if pr_run p \<noteq> rid then Inl RunIdMismatch else Inr p))"

definition stable_action_id :: "string \<Rightarrow> nat \<Rightarrow> string" where
  "stable_action_id rid i = rid @ '':'' @ dec_of_nat i"

definition load_history :: "state_dir \<Rightarrow> store_error + history_entry list" where
  "load_history dir =
     (case dir history_name of
        None \<Rightarrow> Inr []
      | Some (HistoryFile es) \<Rightarrow> Inr es
      | Some NullFile \<Rightarrow> Inl NotAnArray
      | Some _ \<Rightarrow> Inl DecodeError)"

definition append_history :: "history_entry \<Rightarrow> state_dir \<Rightarrow> store_error + state_dir" where
  "append_history entry dir =
     bind_err (load_history dir) (\<lambda>entries.
       if he_action_id entry \<noteq> [] \<and> list_ex (\<lambda>e. he_action_id e = he_action_id entry) entries
       then Inr dir
       else Inr (dir(history_name \<mapsto> HistoryFile (entries @ [entry]))))"


section \<open>A fingerprint determines what it was taken of\<close>

lemma write_part_parse:
  assumes "write_part a @ x = write_part b @ y"
  shows "a = b \<and> x = y"
proof -
  have digits: "takeWhile (\<lambda>c. c \<noteq> CHR '':'') (dec_of_nat n @ CHR '':'' # z) = dec_of_nat n" for n z
  proof -
    have "c \<noteq> CHR '':''" if "c \<in> set (dec_of_nat n)" for c
      using that nat_lit_dec[of n] by (auto simp: nat_lit_def is_digit_def)
    then show ?thesis by (subst takeWhile_append2) auto
  qed
  have "dec_of_nat (length a) = dec_of_nat (length b)"
    using arg_cong[OF assms, of "takeWhile (\<lambda>c. c \<noteq> CHR '':'')"] by (simp add: write_part_def digits)
  then have len: "length a = length b" by (metis nat_of_dec_of_nat)
  then have "a @ [LF] @ x = b @ [LF] @ y" using assms by (simp add: write_part_def)
  then show ?thesis using len by simp
qed

lemma write_part_ne [simp]: "write_part v \<noteq> []"
  by (simp add: write_part_def)

lemma write_parts_inject:
  fixes xs ys :: "raw_source list"
  shows "concat (map (\<lambda>s. write_part (rs_path s) @ write_part (rs_data s)) xs)
     = concat (map (\<lambda>s. write_part (rs_path s) @ write_part (rs_data s)) ys) \<Longrightarrow> xs = ys"
proof (induction xs arbitrary: ys)
  case Nil
  then show ?case by (cases ys) auto
next
  case (Cons x xs)
  then obtain y ys' where ys: "ys = y # ys'" by (cases ys) auto
  note p1 = write_part_parse[of "rs_path x" _ "rs_path y"]
  have "rs_path x = rs_path y \<and> write_part (rs_data x) @ concat (map (\<lambda>s. write_part (rs_path s) @ write_part (rs_data s)) xs)
      = write_part (rs_data y) @ concat (map (\<lambda>s. write_part (rs_path s) @ write_part (rs_data s)) ys')"
    using Cons.prems by (intro p1) (simp add: ys)
  moreover from this have "rs_data x = rs_data y
      \<and> concat (map (\<lambda>s. write_part (rs_path s) @ write_part (rs_data s)) xs)
        = concat (map (\<lambda>s. write_part (rs_path s) @ write_part (rs_data s)) ys')"
    by (intro write_part_parse) blast
  ultimately show ?case using Cons.IH[of ys'] ys by simp
qed

lemma fingerprint_input_inject:
  "fingerprint_input h xs = fingerprint_input h' ys \<Longrightarrow> h = h' \<and> xs = ys"
  using write_part_parse[of h _ h'] write_parts_inject by (simp add: fingerprint_input_def)


section \<open>The period of a rule\<close>

lemma sint_small_word: "- (2 ^ 63) \<le> k \<Longrightarrow> k < 2 ^ 63 \<Longrightarrow> sint (word_of_int k :: 64 word) = k"
  unfolding sint_sbintrunc' by (rule signed_take_bit_int_eq_self) simp_all

lemma period_word:
  "d * 24 * hour = (word_of_int (sint (d :: 64 word) * 86400000000000) :: 64 word)"
  by (simp add: hour_def mult.assoc)

lemma period_exact:
  assumes "0 < sint (d :: 64 word)" and "sint d \<le> 106751"
  shows "sint (d * 24 * hour) = sint d * 86400000000000"
  unfolding period_word by (rule sint_small_word) (use assms in auto)

lemma period_wraps:
  assumes "106752 \<le> sint (d :: 64 word)" and "sint d \<le> 213503"
  shows "sint (d * 24 * hour) < 0"
proof -
  let ?k = "sint d * 86400000000000 - 2 ^ 64"
  have "(word_of_int (sint d * 86400000000000) :: 64 word) = word_of_int ?k"
    by (simp only: word_of_int_eq_iff take_bit_eq_mod) (simp add: mod_diff_right_eq)
  then have "sint (d * 24 * hour) = sint (word_of_int ?k :: 64 word)" by (simp only: period_word)
  also have "\<dots> = ?k" by (rule sint_small_word) (use assms in auto)
  finally show ?thesis using assms by simp
qed

lemma evaluate_set:
  "it \<in> set (evaluate L r ds now) \<longleftrightarrow>
     (\<exists>d \<in> set ds. \<exists>ref. selector_matches L (ru_selector r) d
        \<and> reference_date L d (if ru_reference r = [] then ''document_date'' else ru_reference r) = Some ref
        \<and> ref + sint (ru_period r) \<le> now
        \<and> it = \<lparr>pi_path = dm_path d, pi_title = dm_title d, pi_reference = rl_format L ref,
              pi_expires = rl_format L (ref + sint (ru_period r)), pi_action = ru_action r, pi_rule = [],
              pi_fingerprint = [], pi_status = [], pi_failure = []\<rparr>)"
  by (induction ds) (auto simp: Let_def not_less split: option.splits)


section \<open>Where the rules and the store fall short\<close>

text \<open>
  The category of a selector selects nothing; a rule whose text starts with a comment is left
  out of the rules; and a proposal may be called \<open>history\<close>, and then takes the place of the
  history file.
\<close>

lemma category_ignored: "selector_matches L (s\<lparr>s_category := c\<rparr>) d = selector_matches L s d"
  by (simp add: selector_matches_def)

lemma commented_rule_dropped:
  "has_prefix (trim_space doc) ''#'' \<Longrightarrow> load_rule_docs L (doc # ds) = load_rule_docs L ds"
  by (simp add: Let_def)

lemma history_overwritten:
  "\<exists>dir'. write_proposal (p\<lparr>pr_run := ''history''\<rparr>) dir = Inr dir' \<and> load_history dir' = Inl DecodeError"
proof -
  have ok: "validate_run_id ''history'' = Inr ()" by code_simp
  have nm: "proposal_name ''history'' = history_name" by (simp add: proposal_name_def history_name_def)
  let ?p = "p\<lparr>pr_run := ''history''\<rparr>"
  have run: "pr_run ?p = ''history''" by simp
  have "write_proposal ?p dir = Inr (dir(history_name \<mapsto> ProposalFile ?p))"
    unfolding write_proposal_def run ok nm by simp
  then show ?thesis by (simp add: load_history_def)
qed


section \<open>Properties\<close>

text \<open>
  A fingerprint binds a proposal to the exact state it was taken of.  Two states, each the
  bytes of a dataset handle (none for an ordinary document) and a list of raw files with their
  paths, that have the same fingerprint are the same state, unless SHA-256 maps the two distinct
  texts built from them to one digest: the lengths written before every part keep a part from
  being read as two, or two as one.
\<close>

theorem fingerprint_binds:
  assumes "fingerprint sha h xs = fingerprint sha h' ys"
    and "sha (fingerprint_input h xs) = sha (fingerprint_input h' ys)
           \<Longrightarrow> fingerprint_input h xs = fingerprint_input h' ys"
  shows "h = h' \<and> xs = ys"
proof (rule fingerprint_input_inject, rule assms(2))
  show "sha (fingerprint_input h xs) = sha (fingerprint_input h' ys)"
    using assms(1) by (simp add: fingerprint_def)
qed

theorem fingerprint_binds_witness:
  "fingerprint id ''h'' [\<lparr>rs_path = ''a'', rs_data = ''b''\<rparr>]
     \<noteq> fingerprint id ''h'' [\<lparr>rs_path = ''a'', rs_data = []\<rparr>, \<lparr>rs_path = ''b'', rs_data = []\<rparr>]"
  using fingerprint_binds[of id "''h''" "[\<lparr>rs_path = ''a'', rs_data = ''b''\<rparr>]" "''h''"
      "[\<lparr>rs_path = ''a'', rs_data = []\<rparr>, \<lparr>rs_path = ''b'', rs_data = []\<rparr>]"]
  by fastforce

text \<open>
  A retention period of more than 106751 days (292 years) wraps.  Every rule that
  \<open>Validate\<close> accepts with at most that many days gets the period it names; with 106752 up to
  213503 days, which \<open>Validate\<close> accepts as well, the period is negative, and \<open>Evaluate\<close> returns
  as expired every selected document whose reference date is not after now: a rule meant to keep
  documents practically for ever has them trashed at once.
\<close>

theorem long_period_expires_now:
  assumes "validate_rule r = Inr ()" and "ru_period r = ru_period_days r * 24 * hour"
  shows "(sint (ru_period_days r) \<le> 106751 \<longrightarrow>
            sint (ru_period r) = sint (ru_period_days r) * 86400000000000)
    \<and> (106752 \<le> sint (ru_period_days r) \<and> sint (ru_period_days r) \<le> 213503
         \<and> selector_matches L (ru_selector r) d
         \<and> reference_date L d (if ru_reference r = [] then ''document_date'' else ru_reference r) = Some ref
         \<and> ref \<le> now
       \<longrightarrow> (\<exists>it \<in> set (evaluate L r [d] now). pi_path it = dm_path d \<and> pi_action it = ru_action r))"
proof -
  have pos: "0 < sint (ru_period_days r)"
    using assms(1) by (auto simp: validate_rule_def split: if_splits)
  have neg: "ref + sint (ru_period r) \<le> now"
    if "106752 \<le> sint (ru_period_days r)" "sint (ru_period_days r) \<le> 213503" "ref \<le> now"
    using period_wraps[OF that(1,2)] that(3) assms(2) by simp
  show ?thesis
    using period_exact[OF pos] assms(2) neg by (auto simp: Let_def not_less)
qed

definition for_ever :: rule where
  "for_ever = \<lparr>ru_name = ''keep'', ru_description = [], ru_selector = \<lparr>s_doctype = [], s_status = [],
     s_category = [], s_person = [], s_correspondent = [], s_tags = []\<rparr>,
     ru_period = 200000 * 24 * hour, ru_period_days = 200000, ru_reference = [], ru_action = action_trash\<rparr>"

definition fresh_doc :: doc_meta where
  "fresh_doc = \<lparr>dm_path = ''will.md'', dm_title = ''Will'', dm_document_date = ''2024-01-02'',
     dm_created = [], dm_due_date = [], dm_status = [], dm_correspondent = [], dm_doctype = [],
     dm_person = [], dm_tags = []\<rparr>"

definition day_lib :: retention_lib where
  "day_lib = \<lparr>rl_fold = (=), rl_lower = id,
     rl_day = (\<lambda>s. if s = ''2024-01-02'' then Some 1704153600000000000 else None),
     rl_stamp = (\<lambda>s. None), rl_format = (\<lambda>t. ''2024-01-02''), rl_yaml = (\<lambda>s. Inr for_ever), rl_sha = id\<rparr>"

theorem long_period_expires_now_witness:
  "\<exists>it \<in> set (evaluate day_lib for_ever [fresh_doc] 1704153600000000000). pi_path it = ''will.md''"
proof -
  have "validate_rule for_ever = Inr ()" by code_simp
  moreover have "ru_period for_ever = ru_period_days for_ever * 24 * hour"
    by (simp add: for_ever_def)
  moreover have "sint (ru_period_days for_ever) = 200000"
    by (simp add: for_ever_def sint_numeral)
  moreover have "selector_matches day_lib (ru_selector for_ever) fresh_doc"
    "reference_date day_lib fresh_doc ''document_date'' = Some 1704153600000000000"
    by (simp_all add: selector_matches_def for_ever_def reference_date_def fresh_doc_def day_lib_def)
  moreover have "ru_reference for_ever = []" "dm_path fresh_doc = ''will.md''"
    by (simp_all add: for_ever_def fresh_doc_def)
  ultimately show ?thesis
    using long_period_expires_now[of for_ever day_lib fresh_doc 1704153600000000000 1704153600000000000]
    by auto
qed

end
