(* ===== verification/Retention_Review.thy ===== *)
theory Retention_Review
  imports Retention
begin

text \<open>
  The review of retention proposals: the authoritative state of a document
  (\<open>internal/service/dataset_retention.go\<close>) and the commands that stage, list, accept and reject
  a proposal (\<open>cmd/symdesk/retention.go\<close>).

  The vault is a map from relative paths to file contents with the raw directories of the
  datasets.  What the commands call of other packages (path confinement, the document and
  dataset parsers, the actions on a document) is the record \<open>vault_ops\<close>.  An accepting run
  returns the trace of its durable effects, each with the state of the disk after it: a crash
  leaves one of these states.
\<close>

section \<open>The vault\<close>

datatype fm_value = FmString string | FmOther

record document =
  dc_type :: string
  dc_path :: string
  dc_title :: string
  dc_document_date :: string
  dc_created :: string
  dc_due_date :: string
  dc_status :: string
  dc_person :: string
  dc_tags :: "string list"
  dc_frontmatter :: "(string \<times> fm_value) list"

record handle =
  hd_slug :: string
  hd_title :: string
  hd_created :: string
  hd_coverage_to :: string
  hd_rule :: string

record raw_entry =
  re_name :: string
  re_dir :: bool
  re_link :: bool
  re_data :: bytes

record vault =
  va_files :: "string \<rightharpoonup> bytes"
  va_raw :: "string \<rightharpoonup> raw_entry list"

record vault_ops =
  vo_rejects :: "string \<Rightarrow> string option"
  vo_parse :: "string \<Rightarrow> bytes \<Rightarrow> string + document"
  vo_handle :: "string \<Rightarrow> bytes \<Rightarrow> string + handle"
  vo_delete :: "string \<Rightarrow> vault \<Rightarrow> string option \<times> vault"
  vo_status :: "string \<Rightarrow> string \<Rightarrow> vault \<Rightarrow> string option \<times> vault"
  vo_purge :: "string \<Rightarrow> string \<Rightarrow> string \<Rightarrow> vault \<Rightarrow> string option \<times> vault"

definition extract_frontmatter_string :: "(string \<times> fm_value) list \<Rightarrow> string \<Rightarrow> string" where
  "extract_frontmatter_string fm key =
     (case map_of fm key of Some (FmString s) \<Rightarrow> s | _ \<Rightarrow> [])"

definition doc_meta_from_document :: "document \<Rightarrow> doc_meta" where
  "doc_meta_from_document doc = \<lparr>
     dm_path = dc_path doc, dm_title = dc_title doc, dm_document_date = dc_document_date doc,
     dm_created = dc_created doc, dm_due_date = dc_due_date doc, dm_status = dc_status doc,
     dm_correspondent = extract_frontmatter_string (dc_frontmatter doc) ''correspondent'',
     dm_doctype = extract_frontmatter_string (dc_frontmatter doc) ''document_type'',
     dm_person = dc_person doc, dm_tags = dc_tags doc\<rparr>"

definition dataset_type :: string where
  "dataset_type = ''dataset''"

record retention_view =
  st_meta :: doc_meta
  st_rule :: string
  st_fingerprint :: string
  st_dataset :: bool

text \<open>The CSV files of a raw directory, in the order of the listing; a link is an error.\<close>

fun raw_sources :: "string \<Rightarrow> raw_entry list \<Rightarrow> string + raw_source list" where
  "raw_sources slug [] = Inr []"
| "raw_sources slug (e # es) =
     (if re_dir e \<or> to_lower (path_ext (re_name e)) \<noteq> ''.csv'' then raw_sources slug es
      else if re_link e then Inl ''dataset raw source is a symlink''
      else bind_err (raw_sources slug es) (\<lambda>ss.
        Inr (\<lparr>rs_path = clean_rel (''datasets/'' @ slug @ ''/'' @ re_name e),
              rs_data = re_data e\<rparr> # ss)))"

definition dataset_retention_state ::
    "vault_ops \<Rightarrow> (bytes \<Rightarrow> bytes) \<Rightarrow> string \<Rightarrow> bytes \<Rightarrow> vault \<Rightarrow> string + retention_view" where
  "dataset_retention_state V sha rel handle_data v =
     bind_err (vo_handle V rel handle_data) (\<lambda>h.
       if rel \<noteq> clean_rel (''datasets/'' @ hd_slug h @ ''.md'')
       then Inl ''dataset handle path does not match dataset''
       else let raw_dir = clean_rel (''datasets/'' @ hd_slug h) in
       case vo_rejects V raw_dir of
         Some e \<Rightarrow> Inl e
       | None \<Rightarrow>
           bind_err (case va_raw v raw_dir of
               None \<Rightarrow> Inr []
             | Some es \<Rightarrow> raw_sources (hd_slug h) es) (\<lambda>ss.
             Inr \<lparr>st_meta = \<lparr>dm_path = rel, dm_title = hd_title h,
                    dm_document_date = hd_coverage_to h, dm_created = hd_created h,
                    dm_due_date = [], dm_status = [], dm_correspondent = [],
                    dm_doctype = dataset_type, dm_person = [], dm_tags = []\<rparr>,
                  st_rule = hd_rule h,
                  st_fingerprint = fingerprint sha handle_data (sort_key rs_path ss),
                  st_dataset = True\<rparr>))"

definition retention_state :: "vault_ops \<Rightarrow> (bytes \<Rightarrow> bytes) \<Rightarrow> string \<Rightarrow> vault \<Rightarrow> string + retention_view" where
  "retention_state V sha rel0 v =
     (let rel = trim_space rel0 in
      if rel = [] \<or> hd rel = CHR ''/'' then Inl ''invalid retention path''
      else case vo_rejects V rel of
        Some e \<Rightarrow> Inl e
      | None \<Rightarrow> (case va_files v rel of
          None \<Rightarrow> Inl ''no such file''
        | Some data \<Rightarrow>
            bind_err (vo_parse V rel data) (\<lambda>doc.
              if dc_type doc = dataset_type then
                bind_err (dataset_retention_state V sha rel data v) (\<lambda>st.
                  Inr (st\<lparr>st_meta := (st_meta st)\<lparr>dm_path := rel\<rparr>\<rparr>))
              else Inr \<lparr>st_meta = doc_meta_from_document doc, st_rule = [],
                st_fingerprint = fingerprint sha [] [\<lparr>rs_path = rel, rs_data = data\<rparr>],
                st_dataset = False\<rparr>)))"

definition dataset_retention_slug :: "string \<Rightarrow> string option" where
  "dataset_retention_slug path0 =
     (let path = trim_space path0 in
      if \<not> has_prefix path ''datasets/'' \<or> \<not> has_suffix path ''.md'' then None
      else let slug = trim_suffix (trim_prefix path ''datasets/'') ''.md'' in
      if slug = [] \<or> CHR ''/'' \<in> set slug then None else Some slug)"


section \<open>Staging a proposal\<close>

datatype review_error = Store store_error | Rules load_error | FailedClosed "string list"
  | WrongStatus string

definition eval_doc ::
    "vault_ops \<Rightarrow> retention_lib \<Rightarrow> vault \<Rightarrow> int \<Rightarrow> rule \<Rightarrow> string \<Rightarrow> string + proposal_item list" where
  "eval_doc V L v now r path =
     (case retention_state V (rl_sha L) path v of
        Inl e \<Rightarrow> Inl (path @ '': '' @ e)
      | Inr st \<Rightarrow>
          if st_dataset st \<and> ru_name r \<noteq> st_rule st then Inr []
          else Inr (map (\<lambda>it. it\<lparr>pi_rule := ru_name r, pi_fingerprint := st_fingerprint st\<rparr>)
                 (evaluate L r [st_meta st] now)))"

definition eval_all ::
    "vault_ops \<Rightarrow> retention_lib \<Rightarrow> vault \<Rightarrow> int \<Rightarrow> rule list \<Rightarrow> string list
     \<Rightarrow> (string + proposal_item list) list" where
  "eval_all V L v now rs paths =
     concat (map (\<lambda>r. map (eval_doc V L v now r) paths) rs)"

definition failures_of :: "('e + 'a) list \<Rightarrow> 'e list" where
  "failures_of xs = concat (map (\<lambda>x. case x of Inl e \<Rightarrow> [e] | Inr _ \<Rightarrow> []) xs)"

definition results_of :: "('e + 'a list) list \<Rightarrow> 'a list" where
  "results_of xs = concat (map (\<lambda>x. case x of Inl _ \<Rightarrow> [] | Inr y \<Rightarrow> y) xs)"

definition run_eval ::
    "vault_ops \<Rightarrow> retention_lib \<Rightarrow> string option \<Rightarrow> string list \<Rightarrow> int \<Rightarrow> vault \<Rightarrow> state_dir
     \<Rightarrow> review_error + proposal \<times> state_dir" where
  "run_eval V L rules_data docs now v dir =
     (case load_rules L rules_data of
        Inl e \<Rightarrow> Inl (Rules e)
      | Inr rules \<Rightarrow>
          let rs = eval_all V L v now rules docs in
          if failures_of rs \<noteq> [] then Inl (FailedClosed (failures_of rs))
          else let p = \<lparr>pr_run = ''ret-'' @ dec_of_int (now div 1000000000), pr_rule = ''batch'',
                        pr_created = now, pr_items = results_of rs, pr_status = ''pending''\<rparr> in
          (case write_proposal p dir of
             Inl e \<Rightarrow> Inl (Store e)
           | Inr dir' \<Rightarrow> Inr (p, dir')))"


section \<open>Listing and rejecting\<close>

definition open_status :: "string \<Rightarrow> bool" where
  "open_status s \<longleftrightarrow> s = ''pending'' \<or> s = ''failed'' \<or> s = ''partial''"

text \<open>The entries of the state directory are given in the order of the directory listing.\<close>

definition run_list :: "string list \<Rightarrow> state_dir \<Rightarrow> proposal list" where
  "run_list entries dir =
     concat (map (\<lambda>nm. if path_ext nm \<noteq> ''.json'' then []
        else case load_proposal (take (length nm - 5) nm) dir of
          Inl _ \<Rightarrow> []
        | Inr p \<Rightarrow> if open_status (pr_status p) then [p] else []) entries)"

definition run_reject :: "string \<Rightarrow> state_dir \<Rightarrow> review_error + state_dir" where
  "run_reject rid dir =
     (case load_proposal rid dir of
        Inl e \<Rightarrow> Inl (Store e)
      | Inr p \<Rightarrow> (case write_proposal (p\<lparr>pr_status := ''rejected''\<rparr>) dir of
          Inl e \<Rightarrow> Inl (Store e)
        | Inr dir' \<Rightarrow> Inr dir'))"


section \<open>Accepting a proposal\<close>

definition item_accepted :: string where "item_accepted = ''accepted''"

definition item_done :: string where "item_done = ''action_completed''"

definition proposal_status :: "proposal_item list \<Rightarrow> string" where
  "proposal_status items =
     (let accepted = length (filter (\<lambda>it. pi_status it = item_accepted) items);
          failed = length (filter (\<lambda>it. pi_status it \<noteq> item_accepted \<and> pi_failure it \<noteq> []) items);
          pending = length (filter (\<lambda>it. pi_status it \<noteq> item_accepted \<and> pi_failure it = []) items)
      in if failed = 0 \<and> pending = 0 then ''accepted''
         else if failed = 0 then ''pending''
         else if accepted = 0 then ''failed''
         else ''partial'')"

datatype effect = Acted nat | Saved | Recorded nat

record disk =
  dk_vault :: vault
  dk_dir :: state_dir

record review_state =
  rn_disk :: disk
  rn_prop :: proposal
  rn_acted :: nat
  rn_failures :: "string list"
  rn_trace :: "(effect \<times> disk) list"

definition set_item :: "nat \<Rightarrow> proposal_item \<Rightarrow> review_state \<Rightarrow> review_state" where
  "set_item i it s = s\<lparr>rn_prop := (rn_prop s)\<lparr>pr_items := (pr_items (rn_prop s))[i := it]\<rparr>\<rparr>"

definition happen :: "effect \<Rightarrow> disk \<Rightarrow> review_state \<Rightarrow> review_state" where
  "happen e d s = s\<lparr>rn_disk := d, rn_trace := rn_trace s @ [(e, d)]\<rparr>"

definition fail_item :: "nat \<Rightarrow> string \<Rightarrow> review_state \<Rightarrow> review_state" where
  "fail_item i message s =
     (let it = pr_items (rn_prop s) ! i in
      (set_item i (it\<lparr>pi_status := [], pi_failure := message\<rparr>) s)
        \<lparr>rn_failures := rn_failures s @ [pi_path it @ '': '' @ message]\<rparr>)"

definition save :: "review_state \<Rightarrow> review_error + review_state" where
  "save s =
     (let p = (rn_prop s)\<lparr>pr_status := proposal_status (pr_items (rn_prop s))\<rparr> in
      case write_proposal p (dk_dir (rn_disk s)) of
        Inl e \<Rightarrow> Inl (Store e)
      | Inr dir \<Rightarrow> Inr (happen Saved ((rn_disk s)\<lparr>dk_dir := dir\<rparr>) (s\<lparr>rn_prop := p\<rparr>)))"

definition history_failed :: "string \<Rightarrow> string" where
  "history_failed m = ''history append failed after action: '' @ m"

text \<open>
  The history entry of an item, its acceptance and the save that follows; the first flag says
  whether the action was taken in this run and counts.
\<close>

definition record_item :: "(store_error \<Rightarrow> string) \<Rightarrow> int \<Rightarrow> bool \<Rightarrow> nat \<Rightarrow> review_state \<Rightarrow> review_error + review_state" where
  "record_item msg now counts i s =
     (let it = pr_items (rn_prop s) ! i;
          entry = \<lparr>he_action_id = stable_action_id (pr_run (rn_prop s)) i, he_timestamp = now,
                   he_rule = pi_rule it, he_action = pi_action it, he_path = pi_path it,
                   he_title = pi_title it\<rparr> in
      case append_history entry (dk_dir (rn_disk s)) of
        Inl e \<Rightarrow>
          let m = history_failed (msg e) in
          Inr ((set_item i (it\<lparr>pi_failure := m\<rparr>) s)
            \<lparr>rn_failures := rn_failures s @ [pi_path it @ '': '' @ m]\<rparr>)
      | Inr dir \<Rightarrow>
          let s = happen (Recorded i) ((rn_disk s)\<lparr>dk_dir := dir\<rparr>) s;
              s = set_item i (it\<lparr>pi_status := item_accepted, pi_failure := []\<rparr>) s
          in save (if counts then s\<lparr>rn_acted := rn_acted s + 1\<rparr> else s))"

text \<open>The guards before the action: the reason not to act, if any.\<close>

definition stale_reason :: "proposal_item \<Rightarrow> string + retention_view \<Rightarrow> string option" where
  "stale_reason it r =
     (case r of
        Inl e \<Rightarrow> Some (''cannot re-read authoritative state: '' @ e)
      | Inr st \<Rightarrow>
          if dataset_retention_slug (pi_path it) \<noteq> None
             \<and> (\<not> st_dataset st \<or> dm_path (st_meta st) \<noteq> pi_path it \<or> dm_title (st_meta st) = [])
          then Some ''dataset handle is missing or changed''
          else if dataset_retention_slug (pi_path it) \<noteq> None
             \<and> (pi_rule it = [] \<or> st_rule st \<noteq> pi_rule it)
          then Some (''proposal is stale: dataset declares retention rule '' @ st_rule st
                      @ '', proposal requires '' @ pi_rule it)
          else if pi_fingerprint it = [] then Some ''proposal has no fingerprint; re-run retention eval''
          else if st_fingerprint st \<noteq> pi_fingerprint it
          then Some ''proposal is stale: authoritative fingerprint changed''
          else None)"

definition take_action :: "vault_ops \<Rightarrow> proposal_item \<Rightarrow> vault \<Rightarrow> string option \<times> vault" where
  "take_action V it v =
     (case dataset_retention_slug (pi_path it) of
        Some slug \<Rightarrow>
          if pi_action it \<noteq> action_trash
          then (Some (''dataset retention action must be trash, got '' @ pi_action it), v)
          else vo_purge V slug (pi_rule it) (pi_fingerprint it) v
      | None \<Rightarrow>
          if pi_action it = action_trash then vo_delete V (pi_path it) v
          else if pi_action it = action_flag_review then vo_status V (pi_path it) ''needs_review'' v
          else (Some (''unsupported retention action '' @ pi_action it), v))"

definition accept_item ::
    "vault_ops \<Rightarrow> (bytes \<Rightarrow> bytes) \<Rightarrow> (store_error \<Rightarrow> string) \<Rightarrow> int \<Rightarrow> nat \<Rightarrow> review_state
     \<Rightarrow> review_error + review_state" where
  "accept_item V sha msg now i s =
     (let it = pr_items (rn_prop s) ! i in
      if pi_status it = item_accepted then Inr s
      else if pi_status it = item_done then record_item msg now False i s
      else case stale_reason it (retention_state V sha (pi_path it) (dk_vault (rn_disk s))) of
        Some m \<Rightarrow> Inr (fail_item i m s)
      | None \<Rightarrow>
          let (err, v) = take_action V it (dk_vault (rn_disk s));
              s = happen (Acted i) ((rn_disk s)\<lparr>dk_vault := v\<rparr>) s in
          (case err of
             Some e \<Rightarrow> Inr (fail_item i (''action failed: '' @ e) s)
           | None \<Rightarrow>
               bind_err (save (set_item i (it\<lparr>pi_status := item_done, pi_failure := []\<rparr>) s))
                 (record_item msg now True i)))"

fun accept_items ::
    "vault_ops \<Rightarrow> (bytes \<Rightarrow> bytes) \<Rightarrow> (store_error \<Rightarrow> string) \<Rightarrow> int \<Rightarrow> nat list \<Rightarrow> review_state
     \<Rightarrow> review_error + review_state" where
  "accept_items V sha msg now [] s = Inr s"
| "accept_items V sha msg now (i # is) s =
     bind_err (accept_item V sha msg now i s) (accept_items V sha msg now is)"

definition start_review :: "proposal \<Rightarrow> disk \<Rightarrow> review_state" where
  "start_review p d = \<lparr>rn_disk = d, rn_prop = p, rn_acted = 0, rn_failures = [], rn_trace = []\<rparr>"

definition run_accept ::
    "vault_ops \<Rightarrow> (bytes \<Rightarrow> bytes) \<Rightarrow> (store_error \<Rightarrow> string) \<Rightarrow> int \<Rightarrow> string \<Rightarrow> disk
     \<Rightarrow> review_error + review_state" where
  "run_accept V sha msg now rid d =
     (case load_proposal rid (dk_dir d) of
        Inl e \<Rightarrow> Inl (Store e)
      | Inr p \<Rightarrow>
          if \<not> open_status (pr_status p) \<and> pr_status p \<noteq> ''accepted'' then Inl (WrongStatus (pr_status p))
          else bind_err (accept_items V sha msg now [0..<length (pr_items p)] (start_review p d)) save)"


section \<open>What the steps of a run keep\<close>

text \<open>The part of an item no run changes.\<close>

definition static :: "proposal_item \<Rightarrow> proposal_item" where
  "static it = it\<lparr>pi_status := [], pi_failure := []\<rparr>"

lemma static_fields:
  assumes "static a = static b"
  shows "pi_path a = pi_path b" "pi_rule a = pi_rule b" "pi_action a = pi_action b"
    "pi_fingerprint a = pi_fingerprint b" "pi_title a = pi_title b"
  using assms by (auto simp: static_def dest: arg_cong[where f = pi_path] arg_cong[where f = pi_rule]
      arg_cong[where f = pi_action] arg_cong[where f = pi_fingerprint] arg_cong[where f = pi_title])

lemma static_update [simp]:
  "static (it\<lparr>pi_status := x\<rparr>) = static it"
  "static (it\<lparr>pi_failure := y\<rparr>) = static it"
  by (simp_all add: static_def)

lemma stale_reason_static: "static a = static b \<Longrightarrow> stale_reason a r = stale_reason b r"
  by (simp only: stale_reason_def static_fields[of a b])

lemma take_action_static: "static a = static b \<Longrightarrow> take_action V a v = take_action V b v"
  by (simp only: take_action_def static_fields[of a b])

text \<open>
  One durable effect of a run on the proposal \<open>p\<close>: an action is taken on a state that passes the
  guards, and nothing else touches the vault.
\<close>

fun step_ok :: "vault_ops \<Rightarrow> (bytes \<Rightarrow> bytes) \<Rightarrow> proposal \<Rightarrow> disk \<Rightarrow> effect \<times> disk \<Rightarrow> bool" where
  "step_ok V sha p d (Acted i, d') \<longleftrightarrow>
     i < length (pr_items p)
     \<and> stale_reason (pr_items p ! i) (retention_state V sha (pi_path (pr_items p ! i)) (dk_vault d)) = None
     \<and> dk_vault d' = snd (take_action V (pr_items p ! i) (dk_vault d)) \<and> dk_dir d' = dk_dir d"
| "step_ok V sha p d (Saved, d') \<longleftrightarrow>
     dk_vault d' = dk_vault d \<and> (\<exists>q. dk_dir d' = (dk_dir d)(proposal_name (pr_run p) \<mapsto> ProposalFile q))"
| "step_ok V sha p d (Recorded i, d') \<longleftrightarrow>
     i < length (pr_items p) \<and> dk_vault d' = dk_vault d
     \<and> (\<exists>e. he_action_id e = stable_action_id (pr_run p) i \<and> append_history e (dk_dir d) = Inr (dk_dir d'))"

fun trace_ok :: "vault_ops \<Rightarrow> (bytes \<Rightarrow> bytes) \<Rightarrow> proposal \<Rightarrow> disk \<Rightarrow> (effect \<times> disk) list \<Rightarrow> bool" where
  "trace_ok V sha p d [] \<longleftrightarrow> True"
| "trace_ok V sha p d (x # t) \<longleftrightarrow> step_ok V sha p d x \<and> trace_ok V sha p (snd x) t"

definition end_disk :: "disk \<Rightarrow> (effect \<times> disk) list \<Rightarrow> disk" where
  "end_disk d t = (if t = [] then d else snd (last t))"

lemma trace_ok_snoc:
  "trace_ok V sha p d (t @ [x]) \<longleftrightarrow> trace_ok V sha p d t \<and> step_ok V sha p (end_disk d t) x"
  by (induction t arbitrary: d) (auto simp: end_disk_def)

definition run_ok :: "vault_ops \<Rightarrow> (bytes \<Rightarrow> bytes) \<Rightarrow> proposal \<Rightarrow> disk \<Rightarrow> review_state \<Rightarrow> bool" where
  "run_ok V sha p d s \<longleftrightarrow>
     pr_run (rn_prop s) = pr_run p \<and> map static (pr_items (rn_prop s)) = map static (pr_items p)
     \<and> trace_ok V sha p d (rn_trace s) \<and> rn_disk s = end_disk d (rn_trace s)"

lemma run_ok_start: "run_ok V sha p d (start_review p d)"
  by (simp add: run_ok_def start_review_def end_disk_def)

lemma run_ok_happen:
  "run_ok V sha p d s \<Longrightarrow> step_ok V sha p (rn_disk s) (e, d') \<Longrightarrow> run_ok V sha p d (happen e d' s)"
  by (auto simp: run_ok_def happen_def trace_ok_snoc end_disk_def)

lemma map_static_update:
  "i < length xs \<Longrightarrow> static it = static (xs ! i) \<Longrightarrow> map static (xs[i := it]) = map static xs"
  by (simp add: map_update list_update_same_conv)

lemma run_ok_set_item:
  assumes "run_ok V sha p d s" and "static it = static (pr_items (rn_prop s) ! i)"
  shows "run_ok V sha p d (set_item i it s)"
proof (cases "i < length (pr_items (rn_prop s))")
  case True
  then show ?thesis
    using assms map_static_update[OF True assms(2)] by (simp add: run_ok_def set_item_def)
next
  case False
  then have "(pr_items (rn_prop s))[i := it] = pr_items (rn_prop s)" by (simp add: list_update_beyond)
  then show ?thesis using assms by (simp add: run_ok_def set_item_def)
qed

lemma run_ok_length: "run_ok V sha p d s \<Longrightarrow> length (pr_items (rn_prop s)) = length (pr_items p)"
  unfolding run_ok_def by (metis length_map)

lemma run_ok_item:
  assumes "run_ok V sha p d s" and "i < length (pr_items p)"
  shows "static (pr_items (rn_prop s) ! i) = static (pr_items p ! i)"
  using assms run_ok_length[OF assms(1)] unfolding run_ok_def by (metis nth_map)

lemma run_ok_irrelevant [simp]:
  "run_ok V sha p d (s\<lparr>rn_failures := x\<rparr>) = run_ok V sha p d s"
  "run_ok V sha p d (s\<lparr>rn_acted := n\<rparr>) = run_ok V sha p d s"
  by (simp_all add: run_ok_def)

lemma run_ok_fail: "run_ok V sha p d s \<Longrightarrow> run_ok V sha p d (fail_item i m s)"
  using run_ok_set_item[of V sha p d s _ i] by (simp add: fail_item_def Let_def)

lemma write_proposal_eq:
  "write_proposal p dir = Inr dir' \<longleftrightarrow>
     validate_run_id (pr_run p) = Inr () \<and> dir' = dir(proposal_name (pr_run p) \<mapsto> ProposalFile p)"
  by (auto simp: write_proposal_def split: sum.splits)

lemma run_ok_save:
  assumes "run_ok V sha p d s" and "save s = Inr s'"
  shows "run_ok V sha p d s'"
proof -
  define q where "q = (rn_prop s)\<lparr>pr_status := proposal_status (pr_items (rn_prop s))\<rparr>"
  obtain dir where dir: "write_proposal q (dk_dir (rn_disk s)) = Inr dir"
    and s': "s' = happen Saved ((rn_disk s)\<lparr>dk_dir := dir\<rparr>) (s\<lparr>rn_prop := q\<rparr>)"
    using assms(2) unfolding save_def Let_def q_def[symmetric] by (auto split: sum.splits)
  have q: "run_ok V sha p d (s\<lparr>rn_prop := q\<rparr>)" "pr_run q = pr_run p"
    using assms(1) by (auto simp: run_ok_def q_def)
  then show ?thesis
    unfolding s' using dir by (intro run_ok_happen) (auto simp: write_proposal_eq)
qed

lemma run_ok_record:
  assumes "run_ok V sha p d s" and "record_item msg now c i s = Inr s'" and "i < length (pr_items p)"
  shows "run_ok V sha p d s'"
proof -
  define it where "it = pr_items (rn_prop s) ! i"
  define entry where "entry = \<lparr>he_action_id = stable_action_id (pr_run (rn_prop s)) i,
     he_timestamp = now, he_rule = pi_rule it, he_action = pi_action it, he_path = pi_path it,
     he_title = pi_title it\<rparr>"
  show ?thesis
  proof (cases "append_history entry (dk_dir (rn_disk s))")
    case (Inl e)
    then show ?thesis
      using assms(1,2) unfolding record_item_def it_def[symmetric] Let_def entry_def[symmetric]
      by (auto simp: it_def intro!: run_ok_set_item)
  next
    case (Inr dir)
    let ?s1 = "happen (Recorded i) ((rn_disk s)\<lparr>dk_dir := dir\<rparr>) s"
    have "run_ok V sha p d ?s1"
      using assms(1,3) Inr
      by (intro run_ok_happen) (auto simp: entry_def run_ok_def intro!: exI[of _ entry])
    then have "run_ok V sha p d (set_item i (it\<lparr>pi_status := item_accepted, pi_failure := []\<rparr>) ?s1)"
      by (rule run_ok_set_item) (simp add: it_def happen_def)
    then show ?thesis
      using assms(2) Inr unfolding record_item_def it_def[symmetric] Let_def entry_def[symmetric]
      by (auto intro: run_ok_save[rotated] split: if_splits)
  qed
qed

lemma run_ok_item_step:
  assumes "run_ok V sha p d s" and "accept_item V sha msg now i s = Inr s'" and "i < length (pr_items p)"
  shows "run_ok V sha p d s'"
proof -
  define it where "it = pr_items (rn_prop s) ! i"
  have st: "static it = static (pr_items p ! i)" using run_ok_item[OF assms(1,3)] by (simp add: it_def)
  let ?r = "stale_reason it (retention_state V sha (pi_path it) (dk_vault (rn_disk s)))"
  consider (skip) "pi_status it = item_accepted" | (redo) "pi_status it = item_done" "pi_status it \<noteq> item_accepted"
    | (stale) m where "pi_status it \<noteq> item_accepted" "pi_status it \<noteq> item_done" "?r = Some m"
    | (act) "pi_status it \<noteq> item_accepted" "pi_status it \<noteq> item_done" "?r = None"
    by (cases "pi_status it = item_accepted"; cases "pi_status it = item_done"; cases ?r) blast+
  then show ?thesis
  proof cases
    case skip
    then show ?thesis using assms by (simp add: accept_item_def it_def)
  next
    case redo
    then show ?thesis
      using assms run_ok_record[OF assms(1) _ assms(3)] by (simp add: accept_item_def it_def)
  next
    case stale
    then show ?thesis
      using assms run_ok_fail[OF assms(1)] by (auto simp: accept_item_def it_def[symmetric])
  next
    case act
    obtain err v where ta: "take_action V it (dk_vault (rn_disk s)) = (err, v)"
      by (cases "take_action V it (dk_vault (rn_disk s))")
    let ?s1 = "happen (Acted i) ((rn_disk s)\<lparr>dk_vault := v\<rparr>) s"
    have ok1: "run_ok V sha p d ?s1"
      using assms(1,3) act(3) ta st static_fields(1)[OF st]
      by (intro run_ok_happen)
        (auto simp: stale_reason_static[OF st] take_action_static[OF st])
    show ?thesis
    proof (cases err)
      case (Some e)
      then show ?thesis
        using assms(2) act ta run_ok_fail[OF ok1]
        by (auto simp: accept_item_def it_def[symmetric])
    next
      case None
      have "run_ok V sha p d (set_item i (it\<lparr>pi_status := item_done, pi_failure := []\<rparr>) ?s1)"
        using ok1 by (rule run_ok_set_item) (simp add: it_def happen_def)
      then show ?thesis
        using assms(2,3) act ta None
        by (auto simp: accept_item_def it_def[symmetric] bind_err_Inr intro: run_ok_save run_ok_record)
    qed
  qed
qed

lemma run_ok_items:
  assumes "run_ok V sha p d s" and "accept_items V sha msg now is s = Inr s'"
    and "set is \<subseteq> {..<length (pr_items p)}"
  shows "run_ok V sha p d s'"
  using assms by (induction "is" arbitrary: s) (auto simp: bind_err_Inr intro: run_ok_item_step)


section \<open>What the disk holds after every step\<close>

text \<open>The entry tells of this item: its rule, its action, its document and its title.\<close>

definition tells_of :: "history_entry \<Rightarrow> proposal_item \<Rightarrow> bool" where
  "tells_of e it \<longleftrightarrow>
     he_rule e = pi_rule it \<and> he_action e = pi_action it \<and> he_path e = pi_path it \<and> he_title e = pi_title it"

definition has_entry :: "state_dir \<Rightarrow> string \<Rightarrow> proposal_item \<Rightarrow> bool" where
  "has_entry dir a it \<longleftrightarrow>
     (\<exists>es. load_history dir = Inr es \<and> (\<exists>e \<in> set es. he_action_id e = a \<and> tells_of e it))"

definition action_ids :: "history_entry list \<Rightarrow> string list" where
  "action_ids es = filter (\<lambda>a. a \<noteq> []) (map he_action_id es)"

definition recorded_items :: "state_dir \<Rightarrow> proposal \<Rightarrow> bool" where
  "recorded_items dir p \<longleftrightarrow>
     (\<forall>i < length (pr_items p). pi_status (pr_items p ! i) = item_accepted
        \<longrightarrow> has_entry dir (stable_action_id (pr_run p) i) (pr_items p ! i))"

text \<open>
  Every accepted item on disk has its entry in the history, and no action id is there twice.
\<close>

definition durable :: "state_dir \<Rightarrow> bool" where
  "durable dir \<longleftrightarrow>
     (\<forall>nm p. nm \<noteq> history_name \<longrightarrow> dir nm = Some (ProposalFile p) \<longrightarrow> recorded_items dir p)
     \<and> (\<forall>es. load_history dir = Inr es \<longrightarrow> distinct (action_ids es))"

text \<open>
  What the history holds under the action ids of a proposal is about its items: no other proposal
  had its run id.
\<close>

definition own_history :: "state_dir \<Rightarrow> proposal \<Rightarrow> bool" where
  "own_history dir p \<longleftrightarrow>
     (\<forall>es. load_history dir = Inr es \<longrightarrow> (\<forall>e \<in> set es. \<forall>i < length (pr_items p).
        he_action_id e = stable_action_id (pr_run p) i \<longrightarrow> tells_of e (pr_items p ! i)))"

lemma tells_of_static: "static a = static b \<Longrightarrow> tells_of e a = tells_of e b"
  by (simp only: tells_of_def static_fields[of a b])

lemma stable_action_id_inj [simp]: "stable_action_id r i = stable_action_id r j \<longleftrightarrow> i = j"
  by (auto simp: stable_action_id_def dest: arg_cong[where f = nat_of_dec])

lemma load_history_other [simp]:
  "nm \<noteq> history_name \<Longrightarrow> load_history (dir(nm \<mapsto> f)) = load_history dir"
  by (simp add: load_history_def)

lemma has_entry_other [simp]:
  "nm \<noteq> history_name \<Longrightarrow> has_entry (dir(nm \<mapsto> f)) a it = has_entry dir a it"
  by (simp add: has_entry_def)

lemma recorded_items_other [simp]:
  "nm \<noteq> history_name \<Longrightarrow> recorded_items (dir(nm \<mapsto> f)) p = recorded_items dir p"
  by (simp add: recorded_items_def)

lemma own_history_other [simp]:
  "nm \<noteq> history_name \<Longrightarrow> own_history (dir(nm \<mapsto> f)) p = own_history dir p"
  by (simp add: own_history_def)

lemma durable_save:
  assumes "durable dir" and "recorded_items dir p" and "nm \<noteq> history_name"
  shows "durable (dir(nm \<mapsto> ProposalFile p))"
  unfolding durable_def
proof (intro conjI allI impI)
  fix nm' q
  assume "nm' \<noteq> history_name" and f: "(dir(nm \<mapsto> ProposalFile p)) nm' = Some (ProposalFile q)"
  then show "recorded_items (dir(nm \<mapsto> ProposalFile p)) q"
    using assms by (cases "nm' = nm") (auto simp: durable_def)
next
  fix es
  assume "load_history (dir(nm \<mapsto> ProposalFile p)) = Inr es"
  then show "distinct (action_ids es)" using assms by (simp add: durable_def)
qed

lemma load_history_new [simp]:
  "load_history (dir(history_name \<mapsto> HistoryFile es)) = Inr es"
  by (simp add: load_history_def)

lemma append_history_cases:
  assumes "append_history e dir = Inr dir'"
  obtains (present) es x where "dir' = dir" "load_history dir = Inr es" "x \<in> set es"
      "he_action_id x = he_action_id e"
  | (fresh) es where "load_history dir = Inr es" "dir' = dir(history_name \<mapsto> HistoryFile (es @ [e]))"
      "he_action_id e \<noteq> [] \<Longrightarrow> he_action_id e \<notin> set (map he_action_id es)"
proof -
  obtain es where es: "load_history dir = Inr es"
    using assms by (auto simp: append_history_def bind_err_Inr)
  show thesis
  proof (cases "he_action_id e \<noteq> [] \<and> list_ex (\<lambda>x. he_action_id x = he_action_id e) es")
    case True
    then have "dir' = dir" using assms es by (auto simp: append_history_def)
    moreover obtain x where "x \<in> set es" "he_action_id x = he_action_id e"
      using True by (auto simp: list_ex_iff)
    ultimately show thesis using present es by blast
  next
    case False
    then have "dir' = dir(history_name \<mapsto> HistoryFile (es @ [e]))"
      using assms es by (auto simp: append_history_def split: if_splits)
    moreover have "he_action_id e \<noteq> [] \<Longrightarrow> he_action_id e \<notin> set (map he_action_id es)"
      using False by (auto simp: list_ex_iff)
    ultimately show thesis using fresh es by blast
  qed
qed

lemma append_history_keeps:
  assumes "append_history e dir = Inr dir'" and "has_entry dir a it"
  shows "has_entry dir' a it"
  using assms by (cases rule: append_history_cases; force simp: has_entry_def)

text \<open>An entry for item \<open>i\<close> is there after it was appended, and is about the item.\<close>

lemma append_history_own:
  assumes "append_history e dir = Inr dir'" and "own_history dir p" and "i < length (pr_items p)"
    and "he_action_id e = stable_action_id (pr_run p) i" and "tells_of e (pr_items p ! i)"
  shows "has_entry dir' (stable_action_id (pr_run p) i) (pr_items p ! i)" and "own_history dir' p"
proof -
  show "has_entry dir' (stable_action_id (pr_run p) i) (pr_items p ! i)"
    using assms(1)
  proof (cases rule: append_history_cases)
    case (present es x)
    then have "tells_of x (pr_items p ! i)" using assms(2-4) unfolding own_history_def by metis
    then show ?thesis using present assms(4) unfolding has_entry_def by metis
  next
    case (fresh es)
    then show ?thesis using assms(4,5) by (simp add: has_entry_def)
  qed
  show "own_history dir' p"
    using assms(1)
  proof (cases rule: append_history_cases)
    case (fresh es)
    then show ?thesis using assms(2,4,5) by (auto simp: own_history_def)
  qed (use assms(2) in simp)
qed

lemma recorded_items_grow:
  "append_history e dir = Inr dir' \<Longrightarrow> recorded_items dir p \<Longrightarrow> recorded_items dir' p"
  using append_history_keeps unfolding recorded_items_def by blast

lemma durable_append:
  assumes "append_history e dir = Inr dir'" and "durable dir"
  shows "durable dir'"
  unfolding durable_def
proof (intro conjI allI impI)
  fix nm p assume nm: "nm \<noteq> history_name" "dir' nm = Some (ProposalFile p)"
  from assms(1) have "dir nm = Some (ProposalFile p)"
    by (cases rule: append_history_cases) (use nm in auto)
  then show "recorded_items dir' p"
    using recorded_items_grow[OF assms(1)] assms(2) \<open>nm \<noteq> history_name\<close> unfolding durable_def by blast
next
  fix es assume es: "load_history dir' = Inr es"
  show "distinct (action_ids es)"
    using assms(1)
  proof (cases rule: append_history_cases)
    case present
    then show ?thesis using es assms(2) unfolding durable_def by blast
  next
    case (fresh es0)
    then have "distinct (action_ids es0)" and "es = es0 @ [e]"
      using es assms(2) unfolding durable_def by auto
    then show ?thesis using fresh(3) by (auto simp: action_ids_def)
  qed
qed

text \<open>Of a run: its trace is durable, and what it has accepted in memory is recorded.\<close>

definition run_durable :: "review_state \<Rightarrow> bool" where
  "run_durable s \<longleftrightarrow>
     (\<forall>x \<in> set (rn_trace s). durable (dk_dir (snd x)) \<and> own_history (dk_dir (snd x)) (rn_prop s))
     \<and> durable (dk_dir (rn_disk s)) \<and> own_history (dk_dir (rn_disk s)) (rn_prop s)
     \<and> recorded_items (dk_dir (rn_disk s)) (rn_prop s)
     \<and> proposal_name (pr_run (rn_prop s)) \<noteq> history_name"

lemma run_durable_vault:
  "run_durable s \<Longrightarrow> run_durable (happen e ((rn_disk s)\<lparr>dk_vault := v\<rparr>) s)"
  by (auto simp: run_durable_def happen_def)

lemma recorded_items_set:
  assumes "recorded_items dir p"
    and "pi_status it = item_accepted \<Longrightarrow> has_entry dir (stable_action_id (pr_run p) i) it"
  shows "recorded_items dir (p\<lparr>pr_items := (pr_items p)[i := it]\<rparr>)"
  unfolding recorded_items_def
proof (intro allI impI)
  fix k
  assume k: "k < length (pr_items (p\<lparr>pr_items := (pr_items p)[i := it]\<rparr>))"
    and acc: "pi_status (pr_items (p\<lparr>pr_items := (pr_items p)[i := it]\<rparr>) ! k) = item_accepted"
  show "has_entry dir (stable_action_id (pr_run (p\<lparr>pr_items := (pr_items p)[i := it]\<rparr>)) k)
      (pr_items (p\<lparr>pr_items := (pr_items p)[i := it]\<rparr>) ! k)"
    using assms k acc by (cases "k = i") (auto simp: recorded_items_def)
qed

lemma own_history_set:
  assumes "static it = static (pr_items p ! i)"
  shows "own_history dir (p\<lparr>pr_items := (pr_items p)[i := it]\<rparr>) = own_history dir p"
proof -
  have "tells_of e ((pr_items p)[i := it] ! k) = tells_of e (pr_items p ! k)"
    if "k < length (pr_items p)" for e k
    using that tells_of_static[OF assms] by (cases "k = i") auto
  then show ?thesis by (auto simp: own_history_def)
qed

lemma run_durable_set_item:
  assumes "run_durable s" and "static it = static (pr_items (rn_prop s) ! i)"
    and "pi_status it = item_accepted \<Longrightarrow>
      has_entry (dk_dir (rn_disk s)) (stable_action_id (pr_run (rn_prop s)) i) it"
  shows "run_durable (set_item i it s)"
  using assms recorded_items_set[of "dk_dir (rn_disk s)" "rn_prop s" it i]
  by (simp add: run_durable_def set_item_def own_history_set[OF assms(2)])

lemma run_durable_irrelevant [simp]:
  "run_durable (s\<lparr>rn_failures := x\<rparr>) = run_durable s"
  "run_durable (s\<lparr>rn_acted := n\<rparr>) = run_durable s"
  by (simp_all add: run_durable_def)

lemma not_accepted [simp]: "item_done \<noteq> item_accepted" "[] \<noteq> item_accepted"
  by (simp_all add: item_done_def item_accepted_def)

lemma run_durable_fail: "run_durable s \<Longrightarrow> run_durable (fail_item i m s)"
  by (auto simp: fail_item_def Let_def intro!: run_durable_set_item)

lemma run_durable_save:
  assumes "run_durable s" and "save s = Inr s'"
  shows "run_durable s'"
proof -
  define q where "q = (rn_prop s)\<lparr>pr_status := proposal_status (pr_items (rn_prop s))\<rparr>"
  let ?dir = "(dk_dir (rn_disk s))(proposal_name (pr_run q) \<mapsto> ProposalFile q)"
  have s': "s' = happen Saved ((rn_disk s)\<lparr>dk_dir := ?dir\<rparr>) (s\<lparr>rn_prop := q\<rparr>)"
    using assms(2) unfolding save_def Let_def q_def[symmetric]
    by (auto simp: write_proposal_eq split: sum.splits)
  have q: "pr_run q = pr_run (rn_prop s)" "recorded_items (dk_dir (rn_disk s)) q"
    "own_history dir q = own_history dir (rn_prop s)" for dir
    using assms(1) by (auto simp: q_def run_durable_def recorded_items_def own_history_def)
  then have "durable ?dir"
    using assms(1) by (intro durable_save) (auto simp: run_durable_def)
  then show ?thesis
    using assms(1) q by (auto simp: s' run_durable_def happen_def)
qed

lemma run_durable_record:
  assumes "run_durable s" and "record_item msg now c i s = Inr s'"
    and "pi_status (pr_items (rn_prop s) ! i) \<noteq> item_accepted" and "i < length (pr_items (rn_prop s))"
  shows "run_durable s'"
proof -
  define it where "it = pr_items (rn_prop s) ! i"
  define entry where "entry = \<lparr>he_action_id = stable_action_id (pr_run (rn_prop s)) i,
     he_timestamp = now, he_rule = pi_rule it, he_action = pi_action it, he_path = pi_path it,
     he_title = pi_title it\<rparr>"
  show ?thesis
  proof (cases "append_history entry (dk_dir (rn_disk s))")
    case (Inl e)
    then show ?thesis
      using assms unfolding record_item_def it_def[symmetric] Let_def entry_def[symmetric]
      by (auto simp: it_def intro!: run_durable_set_item)
  next
    case (Inr dir)
    let ?s1 = "happen (Recorded i) ((rn_disk s)\<lparr>dk_dir := dir\<rparr>) s"
    let ?it = "it\<lparr>pi_status := item_accepted, pi_failure := []\<rparr>"
    have own: "own_history (dk_dir (rn_disk s)) (rn_prop s)" using assms(1) by (simp add: run_durable_def)
    have entry: "he_action_id entry = stable_action_id (pr_run (rn_prop s)) i"
      "tells_of entry (pr_items (rn_prop s) ! i)"
      by (simp_all add: entry_def tells_of_def it_def)
    note new = append_history_own[OF Inr own assms(4) entry]
    have "run_durable ?s1"
      using assms(1) durable_append[OF Inr] recorded_items_grow[OF Inr] new(2)
      by (auto simp: run_durable_def happen_def)
    moreover have "has_entry dir (stable_action_id (pr_run (rn_prop s)) i) ?it"
      using new(1) tells_of_static[of ?it it] by (simp add: has_entry_def it_def)
    ultimately have "run_durable (set_item i ?it ?s1)"
      by (intro run_durable_set_item) (simp_all add: happen_def it_def)
    then show ?thesis
      using assms(2) Inr unfolding record_item_def it_def[symmetric] Let_def entry_def[symmetric]
      by (auto intro: run_durable_save[rotated] split: if_splits)
  qed
qed


text \<open>What \<open>accept_item\<close> does with an item, as one of four cases.\<close>

lemma accept_item_cases:
  assumes "accept_item V sha msg now i s = Inr s'"
  obtains (skip) "pi_status (pr_items (rn_prop s) ! i) = item_accepted" "s' = s"
  | (redo) "pi_status (pr_items (rn_prop s) ! i) \<noteq> item_accepted"
      "record_item msg now False i s = Inr s'"
  | (failed) m s1 where "s' = fail_item i m s1"
      "s1 = s \<or> (\<exists>v. s1 = happen (Acted i) ((rn_disk s)\<lparr>dk_vault := v\<rparr>) s)"
      "pi_status (pr_items (rn_prop s) ! i) \<noteq> item_accepted"
      "pi_status (pr_items (rn_prop s) ! i) \<noteq> item_done"
  | (act) v s1 s2 where "s1 = happen (Acted i) ((rn_disk s)\<lparr>dk_vault := v\<rparr>) s"
      "save (set_item i ((pr_items (rn_prop s) ! i)\<lparr>pi_status := item_done, pi_failure := []\<rparr>) s1) = Inr s2"
      "record_item msg now True i s2 = Inr s'"
      "pi_status (pr_items (rn_prop s) ! i) \<noteq> item_accepted"
      "pi_status (pr_items (rn_prop s) ! i) \<noteq> item_done"
proof -
  define it where "it = pr_items (rn_prop s) ! i"
  let ?r = "stale_reason it (retention_state V sha (pi_path it) (dk_vault (rn_disk s)))"
  obtain err v where ta: "take_action V it (dk_vault (rn_disk s)) = (err, v)"
    by (cases "take_action V it (dk_vault (rn_disk s))")
  note unf = assms[unfolded accept_item_def it_def[symmetric] Let_def]
  show thesis
  proof (cases "pi_status it = item_accepted \<or> pi_status it = item_done")
    case True
    then show thesis using unf skip redo by (auto simp: it_def split: if_splits)
  next
    case False
    show thesis
    proof (cases ?r)
      case (Some m)
      then show thesis using unf False failed[of m s] by (auto simp: it_def)
    next
      case None
      show thesis
      proof (cases err)
        case (Some e)
        then show thesis
          using unf False None ta failed[of "''action failed: '' @ e"
              "happen (Acted i) ((rn_disk s)\<lparr>dk_vault := v\<rparr>) s"]
          by (auto simp: it_def)
      next
        case e: None
        then show thesis
          using unf False None ta act by (auto simp: it_def bind_err_Inr)
      qed
    qed
  qed
qed

lemma save_items:
  assumes "save s = Inr s'"
  shows "pr_items (rn_prop s') = pr_items (rn_prop s)" "rn_failures s' = rn_failures s"
  using assms by (auto simp: save_def Let_def happen_def split: sum.splits)

lemma run_durable_item:
  assumes "run_durable s" and "accept_item V sha msg now i s = Inr s'"
    and "i < length (pr_items (rn_prop s))"
  shows "run_durable s'"
  using assms(2)
proof (cases rule: accept_item_cases)
  case skip
  then show ?thesis using assms(1) by simp
next
  case redo
  then show ?thesis using run_durable_record[OF assms(1) _ _ assms(3)] by blast
next
  case (failed m s1)
  then show ?thesis using assms(1) run_durable_fail run_durable_vault by blast
next
  case (act v s1 s2)
  let ?it = "(pr_items (rn_prop s) ! i)\<lparr>pi_status := item_done, pi_failure := []\<rparr>"
  have "run_durable (set_item i ?it s1)"
    unfolding act(1) by (rule run_durable_set_item[OF run_durable_vault[OF assms(1)]]) (simp_all add: happen_def)
  then have "run_durable s2" using act(2) by (rule run_durable_save)
  moreover have "pr_items (rn_prop s2) ! i = ?it"
    using save_items(1)[OF act(2)] assms(3) by (simp add: act(1) set_item_def happen_def)
  moreover have "i < length (pr_items (rn_prop s2))"
    using save_items(1)[OF act(2)] assms(3) by (simp add: act(1) set_item_def happen_def)
  ultimately show ?thesis using act(3) by (auto intro: run_durable_record)
qed

text \<open>An item is accepted or counted as a failure; the others are not touched.\<close>

definition item_settled :: "nat \<Rightarrow> review_state \<Rightarrow> review_state \<Rightarrow> bool" where
  "item_settled i s s' \<longleftrightarrow>
     (\<exists>it. pr_items (rn_prop s') = (pr_items (rn_prop s))[i := it]
        \<and> (pi_status it = item_accepted \<and> rn_failures s' = rn_failures s
           \<or> length (rn_failures s') = Suc (length (rn_failures s))))"

lemma record_item_settled:
  assumes "record_item msg now c i s = Inr s'"
  shows "item_settled i s s'"
proof -
  define it where "it = pr_items (rn_prop s) ! i"
  define entry where "entry = \<lparr>he_action_id = stable_action_id (pr_run (rn_prop s)) i,
     he_timestamp = now, he_rule = pi_rule it, he_action = pi_action it, he_path = pi_path it,
     he_title = pi_title it\<rparr>"
  note unf = assms[unfolded record_item_def it_def[symmetric] Let_def entry_def[symmetric]]
  show ?thesis
  proof (cases "append_history entry (dk_dir (rn_disk s))")
    case (Inl e)
    then show ?thesis using unf by (auto simp: item_settled_def set_item_def)
  next
    case (Inr dir)
    have "pi_status (it\<lparr>pi_status := item_accepted, pi_failure := []\<rparr>) = item_accepted" by simp
    then show ?thesis
      using unf Inr save_items unfolding item_settled_def
      by (fastforce simp: set_item_def happen_def split: if_splits)
  qed
qed

lemma accept_item_settled:
  assumes "accept_item V sha msg now i s = Inr s'" and "i < length (pr_items (rn_prop s))"
  shows "item_settled i s s'"
  using assms(1)
proof (cases rule: accept_item_cases)
  case skip
  then show ?thesis
    unfolding item_settled_def by (intro exI[of _ "pr_items (rn_prop s) ! i"]) simp
next
  case redo
  then show ?thesis using record_item_settled by blast
next
  case (failed m s1)
  then have "pr_items (rn_prop s1) = pr_items (rn_prop s)" "rn_failures s1 = rn_failures s"
    by (auto simp: happen_def)
  then show ?thesis
    by (auto simp: failed(1) item_settled_def fail_item_def set_item_def Let_def)
next
  case (act v s1 s2)
  have "\<exists>it. pr_items (rn_prop s2) = (pr_items (rn_prop s))[i := it]" "rn_failures s2 = rn_failures s"
    using save_items[OF act(2)] by (auto simp: act(1) set_item_def happen_def)
  then show ?thesis
    using record_item_settled[OF act(3)] by (auto simp: item_settled_def)
qed

lemma accept_items_settled:
  assumes "accept_items V sha msg now is s = Inr s'"
    and "set is \<subseteq> {..<length (pr_items (rn_prop s))}" and "distinct is"
  shows "length (rn_failures s) \<le> length (rn_failures s')
    \<and> length (pr_items (rn_prop s')) = length (pr_items (rn_prop s))
    \<and> (length (rn_failures s') = length (rn_failures s) \<longrightarrow> (\<forall>k < length (pr_items (rn_prop s)).
         (if k \<in> set is then pi_status (pr_items (rn_prop s') ! k) = item_accepted
          else pr_items (rn_prop s') ! k = pr_items (rn_prop s) ! k)))"
  using assms
proof (induction "is" arbitrary: s)
  case (Cons i "is")
  obtain s1 where s1: "accept_item V sha msg now i s = Inr s1" "accept_items V sha msg now is s1 = Inr s'"
    using Cons.prems(1) by (auto simp: bind_err_Inr)
  obtain it where it: "pr_items (rn_prop s1) = (pr_items (rn_prop s))[i := it]"
    "pi_status it = item_accepted \<and> rn_failures s1 = rn_failures s
       \<or> length (rn_failures s1) = Suc (length (rn_failures s))"
    using accept_item_settled[OF s1(1)] Cons.prems(2) by (auto simp: item_settled_def)
  have "set is \<subseteq> {..<length (pr_items (rn_prop s1))}" "distinct is" "i \<notin> set is"
    using Cons.prems it by auto
  then show ?case
    using Cons.IH[OF s1(2)] it by (auto simp: nth_list_update split: if_splits)
qed simp


section \<open>No item is acted on twice\<close>

definition acted_items :: "(effect \<times> disk) list \<Rightarrow> nat list" where
  "acted_items t = concat (map (\<lambda>x. case fst x of Acted i \<Rightarrow> [i] | _ \<Rightarrow> []) t)"

definition to_act :: "proposal_item \<Rightarrow> bool" where
  "to_act it \<longleftrightarrow> pi_status it \<noteq> item_accepted \<and> pi_status it \<noteq> item_done"

lemma acted_items_simps [simp]:
  "acted_items [] = []" "acted_items (t @ u) = acted_items t @ acted_items u"
  "acted_items ((Acted i, d) # t) = i # acted_items t"
  "acted_items ((Saved, d) # t) = acted_items t" "acted_items ((Recorded i, d) # t) = acted_items t"
  by (simp_all add: acted_items_def)

lemma happen_trace [simp]: "rn_trace (happen e d s) = rn_trace s @ [(e, d)]"
  by (simp add: happen_def)

lemma set_item_trace [simp]: "rn_trace (set_item i it s) = rn_trace s"
  by (simp add: set_item_def)

lemma fail_item_trace [simp]: "rn_trace (fail_item i m s) = rn_trace s"
  by (simp add: fail_item_def Let_def)

lemma save_acts: "save s = Inr s' \<Longrightarrow> acted_items (rn_trace s') = acted_items (rn_trace s)"
  by (auto simp: save_def Let_def split: sum.splits)

lemma record_item_acts:
  assumes "record_item msg now c i s = Inr s'"
  shows "acted_items (rn_trace s') = acted_items (rn_trace s)"
  using assms by (auto simp: record_item_def Let_def split: sum.splits if_splits dest!: save_acts)

lemma accept_item_acts:
  assumes "accept_item V sha msg now i s = Inr s'"
  shows "acted_items (rn_trace s') = acted_items (rn_trace s)
    \<or> to_act (pr_items (rn_prop s) ! i) \<and> acted_items (rn_trace s') = acted_items (rn_trace s) @ [i]"
  using assms
proof (cases rule: accept_item_cases)
  case redo
  then show ?thesis using record_item_acts by blast
next
  case (act v s1 s2)
  then show ?thesis using save_acts[OF act(2)] record_item_acts[OF act(3)] by (simp add: to_act_def)
qed (auto simp: to_act_def)

lemma accept_items_acts:
  assumes "accept_items V sha msg now is s = Inr s'"
    and "set is \<subseteq> {..<length (pr_items (rn_prop s))}" and "distinct is"
  shows "\<exists>ys. acted_items (rn_trace s') = acted_items (rn_trace s) @ ys \<and> distinct ys
    \<and> set ys \<subseteq> {i \<in> set is. to_act (pr_items (rn_prop s) ! i)}"
  using assms
proof (induction "is" arbitrary: s)
  case (Cons i "is")
  obtain s1 where s1: "accept_item V sha msg now i s = Inr s1" "accept_items V sha msg now is s1 = Inr s'"
    using Cons.prems(1) by (auto simp: bind_err_Inr)
  obtain it where it: "pr_items (rn_prop s1) = (pr_items (rn_prop s))[i := it]"
    using accept_item_settled[OF s1(1)] Cons.prems(2) by (auto simp: item_settled_def)
  have "i \<notin> set is" "set is \<subseteq> {..<length (pr_items (rn_prop s1))}" "distinct is"
    using Cons.prems it by auto
  moreover from this obtain ys where ys: "acted_items (rn_trace s') = acted_items (rn_trace s1) @ ys"
    "distinct ys" "set ys \<subseteq> {k \<in> set is. to_act (pr_items (rn_prop s1) ! k)}"
    using Cons.IH[OF s1(2)] by blast
  moreover have "set ys \<subseteq> {k \<in> set is. to_act (pr_items (rn_prop s) ! k)}"
  proof
    fix x assume "x \<in> set ys"
    then have "x \<in> set is" "to_act (pr_items (rn_prop s1) ! x)" using ys(3) by auto
    moreover from this have "i \<noteq> x" using \<open>i \<notin> set is\<close> by blast
    ultimately show "x \<in> {k \<in> set is. to_act (pr_items (rn_prop s) ! k)}" by (simp add: it)
  qed
  ultimately show ?case
    using accept_item_acts[OF s1(1)] by (elim disjE) (force intro: exI[of _ ys] exI[of _ "i # ys"])+
qed simp


section \<open>A whole run\<close>

lemma run_accept_parts:
  assumes "run_accept V sha msg now rid d = Inr s"
  obtains p s1 where "load_proposal rid (dk_dir d) = Inr p"
    "open_status (pr_status p) \<or> pr_status p = ''accepted''"
    "accept_items V sha msg now [0..<length (pr_items p)] (start_review p d) = Inr s1" "save s1 = Inr s"
  using assms by (auto simp: run_accept_def bind_err_Inr split: sum.splits if_splits)

lemma load_proposal_run:
  assumes "load_proposal rid dir = Inr p"
  shows "pr_run p = rid" "validate_run_id rid = Inr ()"
    "dir (proposal_name rid) = Some (ProposalFile p)"
proof -
  show rid: "pr_run p = rid" and v: "validate_run_id rid = Inr ()"
    using assms by (auto simp: load_proposal_def bind_err_Inr split: sum.splits if_splits)
  have "rid \<noteq> []" using v by (auto simp: validate_run_id_def)
  then show "dir (proposal_name rid) = Some (ProposalFile p)"
    using assms rid by (auto simp: load_proposal_def bind_err_Inr no_proposal_def
        split: sum.splits if_splits option.splits state_file.splits)
qed

lemma run_accept_ok:
  assumes "run_accept V sha msg now rid d = Inr s" and "load_proposal rid (dk_dir d) = Inr p"
  shows "run_ok V sha p d s"
  using assms(1)
proof (cases rule: run_accept_parts)
  case (1 q s1)
  then have "q = p" using assms(2) by simp
  moreover have "set [0..<length (pr_items p)] \<subseteq> {..<length (pr_items p)}" by auto
  ultimately show ?thesis
    using 1(3,4) run_ok_items[OF run_ok_start] run_ok_save by blast
qed

lemma run_accept_acts:
  assumes "run_accept V sha msg now rid d = Inr s" and "load_proposal rid (dk_dir d) = Inr p"
  shows "distinct (acted_items (rn_trace s)) \<and> (\<forall>i \<in> set (acted_items (rn_trace s)). to_act (pr_items p ! i))"
  using assms(1)
proof (cases rule: run_accept_parts)
  case (1 q s1)
  then have "q = p" using assms(2) by simp
  moreover have "set [0..<length (pr_items p)] \<subseteq> {..<length (pr_items (rn_prop (start_review p d)))}"
    by (auto simp: start_review_def)
  ultimately show ?thesis
    using accept_items_acts[OF 1(3)] save_acts[OF 1(4)] by (auto simp: start_review_def)
qed

text \<open>The entries told of the items before the run tell of them after it.\<close>

lemma own_history_run:
  assumes "run_ok V sha p d s"
  shows "own_history dir (rn_prop s) = own_history dir p"
proof -
  have "tells_of e (pr_items (rn_prop s) ! i) = tells_of e (pr_items p ! i)" if "i < length (pr_items p)" for e i
    using tells_of_static[OF run_ok_item[OF assms that]] .
  then show ?thesis using run_ok_length[OF assms] assms by (auto simp: own_history_def run_ok_def)
qed

lemma trace_ok_at: "trace_ok V sha p d (a @ x # b) \<Longrightarrow> step_ok V sha p (end_disk d a) x"
  by (induction a arbitrary: d) (auto simp: end_disk_def split: if_splits)

lemma stale_reason_None:
  "stale_reason it r = None \<longleftrightarrow>
     (\<exists>st. r = Inr st \<and> pi_fingerprint it \<noteq> [] \<and> st_fingerprint st = pi_fingerprint it
       \<and> (dataset_retention_slug (pi_path it) \<noteq> None \<longrightarrow>
            st_dataset st \<and> dm_path (st_meta st) = pi_path it \<and> dm_title (st_meta st) \<noteq> []
            \<and> pi_rule it \<noteq> [] \<and> st_rule st = pi_rule it))"
  by (auto simp: stale_reason_def split: sum.splits if_splits)

lemma run_durable_items:
  assumes "run_durable s" and "accept_items V sha msg now is s = Inr s'"
    and "set is \<subseteq> {..<length (pr_items (rn_prop s))}"
  shows "run_durable s'"
  using assms
proof (induction "is" arbitrary: s)
  case (Cons i "is")
  obtain s1 where s1: "accept_item V sha msg now i s = Inr s1" "accept_items V sha msg now is s1 = Inr s'"
    using Cons.prems(2) by (auto simp: bind_err_Inr)
  have "run_durable s1" using run_durable_item[OF Cons.prems(1) s1(1)] Cons.prems(3) by simp
  moreover have "length (pr_items (rn_prop s1)) = length (pr_items (rn_prop s))"
    using accept_item_settled[OF s1(1)] Cons.prems(3) by (auto simp: item_settled_def)
  ultimately show ?case using Cons.IH[OF _ s1(2)] Cons.prems(3) by simp
qed simp

lemma history_name_iff: "proposal_name rid = history_name \<longleftrightarrow> rid = ''history''"
proof -
  have h: "history_name = ''history'' @ ''.json''" by (simp add: history_name_def)
  show ?thesis unfolding proposal_name_def h by (rule append_same_eq)
qed

lemma run_accept_durable:
  assumes "run_accept V sha msg now rid d = Inr s" and "durable (dk_dir d)" and "rid \<noteq> ''history''"
    and "load_proposal rid (dk_dir d) = Inr p0" and "own_history (dk_dir d) p0"
  shows "run_durable s"
  using assms(1)
proof (cases rule: run_accept_parts)
  case (1 p s1)
  note p = load_proposal_run[OF 1(1)]
  have nm: "proposal_name rid \<noteq> history_name" using assms(3) history_name_iff by blast
  then have "recorded_items (dk_dir d) p" using assms(2) p(3) unfolding durable_def by blast
  then have "run_durable (start_review p d)"
    using assms(2,4,5) nm p(1) 1(1) by (simp add: run_durable_def start_review_def)
  then have "run_durable s1"
    using 1(3) by (rule run_durable_items) (auto simp: start_review_def)
  then show ?thesis using 1(4) by (rule run_durable_save)
qed

definition all_accepted :: "proposal_item list \<Rightarrow> bool" where
  "all_accepted items \<longleftrightarrow> list_all (\<lambda>it. pi_status it = item_accepted) items"

lemma proposal_status_accepted: "all_accepted items \<Longrightarrow> proposal_status items = ''accepted''"
  by (auto simp: proposal_status_def all_accepted_def list_all_iff filter_empty_conv)

lemma accept_items_skip:
  "list_all (\<lambda>i. pi_status (pr_items (rn_prop s) ! i) = item_accepted) is \<Longrightarrow>
   accept_items V sha msg now is s = Inr s"
  by (induction "is") (simp_all add: accept_item_def)

lemma save_disk:
  assumes "save s = Inr s'"
  shows "dk_dir (rn_disk s') = (dk_dir (rn_disk s))(proposal_name (pr_run (rn_prop s)) \<mapsto> ProposalFile (rn_prop s'))"
    "rn_prop s' = (rn_prop s)\<lparr>pr_status := proposal_status (pr_items (rn_prop s))\<rparr>"
    "rn_trace s' = rn_trace s @ [(Saved, rn_disk s')]" "rn_acted s' = rn_acted s"
    "dk_vault (rn_disk s') = dk_vault (rn_disk s)"
  using assms by (auto simp: save_def Let_def happen_def write_proposal_eq split: sum.splits)

lemma run_accept_settled:
  assumes "run_accept V sha msg now rid d = Inr s" and "rn_failures s = []"
  shows "all_accepted (pr_items (rn_prop s))" "pr_status (rn_prop s) = ''accepted''"
    "load_proposal rid (dk_dir (rn_disk s)) = Inr (rn_prop s)"
proof -
  obtain p s1 where 1: "load_proposal rid (dk_dir d) = Inr p"
    "accept_items V sha msg now [0..<length (pr_items p)] (start_review p d) = Inr s1" "save s1 = Inr s"
    using assms(1) by (rule run_accept_parts)
  have "set [0..<length (pr_items p)] \<subseteq> {..<length (pr_items (rn_prop (start_review p d)))}"
    by (auto simp: start_review_def)
  then have len: "length (pr_items (rn_prop s1)) = length (pr_items p)"
    and acc: "\<forall>k < length (pr_items p). pi_status (pr_items (rn_prop s1) ! k) = item_accepted"
    using accept_items_settled[OF 1(2)] save_items(2)[OF 1(3)] assms(2)
    by (auto simp: start_review_def)
  then have all1: "all_accepted (pr_items (rn_prop s1))"
    by (auto simp: all_accepted_def list_all_length)
  then show "all_accepted (pr_items (rn_prop s))" using save_items(1)[OF 1(3)] by simp
  show st: "pr_status (rn_prop s) = ''accepted''"
    using save_disk(2)[OF 1(3)] proposal_status_accepted[OF all1] by simp
  have "pr_run (rn_prop s1) = rid" "pr_run (rn_prop s) = rid"
    using run_accept_ok[OF assms(1) 1(1)] load_proposal_run(1)[OF 1(1)] save_disk(2)[OF 1(3)]
    by (auto simp: run_ok_def)
  then show "load_proposal rid (dk_dir (rn_disk s)) = Inr (rn_prop s)"
    using save_disk(1)[OF 1(3)] load_proposal_run(2)[OF 1(1)] by (simp add: load_proposal_def)
qed

lemma accept_again_facts:
  assumes "run_accept V sha msg now rid d = Inr s" and "rn_failures s = []"
  shows "run_accept V' sha' msg' now' rid (rn_disk s)
     = Inr (happen Saved (rn_disk s) (start_review (rn_prop s) (rn_disk s)))"
proof -
  note f = run_accept_settled[OF assms]
  let ?s0 = "start_review (rn_prop s) (rn_disk s)"
  have items: "accept_items V' sha' msg' now' [0..<length (pr_items (rn_prop s))] ?s0 = Inr ?s0"
    using f(1) by (intro accept_items_skip) (auto simp: list_all_iff all_accepted_def start_review_def)
  have same: "(rn_prop s)\<lparr>pr_status := proposal_status (pr_items (rn_prop s))\<rparr> = rn_prop s"
    using f(2) proposal_status_accepted[OF f(1)] by simp
  have "(dk_dir (rn_disk s))(proposal_name (pr_run (rn_prop s)) \<mapsto> ProposalFile (rn_prop s)) = dk_dir (rn_disk s)"
    using load_proposal_run[OF f(3)] by (simp add: fun_upd_idem)
  then have "save ?s0 = Inr (happen Saved (rn_disk s) ?s0)"
    using load_proposal_run(1,2)[OF f(3)] same
    by (auto simp: save_def Let_def start_review_def write_proposal_def)
  then show ?thesis using items f(2,3) by (simp add: run_accept_def)
qed


section \<open>A sample\<close>

text \<open>
  A vault with one note, whose operations delete and mark notes, and a proposal to trash it.
\<close>

definition toy_note :: string where "toy_note = ''a.md''"

definition toy_ops :: vault_ops where
  "toy_ops = \<lparr>
     vo_rejects = (\<lambda>p. None),
     vo_parse = (\<lambda>p data. Inr \<lparr>dc_type = [], dc_path = p, dc_title = data, dc_document_date = ''2020-01-01'',
       dc_created = [], dc_due_date = [], dc_status = [], dc_person = [], dc_tags = [],
       dc_frontmatter = []\<rparr>),
     vo_handle = (\<lambda>p data. Inl ''no handle''),
     vo_delete = (\<lambda>p v. (None, v\<lparr>va_files := (va_files v)(p := None)\<rparr>)),
     vo_status = (\<lambda>p st v. (None, v)),
     vo_purge = (\<lambda>slug r fp v. (None, v))\<rparr>"

definition toy_print :: string where
  "toy_print = fingerprint id [] [\<lparr>rs_path = toy_note, rs_data = ''note''\<rparr>]"

definition toy_item :: proposal_item where
  "toy_item = \<lparr>pi_path = toy_note, pi_title = ''note'', pi_reference = ''2020-01-01'',
     pi_expires = ''2021-01-01'', pi_action = action_trash, pi_rule = ''old'',
     pi_fingerprint = toy_print, pi_status = [], pi_failure = []\<rparr>"

definition toy_run :: string where "toy_run = ''ret-7''"

definition toy_proposal :: proposal where
  "toy_proposal = \<lparr>pr_run = toy_run, pr_rule = ''batch'', pr_created = 7, pr_items = [toy_item],
     pr_status = ''pending''\<rparr>"

definition toy_disk :: disk where
  "toy_disk = \<lparr>dk_vault = \<lparr>va_files = [toy_note \<mapsto> ''note''], va_raw = Map.empty\<rparr>,
     dk_dir = [proposal_name toy_run \<mapsto> ProposalFile toy_proposal]\<rparr>"

lemma toy_run_valid: "validate_run_id toy_run = Inr ()"
  by code_simp

lemma toy_names: "proposal_name toy_run \<noteq> history_name"
  by (simp add: proposal_name_def toy_run_def history_name_def)

lemma toy_load: "load_proposal toy_run (dk_dir toy_disk) = Inr toy_proposal"
  by (simp add: load_proposal_def toy_run_valid toy_disk_def toy_proposal_def)

lemma toy_slug: "dataset_retention_slug toy_note = None"
  by code_simp

lemma toy_state:
  "retention_state toy_ops id toy_note (dk_vault toy_disk) = Inr \<lparr>
     st_meta = doc_meta_from_document \<lparr>dc_type = [], dc_path = toy_note, dc_title = ''note'',
       dc_document_date = ''2020-01-01'', dc_created = [], dc_due_date = [], dc_status = [],
       dc_person = [], dc_tags = [], dc_frontmatter = []\<rparr>,
     st_rule = [], st_fingerprint = toy_print, st_dataset = False\<rparr>"
proof -
  have t: "trim_space toy_note = toy_note" "toy_note \<noteq> []" "hd toy_note \<noteq> CHR ''/''"
    by code_simp+
  then show ?thesis
    by (simp add: retention_state_def toy_ops_def toy_disk_def dataset_type_def toy_print_def)
qed

lemma toy_print_ne: "toy_print \<noteq> []"
  by (simp add: toy_print_def fingerprint_def fingerprint_input_def hex_encode_def)

definition toy_after :: disk where
  "toy_after = toy_disk\<lparr>dk_vault := \<lparr>va_files = Map.empty, va_raw = Map.empty\<rparr>\<rparr>"

lemma toy_action:
  "take_action toy_ops toy_item (dk_vault toy_disk) = (None, dk_vault toy_after)"
  by (simp add: take_action_def toy_item_def toy_slug toy_ops_def toy_disk_def toy_after_def)

lemma toy_accept:
  "\<exists>s b. run_accept toy_ops id (\<lambda>_. ''error'') 9 toy_run toy_disk = Inr s
     \<and> rn_failures s = [] \<and> rn_trace s = [] @ (Acted 0, toy_after) # b"
proof -
  let ?s = "run_accept toy_ops id (\<lambda>_. ''error'') 9 toy_run toy_disk"
  have stale: "stale_reason toy_item (retention_state toy_ops id toy_note (dk_vault toy_disk)) = None"
    using toy_print_ne by (simp add: stale_reason_None toy_state) (simp add: toy_item_def toy_slug)
  have "accept_item toy_ops id (\<lambda>_. ''error'') 9 0 (start_review toy_proposal toy_disk)
    = bind_err (save (set_item 0 (toy_item\<lparr>pi_status := item_done, pi_failure := []\<rparr>)
        (happen (Acted 0) toy_after (start_review toy_proposal toy_disk))))
      (record_item (\<lambda>_. ''error'') 9 True 0)"
    using stale toy_action
    by (simp add: accept_item_def start_review_def toy_proposal_def toy_item_def item_accepted_def
        item_done_def toy_after_def)
  then show ?thesis
    using toy_run_valid toy_names toy_load
    by (simp add: run_accept_def toy_proposal_def start_review_def open_status_def set_item_def happen_def
        save_def write_proposal_def record_item_def append_history_def load_history_def toy_disk_def
        toy_after_def Let_def)
qed


lemma toy_accept_last:
  assumes "run_accept toy_ops id (\<lambda>_. ''error'') 9 toy_run toy_disk = Inr s"
  shows "(Saved, rn_disk s) \<in> set (rn_trace s)"
  using assms
proof (cases rule: run_accept_parts)
  case (1 p s1)
  then show ?thesis using save_disk(3)[OF 1(4)] by simp
qed


section \<open>What an evaluation stages\<close>

text \<open>The item staged for a document whose reference date is \<open>ref\<close>.\<close>

definition staged_item :: "retention_lib \<Rightarrow> rule \<Rightarrow> retention_view \<Rightarrow> int \<Rightarrow> proposal_item" where
  "staged_item L r st ref = \<lparr>pi_path = dm_path (st_meta st), pi_title = dm_title (st_meta st),
     pi_reference = rl_format L ref, pi_expires = rl_format L (ref + sint (ru_period r)),
     pi_action = ru_action r, pi_rule = ru_name r, pi_fingerprint = st_fingerprint st,
     pi_status = [], pi_failure = []\<rparr>"

definition rule_field :: "rule \<Rightarrow> string" where
  "rule_field r = (if ru_reference r = [] then ''document_date'' else ru_reference r)"

text \<open>A document is due under a rule.\<close>

definition due :: "retention_lib \<Rightarrow> int \<Rightarrow> rule \<Rightarrow> retention_view \<Rightarrow> int \<Rightarrow> bool" where
  "due L now r st ref \<longleftrightarrow>
     (st_dataset st \<longrightarrow> ru_name r = st_rule st)
     \<and> selector_matches L (ru_selector r) (st_meta st)
     \<and> reference_date L (st_meta st) (rule_field r) = Some ref \<and> ref + sint (ru_period r) \<le> now"

lemma eval_doc_set:
  assumes "eval_doc V L v now r path = Inr items"
  obtains st where "retention_state V (rl_sha L) path v = Inr st"
    "\<And>it. it \<in> set items \<longleftrightarrow> (\<exists>ref. due L now r st ref \<and> it = staged_item L r st ref)"
proof -
  obtain st where st: "retention_state V (rl_sha L) path v = Inr st"
    using assms by (auto simp: eval_doc_def split: sum.splits)
  have "it \<in> set items \<longleftrightarrow> (\<exists>ref. due L now r st ref \<and> it = staged_item L r st ref)" for it
    using assms st
    by (auto simp: eval_doc_def due_def rule_field_def staged_item_def not_less Let_def
        split: if_splits option.splits)
  then show thesis using that st by blast
qed

lemma results_of_set:
  "failures_of xs = [] \<Longrightarrow> it \<in> set (results_of xs) \<longleftrightarrow> (\<exists>ys. Inr ys \<in> set xs \<and> it \<in> set ys)"
  by (induction xs) (auto simp: failures_of_def results_of_def split: sum.splits)

lemma failures_of_mem: "failures_of xs = [] \<Longrightarrow> x \<in> set xs \<Longrightarrow> \<exists>y. x = Inr y"
  by (induction xs) (auto simp: failures_of_def split: sum.splits)

lemma eval_stages_facts:
  assumes "run_eval V L data docs now v dir = Inr (p, dir')" and "load_rules L data = Inr rules"
  shows "it \<in> set (pr_items p) \<longleftrightarrow>
    (\<exists>r \<in> set rules. \<exists>path \<in> set docs. \<exists>st ref.
       retention_state V (rl_sha L) path v = Inr st \<and> due L now r st ref \<and> it = staged_item L r st ref)"
proof -
  let ?rs = "eval_all V L v now rules docs"
  have ok: "failures_of ?rs = []" and items: "pr_items p = results_of ?rs"
    using assms by (auto simp: run_eval_def Let_def split: if_splits sum.splits)
  have mem: "x \<in> set ?rs \<longleftrightarrow> (\<exists>r \<in> set rules. \<exists>path \<in> set docs. x = eval_doc V L v now r path)" for x
    by (auto simp: eval_all_def)
  have one: "(\<exists>ys. eval_doc V L v now r path = Inr ys \<and> it \<in> set ys) \<longleftrightarrow>
      (\<exists>st ref. retention_state V (rl_sha L) path v = Inr st \<and> due L now r st ref
        \<and> it = staged_item L r st ref)"
    if "r \<in> set rules" "path \<in> set docs" for r path
  proof -
    have "eval_doc V L v now r path \<in> set ?rs"
      unfolding mem[of "eval_doc V L v now r path"] using that by blast
    then obtain ys where ys: "eval_doc V L v now r path = Inr ys"
      using failures_of_mem[OF ok] by blast
    obtain st where "retention_state V (rl_sha L) path v = Inr st"
      "\<And>it. it \<in> set ys \<longleftrightarrow> (\<exists>ref. due L now r st ref \<and> it = staged_item L r st ref)"
      using eval_doc_set[OF ys] by blast
    then show ?thesis using ys by auto
  qed
  have "it \<in> set (pr_items p) \<longleftrightarrow> (\<exists>ys. Inr ys \<in> set ?rs \<and> it \<in> set ys)"
    unfolding items by (rule results_of_set[OF ok])
  also have "\<dots> \<longleftrightarrow> (\<exists>r \<in> set rules. \<exists>path \<in> set docs.
      \<exists>ys. eval_doc V L v now r path = Inr ys \<and> it \<in> set ys)"
    unfolding mem by metis
  finally show ?thesis using one by blast
qed

text \<open>A library and a rule for the sample; one line of rules stands for the YAML text.\<close>

definition toy_rule :: rule where
  "toy_rule = \<lparr>ru_name = ''old'', ru_description = [], ru_selector = \<lparr>s_doctype = [], s_status = [],
     s_category = [], s_person = [], s_correspondent = [], s_tags = []\<rparr>, ru_period = 0,
     ru_period_days = 10, ru_reference = [], ru_action = action_trash\<rparr>"

definition toy_rlib :: retention_lib where
  "toy_rlib = \<lparr>rl_fold = (=), rl_lower = id,
     rl_day = (\<lambda>s. if s = ''2020-01-01'' then Some (- 900000000000000) else None),
     rl_stamp = (\<lambda>s. None), rl_format = (\<lambda>t. dec_of_int t), rl_yaml = (\<lambda>s. Inr toy_rule),
     rl_sha = id\<rparr>"

definition toy_now :: int where "toy_now = 0"

lemma toy_rules_loaded: "load_rules toy_rlib (Some ''r'') = Inr [toy_rule\<lparr>ru_period := 10 * 24 * hour\<rparr>]"
proof -
  have sp: "split_string ([LF] @ ''---'' @ [LF]) ''r'' = [''r'']" by code_simp
  have tr: "trim_space ''r'' = ''r''" "has_prefix ''r'' ''#'' = False" by code_simp+
  have ok: "validate_rule toy_rule = Inr ()" by code_simp
  have lib: "rl_yaml toy_rlib s = Inr toy_rule" "ru_period_days toy_rule = 10" for s
    by (simp_all add: toy_rlib_def toy_rule_def)
  show ?thesis
    by (simp only: load_rules_def option.case sp load_rule_docs.simps Let_def tr lib ok sum.case)
      simp
qed

lemma toy_eval:
  "\<exists>p dir'. run_eval toy_ops toy_rlib (Some ''r'') [toy_note] toy_now (dk_vault toy_disk) Map.empty
     = Inr (p, dir')"
proof -
  let ?r = "toy_rule\<lparr>ru_period := 10 * 24 * hour\<rparr>"
  let ?id = "''ret-'' @ dec_of_int (toy_now div 1000000000)"
  have ok: "validate_run_id ?id = Inr ()" by code_simp
  have sha: "rl_sha toy_rlib = id" by (simp add: toy_rlib_def)
  obtain items where e: "eval_doc toy_ops toy_rlib (dk_vault toy_disk) toy_now ?r toy_note = Inr items"
    unfolding eval_doc_def sha toy_state sum.case by (auto split: if_splits)
  have all: "eval_all toy_ops toy_rlib (dk_vault toy_disk) toy_now [?r] [toy_note] = [Inr items]"
    unfolding eval_all_def by (simp only: list.map concat.simps e append_Nil2)
  have none: "failures_of [Inr items :: string + proposal_item list] = []"
    by (simp add: failures_of_def)
  show ?thesis
    unfolding run_eval_def toy_rules_loaded sum.case Let_def all none
    by (simp only: write_proposal_def proposal.simps ok sum.case) simp
qed


section \<open>Properties\<close>

text \<open>
  C5: Accepting a proposal acts only on what was reviewed, and once.  In every run of \<open>accept\<close>,
  each effect on the disk is one of three.  An action on item \<open>i\<close> is taken only when the
  proposal on disk had the item neither accepted nor its action completed, when the run has not
  acted on it before, and when the authoritative state, read again just before it, has the
  fingerprint the proposal recorded and, for a dataset path, is the dataset's handle at that path
  declaring the rule of the item; the vault then changes exactly as the action of that item
  changes it.  A save of the proposal and an entry in the history leave the vault alone.
\<close>

theorem accept_acts_on_reviewed_state:
  assumes "run_accept V sha msg now rid d = Inr s" and "load_proposal rid (dk_dir d) = Inr p"
    and "rn_trace s = before @ (e, d') # rest"
  shows "case e of
      Acted i \<Rightarrow> i < length (pr_items p) \<and> pi_fingerprint (pr_items p ! i) \<noteq> []
        \<and> pi_status (pr_items p ! i) \<noteq> item_accepted \<and> pi_status (pr_items p ! i) \<noteq> item_done
        \<and> i \<notin> set (acted_items before)
        \<and> (\<exists>st. retention_state V sha (pi_path (pr_items p ! i)) (dk_vault (end_disk d before)) = Inr st
             \<and> st_fingerprint st = pi_fingerprint (pr_items p ! i)
             \<and> (dataset_retention_slug (pi_path (pr_items p ! i)) \<noteq> None \<longrightarrow>
                  st_dataset st \<and> dm_path (st_meta st) = pi_path (pr_items p ! i)
                  \<and> pi_rule (pr_items p ! i) \<noteq> [] \<and> st_rule st = pi_rule (pr_items p ! i)))
        \<and> dk_vault d' = snd (take_action V (pr_items p ! i) (dk_vault (end_disk d before)))
    | Saved \<Rightarrow> dk_vault d' = dk_vault (end_disk d before)
    | Recorded i \<Rightarrow> dk_vault d' = dk_vault (end_disk d before)"
proof -
  have "step_ok V sha p (end_disk d before) (e, d')"
    using run_accept_ok[OF assms(1,2)] assms(3) trace_ok_at unfolding run_ok_def by metis
  then show ?thesis
    using run_accept_acts[OF assms(1,2)] by (cases e) (auto simp: stale_reason_None assms(3) to_act_def)
qed

theorem accept_acts_on_reviewed_state_witness:
  "\<exists>s b. run_accept toy_ops id (\<lambda>_. ''error'') 9 toy_run toy_disk = Inr s
     \<and> rn_trace s = [] @ (Acted 0, toy_after) # b
     \<and> dk_vault toy_after = snd (take_action toy_ops (pr_items toy_proposal ! 0) (dk_vault (end_disk toy_disk [])))"
proof -
  obtain s b where s: "run_accept toy_ops id (\<lambda>_. ''error'') 9 toy_run toy_disk = Inr s"
    "rn_trace s = [] @ (Acted 0, toy_after) # b"
    using toy_accept by blast
  show ?thesis using accept_acts_on_reviewed_state[OF s(1) toy_load s(2)] s by auto
qed

text \<open>
  C13: Whenever an accepting run is interrupted, the disk is sound.  Say that every accepted item
  on disk has an entry in the history under its action id with its own rule, action, document and
  title, that no action id occurs there twice, and that the entries under this proposal's action
  ids tell of its items (a run id taken by two proposals breaks the last).  Then all three hold
  after every single effect of the run, so a crash between any two of them leaves no accepted item
  without its record, and a retry finds the same and adds no second one.
\<close>

theorem accept_durable:
  assumes "run_accept V sha msg now rid d = Inr s" and "durable (dk_dir d)" and "rid \<noteq> ''history''"
    and "load_proposal rid (dk_dir d) = Inr p" and "own_history (dk_dir d) p"
    and "x \<in> set (rn_trace s)"
  shows "durable (dk_dir (snd x)) \<and> own_history (dk_dir (snd x)) p"
  using run_accept_durable[OF assms(1-5)] assms(6) own_history_run[OF run_accept_ok[OF assms(1,4)]]
  unfolding run_durable_def by blast

text \<open>The disk at the end of the sample run: the item is accepted and the history tells of it.\<close>

theorem accept_durable_witness:
  "\<exists>s d. run_accept toy_ops id (\<lambda>_. ''error'') 9 toy_run toy_disk = Inr s
     \<and> (Saved, d) \<in> set (rn_trace s) \<and> durable (dk_dir d)
     \<and> has_entry (dk_dir d) (stable_action_id toy_run 0) toy_item"
proof -
  obtain s where s: "run_accept toy_ops id (\<lambda>_. ''error'') 9 toy_run toy_disk = Inr s" "rn_failures s = []"
    using toy_accept by blast
  have "load_history (dk_dir toy_disk) = Inr []"
    using toy_names by (simp add: load_history_def toy_disk_def)
  moreover have "recorded_items dir toy_proposal" for dir
    by (simp add: recorded_items_def toy_proposal_def toy_item_def item_accepted_def)
  ultimately have "durable (dk_dir toy_disk)" "own_history (dk_dir toy_disk) toy_proposal"
    by (auto simp: durable_def action_ids_def toy_disk_def own_history_def split: if_splits)
  moreover have ne: "toy_run \<noteq> ''history''" by (simp add: toy_run_def)
  moreover obtain d where d: "(Saved, d) \<in> set (rn_trace s)" "d = rn_disk s"
    using toy_accept_last[OF s(1)] by blast
  ultimately have dur: "durable (dk_dir d)"
    using accept_durable[OF s(1) _ ne toy_load] by fastforce
  have p: "load_proposal toy_run (dk_dir d) = Inr (rn_prop s)" "all_accepted (pr_items (rn_prop s))"
    using run_accept_settled[OF s] d(2) by simp_all
  have ok: "run_ok toy_ops id toy_proposal toy_disk s" by (rule run_accept_ok[OF s(1) toy_load])
  have len: "length (pr_items (rn_prop s)) = 1" using run_ok_length[OF ok] by (simp add: toy_proposal_def)
  have it: "static (pr_items (rn_prop s) ! 0) = static toy_item"
    using run_ok_item[OF ok, of 0] by (simp add: toy_proposal_def)
  have "pi_status (pr_items (rn_prop s) ! 0) = item_accepted"
    using p(2) len by (simp add: all_accepted_def list_all_length)
  moreover have "recorded_items (dk_dir d) (rn_prop s)"
    using dur load_proposal_run(3)[OF p(1)] toy_names unfolding durable_def by blast
  moreover have "pr_run (rn_prop s) = toy_run" by (rule load_proposal_run(1)[OF p(1)])
  ultimately have "has_entry (dk_dir d) (stable_action_id toy_run 0) (pr_items (rn_prop s) ! 0)"
    using len unfolding recorded_items_def by force
  then have "has_entry (dk_dir d) (stable_action_id toy_run 0) toy_item"
    using tells_of_static[OF it] by (simp add: has_entry_def)
  then show ?thesis using s(1) d(1) dur by blast
qed

text \<open>
  Accepting twice is accepting once.  After a run that reports no failures every item is
  accepted and so is the proposal, and accepting it again, at any later time, whatever became of
  the vault, takes no action, adds nothing to the history, reports none acted on, and leaves the
  disk as it is: its one effect is to save the same proposal.
\<close>

theorem accept_again:
  assumes "run_accept V sha msg now rid d = Inr s" and "rn_failures s = []"
  shows "all_accepted (pr_items (rn_prop s)) \<and> pr_status (rn_prop s) = ''accepted''
    \<and> run_accept V' sha' msg' now' rid (rn_disk s)
      = Inr \<lparr>rn_disk = rn_disk s, rn_prop = rn_prop s, rn_acted = 0, rn_failures = [],
             rn_trace = [(Saved, rn_disk s)]\<rparr>"
  using run_accept_settled[OF assms] accept_again_facts[OF assms, of V' sha' msg' now']
  by (simp add: happen_def start_review_def)

theorem accept_again_witness:
  "\<exists>s. run_accept toy_ops id (\<lambda>_. ''error'') 9 toy_run toy_disk = Inr s
    \<and> run_accept toy_ops id (\<lambda>_. ''error'') 12 toy_run (rn_disk s)
      = Inr \<lparr>rn_disk = rn_disk s, rn_prop = rn_prop s, rn_acted = 0, rn_failures = [],
             rn_trace = [(Saved, rn_disk s)]\<rparr>"
  using toy_accept accept_again[of toy_ops id "\<lambda>_. ''error''" 9 toy_run toy_disk _ toy_ops id _ 12]
  by blast

text \<open>
  An evaluation stages exactly what is due.  When \<open>eval\<close> succeeds, the items of the proposal
  it stages are, for every rule of the rules file and every listed document, the documents whose
  authoritative state the rule selects, whose reference date plus the period of the rule is not
  after now and, for a dataset, that declare this very rule; each item carries the rule and the
  fingerprint of that state.
\<close>

theorem eval_stages_due:
  assumes "run_eval V L data docs now v dir = Inr (p, dir')" and "load_rules L data = Inr rules"
  shows "it \<in> set (pr_items p) \<longleftrightarrow>
    (\<exists>r \<in> set rules. \<exists>path \<in> set docs. \<exists>st ref.
       retention_state V (rl_sha L) path v = Inr st \<and> due L now r st ref \<and> it = staged_item L r st ref)"
  by (rule eval_stages_facts[OF assms])

theorem eval_stages_due_witness:
  "\<exists>p dir' it. run_eval toy_ops toy_rlib (Some ''r'') [toy_note] toy_now (dk_vault toy_disk) Map.empty
     = Inr (p, dir') \<and> it \<in> set (pr_items p) \<and> pi_fingerprint it = toy_print"
proof -
  let ?r = "toy_rule\<lparr>ru_period := 10 * 24 * hour\<rparr>"
  obtain p dir' where p: "run_eval toy_ops toy_rlib (Some ''r'') [toy_note] toy_now (dk_vault toy_disk)
      Map.empty = Inr (p, dir')"
    using toy_eval by blast
  obtain st where st: "retention_state toy_ops (rl_sha toy_rlib) toy_note (dk_vault toy_disk) = Inr st"
    and m: "st_meta st = doc_meta_from_document \<lparr>dc_type = [], dc_path = toy_note, dc_title = ''note'',
       dc_document_date = ''2020-01-01'', dc_created = [], dc_due_date = [], dc_status = [],
       dc_person = [], dc_tags = [], dc_frontmatter = []\<rparr>" "\<not> st_dataset st" "st_fingerprint st = toy_print"
    using toy_state by (simp add: toy_rlib_def)
  have "due toy_rlib toy_now ?r st (- 900000000000000)"
    unfolding due_def using m
    by (simp add: selector_matches_def toy_rule_def toy_rlib_def reference_date_def rule_field_def
        doc_meta_from_document_def hour_def toy_now_def)
  then have "staged_item toy_rlib ?r st (- 900000000000000) \<in> set (pr_items p)"
    using eval_stages_due[OF p toy_rules_loaded] st by auto
  then show ?thesis using p m(3) by (auto simp: staged_item_def)
qed

end
