(* ===== verification/Disk_Steps.thy ===== *)
theory Disk_Steps
  imports Prelude
begin

text \<open>
  Operations that change a disk by a sequence of atomic writes (a file replaced by a rename, a file
  removed): such an operation yields a result or an error together with the disk after each of its
  writes, so that a statement about all of them is one about every point at which the operation may
  be interrupted.  An operation that fails keeps the writes it has made.
\<close>

named_theorems keeps \<open>operations whose every write keeps an invariant\<close>

type_synonym ('s, 'e, 'a) act = "'s \<Rightarrow> ('e + 'a) \<times> 's list"

definition end_of :: "'s \<Rightarrow> 's list \<Rightarrow> 's" where
  "end_of s ws = last (s # ws)"

definition ret :: "'a \<Rightarrow> ('s, 'e, 'a) act" where
  "ret a = (\<lambda>s. (Inr a, []))"

definition raise :: "'e \<Rightarrow> ('s, 'e, 'a) act" where
  "raise e = (\<lambda>s. (Inl e, []))"

text \<open>A read, which may fail, and a write.\<close>

definition look :: "('s \<Rightarrow> 'e + 'a) \<Rightarrow> ('s, 'e, 'a) act" where
  "look f = (\<lambda>s. (f s, []))"

definition put :: "('s \<Rightarrow> 's) \<Rightarrow> ('s, 'e, unit) act" where
  "put f = (\<lambda>s. (Inr (), [f s]))"

definition andthen :: "('s, 'e, 'a) act \<Rightarrow> ('a \<Rightarrow> ('s, 'e, 'b) act) \<Rightarrow> ('s, 'e, 'b) act" where
  "andthen m f = (\<lambda>s. case m s of
       (Inl e, ws) \<Rightarrow> (Inl e, ws)
     | (Inr a, ws) \<Rightarrow> (let (r, ws') = f a (end_of s ws) in (r, ws @ ws')))"

text \<open>An error turned into a value, for callers that go on.\<close>

definition caught :: "('s, 'e, 'a) act \<Rightarrow> ('s, 'e, 'e + 'a) act" where
  "caught m = (\<lambda>s. let (r, ws) = m s in (Inr r, ws))"

text \<open>An operation on a part of a larger disk.\<close>

definition within ::
    "('t \<Rightarrow> 's) \<Rightarrow> ('s \<Rightarrow> 't \<Rightarrow> 't) \<Rightarrow> ('e \<Rightarrow> 'f) \<Rightarrow> ('s, 'e, 'a) act \<Rightarrow> ('t, 'f, 'a) act" where
  "within part whole err m = (\<lambda>t. let (r, ws) = m (part t) in (map_sum err id r, map (\<lambda>w. whole w t) ws))"

fun each :: "('b \<Rightarrow> ('s, 'e, unit) act) \<Rightarrow> 'b list \<Rightarrow> ('s, 'e, unit) act" where
  "each f [] = ret ()"
| "each f (x # xs) = andthen (f x) (\<lambda>_. each f xs)"

definition final_of :: "('s, 'e, 'a) act \<Rightarrow> 's \<Rightarrow> 's" where
  "final_of m s = end_of s (snd (m s))"

definition result_of :: "('s, 'e, 'a) act \<Rightarrow> 's \<Rightarrow> 'e + 'a" where
  "result_of m s = fst (m s)"


section \<open>Results and final states\<close>

lemma end_of_simps [simp]: "end_of s [] = s" "end_of s (w # ws) = end_of w ws"
  by (simp_all add: end_of_def)

lemma end_of_append [simp]: "end_of s (ws @ ws') = end_of (end_of s ws) ws'"
  by (induction ws arbitrary: s) simp_all

lemma end_of_in: "end_of s ws \<in> insert s (set ws)"
  by (induction ws arbitrary: s) auto

lemma ret_simps [simp]: "result_of (ret a) s = Inr a" "final_of (ret a) s = s"
  by (simp_all add: ret_def result_of_def final_of_def)

lemma raise_simps [simp]: "result_of (raise e) s = Inl e" "final_of (raise e) s = s"
  by (simp_all add: raise_def result_of_def final_of_def)

lemma look_simps [simp]: "result_of (look f) s = f s" "final_of (look f) s = s"
  by (simp_all add: look_def result_of_def final_of_def)

lemma put_simps [simp]: "result_of (put f) s = Inr ()" "final_of (put f) s = f s"
  by (simp_all add: put_def result_of_def final_of_def)

lemma act_runs: "ret a s = (Inr a, [])" "raise e s = (Inl e, [])" "look g s = (g s, [])" "put f s = (Inr (), [f s])"
  by (simp_all add: ret_def raise_def look_def put_def)

lemma act_parts [simp]:
  "fst (ret a s) = Inr a" "snd (ret a s) = []" "fst (raise e s) = Inl e" "snd (raise e s) = []"
  "fst (look g s) = g s" "snd (look g s) = []" "fst (put f s) = Inr ()" "snd (put f s) = [f s]"
  by (simp_all add: act_runs)

lemma result_andthen: "result_of (andthen m f) s = bind_err (result_of m s) (\<lambda>a. result_of (f a) (final_of m s))"
  by (cases "m s"; cases "fst (m s)") (simp_all add: andthen_def result_of_def final_of_def split: prod.split)

lemma final_andthen:
  "final_of (andthen m f) s = (case result_of m s of Inl _ \<Rightarrow> final_of m s | Inr a \<Rightarrow> final_of (f a) (final_of m s))"
  by (auto simp: andthen_def result_of_def final_of_def split: prod.splits sum.splits)

lemma andthen_ok:
  "result_of m s = Inr a \<Longrightarrow> result_of (andthen m f) s = result_of (f a) (final_of m s)"
  "result_of m s = Inr a \<Longrightarrow> final_of (andthen m f) s = final_of (f a) (final_of m s)"
  by (simp_all add: result_andthen final_andthen)

lemma andthen_error:
  "result_of m s = Inl e \<Longrightarrow> result_of (andthen m f) s = Inl e"
  "result_of m s = Inl e \<Longrightarrow> final_of (andthen m f) s = final_of m s"
  by (simp_all add: result_andthen final_andthen)

lemma caught_simps [simp]: "result_of (caught m) s = Inr (result_of m s)" "final_of (caught m) s = final_of m s"
  by (simp_all add: caught_def result_of_def final_of_def split: prod.split)

lemma look_andthen: "andthen (look f) g h = (case f h of Inl e \<Rightarrow> (Inl e, []) | Inr a \<Rightarrow> g a h)"
  by (simp add: andthen_def act_runs split: sum.split)

lemma andthen_assoc: "andthen (andthen m f) g = andthen m (\<lambda>a. andthen (f a) g)"
  by (auto simp: andthen_def fun_eq_iff split: prod.split sum.split)

lemma end_of_map: "end_of (f s) (map f ws) = f (end_of s ws)"
  by (induction ws arbitrary: s) simp_all

lemma within_simps:
  "result_of (within part whole err m) t = map_sum err id (result_of m (part t))"
  "snd (within part whole err m t) = map (\<lambda>w. whole w t) (snd (m (part t)))"
  by (simp_all add: within_def result_of_def split_beta)

lemma final_within:
  assumes "whole (part t) t = t"
  shows "final_of (within part whole err m) t = whole (final_of m (part t)) t"
  using end_of_map[of "\<lambda>w. whole w t" "part t" "snd (m (part t))"] assms
  by (simp add: final_of_def within_simps(2))

lemma andthen_Inr:
  "result_of (andthen m f) s = Inr b \<longleftrightarrow> (\<exists>a. result_of m s = Inr a \<and> result_of (f a) (final_of m s) = Inr b)"
  by (auto simp: result_andthen bind_err_Inr)


section \<open>Invariants of every write\<close>

definition keeping :: "('s \<Rightarrow> bool) \<Rightarrow> ('s, 'e, 'a) act \<Rightarrow> bool" where
  "keeping I m \<longleftrightarrow> (\<forall>s. I s \<longrightarrow> (\<forall>w \<in> set (snd (m s)). I w))"

lemma keeping_writes: "keeping I m \<Longrightarrow> I s \<Longrightarrow> w \<in> set (snd (m s)) \<Longrightarrow> I w"
  by (simp add: keeping_def)

lemma keeping_final: "keeping I m \<Longrightarrow> I s \<Longrightarrow> I (final_of m s)"
  using end_of_in[of s "snd (m s)"] keeping_writes[of I m s "final_of m s"] by (metis final_of_def insert_iff)

lemma keeping_reads [keeps]: "keeping I (ret a)" "keeping I (raise e)" "keeping I (look f)"
  by (simp_all add: keeping_def act_runs)

lemma keeping_put: "(\<And>s. I s \<Longrightarrow> I (f s)) \<Longrightarrow> keeping I (put f)"
  by (simp add: keeping_def act_runs)

text \<open>The same from one state: after a step its result and final state may be used.\<close>

definition writes_ok :: "('s \<Rightarrow> bool) \<Rightarrow> ('s, 'e, 'a) act \<Rightarrow> 's \<Rightarrow> bool" where
  "writes_ok I m s \<longleftrightarrow> (\<forall>w \<in> set (snd (m s)). I w)"

lemma keeping_iff: "keeping I m \<longleftrightarrow> (\<forall>s. I s \<longrightarrow> writes_ok I m s)"
  by (simp add: keeping_def writes_ok_def)

lemma keepingI: "(\<And>s. I s \<Longrightarrow> writes_ok I m s) \<Longrightarrow> keeping I m"
  by (simp add: keeping_iff)

lemma writes_of_keeping: "keeping I m \<Longrightarrow> I s \<Longrightarrow> writes_ok I m s"
  by (simp add: keeping_iff)

lemma writes_final: "writes_ok I m s \<Longrightarrow> I s \<Longrightarrow> I (final_of m s)"
  using end_of_in[of s "snd (m s)"] by (auto simp: writes_ok_def final_of_def)

lemma writes_simps [simp]: "writes_ok I (ret a) s" "writes_ok I (raise e) s" "writes_ok I (look f) s"
  "writes_ok I (caught m) s = writes_ok I m s" "writes_ok I (put g) s = I (g s)"
  by (simp_all add: writes_ok_def caught_def act_runs split: prod.split)

lemma writes_andthen:
  assumes "writes_ok I m s" and "\<And>a. result_of m s = Inr a \<Longrightarrow> writes_ok I (f a) (final_of m s)"
  shows "writes_ok I (andthen m f) s"
proof (cases "result_of m s")
  case (Inl e)
  then have "snd (andthen m f s) = snd (m s)" by (cases "m s") (simp add: andthen_def result_of_def)
  then show ?thesis using assms(1) by (simp add: writes_ok_def)
next
  case (Inr a)
  then have "snd (andthen m f s) = snd (m s) @ snd (f a (final_of m s))"
    by (cases "m s") (simp add: andthen_def result_of_def final_of_def Let_def split_beta)
  then show ?thesis using assms(1) assms(2)[OF Inr] by (auto simp: writes_ok_def)
qed

lemma keeping_andthen [keeps]:
  assumes "keeping I m" and "\<And>a. keeping I (f a)"
  shows "keeping I (andthen m f)"
proof (rule keepingI)
  fix s assume "I s"
  then show "writes_ok I (andthen m f) s"
    using writes_andthen[OF writes_of_keeping[OF assms(1)]] keeping_final[OF assms(1)] writes_of_keeping[OF assms(2)]
    by blast
qed

lemma keeping_caught [keeps]: "keeping I m \<Longrightarrow> keeping I (caught m)"
  by (simp add: keeping_def caught_def split: prod.split)

lemma keeping_each_in: "(\<And>x. x \<in> set xs \<Longrightarrow> keeping I (f x)) \<Longrightarrow> keeping I (each f xs)"
  by (induction xs) (simp_all add: keeping_andthen keeping_reads)

lemma keeping_each [keeps]: "(\<And>x. keeping I (f x)) \<Longrightarrow> keeping I (each f xs)"
  by (rule keeping_each_in)

lemma keeping_at: "(\<And>s. I s \<Longrightarrow> keeping I (m s)) \<Longrightarrow> keeping I (\<lambda>s. m s s)"
  unfolding keeping_def by blast


section \<open>Relations to the final state\<close>

named_theorems ends \<open>operations whose final state is related to the first\<close>

definition ending :: "('s \<Rightarrow> 's \<Rightarrow> bool) \<Rightarrow> ('s, 'e, 'a) act \<Rightarrow> bool" where
  "ending R m \<longleftrightarrow> (\<forall>s. R s (final_of m s))"

lemma endingD: "ending R m \<Longrightarrow> R s (final_of m s)"
  by (simp add: ending_def)

lemma ending_reads [ends]:
  "reflp R \<Longrightarrow> ending R (ret a)" "reflp R \<Longrightarrow> ending R (raise e)" "reflp R \<Longrightarrow> ending R (look f)"
  by (simp_all add: ending_def reflpD)

lemma ending_put: "(\<And>s. R s (f s)) \<Longrightarrow> ending R (put f)"
  by (simp add: ending_def)

lemma ending_andthen [ends]:
  assumes "transp R" and "ending R m" and "\<And>a. ending R (f a)"
  shows "ending R (andthen m f)"
  unfolding ending_def
proof
  fix s
  show "R s (final_of (andthen m f) s)"
    using endingD[OF assms(2), of s] endingD[OF assms(3)] transpD[OF assms(1)]
    by (auto simp: final_andthen split: sum.split)
qed

lemma ending_caught [ends]: "ending R m \<Longrightarrow> ending R (caught m)"
  by (simp add: ending_def)

lemma ending_each: "reflp R \<Longrightarrow> transp R \<Longrightarrow> (\<And>x. ending R (f x)) \<Longrightarrow> ending R (each f xs)"
  by (induction xs) (simp_all add: ending_andthen ending_reads)

lemma ending_at: "(\<And>s. ending R (m s)) \<Longrightarrow> ending R (\<lambda>s. m s s)"
  unfolding ending_def final_of_def by blast

end
