(* ===== verification/History.thy ===== *)
theory History
  imports Vault_Files Disk_Steps
begin

text \<open>
  The local version history (\<open>internal/history/history.go\<close>, \<open>checkpoint.go\<close>): snapshots of vault
  files as blobs under the hash of their content, one manifest of snapshots per file, checkpoints
  that group the files of a task, restoring, pruning with the collection of unreferenced blobs, and
  the purge of paths.

  The blobs, the manifests and the checkpoints lie in directories of their own beside the files of
  the vault; the names of manifests and checkpoints end in \<open>.json\<close>.  A JSON file is its decoded
  value, \<open>null\<close> or malformed.  Every operation is a sequence of atomic writes (\<open>Disk_Steps\<close>); its
  clock readings are one time.  SHA-256 and \<open>sort.Slice\<close> are parameters.
\<close>

section \<open>State\<close>

record hist_entry =
  he_id :: string
  he_time :: int
  he_size :: int

record hist_policy =
  hp_max_per_file :: int
  hp_max_age :: int
  hp_max_checkpoint_age :: int

record checkpoint_file =
  cf_path :: string
  cf_entry :: hist_entry

record task_checkpoint =
  tc_task :: string
  tc_time :: int
  tc_files :: "checkpoint_file list"
  tc_new :: "string list"
  tc_skipped :: "string list"

datatype manifest_file = Manifest "hist_entry list" | NullManifest | BadManifest

text \<open>A checkpoint file; the flag says that one of its lists is \<open>null\<close>.\<close>

datatype checkpoint_doc = CheckpointDoc bool task_checkpoint | NullCheckpoint | BadCheckpoint

record history =
  hs_vault :: vault_files
  hs_objects :: vault_files
  hs_manifests :: "(string \<times> manifest_file) list"
  hs_checkpoints :: "(string \<times> checkpoint_doc) list"

record history_lib =
  hl_sha :: "bytes \<Rightarrow> bytes"
  hl_sort :: "hist_entry sorter"
  hl_sort_checkpoints :: "task_checkpoint sorter"

datatype hist_error =
    InvalidPath | FileError file_error | CorruptManifest | InvalidId | ObjectMissing | NoSnapshots
  | AmbiguousId | NoSuchSnapshot | InvalidTaskId | NoCheckpoint | CorruptCheckpoint
  | InvalidManifest string | InvalidEntry string | InvalidCheckpoint string | InvalidObject string

type_synonym 'a hist_act = "(history, hist_error, 'a) act"

definition json_suffix :: string where "json_suffix = ''.json''"

definition zero_time :: int where "zero_time = - 62135596800000000000"


section \<open>Snapshots\<close>

definition content_id :: "history_lib \<Rightarrow> bytes \<Rightarrow> string" where
  "content_id L data = hex_encode (hl_sha L data)"

definition is_hex_id :: "string \<Rightarrow> bool" where
  "is_hex_id i \<longleftrightarrow> length i = 64 \<and> hex_decode i \<noteq> None"

text \<open>The snapshots of a file, newest first.\<close>

definition history_list :: "history_lib \<Rightarrow> string \<Rightarrow> history \<Rightarrow> hist_error + hist_entry list" where
  "history_list L rel h =
     (case clean_path rel of
        None \<Rightarrow> Inl InvalidPath
      | Some r \<Rightarrow>
          (case map_of (hs_manifests h) (r @ json_suffix) of
             None \<Rightarrow> Inr []
           | Some (Manifest es) \<Rightarrow> Inr (hl_sort L (\<lambda>e. - he_time e) es)
           | Some NullManifest \<Rightarrow> Inr []
           | Some BadManifest \<Rightarrow> Inl CorruptManifest))"

definition write_manifest :: "string \<Rightarrow> hist_entry list \<Rightarrow> unit hist_act" where
  "write_manifest rel es =
     (case clean_path rel of
        None \<Rightarrow> raise InvalidPath
      | Some r \<Rightarrow> put (hs_manifests_update (AList.update (r @ json_suffix) (Manifest es))))"

definition put_object :: "string \<Rightarrow> bytes \<Rightarrow> unit hist_act" where
  "put_object i data =
     (\<lambda>h. if map_of (hs_objects h) i = None
          then put (hs_objects_update (AList.update i (Regular data))) h else ret () h)"

definition take_snapshot :: "history_lib \<Rightarrow> int \<Rightarrow> string \<Rightarrow> hist_entry option hist_act" where
  "take_snapshot L now rel0 =
     (case clean_path rel0 of
        None \<Rightarrow> raise InvalidPath
      | Some rel \<Rightarrow> (\<lambda>h.
          case read_file rel (hs_vault h) of
            Inl NotExist \<Rightarrow> ret None h
          | Inl OtherError \<Rightarrow> raise (FileError OtherError) h
          | Inr data \<Rightarrow>
              (let i = content_id L data in
               andthen (look (history_list L rel)) (\<lambda>es.
                 if es \<noteq> [] \<and> he_id (hd es) = i then ret (Some (hd es))
                 else let entry = \<lparr>he_id = i, he_time = now, he_size = int (length data)\<rparr> in
                   andthen (put_object i data) (\<lambda>_.
                   andthen (write_manifest rel (entry # es)) (\<lambda>_.
                   ret (Some entry)))) h)))"

definition history_content :: "string \<Rightarrow> history \<Rightarrow> hist_error + bytes" where
  "history_content i h =
     (if \<not> is_hex_id i then Inl InvalidId
      else case map_of (hs_objects h) i of Some (Regular c) \<Rightarrow> Inr c | _ \<Rightarrow> Inl ObjectMissing)"

text \<open>The snapshot an id or a prefix of it names; the newest one when it is empty.\<close>

definition pick_target :: "string \<Rightarrow> hist_entry list \<Rightarrow> hist_error + hist_entry" where
  "pick_target i es =
     (if es = [] then Inl NoSnapshots
      else if i = [] then Inr (hd es)
      else case filter (\<lambda>e. has_prefix (he_id e) i) es of
          [] \<Rightarrow> Inl NoSuchSnapshot
        | [e] \<Rightarrow> Inr e
        | _ \<Rightarrow> Inl AmbiguousId)"

definition write_back :: "string \<Rightarrow> bytes \<Rightarrow> unit hist_act" where
  "write_back rel data =
     (\<lambda>h. case write_file rel data (hs_vault h) of
        None \<Rightarrow> raise (FileError OtherError) h
      | Some v \<Rightarrow> put (hs_vault_update (\<lambda>_. v)) h)"

definition restore_snapshot :: "history_lib \<Rightarrow> int \<Rightarrow> string \<Rightarrow> string \<Rightarrow> hist_entry hist_act" where
  "restore_snapshot L now rel0 i =
     (case clean_path rel0 of
        None \<Rightarrow> raise InvalidPath
      | Some rel \<Rightarrow>
          andthen (look (\<lambda>h. bind_err (history_list L rel h) (pick_target i))) (\<lambda>target.
          andthen (look (history_content (he_id target))) (\<lambda>data.
          andthen (take_snapshot L now rel) (\<lambda>_.
          andthen (write_back rel data) (\<lambda>_.
          ret target)))))"


section \<open>Checkpoints\<close>

definition valid_task_id :: "string \<Rightarrow> bool" where
  "valid_task_id t \<longleftrightarrow>
     t \<noteq> [] \<and> \<not> list_ex (\<lambda>c. c = CHR ''/'' \<or> c = CHR 0x5C) t \<and> t \<noteq> ''.'' \<and> t \<noteq> ''..'' \<and>
     \<not> has_prefix t ''.'' \<and> CHR '':'' \<notin> set t"

definition zero_checkpoint :: task_checkpoint where
  "zero_checkpoint = \<lparr>tc_task = [], tc_time = zero_time, tc_files = [], tc_new = [], tc_skipped = []\<rparr>"

text \<open>What \<open>json.Unmarshal\<close> makes of a checkpoint file, if it does not fail.\<close>

fun doc_checkpoint :: "checkpoint_doc \<Rightarrow> task_checkpoint option" where
  "doc_checkpoint (CheckpointDoc nulls cp) = Some cp"
| "doc_checkpoint NullCheckpoint = Some zero_checkpoint"
| "doc_checkpoint BadCheckpoint = None"

definition load_checkpoint :: "string \<Rightarrow> history \<Rightarrow> hist_error + task_checkpoint" where
  "load_checkpoint task h =
     (if \<not> valid_task_id task then Inl InvalidTaskId
      else case map_of (hs_checkpoints h) (task @ json_suffix) of
          None \<Rightarrow> Inl NoCheckpoint
        | Some d \<Rightarrow> (case doc_checkpoint d of None \<Rightarrow> Inl CorruptCheckpoint | Some cp \<Rightarrow> Inr cp))"

definition save_checkpoint :: "task_checkpoint \<Rightarrow> unit hist_act" where
  "save_checkpoint cp =
     (if \<not> valid_task_id (tc_task cp) then raise InvalidTaskId
      else put (hs_checkpoints_update (AList.update (tc_task cp @ json_suffix) (CheckpointDoc False cp))))"

definition begin_checkpoint :: "int \<Rightarrow> string \<Rightarrow> task_checkpoint hist_act" where
  "begin_checkpoint now task =
     (\<lambda>h. case load_checkpoint task h of
        Inr cp \<Rightarrow> ret cp h
      | Inl e \<Rightarrow>
          if e \<noteq> NoCheckpoint then raise e h
          else let cp = \<lparr>tc_task = task, tc_time = now, tc_files = [], tc_new = [], tc_skipped = []\<rparr>
            in andthen (save_checkpoint cp) (\<lambda>_. ret cp) h)"

definition tracks :: "task_checkpoint \<Rightarrow> string \<Rightarrow> bool" where
  "tracks cp rel \<longleftrightarrow>
     list_ex (\<lambda>f. cf_path f = rel) (tc_files cp) \<or> List.member (tc_new cp) rel \<or> List.member (tc_skipped cp) rel"

text \<open>Where a path belongs by the result of its snapshot.\<close>

definition record_path :: "string \<Rightarrow> hist_error + hist_entry option \<Rightarrow> task_checkpoint \<Rightarrow> task_checkpoint" where
  "record_path rel r cp =
     (case r of
        Inl _ \<Rightarrow> cp\<lparr>tc_skipped := tc_skipped cp @ [rel]\<rparr>
      | Inr None \<Rightarrow> cp\<lparr>tc_new := tc_new cp @ [rel]\<rparr>
      | Inr (Some e) \<Rightarrow> cp\<lparr>tc_files := tc_files cp @ [\<lparr>cf_path = rel, cf_entry = e\<rparr>]\<rparr>)"

definition checkpoint_path :: "history_lib \<Rightarrow> int \<Rightarrow> string \<Rightarrow> string \<Rightarrow> task_checkpoint hist_act" where
  "checkpoint_path L now task rel0 =
     andthen (begin_checkpoint now task) (\<lambda>cp.
       case clean_path rel0 of
         None \<Rightarrow> raise InvalidPath
       | Some rel \<Rightarrow>
           if tracks cp rel then ret cp
           else andthen (caught (take_snapshot L now rel)) (\<lambda>r.
             andthen (save_checkpoint (record_path rel r cp)) (\<lambda>_.
             ret (record_path rel r cp))))"

text \<open>The files that could not be restored, and the new files that could not be removed.\<close>

fun restore_files :: "history_lib \<Rightarrow> int \<Rightarrow> checkpoint_file list \<Rightarrow> string list hist_act" where
  "restore_files L now [] = ret []"
| "restore_files L now (f # fs) =
     andthen (caught (restore_snapshot L now (cf_path f) (he_id (cf_entry f)))) (\<lambda>r.
     andthen (restore_files L now fs) (\<lambda>failed.
     ret (if is_ok r then failed else cf_path f # failed)))"

definition remove_new :: "string \<Rightarrow> bool hist_act" where
  "remove_new rel =
     (\<lambda>h. case remove_path rel (hs_vault h) of
        Inr v \<Rightarrow> andthen (put (hs_vault_update (\<lambda>_. v))) (\<lambda>_. ret True) h
      | Inl NotExist \<Rightarrow> ret True h
      | Inl OtherError \<Rightarrow> ret False h)"

fun remove_news :: "string list \<Rightarrow> string list hist_act" where
  "remove_news [] = ret []"
| "remove_news (rel # rels) =
     andthen (remove_new rel) (\<lambda>ok.
     andthen (remove_news rels) (\<lambda>failed.
     ret (if ok then failed else rel # failed)))"

definition undo_checkpoint :: "history_lib \<Rightarrow> int \<Rightarrow> string \<Rightarrow> task_checkpoint hist_act" where
  "undo_checkpoint L now task =
     andthen (look (load_checkpoint task)) (\<lambda>cp.
       if tc_files cp = [] \<and> tc_new cp = [] then ret cp
       else andthen (restore_files L now (tc_files cp)) (\<lambda>failed.
         andthen (remove_news (tc_new cp)) (\<lambda>failed'.
         let cp' = cp\<lparr>tc_skipped := tc_skipped cp @ failed @ failed'\<rparr> in
         andthen (save_checkpoint cp') (\<lambda>_. ret cp'))))"

definition partial_checkpoint :: "task_checkpoint \<Rightarrow> bool" where
  "partial_checkpoint cp \<longleftrightarrow> tc_skipped cp \<noteq> []"

definition checkpoint_docs :: "(string \<times> checkpoint_doc) list \<Rightarrow> task_checkpoint list" where
  "checkpoint_docs ds =
     concat (map (\<lambda>(n, d). if has_suffix n json_suffix
                           then (case doc_checkpoint d of None \<Rightarrow> [] | Some cp \<Rightarrow> [cp]) else []) ds)"

definition list_checkpoints :: "history_lib \<Rightarrow> history \<Rightarrow> task_checkpoint list" where
  "list_checkpoints L h = hl_sort_checkpoints L (\<lambda>cp. - tc_time cp) (checkpoint_docs (hs_checkpoints h))"


section \<open>Pruning\<close>

fun prune_checkpoints :: "int \<Rightarrow> task_checkpoint list \<Rightarrow> nat hist_act" where
  "prune_checkpoints cutoff [] = ret 0"
| "prune_checkpoints cutoff (cp # cps) =
     (if \<not> tc_time cp < cutoff then prune_checkpoints cutoff cps
      else if \<not> valid_task_id (tc_task cp) then raise InvalidTaskId
      else andthen (put (hs_checkpoints_update (AList.delete (tc_task cp @ json_suffix)))) (\<lambda>_.
           andthen (prune_checkpoints cutoff cps) (\<lambda>n. ret (Suc n))))"

text \<open>The snapshots of a file that stay; the newest stays whatever its age.\<close>

fun keep_loop :: "int \<Rightarrow> int \<Rightarrow> bool \<Rightarrow> nat \<Rightarrow> hist_entry list \<Rightarrow> hist_entry list" where
  "keep_loop most cutoff first kept [] = []"
| "keep_loop most cutoff first kept (e # es) =
     (if most > 0 \<and> int kept \<ge> most then keep_loop most cutoff False kept es
      else if \<not> first \<and> cutoff \<noteq> zero_time \<and> he_time e < cutoff then keep_loop most cutoff False kept es
      else e # keep_loop most cutoff False (Suc kept) es)"

definition kept_entries :: "int \<Rightarrow> int \<Rightarrow> hist_entry list \<Rightarrow> hist_entry list" where
  "kept_entries most cutoff es = keep_loop most cutoff True 0 es"

text \<open>The manifests one after the other: how many snapshots went, and the ids of those that stay.\<close>

fun prune_manifests :: "history_lib \<Rightarrow> int \<Rightarrow> int \<Rightarrow> string list \<Rightarrow> (nat \<times> string list) hist_act" where
  "prune_manifests L most cutoff [] = ret (0, [])"
| "prune_manifests L most cutoff (name # names) =
     (if \<not> has_suffix name json_suffix then prune_manifests L most cutoff names
      else let rel = trim_suffix name json_suffix in
        andthen (look (history_list L rel)) (\<lambda>es.
        let kept = kept_entries most cutoff es in
        andthen (if length kept = length es then ret ()
                 else if kept = [] then put (hs_manifests_update (AList.delete name))
                 else write_manifest rel kept) (\<lambda>_.
        andthen (prune_manifests L most cutoff names) (\<lambda>(n, ids).
        ret (length es - length kept + n, map he_id kept @ ids)))))"

definition collect_objects :: "string list \<Rightarrow> unit hist_act" where
  "collect_objects refs =
     (\<lambda>h. each (\<lambda>(n, f). if f = Directory \<or> List.member refs n then ret ()
                         else put (hs_objects_update (AList.delete n))) (hs_objects h) h)"

definition checkpoint_ids :: "task_checkpoint \<Rightarrow> string list" where
  "checkpoint_ids cp = map (\<lambda>f. he_id (cf_entry f)) (tc_files cp)"

definition prune_history :: "history_lib \<Rightarrow> int \<Rightarrow> hist_policy \<Rightarrow> nat hist_act" where
  "prune_history L now pol =
     (let cutoff = (if hp_max_age pol > 0 then now - hp_max_age pol else zero_time) in
      andthen (if hp_max_checkpoint_age pol > 0
               then (\<lambda>h. prune_checkpoints (now - hp_max_checkpoint_age pol) (list_checkpoints L h) h)
               else ret 0) (\<lambda>n.
      andthen (look (\<lambda>h. Inr (concat (map checkpoint_ids (list_checkpoints L h))))) (\<lambda>refs.
      andthen (\<lambda>h. prune_manifests L (hp_max_per_file pol) cutoff (map fst (hs_manifests h)) h) (\<lambda>(k, ids).
      andthen (collect_objects (refs @ ids)) (\<lambda>_.
      ret (n + k))))))"


section \<open>Purging paths\<close>

definition verify_entry :: "history_lib \<Rightarrow> history \<Rightarrow> hist_entry \<Rightarrow> hist_error + unit" where
  "verify_entry L h e =
     (if \<not> is_hex_id (he_id e) then Inl (InvalidEntry (he_id e))
      else if he_time e = zero_time \<or> he_size e < 0 then Inl (InvalidEntry (he_id e))
      else case map_of (hs_objects h) (he_id e) of
          Some (Regular c) \<Rightarrow>
            if int (length c) \<noteq> he_size e \<or> content_id L c \<noteq> he_id e then Inl (InvalidObject (he_id e)) else Inr ()
        | _ \<Rightarrow> Inl (InvalidObject (he_id e)))"

fun verify_entries :: "history_lib \<Rightarrow> history \<Rightarrow> hist_entry list \<Rightarrow> hist_error + unit" where
  "verify_entries L h [] = Inr ()"
| "verify_entries L h (e # es) = bind_err (verify_entry L h e) (\<lambda>_. verify_entries L h es)"

text \<open>Manifests and checkpoints read strictly; \<open>stray\<close> is what becomes of other files.\<close>

fun strict_manifests ::
    "(string \<Rightarrow> hist_error option) \<Rightarrow> history_lib \<Rightarrow> history \<Rightarrow> (string \<times> manifest_file) list
     \<Rightarrow> hist_error + (string \<times> hist_entry list) list" where
  "strict_manifests stray L h [] = Inr []"
| "strict_manifests stray L h ((n, m) # ms) =
     (if \<not> has_suffix n json_suffix
      then (case stray n of Some e \<Rightarrow> Inl e | None \<Rightarrow> strict_manifests stray L h ms)
      else case m of
          Manifest es \<Rightarrow>
            bind_err (verify_entries L h es) (\<lambda>_.
            bind_err (strict_manifests stray L h ms) (\<lambda>rest. Inr ((n, es) # rest)))
        | _ \<Rightarrow> Inl (InvalidManifest n))"

fun paths_once :: "string list \<Rightarrow> string list \<Rightarrow> bool" where
  "paths_once seen [] \<longleftrightarrow> True"
| "paths_once seen (p # ps) \<longleftrightarrow> clean_path p = Some p \<and> \<not> List.member seen p \<and> paths_once (p # seen) ps"

definition decode_checkpoint :: "string \<Rightarrow> checkpoint_doc \<Rightarrow> hist_error + task_checkpoint" where
  "decode_checkpoint n d =
     (case d of
        CheckpointDoc nulls cp \<Rightarrow>
          if nulls \<or> tc_task cp = [] \<or> tc_time cp = zero_time \<or> \<not> valid_task_id (tc_task cp)
             \<or> \<not> paths_once [] (map cf_path (tc_files cp) @ tc_new cp @ tc_skipped cp)
             \<or> tc_task cp \<noteq> trim_suffix n json_suffix
          then Inl (InvalidCheckpoint n) else Inr cp
      | _ \<Rightarrow> Inl (InvalidCheckpoint n))"

fun strict_checkpoints ::
    "(string \<Rightarrow> hist_error option) \<Rightarrow> history_lib \<Rightarrow> history \<Rightarrow> (string \<times> checkpoint_doc) list
     \<Rightarrow> hist_error + (string \<times> task_checkpoint) list" where
  "strict_checkpoints stray L h [] = Inr []"
| "strict_checkpoints stray L h ((n, d) # ds) =
     (if \<not> has_suffix n json_suffix
      then (case stray n of Some e \<Rightarrow> Inl e | None \<Rightarrow> strict_checkpoints stray L h ds)
      else bind_err (decode_checkpoint n d) (\<lambda>cp.
           bind_err (verify_entries L h (map cf_entry (tc_files cp))) (\<lambda>_.
           bind_err (strict_checkpoints stray L h ds) (\<lambda>rest. Inr ((n, cp) # rest)))))"

definition clean_paths :: "string list \<Rightarrow> hist_error + string list" where
  "clean_paths rels = (case those (map clean_path rels) of None \<Rightarrow> Inl InvalidPath | Some ts \<Rightarrow> Inr ts)"

definition preflight_purge :: "history_lib \<Rightarrow> string list \<Rightarrow> history \<Rightarrow> hist_error + unit" where
  "preflight_purge L rels h =
     bind_err (clean_paths rels) (\<lambda>_.
     bind_err (strict_manifests (\<lambda>n. Some (InvalidManifest n)) L h (hs_manifests h)) (\<lambda>_.
     bind_err (strict_checkpoints (\<lambda>n. Some (InvalidCheckpoint n)) L h (hs_checkpoints h)) (\<lambda>_.
     case find (\<lambda>(n, f). f = Directory \<or> f = Special) (hs_objects h) of
       Some (n, f) \<Rightarrow> Inl (InvalidObject n) | None \<Rightarrow> Inr ())))"

definition without_paths :: "string list \<Rightarrow> task_checkpoint \<Rightarrow> task_checkpoint" where
  "without_paths ts cp =
     cp\<lparr>tc_files := filter (\<lambda>f. \<not> List.member ts (cf_path f)) (tc_files cp),
        tc_new := filter (\<lambda>p. \<not> List.member ts p) (tc_new cp),
        tc_skipped := filter (\<lambda>p. \<not> List.member ts p) (tc_skipped cp)\<rparr>"

definition purge_checkpoint :: "string list \<Rightarrow> string \<times> task_checkpoint \<Rightarrow> unit hist_act" where
  "purge_checkpoint ts = (\<lambda>(n, cp).
     let cp' = without_paths ts cp in
     if cp' = cp then ret ()
     else if tc_files cp' = [] \<and> tc_new cp' = [] \<and> tc_skipped cp' = []
     then put (hs_checkpoints_update (AList.delete n))
     else save_checkpoint cp')"

definition purge_manifest :: "string list \<Rightarrow> string \<times> hist_entry list \<Rightarrow> unit hist_act" where
  "purge_manifest ts = (\<lambda>(n, es).
     if List.member ts (trim_suffix n json_suffix) then put (hs_manifests_update (AList.delete n)) else ret ())"

definition surviving_ids ::
    "string list \<Rightarrow> (string \<times> hist_entry list) list \<Rightarrow> (string \<times> task_checkpoint) list \<Rightarrow> string list" where
  "surviving_ids ts ms cps =
     concat (map (\<lambda>(n, es). if List.member ts (trim_suffix n json_suffix) then [] else map he_id es) ms)
     @ concat (map (\<lambda>(n, cp). checkpoint_ids (without_paths ts cp)) cps)"

definition purge_paths :: "history_lib \<Rightarrow> string list \<Rightarrow> unit hist_act" where
  "purge_paths L rels =
     andthen (look (\<lambda>h. clean_paths rels)) (\<lambda>ts.
     andthen (look (\<lambda>h. strict_manifests (\<lambda>_. None) L h (hs_manifests h))) (\<lambda>ms.
     andthen (look (\<lambda>h. strict_checkpoints (\<lambda>_. None) L h (hs_checkpoints h))) (\<lambda>cps.
     andthen (each (purge_manifest ts) ms) (\<lambda>_.
     andthen (each (purge_checkpoint ts) cps) (\<lambda>_.
     collect_objects (surviving_ids ts ms cps))))))"

end
