(* ===== verification/History_Store.thy ===== *)
theory History_Store
  imports History
begin

text \<open>
  The invariant of the version history (\<open>History\<close>): blobs have the content their names are the hash
  of, and every snapshot that a manifest or a checkpoint names has its blob.  Every write of taking and
  restoring snapshots, of recording a file for a task and of undoing the task keeps it, because a blob
  is written before the manifest or checkpoint that names it.
\<close>

section \<open>The store\<close>

definition manifest_refs :: "(string \<times> manifest_file) list \<Rightarrow> string set" where
  "manifest_refs ms = {he_id e | n es e. map_of ms n = Some (Manifest es) \<and> e \<in> set es}"

definition doc_refs :: "(string \<times> checkpoint_doc) list \<Rightarrow> string set" where
  "doc_refs ds = {i. \<exists>n b cp. map_of ds n = Some (CheckpointDoc b cp) \<and> i \<in> set (checkpoint_ids cp)}"

definition snapshot_refs :: "history \<Rightarrow> string set" where
  "snapshot_refs h = manifest_refs (hs_manifests h) \<union> doc_refs (hs_checkpoints h)"

definition objects_ok :: "history_lib \<Rightarrow> vault_files \<Rightarrow> bool" where
  "objects_ok L os \<longleftrightarrow> distinct (map fst os) \<and>
     (\<forall>n f. map_of os n = Some f \<longrightarrow> (\<exists>c. f = Regular c \<and> content_id L c = n))"

definition manifests_ok :: "(string \<times> manifest_file) list \<Rightarrow> bool" where
  "manifests_ok ms \<longleftrightarrow> distinct (map fst ms) \<and>
     (\<forall>n \<in> set (map fst ms). \<exists>r. clean_path r = Some r \<and> n = r @ json_suffix)"

definition docs_ok :: "(string \<times> checkpoint_doc) list \<Rightarrow> bool" where
  "docs_ok ds \<longleftrightarrow> distinct (map fst ds) \<and> (\<forall>n \<in> set (map fst ds). has_suffix n json_suffix)"

text \<open>Blobs are what their names say, files are named as they are written, and every snapshot has its blob.\<close>

definition store_ok :: "history_lib \<Rightarrow> history \<Rightarrow> bool" where
  "store_ok L h \<longleftrightarrow> objects_ok L (hs_objects h) \<and> manifests_ok (hs_manifests h) \<and> docs_ok (hs_checkpoints h) \<and>
     snapshot_refs h \<subseteq> dom (map_of (hs_objects h))"

definition history_lib_ok :: "history_lib \<Rightarrow> bool" where
  "history_lib_ok L \<longleftrightarrow> (\<forall>m. length (hl_sha L m) = 32) \<and> sort_ok (hl_sort L) \<and> sort_ok (hl_sort_checkpoints L)"

lemma store_okD:
  assumes "store_ok L h"
  shows "objects_ok L (hs_objects h)" "manifests_ok (hs_manifests h)" "docs_ok (hs_checkpoints h)"
    "manifest_refs (hs_manifests h) \<subseteq> dom (map_of (hs_objects h))"
    "doc_refs (hs_checkpoints h) \<subseteq> dom (map_of (hs_objects h))"
  using assms by (simp_all add: store_ok_def snapshot_refs_def)

lemma is_hex_content: "history_lib_ok L \<Longrightarrow> is_hex_id (content_id L c)"
  by (simp add: history_lib_ok_def is_hex_id_def content_id_def length_hex_encode hex_decode_encode)

text \<open>A blob that is there can be read.\<close>

lemma content_available:
  assumes "history_lib_ok L" and "objects_ok L (hs_objects h)" and "i \<in> dom (map_of (hs_objects h))"
  obtains c where "history_content i h = Inr c" "content_id L c = i"
proof -
  obtain f where "map_of (hs_objects h) i = Some f" using assms(3) by blast
  then obtain c where "map_of (hs_objects h) i = Some (Regular c)" "content_id L c = i"
    using assms(2) unfolding objects_ok_def by blast
  then show thesis using that is_hex_content[OF assms(1), of c] by (simp add: history_content_def)
qed

lemma manifest_refs_update: "manifest_refs (AList.update n (Manifest es) ms) \<subseteq> manifest_refs ms \<union> he_id ` set es"
  by (auto simp: manifest_refs_def update_conv' split: if_splits)

lemma manifest_refs_delete: "manifest_refs (AList.delete n ms) \<subseteq> manifest_refs ms"
  by (auto simp: manifest_refs_def delete_conv' split: if_splits)

lemma doc_refs_update: "doc_refs (AList.update n (CheckpointDoc b cp) ds) \<subseteq> doc_refs ds \<union> set (checkpoint_ids cp)"
  by (auto simp: doc_refs_def update_conv' split: if_splits)

lemma doc_refs_delete: "doc_refs (AList.delete n ds) \<subseteq> doc_refs ds"
  by (auto simp: doc_refs_def delete_conv' split: if_splits)

lemma set_keys_update: "set (map fst (AList.update k v xs)) = insert k (set (map fst xs))"
  by (auto simp: update_keys)

lemma set_keys_delete: "set (map fst (AList.delete k xs)) = set (map fst xs) - {k}"
  by (simp add: delete_keys)

lemma manifests_ok_update:
  "manifests_ok ms \<Longrightarrow> clean_path r = Some r \<Longrightarrow> manifests_ok (AList.update (r @ json_suffix) m ms)"
  unfolding manifests_ok_def set_keys_update by (auto simp: distinct_update)

lemma manifests_ok_delete: "manifests_ok ms \<Longrightarrow> manifests_ok (AList.delete n ms)"
  unfolding manifests_ok_def set_keys_delete by (auto simp: distinct_delete)

lemma docs_ok_update: "docs_ok ds \<Longrightarrow> docs_ok (AList.update (t @ json_suffix) d ds)"
  unfolding docs_ok_def set_keys_update by (auto simp: distinct_update)

lemma docs_ok_delete: "docs_ok ds \<Longrightarrow> docs_ok (AList.delete n ds)"
  unfolding docs_ok_def set_keys_delete by (auto simp: distinct_delete)

lemma objects_ok_update:
  "objects_ok L os \<Longrightarrow> i = content_id L data \<Longrightarrow> objects_ok L (AList.update i (Regular data) os)"
  by (auto simp: objects_ok_def distinct_update update_conv' split: if_splits)

lemma objects_ok_delete: "objects_ok L os \<Longrightarrow> objects_ok L (AList.delete n os)"
  by (auto simp: objects_ok_def distinct_delete delete_conv' split: if_splits)

lemma store_ok_vault [simp]: "store_ok L (hs_vault_update f h) = store_ok L h"
  by (simp add: store_ok_def snapshot_refs_def)

lemma store_ok_put_object:
  "store_ok L h \<Longrightarrow> i = content_id L data \<Longrightarrow> store_ok L (hs_objects_update (AList.update i (Regular data)) h)"
  by (auto simp: store_ok_def snapshot_refs_def objects_ok_update update_conv')

lemma store_ok_put_manifest:
  assumes "store_ok L h" and "clean_path r = Some r" and "he_id ` set es \<subseteq> dom (map_of (hs_objects h))"
  shows "store_ok L (hs_manifests_update (AList.update (r @ json_suffix) (Manifest es)) h)"
proof -
  have "manifest_refs (AList.update (r @ json_suffix) (Manifest es) (hs_manifests h)) \<subseteq> dom (map_of (hs_objects h))"
    using assms(3) manifest_refs_update[of "r @ json_suffix" es "hs_manifests h"] store_okD(4)[OF assms(1)] by blast
  then show ?thesis using assms(1,2) by (simp add: store_ok_def snapshot_refs_def manifests_ok_update)
qed

lemma store_ok_delete_manifest: "store_ok L h \<Longrightarrow> store_ok L (hs_manifests_update (AList.delete n) h)"
  using manifest_refs_delete[of n "hs_manifests h"] by (auto simp: store_ok_def snapshot_refs_def manifests_ok_delete)

lemma store_ok_put_doc:
  assumes "store_ok L h" and "set (checkpoint_ids cp) \<subseteq> dom (map_of (hs_objects h))"
  shows "store_ok L (hs_checkpoints_update (AList.update (t @ json_suffix) (CheckpointDoc b cp)) h)"
proof -
  have "doc_refs (AList.update (t @ json_suffix) (CheckpointDoc b cp) (hs_checkpoints h)) \<subseteq> dom (map_of (hs_objects h))"
    using assms(2) doc_refs_update[of "t @ json_suffix" b cp "hs_checkpoints h"] store_okD(5)[OF assms(1)] by blast
  then show ?thesis using assms(1) by (simp add: store_ok_def snapshot_refs_def docs_ok_update)
qed

lemma store_ok_delete_doc: "store_ok L h \<Longrightarrow> store_ok L (hs_checkpoints_update (AList.delete n) h)"
  using doc_refs_delete[of n "hs_checkpoints h"] by (auto simp: store_ok_def snapshot_refs_def docs_ok_delete)

lemma store_ok_delete_object:
  "store_ok L h \<Longrightarrow> n \<notin> snapshot_refs h \<Longrightarrow> store_ok L (hs_objects_update (AList.delete n) h)"
  by (auto simp: store_ok_def snapshot_refs_def objects_ok_delete delete_conv')

text \<open>The snapshots listed for a file are referenced, so they have their blobs.\<close>

lemma history_list_refs:
  assumes "history_lib_ok L" and "history_list L rel h = Inr es"
  shows "he_id ` set es \<subseteq> manifest_refs (hs_manifests h)"
proof -
  obtain r where r: "clean_path rel = Some r" using assms(2) by (auto simp: history_list_def split: option.splits)
  have s: "set (hl_sort L k xs) = set xs" for k xs
    using assms(1) sort_ok_set by (auto simp: history_lib_ok_def)
  show ?thesis
    using assms(2) r s by (auto simp: history_list_def manifest_refs_def split: option.splits manifest_file.splits) blast
qed

section \<open>Taking and restoring snapshots\<close>

definition object_put :: "string \<Rightarrow> bytes \<Rightarrow> history \<Rightarrow> history" where
  "object_put i data h =
     (if map_of (hs_objects h) i = None then hs_objects_update (AList.update i (Regular data)) h else h)"

lemma put_object_simps [simp]:
  "result_of (put_object i data) h = Inr ()"
  "final_of (put_object i data) h = object_put i data h"
  by (simp_all add: put_object_def object_put_def result_of_def final_of_def)

lemma object_put_simps [simp]:
  "hs_vault (object_put i data h) = hs_vault h"
  "hs_manifests (object_put i data h) = hs_manifests h"
  "hs_checkpoints (object_put i data h) = hs_checkpoints h"
  "i \<in> dom (map_of (hs_objects (object_put i data h)))"
  by (auto simp: object_put_def update_conv')

lemma object_put_keeps: "map_of (hs_objects h) n = Some f \<Longrightarrow> map_of (hs_objects (object_put i data h)) n = Some f"
  by (auto simp: object_put_def update_conv')

lemma store_ok_object_put: "store_ok L h \<Longrightarrow> i = content_id L data \<Longrightarrow> store_ok L (object_put i data h)"
  by (simp add: object_put_def store_ok_put_object)

lemma keeping_put_object [keeps]: "i = content_id L data \<Longrightarrow> keeping (store_ok L) (put_object i data)"
  by (auto simp: keeping_def put_object_def store_ok_put_object)

definition manifest_put :: "string \<Rightarrow> hist_entry list \<Rightarrow> history \<Rightarrow> history" where
  "manifest_put r es = hs_manifests_update (AList.update (r @ json_suffix) (Manifest es))"

lemma write_manifest_clean: "clean_path r = Some r \<Longrightarrow> write_manifest r es = put (manifest_put r es)"
  by (simp add: write_manifest_def manifest_put_def)

lemma manifest_put_simps [simp]:
  "hs_vault (manifest_put r es h) = hs_vault h"
  "hs_objects (manifest_put r es h) = hs_objects h"
  "hs_checkpoints (manifest_put r es h) = hs_checkpoints h"
  by (simp_all add: manifest_put_def)

text \<open>What a snapshot does, case by case.\<close>

lemma take_snapshot_none:
  assumes "clean_path rel0 = Some rel"
  shows "read_file rel (hs_vault h) = Inl NotExist \<Longrightarrow> take_snapshot L now rel0 h = (Inr None, [])"
    "read_file rel (hs_vault h) = Inl OtherError \<Longrightarrow> take_snapshot L now rel0 h = (Inl (FileError OtherError), [])"
    "read_file rel (hs_vault h) = Inr data \<Longrightarrow> history_list L rel h = Inl e \<Longrightarrow> take_snapshot L now rel0 h = (Inl e, [])"
    "read_file rel (hs_vault h) = Inr data \<Longrightarrow> history_list L rel h = Inr es \<Longrightarrow> es \<noteq> [] \<Longrightarrow>
       he_id (hd es) = content_id L data \<Longrightarrow> take_snapshot L now rel0 h = (Inr (Some (hd es)), [])"
  using assms by (simp_all add: take_snapshot_def andthen_def act_runs)

definition new_entry :: "history_lib \<Rightarrow> int \<Rightarrow> bytes \<Rightarrow> hist_entry" where
  "new_entry L now data = \<lparr>he_id = content_id L data, he_time = now, he_size = int (length data)\<rparr>"

definition snapshot_final :: "history_lib \<Rightarrow> int \<Rightarrow> string \<Rightarrow> bytes \<Rightarrow> hist_entry list \<Rightarrow> history \<Rightarrow> history" where
  "snapshot_final L now rel data es h =
     manifest_put rel (new_entry L now data # es) (object_put (content_id L data) data h)"

lemma take_snapshot_new:
  assumes "clean_path rel0 = Some rel" and "read_file rel (hs_vault h) = Inr data" and "history_list L rel h = Inr es"
    and "es = [] \<or> he_id (hd es) \<noteq> content_id L data"
  shows "result_of (take_snapshot L now rel0) h = Inr (Some (new_entry L now data))"
    "final_of (take_snapshot L now rel0) h = snapshot_final L now rel data es h"
    "snd (take_snapshot L now rel0 h) =
       snd (put_object (content_id L data) data h) @ [snapshot_final L now rel data es h]"
proof -
  let ?m = "andthen (put_object (content_id L data) data) (\<lambda>_.
      andthen (write_manifest rel (new_entry L now data # es)) (\<lambda>_. ret (Some (new_entry L now data))))"
  have run: "take_snapshot L now rel0 h = ?m h"
    using assms by (auto simp: take_snapshot_def andthen_def[of "look _"] act_runs new_entry_def Let_def)
  have w: "write_manifest rel (new_entry L now data # es) = put (manifest_put rel (new_entry L now data # es))"
    using write_manifest_clean clean_path_idem[OF assms(1)] by blast
  have m: "result_of ?m h = Inr (Some (new_entry L now data))" "final_of ?m h = snapshot_final L now rel data es h"
    by (simp_all add: result_andthen final_andthen w snapshot_final_def)
  show "result_of (take_snapshot L now rel0) h = Inr (Some (new_entry L now data))"
    using m(1) by (simp add: result_of_def run)
  show "final_of (take_snapshot L now rel0) h = snapshot_final L now rel data es h"
    using m(2) by (simp add: final_of_def run)
  show "snd (take_snapshot L now rel0 h) =
       snd (put_object (content_id L data) data h) @ [snapshot_final L now rel data es h]"
    unfolding run w by (simp add: andthen_def act_runs snapshot_final_def put_object_def object_put_def)
qed

lemma take_snapshot_invalid: "clean_path rel0 = None \<Longrightarrow> take_snapshot L now rel0 = raise InvalidPath"
  by (simp add: take_snapshot_def)

lemma take_snapshot_cases:
  obtains (quiet) "snd (take_snapshot L now rel0 h) = []"
  | (new) rel data es where "clean_path rel0 = Some rel" "read_file rel (hs_vault h) = Inr data"
      "history_list L rel h = Inr es" "es = [] \<or> he_id (hd es) \<noteq> content_id L data"
proof (cases "clean_path rel0")
  case None
  then show thesis using quiet by (simp add: take_snapshot_invalid)
next
  case (Some rel)
  show thesis
  proof (cases "read_file rel (hs_vault h)")
    case (Inl e)
    then show thesis using quiet take_snapshot_none(1,2)[OF Some] by (cases e) auto
  next
    case (Inr data)
    show thesis
    proof (cases "history_list L rel h")
      case (Inl e)
      then show thesis using quiet take_snapshot_none(3)[OF Some Inr] by simp
    next
      case es: (Inr es)
      show thesis
      proof (cases "es = [] \<or> he_id (hd es) \<noteq> content_id L data")
        case True
        then show thesis by (rule new[OF Some Inr es])
      next
        case False
        then show thesis using quiet take_snapshot_none(4)[OF Some Inr es] by simp
      qed
    qed
  qed
qed

lemma snapshot_final_ok:
  assumes "history_lib_ok L" and "store_ok L h" and "clean_path rel = Some rel" and "history_list L rel h = Inr es"
  shows "store_ok L (snapshot_final L now rel data es h)"
proof -
  let ?h = "object_put (content_id L data) data h"
  have ok: "store_ok L ?h" using store_ok_object_put[OF assms(2) refl] .
  have "he_id ` set es \<subseteq> manifest_refs (hs_manifests ?h)" using history_list_refs[OF assms(1,4)] by simp
  then have "he_id ` set (new_entry L now data # es) \<subseteq> dom (map_of (hs_objects ?h))"
    using store_okD(4)[OF ok] object_put_simps(4)[of "content_id L data" data h] by (auto simp: new_entry_def simp del: object_put_simps)
  then show ?thesis using store_ok_put_manifest[OF ok assms(3)] by (simp add: snapshot_final_def manifest_put_def)
qed

lemma keeping_take_snapshot [keeps]:
  assumes "history_lib_ok L"
  shows "keeping (store_ok L) (take_snapshot L now rel0)"
  unfolding keeping_def
proof (intro allI impI ballI)
  fix h w
  assume h: "store_ok L h" and w: "w \<in> set (snd (take_snapshot L now rel0 h))"
  show "store_ok L w"
  proof (cases rule: take_snapshot_cases[of L now rel0 h])
    case quiet
    then show ?thesis using w by simp
  next
    case (new rel data es)
    have "w \<in> set (snd (put_object (content_id L data) data h)) \<or> w = snapshot_final L now rel data es h"
      using w take_snapshot_new(3)[OF new, of now] by auto
    then show ?thesis
      using keeping_writes[OF keeping_put_object[OF refl] h] snapshot_final_ok[OF assms h clean_path_idem[OF new(1)] new(3)]
      by blast
  qed
qed

text \<open>Blobs are only added, and checkpoints are left alone.\<close>

definition grows :: "history \<Rightarrow> history \<Rightarrow> bool" where
  "grows h h' \<longleftrightarrow> (\<forall>n f. map_of (hs_objects h) n = Some f \<longrightarrow> map_of (hs_objects h') n = Some f) \<and>
     hs_checkpoints h' = hs_checkpoints h"

lemma grows_order: "reflp grows" "transp grows"
  by (auto simp: grows_def reflp_def transp_def)

lemma final_quiet: "snd (m h) = [] \<Longrightarrow> final_of m h = h"
  by (simp add: final_of_def)

lemma take_snapshot_grows [ends]: "ending grows (take_snapshot L now rel0)"
  unfolding ending_def
proof
  fix h
  show "grows h (final_of (take_snapshot L now rel0) h)"
  proof (cases rule: take_snapshot_cases[of L now rel0 h])
    case quiet
    then show ?thesis by (simp add: final_quiet grows_def)
  next
    case (new rel data es)
    then show ?thesis by (simp add: take_snapshot_new(2)[OF new] snapshot_final_def grows_def object_put_keeps)
  qed
qed

lemma take_snapshot_vault: "hs_vault (final_of (take_snapshot L now rel0) h) = hs_vault h"
  by (cases rule: take_snapshot_cases[of L now rel0 h])
    (simp_all add: final_quiet take_snapshot_new(2) snapshot_final_def)

text \<open>The snapshot a call reports has its blob, with the content of the file.\<close>

lemma take_snapshot_result:
  assumes "history_lib_ok L" and "store_ok L h" and "result_of (take_snapshot L now rel0) h = Inr (Some e)"
  obtains rel data where "clean_path rel0 = Some rel" "map_of (hs_vault h) rel = Some (Regular data)"
    "he_id e = content_id L data" "he_id e \<in> dom (map_of (hs_objects (final_of (take_snapshot L now rel0) h)))"
proof -
  have keep: "n \<in> dom (map_of (hs_objects (final_of (take_snapshot L now rel0) h)))" if "n \<in> dom (map_of (hs_objects h))" for n
    using that endingD[OF take_snapshot_grows] unfolding grows_def by blast
  obtain rel where rel: "clean_path rel0 = Some rel"
    using assms(3) by (cases "clean_path rel0") (simp_all add: take_snapshot_invalid)
  have "\<exists>data. read_file rel (hs_vault h) = Inr data \<and> he_id e = content_id L data \<and>
      he_id e \<in> dom (map_of (hs_objects (final_of (take_snapshot L now rel0) h)))"
  proof (cases "read_file rel (hs_vault h)")
    case (Inl err)
    then show ?thesis using assms(3) take_snapshot_none(1,2)[OF rel, of h L now] by (cases err) (simp_all add: result_of_def)
  next
    case (Inr data)
    show ?thesis
    proof (cases "history_list L rel h")
      case (Inl err)
      then show ?thesis using assms(3) take_snapshot_none(3)[OF rel Inr Inl, of now] by (simp add: result_of_def)
    next
      case es: (Inr es)
      show ?thesis
      proof (cases "es = [] \<or> he_id (hd es) \<noteq> content_id L data")
        case True
        have "e = new_entry L now data" using assms(3) take_snapshot_new(1)[OF rel Inr es True, of now] by simp
        moreover have "content_id L data \<in> dom (map_of (hs_objects (final_of (take_snapshot L now rel0) h)))"
          using object_put_simps(4)[of "content_id L data" data h]
          by (simp add: take_snapshot_new(2)[OF rel Inr es True] snapshot_final_def del: object_put_simps(4))
        ultimately show ?thesis using Inr by (simp add: new_entry_def)
      next
        case False
        then have e: "e = hd es" using assms(3) take_snapshot_none(4)[OF rel Inr es, of now] by (simp add: result_of_def)
        have "he_id (hd es) \<in> dom (map_of (hs_objects h))"
          using False history_list_refs[OF assms(1) es] store_okD(4)[OF assms(2)] by (cases es) auto
        then show ?thesis using keep False Inr e by blast
      qed
    qed
  qed
  then obtain data where "map_of (hs_vault h) rel = Some (Regular data)" "he_id e = content_id L data"
    "he_id e \<in> dom (map_of (hs_objects (final_of (take_snapshot L now rel0) h)))"
    unfolding read_file_Inr by blast
  then show thesis by (rule that[OF rel])
qed

lemma keeping_write_back [keeps]: "keeping (store_ok L) (write_back rel data)"
  by (auto simp: keeping_def write_back_def split: option.splits)

lemma write_back_grows [ends]: "ending grows (write_back rel data)"
  by (auto simp: ending_def final_of_def write_back_def grows_def split: option.split)

lemma keeping_restore [keeps]: "history_lib_ok L \<Longrightarrow> keeping (store_ok L) (restore_snapshot L now rel0 i)"
  by (auto simp: restore_snapshot_def split: option.split intro!: keeps)

lemma restore_grows [ends]: "ending grows (restore_snapshot L now rel0 i)"
  by (auto simp: restore_snapshot_def split: option.split intro!: ends grows_order)

section \<open>Checkpoints keep their blobs\<close>

lemma load_checkpoint_refs: "load_checkpoint t h = Inr cp \<Longrightarrow> set (checkpoint_ids cp) \<subseteq> doc_refs (hs_checkpoints h)"
proof
  fix i assume cp: "load_checkpoint t h = Inr cp" and i: "i \<in> set (checkpoint_ids cp)"
  obtain d where d: "map_of (hs_checkpoints h) (t @ json_suffix) = Some d" "doc_checkpoint d = Some cp"
    using cp by (auto simp: load_checkpoint_def split: if_splits option.splits)
  show "i \<in> doc_refs (hs_checkpoints h)"
  proof (cases d)
    case (CheckpointDoc b cp')
    then show ?thesis using d i unfolding doc_refs_def by auto
  qed (use d i in \<open>auto simp: zero_checkpoint_def checkpoint_ids_def\<close>)
qed

lemma save_checkpoint_writes:
  assumes "store_ok L h" and "set (checkpoint_ids cp) \<subseteq> dom (map_of (hs_objects h))"
  shows "writes_ok (store_ok L) (save_checkpoint cp) h"
  using store_ok_put_doc[OF assms] by (simp add: save_checkpoint_def)

lemma save_checkpoint_frame:
  "hs_objects (final_of (save_checkpoint cp) h) = hs_objects h"
  "hs_vault (final_of (save_checkpoint cp) h) = hs_vault h"
  "hs_manifests (final_of (save_checkpoint cp) h) = hs_manifests h"
  by (simp_all add: save_checkpoint_def)

lemma begin_checkpoint_final:
  "final_of (begin_checkpoint now t) h =
     (if load_checkpoint t h = Inl NoCheckpoint
      then final_of (save_checkpoint \<lparr>tc_task = t, tc_time = now, tc_files = [], tc_new = [], tc_skipped = []\<rparr>) h else h)"
  by (cases "load_checkpoint t h")
    (auto simp: begin_checkpoint_def final_of_def Let_def andthen_def act_runs split: prod.split sum.split)

lemma begin_checkpoint_frame:
  "hs_objects (final_of (begin_checkpoint now t) h) = hs_objects h"
  "hs_vault (final_of (begin_checkpoint now t) h) = hs_vault h"
  "hs_manifests (final_of (begin_checkpoint now t) h) = hs_manifests h"
  by (simp_all add: begin_checkpoint_final save_checkpoint_frame)

lemma keeping_begin [keeps]: "keeping (store_ok L) (begin_checkpoint now t)"
proof (rule keepingI)
  fix h assume h: "store_ok L h"
  let ?cp = "\<lparr>tc_task = t, tc_time = now, tc_files = [], tc_new = [], tc_skipped = []\<rparr>"
  have "writes_ok (store_ok L) (andthen (save_checkpoint ?cp) (\<lambda>_. ret ?cp)) h"
    using save_checkpoint_writes[OF h, of ?cp] by (intro writes_andthen) (simp_all add: checkpoint_ids_def)
  then show "writes_ok (store_ok L) (begin_checkpoint now t) h"
    by (simp add: writes_ok_def begin_checkpoint_def Let_def split: sum.split)
qed

lemma begin_checkpoint_result:
  assumes "store_ok L h" and "result_of (begin_checkpoint now t) h = Inr cp"
  shows "set (checkpoint_ids cp) \<subseteq> dom (map_of (hs_objects h))"
proof (cases "load_checkpoint t h")
  case (Inl e)
  then have "checkpoint_ids cp = []"
    using assms(2)
    by (auto simp: begin_checkpoint_def result_of_def Let_def andthen_def act_runs checkpoint_ids_def
        split: if_splits sum.splits prod.splits)
  then show ?thesis by simp
next
  case (Inr cp')
  then have "cp' = cp" using assms(2) by (simp add: begin_checkpoint_def result_of_def)
  then show ?thesis using load_checkpoint_refs[OF Inr] store_okD(5)[OF assms(1)] by blast
qed

lemma record_path_ids: "set (checkpoint_ids (record_path rel r cp)) \<subseteq> set (checkpoint_ids cp) \<union> {he_id e | e. r = Inr (Some e)}"
  by (auto simp: record_path_def checkpoint_ids_def split: sum.splits option.splits)

lemma grows_dom: "grows h h' \<Longrightarrow> dom (map_of (hs_objects h)) \<subseteq> dom (map_of (hs_objects h'))"
  unfolding grows_def by blast

lemma checkpoint_path_writes:
  assumes L: "history_lib_ok L" and h: "store_ok L h" and ids: "set (checkpoint_ids cp) \<subseteq> dom (map_of (hs_objects h))"
  shows "writes_ok (store_ok L) (andthen (caught (take_snapshot L now rel)) (\<lambda>r.
      andthen (save_checkpoint (record_path rel r cp)) (\<lambda>_. ret (record_path rel r cp)))) h"
proof (intro writes_andthen)
  fix r
  assume "result_of (caught (take_snapshot L now rel)) h = Inr r"
  then have r: "r = result_of (take_snapshot L now rel) h" by simp
  let ?h = "final_of (take_snapshot L now rel) h"
  have ok: "store_ok L ?h" using keeping_final[OF keeping_take_snapshot[OF L] h] .
  have "set (checkpoint_ids (record_path rel r cp)) \<subseteq> dom (map_of (hs_objects ?h))"
  proof
    fix i assume "i \<in> set (checkpoint_ids (record_path rel r cp))"
    then consider "i \<in> set (checkpoint_ids cp)" | e where "r = Inr (Some e)" "i = he_id e"
      using record_path_ids[of rel r cp] by blast
    then show "i \<in> dom (map_of (hs_objects ?h))"
    proof cases
      case 1
      then show ?thesis using ids grows_dom[OF endingD[OF take_snapshot_grows]] by blast
    next
      case 2
      then show ?thesis using r by (metis take_snapshot_result[OF L h])
    qed
  qed
  from save_checkpoint_writes[OF ok this]
  show "writes_ok (store_ok L) (save_checkpoint (record_path rel r cp)) (final_of (caught (take_snapshot L now rel)) h)"
    by simp
qed (use writes_of_keeping[OF keeping_take_snapshot[OF L] h] in simp_all)

lemma keeping_checkpoint_path [keeps]:
  assumes "history_lib_ok L"
  shows "keeping (store_ok L) (checkpoint_path L now t rel0)"
  unfolding checkpoint_path_def
proof (intro keepingI writes_andthen writes_of_keeping[OF keeping_begin])
  fix cp h
  assume h: "store_ok L h" and cp: "result_of (begin_checkpoint now t) h = Inr cp"
  let ?h = "final_of (begin_checkpoint now t) h"
  have ok: "store_ok L ?h" using keeping_final[OF keeping_begin h] .
  have ids: "set (checkpoint_ids cp) \<subseteq> dom (map_of (hs_objects ?h))"
    using begin_checkpoint_result[OF h cp] by (simp add: begin_checkpoint_frame)
  show "writes_ok (store_ok L) (case clean_path rel0 of None \<Rightarrow> raise InvalidPath
      | Some rel \<Rightarrow> if tracks cp rel then ret cp
          else andthen (caught (take_snapshot L now rel)) (\<lambda>r.
            andthen (save_checkpoint (record_path rel r cp)) (\<lambda>_. ret (record_path rel r cp)))) ?h"
    using checkpoint_path_writes[OF assms ok ids] by (simp split: option.split)
qed

lemma keeping_restore_files [keeps]: "history_lib_ok L \<Longrightarrow> keeping (store_ok L) (restore_files L now fs)"
  by (induction fs) (auto intro!: keeps)

lemma restore_files_grows [ends]: "ending grows (restore_files L now fs)"
  by (induction fs) (auto intro!: ends grows_order)

lemma keeping_remove_new [keeps]: "keeping (store_ok L) (remove_new rel)"
  by (auto simp: keeping_def remove_new_def andthen_def act_runs split: sum.splits file_error.splits)

lemma remove_new_grows [ends]: "ending grows (remove_new rel)"
  by (auto simp: ending_def final_of_def remove_new_def andthen_def act_runs grows_def split: sum.split file_error.split)

lemma keeping_remove_news [keeps]: "keeping (store_ok L) (remove_news rels)"
  by (induction rels) (auto intro!: keeps)

lemma remove_news_grows [ends]: "ending grows (remove_news rels)"
  by (induction rels) (auto intro!: ends grows_order)

lemma keeping_undo [keeps]:
  assumes L: "history_lib_ok L"
  shows "keeping (store_ok L) (undo_checkpoint L now t)"
proof (rule keepingI)
  fix h assume h: "store_ok L h"
  have "writes_ok (store_ok L) (andthen (restore_files L now (tc_files cp)) (\<lambda>failed.
         andthen (remove_news (tc_new cp)) (\<lambda>failed'.
         let cp' = cp\<lparr>tc_skipped := tc_skipped cp @ failed @ failed'\<rparr> in
         andthen (save_checkpoint cp') (\<lambda>_. ret cp')))) h"
    if cp: "load_checkpoint t h = Inr cp" for cp
    unfolding Let_def
  proof (intro writes_andthen)
    fix failed failed'
    let ?cp = "cp\<lparr>tc_skipped := tc_skipped cp @ failed @ failed'\<rparr>"
    let ?h1 = "final_of (restore_files L now (tc_files cp)) h"
    let ?h2 = "final_of (remove_news (tc_new cp)) ?h1"
    have ok: "store_ok L ?h1" "store_ok L ?h2"
      using keeping_final[OF keeping_restore_files[OF L] h] keeping_final[OF keeping_remove_news] by blast+
    have "grows h ?h2"
      by (rule transpD[OF grows_order(2) endingD[OF restore_files_grows] endingD[OF remove_news_grows]])
    then have "dom (map_of (hs_objects h)) \<subseteq> dom (map_of (hs_objects ?h2))" by (rule grows_dom)
    moreover have "checkpoint_ids ?cp = checkpoint_ids cp" by (simp add: checkpoint_ids_def)
    ultimately have "set (checkpoint_ids ?cp) \<subseteq> dom (map_of (hs_objects ?h2))"
      using load_checkpoint_refs[OF cp] store_okD(5)[OF h] by simp
    then show "writes_ok (store_ok L) (save_checkpoint ?cp) ?h2" by (rule save_checkpoint_writes[OF ok(2)])
    show "writes_ok (store_ok L) (remove_news (tc_new cp)) ?h1" using writes_of_keeping[OF keeping_remove_news ok(1)] .
  qed (use writes_of_keeping[OF keeping_restore_files[OF L] h] in simp_all)
  then show "writes_ok (store_ok L) (undo_checkpoint L now t) h"
    unfolding undo_checkpoint_def by (intro writes_andthen) auto
qed

end
