(* ===== verification/History_Safety.thy ===== *)
theory History_Safety
  imports History_Store
begin

text \<open>
  Pruning, purging and undoing over the invariant of \<open>History_Store\<close>: what the collection of blobs
  leaves, the states that operations cut off after any write can reach, and the properties of the
  version history.
\<close>

section \<open>The snapshots that pruning keeps\<close>

lemma keep_loop_set: "set (keep_loop most cutoff first k es) \<subseteq> set es"
  by (induction most cutoff first k es rule: keep_loop.induct) auto

lemma keep_loop_length: "most > 0 \<Longrightarrow> int k \<le> most \<Longrightarrow> int (k + length (keep_loop most cutoff first k es)) \<le> most"
  by (induction most cutoff first k es rule: keep_loop.induct) auto

lemma keep_loop_dropped:
  "e \<in> set es \<Longrightarrow> e \<notin> set (keep_loop most cutoff first k es) \<Longrightarrow>
     cutoff \<noteq> zero_time \<and> he_time e < cutoff \<or>
     most > 0 \<and> int (k + length (keep_loop most cutoff first k es)) \<ge> most"
  by (induction most cutoff first k es rule: keep_loop.induct) (auto split: if_splits)

lemma kept_entries_hd: "kept_entries most cutoff (e # es) = e # keep_loop most cutoff False 1 es"
  by (auto simp: kept_entries_def)

lemma keep_loop_le: "length (keep_loop most cutoff first k es) \<le> length es"
  by (induction most cutoff first k es rule: keep_loop.induct) auto

lemma keep_loop_all: "length (keep_loop most cutoff first k es) = length es \<Longrightarrow> keep_loop most cutoff first k es = es"
proof (induction most cutoff first k es rule: keep_loop.induct)
  case (2 most cutoff first k e es)
  then show ?case using keep_loop_le[of most cutoff False k es] by (auto split: if_splits)
qed simp

lemma kept_entries_facts:
  "set (kept_entries most cutoff es) \<subseteq> set es"
  "es \<noteq> [] \<Longrightarrow> hd es \<in> set (kept_entries most cutoff es)"
  "kept_entries most cutoff es = [] \<longleftrightarrow> es = []"
  "most > 0 \<Longrightarrow> int (length (kept_entries most cutoff es)) \<le> most"
  "e \<in> set es \<Longrightarrow> e \<notin> set (kept_entries most cutoff es) \<Longrightarrow>
     cutoff \<noteq> zero_time \<and> he_time e < cutoff \<or> most > 0 \<and> int (length (kept_entries most cutoff es)) \<ge> most"
proof -
  show "set (kept_entries most cutoff es) \<subseteq> set es" unfolding kept_entries_def by (rule keep_loop_set)
  show "es \<noteq> [] \<Longrightarrow> hd es \<in> set (kept_entries most cutoff es)" "kept_entries most cutoff es = [] \<longleftrightarrow> es = []"
    by (cases es; simp add: kept_entries_hd; simp add: kept_entries_def)+
  show "most > 0 \<Longrightarrow> int (length (kept_entries most cutoff es)) \<le> most"
    using keep_loop_length[of most 0 cutoff True es] by (simp add: kept_entries_def)
  show "e \<in> set es \<Longrightarrow> e \<notin> set (kept_entries most cutoff es) \<Longrightarrow>
     cutoff \<noteq> zero_time \<and> he_time e < cutoff \<or> most > 0 \<and> int (length (kept_entries most cutoff es)) \<ge> most"
    using keep_loop_dropped[of e es most cutoff True 0] by (simp add: kept_entries_def)
qed


section \<open>Pruning\<close>

definition pruned :: "history_lib \<Rightarrow> int \<Rightarrow> int \<Rightarrow> manifest_file \<Rightarrow> manifest_file" where
  "pruned L most cutoff m =
     (case m of
        Manifest es \<Rightarrow>
          let sorted = hl_sort L (\<lambda>e. - he_time e) es; kept = kept_entries most cutoff sorted
          in if length kept = length sorted then Manifest es else Manifest kept
      | _ \<Rightarrow> m)"

definition manifest_name :: "string \<Rightarrow> bool" where
  "manifest_name n \<longleftrightarrow> (\<exists>r. clean_path r = Some r \<and> n = r @ json_suffix)"

lemma manifests_ok_names: "manifests_ok ms \<longleftrightarrow> distinct (map fst ms) \<and> (\<forall>n \<in> set (map fst ms). manifest_name n)"
  by (simp add: manifests_ok_def manifest_name_def)

text \<open>One manifest of the walk.\<close>

definition prune_one :: "history_lib \<Rightarrow> int \<Rightarrow> int \<Rightarrow> string \<Rightarrow> (nat \<times> string list) hist_act" where
  "prune_one L most cutoff name =
     andthen (look (history_list L (trim_suffix name json_suffix))) (\<lambda>es.
       let kept = kept_entries most cutoff es in
       andthen (if length kept = length es then ret ()
                else if kept = [] then put (hs_manifests_update (AList.delete name))
                else write_manifest (trim_suffix name json_suffix) kept) (\<lambda>_.
       ret (length es - length kept, map he_id kept)))"

lemma prune_manifests_Cons:
  assumes "has_suffix name json_suffix" and "result_of (prune_manifests L most cutoff (name # names)) h = Inr (k, ids)"
  obtains k1 ids1 k2 ids2 where "result_of (prune_one L most cutoff name) h = Inr (k1, ids1)"
    "result_of (prune_manifests L most cutoff names) (final_of (prune_one L most cutoff name) h) = Inr (k2, ids2)"
    "k = k1 + k2" "ids = ids1 @ ids2"
    "final_of (prune_manifests L most cutoff (name # names)) h =
       final_of (prune_manifests L most cutoff names) (final_of (prune_one L most cutoff name) h)"
  using assms that
  by (auto simp: prune_one_def result_andthen final_andthen bind_err_Inr Let_def split: if_splits)

lemma prune_one_effect:
  assumes L: "history_lib_ok L" and n: "manifest_name n" and r: "result_of (prune_one L most cutoff n) h = Inr (k, ids)"
  shows "\<exists>ms. final_of (prune_one L most cutoff n) h = h\<lparr>hs_manifests := ms\<rparr> \<and>
      map_of ms = (\<lambda>m. if m = n then map_option (pruned L most cutoff) (map_of (hs_manifests h) n) else map_of (hs_manifests h) m) \<and>
      set ids = (case map_of ms n of Some (Manifest es) \<Rightarrow> he_id ` set es | _ \<Rightarrow> {})"
proof -
  obtain p where p: "clean_path p = Some p" "n = p @ json_suffix" using n by (auto simp: manifest_name_def)
  obtain es where es: "history_list L p h = Inr es" using r p by (auto simp: prune_one_def result_andthen bind_err_Inr)
  let ?kept = "kept_entries most cutoff es"
  have ids: "ids = map he_id ?kept" using r es p by (auto simp: prune_one_def result_andthen bind_err_Inr Let_def split: if_splits)
  have fin: "final_of (prune_one L most cutoff n) h = (if length ?kept = length es then h else manifest_put p ?kept h)"
    using es p kept_entries_facts(3)[of most cutoff es]
    by (auto simp: prune_one_def final_andthen Let_def write_manifest_clean split: sum.splits)
  have sets: "set (hl_sort L f xs) = set xs" "length (hl_sort L f xs) = length xs" for f xs
    using L sort_ok_set sort_ok_length by (auto simp: history_lib_ok_def)
  consider (none) "map_of (hs_manifests h) n = None \<or> map_of (hs_manifests h) n = Some NullManifest" "es = []"
    | (some) xs where "map_of (hs_manifests h) n = Some (Manifest xs)" "es = hl_sort L (\<lambda>e. - he_time e) xs"
    using es p by (auto simp: history_list_def split: option.splits manifest_file.splits)
  then show ?thesis
  proof cases
    case none
    then have "map_of (hs_manifests h) = (\<lambda>m. if m = n then map_option (pruned L most cutoff) (map_of (hs_manifests h) n) else map_of (hs_manifests h) m)"
      by (auto simp: pruned_def)
    moreover have "ids = []" "length ?kept = length es" using ids none by (simp_all add: kept_entries_def)
    ultimately show ?thesis using fin none(1) by (intro exI[of _ "hs_manifests h"]) (auto split: option.split)
  next
    case some
    show ?thesis
    proof (cases "length ?kept = length es")
      case True
      have "?kept = es" using True keep_loop_all unfolding kept_entries_def by blast
      moreover have "map_of (hs_manifests h) = (\<lambda>m. if m = n then map_option (pruned L most cutoff) (map_of (hs_manifests h) n) else map_of (hs_manifests h) m)"
        using True some by (auto simp: pruned_def Let_def)
      ultimately show ?thesis using fin True some ids sets(1) by (intro exI[of _ "hs_manifests h"]) auto
    next
      case False
      then show ?thesis using fin some ids p(2)
        by (intro exI[of _ "AList.update n (Manifest ?kept) (hs_manifests h)"])
          (auto simp: manifest_put_def update_conv' pruned_def Let_def fun_eq_iff)
    qed
  qed
qed


lemma prune_manifests_effect:
  assumes L: "history_lib_ok L" and "list_all manifest_name names" and "distinct names"
    and "result_of (prune_manifests L most cutoff names) h = Inr (k, ids)"
  shows "\<exists>ms. final_of (prune_manifests L most cutoff names) h = h\<lparr>hs_manifests := ms\<rparr> \<and>
      map_of ms = (\<lambda>m. if m \<in> set names then map_option (pruned L most cutoff) (map_of (hs_manifests h) m) else map_of (hs_manifests h) m) \<and>
      set ids = {he_id e | m es e. m \<in> set names \<and> map_of ms m = Some (Manifest es) \<and> e \<in> set es}"
  using assms(2-4)
proof (induction names arbitrary: h k ids)
  case Nil
  then show ?case by (intro exI[of _ "hs_manifests h"]) simp
next
  case (Cons n names)
  have n: "manifest_name n" "has_suffix n json_suffix" using Cons.prems(1) by (auto simp: manifest_name_def)
  obtain k1 ids1 k2 ids2 where one: "result_of (prune_one L most cutoff n) h = Inr (k1, ids1)"
    and rest: "result_of (prune_manifests L most cutoff names) (final_of (prune_one L most cutoff n) h) = Inr (k2, ids2)"
    and eq: "ids = ids1 @ ids2" "final_of (prune_manifests L most cutoff (n # names)) h =
       final_of (prune_manifests L most cutoff names) (final_of (prune_one L most cutoff n) h)"
    using prune_manifests_Cons[OF n(2) Cons.prems(3)] by metis
  obtain ms1 where ms1: "final_of (prune_one L most cutoff n) h = h\<lparr>hs_manifests := ms1\<rparr>"
    "map_of ms1 = (\<lambda>m. if m = n then map_option (pruned L most cutoff) (map_of (hs_manifests h) n) else map_of (hs_manifests h) m)"
    "set ids1 = (case map_of ms1 n of Some (Manifest es) \<Rightarrow> he_id ` set es | _ \<Rightarrow> {})"
    using prune_one_effect[OF L n(1) one] by blast
  have "list_all manifest_name names" "distinct names" using Cons.prems(1,2) by simp_all
  from Cons.IH[OF this rest[unfolded ms1(1)]]
  obtain ms where ms: "final_of (prune_manifests L most cutoff names) (h\<lparr>hs_manifests := ms1\<rparr>) = h\<lparr>hs_manifests := ms\<rparr>"
    "map_of ms = (\<lambda>m. if m \<in> set names then map_option (pruned L most cutoff) (map_of ms1 m) else map_of ms1 m)"
    "set ids2 = {he_id e | m es e. m \<in> set names \<and> map_of ms m = Some (Manifest es) \<and> e \<in> set es}"
    by (auto cong: if_cong)
  have out: "n \<notin> set names" using Cons.prems(2) by simp
  have "map_of ms = (\<lambda>m. if m \<in> set (n # names) then map_option (pruned L most cutoff) (map_of (hs_manifests h) m) else map_of (hs_manifests h) m)"
    using ms(2) ms1(2) out by auto
  moreover have "set ids1 = {he_id e | es e. map_of ms n = Some (Manifest es) \<and> e \<in> set es}"
    using ms1(3) ms(2) out by (auto split: option.splits manifest_file.splits)
  then have "set ids = {he_id e | m es e. m \<in> set (n # names) \<and> map_of ms m = Some (Manifest es) \<and> e \<in> set es}"
    using eq(1) ms(3) by auto
  ultimately show ?case using eq(2) ms1(1) ms(1) by (intro exI[of _ ms]) simp
qed

text \<open>Deleting checkpoints.\<close>

lemma prune_checkpoints_frame:
  "hs_vault (final_of (prune_checkpoints cutoff cps) h) = hs_vault h \<and>
   hs_objects (final_of (prune_checkpoints cutoff cps) h) = hs_objects h \<and>
   hs_manifests (final_of (prune_checkpoints cutoff cps) h) = hs_manifests h \<and>
   map_of (hs_checkpoints (final_of (prune_checkpoints cutoff cps) h)) \<subseteq>\<^sub>m map_of (hs_checkpoints h)"
proof (induction cps arbitrary: h)
  case (Cons cp cps)
  have "map_of (AList.delete n xs) \<subseteq>\<^sub>m map_of xs" for n and xs :: "(string \<times> checkpoint_doc) list"
    by (simp add: delete_conv' map_le_def)
  then show ?case using Cons[of h] Cons[of "hs_checkpoints_update (AList.delete (tc_task cp @ json_suffix)) h"]
    by (auto simp: final_andthen split: sum.split intro: map_le_trans)
qed simp

lemma keeping_prune_checkpoints [keeps]: "keeping (store_ok L) (prune_checkpoints cutoff cps)"
  by (induction cps) (auto intro!: keeps keeping_put store_ok_delete_doc)

lemma keeping_prune_manifests [keeps]:
  assumes L: "history_lib_ok L"
  shows "keeping (store_ok L) (prune_manifests L most cutoff names)"
proof (induction names)
  case (Cons name names)
  show ?case
  proof (rule keepingI)
    fix h assume h: "store_ok L h"
    let ?rel = "trim_suffix name json_suffix"
    let ?step = "\<lambda>es. if length (kept_entries most cutoff es) = length es then ret ()
           else if kept_entries most cutoff es = [] then put (hs_manifests_update (AList.delete name))
           else write_manifest ?rel (kept_entries most cutoff es)"
    have step: "writes_ok (store_ok L) (?step es) h" if es: "history_list L ?rel h = Inr es" for es
    proof -
      have "he_id ` set (kept_entries most cutoff es) \<subseteq> dom (map_of (hs_objects h))"
        using history_list_refs[OF L es] store_okD(4)[OF h] kept_entries_facts(1)[of most cutoff es] by blast
      then show ?thesis
        using store_ok_put_manifest[OF h clean_path_idem] store_ok_delete_manifest[OF h]
        by (auto simp: write_manifest_def split: option.split)
    qed
    have "writes_ok (store_ok L) (andthen (?step es) (\<lambda>_.
        andthen (prune_manifests L most cutoff names) (\<lambda>(n, ids).
        ret (length es - length (kept_entries most cutoff es) + n, map he_id (kept_entries most cutoff es) @ ids)))) h"
      if es: "history_list L ?rel h = Inr es" for es
      using writes_of_keeping[OF Cons writes_final[OF step[OF es] h]]
      by (intro writes_andthen step[OF es]) (simp_all add: split_beta)
    then show "writes_ok (store_ok L) (prune_manifests L most cutoff (name # names)) h"
      using writes_of_keeping[OF Cons h]
      by (cases "has_suffix name json_suffix") (auto simp: Let_def intro: writes_andthen[OF writes_simps(3)])
  qed
qed (simp add: keeping_reads)

section \<open>Collecting blobs\<close>

lemma objects_delete_eq: "hs_objects_update (AList.delete n) h = h\<lparr>hs_objects := AList.delete n (hs_objects h)\<rparr>"
  by (cases h) simp

definition collect_one :: "string list \<Rightarrow> string \<times> vault_file \<Rightarrow> unit hist_act" where
  "collect_one refs = (\<lambda>(n, f). if f = Directory \<or> List.member refs n then ret ()
                               else put (hs_objects_update (AList.delete n)))"

lemma collect_objects_each: "collect_objects refs h = each (collect_one refs) (hs_objects h) h"
  by (simp add: collect_objects_def collect_one_def)

lemma collect_each:
  "result_of (each (collect_one refs) xs) h = Inr () \<and>
   (\<exists>os. final_of (each (collect_one refs) xs) h = h\<lparr>hs_objects := os\<rparr> \<and>
     map_of os = (\<lambda>m. if \<exists>f. (m, f) \<in> set xs \<and> f \<noteq> Directory \<and> m \<notin> set refs then None else map_of (hs_objects h) m))"
  (is "_ \<and> (\<exists>os. ?P xs h os)")
proof (induction xs arbitrary: h)
  case Nil
  then show ?case by (auto intro!: exI[of _ "hs_objects h"])
next
  case (Cons x xs)
  obtain n f where x: "x = (n, f)" by (cases x)
  define os1 where "os1 = (if f = Directory \<or> n \<in> set refs then hs_objects h else AList.delete n (hs_objects h))"
  have one: "result_of (collect_one refs x) h = Inr ()" "final_of (collect_one refs x) h = h\<lparr>hs_objects := os1\<rparr>"
    by (simp_all add: x os1_def objects_delete_eq collect_one_def)
  obtain os where os: "?P xs (h\<lparr>hs_objects := os1\<rparr>) os" using Cons by blast
  then have "final_of (each (collect_one refs) (x # xs)) h = h\<lparr>hs_objects := os\<rparr>"
    by (simp add: andthen_ok(2)[OF one(1)] one(2))
  moreover have "map_of os = (\<lambda>m. if \<exists>f. (m, f) \<in> set (x # xs) \<and> f \<noteq> Directory \<and> m \<notin> set refs then None else map_of (hs_objects h) m)"
    using os by (auto simp: x os1_def delete_conv' fun_eq_iff)
  moreover have "result_of (each (collect_one refs) (x # xs)) h = Inr ()"
    using Cons[of "h\<lparr>hs_objects := os1\<rparr>"] by (simp add: andthen_ok(1)[OF one(1)] one(2))
  ultimately show ?case by blast
qed

lemma collect_objects_effect:
  assumes "objects_ok L (hs_objects h)"
  shows "result_of (collect_objects refs) h = Inr () \<and> (\<exists>os. final_of (collect_objects refs) h = h\<lparr>hs_objects := os\<rparr> \<and>
      map_of os = map_of (hs_objects h) |` set refs)"
proof -
  have reg: "f \<noteq> Directory" "map_of (hs_objects h) m = Some f" if "(m, f) \<in> set (hs_objects h)" for m f
    using assms that unfolding objects_ok_def by (metis map_of_eq_Some_iff vault_file.distinct(1))+
  obtain os where r: "result_of (collect_objects refs) h = Inr ()" "final_of (collect_objects refs) h = h\<lparr>hs_objects := os\<rparr>"
    and os: "map_of os = (\<lambda>m. if \<exists>f. (m, f) \<in> set (hs_objects h) \<and> f \<noteq> Directory \<and> m \<notin> set refs then None else map_of (hs_objects h) m)"
    using collect_each[of refs "hs_objects h" h] by (auto simp: collect_objects_each result_of_def final_of_def)
  have "map_of os m = (map_of (hs_objects h) |` set refs) m" for m
    using reg by (cases "map_of (hs_objects h) m") (auto simp: os restrict_map_def dest: map_of_SomeD)
  then show ?thesis using r by blast
qed

lemma collect_objects_writes:
  assumes "store_ok L h" and "snapshot_refs h \<subseteq> set refs"
  shows "writes_ok (store_ok L) (collect_objects refs) h"
proof -
  let ?I = "\<lambda>h. store_ok L h \<and> snapshot_refs h \<subseteq> set refs"
  have "snapshot_refs (hs_objects_update g s) = snapshot_refs s" for g s by (simp add: snapshot_refs_def)
  then have "keeping ?I (put (hs_objects_update (AList.delete n)) :: unit hist_act)" if "n \<notin> set refs" for n
    using that by (intro keeping_put) (auto intro: store_ok_delete_object)
  then have "keeping ?I (collect_one refs x)" for x
    by (cases x) (simp add: collect_one_def keeping_reads)
  then have "keeping ?I (each (collect_one refs) (hs_objects h))"
    by (rule keeping_each)
  then show ?thesis using assms unfolding keeping_def writes_ok_def collect_objects_each by blast
qed

definition doc_list :: "string \<times> checkpoint_doc \<Rightarrow> task_checkpoint list" where
  "doc_list = (\<lambda>(n, d). if has_suffix n json_suffix then (case doc_checkpoint d of None \<Rightarrow> [] | Some cp \<Rightarrow> [cp]) else [])"

lemma set_doc_list: "cp \<in> set (doc_list (n, d)) \<longleftrightarrow> has_suffix n json_suffix \<and> doc_checkpoint d = Some cp"
proof (cases "has_suffix n json_suffix")
  case True
  then have "doc_list (n, d) = (case doc_checkpoint d of None \<Rightarrow> [] | Some cp \<Rightarrow> [cp])" by (simp only: doc_list_def prod.case if_True)
  moreover have "cp \<in> set \<dots> \<longleftrightarrow> doc_checkpoint d = Some cp" by (cases "doc_checkpoint d") auto
  ultimately show ?thesis using True by (simp only: simp_thms)
qed (simp only: doc_list_def prod.case if_False list.set simp_thms empty_iff)

lemma set_checkpoint_docs: "cp \<in> set (checkpoint_docs ds) \<longleftrightarrow> (\<exists>n d. (n, d) \<in> set ds \<and> has_suffix n json_suffix \<and> doc_checkpoint d = Some cp)"
proof -
  have "checkpoint_docs ds = concat (map doc_list ds)" by (simp only: checkpoint_docs_def doc_list_def)
  then show ?thesis using set_doc_list by force
qed

lemma listed_checkpoint_refs:
  assumes "history_lib_ok L" and "docs_ok (hs_checkpoints h)"
  shows "set (concat (map checkpoint_ids (list_checkpoints L h))) = doc_refs (hs_checkpoints h)"
proof -
  have s: "set (hl_sort_checkpoints L k xs) = set xs" for k xs
    using assms(1) sort_ok_set by (auto simp: history_lib_ok_def)
  have listed: "cp \<in> set (list_checkpoints L h) \<longleftrightarrow>
      (\<exists>n d. (n, d) \<in> set (hs_checkpoints h) \<and> has_suffix n json_suffix \<and> doc_checkpoint d = Some cp)" for cp
    by (simp add: list_checkpoints_def s set_checkpoint_docs)
  show ?thesis
  proof (intro equalityI subsetI)
    fix i assume "i \<in> set (concat (map checkpoint_ids (list_checkpoints L h)))"
    then obtain n d cp where m: "(n, d) \<in> set (hs_checkpoints h)" "doc_checkpoint d = Some cp" "i \<in> set (checkpoint_ids cp)"
      using listed by auto
    then obtain b where "d = CheckpointDoc b cp" by (cases d) (auto simp: zero_checkpoint_def checkpoint_ids_def)
    moreover have "map_of (hs_checkpoints h) n = Some d" using m(1) assms(2) by (simp add: docs_ok_def)
    ultimately show "i \<in> doc_refs (hs_checkpoints h)" using m(3) unfolding doc_refs_def by blast
  next
    fix i assume "i \<in> doc_refs (hs_checkpoints h)"
    then obtain n b cp where n: "map_of (hs_checkpoints h) n = Some (CheckpointDoc b cp)" "i \<in> set (checkpoint_ids cp)"
      unfolding doc_refs_def by fast
    have "(n, CheckpointDoc b cp) \<in> set (hs_checkpoints h)" using n(1) by (rule map_of_SomeD)
    moreover from this have "has_suffix n json_suffix" using assms(2) by (force simp: docs_ok_def)
    ultimately have "cp \<in> set (list_checkpoints L h)" unfolding listed by (intro exI[of _ n] exI[of _ "CheckpointDoc b cp"]) simp
    then show "i \<in> set (concat (map checkpoint_ids (list_checkpoints L h)))" using n(2) by auto
  qed
qed


section \<open>The whole of a pruning\<close>

definition prune_cutoff :: "int \<Rightarrow> hist_policy \<Rightarrow> int" where
  "prune_cutoff now pol = (if hp_max_age pol > 0 then now - hp_max_age pol else zero_time)"

definition prune_old_checkpoints :: "history_lib \<Rightarrow> int \<Rightarrow> hist_policy \<Rightarrow> nat hist_act" where
  "prune_old_checkpoints L now pol =
     (if hp_max_checkpoint_age pol > 0
      then (\<lambda>h. prune_checkpoints (now - hp_max_checkpoint_age pol) (list_checkpoints L h) h) else ret 0)"

lemma prune_old_frame:
  "hs_vault (final_of (prune_old_checkpoints L now pol) h) = hs_vault h \<and>
   hs_objects (final_of (prune_old_checkpoints L now pol) h) = hs_objects h \<and>
   hs_manifests (final_of (prune_old_checkpoints L now pol) h) = hs_manifests h \<and>
   map_of (hs_checkpoints (final_of (prune_old_checkpoints L now pol) h)) \<subseteq>\<^sub>m map_of (hs_checkpoints h)"
proof -
  have "final_of (\<lambda>h. prune_checkpoints c (list_checkpoints L h) h) h = final_of (prune_checkpoints c (list_checkpoints L h)) h" for c
    by (simp add: final_of_def)
  then show ?thesis using prune_checkpoints_frame by (simp add: prune_old_checkpoints_def)
qed

lemma keeping_prune_old: "keeping (store_ok L) (prune_old_checkpoints L now pol)"
  using keeping_prune_checkpoints unfolding prune_old_checkpoints_def
  by (auto intro: keeps simp: keeping_iff writes_ok_def)

definition walk_manifests :: "history_lib \<Rightarrow> int \<Rightarrow> hist_policy \<Rightarrow> (nat \<times> string list) hist_act" where
  "walk_manifests L now pol =
     (\<lambda>h. prune_manifests L (hp_max_per_file pol) (prune_cutoff now pol) (map fst (hs_manifests h)) h)"

lemma prune_history_steps:
  "prune_history L now pol =
     andthen (prune_old_checkpoints L now pol) (\<lambda>n.
     andthen (look (\<lambda>h. Inr (concat (map checkpoint_ids (list_checkpoints L h))))) (\<lambda>refs.
     andthen (walk_manifests L now pol) (\<lambda>(k, ids).
     andthen (collect_objects (refs @ ids)) (\<lambda>_. ret (n + k)))))"
  by (simp add: prune_history_def prune_old_checkpoints_def prune_cutoff_def walk_manifests_def Let_def)

lemma walk_manifests_effect:
  assumes L: "history_lib_ok L" and h: "store_ok L h" and "result_of (walk_manifests L now pol) h = Inr (k, ids)"
  obtains ms where "final_of (walk_manifests L now pol) h = h\<lparr>hs_manifests := ms\<rparr>"
    "map_of ms = (\<lambda>m. map_option (pruned L (hp_max_per_file pol) (prune_cutoff now pol)) (map_of (hs_manifests h) m))"
    "set ids = manifest_refs ms"
proof -
  let ?f = "pruned L (hp_max_per_file pol) (prune_cutoff now pol)"
  have names: "list_all manifest_name (map fst (hs_manifests h))" "distinct (map fst (hs_manifests h))"
    using store_okD(2)[OF h] by (simp_all add: manifests_ok_names list_all_iff)
  have run: "result_of (walk_manifests L now pol) h = result_of (prune_manifests L (hp_max_per_file pol) (prune_cutoff now pol) (map fst (hs_manifests h))) h"
    "final_of (walk_manifests L now pol) h = final_of (prune_manifests L (hp_max_per_file pol) (prune_cutoff now pol) (map fst (hs_manifests h))) h"
    by (simp_all add: walk_manifests_def result_of_def final_of_def)
  obtain ms where ms: "final_of (walk_manifests L now pol) h = h\<lparr>hs_manifests := ms\<rparr>"
    "map_of ms = (\<lambda>m. if m \<in> set (map fst (hs_manifests h)) then map_option ?f (map_of (hs_manifests h) m) else map_of (hs_manifests h) m)"
    "set ids = {he_id e | m es e. m \<in> set (map fst (hs_manifests h)) \<and> map_of ms m = Some (Manifest es) \<and> e \<in> set es}"
    using prune_manifests_effect[OF L names] assms(3) unfolding run by blast
  have out: "map_of (hs_manifests h) m = None" if "m \<notin> set (map fst (hs_manifests h))" for m
    using that by (simp add: map_of_eq_None_iff)
  then have m: "map_of ms = (\<lambda>m. map_option ?f (map_of (hs_manifests h) m))"
    using ms(2) by (auto simp: fun_eq_iff)
  have "m \<in> set (map fst (hs_manifests h))" if "map_of ms m \<noteq> None" for m
    using that out m by (cases "m \<in> set (map fst (hs_manifests h))") auto
  then have "set ids = manifest_refs ms" unfolding ms(3) manifest_refs_def by (metis (lifting) option.distinct(1))
  then show thesis using that ms(1) m by blast
qed

lemma keeping_walk: "history_lib_ok L \<Longrightarrow> keeping (store_ok L) (walk_manifests L now pol)"
  using keeping_prune_manifests by (auto simp: walk_manifests_def keeping_iff writes_ok_def)

lemma snapshot_refs_manifests: "snapshot_refs (h\<lparr>hs_manifests := ms\<rparr>) = manifest_refs ms \<union> doc_refs (hs_checkpoints h)"
  by (simp add: snapshot_refs_def)

lemma keeping_prune [keeps]:
  assumes L: "history_lib_ok L"
  shows "keeping (store_ok L) (prune_history L now pol)"
  unfolding prune_history_steps
proof (intro keepingI writes_andthen writes_of_keeping[OF keeping_prune_old])
  fix h n refs r
  assume h: "store_ok L h"
  let ?h1 = "final_of (prune_old_checkpoints L now pol) h"
  assume "result_of (look (\<lambda>h. Inr (concat (map checkpoint_ids (list_checkpoints L h))))) ?h1 = Inr refs"
  then have refs: "refs = concat (map checkpoint_ids (list_checkpoints L ?h1))" by simp
  have ok: "store_ok L ?h1" using keeping_final[OF keeping_prune_old h] .
  let ?m = "look (\<lambda>h. Inr (concat (map checkpoint_ids (list_checkpoints L h)))) :: string list hist_act"
  have same: "final_of ?m ?h1 = ?h1" by simp
  show "writes_ok (store_ok L) (walk_manifests L now pol) (final_of ?m ?h1)"
    unfolding same by (rule writes_of_keeping[OF keeping_walk[OF L] ok])
  assume r: "result_of (walk_manifests L now pol) (final_of ?m ?h1) = Inr r"
  obtain k ids where r': "r = (k, ids)" by (cases r)
  obtain ms where ms: "final_of (walk_manifests L now pol) ?h1 = ?h1\<lparr>hs_manifests := ms\<rparr>" "set ids = manifest_refs ms"
    using walk_manifests_effect[OF L ok] r unfolding same r' by metis
  have "writes_ok (store_ok L) (collect_objects (refs @ ids)) (final_of (walk_manifests L now pol) ?h1)"
  proof (rule collect_objects_writes[OF keeping_final[OF keeping_walk[OF L] ok]])
    show "snapshot_refs (final_of (walk_manifests L now pol) ?h1) \<subseteq> set (refs @ ids)"
      using listed_checkpoint_refs[OF L store_okD(3)[OF ok]] ms by (simp add: snapshot_refs_manifests refs)
  qed
  then show "writes_ok (store_ok L) (case r of (k, ids) \<Rightarrow> andthen (collect_objects (refs @ ids)) (\<lambda>_. ret (n + k)))
      (final_of (walk_manifests L now pol) (final_of ?m ?h1))"
    unfolding r' same by (simp add: writes_andthen)
qed simp_all

section \<open>Purging paths\<close>

lemma verify_entries_Inr: "verify_entries L h es = Inr u \<Longrightarrow> list_all (\<lambda>e. verify_entry L h e = Inr ()) es"
  by (induction es) (auto simp: bind_err_Inr)

lemma strict_manifests_Inr:
  assumes "strict_manifests stray L h ms = Inr xs" and "\<forall>n \<in> set (map fst ms). has_suffix n json_suffix"
  shows "ms = map (\<lambda>(n, es). (n, Manifest es)) xs"
  using assms by (induction ms arbitrary: xs) (auto simp: bind_err_Inr split: manifest_file.splits)

text \<open>A checkpoint the strict reading accepts has its file's name, and is whole.\<close>

definition strict_doc :: "string \<times> task_checkpoint \<Rightarrow> bool" where
  "strict_doc = (\<lambda>(n, cp). valid_task_id (tc_task cp) \<and> n = tc_task cp @ json_suffix)"

lemma decode_checkpoint_Inr:
  "decode_checkpoint n d = Inr cp \<Longrightarrow> has_suffix n json_suffix \<Longrightarrow> d = CheckpointDoc False cp \<and> strict_doc (n, cp)"
  using has_suffix_trim[of n json_suffix, symmetric] by (auto simp: decode_checkpoint_def strict_doc_def split: checkpoint_doc.splits if_splits)

lemma strict_checkpoints_Inr:
  assumes "strict_checkpoints stray L h ds = Inr xs" and "\<forall>n \<in> set (map fst ds). has_suffix n json_suffix"
  shows "ds = map (\<lambda>(n, cp). (n, CheckpointDoc False cp)) xs \<and> list_all strict_doc xs"
  using assms
proof (induction ds arbitrary: xs)
  case (Cons x ds)
  obtain n d where x: "x = (n, d)" by (cases x)
  have "has_suffix n json_suffix" using Cons.prems(2) by (simp add: x)
  then obtain cp rest where r: "decode_checkpoint n d = Inr cp" "strict_checkpoints stray L h ds = Inr rest" "xs = (n, cp) # rest"
    using Cons.prems(1) by (auto simp: x bind_err_Inr)
  then show ?case using Cons.IH[OF r(2)] decode_checkpoint_Inr[OF r(1)] Cons.prems(2) x by simp
qed simp

definition gone :: "string list \<Rightarrow> string \<Rightarrow> bool" where
  "gone ts n \<longleftrightarrow> List.member ts (trim_suffix n json_suffix)"

lemma purge_manifests_effect:
  "result_of (each (purge_manifest ts) xs) h = Inr () \<and>
   (\<exists>ms. final_of (each (purge_manifest ts) xs) h = h\<lparr>hs_manifests := ms\<rparr> \<and>
     map_of ms = (\<lambda>m. if m \<in> fst ` set xs \<and> gone ts m then None else map_of (hs_manifests h) m))"
proof (induction xs arbitrary: h)
  case Nil
  then show ?case by (auto intro!: exI[of _ "hs_manifests h"])
next
  case (Cons x xs)
  obtain n es where x: "x = (n, es)" by (cases x)
  define ms1 where "ms1 = (if gone ts n then AList.delete n (hs_manifests h) else hs_manifests h)"
  have one: "result_of (purge_manifest ts x) h = Inr ()" "final_of (purge_manifest ts x) h = h\<lparr>hs_manifests := ms1\<rparr>"
    by (cases h; simp add: x purge_manifest_def gone_def ms1_def)+
  obtain ms where ms: "final_of (each (purge_manifest ts) xs) (h\<lparr>hs_manifests := ms1\<rparr>) = h\<lparr>hs_manifests := ms\<rparr>"
    "map_of ms = (\<lambda>m. if m \<in> fst ` set xs \<and> gone ts m then None else map_of ms1 m)"
    using Cons.IH[of "h\<lparr>hs_manifests := ms1\<rparr>"] by fastforce
  have "final_of (each (purge_manifest ts) (x # xs)) h = h\<lparr>hs_manifests := ms\<rparr>"
    by (simp add: andthen_ok(2)[OF one(1)] one(2) ms(1))
  moreover have "map_of ms = (\<lambda>m. if m \<in> fst ` set (x # xs) \<and> gone ts m then None else map_of (hs_manifests h) m)"
    using ms(2) by (auto simp: x ms1_def delete_conv' fun_eq_iff)
  moreover have "result_of (each (purge_manifest ts) (x # xs)) h = Inr ()"
    using Cons.IH[of "h\<lparr>hs_manifests := ms1\<rparr>"] by (simp add: andthen_ok(1)[OF one(1)] one(2))
  ultimately show ?case by blast
qed

text \<open>What a purge makes of one checkpoint.\<close>

definition purged_doc :: "string list \<Rightarrow> task_checkpoint \<Rightarrow> checkpoint_doc option" where
  "purged_doc ts cp =
     (let cp' = without_paths ts cp in
      if cp' \<noteq> cp \<and> tc_files cp' = [] \<and> tc_new cp' = [] \<and> tc_skipped cp' = [] then None
      else Some (CheckpointDoc False cp'))"

lemma purge_checkpoint_effect:
  assumes "strict_doc (n, cp)" and "map_of (hs_checkpoints h) n = Some (CheckpointDoc False cp)"
  shows "result_of (purge_checkpoint ts (n, cp)) h = Inr () \<and>
    (\<exists>ds. final_of (purge_checkpoint ts (n, cp)) h = h\<lparr>hs_checkpoints := ds\<rparr> \<and>
      map_of ds = (map_of (hs_checkpoints h))(n := purged_doc ts cp))"
proof -
  let ?cp = "without_paths ts cp"
  have s: "save_checkpoint ?cp = put (hs_checkpoints_update (AList.update n (CheckpointDoc False ?cp)))"
    using assms(1) by (simp add: save_checkpoint_def strict_doc_def without_paths_def)
  consider "?cp = cp" | "?cp \<noteq> cp" "tc_files ?cp = [] \<and> tc_new ?cp = [] \<and> tc_skipped ?cp = []"
    | "?cp \<noteq> cp" "\<not> (tc_files ?cp = [] \<and> tc_new ?cp = [] \<and> tc_skipped ?cp = [])" by blast
  then show ?thesis
  proof cases
    case 1
    then show ?thesis using assms(2)
      by (intro conjI exI[of _ "hs_checkpoints h"]) (auto simp: purge_checkpoint_def purged_doc_def fun_eq_iff)
  next
    case 2
    then show ?thesis
      by (intro conjI exI[of _ "AList.delete n (hs_checkpoints h)"])
        (simp_all add: purge_checkpoint_def purged_doc_def Let_def delete_conv' fun_eq_iff)
  next
    case 3
    then show ?thesis
      by (intro conjI exI[of _ "AList.update n (CheckpointDoc False ?cp) (hs_checkpoints h)"])
        (auto simp add: purge_checkpoint_def purged_doc_def Let_def s update_conv')
  qed
qed


lemma purge_checkpoints_effect:
  assumes "list_all strict_doc xs" and "distinct (map fst xs)"
    and "list_all (\<lambda>(n, cp). map_of (hs_checkpoints h) n = Some (CheckpointDoc False cp)) xs"
  shows "result_of (each (purge_checkpoint ts) xs) h = Inr () \<and>
    (\<exists>ds. final_of (each (purge_checkpoint ts) xs) h = h\<lparr>hs_checkpoints := ds\<rparr> \<and>
      map_of ds = (\<lambda>m. case map_of xs m of None \<Rightarrow> map_of (hs_checkpoints h) m | Some cp \<Rightarrow> purged_doc ts cp))"
  using assms
proof (induction xs arbitrary: h)
  case Nil
  then show ?case by (auto intro!: exI[of _ "hs_checkpoints h"])
next
  case (Cons x xs)
  obtain n cp where x: "x = (n, cp)" by (cases x)
  obtain ds1 where one: "result_of (purge_checkpoint ts x) h = Inr ()"
      "final_of (purge_checkpoint ts x) h = h\<lparr>hs_checkpoints := ds1\<rparr>"
      "map_of ds1 = (map_of (hs_checkpoints h))(n := purged_doc ts cp)"
    using purge_checkpoint_effect[of n cp h ts] Cons.prems x by auto
  have n: "n \<notin> fst ` set xs" using Cons.prems(2) by (simp add: x)
  then have "list_all (\<lambda>(n, cp). map_of ds1 n = Some (CheckpointDoc False cp)) xs"
    using Cons.prems(3) one(3) by (force simp: list_all_iff)
  then obtain ds where ds: "result_of (each (purge_checkpoint ts) xs) (h\<lparr>hs_checkpoints := ds1\<rparr>) = Inr ()"
      "final_of (each (purge_checkpoint ts) xs) (h\<lparr>hs_checkpoints := ds1\<rparr>) = h\<lparr>hs_checkpoints := ds\<rparr>"
      "map_of ds = (\<lambda>m. case map_of xs m of None \<Rightarrow> map_of ds1 m | Some cp \<Rightarrow> purged_doc ts cp)"
    using Cons.IH[of "h\<lparr>hs_checkpoints := ds1\<rparr>"] Cons.prems(1,2) x that by (simp cong: option.case_cong) blast
  have none: "map_of xs n = None" using n by (simp add: map_of_eq_None_iff)
  have "map_of ds = (\<lambda>m. case map_of (x # xs) m of None \<Rightarrow> map_of (hs_checkpoints h) m | Some cp \<Rightarrow> purged_doc ts cp)"
    unfolding ds(3) one(3) x using none by (auto simp: fun_eq_iff split: option.split)
  moreover have "final_of (each (purge_checkpoint ts) (x # xs)) h = h\<lparr>hs_checkpoints := ds\<rparr>"
    by (simp add: andthen_ok(2)[OF one(1)] one(2) ds(2))
  moreover have "result_of (each (purge_checkpoint ts) (x # xs)) h = Inr ()"
    by (simp add: andthen_ok(1)[OF one(1)] one(2) ds(1))
  ultimately show ?case by blast
qed


text \<open>Without an error before the first write a purge cannot fail.\<close>

definition purge_writes :: "string list \<Rightarrow> (string \<times> hist_entry list) list \<Rightarrow> (string \<times> task_checkpoint) list \<Rightarrow> unit hist_act" where
  "purge_writes ts ms cps =
     andthen (each (purge_manifest ts) ms) (\<lambda>_.
     andthen (each (purge_checkpoint ts) cps) (\<lambda>_.
     collect_objects (surviving_ids ts ms cps)))"

text \<open>The inputs of the writes: the target paths, the manifests and the checkpoints as read.\<close>

definition purge_inputs ::
    "history_lib \<Rightarrow> string list \<Rightarrow> history
     \<Rightarrow> hist_error + string list \<times> (string \<times> hist_entry list) list \<times> (string \<times> task_checkpoint) list" where
  "purge_inputs L rels h =
     bind_err (clean_paths rels) (\<lambda>ts.
     bind_err (strict_manifests (\<lambda>_. None) L h (hs_manifests h)) (\<lambda>ms.
     bind_err (strict_checkpoints (\<lambda>_. None) L h (hs_checkpoints h)) (\<lambda>cps. Inr (ts, ms, cps))))"

lemma purge_paths_run:
  "purge_paths L rels h = (case purge_inputs L rels h of Inl e \<Rightarrow> (Inl e, []) | Inr (ts, ms, cps) \<Rightarrow> purge_writes ts ms cps h)"
  unfolding purge_paths_def purge_inputs_def purge_writes_def look_andthen
  by (auto simp: bind_err_def split: sum.split)

lemma purge_inputs_Inr:
  assumes "store_ok L h" and "purge_inputs L rels h = Inr (ts, ms, cps)"
  shows "those (map clean_path rels) = Some ts"
    and "hs_manifests h = map (\<lambda>(n, es). (n, Manifest es)) ms"
    and "hs_checkpoints h = map (\<lambda>(n, cp). (n, CheckpointDoc False cp)) cps"
    and "list_all strict_doc cps" "distinct (map fst cps)" "distinct (map fst ms)"
proof -
  have m: "\<forall>n \<in> set (map fst (hs_manifests h)). has_suffix n json_suffix"
    and d: "\<forall>n \<in> set (map fst (hs_checkpoints h)). has_suffix n json_suffix"
    and dist: "distinct (map fst (hs_manifests h))" "distinct (map fst (hs_checkpoints h))"
    using store_okD(2,3)[OF assms(1)] unfolding manifests_ok_def docs_ok_def by auto
  show "those (map clean_path rels) = Some ts"
    using assms(2) by (auto simp: purge_inputs_def bind_err_Inr clean_paths_def split: option.splits)
  show ms: "hs_manifests h = map (\<lambda>(n, es). (n, Manifest es)) ms"
    using assms(2) strict_manifests_Inr[OF _ m] by (auto simp: purge_inputs_def bind_err_Inr)
  have "hs_checkpoints h = map (\<lambda>(n, cp). (n, CheckpointDoc False cp)) cps \<and> list_all strict_doc cps"
    using assms(2) strict_checkpoints_Inr[OF _ d] by (auto simp: purge_inputs_def bind_err_Inr)
  then show cps: "hs_checkpoints h = map (\<lambda>(n, cp). (n, CheckpointDoc False cp)) cps" "list_all strict_doc cps" by auto
  have "map fst (map (\<lambda>(n, cp). (n, CheckpointDoc False cp)) cps) = map fst cps" by (induction cps) auto
  then show "distinct (map fst cps)" using dist(2) unfolding cps(1) by (simp only:)
  have "map fst (map (\<lambda>(n, es). (n, Manifest es)) ms) = map fst ms" by (induction ms) auto
  then show "distinct (map fst ms)" using dist(1) unfolding ms by (simp only:)
qed

lemma map_of_docs: "map_of (map (\<lambda>(n, cp). (n, CheckpointDoc False cp)) cps) m = map_option (CheckpointDoc False) (map_of cps m)"
  by (induction cps) auto

lemma map_of_manifests: "map_of (map (\<lambda>(n, es). (n, Manifest es)) ms) m = map_option Manifest (map_of ms m)"
  by (induction ms) auto


lemma in_concat: "x \<in> set (concat (map f xs)) \<longleftrightarrow> (\<exists>y \<in> set xs. x \<in> set (f y))"
  by simp

lemma set_surviving_ids:
  "set (surviving_ids ts ms cps) =
     {he_id e | n es e. (n, es) \<in> set ms \<and> \<not> gone ts n \<and> e \<in> set es} \<union>
     {i. \<exists>n cp. (n, cp) \<in> set cps \<and> i \<in> set (checkpoint_ids (without_paths ts cp))}"
proof -
  have m: "i \<in> set (concat (map (\<lambda>x. if gone ts (fst x) then [] else map he_id (snd x)) ms)) \<longleftrightarrow>
      (\<exists>n es e. i = he_id e \<and> (n, es) \<in> set ms \<and> \<not> gone ts n \<and> e \<in> set es)" for i
    unfolding in_concat by (force split: if_splits)
  have d: "i \<in> set (concat (map (\<lambda>x. checkpoint_ids (without_paths ts (snd x))) cps)) \<longleftrightarrow>
      (\<exists>n cp. (n, cp) \<in> set cps \<and> i \<in> set (checkpoint_ids (without_paths ts cp)))" for i
    unfolding in_concat by force
  show ?thesis using m d unfolding surviving_ids_def split_beta gone_def set_append by blast
qed

lemma purged_refs:
  assumes "map_of ms' = (\<lambda>m. if gone ts m then None else map_option Manifest (map_of ms m))" "distinct (map fst ms)"
    and "map_of ds = (\<lambda>m. Option.bind (map_of cps m) (purged_doc ts))" "distinct (map fst cps)"
  shows "manifest_refs ms' \<union> doc_refs ds = set (surviving_ids ts ms cps)"
proof -
  have "manifest_refs ms' = {he_id e | n es e. (n, es) \<in> set ms \<and> \<not> gone ts n \<and> e \<in> set es}"
    using assms(1,2) unfolding manifest_refs_def by (auto split: if_splits)
  moreover have "i \<in> doc_refs ds \<longleftrightarrow> (\<exists>n cp. (n, cp) \<in> set cps \<and> i \<in> set (checkpoint_ids (without_paths ts cp)))" for i
  proof
    assume "i \<in> doc_refs ds"
    then obtain n b cp' where "map_of ds n = Some (CheckpointDoc b cp')" "i \<in> set (checkpoint_ids cp')"
      unfolding doc_refs_def by blast
    moreover from this obtain cp where "map_of cps n = Some cp" "purged_doc ts cp = Some (CheckpointDoc b cp')"
      using assms(3) by (auto simp: bind_eq_Some_conv)
    ultimately show "\<exists>n cp. (n, cp) \<in> set cps \<and> i \<in> set (checkpoint_ids (without_paths ts cp))"
      by (auto simp: purged_doc_def Let_def split: if_splits dest: map_of_SomeD)
  next
    assume "\<exists>n cp. (n, cp) \<in> set cps \<and> i \<in> set (checkpoint_ids (without_paths ts cp))"
    then obtain n cp where c: "(n, cp) \<in> set cps" "i \<in> set (checkpoint_ids (without_paths ts cp))" by blast
    then have "map_of cps n = Some cp" using assms(4) by simp
    moreover have "purged_doc ts cp = Some (CheckpointDoc False (without_paths ts cp))"
      using c(2) by (auto simp: purged_doc_def checkpoint_ids_def Let_def)
    ultimately have "map_of ds n = Some (CheckpointDoc False (without_paths ts cp))" using assms(3) by simp
    then show "i \<in> doc_refs ds" using c(2) unfolding doc_refs_def by blast
  qed
  ultimately show ?thesis unfolding set_surviving_ids by blast
qed

definition purge_passes :: "string list \<Rightarrow> (string \<times> hist_entry list) list \<Rightarrow> (string \<times> task_checkpoint) list \<Rightarrow> unit hist_act" where
  "purge_passes ts ms cps = andthen (each (purge_manifest ts) ms) (\<lambda>_. each (purge_checkpoint ts) cps)"

lemma purge_writes_passes: "purge_writes ts ms cps = andthen (purge_passes ts ms cps) (\<lambda>_. collect_objects (surviving_ids ts ms cps))"
  by (simp add: purge_writes_def purge_passes_def andthen_assoc)

lemma purge_passes_effect:
  assumes h: "store_ok L h" and i: "purge_inputs L rels h = Inr (ts, ms, cps)"
  obtains ms' ds where "result_of (purge_passes ts ms cps) h = Inr ()"
    "final_of (purge_passes ts ms cps) h = h\<lparr>hs_manifests := ms', hs_checkpoints := ds\<rparr>"
    "map_of ms' = (\<lambda>m. if gone ts m then None else map_option Manifest (map_of ms m))"
    "map_of ds = (\<lambda>m. Option.bind (map_of cps m) (purged_doc ts))"
    "manifest_refs ms' \<union> doc_refs ds = set (surviving_ids ts ms cps)"
proof -
  note inp = purge_inputs_Inr[OF h i]
  obtain ms' where one: "result_of (each (purge_manifest ts) ms) h = Inr ()"
      "final_of (each (purge_manifest ts) ms) h = h\<lparr>hs_manifests := ms'\<rparr>"
      "map_of ms' = (\<lambda>m. if m \<in> fst ` set ms \<and> gone ts m then None else map_of (hs_manifests h) m)"
    using purge_manifests_effect[of ts ms h] by blast
  have "map_option Manifest (map_of ms m) = None" if "m \<notin> fst ` set ms" for m using that by (simp add: map_of_eq_None_iff)
  then have m: "map_of ms' = (\<lambda>m. if gone ts m then None else map_option Manifest (map_of ms m))"
    unfolding one(3) inp(2) map_of_manifests by (auto simp: fun_eq_iff)
  let ?h1 = "h\<lparr>hs_manifests := ms'\<rparr>"
  have "list_all (\<lambda>(n, cp). map_of (hs_checkpoints ?h1) n = Some (CheckpointDoc False cp)) cps"
    using inp(5) by (auto simp: inp(3) map_of_docs list_all_iff)
  then obtain ds where two: "result_of (each (purge_checkpoint ts) cps) ?h1 = Inr ()"
      "final_of (each (purge_checkpoint ts) cps) ?h1 = ?h1\<lparr>hs_checkpoints := ds\<rparr>"
      "map_of ds = (\<lambda>m. case map_of cps m of None \<Rightarrow> map_of (hs_checkpoints ?h1) m | Some cp \<Rightarrow> purged_doc ts cp)"
    using purge_checkpoints_effect[OF inp(4,5)] by blast
  have d: "map_of ds = (\<lambda>m. Option.bind (map_of cps m) (purged_doc ts))"
    unfolding two(3) by (auto simp: inp(3) map_of_docs fun_eq_iff split: option.split)
  show thesis
    using that[OF _ _ m d purged_refs[OF m inp(6) d inp(5)]]
    by (simp add: purge_passes_def andthen_ok[OF one(1)] one(2) two(1,2))
qed

lemma purge_effect:
  assumes h: "store_ok L h" and i: "purge_inputs L rels h = Inr (ts, ms, cps)"
  obtains ms' ds os where "result_of (purge_writes ts ms cps) h = Inr ()"
    "final_of (purge_writes ts ms cps) h = h\<lparr>hs_manifests := ms', hs_checkpoints := ds, hs_objects := os\<rparr>"
    "map_of ms' = (\<lambda>m. if gone ts m then None else map_option Manifest (map_of ms m))"
    "map_of ds = (\<lambda>m. Option.bind (map_of cps m) (purged_doc ts))"
    "map_of os = map_of (hs_objects h) |` (manifest_refs ms' \<union> doc_refs ds)"
proof -
  obtain ms' ds where p: "result_of (purge_passes ts ms cps) h = Inr ()"
    "final_of (purge_passes ts ms cps) h = h\<lparr>hs_manifests := ms', hs_checkpoints := ds\<rparr>"
    "map_of ms' = (\<lambda>m. if gone ts m then None else map_option Manifest (map_of ms m))"
    "map_of ds = (\<lambda>m. Option.bind (map_of cps m) (purged_doc ts))"
    "manifest_refs ms' \<union> doc_refs ds = set (surviving_ids ts ms cps)" using purge_passes_effect[OF h i] by blast
  let ?h2 = "h\<lparr>hs_manifests := ms', hs_checkpoints := ds\<rparr>" and ?c = "collect_objects (surviving_ids ts ms cps)"
  have "objects_ok L (hs_objects ?h2)" using store_okD(1)[OF h] by simp
  from collect_objects_effect[OF this] obtain os where c: "result_of ?c ?h2 = Inr ()"
      "final_of ?c ?h2 = ?h2\<lparr>hs_objects := os\<rparr>" "map_of os = map_of (hs_objects ?h2) |` set (surviving_ids ts ms cps)"
    by blast
  show thesis using that[OF _ _ p(3,4)] c(3)
    by (simp add: purge_writes_passes andthen_ok[OF p(1)] p(2) c(1,2) p(5))
qed

lemma without_ids: "set (checkpoint_ids (without_paths ts cp)) \<subseteq> set (checkpoint_ids cp)"
  by (auto simp: checkpoint_ids_def without_paths_def)

lemma keeping_purge_manifest: "keeping (\<lambda>h. store_ok L h \<and> dom (map_of (hs_objects h)) = D) (purge_manifest ts x)"
  by (cases x) (auto simp: purge_manifest_def keeping_reads intro!: keeping_put store_ok_delete_manifest)

lemma keeping_purge_checkpoint:
  assumes "set (checkpoint_ids cp) \<subseteq> D"
  shows "keeping (\<lambda>h. store_ok L h \<and> dom (map_of (hs_objects h)) = D) (purge_checkpoint ts (n, cp))"
proof -
  have "keeping (\<lambda>h. store_ok L h \<and> dom (map_of (hs_objects h)) = D) (save_checkpoint (without_paths ts cp))"
    using assms without_ids[of ts cp]
    by (auto simp: save_checkpoint_def keeping_reads intro!: keeping_put store_ok_put_doc)
  then show ?thesis
    by (auto simp: purge_checkpoint_def Let_def keeping_reads intro!: keeping_put store_ok_delete_doc)
qed

lemma keeping_purge [keeps]: "keeping (store_ok L) (purge_paths L rels)"
proof (rule keepingI)
  fix h assume h: "store_ok L h"
  show "writes_ok (store_ok L) (purge_paths L rels) h"
  proof (cases "purge_inputs L rels h")
    case (Inl e)
    then show ?thesis by (simp add: writes_ok_def purge_paths_run)
  next
    case (Inr x)
    obtain ts ms cps where x: "x = (ts, ms, cps)" by (cases x)
    have i: "purge_inputs L rels h = Inr (ts, ms, cps)" using Inr x by simp
    note inp = purge_inputs_Inr[OF h i]
    let ?D = "dom (map_of (hs_objects h))"
    let ?J = "\<lambda>g. store_ok L g \<and> dom (map_of (hs_objects g)) = ?D"
    let ?m = "each (purge_manifest ts) ms" and ?c = "each (purge_checkpoint ts) cps"
    have k1: "keeping ?J ?m" by (intro keeping_each keeping_purge_manifest)
    have "set (checkpoint_ids cp) \<subseteq> ?D" if "(n, cp) \<in> set cps" for n cp
    proof -
      have "map_of (hs_checkpoints h) n = Some (CheckpointDoc False cp)" using that inp(5) by (simp add: inp(3) map_of_docs)
      then have "set (checkpoint_ids cp) \<subseteq> doc_refs (hs_checkpoints h)" unfolding doc_refs_def by blast
      then show ?thesis using store_okD(5)[OF h] by blast
    qed
    then have k2: "keeping ?J ?c" by (intro keeping_each_in) (metis keeping_purge_checkpoint prod.collapse)
    have k: "keeping ?J (purge_passes ts ms cps)" unfolding purge_passes_def by (rule keeping_andthen[OF k1 k2])
    let ?h2 = "final_of (purge_passes ts ms cps) h"
    have "snapshot_refs ?h2 = set (surviving_ids ts ms cps)"
      by (rule purge_passes_effect[OF h i]) (simp add: snapshot_refs_def)
    then have "writes_ok (store_ok L) (collect_objects (surviving_ids ts ms cps)) ?h2"
      using collect_objects_writes keeping_final[OF k, of h] h by blast
    moreover have "writes_ok (store_ok L) (purge_passes ts ms cps) h"
      using writes_of_keeping[OF k, of h] h unfolding writes_ok_def by blast
    ultimately have "writes_ok (store_ok L) (purge_writes ts ms cps) h"
      unfolding purge_writes_passes by (intro writes_andthen)
    then show ?thesis by (simp add: writes_ok_def purge_paths_run i)
  qed
qed

section \<open>What a restoring does\<close>

lemma restore_steps:
  assumes "clean_path rel0 = Some rel" and "result_of (restore_snapshot L now rel0 i) h = Inr e"
  obtains es data v where "history_list L rel h = Inr es" "pick_target i es = Inr e" "history_content (he_id e) h = Inr data"
    "is_ok (result_of (take_snapshot L now rel) h)"
    "write_file rel data (hs_vault h) = Some v"
    "final_of (restore_snapshot L now rel0 i) h = (final_of (take_snapshot L now rel) h)\<lparr>hs_vault := v\<rparr>"
proof -
  let ?t = "take_snapshot L now rel"
  obtain data r where d: "bind_err (history_list L rel h) (pick_target i) = Inr e" "history_content (he_id e) h = Inr data"
    "result_of ?t h = Inr r" "result_of (write_back rel data) (final_of ?t h) = Inr ()"
    using assms(2) by (auto simp: restore_snapshot_def assms(1) andthen_Inr)
  obtain v where v: "write_file rel data (hs_vault h) = Some v"
    using d(4) by (auto simp: write_back_def result_of_def take_snapshot_vault split: option.splits)
  have "final_of (write_back rel data) (final_of ?t h) = hs_vault_update (\<lambda>_. v) (final_of ?t h)"
    using v by (simp add: write_back_def final_of_def take_snapshot_vault[unfolded final_of_def])
  moreover have "final_of (restore_snapshot L now rel0 i) h = final_of (write_back rel data) (final_of ?t h)"
  proof -
    have w: "result_of (write_back rel data) (final_of ?t h) = Inr ()" by (rule d(4))
    show ?thesis
      by (simp add: restore_snapshot_def assms(1) andthen_ok(2)[of "look f" for f] d(1,2) andthen_ok(2)[OF d(3)] andthen_ok(2)[OF w])
  qed
  ultimately have f: "final_of (restore_snapshot L now rel0 i) h = (final_of ?t h)\<lparr>hs_vault := v\<rparr>" by simp
  obtain es where "history_list L rel h = Inr es" "pick_target i es = Inr e" using d(1) by (auto simp: bind_err_Inr)
  then show thesis using that[OF _ _ d(2) _ v f] d(3) by (simp add: is_ok_def)
qed


lemma pick_target_in: "pick_target i es = Inr e \<Longrightarrow> e \<in> set es \<and> (i = [] \<or> has_prefix (he_id e) i)"
proof -
  assume p: "pick_target i es = Inr e"
  show ?thesis
  proof (cases "i = []")
    case True
    then show ?thesis using p by (cases es) (auto simp: pick_target_def)
  next
    case False
    then have "filter (\<lambda>e. has_prefix (he_id e) i) es = [e]"
      using p by (auto simp: pick_target_def split: if_splits list.splits)
    then show ?thesis by (metis filter_eq_Cons_iff in_set_conv_decomp)
  qed
qed

lemma pick_target_ambiguous:
  assumes "1 < length (filter (\<lambda>e. has_prefix (he_id e) i) es)" and "i \<noteq> []"
  shows "pick_target i es = Inl AmbiguousId"
proof -
  obtain a b xs where "filter (\<lambda>e. has_prefix (he_id e) i) es = a # b # xs"
    using assms(1) by (metis One_nat_def length_Cons less_Suc0 less_numeral_extra(4) list.exhaust list.size(3) not_less_zero)
  moreover from this have "es \<noteq> []" by auto
  ultimately show ?thesis using assms(2) by (simp add: pick_target_def)
qed

lemma hex_id_length: "history_content i h = Inr c \<Longrightarrow> length i = 64"
  by (auto simp: history_content_def is_hex_id_def split: if_splits)

lemma stored_content:
  assumes "store_ok L h" and "history_content i h = Inr c"
  shows "content_id L c = i"
proof -
  have "map_of (hs_objects h) i = Some (Regular c)"
    using assms(2) by (auto simp: history_content_def split: if_splits option.splits vault_file.splits)
  then show ?thesis using store_okD(1)[OF assms(1)] unfolding objects_ok_def by blast
qed

lemma prefix_same: "has_prefix s p \<Longrightarrow> length s = length p \<Longrightarrow> s = p"
  by (auto simp: has_prefix_def)

text \<open>A full id restores the content it names.\<close>

lemma restore_full:
  assumes "store_ok L h" and "clean_path rel0 = Some rel" and "length i = 64"
    and "result_of (restore_snapshot L now rel0 i) h = Inr e"
  shows "\<exists>c v. content_id L c = i \<and> he_id e = i \<and> write_file rel c (hs_vault h) = Some v \<and>
    hs_vault (final_of (restore_snapshot L now rel0 i) h) = v"
proof -
  obtain es data v where r: "pick_target i es = Inr e" "history_content (he_id e) h = Inr data"
    "write_file rel data (hs_vault h) = Some v"
    "final_of (restore_snapshot L now rel0 i) h = (final_of (take_snapshot L now rel) h)\<lparr>hs_vault := v\<rparr>"
    using restore_steps[OF assms(2,4)] by metis
  have "i \<noteq> []" using assms(3) by auto
  then have "has_prefix (he_id e) i" using pick_target_in[OF r(1)] by blast
  then have "he_id e = i" using prefix_same hex_id_length[OF r(2)] assms(3) by metis
  then show ?thesis using stored_content[OF assms(1) r(2)] r(3,4) by auto
qed

lemma restore_vault_error:
  assumes "result_of (restore_snapshot L now rel0 i) h = Inl e"
  shows "hs_vault (final_of (restore_snapshot L now rel0 i) h) = hs_vault h"
proof (cases "clean_path rel0")
  case None
  then show ?thesis by (simp add: restore_snapshot_def)
next
  case (Some rel)
  have w: "result_of (write_back rel c) g = Inl e' \<Longrightarrow> final_of (write_back rel c) g = g" for c g e'
    by (auto simp: write_back_def result_of_def final_of_def split: option.splits)
  show ?thesis using assms w take_snapshot_vault
    by (auto simp: restore_snapshot_def Some result_andthen final_andthen bind_err_def split: sum.splits)
qed

section \<open>Undoing a task\<close>

text \<open>The files recorded before path \<open>p\<close> do not matter for what is restored at it.\<close>

lemma restore_files_facts:
  assumes "history_lib_ok L" and "store_ok L h"
    and "list_all (\<lambda>f. clean_path (cf_path f) = Some (cf_path f) \<and> length (he_id (cf_entry f)) = 64) fs"
    and "distinct (map cf_path fs)" and "result_of (restore_files L now fs) h = Inr []"
  shows "(\<forall>f \<in> set fs. \<exists>c. map_of (hs_vault (final_of (restore_files L now fs) h)) (cf_path f) = Some (Regular c) \<and>
        content_id L c = he_id (cf_entry f)) \<and>
     (\<forall>p c. p \<notin> set (map cf_path fs) \<longrightarrow> map_of (hs_vault h) p = Some (Regular c) \<longrightarrow>
        map_of (hs_vault (final_of (restore_files L now fs) h)) p = Some (Regular c))"
  using assms(2-)
proof (induction fs arbitrary: h)
  case (Cons f fs)
  let ?r = "restore_snapshot L now (cf_path f) (he_id (cf_entry f))"
  let ?h1 = "final_of ?r h"
  have f: "clean_path (cf_path f) = Some (cf_path f)" "length (he_id (cf_entry f)) = 64" using Cons.prems(2) by auto
  obtain e where e: "result_of ?r h = Inr e" and rest: "result_of (restore_files L now fs) ?h1 = Inr []"
    using Cons.prems(4) by (auto simp: andthen_Inr is_ok_def split: sum.splits if_splits)
  have run: "final_of (restore_files L now (f # fs)) h = final_of (restore_files L now fs) ?h1"
    by (simp add: final_andthen rest)
  obtain c v where c: "content_id L c = he_id (cf_entry f)" "write_file (cf_path f) c (hs_vault h) = Some v" "hs_vault ?h1 = v"
    using restore_full[OF Cons.prems(1) f e] by blast
  have ok: "store_ok L ?h1" by (rule keeping_final[OF keeping_restore[OF assms(1)] Cons.prems(1)])
  have ih: "\<forall>f \<in> set fs. \<exists>c. map_of (hs_vault (final_of (restore_files L now fs) ?h1)) (cf_path f) = Some (Regular c) \<and>
        content_id L c = he_id (cf_entry f)"
    "\<forall>p c. p \<notin> set (map cf_path fs) \<longrightarrow> map_of (hs_vault ?h1) p = Some (Regular c) \<longrightarrow>
        map_of (hs_vault (final_of (restore_files L now fs) ?h1)) p = Some (Regular c)"
    using Cons.IH[OF ok _ _ rest] Cons.prems(2,3) by simp_all
  have "cf_path f \<notin> set (map cf_path fs)" using Cons.prems(3) by simp
  then have "map_of (hs_vault (final_of (restore_files L now fs) ?h1)) (cf_path f) = Some (Regular c)"
    using ih(2) write_file_at[OF c(2)] c(3) by blast
  moreover have "map_of (hs_vault (final_of (restore_files L now fs) ?h1)) p = Some (Regular d)"
    if "p \<notin> set (map cf_path (f # fs))" "map_of (hs_vault h) p = Some (Regular d)" for p d
    using that ih(2) write_file_regular[OF c(2) that(2)] c(3) by simp
  ultimately show ?case using ih(1) c(1) unfolding run by auto
qed simp

lemma remove_new_at:
  assumes "result_of (remove_new p) h = Inr True"
  shows "map_of (hs_vault (final_of (remove_new p) h)) = (map_of (hs_vault h))(p := None)"
proof -
  have none: "map_of (hs_vault h) p = None" if "remove_path p (hs_vault h) = Inl NotExist"
    using that by (auto simp: remove_path_def split: option.splits vault_file.splits if_splits)
  show ?thesis using assms remove_path_Inr none
    by (auto simp: remove_new_def result_of_def final_of_def andthen_def act_runs fun_eq_iff split: sum.splits file_error.splits)
qed

lemma remove_news_at:
  assumes "result_of (remove_news ps) h = Inr []"
  shows "map_of (hs_vault (final_of (remove_news ps) h)) = map_of (hs_vault h) |` (- set ps)"
  using assms
proof (induction ps arbitrary: h)
  case (Cons p ps)
  have r: "result_of (remove_new p) h = Inr True" "result_of (remove_news ps) (final_of (remove_new p) h) = Inr []"
    using Cons.prems by (auto simp: andthen_Inr split: if_splits)
  have "final_of (remove_news (p # ps)) h = final_of (remove_news ps) (final_of (remove_new p) h)"
    by (simp add: final_andthen r)
  then show ?case using Cons.IH[OF r(2)] remove_new_at[OF r(1)] by (auto simp: restrict_map_def fun_eq_iff)
qed (simp add: restrict_map_def)


lemma doc_refs_ids:
  assumes "history_lib_ok L" and "store_ok L h" and "i \<in> snapshot_refs h"
  shows "length i = 64"
proof -
  have "i \<in> dom (map_of (hs_objects h))" using assms(2,3) unfolding store_ok_def by blast
  then obtain c where "history_content i h = Inr c" using content_available[OF assms(1) store_okD(1)[OF assms(2)]] by metis
  then show ?thesis by (rule hex_id_length)
qed

text \<open>Every path a checkpoint tracks is clean and tracked once.\<close>

definition tracks_once :: "task_checkpoint \<Rightarrow> bool" where
  "tracks_once cp \<longleftrightarrow> paths_once [] (map cf_path (tc_files cp) @ tc_new cp)"

lemma paths_once_iff: "paths_once seen ps \<longleftrightarrow> distinct ps \<and> set ps \<inter> set seen = {} \<and> (\<forall>p \<in> set ps. clean_path p = Some p)"
  by (induction ps arbitrary: seen) auto

lemma undo_facts:
  assumes L: "history_lib_ok L" and h: "store_ok L h" and cp: "load_checkpoint t h = Inr cp" and once: "tracks_once cp"
    and r: "result_of (undo_checkpoint L now t) h = Inr cp'" and all: "tc_skipped cp' = tc_skipped cp"
  shows "(\<forall>f \<in> set (tc_files cp). \<exists>c. map_of (hs_vault (final_of (undo_checkpoint L now t) h)) (cf_path f) = Some (Regular c) \<and>
       content_id L c = he_id (cf_entry f)) \<and>
     (\<forall>p \<in> set (tc_new cp). map_of (hs_vault (final_of (undo_checkpoint L now t) h)) p = None)"
proof (cases "tc_files cp = [] \<and> tc_new cp = []")
  case False
  let ?r = "restore_files L now (tc_files cp)" and ?n = "remove_news (tc_new cp)"
  let ?h1 = "final_of ?r h"
  let ?h2 = "final_of ?n ?h1"
  let ?s = "\<lambda>failed failed'. cp\<lparr>tc_skipped := tc_skipped cp @ failed @ failed'\<rparr>"
  obtain failed failed' where f: "result_of ?r h = Inr failed" "result_of ?n ?h1 = Inr failed'"
      "result_of (save_checkpoint (?s failed failed')) ?h2 = Inr ()" "cp' = ?s failed failed'"
    using r False by (auto simp: undo_checkpoint_def andthen_Inr cp Let_def)
  have none: "failed = []" "failed' = []" using f(4) all by auto
  have fin: "final_of (undo_checkpoint L now t) h = final_of (save_checkpoint (?s failed failed')) ?h2"
    using False unfolding undo_checkpoint_def
    by (simp add: andthen_ok(2)[of "look g" for g] cp Let_def andthen_ok(2)[OF f(1)] andthen_ok(2)[OF f(2)] andthen_ok(2)[OF f(3)]) blast
  have v: "map_of (hs_vault (final_of (undo_checkpoint L now t) h)) = map_of (hs_vault ?h1) |` (- set (tc_new cp))"
    unfolding fin save_checkpoint_frame using remove_news_at f(2) none by simp
  have ids: "set (checkpoint_ids cp) \<subseteq> snapshot_refs h"
    using load_checkpoint_refs[OF cp] by (auto simp: snapshot_refs_def)
  have "length (he_id (cf_entry f)) = 64" if "f \<in> set (tc_files cp)" for f
    using doc_refs_ids[OF L h] ids that by (auto simp: checkpoint_ids_def)
  then have "list_all (\<lambda>f. clean_path (cf_path f) = Some (cf_path f) \<and> length (he_id (cf_entry f)) = 64) (tc_files cp)"
    using once by (auto simp: tracks_once_def paths_once_iff list_all_iff)
  moreover have "distinct (map cf_path (tc_files cp))" using once by (simp add: tracks_once_def paths_once_iff)
  moreover have "result_of ?r h = Inr []" using f(1) none by simp
  ultimately have "\<forall>f \<in> set (tc_files cp). \<exists>c. map_of (hs_vault ?h1) (cf_path f) = Some (Regular c) \<and> content_id L c = he_id (cf_entry f)"
    using restore_files_facts[OF L h] by blast
  moreover have "cf_path f \<notin> set (tc_new cp)" if "f \<in> set (tc_files cp)" for f
    using once that by (auto simp: tracks_once_def paths_once_iff)
  ultimately show ?thesis unfolding v by (auto simp: restrict_map_def)
qed simp

section \<open>Histories that can come about\<close>

datatype hist_op =
    EditVault vault_files | TakeSnapshot int string | RestoreSnapshot int string string | PruneHistory int hist_policy
  | BeginTask int string | RecordFile int string string | UndoTask int string | PurgePaths "string list"

definition quietly :: "'a hist_act \<Rightarrow> unit hist_act" where
  "quietly m = andthen (caught m) (\<lambda>_. ret ())"

fun history_run :: "history_lib \<Rightarrow> hist_op \<Rightarrow> unit hist_act" where
  "history_run L (EditVault v) = put (hs_vault_update (\<lambda>_. v))"
| "history_run L (TakeSnapshot now rel) = quietly (take_snapshot L now rel)"
| "history_run L (RestoreSnapshot now rel i) = quietly (restore_snapshot L now rel i)"
| "history_run L (PruneHistory now pol) = quietly (prune_history L now pol)"
| "history_run L (BeginTask now t) = quietly (begin_checkpoint now t)"
| "history_run L (RecordFile now t rel) = quietly (checkpoint_path L now t rel)"
| "history_run L (UndoTask now t) = quietly (undo_checkpoint L now t)"
| "history_run L (PurgePaths rels) = quietly (purge_paths L rels)"

text \<open>
  The states of a vault's history: after any operations, each of them carried out, failed or cut off
  after any of its writes.
\<close>

inductive history_state :: "history_lib \<Rightarrow> history \<Rightarrow> bool" for L where
  fresh: "history_state L \<lparr>hs_vault = v, hs_objects = [], hs_manifests = [], hs_checkpoints = []\<rparr>"
| written: "history_state L h \<Longrightarrow> w \<in> set (snd (history_run L q h)) \<Longrightarrow> history_state L w"

lemma keeping_history_run: "history_lib_ok L \<Longrightarrow> keeping (store_ok L) (history_run L q)"
  by (cases q) (auto simp: quietly_def intro!: keeps keeping_put)

lemma history_state_ok: "history_state L h \<Longrightarrow> history_lib_ok L \<Longrightarrow> store_ok L h"
proof (induction rule: history_state.induct)
  case (fresh v)
  then show ?case
    by (simp add: store_ok_def objects_ok_def manifests_ok_def docs_ok_def snapshot_refs_def manifest_refs_def doc_refs_def)
next
  case (written h w q)
  then show ?case using keeping_writes[OF keeping_history_run] by blast
qed

definition history_after :: "history_lib \<Rightarrow> hist_op list \<Rightarrow> history \<Rightarrow> history" where
  "history_after L qs h = fold (\<lambda>q. final_of (history_run L q)) qs h"

lemma history_state_step: "history_state L h \<Longrightarrow> history_state L (final_of (history_run L q) h)"
  using end_of_in[of h "snd (history_run L q h)"] history_state.written unfolding final_of_def by (metis insertE)

lemma history_state_after: "history_state L h \<Longrightarrow> history_state L (history_after L qs h)"
  unfolding history_after_def by (induction qs arbitrary: h) (auto intro: history_state_step)

section \<open>Properties\<close>

lemma history_survives_facts:
  assumes "history_lib_ok L" and "history_state L h" and "i \<in> snapshot_refs h"
  shows "\<exists>c. history_content i h = Inr c \<and> content_id L c = i"
proof -
  have h: "store_ok L h" using history_state_ok assms(1,2) by blast
  then have "i \<in> dom (map_of (hs_objects h))" using assms(3) unfolding store_ok_def by blast
  then show ?thesis using content_available[OF assms(1) store_okD(1)[OF h]] by metis
qed

definition hist_L :: history_lib where
  "hist_L = \<lparr>hl_sha = (\<lambda>m. take 32 (m @ replicate 32 CHR ''0'')), hl_sort = (\<lambda>k. sort_key k), hl_sort_checkpoints = (\<lambda>k. sort_key k)\<rparr>"

lemma hist_L_ok: "history_lib_ok hist_L"
  by (auto simp: history_lib_ok_def hist_L_def sort_ok_def)

definition hist_0 :: history where
  "hist_0 = \<lparr>hs_vault = [(''a.md'', Regular ''one'')], hs_objects = [], hs_manifests = [], hs_checkpoints = []\<rparr>"

lemma hist_0_state: "history_state L hist_0"
  unfolding hist_0_def by (rule history_state.fresh)


definition hist_1 :: history where
  "hist_1 = history_after hist_L [TakeSnapshot 10 ''a.md''] hist_0"

definition id_one :: string where "id_one = content_id hist_L ''one''"
definition id_two :: string where "id_two = content_id hist_L ''two''"

lemma hist_ids: "content_id hist_L ''one'' = id_one" "content_id hist_L ''two'' = id_two"
  by (simp_all add: id_one_def id_two_def)

lemma ids_differ: "id_one \<noteq> id_two" "id_two \<noteq> id_one"
proof -
  have "hl_sha hist_L ''one'' \<noteq> hl_sha hist_L ''two''" by (simp add: hist_L_def)
  then show "id_one \<noteq> id_two" unfolding id_one_def id_two_def content_id_def by (metis hex_decode_encode option.inject)
  then show "id_two \<noteq> id_one" by simp
qed

lemma ids_hex: "is_hex_id id_one" "is_hex_id id_two"
  by (simp_all add: id_one_def id_two_def is_hex_content hist_L_ok)

lemma ids_length: "length id_one = 64" "length id_two = 64"
  using ids_hex by (simp_all add: is_hex_id_def)

lemma ids_prefix: "has_prefix id_one id_two = False" "has_prefix id_two id_one = False"
  using ids_differ ids_length by (metis prefix_same)+

lemma ids_nonempty: "id_one \<noteq> []" "id_two \<noteq> []"
  using ids_length by auto

lemma clean_a: "clean_path ''a.md'' = Some ''a.md''" by code_simp
lemma clean_b: "clean_path ''b.md'' = Some ''b.md''" by code_simp

lemma sort_hist_L: "hl_sort hist_L = sort_key" "hl_sort_checkpoints hist_L = sort_key"
  by (simp_all add: hist_L_def)

lemmas hist_run = andthen_def act_runs caught_def quietly_def history_after_def final_of_def hist_0_def take_snapshot_def
  read_file_def history_list_def put_object_def write_manifest_def json_suffix_def clean_a clean_b hist_ids ids_differ
  ids_hex ids_length ids_prefix ids_nonempty sort_hist_L restore_snapshot_def bind_err_def pick_target_def history_content_def write_back_def
  write_file_def make_dirs_def blocked_path_def Let_def

lemma hist_1_eq: "hist_1 = \<lparr>hs_vault = [(''a.md'', Regular ''one'')],
   hs_objects = [(id_one, Regular ''one'')], 
   hs_manifests = [(''a.md.json'', Manifest [\<lparr>he_id = id_one, he_time = 10, he_size = 3\<rparr>])], hs_checkpoints = []\<rparr>"
  by (simp add: hist_1_def hist_run)

definition edit_a :: "string \<Rightarrow> hist_op" where
  "edit_a c = EditVault [(''a.md'', Regular c)]"

definition hist_2 :: history where
  "hist_2 = history_after hist_L [TakeSnapshot 10 ''a.md'', edit_a ''two'', TakeSnapshot 20 ''a.md''] hist_0"

lemma hist_2_eq: "hist_2 = \<lparr>hs_vault = [(''a.md'', Regular ''two'')],
   hs_objects = [(id_one, Regular ''one''), (id_two, Regular ''two'')],
   hs_manifests = [(''a.md.json'', Manifest [\<lparr>he_id = id_two, he_time = 20, he_size = 3\<rparr>, \<lparr>he_id = id_one, he_time = 10, he_size = 3\<rparr>])],
   hs_checkpoints = []\<rparr>"
  by (simp add: hist_2_def hist_run edit_a_def)

lemma hist_2_state: "history_state hist_L hist_2"
  unfolding hist_2_def by (rule history_state_after[OF hist_0_state])

text \<open>
  C3: The version history survives interruption: whatever sequence of snapshots, restores, prunings,
  task checkpoints, undos and purges runs, and after whichever of its writes each of them is cut off
  (or fails), every snapshot that a manifest or a checkpoint names still has its blob, and the blob is
  readable and has the content that the snapshot's id is the hash of.
\<close>
theorem history_survives_interruption:
  assumes "history_lib_ok L" and "history_state L h" and "i \<in> snapshot_refs h"
  shows "\<exists>c. history_content i h = Inr c \<and> content_id L c = i"
  by (rule history_survives_facts[OF assms])


theorem history_survives_interruption_witness:
  "\<exists>c. history_content id_one hist_1 = Inr c \<and> content_id hist_L c = id_one"
proof (rule history_survives_interruption)
  show "history_lib_ok hist_L" by (rule hist_L_ok)
  show "history_state hist_L hist_1" unfolding hist_1_def by (rule history_state_after[OF hist_0_state])
  show "id_one \<in> snapshot_refs hist_1" by (simp add: hist_1_eq snapshot_refs_def manifest_refs_def)
qed

lemma prune_steps:
  assumes L: "history_lib_ok L" and h: "store_ok L h" and r: "result_of (prune_history L now pol) h = Inr n"
  shows "hs_vault (final_of (prune_history L now pol) h) = hs_vault h \<and>
    map_of (hs_objects (final_of (prune_history L now pol) h)) =
      map_of (hs_objects h) |` snapshot_refs (final_of (prune_history L now pol) h) \<and>
    map_of (hs_manifests (final_of (prune_history L now pol) h)) =
      (\<lambda>m. map_option (pruned L (hp_max_per_file pol) (prune_cutoff now pol)) (map_of (hs_manifests h) m))"
proof -
  let ?o = "prune_old_checkpoints L now pol" and ?w = "walk_manifests L now pol"
  let ?h1 = "final_of ?o h"
  let ?refs = "concat (map checkpoint_ids (list_checkpoints L ?h1))"
  obtain k0 k ids where s: "result_of ?o h = Inr k0" "result_of ?w ?h1 = Inr (k, ids)"
    using r by (auto simp: prune_history_steps andthen_Inr)
  have ok: "store_ok L ?h1" by (rule keeping_final[OF keeping_prune_old h])
  note frame = prune_old_frame[of L now pol h]
  obtain ms where w: "final_of ?w ?h1 = ?h1\<lparr>hs_manifests := ms\<rparr>"
      "map_of ms = (\<lambda>m. map_option (pruned L (hp_max_per_file pol) (prune_cutoff now pol)) (map_of (hs_manifests ?h1) m))"
      "set ids = manifest_refs ms"
    using walk_manifests_effect[OF L ok s(2)] by blast
  let ?h2 = "?h1\<lparr>hs_manifests := ms\<rparr>"
  have "objects_ok L (hs_objects ?h2)" using store_okD(1)[OF ok] by simp
  then obtain os where c: "result_of (collect_objects (?refs @ ids)) ?h2 = Inr ()"
      "final_of (collect_objects (?refs @ ids)) ?h2 = ?h2\<lparr>hs_objects := os\<rparr>"
      "map_of os = map_of (hs_objects ?h2) |` set (?refs @ ids)"
    using collect_objects_effect by metis
  have fin: "final_of (prune_history L now pol) h = ?h2\<lparr>hs_objects := os\<rparr>"
    unfolding prune_history_steps
    by (simp add: andthen_ok(2)[OF s(1)] andthen_ok(2)[of "look g" for g] andthen_ok(2)[OF s(2)] w(1) andthen_ok(2)[OF c(1)] c(2))
  have "set (?refs @ ids) = snapshot_refs ?h2"
    using listed_checkpoint_refs[OF L store_okD(3)[OF ok]] w(3) by (auto simp: snapshot_refs_def)
  then show ?thesis unfolding fin using frame c(3) w(2) by (simp add: snapshot_refs_def)
qed

lemma history_list_pruned:
  assumes L: "history_lib_ok L" and "history_list L rel h = Inr es" and "es \<noteq> []"
    and m: "map_of (hs_manifests h') = (\<lambda>m. map_option (pruned L most cutoff) (map_of (hs_manifests h) m))"
  obtains es' where "history_list L rel h' = Inr es'" "set es' = set (kept_entries most cutoff es)"
    "length es' = length (kept_entries most cutoff es)"
proof -
  let ?S = "hl_sort L (\<lambda>e. - he_time e)"
  have "sort_ok (hl_sort L)" using L by (simp add: history_lib_ok_def)
  note len = sort_ok_length[OF this] and sets = sort_ok_set[OF this]
  obtain r where r: "clean_path rel = Some r" using assms(2) by (auto simp: history_list_def split: option.splits)
  then obtain es0 where e: "map_of (hs_manifests h) (r @ json_suffix) = Some (Manifest es0)" "es = ?S es0"
    using assms(2,3) by (auto simp: history_list_def split: option.splits manifest_file.splits)
  have all: "kept_entries most cutoff es = es" if "length (kept_entries most cutoff es) = length es"
    using keep_loop_all that by (simp add: kept_entries_def)
  have "map_of (hs_manifests h') (r @ json_suffix) =
      Some (if length (kept_entries most cutoff es) = length es then Manifest es0 else Manifest (kept_entries most cutoff es))"
    by (simp add: m e pruned_def Let_def)
  then show thesis
    using that all by (cases "length (kept_entries most cutoff es) = length es") (auto simp: history_list_def r e(2) len sets)
qed

lemma prune_exact_facts:
  assumes L: "history_lib_ok L" and s: "history_state L h" and r: "result_of (prune_history L now pol) h = Inr n"
    and h': "h' = final_of (prune_history L now pol) h"
  shows "hs_vault h' = hs_vault h \<and> map_of (hs_objects h') = map_of (hs_objects h) |` snapshot_refs h' \<and>
    (\<forall>rel es. history_list L rel h = Inr es \<longrightarrow> es \<noteq> [] \<longrightarrow>
       (\<exists>es'. history_list L rel h' = Inr es' \<and> set es' \<subseteq> set es \<and> hd es \<in> set es' \<and>
          (hp_max_per_file pol > 0 \<longrightarrow> int (length es') \<le> hp_max_per_file pol) \<and>
          (\<forall>e \<in> set es - set es'. hp_max_age pol > 0 \<and> he_time e < now - hp_max_age pol \<or>
             hp_max_per_file pol > 0 \<and> int (length es') = hp_max_per_file pol)))"
proof -
  have h: "store_ok L h" using history_state_ok s L by blast
  note p = prune_steps[OF L h r, folded h']
  let ?c = "prune_cutoff now pol" and ?m = "hp_max_per_file pol"
  have "\<exists>es'. history_list L rel h' = Inr es' \<and> set es' \<subseteq> set es \<and> hd es \<in> set es' \<and>
          (?m > 0 \<longrightarrow> int (length es') \<le> ?m) \<and>
          (\<forall>e \<in> set es - set es'. hp_max_age pol > 0 \<and> he_time e < now - hp_max_age pol \<or> ?m > 0 \<and> int (length es') = ?m)"
    if l: "history_list L rel h = Inr es" "es \<noteq> []" for rel es
  proof -
    obtain es' where e: "history_list L rel h' = Inr es'" "set es' = set (kept_entries ?m ?c es)"
        "length es' = length (kept_entries ?m ?c es)"
      using history_list_pruned[OF L l] p by metis
    note k = kept_entries_facts[where most = ?m and cutoff = ?c and es = es]
    have "hp_max_age pol > 0 \<and> he_time e < now - hp_max_age pol \<or> ?m > 0 \<and> int (length es') = ?m"
      if "e \<in> set es" "e \<notin> set es'" for e
      using k(4) k(5)[of e] that e(2,3) by (auto simp: prune_cutoff_def split: if_splits)
    then show ?thesis using k(1,2,4) l(2) e by (intro exI[of _ es']) auto
  qed
  then show ?thesis using p by blast
qed

text \<open>
  C12: Pruning removes exactly what it should: when it succeeds the vault is untouched, the blobs left
  are those still named by a manifest or a checkpoint (nothing referenced is collected and nothing
  unreferenced stays), and for every file with snapshots the list afterwards is a part of the one
  before that contains the newest snapshot and at most the configured number; a snapshot that went was
  older than the maximal age, or the list is full.
\<close>
theorem prune_exact:
  assumes "history_lib_ok L" and "history_state L h" and "result_of (prune_history L now pol) h = Inr n"
    and "h' = final_of (prune_history L now pol) h"
  shows "hs_vault h' = hs_vault h \<and> map_of (hs_objects h') = map_of (hs_objects h) |` snapshot_refs h' \<and>
    (\<forall>rel es. history_list L rel h = Inr es \<longrightarrow> es \<noteq> [] \<longrightarrow>
       (\<exists>es'. history_list L rel h' = Inr es' \<and> set es' \<subseteq> set es \<and> hd es \<in> set es' \<and>
          (hp_max_per_file pol > 0 \<longrightarrow> int (length es') \<le> hp_max_per_file pol) \<and>
          (\<forall>e \<in> set es - set es'. hp_max_age pol > 0 \<and> he_time e < now - hp_max_age pol \<or>
             hp_max_per_file pol > 0 \<and> int (length es') = hp_max_per_file pol)))"
  by (rule prune_exact_facts[OF assms])


definition keep_one :: hist_policy where
  "keep_one = \<lparr>hp_max_per_file = 1, hp_max_age = 0, hp_max_checkpoint_age = 0\<rparr>"

lemmas prune_run = prune_history_def keep_one_def list_checkpoints_def checkpoint_docs_def prune_manifests.simps
  kept_entries_def has_suffix_def trim_suffix_def look_def collect_objects_def

lemma prune_hist_2: "result_of (prune_history hist_L 30 keep_one) hist_2 = Inr 1"
  by (simp add: hist_2_eq hist_run prune_run result_of_def)

theorem prune_exact_witness:
  "\<exists>h' es'. h' = final_of (prune_history hist_L 30 keep_one) hist_2 \<and> hs_vault h' = hs_vault hist_2 \<and>
    map_of (hs_objects h') = map_of (hs_objects hist_2) |` snapshot_refs h' \<and>
    history_list hist_L ''a.md'' h' = Inr es' \<and> int (length es') \<le> 1"
proof -
  have l: "history_list hist_L ''a.md'' hist_2 = Inr [\<lparr>he_id = id_two, he_time = 20, he_size = 3\<rparr>, \<lparr>he_id = id_one, he_time = 10, he_size = 3\<rparr>]"
    by (simp add: hist_2_eq hist_run)
  note p = prune_exact[OF hist_L_ok hist_2_state prune_hist_2 refl]
  moreover have "hp_max_per_file keep_one = 1" by (simp add: keep_one_def)
  ultimately show ?thesis using l p by (metis list.distinct(1) zero_less_one)
qed


lemma restore_undoable_facts:
  assumes L: "history_lib_ok L" and s: "history_state L h" and c: "clean_path p = Some rel"
    and r: "result_of (restore_snapshot L now p i) h = Inr e" and h': "h' = final_of (restore_snapshot L now p i) h"
  shows "(\<exists>data. history_content (he_id e) h = Inr data \<and> map_of (hs_vault h') rel = Some (Regular data)) \<and>
    (\<forall>q old. q \<noteq> rel \<longrightarrow> map_of (hs_vault h) q = Some (Regular old) \<longrightarrow> map_of (hs_vault h') q = Some (Regular old)) \<and>
    (\<forall>old. map_of (hs_vault h) rel = Some (Regular old) \<longrightarrow>
       (\<exists>es. history_list L rel h' = Inr es \<and> content_id L old \<in> he_id ` set es \<and>
         (\<exists>kept. history_content (content_id L old) h' = Inr kept \<and> content_id L kept = content_id L old)))"
proof -
  have h: "store_ok L h" using history_state_ok s L by blast
  obtain es data v where rs: "history_list L rel h = Inr es" "history_content (he_id e) h = Inr data"
      "is_ok (result_of (take_snapshot L now rel) h)" "write_file rel data (hs_vault h) = Some v"
      "h' = (final_of (take_snapshot L now rel) h)\<lparr>hs_vault := v\<rparr>"
    using restore_steps[OF c r] unfolding h' by metis
  have idem: "clean_path rel = Some rel" by (rule clean_path_idem[OF c])
  have kept: "\<exists>es. history_list L rel h' = Inr es \<and> content_id L old \<in> he_id ` set es \<and>
         (\<exists>kept. history_content (content_id L old) h' = Inr kept \<and> content_id L kept = content_id L old)"
    if old: "map_of (hs_vault h) rel = Some (Regular old)" for old
  proof -
    have rd: "read_file rel (hs_vault h) = Inr old" using old by (simp add: read_file_Inr)
    have ok: "store_ok L h'" using keeping_final[OF keeping_restore[OF L] h] unfolding h' .
    have listed: "\<exists>es. history_list L rel h' = Inr es \<and> content_id L old \<in> he_id ` set es"
    proof (cases "es = [] \<or> he_id (hd es) \<noteq> content_id L old")
      case True
      have f: "h' = (snapshot_final L now rel old es h)\<lparr>hs_vault := v\<rparr>"
        using rs(5) take_snapshot_new(2)[OF idem rd rs(1) True] by simp
      have "map_of (hs_manifests h') (rel @ json_suffix) = Some (Manifest (new_entry L now old # es))"
        by (simp add: f snapshot_final_def manifest_put_def update_conv')
      moreover have "sort_ok (hl_sort L)" using L by (simp add: history_lib_ok_def)
      ultimately show ?thesis by (auto simp: history_list_def idem sort_ok_set new_entry_def)
    next
      case False
      have "final_of (take_snapshot L now rel) h = h"
        using take_snapshot_none(4)[OF idem rd rs(1), of now] False by (simp add: final_of_def)
      then have "history_list L rel h' = Inr es" using rs(1,5) by (simp add: history_list_def idem)
      moreover have "content_id L old \<in> he_id ` set es" using False by (cases es) auto
      ultimately show ?thesis by blast
    qed
    then have "content_id L old \<in> dom (map_of (hs_objects h'))"
      using history_list_refs[OF L] store_okD(4)[OF ok] by blast
    then obtain kept where "history_content (content_id L old) h' = Inr kept" "content_id L kept = content_id L old"
      using content_available[OF L store_okD(1)[OF ok]] by metis
    then show ?thesis using listed by blast
  qed
  have "map_of (hs_vault h') rel = Some (Regular data)" using write_file_at[OF rs(4)] rs(5) by simp
  moreover have "map_of (hs_vault h') q = Some (Regular old)" if "q \<noteq> rel" "map_of (hs_vault h) q = Some (Regular old)" for q old
    using write_file_regular[OF rs(4) that(2,1)] rs(5) by simp
  ultimately show ?thesis using rs(2) kept by blast
qed

lemma pick_target_which:
  "pick_target i es = Inr e \<Longrightarrow>
     if i = [] then es \<noteq> [] \<and> e = hd es else filter (\<lambda>x. has_prefix (he_id x) i) es = [e]"
  by (auto simp: pick_target_def split: if_splits list.splits)

lemma history_list_newest:
  assumes "history_lib_ok L" and "history_list L p h = Inr es" and "x \<in> set es"
  shows "he_time x \<le> he_time (hd es)"
proof -
  have "sort_ok (hl_sort L)" using assms(1) by (simp add: history_lib_ok_def)
  then have "sorted (map (\<lambda>e. - he_time e) es)"
    using assms(2) by (auto simp: history_list_def sort_ok_def split: option.splits manifest_file.splits)
  then show ?thesis using assms(3) by (cases es) auto
qed

lemma restore_chosen:
  assumes L: "history_lib_ok L" and c: "clean_path p = Some rel"
    and r: "result_of (restore_snapshot L now p i) h = Inr e"
  shows "\<exists>es. history_list L rel h = Inr es \<and> e \<in> set es \<and>
    (if i = [] then \<forall>x \<in> set es. he_time x \<le> he_time e else filter (\<lambda>x. has_prefix (he_id x) i) es = [e])"
proof -
  obtain es where es: "history_list L rel h = Inr es" "pick_target i es = Inr e"
    using restore_steps[OF c r] by metis
  then show ?thesis
    using pick_target_which[OF es(2)] pick_target_in[OF es(2)] history_list_newest[OF L es(1)]
    by (intro exI[of _ es]) (auto split: if_splits)
qed

text \<open>
  C15: A restore writes the snapshot that was asked for and is itself undoable. The snapshot it
  returns is one of the file's: the only one whose id begins with the given id or, without an id, a
  newest one. The file then has exactly the content of that snapshot, every other file of the vault is
  as before, and the content the file had before is still there: its id is among the file's snapshots
  and its blob is readable.
\<close>
theorem restore_undoable:
  assumes "history_lib_ok L" and "history_state L h" and "clean_path p = Some rel"
    and "result_of (restore_snapshot L now p i) h = Inr e" and "h' = final_of (restore_snapshot L now p i) h"
  shows "(\<exists>es. history_list L rel h = Inr es \<and> e \<in> set es \<and>
       (if i = [] then \<forall>x \<in> set es. he_time x \<le> he_time e else filter (\<lambda>x. has_prefix (he_id x) i) es = [e])) \<and>
    (\<exists>data. history_content (he_id e) h = Inr data \<and> map_of (hs_vault h') rel = Some (Regular data)) \<and>
    (\<forall>q old. q \<noteq> rel \<longrightarrow> map_of (hs_vault h) q = Some (Regular old) \<longrightarrow> map_of (hs_vault h') q = Some (Regular old)) \<and>
    (\<forall>old. map_of (hs_vault h) rel = Some (Regular old) \<longrightarrow>
       (\<exists>es. history_list L rel h' = Inr es \<and> content_id L old \<in> he_id ` set es \<and>
         (\<exists>kept. history_content (content_id L old) h' = Inr kept \<and> content_id L kept = content_id L old)))"
  using restore_chosen[OF assms(1,3,4)] restore_undoable_facts[OF assms] by blast

lemma restore_hist_2: "result_of (restore_snapshot hist_L 30 ''a.md'' id_one) hist_2 = Inr \<lparr>he_id = id_one, he_time = 10, he_size = 3\<rparr>"
  by (simp add: hist_2_eq hist_run result_of_def look_def has_prefix_def parent_dirs_def)

theorem restore_undoable_witness:
  "\<exists>h' es. h' = final_of (restore_snapshot hist_L 30 ''a.md'' id_one) hist_2 \<and>
     (\<exists>data. history_content id_one hist_2 = Inr data \<and> map_of (hs_vault h') ''a.md'' = Some (Regular data)) \<and>
     history_list hist_L ''a.md'' h' = Inr es \<and> id_two \<in> he_id ` set es"
proof -
  have "map_of (hs_vault hist_2) ''a.md'' = Some (Regular ''two'')" by (simp add: hist_2_eq)
  then show ?thesis using restore_undoable[OF hist_L_ok hist_2_state clean_a restore_hist_2 refl] hist_ids(2) by fastforce
qed


text \<open>
  C11: Undoing a task restores the state before it: when the undo reports no path that it could not
  handle, every file the checkpoint recorded has a content with the recorded hash again, and every file
  that was new in the task is gone.
\<close>
theorem undo_reverts_task:
  assumes "history_lib_ok L" and "history_state L h" and "load_checkpoint t h = Inr cp" and "tracks_once cp"
    and "result_of (undo_checkpoint L now t) h = Inr cp'" and "tc_skipped cp' = tc_skipped cp"
    and "h' = final_of (undo_checkpoint L now t) h"
  shows "(\<forall>f \<in> set (tc_files cp). \<exists>c. map_of (hs_vault h') (cf_path f) = Some (Regular c) \<and> content_id L c = he_id (cf_entry f)) \<and>
     (\<forall>p \<in> set (tc_new cp). map_of (hs_vault h') p = None)"
  unfolding assms(7) by (rule undo_facts[OF assms(1) history_state_ok[OF assms(2,1)] assms(3-6)])

definition hist_3 :: history where
  "hist_3 = history_after hist_L [RecordFile 10 ''t'' ''a.md'', RecordFile 11 ''t'' ''b.md'',
     EditVault [(''a.md'', Regular ''two''), (''b.md'', Regular ''two'')]] hist_0"

definition task_3 :: task_checkpoint where
  "task_3 = \<lparr>tc_task = ''t'', tc_time = 10,
     tc_files = [\<lparr>cf_path = ''a.md'', cf_entry = \<lparr>he_id = id_one, he_time = 10, he_size = 3\<rparr>\<rparr>],
     tc_new = [''b.md''], tc_skipped = []\<rparr>"

lemma valid_t: "valid_task_id ''t''" by code_simp

lemmas task_run = checkpoint_path_def begin_checkpoint_def load_checkpoint_def save_checkpoint_def valid_t tracks_def
  record_path_def look_def undo_checkpoint_def restore_files.simps remove_news.simps remove_new_def remove_path_def
  has_prefix_def parent_dirs_def is_ok_def

lemma hist_3_eq: "hist_3 = \<lparr>hs_vault = [(''a.md'', Regular ''two''), (''b.md'', Regular ''two'')],
   hs_objects = [(id_one, Regular ''one'')],
   hs_manifests = [(''a.md.json'', Manifest [\<lparr>he_id = id_one, he_time = 10, he_size = 3\<rparr>])],
   hs_checkpoints = [(''t.json'', CheckpointDoc False task_3)]\<rparr>"
  by (simp add: hist_3_def hist_run task_run task_3_def)

lemma hist_3_undo: "load_checkpoint ''t'' hist_3 = Inr task_3" "result_of (undo_checkpoint hist_L 20 ''t'') hist_3 = Inr task_3"
  by (simp_all add: hist_3_eq hist_run task_run task_3_def result_of_def)

theorem undo_reverts_task_witness:
  "\<exists>h' c. h' = final_of (undo_checkpoint hist_L 20 ''t'') hist_3 \<and> map_of (hs_vault h') ''a.md'' = Some (Regular c) \<and>
     content_id hist_L c = id_one \<and> map_of (hs_vault h') ''b.md'' = None"
proof -
  have s: "history_state hist_L hist_3" unfolding hist_3_def by (rule history_state_after[OF hist_0_state])
  have o: "tracks_once task_3" by (simp add: tracks_once_def task_3_def clean_a clean_b)
  show ?thesis using undo_reverts_task[OF hist_L_ok s hist_3_undo(1) o hist_3_undo(2) refl refl] by (simp add: task_3_def)
qed

lemma restore_unlisted:
  assumes "clean_path p = Some rel" and "history_list L rel h = Inr es" and "i \<noteq> []"
    and "length (filter (\<lambda>e. has_prefix (he_id e) i) es) \<noteq> 1"
  shows "\<exists>e. restore_snapshot L now p i h = (Inl e, [])"
proof -
  have "\<exists>e. pick_target i es = Inl e"
    using assms(3,4) by (auto simp: pick_target_def split: list.split)
  then show ?thesis by (auto simp: restore_snapshot_def assms(1,2) andthen_def act_runs bind_err_def)
qed

lemma undo_needs_facts:
  assumes "history_lib_ok L" and "history_state L h" and "load_checkpoint t h = Inr cp" and "tc_files cp = [f]" "tc_new cp = []"
    and c: "clean_path (cf_path f) = Some (cf_path f)" and l: "history_list L (cf_path f) h = Inr es"
    and n: "length (filter (\<lambda>e. he_id e = he_id (cf_entry f)) es) \<noteq> 1" and "valid_task_id (tc_task cp)"
  shows "(\<exists>c. history_content (he_id (cf_entry f)) h = Inr c) \<and>
    result_of (undo_checkpoint L now t) h = Inr (cp\<lparr>tc_skipped := tc_skipped cp @ [cf_path f]\<rparr>) \<and>
    hs_vault (final_of (undo_checkpoint L now t) h) = hs_vault h"
proof -
  have h: "store_ok L h" using history_state_ok assms(1,2) by blast
  let ?i = "he_id (cf_entry f)"
  have ref: "?i \<in> snapshot_refs h"
    using load_checkpoint_refs[OF assms(3)] by (auto simp: snapshot_refs_def checkpoint_ids_def assms(4))
  have len: "length ?i = 64" by (rule doc_refs_ids[OF assms(1) h ref])
  have "length (he_id e) = 64" if "e \<in> set es" for e
    using doc_refs_ids[OF assms(1) h] history_list_refs[OF assms(1) l] that by (auto simp: snapshot_refs_def)
  then have "filter (\<lambda>e. has_prefix (he_id e) ?i) es = filter (\<lambda>e. he_id e = ?i) es"
    using len prefix_same by (intro filter_cong) (auto simp: has_prefix_def)
  moreover have "?i \<noteq> []" using len by auto
  ultimately obtain e where e: "restore_snapshot L now (cf_path f) ?i h = (Inl e, [])"
    using restore_unlisted[OF c l] n by metis
  then have "undo_checkpoint L now t h = (Inr (cp\<lparr>tc_skipped := tc_skipped cp @ [cf_path f]\<rparr>),
     [hs_checkpoints_update (AList.update (tc_task cp @ json_suffix) (CheckpointDoc False (cp\<lparr>tc_skipped := tc_skipped cp @ [cf_path f]\<rparr>))) h])"
    by (simp add: undo_checkpoint_def andthen_def act_runs assms caught_def is_ok_def save_checkpoint_def Let_def)
  then show ?thesis using history_survives_facts[OF assms(1,2) ref] by (auto simp: result_of_def final_of_def)
qed

text \<open>
  C22: An undo needs the recorded snapshot to be listed exactly once: when the snapshot that a
  checkpoint recorded for its file occurs in the file's manifest twice (the content came back later) or
  no more (pruned, its blob protected by the checkpoint), then, although its blob is still readable,
  undoing the task leaves the file as it is and reports it as skipped.
\<close>
theorem undo_needs_listed_once:
  assumes "history_lib_ok L" and "history_state L h" and "load_checkpoint t h = Inr cp" and "tc_files cp = [f]" "tc_new cp = []"
    and "clean_path (cf_path f) = Some (cf_path f)" and "history_list L (cf_path f) h = Inr es"
    and "length (filter (\<lambda>e. he_id e = he_id (cf_entry f)) es) \<noteq> 1" and "valid_task_id (tc_task cp)"
  shows "(\<exists>c. history_content (he_id (cf_entry f)) h = Inr c) \<and>
    result_of (undo_checkpoint L now t) h = Inr (cp\<lparr>tc_skipped := tc_skipped cp @ [cf_path f]\<rparr>) \<and>
    hs_vault (final_of (undo_checkpoint L now t) h) = hs_vault h"
  by (rule undo_needs_facts[OF assms])

text \<open>The two ways there: the content comes back, and the snapshot is pruned.\<close>

definition hist_again :: history where
  "hist_again = history_after hist_L [RecordFile 10 ''t'' ''a.md'', edit_a ''two'', TakeSnapshot 20 ''a.md'',
     edit_a ''one'', TakeSnapshot 30 ''a.md'', edit_a ''two''] hist_0"

definition hist_pruned :: history where
  "hist_pruned = history_after hist_L [RecordFile 10 ''t'' ''a.md'', edit_a ''two'', TakeSnapshot 20 ''a.md'',
     PruneHistory 30 keep_one] hist_0"

definition task_a :: task_checkpoint where
  "task_a = task_3\<lparr>tc_new := []\<rparr>"

lemma again_facts: "load_checkpoint ''t'' hist_again = Inr task_a" "history_list hist_L ''a.md'' hist_again =
   Inr [\<lparr>he_id = id_one, he_time = 30, he_size = 3\<rparr>, \<lparr>he_id = id_two, he_time = 20, he_size = 3\<rparr>, \<lparr>he_id = id_one, he_time = 10, he_size = 3\<rparr>]"
  by (simp_all add: hist_again_def hist_run task_run task_3_def task_a_def edit_a_def)

lemma pruned_facts: "load_checkpoint ''t'' hist_pruned = Inr task_a"
  "history_list hist_L ''a.md'' hist_pruned = Inr [\<lparr>he_id = id_two, he_time = 20, he_size = 3\<rparr>]"
  by (simp_all add: hist_pruned_def hist_run task_run task_3_def task_a_def edit_a_def prune_run)


theorem undo_needs_listed_once_witness:
  "(\<exists>c. history_content id_one hist_again = Inr c) \<and>
   result_of (undo_checkpoint hist_L 40 ''t'') hist_again = Inr (task_a\<lparr>tc_skipped := [''a.md'']\<rparr>) \<and>
   (\<exists>c. history_content id_one hist_pruned = Inr c) \<and>
   result_of (undo_checkpoint hist_L 40 ''t'') hist_pruned = Inr (task_a\<lparr>tc_skipped := [''a.md'']\<rparr>)"
proof -
  have s: "history_state hist_L hist_again" "history_state hist_L hist_pruned"
    unfolding hist_again_def hist_pruned_def by (rule history_state_after[OF hist_0_state])+
  let ?f = "\<lparr>cf_path = ''a.md'', cf_entry = \<lparr>he_id = id_one, he_time = 10, he_size = 3\<rparr>\<rparr>"
  have t: "tc_files task_a = [?f]" "tc_new task_a = []" "valid_task_id (tc_task task_a)" "tc_skipped task_a = []"
    by (simp_all add: task_a_def task_3_def valid_t)
  have c: "clean_path (cf_path ?f) = Some (cf_path ?f)" by (simp add: clean_a)
  show ?thesis
    using undo_needs_listed_once[OF hist_L_ok s(1) again_facts(1) t(1,2) c, where now = 40]
      undo_needs_listed_once[OF hist_L_ok s(2) pruned_facts(1) t(1,2) c, where now = 40]
      again_facts(2) pruned_facts(2) t(3,4) ids_differ by simp
qed

text \<open>What a purge of paths leaves.\<close>

lemma those_map_in: "those (map f xs) = Some ys \<Longrightarrow> x \<in> set xs \<Longrightarrow> \<exists>y \<in> set ys. f x = Some y"
  by (induction xs arbitrary: ys) (auto split: option.splits)

lemma those_map_back: "those (map f xs) = Some ys \<Longrightarrow> y \<in> set ys \<Longrightarrow> \<exists>x \<in> set xs. f x = Some y"
  by (induction xs arbitrary: ys) (auto split: option.splits)

lemma clean_json: "clean_path r = Some r \<Longrightarrow> gone ts (r @ json_suffix) \<longleftrightarrow> r \<in> set ts"
  by (simp add: gone_def)

lemma without_tracks: "p \<in> set ts \<Longrightarrow> \<not> tracks (without_paths ts cp) p"
  by (auto simp: tracks_def without_paths_def list_ex_iff)

lemma purge_no_trace_store:
  assumes h: "store_ok L h" and h': "h' = final_of (purge_paths L ps) h"
  shows "case result_of (purge_paths L ps) h of
      Inl e \<Rightarrow> snd (purge_paths L ps h) = []
    | Inr _ \<Rightarrow> hs_vault h' = hs_vault h \<and>
        map_of (hs_objects h') = map_of (hs_objects h) |` snapshot_refs h' \<and>
        (\<forall>p \<in> set ps. \<exists>r. clean_path p = Some r \<and> history_list L p h' = Inr [] \<and>
           (\<forall>n b cp. map_of (hs_checkpoints h') n = Some (CheckpointDoc b cp) \<longrightarrow> \<not> tracks cp r)) \<and>
        (\<forall>r. clean_path r = Some r \<longrightarrow> (\<forall>p \<in> set ps. clean_path p \<noteq> Some r) \<longrightarrow> history_list L r h' = history_list L r h)"
proof (cases "purge_inputs L ps h")
  case (Inl e)
  then show ?thesis by (simp add: result_of_def purge_paths_run)
next
  case (Inr x)
  obtain ts ms cps where "x = (ts, ms, cps)" by (cases x)
  then have i: "purge_inputs L ps h = Inr (ts, ms, cps)" using Inr by simp
  note inp = purge_inputs_Inr[OF h i]
  have ts: "\<exists>r \<in> set ts. clean_path p = Some r" if "p \<in> set ps" for p using those_map_in[OF inp(1) that] .
  have named: "\<exists>p \<in> set ps. clean_path p = Some r" if "r \<in> set ts" for r
    using those_map_back[OF inp(1) that] .
  have run: "purge_paths L ps h = purge_writes ts ms cps h" by (simp add: purge_paths_run i)
  obtain ms' ds os where e: "result_of (purge_writes ts ms cps) h = Inr ()"
      "final_of (purge_writes ts ms cps) h = h\<lparr>hs_manifests := ms', hs_checkpoints := ds, hs_objects := os\<rparr>"
      "map_of ms' = (\<lambda>m. if gone ts m then None else map_option Manifest (map_of ms m))"
      "map_of ds = (\<lambda>m. Option.bind (map_of cps m) (purged_doc ts))"
      "map_of os = map_of (hs_objects h) |` (manifest_refs ms' \<union> doc_refs ds)"
    using purge_effect[OF h i] by blast
  have f: "h' = h\<lparr>hs_manifests := ms', hs_checkpoints := ds, hs_objects := os\<rparr>"
    using e(2) unfolding h' final_of_def run .
  have ms: "map_of (hs_manifests h) m = map_option Manifest (map_of ms m)" for m unfolding inp(2) map_of_manifests ..
  have list: "history_list L p h' = Inr []" if "clean_path p = Some r" "r \<in> set ts" for p r
    using that clean_json[OF clean_path_idem[OF that(1)]] by (simp add: history_list_def f e(3))
  have doc: "\<not> tracks cp r" if "map_of ds n = Some (CheckpointDoc b cp)" "r \<in> set ts" for n b cp r
    using that without_tracks by (auto simp: e(4) bind_eq_Some_conv purged_doc_def Let_def split: if_splits)
  have other: "history_list L r h' = history_list L r h" if "clean_path r = Some r" "\<forall>p \<in> set ps. clean_path p \<noteq> Some r" for r
  proof -
    have "r \<notin> set ts" using named that(2) by blast
    then have "map_of ms' (r @ json_suffix) = map_of (hs_manifests h) (r @ json_suffix)"
      using clean_json[OF that(1)] by (simp add: e(3) ms)
    then show ?thesis by (simp add: history_list_def that(1) f)
  qed
  have "\<exists>r. clean_path p = Some r \<and> history_list L p h' = Inr [] \<and>
      (\<forall>n b cp. map_of (hs_checkpoints h') n = Some (CheckpointDoc b cp) \<longrightarrow> \<not> tracks cp r)" if "p \<in> set ps" for p
    using ts[OF that] list doc f by auto
  moreover have "result_of (purge_paths L ps) h = Inr ()" using e(1) by (simp add: result_of_def run)
  moreover have "snapshot_refs h' = manifest_refs ms' \<union> doc_refs ds" by (simp add: f snapshot_refs_def)
  ultimately show ?thesis using other e(5) by (simp add: f)
qed

lemma purge_no_trace_facts:
  assumes L: "history_lib_ok L" and s: "history_state L h" and h': "h' = final_of (purge_paths L ps) h"
  shows "case result_of (purge_paths L ps) h of
      Inl e \<Rightarrow> snd (purge_paths L ps h) = []
    | Inr _ \<Rightarrow> hs_vault h' = hs_vault h \<and>
        map_of (hs_objects h') = map_of (hs_objects h) |` snapshot_refs h' \<and>
        (\<forall>p \<in> set ps. \<exists>r. clean_path p = Some r \<and> history_list L p h' = Inr [] \<and>
           (\<forall>n b cp. map_of (hs_checkpoints h') n = Some (CheckpointDoc b cp) \<longrightarrow> \<not> tracks cp r)) \<and>
        (\<forall>r. clean_path r = Some r \<longrightarrow> (\<forall>p \<in> set ps. clean_path p \<noteq> Some r) \<longrightarrow> history_list L r h' = history_list L r h)"
  using purge_no_trace_store[OF _ h'] history_state_ok[OF s L] by blast

text \<open>The paths a purge is asked to forget, and what it leaves of the checkpoints.\<close>

definition is_target :: "string list \<Rightarrow> string \<Rightarrow> bool" where
  "is_target ps r \<longleftrightarrow> (\<exists>p \<in> set ps. clean_path p = Some r)"

lemma purged_doc_cases:
  assumes "\<And>r. List.member ts r = is_target ps r"
  shows "case purged_doc ts cp of
      None \<Rightarrow> (\<exists>r. tracks cp r) \<and> (\<forall>r. tracks cp r \<longrightarrow> is_target ps r)
    | Some d \<Rightarrow> \<exists>cp'. d = CheckpointDoc False cp' \<and> tc_task cp' = tc_task cp \<and> tc_time cp' = tc_time cp \<and>
        tc_files cp' = filter (\<lambda>f. \<not> is_target ps (cf_path f)) (tc_files cp) \<and>
        tc_new cp' = filter (\<lambda>q. \<not> is_target ps q) (tc_new cp) \<and>
        tc_skipped cp' = filter (\<lambda>q. \<not> is_target ps q) (tc_skipped cp) \<and> (cp' = cp \<or> (\<exists>r. tracks cp' r))"
proof -
  have w: "without_paths ts cp = cp\<lparr>tc_files := filter (\<lambda>f. \<not> is_target ps (cf_path f)) (tc_files cp),
     tc_new := filter (\<lambda>q. \<not> is_target ps q) (tc_new cp),
     tc_skipped := filter (\<lambda>q. \<not> is_target ps q) (tc_skipped cp)\<rparr>"
    by (simp only: without_paths_def assms)
  have tr: "(\<exists>r. tracks c r) \<longleftrightarrow> \<not> (tc_files c = [] \<and> tc_new c = [] \<and> tc_skipped c = [])" for c
    by (cases "tc_files c"; cases "tc_new c"; cases "tc_skipped c") (auto simp: tracks_def)
  show ?thesis
  proof (cases "purged_doc ts cp")
    case None
    then have "without_paths ts cp \<noteq> cp" and empty: "tc_files (without_paths ts cp) = []"
      "tc_new (without_paths ts cp) = []" "tc_skipped (without_paths ts cp) = []"
      by (auto simp: purged_doc_def Let_def split: if_splits)
    moreover from this have "\<exists>r. tracks cp r" unfolding tr by (auto simp: w)
    moreover have "is_target ps r" if "tracks cp r" for r
      using that empty by (auto simp: w tracks_def filter_empty_conv list_ex_iff)
    ultimately show ?thesis using None by simp
  next
    case (Some d)
    then have "d = CheckpointDoc False (without_paths ts cp)"
      "without_paths ts cp = cp \<or> (\<exists>r. tracks (without_paths ts cp) r)"
      unfolding tr by (auto simp: purged_doc_def Let_def split: if_splits)
    then show ?thesis using Some by (auto simp: w)
  qed
qed

lemma purge_checkpoints_left:
  assumes h: "store_ok L h" and ok: "result_of (purge_paths L ps) h = Inr u"
    and h': "h' = final_of (purge_paths L ps) h"
  shows "(\<forall>n. map_of (hs_checkpoints h) n = None \<longrightarrow> map_of (hs_checkpoints h') n = None) \<and>
    (\<forall>n d. map_of (hs_checkpoints h) n = Some d \<longrightarrow> (\<exists>cp. d = CheckpointDoc False cp \<and>
      (case map_of (hs_checkpoints h') n of
        None \<Rightarrow> (\<exists>r. tracks cp r) \<and> (\<forall>r. tracks cp r \<longrightarrow> is_target ps r)
      | Some d' \<Rightarrow> \<exists>cp'. d' = CheckpointDoc False cp' \<and> tc_task cp' = tc_task cp \<and> tc_time cp' = tc_time cp \<and>
          tc_files cp' = filter (\<lambda>f. \<not> is_target ps (cf_path f)) (tc_files cp) \<and>
          tc_new cp' = filter (\<lambda>q. \<not> is_target ps q) (tc_new cp) \<and>
          tc_skipped cp' = filter (\<lambda>q. \<not> is_target ps q) (tc_skipped cp) \<and> (cp' = cp \<or> (\<exists>r. tracks cp' r)))))"
proof -
  obtain ts ms cps where i: "purge_inputs L ps h = Inr (ts, ms, cps)"
    using ok by (cases "purge_inputs L ps h") (auto simp: result_of_def purge_paths_run)
  note inp = purge_inputs_Inr[OF h i]
  have mem: "List.member ts r = is_target ps r" for r
    using those_map_in[OF inp(1)] those_map_back[OF inp(1)] by (fastforce simp: is_target_def)
  obtain ms' ds os where e: "final_of (purge_writes ts ms cps) h = h\<lparr>hs_manifests := ms', hs_checkpoints := ds, hs_objects := os\<rparr>"
      "map_of ds = (\<lambda>m. Option.bind (map_of cps m) (purged_doc ts))"
    using purge_effect[OF h i] by blast
  have f: "hs_checkpoints h' = ds"
    using e(1) by (simp add: h' final_of_def purge_paths_run i)
  have d: "map_of (hs_checkpoints h) m = map_option (CheckpointDoc False) (map_of cps m)" for m
    unfolding inp(3) map_of_docs ..
  show ?thesis
    unfolding f e(2) d using purged_doc_cases[OF mem] by auto
qed

text \<open>
  C14: A purge of paths leaves no trace of them and takes nothing else: if it fails it has written
  nothing; if it succeeds, the vault is untouched, no target path has a snapshot, no checkpoint tracks
  one, the blobs left are exactly those still referenced, and the snapshots of every other path are as
  they were. A checkpoint that is left has the task, the time and, in their order, all the entries of
  the paths that are not targets; one that is deleted tracked target paths and no others; none is added.
\<close>
theorem purge_leaves_no_trace:
  assumes "history_lib_ok L" and "history_state L h" and "h' = final_of (purge_paths L ps) h"
  shows "case result_of (purge_paths L ps) h of
      Inl e \<Rightarrow> snd (purge_paths L ps h) = []
    | Inr _ \<Rightarrow> hs_vault h' = hs_vault h \<and>
        map_of (hs_objects h') = map_of (hs_objects h) |` snapshot_refs h' \<and>
        (\<forall>p \<in> set ps. \<exists>r. clean_path p = Some r \<and> history_list L p h' = Inr [] \<and>
           (\<forall>n b cp. map_of (hs_checkpoints h') n = Some (CheckpointDoc b cp) \<longrightarrow> \<not> tracks cp r)) \<and>
        (\<forall>r. clean_path r = Some r \<longrightarrow> \<not> is_target ps r \<longrightarrow> history_list L r h' = history_list L r h) \<and>
        (\<forall>n. map_of (hs_checkpoints h) n = None \<longrightarrow> map_of (hs_checkpoints h') n = None) \<and>
        (\<forall>n d. map_of (hs_checkpoints h) n = Some d \<longrightarrow> (\<exists>cp. d = CheckpointDoc False cp \<and>
          (case map_of (hs_checkpoints h') n of
            None \<Rightarrow> (\<exists>r. tracks cp r) \<and> (\<forall>r. tracks cp r \<longrightarrow> is_target ps r)
          | Some d' \<Rightarrow> \<exists>cp'. d' = CheckpointDoc False cp' \<and> tc_task cp' = tc_task cp \<and> tc_time cp' = tc_time cp \<and>
              tc_files cp' = filter (\<lambda>f. \<not> is_target ps (cf_path f)) (tc_files cp) \<and>
              tc_new cp' = filter (\<lambda>q. \<not> is_target ps q) (tc_new cp) \<and>
              tc_skipped cp' = filter (\<lambda>q. \<not> is_target ps q) (tc_skipped cp) \<and> (cp' = cp \<or> (\<exists>r. tracks cp' r)))))"
proof (cases "result_of (purge_paths L ps) h")
  case (Inl e)
  then show ?thesis using purge_no_trace_facts[OF assms] by simp
next
  case (Inr u)
  have other: "(\<forall>p \<in> set ps. clean_path p \<noteq> Some r) = (\<not> is_target ps r)" for r by (auto simp: is_target_def)
  note facts = purge_no_trace_facts[OF assms, unfolded other Inr sum.case]
  note left = purge_checkpoints_left[OF history_state_ok[OF assms(2,1)] Inr assms(3)]
  show ?thesis using facts left unfolding Inr sum.case by (elim conjE, intro conjI)
qed

lemmas purge_run = purge_paths_def clean_paths_def verify_entry_def decode_checkpoint_def has_suffix_def trim_suffix_def
  purge_manifest_def purge_checkpoint_def without_paths_def collect_objects_def surviving_ids_def checkpoint_ids_def zero_time_def
  preflight_purge_def

lemma hist_3_purge: "result_of (purge_paths hist_L [''a.md'']) hist_3 = Inr ()"
  by (simp add: hist_3_eq hist_run task_run task_3_def purge_run result_of_def)

theorem purge_leaves_no_trace_witness:
  "\<exists>h'. h' = final_of (purge_paths hist_L [''a.md'']) hist_3 \<and> hs_vault h' = hs_vault hist_3 \<and>
     history_list hist_L ''a.md'' h' = Inr [] \<and> map_of (hs_objects h') = map_of (hs_objects hist_3) |` snapshot_refs h'"
proof -
  have s: "history_state hist_L hist_3" unfolding hist_3_def by (rule history_state_after[OF hist_0_state])
  show ?thesis using purge_leaves_no_trace[OF hist_L_ok s refl, of "[''a.md'']"] clean_a by (simp add: hist_3_purge)
qed

lemma strict_manifests_stray: "strict_manifests stray L h ms = Inr xs \<Longrightarrow> strict_manifests (\<lambda>_. None) L h ms \<noteq> Inl e"
  by (induction ms arbitrary: xs) (auto simp: bind_err_def split: sum.splits option.splits manifest_file.splits if_splits)

lemma strict_checkpoints_stray: "strict_checkpoints stray L h ds = Inr xs \<Longrightarrow> strict_checkpoints (\<lambda>_. None) L h ds \<noteq> Inl e"
  by (induction ds arbitrary: xs) (auto simp: bind_err_def split: sum.splits option.splits if_splits)

lemma preflight_inputs:
  assumes p: "preflight_purge L ps h = Inr ()"
  shows "\<exists>x. purge_inputs L ps h = Inr x"
proof -
  have "clean_paths ps \<noteq> Inl e" "strict_manifests (\<lambda>_. None) L h (hs_manifests h) \<noteq> Inl e"
    "strict_checkpoints (\<lambda>_. None) L h (hs_checkpoints h) \<noteq> Inl e" for e
    using p strict_manifests_stray strict_checkpoints_stray by (fastforce simp: preflight_purge_def bind_err_Inr)+
  then show ?thesis
    by (cases "clean_paths ps"; cases "strict_manifests (\<lambda>_. None) L h (hs_manifests h)";
      cases "strict_checkpoints (\<lambda>_. None) L h (hs_checkpoints h)") (auto simp: purge_inputs_def bind_err_def)
qed

lemma preflight_facts:
  assumes "history_lib_ok L" and "history_state L h" and p: "preflight_purge L ps h = Inr ()"
  shows "result_of (purge_paths L ps) h = Inr ()"
proof -
  have h: "store_ok L h" using history_state_ok assms(1,2) by blast
  obtain ts ms cps where i: "purge_inputs L ps h = Inr (ts, ms, cps)"
    using preflight_inputs[OF p] by (auto simp: split_paired_Ex)
  have "result_of (purge_writes ts ms cps) h = Inr ()" by (rule purge_effect[OF h i])
  then show ?thesis by (simp add: result_of_def purge_paths_run i)
qed

text \<open>
  The preflight of a purge can be relied on: in every state of a history in which it succeeds, the
  purge of the same paths succeeds, so the caller may delete other data between the two.
\<close>
theorem preflight_assures_purge:
  assumes "history_lib_ok L" and "history_state L h" and "preflight_purge L ps h = Inr ()"
  shows "result_of (purge_paths L ps) h = Inr ()"
  by (rule preflight_facts[OF assms])

theorem preflight_assures_purge_witness:
  "preflight_purge hist_L [''a.md''] hist_3 = Inr () \<and> result_of (purge_paths hist_L [''a.md'']) hist_3 = Inr ()"
proof -
  have s: "history_state hist_L hist_3" unfolding hist_3_def by (rule history_state_after[OF hist_0_state])
  have p: "preflight_purge hist_L [''a.md''] hist_3 = Inr ()"
    by (simp add: hist_3_eq hist_run task_run task_3_def purge_run)
  show ?thesis using preflight_assures_purge[OF hist_L_ok s p] p by blast
qed

lemma strict_checkpoints_decoded:
  "strict_checkpoints stray L h ds = Inr xs \<Longrightarrow> (n, d) \<in> set ds \<Longrightarrow> has_suffix n json_suffix \<Longrightarrow>
   \<exists>cp. decode_checkpoint n d = Inr cp"
  by (induction ds arbitrary: xs) (auto simp: bind_err_Inr split: if_splits option.splits)

lemma twice_undecodable:
  assumes "p \<in> cf_path ` set (tc_files cp)" and "p \<in> set (tc_skipped cp)"
  shows "decode_checkpoint n (CheckpointDoc b cp) \<noteq> Inr cp'"
proof -
  have "\<not> paths_once [] (map cf_path (tc_files cp) @ tc_new cp @ tc_skipped cp)"
    using assms by (auto simp: paths_once_iff)
  then show ?thesis by (simp add: decode_checkpoint_def)
qed

lemma undo_saved:
  assumes "load_checkpoint t h = Inr cp" and "tc_files cp \<noteq> []" and "result_of (undo_checkpoint L now t) h = Inr cp'"
  shows "map_of (hs_checkpoints (final_of (undo_checkpoint L now t) h)) (tc_task cp @ json_suffix) = Some (CheckpointDoc False cp') \<and>
    tc_files cp' = tc_files cp"
proof -
  let ?r = "restore_files L now (tc_files cp)" and ?n = "remove_news (tc_new cp)"
  let ?h2 = "final_of ?n (final_of ?r h)"
  obtain failed failed' where f: "result_of ?r h = Inr failed" "result_of ?n (final_of ?r h) = Inr failed'"
      "result_of (save_checkpoint cp') ?h2 = Inr ()" "cp' = cp\<lparr>tc_skipped := tc_skipped cp @ failed @ failed'\<rparr>"
    using assms by (auto simp: undo_checkpoint_def andthen_Inr Let_def)
  have fin: "final_of (undo_checkpoint L now t) h = final_of (save_checkpoint cp') ?h2"
    using assms(2) unfolding undo_checkpoint_def f(4)
    by (simp add: andthen_ok(2)[of "look g" for g] assms(1) Let_def andthen_ok(2)[OF f(1)] andthen_ok(2)[OF f(2)]
        andthen_ok(2)[OF f(3)[unfolded f(4)]])
  have "valid_task_id (tc_task cp')" using f(3) by (auto simp: save_checkpoint_def split: if_splits)
  then show ?thesis unfolding fin by (simp add: save_checkpoint_def update_conv' f(4))
qed

lemma partial_undo_facts:
  assumes "load_checkpoint t h = Inr cp" and "f \<in> set (tc_files cp)"
    and "result_of (undo_checkpoint L now t) h = Inr cp'" and "cf_path f \<in> set (tc_skipped cp')"
  shows "\<exists>e. purge_paths L ps (final_of (undo_checkpoint L now t) h) = (Inl e, [])"
proof -
  let ?h = "final_of (undo_checkpoint L now t) h"
  have "tc_files cp \<noteq> []" using assms(2) by auto
  note s = undo_saved[OF assms(1) this assms(3)]
  have "(tc_task cp @ json_suffix, CheckpointDoc False cp') \<in> set (hs_checkpoints ?h)" using s by (blast intro: map_of_SomeD)
  then have "strict_checkpoints stray L ?h (hs_checkpoints ?h) \<noteq> Inr cps" for stray cps
    using strict_checkpoints_decoded[of stray L ?h "hs_checkpoints ?h" cps "tc_task cp @ json_suffix" "CheckpointDoc False cp'"]
      twice_undecodable[of "cf_path f" cp'] s assms(2,4) by auto
  then have "purge_inputs L ps ?h \<noteq> Inr x" for x by (auto simp: purge_inputs_def bind_err_Inr)
  then show ?thesis by (cases "purge_inputs L ps ?h") (auto simp: purge_paths_run)
qed

text \<open>
  C23: A partial undo blocks every later purge: once an undo has reported a recorded file as skipped, the
  checkpoint it writes names that path twice, which the strict reading of a purge refuses, so a purge
  of any paths fails (without having written anything).
\<close>
theorem partial_undo_blocks_purges:
  assumes "load_checkpoint t h = Inr cp" and "f \<in> set (tc_files cp)"
    and "result_of (undo_checkpoint L now t) h = Inr cp'" and "cf_path f \<in> set (tc_skipped cp')"
  shows "\<exists>e. purge_paths L ps (final_of (undo_checkpoint L now t) h) = (Inl e, [])"
  by (rule partial_undo_facts[OF assms])

theorem partial_undo_blocks_purges_witness:
  "\<exists>e. purge_paths hist_L [''other.md''] (final_of (undo_checkpoint hist_L 40 ''t'') hist_pruned) = (Inl e, [])"
proof -
  let ?f = "\<lparr>cf_path = ''a.md'', cf_entry = \<lparr>he_id = id_one, he_time = 10, he_size = 3\<rparr>\<rparr>"
  have u: "result_of (undo_checkpoint hist_L 40 ''t'') hist_pruned = Inr (task_a\<lparr>tc_skipped := [''a.md'']\<rparr>)"
    by (simp add: hist_pruned_def hist_run task_run task_3_def task_a_def edit_a_def prune_run result_of_def)
  have f: "?f \<in> set (tc_files task_a)" by (simp add: task_a_def task_3_def)
  show ?thesis by (rule partial_undo_blocks_purges[OF pruned_facts(1) f u]) simp
qed

end
