(* ===== verification/Strict_History.thy ===== *)
theory Strict_History
  imports History_Safety
begin

text \<open>
  The histories that the strict reading of a purge accepts: every manifest and checkpoint whole, every
  snapshot they name with its blob.  A purge succeeds exactly on these (\<open>purge_inputs_iff\<close>), and each of
  its writes leaves one, so that a purge which was cut off can be run again.
\<close>

section \<open>History that a purge reads without error\<close>

definition checked_entry :: "history_lib \<Rightarrow> vault_files \<Rightarrow> hist_entry \<Rightarrow> bool" where
  "checked_entry L os e \<longleftrightarrow> is_hex_id (he_id e) \<and> he_time e \<noteq> zero_time \<and> he_size e \<ge> 0 \<and>
     (\<exists>c. map_of os (he_id e) = Some (Regular c) \<and> int (length c) = he_size e \<and> content_id L c = he_id e)"

lemma verify_entry_iff: "verify_entry L h e = Inr () \<longleftrightarrow> checked_entry L (hs_objects h) e"
  by (auto simp: verify_entry_def checked_entry_def split: option.split vault_file.split)

lemma verify_entries_iff: "verify_entries L h es = Inr () \<longleftrightarrow> list_all (checked_entry L (hs_objects h)) es"
  by (induction es) (auto simp: bind_err_Inr verify_entry_iff)

definition strict_manifest :: "history_lib \<Rightarrow> vault_files \<Rightarrow> manifest_file \<Rightarrow> bool" where
  "strict_manifest L os m \<longleftrightarrow> (\<exists>es. m = Manifest es \<and> list_all (checked_entry L os) es)"

definition strict_checkpoint :: "history_lib \<Rightarrow> vault_files \<Rightarrow> string \<Rightarrow> checkpoint_doc \<Rightarrow> bool" where
  "strict_checkpoint L os n d \<longleftrightarrow> (\<exists>cp. decode_checkpoint n d = Inr cp \<and> list_all (checked_entry L os) (map cf_entry (tc_files cp)))"

definition strict_history :: "history_lib \<Rightarrow> history \<Rightarrow> bool" where
  "strict_history L h \<longleftrightarrow> (\<forall>(n, m) \<in> set (hs_manifests h). strict_manifest L (hs_objects h) m) \<and>
     (\<forall>(n, d) \<in> set (hs_checkpoints h). strict_checkpoint L (hs_objects h) n d)"

lemma strict_manifests_iff:
  assumes "\<forall>n \<in> set (map fst ms). has_suffix n json_suffix"
  shows "(\<exists>xs. strict_manifests stray L h ms = Inr xs) \<longleftrightarrow> (\<forall>(n, m) \<in> set ms. strict_manifest L (hs_objects h) m)"
  using assms
proof (induction ms)
  case (Cons x ms)
  obtain n m where x: "x = (n, m)" by (cases x)
  show ?case using Cons by (cases m) (auto simp: x bind_err_Inr strict_manifest_def verify_entries_iff)
qed simp

lemma strict_checkpoints_iff:
  assumes "\<forall>n \<in> set (map fst ds). has_suffix n json_suffix"
  shows "(\<exists>xs. strict_checkpoints stray L h ds = Inr xs) \<longleftrightarrow> (\<forall>(n, d) \<in> set ds. strict_checkpoint L (hs_objects h) n d)"
  using assms
proof (induction ds)
  case (Cons x ds)
  obtain n d where x: "x = (n, d)" by (cases x)
  show ?case using Cons by (auto simp: x bind_err_Inr strict_checkpoint_def verify_entries_iff)
qed simp

lemma store_ok_suffixes:
  assumes "store_ok L h"
  shows "\<forall>n \<in> set (map fst (hs_manifests h)). has_suffix n json_suffix"
    "\<forall>n \<in> set (map fst (hs_checkpoints h)). has_suffix n json_suffix"
  using store_okD(2,3)[OF assms] by (auto simp: manifests_ok_def docs_ok_def)

lemma purge_inputs_iff:
  assumes "store_ok L h"
  shows "(\<exists>x. purge_inputs L rels h = Inr x) \<longleftrightarrow> (\<exists>ts. clean_paths rels = Inr ts) \<and> strict_history L h"
proof -
  note s = store_ok_suffixes[OF assms]
  show ?thesis
    unfolding strict_history_def strict_manifests_iff[OF s(1), of "\<lambda>_. None", symmetric]
      strict_checkpoints_iff[OF s(2), of "\<lambda>_. None", symmetric]
    by (auto simp: purge_inputs_def bind_err_Inr)
qed

lemma checked_entry_more:
  "checked_entry L os e \<Longrightarrow> map_of os' (he_id e) = map_of os (he_id e) \<Longrightarrow> checked_entry L os' e"
  by (simp add: checked_entry_def)

text \<open>A checkpoint without some of its paths is still one the strict reading accepts.\<close>

lemma strict_without:
  assumes "strict_checkpoint L os n (CheckpointDoc False cp)"
  shows "strict_checkpoint L os n (CheckpointDoc False (without_paths ts cp))"
proof -
  have d: "decode_checkpoint n (CheckpointDoc False cp) = Inr cp" and e: "list_all (checked_entry L os) (map cf_entry (tc_files cp))"
    using assms by (auto simp: strict_checkpoint_def decode_checkpoint_def split: if_splits)
  have once: "paths_once [] (map cf_path (tc_files cp) @ tc_new cp @ tc_skipped cp)"
    using d by (auto simp: decode_checkpoint_def split: if_splits)
  have "paths_once [] (map cf_path (tc_files (without_paths ts cp)) @ tc_new (without_paths ts cp) @ tc_skipped (without_paths ts cp))"
    using once unfolding paths_once_iff by (auto simp: without_paths_def distinct_map_filter)
  then have "decode_checkpoint n (CheckpointDoc False (without_paths ts cp)) = Inr (without_paths ts cp)"
    using d by (auto simp: decode_checkpoint_def without_paths_def split: if_splits)
  moreover have "list_all (checked_entry L os) (map cf_entry (tc_files (without_paths ts cp)))"
    using e by (auto simp: list_all_iff without_paths_def)
  ultimately show ?thesis by (auto simp: strict_checkpoint_def)
qed

lemma set_delete: "set (AList.delete k xs) \<subseteq> set xs"
  by (simp add: AList.delete_eq)

lemma set_update: "set (AList.update k v xs) \<subseteq> insert (k, v) (set xs)"
  by (induction xs) auto

lemma strict_delete_manifest: "strict_history L h \<Longrightarrow> strict_history L (hs_manifests_update (AList.delete n) h)"
  using set_delete[of n "hs_manifests h"] by (auto simp: strict_history_def)

lemma strict_delete_doc: "strict_history L h \<Longrightarrow> strict_history L (hs_checkpoints_update (AList.delete n) h)"
  using set_delete[of n "hs_checkpoints h"] by (auto simp: strict_history_def)

lemma strict_put_doc:
  "strict_history L h \<Longrightarrow> strict_checkpoint L (hs_objects h) n d \<Longrightarrow> strict_history L (hs_checkpoints_update (AList.update n d) h)"
  using set_update[of n d "hs_checkpoints h"] by (auto simp: strict_history_def)

lemma strict_delete_object:
  assumes h: "store_ok L h" and s: "strict_history L h" and n: "n \<notin> snapshot_refs h"
  shows "strict_history L (hs_objects_update (AList.delete n) h)"
proof -
  have at: "map_of (hs_manifests h) k = Some m" if "(k, m) \<in> set (hs_manifests h)" for k m
    using that store_okD(2)[OF h] by (simp add: manifests_ok_def)
  have at': "map_of (hs_checkpoints h) k = Some d" if "(k, d) \<in> set (hs_checkpoints h)" for k d
    using that store_okD(3)[OF h] by (simp add: docs_ok_def)
  let ?os = "AList.delete n (hs_objects h)"
  have more: "checked_entry L ?os e" if "checked_entry L (hs_objects h) e" "he_id e \<in> snapshot_refs h" for e
  proof -
    have "he_id e \<noteq> n" using that(2) n by blast
    then show ?thesis using that(1) by (auto intro: checked_entry_more simp: delete_conv')
  qed
  have "strict_manifest L ?os m" if m: "(k, m) \<in> set (hs_manifests h)" for k m
  proof -
    obtain es where es: "m = Manifest es" "list_all (checked_entry L (hs_objects h)) es"
      using s m by (auto simp: strict_history_def strict_manifest_def)
    have "he_id e \<in> snapshot_refs h" if "e \<in> set es" for e
      using at[OF m] es(1) that by (auto simp: snapshot_refs_def manifest_refs_def)
    then show ?thesis using es more by (auto simp: strict_manifest_def list_all_iff)
  qed
  moreover have "strict_checkpoint L ?os k d" if d: "(k, d) \<in> set (hs_checkpoints h)" for k d
  proof -
    obtain cp where cp: "decode_checkpoint k d = Inr cp" "list_all (checked_entry L (hs_objects h)) (map cf_entry (tc_files cp))"
      using s d by (auto simp: strict_history_def strict_checkpoint_def)
    then obtain b where b: "d = CheckpointDoc b cp"
      by (auto simp: decode_checkpoint_def split: checkpoint_doc.splits if_splits)
    have "he_id e \<in> snapshot_refs h" if "e \<in> set (map cf_entry (tc_files cp))" for e
      using at'[OF d] b that unfolding snapshot_refs_def doc_refs_def by (fastforce simp: checkpoint_ids_def)
    then show ?thesis using cp more by (auto simp: strict_checkpoint_def list_all_iff)
  qed
  ultimately show ?thesis by (auto simp: strict_history_def)
qed


section \<open>Every write of a purge\<close>

definition purgeable :: "history_lib \<Rightarrow> vault_files \<Rightarrow> history \<Rightarrow> bool" where
  "purgeable L v h \<longleftrightarrow> store_ok L h \<and> strict_history L h \<and> hs_vault h = v"

lemma keeping_strict_manifest: "keeping (\<lambda>h. purgeable L v h \<and> hs_objects h = os) (purge_manifest ts x)"
  by (cases x) (auto simp: purge_manifest_def purgeable_def keeping_reads
      intro!: keeping_put store_ok_delete_manifest strict_delete_manifest)

lemma keeping_strict_checkpoint:
  assumes "set (checkpoint_ids cp) \<subseteq> dom (map_of os)" and "strict_checkpoint L os n (CheckpointDoc False cp)"
    and "n = tc_task cp @ json_suffix"
  shows "keeping (\<lambda>h. purgeable L v h \<and> hs_objects h = os) (purge_checkpoint ts (n, cp))"
proof -
  have t: "tc_task (without_paths ts cp) @ json_suffix = n" using assms(3) by (simp add: without_paths_def)
  have "keeping (\<lambda>h. purgeable L v h \<and> hs_objects h = os) (save_checkpoint (without_paths ts cp))"
    using assms(1) without_ids[of ts cp] strict_without[OF assms(2), of ts] t
    by (auto simp: save_checkpoint_def purgeable_def keeping_reads intro!: keeping_put store_ok_put_doc strict_put_doc)
  then show ?thesis
    by (auto simp: purge_checkpoint_def Let_def purgeable_def keeping_reads
        intro!: keeping_put store_ok_delete_doc strict_delete_doc)
qed

lemma strict_collect_writes:
  assumes "purgeable L v h" and "snapshot_refs h \<subseteq> set refs"
  shows "writes_ok (purgeable L v) (collect_objects refs) h"
proof -
  let ?I = "\<lambda>h. purgeable L v h \<and> snapshot_refs h \<subseteq> set refs"
  have "snapshot_refs (hs_objects_update g s) = snapshot_refs s" for g s by (simp add: snapshot_refs_def)
  then have "keeping ?I (put (hs_objects_update (AList.delete n)) :: unit hist_act)" if "n \<notin> set refs" for n
    using that by (intro keeping_put) (auto simp: purgeable_def intro: store_ok_delete_object strict_delete_object)
  then have "keeping ?I (collect_one refs x)" for x
    by (cases x) (simp add: collect_one_def keeping_reads)
  then have "keeping ?I (each (collect_one refs) (hs_objects h))"
    by (rule keeping_each)
  then show ?thesis using assms unfolding keeping_def writes_ok_def collect_objects_each by blast
qed

lemma keeping_purgeable: "keeping (purgeable L v) (purge_paths L rels)"
proof (rule keepingI)
  fix h assume g: "purgeable L v h"
  then have h: "store_ok L h" by (simp add: purgeable_def)
  show "writes_ok (purgeable L v) (purge_paths L rels) h"
  proof (cases "purge_inputs L rels h")
    case (Inl e)
    then show ?thesis by (simp add: writes_ok_def purge_paths_run)
  next
    case (Inr x)
    obtain ts ms cps where x: "x = (ts, ms, cps)" by (cases x)
    have i: "purge_inputs L rels h = Inr (ts, ms, cps)" using Inr x by simp
    note inp = purge_inputs_Inr[OF h i]
    let ?J = "\<lambda>w. purgeable L v w \<and> hs_objects w = hs_objects h"
    have k1: "keeping ?J (each (purge_manifest ts) ms)" by (intro keeping_each keeping_strict_manifest)
    have "keeping ?J (purge_checkpoint ts (n, cp))" if c: "(n, cp) \<in> set cps" for n cp
    proof (rule keeping_strict_checkpoint)
      have "map_of (hs_checkpoints h) n = Some (CheckpointDoc False cp)" using c inp(5) by (simp add: inp(3) map_of_docs)
      then have "set (checkpoint_ids cp) \<subseteq> doc_refs (hs_checkpoints h)" unfolding doc_refs_def by blast
      then show "set (checkpoint_ids cp) \<subseteq> dom (map_of (hs_objects h))" using store_okD(5)[OF h] by blast
      have "(n, CheckpointDoc False cp) \<in> set (hs_checkpoints h)" using c unfolding inp(3) by force
      then show "strict_checkpoint L (hs_objects h) n (CheckpointDoc False cp)"
        using g by (auto simp: purgeable_def strict_history_def)
      show "n = tc_task cp @ json_suffix" using inp(4) c by (auto simp: list_all_iff strict_doc_def)
    qed
    then have k2: "keeping ?J (each (purge_checkpoint ts) cps)" by (intro keeping_each_in) (metis prod.collapse)
    have k: "keeping ?J (purge_passes ts ms cps)" unfolding purge_passes_def by (rule keeping_andthen[OF k1 k2])
    let ?h2 = "final_of (purge_passes ts ms cps) h"
    have "snapshot_refs ?h2 = set (surviving_ids ts ms cps)"
      by (rule purge_passes_effect[OF h i]) (simp add: snapshot_refs_def)
    then have "writes_ok (purgeable L v) (collect_objects (surviving_ids ts ms cps)) ?h2"
      using strict_collect_writes keeping_final[OF k, of h] g by blast
    moreover have "writes_ok (purgeable L v) (purge_passes ts ms cps) h"
      using writes_of_keeping[OF k, of h] g unfolding writes_ok_def by blast
    ultimately have "writes_ok (purgeable L v) (purge_writes ts ms cps) h"
      unfolding purge_writes_passes by (intro writes_andthen)
    then show ?thesis by (simp add: writes_ok_def purge_paths_run i)
  qed
qed

text \<open>No snapshot of a path, and no checkpoint that tracks it.\<close>

definition untraced :: "history_lib \<Rightarrow> string \<Rightarrow> history \<Rightarrow> bool" where
  "untraced L p h \<longleftrightarrow> (\<exists>r. clean_path p = Some r \<and> history_list L p h = Inr [] \<and>
     (\<forall>n b cp. map_of (hs_checkpoints h) n = Some (CheckpointDoc b cp) \<longrightarrow> \<not> tracks cp r))"

lemma purge_purgeable:
  assumes "purgeable L v h" and "clean_paths ps = Inr ts"
  shows "result_of (purge_paths L ps) h = Inr ()" and "purgeable L v (final_of (purge_paths L ps) h)"
    and "\<forall>p \<in> set ps. untraced L p (final_of (purge_paths L ps) h)"
proof -
  have h: "store_ok L h" using assms(1) by (simp add: purgeable_def)
  obtain ts ms cps where i: "purge_inputs L ps h = Inr (ts, ms, cps)"
    using purge_inputs_iff[OF h, of ps] assms by (auto simp: purgeable_def)
  have "result_of (purge_writes ts ms cps) h = Inr ()" by (rule purge_effect[OF h i])
  then show ok: "result_of (purge_paths L ps) h = Inr ()" by (simp add: result_of_def purge_paths_run i)
  show "purgeable L v (final_of (purge_paths L ps) h)" using keeping_final[OF keeping_purgeable assms(1)] .
  show "\<forall>p \<in> set ps. untraced L p (final_of (purge_paths L ps) h)"
    using purge_no_trace_store[OF h refl, of ps] ok unfolding untraced_def by simp
qed

end
