(* ===== verification/Trash.thy ===== *)
theory Trash
  imports History Go_Json
begin

text \<open>
  The trash of a vault (\<open>internal/history/trash.go\<close>): a directory in which every deleted file lies
  under a name of its own beside a metadata file that says where it came from.  Deleting, restoring,
  the lenient and the strict listing, and the purges are sequences of atomic writes over the vault,
  its version history (\<open>History\<close>) and this directory.  The JSON of the metadata is a parameter.
\<close>

section \<open>State\<close>

record trash_entry =
  te_name :: string
  te_path :: string
  te_deleted :: int
  te_size :: int

datatype meta_doc = MetaEntry trash_entry | MetaNull | MetaBad

record trash_lib =
  tl_encode :: "trash_entry \<Rightarrow> bytes"
  tl_decode :: "bytes \<Rightarrow> meta_doc"
  tl_sort :: "trash_entry sorter"

record disk =
  dk_history :: history
  dk_trash :: vault_files

datatype trash_error =
    TrashHistory hist_error | TrashFile file_error | TrashDirectory | InvalidItemName | CorruptMeta | Occupied
  | InvalidInventory string | PathChanged string

type_synonym 'a trash_act = "(disk, trash_error, 'a) act"

definition meta_suffix :: string where "meta_suffix = ''.trashinfo.json''"

definition zero_entry :: trash_entry where
  "zero_entry = \<lparr>te_name = [], te_path = [], te_deleted = zero_time, te_size = 0\<rparr>"

text \<open>What \<open>json.Unmarshal\<close> makes of a metadata file.\<close>

fun doc_entry :: "meta_doc \<Rightarrow> trash_entry option" where
  "doc_entry (MetaEntry e) = Some e"
| "doc_entry MetaNull = Some zero_entry"
| "doc_entry MetaBad = None"

abbreviation vault_of :: "disk \<Rightarrow> vault_files" where "vault_of d \<equiv> hs_vault (dk_history d)"

definition vault_update :: "(vault_files \<Rightarrow> vault_files) \<Rightarrow> disk \<Rightarrow> disk" where
  "vault_update f d = d\<lparr>dk_history := (dk_history d)\<lparr>hs_vault := f (vault_of d)\<rparr>\<rparr>"

definition on_history :: "'a hist_act \<Rightarrow> 'a trash_act" where
  "on_history m = within dk_history (\<lambda>h d. d\<lparr>dk_history := h\<rparr>) TrashHistory m"


section \<open>Deleting a file\<close>

definition flat_name :: "string \<Rightarrow> string" where
  "flat_name rel = concat (map (\<lambda>c. if c = CHR ''/'' then ''__'' else [c]) rel)"

definition numbered :: "string \<Rightarrow> nat \<Rightarrow> string" where
  "numbered base i = base @ ''.'' @ dec_of_nat i"

lemma inj_numbered: "inj (numbered base)"
  by (rule injI) (metis append.assoc append_same_eq nat_of_dec_of_nat numbered_def same_append_eq)

lemma finite_numbered: "finite {j. numbered base j \<in> set names}"
  using finite_vimageI[OF finite_set[of names] inj_numbered[of base]] by (simp add: vimage_def)

text \<open>The first name that is free: the flattened path, then the same with a number.\<close>

function free_name :: "string list \<Rightarrow> string \<Rightarrow> nat \<Rightarrow> string \<Rightarrow> string" where
  "free_name names base i name =
     (if List.member names name then free_name names base (Suc i) (numbered base i) else name)"
  by pat_completeness auto

text \<open>Each name passed over is one of those in use.\<close>

lemma numbered_shrinks:
  "card {j. j \<ge> Suc i \<and> numbered base j \<in> set names} + (if numbered base i \<in> set names then 1 else 0)
   = card {j. j \<ge> i \<and> numbered base j \<in> set names}"
proof -
  have fin: "finite {j. j \<ge> k \<and> numbered base j \<in> set names}" for k
    by (rule finite_subset[OF _ finite_numbered[of base names]]) auto
  show ?thesis
  proof (cases "numbered base i \<in> set names")
    case True
    then have "{j. j \<ge> i \<and> numbered base j \<in> set names} = insert i {j. j \<ge> Suc i \<and> numbered base j \<in> set names}"
      by (auto simp: Suc_le_eq le_less)
    then show ?thesis using True fin[of "Suc i"] by simp
  next
    case False
    then have "{j. j \<ge> i \<and> numbered base j \<in> set names} = {j. j \<ge> Suc i \<and> numbered base j \<in> set names}"
      by (auto simp: Suc_le_eq le_less)
    then show ?thesis using False by simp
  qed
qed

termination free_name
proof (relation "measure (\<lambda>(names, base, i, name). card {j. j \<ge> i \<and> numbered base j \<in> set names} + (if name \<in> set names then 1 else 0))")
  fix names :: "string list" and base name :: string and i :: nat
  assume "List.member names name"
  then show "((names, base, Suc i, numbered base i), names, base, i, name) \<in>
      measure (\<lambda>(names, base, i, name). card {j. j \<ge> i \<and> numbered base j \<in> set names} + (if name \<in> set names then 1 else 0))"
    using numbered_shrinks[of i base names] by simp
qed simp

declare free_name.simps [simp del]


definition file_size :: "vault_file \<Rightarrow> int" where
  "file_size f = (case f of Regular c \<Rightarrow> int (length c) | _ \<Rightarrow> 0)"

definition put_trash :: "string \<Rightarrow> bytes \<Rightarrow> unit trash_act" where
  "put_trash n data =
     (\<lambda>d. if map_of (dk_trash d) n = Some Directory then raise (TrashFile OtherError) d
          else put (dk_trash_update (AList.update n (Regular data))) d)"

definition remove_trash :: "string \<Rightarrow> unit trash_act" where
  "remove_trash n =
     (\<lambda>d. if map_of (dk_trash d) n = None then ret () d else put (dk_trash_update (AList.delete n)) d)"

definition move_to_trash :: "string \<Rightarrow> string \<Rightarrow> unit trash_act" where
  "move_to_trash rel n =
     (\<lambda>d. case map_of (vault_of d) rel of
        None \<Rightarrow> andthen (remove_trash (n @ meta_suffix)) (\<lambda>_. raise (TrashFile NotExist)) d
      | Some f \<Rightarrow> put (\<lambda>d. vault_update (AList.delete rel) (dk_trash_update (AList.update n f) d)) d)"

definition trash_path :: "history_lib \<Rightarrow> trash_lib \<Rightarrow> int \<Rightarrow> string \<Rightarrow> trash_entry trash_act" where
  "trash_path L T now rel0 =
     (case clean_path rel0 of
        None \<Rightarrow> raise (TrashHistory InvalidPath)
      | Some rel \<Rightarrow> (\<lambda>d.
          case map_of (vault_of d) rel of
            None \<Rightarrow> raise (TrashFile (if blocked_path rel (vault_of d) then OtherError else NotExist)) d
          | Some f \<Rightarrow>
              if f = Directory then raise TrashDirectory d
              else andthen (on_history (take_snapshot L now rel)) (\<lambda>_.
                andthen (look (\<lambda>d. Inr (free_name (map fst (dk_trash d)) (flat_name rel) 1 (flat_name rel)))) (\<lambda>n.
                let e = \<lparr>te_name = n, te_path = rel, te_deleted = now, te_size = file_size f\<rparr> in
                andthen (put_trash (n @ meta_suffix) (tl_encode T e)) (\<lambda>_.
                andthen (move_to_trash rel n) (\<lambda>_.
                ret e)))) d))"


section \<open>Listing\<close>

fun listed_entries :: "trash_lib \<Rightarrow> vault_files \<Rightarrow> trash_error + trash_entry list" where
  "listed_entries T [] = Inr []"
| "listed_entries T ((n, f) # items) =
     (if f = Directory \<or> \<not> has_suffix n meta_suffix then listed_entries T items
      else case f of
          Regular c \<Rightarrow> bind_err (listed_entries T items) (\<lambda>es.
            Inr (case doc_entry (tl_decode T c) of None \<Rightarrow> es | Some e \<Rightarrow> e # es))
        | _ \<Rightarrow> Inl (TrashFile OtherError))"

text \<open>The exchange sort of \<open>TrashList\<close>: one round puts the newest of the rest first.\<close>

fun newest_first :: "trash_entry \<Rightarrow> trash_entry list \<Rightarrow> trash_entry \<times> trash_entry list" where
  "newest_first c [] = (c, [])"
| "newest_first c (e # es) =
     (if te_deleted e > te_deleted c
      then (let (m, r) = newest_first e es in (m, c # r))
      else (let (m, r) = newest_first c es in (m, e # r)))"

lemma length_newest_first: "length (snd (newest_first c es)) = length es"
  by (induction c es rule: newest_first.induct) (auto split: prod.split)

function exchange_sort :: "trash_entry list \<Rightarrow> trash_entry list" where
  "exchange_sort [] = []"
| "exchange_sort (e # es) = fst (newest_first e es) # exchange_sort (snd (newest_first e es))"
  by pat_completeness auto
termination
  by (relation "measure length") (auto simp: length_newest_first)

definition trash_list :: "trash_lib \<Rightarrow> disk \<Rightarrow> trash_error + trash_entry list" where
  "trash_list T d = bind_err (listed_entries T (dk_trash d)) (\<lambda>es. Inr (exchange_sort es))"

text \<open>The names of the payloads and of the metadata.\<close>

fun scan_items :: "vault_files \<Rightarrow> trash_error + string list \<times> string list" where
  "scan_items [] = Inr ([], [])"
| "scan_items ((n, f) # items) =
     (if f = Directory then Inl (InvalidInventory n)
      else if has_suffix n meta_suffix
      then (if trim_suffix n meta_suffix = [] then Inl (InvalidInventory n)
            else bind_err (scan_items items) (\<lambda>(ps, ms). Inr (ps, trim_suffix n meta_suffix # ms)))
      else if f = Special then Inl (InvalidInventory n)
      else bind_err (scan_items items) (\<lambda>(ps, ms). Inr (n # ps, ms)))"

definition strict_entry :: "trash_lib \<Rightarrow> vault_files \<Rightarrow> string \<Rightarrow> trash_error + trash_entry" where
  "strict_entry T items n =
     (case map_of items (n @ meta_suffix) of
        Some (Regular c) \<Rightarrow>
          (case tl_decode T c of
             MetaEntry e \<Rightarrow>
               if te_name e \<noteq> n \<or> clean_path (te_path e) \<noteq> Some (te_path e) \<or> te_deleted e = zero_time \<or> te_size e < 0
               then Inl (InvalidInventory n)
               else (case map_of items n of
                   Some f \<Rightarrow> if file_size f = te_size e then Inr e else Inl (InvalidInventory n)
                 | None \<Rightarrow> Inl (InvalidInventory n))
           | _ \<Rightarrow> Inl CorruptMeta)
      | _ \<Rightarrow> Inl (InvalidInventory n))"

fun strict_entries :: "trash_lib \<Rightarrow> vault_files \<Rightarrow> string list \<Rightarrow> trash_error + trash_entry list" where
  "strict_entries T items [] = Inr []"
| "strict_entries T items (n # ns) =
     bind_err (strict_entry T items n) (\<lambda>e. bind_err (strict_entries T items ns) (\<lambda>es. Inr (e # es)))"

definition trash_list_strict :: "trash_lib \<Rightarrow> disk \<Rightarrow> trash_error + trash_entry list" where
  "trash_list_strict T d =
     bind_err (scan_items (dk_trash d)) (\<lambda>(ps, ms).
     if length ps \<noteq> length ms \<or> \<not> list_all (\<lambda>n. List.member ms n) ps \<or> \<not> list_all (\<lambda>n. List.member ps n) ms
     then Inl (InvalidInventory [])
     else bind_err (strict_entries T (dk_trash d) ps) (\<lambda>es. Inr (tl_sort T (\<lambda>e. - te_deleted e) es)))"


section \<open>Restoring\<close>

definition find_item :: "trash_lib \<Rightarrow> string \<Rightarrow> disk \<Rightarrow> trash_error + trash_entry" where
  "find_item T n d =
     (if list_ex (\<lambda>c. c = CHR ''/'' \<or> c = CHR 0x5C) n \<or> n = ''.'' \<or> n = ''..'' then Inl InvalidItemName
      else case map_of (dk_trash d) (n @ meta_suffix) of
          Some (Regular c) \<Rightarrow>
            (case doc_entry (tl_decode T c) of None \<Rightarrow> Inl CorruptMeta | Some e \<Rightarrow> Inr (e\<lparr>te_name := n\<rparr>))
        | Some _ \<Rightarrow> Inl (TrashFile OtherError)
        | None \<Rightarrow> Inl (TrashFile NotExist))"

definition move_from_trash :: "string \<Rightarrow> string \<Rightarrow> unit trash_act" where
  "move_from_trash n rel =
     (\<lambda>d. case map_of (dk_trash d) n of
        None \<Rightarrow> raise (TrashFile NotExist) d
      | Some f \<Rightarrow> put (\<lambda>d. vault_update (AList.update rel f) (dk_trash_update (AList.delete n) d)) d)"

definition trash_restore :: "trash_lib \<Rightarrow> string \<Rightarrow> trash_entry trash_act" where
  "trash_restore T n =
     andthen (look (find_item T n)) (\<lambda>e.
       case clean_path (te_path e) of
         None \<Rightarrow> raise (TrashHistory InvalidPath)
       | Some rel \<Rightarrow> (\<lambda>d.
           if map_of (vault_of d) rel \<noteq> None then raise Occupied d
           else if blocked_path rel (vault_of d) then raise (TrashFile OtherError) d
           else andthen (if parent_dirs rel = [] then ret () else put (vault_update (make_dirs (parent_dirs rel)))) (\<lambda>_.
             andthen (move_from_trash n rel) (\<lambda>_.
             andthen (remove_trash (n @ meta_suffix)) (\<lambda>_.
             ret e))) d))"


section \<open>Purging\<close>

text \<open>The payload first, then the metadata.\<close>

definition remove_item :: "string \<Rightarrow> unit trash_act" where
  "remove_item n = andthen (remove_trash n) (\<lambda>_. remove_trash (n @ meta_suffix))"

definition remove_items :: "trash_entry list \<Rightarrow> nat trash_act" where
  "remove_items es = andthen (each (\<lambda>e. remove_item (te_name e)) es) (\<lambda>_. ret (length es))"

definition trash_purge :: "trash_lib \<Rightarrow> int \<Rightarrow> int \<Rightarrow> nat trash_act" where
  "trash_purge T now max_age =
     andthen (look (trash_list_strict T)) (\<lambda>es.
     remove_items (filter (\<lambda>e. \<not> (max_age > 0 \<and> te_deleted e > now - max_age)) es))"

fun purge_wanted :: "trash_entry list \<Rightarrow> (string \<times> string) list \<Rightarrow> nat trash_act" where
  "purge_wanted current [] = ret 0"
| "purge_wanted current ((n, p) # wanted) =
     (case find (\<lambda>e. te_name e = n) current of
        None \<Rightarrow> purge_wanted current wanted
      | Some e \<Rightarrow>
          if te_path e \<noteq> p then raise (PathChanged n)
          else andthen (remove_item n) (\<lambda>_. andthen (purge_wanted current wanted) (\<lambda>k. ret (Suc k))))"

definition purge_trash_entries :: "trash_lib \<Rightarrow> (string \<times> string) list \<Rightarrow> nat trash_act" where
  "purge_trash_entries T wanted = andthen (look (trash_list_strict T)) (\<lambda>current. purge_wanted current wanted)"

definition purge_trash_paths :: "trash_lib \<Rightarrow> string list \<Rightarrow> nat trash_act" where
  "purge_trash_paths T rels =
     andthen (look (\<lambda>d. map_sum TrashHistory id (clean_paths rels))) (\<lambda>ts.
     andthen (look (trash_list_strict T)) (\<lambda>es.
     remove_items (filter (\<lambda>e. List.member ts (te_path e)) es)))"

end
