(* ===== verification/Trash_Safety.thy ===== *)
theory Trash_Safety
  imports Trash History_Safety
begin

text \<open>
  The trash as an inventory: the strict listing succeeds exactly when every payload has its metadata and
  all metadata a payload (\<open>strict_list_iff\<close>); deleting, restoring and purging keep this, a restore undoes
  a deletion, a purge by path is exact, and a file named like metadata breaks all of it.
\<close>

section \<open>The inventory\<close>

definition entry_ok :: "string \<Rightarrow> bytes \<Rightarrow> trash_entry \<Rightarrow> bool" where
  "entry_ok n c e \<longleftrightarrow> te_name e = n \<and> clean_path (te_path e) = Some (te_path e) \<and> te_deleted e \<noteq> zero_time \<and> te_size e = int (length c)"

text \<open>Every payload has its metadata, and all metadata a payload.\<close>

definition inventory :: "trash_lib \<Rightarrow> vault_files \<Rightarrow> bool" where
  "inventory T items \<longleftrightarrow> distinct (map fst items) \<and>
     (\<forall>n f. map_of items n = Some f \<longrightarrow> (\<exists>c. f = Regular c \<and>
        (if has_suffix n meta_suffix
         then trim_suffix n meta_suffix \<noteq> [] \<and> \<not> has_suffix (trim_suffix n meta_suffix) meta_suffix \<and>
              map_of items (trim_suffix n meta_suffix) \<noteq> None
         else \<exists>m e. map_of items (n @ meta_suffix) = Some (Regular m) \<and> tl_decode T m = MetaEntry e \<and> entry_ok n c e)))"

definition payloads :: "vault_files \<Rightarrow> string list" where
  "payloads items = filter (\<lambda>n. \<not> has_suffix n meta_suffix) (map fst items)"

definition metas :: "vault_files \<Rightarrow> string list" where
  "metas items = map (\<lambda>n. trim_suffix n meta_suffix) (filter (\<lambda>n. has_suffix n meta_suffix) (map fst items))"

lemma scan_items_iff:
  "scan_items items = Inr (ps, ms) \<longleftrightarrow> ps = payloads items \<and> ms = metas items \<and>
     (\<forall>(n, f) \<in> set items. f \<noteq> Directory \<and> (if has_suffix n meta_suffix then trim_suffix n meta_suffix \<noteq> [] else f \<noteq> Special))"
proof (induction items arbitrary: ps ms)
  case (Cons x items)
  obtain n f where x: "x = (n, f)" by (cases x)
  show ?case
    by (auto simp: x bind_err_Inr Cons payloads_def metas_def split: prod.splits)
qed (auto simp: payloads_def metas_def)

lemma strict_entries_Inr:
  "strict_entries T items ns = Inr es \<longleftrightarrow> list_all2 (\<lambda>n e. strict_entry T items n = Inr e) ns es"
  by (induction ns arbitrary: es) (auto simp: bind_err_Inr list_all2_Cons1)

lemma file_size_nonneg: "file_size f \<ge> 0"
  by (cases f) (simp_all add: file_size_def)

lemma strict_entry_Inr:
  "strict_entry T items n = Inr e \<longleftrightarrow> (\<exists>m f. map_of items (n @ meta_suffix) = Some (Regular m) \<and> tl_decode T m = MetaEntry e \<and>
     map_of items n = Some f \<and> te_name e = n \<and> clean_path (te_path e) = Some (te_path e) \<and> te_deleted e \<noteq> zero_time \<and>
     te_size e = file_size f)"
proof (cases "\<exists>m. map_of items (n @ meta_suffix) = Some (Regular m)")
  case True
  then obtain m where m: "map_of items (n @ meta_suffix) = Some (Regular m)" by blast
  show ?thesis
  proof (cases "tl_decode T m")
    case (MetaEntry e')
    show ?thesis
    proof (cases "map_of items n")
      case (Some f)
      then show ?thesis using file_size_nonneg[of f] by (auto simp: strict_entry_def m MetaEntry)
    qed (simp add: strict_entry_def m MetaEntry)
  qed (simp_all add: strict_entry_def m)
next
  case False
  then show ?thesis by (auto simp: strict_entry_def split: option.split vault_file.split)
qed

lemma list_all2_total: "(\<forall>x \<in> set xs. \<exists>y. P x y) \<Longrightarrow> \<exists>ys. list_all2 P xs ys"
  by (induction xs) (auto simp: list_all2_Cons1)

lemma all2_in: "list_all2 P xs ys \<Longrightarrow> x \<in> set xs \<Longrightarrow> \<exists>y. P x y"
  by (metis list_all2_conv_all_nth in_set_conv_nth)

lemma set_metas: "p \<in> set (metas items) \<longleftrightarrow> p @ meta_suffix \<in> fst ` set items"
proof -
  have "p \<in> set (metas items) \<longleftrightarrow> (\<exists>n \<in> fst ` set items. has_suffix n meta_suffix \<and> p = trim_suffix n meta_suffix)"
    unfolding metas_def by auto
  also have "\<dots> \<longleftrightarrow> p @ meta_suffix \<in> fst ` set items"
  proof
    assume "\<exists>n \<in> fst ` set items. has_suffix n meta_suffix \<and> p = trim_suffix n meta_suffix"
    then obtain n where n: "n \<in> fst ` set items" "has_suffix n meta_suffix" "p = trim_suffix n meta_suffix" by blast
    then have "p @ meta_suffix = n" using has_suffix_trim by simp
    then show "p @ meta_suffix \<in> fst ` set items" using n(1) by simp
  next
    assume "p @ meta_suffix \<in> fst ` set items"
    then show "\<exists>n \<in> fst ` set items. has_suffix n meta_suffix \<and> p = trim_suffix n meta_suffix"
      by (intro bexI[of _ "p @ meta_suffix"]) simp_all
  qed
  finally show ?thesis .
qed

lemma distinct_metas: "distinct (map fst items) \<Longrightarrow> distinct (metas items)"
proof -
  assume d: "distinct (map fst items)"
  have "inj_on (\<lambda>n. trim_suffix n meta_suffix) {n. has_suffix n meta_suffix}"
    by (rule inj_onI) (metis has_suffix_trim mem_Collect_eq)
  then have "inj_on (\<lambda>n. trim_suffix n meta_suffix) (set (filter (\<lambda>n. has_suffix n meta_suffix) (map fst items)))"
    by (rule inj_on_subset) auto
  then show "distinct (metas items)" unfolding metas_def using d by (subst distinct_map) simp
qed

text \<open>The strict listing succeeds exactly on an inventory, and lists all of it.\<close>

lemma strict_list_iff:
  assumes d: "distinct (map fst (dk_trash d))"
  shows "(\<exists>es. trash_list_strict T d = Inr es) \<longleftrightarrow> inventory T (dk_trash d)"
proof
  let ?items = "dk_trash d"
  have dom: "map_of ?items n \<noteq> None \<longleftrightarrow> n \<in> fst ` set ?items" for n by (simp add: map_of_eq_None_iff)
  assume "\<exists>es. trash_list_strict T d = Inr es"
  then obtain es0 where s: "\<forall>(n, f) \<in> set ?items. f \<noteq> Directory \<and> (if has_suffix n meta_suffix then trim_suffix n meta_suffix \<noteq> [] else f \<noteq> Special)"
      "set (payloads ?items) \<subseteq> set (metas ?items)" "set (metas ?items) \<subseteq> set (payloads ?items)"
      "list_all2 (\<lambda>n e. strict_entry T ?items n = Inr e) (payloads ?items) es0"
    by (auto simp: trash_list_strict_def bind_err_Inr scan_items_iff strict_entries_Inr list_all_iff split: if_splits)
  have "\<exists>c. f = Regular c \<and>
        (if has_suffix n meta_suffix
         then trim_suffix n meta_suffix \<noteq> [] \<and> \<not> has_suffix (trim_suffix n meta_suffix) meta_suffix \<and>
              map_of ?items (trim_suffix n meta_suffix) \<noteq> None
         else \<exists>m e. map_of ?items (n @ meta_suffix) = Some (Regular m) \<and> tl_decode T m = MetaEntry e \<and> entry_ok n c e)"
    if n: "map_of ?items n = Some f" for n f
  proof -
    have m: "(n, f) \<in> set ?items" using n by (rule map_of_SomeD)
    show ?thesis
    proof (cases "has_suffix n meta_suffix")
      case True
      let ?p = "trim_suffix n meta_suffix"
      have np: "?p @ meta_suffix = n" using True by (rule has_suffix_trim)
      then have "?p \<in> set (metas ?items)" using m by (force simp: set_metas)
      then have p: "?p \<in> set (payloads ?items)" using s(3) by blast
      then obtain e where "strict_entry T ?items ?p = Inr e" using all2_in[OF s(4)] by blast
      then have "\<exists>c. f = Regular c" using n np by (auto simp: strict_entry_Inr)
      moreover have "\<not> has_suffix ?p meta_suffix" using p by (auto simp: payloads_def)
      moreover have "map_of ?items ?p \<noteq> None" unfolding dom using p by (auto simp: payloads_def)
      moreover have "?p \<noteq> []" using s(1) m True by auto
      ultimately show ?thesis using True by simp
    next
      case False
      then have "n \<in> set (payloads ?items)" using m by (force simp: payloads_def)
      then obtain e where e: "strict_entry T ?items n = Inr e" using all2_in[OF s(4)] by blast
      have "f \<noteq> Directory" "f \<noteq> Special" using s(1) m False by auto
      then obtain c where c: "f = Regular c" by (cases f) auto
      obtain m where "map_of ?items (n @ meta_suffix) = Some (Regular m)" "tl_decode T m = MetaEntry e" "entry_ok n c e"
        using e n by (auto simp: strict_entry_Inr entry_ok_def file_size_def c)
      then show ?thesis using False c by auto
    qed
  qed
  then show "inventory T ?items" using d unfolding inventory_def by blast
next
  let ?items = "dk_trash d"
  assume i: "inventory T ?items"
  have at: "map_of ?items n = Some f" if "(n, f) \<in> set ?items" for n f using that d by simp
  have scan: "scan_items ?items = Inr (payloads ?items, metas ?items)"
    using i at unfolding scan_items_iff inventory_def by (fastforce split: if_splits)
  have sub: "set (payloads ?items) \<subseteq> set (metas ?items)"
  proof
    fix n assume "n \<in> set (payloads ?items)"
    then obtain f where "(n, f) \<in> set ?items" "\<not> has_suffix n meta_suffix" by (auto simp: payloads_def)
    then obtain m where "map_of ?items (n @ meta_suffix) = Some (Regular m)" using i at unfolding inventory_def by metis
    then show "n \<in> set (metas ?items)" unfolding set_metas by (force dest: map_of_SomeD)
  qed
  have sup: "set (metas ?items) \<subseteq> set (payloads ?items)"
  proof
    fix p assume "p \<in> set (metas ?items)"
    then obtain f where "map_of ?items (p @ meta_suffix) = Some f" using at by (auto simp: set_metas)
    then have "\<not> has_suffix p meta_suffix" "map_of ?items p \<noteq> None" using i unfolding inventory_def by fastforce+
    then show "p \<in> set (payloads ?items)" by (auto simp: payloads_def map_of_eq_None_iff)
  qed
  have "distinct (payloads ?items)" using d by (simp add: payloads_def)
  then have len: "length (payloads ?items) = length (metas ?items)"
    using sub sup distinct_metas[OF d] by (metis distinct_card subset_antisym)
  have "\<exists>e. strict_entry T ?items n = Inr e" if n: "n \<in> set (payloads ?items)" for n
  proof -
    obtain f where "(n, f) \<in> set ?items" "\<not> has_suffix n meta_suffix" using n by (auto simp: payloads_def)
    then obtain c m e where "map_of ?items n = Some (Regular c)" "map_of ?items (n @ meta_suffix) = Some (Regular m)"
        "tl_decode T m = MetaEntry e" "entry_ok n c e" using i at unfolding inventory_def by metis
    then show ?thesis by (auto simp: strict_entry_Inr entry_ok_def file_size_def)
  qed
  then obtain es where "strict_entries T ?items (payloads ?items) = Inr es"
    using list_all2_total[of "payloads ?items" "\<lambda>n e. strict_entry T ?items n = Inr e"] by (auto simp: strict_entries_Inr)
  then show "\<exists>es. trash_list_strict T d = Inr es"
    using sub sup by (auto simp: trash_list_strict_def scan len list_all_iff)
qed


lemma strict_of_inventory: "inventory T (dk_trash d) \<Longrightarrow> \<exists>es. trash_list_strict T d = Inr es"
  using strict_list_iff[of d T] unfolding inventory_def by blast

lemma strict_list_set:
  assumes d: "distinct (map fst (dk_trash d))" and s: "trash_list_strict T d = Inr es" and "sort_ok (tl_sort T)"
  shows "e \<in> set es \<longleftrightarrow> (\<exists>n. n \<in> set (payloads (dk_trash d)) \<and> strict_entry T (dk_trash d) n = Inr e)"
proof -
  obtain es0 where e: "list_all2 (\<lambda>n e. strict_entry T (dk_trash d) n = Inr e) (payloads (dk_trash d)) es0"
      "es = tl_sort T (\<lambda>e. - te_deleted e) es0"
    using s by (auto simp: trash_list_strict_def bind_err_Inr scan_items_iff strict_entries_Inr split: if_splits)
  have "e \<in> set es0 \<longleftrightarrow> (\<exists>n. n \<in> set (payloads (dk_trash d)) \<and> strict_entry T (dk_trash d) n = Inr e)"
    using e(1)
  proof (induction rule: list_all2_induct)
    case (Cons x xs y ys)
    then show ?case by (metis list.set_intros(1,2) set_ConsD sum.inject(2))
  qed simp
  then show ?thesis using e(2) sort_ok_set[OF assms(3)] by simp
qed

text \<open>The exchange sort of the lenient listing sorts.\<close>

lemma newest_first_facts:
  "mset (snd (newest_first c es)) + {#fst (newest_first c es)#} = add_mset c (mset es) \<and>
   te_deleted c \<le> te_deleted (fst (newest_first c es)) \<and>
   (\<forall>e \<in> set (snd (newest_first c es)). te_deleted e \<le> te_deleted (fst (newest_first c es)))"
  by (induction c es rule: newest_first.induct) (auto split: prod.split)

lemma exchange_sort_facts:
  "mset (exchange_sort es) = mset es \<and> sorted_wrt (\<lambda>a b. te_deleted b \<le> te_deleted a) (exchange_sort es)"
proof (induction es rule: exchange_sort.induct)
  case (2 e es)
  have "set (exchange_sort (snd (newest_first e es))) = set (snd (newest_first e es))"
    using 2 by (metis set_mset_mset)
  then show ?case using 2 newest_first_facts[of e es] by (simp add: union_commute)
qed simp

section \<open>Names\<close>

lemma free_name_fresh: "free_name names base i name \<notin> set names"
proof (induction names base i name rule: free_name.induct)
  case (1 names base i name)
  then show ?case by (subst free_name.simps) simp
qed

lemma free_name_form: "free_name names base i name = name \<or> (\<exists>j. free_name names base i name = numbered base j)"
proof (induction names base i name rule: free_name.induct)
  case (1 names base i name)
  then show ?case
    by (cases "List.member names name") (subst free_name.simps, force, subst free_name.simps, force)
qed

lemma numbered_no_meta: "\<not> has_suffix (numbered base j) meta_suffix"
proof
  assume "has_suffix (numbered base j) meta_suffix"
  then have "last (numbered base j) = CHR ''n''"
    using has_suffix_trim[of "numbered base j" meta_suffix] by (metis last_append list.discI meta_suffix_def last.simps)
  moreover have "dec_of_nat j \<noteq> []" "\<forall>c \<in> set (dec_of_nat j). is_digit c" using nat_lit_dec[of j] by (auto simp: nat_lit_def)
  moreover from this have "is_digit (last (dec_of_nat j))" by simp
  moreover have "\<not> is_digit CHR ''n''" by code_simp
  ultimately show False by (simp add: numbered_def)
qed

section \<open>What deleting does\<close>

definition trashed :: "trash_lib \<Rightarrow> string \<Rightarrow> trash_entry \<Rightarrow> bytes \<Rightarrow> disk \<Rightarrow> disk" where
  "trashed T rel e c d = vault_update (AList.delete rel)
     (d\<lparr>dk_trash := AList.update (te_name e) (Regular c) (AList.update (te_name e @ meta_suffix) (Regular (tl_encode T e)) (dk_trash d))\<rparr>)"

lemma move_to_trash_some:
  assumes "map_of (vault_of d) rel = Some f"
  shows "result_of (move_to_trash rel n) d = Inr ()"
    "final_of (move_to_trash rel n) d = vault_update (AList.delete rel) (dk_trash_update (AList.update n f) d)"
  using assms by (simp_all add: move_to_trash_def result_of_def final_of_def)

lemma trash_path_steps:
  assumes c: "clean_path p = Some rel" and r: "result_of (trash_path L T now p) d = Inr e"
  obtains data h where "map_of (vault_of d) rel = Some (Regular data)" "h = final_of (take_snapshot L now rel) (dk_history d)"
    "e = \<lparr>te_name = free_name (map fst (dk_trash d)) (flat_name rel) 1 (flat_name rel), te_path = rel, te_deleted = now, te_size = int (length data)\<rparr>"
    "final_of (trash_path L T now p) d = trashed T rel e data (d\<lparr>dk_history := h\<rparr>)"
proof -
  let ?n = "free_name (map fst (dk_trash d)) (flat_name rel) 1 (flat_name rel)"
  let ?s = "on_history (take_snapshot L now rel)"
  obtain f where f: "map_of (vault_of d) rel = Some f" "f \<noteq> Directory"
    using r by (auto simp: trash_path_def c result_of_def act_runs split: option.splits if_splits)
  define h where "h = final_of (take_snapshot L now rel) (dk_history d)"
  let ?d1 = "d\<lparr>dk_history := h\<rparr>"
  have s1: "final_of ?s d = ?d1" unfolding on_history_def h_def by (rule final_within) simp
  have "hs_vault h = vault_of d" by (simp add: h_def take_snapshot_vault)
  then have f1: "map_of (vault_of ?d1) rel = Some f" using f(1) by simp
  define rest where "rest = (\<lambda>n. let e = \<lparr>te_name = n, te_path = rel, te_deleted = now, te_size = file_size f\<rparr> in
                andthen (put_trash (n @ meta_suffix) (tl_encode T e)) (\<lambda>_.
                andthen (move_to_trash rel n) (\<lambda>_. ret e)))"
  have "trash_path L T now p d = andthen ?s (\<lambda>_.
      andthen (look (\<lambda>d. Inr (free_name (map fst (dk_trash d)) (flat_name rel) 1 (flat_name rel)))) rest) d"
    by (simp add: trash_path_def c f rest_def)
  then have run: "result_of (trash_path L T now p) d = result_of (andthen ?s (\<lambda>_.
        andthen (look (\<lambda>d. Inr (free_name (map fst (dk_trash d)) (flat_name rel) 1 (flat_name rel)))) rest)) d"
      "final_of (trash_path L T now p) d = final_of (andthen ?s (\<lambda>_.
        andthen (look (\<lambda>d. Inr (free_name (map fst (dk_trash d)) (flat_name rel) 1 (flat_name rel)))) rest)) d"
    by (simp_all add: result_of_def final_of_def)
  obtain u where u: "result_of ?s d = Inr u" using r by (auto simp: run(1) andthen_Inr)
  have rest: "result_of (rest ?n) ?d1 = Inr e" "final_of (trash_path L T now p) d = final_of (rest ?n) ?d1"
    using r by (simp_all add: run andthen_ok[OF u] s1 andthen_ok[of "look g" for g])
  have "result_of (take_snapshot L now rel) (dk_history d) \<noteq> Inl (FileError OtherError)"
    using u by (cases "result_of (take_snapshot L now rel) (dk_history d)") (simp_all add: on_history_def within_simps)
  then have "f \<noteq> Special"
    using take_snapshot_none(2)[OF clean_path_idem[OF c], of "dk_history d" L now] f(1)
    by (auto simp: read_file_def result_of_def)
  then obtain data where data: "f = Regular data" using f(2) by (cases f) auto
  let ?e = "\<lparr>te_name = ?n, te_path = rel, te_deleted = now, te_size = int (length data)\<rparr>"
  have e: "e = ?e" using rest(1) by (auto simp: rest_def Let_def andthen_Inr data file_size_def)
  have ok: "result_of (put_trash (?n @ meta_suffix) (tl_encode T ?e)) ?d1 = Inr ()"
    using rest(1) by (auto simp: rest_def Let_def andthen_Inr data file_size_def)
  then have fin: "final_of (put_trash (?n @ meta_suffix) (tl_encode T ?e)) ?d1 =
      ?d1\<lparr>dk_trash := AList.update (?n @ meta_suffix) (Regular (tl_encode T ?e)) (dk_trash d)\<rparr>"
    by (auto simp: put_trash_def result_of_def final_of_def act_runs split: if_splits)
  have "final_of (trash_path L T now p) d = trashed T rel e data ?d1"
    unfolding rest(2) rest_def Let_def data file_size_def vault_file.case andthen_ok(2)[OF ok] fin
    using f1 by (simp add: andthen_ok(2)[OF move_to_trash_some(1)[where f = f]] move_to_trash_some(2)[where f = f]
      data trashed_def e o_def)
  then show thesis using that[OF _ h_def e] f(1) data by simp
qed


lemma vault_update_simps [simp]:
  "vault_of (vault_update f d) = f (vault_of d)" "dk_trash (vault_update f d) = dk_trash d"
  by (simp_all add: vault_update_def)

lemma trashed_maps:
  "map_of (vault_of (trashed T rel e c d)) = (map_of (vault_of d))(rel := None)"
  "map_of (dk_trash (trashed T rel e c d)) =
     (map_of (dk_trash d))(te_name e @ meta_suffix \<mapsto> Regular (tl_encode T e), te_name e \<mapsto> Regular c)"
  "distinct (map fst (dk_trash d)) \<Longrightarrow> distinct (map fst (dk_trash (trashed T rel e c d)))"
  by (simp_all add: trashed_def delete_conv' update_conv' distinct_update fun_eq_iff)

lemma meta_name_longer [simp]: "n @ meta_suffix \<noteq> n" "n \<noteq> n @ meta_suffix" "meta_suffix \<noteq> []"
  by (simp_all add: meta_suffix_def)

lemma inventoryD:
  assumes "inventory T items" and "map_of items (n @ meta_suffix) \<noteq> None"
  shows "n \<noteq> []" "\<not> has_suffix n meta_suffix" "map_of items n \<noteq> None"
proof -
  obtain f where "map_of items (n @ meta_suffix) = Some f" using assms(2) by blast
  then have "n \<noteq> [] \<and> \<not> has_suffix n meta_suffix \<and> map_of items n \<noteq> None"
    using assms(1) unfolding inventory_def by (metis has_suffix_append trim_suffix_append)
  then show "n \<noteq> []" "\<not> has_suffix n meta_suffix" "map_of items n \<noteq> None" by auto
qed

lemma flat_name_nonempty: "rel \<noteq> [] \<Longrightarrow> flat_name rel \<noteq> []"
  by (cases rel) (simp_all add: flat_name_def)

lemma clean_path_nonempty: "clean_path p = Some r \<Longrightarrow> r \<noteq> []"
  by (auto simp: clean_path_def Let_def split: if_splits)

lemma free_name_nonempty: "base \<noteq> [] \<Longrightarrow> free_name names base i base \<noteq> []"
  using free_name_form[of names base i base] by (auto simp: numbered_def)

lemma free_name_meta: "\<not> has_suffix base meta_suffix \<Longrightarrow> \<not> has_suffix (free_name names base i base) meta_suffix"
  using free_name_form[of names base i base] numbered_no_meta by metis

lemma inventory_add:
  assumes i: "inventory T items" and n: "n \<notin> fst ` set items" "n \<noteq> []" "\<not> has_suffix n meta_suffix"
    and m: "tl_decode T m = MetaEntry e" "entry_ok n c e"
    and new: "distinct (map fst items')" "map_of items' = (map_of items)(n @ meta_suffix \<mapsto> Regular m, n \<mapsto> Regular c)"
  shows "inventory T items'"
  unfolding inventory_def
proof (intro conjI allI impI new(1))
  fix k f assume k: "map_of items' k = Some f"
  have none: "map_of items n = None" using n(1) by (simp add: map_of_eq_None_iff)
  show "\<exists>c. f = Regular c \<and>
        (if has_suffix k meta_suffix
         then trim_suffix k meta_suffix \<noteq> [] \<and> \<not> has_suffix (trim_suffix k meta_suffix) meta_suffix \<and>
              map_of items' (trim_suffix k meta_suffix) \<noteq> None
         else \<exists>m e. map_of items' (k @ meta_suffix) = Some (Regular m) \<and> tl_decode T m = MetaEntry e \<and> entry_ok k c e)"
  proof (cases "k = n \<or> k = n @ meta_suffix")
    case True
    then show ?thesis using k n(2,3) m new(2) by auto
  next
    case False
    then have old: "map_of items k = Some f" using k new(2) by simp
    then obtain c' where c': "f = Regular c'"
        "if has_suffix k meta_suffix
         then trim_suffix k meta_suffix \<noteq> [] \<and> \<not> has_suffix (trim_suffix k meta_suffix) meta_suffix \<and>
              map_of items (trim_suffix k meta_suffix) \<noteq> None
         else \<exists>m e. map_of items (k @ meta_suffix) = Some (Regular m) \<and> tl_decode T m = MetaEntry e \<and> entry_ok k c' e"
      using i unfolding inventory_def by blast
    have "map_of items' x = map_of items x" if "map_of items x \<noteq> None" "x \<noteq> n @ meta_suffix" for x
      using that none new(2) by auto
    moreover have "k @ meta_suffix \<noteq> n @ meta_suffix" using False by simp
    moreover have "map_of items' x \<noteq> None" if "map_of items x \<noteq> None" for x using that new(2) by auto
    ultimately show ?thesis using c' by (auto split: if_splits)
  qed
qed


lemma inventory_remove:
  assumes i: "inventory T items" and n: "\<not> has_suffix n meta_suffix"
    and new: "distinct (map fst items')" "map_of items' = (map_of items)(n := None, n @ meta_suffix := None)"
  shows "inventory T items'"
  unfolding inventory_def
proof (intro conjI allI impI new(1))
  fix k f assume k: "map_of items' k = Some f"
  then have ne: "k \<noteq> n" "k \<noteq> n @ meta_suffix" and old: "map_of items k = Some f" using new(2) by (auto split: if_splits)
  obtain c' where c': "f = Regular c'"
      "if has_suffix k meta_suffix
       then trim_suffix k meta_suffix \<noteq> [] \<and> \<not> has_suffix (trim_suffix k meta_suffix) meta_suffix \<and>
            map_of items (trim_suffix k meta_suffix) \<noteq> None
       else \<exists>m e. map_of items (k @ meta_suffix) = Some (Regular m) \<and> tl_decode T m = MetaEntry e \<and> entry_ok k c' e"
    using i old unfolding inventory_def by blast
  have "trim_suffix k meta_suffix \<noteq> n" if "has_suffix k meta_suffix" using has_suffix_trim[OF that] ne(2) by auto
  moreover have "trim_suffix k meta_suffix \<noteq> n @ meta_suffix" if "\<not> has_suffix (trim_suffix k meta_suffix) meta_suffix"
    using that by auto
  moreover have "k @ meta_suffix \<noteq> n" using n by auto
  ultimately show "\<exists>c. f = Regular c \<and>
        (if has_suffix k meta_suffix
         then trim_suffix k meta_suffix \<noteq> [] \<and> \<not> has_suffix (trim_suffix k meta_suffix) meta_suffix \<and>
              map_of items' (trim_suffix k meta_suffix) \<noteq> None
         else \<exists>m e. map_of items' (k @ meta_suffix) = Some (Regular m) \<and> tl_decode T m = MetaEntry e \<and> entry_ok k c e)"
    using c' ne(1) new(2) by (auto split: if_splits)
qed

section \<open>Restoring\<close>

lemma remove_trash_simps [simp]:
  "result_of (remove_trash n) d = Inr ()"
  "vault_of (final_of (remove_trash n) d) = vault_of d"
  "dk_history (final_of (remove_trash n) d) = dk_history d"
  "map_of (dk_trash (final_of (remove_trash n) d)) = (map_of (dk_trash d))(n := None)"
  "distinct (map fst (dk_trash d)) \<Longrightarrow> distinct (map fst (dk_trash (final_of (remove_trash n) d)))"
  by (auto simp: remove_trash_def result_of_def final_of_def delete_conv' distinct_delete fun_eq_iff)

lemma move_from_trash_some:
  assumes "map_of (dk_trash d) n = Some f"
  shows "result_of (move_from_trash n rel) d = Inr ()"
    "final_of (move_from_trash n rel) d = vault_update (AList.update rel f) (dk_trash_update (AList.delete n) d)"
  using assms by (simp_all add: move_from_trash_def result_of_def final_of_def)

definition vault_dirs :: "string \<Rightarrow> disk \<Rightarrow> disk" where
  "vault_dirs rel d = (if parent_dirs rel = [] then d else vault_update (make_dirs (parent_dirs rel)) d)"

lemma vault_dirs_simps [simp]:
  "dk_trash (vault_dirs rel d) = dk_trash d"
  "map_of (vault_of (vault_dirs rel d)) = fold (\<lambda>p m. m(p \<mapsto> Directory)) (parent_dirs rel) (map_of (vault_of d))"
  by (auto simp: vault_dirs_def map_of_make_dirs)

lemma trash_restore_steps:
  assumes e: "find_item T n d = Inr e" "clean_path (te_path e) = Some rel"
    and v: "map_of (vault_of d) rel = None" "\<not> blocked_path rel (vault_of d)" and f: "map_of (dk_trash d) n = Some f"
  shows "result_of (trash_restore T n) d = Inr e"
    "map_of (vault_of (final_of (trash_restore T n) d)) =
       (fold (\<lambda>p m. m(p \<mapsto> Directory)) (parent_dirs rel) (map_of (vault_of d)))(rel \<mapsto> f)"
    "map_of (dk_trash (final_of (trash_restore T n) d)) = (map_of (dk_trash d))(n := None, n @ meta_suffix := None)"
    "distinct (map fst (dk_trash d)) \<Longrightarrow> distinct (map fst (dk_trash (final_of (trash_restore T n) d)))"
proof -
  define m0 :: "unit trash_act" where "m0 = (if parent_dirs rel = [] then ret () else put (vault_update (make_dirs (parent_dirs rel))))"
  have m0: "result_of m0 d = Inr ()" "final_of m0 d = vault_dirs rel d" by (simp_all add: m0_def vault_dirs_def)
  define rest where "rest = andthen m0 (\<lambda>_. andthen (move_from_trash n rel) (\<lambda>_. andthen (remove_trash (n @ meta_suffix)) (\<lambda>_. ret e)))"
  have "trash_restore T n d = rest d"
    by (simp add: trash_restore_def andthen_def[of "look g" for g] act_runs e v rest_def m0_def)
  then have run: "result_of (trash_restore T n) d = result_of rest d" "final_of (trash_restore T n) d = final_of rest d"
    by (simp_all add: result_of_def final_of_def)
  note mv = move_from_trash_some[of "vault_dirs rel d" n f rel]
  have mv': "result_of (move_from_trash n rel) (vault_dirs rel d) = Inr ()"
      "final_of (move_from_trash n rel) (vault_dirs rel d) =
        vault_update (AList.update rel f) (dk_trash_update (AList.delete n) (vault_dirs rel d))"
    using mv f by simp_all
  let ?d1 = "vault_update (AList.update rel f) (dk_trash_update (AList.delete n) (vault_dirs rel d))"
  have rm: "result_of (remove_trash (n @ meta_suffix)) ?d1 = Inr ()" by simp
  have fin: "final_of rest d = final_of (remove_trash (n @ meta_suffix)) ?d1"
    by (simp add: rest_def andthen_ok(2)[OF m0(1)] m0(2) andthen_ok(2)[OF mv'(1)] mv'(2) andthen_ok(2)[OF rm])
  show "result_of (trash_restore T n) d = Inr e"
    by (simp add: run rest_def andthen_ok(1)[OF m0(1)] m0(2) andthen_ok(1)[OF mv'(1)] mv'(2) andthen_ok(1)[OF rm])
  show "map_of (vault_of (final_of (trash_restore T n) d)) =
       (fold (\<lambda>p m. m(p \<mapsto> Directory)) (parent_dirs rel) (map_of (vault_of d)))(rel \<mapsto> f)"
    by (simp add: run fin update_conv')
  show "map_of (dk_trash (final_of (trash_restore T n) d)) = (map_of (dk_trash d))(n := None, n @ meta_suffix := None)"
    by (simp add: run fin delete_conv')
  show "distinct (map fst (dk_trash d)) \<Longrightarrow> distinct (map fst (dk_trash (final_of (trash_restore T n) d)))"
    by (simp add: run fin distinct_delete)
qed

lemma dirs_present: "(\<And>p. p \<in> set ds \<Longrightarrow> m p = Some Directory) \<Longrightarrow> fold (\<lambda>p m. m(p \<mapsto> Directory)) ds m = m"
  by (induction ds) (auto simp: fun_upd_idem)


section \<open>Deleting and restoring\<close>

text \<open>The metadata of names that are text is read back as it was written.\<close>

definition trash_lib_ok :: "trash_lib \<Rightarrow> bool" where
  "trash_lib_ok T \<longleftrightarrow> (\<forall>e. valid_utf8 (te_name e) \<and> valid_utf8 (te_path e) \<longrightarrow> tl_decode T (tl_encode T e) = MetaEntry e) \<and> sort_ok (tl_sort T)"

definition plain_name :: "string \<Rightarrow> bool" where
  "plain_name n \<longleftrightarrow> \<not> list_ex (\<lambda>c. c = CHR ''/'' \<or> c = CHR 0x5C) n \<and> n \<noteq> ''.'' \<and> n \<noteq> ''..''"

lemma set_flat_name: "c \<in> set (flat_name rel) \<Longrightarrow> c = CHR ''_'' \<or> c \<in> set rel \<and> c \<noteq> CHR ''/''"
  unfolding flat_name_def by (auto split: if_splits)

lemma flat_name_chars: "CHR 0x5C \<notin> set rel \<Longrightarrow> \<not> list_ex (\<lambda>c. c = CHR ''/'' \<or> c = CHR 0x5C) (flat_name rel)"
  using set_flat_name unfolding list_ex_iff by fastforce

lemma flat_name_slash:
  "CHR ''/'' \<notin> set rel \<Longrightarrow> flat_name rel = rel"
  "CHR ''/'' \<in> set rel \<Longrightarrow> CHR ''_'' \<in> set (flat_name rel)"
  by (induction rel) (auto simp: flat_name_def)

lemma flat_name_plain:
  assumes "clean_path p = Some rel" and "CHR 0x5C \<notin> set rel"
  shows "plain_name (flat_name rel)"
proof -
  have ne: "rel \<noteq> ''.''" "rel \<noteq> ''..''" "rel \<noteq> []" using assms(1) by (auto simp: clean_path_def Let_def split: if_splits)
  have "flat_name rel \<noteq> ''.'' \<and> flat_name rel \<noteq> ''..''"
  proof (cases "CHR ''/'' \<in> set rel")
    case True
    moreover have "CHR ''_'' \<notin> set ''.''" "CHR ''_'' \<notin> set ''..''" by simp_all
    ultimately show ?thesis using flat_name_slash(2) by metis
  next
    case False
    then show ?thesis using flat_name_slash(1) ne by simp
  qed
  then show ?thesis using flat_name_chars[OF assms(2)] by (simp add: plain_name_def)
qed

lemma dec_chars: "c \<in> set (dec_of_nat j) \<Longrightarrow> is_digit c"
  using nat_lit_dec[of j] by (simp add: nat_lit_def)

lemma numbered_plain:
  assumes "plain_name base" and "base \<noteq> []"
  shows "plain_name (numbered base j)"
proof -
  have d: "\<not> is_digit CHR ''/''" "\<not> is_digit CHR 0x5C" "\<not> is_digit CHR ''.''" by code_simp+
  have dec: "dec_of_nat j \<noteq> []" using nat_lit_dec[of j] by (simp add: nat_lit_def)
  have "last (numbered base j) \<noteq> CHR ''.''"
    using dec dec_chars[of "last (dec_of_nat j)" j] d(3) by (auto simp: numbered_def)
  then have "numbered base j \<noteq> ''.''" "numbered base j \<noteq> ''..''" by auto
  moreover have "\<not> list_ex (\<lambda>c. c = CHR ''/'' \<or> c = CHR 0x5C) (dec_of_nat j)"
    using dec_chars[of _ j] d by (auto simp: list_ex_iff)
  ultimately show ?thesis using assms(1) by (auto simp: plain_name_def numbered_def list_ex_iff)
qed

lemma free_name_plain: "plain_name base \<Longrightarrow> base \<noteq> [] \<Longrightarrow> plain_name (free_name names base i base)"
  using free_name_form[of names base i base] numbered_plain by metis

lemma valid_utf8_char: "0 < utf8_len s \<Longrightarrow> valid_utf8 t \<Longrightarrow> valid_utf8 (take (utf8_len s) s @ t)"
proof -
  assume a: "0 < utf8_len s" "valid_utf8 t"
  let ?u = "take (utf8_len s) s @ t"
  have l: "utf8_len ?u = utf8_len s" by (rule utf8_len_take[OF a(1)])
  have "drop (utf8_len s) ?u = t" using utf8_len_le[of s] by simp
  moreover have "?u \<noteq> []" using l a(1) by auto
  ultimately show ?thesis using a l by (subst valid_utf8.simps) simp
qed

lemma valid_utf8_steps: "s \<noteq> [] \<Longrightarrow> valid_utf8 s \<Longrightarrow> 0 < utf8_len s \<and> valid_utf8 (drop (utf8_len s) s)"
  using valid_utf8.simps[of s] by (simp split: if_splits)

lemma valid_utf8_append: "valid_utf8 s \<Longrightarrow> valid_utf8 t \<Longrightarrow> valid_utf8 (s @ t)"
proof (induction s rule: valid_utf8.induct)
  case (1 s)
  show ?case
  proof (cases "s = []")
    case True
    then show ?thesis using 1 by simp
  next
    case False
    then have k: "0 < utf8_len s" "valid_utf8 (drop (utf8_len s) s)"
      using valid_utf8_steps 1(2) by blast+
    have "valid_utf8 (drop (utf8_len s) s @ t)" using 1(1)[OF False _ k(2) 1(3)] k(1) by simp
    then show ?thesis using valid_utf8_char[OF k(1)] by (metis append.assoc append_take_drop_id)
  qed
qed

lemma flat_name_append: "flat_name (s @ t) = flat_name s @ flat_name t"
  by (simp add: flat_name_def)

lemma flat_name_utf8: "valid_utf8 s \<Longrightarrow> valid_utf8 (flat_name s)"
proof (induction s rule: valid_utf8.induct)
  case (1 s)
  show ?case
  proof (cases "s = []")
    case True
    then show ?thesis by (simp add: flat_name_def)
  next
    case False
    then have k: "0 < utf8_len s" "valid_utf8 (drop (utf8_len s) s)" using valid_utf8_steps 1(2) by blast+
    have rest: "valid_utf8 (flat_name (drop (utf8_len s) s))" using 1(1)[OF False _ k(2)] k(1) by simp
    have split: "flat_name s = flat_name (take (utf8_len s) s) @ flat_name (drop (utf8_len s) s)"
      by (simp flip: flat_name_append)
    show ?thesis
    proof (cases "of_char (hd s) < (0x80::nat)")
      case True
      obtain c s' where s: "s = c # s'" using False by (cases s) auto
      have l: "utf8_len s = 1" using True by (simp add: s utf8_len_ascii)
      have "valid_utf8 (flat_name [c])"
        by (rule valid_utf8_ascii) (use True s in \<open>auto simp: flat_name_def split: if_splits\<close>)
      moreover have "take (utf8_len s) s = [c]" unfolding l by (simp add: s)
      ultimately show ?thesis unfolding split using rest by (simp add: valid_utf8_append)
    next
      case False
      have "CHR ''/'' \<notin> set (take (utf8_len s) s)"
        using utf8_bytes_high(1)[of s] k(1) False by fastforce
      then have "flat_name (take (utf8_len s) s) = take (utf8_len s) s" by (rule flat_name_slash(1))
      then show ?thesis unfolding split using valid_utf8_char[OF k(1) rest] by simp
    qed
  qed
qed

lemma free_name_utf8:
  assumes "valid_utf8 base"
  shows "valid_utf8 (free_name names base i base)"
proof -
  have "of_char c < (0x80::nat)" if "is_digit c" for c using that by (simp add: is_digit_def)
  then have "valid_utf8 (''.'' @ dec_of_nat j)" for j
    using dec_chars by (intro valid_utf8_ascii) auto
  then have "valid_utf8 (numbered base j)" for j
    using valid_utf8_append[OF assms] by (simp add: numbered_def)
  then show ?thesis using free_name_form[of names base i base] assms by metis
qed

lemma trash_restore_facts:
  assumes T: "trash_lib_ok T" and c: "clean_path p = Some rel" and u: "valid_utf8 rel" and b: "CHR 0x5C \<notin> set rel" and s: "\<not> has_suffix (flat_name rel) meta_suffix"
    and strict: "trash_list_strict T d = Inr es" and dist: "distinct (map fst (dk_trash d))"
    and dirs: "\<forall>q \<in> set (parent_dirs rel). map_of (vault_of d) q = Some Directory"
    and r: "result_of (trash_path L T now p) d = Inr e" and d1: "d1 = final_of (trash_path L T now p) d"
  shows "result_of (trash_restore T (te_name e)) d1 = Inr e \<and>
    map_of (vault_of (final_of (trash_restore T (te_name e)) d1)) = map_of (vault_of d) \<and>
    map_of (dk_trash (final_of (trash_restore T (te_name e)) d1)) = map_of (dk_trash d)"
proof -
  obtain data h where t: "map_of (vault_of d) rel = Some (Regular data)" "h = final_of (take_snapshot L now rel) (dk_history d)"
    "e = \<lparr>te_name = free_name (map fst (dk_trash d)) (flat_name rel) 1 (flat_name rel), te_path = rel, te_deleted = now, te_size = int (length data)\<rparr>"
    "d1 = trashed T rel e data (d\<lparr>dk_history := h\<rparr>)"
    using trash_path_steps[OF c r] d1 by metis
  let ?n = "te_name e"
  have n: "?n \<notin> set (map fst (dk_trash d))" unfolding t(3) trash_entry.select_convs by (rule free_name_fresh)
  have base: "flat_name rel \<noteq> []" using flat_name_nonempty clean_path_nonempty[OF c] by blast
  have plain: "plain_name ?n" using free_name_plain[OF flat_name_plain[OF c b] base] t(3) by simp
  have inv: "inventory T (dk_trash d)" using strict_list_iff[OF dist] strict by blast
  have none: "map_of (dk_trash d) ?n = None" "map_of (dk_trash d) (?n @ meta_suffix) = None"
    using n inventoryD(3)[OF inv, of ?n] by (auto simp: map_of_eq_None_iff)
  have "hs_vault h = vault_of d" by (simp add: t(2) take_snapshot_vault)
  then have v: "map_of (vault_of d1) = (map_of (vault_of d))(rel := None)" by (simp add: t(4) trashed_maps)
  have tr: "map_of (dk_trash d1) = (map_of (dk_trash d))(?n @ meta_suffix \<mapsto> Regular (tl_encode T e), ?n \<mapsto> Regular data)"
    by (simp add: t(4) trashed_maps)
  have law: "tl_decode T (tl_encode T e) = MetaEntry e"
    using T free_name_utf8[OF flat_name_utf8[OF u]] u by (simp add: trash_lib_ok_def t(3))
  have f: "find_item T ?n d1 = Inr e"
    using plain law by (simp add: find_item_def plain_name_def tr)
  have p: "clean_path (te_path e) = Some rel" using clean_path_idem[OF c] t(3) by simp
  have up: "map_of (vault_of d1) q = Some Directory" if "q \<in> set (parent_dirs rel)" for q
    using dirs that t(1) v by auto
  then have nb: "\<not> blocked_path rel (vault_of d1)" by (auto simp: blocked_path_def list_ex_iff)
  have "map_of (vault_of d1) rel = None" using v by simp
  moreover have "map_of (dk_trash d1) ?n = Some (Regular data)" using tr by simp
  ultimately have rs: "result_of (trash_restore T ?n) d1 = Inr e"
      "map_of (vault_of (final_of (trash_restore T ?n) d1)) = (fold (\<lambda>p m. m(p \<mapsto> Directory)) (parent_dirs rel) (map_of (vault_of d1)))(rel \<mapsto> Regular data)"
      "map_of (dk_trash (final_of (trash_restore T ?n) d1)) = (map_of (dk_trash d1))(?n := None, ?n @ meta_suffix := None)"
    using trash_restore_steps[OF f p _ nb] by blast+
  have same: "fold (\<lambda>p m. m(p \<mapsto> Directory)) (parent_dirs rel) (map_of (vault_of d1)) = map_of (vault_of d1)"
    by (rule dirs_present[OF up])
  have "map_of (vault_of (final_of (trash_restore T ?n) d1)) = map_of (vault_of d)"
    using rs(2)[unfolded same] t(1) by (auto simp: fun_eq_iff v)
  moreover have "map_of (dk_trash (final_of (trash_restore T ?n) d1)) = map_of (dk_trash d)"
    unfolding rs(3) tr using none by (auto simp: fun_eq_iff)
  ultimately show ?thesis using rs(1) by blast
qed

text \<open>
  C39: Deleting a file is undone by restoring it: when the strict listing accepts the trash, and the path of a
  file is UTF-8 text without a backslash that does not end in \<open>.trashinfo.json\<close>, then after the file is
  deleted, restoring the entry the deletion returned succeeds, and the vault and the trash are as they
  were before.
\<close>
theorem trash_restore_roundtrip:
  assumes "trash_lib_ok T" and "clean_path p = Some rel" and "valid_utf8 rel" and "CHR 0x5C \<notin> set rel" and "\<not> has_suffix (flat_name rel) meta_suffix"
    and "trash_list_strict T d = Inr es" and "distinct (map fst (dk_trash d))"
    and "\<forall>q \<in> set (parent_dirs rel). map_of (vault_of d) q = Some Directory"
    and "result_of (trash_path L T now p) d = Inr e" and "d1 = final_of (trash_path L T now p) d"
  shows "result_of (trash_restore T (te_name e)) d1 = Inr e \<and>
    map_of (vault_of (final_of (trash_restore T (te_name e)) d1)) = map_of (vault_of d) \<and>
    map_of (dk_trash (final_of (trash_restore T (te_name e)) d1)) = map_of (dk_trash d)"
  by (rule trash_restore_facts[OF assms])


section \<open>The inventory over operations\<close>

lemma trash_path_error:
  assumes "result_of (trash_path L T now p) d = Inl er"
  shows "dk_trash (final_of (trash_path L T now p) d) = dk_trash d"
proof (cases "clean_path p")
  case None
  then show ?thesis by (simp add: trash_path_def)
next
  case (Some rel)
  show ?thesis
  proof (cases "\<exists>f. map_of (vault_of d) rel = Some f \<and> f \<noteq> Directory")
    case False
    then show ?thesis by (auto simp: trash_path_def Some final_of_def act_runs split: option.split)
  next
    case True
    then obtain f where f: "map_of (vault_of d) rel = Some f" "f \<noteq> Directory" by blast
    let ?s = "on_history (take_snapshot L now rel)"
    define h where "h = final_of (take_snapshot L now rel) (dk_history d)"
    have s1: "final_of ?s d = d\<lparr>dk_history := h\<rparr>" unfolding on_history_def h_def by (rule final_within) simp
    have f1: "map_of (vault_of (d\<lparr>dk_history := h\<rparr>)) rel = Some f" using f(1) by (simp add: h_def take_snapshot_vault)
    have mv: "result_of (move_to_trash rel n) (final_of (put_trash m x) (d\<lparr>dk_history := h\<rparr>)) = Inr ()" for n m x
    proof -
      have "vault_of (final_of (put_trash m x) (d\<lparr>dk_history := h\<rparr>)) = hs_vault h"
        by (simp add: put_trash_def final_of_def act_runs)
      then show ?thesis using f1 by (intro move_to_trash_some) simp
    qed
    have pt: "result_of (put_trash m x) (d\<lparr>dk_history := h\<rparr>) = Inl er' \<Longrightarrow>
        dk_trash (final_of (put_trash m x) (d\<lparr>dk_history := h\<rparr>)) = dk_trash d" for m x er'
      by (auto simp: put_trash_def result_of_def final_of_def act_runs split: if_splits)
    define rest where "rest = (\<lambda>n. let e = \<lparr>te_name = n, te_path = rel, te_deleted = now, te_size = file_size f\<rparr> in
                andthen (put_trash (n @ meta_suffix) (tl_encode T e)) (\<lambda>_.
                andthen (move_to_trash rel n) (\<lambda>_. ret e)))"
    have rest: "result_of (rest n) (d\<lparr>dk_history := h\<rparr>) = Inl er' \<Longrightarrow> dk_trash (final_of (rest n) (d\<lparr>dk_history := h\<rparr>)) = dk_trash d" for n er'
      using pt mv by (auto simp: rest_def Let_def result_andthen final_andthen bind_err_Inl split: sum.split)
    have "trash_path L T now p d = andthen ?s (\<lambda>_.
        andthen (look (\<lambda>d. Inr (free_name (map fst (dk_trash d)) (flat_name rel) 1 (flat_name rel)))) rest) d"
      by (simp add: trash_path_def Some f rest_def)
    then have run: "result_of (trash_path L T now p) d = result_of (andthen ?s (\<lambda>_.
          andthen (look (\<lambda>d. Inr (free_name (map fst (dk_trash d)) (flat_name rel) 1 (flat_name rel)))) rest)) d"
        "final_of (trash_path L T now p) d = final_of (andthen ?s (\<lambda>_.
          andthen (look (\<lambda>d. Inr (free_name (map fst (dk_trash d)) (flat_name rel) 1 (flat_name rel)))) rest)) d"
      by (simp_all add: result_of_def final_of_def)
    show ?thesis
    proof (cases "result_of ?s d")
      case (Inl e1)
      then show ?thesis by (simp add: run andthen_error s1)
    next
      case (Inr u)
      then show ?thesis using assms rest by (simp add: run andthen_ok[OF Inr] s1 andthen_ok[of "look g" for g])
    qed
  qed
qed

lemma trash_path_inventory:
  assumes T: "trash_lib_ok T" and i: "inventory T (dk_trash d)" and now: "now \<noteq> zero_time"
    and s: "\<And>rel. clean_path p = Some rel \<Longrightarrow> valid_utf8 rel \<and> \<not> has_suffix (flat_name rel) meta_suffix"
  shows "inventory T (dk_trash (final_of (trash_path L T now p) d))"
proof (cases "result_of (trash_path L T now p) d")
  case (Inl er)
  then show ?thesis using trash_path_error i by metis
next
  case (Inr e)
  then obtain rel where c: "clean_path p = Some rel" by (cases "clean_path p") (simp_all add: trash_path_def)
  obtain data h where t: 
    "e = \<lparr>te_name = free_name (map fst (dk_trash d)) (flat_name rel) 1 (flat_name rel), te_path = rel, te_deleted = now, te_size = int (length data)\<rparr>"
    "final_of (trash_path L T now p) d = trashed T rel e data (d\<lparr>dk_history := h\<rparr>)"
    using trash_path_steps[OF c Inr] by metis
  have n: "te_name e \<notin> fst ` set (dk_trash d)"
    using free_name_fresh[of "map fst (dk_trash d)"] by (simp add: t(1) del: One_nat_def)
  have base: "flat_name rel \<noteq> []" using flat_name_nonempty clean_path_nonempty[OF c] by blast
  have "te_name e \<noteq> []" "\<not> has_suffix (te_name e) meta_suffix"
    using free_name_nonempty[OF base] free_name_meta s[OF c] by (simp_all add: t(1))
  moreover have "tl_decode T (tl_encode T e) = MetaEntry e" "entry_ok (te_name e) data e"
    using T now clean_path_idem[OF c] s[OF c] free_name_utf8 flat_name_utf8 by (simp_all add: trash_lib_ok_def entry_ok_def t(1))
  moreover have "distinct (map fst (dk_trash (trashed T rel e data (d\<lparr>dk_history := h\<rparr>))))"
    using i by (intro trashed_maps(3)) (simp add: inventory_def)
  ultimately show ?thesis unfolding t(2) using inventory_add[OF i n] trashed_maps(2) by simp
qed

lemma remove_item_simps [simp]:
  "result_of (remove_item n) d = Inr ()"
  "dk_history (final_of (remove_item n) d) = dk_history d"
  "map_of (dk_trash (final_of (remove_item n) d)) = (map_of (dk_trash d))(n := None, n @ meta_suffix := None)"
  "distinct (map fst (dk_trash d)) \<Longrightarrow> distinct (map fst (dk_trash (final_of (remove_item n) d)))"
  by (simp_all add: remove_item_def result_andthen final_andthen)

lemma remove_item_inventory:
  "inventory T (dk_trash d) \<Longrightarrow> \<not> has_suffix n meta_suffix \<Longrightarrow> inventory T (dk_trash (final_of (remove_item n) d))"
  by (rule inventory_remove) (auto simp: inventory_def)

text \<open>Removing items takes their two files and nothing else.\<close>

lemma remove_items_effect:
  "result_of (remove_items es) d = Inr (length es) \<and> dk_history (final_of (remove_items es) d) = dk_history d \<and>
   map_of (dk_trash (final_of (remove_items es) d)) =
     (\<lambda>m. if \<exists>e \<in> set es. m = te_name e \<or> m = te_name e @ meta_suffix then None else map_of (dk_trash d) m)"
proof -
  let ?m = "each (\<lambda>e. remove_item (te_name e))"
  have "result_of (?m es) d = Inr () \<and> dk_history (final_of (?m es) d) = dk_history d \<and>
     map_of (dk_trash (final_of (?m es) d)) =
       (\<lambda>m. if \<exists>e \<in> set es. m = te_name e \<or> m = te_name e @ meta_suffix then None else map_of (dk_trash d) m)"
  proof (induction es arbitrary: d)
    case (Cons e es)
    show ?case using Cons[of "final_of (remove_item (te_name e)) d"]
      by (auto simp: result_andthen final_andthen fun_eq_iff)
  qed simp
  then show ?thesis by (simp add: remove_items_def result_andthen final_andthen)
qed

lemma each_inventory:
  assumes "inventory T (dk_trash d)" and "\<forall>e \<in> set es. \<not> has_suffix (te_name e) meta_suffix"
  shows "inventory T (dk_trash (final_of (remove_items es) d))"
proof -
  have "inventory T (dk_trash (final_of (each (\<lambda>e. remove_item (te_name e)) es) d)) \<and>
      result_of (each (\<lambda>e. remove_item (te_name e)) es) d = Inr ()"
    using assms
  proof (induction es arbitrary: d)
    case (Cons e es)
    have "inventory T (dk_trash (final_of (remove_item (te_name e)) d))"
      using remove_item_inventory Cons.prems by simp
    then show ?case using Cons.IH Cons.prems by (simp add: result_andthen final_andthen)
  qed simp
  then show ?thesis by (simp add: remove_items_def final_andthen)
qed

lemma find_in: "find P xs = Some x \<Longrightarrow> x \<in> set xs \<and> P x"
  by (auto simp: find_Some_iff)

lemma purge_wanted_inventory:
  assumes "inventory T (dk_trash d)" and "\<forall>e \<in> set current. \<not> has_suffix (te_name e) meta_suffix"
  shows "inventory T (dk_trash (final_of (purge_wanted current wanted) d))"
  using assms(1)
proof (induction wanted arbitrary: d)
  case (Cons w wanted)
  obtain n p where w: "w = (n, p)" by (cases w)
  show ?case
  proof (cases "find (\<lambda>e. te_name e = n) current")
    case None
    then show ?thesis using Cons by (simp add: w)
  next
    case (Some e)
    then have n: "\<not> has_suffix n meta_suffix" using assms(2) find_in[OF Some] by auto
    have i: "inventory T (dk_trash (final_of (purge_wanted current wanted) (final_of (remove_item n) d)))"
      using Cons.IH remove_item_inventory Cons.prems n by blast
    show ?thesis
    proof (cases "te_path e = p")
      case True
      have "final_of (purge_wanted current ((n, p) # wanted)) d =
          final_of (andthen (purge_wanted current wanted) (\<lambda>k. ret (Suc k))) (final_of (remove_item n) d)"
        by (simp add: Some True final_andthen)
      also have "\<dots> = final_of (purge_wanted current wanted) (final_of (remove_item n) d)"
        by (cases "result_of (purge_wanted current wanted) (final_of (remove_item n) d)") (simp_all add: final_andthen)
      finally show ?thesis using i w by simp
    qed (simp add: Some w Cons.prems)
  qed
qed simp


datatype trash_op =
    OtherChange history | DeleteFile int string | RestoreItem string | PurgeOld int int
  | PurgeItems "(string \<times> string) list" | PurgeTrashOf "string list"

fun trash_after :: "history_lib \<Rightarrow> trash_lib \<Rightarrow> trash_op \<Rightarrow> disk \<Rightarrow> disk" where
  "trash_after L T (OtherChange h) d = d\<lparr>dk_history := h\<rparr>"
| "trash_after L T (DeleteFile now p) d = final_of (trash_path L T now p) d"
| "trash_after L T (RestoreItem n) d = final_of (trash_restore T n) d"
| "trash_after L T (PurgeOld now max_age) d = final_of (trash_purge T now max_age) d"
| "trash_after L T (PurgeItems wanted) d = final_of (purge_trash_entries T wanted) d"
| "trash_after L T (PurgeTrashOf rels) d = final_of (purge_trash_paths T rels) d"

text \<open>A file whose name is no text or ends like metadata is not to be deleted.\<close>

fun op_fits :: "trash_op \<Rightarrow> bool" where
  "op_fits (DeleteFile now p) \<longleftrightarrow> now \<noteq> zero_time \<and>
     (case clean_path p of None \<Rightarrow> True | Some rel \<Rightarrow> valid_utf8 rel \<and> \<not> has_suffix (flat_name rel) meta_suffix)"
| "op_fits q \<longleftrightarrow> True"

inductive trash_state :: "history_lib \<Rightarrow> trash_lib \<Rightarrow> disk \<Rightarrow> bool" for L T where
  empty: "trash_state L T \<lparr>dk_history = h, dk_trash = []\<rparr>"
| op: "trash_state L T d \<Longrightarrow> op_fits q \<Longrightarrow> trash_state L T (trash_after L T q d)"

lemma trash_restore_inventory:
  assumes i: "inventory T (dk_trash d)"
  shows "inventory T (dk_trash (final_of (trash_restore T n) d))"
proof (cases "\<exists>e rel. find_item T n d = Inr e \<and> clean_path (te_path e) = Some rel \<and>
    map_of (vault_of d) rel = None \<and> \<not> blocked_path rel (vault_of d)")
  case True
  then obtain e rel where e: "find_item T n d = Inr e" "clean_path (te_path e) = Some rel"
      "map_of (vault_of d) rel = None" "\<not> blocked_path rel (vault_of d)" by blast
  have "map_of (dk_trash d) (n @ meta_suffix) \<noteq> None" using e(1) by (auto simp: find_item_def split: if_splits option.splits)
  note n = inventoryD[OF i this]
  then obtain f where f: "map_of (dk_trash d) n = Some f" by blast
  show ?thesis
    using inventory_remove[OF i n(2)] trash_restore_steps(3,4)[OF e f] i by (simp add: inventory_def)
next
  case False
  then have "final_of (trash_restore T n) d = d"
    by (cases "find_item T n d") (auto simp: trash_restore_def final_of_def andthen_def act_runs split: option.split)
  then show ?thesis using i by simp
qed

lemma strict_names:
  assumes "inventory T (dk_trash d)" and "trash_lib_ok T" and "trash_list_strict T d = Inr es" and "e \<in> set es"
  shows "\<not> has_suffix (te_name e) meta_suffix"
proof -
  have d: "distinct (map fst (dk_trash d))" using assms(1) by (simp add: inventory_def)
  obtain n where "n \<in> set (payloads (dk_trash d))" "strict_entry T (dk_trash d) n = Inr e"
    using strict_list_set[OF d assms(3), of e] assms(2,4) by (auto simp: trash_lib_ok_def)
  then show ?thesis by (auto simp: payloads_def strict_entry_Inr)
qed

lemma trash_state_inventory:
  assumes T: "trash_lib_ok T" and s: "trash_state L T d"
  shows "inventory T (dk_trash d)"
  using s
proof induction
  case (empty h)
  then show ?case by (simp add: inventory_def)
next
  case (op d q)
  have filtered: "inventory T (dk_trash (final_of (remove_items (filter P es)) d))" if "trash_list_strict T d = Inr es" for es P
    using each_inventory[OF op.IH] strict_names[OF op.IH T that] by auto
  show ?case
  proof (cases q)
    case (OtherChange h)
    then show ?thesis using op.IH by simp
  next
    case (DeleteFile now p)
    have fits: "valid_utf8 rel \<and> \<not> has_suffix (flat_name rel) meta_suffix" if "clean_path p = Some rel" for rel
      using op.hyps(2) that by (simp add: DeleteFile)
    show ?thesis using trash_path_inventory[OF T op.IH _ fits] op.hyps(2) by (simp add: DeleteFile)
  next
    case (RestoreItem n)
    then show ?thesis using trash_restore_inventory[OF op.IH] by simp
  next
    case (PurgeOld now max_age)
    then show ?thesis using filtered op.IH
      by (cases "trash_list_strict T d") (simp_all add: trash_purge_def final_andthen)
  next
    case (PurgeItems wanted)
    then show ?thesis using purge_wanted_inventory[OF op.IH] strict_names[OF op.IH T] op.IH
      by (cases "trash_list_strict T d") (simp_all add: purge_trash_entries_def final_andthen)
  next
    case (PurgeTrashOf rels)
    then show ?thesis using filtered op.IH
      by (cases "clean_paths rels"; cases "trash_list_strict T d") (simp_all add: purge_trash_paths_def final_andthen)
  qed
qed

text \<open>
  C40: The trash stays well formed: from an empty trash on, after any operations that run to their end (any changes of the vault and its
  history between them), as long as no file is deleted whose path is no UTF-8 text or ends in \<open>.trashinfo.json\<close>,
  the trash is an inventory
  in which every payload is a regular file with metadata that names it, its original path and its size,
  and all metadata has a payload; the strict listing, on which every purge rests, accepts it.
  (A purge cut off half-way leaves metadata without a payload, and a deleted file with such a name blocks
  every purge.)
\<close>
theorem trash_inventory_kept:
  assumes "trash_lib_ok T" and "trash_state L T d"
  shows "inventory T (dk_trash d) \<and> (\<exists>es. trash_list_strict T d = Inr es)"
  using trash_state_inventory[OF assms] strict_of_inventory by blast


text \<open>Purging by path.\<close>

lemma those_iff: "those (map f xs) = Some ys \<Longrightarrow> y \<in> set ys \<longleftrightarrow> (\<exists>x \<in> set xs. f x = Some y)"
  by (induction xs arbitrary: ys) (auto split: option.splits)

lemma listed_iff:
  assumes "distinct (map fst (dk_trash d))" and "trash_list_strict T d = Inr es" and "sort_ok (tl_sort T)"
  shows "e \<in> set es \<longleftrightarrow> \<not> has_suffix (te_name e) meta_suffix \<and> strict_entry T (dk_trash d) (te_name e) = Inr e"
proof -
  have "n \<in> set (payloads (dk_trash d)) \<longleftrightarrow> \<not> has_suffix n meta_suffix" if "strict_entry T (dk_trash d) n = Inr e" for n
  proof -
    have "map_of (dk_trash d) n \<noteq> None" using that by (auto simp: strict_entry_Inr)
    then show ?thesis by (auto simp: payloads_def map_of_eq_None_iff)
  qed
  moreover have "te_name e = n" if "strict_entry T (dk_trash d) n = Inr e" for n
    using that by (auto simp: strict_entry_Inr)
  ultimately show ?thesis unfolding strict_list_set[OF assms] by blast
qed

lemma purge_trash_facts:
  assumes T: "trash_lib_ok T" and s: "trash_state L T d" and r: "result_of (purge_trash_paths T ps) d = Inr k"
    and d': "d' = final_of (purge_trash_paths T ps) d" and es: "trash_list_strict T d = Inr es"
  shows "dk_history d' = dk_history d \<and>
    (\<exists>es'. trash_list_strict T d' = Inr es' \<and>
       set es' = {e \<in> set es. \<forall>p \<in> set ps. clean_path p \<noteq> Some (te_path e)}) \<and>
    (\<forall>e \<in> set es. (\<forall>p \<in> set ps. clean_path p \<noteq> Some (te_path e)) \<longrightarrow> map_of (dk_trash d') (te_name e) = map_of (dk_trash d) (te_name e))"
proof -
  have i: "inventory T (dk_trash d)" by (rule trash_state_inventory[OF T s])
  have dist: "distinct (map fst (dk_trash d))" using i by (simp add: inventory_def)
  have sort: "sort_ok (tl_sort T)" using T by (simp add: trash_lib_ok_def)
  obtain ts where ts: "those (map clean_path ps) = Some ts"
    using r by (cases "clean_paths ps") (auto simp: purge_trash_paths_def result_andthen clean_paths_def split: option.splits)
  let ?gone = "filter (\<lambda>e. List.member ts (te_path e)) es"
  have fin: "d' = final_of (remove_items ?gone) d"
    using ts es by (simp add: d' purge_trash_paths_def final_andthen clean_paths_def)
  have s': "trash_state L T d'" using trash_state.op[OF s, of "PurgeTrashOf ps"] d' by simp
  then have i': "inventory T (dk_trash d')" by (rule trash_state_inventory[OF T])
  then obtain es' where es': "trash_list_strict T d' = Inr es'" using strict_of_inventory by blast
  have dist': "distinct (map fst (dk_trash d'))" using i' by (simp add: inventory_def)
  have map': "map_of (dk_trash d') = (\<lambda>m. if \<exists>e \<in> set ?gone. m = te_name e \<or> m = te_name e @ meta_suffix then None else map_of (dk_trash d) m)"
    using remove_items_effect[of ?gone d] by (simp add: fin)
  have target: "te_path e \<in> set ts \<longleftrightarrow> (\<exists>p \<in> set ps. clean_path p = Some (te_path e))" for e
    using those_iff[OF ts] by blast
  have listed: "e \<in> set es \<longleftrightarrow> \<not> has_suffix (te_name e) meta_suffix \<and> strict_entry T (dk_trash d) (te_name e) = Inr e" for e
    using listed_iff[OF dist es sort] .
  have listed': "e \<in> set es' \<longleftrightarrow> \<not> has_suffix (te_name e) meta_suffix \<and> strict_entry T (dk_trash d') (te_name e) = Inr e" for e
    using listed_iff[OF dist' es' sort] .
  have kept: "map_of (dk_trash d') (te_name e) = map_of (dk_trash d) (te_name e)"
      "map_of (dk_trash d') (te_name e @ meta_suffix) = map_of (dk_trash d) (te_name e @ meta_suffix)"
    if "e \<in> set es" "te_path e \<notin> set ts" for e
  proof -
    have e: "\<not> has_suffix (te_name e) meta_suffix" "strict_entry T (dk_trash d) (te_name e) = Inr e" using that(1) listed by auto
    have other: "te_name e \<noteq> te_name x" "te_name e \<noteq> te_name x @ meta_suffix" "te_name e @ meta_suffix \<noteq> te_name x" if "x \<in> set ?gone" for x
    proof -
      have x: "x \<in> set es" "te_path x \<in> set ts" using that by auto
      then have "\<not> has_suffix (te_name x) meta_suffix" "strict_entry T (dk_trash d) (te_name x) = Inr x" using listed by auto
      then show "te_name e \<noteq> te_name x" "te_name e \<noteq> te_name x @ meta_suffix" "te_name e @ meta_suffix \<noteq> te_name x"
        using e x(2) \<open>te_path e \<notin> set ts\<close> by (metis sum.inject(2), metis has_suffix_append, metis has_suffix_append)
    qed
    then show "map_of (dk_trash d') (te_name e) = map_of (dk_trash d) (te_name e)"
        "map_of (dk_trash d') (te_name e @ meta_suffix) = map_of (dk_trash d) (te_name e @ meta_suffix)"
      unfolding map' by auto
  qed
  have "e \<in> set es' \<longleftrightarrow> e \<in> set es \<and> te_path e \<notin> set ts" for e
  proof
    assume e: "e \<in> set es'"
    then have s1: "\<not> has_suffix (te_name e) meta_suffix" "strict_entry T (dk_trash d') (te_name e) = Inr e" using listed' by auto
    then obtain m f where m: "map_of (dk_trash d') (te_name e @ meta_suffix) = Some (Regular m)" "tl_decode T m = MetaEntry e"
        "map_of (dk_trash d') (te_name e) = Some f" "clean_path (te_path e) = Some (te_path e)" "te_deleted e \<noteq> zero_time" "te_size e = file_size f"
      by (auto simp: strict_entry_Inr)
    have old: "map_of (dk_trash d) x = Some y" if "map_of (dk_trash d') x = Some y" for x y
      using that unfolding map' by (simp split: if_splits)
    have "strict_entry T (dk_trash d) (te_name e) = Inr e" using old[OF m(1)] old[OF m(3)] m by (simp add: strict_entry_Inr)
    then have "e \<in> set es" using listed s1(1) by blast
    moreover have "te_path e \<notin> set ts"
    proof
      assume "te_path e \<in> set ts"
      then have "e \<in> set ?gone" using \<open>e \<in> set es\<close> by simp
      then have "map_of (dk_trash d') (te_name e) = None" unfolding map' by auto
      then show False using m(3) by simp
    qed
    ultimately show "e \<in> set es \<and> te_path e \<notin> set ts" by blast
  next
    assume e: "e \<in> set es \<and> te_path e \<notin> set ts"
    then have "strict_entry T (dk_trash d) (te_name e) = Inr e" "\<not> has_suffix (te_name e) meta_suffix" using listed by auto
    then have "strict_entry T (dk_trash d') (te_name e) = Inr e"
      using kept e by (simp add: strict_entry_Inr)
    then show "e \<in> set es'" using listed' \<open>\<not> has_suffix (te_name e) meta_suffix\<close> by blast
  qed
  then have "set es' = {e \<in> set es. \<forall>p \<in> set ps. clean_path p \<noteq> Some (te_path e)}" using target by blast
  moreover have "dk_history d' = dk_history d" using remove_items_effect[of ?gone d] fin by simp
  moreover have "\<forall>e \<in> set es. (\<forall>p \<in> set ps. clean_path p \<noteq> Some (te_path e)) \<longrightarrow> map_of (dk_trash d') (te_name e) = map_of (dk_trash d) (te_name e)"
    using kept(1) target by blast
  ultimately show ?thesis using es' by blast
qed


text \<open>
  The purge of the trash by original paths is exact: in any state of the trash, when it succeeds,
  the entries afterwards are those whose original path is none of the given paths, each with its
  payload as it was, and the vault and its history are untouched.
\<close>
theorem purge_trash_exact:
  assumes "trash_lib_ok T" and "trash_state L T d" and "result_of (purge_trash_paths T ps) d = Inr k"
    and "d' = final_of (purge_trash_paths T ps) d" and "trash_list_strict T d = Inr es"
  shows "dk_history d' = dk_history d \<and>
    (\<exists>es'. trash_list_strict T d' = Inr es' \<and>
       set es' = {e \<in> set es. \<forall>p \<in> set ps. clean_path p \<noteq> Some (te_path e)}) \<and>
    (\<forall>e \<in> set es. (\<forall>p \<in> set ps. clean_path p \<noteq> Some (te_path e)) \<longrightarrow> map_of (dk_trash d') (te_name e) = map_of (dk_trash d) (te_name e))"
  by (rule purge_trash_facts[OF assms])

lemma metadata_name_facts:
  assumes T: "trash_lib_ok T" and c: "clean_path p = Some rel" and s: "has_suffix (flat_name rel) meta_suffix"
    and free: "flat_name rel \<notin> fst ` set (dk_trash d)" and dist: "distinct (map fst (dk_trash d))"
    and r: "result_of (trash_path L T now p) d = Inr e" and d1: "d1 = final_of (trash_path L T now p) d"
  shows "(\<exists>er. trash_list_strict T d1 = Inl er) \<and>
    (\<exists>er. trash_purge T t max_age d1 = (Inl er, []))"
proof -
  obtain data h where t:
    "e = \<lparr>te_name = free_name (map fst (dk_trash d)) (flat_name rel) 1 (flat_name rel), te_path = rel, te_deleted = now, te_size = int (length data)\<rparr>"
    "d1 = trashed T rel e data (d\<lparr>dk_history := h\<rparr>)"
    using trash_path_steps[OF c r] d1 by metis
  have n: "te_name e = flat_name rel" using free by (simp add: t(1) free_name.simps)
  have "map_of (dk_trash d1) (te_name e @ meta_suffix) \<noteq> None" by (simp add: t(2) trashed_maps)
  then have "\<not> inventory T (dk_trash d1)" using inventoryD(2) s n by metis
  moreover have "distinct (map fst (dk_trash d1))" using dist by (simp add: t(2) trashed_maps)
  ultimately obtain er where "trash_list_strict T d1 = Inl er" using strict_list_iff by (cases "trash_list_strict T d1") blast+
  then show ?thesis by (simp add: trash_purge_def andthen_def act_runs)
qed

text \<open>
  One file can make the trash unpurgeable: when a file whose name ends in \<open>.trashinfo.json\<close> is deleted
  (which succeeds), its payload is taken for metadata, the strict listing fails, and with it every purge
  of the trash, before anything is removed.
\<close>
theorem metadata_name_blocks_purges:
  assumes "trash_lib_ok T" and "clean_path p = Some rel" and "has_suffix (flat_name rel) meta_suffix"
    and "flat_name rel \<notin> fst ` set (dk_trash d)" and "distinct (map fst (dk_trash d))"
    and "result_of (trash_path L T now p) d = Inr e" and "d1 = final_of (trash_path L T now p) d"
  shows "(\<exists>er. trash_list_strict T d1 = Inl er) \<and>
    (\<exists>er. trash_purge T t max_age d1 = (Inl er, []))"
  by (rule metadata_name_facts[OF assms])

text \<open>Deleting a file writes metadata over a payload of that name.\<close>

lemma trash_overwrites_payload:
  assumes "clean_path p = Some rel" and "flat_name rel \<notin> fst ` set (dk_trash d)" and "result_of (trash_path L T now p) d = Inr e"
  shows "map_of (dk_trash (final_of (trash_path L T now p) d)) (flat_name rel @ meta_suffix) = Some (Regular (tl_encode T e))"
proof -
  obtain data h where t:
    "e = \<lparr>te_name = free_name (map fst (dk_trash d)) (flat_name rel) 1 (flat_name rel), te_path = rel, te_deleted = now, te_size = int (length data)\<rparr>"
    "final_of (trash_path L T now p) d = trashed T rel e data (d\<lparr>dk_history := h\<rparr>)"
    using trash_path_steps[OF assms(1,3)] by metis
  have n: "te_name e = flat_name rel" using assms(2) by (simp add: t(1) free_name.simps)
  then show ?thesis by (simp add: t(2) trashed_maps)
qed

section \<open>An instance\<close>

text \<open>Metadata as JSON objects, with the times as numbers.\<close>

definition json_meta :: "trash_entry \<Rightarrow> json" where
  "json_meta e = JObj [(''name'', JStr (te_name e)), (''original_path'', JStr (te_path e)),
     (''early'', JBool (te_deleted e < 0)), (''deleted_at'', JNum (dec_of_nat (nat \<bar>te_deleted e\<bar>))),
     (''short'', JBool (te_size e < 0)), (''size'', JNum (dec_of_nat (nat \<bar>te_size e\<bar>)))]"

fun json_str :: "json option \<Rightarrow> string" where
  "json_str (Some (JStr s)) = s"
| "json_str (Some (JNum s)) = s"
| "json_str _ = []"

definition json_int :: "json option \<Rightarrow> json option \<Rightarrow> int" where
  "json_int s v = (if s = Some (JBool True) then - int (nat_of_dec (json_str v)) else int (nat_of_dec (json_str v)))"

definition json_entry :: "json option \<Rightarrow> meta_doc" where
  "json_entry v =
     (case v of
        Some (JObj ms) \<Rightarrow> MetaEntry
          \<lparr>te_name = json_str (map_of ms ''name''), te_path = json_str (map_of ms ''original_path''),
           te_deleted = json_int (map_of ms ''early'') (map_of ms ''deleted_at''),
           te_size = json_int (map_of ms ''short'') (map_of ms ''size'')\<rparr>
      | Some JNull \<Rightarrow> MetaNull
      | _ \<Rightarrow> MetaBad)"

definition trash_T :: trash_lib where
  "trash_T = \<lparr>tl_encode = (\<lambda>e. jprint (json_meta e)), tl_decode = (\<lambda>c. json_entry (parse_json c)), tl_sort = (\<lambda>k. sort_key k)\<rparr>"

lemma trash_T_ok: "trash_lib_ok trash_T"
proof -
  have "tl_decode trash_T (tl_encode trash_T e) = MetaEntry e" if "valid_utf8 (te_name e)" "valid_utf8 (te_path e)" for e
  proof -
    have "valid_utf8 ''name''" "valid_utf8 ''original_path''" "valid_utf8 ''early''" "valid_utf8 ''deleted_at''"
      "valid_utf8 ''short''" "valid_utf8 ''size''" by (rule valid_utf8_ascii; auto)+
    then have "wf_json (json_meta e)" using that by (simp add: json_meta_def nat_lit_dec)
    then show ?thesis by (simp add: trash_T_def parse_jprint json_entry_def) (simp add: json_meta_def json_int_def)
  qed
  then show ?thesis by (auto simp: trash_lib_ok_def trash_T_def sort_ok_def)
qed


definition disk_0 :: disk where
  "disk_0 = \<lparr>dk_history = hist_0, dk_trash = []\<rparr>"

definition entry_a :: trash_entry where
  "entry_a = \<lparr>te_name = ''a.md'', te_path = ''a.md'', te_deleted = 40, te_size = 3\<rparr>"

lemma flat_a: "flat_name ''a.md'' = ''a.md''" by code_simp

lemma text_a: "valid_utf8 ''a.md''"
  by (rule valid_utf8_ascii) auto

lemma no_meta_a: "\<not> has_suffix ''a.md'' meta_suffix" by code_simp

lemmas trash_run = trash_path_def on_history_def within_def free_name.simps flat_a put_trash_def move_to_trash_def
  file_size_def look_def disk_0_def hist_run Let_def vault_update_def

lemma delete_a: "result_of (trash_path hist_L trash_T 40 ''a.md'') disk_0 = Inr entry_a"
  by (simp add: trash_run result_of_def entry_a_def)

lemma disk_0_strict: "trash_list_strict trash_T disk_0 = Inr []"
  by (simp add: trash_list_strict_def disk_0_def trash_T_def)

definition disk_1 :: disk where
  "disk_1 = final_of (trash_path hist_L trash_T 40 ''a.md'') disk_0"

lemma disk_1_state: "trash_state hist_L trash_T disk_1"
proof -
  have "trash_state hist_L trash_T disk_0" unfolding disk_0_def by (rule trash_state.empty)
  then have "trash_state hist_L trash_T (trash_after hist_L trash_T (DeleteFile 40 ''a.md'') disk_0)"
    by (rule trash_state.op) (simp add: clean_a flat_a text_a no_meta_a zero_time_def)
  then show ?thesis by (simp add: disk_1_def)
qed

theorem trash_restore_roundtrip_witness:
  "result_of (trash_restore trash_T ''a.md'') disk_1 = Inr entry_a \<and>
   map_of (vault_of (final_of (trash_restore trash_T ''a.md'') disk_1)) = map_of (vault_of disk_0) \<and>
   map_of (dk_trash (final_of (trash_restore trash_T ''a.md'') disk_1)) = map_of (dk_trash disk_0)"
proof -
  have "\<forall>q \<in> set (parent_dirs ''a.md''). map_of (vault_of disk_0) q = Some Directory" by (simp add: parent_dirs_def)
  moreover have "CHR 0x5C \<notin> set ''a.md''" by simp
  ultimately show ?thesis
    using trash_restore_roundtrip[OF trash_T_ok clean_a text_a _ _ disk_0_strict _ _ delete_a disk_1_def]
    by (simp add: flat_a no_meta_a disk_0_def entry_a_def)
qed

theorem trash_inventory_kept_witness:
  "inventory trash_T (dk_trash disk_1) \<and> (\<exists>es. trash_list_strict trash_T disk_1 = Inr es)"
  by (rule trash_inventory_kept[OF trash_T_ok disk_1_state])


theorem purge_trash_exact_witness:
  "\<exists>d' es'. d' = final_of (purge_trash_paths trash_T [''a.md'']) disk_1 \<and> dk_history d' = dk_history disk_1 \<and>
     trash_list_strict trash_T d' = Inr es' \<and> entry_a \<notin> set es'"
proof -
  have "inventory trash_T (dk_trash disk_1)" by (rule trash_state_inventory[OF trash_T_ok disk_1_state])
  then obtain es where es: "trash_list_strict trash_T disk_1 = Inr es"
    using strict_of_inventory by blast
  obtain k where r: "result_of (purge_trash_paths trash_T [''a.md'']) disk_1 = Inr k"
    using remove_items_effect by (simp add: purge_trash_paths_def result_andthen clean_paths_def clean_a es)
  have "te_path entry_a = ''a.md''" by (simp add: entry_a_def)
  then show ?thesis using purge_trash_exact[OF trash_T_ok disk_1_state r refl es] clean_a by auto
qed

definition odd_name :: string where "odd_name = ''x.trashinfo.json''"

definition disk_odd :: disk where
  "disk_odd = \<lparr>dk_history = hist_0\<lparr>hs_vault := [(odd_name, Regular ''one'')]\<rparr>, dk_trash = []\<rparr>"

lemma odd_facts: "clean_path odd_name = Some odd_name" "flat_name odd_name = odd_name" "has_suffix odd_name meta_suffix"
  by code_simp+

lemma delete_odd: "\<exists>e. result_of (trash_path hist_L trash_T 40 odd_name) disk_odd = Inr e"
  by (simp add: disk_odd_def trash_run odd_facts result_of_def)

theorem metadata_name_blocks_purges_witness:
  "\<exists>d1 er. d1 = final_of (trash_path hist_L trash_T 40 odd_name) disk_odd \<and> trash_purge trash_T 50 0 d1 = (Inl er, [])"
proof -
  obtain e where e: "result_of (trash_path hist_L trash_T 40 odd_name) disk_odd = Inr e" using delete_odd by blast
  have "has_suffix (flat_name odd_name) meta_suffix" "flat_name odd_name \<notin> fst ` set (dk_trash disk_odd)" "distinct (map fst (dk_trash disk_odd))"
    by (simp_all add: odd_facts disk_odd_def)
  then show ?thesis using metadata_name_blocks_purges[OF trash_T_ok odd_facts(1) _ _ _ e refl] by blast
qed

end
