(* ===== verification/Dataset_Purge.thy ===== *)
theory Dataset_Purge
  imports Trash Retention
begin

text \<open>
  The permanent removal of a dataset (\<open>internal/service/dataset_purge.go\<close>), which retention starts when
  a proposal is accepted: a plan of everything that is to go is written to a journal first, and the work
  on the index, the files, the version history and the trash resumes from the journal after a failure
  or a crash.  Identities stand for device and inode; the parsing of a handle, whether the index
  database answers, and the texts of errors are parameters.
\<close>

section \<open>State\<close>

record purge_path =
  pp_path :: string
  pp_kind :: string
  pp_ident :: string
  pp_hash :: string

record purge_trash =
  pt_name :: string
  pt_path :: string
  pt_payload_ident :: string
  pt_payload_hash :: string
  pt_meta_ident :: string
  pt_meta_hash :: string

record purge_journal =
  pj_version :: int
  pj_slug :: string
  pj_rule :: string
  pj_fingerprint :: string
  pj_paths :: "purge_path list"
  pj_trash :: "purge_trash list"
  pj_phase :: string
  pj_status :: string
  pj_error :: string

datatype journal_doc = JournalDoc purge_journal | JournalBad

datatype purge_error =
    BadSlug | NoRule | BadJournal | OtherDataset | OtherFingerprint | StaleProposal | BadHandle | NotRegular string
  | PurgeTrash trash_error | ChangedType string | Replaced string | ChangedContent string
  | RemoveFailed string | IndexFailed | BadPhase

record purge_lib =
  pl_history :: history_lib
  pl_trash :: trash_lib
  pl_handle :: "bytes \<Rightarrow> (string \<times> string) option"
  pl_rows_ok :: bool
  pl_docs_ok :: bool
  pl_text :: "purge_error \<Rightarrow> string"

text \<open>The rows and documents of the index stand under the slug and the path.\<close>

record purge_state =
  ps_disk :: disk
  ps_ident :: "string \<Rightarrow> string"
  ps_trash_ident :: "string \<Rightarrow> string"
  ps_rows :: "string list"
  ps_docs :: "string list"
  ps_journals :: "(string \<times> journal_doc) list"

type_synonym 'a purge_act = "(purge_state, purge_error, 'a) act"

abbreviation pv :: "purge_state \<Rightarrow> vault_files" where "pv s \<equiv> vault_of (ps_disk s)"
abbreviation pt :: "purge_state \<Rightarrow> vault_files" where "pt s \<equiv> dk_trash (ps_disk s)"
abbreviation ph :: "purge_state \<Rightarrow> history" where "ph s \<equiv> dk_history (ps_disk s)"

definition on_disk :: "'a trash_act \<Rightarrow> 'a purge_act" where
  "on_disk m = within ps_disk (\<lambda>d s. s\<lparr>ps_disk := d\<rparr>) PurgeTrash m"

definition handle_rel :: "string \<Rightarrow> string" where
  "handle_rel slug = ''datasets/'' @ slug @ ''.md''"

definition raw_dir :: "string \<Rightarrow> string" where
  "raw_dir slug = ''datasets/'' @ slug"

definition raw_prefix :: "string \<Rightarrow> string" where
  "raw_prefix slug = raw_dir slug @ ''/''"

text \<open>Slugs.\<close>

definition slug_char :: "char \<Rightarrow> bool" where
  "slug_char c \<longleftrightarrow> (CHR ''a'' \<le> c \<and> c \<le> CHR ''z'') \<or> (CHR ''0'' \<le> c \<and> c \<le> CHR ''9'')"

fun dash_runs :: "bool \<Rightarrow> string \<Rightarrow> string" where
  "dash_runs inside [] = []"
| "dash_runs inside (c # s) =
     (if slug_char c then c # dash_runs False s
      else if inside then dash_runs True s
      else CHR ''-'' # dash_runs True s)"

definition trim_dashes :: "string \<Rightarrow> string" where
  "trim_dashes s = rev (dropWhile (\<lambda>c. c = CHR ''-'') (rev (dropWhile (\<lambda>c. c = CHR ''-'') s)))"

definition slugify :: "string \<Rightarrow> string" where
  "slugify title = (let s = trim_dashes (dash_runs False (go_lower (trim_space title))) in if s = [] then ''base'' else s)"

definition purge_hash :: "history_lib \<Rightarrow> bytes \<Rightarrow> string" where
  "purge_hash L data = hex_encode (hl_sha L data)"


section \<open>The journal\<close>

definition valid_path_record :: "string \<Rightarrow> purge_path \<Rightarrow> bool" where
  "valid_path_record slug p \<longleftrightarrow>
     clean_rel (pp_path p) = pp_path p \<and> \<not> has_prefix (pp_path p) ''/'' \<and> pp_ident p \<noteq> [] \<and>
     (if pp_path p = handle_rel slug then pp_kind p = ''file'' \<and> is_hex_id (pp_hash p)
      else if pp_path p = raw_dir slug then pp_kind p = ''dir'' \<and> pp_hash p = []
      else has_prefix (pp_path p) (raw_prefix slug) \<and> pp_kind p = ''file'' \<and>
        trim_prefix (pp_path p) (raw_prefix slug) \<noteq> [] \<and> CHR ''/'' \<notin> set (trim_prefix (pp_path p) (raw_prefix slug)) \<and>
        is_hex_id (pp_hash p))"

definition valid_trash_record :: "string \<Rightarrow> purge_trash \<Rightarrow> bool" where
  "valid_trash_record slug t \<longleftrightarrow>
     pt_name t \<noteq> [] \<and> \<not> list_ex (\<lambda>c. c = CHR ''/'' \<or> c = CHR 0x5C) (pt_name t) \<and> pt_path t \<noteq> [] \<and>
     pt_payload_ident t \<noteq> [] \<and> pt_meta_ident t \<noteq> [] \<and> is_hex_id (pt_payload_hash t) \<and> is_hex_id (pt_meta_hash t) \<and>
     clean_rel (pt_path t) = pt_path t \<and> \<not> has_prefix (pt_path t) ''/'' \<and>
     (pt_path t = handle_rel slug \<or>
      has_prefix (pt_path t) (raw_prefix slug) \<and> trim_prefix (pt_path t) (raw_prefix slug) \<noteq> [] \<and>
        CHR ''/'' \<notin> set (trim_prefix (pt_path t) (raw_prefix slug)))"

definition valid_journal :: "string \<Rightarrow> purge_journal \<Rightarrow> bool" where
  "valid_journal slug j \<longleftrightarrow>
     pj_version j = 1 \<and> pj_slug j = slug \<and> pj_rule j \<noteq> [] \<and> is_hex_id (pj_fingerprint j) \<and> pj_paths j \<noteq> [] \<and>
     List.member [''in_progress'', ''failed'', ''completed''] (pj_status j) \<and>
     List.member [''sidecar'', ''active'', ''recovery'', ''complete''] (pj_phase j) \<and>
     distinct (map pp_path (pj_paths j)) \<and> list_all (valid_path_record slug) (pj_paths j) \<and>
     list_all (valid_trash_record slug) (pj_trash j) \<and> list_ex (\<lambda>p. pp_path p = handle_rel slug) (pj_paths j)"

definition load_journal :: "string \<Rightarrow> purge_state \<Rightarrow> purge_error + purge_journal option" where
  "load_journal slug s =
     (case map_of (ps_journals s) slug of
        None \<Rightarrow> Inr None
      | Some (JournalDoc j) \<Rightarrow> if valid_journal slug j then Inr (Some j) else Inl BadJournal
      | Some JournalBad \<Rightarrow> Inl BadJournal)"

definition write_journal :: "purge_journal \<Rightarrow> unit purge_act" where
  "write_journal j = put (ps_journals_update (AList.update (pj_slug j) (JournalDoc j)))"

definition remove_journal :: "string \<Rightarrow> unit purge_act" where
  "remove_journal slug =
     (\<lambda>s. if map_of (ps_journals s) slug = None then ret () s else put (ps_journals_update (AList.delete slug)) s)"

definition fail_purge :: "purge_lib \<Rightarrow> purge_journal \<Rightarrow> purge_error \<Rightarrow> 'a purge_act" where
  "fail_purge P j e = andthen (write_journal (j\<lparr>pj_status := ''failed'', pj_error := pl_text P e\<rparr>)) (\<lambda>_. raise e)"

text \<open>An operation whose error is recorded in the journal.\<close>

definition attempt :: "purge_lib \<Rightarrow> purge_journal \<Rightarrow> 'a purge_act \<Rightarrow> ('a \<Rightarrow> 'b purge_act) \<Rightarrow> 'b purge_act" where
  "attempt P j m k = andthen (caught m) (\<lambda>r. case r of Inl e \<Rightarrow> fail_purge P j e | Inr x \<Rightarrow> k x)"

definition advance :: "purge_journal \<Rightarrow> string \<Rightarrow> string \<Rightarrow> purge_journal purge_act" where
  "advance j phase status =
     (let j' = j\<lparr>pj_phase := phase, pj_status := status, pj_error := []\<rparr> in andthen (write_journal j') (\<lambda>_. ret j'))"


section \<open>The work\<close>

text \<open>A recorded file or directory, if it is still the recorded one.\<close>

definition check_recorded :: "history_lib \<Rightarrow> purge_path \<Rightarrow> purge_state \<Rightarrow> purge_error + bool" where
  "check_recorded L p s =
     (case map_of (pv s) (pp_path p) of
        None \<Rightarrow> if blocked_path (pp_path p) (pv s) then Inl (RemoveFailed (pp_path p)) else Inr False
      | Some f \<Rightarrow>
          if f = Special \<or> pp_kind p = ''file'' \<and> f = Directory \<or> pp_kind p = ''dir'' \<and> f \<noteq> Directory
          then Inl (ChangedType (pp_path p))
          else if ps_ident s (pp_path p) \<noteq> pp_ident p then Inl (Replaced (pp_path p))
          else case f of
              Regular c \<Rightarrow> if pp_kind p = ''file'' \<and> purge_hash L c \<noteq> pp_hash p then Inl (ChangedContent (pp_path p)) else Inr True
            | _ \<Rightarrow> if pp_kind p = ''file'' then Inl (ChangedContent (pp_path p)) else Inr True)"

definition remove_recorded :: "history_lib \<Rightarrow> purge_path \<Rightarrow> unit purge_act" where
  "remove_recorded L p =
     andthen (look (check_recorded L p)) (\<lambda>there.
       if \<not> there then ret ()
       else (\<lambda>s. case remove_path (pp_path p) (pv s) of
           Inr v \<Rightarrow> put (\<lambda>s. s\<lparr>ps_disk := vault_update (\<lambda>_. v) (ps_disk s)\<rparr>) s
         | Inl NotExist \<Rightarrow> ret () s
         | Inl OtherError \<Rightarrow> raise (RemoveFailed (pp_path p)) s))"

definition check_trash_item :: "history_lib \<Rightarrow> string \<Rightarrow> string \<Rightarrow> string \<Rightarrow> purge_state \<Rightarrow> purge_error + unit" where
  "check_trash_item L n ident hash s =
     (case map_of (pt s) n of
        None \<Rightarrow> Inr ()
      | Some (Regular c) \<Rightarrow>
          if ps_trash_ident s n \<noteq> ident then Inl (Replaced n)
          else if purge_hash L c \<noteq> hash then Inl (ChangedContent n) else Inr ()
      | Some _ \<Rightarrow> Inl (Replaced n))"

fun validate_trash :: "history_lib \<Rightarrow> purge_trash list \<Rightarrow> purge_state \<Rightarrow> purge_error + unit" where
  "validate_trash L [] s = Inr ()"
| "validate_trash L (t # ts) s =
     bind_err (check_trash_item L (pt_name t) (pt_payload_ident t) (pt_payload_hash t) s) (\<lambda>_.
     bind_err (check_trash_item L (pt_name t @ meta_suffix) (pt_meta_ident t) (pt_meta_hash t) s) (\<lambda>_.
     validate_trash L ts s))"

definition sidecar_phase :: "purge_lib \<Rightarrow> purge_journal \<Rightarrow> purge_journal purge_act" where
  "sidecar_phase P j =
     (if pj_phase j \<noteq> ''sidecar'' then ret j
      else attempt P j (if pl_rows_ok P then put (ps_rows_update (removeAll (pj_slug j))) else raise IndexFailed) (\<lambda>_.
           attempt P j (if pl_docs_ok P then put (ps_docs_update (removeAll (handle_rel (pj_slug j)))) else raise IndexFailed) (\<lambda>_.
           advance j ''active'' ''in_progress'')))"

definition active_phase :: "purge_lib \<Rightarrow> purge_journal \<Rightarrow> purge_journal purge_act" where
  "active_phase P j =
     (if pj_phase j \<noteq> ''active'' then ret j
      else attempt P j (each (remove_recorded (pl_history P)) (pj_paths j)) (\<lambda>_. advance j ''recovery'' ''in_progress''))"

definition journal_paths :: "purge_journal \<Rightarrow> string list" where
  "journal_paths j = map pp_path (pj_paths j) @ map pt_path (pj_trash j)"

definition recovery_phase :: "purge_lib \<Rightarrow> purge_journal \<Rightarrow> purge_journal purge_act" where
  "recovery_phase P j =
     (if pj_phase j \<noteq> ''recovery'' then ret j
      else attempt P j (look (validate_trash (pl_history P) (pj_trash j))) (\<lambda>_.
           attempt P j (on_disk (on_history (purge_paths (pl_history P) (journal_paths j)))) (\<lambda>_.
           attempt P j (on_disk (purge_trash_entries (pl_trash P) (map (\<lambda>t. (pt_name t, pt_path t)) (pj_trash j)))) (\<lambda>_.
           advance j ''complete'' ''completed''))))"

definition resume_purge :: "purge_lib \<Rightarrow> purge_journal \<Rightarrow> unit purge_act" where
  "resume_purge P j =
     andthen (sidecar_phase P j) (\<lambda>j.
     andthen (active_phase P j) (\<lambda>j.
     andthen (recovery_phase P j) (\<lambda>j.
     if pj_phase j \<noteq> ''complete'' then raise BadPhase else remove_journal (pj_slug j))))"


section \<open>The plan\<close>

definition trash_record :: "history_lib \<Rightarrow> purge_state \<Rightarrow> trash_entry \<Rightarrow> purge_error + purge_trash" where
  "trash_record L s e =
     (case (map_of (pt s) (te_name e), map_of (pt s) (te_name e @ meta_suffix)) of
        (Some (Regular c), Some (Regular m)) \<Rightarrow> Inr
          \<lparr>pt_name = te_name e, pt_path = te_path e, pt_payload_ident = ps_trash_ident s (te_name e), pt_payload_hash = purge_hash L c,
           pt_meta_ident = ps_trash_ident s (te_name e @ meta_suffix), pt_meta_hash = purge_hash L m\<rparr>
      | _ \<Rightarrow> Inl (NotRegular (te_name e)))"

fun trash_records :: "history_lib \<Rightarrow> purge_state \<Rightarrow> trash_entry list \<Rightarrow> purge_error + purge_trash list" where
  "trash_records L s [] = Inr []"
| "trash_records L s (e # es) =
     bind_err (trash_record L s e) (\<lambda>t. bind_err (trash_records L s es) (\<lambda>ts. Inr (t # ts)))"

text \<open>The entries of the raw directory by name.\<close>

definition raw_names :: "string \<Rightarrow> purge_state \<Rightarrow> string list" where
  "raw_names slug s =
     sort (filter (\<lambda>n. n \<noteq> [] \<and> CHR ''/'' \<notin> set n)
       (map (\<lambda>p. trim_prefix p (raw_prefix slug)) (filter (\<lambda>p. has_prefix p (raw_prefix slug)) (map fst (pv s)))))"

fun raw_records :: "history_lib \<Rightarrow> string \<Rightarrow> purge_state \<Rightarrow> string list \<Rightarrow> purge_error + purge_path list \<times> raw_source list" where
  "raw_records L slug s [] = Inr ([], [])"
| "raw_records L slug s (n # ns) =
     (let rel = raw_prefix slug @ n in
      case map_of (pv s) rel of
        Some (Regular c) \<Rightarrow>
          bind_err (raw_records L slug s ns) (\<lambda>(ps, rs). Inr
            (\<lparr>pp_path = rel, pp_kind = ''file'', pp_ident = ps_ident s rel, pp_hash = purge_hash L c\<rparr> # ps,
             if go_fold (path_ext n) = ''.csv'' then \<lparr>rs_path = rel, rs_data = c\<rparr> # rs else rs))
      | _ \<Rightarrow> Inl (NotRegular n))"

definition plan_raw :: "history_lib \<Rightarrow> string \<Rightarrow> purge_state \<Rightarrow> purge_error + purge_path list \<times> raw_source list" where
  "plan_raw L slug s =
     (case map_of (pv s) (raw_dir slug) of
        None \<Rightarrow> Inr ([], [])
      | Some Directory \<Rightarrow>
          bind_err (raw_records L slug s (raw_names slug s)) (\<lambda>(ps, rs). Inr
            (ps @ [\<lparr>pp_path = raw_dir slug, pp_kind = ''dir'', pp_ident = ps_ident s (raw_dir slug), pp_hash = []\<rparr>], rs))
      | Some _ \<Rightarrow> Inl (NotRegular (raw_dir slug)))"

definition plan_purge :: "purge_lib \<Rightarrow> string \<Rightarrow> string \<Rightarrow> string \<Rightarrow> purge_state \<Rightarrow> purge_error + purge_journal" where
  "plan_purge P slug rule accepted s =
     (let L = pl_history P; rel = handle_rel slug in
      if map_of (pv s) ''datasets'' \<noteq> Some Directory then Inl (NotRegular ''datasets'')
      else case map_of (pv s) rel of
        Some (Regular c) \<Rightarrow>
          if pl_handle P c \<noteq> Some (slug, rule) then Inl BadHandle
          else bind_err (plan_raw L slug s) (\<lambda>(ps, rs).
            let fp = fingerprint (hl_sha L) c (sort_key rs_path rs) in
            if accepted \<noteq> [] \<and> fp \<noteq> accepted then Inl StaleProposal
            else bind_err (map_sum PurgeTrash id (trash_list_strict (pl_trash P) (ps_disk s))) (\<lambda>es.
              bind_err (trash_records L s (filter (\<lambda>e. te_path e = rel \<or> has_prefix (te_path e) (raw_prefix slug)) es)) (\<lambda>ts.
              let j = \<lparr>pj_version = 1, pj_slug = slug, pj_rule = rule, pj_fingerprint = fp,
                       pj_paths = \<lparr>pp_path = rel, pp_kind = ''file'', pp_ident = ps_ident s rel, pp_hash = purge_hash L c\<rparr> # ps,
                       pj_trash = ts, pj_phase = ''sidecar'', pj_status = ''in_progress'', pj_error = []\<rparr> in
              bind_err (map_sum (PurgeTrash \<circ> TrashHistory) id (preflight_purge L (journal_paths j) (ph s))) (\<lambda>_.
              Inr j))))
      | _ \<Rightarrow> Inl (NotRegular rel))"

definition dataset_purge :: "purge_lib \<Rightarrow> string \<Rightarrow> string \<Rightarrow> string \<Rightarrow> unit purge_act" where
  "dataset_purge P slug0 rule0 accepted =
     (let slug = trim_space slug0; rule = trim_space rule0 in
      if slug = [] \<or> CHR ''/'' \<in> set slug \<or> slug \<noteq> slugify slug then raise BadSlug
      else if rule = [] then raise NoRule
      else andthen (look (load_journal slug)) (\<lambda>known.
        case known of
          Some j \<Rightarrow>
            if pj_slug j \<noteq> slug \<or> pj_rule j \<noteq> rule then raise OtherDataset
            else if accepted \<noteq> [] \<and> pj_fingerprint j \<noteq> accepted then raise OtherFingerprint
            else if pj_status j = ''completed'' \<or> pj_phase j = ''complete'' then remove_journal slug
            else resume_purge P j
        | None \<Rightarrow>
            andthen (look (plan_purge P slug rule accepted)) (\<lambda>j.
            andthen (write_journal j) (\<lambda>_.
            resume_purge P j))))"

end
