(* ===== verification/Dataset_Plan.thy ===== *)
theory Dataset_Plan
  imports Dataset_Purge Strict_History Trash_Safety
begin

text \<open>
  What the plan of a dataset's removal records (\<open>start_facts\<close>): the handle and every file under the raw
  directory with their identities and hashes, then the directory itself, which nothing else lies in, and
  the trash that came from these paths; and that the history can be purged of all of them.
\<close>


section \<open>Paths\<close>

lemma split_slash_one: "CHR ''/'' \<notin> set x \<Longrightarrow> split_slash x = [x]"
  by (induction x) auto

lemma split_slash_cons: "CHR ''/'' \<notin> set x \<Longrightarrow> split_slash (x @ CHR ''/'' # y) = x # split_slash y"
  by (induction x) auto

lemma split_slash_ne: "split_slash s \<noteq> []"
  by (cases s) (auto split: list.split)

text \<open>A vault as a file system has it: no empty names, and every parent is a directory.\<close>

definition vault_tree :: "vault_files \<Rightarrow> bool" where
  "vault_tree v \<longleftrightarrow> (\<forall>p \<in> fst ` set v. list_all plain_elem (split_slash p) \<and> (\<forall>d \<in> set (parent_dirs p). map_of v d = Some Directory))"

lemma tree_unblocked: "vault_tree v \<Longrightarrow> map_of v p \<noteq> None \<Longrightarrow> \<not> blocked_path p v"
  unfolding vault_tree_def blocked_path_def map_of_eq_None_iff list_ex_iff by fastforce

lemma map_le_Some: "m \<subseteq>\<^sub>m m' \<Longrightarrow> m x = Some y \<Longrightarrow> m' x = Some y"
  by (force simp: map_le_def)

lemma unblocked_iff: "\<not> blocked_path p v \<longleftrightarrow> (\<forall>d \<in> set (parent_dirs p). map_of v d = None \<or> map_of v d = Some Directory)"
  by (simp add: blocked_path_def list_ex_iff imp_conv_disj)

lemma unblocked_part:
  assumes "\<not> blocked_path p v0" and le: "map_of v \<subseteq>\<^sub>m map_of v0"
  shows "\<not> blocked_path p v"
  unfolding unblocked_iff
proof
  fix d assume "d \<in> set (parent_dirs p)"
  then have d: "map_of v0 d = None \<or> map_of v0 d = Some Directory" using assms(1) by (simp add: unblocked_iff)
  show "map_of v d = None \<or> map_of v d = Some Directory"
  proof (cases "map_of v d")
    case (Some f)
    then show ?thesis using d map_le_Some[OF le Some] by simp
  qed simp
qed

lemma raw_split: "CHR ''/'' \<notin> set slug \<Longrightarrow> split_slash (raw_prefix slug @ r) = ''datasets'' # slug # split_slash r"
  using split_slash_cons[of "''datasets''" "slug @ CHR ''/'' # r"] split_slash_cons[of slug r]
  by (simp add: raw_prefix_def raw_dir_def)

lemma raw_child_dir:
  assumes "CHR ''/'' \<notin> set slug" and "CHR ''/'' \<notin> set a"
  shows "raw_prefix slug @ a \<in> set (parent_dirs (raw_prefix slug @ a @ CHR ''/'' # b))"
proof -
  have es: "split_slash (raw_prefix slug @ a @ CHR ''/'' # b) = ''datasets'' # slug # a # split_slash b"
    using raw_split[OF assms(1)] split_slash_cons[OF assms(2)] by simp
  have "raw_prefix slug @ a = join_slash (take 3 (''datasets'' # slug # a # split_slash b))"
    by (simp add: join_slash_def raw_prefix_def raw_dir_def)
  moreover have "3 \<in> set [1..<length (''datasets'' # slug # a # split_slash b)]"
    unfolding set_upt using split_slash_ne[of b] by (simp add: Suc_le_eq)
  ultimately show ?thesis unfolding parent_dirs_def Let_def es set_map by blast
qed

text \<open>What lies under the raw directory is its direct children, if these are files.\<close>

lemma raw_children:
  assumes "vault_tree v" and "CHR ''/'' \<notin> set slug" and "p \<in> fst ` set v" and "has_prefix p (raw_prefix slug)"
  obtains r where "p = raw_prefix slug @ r" "r \<noteq> []" "CHR ''/'' \<notin> set r"
    | a where "a \<noteq> []" "CHR ''/'' \<notin> set a" "map_of v (raw_prefix slug @ a) = Some Directory"
proof -
  obtain r where r: "p = raw_prefix slug @ r" using assms(4) by (metis append_take_drop_id has_prefix_def)
  have pl: "list_all plain_elem (split_slash p)" and par: "\<forall>d \<in> set (parent_dirs p). map_of v d = Some Directory"
    using assms(1,3) by (auto simp: vault_tree_def)
  show thesis
  proof (cases "CHR ''/'' \<in> set r")
    case True
    then obtain a b where ab: "r = a @ CHR ''/'' # b" "CHR ''/'' \<notin> set a" by (metis split_list_first)
    have "plain_elem a" using pl by (simp add: r ab(1) raw_split[OF assms(2)] split_slash_cons[OF ab(2)])
    then show thesis using that(2)[of a] par raw_child_dir[OF assms(2) ab(2), of b] ab by (auto simp: r plain_elem_def)
  next
    case False
    then have "plain_elem r" using pl by (simp add: r raw_split[OF assms(2)] split_slash_one)
    then show thesis using that(1) r by (simp add: plain_elem_def)
  qed
qed


section \<open>What a plan records\<close>

definition file_rec :: "history_lib \<Rightarrow> purge_state \<Rightarrow> purge_path \<Rightarrow> bool" where
  "file_rec L s p \<longleftrightarrow> pp_kind p = ''file'' \<and> pp_ident p = ps_ident s (pp_path p) \<and>
     (\<exists>c. map_of (pv s) (pp_path p) = Some (Regular c) \<and> pp_hash p = purge_hash L c)"

definition dir_rec :: "string \<Rightarrow> purge_state \<Rightarrow> string set \<Rightarrow> purge_path \<Rightarrow> bool" where
  "dir_rec slug s ps p \<longleftrightarrow> pp_kind p = ''dir'' \<and> pp_path p = raw_dir slug \<and> pp_ident p = ps_ident s (pp_path p) \<and>
     map_of (pv s) (pp_path p) = Some Directory \<and>
     (\<forall>q \<in> fst ` set (pv s). has_prefix q (raw_prefix slug) \<longrightarrow> q \<in> ps)"

definition trash_rec :: "history_lib \<Rightarrow> trash_lib \<Rightarrow> purge_state \<Rightarrow> purge_trash \<Rightarrow> bool" where
  "trash_rec L T s t \<longleftrightarrow> (\<exists>c m e. map_of (pt s) (pt_name t) = Some (Regular c) \<and>
     map_of (pt s) (pt_name t @ meta_suffix) = Some (Regular m) \<and> pt_payload_ident t = ps_trash_ident s (pt_name t) \<and>
     pt_payload_hash t = purge_hash L c \<and> pt_meta_ident t = ps_trash_ident s (pt_name t @ meta_suffix) \<and>
     pt_meta_hash t = purge_hash L m \<and> \<not> has_suffix (pt_name t) meta_suffix \<and>
     strict_entry T (pt s) (pt_name t) = Inr e \<and> te_path e = pt_path t)"

lemma raw_records_Inr:
  "raw_records L slug s ns = Inr (ps, rs) \<Longrightarrow> map pp_path ps = map (\<lambda>n. raw_prefix slug @ n) ns \<and> list_all (file_rec L s) ps"
proof (induction ns arbitrary: ps rs)
  case (Cons n ns)
  then show ?case
    by (auto simp: Let_def bind_err_Inr file_rec_def split: option.splits vault_file.splits)
qed simp

lemma in_raw_names:
  "n \<in> set (raw_names slug s) \<longleftrightarrow> n \<noteq> [] \<and> CHR ''/'' \<notin> set n \<and> raw_prefix slug @ n \<in> fst ` set (pv s)"
proof -
  have "n \<in> (\<lambda>p. trim_prefix p (raw_prefix slug)) ` {p \<in> fst ` set (pv s). has_prefix p (raw_prefix slug)} \<longleftrightarrow>
      raw_prefix slug @ n \<in> fst ` set (pv s)"
  proof
    assume "n \<in> (\<lambda>p. trim_prefix p (raw_prefix slug)) ` {p \<in> fst ` set (pv s). has_prefix p (raw_prefix slug)}"
    then obtain p where p: "p \<in> fst ` set (pv s)" "has_prefix p (raw_prefix slug)" "n = trim_prefix p (raw_prefix slug)" by blast
    then have "raw_prefix slug @ n = p" by (metis append_take_drop_id has_prefix_def trim_prefix_append)
    then show "raw_prefix slug @ n \<in> fst ` set (pv s)" using p(1) by simp
  next
    assume "raw_prefix slug @ n \<in> fst ` set (pv s)"
    then show "n \<in> (\<lambda>p. trim_prefix p (raw_prefix slug)) ` {p \<in> fst ` set (pv s). has_prefix p (raw_prefix slug)}"
      by (intro image_eqI[of _ _ "raw_prefix slug @ n"]) simp_all
  qed
  then show ?thesis unfolding raw_names_def by (auto simp: image_iff)
qed

lemma plan_raw_Inr:
  assumes "plan_raw L slug s = Inr (ps, rs)" and "vault_tree (pv s)" and "CHR ''/'' \<notin> set slug"
  obtains fs ds where "ps = fs @ ds" "list_all (file_rec L s) fs" "ds = [] \<or> (\<exists>d. ds = [d] \<and> dir_rec slug s (pp_path ` set fs) d)"
    "list_all (\<lambda>p. \<exists>n. pp_path p = raw_prefix slug @ n \<and> n \<noteq> [] \<and> CHR ''/'' \<notin> set n) fs"
proof (cases "map_of (pv s) (raw_dir slug)")
  case None
  then have "ps = []" using assms(1) by (simp add: plan_raw_def)
  then show thesis using that[of "[]" "[]"] by simp
next
  case (Some f)
  then have "f = Directory" using assms(1) by (cases f) (auto simp: plan_raw_def)
  then obtain fs rs' where r: "raw_records L slug s (raw_names slug s) = Inr (fs, rs')"
      "ps = fs @ [\<lparr>pp_path = raw_dir slug, pp_kind = ''dir'', pp_ident = ps_ident s (raw_dir slug), pp_hash = []\<rparr>]"
    using assms(1) Some by (auto simp: plan_raw_def bind_err_Inr)
  note fs = raw_records_Inr[OF r(1)]
  have paths: "pp_path ` set fs = (\<lambda>n. raw_prefix slug @ n) ` set (raw_names slug s)"
    using arg_cong[where f = set, OF conjunct1[OF fs]] by simp
  have child: "\<exists>c. map_of (pv s) (raw_prefix slug @ n) = Some (Regular c)" if "n \<in> set (raw_names slug s)" for n
  proof -
    have "raw_prefix slug @ n \<in> pp_path ` set fs" using that paths by blast
    then show ?thesis using fs by (auto simp: list_all_iff file_rec_def)
  qed
  have "q \<in> pp_path ` set fs" if q: "q \<in> fst ` set (pv s)" "has_prefix q (raw_prefix slug)" for q
  proof (rule raw_children[OF assms(2,3) q])
    fix r assume "q = raw_prefix slug @ r" "r \<noteq> []" "CHR ''/'' \<notin> set r"
    then show ?thesis using q(1) unfolding paths by (auto simp: in_raw_names)
  next
    fix a assume a: "a \<noteq> []" "CHR ''/'' \<notin> set a" "map_of (pv s) (raw_prefix slug @ a) = Some Directory"
    have "raw_prefix slug @ a \<in> fst ` set (pv s)" using map_of_SomeD[OF a(3)] by (rule image_eqI[rotated]) simp
    then have "a \<in> set (raw_names slug s)" using a(1,2) by (simp only: in_raw_names simp_thms)
    then show ?thesis using child a(3) by fastforce
  qed
  then have "dir_rec slug s (pp_path ` set fs) \<lparr>pp_path = raw_dir slug, pp_kind = ''dir'', pp_ident = ps_ident s (raw_dir slug), pp_hash = []\<rparr>"
    using Some \<open>f = Directory\<close> by (auto simp: dir_rec_def)
  moreover have "list_all (\<lambda>p. \<exists>n. pp_path p = raw_prefix slug @ n \<and> n \<noteq> [] \<and> CHR ''/'' \<notin> set n) fs"
    unfolding list_all_iff
  proof
    fix p assume "p \<in> set fs"
    then obtain n where "pp_path p = raw_prefix slug @ n" "n \<in> set (raw_names slug s)" using paths by blast
    then show "\<exists>n. pp_path p = raw_prefix slug @ n \<and> n \<noteq> [] \<and> CHR ''/'' \<notin> set n" unfolding in_raw_names by blast
  qed
  ultimately show thesis using that fs r(2) by blast
qed


definition good_request :: "string \<Rightarrow> string \<Rightarrow> bool" where
  "good_request slug rule \<longleftrightarrow> slug \<noteq> [] \<and> trim_space slug = slug \<and> CHR ''/'' \<notin> set slug \<and> slugify slug = slug \<and>
     rule \<noteq> [] \<and> trim_space rule = rule"

text \<open>A purge about to begin: its plan succeeds, and gives a journal that would load.\<close>

definition purge_start :: "purge_lib \<Rightarrow> string \<Rightarrow> string \<Rightarrow> string \<Rightarrow> purge_state \<Rightarrow> purge_journal \<Rightarrow> bool" where
  "purge_start P slug rule accepted s j \<longleftrightarrow> good_request slug rule \<and> plan_purge P slug rule accepted s = Inr j \<and>
     map_of (ps_journals s) slug = None \<and> valid_journal slug j \<and> vault_tree (pv s) \<and> distinct (map fst (pt s)) \<and>
     store_ok (pl_history P) (ph s) \<and> trash_lib_ok (pl_trash P)"

lemma trash_record_Inr:
  assumes "trash_record L s e = Inr t" and "\<not> has_suffix (te_name e) meta_suffix" and "strict_entry T (pt s) (te_name e) = Inr e"
  shows "trash_rec L T s t"
  using assms by (auto simp: trash_record_def trash_rec_def split: option.splits vault_file.splits)

lemma trash_records_in: "trash_records L s es = Inr ts \<Longrightarrow> t \<in> set ts \<Longrightarrow> \<exists>e \<in> set es. trash_record L s e = Inr t"
  by (induction es arbitrary: ts) (auto simp: bind_err_Inr)

lemma plan_purge_Inr:
  assumes "plan_purge P slug rule accepted s = Inr j"
  obtains c ps rs es where "map_of (pv s) (handle_rel slug) = Some (Regular c)" "plan_raw (pl_history P) slug s = Inr (ps, rs)"
    "pj_paths j = \<lparr>pp_path = handle_rel slug, pp_kind = ''file'', pp_ident = ps_ident s (handle_rel slug), pp_hash = purge_hash (pl_history P) c\<rparr> # ps"
    "accepted = [] \<or> pj_fingerprint j = accepted" "pj_slug j = slug" "pj_rule j = rule" "pj_phase j = ''sidecar''" "pj_status j = ''in_progress''"
    "trash_list_strict (pl_trash P) (ps_disk s) = Inr es"
    "trash_records (pl_history P) s (filter (\<lambda>e. te_path e = handle_rel slug \<or> has_prefix (te_path e) (raw_prefix slug)) es) = Inr (pj_trash j)"
    "preflight_purge (pl_history P) (journal_paths j) (ph s) = Inr ()"
proof -
  obtain c where c: "map_of (pv s) (handle_rel slug) = Some (Regular c)"
    using assms by (auto simp: plan_purge_def Let_def split: if_splits option.splits vault_file.splits)
  obtain ps rs where raw: "plan_raw (pl_history P) slug s = Inr (ps, rs)"
    using assms c by (auto simp: plan_purge_def Let_def bind_err_Inr split: if_splits)
  obtain es where es: "trash_list_strict (pl_trash P) (ps_disk s) = Inr es"
    using assms c raw by (cases "trash_list_strict (pl_trash P) (ps_disk s)") (auto simp: plan_purge_def Let_def split: if_splits)
  obtain ts where ts: "trash_records (pl_history P) s (filter (\<lambda>e. te_path e = handle_rel slug \<or> has_prefix (te_path e) (raw_prefix slug)) es) = Inr ts"
    using assms c raw es by (auto simp: plan_purge_def Let_def bind_err_Inr split: if_splits)
  have pre: "preflight_purge (pl_history P) (journal_paths j) (ph s) = Inr ()"
    using assms c raw es ts
    by (cases "preflight_purge (pl_history P) (journal_paths j) (ph s)") (auto simp: plan_purge_def Let_def bind_err_def split: if_splits sum.splits)
  show thesis
    by (rule that[OF c raw _ _ _ _ _ _ es _ pre])
      (use assms c raw es ts in \<open>auto simp: plan_purge_def Let_def bind_err_def split: if_splits sum.splits\<close>)
qed

lemma start_facts:
  assumes st: "purge_start P slug rule accepted s j"
  obtains fs ds ts where "pj_paths j = fs @ ds" "list_all (file_rec (pl_history P) s) fs"
    "ds = [] \<or> (\<exists>d. ds = [d] \<and> dir_rec slug s (pp_path ` set fs) d)"
    "list_all (trash_rec (pl_history P) (pl_trash P) s) (pj_trash j)"
    "clean_paths (journal_paths j) = Inr ts" "strict_history (pl_history P) (ph s)"
    "handle_rel slug \<in> pp_path ` set fs"
proof -
  let ?L = "pl_history P" and ?T = "pl_trash P"
  have slash: "CHR ''/'' \<notin> set slug" and tree: "vault_tree (pv s)" and h: "store_ok ?L (ph s)"
    and sort: "sort_ok (tl_sort ?T)" and dist: "distinct (map fst (pt s))"
    using st by (simp_all add: purge_start_def good_request_def trash_lib_ok_def)
  have plan: "plan_purge P slug rule accepted s = Inr j" using st by (simp add: purge_start_def)
  obtain c ps rs es where p: "map_of (pv s) (handle_rel slug) = Some (Regular c)" "plan_raw ?L slug s = Inr (ps, rs)"
    "pj_paths j = \<lparr>pp_path = handle_rel slug, pp_kind = ''file'', pp_ident = ps_ident s (handle_rel slug), pp_hash = purge_hash ?L c\<rparr> # ps"
    "accepted = [] \<or> pj_fingerprint j = accepted" "pj_slug j = slug" "pj_rule j = rule" "pj_phase j = ''sidecar''" "pj_status j = ''in_progress''"
    "trash_list_strict ?T (ps_disk s) = Inr es"
    "trash_records ?L s (filter (\<lambda>e. te_path e = handle_rel slug \<or> has_prefix (te_path e) (raw_prefix slug)) es) = Inr (pj_trash j)"
    "preflight_purge ?L (journal_paths j) (ph s) = Inr ()"
    by (rule plan_purge_Inr[OF plan])
  let ?hd = "\<lparr>pp_path = handle_rel slug, pp_kind = ''file'', pp_ident = ps_ident s (handle_rel slug), pp_hash = purge_hash ?L c\<rparr>"
  obtain fs ds where r: "ps = fs @ ds" "list_all (file_rec ?L s) fs" "ds = [] \<or> (\<exists>d. ds = [d] \<and> dir_rec slug s (pp_path ` set fs) d)"
    by (rule plan_raw_Inr[OF p(2) tree slash])
  have "file_rec ?L s ?hd" using p(1) by (simp add: file_rec_def)
  moreover have "dir_rec slug s (pp_path ` set (?hd # fs)) d" if "dir_rec slug s (pp_path ` set fs) d" for d
    using that by (auto simp: dir_rec_def)
  moreover have "list_all (trash_rec ?L ?T s) (pj_trash j)"
    unfolding list_all_iff
  proof
    fix t assume "t \<in> set (pj_trash j)"
    then obtain e where e: "e \<in> set es" "trash_record ?L s e = Inr t"
      using trash_records_in[OF p(10)] by auto
    show "trash_rec ?L ?T s t" using e(2) listed_iff[OF dist p(9) sort, of e] e(1) by (intro trash_record_Inr) auto
  qed
  moreover have "\<exists>ts. clean_paths (journal_paths j) = Inr ts" "strict_history ?L (ph s)"
    using purge_inputs_iff[OF h, of "journal_paths j"] preflight_inputs[OF p(11)] by auto
  ultimately show thesis using that[of "?hd # fs" ds] r p(3) by auto
qed

end
