(* ===== verification/Dataset_Resume.thy ===== *)
theory Dataset_Resume
  imports Dataset_Plan
begin

text \<open>
  The removal of a dataset resumes from its journal: whatever writes an attempt was cut off after, the
  state is one between the plan and its end (\<open>purge_point\<close>), the phase in the journal says how far it has
  got, and an attempt from there removes the rest.
\<close>

section \<open>A purge under way\<close>

text \<open>
  Compared with the state \<open>s0\<close> in which the purge was planned, files and trash may be missing but none
  is new or changed, and the history is one that can be purged.
\<close>

definition resumable :: "history_lib \<Rightarrow> purge_state \<Rightarrow> purge_state \<Rightarrow> bool" where
  "resumable L s0 s \<longleftrightarrow> store_ok L (ph s) \<and> strict_history L (ph s) \<and> map_of (pv s) \<subseteq>\<^sub>m map_of (pv s0) \<and>
     map_of (pt s) \<subseteq>\<^sub>m map_of (pt s0) \<and> distinct (map fst (pt s)) \<and>
     ps_ident s = ps_ident s0 \<and> ps_trash_ident s = ps_trash_ident s0"

definition index_gone :: "purge_journal \<Rightarrow> purge_state \<Rightarrow> bool" where
  "index_gone j s \<longleftrightarrow> pj_slug j \<notin> set (ps_rows s) \<and> handle_rel (pj_slug j) \<notin> set (ps_docs s)"

definition files_gone :: "purge_journal \<Rightarrow> purge_state \<Rightarrow> bool" where
  "files_gone j s \<longleftrightarrow> (\<forall>p \<in> set (pj_paths j). map_of (pv s) (pp_path p) = None)"

definition history_gone :: "history_lib \<Rightarrow> purge_journal \<Rightarrow> purge_state \<Rightarrow> bool" where
  "history_gone L j s \<longleftrightarrow> (\<forall>p \<in> set (journal_paths j). untraced L p (ph s))"

definition trash_gone :: "purge_journal \<Rightarrow> purge_state \<Rightarrow> bool" where
  "trash_gone j s \<longleftrightarrow> (\<forall>t \<in> set (pj_trash j). map_of (pt s) (pt_name t) = None \<and> map_of (pt s) (pt_name t @ meta_suffix) = None)"

text \<open>What the phase in a journal says is done.\<close>

definition phase_done :: "history_lib \<Rightarrow> purge_journal \<Rightarrow> purge_state \<Rightarrow> bool" where
  "phase_done L j s \<longleftrightarrow> (pj_phase j \<noteq> ''sidecar'' \<longrightarrow> index_gone j s) \<and>
     (pj_phase j = ''recovery'' \<or> pj_phase j = ''complete'' \<longrightarrow> files_gone j s) \<and>
     (pj_phase j = ''complete'' \<longrightarrow> history_gone L j s \<and> trash_gone j s) \<and>
     (pj_status j = ''completed'' \<longrightarrow> pj_phase j = ''complete'')"

definition later :: "purge_journal \<Rightarrow> purge_journal \<Rightarrow> bool" where
  "later j0 j \<longleftrightarrow> j = j0\<lparr>pj_phase := pj_phase j, pj_status := pj_status j, pj_error := pj_error j\<rparr>"

definition purge_at :: "history_lib \<Rightarrow> purge_state \<Rightarrow> purge_journal \<Rightarrow> purge_journal \<Rightarrow> purge_state \<Rightarrow> bool" where
  "purge_at L s0 j0 j s \<longleftrightarrow> resumable L s0 s \<and> map_of (ps_journals s) (pj_slug j0) = Some (JournalDoc j) \<and> later j0 j \<and>
     valid_journal (pj_slug j0) j \<and> phase_done L j s"

definition settled :: "history_lib \<Rightarrow> purge_journal \<Rightarrow> purge_state \<Rightarrow> bool" where
  "settled L j s \<longleftrightarrow> map_of (ps_journals s) (pj_slug j) = None \<and> index_gone j s \<and> files_gone j s \<and> history_gone L j s \<and> trash_gone j s"

text \<open>The states after the writes of a purge.\<close>

definition purge_point :: "history_lib \<Rightarrow> purge_state \<Rightarrow> purge_journal \<Rightarrow> purge_state \<Rightarrow> bool" where
  "purge_point L s0 j0 s \<longleftrightarrow> (\<exists>j. purge_at L s0 j0 j s) \<or> settled L j0 s"

lemmas gone_defs = index_gone_def files_gone_def history_gone_def trash_gone_def

lemma later_parts:
  "later j0 j \<Longrightarrow> pj_slug j = pj_slug j0 \<and> pj_rule j = pj_rule j0 \<and> pj_fingerprint j = pj_fingerprint j0 \<and>
     pj_paths j = pj_paths j0 \<and> pj_trash j = pj_trash j0 \<and> journal_paths j = journal_paths j0"
  unfolding later_def journal_paths_def by (metis (no_types, lifting) purge_journal.select_convs purge_journal.surjective purge_journal.update_convs)

lemma strict_history_vault [simp]: "strict_history L (hs_vault_update f h) = strict_history L h"
  by (simp add: strict_history_def)

lemma untraced_vault [simp]: "untraced L p (hs_vault_update f h) = untraced L p h"
  by (simp add: untraced_def history_list_def cong: option.case_cong)

lemma keeping_within:
  assumes "\<And>t. I t \<Longrightarrow> keeping (K t) m \<and> K t (part t) \<and> (\<forall>w. K t w \<longrightarrow> I (whole w t))"
  shows "keeping I (within part whole err m)"
  unfolding keeping_def within_simps(2) using assms keeping_writes by fastforce

section \<open>The journal\<close>

lemma write_at:
  assumes a: "purge_at L s0 j0 j s" and j': "j' = j\<lparr>pj_phase := f, pj_status := st, pj_error := er\<rparr>"
    and "List.member [''in_progress'', ''failed'', ''completed''] st" "List.member [''sidecar'', ''active'', ''recovery'', ''complete''] f"
    and d: "phase_done L j' s"
  shows "purge_at L s0 j0 j' (ps_journals_update (AList.update (pj_slug j) (JournalDoc j')) s)"
proof -
  have l: "later j0 j" using a by (simp add: purge_at_def)
  have "later j0 j'" using l unfolding later_def j' by (metis (no_types, lifting) purge_journal.select_convs(7-9) purge_journal.surjective purge_journal.update_convs(7-9))
  moreover have "valid_journal (pj_slug j0) j'" using a assms(3,4) by (simp add: purge_at_def valid_journal_def j')
  moreover have "phase_done L j' (ps_journals_update g s)" for g using d by (simp add: phase_done_def gone_defs)
  ultimately show ?thesis using a later_parts[OF l] by (simp add: purge_at_def resumable_def update_conv')
qed

lemma fail_run:
  "result_of (fail_purge P j e) s = Inl e"
  "final_of (fail_purge P j e) s =
     ps_journals_update (AList.update (pj_slug j) (JournalDoc (j\<lparr>pj_status := ''failed'', pj_error := pl_text P e\<rparr>))) s"
  "snd (fail_purge P j e s) =
     [ps_journals_update (AList.update (pj_slug j) (JournalDoc (j\<lparr>pj_status := ''failed'', pj_error := pl_text P e\<rparr>))) s]"
  by (simp_all add: fail_purge_def write_journal_def result_andthen final_andthen) (simp add: andthen_def act_runs)

lemma fail_at:
  assumes "purge_at L s0 j0 j s"
  shows "purge_at L s0 j0 (j\<lparr>pj_status := ''failed'', pj_error := pl_text P e\<rparr>)
    (ps_journals_update (AList.update (pj_slug j) (JournalDoc (j\<lparr>pj_status := ''failed'', pj_error := pl_text P e\<rparr>))) s)"
proof -
  let ?j = "j\<lparr>pj_status := ''failed'', pj_error := pl_text P e\<rparr>"
  have "phase_done L ?j s" "pj_phase j \<in> {''sidecar'', ''active'', ''recovery'', ''complete''}"
    using assms by (auto simp: purge_at_def phase_done_def gone_defs journal_paths_def valid_journal_def)
  then show ?thesis by (intro write_at[OF assms, where f = "pj_phase j"]) auto
qed

lemma fail_writes: "purge_at L s0 j0 j s \<Longrightarrow> writes_ok (purge_point L s0 j0) (fail_purge P j e) s"
  using fail_at[of L s0 j0 j s P e] by (auto simp: writes_ok_def fail_run(3) purge_point_def)

lemma attempt_writes:
  assumes "keeping (purge_at L s0 j0 j) m" and a: "purge_at L s0 j0 j s"
    and k: "\<And>x. result_of m s = Inr x \<Longrightarrow> writes_ok (purge_point L s0 j0) (k x) (final_of m s)"
  shows "writes_ok (purge_point L s0 j0) (attempt P j m k) s"
  unfolding attempt_def
proof (rule writes_andthen)
  have "writes_ok (purge_at L s0 j0 j) m s" using writes_of_keeping[OF assms(1) a] .
  then show "writes_ok (purge_point L s0 j0) (caught m) s" by (auto simp: writes_ok_def caught_def purge_point_def split: prod.split)
  fix r assume "result_of (caught m) s = Inr r"
  then show "writes_ok (purge_point L s0 j0) (case r of Inl e \<Rightarrow> fail_purge P j e | Inr x \<Rightarrow> k x) (final_of (caught m) s)"
    using k fail_writes[OF keeping_final[OF assms(1) a]] by (cases r) auto
qed

lemma attempt_ok:
  "result_of m s = Inr x \<Longrightarrow> result_of (attempt P j m k) s = result_of (k x) (final_of m s)"
  "result_of m s = Inr x \<Longrightarrow> final_of (attempt P j m k) s = final_of (k x) (final_of m s)"
  by (simp_all add: attempt_def result_andthen final_andthen)

lemma attempt_fail:
  "result_of m s = Inl e \<Longrightarrow> result_of (attempt P j m k) s = Inl e"
  "result_of m s = Inl e \<Longrightarrow> final_of (attempt P j m k) s = final_of (fail_purge P j e) (final_of m s)"
  by (simp_all add: attempt_def result_andthen final_andthen fail_run)

lemma attempt_Inr:
  assumes "result_of (attempt P j m k) s = Inr y"
  obtains x where "result_of m s = Inr x" "result_of (k x) (final_of m s) = Inr y"
    "final_of (attempt P j m k) s = final_of (k x) (final_of m s)"
  using assms that
  by (cases "result_of m s") (auto simp: attempt_def result_andthen final_andthen fail_purge_def write_journal_def)

lemma advance_simps [simp]:
  "result_of (advance j f st) s = Inr (j\<lparr>pj_phase := f, pj_status := st, pj_error := []\<rparr>)"
  "final_of (advance j f st) s = ps_journals_update (AList.update (pj_slug j) (JournalDoc (j\<lparr>pj_phase := f, pj_status := st, pj_error := []\<rparr>))) s"
  "snd (advance j f st s) = [ps_journals_update (AList.update (pj_slug j) (JournalDoc (j\<lparr>pj_phase := f, pj_status := st, pj_error := []\<rparr>))) s]"
  by (simp_all add: advance_def write_journal_def result_andthen final_andthen Let_def) (simp add: andthen_def act_runs)

section \<open>The steps of a purge\<close>

lemma keeping_rows: "keeping (purge_at L s0 j0 j) (put (ps_rows_update (removeAll x)))"
  by (rule keeping_put) (auto simp: purge_at_def resumable_def phase_done_def gone_defs)

lemma keeping_docs: "keeping (purge_at L s0 j0 j) (put (ps_docs_update (removeAll x)))"
  by (rule keeping_put) (auto simp: purge_at_def resumable_def phase_done_def gone_defs)

lemma map_le_upd_None: "m \<subseteq>\<^sub>m m' \<Longrightarrow> m(x := None) \<subseteq>\<^sub>m m'"
  by (simp add: map_le_def)

lemma at_vault:
  assumes a: "purge_at L s0 j0 j s" and v: "map_of v = (map_of (pv s))(p := None)"
  shows "purge_at L s0 j0 j (s\<lparr>ps_disk := vault_update (\<lambda>_. v) (ps_disk s)\<rparr>)"
proof -
  have h: "dk_history (vault_update (\<lambda>_. v) (ps_disk s)) = hs_vault_update (\<lambda>_. v) (ph s)" by (simp add: vault_update_def)
  have t: "dk_trash (vault_update (\<lambda>_. v) (ps_disk s)) = pt s" by (simp add: vault_update_def)
  show ?thesis using a
    by (auto simp: purge_at_def resumable_def phase_done_def gone_defs h t v map_le_upd_None)
qed

lemma keeping_remove: "keeping (purge_at L s0 j0 j) (remove_recorded K p)"
proof -
  have k: "keeping (purge_at L s0 j0 j) (\<lambda>s. case remove_path (pp_path p) (pv s) of
      Inr v \<Rightarrow> put (\<lambda>s. s\<lparr>ps_disk := vault_update (\<lambda>_. v) (ps_disk s)\<rparr>) s
    | Inl NotExist \<Rightarrow> ret () s
    | Inl OtherError \<Rightarrow> raise (RemoveFailed (pp_path p)) s)"
    by (rule keepingI) (auto simp: writes_ok_def act_runs split: sum.split file_error.split intro: at_vault remove_path_Inr)
  show ?thesis unfolding remove_recorded_def
    by (rule keeping_andthen[OF keeping_reads(3)]) (simp add: keeping_reads k)
qed

lemma at_history:
  assumes "purge_at L s0 j0 j s" and "pj_phase j \<noteq> ''complete''" and "purgeable L (pv s) h"
  shows "purge_at L s0 j0 j (s\<lparr>ps_disk := (ps_disk s)\<lparr>dk_history := h\<rparr>\<rparr>)"
  using assms by (auto simp: purge_at_def resumable_def phase_done_def gone_defs purgeable_def)

lemma keeping_history:
  assumes "pj_phase j \<noteq> ''complete''"
  shows "keeping (purge_at L s0 j0 j) (on_disk (on_history (purge_paths L rels)))"
  unfolding on_disk_def
proof (rule keeping_within[where K = "\<lambda>t d. \<exists>h. purgeable L (pv t) h \<and> d = (ps_disk t)\<lparr>dk_history := h\<rparr>"], intro conjI allI impI)
  fix t assume t: "purge_at L s0 j0 j t"
  have p: "purgeable L (pv t) (ph t)" using t by (simp add: purge_at_def resumable_def purgeable_def)
  show "keeping (\<lambda>d. \<exists>h. purgeable L (pv t) h \<and> d = (ps_disk t)\<lparr>dk_history := h\<rparr>) (on_history (purge_paths L rels))"
    unfolding on_history_def
    by (rule keeping_within[where K = "\<lambda>_. purgeable L (pv t)"]) (auto simp: keeping_purgeable)
  show "\<exists>h. purgeable L (pv t) h \<and> ps_disk t = (ps_disk t)\<lparr>dk_history := h\<rparr>"
    using p by (intro exI[of _ "ph t"]) simp
next
  fix t d assume t: "purge_at L s0 j0 j t" and d: "\<exists>h. purgeable L (pv t) h \<and> d = (ps_disk t)\<lparr>dk_history := h\<rparr>"
  then obtain h where "purgeable L (pv t) h" "d = (ps_disk t)\<lparr>dk_history := h\<rparr>" by blast
  then show "purge_at L s0 j0 j (t\<lparr>ps_disk := d\<rparr>)" using at_history[OF t assms] by simp
qed

definition less_trash :: "disk \<Rightarrow> disk \<Rightarrow> bool" where
  "less_trash d0 d \<longleftrightarrow> dk_history d = dk_history d0 \<and> map_of (dk_trash d) \<subseteq>\<^sub>m map_of (dk_trash d0) \<and> distinct (map fst (dk_trash d))"

lemma keeping_remove_trash: "keeping (less_trash d0) (remove_trash n)"
  by (rule keepingI) (auto simp: remove_trash_def writes_ok_def act_runs less_trash_def distinct_delete delete_conv' map_le_upd_None)

lemma keeping_purge_wanted: "keeping (less_trash d0) (purge_wanted current wanted)"
proof (induction wanted)
  case (Cons w wanted)
  obtain n p where w: "w = (n, p)" by (cases w)
  show ?case
    by (cases "find (\<lambda>e. te_name e = n) current")
      (simp_all add: w Cons keeping_andthen keeping_reads keeping_remove_trash remove_item_def)
qed (simp add: keeping_reads)

lemma keeping_trash: "keeping (purge_at L s0 j0 j) (on_disk (purge_trash_entries T wanted))"
  unfolding on_disk_def
proof (rule keeping_within[where K = "\<lambda>t. less_trash (ps_disk t)"], intro conjI allI impI)
  fix t assume t: "purge_at L s0 j0 j t"
  show "keeping (less_trash (ps_disk t)) (purge_trash_entries T wanted)"
    unfolding purge_trash_entries_def by (rule keeping_andthen[OF keeping_reads(3) keeping_purge_wanted])
  show "less_trash (ps_disk t) (ps_disk t)" using t by (simp add: less_trash_def purge_at_def resumable_def)
  fix d assume d: "less_trash (ps_disk t) d"
  have "map_of (dk_trash d) x = None" if "map_of (pt t) x = None" for x
    using d that map_le_Some[of "map_of (dk_trash d)" "map_of (pt t)" x] by (cases "map_of (dk_trash d) x") (auto simp: less_trash_def)
  then show "purge_at L s0 j0 j (t\<lparr>ps_disk := d\<rparr>)" using t d
    by (auto simp: purge_at_def resumable_def phase_done_def gone_defs less_trash_def intro: map_le_trans)
qed

section \<open>What each step does\<close>

lemma remove_recorded_gone:
  assumes "resumable L s0 s" and "\<not> blocked_path (pp_path p) (pv s0)" and "map_of (pv s) (pp_path p) = None"
  shows "result_of (remove_recorded L p) s = Inr ()" "final_of (remove_recorded L p) s = s"
proof -
  have "\<not> blocked_path (pp_path p) (pv s)" using unblocked_part[OF assms(2)] assms(1) by (simp add: resumable_def)
  then have "check_recorded L p s = Inr False" using assms(3) by (simp add: check_recorded_def)
  then show "result_of (remove_recorded L p) s = Inr ()" "final_of (remove_recorded L p) s = s"
    by (simp_all add: remove_recorded_def result_andthen final_andthen)
qed

lemma remove_recorded_there:
  assumes "check_recorded L p s = Inr True" and "remove_path (pp_path p) (pv s) = Inr v"
  shows "result_of (remove_recorded L p) s = Inr ()" "pt (final_of (remove_recorded L p) s) = pt s"
    "map_of (pv (final_of (remove_recorded L p) s)) = (map_of (pv s))(pp_path p := None)"
proof -
  let ?s = "s\<lparr>ps_disk := vault_update (\<lambda>_. v) (ps_disk s)\<rparr>"
  have "remove_recorded L p s = (Inr (), [?s])"
    by (simp add: remove_recorded_def andthen_def act_runs assms)
  then have r: "result_of (remove_recorded L p) s = Inr ()" "final_of (remove_recorded L p) s = ?s"
    by (simp_all add: result_of_def final_of_def)
  show "result_of (remove_recorded L p) s = Inr ()" by (rule r(1))
  show "pt (final_of (remove_recorded L p) s) = pt s" unfolding r(2) by (simp add: vault_update_def)
  show "map_of (pv (final_of (remove_recorded L p) s)) = (map_of (pv s))(pp_path p := None)"
    unfolding r(2) using remove_path_Inr[OF assms(2)] by (simp add: vault_update_def)
qed

text \<open>What a step leaves of the vault and the trash.\<close>

definition fewer_files :: "purge_state \<Rightarrow> purge_state \<Rightarrow> bool" where
  "fewer_files s s' \<longleftrightarrow> map_of (pv s') \<subseteq>\<^sub>m map_of (pv s) \<and> pt s' = pt s"

lemma resumable_vault: "resumable L s0 s \<Longrightarrow> map_of (pv s) \<subseteq>\<^sub>m map_of (pv s0)"
  by (simp add: resumable_def)

lemma remove_file_run:
  assumes r: "resumable L s0 s" and f: "file_rec L s0 p" and t: "vault_tree (pv s0)"
  shows "result_of (remove_recorded L p) s = Inr () \<and> fewer_files s (final_of (remove_recorded L p) s) \<and>
    map_of (pv (final_of (remove_recorded L p) s)) (pp_path p) = None"
proof -
  obtain c where c: "map_of (pv s0) (pp_path p) = Some (Regular c)" "pp_hash p = purge_hash L c"
      "pp_kind p = ''file''" "pp_ident p = ps_ident s0 (pp_path p)"
    using f by (auto simp: file_rec_def)
  show ?thesis
  proof (cases "map_of (pv s) (pp_path p)")
    case None
    then show ?thesis using remove_recorded_gone[OF r tree_unblocked[OF t] None] c(1) by (simp add: fewer_files_def)
  next
    case (Some g)
    then have g: "map_of (pv s) (pp_path p) = Some (Regular c)"
      using map_le_Some[OF resumable_vault[OF r] Some] c(1) by simp
    have "check_recorded L p s = Inr True" using r g c by (simp add: check_recorded_def resumable_def)
    moreover have "remove_path (pp_path p) (pv s) = Inr (AList.delete (pp_path p) (pv s))" using g by (simp add: remove_path_def)
    ultimately show ?thesis using remove_recorded_there by (simp add: fewer_files_def map_le_upd_None)
  qed
qed

lemma remove_dir_run:
  assumes r: "resumable L s0 s" and f: "dir_rec slug s0 ps p" and t: "vault_tree (pv s0)"
    and ps: "\<forall>q \<in> ps. map_of (pv s) q = None"
  shows "result_of (remove_recorded L p) s = Inr () \<and> fewer_files s (final_of (remove_recorded L p) s) \<and>
    map_of (pv (final_of (remove_recorded L p) s)) (pp_path p) = None"
proof (cases "map_of (pv s) (pp_path p)")
  case None
  have "map_of (pv s0) (pp_path p) \<noteq> None" using f unfolding dir_rec_def by (metis option.distinct(1))
  then show ?thesis using remove_recorded_gone[OF r tree_unblocked[OF t] None] None by (simp add: fewer_files_def)
next
  case (Some g)
  have d: "pp_kind p = ''dir''" "pp_path p = raw_dir slug" "pp_ident p = ps_ident s0 (pp_path p)" "map_of (pv s0) (pp_path p) = Some Directory"
    and under: "q \<in> fst ` set (pv s0) \<Longrightarrow> has_prefix q (raw_prefix slug) \<Longrightarrow> q \<in> ps" for q
    using f unfolding dir_rec_def by blast+
  have g: "map_of (pv s) (pp_path p) = Some Directory"
    using map_le_Some[OF resumable_vault[OF r] Some] d(4) Some by simp
  have empty: "\<not> has_prefix q (pp_path p @ ''/'')" if m: "(q, x) \<in> set (pv s)" for q x
  proof
    assume "has_prefix q (pp_path p @ ''/'')"
    then have pre: "has_prefix q (raw_prefix slug)" using d(2) by (simp add: raw_prefix_def)
    have "map_of (pv s) q \<noteq> None" unfolding map_of_eq_None_iff using imageI[OF m, of fst] by simp
    then obtain y where y: "map_of (pv s) q = Some y" by blast
    then have "map_of (pv s0) q = Some y" by (rule map_le_Some[OF resumable_vault[OF r]])
    then have "q \<in> fst ` set (pv s0)" using imageI[OF map_of_SomeD, of "pv s0" q y fst] by simp
    then have "q \<in> ps" using under pre by blast
    then show False using ps y by simp
  qed
  have "check_recorded L p s = Inr True" using r g d(1,3) by (simp add: check_recorded_def resumable_def)
  moreover have "remove_path (pp_path p) (pv s) = Inr (AList.delete (pp_path p) (pv s))"
    using g empty by (auto simp: remove_path_def list_ex_iff)
  ultimately show ?thesis using remove_recorded_there by (simp add: fewer_files_def map_le_upd_None)
qed

lemma fewer_trans: "fewer_files s s' \<Longrightarrow> fewer_files s' s'' \<Longrightarrow> fewer_files s s''"
  by (auto simp: fewer_files_def intro: map_le_trans)

lemma fewer_none: "fewer_files s s' \<Longrightarrow> map_of (pv s) x = None \<Longrightarrow> map_of (pv s') x = None"
  using map_le_Some[of "map_of (pv s')" "map_of (pv s)" x] by (cases "map_of (pv s') x") (auto simp: fewer_files_def)

lemma keeping_resumable: "keeping (resumable L s0) (remove_recorded K p)"
proof (rule keepingI)
  fix s assume r: "resumable L s0 s"
  have "resumable L s0 w" if w: "w \<in> set (snd (remove_recorded K p s))" for w
  proof -
    obtain v where v: "remove_path (pp_path p) (pv s) = Inr v" "w = s\<lparr>ps_disk := vault_update (\<lambda>_. v) (ps_disk s)\<rparr>"
      using w by (auto simp: remove_recorded_def look_andthen act_runs split: sum.splits if_splits file_error.splits)
    show ?thesis using r remove_path_Inr[OF v(1)]
      by (auto simp: v(2) resumable_def vault_update_def map_le_upd_None)
  qed
  then show "writes_ok (resumable L s0) (remove_recorded K p) s" by (simp add: writes_ok_def)
qed

lemma remove_files_run:
  assumes "list_all (file_rec L s0) fs" and "vault_tree (pv s0)" and "resumable L s0 s"
  shows "result_of (each (remove_recorded L) fs) s = Inr () \<and> resumable L s0 (final_of (each (remove_recorded L) fs) s) \<and>
    fewer_files s (final_of (each (remove_recorded L) fs) s) \<and>
    (\<forall>p \<in> set fs. map_of (pv (final_of (each (remove_recorded L) fs) s)) (pp_path p) = None)"
  using assms(1,3)
proof (induction fs arbitrary: s)
  case Nil
  then show ?case by (simp add: fewer_files_def)
next
  case (Cons p fs)
  let ?s = "final_of (remove_recorded L p) s"
  have p: "result_of (remove_recorded L p) s = Inr ()" "fewer_files s ?s" "map_of (pv ?s) (pp_path p) = None"
    using remove_file_run[OF Cons.prems(2) _ assms(2)] Cons.prems(1) by auto
  have "resumable L s0 ?s" using keeping_final[OF keeping_resumable Cons.prems(2)] .
  then have i: "result_of (each (remove_recorded L) fs) ?s = Inr ()" "resumable L s0 (final_of (each (remove_recorded L) fs) ?s)"
    "fewer_files ?s (final_of (each (remove_recorded L) fs) ?s)"
    "\<forall>p \<in> set fs. map_of (pv (final_of (each (remove_recorded L) fs) ?s)) (pp_path p) = None"
    using Cons.IH Cons.prems(1) by auto
  have "map_of (pv (final_of (each (remove_recorded L) fs) ?s)) (pp_path p) = None" using fewer_none[OF i(3) p(3)] .
  then show ?case using p i fewer_trans[OF p(2) i(3)] by (simp add: andthen_ok[OF p(1)])
qed

section \<open>The phases\<close>

lemma purge_atD:
  assumes "purge_at L s0 j0 j s"
  shows "resumable L s0 s" "later j0 j" "phase_done L j s"
    "pj_slug j = pj_slug j0" "pj_paths j = pj_paths j0" "pj_trash j = pj_trash j0" "journal_paths j = journal_paths j0"
  using assms later_parts[of j0 j] by (simp_all add: purge_at_def)

lemma advance_at:
  assumes a: "purge_at L s0 j0 j s" and "f \<in> {''active'', ''recovery'', ''complete''}"
    and "st = (if f = ''complete'' then ''completed'' else ''in_progress'')"
    and "phase_done L (j\<lparr>pj_phase := f, pj_status := st, pj_error := []\<rparr>) s"
  shows "purge_at L s0 j0 (j\<lparr>pj_phase := f, pj_status := st, pj_error := []\<rparr>) (final_of (advance j f st) s)"
    "writes_ok (purge_point L s0 j0) (advance j f st) s"
proof -
  have m: "List.member [''in_progress'', ''failed'', ''completed''] st" "List.member [''sidecar'', ''active'', ''recovery'', ''complete''] f"
    using assms(2,3) by auto
  show n: "purge_at L s0 j0 (j\<lparr>pj_phase := f, pj_status := st, pj_error := []\<rparr>) (final_of (advance j f st) s)"
    using write_at[OF a refl m assms(4)] by simp
  show "writes_ok (purge_point L s0 j0) (advance j f st) s"
    using n unfolding writes_ok_def advance_simps(2,3) purge_point_def by auto
qed

lemma sidecar_phase_at:
  assumes a: "purge_at L s0 j0 j s"
  shows "writes_ok (purge_point L s0 j0) (sidecar_phase Q j) s"
    and "result_of (sidecar_phase Q j) s = Inr j' \<Longrightarrow>
      purge_at L s0 j0 j' (final_of (sidecar_phase Q j) s) \<and> pj_phase j' \<noteq> ''sidecar'' \<and> ps_disk (final_of (sidecar_phase Q j) s) = ps_disk s"
    and "pl_rows_ok Q \<Longrightarrow> pl_docs_ok Q \<Longrightarrow> \<exists>j'. result_of (sidecar_phase Q j) s = Inr j'"
proof -
  let ?rows = "if pl_rows_ok Q then put (ps_rows_update (removeAll (pj_slug j))) else raise IndexFailed :: unit purge_act"
  let ?docs = "if pl_docs_ok Q then put (ps_docs_update (removeAll (handle_rel (pj_slug j)))) else raise IndexFailed :: unit purge_act"
  let ?s2 = "ps_docs_update (removeAll (handle_rel (pj_slug j))) (ps_rows_update (removeAll (pj_slug j)) s)"
  let ?j = "j\<lparr>pj_phase := ''active'', pj_status := ''in_progress'', pj_error := []\<rparr>"
  have kr: "keeping (purge_at L s0 j0 j) ?rows" and kd: "keeping (purge_at L s0 j0 j) ?docs"
    by (simp_all add: keeping_rows keeping_docs keeping_reads)
  have s1: "purge_at L s0 j0 j (final_of ?rows s)" by (rule keeping_final[OF kr a])
  have s2: "purge_at L s0 j0 j (final_of ?docs (final_of ?rows s))" by (rule keeping_final[OF kd s1])
  have fin: "phase_done L ?j ?s2" by (simp add: phase_done_def index_gone_def)
  have step: "sidecar_phase Q j = (if pj_phase j \<noteq> ''sidecar'' then ret j
      else attempt Q j ?rows (\<lambda>_. attempt Q j ?docs (\<lambda>_. advance j ''active'' ''in_progress'')))"
    by (simp add: sidecar_phase_def)
  have adv: "purge_at L s0 j0 ?j (final_of (advance j ''active'' ''in_progress'') ?s2)"
      "writes_ok (purge_point L s0 j0) (advance j ''active'' ''in_progress'') ?s2" if "pl_rows_ok Q" "pl_docs_ok Q"
    using advance_at[OF _ _ _ fin] s2 that by simp_all
  show "writes_ok (purge_point L s0 j0) (sidecar_phase Q j) s"
  proof (cases "pj_phase j = ''sidecar''")
    case True
    have "writes_ok (purge_point L s0 j0) (attempt Q j ?docs (\<lambda>_. advance j ''active'' ''in_progress'')) (final_of ?rows s)"
      if "pl_rows_ok Q"
      by (rule attempt_writes[OF kd s1]) (use adv that in \<open>cases "pl_docs_ok Q"; simp\<close>)
    then show ?thesis unfolding step using True
      by (simp only: not_True_eq_False simp_thms if_False) (rule attempt_writes[OF kr a]; cases "pl_rows_ok Q"; simp)
  qed (simp add: step)
  show "\<exists>j'. result_of (sidecar_phase Q j) s = Inr j'" if "pl_rows_ok Q" "pl_docs_ok Q"
    by (simp add: step that attempt_ok)
  show "purge_at L s0 j0 j' (final_of (sidecar_phase Q j) s) \<and> pj_phase j' \<noteq> ''sidecar'' \<and> ps_disk (final_of (sidecar_phase Q j) s) = ps_disk s"
    if r: "result_of (sidecar_phase Q j) s = Inr j'"
  proof (cases "pj_phase j = ''sidecar''")
    case True
    have ok: "pl_rows_ok Q" "pl_docs_ok Q"
      using r True by (auto simp: step elim!: attempt_Inr split: if_splits)
    then have "j' = ?j" using r True by (simp add: step attempt_ok)
    moreover have "final_of (sidecar_phase Q j) s = final_of (advance j ''active'' ''in_progress'') ?s2"
      using True ok by (simp add: step attempt_ok)
    ultimately show ?thesis using adv(1)[OF ok] by simp
  next
    case False
    then have same: "sidecar_phase Q j = ret j" by (simp add: step)
    have "j' = j" using r unfolding same by simp
    then show ?thesis using a False unfolding same by simp
  qed
qed

lemma active_files:
  assumes st: "purge_start P slug rule accepted s0 j0" and L: "L = pl_history P" and a: "purge_at L s0 j0 j s"
  shows "result_of (each (remove_recorded L) (pj_paths j)) s = Inr ()"
    "files_gone j (final_of (each (remove_recorded L) (pj_paths j)) s)" "pt (final_of (each (remove_recorded L) (pj_paths j)) s) = pt s"
proof -
  obtain fs ds ts where f: "pj_paths j0 = fs @ ds" "list_all (file_rec (pl_history P) s0) fs"
    "ds = [] \<or> (\<exists>d. ds = [d] \<and> dir_rec slug s0 (pp_path ` set fs) d)"
    "list_all (trash_rec (pl_history P) (pl_trash P) s0) (pj_trash j0)"
    "clean_paths (journal_paths j0) = Inr ts" "strict_history (pl_history P) (ph s0)"
    "handle_rel slug \<in> pp_path ` set fs"
    by (rule start_facts[OF st])
  have tree: "vault_tree (pv s0)" using st by (simp add: purge_start_def)
  let ?s1 = "final_of (each (remove_recorded L) fs) s"
  have r: "result_of (each (remove_recorded L) fs) s = Inr ()" "resumable L s0 ?s1" "fewer_files s ?s1"
      "\<forall>p \<in> set fs. map_of (pv ?s1) (pp_path p) = None"
    using remove_files_run[OF _ tree purge_atD(1)[OF a]] f(2) unfolding L by auto
  have p: "pj_paths j = fs @ ds" using f(1) purge_atD(5)[OF a] by simp
  have app: "each g (xs @ ys) = andthen (each g xs) (\<lambda>_. each g ys)" for g :: "purge_path \<Rightarrow> unit purge_act" and xs ys
    by (induction xs) (simp_all add: andthen_assoc, simp add: fun_eq_iff andthen_def act_runs split_beta)
  have "result_of (each (remove_recorded L) ds) ?s1 = Inr () \<and> fewer_files ?s1 (final_of (each (remove_recorded L) ds) ?s1) \<and>
      (\<forall>p \<in> set ds. map_of (pv (final_of (each (remove_recorded L) ds) ?s1)) (pp_path p) = None)"
  proof (cases "ds = []")
    case True
    then show ?thesis by (simp add: fewer_files_def)
  next
    case False
    then obtain d where d: "ds = [d]" "dir_rec slug s0 (pp_path ` set fs) d" using f(3) by blast
    have "\<forall>q \<in> pp_path ` set fs. map_of (pv ?s1) q = None" using r(4) by simp
    then show ?thesis using remove_dir_run[OF r(2) d(2) tree] by (simp add: d(1) result_andthen final_andthen)
  qed
  then have t: "result_of (each (remove_recorded L) ds) ?s1 = Inr ()" "fewer_files ?s1 (final_of (each (remove_recorded L) ds) ?s1)"
      "\<forall>p \<in> set ds. map_of (pv (final_of (each (remove_recorded L) ds) ?s1)) (pp_path p) = None" by auto
  have fin: "final_of (each (remove_recorded L) (pj_paths j)) s = final_of (each (remove_recorded L) ds) ?s1"
    by (simp add: p app andthen_ok[OF r(1)])
  show "result_of (each (remove_recorded L) (pj_paths j)) s = Inr ()" by (simp add: p app andthen_ok[OF r(1)] t(1))
  show "files_gone j (final_of (each (remove_recorded L) (pj_paths j)) s)"
    unfolding files_gone_def fin using t(3) r(4) fewer_none[OF t(2)] by (simp add: p ball_Un)
  show "pt (final_of (each (remove_recorded L) (pj_paths j)) s) = pt s"
    unfolding fin using fewer_trans[OF r(3) t(2)] by (simp add: fewer_files_def)
qed

lemma active_phase_at:
  assumes st: "purge_start P slug rule accepted s0 j0" and L: "L = pl_history P" "pl_history Q = L" and a: "purge_at L s0 j0 j s"
    and ph: "pj_phase j \<noteq> ''sidecar''"
  shows "writes_ok (purge_point L s0 j0) (active_phase Q j) s"
    and "\<exists>j'. result_of (active_phase Q j) s = Inr j' \<and> purge_at L s0 j0 j' (final_of (active_phase Q j) s) \<and>
      (pj_phase j' = ''recovery'' \<or> pj_phase j' = ''complete'') \<and> pt (final_of (active_phase Q j) s) = pt s"
proof -
  let ?m = "each (remove_recorded L) (pj_paths j)"
  let ?j = "j\<lparr>pj_phase := ''recovery'', pj_status := ''in_progress'', pj_error := []\<rparr>"
  have k: "keeping (purge_at L s0 j0 j) ?m" by (rule keeping_each) (rule keeping_remove)
  have s1: "purge_at L s0 j0 j (final_of ?m s)" by (rule keeping_final[OF k a])
  note m = active_files[OF st L(1) a]
  have step: "active_phase Q j = (if pj_phase j \<noteq> ''active'' then ret j else attempt Q j ?m (\<lambda>_. advance j ''recovery'' ''in_progress''))"
    by (simp add: active_phase_def L(2))
  have "phase_done L ?j (final_of ?m s)"
    using purge_atD(3)[OF s1] m(2) ph by (simp add: phase_done_def gone_defs)
  note adv = advance_at[OF s1 _ _ this]
  show "writes_ok (purge_point L s0 j0) (active_phase Q j) s"
    unfolding step using attempt_writes[OF k a, of "\<lambda>_. advance j ''recovery'' ''in_progress''"] adv(2) by auto
  show "\<exists>j'. result_of (active_phase Q j) s = Inr j' \<and> purge_at L s0 j0 j' (final_of (active_phase Q j) s) \<and>
      (pj_phase j' = ''recovery'' \<or> pj_phase j' = ''complete'') \<and> pt (final_of (active_phase Q j) s) = pt s"
  proof (cases "pj_phase j = ''active''")
    case True
    then show ?thesis using adv(1) m(1,3) by (intro exI[of _ ?j]) (simp add: step attempt_ok[OF m(1)])
  next
    case False
    moreover have "pj_phase j \<in> {''sidecar'', ''active'', ''recovery'', ''complete''}"
      using a by (auto simp: purge_at_def valid_journal_def)
    ultimately show ?thesis using a ph by (intro exI[of _ j]) (simp add: step)
  qed
qed

section \<open>The recovery phase\<close>

lemma map_le_None: "m \<subseteq>\<^sub>m m' \<Longrightarrow> m' x = None \<Longrightarrow> m x = None"
  by (cases "m x") (auto dest: map_le_Some)

lemma check_item_ok:
  assumes "resumable L s0 s" and "map_of (pt s0) n = Some (Regular c)"
  shows "check_trash_item L n (ps_trash_ident s0 n) (purge_hash L c) s = Inr ()"
proof (cases "map_of (pt s) n")
  case (Some f)
  have le: "map_of (pt s) \<subseteq>\<^sub>m map_of (pt s0)" using assms(1) by (simp add: resumable_def)
  have "f = Regular c" using map_le_Some[OF le Some] assms(2) by simp
  then show ?thesis using Some assms(1) by (simp add: check_trash_item_def resumable_def)
qed (simp add: check_trash_item_def)

lemma validate_trash_ok:
  assumes "resumable L s0 s" and "list_all (trash_rec L T s0) ts"
  shows "validate_trash L ts s = Inr ()"
  using assms(2)
proof (induction ts)
  case (Cons t ts)
  obtain c m where "map_of (pt s0) (pt_name t) = Some (Regular c)" "map_of (pt s0) (pt_name t @ meta_suffix) = Some (Regular m)"
      "pt_payload_ident t = ps_trash_ident s0 (pt_name t)" "pt_payload_hash t = purge_hash L c"
      "pt_meta_ident t = ps_trash_ident s0 (pt_name t @ meta_suffix)" "pt_meta_hash t = purge_hash L m"
    using Cons.prems by (auto simp: trash_rec_def)
  then show ?case using Cons check_item_ok[OF assms(1)] by simp
qed simp

lemma purge_wanted_run:
  assumes "\<forall>e \<in> set current. \<forall>p. (te_name e, p) \<in> set wanted \<longrightarrow> te_path e = p"
  shows "(\<exists>k. result_of (purge_wanted current wanted) d = Inr k) \<and> dk_history (final_of (purge_wanted current wanted) d) = dk_history d \<and>
    map_of (dk_trash (final_of (purge_wanted current wanted) d)) \<subseteq>\<^sub>m map_of (dk_trash d) \<and>
    (\<forall>e \<in> set current. te_name e \<in> fst ` set wanted \<longrightarrow>
       map_of (dk_trash (final_of (purge_wanted current wanted) d)) (te_name e) = None \<and>
       map_of (dk_trash (final_of (purge_wanted current wanted) d)) (te_name e @ meta_suffix) = None)"
  using assms
proof (induction wanted arbitrary: d)
  case (Cons w wanted)
  obtain n p where w: "w = (n, p)" by (cases w)
  show ?case
  proof (cases "find (\<lambda>e. te_name e = n) current")
    case None
    then have "\<forall>e \<in> set current. te_name e \<noteq> n" by (simp add: find_None_iff)
    then show ?thesis using Cons None by (auto simp: w)
  next
    case (Some e)
    have e: "e \<in> set current" "te_name e = n" using find_in[OF Some] by auto
    then have p: "te_path e = p" using Cons.prems by (simp add: w)
    have cond: "\<forall>e \<in> set current. \<forall>p. (te_name e, p) \<in> set wanted \<longrightarrow> te_path e = p" using Cons.prems by (simp add: w)
    let ?d = "final_of (remove_item n) d" and ?rest = "purge_wanted current wanted"
    let ?x = "final_of ?rest ?d"
    have i: "\<exists>k. result_of ?rest ?d = Inr k" "dk_history ?x = dk_history ?d" "map_of (dk_trash ?x) \<subseteq>\<^sub>m map_of (dk_trash ?d)"
      "\<forall>e \<in> set current. te_name e \<in> fst ` set wanted \<longrightarrow> map_of (dk_trash ?x) (te_name e) = None \<and> map_of (dk_trash ?x) (te_name e @ meta_suffix) = None"
      using Cons.IH[OF cond, of ?d] by blast+
    obtain k where k: "result_of ?rest ?d = Inr k" using i(1) by blast
    have run: "result_of (purge_wanted current (w # wanted)) d = Inr (Suc k)" "final_of (purge_wanted current (w # wanted)) d = ?x"
      using k by (simp_all add: w Some p result_andthen final_andthen)
    have none: "map_of (dk_trash ?x) m = None" if "map_of (dk_trash ?d) m = None" for m
      by (rule map_le_None[OF i(3) that])
    have "map_of (dk_trash ?d) \<subseteq>\<^sub>m map_of (dk_trash d)" by (simp add: map_le_upd_None)
    then have "map_of (dk_trash ?x) \<subseteq>\<^sub>m map_of (dk_trash d)" by (rule map_le_trans[OF i(3)])
    moreover have "map_of (dk_trash ?x) n = None" "map_of (dk_trash ?x) (n @ meta_suffix) = None" by (rule none; simp)+
    then have "\<forall>e \<in> set current. te_name e \<in> fst ` set (w # wanted) \<longrightarrow> map_of (dk_trash ?x) (te_name e) = None \<and> map_of (dk_trash ?x) (te_name e @ meta_suffix) = None"
      using i(4) unfolding w list.set image_insert fst_conv insert_iff by metis
    moreover have "dk_history ?x = dk_history d" using i(2) by simp
    ultimately show ?thesis unfolding run by blast
  qed
qed simp

lemma listing_trash: "dk_trash d' = dk_trash d \<Longrightarrow> trash_list_strict T d' = trash_list_strict T d"
  unfolding trash_list_strict_def by (simp only:)

lemma strict_entry_part: "map_of items \<subseteq>\<^sub>m map_of items0 \<Longrightarrow> strict_entry T items n = Inr e \<Longrightarrow> strict_entry T items0 n = Inr e"
  unfolding strict_entry_Inr by (metis map_le_Some)

text \<open>What purging the recorded trash does, if the listing accepts the trash.\<close>

lemma purge_recorded_trash:
  assumes T: "trash_lib_ok T" and rec: "list_all (trash_rec L T s0) ts"
    and sub: "map_of (dk_trash d) \<subseteq>\<^sub>m map_of (pt s0)" and dist: "distinct (map fst (dk_trash d))"
    and es: "trash_list_strict T d = Inr es"
  defines "d' \<equiv> final_of (purge_trash_entries T (map (\<lambda>t. (pt_name t, pt_path t)) ts)) d"
  shows "\<exists>k. result_of (purge_trash_entries T (map (\<lambda>t. (pt_name t, pt_path t)) ts)) d = Inr k"
    "dk_history d' = dk_history d"
    "\<forall>t \<in> set ts. map_of (dk_trash d') (pt_name t) = None \<and> map_of (dk_trash d') (pt_name t @ meta_suffix) = None"
proof -
  let ?w = "map (\<lambda>t. (pt_name t, pt_path t)) ts"
  have sort: "sort_ok (tl_sort T)" using T by (simp add: trash_lib_ok_def)
  have inv: "inventory T (dk_trash d)" using strict_list_iff[OF dist] es by blast
  have listed: "e \<in> set es \<longleftrightarrow> \<not> has_suffix (te_name e) meta_suffix \<and> strict_entry T (dk_trash d) (te_name e) = Inr e" for e
    using listed_iff[OF dist es sort] .
  have path: "te_path e = pt_path t" if e: "e \<in> set es" and t: "t \<in> set ts" and n: "te_name e = pt_name t" for e t
  proof -
    have "strict_entry T (pt s0) (te_name e) = Inr e" using listed[of e] e strict_entry_part[OF sub] by blast
    moreover obtain e' where "strict_entry T (pt s0) (pt_name t) = Inr e'" "te_path e' = pt_path t"
      using rec t by (auto simp: list_all_iff trash_rec_def)
    ultimately show ?thesis using n by simp
  qed
  have "\<forall>e \<in> set es. \<forall>p. (te_name e, p) \<in> set ?w \<longrightarrow> te_path e = p" using path by auto
  note run = purge_wanted_run[OF this, of d]
  have start: "result_of (purge_trash_entries T ?w) d = result_of (purge_wanted es ?w) d" "d' = final_of (purge_wanted es ?w) d"
    by (simp_all add: d'_def purge_trash_entries_def result_andthen final_andthen es)
  show "\<exists>k. result_of (purge_trash_entries T ?w) d = Inr k" "dk_history d' = dk_history d" using run by (simp_all add: start)
  show "\<forall>t \<in> set ts. map_of (dk_trash d') (pt_name t) = None \<and> map_of (dk_trash d') (pt_name t @ meta_suffix) = None"
  proof
    fix t assume t: "t \<in> set ts"
    have nm: "\<not> has_suffix (pt_name t) meta_suffix" using rec t by (auto simp: list_all_iff trash_rec_def)
    have le: "map_of (dk_trash d') \<subseteq>\<^sub>m map_of (dk_trash d)" unfolding start using run by blast
    note none = map_le_None[OF le]
    show "map_of (dk_trash d') (pt_name t) = None \<and> map_of (dk_trash d') (pt_name t @ meta_suffix) = None"
    proof (cases "map_of (dk_trash d) (pt_name t)")
      case None
      moreover have "map_of (dk_trash d) (pt_name t @ meta_suffix) = None" using inventoryD(3)[OF inv] None by metis
      ultimately show ?thesis using none by simp
    next
      case (Some f)
      then obtain e where "strict_entry T (dk_trash d) (pt_name t) = Inr e" "te_name e = pt_name t"
        using inv nm unfolding inventory_def by (fastforce simp: strict_entry_Inr entry_ok_def file_size_def)
      then have n: "te_name e = pt_name t" and "e \<in> set es" using listed[of e] nm by simp_all
      moreover have "te_name e \<in> fst ` set ?w" using t by (force simp: n)
      ultimately have "map_of (dk_trash d') (te_name e) = None \<and> map_of (dk_trash d') (te_name e @ meta_suffix) = None"
        using run unfolding start(2) by blast
      then show ?thesis by (simp only: n)
    qed
  qed
qed

lemma on_disk_simps:
  "result_of (on_disk m) s = map_sum PurgeTrash id (result_of m (ps_disk s))"
  "final_of (on_disk m) s = s\<lparr>ps_disk := final_of m (ps_disk s)\<rparr>"
  unfolding on_disk_def by (simp_all add: within_simps final_within)

lemma on_history_simps:
  "result_of (on_history m) d = map_sum TrashHistory id (result_of m (dk_history d))"
  "final_of (on_history m) d = d\<lparr>dk_history := final_of m (dk_history d)\<rparr>"
  unfolding on_history_def by (simp_all add: within_simps final_within)

lemma recovery_phase_at:
  assumes st: "purge_start P slug rule accepted s0 j0" and L: "L = pl_history P" "pl_history Q = L" "pl_trash Q = pl_trash P"
    and a: "purge_at L s0 j0 j s" and ph: "pj_phase j = ''recovery'' \<or> pj_phase j = ''complete''"
  shows "writes_ok (purge_point L s0 j0) (recovery_phase Q j) s"
    and "result_of (recovery_phase Q j) s = Inr j' \<Longrightarrow>
      purge_at L s0 j0 j' (final_of (recovery_phase Q j) s) \<and> pj_phase j' = ''complete''"
    and "trash_list_strict (pl_trash P) (ps_disk s) = Inr es \<Longrightarrow> \<exists>j'. result_of (recovery_phase Q j) s = Inr j'"
proof -
  let ?T = "pl_trash P" and ?w = "map (\<lambda>t. (pt_name t, pt_path t)) (pj_trash j)"
  let ?m2 = "on_disk (on_history (purge_paths L (journal_paths j)))" and ?m3 = "on_disk (purge_trash_entries ?T ?w)"
  let ?j = "j\<lparr>pj_phase := ''complete'', pj_status := ''completed'', pj_error := []\<rparr>"
  obtain fs ds ts where f: "pj_paths j0 = fs @ ds" "list_all (file_rec (pl_history P) s0) fs"
    "ds = [] \<or> (\<exists>d. ds = [d] \<and> dir_rec slug s0 (pp_path ` set fs) d)"
    "list_all (trash_rec (pl_history P) ?T s0) (pj_trash j0)"
    "clean_paths (journal_paths j0) = Inr ts" "strict_history (pl_history P) (ph s0)"
    "handle_rel slug \<in> pp_path ` set fs"
    by (rule start_facts[OF st])
  have rec: "list_all (trash_rec L ?T s0) (pj_trash j)" and paths: "clean_paths (journal_paths j) = Inr ts"
    using f(4,5) purge_atD(6,7)[OF a] by (simp_all add: L(1))
  have T: "trash_lib_ok ?T" using st by (simp add: purge_start_def)
  have r: "resumable L s0 s" by (rule purge_atD(1)[OF a])
  have v: "validate_trash L (pj_trash j) s = Inr ()" by (rule validate_trash_ok[OF r rec])
  have g: "purgeable L (pv s) (ph s)" using r by (simp add: purgeable_def resumable_def)
  note h = purge_purgeable[OF g paths]
  let ?s2 = "final_of ?m2 s"
  have s2: "result_of ?m2 s = Inr ()" "?s2 = s\<lparr>ps_disk := (ps_disk s)\<lparr>dk_history := final_of (purge_paths L (journal_paths j)) (ph s)\<rparr>\<rparr>"
    by (simp_all add: on_disk_simps on_history_simps h(1))
  have untr: "history_gone L j ?s2" using h(3) by (simp add: history_gone_def s2(2))
  have list2: "trash_list_strict ?T (ps_disk ?s2) = trash_list_strict ?T (ps_disk s)" by (rule listing_trash) (simp add: s2(2))
  let ?s3 = "final_of ?m3 ?s2"
  have three: "(\<exists>k. result_of ?m3 ?s2 = Inr k) \<and> history_gone L j ?s3 \<and> trash_gone j ?s3" if es: "trash_list_strict ?T (ps_disk s) = Inr es" for es
  proof -
    have sub: "map_of (dk_trash (ps_disk ?s2)) \<subseteq>\<^sub>m map_of (pt s0)" "distinct (map fst (dk_trash (ps_disk ?s2)))"
      using r by (simp_all add: s2(2) resumable_def)
    have es2: "trash_list_strict ?T (ps_disk ?s2) = Inr es" using es list2 by simp
    note p = purge_recorded_trash[OF T rec sub es2]
    have "ph ?s3 = ph ?s2" "pt ?s3 = dk_trash (final_of (purge_trash_entries ?T ?w) (ps_disk ?s2))"
      using p(2) by (simp_all add: on_disk_simps)
    then show ?thesis using p(1,3) untr unfolding history_gone_def trash_gone_def by (auto simp: on_disk_simps(1))
  qed
  have three_ok: "\<exists>es. trash_list_strict ?T (ps_disk s) = Inr es" if "result_of ?m3 ?s2 = Inr k" for k
    using that list2 by (cases "trash_list_strict ?T (ps_disk s)") (auto simp: on_disk_simps(1) purge_trash_entries_def result_andthen)
  have step: "recovery_phase Q j = (if pj_phase j \<noteq> ''recovery'' then ret j
      else attempt Q j (look (validate_trash L (pj_trash j))) (\<lambda>_. attempt Q j ?m2 (\<lambda>_. attempt Q j ?m3 (\<lambda>_. advance j ''complete'' ''completed''))))"
    by (simp add: recovery_phase_def L(2,3))
  have k2: "keeping (purge_at L s0 j0 j) ?m2" if "pj_phase j = ''recovery''" by (rule keeping_history) (simp add: that)
  have at2: "purge_at L s0 j0 j ?s2" if "pj_phase j = ''recovery''" by (rule keeping_final[OF k2[OF that] a])
  have at3: "purge_at L s0 j0 j ?s3" if "pj_phase j = ''recovery''" by (rule keeping_final[OF keeping_trash at2[OF that]])
  have adv: "purge_at L s0 j0 ?j (final_of (advance j ''complete'' ''completed'') ?s3)"
      "writes_ok (purge_point L s0 j0) (advance j ''complete'' ''completed'') ?s3"
    if k: "result_of ?m3 ?s2 = Inr k" and p: "pj_phase j = ''recovery''" for k
  proof -
    obtain es where "trash_list_strict ?T (ps_disk s) = Inr es" using three_ok[OF k] by blast
    then have g3: "history_gone L j ?s3" "trash_gone j ?s3" using three by blast+
    have fin: "phase_done L ?j ?s3" using purge_atD(3)[OF at3[OF p]] g3 p by (simp add: phase_done_def gone_defs journal_paths_def)
    show "purge_at L s0 j0 ?j (final_of (advance j ''complete'' ''completed'') ?s3)"
      "writes_ok (purge_point L s0 j0) (advance j ''complete'' ''completed'') ?s3"
      by (rule advance_at[OF at3[OF p] _ _ fin]; simp)+
  qed
  show "writes_ok (purge_point L s0 j0) (recovery_phase Q j) s"
  proof (cases "pj_phase j = ''recovery''")
    case True
    have w3: "writes_ok (purge_point L s0 j0) (attempt Q j ?m3 (\<lambda>_. advance j ''complete'' ''completed'')) ?s2"
      by (rule attempt_writes[OF keeping_trash at2[OF True] adv(2)[OF _ True]])
    have w2: "writes_ok (purge_point L s0 j0) (attempt Q j ?m2 (\<lambda>_. attempt Q j ?m3 (\<lambda>_. advance j ''complete'' ''completed''))) s"
      by (rule attempt_writes[OF k2[OF True] a w3])
    show ?thesis unfolding step using True w2 by (simp add: attempt_writes[OF keeping_reads(3) a])
  qed (simp add: step)
  show "purge_at L s0 j0 j' (final_of (recovery_phase Q j) s) \<and> pj_phase j' = ''complete''" if res: "result_of (recovery_phase Q j) s = Inr j'"
  proof (cases "pj_phase j = ''recovery''")
    case True
    have "result_of (attempt Q j ?m3 (\<lambda>_. advance j ''complete'' ''completed'')) ?s2 = Inr j'"
      using res True by (simp add: step attempt_ok v s2(1))
    then obtain k where k: "result_of ?m3 ?s2 = Inr k" and j': "j' = ?j" by (rule attempt_Inr) simp
    have "final_of (recovery_phase Q j) s = final_of (advance j ''complete'' ''completed'') ?s3"
      using True by (simp only: step simp_thms if_False attempt_ok(2)[OF s2(1)] attempt_ok(2)[OF k] attempt_ok(2)[of "look (validate_trash L (pj_trash j))" s "()"] look_simps v)
    then show ?thesis using adv(1)[OF k True] by (simp add: j')
  next
    case False
    then have same: "recovery_phase Q j = ret j" by (simp add: step)
    show ?thesis using res a False ph unfolding same by simp
  qed
  show "\<exists>j'. result_of (recovery_phase Q j) s = Inr j'" if es: "trash_list_strict ?T (ps_disk s) = Inr es"
  proof -
    obtain k where "result_of ?m3 ?s2 = Inr k" using three[OF es] by blast
    then show ?thesis by (simp add: step attempt_ok v s2(1))
  qed
qed


section \<open>A whole attempt\<close>

lemma result_if: "result_of (if b then m else n) s = (if b then result_of m s else result_of n s)"
  by simp

lemma remove_journal_there:
  assumes "map_of (ps_journals s) slug \<noteq> None"
  shows "final_of (remove_journal slug) s = ps_journals_update (AList.delete slug) s"
    "writes_ok I (remove_journal slug) s \<longleftrightarrow> I (ps_journals_update (AList.delete slug) s)"
  using assms by (auto simp: remove_journal_def final_of_def writes_ok_def act_runs)

lemma resume_at:
  assumes st: "purge_start P slug rule accepted s0 j0" and L: "L = pl_history P" "pl_history Q = L" "pl_trash Q = pl_trash P"
    and a: "purge_at L s0 j0 j s"
  shows "writes_ok (purge_point L s0 j0) (resume_purge Q j) s"
    and "result_of (resume_purge Q j) s = Inr () \<Longrightarrow> settled L j0 (final_of (resume_purge Q j) s)"
    and "pl_rows_ok Q \<Longrightarrow> pl_docs_ok Q \<Longrightarrow> trash_list_strict (pl_trash P) (ps_disk s) = Inr es \<Longrightarrow> result_of (resume_purge Q j) s = Inr ()"
proof -
  let ?s1 = "final_of (sidecar_phase Q j) s"
  have rest: "writes_ok (purge_point L s0 j0) (andthen (active_phase Q j1) (\<lambda>j. andthen (recovery_phase Q j) (\<lambda>j.
        if pj_phase j \<noteq> ''complete'' then raise BadPhase else remove_journal (pj_slug j)))) ?s1 \<and>
      (result_of (resume_purge Q j) s = Inr () \<longrightarrow> settled L j0 (final_of (resume_purge Q j) s)) \<and>
      (\<forall>es. trash_list_strict (pl_trash P) (ps_disk s) = Inr es \<longrightarrow> result_of (resume_purge Q j) s = Inr ())"
    if r1: "result_of (sidecar_phase Q j) s = Inr j1" for j1
  proof -
    have a1: "purge_at L s0 j0 j1 ?s1" "pj_phase j1 \<noteq> ''sidecar''" "ps_disk ?s1 = ps_disk s"
      using sidecar_phase_at(2)[OF a r1] by auto
    let ?s2 = "final_of (active_phase Q j1) ?s1"
    obtain j2 where r2: "result_of (active_phase Q j1) ?s1 = Inr j2" and a2: "purge_at L s0 j0 j2 ?s2"
        "pj_phase j2 = ''recovery'' \<or> pj_phase j2 = ''complete''" "pt ?s2 = pt ?s1"
      using active_phase_at(2)[OF st L(1,2) a1(1,2)] by blast
    let ?s3 = "final_of (recovery_phase Q j2) ?s2"
    note rec = recovery_phase_at[OF st L a2(1,2)]
    have last: "writes_ok (purge_point L s0 j0) (remove_journal (pj_slug j3)) ?s3 \<and> settled L j0 (final_of (remove_journal (pj_slug j3)) ?s3)
        \<and> pj_phase j3 = ''complete''" if r3: "result_of (recovery_phase Q j2) ?s2 = Inr j3" for j3
    proof -
      have a3: "purge_at L s0 j0 j3 ?s3" "pj_phase j3 = ''complete''" using rec(2)[OF r3] by auto
      note same = later_parts[OF purge_atD(2)[OF a3(1)]]
      have set: "settled L j0 (ps_journals_update (AList.delete (pj_slug j3)) ?s3)"
        using purge_atD(3)[OF a3(1)] a3(2) same by (simp add: settled_def phase_done_def gone_defs delete_conv')
      have "map_of (ps_journals ?s3) (pj_slug j3) \<noteq> None" using a3(1) same by (simp add: purge_at_def)
      note run = remove_journal_there[OF this]
      show ?thesis using set a3(2) unfolding run purge_point_def by blast
    qed
    have w3: "writes_ok (purge_point L s0 j0) (andthen (recovery_phase Q j2) (\<lambda>j.
        if pj_phase j \<noteq> ''complete'' then raise BadPhase else remove_journal (pj_slug j))) ?s2"
      by (rule writes_andthen[OF rec(1)]) (use last in auto)
    have w2: "writes_ok (purge_point L s0 j0) (andthen (active_phase Q j1) (\<lambda>j. andthen (recovery_phase Q j) (\<lambda>j.
        if pj_phase j \<noteq> ''complete'' then raise BadPhase else remove_journal (pj_slug j)))) ?s1"
      by (rule writes_andthen[OF active_phase_at(1)[OF st L(1,2) a1(1,2)]]) (use r2 w3 in auto)
    have run: "result_of (resume_purge Q j) s = bind_err (result_of (recovery_phase Q j2) ?s2) (\<lambda>j3.
        if pj_phase j3 \<noteq> ''complete'' then Inl BadPhase else result_of (remove_journal (pj_slug j3)) ?s3)"
      by (simp add: resume_purge_def result_andthen r1 r2 result_if cong: if_cong)
    have fin: "final_of (resume_purge Q j) s = final_of (remove_journal (pj_slug j3)) ?s3"
      if "result_of (recovery_phase Q j2) ?s2 = Inr j3" "pj_phase j3 = ''complete''" for j3
      using that by (simp add: resume_purge_def final_andthen r1 r2)
    have removed: "result_of (remove_journal x) y = Inr ()" for x y by (simp add: remove_journal_def result_of_def act_runs)
    have "settled L j0 (final_of (resume_purge Q j) s)" if res: "result_of (resume_purge Q j) s = Inr ()"
    proof -
      obtain j3 where j3: "result_of (recovery_phase Q j2) ?s2 = Inr j3" using res unfolding run bind_err_Inr by blast
      then show ?thesis using last[OF j3] fin[OF j3] by simp
    qed
    moreover have "result_of (resume_purge Q j) s = Inr ()" if es: "trash_list_strict (pl_trash P) (ps_disk s) = Inr es" for es
    proof -
      have "trash_list_strict (pl_trash P) (ps_disk ?s2) = Inr es"
        using es listing_trash[of "ps_disk ?s2" "ps_disk s"] a1(3) a2(3) by simp
      then obtain j3 where j3: "result_of (recovery_phase Q j2) ?s2 = Inr j3" using rec(3) by blast
      then show ?thesis using last[OF j3] by (simp add: run removed)
    qed
    ultimately show ?thesis using w2 by blast
  qed
  show "writes_ok (purge_point L s0 j0) (resume_purge Q j) s"
    unfolding resume_purge_def by (rule writes_andthen[OF sidecar_phase_at(1)[OF a]]) (use rest in blast)
  show "settled L j0 (final_of (resume_purge Q j) s)" if res: "result_of (resume_purge Q j) s = Inr ()"
  proof -
    obtain j1 where "result_of (sidecar_phase Q j) s = Inr j1" using res unfolding resume_purge_def result_andthen bind_err_Inr by blast
    then show ?thesis using rest res by blast
  qed
  show "result_of (resume_purge Q j) s = Inr ()"
    if "pl_rows_ok Q" "pl_docs_ok Q" "trash_list_strict (pl_trash P) (ps_disk s) = Inr es"
    using sidecar_phase_at(3)[OF a that(1,2)] rest that(3) by blast
qed

end
