(* ===== verification/Dataset_Removal.thy ===== *)
theory Dataset_Removal
  imports Dataset_Resume
begin

text \<open>
  The properties of a dataset's removal over any number of attempts, each cut off after any of its writes:
  what is left can be removed by another attempt, except when the cut falls between the two files of a
  trash item or the plan took in trash from below a subdirectory; and whatever the journal file
  holds, nothing outside of the dataset and nothing that is not as recorded is removed.
\<close>

section \<open>Attempts\<close>

text \<open>Any number of attempts, each cut off after some write; the index may fail in any of them.\<close>

inductive purge_attempts :: "purge_lib \<Rightarrow> string \<Rightarrow> string \<Rightarrow> string \<Rightarrow> purge_state \<Rightarrow> purge_state \<Rightarrow> bool"
  for P slug rule accepted s0 where
  none: "purge_attempts P slug rule accepted s0 s0"
| again: "purge_attempts P slug rule accepted s0 s \<Longrightarrow>
    w \<in> set (snd (dataset_purge (P\<lparr>pl_rows_ok := a, pl_docs_ok := b\<rparr>) slug rule accepted s)) \<Longrightarrow>
    purge_attempts P slug rule accepted s0 w"

lemma dataset_purge_run:
  assumes "good_request slug rule"
  shows "dataset_purge Q slug rule accepted s =
     (case load_journal slug s of
        Inl e \<Rightarrow> (Inl e, [])
      | Inr (Some j) \<Rightarrow>
          (if pj_slug j \<noteq> slug \<or> pj_rule j \<noteq> rule then raise OtherDataset
           else if accepted \<noteq> [] \<and> pj_fingerprint j \<noteq> accepted then raise OtherFingerprint
           else if pj_status j = ''completed'' \<or> pj_phase j = ''complete'' then remove_journal slug
           else resume_purge Q j) s
      | Inr None \<Rightarrow>
          (case plan_purge Q slug rule accepted s of
             Inl e \<Rightarrow> (Inl e, [])
           | Inr j \<Rightarrow> andthen (write_journal j) (\<lambda>_. resume_purge Q j) s))"
  using assms by (auto simp: dataset_purge_def good_request_def Let_def look_andthen split: sum.split option.split)

lemma same_plan: "plan_purge (P\<lparr>pl_rows_ok := a, pl_docs_ok := b\<rparr>) slug rule accepted s = plan_purge P slug rule accepted s"
proof -
  have parts: "pl_history (P\<lparr>pl_rows_ok := a, pl_docs_ok := b\<rparr>) = pl_history P" "pl_trash (P\<lparr>pl_rows_ok := a, pl_docs_ok := b\<rparr>) = pl_trash P"
    "pl_handle (P\<lparr>pl_rows_ok := a, pl_docs_ok := b\<rparr>) = pl_handle P" by simp_all
  show ?thesis unfolding plan_purge_def parts ..
qed

lemma start_journal:
  assumes "purge_start P slug rule accepted s0 j"
  shows "pj_slug j = slug" "pj_rule j = rule" "accepted = [] \<or> pj_fingerprint j = accepted" "pj_phase j = ''sidecar''"
    "pj_status j = ''in_progress''" "\<exists>es. trash_list_strict (pl_trash P) (ps_disk s0) = Inr es"
    "good_request slug rule" "map_of (ps_journals s0) slug = None" "plan_purge P slug rule accepted s0 = Inr j"
    "load_journal slug s0 = Inr None"
proof -
  have p: "plan_purge P slug rule accepted s0 = Inr j" using assms by (simp add: purge_start_def)
  show "pj_slug j = slug" "pj_rule j = rule" "accepted = [] \<or> pj_fingerprint j = accepted" "pj_phase j = ''sidecar''"
    "pj_status j = ''in_progress''" "\<exists>es. trash_list_strict (pl_trash P) (ps_disk s0) = Inr es"
    by (rule plan_purge_Inr[OF p]; blast)+
  show "good_request slug rule" "map_of (ps_journals s0) slug = None" "plan_purge P slug rule accepted s0 = Inr j"
    using assms by (simp_all add: purge_start_def)
  then show "load_journal slug s0 = Inr None" by (simp add: load_journal_def)
qed

lemma begun_at:
  assumes st: "purge_start P slug rule accepted s0 j0" and L: "L = pl_history P"
  shows "purge_at L s0 j0 j0 (ps_journals_update (AList.update slug (JournalDoc j0)) s0)"
proof -
  obtain fs ds ts where f: "pj_paths j0 = fs @ ds" "list_all (file_rec (pl_history P) s0) fs"
    "ds = [] \<or> (\<exists>d. ds = [d] \<and> dir_rec slug s0 (pp_path ` set fs) d)"
    "list_all (trash_rec (pl_history P) (pl_trash P) s0) (pj_trash j0)"
    "clean_paths (journal_paths j0) = Inr ts" "strict_history (pl_history P) (ph s0)"
    "handle_rel slug \<in> pp_path ` set fs"
    by (rule start_facts[OF st])
  have l: "later j0 j0" by (simp add: later_def)
  show ?thesis using st f(6) start_journal(1,4,5)[OF st] l
    by (simp add: purge_at_def resumable_def phase_done_def L purge_start_def update_conv')
qed

lemma attempt_at:
  assumes st: "purge_start P slug rule accepted s0 j0" and L: "L = pl_history P" and a: "purge_at L s0 j0 j s"
  shows "dataset_purge Q slug rule accepted s = (if pj_phase j = ''complete'' then remove_journal slug s else resume_purge Q j s)"
proof -
  note sj = start_journal[OF st] and lp = later_parts[OF purge_atD(2)[OF a]]
  have load: "load_journal slug s = Inr (Some j)" using a sj(1) by (simp add: load_journal_def purge_at_def)
  have "pj_status j = ''completed'' \<or> pj_phase j = ''complete'' \<longleftrightarrow> pj_phase j = ''complete''"
    using purge_atD(3)[OF a] by (auto simp: phase_done_def)
  then show ?thesis using load sj(1,2,3) lp by (auto simp: dataset_purge_run[OF sj(7)])
qed

lemma attempt_complete:
  assumes st: "purge_start P slug rule accepted s0 j0" and L: "L = pl_history P" and a: "purge_at L s0 j0 j s"
    and c: "pj_phase j = ''complete''"
  shows "writes_ok (purge_point L s0 j0) (remove_journal slug) s" "settled L j0 (final_of (remove_journal slug) s)"
    "result_of (remove_journal slug) s = Inr ()"
proof -
  note lp = later_parts[OF purge_atD(2)[OF a]] and sj = start_journal(1)[OF st]
  have "map_of (ps_journals s) slug \<noteq> None" using a sj by (simp add: purge_at_def)
  note run = remove_journal_there[OF this]
  have "settled L j0 (ps_journals_update (AList.delete slug) s)"
    using purge_atD(3)[OF a] c lp sj by (simp add: settled_def phase_done_def gone_defs delete_conv')
  then show "writes_ok (purge_point L s0 j0) (remove_journal slug) s" "settled L j0 (final_of (remove_journal slug) s)"
    by (simp_all add: run purge_point_def)
  show "result_of (remove_journal slug) s = Inr ()" by (simp add: remove_journal_def result_of_def act_runs)
qed

lemma settled_refused:
  assumes st: "purge_start P slug rule accepted s0 j0" and s: "settled L j0 s"
  shows "snd (dataset_purge Q slug rule accepted s) = []"
proof -
  obtain fs ds ts where f: "pj_paths j0 = fs @ ds" "list_all (file_rec (pl_history P) s0) fs"
    "ds = [] \<or> (\<exists>d. ds = [d] \<and> dir_rec slug s0 (pp_path ` set fs) d)"
    "list_all (trash_rec (pl_history P) (pl_trash P) s0) (pj_trash j0)"
    "clean_paths (journal_paths j0) = Inr ts" "strict_history (pl_history P) (ph s0)"
    "handle_rel slug \<in> pp_path ` set fs"
    by (rule start_facts[OF st])
  note sj = start_journal[OF st]
  have "map_of (pv s) (handle_rel slug) = None" using s f(1,7) by (auto simp: settled_def files_gone_def)
  then have "\<exists>e. plan_purge Q slug rule accepted s = Inl e" by (simp add: plan_purge_def Let_def)
  moreover have "load_journal slug s = Inr None" using s sj(1) by (simp add: load_journal_def settled_def)
  ultimately show ?thesis by (auto simp: dataset_purge_run[OF sj(7)])
qed

lemma begun_run:
  assumes st: "purge_start P slug rule accepted s0 j0" and Q: "plan_purge Q slug rule accepted s0 = Inr j0"
  shows "dataset_purge Q slug rule accepted s0 = andthen (write_journal j0) (\<lambda>_. resume_purge Q j0) s0"
  using start_journal[OF st] Q by (simp add: dataset_purge_run)

lemma attempts_points:
  assumes st: "purge_start P slug rule accepted s0 j0" and "purge_attempts P slug rule accepted s0 s"
  shows "s = s0 \<or> purge_point (pl_history P) s0 j0 s"
  using assms(2)
proof induction
  case (again s w b a)
  let ?Q = "P\<lparr>pl_rows_ok := a, pl_docs_ok := b\<rparr>" and ?L = "pl_history P"
  have Q: "pl_history ?Q = ?L" "pl_trash ?Q = pl_trash P" by simp_all
  let ?I = "purge_point ?L s0 j0"
  have known: ?case if p: "purge_at ?L s0 j0 j s" for j
    using again.hyps(2) attempt_at[OF st refl p, of ?Q] attempt_complete(1)[OF st refl p] resume_at(1)[OF st refl Q p]
    by (auto simp: writes_ok_def split: if_splits)
  show ?case
  proof (cases "s = s0")
    case True
    let ?s1 = "ps_journals_update (AList.update slug (JournalDoc j0)) s0"
    have b1: "purge_at ?L s0 j0 j0 ?s1" by (rule begun_at[OF st refl])
    have "plan_purge ?Q slug rule accepted s0 = Inr j0" unfolding same_plan by (rule start_journal(9)[OF st])
    note run = begun_run[OF st this]
    have "writes_ok ?I (andthen (write_journal j0) (\<lambda>_. resume_purge ?Q j0)) s0"
      by (rule writes_andthen) (use b1 resume_at(1)[OF st refl Q b1] start_journal(1)[OF st] in \<open>auto simp: write_journal_def purge_point_def\<close>)
    then show ?thesis using again.hyps(2) True run by (auto simp: writes_ok_def)
  next
    case False
    then consider (at) j where "purge_at ?L s0 j0 j s" | (settled) "settled ?L j0 s" using again.IH by (auto simp: purge_point_def)
    then show ?thesis
    proof cases
      case settled
      then show ?thesis using again.hyps(2) settled_refused[OF st settled, of ?Q] by simp
    qed (rule known)
  qed
qed simp

lemma purge_resumes_facts:
  assumes st: "purge_start P slug rule accepted s0 j" and ok: "pl_rows_ok P" "pl_docs_ok P"
    and s: "purge_attempts P slug rule accepted s0 s" and es: "trash_list_strict (pl_trash P) (ps_disk s) = Inr es"
  shows "settled (pl_history P) j s \<or>
    result_of (dataset_purge P slug rule accepted) s = Inr () \<and> settled (pl_history P) j (final_of (dataset_purge P slug rule accepted) s)"
proof -
  let ?L = "pl_history P" and ?m = "dataset_purge P slug rule accepted"
  consider (start) "s = s0" | (at) j' where "purge_at ?L s0 j j' s" | (settled) "settled ?L j s"
    using attempts_points[OF st s] by (auto simp: purge_point_def)
  then show ?thesis
  proof cases
    case start
    let ?s1 = "ps_journals_update (AList.update slug (JournalDoc j)) s0"
    have b1: "purge_at ?L s0 j j ?s1" by (rule begun_at[OF st refl])
    have es1: "trash_list_strict (pl_trash P) (ps_disk ?s1) = Inr es" using es start by simp
    have r: "result_of (resume_purge P j) ?s1 = Inr ()" by (rule resume_at(3)[OF st refl refl refl b1 ok es1])
    have w: "result_of (write_journal j) s0 = Inr ()" "final_of (write_journal j) s0 = ?s1"
      using start_journal(1)[OF st] by (simp_all add: write_journal_def)
    have run: "result_of ?m s0 = result_of (resume_purge P j) ?s1" "final_of ?m s0 = final_of (resume_purge P j) ?s1"
      using begun_run[OF st start_journal(9)[OF st]] andthen_ok[OF w(1), of "\<lambda>_. resume_purge P j"] w(2)
      by (simp_all add: result_of_def final_of_def)
    show ?thesis unfolding start run using r resume_at(2)[OF st refl refl refl b1 r] by blast
  next
    case at
    show ?thesis
    proof (cases "pj_phase j' = ''complete''")
      case True
      have run: "result_of ?m s = result_of (remove_journal slug) s" "final_of ?m s = final_of (remove_journal slug) s"
        using attempt_at[OF st refl at, of P] True by (simp_all add: result_of_def final_of_def)
      show ?thesis unfolding run using attempt_complete(2,3)[OF st refl at True] by blast
    next
      case False
      have run: "result_of ?m s = result_of (resume_purge P j') s" "final_of ?m s = final_of (resume_purge P j') s"
        using attempt_at[OF st refl at, of P] False by (simp_all add: result_of_def final_of_def)
      have r: "result_of (resume_purge P j') s = Inr ()" by (rule resume_at(3)[OF st refl refl refl at ok es])
      show ?thesis unfolding run using r resume_at(2)[OF st refl refl refl at r] by blast
    qed
  qed simp
qed

section \<open>Between the two files of a trash item\<close>

lemma in_andthen:
  "w \<in> set (snd (m s)) \<Longrightarrow> w \<in> set (snd (andthen m f s))"
  "result_of m s = Inr x \<Longrightarrow> w \<in> set (snd (f x (final_of m s))) \<Longrightarrow> w \<in> set (snd (andthen m f s))"
  by (auto simp: andthen_def result_of_def final_of_def split: prod.split sum.split)

lemma in_attempt:
  "w \<in> set (snd (m s)) \<Longrightarrow> w \<in> set (snd (attempt P j m k s))"
  "result_of m s = Inr x \<Longrightarrow> w \<in> set (snd (k x (final_of m s))) \<Longrightarrow> w \<in> set (snd (attempt P j m k s))"
proof -
  show "w \<in> set (snd (attempt P j m k s))" if "w \<in> set (snd (m s))"
    unfolding attempt_def by (rule in_andthen(1)) (use that in \<open>simp add: caught_def split_beta\<close>)
  show "w \<in> set (snd (attempt P j m k s))" if "result_of m s = Inr x" "w \<in> set (snd (k x (final_of m s)))"
    unfolding attempt_def by (rule in_andthen(2)[where x = "Inr x"]) (use that in simp_all)
qed

lemma in_on_disk: "w \<in> set (snd (m (ps_disk s))) \<Longrightarrow> s\<lparr>ps_disk := w\<rparr> \<in> set (snd (on_disk m s))"
  by (simp add: on_disk_def within_simps)

definition half_removed :: "purge_lib \<Rightarrow> purge_state \<Rightarrow> purge_journal \<Rightarrow> purge_state \<Rightarrow> bool" where
  "half_removed P s0 j0 s \<longleftrightarrow> (\<exists>j. purge_at (pl_history P) s0 j0 j s \<and> pj_phase j = ''recovery'') \<and>
     (\<exists>t \<in> set (pj_trash j0). map_of (pt s) (pt_name t) = None \<and> map_of (pt s) (pt_name t @ meta_suffix) \<noteq> None)"

text \<open>The parts of the recovery phase up to the trash.\<close>

lemma recovery_prefix:
  assumes st: "purge_start P slug rule accepted s0 j0" and a: "purge_at (pl_history P) s0 j0 j s" and ph: "pj_phase j = ''recovery''"
  obtains s2 where "purge_at (pl_history P) s0 j0 j s2" "pt s2 = pt s"
    "result_of (recovery_phase P j) s =
       result_of (attempt P j (on_disk (purge_trash_entries (pl_trash P) (map (\<lambda>t. (pt_name t, pt_path t)) (pj_trash j))))
         (\<lambda>_. advance j ''complete'' ''completed'')) s2"
    "final_of (recovery_phase P j) s =
       final_of (attempt P j (on_disk (purge_trash_entries (pl_trash P) (map (\<lambda>t. (pt_name t, pt_path t)) (pj_trash j))))
         (\<lambda>_. advance j ''complete'' ''completed'')) s2"
    "set (snd (attempt P j (on_disk (purge_trash_entries (pl_trash P) (map (\<lambda>t. (pt_name t, pt_path t)) (pj_trash j))))
         (\<lambda>_. advance j ''complete'' ''completed'') s2)) \<subseteq> set (snd (recovery_phase P j s))"
proof -
  let ?L = "pl_history P" and ?m1 = "look (validate_trash (pl_history P) (pj_trash j)) :: unit purge_act"
  let ?m2 = "on_disk (on_history (purge_paths ?L (journal_paths j)))"
  obtain fs ds ts where f: "pj_paths j0 = fs @ ds" "list_all (file_rec (pl_history P) s0) fs"
    "ds = [] \<or> (\<exists>d. ds = [d] \<and> dir_rec slug s0 (pp_path ` set fs) d)"
    "list_all (trash_rec (pl_history P) (pl_trash P) s0) (pj_trash j0)"
    "clean_paths (journal_paths j0) = Inr ts" "strict_history (pl_history P) (ph s0)"
    "handle_rel slug \<in> pp_path ` set fs"
    by (rule start_facts[OF st])
  have rec: "list_all (trash_rec ?L (pl_trash P) s0) (pj_trash j)" and paths: "clean_paths (journal_paths j) = Inr ts"
    using f(4,5) purge_atD(6,7)[OF a] by simp_all
  have r: "resumable ?L s0 s" by (rule purge_atD(1)[OF a])
  have v: "result_of ?m1 s = Inr ()" using validate_trash_ok[OF r rec] by simp
  have g: "purgeable ?L (pv s) (ph s)" using r by (simp add: purgeable_def resumable_def)
  have h: "result_of ?m2 s = Inr ()" by (simp add: on_disk_simps on_history_simps purge_purgeable(1)[OF g paths])
  have k: "keeping (purge_at ?L s0 j0 j) ?m2" by (rule keeping_history) (simp add: ph)
  have step: "recovery_phase P j = attempt P j ?m1 (\<lambda>_. attempt P j ?m2 (\<lambda>_.
      attempt P j (on_disk (purge_trash_entries (pl_trash P) (map (\<lambda>t. (pt_name t, pt_path t)) (pj_trash j)))) (\<lambda>_. advance j ''complete'' ''completed'')))"
    by (simp add: recovery_phase_def ph)
  show thesis
  proof (rule that)
    show "purge_at ?L s0 j0 j (final_of ?m2 s)" by (rule keeping_final[OF k a])
    show "pt (final_of ?m2 s) = pt s" by (simp add: on_disk_simps on_history_simps)
    show "set (snd (attempt P j (on_disk (purge_trash_entries (pl_trash P) (map (\<lambda>t. (pt_name t, pt_path t)) (pj_trash j))))
         (\<lambda>_. advance j ''complete'' ''completed'') (final_of ?m2 s))) \<subseteq> set (snd (recovery_phase P j s))"
      unfolding step by (rule subsetI, rule in_attempt(2)[OF v], unfold look_simps(2), rule in_attempt(2)[OF h])
  qed (use v h in \<open>simp_all add: step attempt_ok\<close>)
qed

lemma half_unlisted:
  assumes "half_removed P s0 j0 s"
  shows "\<exists>e. trash_list_strict (pl_trash P) (ps_disk s) = Inl e"
proof -
  obtain j where a: "purge_at (pl_history P) s0 j0 j s" using assms unfolding half_removed_def by blast
  have "\<exists>t \<in> set (pj_trash j0). map_of (pt s) (pt_name t) = None \<and> map_of (pt s) (pt_name t @ meta_suffix) \<noteq> None"
    using assms unfolding half_removed_def by (rule conjunct2)
  then obtain t :: purge_trash where t: "map_of (pt s) (pt_name t) = None" "map_of (pt s) (pt_name t @ meta_suffix) \<noteq> None" by blast
  have dist: "distinct (map fst (pt s))" using purge_atD(1)[OF a] by (simp add: resumable_def)
  have "\<not> inventory (pl_trash P) (pt s)" using inventoryD(3) t by metis
  then show ?thesis using strict_list_iff[OF dist] by (cases "trash_list_strict (pl_trash P) (ps_disk s)") auto
qed

lemma half_stuck:
  assumes st: "purge_start P slug rule accepted s0 j0" and h: "half_removed P s0 j0 s"
  shows "(\<exists>e. result_of (dataset_purge P slug rule accepted) s = Inl e) \<and> half_removed P s0 j0 (final_of (dataset_purge P slug rule accepted) s)"
proof -
  let ?L = "pl_history P"
  obtain j where a: "purge_at ?L s0 j0 j s" and ph: "pj_phase j = ''recovery''" using h by (auto simp: half_removed_def)
  let ?m3 = "on_disk (purge_trash_entries (pl_trash P) (map (\<lambda>t. (pt_name t, pt_path t)) (pj_trash j)))"
  obtain s2 where s2: "purge_at ?L s0 j0 j s2" "pt s2 = pt s"
    "result_of (recovery_phase P j) s = result_of (attempt P j ?m3 (\<lambda>_. advance j ''complete'' ''completed'')) s2"
    "final_of (recovery_phase P j) s = final_of (attempt P j ?m3 (\<lambda>_. advance j ''complete'' ''completed'')) s2"
    by (rule recovery_prefix[OF st a ph])
  obtain e where "trash_list_strict (pl_trash P) (ps_disk s) = Inl e" using half_unlisted[OF h] by blast
  then have "trash_list_strict (pl_trash P) (ps_disk s2) = Inl e" using listing_trash[OF s2(2)] by simp
  then have m3: "result_of ?m3 s2 = Inl (PurgeTrash e)" "final_of ?m3 s2 = s2"
    by (simp_all add: on_disk_simps purge_trash_entries_def result_andthen final_andthen)
  have one: "result_of (sidecar_phase P j) s = Inr j" "final_of (sidecar_phase P j) s = s" "result_of (active_phase P j) s = Inr j" "final_of (active_phase P j) s = s"
    by (simp_all add: sidecar_phase_def active_phase_def ph)
  let ?s3 = "ps_journals_update (AList.update (pj_slug j) (JournalDoc (j\<lparr>pj_status := ''failed'', pj_error := pl_text P (PurgeTrash e)\<rparr>))) s2"
  have rec: "result_of (recovery_phase P j) s = Inl (PurgeTrash e)" "final_of (recovery_phase P j) s = ?s3"
    unfolding s2(3,4) using attempt_fail[OF m3(1), of P j] m3(2) by (simp_all add: fail_run(2))
  have run: "result_of (resume_purge P j) s = Inl (PurgeTrash e)" "final_of (resume_purge P j) s = ?s3"
    by (simp_all add: resume_purge_def result_andthen final_andthen one rec)
  have "dataset_purge P slug rule accepted s = resume_purge P j s" using attempt_at[OF st refl a, of P] ph by simp
  then have d: "result_of (dataset_purge P slug rule accepted) s = Inl (PurgeTrash e)"
      "final_of (dataset_purge P slug rule accepted) s = ?s3"
    using run by (simp_all add: result_of_def final_of_def)
  have "pt ?s3 = pt s" using s2(2) by simp
  then have "half_removed P s0 j0 (?s3)"
    using h fail_at[OF s2(1), of P "PurgeTrash e"] ph unfolding half_removed_def
    by (metis (no_types, lifting) purge_journal.select_convs(7) purge_journal.surjective purge_journal.update_convs(8,9))
  then show ?thesis unfolding d by blast
qed

lemma begun_in:
  assumes st: "purge_start P slug rule accepted s0 j0"
    and w: "w \<in> set (snd (resume_purge P j0 (ps_journals_update (AList.update slug (JournalDoc j0)) s0)))"
  shows "w \<in> set (snd (dataset_purge P slug rule accepted s0))"
  unfolding begun_run[OF st start_journal(9)[OF st]]
  by (rule in_andthen(2)[where x = "()"]) (use w start_journal(1)[OF st] in \<open>simp_all add: write_journal_def\<close>)

lemma half_reached:
  assumes st: "purge_start P slug rule accepted s0 j0" and ok: "pl_rows_ok P" "pl_docs_ok P" and some: "pj_trash j0 \<noteq> []"
  shows "\<exists>w \<in> set (snd (dataset_purge P slug rule accepted s0)). half_removed P s0 j0 w"
proof -
  let ?L = "pl_history P" and ?T = "pl_trash P"
  obtain t ts where t: "pj_trash j0 = t # ts" using some by (cases "pj_trash j0") auto
  let ?s1 = "ps_journals_update (AList.update slug (JournalDoc j0)) s0"
  have a1: "purge_at ?L s0 j0 j0 ?s1" by (rule begun_at[OF st refl])
  obtain j1 where r1: "result_of (sidecar_phase P j0) ?s1 = Inr j1" using sidecar_phase_at(3)[OF a1 ok] by blast
  let ?s2 = "final_of (sidecar_phase P j0) ?s1"
  have a2: "purge_at ?L s0 j0 j1 ?s2" "ps_disk ?s2 = ps_disk s0" using sidecar_phase_at(2)[OF a1 r1] by auto
  have p1: "pj_phase j1 = ''active''"
    using r1 start_journal(4)[OF st] ok by (auto simp: sidecar_phase_def attempt_ok)
  note af = active_files[OF st refl a2(1)]
  obtain j2 where r2: "result_of (active_phase P j1) ?s2 = Inr j2" and p2: "pj_phase j2 = ''recovery''"
    using p1 by (simp add: active_phase_def attempt_ok(1)[OF af(1)])
  let ?s3 = "final_of (active_phase P j1) ?s2"
  have a3: "purge_at ?L s0 j0 j2 ?s3" "pt ?s3 = pt s0"
    using active_phase_at(2)[OF st refl refl a2(1)] p1 r2 a2(2) by auto
  let ?w = "map (\<lambda>t. (pt_name t, pt_path t)) (pj_trash j2)"
  let ?m3 = "on_disk (purge_trash_entries ?T ?w)"
  obtain s4 where s4: "purge_at ?L s0 j0 j2 s4" "pt s4 = pt ?s3"
    "set (snd (attempt P j2 ?m3 (\<lambda>_. advance j2 ''complete'' ''completed'') s4)) \<subseteq> set (snd (recovery_phase P j2 ?s3))"
    by (rule recovery_prefix[OF st a3(1) p2])
  obtain es where es0: "trash_list_strict ?T (ps_disk s0) = Inr es" using start_journal(6)[OF st] by blast
  then have es: "trash_list_strict ?T (ps_disk s4) = Inr es" using listing_trash[of "ps_disk s4" "ps_disk s0"] s4(2) a3(2) by simp
  have dist: "distinct (map fst (pt s0))" and sort: "sort_ok (tl_sort ?T)"
    using st by (simp_all add: purge_start_def trash_lib_ok_def)
  obtain fs ds ps where f: "pj_paths j0 = fs @ ds" "list_all (file_rec (pl_history P) s0) fs"
    "ds = [] \<or> (\<exists>d. ds = [d] \<and> dir_rec slug s0 (pp_path ` set fs) d)"
    "list_all (trash_rec (pl_history P) (pl_trash P) s0) (pj_trash j0)"
    "clean_paths (journal_paths j0) = Inr ps" "strict_history (pl_history P) (ph s0)"
    "handle_rel slug \<in> pp_path ` set fs"
    by (rule start_facts[OF st])
  obtain c m e where rec: "map_of (pt s0) (pt_name t) = Some (Regular c)" "map_of (pt s0) (pt_name t @ meta_suffix) = Some (Regular m)"
      "\<not> has_suffix (pt_name t) meta_suffix" "strict_entry ?T (pt s0) (pt_name t) = Inr e" "te_path e = pt_path t"
    using f(4) t by (auto simp: trash_rec_def)
  have name: "te_name e = pt_name t" using rec(4) unfolding strict_entry_Inr by blast
  then have "e \<in> set es" using listed_iff[OF dist es0 sort, of e] rec(3,4) by simp
  then obtain e' where e': "find (\<lambda>x. te_name x = pt_name t) es = Some e'" using name by (cases "find (\<lambda>x. te_name x = pt_name t) es") (auto simp: find_None_iff)
  have "strict_entry ?T (pt s0) (te_name e') = Inr e'" "te_name e' = pt_name t"
    using find_in[OF e'] listed_iff[OF dist es0 sort, of e'] by auto
  then have "te_path e' = pt_path t" using rec(4,5) by simp
  let ?d = "dk_trash_update (AList.delete (pt_name t)) (ps_disk s4)"
  have there: "map_of (pt s4) (pt_name t) \<noteq> None" using rec(1) s4(2) a3(2) by simp
  have "?d \<in> set (snd (remove_trash (pt_name t) (ps_disk s4)))" using there by (simp add: remove_trash_def act_runs)
  then have "?d \<in> set (snd (remove_item (pt_name t) (ps_disk s4)))" unfolding remove_item_def by (rule in_andthen(1))
  then have "?d \<in> set (snd (purge_wanted es ((pt_name t, pt_path t) # map (\<lambda>t. (pt_name t, pt_path t)) ts) (ps_disk s4)))"
    using e' \<open>te_path e' = pt_path t\<close> by (simp add: in_andthen(1))
  moreover have "?w = (pt_name t, pt_path t) # map (\<lambda>t. (pt_name t, pt_path t)) ts" using t purge_atD(6)[OF a3(1)] by simp
  ultimately have "?d \<in> set (snd (purge_trash_entries ?T ?w (ps_disk s4)))"
    unfolding purge_trash_entries_def by (intro in_andthen(2)[where x = es]) (simp_all add: es)
  then have w3: "s4\<lparr>ps_disk := ?d\<rparr> \<in> set (snd (?m3 s4))" by (rule in_on_disk)
  let ?h = "s4\<lparr>ps_disk := ?d\<rparr>"
  have at: "purge_at ?L s0 j0 j2 ?h" using keeping_writes[OF keeping_trash s4(1) w3] .
  have "half_removed P s0 j0 ?h"
    unfolding half_removed_def
  proof
    show "\<exists>j. purge_at ?L s0 j0 j ?h \<and> pj_phase j = ''recovery''" using at p2 by blast
    have "map_of (pt ?h) (pt_name t) = None" "map_of (pt ?h) (pt_name t @ meta_suffix) \<noteq> None"
      using rec(2) s4(2) a3(2) by (simp_all add: delete_conv')
    then show "\<exists>t \<in> set (pj_trash j0). map_of (pt ?h) (pt_name t) = None \<and> map_of (pt ?h) (pt_name t @ meta_suffix) \<noteq> None"
      using t by (intro bexI[of _ t]) simp_all
  qed
  moreover have "?h \<in> set (snd (recovery_phase P j2 ?s3))" using s4(3) in_attempt(1)[where m = ?m3 and s = s4, OF w3] by blast
  then have "?h \<in> set (snd (resume_purge P j0 ?s1))"
    unfolding resume_purge_def by (intro in_andthen(2)[OF r1] in_andthen(2)[OF r2] in_andthen(1))
  then have "?h \<in> set (snd (dataset_purge P slug rule accepted s0))" by (rule begun_in[OF st])
  ultimately show ?thesis by blast
qed

lemma half_blocks_facts:
  assumes st: "purge_start P slug rule accepted s0 j" and ok: "pl_rows_ok P" "pl_docs_ok P" and some: "pj_trash j \<noteq> []"
  shows "\<exists>w \<in> set (snd (dataset_purge P slug rule accepted s0)). \<forall>n.
     \<exists>e. result_of (dataset_purge P slug rule accepted) ((final_of (dataset_purge P slug rule accepted) ^^ n) w) = Inl e"
proof -
  obtain w where w: "w \<in> set (snd (dataset_purge P slug rule accepted s0))" "half_removed P s0 j w"
    using half_reached[OF assms] by blast
  have "half_removed P s0 j ((final_of (dataset_purge P slug rule accepted) ^^ n) w)" for n
    by (induction n) (use w(2) half_stuck[OF st] in auto)
  then show ?thesis using w(1) half_stuck[OF st] by blast
qed


section \<open>What a removal can touch\<close>

definition in_dataset :: "string \<Rightarrow> string \<Rightarrow> bool" where
  "in_dataset slug p \<longleftrightarrow> p = handle_rel slug \<or> p = raw_dir slug \<or>
     (\<exists>n. p = raw_prefix slug @ n \<and> n \<noteq> [] \<and> CHR ''/'' \<notin> set n)"

text \<open>The records an attempt goes by: those of its journal, whoever wrote it, or of a new plan.\<close>

definition purge_records :: "purge_lib \<Rightarrow> string \<Rightarrow> string \<Rightarrow> string \<Rightarrow> purge_state \<Rightarrow> purge_path list" where
  "purge_records P slug rule accepted s =
     (case load_journal slug s of
        Inr (Some j) \<Rightarrow> pj_paths j
      | Inr None \<Rightarrow> (case plan_purge P slug rule accepted s of Inr j \<Rightarrow> pj_paths j | Inl _ \<Rightarrow> [])
      | Inl _ \<Rightarrow> [])"

definition as_recorded :: "history_lib \<Rightarrow> purge_state \<Rightarrow> purge_path \<Rightarrow> bool" where
  "as_recorded L s r \<longleftrightarrow> ps_ident s (pp_path r) = pp_ident r \<and>
     (\<forall>c. map_of (pv s) (pp_path r) = Some (Regular c) \<longrightarrow> purge_hash L c = pp_hash r)"

definition spared :: "history_lib \<Rightarrow> purge_path list \<Rightarrow> purge_state \<Rightarrow> purge_state \<Rightarrow> bool" where
  "spared L rs s w \<longleftrightarrow> ps_ident w = ps_ident s \<and> (\<forall>p. map_of (pv w) p = map_of (pv s) p \<or>
     map_of (pv w) p = None \<and> (\<exists>r \<in> set rs. pp_path r = p \<and> as_recorded L s r))"

lemma spared_same: "spared L rs s w \<Longrightarrow> pv w' = pv w \<Longrightarrow> ps_ident w' = ps_ident w \<Longrightarrow> spared L rs s w'"
  by (simp add: spared_def)

lemma spared_index: "keeping (spared L rs s) (put (ps_rows_update f))" "keeping (spared L rs s) (put (ps_docs_update g))"
  "keeping (spared L rs s) (put (ps_journals_update h))"
  by (rule keeping_put, erule spared_same; simp)+

lemma spared_remove:
  assumes "r \<in> set rs" and kind: "pp_kind r = ''file'' \<or> pp_kind r = ''dir''"
  shows "keeping (spared L rs s) (remove_recorded L r)"
proof (rule keepingI)
  fix w assume w: "spared L rs s w"
  have "spared L rs s x" if x: "x \<in> set (snd (remove_recorded L r w))" for x
  proof -
    have c: "check_recorded L r w = Inr True" and "\<exists>v. remove_path (pp_path r) (pv w) = Inr v \<and> x = w\<lparr>ps_disk := vault_update (\<lambda>_. v) (ps_disk w)\<rparr>"
      using x by (auto simp: remove_recorded_def look_andthen act_runs split: sum.splits if_splits file_error.splits)
    then obtain v where v: "remove_path (pp_path r) (pv w) = Inr v" "x = w\<lparr>ps_disk := vault_update (\<lambda>_. v) (ps_disk w)\<rparr>" by blast
    have m: "map_of (pv x) = (map_of (pv w))(pp_path r := None)" "ps_ident x = ps_ident w"
      using remove_path_Inr[OF v(1)] by (simp_all add: v(2) vault_update_def)
    have "map_of (pv w) (pp_path r) \<noteq> None" using c by (cases "map_of (pv w) (pp_path r)") (auto simp: check_recorded_def split: if_splits)
    then have same: "map_of (pv s) (pp_path r) = map_of (pv w) (pp_path r)" using w unfolding spared_def by metis
    have "as_recorded L s r"
      using c same w kind by (auto simp: check_recorded_def as_recorded_def spared_def split: option.splits vault_file.splits if_splits)
    then show ?thesis using w assms(1) unfolding spared_def m by auto
  qed
  then show "writes_ok (spared L rs s) (remove_recorded L r) w" by (simp add: writes_ok_def)
qed

lemma vault_purge_one: "keeping (\<lambda>h. hs_vault h = v) (purge_manifest ts x)" "keeping (\<lambda>h. hs_vault h = v) (purge_checkpoint ts y)"
  by (auto simp: purge_manifest_def purge_checkpoint_def save_checkpoint_def Let_def keeping_reads split: prod.split intro!: keeping_put)

lemma vault_purge: "keeping (\<lambda>h. hs_vault h = v) (purge_paths L rels)"
proof -
  have c: "keeping (\<lambda>h. hs_vault h = v) (collect_objects refs)" for refs
  proof -
    have "keeping (\<lambda>h. hs_vault h = v) (collect_one refs x)" for x
      by (cases x) (auto simp: collect_one_def keeping_reads intro!: keeping_put)
    then have "keeping (\<lambda>h. hs_vault h = v) (each (collect_one refs) os)" for os by (rule keeping_each)
    then show ?thesis by (simp add: keeping_def collect_objects_each)
  qed
  show ?thesis unfolding purge_paths_def
    by (intro keeping_andthen keeping_reads keeping_each vault_purge_one c)
qed

lemma history_wanted: "keeping (\<lambda>d. dk_history d = h) (purge_wanted current wanted)"
proof (induction wanted)
  case (Cons w wanted)
  have k: "keeping (\<lambda>d. dk_history d = h) (remove_trash n)" for n
    by (rule keepingI) (auto simp: remove_trash_def writes_ok_def act_runs)
  obtain n p where w: "w = (n, p)" by (cases w)
  show ?case
    by (cases "find (\<lambda>e. te_name e = n) current")
      (simp_all add: w Cons keeping_andthen keeping_reads k remove_item_def)
qed (simp add: keeping_reads)

lemma spared_disk:
  "keeping (spared L rs s) (on_disk (on_history (purge_paths K rels)))"
  "keeping (spared L rs s) (on_disk (purge_trash_entries T wanted))"
proof -
  show "keeping (spared L rs s) (on_disk (on_history (purge_paths K rels)))"
    unfolding on_disk_def on_history_def
  proof (rule keeping_within[where K = "\<lambda>t d. vault_of d = pv t"], intro conjI allI impI)
    fix t
    show "keeping (\<lambda>d. vault_of d = pv t) (within dk_history (\<lambda>h d. d\<lparr>dk_history := h\<rparr>) TrashHistory (purge_paths K rels))"
      by (rule keeping_within[where K = "\<lambda>_ h. hs_vault h = pv t"]) (simp add: vault_purge)
  qed (auto intro: spared_same)
  show "keeping (spared L rs s) (on_disk (purge_trash_entries T wanted))"
    unfolding on_disk_def
  proof (rule keeping_within[where K = "\<lambda>t d. dk_history d = ph t"], intro conjI allI impI)
    fix t
    show "keeping (\<lambda>d. dk_history d = ph t) (purge_trash_entries T wanted)"
      unfolding purge_trash_entries_def by (rule keeping_andthen[OF keeping_reads(3) history_wanted])
  qed (auto intro: spared_same)
qed

lemma spared_attempt:
  assumes "keeping (spared L rs s) m" and "\<And>x. keeping (spared L rs s) (k x)"
  shows "keeping (spared L rs s) (attempt P j m k)"
proof -
  have "keeping (spared L rs s) (case r of Inl e \<Rightarrow> fail_purge P j e | Inr x \<Rightarrow> k x)" for r
    using assms(2) by (cases r) (simp_all add: fail_purge_def write_journal_def keeping_andthen keeping_reads spared_index)
  then show ?thesis unfolding attempt_def by (intro keeping_andthen keeping_caught assms(1))
qed

lemma phase_paths:
  "result_of (sidecar_phase P j) s = Inr j' \<Longrightarrow> pj_paths j' = pj_paths j"
  "result_of (active_phase P j) s = Inr j' \<Longrightarrow> pj_paths j' = pj_paths j"
  by (auto simp: sidecar_phase_def active_phase_def elim!: attempt_Inr split: if_splits)

lemma spared_phases:
  "keeping (spared L rs s) (sidecar_phase P j)" "keeping (spared L rs s) (recovery_phase P j)"
  "keeping (spared L rs s) (remove_journal slug)"
proof -
  have adv: "keeping (spared L rs s) (advance i f st)" for i f st
    by (simp add: advance_def write_journal_def Let_def keeping_andthen keeping_reads spared_index)
  show "keeping (spared L rs s) (sidecar_phase P j)" "keeping (spared L rs s) (recovery_phase P j)"
    by (auto simp: sidecar_phase_def recovery_phase_def intro!: spared_attempt spared_index spared_disk keeping_reads adv)
  show "keeping (spared L rs s) (remove_journal slug)"
  proof (rule keepingI)
    fix w assume "spared L rs s w"
    then show "writes_ok (spared L rs s) (remove_journal slug) w"
      by (auto simp: remove_journal_def writes_ok_def act_runs intro: spared_same)
  qed
qed

lemma spared_active:
  assumes "\<forall>r \<in> set (pj_paths j). pp_kind r = ''file'' \<or> pp_kind r = ''dir''"
  shows "keeping (spared (pl_history P) (pj_paths j) s) (active_phase P j)"
proof -
  have adv: "keeping (spared L rs s) (advance i f st)" for i f st L rs
    by (simp add: advance_def write_journal_def Let_def keeping_andthen keeping_reads spared_index)
  have "keeping (spared (pl_history P) (pj_paths j) s) (each (remove_recorded (pl_history P)) (pj_paths j))"
    by (rule keeping_each_in) (use assms in \<open>auto intro: spared_remove\<close>)
  then show ?thesis by (auto simp: active_phase_def intro!: spared_attempt keeping_reads adv)
qed

lemma spared_resume:
  assumes "\<forall>r \<in> set (pj_paths j). pp_kind r = ''file'' \<or> pp_kind r = ''dir''"
  shows "keeping (spared (pl_history P) (pj_paths j) s) (resume_purge P j)"
proof (rule keepingI)
  fix w assume w: "spared (pl_history P) (pj_paths j) s w"
  let ?I = "spared (pl_history P) (pj_paths j) s"
  show "writes_ok ?I (resume_purge P j) w"
    unfolding resume_purge_def
  proof (rule writes_andthen[OF writes_of_keeping[OF spared_phases(1) w]])
    fix j1 assume r1: "result_of (sidecar_phase P j) w = Inr j1"
    let ?w1 = "final_of (sidecar_phase P j) w"
    have w1: "?I ?w1" by (rule keeping_final[OF spared_phases(1) w])
    have k: "keeping ?I (active_phase P j1)" using spared_active[of j1] phase_paths(1)[OF r1] assms by simp
    show "writes_ok ?I (andthen (active_phase P j1) (\<lambda>j. andthen (recovery_phase P j) (\<lambda>j.
        if pj_phase j \<noteq> ''complete'' then raise BadPhase else remove_journal (pj_slug j)))) ?w1"
      by (rule writes_of_keeping[where I = ?I and s = ?w1, OF _ w1]) (auto intro!: keeping_andthen k spared_phases keeping_reads)
  qed
qed

lemma raw_records_inside:
  assumes "raw_records L slug s ns = Inr (ps, rs)" and "\<forall>n \<in> set ns. n \<noteq> [] \<and> CHR ''/'' \<notin> set n" and "r \<in> set ps"
  shows "in_dataset slug (pp_path r) \<and> pp_kind r = ''file''"
proof -
  note f = raw_records_Inr[OF assms(1)]
  have "pp_path r \<in> (\<lambda>n. raw_prefix slug @ n) ` set ns"
    using arg_cong[where f = set, OF conjunct1[OF f]] assms(3) by auto
  then have "in_dataset slug (pp_path r)" using assms(2) by (auto simp: in_dataset_def)
  moreover have "pp_kind r = ''file''" using f assms(3) by (auto simp: list_all_iff file_rec_def)
  ultimately show ?thesis by blast
qed

lemma plan_inside:
  assumes "plan_purge P slug rule accepted s = Inr j" and "r \<in> set (pj_paths j)"
  shows "in_dataset slug (pp_path r) \<and> (pp_kind r = ''file'' \<or> pp_kind r = ''dir'')"
proof -
  obtain c ps rs where p: "plan_raw (pl_history P) slug s = Inr (ps, rs)"
    "pj_paths j = \<lparr>pp_path = handle_rel slug, pp_kind = ''file'', pp_ident = ps_ident s (handle_rel slug), pp_hash = purge_hash (pl_history P) c\<rparr> # ps"
    by (rule plan_purge_Inr[OF assms(1)])
  have "in_dataset slug (pp_path r) \<and> (pp_kind r = ''file'' \<or> pp_kind r = ''dir'')" if r: "r \<in> set ps"
  proof (cases "map_of (pv s) (raw_dir slug)")
    case None
    then show ?thesis using p(1) r by (simp add: plan_raw_def)
  next
    case (Some f)
    then have "f = Directory" using p(1) by (cases f) (auto simp: plan_raw_def)
    then obtain fs rs' where q: "raw_records (pl_history P) slug s (raw_names slug s) = Inr (fs, rs')"
        "ps = fs @ [\<lparr>pp_path = raw_dir slug, pp_kind = ''dir'', pp_ident = ps_ident s (raw_dir slug), pp_hash = []\<rparr>]"
      using p(1) Some by (auto simp: plan_raw_def bind_err_Inr)
    have "\<forall>n \<in> set (raw_names slug s). n \<noteq> [] \<and> CHR ''/'' \<notin> set n" by (simp only: in_raw_names Ball_def) blast
    then show ?thesis using raw_records_inside[OF q(1)] r q(2) by (auto simp: in_dataset_def)
  qed
  then show ?thesis using assms(2) p(2) by (auto simp: in_dataset_def)
qed

lemma valid_inside:
  assumes "valid_path_record slug r"
  shows "in_dataset slug (pp_path r) \<and> (pp_kind r = ''file'' \<or> pp_kind r = ''dir'')"
proof -
  have "pp_path r = raw_prefix slug @ trim_prefix (pp_path r) (raw_prefix slug)" if "has_prefix (pp_path r) (raw_prefix slug)"
    using that by (metis append_take_drop_id has_prefix_def trim_prefix_append)
  then show ?thesis using assms by (auto simp: valid_path_record_def in_dataset_def split: if_splits)
qed

lemma stays_within_facts:
  assumes w: "w \<in> set (snd (dataset_purge P slug0 rule0 accepted s))" and c: "map_of (pv w) p \<noteq> map_of (pv s) p"
  shows "map_of (pv w) p = None \<and> in_dataset (trim_space slug0) p \<and>
    (\<exists>r \<in> set (purge_records P (trim_space slug0) (trim_space rule0) accepted s). pp_path r = p \<and> as_recorded (pl_history P) s r)"
proof -
  let ?slug = "trim_space slug0" and ?rule = "trim_space rule0"
  have key: ?thesis if rs: "purge_records P ?slug ?rule accepted s = pj_paths j" and sp: "spared (pl_history P) (pj_paths j) s w"
    and ins: "\<And>r. r \<in> set (pj_paths j) \<Longrightarrow> in_dataset ?slug (pp_path r)" for j
    using sp c ins unfolding rs spared_def by metis
  have kept: "spared (pl_history P) rs s w"
    if "keeping (spared (pl_history P) rs s) m" "w \<in> set (snd (m s))" for rs and m :: "unit purge_act"
    by (rule keeping_writes[where m = m and s = s]) (use that in \<open>simp_all add: spared_def[of _ _ s s]\<close>)
  show ?thesis
  proof (cases "load_journal ?slug s")
    case (Inl e)
    then show ?thesis using w by (auto simp: dataset_purge_def Let_def look_andthen act_runs split: if_splits)
  next
    case (Inr k)
    show ?thesis
    proof (cases k)
      case (Some j)
      have v: "valid_journal ?slug j" using Inr Some by (auto simp: load_journal_def split: option.splits journal_doc.splits if_splits)
      have ins: "in_dataset ?slug (pp_path r) \<and> (pp_kind r = ''file'' \<or> pp_kind r = ''dir'')" if "r \<in> set (pj_paths j)" for r
        using v that valid_inside by (auto simp: valid_journal_def list_all_iff)
      have "keeping (spared (pl_history P) (pj_paths j) s) (resume_purge P j)" by (rule spared_resume) (use ins in blast)
      then have "spared (pl_history P) (pj_paths j) s w"
        using w Inr Some kept[of "pj_paths j" "resume_purge P j"] kept[OF spared_phases(3)[of "pl_history P" "pj_paths j" s ?slug]]
        by (auto simp: dataset_purge_def Let_def look_andthen act_runs split: if_splits)
      then show ?thesis using key[of j] ins Inr Some by (simp add: purge_records_def)
    next
      case None
      obtain j where j: "plan_purge P ?slug ?rule accepted s = Inr j"
        using w Inr None by (auto simp: dataset_purge_def Let_def look_andthen act_runs split: if_splits sum.splits)
      have "keeping (spared (pl_history P) (pj_paths j) s) (andthen (write_journal j) (\<lambda>_. resume_purge P j))"
        unfolding write_journal_def by (intro keeping_andthen spared_index spared_resume) (use plan_inside[OF j] in blast)
      then have "spared (pl_history P) (pj_paths j) s w"
        using w Inr None j kept[of "pj_paths j" "andthen (write_journal j) (\<lambda>_. resume_purge P j)"]
        by (auto simp: dataset_purge_def Let_def look_andthen act_runs split: if_splits)
      then show ?thesis using key[of j] plan_inside[OF j] Inr None j by (simp add: purge_records_def)
    qed
  qed
qed

text \<open>The state right after the journal of a plan is written, and what a journal that does not load does.\<close>

definition with_journal :: "string \<Rightarrow> purge_journal \<Rightarrow> purge_state \<Rightarrow> purge_state" where
  "with_journal slug j = ps_journals_update (AList.update slug (JournalDoc j))"

lemma load_with_journal: "load_journal slug (with_journal slug j s) = (if valid_journal slug j then Inr (Some j) else Inl BadJournal)"
  by (simp add: load_journal_def with_journal_def update_conv')

lemma unloadable_facts:
  assumes g: "good_request slug rule" and l: "load_journal slug s = Inr None" and p: "plan_purge P slug rule accepted s = Inr j"
    and v: "\<not> valid_journal slug j"
  shows "with_journal slug j s \<in> set (snd (dataset_purge P slug rule accepted s)) \<and>
    (\<forall>Q accepted'. dataset_purge Q slug rule accepted' (with_journal slug j s) = (Inl BadJournal, []))"
proof -
  have slug: "pj_slug j = slug" by (rule plan_purge_Inr[OF p])
  have "with_journal slug j s \<in> set (snd (dataset_purge P slug rule accepted s))"
    unfolding dataset_purge_run[OF g] l p option.case sum.case
    by (rule in_andthen(1)) (simp add: write_journal_def slug with_journal_def)
  then show ?thesis
    using load_with_journal[of slug j s] v by (simp add: dataset_purge_run[OF g])
qed

lemma deep_trash_facts:
  assumes g: "good_request slug rule" and l: "load_journal slug s = Inr None" and p: "plan_purge P slug rule accepted s = Inr j"
    and t: "t \<in> set (pj_trash j)" "pt_path t = raw_prefix slug @ r" "CHR ''/'' \<in> set r"
  shows "\<exists>w \<in> set (snd (dataset_purge P slug rule accepted s)). \<forall>Q accepted'.
    dataset_purge Q slug rule accepted' w = (Inl BadJournal, [])"
proof -
  have "handle_rel slug \<noteq> raw_prefix slug @ r" by (simp add: handle_rel_def raw_prefix_def raw_dir_def)
  then have "\<not> valid_trash_record slug t" using t(2,3) by (simp add: valid_trash_record_def)
  then have "\<not> valid_journal slug j" using t(1) by (auto simp: valid_journal_def list_all_iff)
  from unloadable_facts[OF g l p this] show ?thesis by blast
qed

section \<open>Properties\<close>

text \<open>A removal about to begin: its plan succeeds and there is no journal yet.\<close>

definition planned_purge :: "purge_lib \<Rightarrow> string \<Rightarrow> string \<Rightarrow> string \<Rightarrow> purge_state \<Rightarrow> purge_journal \<Rightarrow> bool" where
  "planned_purge P slug rule accepted s j \<longleftrightarrow> good_request slug rule \<and> plan_purge P slug rule accepted s = Inr j \<and>
     map_of (ps_journals s) slug = None \<and> vault_tree (pv s) \<and> distinct (map fst (pt s)) \<and>
     store_ok (pl_history P) (ph s) \<and> trash_lib_ok (pl_trash P)"

lemma planned_start: "purge_start P slug rule accepted s j \<longleftrightarrow> planned_purge P slug rule accepted s j \<and> valid_journal slug j"
  unfolding purge_start_def planned_purge_def by blast

text \<open>
  C6: The removal of a dataset resumes, exactly when the journal its plan writes can be loaded again (which a plan
  with trash from below a subdirectory of the raw directory, or with a backslash in its name, prevents, see C25): then
  after any number of attempts, each cut off after any of its writes
  (the journal, a row, a document, a file, a manifest, a checkpoint, a blob, a file of the trash) or failed
  because the index did, either all of the dataset is gone, or one more attempt, if the index answers and the strict listing
  accepts the trash, succeeds and leaves nothing: no rows, none of the recorded files, no version of them, no
  trash, no journal. Otherwise an attempt cut off right after it wrote the journal makes every later one
  fail without a write.
\<close>
theorem dataset_purge_resumes:
  assumes "planned_purge P slug rule accepted s0 j" and "pl_rows_ok P" and "pl_docs_ok P"
    and "purge_attempts P slug rule accepted s0 s" and "trash_list_strict (pl_trash P) (ps_disk s) = Inr es"
  shows "if load_journal slug (with_journal slug j s0) = Inr (Some j)
    then settled (pl_history P) j s \<or>
      result_of (dataset_purge P slug rule accepted) s = Inr () \<and> settled (pl_history P) j (final_of (dataset_purge P slug rule accepted) s)
    else with_journal slug j s0 \<in> set (snd (dataset_purge P slug rule accepted s0)) \<and>
      (\<forall>Q accepted'. dataset_purge Q slug rule accepted' (with_journal slug j s0) = (Inl BadJournal, []))"
proof (cases "valid_journal slug j")
  case True
  then have "purge_start P slug rule accepted s0 j" using assms(1) by (simp add: planned_start)
  from purge_resumes_facts[OF this assms(2-)] show ?thesis by (simp add: load_with_journal True)
next
  case False
  have "good_request slug rule" "load_journal slug s0 = Inr None" "plan_purge P slug rule accepted s0 = Inr j"
    using assms(1) by (simp_all add: planned_purge_def load_journal_def)
  from unloadable_facts[OF this False] show ?thesis by (simp add: load_with_journal False)
qed

text \<open>
  C24: A removal cut off between the two files of a trash item cannot be finished: when the plan records
  trash, there is a write after which, however often it is tried again, every attempt fails, because
  the strict listing refuses metadata without its payload.
\<close>
theorem half_removed_trash_blocks:
  assumes "purge_start P slug rule accepted s0 j" and "pl_rows_ok P" and "pl_docs_ok P" and "pj_trash j \<noteq> []"
  shows "\<exists>w \<in> set (snd (dataset_purge P slug rule accepted s0)). \<forall>n.
     \<exists>e. result_of (dataset_purge P slug rule accepted) ((final_of (dataset_purge P slug rule accepted) ^^ n) w) = Inl e"
  by (rule half_blocks_facts[OF assms])

text \<open>
  C9: A removal touches nothing else, whatever its journal file holds: after any write of an attempt, a
  path of the vault that is not as it was has been removed, is the dataset's handle, its raw directory or a direct
  child of that, and was recorded (in the journal, or in the plan made now) with the identity and, for a
  file, the content hash it had.
\<close>
theorem dataset_purge_stays_within:
  assumes "w \<in> set (snd (dataset_purge P slug rule accepted s))" and "map_of (pv w) p \<noteq> map_of (pv s) p"
  shows "map_of (pv w) p = None \<and> in_dataset (trim_space slug) p \<and>
    (\<exists>r \<in> set (purge_records P (trim_space slug) (trim_space rule) accepted s). pp_path r = p \<and> as_recorded (pl_history P) s r)"
  by (rule stays_within_facts[OF assms])

text \<open>
  C25: Trash from below a subdirectory of the raw directory makes the journal unreadable: the plan takes it in,
  but loading the journal refuses its path, so when the attempt is cut off right after the journal is written,
  every later attempt fails and removes nothing.
\<close>
theorem deep_trash_unloadable:
  assumes "good_request slug rule" and "load_journal slug s = Inr None" and "plan_purge P slug rule accepted s = Inr j"
    and "t \<in> set (pj_trash j)" and "pt_path t = raw_prefix slug @ r" and "CHR ''/'' \<in> set r"
  shows "\<exists>w \<in> set (snd (dataset_purge P slug rule accepted s)). \<forall>Q accepted'.
    dataset_purge Q slug rule accepted' w = (Inl BadJournal, [])"
  by (rule deep_trash_facts[OF assms])


section \<open>An instance\<close>

text \<open>A dataset with one raw file, and in the trash a file that was at a path \<open>p\<close>.\<close>

definition purge_P :: purge_lib where
  "purge_P = \<lparr>pl_history = hist_L, pl_trash = trash_T, pl_handle = (\<lambda>_. Some (''x'', ''rule'')), pl_rows_ok = True, pl_docs_ok = True,
     pl_text = (\<lambda>_. ''failed'')\<rparr>"

definition item_at :: "string \<Rightarrow> trash_entry" where
  "item_at p = \<lparr>te_name = ''b'', te_path = p, te_deleted = 40, te_size = 3\<rparr>"

definition vault_x :: vault_files where
  "vault_x = [(''datasets'', Directory), (''datasets/x.md'', Regular ''handle''), (''datasets/x'', Directory), (''datasets/x/a.csv'', Regular ''rows'')]"

definition items_at :: "string \<Rightarrow> vault_files" where
  "items_at p = [(''b'', Regular ''old''), (''b'' @ meta_suffix, Regular (tl_encode trash_T (item_at p)))]"

definition purge_from :: "string \<Rightarrow> purge_state" where
  "purge_from p = \<lparr>ps_disk = \<lparr>dk_history = hs_vault_update (\<lambda>_. vault_x) hist_0, dk_trash = items_at p\<rparr>,
     ps_ident = (\<lambda>_. ''1:2''), ps_trash_ident = (\<lambda>_. ''1:3''), ps_rows = [''x''], ps_docs = [''datasets/x.md''], ps_journals = []\<rparr>"

definition record_at :: "string \<Rightarrow> purge_trash" where
  "record_at p = \<lparr>pt_name = ''b'', pt_path = p, pt_payload_ident = ''1:3'', pt_payload_hash = purge_hash hist_L ''old'',
     pt_meta_ident = ''1:3'', pt_meta_hash = purge_hash hist_L (tl_encode trash_T (item_at p))\<rparr>"

definition journal_from :: "string \<Rightarrow> purge_journal" where
  "journal_from p = \<lparr>pj_version = 1, pj_slug = ''x'', pj_rule = ''rule'',
     pj_fingerprint = fingerprint (hl_sha hist_L) ''handle'' [\<lparr>rs_path = ''datasets/x/a.csv'', rs_data = ''rows''\<rparr>],
     pj_paths = [\<lparr>pp_path = ''datasets/x.md'', pp_kind = ''file'', pp_ident = ''1:2'', pp_hash = purge_hash hist_L ''handle''\<rparr>,
       \<lparr>pp_path = ''datasets/x/a.csv'', pp_kind = ''file'', pp_ident = ''1:2'', pp_hash = purge_hash hist_L ''rows''\<rparr>,
       \<lparr>pp_path = ''datasets/x'', pp_kind = ''dir'', pp_ident = ''1:2'', pp_hash = []\<rparr>],
     pj_trash = [record_at p], pj_phase = ''sidecar'', pj_status = ''in_progress'', pj_error = []\<rparr>"

lemma clean_x: "clean_path ''datasets/x.md'' = Some ''datasets/x.md''" "clean_path ''datasets/x/a.csv'' = Some ''datasets/x/a.csv''"
  "clean_path ''datasets/x'' = Some ''datasets/x''"
  by code_simp+

lemma raw_x: "raw_prefix ''x'' = ''datasets/x/''" "raw_dir ''x'' = ''datasets/x''" "handle_rel ''x'' = ''datasets/x.md''"
  by code_simp+

lemma vault_x_names: "raw_names ''x'' (purge_from p) = [''a.csv'']"
  by (simp add: raw_names_def purge_from_def vault_x_def raw_x has_prefix_def trim_prefix_def)

lemma raw_plan_x: "plan_raw hist_L ''x'' (purge_from p) = Inr
   ([\<lparr>pp_path = ''datasets/x/a.csv'', pp_kind = ''file'', pp_ident = ''1:2'', pp_hash = purge_hash hist_L ''rows''\<rparr>,
     \<lparr>pp_path = ''datasets/x'', pp_kind = ''dir'', pp_ident = ''1:2'', pp_hash = []\<rparr>],
    [\<lparr>rs_path = ''datasets/x/a.csv'', rs_data = ''rows''\<rparr>])"
proof -
  have csv: "go_fold (path_ext ''a.csv'') = ''.csv''" by code_simp
  show ?thesis unfolding plan_raw_def vault_x_names by (simp add: purge_from_def vault_x_def raw_x csv Let_def)
qed

lemma listing_x:
  assumes "valid_utf8 p" and "clean_path p = Some p"
  shows "trash_list_strict trash_T (ps_disk (purge_from p)) = Inr [item_at p]"
proof -
  have b: "\<not> has_suffix ''b'' meta_suffix" by code_simp
  have "valid_utf8 ''b''" by (rule valid_utf8_ascii) auto
  then have "tl_decode trash_T (tl_encode trash_T (item_at p)) = MetaEntry (item_at p)"
    using trash_T_ok assms(1) by (simp add: trash_lib_ok_def item_at_def)
  then have e: "strict_entry trash_T (items_at p) ''b'' = Inr (item_at p)"
    using assms(2) by (simp add: strict_entry_Inr items_at_def item_at_def file_size_def zero_time_def)
  have sc: "scan_items (items_at p) = Inr ([''b''], [''b''])"
    using b has_suffix_append[of "''b''" meta_suffix] trim_suffix_append[of "''b''" meta_suffix] by (simp add: items_at_def)
  have "tl_sort trash_T k es = sort_key k es" for k es by (simp add: trash_T_def)
  then show ?thesis unfolding trash_list_strict_def purge_from_def by (simp add: sc e)
qed

lemma plan_x:
  assumes "valid_utf8 p" and "clean_path p = Some p" and "has_prefix p ''datasets/x/''"
  shows "plan_purge purge_P ''x'' ''rule'' [] (purge_from p) = Inr (journal_from p)"
proof -
  have rec: "trash_record hist_L (purge_from p) (item_at p) = Inr (record_at p)"
    by (simp add: trash_record_def purge_from_def items_at_def item_at_def record_at_def)
  have paths: "journal_paths (journal_from p) = [''datasets/x.md'', ''datasets/x/a.csv'', ''datasets/x'', p]"
    by (simp add: journal_paths_def journal_from_def record_at_def)
  have pre: "preflight_purge hist_L (journal_paths (journal_from p)) (ph (purge_from p)) = Inr ()"
    unfolding paths by (simp add: preflight_purge_def clean_paths_def clean_x assms(2) purge_from_def hist_0_def)
  have v: "map_of (pv (purge_from p)) ''datasets'' = Some Directory" "map_of (pv (purge_from p)) ''datasets/x.md'' = Some (Regular ''handle'')"
    "ps_ident (purge_from p) = (\<lambda>_. ''1:2'')" by (simp_all add: purge_from_def vault_x_def)
  have lib: "pl_history purge_P = hist_L" "pl_trash purge_P = trash_T" "pl_handle purge_P = (\<lambda>_. Some (''x'', ''rule''))" by (simp_all add: purge_P_def)
  have own: "te_path (item_at p) = p" by (simp add: item_at_def)
  show ?thesis
    using pre by (simp add: plan_purge_def lib v raw_x raw_plan_x listing_x[OF assms(1,2)] own assms(3) rec Let_def journal_from_def)
qed

lemma request_x: "good_request ''x'' ''rule''" unfolding good_request_def by code_simp

lemma hash_hex: "is_hex_id (purge_hash hist_L c)" "is_hex_id (fingerprint (hl_sha hist_L) c rs)"
  using hist_L_ok by (simp_all add: purge_hash_def fingerprint_def is_hex_id_def history_lib_ok_def)

lemma tree_x: "vault_tree vault_x" by code_simp

lemma text_b_csv: "valid_utf8 ''datasets/x/b.csv''" by code_simp

lemma clean_b_csv: "clean_path ''datasets/x/b.csv'' = Some ''datasets/x/b.csv''" by code_simp

lemma start_x: "purge_start purge_P ''x'' ''rule'' [] (purge_from ''datasets/x/b.csv'') (journal_from ''datasets/x/b.csv'')"
proof -
  have under: "has_prefix ''datasets/x/b.csv'' ''datasets/x/''" by code_simp
  have c: "clean_rel ''datasets/x.md'' = ''datasets/x.md''" "clean_rel ''datasets/x/a.csv'' = ''datasets/x/a.csv''"
    "clean_rel ''datasets/x'' = ''datasets/x''" "clean_rel ''datasets/x/b.csv'' = ''datasets/x/b.csv''" by code_simp+
  have v: "valid_journal ''x'' (journal_from ''datasets/x/b.csv'')"
    by (simp add: valid_journal_def journal_from_def valid_path_record_def valid_trash_record_def record_at_def hash_hex raw_x c
        has_prefix_def trim_prefix_def)
  have ok: "store_ok hist_L hist_0" by (rule history_state_ok[OF hist_0_state hist_L_ok])
  have lib: "pl_history purge_P = hist_L" "pl_trash purge_P = trash_T" by (simp_all add: purge_P_def)
  show ?thesis
    using request_x plan_x[OF text_b_csv clean_b_csv under] v tree_x ok trash_T_ok
    by (simp add: purge_start_def lib purge_from_def items_at_def meta_name_longer(3)[symmetric])
qed

lemma oks_x: "pl_rows_ok purge_P" "pl_docs_ok purge_P" by (simp_all add: purge_P_def)

text \<open>An attempt in which the index fails leaves the journal.\<close>

definition begun_x :: purge_state where
  "begun_x = ps_journals_update (AList.update ''x'' (JournalDoc (journal_from ''datasets/x/b.csv''))) (purge_from ''datasets/x/b.csv'')"

lemma attempts_x: "purge_attempts purge_P ''x'' ''rule'' [] (purge_from ''datasets/x/b.csv'') begun_x"
proof (rule purge_attempts.again[OF purge_attempts.none])
  let ?Q = "purge_P\<lparr>pl_rows_ok := False, pl_docs_ok := True\<rparr>"
  have plan: "plan_purge ?Q ''x'' ''rule'' [] (purge_from ''datasets/x/b.csv'') = Inr (journal_from ''datasets/x/b.csv'')"
    unfolding same_plan by (rule start_journal(9)[OF start_x])
  show "begun_x \<in> set (snd (dataset_purge ?Q ''x'' ''rule'' [] (purge_from ''datasets/x/b.csv'')))"
    unfolding begun_run[OF start_x plan] begun_x_def by (intro in_andthen(1)) (simp add: write_journal_def journal_from_def)
qed

theorem dataset_purge_resumes_witness:
  "settled hist_L (journal_from ''datasets/x/b.csv'') (final_of (dataset_purge purge_P ''x'' ''rule'' []) begun_x)"
proof -
  have l: "trash_list_strict (pl_trash purge_P) (ps_disk begun_x) = Inr [item_at ''datasets/x/b.csv'']"
    using listing_x[OF text_b_csv clean_b_csv] by (simp add: purge_P_def begun_x_def)
  have "\<not> settled (pl_history purge_P) (journal_from ''datasets/x/b.csv'') begun_x"
    by (simp add: settled_def begun_x_def journal_from_def update_conv')
  moreover have p: "planned_purge purge_P ''x'' ''rule'' [] (purge_from ''datasets/x/b.csv'') (journal_from ''datasets/x/b.csv'')"
    and v: "valid_journal ''x'' (journal_from ''datasets/x/b.csv'')"
    using start_x by (simp_all add: planned_start)
  ultimately show ?thesis
    using dataset_purge_resumes[OF p oks_x attempts_x l] by (simp add: load_with_journal v) (simp add: purge_P_def)
qed

theorem half_removed_trash_blocks_witness:
  "\<exists>w e. w \<in> set (snd (dataset_purge purge_P ''x'' ''rule'' [] (purge_from ''datasets/x/b.csv''))) \<and>
     result_of (dataset_purge purge_P ''x'' ''rule'' []) w = Inl e"
proof -
  have "pj_trash (journal_from ''datasets/x/b.csv'') \<noteq> []" by (simp add: journal_from_def)
  then obtain w where "w \<in> set (snd (dataset_purge purge_P ''x'' ''rule'' [] (purge_from ''datasets/x/b.csv'')))"
      "\<forall>n. \<exists>e. result_of (dataset_purge purge_P ''x'' ''rule'' []) ((final_of (dataset_purge purge_P ''x'' ''rule'' []) ^^ n) w) = Inl e"
    using half_removed_trash_blocks[OF start_x oks_x] by blast
  then show ?thesis by (metis funpow_0)
qed

text \<open>An attempt goes through, and has removed the raw file.\<close>

theorem dataset_purge_stays_within_witness:
  "\<exists>w r. w = final_of (dataset_purge purge_P ''x'' ''rule'' []) (purge_from ''datasets/x/b.csv'') \<and>
     map_of (pv w) ''datasets/x/a.csv'' = None \<and> r \<in> set (pj_paths (journal_from ''datasets/x/b.csv'')) \<and>
     pp_path r = ''datasets/x/a.csv'' \<and> as_recorded hist_L (purge_from ''datasets/x/b.csv'') r"
proof -
  let ?s = "purge_from ''datasets/x/b.csv''" and ?m = "dataset_purge purge_P ''x'' ''rule'' []"
  let ?w = "final_of ?m ?s"
  have l: "trash_list_strict (pl_trash purge_P) (ps_disk ?s) = Inr [item_at ''datasets/x/b.csv'']"
    using listing_x[OF text_b_csv clean_b_csv] by (simp add: purge_P_def)
  have "\<not> settled (pl_history purge_P) (journal_from ''datasets/x/b.csv'') ?s"
    by (simp add: settled_def index_gone_def purge_from_def journal_from_def)
  then have "settled (pl_history purge_P) (journal_from ''datasets/x/b.csv'') ?w"
    using purge_resumes_facts[OF start_x oks_x purge_attempts.none l] by blast
  then have gone: "map_of (pv ?w) ''datasets/x/a.csv'' = None" by (simp add: settled_def files_gone_def journal_from_def)
  have was: "map_of (pv ?s) ''datasets/x/a.csv'' = Some (Regular ''rows'')" by (simp add: purge_from_def vault_x_def)
  then have changed: "map_of (pv ?w) ''datasets/x/a.csv'' \<noteq> map_of (pv ?s) ''datasets/x/a.csv''" using gone by simp
  then have "?w \<noteq> ?s" by metis
  then have w: "?w \<in> set (snd (?m ?s))" using end_of_in[of ?s "snd (?m ?s)"] by (simp add: final_of_def)
  have t: "trim_space ''x'' = ''x''" "trim_space ''rule'' = ''rule''" using request_x by (simp_all add: good_request_def)
  have "purge_records purge_P ''x'' ''rule'' [] ?s = pj_paths (journal_from ''datasets/x/b.csv'')"
    using start_journal(9,10)[OF start_x] by (simp add: purge_records_def)
  then show ?thesis using dataset_purge_stays_within[OF w changed] gone by (auto simp: t purge_P_def)
qed

theorem deep_trash_unloadable_witness:
  "\<exists>w. w \<in> set (snd (dataset_purge purge_P ''x'' ''rule'' [] (purge_from ''datasets/x/old/b.csv''))) \<and>
     dataset_purge purge_P ''x'' ''rule'' [] w = (Inl BadJournal, [])"
proof -
  let ?p = "''datasets/x/old/b.csv''"
  have p: "valid_utf8 ?p" "clean_path ?p = Some ?p" "has_prefix ?p ''datasets/x/''" by code_simp+
  have l: "load_journal ''x'' (purge_from ?p) = Inr None" by (simp add: load_journal_def purge_from_def)
  have t: "record_at ?p \<in> set (pj_trash (journal_from ?p))" by (simp add: journal_from_def)
  have q: "pt_path (record_at ?p) = raw_prefix ''x'' @ ''old/b.csv''" by (simp add: record_at_def raw_x)
  show ?thesis using deep_trash_unloadable[OF request_x l plan_x[OF p] t q] by auto
qed

end
