(* ===== verification/Spec2Isabelle.thy ===== *)
theory Spec2Isabelle
  imports Prelude Go_Codec Go_Json Replay Event_Codec Members Journal Verifier Rooms Runs Approvals Adapter
    Keyed_Store Permissions Job_Queue Throttle Share_Links Server Server_Security Snapshots Go_Text Vault_Files
    Worker Search_Query Retention Retention_Review Disk_Steps History History_Store History_Safety Strict_History
    Trash Trash_Safety Dataset_Purge Dataset_Plan Dataset_Resume Dataset_Removal
begin

text \<open>
  Symaira Desktop: a Markdown vault with a command line, a self-hosted server and \<open>rooms\<close>.  This
  development models three parts of the Go code: the room (a signed journal written by several
  authors, \<open>src/internal/room\<close>), the self-hosted server with its permissions and its OCR worker
  (\<open>src/internal/selfhost\<close>, \<open>src/internal/permissions\<close>), and of the local application the search query
  language, the retention of documents and datasets, the version history of files and the trash (\<open>src/internal/searchquery\<close>,
  \<open>src/internal/retention\<close>, \<open>src/internal/history\<close>, \<open>src/internal/service/dataset_purge.go\<close>).

  \<^bold>\<open>Foundations.\<close>  \<open>Prelude\<close>: byte strings, \<open>strings.TrimSpace\<close> and the like, errors as
  sums.  \<open>Go_Codec\<close>: hexadecimal, base64, the line scanner with its 64 KiB limit.  \<open>Go_Json\<close>: the
  parts of \<open>encoding/json\<close> the room uses, printing and parsing with their round trips.  \<open>Replay\<close>: the
  locale of a state rebuilt from a list of events, with its invariant principle.  \<open>Keyed_Store\<close>: the
  locale of a store of records under a key, interpreted by lists.  \<open>Go_Text\<close>: the functions of
  \<open>strings\<close> and \<open>path\<close> the application uses.  \<open>Vault_Files\<close>: the files of a vault, read and written,
  and clean relative paths.  \<open>Disk_Steps\<close>: an operation as its result with the disk after each of its
  atomic writes, the invariants kept by every write, and relations between first and last state.

  \<^bold>\<open>The room.\<close>  \<open>Event_Codec\<close> models \<open>event/event.go\<close> and \<open>identity/identity.go\<close>: the canonical
  bytes, signatures and the line of an event.  \<open>Members\<close> models \<open>members/members.go\<close>: the membership
  as a replay of events (\<open>apply_event\<close>, \<open>apply_signed_event\<close>, \<open>apply_signed_event_with_root\<close>); its
  lemmas show who may change the membership.  \<open>Journal\<close> models \<open>journal/journal.go\<close> and \<open>merge.go\<close>: the
  segment files of the authors, the hash chain, the cached tail and Lamport maximum of an open journal,
  and the total order of the merged stream; its lemmas show that publishing extends an intact segment
  and that the caches are transparent.  \<open>Verifier\<close> models \<open>verifier.go\<close> and \<open>log.go\<close> and shows that a
  journal is reported valid exactly when it meets a declarative specification.  \<open>Rooms\<close> models
  \<open>room/*.go\<close>: creating a room, posting, decisions and member management over the files.  \<open>Runs\<close> models
  \<open>run/run.go\<close>, \<open>checkpoint.go\<close> and \<open>wait.go\<close>: runs as a projection of the journal, the life of a run
  (\<open>run_step\<close>) and its checkpoints.  \<open>Approvals\<close> models \<open>approval/approval.go\<close>, and \<open>Adapter\<close>
  \<open>run/adapter.go\<close>, the execution of a run's command.  The components call each other the way the
  code does: an operation reads the configuration, replays the segments into a membership, checks the
  caller and publishes one signed event.

  \<^bold>\<open>The server.\<close>  \<open>Permissions\<close> models \<open>permissions/*.go\<close>: accounts, groups and document rules in
  three JSON files with two caches validated by modification time; \<open>policy_allows\<close> is the abstract
  policy, and the lemmas show that the cached checks decide by it in every reachable state.
  \<open>Job_Queue\<close> models \<open>jobs.go\<close> (leases; \<open>view_step\<close> is the abstract queue), \<open>Throttle\<close> models
  \<open>throttle.go\<close> (with a potential argument for the rate), \<open>Share_Links\<close> the store of \<open>share.go\<close>.
  \<open>Server\<close> composes them into the routes of \<open>server.go\<close>, \<open>upload.go\<close> and \<open>share.go\<close>, and
  \<open>Server_Security\<close> proves what they guarantee together: \<open>serve_route\<close> authenticates a request and
  dispatches it, \<open>serve_calls\<close> runs a sequence of requests.  \<open>Snapshots\<close> models \<open>snapshot.go\<close>, the copy
  of the readable notes with its cache per user, and shows over any sequence of requests that a served
  copy is what the caller may read.  \<open>Worker\<close> models \<open>worker.go\<close> and \<open>ingest/guard.go\<close>: a round of the
  worker is three calls of the server's routes, each delivered or lost.

  \<^bold>\<open>The application.\<close>  \<open>Search_Query\<close> models \<open>query.go\<close>; its parser is a partial function shown to
  return, and inverts the printing of a plan.  \<open>Retention\<close> models \<open>retention.go\<close> and \<open>fingerprint.go\<close>:
  rules, their evaluation, proposals and the history.  \<open>Retention_Review\<close> models the commands that stage
  and accept a proposal (\<open>cmd/symdesk/retention.go\<close>, \<open>service/dataset_retention.go\<close>); an acceptance is a
  trace of its writes, so that its lemmas speak of every point at which it may be interrupted.
  \<open>History\<close> models \<open>history/history.go\<close> and \<open>checkpoint.go\<close>: snapshots of files as blobs under their hash,
  restoring, the checkpoints of a task and their undoing, pruning with the collection of blobs, and the
  purge of paths.  \<open>History_Store\<close> shows that every single write of every operation keeps each snapshot's
  blob, \<open>History_Safety\<close> what pruning, purging and undoing leave in any state that operations, cut off
  anywhere, can reach (\<open>history_state\<close>).  \<open>Trash\<close> models \<open>history/trash.go\<close>, and \<open>Trash_Safety\<close> shows
  that the trash stays an inventory (\<open>inventory\<close>) and that restoring undoes deleting.
  \<open>Dataset_Purge\<close> models \<open>service/dataset_purge.go\<close>, the permanent removal of a dataset by a plan in a journal:
  the index, the files, their versions (\<open>purge_paths\<close>) and the trash, over one state whose parts are those of
  \<open>Trash\<close> and \<open>History\<close>.  \<open>Strict_History\<close> shows that every write of a purge of versions leaves a history that can
  be purged again, \<open>Dataset_Plan\<close> what a plan records, \<open>Dataset_Resume\<close> what each phase does from any state in
  which the journal may be found, and \<open>Dataset_Removal\<close> the properties over any number of interrupted attempts.

  \<^bold>\<open>Conventions.\<close>  A Go string is a list of bytes.  SHA-256 and Ed25519 are the fields of a record
  \<open>crypto\<close>; what is relied on is stated where it is used (\<open>sha_ok\<close>, \<open>keypair\<close>, \<open>short_sigs\<close>).  Clocks,
  random bytes, the TOML and YAML encoders and \<open>sort.Slice\<close> (\<open>sort_ok\<close>) are arguments.  Sequence
  and Lamport numbers and page limits are 64-bit words; times are integers (nanoseconds).  A Go map that is
  iterated is an association list in the order of insertion, as the source does not fix the order.
  A JSON file is missing, unreadable or its decoded content.  Loops are structural recursions or have
  termination proofs; the loop of the query parser is a partial function proved to return; the only fuel is that of the JSON parser, the length of its input, for which
  its round trips show it to be enough.

  \<^bold>\<open>What the properties show.\<close>  The journal stays intact and valid under the operations as long as
  the line of an event can be read back (65535 bytes; a longer event is lost, with all later ones of its author);
  membership changes and approved runs go back to signed events of those
  entitled; the server serves and changes documents only as the policy says, leases are exclusive, links
  end, and requests are slowed down; the worker finishes the oldest waiting job when its work can be done; snapshots are exact while changes are
  noticed; a command is run only for the adapter a run's scope covers; a
  retention action is taken only on the state that was reviewed, and recorded once; the version history
  loses no snapshot it names, whatever is interrupted; a restored file is the deleted one; an interrupted removal of
  a dataset whose journal loads can be taken up again and removes nothing else.  Where the code does not keep such a promise the property says so:
  an unreadable rules file opens every document, the worker routes ignore the rules, a run that was never
  approved is executed, the tag of a snapshot ignores the permissions, an undo fails on a
  recurring or pruned snapshot and then blocks every purge, a removal cut off inside a trash item or whose
  plan took in deep trash cannot be finished.  The conditions of each property (lengths, UTF-8, who else may
  write meanwhile) are named in the text before it.

  \<^bold>\<open>Not modelled.\<close>  I/O errors other than a missing file, locks between processes (operations are
  atomic, races between them are explicit steps where a property is about them), logging, HTTP headers
  and the decoding of bodies; of the server the ingest, command, AI and notebook routes.  Of
  the application everything else: the search index and retrieval, OCR and PDF processing, drawing, mail,
  contacts, exports, configuration, the command lines and the Swift and Rust ports.
\<close>

end
